(* ===== verification/Prelude.thy ===== *)
theory Prelude
  imports Main "HOL-Library.Word"
begin

text \<open>
  Shared material: machine-integer and byte-string types, Rust results with
  panics as a value, the endian conversions of the Rust standard library
  (\<open>to_le_bytes\<close>, \<open>from_le_bytes\<close>, \<open>to_be_bytes\<close>, \<open>from_be_bytes\<close>), and the
  generic lemmas on lists, slices and words that the components share.  The
  collection \<open>byte_simps\<close> is what \<open>simp\<close> needs to compute with encoded
  integers; \<open>wire_simps\<close> collects the length facts of wire formats.
\<close>

unbundle bit_operations_syntax

named_theorems byte_simps "conversions between machine integers and bytes"
named_theorems wire_simps "lengths of the pieces of a wire format"

type_synonym u8 = "8 word"
type_synonym u16 = "16 word"
type_synonym u32 = "32 word"
type_synonym u64 = "64 word"
type_synonym bytes = "8 word list"

section \<open>Results\<close>

text \<open>
  A Rust function that may fail returns \<open>Ok\<close> or \<open>Err\<close>; one that may also hit an
  assertion, an \<open>expect\<close> or an out-of-range index has the third value \<open>Panic\<close>.
\<close>

datatype ('a, 'e) res = Ok 'a | Err 'e | Panic

fun map_ok :: "('a \<Rightarrow> 'b) \<Rightarrow> ('a, 'e) res \<Rightarrow> ('b, 'e) res" where
  "map_ok f (Ok x) = Ok (f x)"
| "map_ok f (Err e) = Err e"
| "map_ok f Panic = Panic"

fun is_panic :: "('a, 'e) res \<Rightarrow> bool" where
  "is_panic Panic = True"
| "is_panic _ = False"

lemma is_panic_iff [simp]: "is_panic r \<longleftrightarrow> r = Panic"
  by (cases r) auto

section \<open>Little- and big-endian integers\<close>

fun nat_of_le :: "bytes \<Rightarrow> nat" where
  "nat_of_le [] = 0"
| "nat_of_le (b # bs) = unat b + 256 * nat_of_le bs"

fun le_of_nat :: "nat \<Rightarrow> nat \<Rightarrow> bytes" where
  "le_of_nat 0 k = []"
| "le_of_nat (Suc n) k = word_of_nat k # le_of_nat n (k div 256)"

definition u16_le :: "u16 \<Rightarrow> bytes" where "u16_le w = le_of_nat 2 (unat w)"
definition u32_le :: "u32 \<Rightarrow> bytes" where "u32_le w = le_of_nat 4 (unat w)"
definition u64_le :: "u64 \<Rightarrow> bytes" where "u64_le w = le_of_nat 8 (unat w)"
definition u16_be :: "u16 \<Rightarrow> bytes" where "u16_be w = rev (le_of_nat 2 (unat w))"
definition u64_be :: "u64 \<Rightarrow> bytes" where "u64_be w = rev (le_of_nat 8 (unat w))"

definition le_u16 :: "bytes \<Rightarrow> u16" where "le_u16 bs = word_of_nat (nat_of_le bs)"
definition le_u32 :: "bytes \<Rightarrow> u32" where "le_u32 bs = word_of_nat (nat_of_le bs)"
definition be_u16 :: "bytes \<Rightarrow> u16" where "be_u16 bs = word_of_nat (nat_of_le (rev bs))"
definition be_u64 :: "bytes \<Rightarrow> u64" where "be_u64 bs = word_of_nat (nat_of_le (rev bs))"

lemma unat_bound: "unat (w :: 'a::len word) < 2 ^ LENGTH('a)"
  by (rule unsigned_less)

lemma length_le_of_nat [simp]: "length (le_of_nat n k) = n"
  by (induction n arbitrary: k) auto

lemma le_of_nat_numeral [byte_simps]:
  "le_of_nat (numeral k) x = word_of_nat x # le_of_nat (pred_numeral k) (x div 256)"
  by (simp only: numeral_eq_Suc [of k] le_of_nat.simps)

lemma unat_byte [simp]: "unat (word_of_nat k :: u8) = k mod 256"
  by (simp add: unat_of_nat)

lemma nat_of_le_of_nat: "nat_of_le (le_of_nat n k) = k mod 256 ^ n"
proof (induction n arbitrary: k)
  case (Suc n)
  have "k mod 256 + 256 * (k div 256 mod 256 ^ n) = k mod (256 * 256 ^ n)"
    by (simp add: mod_mult2_eq)
  with Suc show ?case by simp
qed simp

lemma unat_byte_less: "unat (b :: u8) < 256"
  using unat_bound [of b] by simp

lemma nat_of_le_less: "nat_of_le bs < 256 ^ length bs"
proof (induction bs)
  case (Cons b bs)
  then show ?case using unat_byte_less [of b] by simp
qed simp

lemma le_of_nat_of_le: "length bs = n \<Longrightarrow> le_of_nat n (nat_of_le bs) = bs"
proof (induction bs arbitrary: n)
  case (Cons b bs)
  have "(unat b + 256 * nat_of_le bs) div 256 = nat_of_le bs"
    using unat_byte_less [of b] by simp
  moreover have "word_of_nat (unat b + 256 * nat_of_le bs) = b"
  proof -
    have "unat (word_of_nat (unat b + 256 * nat_of_le bs) :: u8) = unat b"
      using unat_byte_less [of b] by (simp only: unat_byte) simp
    then show ?thesis by (simp only: word_unat_eq_iff)
  qed
  ultimately show ?case using Cons by auto
qed simp

lemma nat_of_le_append: "nat_of_le (xs @ ys) = nat_of_le xs + 256 ^ length xs * nat_of_le ys"
  by (induction xs) (auto simp: algebra_simps)

lemma length_u16_le [simp, wire_simps]: "length (u16_le v) = 2"
  and length_u32_le [simp, wire_simps]: "length (u32_le w) = 4"
  and length_u64_le [simp, wire_simps]: "length (u64_le x) = 8"
  and length_u16_be [simp, wire_simps]: "length (u16_be v) = 2"
  and length_u64_be [simp, wire_simps]: "length (u64_be x) = 8"
  by (simp_all add: u16_le_def u32_le_def u64_le_def u16_be_def u64_be_def)

lemma le_u16_of_u16_le [simp, byte_simps]: "le_u16 (u16_le w) = w"
  using unat_bound [of w] by (simp add: le_u16_def u16_le_def nat_of_le_of_nat)

lemma le_u32_of_u32_le [simp, byte_simps]: "le_u32 (u32_le w) = w"
  using unat_bound [of w] by (simp add: le_u32_def u32_le_def nat_of_le_of_nat)

lemma be_u16_of_u16_be [simp, byte_simps]: "be_u16 (u16_be w) = w"
  using unat_bound [of w] by (simp add: be_u16_def u16_be_def nat_of_le_of_nat)

lemma be_u64_of_u64_be [simp, byte_simps]: "be_u64 (u64_be w) = w"
  using unat_bound [of w] by (simp add: be_u64_def u64_be_def nat_of_le_of_nat)

lemma u64_be_inject [simp]: "u64_be v = u64_be w \<longleftrightarrow> v = w"
  by (metis be_u64_of_u64_be)

lemma unat_u16_of_nat: "n < 65536 \<Longrightarrow> unat (word_of_nat n :: u16) = n"
  by (simp add: unat_of_nat)

lemma unat_u32_of_nat: "n < 4294967296 \<Longrightarrow> unat (word_of_nat n :: u32) = n"
  by (simp add: unat_of_nat)

section \<open>Decimal numbers and ASCII\<close>

text \<open>\<open>to_string\<close> of an integer, and the bytes of a string.\<close>

fun dec_nat :: "nat \<Rightarrow> string" where
  "dec_nat n = (if n < 10 then [char_of (48 + n)] else dec_nat (n div 10) @ [char_of (48 + n mod 10)])"

declare dec_nat.simps [simp del]

definition dec_int :: "int \<Rightarrow> string" where
  "dec_int i = (if i < 0 then CHR ''-'' # dec_nat (nat (- i)) else dec_nat (nat i))"

definition dec_value :: "string \<Rightarrow> nat" where
  "dec_value s = foldl (\<lambda>v c. 10 * v + (of_char c - 48)) 0 s"

definition ascii :: "string \<Rightarrow> bytes" where "ascii s = map (\<lambda>c. word_of_nat (of_char c)) s"

lemma of_char_digit: "d < 10 \<Longrightarrow> of_char (char_of (48 + d :: nat)) = (48 + d :: nat)"
  by simp

lemma dec_value_dec_nat: "dec_value (dec_nat n) = n"
proof (induction n rule: dec_nat.induct)
  case (1 n)
  then show ?case by (simp add: dec_nat.simps [of n] dec_value_def)
qed

lemma dec_nat_digits: "c \<in> set (dec_nat n) \<Longrightarrow> 48 \<le> (of_char c :: nat) \<and> (of_char c :: nat) \<le> 57"
proof (induction n rule: dec_nat.induct)
  case (1 n)
  then show ?case by (auto simp: dec_nat.simps [of n] split: if_splits)
qed

lemma dec_nat_not_Nil [simp]: "dec_nat n \<noteq> []"
  by (simp add: dec_nat.simps [of n])

lemma dec_nat_inject [simp]: "dec_nat m = dec_nat n \<longleftrightarrow> m = n"
  by (metis dec_value_dec_nat)

lemma dec_nat_no_minus: "CHR ''-'' # s \<noteq> dec_nat n"
proof
  assume "CHR ''-'' # s = dec_nat n"
  from this [symmetric] show False using dec_nat_digits [of "CHR ''-''" n] by simp
qed

lemma dec_int_inject [simp]: "dec_int i = dec_int j \<longleftrightarrow> i = j"
  using dec_nat_no_minus by (auto simp: dec_int_def eq_nat_nat_iff dest: sym)

lemma ascii_inject [simp]: "ascii s = ascii t \<longleftrightarrow> s = t"
proof -
  have "inj (\<lambda>c. word_of_nat (of_char c) :: u8)"
  proof (rule injI)
    fix c d :: char
    assume "(word_of_nat (of_char c) :: u8) = word_of_nat (of_char d)"
    then have "(of_char c :: nat) mod 256 = of_char d mod 256" by (metis unat_byte)
    then show "c = d" by simp
  qed
  then show ?thesis by (simp add: ascii_def inj_map_eq_map)
qed

section \<open>Slices and chunks\<close>

definition slice :: "nat \<Rightarrow> nat \<Rightarrow> 'a list \<Rightarrow> 'a list" where
  "slice i j xs = take (j - i) (drop i xs)"

lemma length_slice [simp]: "length (slice i j xs) = min (j - i) (length xs - i)"
  by (simp add: slice_def min.commute)

lemma slice_append_left: "j \<le> length xs \<Longrightarrow> slice i j (xs @ ys) = slice i j xs"
  by (cases "i \<le> length xs") (auto simp: slice_def)

lemma slice_mid: "i = length xs \<Longrightarrow> j = i + length ys \<Longrightarrow> slice i j (xs @ ys @ zs) = ys"
  by (simp add: slice_def)

text \<open>Rust's \<open>slice::chunks(n)\<close>: pieces of length \<open>n\<close>, the last one possibly shorter;
  a chunk size of 0 panics, which callers rule out.\<close>

function chunks :: "nat \<Rightarrow> 'a list \<Rightarrow> 'a list list" where
  "chunks n xs = (if n = 0 \<or> xs = [] then [] else take n xs # chunks n (drop n xs))"
  by pat_completeness auto
termination by (relation "measure (\<lambda>(n, xs). length xs)") auto

declare chunks.simps [simp del]

lemma chunks_Nil [simp]: "chunks n [] = []"
  by (simp add: chunks.simps)

lemma concat_chunks: "0 < n \<Longrightarrow> concat (chunks n xs) = xs"
proof (induction n xs rule: chunks.induct)
  case (1 n xs)
  then show ?case by (cases "xs = []") (auto simp: chunks.simps [of n xs])
qed

lemma chunks_bounds: "0 < n \<Longrightarrow> c \<in> set (chunks n xs) \<Longrightarrow> 0 < length c \<and> length c \<le> n"
proof (induction n xs rule: chunks.induct)
  case (1 n xs)
  then show ?case by (cases "xs = []") (auto simp: chunks.simps [of n xs])
qed

lemma length_chunks: "0 < n \<Longrightarrow> length (chunks n xs) = (length xs + n - 1) div n"
proof (induction n xs rule: chunks.induct)
  case (1 n xs)
  note \<open>0 < n\<close>
  show ?case
  proof (cases "xs = []")
    case False
    then have len: "0 < length xs" by simp
    have IH: "length (chunks n (drop n xs)) = (length (drop n xs) + n - 1) div n"
      using 1 False by simp
    show ?thesis
    proof (cases "length xs \<le> n")
      case True
      have "length xs + n - 1 = n + (length xs - 1)" using len by linarith
      moreover have "(n + (length xs - 1)) div n = 1"
        using len True \<open>0 < n\<close> by (simp only: div_add_self1) (simp add: div_less)
      ultimately have "(length xs + n - 1) div n = 1" by simp
      with IH True False \<open>0 < n\<close> show ?thesis by (simp add: chunks.simps [of n xs])
    next
      case False
      then have "length xs + n - 1 = (length xs - n + n - 1) + n" using \<open>0 < n\<close> by simp
      then have "(length xs + n - 1) div n = (length xs - n + n - 1) div n + 1"
        using \<open>0 < n\<close> by (metis Suc_eq_plus1 div_add_self2 not_gr_zero)
      with IH \<open>xs \<noteq> []\<close> \<open>0 < n\<close> show ?thesis by (simp add: chunks.simps [of n xs])
    qed
  qed (use 1 in \<open>simp add: chunks.simps [of n xs]\<close>)
qed

lemma chunks_short: "xs \<noteq> [] \<Longrightarrow> length xs \<le> n \<Longrightarrow> chunks n xs = [xs]"
  using chunks.simps [of n xs] by (cases xs) auto

lemma sint_word_of_int: "- (2 ^ 31) \<le> x \<Longrightarrow> x < 2 ^ 31 \<Longrightarrow> sint (word_of_int x :: u32) = x"
  by (simp add: signed_of_int signed_take_bit_int_eq_self)

end
