(* ===== verification/Gorand.thy ===== *)
theory Gorand
  imports Prelude "HOL-Library.Multiset"
begin

text \<open>
  Go's \<open>math/rand\<close> (v1) algorithms over a pluggable source, from
  \<open>src/shared/domain/crypto/gorand.rs\<close>, and the two sources of the program's
  randomness helpers in \<open>csrand.rs\<close>.  The trait \<open>Source\<close> is the locale
  \<open>rand_source\<close>: a step function on the source's state that returns a value
  below \<open>2 ^ 63\<close>.  Values of type \<open>i64\<close>, \<open>i32\<close> and \<open>usize\<close> that the code keeps
  non-negative and in range are \<open>int\<close>; the rejection loops may run forever on a
  bad source, so they are partial functions whose \<open>None\<close> is "does not return".
\<close>

section \<open>The algorithms\<close>

type_synonym 's source = "'s \<Rightarrow> int \<times> 's"

definition rand_int63 :: "'s source \<Rightarrow> 's \<Rightarrow> int \<times> 's" where
  "rand_int63 src s = src s"

definition rand_int31 :: "'s source \<Rightarrow> 's \<Rightarrow> int \<times> 's" where
  "rand_int31 src s = (case rand_int63 src s of (v, s') \<Rightarrow> (drop_bit 32 v, s'))"

text \<open>\<open>while v > max { v = draw(); }\<close>\<close>

partial_function (option) reject_above :: "'s source \<Rightarrow> int \<Rightarrow> int \<Rightarrow> 's \<Rightarrow> (int \<times> 's) option" where
  "reject_above draw mx v s =
     (if mx < v then (case draw s of (v', s') \<Rightarrow> reject_above draw mx v' s')
      else Some (v, s))"

text \<open>The assertion \<open>n > 0\<close> is the outer \<open>Panic\<close>; \<open>Ok None\<close> is a loop that never ends.\<close>

definition rand_int63n :: "'s source \<Rightarrow> int \<Rightarrow> 's \<Rightarrow> ((int \<times> 's) option, unit) res" where
  "rand_int63n src n s =
     (if n \<le> 0 then Panic
      else if n AND (n - 1) = 0 then
        (case rand_int63 src s of (v, s') \<Rightarrow> Ok (Some (v AND (n - 1), s')))
      else
        let mx = 2 ^ 63 - 1 - 2 ^ 63 mod n
        in case rand_int63 src s of (v, s') \<Rightarrow>
             Ok (map_option (\<lambda>(v, s). (v mod n, s)) (reject_above (rand_int63 src) mx v s')))"

definition rand_int31n :: "'s source \<Rightarrow> int \<Rightarrow> 's \<Rightarrow> ((int \<times> 's) option, unit) res" where
  "rand_int31n src n s =
     (if n \<le> 0 then Panic
      else if n AND (n - 1) = 0 then
        (case rand_int31 src s of (v, s') \<Rightarrow> Ok (Some (v AND (n - 1), s')))
      else
        let mx = 2 ^ 31 - 1 - 2 ^ 31 mod n
        in case rand_int31 src s of (v, s') \<Rightarrow>
             Ok (map_option (\<lambda>(v, s). (v mod n, s)) (reject_above (rand_int31 src) mx v s')))"

definition rand_intn :: "'s source \<Rightarrow> int \<Rightarrow> 's \<Rightarrow> ((int \<times> 's) option, unit) res" where
  "rand_intn src n s =
     (if n \<le> 0 then Panic
      else if n \<le> 2 ^ 31 - 1 then rand_int31n src n s
      else rand_int63n src n s)"

text \<open>
  \<open>perm\<close>: for \<open>i\<close> in \<open>0..n\<close>, \<open>j = intn(i + 1)\<close>, \<open>m[i] = m[j]; m[j] = i\<close>.  The
  vector starts as \<open>n\<close> zeros.  \<open>i + 1\<close> is positive, so \<open>intn\<close>'s assertion holds and
  an \<open>Ok\<close> is read off; the \<open>Panic\<close> arm is kept.
\<close>

fun perm_from :: "'s source \<Rightarrow> nat \<Rightarrow> nat \<Rightarrow> nat list \<Rightarrow> 's \<Rightarrow> ((nat list \<times> 's) option, unit) res" where
  "perm_from src 0 i m s = Ok (Some (m, s))"
| "perm_from src (Suc k) i m s =
     (case rand_intn src (int i + 1) s of
        Ok (Some (j, s')) \<Rightarrow>
          let m' = m[i := m ! nat j] in perm_from src k (Suc i) (m'[nat j := i]) s'
      | Ok None \<Rightarrow> Ok None
      | Err e \<Rightarrow> Err e
      | Panic \<Rightarrow> Panic)"

definition rand_perm :: "'s source \<Rightarrow> nat \<Rightarrow> 's \<Rightarrow> ((nat list \<times> 's) option, unit) res" where
  "rand_perm src n s = perm_from src n 0 (replicate n 0) s"

text \<open>
  \<open>float64\<close>: \<open>int63() as f64 / (1 << 63) as f64\<close>, drawn again while the quotient
  rounds to 1.  Floating-point arithmetic is a parameter: the conversion, the
  division and the equality test of \<open>f64\<close>.
\<close>

record 'f float_ops =
  f_of_int :: "int \<Rightarrow> 'f"
  f_add :: "'f \<Rightarrow> 'f \<Rightarrow> 'f"
  f_sub :: "'f \<Rightarrow> 'f \<Rightarrow> 'f"
  f_mul :: "'f \<Rightarrow> 'f \<Rightarrow> 'f"
  f_div :: "'f \<Rightarrow> 'f \<Rightarrow> 'f"
  f_less :: "'f \<Rightarrow> 'f \<Rightarrow> bool"
  f_le :: "'f \<Rightarrow> 'f \<Rightarrow> bool"
  f_eq :: "'f \<Rightarrow> 'f \<Rightarrow> bool"

partial_function (option) rand_float64 :: "'f float_ops \<Rightarrow> 's source \<Rightarrow> 's \<Rightarrow> ('f \<times> 's) option" where
  "rand_float64 F src s =
     (case rand_int63 src s of (v, s') \<Rightarrow>
        let f = f_div F (f_of_int F v) (f_of_int F (2 ^ 63))
        in if \<not> f_eq F f (f_of_int F 1) then Some (f, s') else rand_float64 F src s')"

section \<open>csrand: the operating system's source\<close>

text \<open>
  The state is the sequence of byte blocks the operating system will hand out;
  \<open>OsSource\<close> reads eight bytes and clears the top bit.
\<close>

text \<open>\<open>bytes(buf)\<close>: one read of the generator fills the whole buffer; the \<open>i\<close>-th
  element of the supply is what the \<open>i\<close>-th read delivers.\<close>

definition csrand_bytes :: "nat \<Rightarrow> (nat \<Rightarrow> bytes) \<Rightarrow> bytes \<times> (nat \<Rightarrow> bytes)" where
  "csrand_bytes n s = (map (\<lambda>i. if i < length (s 0) then s 0 ! i else 0) [0..<n], \<lambda>i. s (Suc i))"

lemma length_csrand_bytes [simp]: "length (fst (csrand_bytes n s)) = n"
  by (simp add: csrand_bytes_def)

definition os_int63 :: "(nat \<Rightarrow> bytes) source" where
  "os_int63 s = (case csrand_bytes 8 s of (b, s') \<Rightarrow> (uint (be_u64 b AND mask 63), s'))"

definition csrand_intn :: "int \<Rightarrow> (nat \<Rightarrow> bytes) \<Rightarrow> ((int \<times> (nat \<Rightarrow> bytes)) option, unit) res" where
  "csrand_intn n s = rand_intn os_int63 n s"

definition csrand_float64 :: "'f float_ops \<Rightarrow> (nat \<Rightarrow> bytes) \<Rightarrow> ('f \<times> (nat \<Rightarrow> bytes)) option" where
  "csrand_float64 F s = rand_float64 F os_int63 s"

text \<open>Uniform in \<open>[min, max]\<close>; \<open>max >= min\<close> is asserted.\<close>

definition csrand_int_range :: "int \<Rightarrow> int \<Rightarrow> (nat \<Rightarrow> bytes) \<Rightarrow> ((int \<times> (nat \<Rightarrow> bytes)) option, unit) res" where
  "csrand_int_range lo hi s =
     (if hi < lo then Panic
      else map_ok (map_option (\<lambda>(v, s). (v + lo, s))) (csrand_intn (hi + 1 - lo) s))"

section \<open>What holds for every source\<close>

text \<open>The \<open>k\<close>-th value drawn by \<open>draw\<close> from state \<open>s\<close>, and the state after it.\<close>

fun nth_draw :: "'s source \<Rightarrow> nat \<Rightarrow> 's \<Rightarrow> int \<times> 's" where
  "nth_draw draw 0 s = draw s"
| "nth_draw draw (Suc k) s = nth_draw draw k (snd (draw s))"

lemma reject_above_Some:
  assumes ret: "reject_above draw mx v s = Some (r, s')"
    and "v \<in> V" and V: "\<And>s. fst (draw s) \<in> V"
  shows "r \<le> mx \<and> r \<in> V"
proof -
  have "draw = draw \<longrightarrow> v \<in> V \<longrightarrow> r \<le> mx \<and> r \<in> V"
  proof (rule reject_above.raw_induct [where P = "\<lambda>d mx v s q. d = draw \<longrightarrow> v \<in> V \<longrightarrow> fst q \<le> mx \<and> fst q \<in> V",
        OF _ ret, simplified fst_conv])
    fix rec d mx v s q
    assume IH: "\<And>d mx v s q. rec d mx v s = Some q \<Longrightarrow>
        d = draw \<longrightarrow> v \<in> V \<longrightarrow> fst q \<le> mx \<and> fst q \<in> V"
      and eq: "(if mx < v then case d s of (v', s') \<Rightarrow> rec d mx v' s' else Some (v, s)) = Some q"
    show "d = draw \<longrightarrow> v \<in> V \<longrightarrow> fst q \<le> mx \<and> fst q \<in> V"
      using eq IH [of draw mx "fst (draw s)" "snd (draw s)" q] V [of s]
      by (auto split: if_splits prod.splits)
  qed
  with assms(2) show ?thesis by simp
qed

lemma reject_above_returns:
  assumes "v \<le> mx \<or> (\<exists>k. fst (nth_draw draw k s) \<le> mx)"
  shows "\<exists>r. reject_above draw mx v s = Some r"
proof (cases "v \<le> mx")
  case True
  then show ?thesis by (simp add: reject_above.simps)
next
  case False
  with assms obtain k where "fst (nth_draw draw k s) \<le> mx" by blast
  then have "\<exists>r. reject_above draw mx v s = Some r"
  proof (induction k arbitrary: v s)
    case 0
    then have "reject_above draw mx (fst (draw s)) (snd (draw s)) = Some (draw s)"
      by (simp add: reject_above.simps)
    then show ?case
      by (cases "draw s")
        (auto simp: reject_above.simps [of draw mx v] reject_above.simps [of draw mx "fst (draw s)"])
  next
    case (Suc k)
    then obtain r where "reject_above draw mx (fst (draw s)) (snd (draw s)) = Some r"
      by force
    then show ?case
      by (cases "draw s") (simp add: reject_above.simps [of _ _ v])
  qed
  then show ?thesis .
qed

section \<open>The Source trait\<close>

locale rand_source =
  fixes src :: "'s source"
  assumes int63_range: "0 \<le> fst (src s) \<and> fst (src s) < 2 ^ 63"
begin

lemma int31_range: "0 \<le> fst (rand_int31 src s) \<and> fst (rand_int31 src s) < 2 ^ 31"
  using int63_range [of s]
  by (auto simp: rand_int31_def rand_int63_def drop_bit_eq_div split: prod.splits)

lemma int31n_range:
  assumes "rand_int31n src n s = Ok (Some (r, s'))"
  shows "0 \<le> r \<and> r < n"
proof (cases "n AND (n - 1) = 0")
  case True
  with assms have "0 < n" and "r = fst (rand_int31 src s) AND (n - 1)"
    by (auto simp: rand_int31n_def split: prod.splits if_splits)
  moreover have "0 \<le> n - 1" using \<open>0 < n\<close> by simp
  ultimately show ?thesis
    using AND_upper2 [of "n - 1" "fst (rand_int31 src s)"] by simp
next
  case False
  with assms show ?thesis
    by (auto simp: rand_int31n_def Let_def split: prod.splits if_splits)
qed

lemma int63n_range:
  assumes "rand_int63n src n s = Ok (Some (r, s'))"
  shows "0 \<le> r \<and> r < n"
proof (cases "n AND (n - 1) = 0")
  case True
  with assms have "0 < n" and "r = fst (rand_int63 src s) AND (n - 1)"
    by (auto simp: rand_int63n_def split: prod.splits if_splits)
  moreover have "0 \<le> n - 1" using \<open>0 < n\<close> by simp
  ultimately show ?thesis
    using AND_upper2 [of "n - 1" "fst (rand_int63 src s)"] by simp
next
  case False
  with assms show ?thesis
    by (auto simp: rand_int63n_def Let_def split: prod.splits if_splits)
qed

lemma intn_range:
  assumes "rand_intn src n s = Ok (Some (r, s'))"
  shows "0 \<le> r \<and> r < n"
  using assms int31n_range int63n_range by (auto simp: rand_intn_def split: if_splits)

lemma intn_panics_iff: "rand_intn src n s = Panic \<longleftrightarrow> n \<le> 0"
  by (auto simp: rand_intn_def rand_int31n_def rand_int63n_def Let_def split: prod.splits)

lemma intn_not_Err: "rand_intn src n s \<noteq> Err e"
  by (auto simp: rand_intn_def rand_int31n_def rand_int63n_def Let_def split: prod.splits)

text \<open>One round of the shuffle appends \<open>i\<close> and swaps it with a drawn position.\<close>

lemma perm_round:
  assumes "i < length m" and "j \<le> i" and "mset (take i m) = mset [0..<i]"
  shows "mset (take (Suc i) (m[i := m ! j, j := i])) = mset [0..<Suc i]"
proof -
  define q where "q = take i m @ [i]"
  have len: "length (take i m) = i" "length q = Suc i" using assms by (simp_all add: q_def)
  have q: "q ! i = i" "j < i \<Longrightarrow> q ! j = m ! j"
    using len assms(1) by (auto simp: q_def nth_append)
  have "take (Suc i) (m[i := m ! j, j := i]) = (take i m @ [m ! i])[i := m ! j, j := i]"
    using assms by (simp add: take_update_swap take_Suc_conv_app_nth)
  also have "\<dots> = q[i := q ! j, j := q ! i]"
    using len q assms(2) by (cases "j = i") (simp_all add: q_def list_update_append)
  finally have "mset (take (Suc i) (m[i := m ! j, j := i])) = mset q"
    using len assms(2) by (simp add: mset_swap)
  with assms(3) show ?thesis by (simp add: q_def)
qed

lemma perm_from_mset:
  assumes "perm_from src k i m s = Ok (Some (m', s'))"
    and "i + k = length m" and "mset (take i m) = mset [0..<i]"
  shows "length m' = length m \<and> mset m' = mset [0..<length m]"
  using assms
proof (induction k arbitrary: i m s)
  case (Suc k)
  then obtain j t where j: "rand_intn src (int i + 1) s = Ok (Some (j, t))"
    and rest: "perm_from src k (Suc i) (m[i := m ! nat j, nat j := i]) t = Ok (Some (m', s'))"
    by (auto simp: Let_def split: res.splits option.splits)
  have "nat j \<le> i" using intn_range [OF j] by auto
  then have "mset (take (Suc i) (m[i := m ! nat j, nat j := i])) = mset [0..<Suc i]"
    using perm_round [of i m "nat j"] Suc.prems by simp
  from Suc.IH [OF rest _ this] Suc.prems show ?case by simp
qed simp

lemma perm_from_no_panic: "perm_from src k i m s \<noteq> Panic"
proof (induction k arbitrary: i m s)
  case (Suc k)
  have "rand_intn src (int i + 1) s \<noteq> Panic" by (simp add: intn_panics_iff)
  with Suc show ?case by (auto simp: Let_def split: res.split option.split)
qed simp

lemma perm_permutation:
  assumes "rand_perm src n s = Ok (Some (m, s'))"
  shows "length m = n \<and> mset m = mset [0..<n]"
  using perm_from_mset [OF assms [unfolded rand_perm_def]] by simp

lemma perm_distinct:
  assumes "rand_perm src n s = Ok (Some (m, s'))"
  shows "distinct m \<and> set m = {0..<n} \<and> length m = n"
proof -
  note m = perm_permutation [OF assms]
  then have "mset m = mset [0..<n]" by blast
  then have "distinct m" and "set m = {0..<n}"
    using mset_eq_imp_distinct_iff [of m "[0..<n]"] mset_eq_setD [of m "[0..<n]"] by auto
  with m show ?thesis by blast
qed

end

text \<open>
  The fair-draw property, for the source that hands out its state: among the
  \<open>2 ^ 63\<close> possible first draws every residue is hit equally often.
\<close>

definition const_source :: "int source" where
  "const_source s = (s, s)"

lemma and_pred_zero_pow2:
  fixes n :: int
  assumes "0 < n" and "n AND (n - 1) = 0"
  shows "\<exists>k. n = 2 ^ k"
  using assms
proof (induction "nat n" arbitrary: n rule: less_induct)
  case (less n)
  show ?case
  proof (cases "even n")
    case True
    then obtain m where m: "n = 2 * m" by blast
    with less.prems have "0 < m" by simp
    have "n AND (n - 1) = 2 * (m AND (m - 1))"
    proof -
      have "(2 * m - 1) div 2 = m - 1" by simp
      then show ?thesis using m by (subst and_int_rec) simp
    qed
    with less.prems have "m AND (m - 1) = 0" by simp
    with less.hyps [of m] m \<open>0 < m\<close> obtain k where "m = 2 ^ k" by auto
    with m have "n = 2 ^ Suc k" by simp
    then show ?thesis by blast
  next
    case False
    then have "n AND (n - 1) = n - 1"
    proof -
      obtain m where m: "n = 2 * m + 1" using False by (auto elim: oddE)
      then show ?thesis by (subst and_int_rec) simp
    qed
    with less.prems have "n = 2 ^ 0" by simp
    then show ?thesis by blast
  qed
qed

lemma card_residue:
  fixes n q r :: int
  assumes "0 \<le> r" and "r < n" and "0 \<le> q"
  shows "card {v \<in> {0..<n * q}. v mod n = r} = nat q"
proof -
  have "{v \<in> {0..<n * q}. v mod n = r} = (\<lambda>i. n * i + r) ` {0..<q}"
  proof (intro equalityI subsetI)
    fix v assume v: "v \<in> {v \<in> {0..<n * q}. v mod n = r}"
    then have eq: "v = n * (v div n) + r" using mult_div_mod_eq [of n v] by simp
    have "0 \<le> v div n" using v assms by (simp add: pos_imp_zdiv_nonneg_iff)
    moreover have "v div n < q"
    proof (rule ccontr)
      assume "\<not> v div n < q"
      then have "n * q \<le> n * (v div n)" using assms by (intro mult_left_mono) auto
      with eq v assms show False by auto
    qed
    ultimately show "v \<in> (\<lambda>i. n * i + r) ` {0..<q}" using eq by auto
  next
    fix v assume "v \<in> (\<lambda>i. n * i + r) ` {0..<q}"
    then obtain i where "v = n * i + r" and "i \<in> {0..<q}" by (rule imageE)
    then have i: "v = n * i + r" "0 \<le> i" "i < q" by auto
    then have "n * (i + 1) \<le> n * q" using assms by (intro mult_left_mono) auto
    with i assms show "v \<in> {v \<in> {0..<n * q}. v mod n = r}"
      by (auto simp: algebra_simps)
  qed
  moreover have "inj_on (\<lambda>i. n * i + r) {0..<q}" using assms by (auto simp: inj_on_def)
  ultimately show ?thesis by (simp add: card_image)
qed

lemma reject_const:
  assumes "draw s = (v, s)"
  shows "reject_above draw mx v s = (if mx < v then None else Some (v, s))"
proof (cases "mx < v")
  case True
  have "reject_above draw mx v s \<noteq> Some q" for q
  proof
    assume ret: "reject_above draw mx v s = Some q"
    have "draw s = (v, s) \<longrightarrow> \<not> mx < v"
    proof (rule reject_above.raw_induct [where P = "\<lambda>d mx v s q. d s = (v, s) \<longrightarrow> \<not> mx < v", OF _ ret])
      fix rec :: "'a source \<Rightarrow> int \<Rightarrow> int \<Rightarrow> 'a \<Rightarrow> (int \<times> 'a) option" and d mx v s q
      assume IH: "\<And>d mx v s q. rec d mx v s = Some q \<Longrightarrow> d s = (v, s) \<longrightarrow> \<not> mx < v"
        and eq: "(if mx < v then case d s of (v', s') \<Rightarrow> rec d mx v' s' else Some (v, s)) = Some q"
      show "d s = (v, s) \<longrightarrow> \<not> mx < v" using eq IH [of d mx v s q] by auto
    qed
    with assms True show False by simp
  qed
  with True show ?thesis by (metis not_None_eq)
qed (simp add: reject_above.simps)

lemma pow2_dvd: "2 ^ k < (2 :: int) ^ m \<Longrightarrow> (2 :: int) ^ k dvd 2 ^ m"
  by (simp add: le_imp_power_dvd)

text \<open>The draws that yield \<open>r\<close>, for either width: those below the largest multiple of
  \<open>n\<close> that are congruent to \<open>r\<close>.\<close>

lemma draw_residue:
  fixes n r v K :: int
  assumes n: "0 < n" "n < 2 ^ k" and v: "0 \<le> v" "v < 2 ^ k"
  shows "(if n AND (n - 1) = 0 then v AND (n - 1) = r
          else v \<le> 2 ^ k - 1 - 2 ^ k mod n \<and> v mod n = r) \<longleftrightarrow>
         v < n * (2 ^ k div n) \<and> v mod n = r"
proof (cases "n AND (n - 1) = 0")
  case True
  with and_pred_zero_pow2 n obtain j where j: "n = 2 ^ j" by blast
  have "v AND (n - 1) = v mod n"
    using j by (simp flip: mask_eq_exp_minus_1 take_bit_eq_mask add: take_bit_eq_mod)
  moreover have "n * (2 ^ k div n) = 2 ^ k"
    using pow2_dvd [of j k] j n by simp
  ultimately show ?thesis using True v by simp
next
  case False
  have "n * (2 ^ k div n) = 2 ^ k - 2 ^ k mod n"
    using mult_div_mod_eq [of n "2 ^ k"] by linarith
  with False show ?thesis by auto
qed

lemma int31n_const:
  assumes "0 < n"
  shows "rand_int31n const_source n s = Ok (Some (r, s)) \<longleftrightarrow>
    (if n AND (n - 1) = 0 then drop_bit 32 s AND (n - 1) = r
     else drop_bit 32 s \<le> 2 ^ 31 - 1 - 2 ^ 31 mod n \<and> drop_bit 32 s mod n = r)"
  using assms
  by (auto simp: rand_int31n_def rand_int31_def rand_int63_def const_source_def Let_def
      reject_const split: if_splits)

lemma int63n_const:
  assumes "0 < n"
  shows "rand_int63n const_source n s = Ok (Some (r, s)) \<longleftrightarrow>
    (if n AND (n - 1) = 0 then s AND (n - 1) = r
     else s \<le> 2 ^ 63 - 1 - 2 ^ 63 mod n \<and> s mod n = r)"
  using assms
  by (auto simp: rand_int63n_def rand_int63_def const_source_def Let_def
      reject_const split: if_splits)

lemma card_high_bits:
  fixes A :: "int set"
  assumes A: "A \<subseteq> {0..<2 ^ 31}"
  shows "card {s \<in> {0..<2 ^ 63}. drop_bit 32 s \<in> A} = 2 ^ 32 * card A"
proof -
  let ?f = "\<lambda>(v, t). v * 2 ^ 32 + t :: int"
  have "{s \<in> {0..<2 ^ 63}. drop_bit 32 s \<in> A} = ?f ` (A \<times> {0..<2 ^ 32})"
  proof (intro equalityI subsetI)
    fix s assume "s \<in> {s \<in> {0..<2 ^ 63}. drop_bit 32 s \<in> A}"
    then have "s = ?f (drop_bit 32 s, s mod 2 ^ 32)" and "drop_bit 32 s \<in> A"
      by (simp_all add: drop_bit_eq_div)
    then show "s \<in> ?f ` (A \<times> {0..<2 ^ 32})"
      by (intro image_eqI [where x = "(drop_bit 32 s, s mod 2 ^ 32)"]) auto
  next
    fix s assume "s \<in> ?f ` (A \<times> {0..<2 ^ 32})"
    then obtain v t where v: "v \<in> A" and s: "s = v * 2 ^ 32 + t" "0 \<le> t" "t < 2 ^ 32" by auto
    then have "drop_bit 32 s = v" by (simp add: drop_bit_eq_div)
    with v s A show "s \<in> {s \<in> {0..<2 ^ 63}. drop_bit 32 s \<in> A}" by auto
  qed
  moreover have "inj_on ?f (A \<times> {0..<2 ^ 32})"
  proof (rule inj_onI)
    have split: "fst p = ?f p div 2 ^ 32 \<and> snd p = ?f p mod 2 ^ 32" if "p \<in> A \<times> {0..<2 ^ 32}" for p
      using that by auto
    fix p q assume "p \<in> A \<times> {0..<2 ^ 32}" "q \<in> A \<times> {0..<2 ^ 32}" "?f p = ?f q"
    then show "p = q" using split [of p] split [of q] by (intro prod_eqI) simp_all
  qed
  ultimately show ?thesis by (simp add: card_image card_cartesian_product)
qed

lemma intn_const_iff:
  fixes n r s :: int
  assumes "0 < n" and "n < 2 ^ 63" and "0 \<le> s" and "s < 2 ^ 63"
  shows "rand_intn const_source n s = Ok (Some (r, s)) \<longleftrightarrow>
    (if n \<le> 2 ^ 31 - 1
     then drop_bit 32 s < n * (2 ^ 31 div n) \<and> drop_bit 32 s mod n = r
     else s < n * (2 ^ 63 div n) \<and> s mod n = r)"
proof (cases "n \<le> 2 ^ 31 - 1")
  case True
  then have "0 \<le> drop_bit 32 s" "drop_bit 32 s < 2 ^ 31" "n < 2 ^ 31"
    using assms by (simp_all add: drop_bit_eq_div)
  with True assms draw_residue [of n 31 "drop_bit 32 s" r] show ?thesis
    by (simp add: rand_intn_def int31n_const)
next
  case False
  with assms draw_residue [of n 63 s r] show ?thesis
    by (simp add: rand_intn_def int63n_const)
qed

text \<open>
  @@STRIP@@ \<open>intn(n)\<close> has no modulo bias.  Of the \<open>2 ^ 63\<close> values a source can deliver
  first, exactly \<open>2 ^ 32 * (2 ^ 31 div n)\<close> (for \<open>n\<close> in the 31-bit range) or
  \<open>2 ^ 63 div n\<close> (above it) make \<open>intn\<close> accept at once and return \<open>r\<close>: the same
  number for every \<open>r < n\<close>.
\<close>

theorem rand_intn_unbiased:
  fixes n r :: int
  assumes "0 < n" and "n < 2 ^ 63" and "0 \<le> r" and "r < n"
  shows "card {s \<in> {0..<2 ^ 63}. rand_intn const_source n s = Ok (Some (r, s))} =
    (if n \<le> 2 ^ 31 - 1 then 2 ^ 32 * nat (2 ^ 31 div n) else nat (2 ^ 63 div n))"
proof (cases "n \<le> 2 ^ 31 - 1")
  case True
  define A where "A = {v \<in> {0..<n * (2 ^ 31 div n)}. v mod n = r}"
  have bound: "n * (2 ^ 31 div n) \<le> 2 ^ 31" using mult_div_mod_eq [of n "2 ^ 31"] assms(1)
      pos_mod_sign [of n "2 ^ 31"] by linarith
  then have "A \<subseteq> {0..<2 ^ 31}" by (auto simp: A_def)
  moreover have "{s \<in> {0..<2 ^ 63}. rand_intn const_source n s = Ok (Some (r, s))} =
      {s \<in> {0..<2 ^ 63}. drop_bit 32 s \<in> A}"
    using intn_const_iff assms True by (auto simp: A_def)
  moreover have "card A = nat (2 ^ 31 div n)"
    unfolding A_def using assms by (intro card_residue) (auto simp: pos_imp_zdiv_nonneg_iff)
  ultimately show ?thesis using True card_high_bits [of A] by simp
next
  case False
  have "n * (2 ^ 63 div n) \<le> 2 ^ 63" using mult_div_mod_eq [of n "2 ^ 63"] assms(1)
      pos_mod_sign [of n "2 ^ 63"] by linarith
  then have "{s \<in> {0..<2 ^ 63}. rand_intn const_source n s = Ok (Some (r, s))} =
      {s \<in> {0..<n * (2 ^ 63 div n)}. s mod n = r}"
    using intn_const_iff assms False by auto
  moreover have "card \<dots> = nat (2 ^ 63 div n)"
    using assms by (intro card_residue) (auto simp: pos_imp_zdiv_nonneg_iff)
  ultimately show ?thesis using False by simp
qed

lemma rand_intn_unbiased_witness:
  "card {s \<in> {0..<2 ^ 63}. rand_intn const_source 60 s = Ok (Some (59, s))} =
     2 ^ 32 * nat (2 ^ 31 div 60)"
  using rand_intn_unbiased [of 60 59] by simp

section \<open>The operating system's source\<close>

lemma uint_mask63_range: "0 \<le> uint (w AND mask 63 :: u64) \<and> uint (w AND mask 63 :: u64) < 2 ^ 63"
proof -
  have "uint (w AND mask 63) = take_bit 63 (uint w)"
    by (simp flip: take_bit_eq_mask add: unsigned_take_bit_eq)
  then show ?thesis using take_bit_int_less_exp [of 63 "uint w"] by simp
qed

interpretation os_rand: rand_source os_int63
  by unfold_locales (use uint_mask63_range in \<open>auto simp: os_int63_def split: prod.splits simp del: uint_and\<close>)

lemma csrand_int_range_bounds:
  assumes "csrand_int_range lo hi s = Ok (Some (v, s'))"
  shows "lo \<le> v \<and> v \<le> hi"
proof -
  from assms obtain r where "rand_intn os_int63 (hi + 1 - lo) s = Ok (Some (r, s'))"
    and "v = r + lo"
    by (cases "csrand_intn (hi + 1 - lo) s")
      (auto simp: csrand_int_range_def csrand_intn_def split: if_splits)
  with os_rand.intn_range [of "hi + 1 - lo" s r s'] show ?thesis by auto
qed

lemma csrand_int_range_panics_iff: "csrand_int_range lo hi s = Panic \<longleftrightarrow> hi < lo"
  using os_rand.intn_panics_iff [of "hi + 1 - lo" s]
  by (cases "rand_intn os_int63 (hi + 1 - lo) s")
    (auto simp: csrand_int_range_def csrand_intn_def)

end
