(* ===== verification/Drbg.thy ===== *)
theory Drbg
  imports Gorand
begin

text \<open>
  The SipHash-2-4 output-feedback generator of
  \<open>src/shared/domain/crypto/drbg.rs\<close>.  SipHash itself is a third-party crate
  and a parameter: creating a hasher from a 16-byte key, absorbing bytes and
  reading the 64-bit state.  The generator is a \<open>Source\<close>, so the facts of
  \<open>rand_source\<close> hold of it.
\<close>

record 'h sip_ops =
  sip_new :: "bytes \<Rightarrow> 'h"
  sip_write :: "bytes \<Rightarrow> 'h \<Rightarrow> 'h"
  sip_finish :: "'h \<Rightarrow> u64"

definition SEED_LENGTH :: nat where
  "SEED_LENGTH = 16 + 8"

datatype seed_error = SeedLength nat | SeedHex

definition seed_from_bytes :: "bytes \<Rightarrow> (bytes, seed_error) res" where
  "seed_from_bytes src =
     (if length src < SEED_LENGTH then Err (SeedLength (length src))
      else Ok (take SEED_LENGTH src))"

text \<open>\<open>hex\<close> is a third-party crate: decoding is a parameter.\<close>

definition seed_from_hex :: "(string \<Rightarrow> bytes option) \<Rightarrow> string \<Rightarrow> (bytes, seed_error) res" where
  "seed_from_hex hex_decode encoded =
     (case hex_decode encoded of None \<Rightarrow> Err SeedHex | Some bs \<Rightarrow> seed_from_bytes bs)"

definition seed_hex :: "(bytes \<Rightarrow> string) \<Rightarrow> bytes \<Rightarrow> string" where
  "seed_hex hex_encode seed = hex_encode seed"

record 'h hash_drbg =
  sip :: 'h
  ofb :: bytes

definition drbg_new :: "'h sip_ops \<Rightarrow> bytes \<Rightarrow> 'h hash_drbg" where
  "drbg_new S seed = \<lparr>sip = sip_new S (take 16 seed), ofb = drop 16 seed\<rparr>"

definition next_block :: "'h sip_ops \<Rightarrow> 'h hash_drbg \<Rightarrow> bytes \<times> 'h hash_drbg" where
  "next_block S d =
     (let h = sip_write S (ofb d) (sip d);
          o' = u64_le (sip_finish S h)
      in (o', \<lparr>sip = h, ofb = o'\<rparr>))"

definition drbg_int63 :: "'h sip_ops \<Rightarrow> 'h hash_drbg source" where
  "drbg_int63 S d = (case next_block S d of (b, d') \<Rightarrow> (uint (be_u64 b AND mask 63), d'))"

lemma length_next_block [simp]: "length (fst (next_block S d)) = 8"
  by (simp add: next_block_def Let_def)

lemma seed_from_bytes_length: "seed_from_bytes src = Ok s \<Longrightarrow> length s = SEED_LENGTH"
  by (auto simp: seed_from_bytes_def split: if_splits)

lemma seed_from_bytes_exact: "length s = SEED_LENGTH \<Longrightarrow> seed_from_bytes s = Ok s"
  by (simp add: seed_from_bytes_def)

interpretation drbg_rand: rand_source "drbg_int63 S" for S
  by unfold_locales
    (use uint_mask63_range in \<open>auto simp: drbg_int63_def simp del: uint_and split: prod.splits\<close>)

end
