(* ===== verification/ByteBuf.thy ===== *)
theory ByteBuf
  imports Prelude
begin

text \<open>
  The growable FIFO byte buffer of \<open>src/transports/obfs4/domain/buf.rs\<close>: a
  vector with a read offset, compacted lazily.  The interface the rest of obfs4
  relies on (a plain queue of bytes, seen through \<open>as_slice\<close>) is the locale
  \<open>byte_fifo\<close>, interpreted on the buffer below.
\<close>

record buf =
  buf_data :: bytes
  buf_start :: nat

definition buf_default :: buf where
  "buf_default = \<lparr>buf_data = [], buf_start = 0\<rparr>"

definition buf_len :: "buf \<Rightarrow> nat" where
  "buf_len b = length (buf_data b) - buf_start b"

definition buf_is_empty :: "buf \<Rightarrow> bool" where
  "buf_is_empty b \<longleftrightarrow> buf_len b = 0"

definition buf_as_slice :: "buf \<Rightarrow> bytes" where
  "buf_as_slice b = drop (buf_start b) (buf_data b)"

definition buf_extend :: "bytes \<Rightarrow> buf \<Rightarrow> buf" where
  "buf_extend xs b =
     (let b' = (if 0 < buf_start b \<and> length (buf_data b) div 2 \<le> buf_start b
                then \<lparr>buf_data = drop (buf_start b) (buf_data b), buf_start = 0\<rparr> else b)
      in b'\<lparr>buf_data := buf_data b' @ xs\<rparr>)"

text \<open>\<open>None\<close> is the failed assertion \<open>n <= len\<close>.\<close>

definition buf_consume :: "nat \<Rightarrow> buf \<Rightarrow> buf option" where
  "buf_consume n b =
     (if buf_len b < n then None
      else let s = buf_start b + n
           in Some (if s = length (buf_data b) then buf_default
                    else b\<lparr>buf_start := s\<rparr>))"

text \<open>Moves up to \<open>cap\<close> bytes out of the front (\<open>cap\<close> is \<open>out.len()\<close>).\<close>

definition buf_read_into :: "nat \<Rightarrow> buf \<Rightarrow> (bytes \<times> buf) option" where
  "buf_read_into cap b =
     (let n = min cap (buf_len b)
      in map_option (\<lambda>b'. (take n (buf_as_slice b), b')) (buf_consume n b))"

definition buf_clear :: "buf \<Rightarrow> buf" where
  "buf_clear b = buf_default"

text \<open>The offset never passes the end of the data.\<close>

definition buf_inv :: "buf \<Rightarrow> bool" where
  "buf_inv b \<longleftrightarrow> buf_start b \<le> length (buf_data b)"

section \<open>The queue interface\<close>

locale byte_fifo =
  fixes empty :: "'b"
    and extend :: "bytes \<Rightarrow> 'b \<Rightarrow> 'b"
    and consume :: "nat \<Rightarrow> 'b \<Rightarrow> 'b option"
    and view :: "'b \<Rightarrow> bytes"
    and inv :: "'b \<Rightarrow> bool"
  assumes inv_empty: "inv empty"
    and view_empty: "view empty = []"
    and inv_extend: "inv b \<Longrightarrow> inv (extend xs b)"
    and view_extend: "inv b \<Longrightarrow> view (extend xs b) = view b @ xs"
    and consume_ok: "inv b \<Longrightarrow> n \<le> length (view b) \<Longrightarrow>
          \<exists>b'. consume n b = Some b' \<and> inv b' \<and> view b' = drop n (view b)"
    and consume_panics: "inv b \<Longrightarrow> length (view b) < n \<Longrightarrow> consume n b = None"
begin

lemma consume_iff: "inv b \<Longrightarrow> consume n b = None \<longleftrightarrow> length (view b) < n"
  using consume_ok consume_panics by (metis not_less option.distinct(1))

lemma consumeE:
  assumes "inv b" and "n \<le> length (view b)"
  obtains b' where "consume n b = Some b'" and "inv b'" and "view b' = drop n (view b)"
  using consume_ok [OF assms] by blast

text \<open>A run of extends and legal consumes is a queue: what went in, in order, less
  what was taken off the front.\<close>

lemma extend_then_consume:
  assumes "inv b" and "n \<le> length (view b @ xs)"
  shows "\<exists>b'. consume n (extend xs b) = Some b' \<and> inv b' \<and> view b' = drop n (view b @ xs)"
  using consume_ok [OF inv_extend [OF assms(1)], of n xs] assms view_extend [OF assms(1), of xs]
  by simp

end

lemma length_buf_as_slice [simp]: "length (buf_as_slice b) = buf_len b"
  by (simp add: buf_as_slice_def buf_len_def)

interpretation obfs_buf: byte_fifo buf_default buf_extend buf_consume buf_as_slice buf_inv
proof unfold_locales
  fix b n xs
  assume inv: "buf_inv b"
  show "buf_as_slice (buf_extend xs b) = buf_as_slice b @ xs"
    using inv by (auto simp: buf_as_slice_def buf_extend_def buf_inv_def Let_def)
  show "n \<le> length (buf_as_slice b) \<Longrightarrow>
      \<exists>b'. buf_consume n b = Some b' \<and> buf_inv b' \<and> buf_as_slice b' = drop n (buf_as_slice b)"
    using inv by (auto simp: buf_consume_def buf_inv_def buf_as_slice_def buf_len_def
        buf_default_def Let_def add.commute)
qed (auto simp: buf_inv_def buf_default_def buf_extend_def buf_consume_def buf_as_slice_def
    buf_len_def Let_def)

lemmas buf_view_simps = obfs_buf.view_extend obfs_buf.inv_extend obfs_buf.inv_empty
  obfs_buf.view_empty

lemma buf_read_into_spec:
  assumes "buf_inv b"
  shows "\<exists>b'. buf_read_into cap b = Some (take cap (buf_as_slice b), b') \<and> buf_inv b' \<and>
           buf_as_slice b' = drop cap (buf_as_slice b)"
proof -
  let ?n = "min cap (buf_len b)"
  obtain b' where b': "buf_consume ?n b = Some b'" "buf_inv b'"
    "buf_as_slice b' = drop ?n (buf_as_slice b)"
    using obfs_buf.consume_ok [OF assms, of ?n] by auto
  have "take ?n (buf_as_slice b) = take cap (buf_as_slice b)"
    and "drop ?n (buf_as_slice b) = drop cap (buf_as_slice b)"
    by (auto simp: min_def)
  with b' show ?thesis by (auto simp: buf_read_into_def Let_def)
qed

end
