(* ===== verification/StreamDecoder.thy ===== *)
theory StreamDecoder
  imports Prelude
begin

text \<open>
  Incremental decoding of a byte stream: a decoder looks at the bytes buffered so
  far and yields an item, asks for more, or fails.  The laws a decoder must obey so
  that the way the network cuts the stream does not matter are the locale
  \<open>stream_decoder\<close>; its consequence, that feeding the stream in any pieces yields
  the items of the whole stream, is proved once here and used by obfs4's frames and
  packets and by the snowflake encapsulation.
\<close>

datatype ('p, 'e) dstep = More | Got 'p | Fail 'e

text \<open>
  The decoding loop: run the step until it asks for more or fails.  The result is
  the items in order, the failure if any, the decoder and the bytes left.  The fuel
  is the number of items at most produced; a successful step of a
  \<open>stream_decoder\<close> consumes input, so the length of the buffer is enough.
\<close>

fun drain :: "('d \<Rightarrow> bytes \<Rightarrow> ('p, 'e) dstep \<times> 'd \<times> bytes) \<Rightarrow> nat \<Rightarrow> 'd \<Rightarrow> bytes \<Rightarrow>
    'p list \<times> 'e option \<times> 'd \<times> bytes" where
  "drain step 0 d bs = ([], None, d, bs)"
| "drain step (Suc k) d bs =
     (case step d bs of
        (More, d', r) \<Rightarrow> ([], None, d', r)
      | (Fail e, d', r) \<Rightarrow> ([], Some e, d', r)
      | (Got p, d', r) \<Rightarrow> (case drain step k d' r of (ps, e, d'', r') \<Rightarrow> (p # ps, e, d'', r')))"

definition drain_all :: "('d \<Rightarrow> bytes \<Rightarrow> ('p, 'e) dstep \<times> 'd \<times> bytes) \<Rightarrow> 'd \<Rightarrow> bytes \<Rightarrow>
    'p list \<times> 'e option \<times> 'd \<times> bytes" where
  "drain_all step d bs = drain step (Suc (length bs)) d bs"

text \<open>
  Feeding the pieces of a stream one after another: each is appended to what is
  left and the loop runs; nothing is decoded after a failure.
\<close>

fun feed :: "('d \<Rightarrow> bytes \<Rightarrow> ('p, 'e) dstep \<times> 'd \<times> bytes) \<Rightarrow> 'd \<Rightarrow> bytes \<Rightarrow> bytes list \<Rightarrow>
    'p list \<times> 'e option \<times> 'd \<times> bytes" where
  "feed step d buf [] = ([], None, d, buf)"
| "feed step d buf (c # cs) =
     (case drain_all step d (buf @ c) of
        (ps, Some e, d', r) \<Rightarrow> (ps, Some e, d', r @ concat cs)
      | (ps, None, d', r) \<Rightarrow>
          (case feed step d' r cs of (qs, e, d'', r') \<Rightarrow> (ps @ qs, e, d'', r')))"

locale stream_decoder =
  fixes step :: "'d \<Rightarrow> bytes \<Rightarrow> ('p, 'e) dstep \<times> 'd \<times> bytes"
  assumes got_shrinks: "step d bs = (Got p, d', r) \<Longrightarrow> length r < length bs"
    and got_append: "step d bs = (Got p, d', r) \<Longrightarrow> step d (bs @ ys) = (Got p, d', r @ ys)"
    and fail_append: "step d bs = (Fail e, d', r) \<Longrightarrow> step d (bs @ ys) = (Fail e, d', r @ ys)"
    and more_append: "step d bs = (More, d', r) \<Longrightarrow> step d (bs @ ys) = step d' (r @ ys)"
begin

lemma more_again: "step d bs = (More, d', r) \<Longrightarrow> step d' r = (More, d', r)"
  using more_append [of d bs d' r "[]"] by simp

lemma drain_enough: "length bs < k \<Longrightarrow> drain step k d bs = drain_all step d bs"
proof (induction "length bs" arbitrary: bs d k rule: less_induct)
  case less
  obtain k' where k: "k = Suc k'" using less.prems by (cases k) auto
  show ?case
  proof (cases "step d bs")
    case (fields s d' r)
    show ?thesis
    proof (cases s)
      case (Got p)
      then have r: "length r < length bs" using got_shrinks fields by blast
      then have "drain step k' d' r = drain_all step d' r"
        and "drain step (length bs) d' r = drain_all step d' r"
        using less.hyps [of r k'] less.hyps [of r "length bs"] less.prems k by auto
      then show ?thesis using fields Got k by (simp add: drain_all_def)
    qed (use fields k in \<open>simp_all add: drain_all_def\<close>)
  qed
qed

lemma drain_all_simps:
  "step d bs = (More, d', r) \<Longrightarrow> drain_all step d bs = ([], None, d', r)"
  "step d bs = (Fail e, d', r) \<Longrightarrow> drain_all step d bs = ([], Some e, d', r)"
  "step d bs = (Got p, d', r) \<Longrightarrow> drain_all step d bs =
     (case drain_all step d' r of (ps, e, d'', r') \<Rightarrow> (p # ps, e, d'', r'))"
proof -
  assume s: "step d bs = (Got p, d', r)"
  then have "drain step (length bs) d' r = drain_all step d' r"
    using got_shrinks drain_enough by blast
  with s show "drain_all step d bs =
     (case drain_all step d' r of (ps, e, d'', r') \<Rightarrow> (p # ps, e, d'', r'))"
    by (simp add: drain_all_def)
qed (simp_all add: drain_all_def)

text \<open>Bytes that arrive later do not change what was decoded before.\<close>

lemma drain_all_append:
  "drain_all step d (bs @ ys) =
     (case drain_all step d bs of
        (ps, Some e, d', r) \<Rightarrow> (ps, Some e, d', r @ ys)
      | (ps, None, d', r) \<Rightarrow>
          (case drain_all step d' (r @ ys) of (qs, e, d'', r') \<Rightarrow> (ps @ qs, e, d'', r')))"
proof (induction "length bs" arbitrary: bs d rule: less_induct)
  case less
  show ?case
  proof (cases "step d bs")
    case (fields s d' r)
    show ?thesis
    proof (cases s)
      case More
      then have eq: "step d (bs @ ys) = step d' (r @ ys)" using more_append fields by blast
      then have "drain_all step d (bs @ ys) = drain_all step d' (r @ ys)"
      proof (cases "step d' (r @ ys)")
        case inner: (fields s'' d'' r'')
        with eq show ?thesis by (cases s'') (simp_all add: drain_all_simps)
      qed
      with More fields show ?thesis by (simp add: drain_all_simps split: prod.split)
    next
      case (Fail e)
      with fields fail_append [of d bs e d' r ys] show ?thesis by (simp add: drain_all_simps)
    next
      case (Got p)
      then have "step d (bs @ ys) = (Got p, d', r @ ys)" and "length r < length bs"
        using got_append got_shrinks fields by blast+
      with less.hyps [of r d'] Got fields show ?thesis
        by (auto simp: drain_all_simps split: prod.splits option.splits)
    qed
  qed
qed

text \<open>What is left after a run without failure asks for more.\<close>

lemma drain_all_rest: "drain_all step d bs = (ps, None, d', r) \<Longrightarrow> step d' r = (More, d', r)"
proof (induction "length bs" arbitrary: bs d ps rule: less_induct)
  case less
  show ?case
  proof (cases "step d bs")
    case (fields s d1 r1)
    show ?thesis
    proof (cases s)
      case More
      with fields less.prems more_again show ?thesis by (auto simp: drain_all_simps)
    next
      case (Got p)
      then have step: "step d bs = (Got p, d1, r1)" using fields by simp
      with less.prems obtain qs where "drain_all step d1 r1 = (qs, None, d', r)"
        by (auto simp: drain_all_simps split: prod.splits)
      with less.hyps [OF got_shrinks [OF step]] show ?thesis by blast
    qed (use fields less.prems in \<open>auto simp: drain_all_simps\<close>)
  qed
qed

text \<open>The pieces do not matter.\<close>

lemma feed_concat:
  assumes "step d buf = (More, d, buf)"
  shows "feed step d buf cs = drain_all step d (buf @ concat cs)"
  using assms
proof (induction cs arbitrary: d buf)
  case Nil
  then show ?case by (simp add: drain_all_simps)
next
  case (Cons c cs)
  obtain ps e d' r where res: "drain_all step d (buf @ c) = (ps, e, d', r)"
    by (metis prod_cases4)
  show ?case
  proof (cases e)
    case (Some x)
    with res drain_all_append [of d "buf @ c" "concat cs"] show ?thesis by simp
  next
    case None
    then have "step d' r = (More, d', r)" using res drain_all_rest by blast
    with Cons.IH [of d' r] res None drain_all_append [of d "buf @ c" "concat cs"]
    show ?thesis by simp
  qed
qed

text \<open>Decoding a run of encoded items, followed by anything.\<close>

lemma drain_all_items:
  assumes "rel d es = (d', wire)"
    and "\<And>d e es d' wire tail. rel d (e # es) = (d', wire) \<Longrightarrow>
           \<exists>d1 w. step d (wire @ tail) = (Got e, d1, w @ tail) \<and> rel d1 es = (d', w)"
    and "\<And>d d' wire. rel d [] = (d', wire) \<Longrightarrow> d' = d \<and> wire = []"
  shows "drain_all step d (wire @ tail) =
    (case drain_all step d' tail of (ps, e, d'', r) \<Rightarrow> (es @ ps, e, d'', r))"
  using assms(1)
proof (induction es arbitrary: d wire)
  case Nil
  from assms(3) [OF Nil] show ?case by (auto split: prod.splits)
next
  case (Cons e es)
  from assms(2) [OF Cons.prems, of tail] obtain d1 w
    where "step d (wire @ tail) = (Got e, d1, w @ tail)" and "rel d1 es = (d', w)" by blast
  with Cons.IH show ?case by (simp add: drain_all_simps split: prod.splits)
qed

end

text \<open>Post-processing each item with a parser that may reject it keeps the laws.\<close>

definition map_step :: "('p \<Rightarrow> ('e, 'q) sum) \<Rightarrow> ('d \<Rightarrow> bytes \<Rightarrow> ('p, 'e) dstep \<times> 'd \<times> bytes) \<Rightarrow>
    'd \<Rightarrow> bytes \<Rightarrow> ('q, 'e) dstep \<times> 'd \<times> bytes" where
  "map_step f step d bs =
     (case step d bs of
        (More, d', r) \<Rightarrow> (More, d', r)
      | (Fail e, d', r) \<Rightarrow> (Fail e, d', r)
      | (Got p, d', r) \<Rightarrow> ((case f p of Inl e \<Rightarrow> Fail e | Inr q \<Rightarrow> Got q), d', r))"

lemma map_step_cases:
  assumes "map_step f step d bs = (s, d', r)"
  obtains "s = More" and "step d bs = (More, d', r)"
  | e where "s = Fail e" and "step d bs = (Fail e, d', r)"
  | p e where "s = Fail e" and "step d bs = (Got p, d', r)" and "f p = Inl e"
  | p q where "s = Got q" and "step d bs = (Got p, d', r)" and "f p = Inr q"
  using assms by (auto simp: map_step_def split: prod.splits dstep.splits sum.splits)

lemma stream_decoder_map_step:
  assumes "stream_decoder step"
  shows "stream_decoder (map_step f step)"
proof -
  note laws = stream_decoder.got_shrinks [OF assms] stream_decoder.got_append [OF assms]
    stream_decoder.fail_append [OF assms] stream_decoder.more_append [OF assms]
  show ?thesis
  proof
    show "length r < length bs" if "map_step f step d bs = (Got q, d', r)" for d bs q d' r
      using that by (rule map_step_cases) (auto dest: laws)
    show "map_step f step d (bs @ ys) = (Got q, d', r @ ys)"
      if "map_step f step d bs = (Got q, d', r)" for d bs q d' r ys
      using that by (rule map_step_cases) (auto simp: map_step_def laws(2))
    show "map_step f step d (bs @ ys) = (Fail e, d', r @ ys)"
      if "map_step f step d bs = (Fail e, d', r)" for d bs e d' r ys
      using that by (rule map_step_cases) (auto simp: map_step_def laws(2,3))
    show "map_step f step d (bs @ ys) = map_step f step d' (r @ ys)"
      if "map_step f step d bs = (More, d', r)" for d bs d' r ys
      using that by (rule map_step_cases) (auto simp: map_step_def laws(4))
  qed
qed

end
