(* ===== verification/Framing.thy ===== *)
theory Framing
  imports Drbg ByteBuf StreamDecoder
begin

text \<open>
  obfs4 frames, from \<open>src/transports/obfs4/domain/framing.rs\<close>: a two-byte length
  masked with the DRBG, then a NaCl secretbox.  The secretbox is a third-party
  cipher and a parameter (\<open>sb_seal\<close>, \<open>sb_open\<close>, keyed by the raw key); what the
  code relies on is the predicate \<open>secretbox_ok\<close>: opening a sealed box under the
  same key and nonce returns the plaintext, and a box is 16 bytes longer.  The
  decoder is shown to be a \<open>stream_decoder\<close> and to invert the encoder.
\<close>

section \<open>Constants\<close>

definition MAXIMUM_SEGMENT_LENGTH :: nat where "MAXIMUM_SEGMENT_LENGTH = 1500 - (40 + 12)"
definition LENGTH_LENGTH :: nat where "LENGTH_LENGTH = 2"
definition SECRETBOX_OVERHEAD :: nat where "SECRETBOX_OVERHEAD = 16"
definition FRAME_OVERHEAD :: nat where "FRAME_OVERHEAD = LENGTH_LENGTH + SECRETBOX_OVERHEAD"
definition MAXIMUM_FRAME_PAYLOAD_LENGTH :: nat where
  "MAXIMUM_FRAME_PAYLOAD_LENGTH = MAXIMUM_SEGMENT_LENGTH - FRAME_OVERHEAD"
definition KEY_LENGTH_SECRETBOX :: nat where "KEY_LENGTH_SECRETBOX = 32"
definition NONCE_PREFIX_LENGTH :: nat where "NONCE_PREFIX_LENGTH = 16"
definition KEY_LENGTH :: nat where
  "KEY_LENGTH = KEY_LENGTH_SECRETBOX + NONCE_PREFIX_LENGTH + SEED_LENGTH"
definition MAX_FRAME_LENGTH :: u16 where
  "MAX_FRAME_LENGTH = word_of_nat (MAXIMUM_SEGMENT_LENGTH - LENGTH_LENGTH)"
definition MIN_FRAME_LENGTH :: u16 where
  "MIN_FRAME_LENGTH = word_of_nat (FRAME_OVERHEAD - LENGTH_LENGTH)"

lemma frame_consts [simp]:
  "MAXIMUM_SEGMENT_LENGTH = 1448" "LENGTH_LENGTH = 2" "SECRETBOX_OVERHEAD = 16"
  "FRAME_OVERHEAD = 18" "MAXIMUM_FRAME_PAYLOAD_LENGTH = 1430" "KEY_LENGTH_SECRETBOX = 32"
  "NONCE_PREFIX_LENGTH = 16" "SEED_LENGTH = 24" "KEY_LENGTH = 72"
  "MAX_FRAME_LENGTH = 1446" "MIN_FRAME_LENGTH = 16"
  by (simp_all add: MAXIMUM_SEGMENT_LENGTH_def LENGTH_LENGTH_def SECRETBOX_OVERHEAD_def
      FRAME_OVERHEAD_def MAXIMUM_FRAME_PAYLOAD_LENGTH_def KEY_LENGTH_SECRETBOX_def
      NONCE_PREFIX_LENGTH_def SEED_LENGTH_def KEY_LENGTH_def MAX_FRAME_LENGTH_def
      MIN_FRAME_LENGTH_def)

section \<open>Nonces and keys\<close>

datatype frame_error = TagMismatch | NonceCounterWrapped | InvalidPayloadLength nat

record secretbox =
  sb_seal :: "bytes \<Rightarrow> bytes \<Rightarrow> bytes \<Rightarrow> bytes"
  sb_open :: "bytes \<Rightarrow> bytes \<Rightarrow> bytes \<Rightarrow> bytes option"

definition secretbox_ok :: "secretbox \<Rightarrow> bool" where
  "secretbox_ok B \<longleftrightarrow> (\<forall>k n p. sb_open B k n (sb_seal B k n p) = Some p \<and>
                          length (sb_seal B k n p) = length p + 16)"

record box_nonce =
  nonce_prefix :: bytes
  nonce_counter :: u64

definition nonce_new :: "bytes \<Rightarrow> box_nonce" where
  "nonce_new prefix = \<lparr>nonce_prefix = prefix, nonce_counter = 1\<rparr>"

definition nonce_bytes :: "box_nonce \<Rightarrow> (bytes, frame_error) res" where
  "nonce_bytes n =
     (if nonce_counter n = 0 then Err NonceCounterWrapped
      else Ok (nonce_prefix n @ u64_be (nonce_counter n)))"

definition nonce_step :: "box_nonce \<Rightarrow> box_nonce" where
  "nonce_step n = n\<lparr>nonce_counter := nonce_counter n + 1\<rparr>"

text \<open>\<open>split_key\<close> asserts the key length; \<open>None\<close> is that panic.\<close>

definition split_key :: "'h sip_ops \<Rightarrow> bytes \<Rightarrow> (bytes \<times> box_nonce \<times> 'h hash_drbg) option" where
  "split_key S key =
     (if length key \<noteq> KEY_LENGTH then None
      else Some (take KEY_LENGTH_SECRETBOX key,
             nonce_new (slice KEY_LENGTH_SECRETBOX (KEY_LENGTH_SECRETBOX + NONCE_PREFIX_LENGTH) key),
             drbg_new S (drop (KEY_LENGTH_SECRETBOX + NONCE_PREFIX_LENGTH) key)))"

section \<open>Encoder\<close>

record 'h encoder =
  enc_cipher :: bytes
  enc_nonce :: box_nonce
  enc_drbg :: "'h hash_drbg"

definition encoder_new :: "'h sip_ops \<Rightarrow> bytes \<Rightarrow> 'h encoder option" where
  "encoder_new S key =
     (case split_key S key of None \<Rightarrow> None
      | Some (c, n, d) \<Rightarrow> Some \<lparr>enc_cipher = c, enc_nonce = n, enc_drbg = d\<rparr>)"

text \<open>Appends one frame carrying \<open>payload\<close> to \<open>out\<close>.  On an error neither changes.\<close>

definition encode :: "'h sip_ops \<Rightarrow> secretbox \<Rightarrow> 'h encoder \<Rightarrow> bytes \<Rightarrow> bytes \<Rightarrow>
    (bytes \<times> 'h encoder, frame_error) res" where
  "encode S B e payload out =
     (if MAXIMUM_FRAME_PAYLOAD_LENGTH < length payload
      then Err (InvalidPayloadLength (length payload))
      else case nonce_bytes (enc_nonce e) of
        Err x \<Rightarrow> Err x
      | Panic \<Rightarrow> Panic
      | Ok nonce \<Rightarrow>
          let sealed = sb_seal B (enc_cipher e) nonce payload
          in case next_block S (enc_drbg e) of (block, d') \<Rightarrow>
            let len = word_of_nat (length sealed) XOR be_u16 (take 2 block)
            in Ok (out @ u16_be len @ sealed,
                   e\<lparr>enc_nonce := nonce_step (enc_nonce e), enc_drbg := d'\<rparr>))"

section \<open>Decoder\<close>

record 'h decoder =
  dec_cipher :: bytes
  dec_nonce :: box_nonce
  dec_drbg :: "'h hash_drbg"
  next_nonce :: bytes
  next_length :: u16
  next_length_invalid :: bool

definition decoder_new :: "'h sip_ops \<Rightarrow> bytes \<Rightarrow> 'h decoder option" where
  "decoder_new S key =
     (case split_key S key of None \<Rightarrow> None
      | Some (c, n, d) \<Rightarrow> Some \<lparr>dec_cipher = c, dec_nonce = n, dec_drbg = d,
           next_nonce = replicate 24 0, next_length = 0, next_length_invalid = False\<rparr>)"

text \<open>
  The first half of \<open>decode\<close>: unmask the length.  \<open>rl\<close> is what
  \<open>csrand::int_range(MIN, MAX)\<close> returns; it is drawn at most once in the life of a
  decoder, because every later \<open>decode\<close> fails once the length was invalid.
\<close>

definition take_length :: "'h sip_ops \<Rightarrow> u16 \<Rightarrow> bytes \<Rightarrow> 'h decoder \<Rightarrow> frame_error option \<times> 'h decoder" where
  "take_length S rl obfs d =
     (case nonce_bytes (dec_nonce d) of
        Err e \<Rightarrow> (Some e, d)
      | Panic \<Rightarrow> (None, d)
      | Ok nonce \<Rightarrow>
          (case next_block S (dec_drbg d) of (block, drbg') \<Rightarrow>
             let len = be_u16 (take 2 obfs) XOR be_u16 (take 2 block);
                 bad = \<not> (MIN_FRAME_LENGTH \<le> len \<and> len \<le> MAX_FRAME_LENGTH)
             in (None, d\<lparr>next_nonce := nonce, dec_drbg := drbg',
                     next_length_invalid := (if bad then True else next_length_invalid d),
                     next_length := (if bad then rl else len)\<rparr>)))"

text \<open>\<open>Ok None\<close> asks for more data; \<open>Panic\<close> would be \<open>consume\<close>'s assertion.\<close>

definition decode_body :: "secretbox \<Rightarrow> 'h decoder \<Rightarrow> buf \<Rightarrow>
    (bytes option, frame_error) res \<times> 'h decoder \<times> buf" where
  "decode_body B d frames =
     (let n = unat (next_length d)
      in if buf_len frames < n then (Ok None, d, frames)
         else
           let opened = sb_open B (dec_cipher d) (next_nonce d) (take n (buf_as_slice frames))
           in case buf_consume n frames of
                None \<Rightarrow> (Panic, d, frames)
              | Some frames' \<Rightarrow>
                  (case opened of
                     Some p \<Rightarrow>
                       if \<not> next_length_invalid d
                       then (Ok (Some p), d\<lparr>next_length := 0, dec_nonce := nonce_step (dec_nonce d)\<rparr>, frames')
                       else (Err TagMismatch, d, frames')
                   | None \<Rightarrow> (Err TagMismatch, d, frames')))"

definition decode :: "'h sip_ops \<Rightarrow> secretbox \<Rightarrow> u16 \<Rightarrow> 'h decoder \<Rightarrow> buf \<Rightarrow>
    (bytes option, frame_error) res \<times> 'h decoder \<times> buf" where
  "decode S B rl d frames =
     (if next_length d = 0 then
        if buf_len frames < LENGTH_LENGTH then (Ok None, d, frames)
        else
          let obfs = buf_as_slice frames
          in case buf_consume LENGTH_LENGTH frames of
               None \<Rightarrow> (Panic, d, frames)
             | Some frames' \<Rightarrow>
                 (case take_length S rl obfs d of
                    (Some e, d') \<Rightarrow> (Err e, d', frames')
                  | (None, d') \<Rightarrow> decode_body B d' frames')
      else decode_body B d frames)"

section \<open>The decoder on plain byte lists\<close>

text \<open>The same function with the buffer replaced by its contents: a \<open>dstep\<close>.\<close>

definition body_step :: "secretbox \<Rightarrow> 'h decoder \<Rightarrow> bytes \<Rightarrow>
    (bytes, frame_error) dstep \<times> 'h decoder \<times> bytes" where
  "body_step B d bs =
     (let n = unat (next_length d)
      in if length bs < n then (More, d, bs)
         else case sb_open B (dec_cipher d) (next_nonce d) (take n bs) of
             Some p \<Rightarrow> if \<not> next_length_invalid d
               then (Got p, d\<lparr>next_length := 0, dec_nonce := nonce_step (dec_nonce d)\<rparr>, drop n bs)
               else (Fail TagMismatch, d, drop n bs)
           | None \<Rightarrow> (Fail TagMismatch, d, drop n bs))"

definition frame_step :: "'h sip_ops \<Rightarrow> secretbox \<Rightarrow> u16 \<Rightarrow> 'h decoder \<Rightarrow> bytes \<Rightarrow>
    (bytes, frame_error) dstep \<times> 'h decoder \<times> bytes" where
  "frame_step S B rl d bs =
     (if next_length d = 0 then
        if length bs < LENGTH_LENGTH then (More, d, bs)
        else case take_length S rl bs d of
            (Some e, d') \<Rightarrow> (Fail e, d', drop LENGTH_LENGTH bs)
          | (None, d') \<Rightarrow> body_step B d' (drop LENGTH_LENGTH bs)
      else body_step B d bs)"

fun dstep_of :: "('a option, 'e) res \<Rightarrow> ('a, 'e) dstep" where
  "dstep_of (Ok None) = More"
| "dstep_of (Ok (Some p)) = Got p"
| "dstep_of (Err e) = Fail e"
| "dstep_of Panic = More"

lemma decode_body_refines:
  assumes inv: "buf_inv g"
  shows "\<exists>r d' g'. decode_body B d g = (r, d', g') \<and> r \<noteq> Panic \<and> buf_inv g' \<and>
           body_step B d (buf_as_slice g) = (dstep_of r, d', buf_as_slice g')"
proof (cases "buf_len g < unat (next_length d)")
  case True
  with inv show ?thesis by (simp add: decode_body_def body_step_def)
next
  case False
  then obtain g' where "buf_consume (unat (next_length d)) g = Some g'" "buf_inv g'"
    "buf_as_slice g' = drop (unat (next_length d)) (buf_as_slice g)"
    using obfs_buf.consume_ok [OF inv, of "unat (next_length d)"] by auto
  with False show ?thesis by (auto simp: decode_body_def body_step_def Let_def split: option.splits)
qed

lemma decode_refines_frame_step:
  assumes "buf_inv frames"
  shows "\<exists>r d' frames'. decode S B rl d frames = (r, d', frames') \<and> r \<noteq> Panic \<and> buf_inv frames' \<and>
           frame_step S B rl d (buf_as_slice frames) = (dstep_of r, d', buf_as_slice frames')"
proof (cases "next_length d = 0 \<and> 2 \<le> buf_len frames")
  case True
  then obtain frames' where "buf_consume 2 frames = Some frames'" "buf_inv frames'"
    "buf_as_slice frames' = drop 2 (buf_as_slice frames)"
    using obfs_buf.consume_ok [OF assms, of 2] by auto
  with True decode_body_refines [of frames' B "snd (take_length S rl (buf_as_slice frames) d)"]
  show ?thesis
    by (cases "take_length S rl (buf_as_slice frames) d")
      (auto simp: decode_def frame_step_def split: option.splits)
next
  case False
  with assms decode_body_refines [of frames B d] show ?thesis
    by (auto simp: decode_def frame_step_def)
qed

section \<open>The decoder does not depend on how the stream is cut\<close>

lemma take_length_append:
  "2 \<le> length bs \<Longrightarrow> take_length S rl (bs @ ys) d = take_length S rl bs d"
proof -
  assume "2 \<le> length bs"
  then have "take 2 (bs @ ys) = take 2 bs" by simp
  then show ?thesis unfolding take_length_def by presburger
qed

lemma body_step_append:
  "body_step B d bs = (Got p, d', r) \<Longrightarrow> body_step B d (bs @ ys) = (Got p, d', r @ ys)"
  "body_step B d bs = (Fail e, d', r) \<Longrightarrow> body_step B d (bs @ ys) = (Fail e, d', r @ ys)"
  "body_step B d bs = (More, d', r) \<Longrightarrow> d' = d \<and> r = bs"
  by (auto simp: body_step_def Let_def split: if_splits option.splits)

lemma body_step_shrinks: "body_step B d bs = (Got p, d', r) \<Longrightarrow> length r \<le> length bs \<and>
   (next_length d \<noteq> 0 \<longrightarrow> length r < length bs)"
  using unat_gt_0 [of "next_length d"]
  by (fastforce simp: body_step_def Let_def split: if_splits option.splits)

text \<open>With a drawn length that is never 0, the pending length is the state's own marker
  for "the length was read".\<close>

lemma take_length_next:
  assumes "take_length S rl bs d = (None, d')" and "rl \<noteq> 0"
  shows "next_length d' \<noteq> 0"
  using assms by (auto simp: take_length_def nonce_bytes_def Let_def split: if_splits prod.splits)

lemma frame_stream_decoder:
  assumes "rl \<noteq> 0"
  shows "stream_decoder (frame_step S B rl)"
proof
  fix d bs d' r ys and p :: bytes and e
  show "length r < length bs" if "frame_step S B rl d bs = (Got p, d', r)"
    using that by (auto simp: frame_step_def dest!: body_step_shrinks split: if_splits prod.splits option.splits)
  show "frame_step S B rl d (bs @ ys) = (Got p, d', r @ ys)"
    if "frame_step S B rl d bs = (Got p, d', r)"
    using that by (auto simp: frame_step_def take_length_append body_step_append(1) split: if_splits prod.splits option.splits)
  show "frame_step S B rl d (bs @ ys) = (Fail e, d', r @ ys)"
    if "frame_step S B rl d bs = (Fail e, d', r)"
    using that by (auto simp: frame_step_def take_length_append body_step_append(2) split: if_splits prod.splits option.splits)
  show "frame_step S B rl d (bs @ ys) = frame_step S B rl d' (r @ ys)"
    if "frame_step S B rl d bs = (More, d', r)"
    using that by (auto simp: frame_step_def take_length_append dest!: body_step_append(3)
        dest: take_length_next [OF _ assms] split: if_splits prod.splits option.splits)
qed

text \<open>Every value \<open>csrand::int_range(MIN_FRAME_LENGTH, MAX_FRAME_LENGTH)\<close> can return.\<close>

definition drawn_length :: "nat \<Rightarrow> u16" where
  "drawn_length k = word_of_nat (16 + k mod 1431)"

lemma drawn_length_range: "16 \<le> unat (drawn_length k) \<and> unat (drawn_length k) \<le> 1446"
proof -
  have "16 + k mod 1431 < 65536" and "k mod 1431 \<le> 1430"
    using mod_less_divisor [of 1431 k] by linarith+
  then show ?thesis by (simp only: drawn_length_def unat_u16_of_nat) simp
qed

lemma drawn_length_nonzero: "drawn_length k \<noteq> 0"
  using drawn_length_range [of k] by auto

interpretation frames: stream_decoder "frame_step S B (drawn_length k)" for S B k
  by (rule frame_stream_decoder) (rule drawn_length_nonzero)

section \<open>Encoder and decoder in step\<close>

definition in_sync :: "'h encoder \<Rightarrow> 'h decoder \<Rightarrow> bool" where
  "in_sync e d \<longleftrightarrow> enc_cipher e = dec_cipher d \<and> enc_nonce e = dec_nonce d \<and>
     enc_drbg e = dec_drbg d \<and> next_length d = 0 \<and> \<not> next_length_invalid d"

lemma new_in_sync:
  assumes "encoder_new S key = Some e" and "decoder_new S key = Some d"
  shows "in_sync e d"
  using assms by (auto simp: encoder_new_def decoder_new_def in_sync_def split: option.splits)

lemma new_succeeds: "length key = 72 \<Longrightarrow> \<exists>e d. encoder_new S key = Some e \<and> decoder_new S key = Some d"
  by (simp add: encoder_new_def decoder_new_def split_key_def)

text \<open>A successful \<open>encode\<close>: what it appends and how the encoder advances.\<close>

lemma encode_Ok:
  assumes "encode S B e p out = Ok (out', e')"
  obtains nonce block d' len where "length p \<le> 1430"
    and "nonce_bytes (enc_nonce e) = Ok nonce"
    and "next_block S (enc_drbg e) = (block, d')"
    and "len = word_of_nat (length (sb_seal B (enc_cipher e) nonce p)) XOR be_u16 (take 2 block)"
    and "out' = out @ u16_be len @ sb_seal B (enc_cipher e) nonce p"
    and "e' = e\<lparr>enc_nonce := nonce_step (enc_nonce e), enc_drbg := d'\<rparr>"
  using assms by (auto simp: encode_def Let_def split: if_splits res.splits prod.splits)

lemma encode_no_panic: "encode S B e p out \<noteq> Panic"
  by (auto simp: encode_def nonce_bytes_def Let_def split: prod.splits)

lemma encode_total:
  "length p \<le> 1430 \<Longrightarrow> nonce_counter (enc_nonce e) \<noteq> 0 \<Longrightarrow>
     \<exists>out' e'. encode S B e p out = Ok (out', e')"
  by (auto simp: encode_def nonce_bytes_def Let_def split: prod.splits)

lemma encode_length:
  assumes "secretbox_ok B" and "encode S B e p out = Ok (out', e')"
  shows "length out' = length out + length p + FRAME_OVERHEAD"
proof -
  have seal: "length (sb_seal B k n p) = length p + 16" for k n
    using assms(1) by (simp add: secretbox_ok_def)
  show ?thesis using assms(2) by (rule encode_Ok) (simp add: seal)
qed

lemma take_u16_be: "take 2 (u16_be w @ xs) = u16_be w"
  by simp

lemma drop_u16_be: "drop 2 (u16_be w @ xs) = xs"
  by simp

lemma word_of_nat_u16_range:
  "16 \<le> n \<Longrightarrow> n \<le> 1446 \<Longrightarrow> (16 :: u16) \<le> word_of_nat n \<and> (word_of_nat n :: u16) \<le> 1446"
  by (simp add: word_le_nat_alt unat_u16_of_nat)

lemma frame_step_encode:
  assumes box: "secretbox_ok B" and sync: "in_sync e d"
    and enc: "encode S B e p out = Ok (out', e')"
  obtains w d' where "out' = out @ w" and "in_sync e' d'"
    and "\<And>tail rl. frame_step S B rl d (w @ tail) = (Got p, d', tail)"
proof -
  from enc obtain nonce block drbg' len where p: "length p \<le> 1430"
    and nonce: "nonce_bytes (enc_nonce e) = Ok nonce"
    and block: "next_block S (enc_drbg e) = (block, drbg')"
    and len: "len = word_of_nat (length (sb_seal B (enc_cipher e) nonce p)) XOR be_u16 (take 2 block)"
    and out': "out' = out @ u16_be len @ sb_seal B (enc_cipher e) nonce p"
    and e': "e' = e\<lparr>enc_nonce := nonce_step (enc_nonce e), enc_drbg := drbg'\<rparr>"
    by (rule encode_Ok)
  define sealed where "sealed = sb_seal B (enc_cipher e) nonce p"
  have L: "length sealed = length p + 16" and opens: "sb_open B (enc_cipher e) nonce sealed = Some p"
    using box by (simp_all add: sealed_def secretbox_ok_def)
  define m where "m = (word_of_nat (length p + 16) :: u16)"
  have m: "16 \<le> m" "m \<le> 1446" "unat m = length p + 16"
    using p word_of_nat_u16_range [of "length p + 16"] unat_u16_of_nat [of "length p + 16"]
    by (simp_all add: m_def)
  have unmask: "len XOR be_u16 (take 2 block) = m"
    using len L by (simp add: sealed_def m_def xor.assoc)
  define d1 where "d1 = d\<lparr>next_nonce := nonce, dec_drbg := drbg', next_length := m\<rparr>"
  define d' where "d' = d1\<lparr>next_length := 0, dec_nonce := nonce_step (dec_nonce d1)\<rparr>"
  have "frame_step S B rl d ((u16_be len @ sealed) @ tail) = (Got p, d', tail)" for rl tail
  proof -
    have "take_length S rl (u16_be len @ sealed @ tail) d = (None, d1)"
      using sync nonce block unmask m
      by (simp add: take_length_def in_sync_def d1_def)
    moreover have "body_step B d1 (sealed @ tail) = (Got p, d', tail)"
      using sync opens L m by (simp add: body_step_def d1_def d'_def in_sync_def)
    ultimately show ?thesis using sync by (simp add: frame_step_def in_sync_def)
  qed
  moreover have "in_sync e' d'"
    using sync e' by (simp add: in_sync_def d'_def d1_def)
  ultimately show ?thesis using that [of "u16_be len @ sealed" d'] out' sealed_def by simp
qed

section \<open>Runs of frames\<close>

text \<open>A sender that encodes payloads one after another into one buffer.\<close>

fun encode_all :: "'h sip_ops \<Rightarrow> secretbox \<Rightarrow> 'h encoder \<Rightarrow> bytes list \<Rightarrow> bytes \<Rightarrow>
    (bytes \<times> 'h encoder, frame_error) res" where
  "encode_all S B e [] out = Ok (out, e)"
| "encode_all S B e (p # ps) out =
     (case encode S B e p out of
        Ok (out', e') \<Rightarrow> encode_all S B e' ps out'
      | Err x \<Rightarrow> Err x
      | Panic \<Rightarrow> Panic)"

lemma encode_out: "encode S B e p out = map_ok (\<lambda>(w, e'). (out @ w, e')) (encode S B e p [])"
  by (auto simp: encode_def Let_def split: res.splits prod.splits)

lemma encode_all_out:
  "encode_all S B e ps out = map_ok (\<lambda>(w, e'). (out @ w, e')) (encode_all S B e ps [])"
proof (induction ps arbitrary: e out)
  case (Cons p ps)
  show ?case
  proof (cases "encode S B e p []")
    case (Ok q)
    obtain w1 e1 where q: "q = (w1, e1)" by force
    have "encode_all S B e (p # ps) out = encode_all S B e1 ps (out @ w1)"
      using Ok q encode_out [of S B e p out] by simp
    also have "\<dots> = map_ok (\<lambda>(w, e'). (out @ w, e')) (encode_all S B e1 ps w1)"
      using Cons.IH [of e1 "out @ w1"] Cons.IH [of e1 w1]
      by (cases "encode_all S B e1 ps []") auto
    finally show ?thesis using Ok q by simp
  qed (use encode_out [of S B e p out] in simp_all)
qed simp

lemma encode_all_Cons:
  assumes "encode_all S B e (p # ps) [] = Ok (wire, e'')"
  obtains w1 e1 w2 where "encode S B e p [] = Ok (w1, e1)"
    and "encode_all S B e1 ps [] = Ok (w2, e'')" and "wire = w1 @ w2"
proof (cases "encode S B e p []")
  case (Ok q)
  then obtain w1 e1 where q: "encode S B e p [] = Ok (w1, e1)" by force
  with assms have "encode_all S B e1 ps w1 = Ok (wire, e'')" by simp
  with encode_all_out [of S B e1 ps w1] obtain w2
    where "encode_all S B e1 ps [] = Ok (w2, e'')" "wire = w1 @ w2"
    by (cases "encode_all S B e1 ps []") auto
  with q that show ?thesis by blast
qed (use assms in simp_all)

lemma drain_encoded:
  assumes box: "secretbox_ok B" and rl: "rl \<noteq> 0"
    and "in_sync e d" and "encode_all S B e ps [] = Ok (wire, e')"
  shows "\<exists>d'. in_sync e' d' \<and> (\<forall>tail. drain_all (frame_step S B rl) d (wire @ tail) =
    (case drain_all (frame_step S B rl) d' tail of (qs, x, d'', r) \<Rightarrow> (ps @ qs, x, d'', r)))"
  using assms(3,4)
proof (induction ps arbitrary: e d wire)
  case Nil
  then show ?case by (auto split: prod.splits)
next
  case (Cons p ps)
  from Cons.prems(2) obtain w1 e1 w2 where p: "encode S B e p [] = Ok (w1, e1)"
    and ps: "encode_all S B e1 ps [] = Ok (w2, e')" and wire: "wire = w1 @ w2"
    by (rule encode_all_Cons)
  obtain d1 where d1: "in_sync e1 d1"
    "\<And>rl tail. frame_step S B rl d (w1 @ tail) = (Got p, d1, tail)"
    using frame_step_encode [OF box Cons.prems(1) p] by (metis append_Nil)
  from Cons.IH [OF d1(1) ps] obtain d' where "in_sync e' d'"
    and "\<forall>tail. drain_all (frame_step S B rl) d1 (w2 @ tail) =
      (case drain_all (frame_step S B rl) d' tail of (qs, x, d'', r) \<Rightarrow> (ps @ qs, x, d'', r))"
    by blast
  moreover have "drain_all (frame_step S B rl) d (wire @ tail) =
      (case drain_all (frame_step S B rl) d1 (w2 @ tail) of (qs, x, d'', r) \<Rightarrow> (p # qs, x, d'', r))"
    for tail
    using stream_decoder.drain_all_simps(3) [OF frame_stream_decoder [OF rl] d1(2) [of rl "w2 @ tail"]]
      wire by simp
  ultimately show ?case by (intro exI [of _ d']) (auto split: prod.splits)
qed

lemma frame_step_idle: "next_length d = 0 \<Longrightarrow> frame_step S B rl d [] = (More, d, [])"
  by (simp add: frame_step_def)

lemma frame_step_segmentation:
  assumes "secretbox_ok B" and "rl \<noteq> 0" and sync: "in_sync e d"
    and "encode_all S B e ps [] = Ok (wire, e')" and "concat pieces = wire"
  shows "\<exists>d'. feed (frame_step S B rl) d [] pieces = (ps, None, d', []) \<and> in_sync e' d'"
proof -
  note dec = frame_stream_decoder [OF assms(2), of S B]
  from drain_encoded [OF assms(1,2) sync assms(4)] obtain d' where d': "in_sync e' d'"
    and all: "drain_all (frame_step S B rl) d (wire @ []) =
      (case drain_all (frame_step S B rl) d' [] of (qs, x, d'', r) \<Rightarrow> (ps @ qs, x, d'', r))"
    by blast
  have idle: "frame_step S B rl d' [] = (More, d', [])" "frame_step S B rl d [] = (More, d, [])"
    using d' sync by (simp_all add: in_sync_def frame_step_idle)
  have "drain_all (frame_step S B rl) d' [] = ([], None, d', [])"
    using idle(1) by (rule stream_decoder.drain_all_simps(1) [OF dec])
  with all have "drain_all (frame_step S B rl) d wire = (ps, None, d', [])" by simp
  moreover have "feed (frame_step S B rl) d [] pieces = drain_all (frame_step S B rl) d wire"
    using stream_decoder.feed_concat [OF dec idle(2), of pieces] assms(5) by simp
  ultimately show ?thesis using d' by auto
qed

section \<open>A receiver that calls \<open>decode\<close>\<close>

text \<open>
  The way a connection drives the decoder: the bytes of a read are appended to the
  buffer and \<open>decode\<close> is called until it asks for more or fails.  The second
  component is how the loop ended; running out of fuel is reported like a panic,
  so that a result \<open>Ok ()\<close> is a run that really came to its end.
\<close>

fun decode_loop :: "'h sip_ops \<Rightarrow> secretbox \<Rightarrow> u16 \<Rightarrow> nat \<Rightarrow> 'h decoder \<Rightarrow> buf \<Rightarrow>
    bytes list \<times> (unit, frame_error) res \<times> 'h decoder \<times> buf" where
  "decode_loop S B rl 0 d b = ([], Panic, d, b)"
| "decode_loop S B rl (Suc k) d b =
     (case decode S B rl d b of
        (Ok None, d', b') \<Rightarrow> ([], Ok (), d', b')
      | (Ok (Some p), d', b') \<Rightarrow>
          (case decode_loop S B rl k d' b' of (ps, x, d'', b'') \<Rightarrow> (p # ps, x, d'', b''))
      | (Err e, d', b') \<Rightarrow> ([], Err e, d', b')
      | (Panic, d', b') \<Rightarrow> ([], Panic, d', b'))"

fun decode_pieces :: "'h sip_ops \<Rightarrow> secretbox \<Rightarrow> u16 \<Rightarrow> 'h decoder \<Rightarrow> buf \<Rightarrow> bytes list \<Rightarrow>
    bytes list \<times> (unit, frame_error) res \<times> 'h decoder \<times> buf" where
  "decode_pieces S B rl d b [] = ([], Ok (), d, b)"
| "decode_pieces S B rl d b (c # cs) =
     (let b1 = buf_extend c b
      in case decode_loop S B rl (Suc (buf_len b1)) d b1 of
           (ps, Ok (), d', b') \<Rightarrow>
             (case decode_pieces S B rl d' b' cs of (qs, x, d'', b'') \<Rightarrow> (ps @ qs, x, d'', b''))
         | (ps, x, d', b') \<Rightarrow> (ps, x, d', b'))"

lemma decode_loop_drain:
  assumes "rl \<noteq> 0" and "buf_inv b" and "buf_len b < k"
    and "drain (frame_step S B rl) k d (buf_as_slice b) = (ps, None, d', r)"
  shows "\<exists>b'. decode_loop S B rl k d b = (ps, Ok (), d', b') \<and> buf_inv b' \<and> buf_as_slice b' = r"
  using assms(2-)
proof (induction k arbitrary: b d ps)
  case (Suc k)
  obtain s d1 b1 where dec: "decode S B rl d b = (s, d1, b1)" "s \<noteq> Panic" "buf_inv b1"
    and step: "frame_step S B rl d (buf_as_slice b) = (dstep_of s, d1, buf_as_slice b1)"
    using decode_refines_frame_step [OF Suc.prems(1)] by metis
  show ?case
  proof (cases s rule: dstep_of.cases)
    case (2 p)
    then have "buf_len b1 < k"
      using stream_decoder.got_shrinks [OF frame_stream_decoder [OF assms(1)], of S B d "buf_as_slice b"]
        step Suc.prems(2) by auto
    moreover obtain qs where "drain (frame_step S B rl) k d1 (buf_as_slice b1) = (qs, None, d', r)"
      and "ps = p # qs"
      using Suc.prems(3) step 2 by (auto split: prod.splits)
    ultimately show ?thesis using Suc.IH [OF dec(3)] dec(1) 2 by force
  qed (use dec step Suc.prems(3) in auto)
qed simp

lemma decode_pieces_feed:
  assumes "rl \<noteq> 0" and "buf_inv b"
    and "feed (frame_step S B rl) d (buf_as_slice b) pieces = (ps, None, d', r)"
  shows "\<exists>b'. decode_pieces S B rl d b pieces = (ps, Ok (), d', b') \<and> buf_inv b' \<and> buf_as_slice b' = r"
  using assms(2-)
proof (induction pieces arbitrary: b d ps)
  case (Cons c cs)
  define b1 where "b1 = buf_extend c b"
  have b1: "buf_inv b1" "buf_as_slice b1 = buf_as_slice b @ c"
    using Cons.prems(1) by (simp_all add: b1_def buf_view_simps)
  obtain qs d2 r2 qs' where dr: "drain_all (frame_step S B rl) d (buf_as_slice b1) = (qs, None, d2, r2)"
    and rest: "feed (frame_step S B rl) d2 r2 cs = (qs', None, d', r)" and ps: "ps = qs @ qs'"
    using Cons.prems(2) b1(2) by (auto split: prod.splits option.splits)
  then obtain b2 where loop: "decode_loop S B rl (Suc (buf_len b1)) d b1 = (qs, Ok (), d2, b2)"
      and b2: "buf_inv b2" "buf_as_slice b2 = r2"
    using decode_loop_drain [OF assms(1) b1(1) lessI dr [unfolded drain_all_def length_buf_as_slice]]
    by blast
  from Cons.IH [OF b2(1), of d2 qs'] rest b2(2) obtain b'
    where "decode_pieces S B rl d2 b2 cs = (qs', Ok (), d', b')" "buf_inv b'" "buf_as_slice b' = r"
    by blast
  then show ?case
    by (simp only: decode_pieces.simps Let_def b1_def [symmetric] loop prod.case res.case unit.case ps) blast
qed simp

text \<open>
  C6: whatever payloads the sender frames, and however the network cuts the wire
  bytes into pieces, a receiver with the same key that appends each piece to its
  buffer and calls \<open>decode\<close> until it wants more gets exactly these payloads in
  order, without an error or a panic, has an empty buffer at the end and is again
  in step with the sender.
\<close>

theorem frames_any_segmentation:
  assumes "secretbox_ok B" and "rl \<noteq> 0"
    and "encoder_new S key = Some e" and "decoder_new S key = Some d"
    and "encode_all S B e ps [] = Ok (wire, e')" and "concat pieces = wire"
  shows "\<exists>d' b'. decode_pieces S B rl d buf_default pieces = (ps, Ok (), d', b') \<and>
           buf_is_empty b' \<and> in_sync e' d'"
proof -
  have view: "buf_as_slice buf_default = []" by (simp add: buf_view_simps)
  from frame_step_segmentation [OF assms(1,2) new_in_sync [OF assms(3,4)] assms(5,6)] obtain d'
    where "feed (frame_step S B rl) d (buf_as_slice buf_default) pieces = (ps, None, d', [])"
      and sync: "in_sync e' d'" using view by auto
  from decode_pieces_feed [OF assms(2) obfs_buf.inv_empty this(1)] obtain b'
    where "decode_pieces S B rl d buf_default pieces = (ps, Ok (), d', b')" "buf_as_slice b' = []"
    by blast
  moreover from this(2) have "buf_is_empty b'"
    unfolding buf_is_empty_def using length_buf_as_slice [of b'] by simp
  ultimately show ?thesis using sync by blast
qed

section \<open>Instances for witnesses\<close>

definition zero_sip :: "u64 sip_ops" where
  "zero_sip = \<lparr>sip_new = (\<lambda>k. word_of_nat (nat_of_le (take 8 k))),
     sip_write = (\<lambda>bs h. h + word_of_nat (nat_of_le bs) + 1), sip_finish = (\<lambda>h. h)\<rparr>"

definition tag_box :: secretbox where
  "tag_box = \<lparr>sb_seal = (\<lambda>k n p. replicate 16 0 @ p),
     sb_open = (\<lambda>k n c. if 16 \<le> length c then Some (drop 16 c) else None)\<rparr>"

lemma tag_box_ok: "secretbox_ok tag_box"
  by (simp add: secretbox_ok_def tag_box_def)

lemma frames_any_segmentation_witness:
  "\<exists>e d wire e' d' b'. encoder_new zero_sip (replicate 72 7) = Some e \<and>
     encode_all zero_sip tag_box e [[1, 2], [3]] [] = Ok (wire, e') \<and>
     decode_pieces zero_sip tag_box 16 d buf_default (map (\<lambda>b. [b]) wire) =
       ([[1, 2], [3]], Ok (), d', b') \<and> buf_is_empty b'"
proof -
  obtain e d where new: "encoder_new zero_sip (replicate 72 7) = Some e"
      "decoder_new zero_sip (replicate 72 7) = Some d"
    using new_succeeds [of "replicate 72 7" zero_sip] by auto
  then have "nonce_counter (enc_nonce e) = 1"
    by (auto simp: encoder_new_def split_key_def nonce_new_def)
  then obtain o1 e1 where enc1: "encode zero_sip tag_box e [1, 2] [] = Ok (o1, e1)"
    using encode_total [of "[1, 2]" e zero_sip tag_box "[]"] by auto
  then have e1: "nonce_counter (enc_nonce e1) = 2"
    by (rule encode_Ok) (simp add: nonce_step_def \<open>nonce_counter (enc_nonce e) = 1\<close>)
  obtain wire e' where "encode zero_sip tag_box e1 [3] o1 = Ok (wire, e')"
    using encode_total [of "[3]" e1 zero_sip tag_box o1] e1 by auto
  with enc1 have all: "encode_all zero_sip tag_box e [[1, 2], [3]] [] = Ok (wire, e')" by simp
  have "concat (map (\<lambda>b. [b]) wire) = wire" by (induction wire) auto
  from frames_any_segmentation [OF tag_box_ok _ new all this, of 16] new all show ?thesis by fastforce
qed

section \<open>Nonces\<close>

text \<open>The frames a run of \<open>encode\<close> really writes, until the first error.\<close>

fun frames_out :: "'h sip_ops \<Rightarrow> secretbox \<Rightarrow> 'h encoder \<Rightarrow> bytes list \<Rightarrow> bytes list" where
  "frames_out S B e [] = []"
| "frames_out S B e (p # ps) =
     (case encode S B e p [] of Ok (w, e') \<Rightarrow> w # frames_out S B e' ps | _ \<Rightarrow> [])"

text \<open>The nonces with the counters \<open>m\<close> and up, as long as the counter does not wrap.\<close>

definition nonces_from :: "bytes \<Rightarrow> nat \<Rightarrow> bytes list" where
  "nonces_from prefix m = map (\<lambda>i. prefix @ u64_be (word_of_nat i)) [m..<2 ^ 64]"

lemma nonces_from_Cons:
  "m < 2 ^ 64 \<Longrightarrow> nonces_from pre m = (pre @ u64_be (word_of_nat m)) # nonces_from pre (m + 1)"
  unfolding nonces_from_def by (subst upt_conv_Cons) (simp_all only: list.map Suc_eq_plus1)

lemma distinct_nonces_from: "distinct (nonces_from pre m)"
proof -
  have "inj_on (\<lambda>i. pre @ u64_be (word_of_nat i)) {m..<2 ^ 64}"
  proof (rule inj_onI)
    fix i j assume ij: "i \<in> {m..<2 ^ 64}" "j \<in> {m..<(2 :: nat) ^ 64}"
      and "pre @ u64_be (word_of_nat i) = pre @ u64_be (word_of_nat j)"
    then have eq: "(word_of_nat i :: u64) = word_of_nat j" by simp
    have "unat (word_of_nat i :: u64) = i" and "unat (word_of_nat j :: u64) = j"
      using ij by (simp_all add: unat_of_nat)
    then show "i = j" using eq by metis
  qed
  then show ?thesis unfolding nonces_from_def distinct_map set_upt by (simp only: distinct_upt simp_thms)
qed

lemma frames_out_sealed:
  assumes "nonce_counter (enc_nonce e) = word_of_nat m" and "m \<le> 2 ^ 64"
  shows "map (drop 2) (frames_out S B e ps) =
    map2 (sb_seal B (enc_cipher e))
      (take (length (frames_out S B e ps)) (nonces_from (nonce_prefix (enc_nonce e)) m)) ps \<and>
    m + length (frames_out S B e ps) \<le> 2 ^ 64 \<and> length (frames_out S B e ps) \<le> length ps"
  using assms
proof (induction ps arbitrary: e m)
  case (Cons p ps)
  show ?case
  proof (cases "encode S B e p []")
    case (Ok q)
    then obtain w e1 where enc: "encode S B e p [] = Ok (w, e1)" by force
    then have n: "nonce_counter (enc_nonce e) \<noteq> 0"
      and e1: "enc_nonce e1 = nonce_step (enc_nonce e)" "enc_cipher e1 = enc_cipher e"
      and w: "drop 2 w = sb_seal B (enc_cipher e)
        (nonce_prefix (enc_nonce e) @ u64_be (nonce_counter (enc_nonce e))) p"
      by (auto simp: nonce_bytes_def drop_u16_be elim!: encode_Ok split: if_splits)
    have "m \<noteq> 2 ^ 64" using n Cons.prems(1) by (auto simp: word_of_nat_eq_0_iff)
    then have m: "m < 2 ^ 64" using Cons.prems(2) by simp
    moreover have "nonce_counter (enc_nonce e1) = word_of_nat (m + 1)"
      using e1 Cons.prems(1) by (simp add: nonce_step_def)
    ultimately show ?thesis
      using Cons.IH [of e1 "m + 1"] enc e1 w Cons.prems(1) nonces_from_Cons [OF m]
      by (simp add: nonce_step_def)
  qed (use Cons.prems in auto)
qed simp

text \<open>
  C10: there is one list of pairwise distinct nonces, fixed by the key alone, such
  that the box in the \<open>i\<close>-th frame an encoder writes is the \<open>i\<close>-th payload sealed
  under the \<open>i\<close>-th of them, whatever the cipher and however many payloads it is
  given; the list has \<open>2 ^ 64 - 1\<close> entries and no frame is written beyond it, since
  the encoder fails where the 64-bit counter would wrap.
\<close>

theorem nonces_never_reused:
  assumes "encoder_new S key = Some e"
  shows "\<exists>nonces. distinct nonces \<and> length nonces = 2 ^ 64 - 1 \<and>
    (\<forall>B ps. length (frames_out S B e ps) \<le> length nonces \<and>
       map (drop LENGTH_LENGTH) (frames_out S B e ps) =
         map2 (sb_seal B (enc_cipher e)) (take (length (frames_out S B e ps)) nonces) ps)"
proof (intro exI conjI allI)
  let ?nonces = "nonces_from (nonce_prefix (enc_nonce e)) 1"
  have start: "nonce_counter (enc_nonce e) = word_of_nat 1"
    using assms by (auto simp: encoder_new_def split_key_def nonce_new_def split: if_splits)
  show "distinct ?nonces" by (rule distinct_nonces_from)
  show len: "length ?nonces = 2 ^ 64 - 1" unfolding nonces_from_def by (simp only: length_map length_upt)
  fix B ps
  note sealed = frames_out_sealed [OF start, of S B ps]
  show "length (frames_out S B e ps) \<le> length ?nonces" using sealed len by simp
  show "map (drop LENGTH_LENGTH) (frames_out S B e ps) =
      map2 (sb_seal B (enc_cipher e)) (take (length (frames_out S B e ps)) ?nonces) ps"
    using sealed by simp
qed

lemma nonces_never_reused_witness:
  "\<exists>e nonces. encoder_new zero_sip (replicate 72 7) = Some e \<and> distinct nonces \<and>
     map (drop 2) (frames_out zero_sip tag_box e [[1], [1], []]) =
       map2 (sb_seal tag_box (enc_cipher e))
         (take (length (frames_out zero_sip tag_box e [[1], [1], []])) nonces) [[1], [1], []]"
proof -
  obtain e where "encoder_new zero_sip (replicate 72 7) = Some e"
    using new_succeeds [of "replicate 72 7" zero_sip] by auto
  with nonces_never_reused [OF this] show ?thesis unfolding frame_consts by blast
qed

section \<open>A bad length\<close>

lemma body_step_invalid:
  "next_length_invalid d \<Longrightarrow> body_step B d bs =
     (if length bs < unat (next_length d) then (More, d, bs)
      else (Fail TagMismatch, d, drop (unat (next_length d)) bs))"
  by (auto simp: body_step_def Let_def split: option.split)

text \<open>
  The plaintext-recovery countermeasure.  Once a length header unmasks to a
  value outside the legal range, the decoder swallows exactly the random number of
  bytes it drew and then fails with a tag mismatch: nothing is ever decoded, whatever
  bytes follow, and the moment of failure depends on the draw alone and not on the
  bad length.
\<close>

theorem bad_length_hidden:
  assumes "rl \<noteq> 0" and "next_length d = 0" and "\<not> next_length_invalid d"
    and "2 \<le> length bs"
    and "take_length S rl bs d = (None, d1)" and "next_length_invalid d1"
  shows "drain_all (frame_step S B rl) d (bs @ ys) =
    (if length (bs @ ys) < 2 + unat rl
     then ([], None, d1, drop 2 (bs @ ys))
     else ([], Some TagMismatch, d1, drop (2 + unat rl) (bs @ ys)))"
proof -
  note dec = frame_stream_decoder [OF assms(1), of S B]
  have "take_length S rl (bs @ ys) d = (None, d1)"
    using assms(4,5) take_length_append by metis
  moreover have "next_length d1 = rl"
    using assms(3,5,6)
    by (auto simp: take_length_def nonce_bytes_def Let_def split: if_splits prod.splits)
  ultimately have "frame_step S B rl d (bs @ ys) =
      (if length (drop 2 (bs @ ys)) < unat rl then (More, d1, drop 2 (bs @ ys))
       else (Fail TagMismatch, d1, drop (unat rl) (drop 2 (bs @ ys))))"
    using assms(2,4,6) by (simp add: frame_step_def body_step_invalid)
  moreover have "length (drop 2 (bs @ ys)) < unat rl \<longleftrightarrow> length (bs @ ys) < 2 + unat rl"
    using assms(4) by auto
  moreover have "drop (unat rl) (drop 2 (bs @ ys)) = drop (2 + unat rl) (bs @ ys)"
    by (simp only: drop_drop add.commute)
  ultimately show ?thesis
    using stream_decoder.drain_all_simps(1,2) [OF dec] by presburger
qed

definition bad_header_decoder :: "u64 decoder" where
  "bad_header_decoder = \<lparr>dec_cipher = [], dec_nonce = nonce_new [], dec_drbg = drbg_new zero_sip [],
     next_nonce = [], next_length = 0, next_length_invalid = False\<rparr>"

lemma bad_header_taken:
  "take_length zero_sip 20 [255, 255] bad_header_decoder =
     (None, bad_header_decoder\<lparr>next_nonce := u64_be 1, dec_drbg := snd (next_block zero_sip (drbg_new zero_sip [])),
        next_length_invalid := True, next_length := 20\<rparr>)"
  by (simp add: take_length_def bad_header_decoder_def nonce_bytes_def nonce_new_def next_block_def
      drbg_new_def zero_sip_def u64_le_def be_u16_def Let_def byte_simps)

lemma bad_length_hidden_witness:
  "drain_all (frame_step zero_sip tag_box 20) bad_header_decoder ([255, 255] @ replicate 20 0) =
     ([], Some TagMismatch, snd (take_length zero_sip 20 [255, 255] bad_header_decoder), [])"
  using bad_length_hidden [of 20 bad_header_decoder "[255, 255]" zero_sip _ tag_box "replicate 20 0", OF _ _ _ _ bad_header_taken]
  unfolding bad_header_taken by (simp add: bad_header_decoder_def)

end
