(* ===== verification/Packet.thy ===== *)
theory Packet
  imports Framing
begin

text \<open>
  obfs4 packets inside frames, from \<open>src/transports/obfs4/domain/packet.rs\<close>:
  \<open>type | length | payload | zero padding\<close>.  A packet is built and sealed as one
  frame; parsing drops the padding.  Parsing composed with the frame decoder is
  again a \<open>stream_decoder\<close>.
\<close>

definition PACKET_OVERHEAD :: nat where "PACKET_OVERHEAD = 2 + 1"
definition MAX_PACKET_PAYLOAD_LENGTH :: nat where
  "MAX_PACKET_PAYLOAD_LENGTH = MAXIMUM_FRAME_PAYLOAD_LENGTH - PACKET_OVERHEAD"
definition SEED_PACKET_PAYLOAD_LENGTH :: nat where "SEED_PACKET_PAYLOAD_LENGTH = SEED_LENGTH"
definition CONSUME_READ_SIZE :: nat where "CONSUME_READ_SIZE = MAXIMUM_SEGMENT_LENGTH * 16"
definition PACKET_TYPE_PAYLOAD :: u8 where "PACKET_TYPE_PAYLOAD = 0"
definition PACKET_TYPE_PRNG_SEED :: u8 where "PACKET_TYPE_PRNG_SEED = 1"

lemma packet_consts [simp]:
  "PACKET_OVERHEAD = 3" "MAX_PACKET_PAYLOAD_LENGTH = 1427" "SEED_PACKET_PAYLOAD_LENGTH = 24"
  "CONSUME_READ_SIZE = 23168" "PACKET_TYPE_PAYLOAD = 0" "PACKET_TYPE_PRNG_SEED = 1"
  by (simp_all add: PACKET_OVERHEAD_def MAX_PACKET_PAYLOAD_LENGTH_def SEED_PACKET_PAYLOAD_LENGTH_def
      CONSUME_READ_SIZE_def PACKET_TYPE_PAYLOAD_def PACKET_TYPE_PRNG_SEED_def)

datatype packet_error =
    InvalidPacketLength nat
  | InvalidPacketPayloadLength nat
  | FrameErr frame_error

text \<open>The bytes of a packet; the length field is \<open>data.len() as u16\<close>.\<close>

definition packet_bytes :: "u8 \<Rightarrow> bytes \<Rightarrow> nat \<Rightarrow> bytes" where
  "packet_bytes ty data pad_len =
     [ty] @ u16_be (word_of_nat (length data)) @ data @ replicate pad_len 0"

text \<open>The assertion \<open>data.len() + pad_len <= MAX_PACKET_PAYLOAD_LENGTH\<close> is the \<open>Panic\<close>.\<close>

definition make_packet :: "'h sip_ops \<Rightarrow> secretbox \<Rightarrow> 'h encoder \<Rightarrow> bytes \<Rightarrow> u8 \<Rightarrow> bytes \<Rightarrow> nat \<Rightarrow>
    (bytes \<times> 'h encoder, frame_error) res" where
  "make_packet S B e out ty data pad_len =
     (if MAX_PACKET_PAYLOAD_LENGTH < length data + pad_len then Panic
      else encode S B e (packet_bytes ty data pad_len) out)"

definition parse_packet :: "bytes \<Rightarrow> (u8 \<times> bytes, packet_error) res" where
  "parse_packet pkt =
     (if length pkt < PACKET_OVERHEAD then Err (InvalidPacketLength (length pkt))
      else
        let payload_len = unat (be_u16 (slice 1 3 pkt))
        in if length pkt - PACKET_OVERHEAD < payload_len
           then Err (InvalidPacketPayloadLength payload_len)
           else Ok (pkt ! 0, slice PACKET_OVERHEAD (PACKET_OVERHEAD + payload_len) pkt))"

section \<open>Round trip\<close>

lemma length_packet_bytes [simp, wire_simps]:
  "length (packet_bytes ty data pad_len) = 3 + length data + pad_len"
  by (simp add: packet_bytes_def)

lemma slice_length_field: "slice 1 3 (packet_bytes ty data pad_len) = u16_be (word_of_nat (length data))"
  using slice_mid [of 1 "[ty]" 3 "u16_be (word_of_nat (length data))" "data @ replicate pad_len 0"]
  by (simp add: packet_bytes_def)

lemma slice_payload: "slice 3 (3 + length data) (packet_bytes ty data pad_len) = data"
  using slice_mid [of 3 "[ty] @ u16_be (word_of_nat (length data))" "3 + length data" data "replicate pad_len 0"]
  by (simp add: packet_bytes_def)

lemma packet_bytes_type [simp]: "packet_bytes ty data pad_len ! 0 = ty"
  by (simp add: packet_bytes_def)

lemma parse_packet_bytes:
  assumes "length data + pad_len \<le> 1427"
  shows "parse_packet (packet_bytes ty data pad_len) = Ok (ty, data)"
proof -
  have len: "unat (be_u16 (slice 1 3 (packet_bytes ty data pad_len))) = length data"
    unfolding slice_length_field be_u16_of_u16_be using assms by (intro unat_u16_of_nat) simp
  show ?thesis
    unfolding parse_packet_def Let_def len by (simp add: slice_payload)
qed

lemma parse_packet_payload_bound:
  "parse_packet pkt = Ok (ty, data) \<Longrightarrow> length data + PACKET_OVERHEAD \<le> length pkt"
  by (auto simp: parse_packet_def Let_def split: if_splits)

lemma parse_packet_no_panic: "parse_packet pkt \<noteq> Panic"
  by (simp add: parse_packet_def Let_def)

lemma make_packet_panics_iff:
  "make_packet S B e out ty data pad_len = Panic \<longleftrightarrow> 1427 < length data + pad_len"
  using encode_no_panic [of S B e "packet_bytes ty data pad_len" out] by (auto simp: make_packet_def)

lemma make_packet_total:
  "length data + pad_len \<le> 1427 \<Longrightarrow> nonce_counter (enc_nonce e) \<noteq> 0 \<Longrightarrow>
     \<exists>out' e'. make_packet S B e out ty data pad_len = Ok (out', e')"
  using encode_total [of "packet_bytes ty data pad_len" e S B out] by (auto simp: make_packet_def)

lemma make_packet_length:
  assumes "secretbox_ok B" and "make_packet S B e out ty data pad_len = Ok (out', e')"
  shows "length out' = length out + length data + pad_len + 21"
  using assms(2) encode_length [OF assms(1), of S e "packet_bytes ty data pad_len" out out' e']
  by (auto simp: make_packet_def split: if_splits)

lemma make_packet_out:
  "make_packet S B e out ty data pad_len =
     map_ok (\<lambda>(w, e'). (out @ w, e')) (make_packet S B e [] ty data pad_len)"
  using encode_out [of S B e "packet_bytes ty data pad_len" out] by (auto simp: make_packet_def)

section \<open>The packet decoder\<close>

definition parse_frame :: "bytes \<Rightarrow> (packet_error, u8 \<times> bytes) sum" where
  "parse_frame pkt =
     (case parse_packet pkt of Ok q \<Rightarrow> Inr q | Err e \<Rightarrow> Inl e | Panic \<Rightarrow> Inl (InvalidPacketLength 0))"

definition lift_frame_error :: "('p, frame_error) dstep \<Rightarrow> ('p, packet_error) dstep" where
  "lift_frame_error s = (case s of More \<Rightarrow> More | Got p \<Rightarrow> Got p | Fail e \<Rightarrow> Fail (FrameErr e))"

text \<open>One turn of the receive loop: decode a frame, parse the packet in it.\<close>

definition packet_step :: "'h sip_ops \<Rightarrow> secretbox \<Rightarrow> u16 \<Rightarrow> 'h decoder \<Rightarrow> bytes \<Rightarrow>
    (u8 \<times> bytes, packet_error) dstep \<times> 'h decoder \<times> bytes" where
  "packet_step S B rl =
     map_step parse_frame (\<lambda>d bs. case frame_step S B rl d bs of (s, d', r) \<Rightarrow> (lift_frame_error s, d', r))"

lemma lift_frame_error_simps [simp]:
  "More = lift_frame_error s \<longleftrightarrow> s = More"
  "Got p = lift_frame_error s \<longleftrightarrow> s = Got p"
  "Fail x = lift_frame_error s \<longleftrightarrow> (\<exists>e. s = Fail e \<and> x = FrameErr e)"
  by (cases s; auto simp: lift_frame_error_def)+

lemma packet_stream_decoder:
  assumes "rl \<noteq> 0"
  shows "stream_decoder (packet_step S B rl)"
  unfolding packet_step_def
proof (rule stream_decoder_map_step)
  note dec = frame_stream_decoder [OF assms, of S B]
  note laws = stream_decoder.got_shrinks [OF dec] stream_decoder.got_append [OF dec]
    stream_decoder.fail_append [OF dec] stream_decoder.more_append [OF dec]
  show "stream_decoder (\<lambda>d bs. case frame_step S B rl d bs of (s, d', r) \<Rightarrow> (lift_frame_error s, d', r))"
  proof unfold_locales
    let ?step = "\<lambda>d bs. case frame_step S B rl d bs of (s, d', r) \<Rightarrow> (lift_frame_error s, d', r)"
    have cases: "\<exists>s. frame_step S B rl d bs = (s, d', r) \<and> t = lift_frame_error s"
      if "?step d bs = (t, d', r)" for d bs t d' r
      using that by (auto split: prod.splits)
    fix d bs d' r ys
    show "length r < length bs" if "?step d bs = (Got p, d', r)" for p
      using cases [OF that] laws(1) by fastforce
    show "?step d (bs @ ys) = (Got p, d', r @ ys)" if "?step d bs = (Got p, d', r)" for p
      using cases [OF that] laws(2) [of d bs p d' r ys] by (auto simp: lift_frame_error_def [of "Got p"])
    show "?step d (bs @ ys) = (Fail e, d', r @ ys)" if "?step d bs = (Fail e, d', r)" for e
      using cases [OF that] laws(3) [of d bs _ d' r ys] by (fastforce simp: lift_frame_error_def [of "Fail x" for x])
    show "?step d (bs @ ys) = ?step d' (r @ ys)" if "?step d bs = (More, d', r)"
      using cases [OF that] laws(4) [of d bs d' r ys] by auto
  qed
qed

interpretation packets: stream_decoder "packet_step S B (drawn_length k)" for S B k
  by (rule packet_stream_decoder) (rule drawn_length_nonzero)

lemma packet_step_packet:
  assumes "secretbox_ok B" and "in_sync e d"
    and "make_packet S B e [] ty data pad_len = Ok (wire, e')"
  shows "\<exists>d'. in_sync e' d' \<and>
    (\<forall>rl tail. packet_step S B rl d (wire @ tail) = (Got (ty, data), d', tail))"
proof -
  have len: "length data + pad_len \<le> 1427"
    and enc: "encode S B e (packet_bytes ty data pad_len) [] = Ok (wire, e')"
    using assms(3) by (auto simp: make_packet_def split: if_splits)
  obtain w d' where "wire = [] @ w" and sync: "in_sync e' d'"
    and step: "\<And>tail rl. frame_step S B rl d (w @ tail) = (Got (packet_bytes ty data pad_len), d', tail)"
    using frame_step_encode [OF assms(1,2) enc] by blast
  then have "packet_step S B rl d (wire @ tail) = (Got (ty, data), d', tail)" for rl tail
    using parse_packet_bytes [OF len]
    by (simp add: packet_step_def map_step_def lift_frame_error_def parse_frame_def)
  with sync show ?thesis by blast
qed

section \<open>Runs of packets\<close>

text \<open>Packets \<open>(type, payload, padding)\<close> built one after another into one buffer.\<close>

fun make_packets :: "'h sip_ops \<Rightarrow> secretbox \<Rightarrow> 'h encoder \<Rightarrow> bytes \<Rightarrow> (u8 \<times> bytes \<times> nat) list \<Rightarrow>
    (bytes \<times> 'h encoder, frame_error) res" where
  "make_packets S B e out [] = Ok (out, e)"
| "make_packets S B e out ((ty, data, pad_len) # qs) =
     (case make_packet S B e out ty data pad_len of
        Ok (out', e') \<Rightarrow> make_packets S B e' out' qs
      | Err x \<Rightarrow> Err x
      | Panic \<Rightarrow> Panic)"

lemma make_packets_append:
  "make_packets S B e out (qs @ qs') =
     (case make_packets S B e out qs of
        Ok (out', e') \<Rightarrow> make_packets S B e' out' qs' | Err x \<Rightarrow> Err x | Panic \<Rightarrow> Panic)"
  by (induction qs arbitrary: e out) (auto split: res.splits)

lemma make_packets_out:
  "make_packets S B e out qs = map_ok (\<lambda>(w, e'). (out @ w, e')) (make_packets S B e [] qs)"
proof (induction qs arbitrary: e out)
  case (Cons q qs)
  obtain ty data pad_len where q: "q = (ty, data, pad_len)" by (cases q) auto
  show ?case
  proof (cases "make_packet S B e [] ty data pad_len")
    case (Ok r)
    obtain w1 e1 where r: "r = (w1, e1)" by force
    have "make_packets S B e out (q # qs) = make_packets S B e1 (out @ w1) qs"
      using Ok r q make_packet_out [of S B e out ty data pad_len] by simp
    also have "\<dots> = map_ok (\<lambda>(w, e'). (out @ w, e')) (make_packets S B e1 w1 qs)"
      using Cons.IH [of e1 "out @ w1"] Cons.IH [of e1 w1] by (cases "make_packets S B e1 [] qs") auto
    finally show ?thesis using Ok r q by simp
  qed (use q make_packet_out [of S B e out ty data pad_len] in simp_all)
qed simp

lemma make_packets_no_panic:
  "(\<forall>(ty, data, pad_len)\<in>set qs. length data + pad_len \<le> 1427) \<Longrightarrow> make_packets S B e out qs \<noteq> Panic"
proof (induction qs arbitrary: e out)
  case (Cons q qs)
  obtain ty data pad_len where q: "q = (ty, data, pad_len)" by (cases q) auto
  have "make_packet S B e out ty data pad_len \<noteq> Panic"
    using Cons.prems q by (simp add: make_packet_panics_iff)
  with Cons q show ?case by (auto split: res.splits)
qed simp

text \<open>Each packet uses one nonce; they last until the counter wraps.\<close>

lemma make_packets_total:
  assumes "\<forall>(ty, data, pad_len)\<in>set qs. length data + pad_len \<le> 1427"
    and "nonce_counter (enc_nonce e) = word_of_nat m" and "0 < m" and "m + length qs \<le> 2 ^ 64"
  shows "\<exists>out' e'. make_packets S B e out qs = Ok (out', e') \<and>
    nonce_counter (enc_nonce e') = word_of_nat (m + length qs)"
  using assms
proof (induction qs arbitrary: e out m)
  case (Cons q qs)
  obtain ty data pad_len where q: "q = (ty, data, pad_len)" by (cases q) auto
  have "m < 2 ^ 64" using Cons.prems(4) by simp
  then have "nonce_counter (enc_nonce e) \<noteq> 0"
    using Cons.prems(2,3) by (simp add: word_unat_eq_iff unat_of_nat)
  then obtain o1 e1 where mk: "make_packet S B e out ty data pad_len = Ok (o1, e1)"
    using make_packet_total [of data pad_len e] Cons.prems(1) q by fastforce
  then have "encode S B e (packet_bytes ty data pad_len) out = Ok (o1, e1)"
    by (auto simp: make_packet_def split: if_splits)
  then have "nonce_counter (enc_nonce e1) = word_of_nat (Suc m)"
    by (rule encode_Ok) (use Cons.prems(2) in \<open>simp add: nonce_step_def\<close>)
  from Cons.IH [OF _ this] Cons.prems mk q show ?case by fastforce
qed simp

lemma make_packets_length:
  assumes "secretbox_ok B" and "make_packets S B e out qs = Ok (out', e')"
  shows "length out' = length out + (\<Sum>(ty, data, pad_len)\<leftarrow>qs. length data + pad_len + 21)"
  using assms(2)
proof (induction qs arbitrary: e out)
  case (Cons q qs)
  obtain ty data pad_len where q: "q = (ty, data, pad_len)" by (cases q) auto
  from Cons.prems obtain o1 e1 where "make_packet S B e out ty data pad_len = Ok (o1, e1)"
    and rest: "make_packets S B e1 o1 qs = Ok (out', e')"
    by (auto simp: q split: res.splits)
  with make_packet_length [OF assms(1) this(1)] Cons.IH [OF rest] q show ?case by simp
qed simp

lemma drain_packets:
  assumes box: "secretbox_ok B" and rl: "rl \<noteq> 0"
    and "in_sync e d" and "make_packets S B e [] qs = Ok (wire, e')"
  shows "\<exists>d'. in_sync e' d' \<and> (\<forall>tail. drain_all (packet_step S B rl) d (wire @ tail) =
    (case drain_all (packet_step S B rl) d' tail of
       (ps, x, d'', r) \<Rightarrow> (map (\<lambda>(ty, data, pad_len). (ty, data)) qs @ ps, x, d'', r)))"
  using assms(3,4)
proof (induction qs arbitrary: e d wire)
  case Nil
  then show ?case by (auto split: prod.splits)
next
  case (Cons q qs)
  obtain ty data pad_len where q: "q = (ty, data, pad_len)" by (cases q) auto
  from Cons.prems(2) obtain w1 e1 where w1: "make_packet S B e [] ty data pad_len = Ok (w1, e1)"
    and "make_packets S B e1 w1 qs = Ok (wire, e')"
    by (auto simp: q split: res.splits)
  with make_packets_out [of S B e1 w1 qs] obtain w2 where
    w2: "make_packets S B e1 [] qs = Ok (w2, e')" and wire: "wire = w1 @ w2"
    by (cases "make_packets S B e1 [] qs") auto
  obtain d1 where d1: "in_sync e1 d1"
    "\<And>rl tail. packet_step S B rl d (w1 @ tail) = (Got (ty, data), d1, tail)"
    using packet_step_packet [OF box Cons.prems(1) w1] by blast
  from Cons.IH [OF d1(1) w2] obtain d' where "in_sync e' d'"
    and "\<forall>tail. drain_all (packet_step S B rl) d1 (w2 @ tail) =
      (case drain_all (packet_step S B rl) d' tail of
         (ps, x, d'', r) \<Rightarrow> (map (\<lambda>(ty, data, pad_len). (ty, data)) qs @ ps, x, d'', r))"
    by blast
  moreover have "drain_all (packet_step S B rl) d (wire @ tail) =
      (case drain_all (packet_step S B rl) d1 (w2 @ tail) of (ps, x, d'', r) \<Rightarrow> ((ty, data) # ps, x, d'', r))"
    for tail
    using stream_decoder.drain_all_simps(3) [OF packet_stream_decoder [OF rl] d1(2) [of rl "w2 @ tail"]]
      wire by simp
  ultimately show ?case using q by (intro exI [of _ d']) (auto split: prod.splits)
qed

text \<open>
  Any packet the sender builds (payload and padding within the limit) comes out
  of the receiver's decoder with its type and payload, the padding gone, and leaves
  the bytes after it untouched; the two ends stay in step.
\<close>

theorem packet_roundtrip:
  assumes "secretbox_ok B" and "in_sync e d"
    and "make_packet S B e [] ty data pad_len = Ok (wire, e')"
  shows "\<exists>d'. packet_step S B rl d (wire @ tail) = (Got (ty, data), d', tail) \<and> in_sync e' d'"
  using packet_step_packet [OF assms] by blast

lemma packet_roundtrip_witness:
  "\<exists>e d wire e' d'. make_packet zero_sip tag_box e [] 0 [104, 105] 100 = Ok (wire, e') \<and>
     packet_step zero_sip tag_box 16 d (wire @ [9]) = (Got (0, [104, 105]), d', [9])"
proof -
  obtain e d where new: "encoder_new zero_sip (replicate 72 7) = Some e"
      "decoder_new zero_sip (replicate 72 7) = Some d"
    using new_succeeds [of "replicate 72 7" zero_sip] by auto
  then have "nonce_counter (enc_nonce e) \<noteq> 0"
    by (auto simp: encoder_new_def split_key_def nonce_new_def)
  then obtain wire e' where mk: "make_packet zero_sip tag_box e [] 0 [104, 105] 100 = Ok (wire, e')"
    using make_packet_total [of "[104, 105]" 100 e zero_sip tag_box "[]" 0] by auto
  from packet_roundtrip [OF tag_box_ok new_in_sync [OF new] mk, of 16 "[9]"] mk show ?thesis by blast
qed

end
