(* ===== verification/Probdist.thy ===== *)
theory Probdist
  imports Drbg Complex_Main
begin

text \<open>
  The weighted distribution of \<open>src/shared/domain/crypto/probdist.rs\<close>: values and
  weights drawn from the seed's generator, and Vose's alias tables.  Floating
  point is the record \<open>float_ops\<close> of \<open>Gorand\<close>; the facts on ranges hold for any
  such operations, the correctness of the tables is proved for exact rationals.
\<close>

section \<open>Sequencing draws\<close>

text \<open>\<open>Panic\<close> is a failed assertion, \<open>Ok None\<close> a loop that never ends.\<close>

fun draw_then :: "(('a \<times> 's) option, 'e) res \<Rightarrow> ('a \<Rightarrow> 's \<Rightarrow> ('b option, 'e) res) \<Rightarrow>
    ('b option, 'e) res" where
  "draw_then (Ok (Some (a, s))) k = k a s"
| "draw_then (Ok None) k = Ok None"
| "draw_then (Err e) k = Err e"
| "draw_then Panic k = Panic"

lemma draw_then_Some:
  "draw_then r k = Ok (Some q) \<longleftrightarrow> (\<exists>a s. r = Ok (Some (a, s)) \<and> k a s = Ok (Some q))"
  by (cases "(r, k)" rule: draw_then.cases) auto

lemma draw_then_Panic:
  "draw_then r k = Panic \<longleftrightarrow> r = Panic \<or> (\<exists>a s. r = Ok (Some (a, s)) \<and> k a s = Panic)"
  by (cases "(r, k)" rule: draw_then.cases) auto

lemma map_ok_Panic [simp]: "map_ok f r = Panic \<longleftrightarrow> r = Panic"
  by (cases r) auto

lemma map_ok_Some: "map_ok (map_option f) r = Ok (Some y) \<longleftrightarrow> (\<exists>x. r = Ok (Some x) \<and> y = f x)"
  by (cases r) auto

section \<open>The tables\<close>

definition MIN_VALUES :: nat where "MIN_VALUES = 1"
definition MAX_VALUES :: nat where "MAX_VALUES = 100"

record 'f weighted_dist =
  wd_min :: nat
  wd_max :: nat
  wd_biased :: bool
  wd_values :: "nat list"
  wd_weights :: "'f list"
  wd_alias :: "nat list"
  wd_prob :: "'f list"

definition gen_values :: "'s source \<Rightarrow> nat \<Rightarrow> nat \<Rightarrow> 's \<Rightarrow> ((nat list \<times> 's) option, unit) res" where
  "gen_values src mn mx s =
     (let n_values = (mx + 1) - mn
      in draw_then (rand_perm src n_values s) (\<lambda>values s.
           let n_values = max MIN_VALUES (min MAX_VALUES n_values)
           in draw_then (rand_intn src (int n_values) s) (\<lambda>k s.
                Ok (Some (take (nat k + 1) values, s)))))"

primrec biased_weights :: "'f float_ops \<Rightarrow> 's source \<Rightarrow> nat \<Rightarrow> 'f \<Rightarrow> 's \<Rightarrow> ('f list \<times> 's) option" where
  "biased_weights F src 0 culm_prob s = Some ([], s)"
| "biased_weights F src (Suc n) culm_prob s =
     (case rand_float64 F src s of
        None \<Rightarrow> None
      | Some (x, s) \<Rightarrow>
          let p = f_mul F (f_sub F (f_of_int F 1) culm_prob) x
          in case biased_weights F src n (f_add F culm_prob p) s of
               None \<Rightarrow> None | Some (ps, s) \<Rightarrow> Some (p # ps, s))"

primrec uniform_weights :: "'f float_ops \<Rightarrow> 's source \<Rightarrow> nat \<Rightarrow> 's \<Rightarrow> ('f list \<times> 's) option" where
  "uniform_weights F src 0 s = Some ([], s)"
| "uniform_weights F src (Suc n) s =
     (case rand_float64 F src s of
        None \<Rightarrow> None
      | Some (x, s) \<Rightarrow>
          (case uniform_weights F src n s of None \<Rightarrow> None | Some (ps, s) \<Rightarrow> Some (x # ps, s)))"

definition weight_sum :: "'f float_ops \<Rightarrow> 'f list \<Rightarrow> 'f" where
  "weight_sum F weights = foldl (f_add F) (f_of_int F 0) weights"

definition scaled_weights :: "'f float_ops \<Rightarrow> 'f list \<Rightarrow> 'f list" where
  "scaled_weights F weights =
     map (\<lambda>w. f_div F (f_mul F w (f_of_int F (int (length weights)))) (weight_sum F weights)) weights"

definition is_small :: "'f float_ops \<Rightarrow> 'f \<Rightarrow> bool" where
  "is_small F x = f_less F x (f_of_int F 1)"

text \<open>The loop that pairs a small entry with a large one.\<close>

function alias_loop :: "'f float_ops \<Rightarrow> nat list \<Rightarrow> nat list \<Rightarrow> 'f list \<Rightarrow> 'f list \<Rightarrow> nat list \<Rightarrow>
    nat list \<times> nat list \<times> 'f list \<times> nat list" where
  "alias_loop F small large scaled prob alias =
     (if small = [] \<or> large = [] then (small, large, prob, alias)
      else
        let l = hd small; small = tl small;
            g = hd large; large = tl large;
            prob = prob[l := scaled ! l];
            alias = alias[l := g];
            scaled = scaled[g := f_sub F (f_add F (scaled ! g) (scaled ! l)) (f_of_int F 1)]
        in if is_small F (scaled ! g) then alias_loop F (small @ [g]) large scaled prob alias
           else alias_loop F small (large @ [g]) scaled prob alias)"
  by pat_completeness auto
termination
  by (relation "measure (\<lambda>(F, small, large, scaled, prob, alias). length small + length large)")
    (auto simp: neq_Nil_conv)

declare alias_loop.simps [simp del]

definition set_all :: "'f \<Rightarrow> nat list \<Rightarrow> 'f list \<Rightarrow> 'f list" where
  "set_all x idxs prob = foldl (\<lambda>prob i. prob[i := x]) prob idxs"

definition gen_tables :: "'f float_ops \<Rightarrow> 'f list \<Rightarrow> 'f list \<times> nat list" where
  "gen_tables F weights =
     (let n = length weights;
          scaled = scaled_weights F weights;
          small = filter (\<lambda>i. is_small F (scaled ! i)) [0..<n];
          large = filter (\<lambda>i. \<not> is_small F (scaled ! i)) [0..<n];
          (small, large, prob, alias) =
            alias_loop F small large scaled (replicate n (f_of_int F 0)) (replicate n 0);
          prob = set_all (f_of_int F 1) large prob;
          prob = set_all (f_of_int F 1) small prob
      in (prob, alias))"

definition wd_reset :: "'f float_ops \<Rightarrow> 'h sip_ops \<Rightarrow> bytes \<Rightarrow> 'f weighted_dist \<Rightarrow>
    ('f weighted_dist option, unit) res" where
  "wd_reset F S seed w =
     (let src = drbg_int63 S
      in map_ok (map_option fst)
           (draw_then (gen_values src (wd_min w) (wd_max w) (drbg_new S seed)) (\<lambda>values s.
              case (if wd_biased w then biased_weights F src (length values) (f_of_int F 0) s
                    else uniform_weights F src (length values) s) of
                None \<Rightarrow> Ok None
              | Some (weights, s) \<Rightarrow>
                  (case gen_tables F weights of (prob, alias) \<Rightarrow>
                     Ok (Some (w\<lparr>wd_values := values, wd_weights := weights,
                                 wd_alias := alias, wd_prob := prob\<rparr>, s))))))"

definition wd_new :: "'f float_ops \<Rightarrow> 'h sip_ops \<Rightarrow> bytes \<Rightarrow> nat \<Rightarrow> nat \<Rightarrow> bool \<Rightarrow>
    ('f weighted_dist option, unit) res" where
  "wd_new F S seed mn mx biased =
     (if mx \<le> mn then Panic
      else wd_reset F S seed \<lparr>wd_min = mn, wd_max = mx, wd_biased = biased, wd_values = [],
             wd_weights = [], wd_alias = [], wd_prob = []\<rparr>)"

definition wd_contains :: "'f weighted_dist \<Rightarrow> nat \<Rightarrow> bool" where
  "wd_contains w v \<longleftrightarrow> wd_min w \<le> v \<and> List.member (wd_values w) (v - wd_min w)"

definition wd_support :: "'f weighted_dist \<Rightarrow> nat list" where
  "wd_support w = map (\<lambda>v. wd_min w + v) (wd_values w)"

text \<open>\<open>sample\<close>: an index out of range is a panic.\<close>

definition wd_sample :: "'f float_ops \<Rightarrow> 'f weighted_dist \<Rightarrow> (nat \<Rightarrow> bytes) \<Rightarrow>
    ((nat \<times> (nat \<Rightarrow> bytes)) option, unit) res" where
  "wd_sample F w s =
     draw_then (csrand_intn (int (length (wd_values w))) s) (\<lambda>i s.
       case csrand_float64 F s of
         None \<Rightarrow> Ok None
       | Some (x, s) \<Rightarrow>
           if length (wd_prob w) \<le> nat i then Panic
           else
             let at_i = f_le F x (wd_prob w ! nat i)
             in if \<not> at_i \<and> length (wd_alias w) \<le> nat i then Panic
                else
                  let idx = (if at_i then nat i else wd_alias w ! nat i)
                  in if length (wd_values w) \<le> idx then Panic
                     else Ok (Some (wd_min w + wd_values w ! idx, s)))"

section \<open>Ranges\<close>

text \<open>A well-formed distribution: what \<open>reset\<close> establishes.\<close>

definition wd_ok :: "'f weighted_dist \<Rightarrow> bool" where
  "wd_ok w \<longleftrightarrow> wd_values w \<noteq> [] \<and> distinct (wd_values w) \<and> length (wd_values w) \<le> MAX_VALUES \<and>
     (\<forall>v\<in>set (wd_values w). wd_min w + v \<le> wd_max w) \<and>
     length (wd_prob w) = length (wd_values w) \<and> length (wd_alias w) = length (wd_values w) \<and>
     length (wd_weights w) = length (wd_values w) \<and>
     (\<forall>a\<in>set (wd_alias w). a < length (wd_values w))"

lemma length_set_all [simp]: "length (set_all x idxs prob) = length prob"
  unfolding set_all_def by (induction idxs arbitrary: prob) auto

lemma alias_loop_shape:
  assumes "alias_loop F small large scaled prob alias = (small', large', prob', alias')"
    and "set large \<subseteq> {..<n}" and "set small \<subseteq> {..<n}" and "set alias \<subseteq> {..<n}"
  shows "length prob' = length prob \<and> length alias' = length alias \<and> set alias' \<subseteq> {..<n}"
  using assms
proof (induction F small large scaled prob "alias" rule: alias_loop.induct)
  case (1 F small large scaled prob al)
  show ?case
  proof (cases "small = [] \<or> large = []")
    case False
    then obtain l ls g gs where small: "small = l # ls" and large: "large = g # gs"
      by (auto simp: neq_Nil_conv)
    let ?scaled = "scaled[g := f_sub F (f_add F (scaled ! g) (scaled ! l)) (f_of_int F 1)]"
    have al: "set (al[l := g]) \<subseteq> {..<n}"
      using "1.prems" large by (auto dest!: set_update_subset_insert [THEN subsetD])
    show ?thesis
      using "1.IH" [OF False refl refl refl refl refl refl refl] "1.prems" al
      by (auto simp: small large Let_def alias_loop.simps [of F "l # ls"] split: if_splits)
  qed (use "1.prems" in \<open>simp add: alias_loop.simps [of F small]\<close>)
qed

lemma biased_weights_length: "biased_weights F src n c s = Some (ws, s') \<Longrightarrow> length ws = n"
  by (induction n arbitrary: c s ws) (auto simp: Let_def split: option.splits)

lemma uniform_weights_length: "uniform_weights F src n s = Some (ws, s') \<Longrightarrow> length ws = n"
  by (induction n arbitrary: s ws) (auto split: option.splits)

lemma gen_tables_shape:
  assumes "gen_tables F weights = (prob, alias)"
  shows "length prob = length weights \<and> length alias = length weights \<and> set alias \<subseteq> {..<length weights}"
proof -
  let ?n = "length weights" and ?scaled = "scaled_weights F weights"
  let ?small = "filter (\<lambda>i. is_small F (?scaled ! i)) [0..<?n]"
  let ?large = "filter (\<lambda>i. \<not> is_small F (?scaled ! i)) [0..<?n]"
  obtain sm la p a where loop: "alias_loop F ?small ?large ?scaled (replicate ?n (f_of_int F 0)) (replicate ?n 0)
      = (sm, la, p, a)"
    by (metis prod_cases4)
  have "set (replicate ?n (0 :: nat)) \<subseteq> {..<?n}" by (cases ?n) auto
  moreover have "set ?large \<subseteq> {..<?n}" "set ?small \<subseteq> {..<?n}" by auto
  ultimately show ?thesis
    using alias_loop_shape [OF loop] assms loop by (auto simp: gen_tables_def Let_def)
qed

lemma gen_values_ok:
  assumes "gen_values (drbg_int63 S) mn mx s = Ok (Some (values, s'))" and "mn < mx"
  shows "values \<noteq> [] \<and> distinct values \<and> length values \<le> MAX_VALUES \<and> (\<forall>v\<in>set values. mn + v \<le> mx)"
proof -
  let ?n = "(mx + 1) - mn"
  obtain perm s1 k where p: "rand_perm (drbg_int63 S) ?n s = Ok (Some (perm, s1))"
      and k: "rand_intn (drbg_int63 S) (int (max MIN_VALUES (min MAX_VALUES ?n))) s1 = Ok (Some (k, s'))"
      and v: "values = take (nat k + 1) perm"
    using assms(1) by (auto simp: gen_values_def Let_def draw_then_Some)
  have "0 \<le> k \<and> k < int (max MIN_VALUES (min MAX_VALUES ?n))"
    using drbg_rand.intn_range [OF k] .
  then have k: "nat k + 1 \<le> MAX_VALUES" "nat k + 1 \<le> ?n"
    using assms(2) by (auto simp: MIN_VALUES_def MAX_VALUES_def)
  have perm: "distinct perm" "set perm = {0..<?n}" "length perm = ?n"
    using drbg_rand.perm_distinct [OF p] by simp_all
  have "length values = nat k + 1" using v perm k by simp
  moreover have "set values \<subseteq> {0..<?n}" using v perm by (metis set_take_subset)
  ultimately show ?thesis using k v perm assms(2) by (force simp: distinct_take)
qed

lemma wd_reset_ok:
  assumes "wd_reset F S seed w = Ok (Some w')" and "wd_min w < wd_max w"
  shows "wd_ok w' \<and> wd_min w' = wd_min w \<and> wd_max w' = wd_max w \<and> wd_biased w' = wd_biased w"
proof -
  obtain vals s weights s' prob al where
    v: "gen_values (drbg_int63 S) (wd_min w) (wd_max w) (drbg_new S seed) = Ok (Some (vals, s))"
    and ws: "(if wd_biased w then biased_weights F (drbg_int63 S) (length vals) (f_of_int F 0) s
       else uniform_weights F (drbg_int63 S) (length vals) s) = Some (weights, s')"
    and t: "gen_tables F weights = (prob, al)"
    and w': "w' = w\<lparr>wd_values := vals, wd_weights := weights, wd_alias := al, wd_prob := prob\<rparr>"
    using assms(1) unfolding wd_reset_def Let_def map_ok_Some
    apply (clarsimp simp: draw_then_Some split: option.split_asm)
    subgoal for b a s ws by (cases "gen_tables F ws") auto
    done
  have "length weights = length vals"
    using ws biased_weights_length uniform_weights_length by (metis (full_types))
  with gen_values_ok [OF v assms(2)] gen_tables_shape [OF t] w' show ?thesis
    by (auto simp: wd_ok_def)
qed

lemma wd_reset_no_panic: "wd_min w < wd_max w \<Longrightarrow> wd_reset F S seed w \<noteq> Panic"
proof
  assume le: "wd_min w < wd_max w" and "wd_reset F S seed w = Panic"
  then have "gen_values (drbg_int63 S) (wd_min w) (wd_max w) (drbg_new S seed) = Panic"
    by (auto simp: wd_reset_def Let_def draw_then_Panic split: option.splits prod.splits)
  then show False
    by (auto simp: gen_values_def Let_def draw_then_Panic rand_perm_def MIN_VALUES_def
        drbg_rand.perm_from_no_panic drbg_rand.intn_panics_iff)
qed

lemma wd_new_ok:
  assumes "wd_new F S seed mn mx biased = Ok (Some w)"
  shows "wd_ok w \<and> wd_min w = mn \<and> wd_max w = mx \<and> wd_biased w = biased"
proof -
  let ?w = "\<lparr>wd_min = mn, wd_max = mx, wd_biased = biased, wd_values = [],
             wd_weights = [], wd_alias = [], wd_prob = []\<rparr>"
  have "wd_reset F S seed ?w = Ok (Some w)" "mn < mx"
    using assms by (auto simp: wd_new_def split: if_splits)
  then show ?thesis using wd_reset_ok [of F S seed ?w w] by simp
qed

lemma wd_new_panics_iff: "wd_new F S seed mn mx biased = Panic \<longleftrightarrow> mx \<le> mn"
  using wd_reset_no_panic [of "\<lparr>wd_min = mn, wd_max = mx, wd_biased = biased, wd_values = [],
             wd_weights = [], wd_alias = [], wd_prob = []\<rparr>" F S seed] by (simp add: wd_new_def)

lemma wd_sample_range:
  assumes "wd_ok w" and "wd_sample F w s = Ok (Some (v, s'))"
  shows "v \<in> set (wd_support w) \<and> wd_min w \<le> v \<and> v \<le> wd_max w"
proof -
  obtain i s1 where i: "csrand_intn (int (length (wd_values w))) s = Ok (Some (i, s1))"
    and rest: "(case csrand_float64 F s1 of None \<Rightarrow> Ok None
       | Some (x, s) \<Rightarrow>
           if length (wd_prob w) \<le> nat i then Panic
           else
             let at_i = f_le F x (wd_prob w ! nat i)
             in if \<not> at_i \<and> length (wd_alias w) \<le> nat i then Panic
                else
                  let idx = (if at_i then nat i else wd_alias w ! nat i)
                  in if length (wd_values w) \<le> idx then Panic
                     else Ok (Some (wd_min w + wd_values w ! idx, s))) = (Ok (Some (v, s')) :: ((nat \<times> (nat \<Rightarrow> bytes)) option, unit) res)"
    using assms(2) unfolding wd_sample_def draw_then_Some by blast
  then obtain x s2 where x: "csrand_float64 F s1 = Some (x, s2)"
    by (auto split: option.splits)
  have v: "v = wd_min w + wd_values w ! (if f_le F x (wd_prob w ! nat i) then nat i else wd_alias w ! nat i)"
      "(if f_le F x (wd_prob w ! nat i) then nat i else wd_alias w ! nat i) < length (wd_values w)"
    using rest unfolding x by (auto simp: Let_def not_le split: if_splits)
  let ?i = "if f_le F x (wd_prob w ! nat i) then nat i else wd_alias w ! nat i"
  have "wd_values w ! ?i \<in> set (wd_values w)" using v(2) by (rule nth_mem)
  with v(1) assms(1) show ?thesis by (auto simp: wd_ok_def wd_support_def)
qed

lemma wd_sample_no_panic: "wd_ok w \<Longrightarrow> wd_sample F w s \<noteq> Panic"
proof
  assume ok: "wd_ok w" and "wd_sample F w s = Panic"
  moreover have "csrand_intn (int (length (wd_values w))) s \<noteq> Panic"
    using ok os_rand.intn_panics_iff by (auto simp: csrand_intn_def wd_ok_def)
  ultimately obtain i s1 where i: "csrand_intn (int (length (wd_values w))) s = Ok (Some (i, s1))"
    and rest: "(case csrand_float64 F s1 of None \<Rightarrow> Ok None
       | Some (x, s) \<Rightarrow>
           if length (wd_prob w) \<le> nat i then Panic
           else
             let at_i = f_le F x (wd_prob w ! nat i)
             in if \<not> at_i \<and> length (wd_alias w) \<le> nat i then Panic
                else
                  let idx = (if at_i then nat i else wd_alias w ! nat i)
                  in if length (wd_values w) \<le> idx then Panic
                     else Ok (Some (wd_min w + wd_values w ! idx, s))) = (Panic :: ((nat \<times> (nat \<Rightarrow> bytes)) option, unit) res)"
    unfolding wd_sample_def draw_then_Panic by blast
  then obtain x s2 where x: "csrand_float64 F s1 = Some (x, s2)"
    by (auto split: option.splits)
  have bad: "length (wd_values w) \<le> nat i \<or> length (wd_values w) \<le> wd_alias w ! nat i"
    using rest ok unfolding x by (auto simp: Let_def wd_ok_def split: if_splits)
  have "nat i < length (wd_values w)"
    using os_rand.intn_range [OF i [unfolded csrand_intn_def]] by linarith
  moreover from this ok have "wd_alias w ! nat i < length (wd_values w)"
    by (auto simp: wd_ok_def)
  ultimately show False using bad by simp
qed

section \<open>The alias tables are exact\<close>

definition exact_ops :: "rat float_ops" where
  "exact_ops = \<lparr>f_of_int = of_int, f_add = (+), f_sub = (-), f_mul = (*), f_div = (/), f_less = (<),
     f_le = (\<le>), f_eq = (=)\<rparr>"

lemma exact_ops_simps [simp]:
  "f_of_int exact_ops = of_int" "f_add exact_ops = (+)" "f_sub exact_ops = (-)" "f_mul exact_ops = (*)"
  "f_div exact_ops = (/)" "f_less exact_ops = (<)" "f_le exact_ops = (\<le>)" "f_eq exact_ops = (=)"
  by (simp_all add: exact_ops_def)

text \<open>What the entries already tabulated send to \<open>j\<close>.\<close>

definition sent_to :: "nat set \<Rightarrow> rat list \<Rightarrow> nat list \<Rightarrow> nat \<Rightarrow> rat" where
  "sent_to Q prob alias j = (\<Sum>i<length prob. if i \<notin> Q \<and> alias ! i = j then 1 - prob ! i else 0)"

text \<open>Every unit of scaled weight is accounted for: the entries still queued hold
  their current weight, the others their probability and what they were sent.\<close>

definition vose_inv :: "rat list \<Rightarrow> nat list \<Rightarrow> nat list \<Rightarrow> rat list \<Rightarrow> rat list \<Rightarrow> nat list \<Rightarrow> bool" where
  "vose_inv s0 small large scaled prob alias \<longleftrightarrow>
     length prob = length s0 \<and> length alias = length s0 \<and> length scaled = length s0 \<and>
     distinct (small @ large) \<and> set (small @ large) \<subseteq> {..<length s0} \<and>
     (\<forall>i\<in>set small. 0 \<le> scaled ! i \<and> scaled ! i < 1) \<and> (\<forall>i\<in>set large. 1 \<le> scaled ! i) \<and>
     (\<forall>i<length s0. i \<notin> set (small @ large) \<longrightarrow> 0 \<le> prob ! i \<and> prob ! i \<le> 1) \<and>
     (\<forall>j<length s0. (if j \<in> set (small @ large) then scaled ! j else prob ! j) +
        sent_to (set (small @ large)) prob alias j = s0 ! j) \<and>
     (\<Sum>i\<in>set (small @ large). scaled ! i) = of_nat (length (small @ large))"

lemma sum_change_one:
  fixes h h' :: "nat \<Rightarrow> rat"
  assumes "l < n" and "h l = 0" and "\<And>i. i \<noteq> l \<Longrightarrow> h' i = h i"
  shows "(\<Sum>i<n. h' i) = (\<Sum>i<n. h i) + h' l"
proof -
  have "(\<Sum>i<n. h' i) = h' l + (\<Sum>i\<in>{..<n} - {l}. h' i)"
    using assms(1) by (simp add: sum.remove)
  also have "(\<Sum>i\<in>{..<n} - {l}. h' i) = (\<Sum>i\<in>{..<n} - {l}. h i)"
    using assms(3) by (intro sum.cong) auto
  also have "\<dots> = (\<Sum>i<n. h i)"
    using assms(1,2) sum.remove [of "{..<n}" l h] by simp
  finally show ?thesis by simp
qed

lemma sent_to_step:
  assumes "l < length prob" and "length alias = length prob" and "l \<in> Q"
  shows "sent_to (Q - {l}) (prob[l := p]) (alias[l := g]) j =
    sent_to Q prob alias j + (if g = j then 1 - p else 0)"
proof -
  let ?h' = "\<lambda>i. if i \<notin> Q - {l} \<and> alias[l := g] ! i = j then 1 - prob[l := p] ! i else 0"
  have "(\<Sum>i<length prob. ?h' i) =
      (\<Sum>i<length prob. if i \<notin> Q \<and> alias ! i = j then 1 - prob ! i else 0) + ?h' l"
    using assms(3) by (intro sum_change_one [OF assms(1)]) (auto simp: nth_list_update)
  then show ?thesis using assms by (simp add: sent_to_def)
qed

lemma vose_step:
  assumes "vose_inv s0 (l # ls) (g # gs) scaled prob alias"
    and "scaled' = scaled[g := scaled ! g + scaled ! l - 1]"
    and "small' = (if scaled' ! g < 1 then ls @ [g] else ls)"
    and "large' = (if scaled' ! g < 1 then gs else gs @ [g])"
  shows "vose_inv s0 small' large' scaled' (prob[l := scaled ! l]) (alias[l := g])"
proof -
  let ?Q = "set ((l # ls) @ (g # gs))" and ?Q' = "set (small' @ large')"
  note inv = assms(1) [unfolded vose_inv_def]
  have l: "l < length s0" "l \<in> ?Q" and g: "g < length s0" "g \<in> ?Q" "g \<noteq> l" using inv by auto
  have Q': "?Q' = ?Q - {l}" using inv assms(3,4) by auto
  have len: "length (small' @ large') = length ((l # ls) @ (g # gs)) - 1" using assms(3,4) by auto
  have sg: "scaled' ! g = scaled ! g + scaled ! l - 1" and other: "\<And>i. i \<noteq> g \<Longrightarrow> scaled' ! i = scaled ! i"
    using assms(2) g inv by auto
  have keep: "\<forall>i\<in>set ls \<union> set gs. scaled' ! i = scaled ! i"
  proof
    fix i assume "i \<in> set ls \<union> set gs"
    then have "i \<noteq> g" using inv by auto
    then show "scaled' ! i = scaled ! i" by (rule other)
  qed
  have small: "0 \<le> scaled ! l" "scaled ! l < 1" "1 \<le> scaled ! g" using inv by auto
  have mass: "(if j \<in> ?Q' then scaled' ! j else prob[l := scaled ! l] ! j) +
      sent_to ?Q' (prob[l := scaled ! l]) (alias[l := g]) j = s0 ! j" if j: "j < length s0" for j
  proof -
    have "(if j \<in> ?Q then scaled ! j else prob ! j) + sent_to ?Q prob alias j = s0 ! j"
      using inv j by blast
    moreover have "sent_to ?Q' (prob[l := scaled ! l]) (alias[l := g]) j =
        sent_to ?Q prob alias j + (if g = j then 1 - scaled ! l else 0)"
      unfolding Q' using l inv by (intro sent_to_step) auto
    ultimately show ?thesis
      using j l g inv sg other [of j] unfolding Q' by (auto simp: nth_list_update)
  qed
  have total: "(\<Sum>i\<in>?Q'. scaled' ! i) = of_nat (length (small' @ large'))"
  proof -
    have "(\<Sum>i\<in>?Q. scaled ! i) = scaled ! l + (\<Sum>i\<in>?Q - {l}. scaled ! i)"
      using l by (intro sum.remove) auto
    moreover have "(\<Sum>i\<in>?Q - {l}. scaled ! i) = scaled ! g + (\<Sum>i\<in>?Q - {l} - {g}. scaled ! i)"
      using g by (intro sum.remove) auto
    moreover have "(\<Sum>i\<in>?Q - {l}. scaled' ! i) = scaled' ! g + (\<Sum>i\<in>?Q - {l} - {g}. scaled' ! i)"
      using g by (intro sum.remove) auto
    moreover have "(\<Sum>i\<in>?Q - {l} - {g}. scaled' ! i) = (\<Sum>i\<in>?Q - {l} - {g}. scaled ! i)"
      using other by (intro sum.cong) auto
    moreover have "(\<Sum>i\<in>?Q. scaled ! i) = of_nat (length ((l # ls) @ (g # gs)))" using inv by blast
    ultimately show ?thesis unfolding Q' len sg by simp
  qed
  show ?thesis
    unfolding vose_inv_def
  proof (intro conjI)
    show "\<forall>i\<in>set small'. 0 \<le> scaled' ! i \<and> scaled' ! i < 1"
      using inv assms(3) sg small keep by (auto split: if_splits)
    show "\<forall>i\<in>set large'. 1 \<le> scaled' ! i"
      using inv assms(4) keep by (auto split: if_splits)
    show "\<forall>i<length s0. i \<notin> ?Q' \<longrightarrow> 0 \<le> prob[l := scaled ! l] ! i \<and> prob[l := scaled ! l] ! i \<le> 1"
      unfolding Q' using inv small by (auto simp: nth_list_update)
  qed (use inv mass total assms(2,3,4) in auto)
qed

lemma vose_loop:
  assumes "alias_loop exact_ops small large scaled prob alias = (small', large', prob', alias')"
    and "vose_inv s0 small large scaled prob alias"
  shows "\<exists>scaled'. vose_inv s0 small' large' scaled' prob' alias' \<and> (small' = [] \<or> large' = [])"
  using assms
proof (induction "exact_ops" small large scaled prob "alias" rule: alias_loop.induct)
  case (1 small large scaled prob al)
  show ?case
  proof (cases "small = [] \<or> large = []")
    case False
    then obtain l ls g gs where small: "small = l # ls" and large: "large = g # gs"
      by (auto simp: neq_Nil_conv)
    let ?s' = "scaled[g := scaled ! g + scaled ! l - 1]"
    have step: "vose_inv s0 (if ?s' ! g < 1 then ls @ [g] else ls) (if ?s' ! g < 1 then gs else gs @ [g])
        ?s' (prob[l := scaled ! l]) (al[l := g])"
      using vose_step [OF "1.prems"(2) [unfolded small large] refl refl refl] .
    show ?thesis
      using "1.hyps" [OF False refl refl refl refl refl refl refl] "1.prems"(1) step
      by (auto simp: small large Let_def is_small_def alias_loop.simps [of exact_ops "l # ls"] split: if_splits)
  qed (use "1.prems" in \<open>auto simp: alias_loop.simps [of exact_ops small]\<close>)
qed

text \<open>With exact arithmetic nothing is left over but entries of weight exactly 1.\<close>

lemma vose_leftover:
  assumes "vose_inv s0 small large scaled prob alias" and "small = [] \<or> large = []"
  shows "small = [] \<and> (\<forall>i\<in>set large. scaled ! i = 1)"
proof -
  note inv = assms(1) [unfolded vose_inv_def]
  have dist: "distinct small" "distinct large" using inv by auto
  show ?thesis
  proof (cases "small = []")
    case True
    then have sum: "(\<Sum>i\<in>set large. scaled ! i) = of_nat (length large)"
      and ge: "\<forall>i\<in>set large. 1 \<le> scaled ! i" using inv by auto
    then have "(\<Sum>i\<in>set large. scaled ! i - 1) = 0"
      using dist by (simp add: sum_subtractf distinct_card)
    moreover have "\<forall>i\<in>set large. 0 \<le> scaled ! i - 1" using ge by simp
    ultimately have "\<forall>i\<in>set large. scaled ! i - 1 = 0"
      using sum_nonneg_eq_0_iff [of "set large" "\<lambda>i. scaled ! i - 1"] by blast
    with True show ?thesis by simp
  next
    case False
    with assms(2) have "large = []" by simp
    then have sum: "(\<Sum>i\<in>set small. scaled ! i) = of_nat (length small)"
      and lt: "\<forall>i\<in>set small. scaled ! i < 1" using inv by auto
    have "(\<Sum>i\<in>set small. scaled ! i) < (\<Sum>i\<in>set small. 1)"
      using False lt by (intro sum_strict_mono) auto
    with sum dist show ?thesis by (simp add: distinct_card)
  qed
qed

lemma set_all_nth:
  "i < length prob \<Longrightarrow> set_all x idxs prob ! i = (if i \<in> set idxs then x else prob ! i)"
  unfolding set_all_def
  by (induction idxs arbitrary: prob) (auto simp: nth_list_update)

lemma scaled_weights_nth:
  "i < length ws \<Longrightarrow> scaled_weights exact_ops ws ! i = ws ! i * of_nat (length ws) / sum_list ws"
proof -
  have "foldl (+) a ws = a + sum_list ws" for a :: rat
    by (induction ws arbitrary: a) auto
  then show "i < length ws \<Longrightarrow> ?thesis" by (simp add: scaled_weights_def weight_sum_def)
qed

lemma vose_start:
  fixes ws :: "rat list"
  assumes "\<forall>w\<in>set ws. 0 \<le> w" and "0 < sum_list ws"
  shows "vose_inv (scaled_weights exact_ops ws)
     (filter (\<lambda>i. is_small exact_ops (scaled_weights exact_ops ws ! i)) [0..<length ws])
     (filter (\<lambda>i. \<not> is_small exact_ops (scaled_weights exact_ops ws ! i)) [0..<length ws])
     (scaled_weights exact_ops ws) (replicate (length ws) 0) (replicate (length ws) 0)"
proof -
  let ?s = "scaled_weights exact_ops ws" and ?n = "length ws"
  let ?small = "filter (\<lambda>i. is_small exact_ops (?s ! i)) [0..<?n]"
  let ?large = "filter (\<lambda>i. \<not> is_small exact_ops (?s ! i)) [0..<?n]"
  have all: "set (?small @ ?large) = {..<?n}" by auto
  have len: "length ?s = ?n" by (simp add: scaled_weights_def)
  have nonneg: "0 \<le> ?s ! i" if "i < ?n" for i
    using assms that by (simp add: scaled_weights_nth)
  have "(\<Sum>i<?n. ?s ! i) = (\<Sum>i<?n. ws ! i * (of_nat ?n / sum_list ws))"
    by (intro sum.cong) (simp_all add: scaled_weights_nth)
  also have "\<dots> = (\<Sum>i<?n. ws ! i) * (of_nat ?n / sum_list ws)" by (simp only: sum_distrib_right)
  also have "(\<Sum>i<?n. ws ! i) = sum_list ws" by (simp add: sum_list_sum_nth atLeast0LessThan)
  finally have sum: "(\<Sum>i<?n. ?s ! i) = of_nat ?n" using assms(2) by simp
  have "length (?small @ ?large) = ?n"
    using sum_length_filter_compl [of "\<lambda>i. is_small exact_ops (?s ! i)" "[0..<?n]"] by simp
  moreover have "sent_to (set (?small @ ?large)) (replicate ?n 0) (replicate ?n 0) j = 0" for j
    unfolding all sent_to_def by simp
  ultimately show ?thesis
    unfolding vose_inv_def using all sum len nonneg by (auto simp: is_small_def)
qed

text \<open>
  C13: with exact arithmetic the alias tables reproduce the weights.  The chance
  that \<open>sample\<close> ends at index \<open>j\<close>, which is that of drawing \<open>j\<close> and staying plus that
  of drawing an entry aliased to \<open>j\<close> and leaving it, is \<open>w_j\<close> over the sum of the
  weights, and every entry of \<open>prob\<close> is a probability.
\<close>

theorem alias_tables_exact:
  fixes ws :: "rat list"
  assumes "\<forall>w\<in>set ws. 0 \<le> w" and "0 < sum_list ws" and "gen_tables exact_ops ws = (prob, alias)"
    and "j < length ws"
  shows "0 \<le> prob ! j \<and> prob ! j \<le> 1 \<and>
    (prob ! j + (\<Sum>i<length ws. if alias ! i = j then 1 - prob ! i else 0)) / of_nat (length ws)
      = ws ! j / sum_list ws"
proof -
  let ?n = "length ws" and ?s = "scaled_weights exact_ops ws"
  obtain small large p a where loop: "alias_loop exact_ops
     (filter (\<lambda>i. is_small exact_ops (?s ! i)) [0..<?n]) (filter (\<lambda>i. \<not> is_small exact_ops (?s ! i)) [0..<?n])
     ?s (replicate ?n 0) (replicate ?n 0) = (small, large, p, a)"
    by (metis prod_cases4)
  then have res: "prob = set_all 1 small (set_all 1 large p)" "alias = a"
    using assms(3) by (auto simp: gen_tables_def Let_def)
  obtain scaled where inv: "vose_inv ?s small large scaled p a" and "small = [] \<or> large = []"
    using vose_loop [OF loop vose_start [OF assms(1,2)]] by blast
  with vose_leftover have small: "small = []" and ones: "\<forall>i\<in>set large. scaled ! i = 1" by blast+
  have len: "length ?s = ?n" "length p = ?n"
    using inv by (auto simp: vose_inv_def scaled_weights_def)
  have nth: "prob ! i = (if i \<in> set large then 1 else p ! i)" if "i < ?n" for i
    using that len res(1) small by (simp add: set_all_nth)
  have "(\<Sum>i<?n. if alias ! i = j then 1 - prob ! i else 0) = sent_to (set large) p a j"
    unfolding sent_to_def len res(2) by (intro sum.cong) (auto simp: nth)
  moreover have "(if j \<in> set large then scaled ! j else p ! j) + sent_to (set large) p a j = ?s ! j"
    using inv assms(4) small len(1) unfolding vose_inv_def by auto
  ultimately have "prob ! j + (\<Sum>i<?n. if alias ! i = j then 1 - prob ! i else 0) = ?s ! j"
    using nth [OF assms(4)] ones by auto
  moreover have "0 \<le> prob ! j \<and> prob ! j \<le> 1"
    using inv assms(4) small len nth [OF assms(4)] unfolding vose_inv_def by auto
  moreover have "?s ! j / of_nat ?n = ws ! j / sum_list ws"
    using assms(4) by (simp add: scaled_weights_nth)
  ultimately show ?thesis by simp
qed

lemma alias_tables_exact_witness:
  "\<exists>prob al. gen_tables exact_ops [1, 3, 2] = (prob, al) \<and>
     (prob ! 1 + (\<Sum>i<3. if al ! i = 1 then 1 - prob ! i else 0)) / 3 = 1 / 2"
proof -
  obtain prob al where t: "gen_tables exact_ops [1, 3, 2] = (prob, al)" by force
  from alias_tables_exact [OF _ _ t, of 1] show ?thesis
    by (intro exI conjI) (rule t, simp add: numeral_3_eq_3)
qed

end
