(* ===== verification/Conn.thy ===== *)
theory Conn
  imports Packet Probdist
begin

text \<open>
  An established obfs4 connection, from \<open>src/transports/obfs4/domain/conn.rs\<close>: the
  reader, which decodes packets and re-seeds the distributions, and the writer with
  its three inter-arrival-time modes.  The byte stream below is a list of events for
  the reader (what each \<open>read\<close> of the socket returns) and a function telling which
  \<open>write_all\<close> fails for the writer; the log of writes is part of the state.
\<close>

definition HEADER_LENGTH :: nat where "HEADER_LENGTH = FRAME_OVERHEAD + PACKET_OVERHEAD"
definition MAX_IAT_DELAY :: nat where "MAX_IAT_DELAY = 100"
definition MAX_ZERO_LENGTH_SAMPLES :: nat where "MAX_ZERO_LENGTH_SAMPLES = 64"

lemma conn_consts [simp]: "HEADER_LENGTH = 21" "MAX_IAT_DELAY = 100" "MAX_ZERO_LENGTH_SAMPLES = 64"
  by (simp_all add: HEADER_LENGTH_def MAX_IAT_DELAY_def MAX_ZERO_LENGTH_SAMPLES_def)

datatype iat_mode = IatNone | IatEnabled | IatParanoid

definition iat_mode_from_int :: "int \<Rightarrow> iat_mode option" where
  "iat_mode_from_int v =
     (if v = 0 then Some IatNone else if v = 1 then Some IatEnabled
      else if v = 2 then Some IatParanoid else None)"

text \<open>The third-party operations a connection uses.\<close>

record ('h, 'f) ops =
  o_float :: "'f float_ops"
  o_sip :: "'h sip_ops"
  o_box :: secretbox
  o_sha256 :: "bytes \<Rightarrow> bytes"

text \<open>\<open>None\<close>: the \<open>expect\<close> on the digest's length.\<close>

definition iat_seed_from :: "('h, 'f) ops \<Rightarrow> bytes \<Rightarrow> bytes option" where
  "iat_seed_from W seed =
     (case seed_from_bytes (o_sha256 W seed) of Ok s \<Rightarrow> Some s | _ \<Rightarrow> None)"

record 'f dists =
  d_len :: "'f weighted_dist"
  d_iat :: "'f weighted_dist option"

definition dists_new :: "('h, 'f) ops \<Rightarrow> bytes \<Rightarrow> bytes option \<Rightarrow> bool \<Rightarrow> ('f dists option, unit) res" where
  "dists_new W len_seed iat_seed biased =
     (case wd_new (o_float W) (o_sip W) len_seed 0 MAXIMUM_SEGMENT_LENGTH biased of
        Ok (Some l) \<Rightarrow>
          (case iat_seed of
             None \<Rightarrow> Ok (Some \<lparr>d_len = l, d_iat = None\<rparr>)
           | Some s \<Rightarrow>
               map_ok (map_option (\<lambda>i. \<lparr>d_len = l, d_iat = Some i\<rparr>))
                 (wd_new (o_float W) (o_sip W) s 0 MAX_IAT_DELAY biased))
      | Ok None \<Rightarrow> Ok None
      | Err e \<Rightarrow> Err e
      | Panic \<Rightarrow> Panic)"

text \<open>What a PRNG seed packet does to the shared distributions.\<close>

definition dists_reset :: "('h, 'f) ops \<Rightarrow> bytes \<Rightarrow> 'f dists \<Rightarrow> ('f dists option, unit) res" where
  "dists_reset W seed d =
     (case wd_reset (o_float W) (o_sip W) seed (d_len d) of
        Ok (Some l) \<Rightarrow>
          (case d_iat d of
             None \<Rightarrow> Ok (Some (d\<lparr>d_len := l\<rparr>))
           | Some iat \<Rightarrow>
               (case iat_seed_from W seed of
                  None \<Rightarrow> Panic
                | Some s \<Rightarrow>
                    map_ok (map_option (\<lambda>i. d\<lparr>d_len := l, d_iat := Some i\<rparr>))
                      (wd_reset (o_float W) (o_sip W) s iat)))
      | Ok None \<Rightarrow> Ok None
      | Err e \<Rightarrow> Err e
      | Panic \<Rightarrow> Panic)"

section \<open>The reader\<close>

datatype io_error = InvalidData packet_error | IoFailure nat

record ('h, 'f) reader =
  r_decoder :: "'h decoder"
  r_receive :: buf
  r_decoded :: buf
  r_is_server :: bool
  r_dists :: "'f dists"
  r_eof :: bool
  r_error :: "io_error option"

text \<open>One packet; \<open>Ok None\<close> if re-seeding never returns.\<close>

definition handle_packet :: "('h, 'f) ops \<Rightarrow> u8 \<Rightarrow> bytes \<Rightarrow> ('h, 'f) reader \<Rightarrow>
    (('h, 'f) reader option, unit) res" where
  "handle_packet W pkt_type payload r =
     (if pkt_type = PACKET_TYPE_PAYLOAD
      then Ok (Some (r\<lparr>r_decoded := buf_extend payload (r_decoded r)\<rparr>))
      else if pkt_type = PACKET_TYPE_PRNG_SEED \<and> length payload = SEED_PACKET_PAYLOAD_LENGTH \<and>
              \<not> r_is_server r
      then (case seed_from_bytes payload of
              Ok seed \<Rightarrow> map_ok (map_option (\<lambda>d. r\<lparr>r_dists := d\<rparr>)) (dists_reset W seed (r_dists r))
            | _ \<Rightarrow> Panic)
      else Ok (Some r))"

text \<open>
  \<open>process_buffered\<close>; \<open>rl\<close> is the length the frame decoder draws for a bad frame.
  Each round but the last takes bytes out of \<open>receive\<close>, so its length bounds the
  rounds; \<open>process_all\<close> starts with enough fuel.
\<close>

fun process_buffered :: "('h, 'f) ops \<Rightarrow> u16 \<Rightarrow> nat \<Rightarrow> ('h, 'f) reader \<Rightarrow>
    ((io_error option \<times> ('h, 'f) reader) option, unit) res" where
  "process_buffered W rl 0 r = Ok None"
| "process_buffered W rl (Suc fuel) r =
     (if buf_is_empty (r_receive r) then Ok (Some (None, r))
      else
        case decode (o_sip W) (o_box W) rl (r_decoder r) (r_receive r) of
          (res, d, receive) \<Rightarrow>
            let r = r\<lparr>r_decoder := d, r_receive := receive\<rparr>
            in case res of
                 Ok None \<Rightarrow> Ok (Some (None, r))
               | Err e \<Rightarrow> Ok (Some (Some (InvalidData (FrameErr e)), r))
               | Panic \<Rightarrow> Panic
               | Ok (Some pkt) \<Rightarrow>
                   (case parse_packet pkt of
                      Err e \<Rightarrow> Ok (Some (Some (InvalidData e), r))
                    | Panic \<Rightarrow> Panic
                    | Ok (pkt_type, payload) \<Rightarrow>
                        (case handle_packet W pkt_type payload r of
                           Ok (Some r) \<Rightarrow> process_buffered W rl fuel r
                         | Ok None \<Rightarrow> Ok None
                         | Err e \<Rightarrow> Err e
                         | Panic \<Rightarrow> Panic)))"

definition process_all :: "('h, 'f) ops \<Rightarrow> u16 \<Rightarrow> ('h, 'f) reader \<Rightarrow>
    ((io_error option \<times> ('h, 'f) reader) option, unit) res" where
  "process_all W rl r = process_buffered W rl (Suc (buf_len (r_receive r))) r"

text \<open>What a read of the socket returns, in order.  With no event left the task waits.\<close>

datatype net_event = NetData bytes | NetEof | NetErr nat

datatype read_result = RData bytes | RErr io_error | RBlocked

text \<open>The loop of \<open>read_impl\<close> for a non-empty \<open>out\<close> of \<open>cap\<close> bytes.\<close>

function read_loop :: "('h, 'f) ops \<Rightarrow> u16 \<Rightarrow> nat \<Rightarrow> net_event list \<Rightarrow> ('h, 'f) reader \<Rightarrow>
    ((read_result \<times> net_event list \<times> ('h, 'f) reader) option, unit) res" where
  "read_loop W rl cap evs r =
     (if \<not> buf_is_empty (r_decoded r) then
        (case buf_read_into cap (r_decoded r) of
           None \<Rightarrow> Panic
         | Some (bs, decoded) \<Rightarrow> Ok (Some (RData bs, evs, r\<lparr>r_decoded := decoded\<rparr>)))
      else if r_error r \<noteq> None then Ok (Some (RErr (the (r_error r)), evs, r\<lparr>r_error := None\<rparr>))
      else if r_eof r then Ok (Some (RData [], evs, r))
      else
        case process_all W rl r of
          Panic \<Rightarrow> Panic | Err e \<Rightarrow> Err e | Ok None \<Rightarrow> Ok None
        | Ok (Some (Some e, r)) \<Rightarrow> read_loop W rl cap evs (r\<lparr>r_error := Some e\<rparr>)
        | Ok (Some (None, r)) \<Rightarrow>
            if \<not> buf_is_empty (r_decoded r) then read_loop W rl cap evs r
            else
              case evs of
                [] \<Rightarrow> Ok (Some (RBlocked, [], r))
              | ev # evs \<Rightarrow>
                  let r = (case ev of
                      NetData bs \<Rightarrow> if bs = [] then r\<lparr>r_eof := True\<rparr>
                                    else r\<lparr>r_receive := buf_extend bs (r_receive r)\<rparr>
                    | NetEof \<Rightarrow> r\<lparr>r_eof := True\<rparr>
                    | NetErr n \<Rightarrow> r\<lparr>r_error := Some (IoFailure n)\<rparr>)
                  in (case process_all W rl r of
                        Panic \<Rightarrow> Panic | Err e \<Rightarrow> Err e | Ok None \<Rightarrow> Ok None
                      | Ok (Some (Some e, r)) \<Rightarrow> read_loop W rl cap evs (r\<lparr>r_error := Some e\<rparr>)
                      | Ok (Some (None, r)) \<Rightarrow> read_loop W rl cap evs r))"
  by pat_completeness auto
termination
  by (relation "measure (\<lambda>(W, rl, cap, evs, r). 2 * length evs +
        (if buf_is_empty (r_decoded r) \<and> r_error r = None then 1 else 0))") auto

declare read_loop.simps [simp del]

definition read_impl :: "('h, 'f) ops \<Rightarrow> u16 \<Rightarrow> nat \<Rightarrow> net_event list \<Rightarrow> ('h, 'f) reader \<Rightarrow>
    ((read_result \<times> net_event list \<times> ('h, 'f) reader) option, unit) res" where
  "read_impl W rl cap evs r =
     (if cap = 0 then Ok (Some (RData [], evs, r)) else read_loop W rl cap evs r)"

section \<open>The writer\<close>

definition pad_len_for :: "nat \<Rightarrow> nat \<Rightarrow> nat" where
  "pad_len_for pending to_pad_to =
     (let tail_len = pending mod MAXIMUM_SEGMENT_LENGTH
      in if tail_len \<le> to_pad_to then to_pad_to - tail_len
         else (MAXIMUM_SEGMENT_LENGTH - tail_len) + to_pad_to)"

text \<open>The padding packets of \<open>pad_burst\<close>.\<close>

definition pad_packets :: "nat \<Rightarrow> (u8 \<times> bytes \<times> nat) list" where
  "pad_packets pad_len =
     (if HEADER_LENGTH < pad_len then [(PACKET_TYPE_PAYLOAD, [], pad_len - HEADER_LENGTH)]
      else if 0 < pad_len
      then [(PACKET_TYPE_PAYLOAD, [], MAX_PACKET_PAYLOAD_LENGTH), (PACKET_TYPE_PAYLOAD, [], pad_len)]
      else [])"

definition pad_burst :: "('h, 'f) ops \<Rightarrow> 'h encoder \<Rightarrow> bytes \<Rightarrow> nat \<Rightarrow> nat \<Rightarrow>
    (bytes \<times> 'h encoder, frame_error) res" where
  "pad_burst W e burst pending to_pad_to =
     make_packets (o_sip W) (o_box W) e burst (pad_packets (pad_len_for pending to_pad_to))"

text \<open>
  The writer's state.  The reader may re-seed the distributions at any time:
  \<open>w_dists k\<close> is what the \<open>k\<close>-th lock of the mutex finds.  The log holds the bytes of
  every \<open>write_all\<close> and the microseconds slept after it.
\<close>

record ('h, 'f) writer =
  w_enc :: "'h encoder"
  w_burst :: buf
  w_zero :: nat
  w_rand :: "nat \<Rightarrow> bytes"
  w_dists :: "nat \<Rightarrow> 'f dists"
  w_locks :: nat
  w_log :: "(bytes \<times> nat) list"

definition sample_len :: "('h, 'f) ops \<Rightarrow> ('h, 'f) writer \<Rightarrow> ((nat \<times> ('h, 'f) writer) option, unit) res" where
  "sample_len W w =
     map_ok (map_option (\<lambda>(v, s). (v, w\<lparr>w_rand := s, w_locks := Suc (w_locks w)\<rparr>)))
       (wd_sample (o_float W) (d_len (w_dists w (w_locks w))) (w_rand w))"

definition sample_iat :: "('h, 'f) ops \<Rightarrow> ('h, 'f) writer \<Rightarrow> ((nat \<times> ('h, 'f) writer) option, unit) res" where
  "sample_iat W w =
     (case d_iat (w_dists w (w_locks w)) of
        None \<Rightarrow> Ok (Some (0, w\<lparr>w_locks := Suc (w_locks w)\<rparr>))
      | Some iat \<Rightarrow>
          map_ok (map_option (\<lambda>(v, s). (v * 100, w\<lparr>w_rand := s, w_locks := Suc (w_locks w)\<rparr>)))
            (wd_sample (o_float W) iat (w_rand w)))"

datatype 'w write_step = Next 'w | Stop io_error 'w

text \<open>\<open>sink k\<close> is the error of the \<open>k\<close>-th \<open>write_all\<close>, if it fails.\<close>

definition send_burst :: "('h, 'f) ops \<Rightarrow> (nat \<Rightarrow> nat option) \<Rightarrow> nat \<Rightarrow> ('h, 'f) writer \<Rightarrow>
    (('h, 'f) writer write_step option, unit) res" where
  "send_burst W sink wr_len w =
     draw_then (sample_iat W (w\<lparr>w_zero := 0\<rparr>)) (\<lambda>delay w.
       if buf_len (w_burst w) < wr_len then Panic
       else
         case sink (length (w_log w)) of
           Some n \<Rightarrow> Ok (Some (Stop (IoFailure n) w))
         | None \<Rightarrow>
             let chunk = take wr_len (buf_as_slice (w_burst w))
             in case buf_consume wr_len (w_burst w) of
                  None \<Rightarrow> Panic
                | Some b \<Rightarrow> Ok (Some (Next (w\<lparr>w_burst := b, w_log := w_log w @ [(chunk, delay)]\<rparr>))))"

definition write_step :: "('h, 'f) ops \<Rightarrow> (nat \<Rightarrow> nat option) \<Rightarrow> iat_mode \<Rightarrow> ('h, 'f) writer \<Rightarrow>
    (('h, 'f) writer write_step option, unit) res" where
  "write_step W sink mode w =
     (if mode = IatParanoid then
        draw_then (sample_len W w) (\<lambda>target w.
          if target = 0 \<and> w_zero w < MAX_ZERO_LENGTH_SAMPLES
          then Ok (Some (Next (w\<lparr>w_zero := w_zero w + 1\<rparr>)))
          else if target = 0 then send_burst W sink (min (buf_len (w_burst w)) MAXIMUM_SEGMENT_LENGTH) w
          else if buf_len (w_burst w) < target then
            (case pad_burst W (w_enc w) [] (buf_len (w_burst w)) target of
               Panic \<Rightarrow> Panic
             | Err e \<Rightarrow> Ok (Some (Stop (InvalidData (FrameErr e)) w))
             | Ok (pad, e) \<Rightarrow>
                 let w = w\<lparr>w_enc := e, w_burst := buf_extend pad (w_burst w)\<rparr>
                 in if buf_len (w_burst w) \<noteq> target then Ok (Some (Next w))
                    else send_burst W sink target w)
          else send_burst W sink target w)
      else send_burst W sink (min (buf_len (w_burst w)) MAXIMUM_SEGMENT_LENGTH) w)"

text \<open>The loop \<open>while !burst.is_empty()\<close>: \<open>None\<close> if it never ends.\<close>

partial_function (option) write_loop :: "('h, 'f) ops \<Rightarrow> (nat \<Rightarrow> nat option) \<Rightarrow> iat_mode \<Rightarrow> ('h, 'f) writer \<Rightarrow>
    (io_error option \<times> ('h, 'f) writer, unit) res option" where
  "write_loop W sink mode w =
     (if buf_is_empty (w_burst w) then Some (Ok (None, w))
      else case write_step W sink mode w of
        Ok None \<Rightarrow> None
      | Ok (Some (Next w')) \<Rightarrow> write_loop W sink mode w'
      | Ok (Some (Stop e w')) \<Rightarrow> Some (Ok (Some e, w'))
      | Err e \<Rightarrow> Some (Err e)
      | Panic \<Rightarrow> Some Panic)"

definition data_packets :: "bytes \<Rightarrow> (u8 \<times> bytes \<times> nat) list" where
  "data_packets b = map (\<lambda>c. (PACKET_TYPE_PAYLOAD, c, 0)) (chunks MAX_PACKET_PAYLOAD_LENGTH b)"

text \<open>The frames of \<open>write_impl\<close> before the burst loop.\<close>

definition write_frames :: "('h, 'f) ops \<Rightarrow> iat_mode \<Rightarrow> bytes \<Rightarrow> ('h, 'f) writer \<Rightarrow>
    ((((bytes \<times> 'h encoder, frame_error) res) \<times> ('h, 'f) writer) option, unit) res" where
  "write_frames W mode b w =
     (case make_packets (o_sip W) (o_box W) (w_enc w) [] (data_packets b) of
        Panic \<Rightarrow> Panic
      | Err e \<Rightarrow> Ok (Some (Err e, w))
      | Ok (frames, e) \<Rightarrow>
          if mode \<noteq> IatParanoid then
            draw_then (sample_len W (w\<lparr>w_enc := e\<rparr>)) (\<lambda>target w.
              case pad_burst W (w_enc w) frames (length frames) target of
                Panic \<Rightarrow> Panic
              | r \<Rightarrow> Ok (Some (r, w)))
          else Ok (Some (Ok (frames, e), w)))"

definition write_impl :: "('h, 'f) ops \<Rightarrow> (nat \<Rightarrow> nat option) \<Rightarrow> iat_mode \<Rightarrow> bytes \<Rightarrow> ('h, 'f) writer \<Rightarrow>
    (io_error option \<times> ('h, 'f) writer, unit) res option" where
  "write_impl W sink mode b w =
     (case write_frames W mode b w of
        Panic \<Rightarrow> Some Panic
      | Err e \<Rightarrow> Some (Err e)
      | Ok None \<Rightarrow> None
      | Ok (Some (Panic, w)) \<Rightarrow> Some Panic
      | Ok (Some (Err e, w)) \<Rightarrow> Some (Ok (Some (InvalidData (FrameErr e)), w))
      | Ok (Some (Ok (frames, e), w)) \<Rightarrow>
          let w = w\<lparr>w_enc := e\<rparr>
          in if mode = IatNone then
               (case sink (length (w_log w)) of
                  Some n \<Rightarrow> Some (Ok (Some (IoFailure n), w))
                | None \<Rightarrow> Some (Ok (None, w\<lparr>w_log := w_log w @ [(frames, 0)]\<rparr>)))
             else write_loop W sink mode (w\<lparr>w_burst := buf_extend frames buf_default, w_zero := 0\<rparr>))"

section \<open>What a reader delivers\<close>

definition conn_step :: "('h, 'f) ops \<Rightarrow> u16 \<Rightarrow> 'h decoder \<Rightarrow> bytes \<Rightarrow>
    (u8 \<times> bytes, packet_error) dstep \<times> 'h decoder \<times> bytes" where
  "conn_step W rl = packet_step (o_sip W) (o_box W) rl"

definition payload_bytes :: "(u8 \<times> bytes) list \<Rightarrow> bytes" where
  "payload_bytes ps = concat (map (\<lambda>(ty, data). if ty = PACKET_TYPE_PAYLOAD then data else []) ps)"

lemma payload_bytes_simps [simp]:
  "payload_bytes [] = []" "payload_bytes (ps @ qs) = payload_bytes ps @ payload_bytes qs"
  "payload_bytes ((ty, data) # ps) = (if ty = 0 then data else []) @ payload_bytes ps"
  by (simp_all add: payload_bytes_def)

definition reader_inv :: "('h, 'f) reader \<Rightarrow> bool" where
  "reader_inv r \<longleftrightarrow> buf_inv (r_receive r) \<and> buf_inv (r_decoded r)"

lemma handle_packet_Ok:
  assumes "handle_packet W ty data r = Ok (Some r')" and "reader_inv r"
  shows "reader_inv r' \<and> r_decoder r' = r_decoder r \<and> r_receive r' = r_receive r \<and> r_eof r' = r_eof r \<and>
    r_error r' = r_error r \<and>
    buf_as_slice (r_decoded r') = buf_as_slice (r_decoded r) @ (if ty = 0 then data else [])"
  using assms by (auto simp: handle_packet_def reader_inv_def buf_view_simps map_ok_Some split: if_splits res.splits)

lemma packet_step_of_decode:
  assumes "decode (o_sip W) (o_box W) rl d b = (res, d', b')" and "buf_inv b"
  shows "buf_inv b' \<and> res \<noteq> Panic \<and> conn_step W rl d (buf_as_slice b) =
    ((case res of Ok None \<Rightarrow> More | Err e \<Rightarrow> Fail (FrameErr e) | Panic \<Rightarrow> More
      | Ok (Some pkt) \<Rightarrow> (case parse_packet pkt of Ok q \<Rightarrow> Got q | Err e \<Rightarrow> Fail e | Panic \<Rightarrow> More)), d', buf_as_slice b')"
proof -
  have "buf_inv b' \<and> res \<noteq> Panic \<and>
      frame_step (o_sip W) (o_box W) rl d (buf_as_slice b) = (dstep_of res, d', buf_as_slice b')"
    using decode_refines_frame_step [OF assms(2), of "o_sip W" "o_box W" rl d] assms(1) by auto
  then show ?thesis
    using parse_packet_no_panic
    by (auto simp: conn_step_def packet_step_def map_step_def parse_frame_def lift_frame_error_def
        split: res.splits option.splits)
qed

lemma conn_step_empty: "conn_step W rl d [] = (More, d, [])"
proof -
  have "unat (next_length d) \<noteq> 0" if "next_length d \<noteq> 0" using that by (simp add: unat_eq_0)
  then have "frame_step (o_sip W) (o_box W) rl d [] = (More, d, [])"
    by (simp add: frame_step_def body_step_def Let_def)
  then show ?thesis by (simp add: conn_step_def packet_step_def map_step_def lift_frame_error_def)
qed

lemma process_buffered_spec:
  assumes rl: "rl \<noteq> 0"
    and "process_buffered W rl fuel r = Ok (Some (err, r'))" and "reader_inv r"
    and "drain_all (conn_step W rl) (r_decoder r) (buf_as_slice (r_receive r)) = (ps, x, d', rest)"
  shows "reader_inv r' \<and> err = map_option InvalidData x \<and> r_decoder r' = d' \<and> buf_as_slice (r_receive r') = rest \<and>
    r_eof r' = r_eof r \<and> r_error r' = r_error r \<and>
    buf_as_slice (r_decoded r') = buf_as_slice (r_decoded r) @ payload_bytes ps"
  using assms(2-)
proof (induction fuel arbitrary: r ps)
  case (Suc fuel)
  have dec: "stream_decoder (conn_step W rl)" unfolding conn_step_def by (rule packet_stream_decoder [OF rl])
  note drain = stream_decoder.drain_all_simps [OF dec]
  show ?case
  proof (cases "buf_is_empty (r_receive r)")
    case True
    then have e: "buf_as_slice (r_receive r) = []" by (simp add: buf_is_empty_def flip: length_buf_as_slice)
    then have "drain_all (conn_step W rl) (r_decoder r) (buf_as_slice (r_receive r)) = ([], None, r_decoder r, [])"
      using drain(1) [OF conn_step_empty] by simp
    with True Suc.prems e show ?thesis by simp
  next
    case False
    obtain res d b where D: "decode (o_sip W) (o_box W) rl (r_decoder r) (r_receive r) = (res, d, b)"
      by (metis prod_cases3)
    let ?r = "r\<lparr>r_decoder := d, r_receive := b\<rparr>"
    have "buf_inv (r_receive r)" using Suc.prems(2) by (simp add: reader_inv_def)
    note step = packet_step_of_decode [OF D this]
    have inv: "reader_inv ?r" using step Suc.prems(2) by (simp add: reader_inv_def)
    show ?thesis
    proof (cases res)
      case (Ok o')
      show ?thesis
      proof (cases o')
        case None
        with Ok step have "conn_step W rl (r_decoder r) (buf_as_slice (r_receive r)) = (More, d, buf_as_slice b)"
          by simp
        with drain(1) [OF this] Suc.prems False D Ok None inv show ?thesis by (auto simp: Let_def)
      next
        case (Some pkt)
        show ?thesis
        proof (cases "parse_packet pkt")
          case p: (Ok q)
          obtain ty data where q: "q = (ty, data)" by force
          have "conn_step W rl (r_decoder r) (buf_as_slice (r_receive r)) = (Got (ty, data), d, buf_as_slice b)"
            using step Ok Some p q by simp
          note drain3 = drain(3) [OF this]
          obtain ps' where ps': "drain_all (conn_step W rl) d (buf_as_slice b) = (ps', x, d', rest)"
              and ps: "ps = (ty, data) # ps'"
            using drain3 Suc.prems(3) by (auto split: prod.splits)
          obtain r1 where h: "handle_packet W ty data ?r = Ok (Some r1)"
            and loop: "process_buffered W rl fuel r1 = Ok (Some (err, r'))"
            using Suc.prems(1) False D Ok Some p q by (auto simp: Let_def split: res.splits option.splits)
          note h1 = handle_packet_Ok [OF h inv]
          from Suc.IH [OF loop, of ps'] h1 ps' ps show ?thesis by auto
        next
          case p: (Err e)
          have "conn_step W rl (r_decoder r) (buf_as_slice (r_receive r)) = (Fail e, d, buf_as_slice b)"
            using step Ok Some p by simp
          with drain(2) [OF this] Suc.prems False D Ok Some p inv show ?thesis by (auto simp: Let_def)
        qed (use parse_packet_no_panic in auto)
      qed
    next
      case (Err e)
      with step have "conn_step W rl (r_decoder r) (buf_as_slice (r_receive r)) = (Fail (FrameErr e), d, buf_as_slice b)"
        by simp
      with drain(2) [OF this] Suc.prems False D Err inv show ?thesis by (auto simp: Let_def)
    qed (use step in auto)
  qed
qed simp

text \<open>What the network will still hand over before it ends or fails.\<close>

fun arriving :: "net_event list \<Rightarrow> bytes" where
  "arriving [] = []"
| "arriving (NetData bs # evs) = (if bs = [] then [] else bs @ arriving evs)"
| "arriving (NetEof # evs) = []"
| "arriving (NetErr n # evs) = []"

text \<open>The payload bytes the reader still owes its caller: those decoded, and those in
  the packets of the bytes received and still to arrive, up to the first bad one.\<close>

definition undelivered :: "('h, 'f) ops \<Rightarrow> u16 \<Rightarrow> net_event list \<Rightarrow> ('h, 'f) reader \<Rightarrow> bytes" where
  "undelivered W rl evs r = buf_as_slice (r_decoded r) @
     (if r_eof r \<or> r_error r \<noteq> None then []
      else payload_bytes (fst (drain_all (conn_step W rl) (r_decoder r) (buf_as_slice (r_receive r) @ arriving evs))))"

lemma process_all_owes:
  assumes rl: "rl \<noteq> 0" and ret: "process_all W rl r = Ok (Some (err, r'))" and inv: "reader_inv r"
    and live: "r_error r = None" "\<not> r_eof r"
  shows "reader_inv r' \<and> r_error r' = None \<and> \<not> r_eof r' \<and>
    (case err of
       Some e \<Rightarrow> undelivered W rl evs (r'\<lparr>r_error := Some e\<rparr>) = undelivered W rl evs r
     | None \<Rightarrow> undelivered W rl evs r' = undelivered W rl evs r \<and>
         conn_step W rl (r_decoder r') (buf_as_slice (r_receive r')) = (More, r_decoder r', buf_as_slice (r_receive r')))"
proof -
  have dec: "stream_decoder (conn_step W rl)" unfolding conn_step_def by (rule packet_stream_decoder [OF rl])
  obtain ps x d rest where d: "drain_all (conn_step W rl) (r_decoder r) (buf_as_slice (r_receive r)) = (ps, x, d, rest)"
    by (metis prod_cases4)
  note spec = process_buffered_spec [OF rl ret [unfolded process_all_def] inv d]
  note app = stream_decoder.drain_all_append [OF dec, of "r_decoder r" "buf_as_slice (r_receive r)" "arriving evs", unfolded d]
  show ?thesis
  proof (cases x)
    case None
    with stream_decoder.drain_all_rest [OF dec] d spec app live show ?thesis
      by (auto simp: undelivered_def split: prod.splits)
  next
    case (Some e)
    with spec app live show ?thesis by (auto simp: undelivered_def)
  qed
qed

text \<open>With nothing decodable left in the buffer a further round changes nothing that is
  owed.\<close>

lemma process_all_idle:
  assumes rl: "rl \<noteq> 0" and ret: "process_all W rl r = Ok (Some (err, r'))" and inv: "reader_inv r"
    and idle: "conn_step W rl (r_decoder r) (buf_as_slice (r_receive r)) = (More, d, b)"
  shows "err = None \<and> reader_inv r' \<and> r_error r' = r_error r \<and> r_eof r' = r_eof r \<and>
    buf_as_slice (r_decoded r') = buf_as_slice (r_decoded r)"
proof -
  have dec: "stream_decoder (conn_step W rl)" unfolding conn_step_def by (rule packet_stream_decoder [OF rl])
  from process_buffered_spec [OF rl ret [unfolded process_all_def] inv stream_decoder.drain_all_simps(1) [OF dec idle]]
  show ?thesis by simp
qed

text \<open>What a read does with the bytes owed.\<close>

definition read_post :: "('h, 'f) ops \<Rightarrow> u16 \<Rightarrow> nat \<Rightarrow> bytes \<Rightarrow> read_result \<Rightarrow> net_event list \<Rightarrow> ('h, 'f) reader \<Rightarrow> bool" where
  "read_post W rl cap owed res evs' r' \<longleftrightarrow> reader_inv r' \<and>
    (case res of
       RData bs \<Rightarrow>
         if bs = [] then owed = [] \<and> r_eof r'
         else length bs \<le> cap \<and> owed = bs @ undelivered W rl evs' r'
     | RErr e \<Rightarrow> owed = []
     | RBlocked \<Rightarrow> owed = [] \<and> evs' = [])"

lemma read_loop_owes:
  assumes rl: "rl \<noteq> 0" and "0 < cap"
    and "read_loop W rl cap evs r = Ok (Some (res, evs', r'))" and "reader_inv r"
  shows "read_post W rl cap (undelivered W rl evs r) res evs' r'"
  using assms(3-)
proof (induction "2 * length evs + (if buf_is_empty (r_decoded r) \<and> r_error r = None then 1 else 0 :: nat)"
    arbitrary: evs r rule: less_induct)
  case less
  note ret = less.prems(1) [unfolded read_loop.simps [of W rl cap evs r]]
  have empty: "buf_as_slice (r_decoded r) = []" if "buf_is_empty (r_decoded r)" for r
    using that by (simp add: buf_is_empty_def flip: length_buf_as_slice)
  show ?case
  proof (cases "buf_is_empty (r_decoded r)")
    case False
    obtain b' where b': "buf_read_into cap (r_decoded r) = Some (take cap (buf_as_slice (r_decoded r)), b')"
        "buf_inv b'" "buf_as_slice b' = drop cap (buf_as_slice (r_decoded r))"
      using buf_read_into_spec [of "r_decoded r" cap] less.prems(2) by (auto simp: reader_inv_def)
    have "buf_as_slice (r_decoded r) \<noteq> []"
      using False by (metis buf_is_empty_def length_buf_as_slice list.size(3))
    with ret b' False less.prems(2) \<open>0 < cap\<close> show ?thesis
      by (auto simp: undelivered_def reader_inv_def read_post_def)
  next
    case dec: True
    show ?thesis
    proof (cases "r_error r \<noteq> None \<or> r_eof r")
      case True
      with ret dec empty [OF dec] less.prems(2) show ?thesis
        by (auto simp: undelivered_def reader_inv_def read_post_def split: if_splits)
    next
      case False
      then have live: "r_error r = None" "\<not> r_eof r" by simp_all
      obtain err r1 where p: "process_all W rl r = Ok (Some (err, r1))"
        using ret dec live by (cases "process_all W rl r") (auto split: option.splits)
      note owe = process_all_owes [OF rl p less.prems(2) live, of evs]
      show ?thesis
      proof (cases err)
        case (Some e)
        then have "read_loop W rl cap evs (r1\<lparr>r_error := Some e\<rparr>) = Ok (Some (res, evs', r'))"
          using ret dec live p by simp
        from less.hyps [OF _ this] owe Some dec live show ?thesis by (auto simp: reader_inv_def)
      next
        case None
        note owe1 = owe [unfolded None option.case]
        show ?thesis
        proof (cases "buf_is_empty (r_decoded r1)")
          case False
          then have "read_loop W rl cap evs r1 = Ok (Some (res, evs', r'))"
            using ret dec live p None by simp
          from less.hyps [OF _ this] owe1 False dec live show ?thesis by auto
        next
          case e1: True
          have step: "(case evs of [] \<Rightarrow> Ok (Some (RBlocked, [], r1))
              | ev # evs \<Rightarrow>
                  let r = (case ev of
                      NetData bs \<Rightarrow> if bs = [] then r1\<lparr>r_eof := True\<rparr>
                                    else r1\<lparr>r_receive := buf_extend bs (r_receive r1)\<rparr>
                    | NetEof \<Rightarrow> r1\<lparr>r_eof := True\<rparr>
                    | NetErr n \<Rightarrow> r1\<lparr>r_error := Some (IoFailure n)\<rparr>)
                  in (case process_all W rl r of
                        Panic \<Rightarrow> Panic | Err e \<Rightarrow> Err e | Ok None \<Rightarrow> Ok None
                      | Ok (Some (Some e, r)) \<Rightarrow> read_loop W rl cap evs (r\<lparr>r_error := Some e\<rparr>)
                      | Ok (Some (None, r)) \<Rightarrow> read_loop W rl cap evs r)) = Ok (Some (res, evs', r'))"
            using ret dec live p None e1 by simp
          have dec': "stream_decoder (conn_step W rl)" unfolding conn_step_def by (rule packet_stream_decoder [OF rl])
          have idle: "conn_step W rl (r_decoder r1) (buf_as_slice (r_receive r1)) =
              (More, r_decoder r1, buf_as_slice (r_receive r1))" using owe1 by blast
          have rest: "drain_all (conn_step W rl) (r_decoder r1) (buf_as_slice (r_receive r1)) =
              ([], None, r_decoder r1, buf_as_slice (r_receive r1))"
            by (rule stream_decoder.drain_all_simps(1) [OF dec' idle])
          show ?thesis
          proof (cases evs)
            case Nil
            with step owe1 rest empty [OF e1] show ?thesis by (auto simp: undelivered_def read_post_def)
          next
            case (Cons ev evs1)
            show ?thesis
            proof (cases "\<exists>bs. ev = NetData bs \<and> bs \<noteq> []")
              case True
              then obtain bs where ev: "ev = NetData bs" "bs \<noteq> []" by blast
              let ?r2 = "r1\<lparr>r_receive := buf_extend bs (r_receive r1)\<rparr>"
              have inv2: "reader_inv ?r2" and view2: "buf_as_slice (buf_extend bs (r_receive r1)) = buf_as_slice (r_receive r1) @ bs"
                using owe1 by (auto simp: reader_inv_def buf_view_simps)
              have same: "undelivered W rl evs1 ?r2 = undelivered W rl evs r1"
                using ev Cons view2 by (simp add: undelivered_def)
              obtain err2 r3 where p2: "process_all W rl ?r2 = Ok (Some (err2, r3))"
                using step Cons ev by (cases "process_all W rl ?r2") (auto split: option.splits)
              have live2: "r_error ?r2 = None" "\<not> r_eof ?r2" using owe1 by simp_all
              note owe2 = process_all_owes [OF rl p2 inv2 live2, of evs1]
              show ?thesis
              proof (cases err2)
                case (Some e)
                then have "read_loop W rl cap evs1 (r3\<lparr>r_error := Some e\<rparr>) = Ok (Some (res, evs', r'))"
                  using step Cons ev p2 by simp
                from less.hyps [OF _ this] owe1 owe2 Some same Cons show ?thesis by (auto simp: reader_inv_def)
              next
                case None
                then have "read_loop W rl cap evs1 r3 = Ok (Some (res, evs', r'))"
                  using step Cons ev p2 by simp
                from less.hyps [OF _ this] owe1 owe2 None same Cons show ?thesis by auto
              qed
            next
              case False
              let ?r2 = "case ev of NetData bs \<Rightarrow> r1\<lparr>r_eof := True\<rparr> | NetEof \<Rightarrow> r1\<lparr>r_eof := True\<rparr>
                | NetErr n \<Rightarrow> r1\<lparr>r_error := Some (IoFailure n)\<rparr>"
              have ended: "arriving evs = []" "undelivered W rl evs r1 = []"
                using False Cons rest empty [OF e1] by (cases ev; simp add: undelivered_def)+
              have r2: "reader_inv ?r2" "r_decoder ?r2 = r_decoder r1" "r_receive ?r2 = r_receive r1"
                  "r_decoded ?r2 = r_decoded r1" "r_eof ?r2 \<or> r_error ?r2 \<noteq> None"
                using owe1 by (cases ev; simp add: reader_inv_def)+
              have step2: "(case process_all W rl ?r2 of
                        Panic \<Rightarrow> Panic | Err e \<Rightarrow> Err e | Ok None \<Rightarrow> Ok None
                      | Ok (Some (Some e, r)) \<Rightarrow> read_loop W rl cap evs1 (r\<lparr>r_error := Some e\<rparr>)
                      | Ok (Some (None, r)) \<Rightarrow> read_loop W rl cap evs1 r) = Ok (Some (res, evs', r'))"
                using step Cons False by (cases ev) auto
              obtain err2 r3 where p2: "process_all W rl ?r2 = Ok (Some (err2, r3))"
                using step2 by (cases "process_all W rl ?r2") (auto split: option.splits)
              have "conn_step W rl (r_decoder ?r2) (buf_as_slice (r_receive ?r2)) =
                  (More, r_decoder r1, buf_as_slice (r_receive r1))" unfolding r2 by (rule idle)
              note r3 = process_all_idle [OF rl p2 r2(1) this]
              then have "read_loop W rl cap evs1 r3 = Ok (Some (res, evs', r'))"
                using step2 p2 by simp
              moreover have "undelivered W rl evs1 r3 = []"
                using r3 r2 empty [OF e1] by (auto simp: undelivered_def)
              ultimately show ?thesis
                using less.hyps [of evs1 r3] r3 ended owe1 Cons dec live by auto
            qed
          qed
        qed
      qed
    qed
  qed
qed

text \<open>
  C8: reading delivers exactly the payload the packets carry, in order and whatever
  pieces the network and the caller cut it into.  A read that returns bytes returns
  the next ones owed; end of stream, an error or waiting happen only when nothing
  decoded or decodable is left.
\<close>

theorem read_delivers:
  assumes "rl \<noteq> 0" and "0 < cap" and "reader_inv r"
    and "read_impl W rl cap evs r = Ok (Some (res, evs', r'))"
  shows "reader_inv r' \<and>
    (case res of
       RData bs \<Rightarrow>
         if bs = [] then undelivered W rl evs r = [] \<and> r_eof r'
         else length bs \<le> cap \<and> undelivered W rl evs r = bs @ undelivered W rl evs' r'
     | RErr e \<Rightarrow> undelivered W rl evs r = []
     | RBlocked \<Rightarrow> undelivered W rl evs r = [] \<and> evs' = [])"
  using read_loop_owes [OF assms(1,2) _ assms(3)] assms(2,4) by (simp add: read_impl_def read_post_def)

text \<open>On the server side no packet re-seeds anything, so every read returns.\<close>

lemma process_buffered_total:
  assumes "rl \<noteq> 0" and "reader_inv r" and "r_is_server r" and "buf_len (r_receive r) < fuel"
  shows "\<exists>err r'. process_buffered W rl fuel r = Ok (Some (err, r')) \<and> reader_inv r' \<and> r_is_server r' \<and>
    r_eof r' = r_eof r \<and> r_error r' = r_error r"
  using assms(2-)
proof (induction fuel arbitrary: r)
  case (Suc fuel)
  obtain res d b where D: "decode (o_sip W) (o_box W) rl (r_decoder r) (r_receive r) = (res, d, b)"
    by (metis prod_cases3)
  let ?r = "r\<lparr>r_decoder := d, r_receive := b\<rparr>"
  have "buf_inv (r_receive r)" using Suc.prems(1) by (simp add: reader_inv_def)
  note step = packet_step_of_decode [OF D this]
  have inv: "reader_inv ?r" using step Suc.prems(1) by (simp add: reader_inv_def)
  show ?case
  proof (cases "\<exists>pkt ty data. res = Ok (Some pkt) \<and> parse_packet pkt = Ok (ty, data)")
    case True
    then obtain pkt ty data where ok: "res = Ok (Some pkt)" "parse_packet pkt = Ok (ty, data)" by blast
    obtain r1 where h: "handle_packet W ty data ?r = Ok (Some r1)" "r_is_server r1"
      using Suc.prems(2) by (cases "ty = 0") (auto simp: handle_packet_def)
    note h1 = handle_packet_Ok [OF h(1) inv]
    have "conn_step W rl (r_decoder r) (buf_as_slice (r_receive r)) = (Got (ty, data), d, buf_as_slice b)"
      using step ok by simp
    then have "length (buf_as_slice b) < length (buf_as_slice (r_receive r))"
      using stream_decoder.got_shrinks [OF packet_stream_decoder [OF assms(1)]] unfolding conn_step_def by blast
    then have "buf_len (r_receive r1) < fuel" using h1 Suc.prems(3) by simp
    from Suc.IH [OF _ h(2) this] h1 Suc.prems(1,2) D ok h(1) show ?thesis by (auto simp: Let_def)
  next
    case False
    with D step Suc.prems(1,2) inv parse_packet_no_panic show ?thesis
      by (auto simp: Let_def split: res.splits option.splits)
  qed
qed simp

lemma process_all_total:
  assumes "rl \<noteq> 0" and "reader_inv r" and "r_is_server r"
  obtains err r' where "process_all W rl r = Ok (Some (err, r'))" "reader_inv r'" "r_is_server r'"
    "r_eof r' = r_eof r" "r_error r' = r_error r"
  using process_buffered_total [OF assms lessI, of W] unfolding process_all_def by blast

lemma server_read_total:
  assumes "rl \<noteq> 0" and "reader_inv r" and "r_is_server r"
  shows "\<exists>res evs' r'. read_impl W rl cap evs r = Ok (Some (res, evs', r'))"
proof -
  have "\<exists>q. read_loop W rl cap evs r = Ok (Some q)"
    using assms(2-)
  proof (induction "2 * length evs + (if buf_is_empty (r_decoded r) \<and> r_error r = None then 1 else 0 :: nat)"
      arbitrary: evs r rule: less_induct)
    case less
    note simps = read_loop.simps [of W rl cap evs r]
    obtain err r1 where p: "process_all W rl r = Ok (Some (err, r1))" "reader_inv r1" "r_is_server r1"
        "r_error r1 = r_error r"
      using process_all_total [OF assms(1) less.prems] by metis
    have "\<exists>q. buf_read_into cap (r_decoded r) = Some q"
      using buf_read_into_spec [of "r_decoded r" cap] less.prems(1) by (auto simp: reader_inv_def)
    then have now: ?case if "\<not> buf_is_empty (r_decoded r) \<or> r_error r \<noteq> None \<or> r_eof r"
      using that by (auto simp: simps)
    show ?case
    proof (cases "\<not> buf_is_empty (r_decoded r) \<or> r_error r \<noteq> None \<or> r_eof r")
      case False
      then have busy: "read_loop W rl cap evs r = (case err of
          Some e \<Rightarrow> read_loop W rl cap evs (r1\<lparr>r_error := Some e\<rparr>)
        | None \<Rightarrow>
            if \<not> buf_is_empty (r_decoded r1) then read_loop W rl cap evs r1
            else
              case evs of
                [] \<Rightarrow> Ok (Some (RBlocked, [], r1))
              | ev # evs \<Rightarrow>
                  let r = (case ev of
                      NetData bs \<Rightarrow> if bs = [] then r1\<lparr>r_eof := True\<rparr>
                                    else r1\<lparr>r_receive := buf_extend bs (r_receive r1)\<rparr>
                    | NetEof \<Rightarrow> r1\<lparr>r_eof := True\<rparr>
                    | NetErr n \<Rightarrow> r1\<lparr>r_error := Some (IoFailure n)\<rparr>)
                  in (case process_all W rl r of
                        Panic \<Rightarrow> Panic | Err e \<Rightarrow> Err e | Ok None \<Rightarrow> Ok None
                      | Ok (Some (Some e, r)) \<Rightarrow> read_loop W rl cap evs (r\<lparr>r_error := Some e\<rparr>)
                      | Ok (Some (None, r)) \<Rightarrow> read_loop W rl cap evs r))"
        using p(1) by (auto simp: simps split: option.split)
      show ?thesis
      proof (cases err)
        case (Some e)
        with less.hyps [of evs "r1\<lparr>r_error := Some e\<rparr>"] p False busy show ?thesis
          by (auto simp: reader_inv_def)
      next
        case None
        show ?thesis
        proof (cases "buf_is_empty (r_decoded r1) \<and> evs \<noteq> []")
          case True
          then obtain ev evs1 where evs: "evs = ev # evs1" by (cases evs) auto
          let ?r2 = "case ev of NetData bs \<Rightarrow> if bs = [] then r1\<lparr>r_eof := True\<rparr>
                                    else r1\<lparr>r_receive := buf_extend bs (r_receive r1)\<rparr>
            | NetEof \<Rightarrow> r1\<lparr>r_eof := True\<rparr> | NetErr n \<Rightarrow> r1\<lparr>r_error := Some (IoFailure n)\<rparr>"
          define r2 where "r2 = ?r2"
          have "reader_inv r2" "r_is_server r2"
            using p unfolding r2_def by (cases ev; simp add: reader_inv_def buf_view_simps)+
          then obtain err2 r3 where p2: "process_all W rl r2 = Ok (Some (err2, r3))" "reader_inv r3" "r_is_server r3"
            using process_all_total [OF assms(1)] by metis
          have next_round: "read_loop W rl cap evs r = (case err2 of
              Some e \<Rightarrow> read_loop W rl cap evs1 (r3\<lparr>r_error := Some e\<rparr>) | None \<Rightarrow> read_loop W rl cap evs1 r3)"
            using busy True unfolding None evs option.case list.case Let_def r2_def [symmetric] p2(1)
            by (cases err2) simp_all
          have "2 * length evs1 + 1 < 2 * length evs + 1" using evs by simp
          then have small: "2 * length evs1 + (if buf_is_empty (r_decoded r4) \<and> r_error r4 = None then 1 else 0) <
              2 * length evs + (if buf_is_empty (r_decoded r) \<and> r_error r = None then 1 else 0)" for r4 :: "('a, 'b) reader"
            using False by simp
          show ?thesis
          proof (cases err2)
            case (Some e)
            have "reader_inv (r3\<lparr>r_error := Some e\<rparr>)" "r_is_server (r3\<lparr>r_error := Some e\<rparr>)"
              using p2 by (simp_all add: reader_inv_def)
            from less.hyps [OF small this] Some next_round show ?thesis by simp
          next
            case none2: None
            from less.hyps [OF small p2(2,3)] none2 next_round show ?thesis by simp
          qed
        next
          case no: False
          show ?thesis
          proof (cases evs)
            case Nil
            with no None busy p less.hyps [of evs r1] False show ?thesis
              by (cases "buf_is_empty (r_decoded r1)") auto
          next
            case (Cons ev evs1)
            with no None busy p less.hyps [of evs r1] False show ?thesis by auto
          qed
        qed
      qed
    qed (rule now)
  qed
  then show ?thesis by (cases "cap = 0") (auto simp: read_impl_def)
qed

text \<open>
  C12: a bridge's read always comes back: with data, end of stream, an error, or by
  waiting for the network; it does not panic and its decoding loop ends.
\<close>

theorem server_read_returns:
  assumes "rl \<noteq> 0" and "reader_inv r" and "r_is_server r"
  shows "\<exists>res evs' r'. read_impl W rl cap evs r = Ok (Some (res, evs', r'))"
  using server_read_total [OF assms] .

section \<open>Padding\<close>

lemma max_segment [simp]: "MAXIMUM_SEGMENT_LENGTH = 1448"
  by (simp add: frame_consts)

lemma pad_len_for_bound: "to_pad_to \<le> 1448 \<Longrightarrow> pad_len_for pending to_pad_to \<le> 1448"
  unfolding pad_len_for_def Let_def max_segment using mod_less_divisor [of 1448 pending] by auto

lemma pad_len_for_mod: "(pending + pad_len_for pending to_pad_to) mod 1448 = to_pad_to mod 1448"
proof (cases "pending mod 1448 \<le> to_pad_to")
  case True
  then have "pending + pad_len_for pending to_pad_to = 1448 * (pending div 1448) + to_pad_to"
    using mult_div_mod_eq [of 1448 pending] unfolding pad_len_for_def Let_def max_segment if_P [OF True]
    by linarith
  then show ?thesis by simp
next
  case False
  have wrap: "p = 1448 * q + r \<Longrightarrow> r < 1448 \<Longrightarrow> p + (1448 - r + t) = 1448 * (q + 1) + t" for p q r t :: nat
    by simp
  have "pending mod 1448 < 1448" by simp
  then have "pending + pad_len_for pending to_pad_to = 1448 * (pending div 1448 + 1) + to_pad_to"
    unfolding pad_len_for_def Let_def max_segment if_not_P [OF False]
    using wrap [OF mult_div_mod_eq [of 1448 pending, symmetric]] by blast
  then show ?thesis by (simp only: mod_mult_self4)
qed

lemma pad_packets_sizes:
  "pad_len \<le> 1448 \<Longrightarrow> (ty, data, k) \<in> set (pad_packets pad_len) \<Longrightarrow> ty = 0 \<and> data = [] \<and> k \<le> 1427"
  by (auto simp: pad_packets_def split: if_splits)

lemma pad_packets_total:
  "(\<Sum>(ty, data, k)\<leftarrow>pad_packets pad_len. length data + k + 21) =
     (if pad_len = 0 then 0 else if pad_len \<le> 21 then 1469 + pad_len else pad_len)"
  by (auto simp: pad_packets_def)

lemma pad_burst_no_panic: "to_pad_to \<le> 1448 \<Longrightarrow> pad_burst W e burst pending to_pad_to \<noteq> Panic"
  unfolding pad_burst_def
  using pad_packets_sizes [OF pad_len_for_bound] by (intro make_packets_no_panic) fastforce

lemma pad_burst_length:
  assumes "secretbox_ok (o_box W)" and "pad_burst W e burst pending to_pad_to = Ok (out, e')"
  shows "length out = length burst +
    (let n = pad_len_for pending to_pad_to in if n = 0 then 0 else if n \<le> 21 then 1469 + n else n)"
  using make_packets_length [OF assms(1), of "o_sip W" e burst] assms(2)
  by (simp add: pad_burst_def pad_packets_total)

text \<open>
  The length of the last segment after padding.  It is the sampled length, as the
  comment on \<open>pad_burst\<close> says, except when the gap is between 1 and 21 bytes, too
  small for a packet: then the two padding packets leave it 21 bytes too long.
\<close>

theorem padded_tail:
  assumes "secretbox_ok (o_box W)" and "pad_burst W e burst (length burst) to_pad_to = Ok (out, e')"
  shows "length out mod 1448 =
    (if 0 < pad_len_for (length burst) to_pad_to \<and> pad_len_for (length burst) to_pad_to \<le> 21
     then (to_pad_to + 21) mod 1448 else to_pad_to mod 1448)"
proof -
  let ?n = "pad_len_for (length burst) to_pad_to"
  have len: "length out = length burst + (if ?n = 0 then 0 else if ?n \<le> 21 then 1469 + ?n else ?n)"
    using pad_burst_length [OF assms] by (simp add: Let_def)
  have "(length burst + ?n + 21 + 1448) mod 1448 = (length burst + ?n + 21) mod 1448" by (rule mod_add_self2)
  also have "\<dots> = (to_pad_to + 21) mod 1448" by (metis pad_len_for_mod mod_add_left_eq)
  finally have spill: "(length burst + (1469 + ?n)) mod 1448 = (to_pad_to + 21) mod 1448"
    by (simp add: algebra_simps)
  show ?thesis
    unfolding len using spill pad_len_for_mod [of "length burst" to_pad_to] by (auto split: if_splits)
qed

section \<open>What a write puts on the wire\<close>

text \<open>The log grew by exactly the bytes that, with the rest of the burst, are packets
  carrying \<open>b\<close> and padding, sealed in turn from the encoder \<open>e0\<close>.\<close>

definition carries :: "('h, 'f) ops \<Rightarrow> 'h encoder \<Rightarrow> (bytes \<times> nat) list \<Rightarrow> bytes \<Rightarrow> ('h, 'f) writer \<Rightarrow> bool" where
  "carries W e0 log0 b w \<longleftrightarrow> buf_inv (w_burst w) \<and>
     (\<exists>sent qs. w_log w = log0 @ sent \<and>
        make_packets (o_sip W) (o_box W) e0 [] qs = Ok (concat (map fst sent) @ buf_as_slice (w_burst w), w_enc w) \<and>
        concat (map (\<lambda>(ty, data, k). data) qs) = b \<and> (\<forall>(ty, data, k)\<in>set qs. ty = 0))"

lemma carries_pad:
  assumes "carries W e0 log0 b w" and "pad_burst W (w_enc w) [] pending to_pad_to = Ok (pad, e)"
    and "to_pad_to \<le> 1448"
  shows "carries W e0 log0 b (w\<lparr>w_enc := e, w_burst := buf_extend pad (w_burst w)\<rparr>)"
proof -
  let ?qs' = "pad_packets (pad_len_for pending to_pad_to)"
  obtain sent qs where inv: "buf_inv (w_burst w)" and log: "w_log w = log0 @ sent"
    and mk: "make_packets (o_sip W) (o_box W) e0 [] qs = Ok (concat (map fst sent) @ buf_as_slice (w_burst w), w_enc w)"
    and qs: "concat (map (\<lambda>(ty, data, k). data) qs) = b" "\<forall>(ty, data, k)\<in>set qs. ty = 0"
    using assms(1) unfolding carries_def by blast
  have "make_packets (o_sip W) (o_box W) e0 [] (qs @ ?qs') =
      Ok (concat (map fst sent) @ buf_as_slice (w_burst w) @ pad, e)"
    using mk assms(2) make_packets_out [of "o_sip W" "o_box W" "w_enc w" "concat (map fst sent) @ buf_as_slice (w_burst w)" ?qs']
    by (simp add: make_packets_append pad_burst_def)
  moreover have "concat (map (\<lambda>(ty, data, k). data) ?qs') = []" "\<forall>(ty, data, k)\<in>set ?qs'. ty = 0"
    by (auto simp: pad_packets_def)
  moreover have "buf_inv (buf_extend pad (w_burst w))"
    "buf_as_slice (buf_extend pad (w_burst w)) = buf_as_slice (w_burst w) @ pad"
    using inv obfs_buf.inv_extend obfs_buf.view_extend by blast+
  ultimately show ?thesis
    unfolding carries_def using log qs
    by (intro conjI exI [of _ sent] exI [of _ "qs @ ?qs'"]) auto
qed

lemma sample_iat_Some:
  "sample_iat W w = Ok (Some (delay, w')) \<Longrightarrow> \<exists>s k. w' = w\<lparr>w_rand := s, w_locks := k\<rparr>"
proof (cases "d_iat (w_dists w (w_locks w))")
  case None
  assume "sample_iat W w = Ok (Some (delay, w'))"
  with None show ?thesis
    by (intro exI [of _ "w_rand w"] exI [of _ "Suc (w_locks w)"]) (simp add: sample_iat_def)
qed (auto simp: sample_iat_def map_ok_Some)

lemma sample_len_Some:
  "sample_len W w = Ok (Some (v, w')) \<Longrightarrow>
     \<exists>s. w' = w\<lparr>w_rand := s, w_locks := Suc (w_locks w)\<rparr> \<and>
       wd_sample (o_float W) (d_len (w_dists w (w_locks w))) (w_rand w) = Ok (Some (v, s))"
  by (auto simp: sample_len_def map_ok_Some)

text \<open>One write of the burst loop.\<close>

lemma send_burst_Next:
  assumes "send_burst W sink n w = Ok (Some (Next w'))" and "buf_inv (w_burst w)"
  shows "n \<le> buf_len (w_burst w) \<and>
    (\<exists>s k delay b'. w' = w\<lparr>w_zero := 0, w_rand := s, w_locks := k, w_burst := b',
        w_log := w_log w @ [(take n (buf_as_slice (w_burst w)), delay)]\<rparr> \<and>
      buf_inv b' \<and> buf_as_slice b' = drop n (buf_as_slice (w_burst w)))"
proof -
  obtain delay w1 where "sample_iat W (w\<lparr>w_zero := 0\<rparr>) = Ok (Some (delay, w1))"
    and rest: "(if buf_len (w_burst w1) < n then Panic
       else case sink (length (w_log w1)) of
           Some k \<Rightarrow> Ok (Some (Stop (IoFailure k) w1))
         | None \<Rightarrow>
             let chunk = take n (buf_as_slice (w_burst w1))
             in case buf_consume n (w_burst w1) of
                  None \<Rightarrow> Panic
                | Some b \<Rightarrow> Ok (Some (Next (w1\<lparr>w_burst := b, w_log := w_log w1 @ [(chunk, delay)]\<rparr>))))
      = (Ok (Some (Next w')) :: (('a, 'b) writer write_step option, unit) res)"
    using assms(1) unfolding send_burst_def draw_then_Some by blast
  moreover from this(1) obtain s k where w1: "w1 = w\<lparr>w_zero := 0, w_rand := s, w_locks := k\<rparr>"
    using sample_iat_Some by fastforce
  ultimately have le: "n \<le> buf_len (w_burst w)"
    by (auto split: if_splits)
  then obtain b' where b': "buf_consume n (w_burst w) = Some b'" "buf_inv b'"
      "buf_as_slice b' = drop n (buf_as_slice (w_burst w))"
    using obfs_buf.consume_ok [OF assms(2), of n] by auto
  with rest w1 le show ?thesis by (auto simp: Let_def split: option.splits)
qed

lemma carries_send:
  assumes "carries W e0 log0 b w" and "send_burst W sink n w = Ok (Some (Next w'))"
  shows "carries W e0 log0 b w'"
proof -
  from assms(1) have "buf_inv (w_burst w)" by (simp add: carries_def)
  from send_burst_Next [OF assms(2) this] assms(1) show ?thesis
    unfolding carries_def by (auto intro!: exI)
qed

lemma carries_simps [simp]:
  "carries W e0 log0 b (w\<lparr>w_rand := s\<rparr>) = carries W e0 log0 b w"
  "carries W e0 log0 b (w\<lparr>w_locks := k\<rparr>) = carries W e0 log0 b w"
  "carries W e0 log0 b (w\<lparr>w_zero := k\<rparr>) = carries W e0 log0 b w"
  by (simp_all add: carries_def)

text \<open>Every distribution the writer may find samples lengths of at most a segment.\<close>

definition dists_ok :: "'f dists \<Rightarrow> bool" where
  "dists_ok d \<longleftrightarrow> wd_ok (d_len d) \<and> wd_min (d_len d) = 0 \<and> wd_max (d_len d) = 1448 \<and>
     (\<forall>i. d_iat d = Some i \<longrightarrow> wd_ok i \<and> wd_min i = 0 \<and> wd_max i = 100)"

lemma sample_len_range:
  assumes "dists_ok (w_dists w (w_locks w))" and "sample_len W w = Ok (Some (v, w'))"
  shows "v \<le> 1448"
  using sample_len_Some [OF assms(2)] wd_sample_range assms(1) unfolding dists_ok_def by metis

lemma write_step_Next:
  assumes "carries W e0 log0 b w" and "\<forall>k. dists_ok (w_dists w k)"
    and "write_step W sink mode w = Ok (Some (Next w'))"
  shows "carries W e0 log0 b w' \<and> w_dists w' = w_dists w"
proof -
  have inv: "buf_inv (w_burst w)" using assms(1) by (simp add: carries_def)
  have sent: "carries W e0 log0 b w2 \<and> w_dists w2 = w_dists w"
    if "send_burst W sink n w1 = Ok (Some (Next w2))" "carries W e0 log0 b w1" "w_dists w1 = w_dists w" for n w1 w2
    using carries_send [OF that(2,1)] send_burst_Next [OF that(1)] that(2,3) by (auto simp: carries_def)
  show ?thesis
  proof (cases "mode = IatParanoid")
    case False
    with assms(1,3) sent show ?thesis by (auto simp: write_step_def)
  next
    case True
    then obtain target w1 where t: "sample_len W w = Ok (Some (target, w1))"
      and rest: "(if target = 0 \<and> w_zero w1 < 64 then Ok (Some (Next (w1\<lparr>w_zero := w_zero w1 + 1\<rparr>)))
          else if target = 0 then send_burst W sink (min (buf_len (w_burst w1)) 1448) w1
          else if buf_len (w_burst w1) < target then
            (case pad_burst W (w_enc w1) [] (buf_len (w_burst w1)) target of
               Panic \<Rightarrow> Panic
             | Err e \<Rightarrow> Ok (Some (Stop (InvalidData (FrameErr e)) w1))
             | Ok (pad, e) \<Rightarrow>
                 let w = w1\<lparr>w_enc := e, w_burst := buf_extend pad (w_burst w1)\<rparr>
                 in if buf_len (w_burst w) \<noteq> target then Ok (Some (Next w)) else send_burst W sink target w)
          else send_burst W sink target w1) = Ok (Some (Next w'))"
      using assms(3) unfolding write_step_def draw_then_Some if_P [OF True] max_segment conn_consts by blast
    have w1: "carries W e0 log0 b w1" "w_dists w1 = w_dists w"
      using sample_len_Some [OF t] assms(1) by auto
    have "target \<le> 1448" using sample_len_range [OF _ t] assms(2) by blast
    note pad = carries_pad [OF w1(1) _ this]
    show ?thesis
    proof (cases "buf_len (w_burst w1) < target")
      case True
      then obtain p e where "pad_burst W (w_enc w1) [] (buf_len (w_burst w1)) target = Ok (p, e)"
        using rest by (auto split: res.splits)
      with pad [OF this] rest True sent [of target] w1(2) show ?thesis
        by (auto simp: Let_def split: if_splits)
    next
      case False
      with rest sent [of _ w1 w'] w1
      show ?thesis by (auto split: if_splits)
    qed
  qed
qed

lemma write_loop_carries:
  fixes W :: "('h, 'f) ops"
  assumes ret: "write_loop W sink mode w = Some (Ok (None, w'))"
    and "carries W e0 log0 b w" and "\<forall>k. dists_ok (w_dists w k)"
  shows "carries W e0 log0 b w' \<and> buf_is_empty (w_burst w')"
proof -
  let ?P = "\<lambda>W' (sink' :: nat \<Rightarrow> nat option) (mode' :: iat_mode) w
      (q :: (io_error option \<times> ('h, 'f) writer, unit) res). W' = W \<longrightarrow> carries W e0 log0 b w \<longrightarrow>
    (\<forall>k. dists_ok (w_dists w k)) \<longrightarrow>
    (\<forall>w'. q = Ok (None, w') \<longrightarrow> carries W e0 log0 b w' \<and> buf_is_empty (w_burst w'))"
  have "?P W sink mode w (Ok (None, w'))"
  proof (rule write_loop.raw_induct [where P = ?P, OF _ ret])
    fix rec W' sink mode w q
    assume IH: "\<And>W' sink mode w q. rec W' sink mode w = Some q \<Longrightarrow> ?P W' sink mode w q"
      and eq: "(if buf_is_empty (w_burst w) then Some (Ok (None, w))
         else case write_step W' sink mode w of
           Ok None \<Rightarrow> None
         | Ok (Some (Next w')) \<Rightarrow> rec W' sink mode w'
         | Ok (Some (Stop e w')) \<Rightarrow> Some (Ok (Some e, w'))
         | Err e \<Rightarrow> Some (Err e)
         | Panic \<Rightarrow> Some Panic) = Some q"
    show "?P W' sink mode w q"
    proof (intro impI allI)
      fix w' assume W: "W' = W" and c: "carries W e0 log0 b w" and d: "\<forall>k. dists_ok (w_dists w k)"
        and q: "q = Ok (None, w')"
      show "carries W e0 log0 b w' \<and> buf_is_empty (w_burst w')"
      proof (cases "buf_is_empty (w_burst w)")
        case True
        with eq q c show ?thesis by auto
      next
        case False
        with eq q obtain w1 where w1: "write_step W' sink mode w = Ok (Some (Next w1))"
          and r: "rec W' sink mode w1 = Some q"
          by (auto split: res.splits option.splits write_step.splits)
        from write_step_Next [OF c d w1 [unfolded W]] d IH [OF r] W q show ?thesis by auto
      qed
    qed
  qed
  then show ?thesis using assms by blast
qed

lemma chunk_packets:
  "concat (map (\<lambda>(ty, data, k). data) (data_packets b)) = b" "\<forall>(ty, data, k)\<in>set (data_packets b). ty = 0"
  "\<forall>(ty, data, k)\<in>set (data_packets b). length data + k \<le> 1427"
  using concat_chunks [of 1427 b] chunks_bounds [of 1427 _ b]
  by (auto simp: data_packets_def comp_def)

lemma write_frames_Ok:
  assumes "write_frames W mode b w = Ok (Some (Ok (frames, e), w1))" and d: "\<forall>k. dists_ok (w_dists w k)"
  shows "w_log w1 = w_log w \<and> w_dists w1 = w_dists w \<and>
    (\<exists>qs. make_packets (o_sip W) (o_box W) (w_enc w) [] qs = Ok (frames, e) \<and>
      concat (map (\<lambda>(ty, data, k). data) qs) = b \<and> (\<forall>(ty, data, k)\<in>set qs. ty = 0))"
proof -
  obtain fr e0 where fr: "make_packets (o_sip W) (o_box W) (w_enc w) [] (data_packets b) = Ok (fr, e0)"
    using assms(1) by (auto simp: write_frames_def split: res.splits)
  show ?thesis
  proof (cases "mode = IatParanoid")
    case True
    with assms(1) fr chunk_packets [of b] show ?thesis by (auto simp: write_frames_def)
  next
    case False
    then obtain target w2 where t: "sample_len W (w\<lparr>w_enc := e0\<rparr>) = Ok (Some (target, w2))"
      and rest: "(case pad_burst W (w_enc w2) fr (length fr) target of Panic \<Rightarrow> Panic | r \<Rightarrow> Ok (Some (r, w2)))
        = (Ok (Some (Ok (frames, e), w1)) ::
           ((((bytes \<times> 'a encoder, frame_error) res) \<times> ('a, 'b) writer) option, unit) res)"
      using assms(1) fr by (auto simp: write_frames_def draw_then_Some)
    have pad: "pad_burst W (w_enc w2) fr (length fr) target = Ok (frames, e)" and w2: "w1 = w2"
      using rest by (cases "pad_burst W (w_enc w2) fr (length fr) target"; auto)+
    obtain s where s: "w2 = w\<lparr>w_enc := e0, w_rand := s, w_locks := Suc (w_locks w)\<rparr>"
      using sample_len_Some [OF t] by auto
    have "make_packets (o_sip W) (o_box W) (w_enc w) []
        (data_packets b @ pad_packets (pad_len_for (length fr) target)) = Ok (frames, e)"
      using fr pad s by (simp add: make_packets_append pad_burst_def)
    moreover have "concat (map (\<lambda>(ty, data, k). data) (pad_packets (pad_len_for (length fr) target))) = []"
        "\<forall>(ty, data, k)\<in>set (pad_packets (pad_len_for (length fr) target)). ty = 0"
      by (auto simp: pad_packets_def)
    ultimately show ?thesis
      using chunk_packets [of b] s w2
      by (intro conjI exI [of _ "data_packets b @ pad_packets (pad_len_for (length fr) target)"]) auto
  qed
qed

lemma write_impl_wire:
  assumes "secretbox_ok (o_box W)" and d: "\<forall>k. dists_ok (w_dists w k)"
    and ret: "write_impl W sink mode b w = Some (Ok (None, w'))"
  shows "\<exists>sent qs. w_log w' = w_log w @ sent \<and>
    make_packets (o_sip W) (o_box W) (w_enc w) [] qs = Ok (concat (map fst sent), w_enc w') \<and>
    concat (map (\<lambda>(ty, data, k). data) qs) = b \<and> (\<forall>(ty, data, k)\<in>set qs. ty = 0)"
proof -
  obtain frames e w1 where f: "write_frames W mode b w = Ok (Some (Ok (frames, e), w1))"
    and none: "mode = IatNone \<Longrightarrow> w' = w1\<lparr>w_enc := e, w_log := w_log w1 @ [(frames, 0)]\<rparr>"
    and burst: "mode \<noteq> IatNone \<Longrightarrow>
      write_loop W sink mode (w1\<lparr>w_enc := e, w_burst := buf_extend frames buf_default, w_zero := 0\<rparr>)
       = Some (Ok (None, w'))"
    using ret by (auto simp: write_impl_def Let_def split: res.splits option.splits if_splits)
  have w1: "w_log w1 = w_log w" "w_dists w1 = w_dists w" and
    mk: "\<exists>qs. make_packets (o_sip W) (o_box W) (w_enc w) [] qs = Ok (frames, e) \<and>
      concat (map (\<lambda>(ty, data, k). data) qs) = b \<and> (\<forall>(ty, data, k)\<in>set qs. ty = 0)"
    using write_frames_Ok [OF f d] by auto
  show ?thesis
  proof (cases "mode = IatNone")
    case True
    with none w1 mk show ?thesis by auto
  next
    case False
    let ?w = "w1\<lparr>w_enc := e, w_burst := buf_extend frames buf_default, w_zero := 0\<rparr>"
    have "carries W (w_enc w) (w_log w) b ?w"
      using mk w1 obfs_buf.inv_extend [OF obfs_buf.inv_empty, of frames]
        obfs_buf.view_extend [OF obfs_buf.inv_empty, of frames] obfs_buf.view_empty
      by (auto simp: carries_def)
    with write_loop_carries [of W sink mode ?w w' "w_enc w" "w_log w" b] burst False w1 d
    have "carries W (w_enc w) (w_log w) b w'" "buf_is_empty (w_burst w')" by auto
    moreover from this(2) have "buf_as_slice (w_burst w') = []"
      by (simp add: buf_is_empty_def flip: length_buf_as_slice)
    ultimately show ?thesis by (auto simp: carries_def)
  qed
qed

text \<open>
  C9: a write that succeeds has put on the wire, over the pieces it was cut into,
  frames from which a receiver in step decodes, whatever the mode and the padding,
  packets of type payload whose contents are exactly the bytes written; nothing is
  left over and the two ends stay in step for the next write.
\<close>

theorem write_delivers:
  assumes "secretbox_ok (o_box W)" and "rl \<noteq> 0" and "in_sync (w_enc w) d"
    and "\<forall>k. dists_ok (w_dists w k)"
    and "write_impl W sink mode b w = Some (Ok (None, w'))"
  shows "\<exists>sent ps d'. w_log w' = w_log w @ sent \<and> in_sync (w_enc w') d' \<and>
    drain_all (packet_step (o_sip W) (o_box W) rl) d (concat (map fst sent)) = (ps, None, d', []) \<and>
    (\<forall>(ty, data)\<in>set ps. ty = PACKET_TYPE_PAYLOAD) \<and> concat (map snd ps) = b"
proof -
  obtain sent qs where log: "w_log w' = w_log w @ sent"
    and mk: "make_packets (o_sip W) (o_box W) (w_enc w) [] qs = Ok (concat (map fst sent), w_enc w')"
    and qs: "concat (map (\<lambda>(ty, data, k). data) qs) = b" "\<forall>(ty, data, k)\<in>set qs. ty = 0"
    using write_impl_wire [OF assms(1,4,5)] by blast
  let ?ps = "map (\<lambda>(ty, data, k). (ty, data)) qs"
  obtain d' where sync: "in_sync (w_enc w') d'" and all: "\<forall>tail. drain_all (packet_step (o_sip W) (o_box W) rl) d
      (concat (map fst sent) @ tail) =
    (case drain_all (packet_step (o_sip W) (o_box W) rl) d' tail of (ps, x, d'', r) \<Rightarrow> (?ps @ ps, x, d'', r))"
    using drain_packets [OF assms(1,2,3) mk] by blast
  have "packet_step (o_sip W) (o_box W) rl d' [] = (More, d', [])"
    using sync by (simp add: packet_step_def map_step_def frame_step_idle in_sync_def lift_frame_error_def)
  from stream_decoder.drain_all_simps(1) [OF packet_stream_decoder [OF assms(2)] this]
  have "drain_all (packet_step (o_sip W) (o_box W) rl) d (concat (map fst sent)) = (?ps, None, d', [])"
    using spec [OF all, of "[]"] by simp
  moreover have "concat (map snd ?ps) = b" using qs(1) by (simp add: case_prod_beta' comp_def)
  moreover have "\<forall>(ty, data)\<in>set ?ps. ty = PACKET_TYPE_PAYLOAD" using qs(2) by auto
  ultimately show ?thesis using log sync by blast
qed

section \<open>Paranoid mode can run for ever\<close>

lemma write_step_paranoid:
  assumes "write_step W sink IatParanoid w = Ok (Some (Next w'))"
    and "\<And>v s. wd_sample (o_float W) (d_len (w_dists w (w_locks w))) (w_rand w) = Ok (Some (v, s)) \<Longrightarrow> v = t"
    and "0 < t"
  obtains w1 where "w_burst w1 = w_burst w" "w_enc w1 = w_enc w" "w_dists w1 = w_dists w" "w_log w1 = w_log w"
    and "(if buf_len (w_burst w1) < t then
            (case pad_burst W (w_enc w1) [] (buf_len (w_burst w1)) t of
               Panic \<Rightarrow> Panic
             | Err e \<Rightarrow> Ok (Some (Stop (InvalidData (FrameErr e)) w1))
             | Ok (pad, e) \<Rightarrow>
                 let w = w1\<lparr>w_enc := e, w_burst := buf_extend pad (w_burst w1)\<rparr>
                 in if buf_len (w_burst w) \<noteq> t then Ok (Some (Next w)) else send_burst W sink t w)
          else send_burst W sink t w1) = Ok (Some (Next w'))"
proof -
  obtain target w1 where t: "sample_len W w = Ok (Some (target, w1))"
    and rest: "(if target = 0 \<and> w_zero w1 < 64 then Ok (Some (Next (w1\<lparr>w_zero := w_zero w1 + 1\<rparr>)))
        else if target = 0 then send_burst W sink (min (buf_len (w_burst w1)) 1448) w1
        else if buf_len (w_burst w1) < target then
          (case pad_burst W (w_enc w1) [] (buf_len (w_burst w1)) target of
             Panic \<Rightarrow> Panic
           | Err e \<Rightarrow> Ok (Some (Stop (InvalidData (FrameErr e)) w1))
           | Ok (pad, e) \<Rightarrow>
               let w = w1\<lparr>w_enc := e, w_burst := buf_extend pad (w_burst w1)\<rparr>
               in if buf_len (w_burst w) \<noteq> target then Ok (Some (Next w)) else send_burst W sink target w)
        else send_burst W sink target w1) = Ok (Some (Next w'))"
    using assms(1) unfolding write_step_def draw_then_Some if_P [OF refl] max_segment conn_consts by blast
  have "target = t" using sample_len_Some [OF t] assms(2) by blast
  moreover have "w_burst w1 = w_burst w" "w_enc w1 = w_enc w" "w_dists w1 = w_dists w" "w_log w1 = w_log w"
    using sample_len_Some [OF t] by auto
  moreover have "(if buf_len (w_burst w1) < t then
            (case pad_burst W (w_enc w1) [] (buf_len (w_burst w1)) t of
               Panic \<Rightarrow> Panic
             | Err e \<Rightarrow> Ok (Some (Stop (InvalidData (FrameErr e)) w1))
             | Ok (pad, e) \<Rightarrow>
                 let w = w1\<lparr>w_enc := e, w_burst := buf_extend pad (w_burst w1)\<rparr>
                 in if buf_len (w_burst w) \<noteq> t then Ok (Some (Next w)) else send_burst W sink t w)
          else send_burst W sink t w1) = Ok (Some (Next w'))"
    using rest assms(3) unfolding \<open>target = t\<close> by simp
  ultimately show thesis by (intro that)
qed

definition stuck_lengths :: "nat \<Rightarrow> nat set" where
  "stuck_lengths t = {1469 - t, t + 1469, 1469}"

lemma stuck_step:
  assumes "secretbox_ok (o_box W)" and "1469 < 2 * t" and "2 * t \<le> 1490"
    and "\<forall>k. wd_ok (d_len (w_dists w k)) \<and> wd_support (d_len (w_dists w k)) = [t]"
    and "buf_inv (w_burst w)" and "buf_len (w_burst w) \<in> stuck_lengths t"
    and "write_step W sink IatParanoid w = Ok (Some (Next w'))"
  shows "buf_inv (w_burst w') \<and> buf_len (w_burst w') \<in> stuck_lengths t \<and> w_dists w' = w_dists w"
proof -
  have always: "v = t" if "wd_sample (o_float W) (d_len (w_dists w (w_locks w))) (w_rand w) = Ok (Some (v, s))" for v s
    using wd_sample_range [OF _ that] assms(4) by simp
  have t: "0 < t" "t < 1469" using assms(2,3) by simp_all
  obtain w1 where w1: "w_burst w1 = w_burst w" "w_enc w1 = w_enc w" "w_dists w1 = w_dists w"
    and rest: "(if buf_len (w_burst w1) < t then
            (case pad_burst W (w_enc w1) [] (buf_len (w_burst w1)) t of
               Panic \<Rightarrow> Panic
             | Err e \<Rightarrow> Ok (Some (Stop (InvalidData (FrameErr e)) w1))
             | Ok (pad, e) \<Rightarrow>
                 let w = w1\<lparr>w_enc := e, w_burst := buf_extend pad (w_burst w1)\<rparr>
                 in if buf_len (w_burst w) \<noteq> t then Ok (Some (Next w)) else send_burst W sink t w)
          else send_burst W sink t w1) = Ok (Some (Next w'))"
    by (rule write_step_paranoid [OF assms(7) always t(1)])
  show ?thesis
  proof (cases "buf_len (w_burst w) < t")
    case True
    with assms(6) t(2) have len: "buf_len (w_burst w) = 1469 - t" by (auto simp: stuck_lengths_def)
    obtain p e where p: "pad_burst W (w_enc w1) [] (buf_len (w_burst w1)) t = Ok (p, e)"
      using rest True w1 by (auto split: res.splits)
    have "pad_len_for (1469 - t) t = 2 * t - 1469"
      using assms(2,3) unfolding pad_len_for_def Let_def by simp arith
    with pad_burst_length [OF assms(1) p] len w1 assms(2,3) have "length p = 2 * t"
      by (simp add: Let_def)
    moreover have view: "buf_as_slice (buf_extend p (w_burst w)) = buf_as_slice (w_burst w) @ p"
      using assms(5) by (rule obfs_buf.view_extend)
    ultimately have new: "buf_len (buf_extend p (w_burst w)) = t + 1469"
      using len t(2) by (simp flip: length_buf_as_slice)
    with rest True w1 p obfs_buf.inv_extend [OF assms(5), of p] show ?thesis
      by (auto simp: Let_def stuck_lengths_def)
  next
    case False
    with rest w1 have send: "send_burst W sink t w1 = Ok (Some (Next w'))" by simp
    from send_burst_Next [OF this] assms(5) w1 obtain b' where
      b': "w_burst w' = b'" "w_dists w' = w_dists w" "buf_inv b'" "buf_as_slice b' = drop t (buf_as_slice (w_burst w))"
      by auto
    then have "buf_len b' = buf_len (w_burst w) - t" by (metis length_buf_as_slice length_drop)
    with b' assms(6) False t(2) assms(2) show ?thesis by (auto simp: stuck_lengths_def)
  qed
qed

lemma stuck_loop:
  fixes W :: "('h, 'f) ops"
  assumes box: "secretbox_ok (o_box W)" and t: "1469 < 2 * t" "2 * t \<le> 1490"
    and ret: "write_loop W sink IatParanoid w = Some q"
    and "\<forall>k. wd_ok (d_len (w_dists w k)) \<and> wd_support (d_len (w_dists w k)) = [t]"
    and "buf_inv (w_burst w)" and "buf_len (w_burst w) \<in> stuck_lengths t"
  shows "q \<noteq> Ok (None, w')"
proof -
  let ?P = "\<lambda>W' (sink :: nat \<Rightarrow> nat option) mode w (q :: (io_error option \<times> ('h, 'f) writer, unit) res).
    W' = W \<longrightarrow> mode = IatParanoid \<longrightarrow>
    (\<forall>k. wd_ok (d_len (w_dists w k)) \<and> wd_support (d_len (w_dists w k)) = [t]) \<longrightarrow> buf_inv (w_burst w) \<longrightarrow>
    buf_len (w_burst w) \<in> stuck_lengths t \<longrightarrow> q \<noteq> Ok (None, w')"
  have "?P W sink IatParanoid w q"
  proof (rule write_loop.raw_induct [where P = ?P, OF _ ret])
    fix rec W' sink mode w q
    assume IH: "\<And>W' sink mode w q. rec W' sink mode w = Some q \<Longrightarrow> ?P W' sink mode w q"
      and eq: "(if buf_is_empty (w_burst w) then Some (Ok (None, w))
         else case write_step W' sink mode w of
           Ok None \<Rightarrow> None
         | Ok (Some (Next w')) \<Rightarrow> rec W' sink mode w'
         | Ok (Some (Stop e w')) \<Rightarrow> Some (Ok (Some e, w'))
         | Err e \<Rightarrow> Some (Err e)
         | Panic \<Rightarrow> Some Panic) = Some q"
    show "?P W' sink mode w q"
    proof (intro impI notI)
      assume W: "W' = W" "mode = IatParanoid"
        and d: "\<forall>k. wd_ok (d_len (w_dists w k)) \<and> wd_support (d_len (w_dists w k)) = [t]"
        and b: "buf_inv (w_burst w)" "buf_len (w_burst w) \<in> stuck_lengths t" and q: "q = Ok (None, w')"
      have "\<not> buf_is_empty (w_burst w)"
        using b(2) t by (auto simp: buf_is_empty_def stuck_lengths_def)
      with eq q obtain w1 where w1: "write_step W' sink mode w = Ok (Some (Next w1))"
        and r: "rec W' sink mode w1 = Some q"
        by (auto split: res.splits option.splits write_step.splits)
      have "buf_inv (w_burst w1) \<and> buf_len (w_burst w1) \<in> stuck_lengths t \<and> w_dists w1 = w_dists w"
        by (rule stuck_step [OF box t d b w1 [unfolded W]])
      with IH [OF r] W d q show False by auto
    qed
  qed
  then show ?thesis using assms by blast
qed

text \<open>
  C11: in paranoid mode there are length tables for which a write never completes.
  When the table has the single value \<open>t\<close> between 735 and 745, a write of \<open>1448 - t\<close>
  bytes leaves a burst a few bytes short of \<open>t\<close>; its padding spills into a second
  frame, and sending in pieces of \<open>t\<close> comes back to the same length.  Whatever the
  network does, \<open>write_impl\<close> does not return success.
\<close>

theorem paranoid_write_never_completes:
  assumes "secretbox_ok (o_box W)" and "735 \<le> t" and "t \<le> 745"
    and "\<forall>k. wd_ok (d_len (w_dists w k)) \<and> wd_support (d_len (w_dists w k)) = [t]"
    and "length b = 1448 - t"
  shows "write_impl W sink IatParanoid b w \<noteq> Some (Ok (None, w'))"
proof
  assume "write_impl W sink IatParanoid b w = Some (Ok (None, w'))"
  then obtain frames e where fr: "make_packets (o_sip W) (o_box W) (w_enc w) [] (data_packets b) = Ok (frames, e)"
    and loop: "write_loop W sink IatParanoid (w\<lparr>w_enc := e, w_burst := buf_extend frames buf_default, w_zero := 0\<rparr>)
      = Some (Ok (None, w'))"
    by (auto simp: write_impl_def write_frames_def split: res.splits)
  have "b \<noteq> []" "length b \<le> 1427" using assms(2,3,5) by auto
  then have "data_packets b = [(0, b, 0)]" by (simp add: data_packets_def chunks_short)
  then have "length frames = 1469 - t"
    using make_packets_length [OF assms(1) fr] assms(2,3,5) by simp
  then have "buf_len (buf_extend frames buf_default) = 1469 - t"
    using obfs_buf.view_extend [OF obfs_buf.inv_empty, of frames] obfs_buf.view_empty
    by (metis append_Nil length_buf_as_slice)
  with stuck_loop [OF assms(1) _ _ loop, of t w'] assms(2,3,4)
    obfs_buf.inv_extend [OF obfs_buf.inv_empty, of frames]
  show False by (simp add: stuck_lengths_def)
qed

section \<open>Instances for witnesses\<close>

definition single_dist :: "nat \<Rightarrow> nat \<Rightarrow> rat weighted_dist" where
  "single_dist mx v = \<lparr>wd_min = 0, wd_max = mx, wd_biased = False, wd_values = [v], wd_weights = [1],
     wd_alias = [0], wd_prob = [1]\<rparr>"

lemma single_dist_ok: "v \<le> mx \<Longrightarrow> wd_ok (single_dist mx v)"
  by (simp add: wd_ok_def single_dist_def MAX_VALUES_def)

lemma exact_float64_returns: "\<exists>x s'. csrand_float64 exact_ops s = Some (x, s')"
proof -
  obtain v s' where v: "os_int63 s = (v, s')" by force
  have "v \<noteq> 2 ^ 63" using os_rand.int63_range [of s] v by auto
  then have "rat_of_int v \<noteq> rat_of_int (2 ^ 63)" by (simp only: of_int_eq_iff not_False_eq_True)
  then have "rat_of_int v / rat_of_int (2 ^ 63) \<noteq> 1" by simp
  then have "csrand_float64 exact_ops s = Some (rat_of_int v / rat_of_int (2 ^ 63), s')"
    unfolding csrand_float64_def rand_float64.simps [of exact_ops os_int63 s] rand_int63_def v
    by (simp only: prod.case Let_def exact_ops_simps if_True not_False_eq_True of_int_1)
  then show ?thesis by blast
qed

lemma single_dist_sample: "\<exists>s'. wd_sample exact_ops (single_dist mx v) s = Ok (Some (v, s'))"
proof -
  obtain k s1 where k: "os_int63 s = (k, s1)" by force
  have i: "csrand_intn 1 s = Ok (Some (0, s1))"
    using k by (simp add: csrand_intn_def rand_intn_def rand_int31n_def rand_int31_def rand_int63_def)
  obtain x s2 where "csrand_float64 exact_ops s1 = Some (x, s2)" using exact_float64_returns by blast
  with i show ?thesis by (simp add: wd_sample_def single_dist_def Let_def)
qed

definition plain_ops :: "(u64, rat) ops" where
  "plain_ops = \<lparr>o_float = exact_ops, o_sip = zero_sip, o_box = tag_box, o_sha256 = \<lambda>bs. replicate 32 0\<rparr>"

definition single_dists :: "nat \<Rightarrow> rat dists" where
  "single_dists v = \<lparr>d_len = single_dist 1448 v, d_iat = None\<rparr>"

definition plain_writer :: "u64 encoder \<Rightarrow> nat \<Rightarrow> (u64, rat) writer" where
  "plain_writer e v = \<lparr>w_enc = e, w_burst = buf_default, w_zero = 0, w_rand = \<lambda>_. [], w_dists = \<lambda>_. single_dists v,
     w_locks = 0, w_log = []\<rparr>"

lemma single_dists_ok: "v \<le> 1448 \<Longrightarrow> dists_ok (single_dists v)"
  by (simp add: dists_ok_def single_dists_def single_dist_ok) (simp add: single_dist_def)

lemma plain_pair:
  obtains e d where "encoder_new zero_sip (replicate 72 7) = Some e" "in_sync e d"
    "nonce_counter (enc_nonce e) = 1"
proof -
  obtain e d where new: "encoder_new zero_sip (replicate 72 7) = Some e"
      "decoder_new zero_sip (replicate 72 7) = Some d"
    using new_succeeds [of "replicate 72 7" zero_sip] by auto
  then have "nonce_counter (enc_nonce e) = 1"
    by (auto simp: encoder_new_def split_key_def nonce_new_def)
  with new new_in_sync that show thesis by blast
qed

lemma plain_sample_len:
  "\<exists>w'. sample_len plain_ops (w :: (u64, rat) writer) = Ok (Some (v, w')) \<and> w_enc w' = w_enc w \<and> w_log w' = w_log w"
  if "w_dists w = (\<lambda>_. single_dists v)" for w
  using single_dist_sample [of 1448 v "w_rand w"] that
  by (auto simp: sample_len_def plain_ops_def single_dists_def)

lemma write_delivers_witness:
  "\<exists>w w' d d' ps. write_impl plain_ops (\<lambda>_. None) IatNone [1, 2] w = Some (Ok (None, w')) \<and>
     in_sync (w_enc w) d \<and> in_sync (w_enc w') d' \<and> concat (map snd ps) = [1, 2] \<and>
     drain_all (packet_step zero_sip tag_box 16) d (concat (map fst (w_log w'))) = (ps, None, d', [])"
proof -
  obtain e d where "encoder_new zero_sip (replicate 72 7) = Some e" and sync: "in_sync e d"
    and ctr: "nonce_counter (enc_nonce e) = 1"
    by (rule plain_pair)
  let ?w = "plain_writer e 100"
  obtain fr e1 where fr: "make_packets zero_sip tag_box e [] (data_packets [1, 2]) = Ok (fr, e1)"
      and c1: "nonce_counter (enc_nonce e1) = word_of_nat 2"
    using make_packets_total [of "data_packets [1, 2]" e 1 zero_sip tag_box "[]"] ctr chunk_packets(3) [of "[1, 2]"]
    by (auto simp: data_packets_def chunks_short)
  obtain w1 where w1: "sample_len plain_ops (?w\<lparr>w_enc := e1\<rparr>) = Ok (Some (100, w1))" "w_enc w1 = e1" "w_log w1 = []"
    using plain_sample_len [of "?w\<lparr>w_enc := e1\<rparr>" 100] by (auto simp: plain_writer_def)
  let ?qs = "pad_packets (pad_len_for (length fr) 100)"
  have "\<forall>(ty, data, k)\<in>set ?qs. length data + k \<le> 1427"
    by (auto dest!: pad_packets_sizes [OF pad_len_for_bound, rotated])
  moreover have "length ?qs \<le> 2" by (simp add: pad_packets_def)
  ultimately obtain out e2 where "make_packets zero_sip tag_box e1 fr ?qs = Ok (out, e2)"
    using make_packets_total [of ?qs e1 2 zero_sip tag_box fr] c1 by auto
  then have pad: "pad_burst plain_ops e1 fr (length fr) 100 = Ok (out, e2)"
    by (simp add: pad_burst_def plain_ops_def)
  obtain w' where w': "write_impl plain_ops (\<lambda>_. None) IatNone [1, 2] ?w = Some (Ok (None, w'))"
    using fr w1 pad by (auto simp: write_impl_def write_frames_def plain_writer_def plain_ops_def Let_def)
  have "\<forall>k. dists_ok (w_dists ?w k)" by (simp add: plain_writer_def single_dists_ok)
  with write_delivers [of plain_ops 16 ?w d "\<lambda>_. None" IatNone "[1, 2]" w'] w' sync tag_box_ok
  show ?thesis by (fastforce simp: plain_ops_def plain_writer_def)
qed

lemma padded_tail_witness:
  "\<exists>e e' out. pad_burst plain_ops e (replicate 90 0) 90 100 = Ok (out, e') \<and> length out mod 1448 = 121"
proof -
  obtain e d where "encoder_new zero_sip (replicate 72 7) = Some e" "in_sync e d"
    and ctr: "nonce_counter (enc_nonce e) = 1"
    by (rule plain_pair)
  have n: "pad_len_for 90 100 = 10" by (simp add: pad_len_for_def)
  obtain out e' where out: "pad_burst plain_ops e (replicate 90 0) 90 100 = Ok (out, e')"
    using make_packets_total [of "pad_packets 10" e 1 zero_sip tag_box "replicate 90 0"] ctr
    by (auto simp: pad_burst_def plain_ops_def n pad_packets_def)
  with padded_tail [of plain_ops e "replicate 90 0" 100 out e'] n tag_box_ok show ?thesis
    by (auto simp: plain_ops_def)
qed

lemma paranoid_write_never_completes_witness:
  "\<forall>e w'. write_impl plain_ops (\<lambda>_. None) IatParanoid (replicate 708 0) (plain_writer e 740) \<noteq> Some (Ok (None, w'))"
proof (intro allI)
  fix e w'
  have "\<forall>k. wd_ok (d_len (w_dists (plain_writer e 740) k)) \<and> wd_support (d_len (w_dists (plain_writer e 740) k)) = [740]"
    by (simp add: plain_writer_def single_dists_def single_dist_ok) (simp add: wd_support_def single_dist_def)
  then show "write_impl plain_ops (\<lambda>_. None) IatParanoid (replicate 708 0) (plain_writer e 740) \<noteq> Some (Ok (None, w'))"
    by (intro paranoid_write_never_completes [of plain_ops 740]) (simp_all add: plain_ops_def tag_box_ok)
qed

definition plain_reader :: "u64 decoder \<Rightarrow> bytes \<Rightarrow> (u64, rat) reader" where
  "plain_reader d bs = \<lparr>r_decoder = d, r_receive = buf_extend bs buf_default, r_decoded = buf_default,
     r_is_server = True, r_dists = single_dists 100, r_eof = False, r_error = None\<rparr>"

lemma plain_reader_inv: "reader_inv (plain_reader d bs)"
  by (simp add: reader_inv_def plain_reader_def buf_view_simps)

lemma server_read_returns_witness:
  "\<forall>d. \<exists>res evs' r'. read_impl plain_ops 16 5 [NetData [1, 2, 3], NetEof] (plain_reader d []) = Ok (Some (res, evs', r'))"
  using server_read_returns [of 16, OF _ plain_reader_inv]
  by (simp add: plain_reader_def)

lemma read_delivers_witness:
  "\<exists>res evs' r' d wire. undelivered plain_ops 16 [NetData wire] (plain_reader d []) = [7, 8] \<and>
     read_impl plain_ops 16 5 [NetData wire] (plain_reader d []) = Ok (Some (res, evs', r')) \<and>
     (\<exists>bs. res = RData bs \<and> bs \<noteq> [] \<and> [7, 8] = bs @ undelivered plain_ops 16 evs' r')"
proof -
  obtain e d where "encoder_new zero_sip (replicate 72 7) = Some e" and sync: "in_sync e d"
    and ctr: "nonce_counter (enc_nonce e) = 1"
    by (rule plain_pair)
  obtain wire e1 where mk: "make_packets zero_sip tag_box e [] [(0, [7, 8], 0)] = Ok (wire, e1)"
    using make_packets_total [of "[(0, [7, 8], 0)]" e 1 zero_sip tag_box "[]"] ctr by auto
  have wire: "length wire = 23" using make_packets_length [OF tag_box_ok mk] by simp
  let ?r = "plain_reader d []" and ?evs = "[NetData wire]"
  have step: "conn_step plain_ops 16 = packet_step zero_sip tag_box 16"
    by (simp add: conn_step_def plain_ops_def)
  obtain d' where "in_sync e1 d'" and all: "\<forall>tail. drain_all (packet_step zero_sip tag_box 16) d (wire @ tail) =
    (case drain_all (packet_step zero_sip tag_box 16) d' tail of
       (ps, x, d'', r) \<Rightarrow> ([(0, [7, 8])] @ ps, x, d'', r))"
    using drain_packets [OF tag_box_ok _ sync mk, of 16] by auto
  have "drain_all (packet_step zero_sip tag_box 16) d' [] = ([], None, d', [])"
    using stream_decoder.drain_all_simps(1) [OF packet_stream_decoder, of 16 zero_sip tag_box d' "[]" d' "[]"]
      conn_step_empty [of plain_ops 16 d'] step by simp
  then have owed: "undelivered plain_ops 16 ?evs ?r = [7, 8]"
    using all [THEN spec, of "[]"] wire
    by (auto simp: undelivered_def plain_reader_def step obfs_buf.view_extend [OF obfs_buf.inv_empty] obfs_buf.view_empty)
  obtain res evs' r' where ret: "read_impl plain_ops 16 5 ?evs ?r = Ok (Some (res, evs', r'))"
    using server_read_total [of 16 ?r plain_ops 5 ?evs] plain_reader_inv by (auto simp: plain_reader_def)
  from read_delivers [OF _ _ plain_reader_inv ret] owed
  have "\<exists>bs. res = RData bs \<and> bs \<noteq> [] \<and> [7, 8] = bs @ undelivered plain_ops 16 evs' r'"
    by (auto split: read_result.splits if_splits)
  with owed ret show ?thesis by blast
qed

end
