(* ===== verification/Field.thy ===== *)
theory Field
  imports Prelude
begin

text \<open>
  GF(2^255 - 19) as in \<open>src/shared/domain/crypto/field.rs\<close>: five 51-bit limbs,
  with the arithmetic done by the crate \<open>fiat_crypto\<close>, whose functions are the
  record \<open>fiat\<close>.  What the crate documents of them (bounds of tight and loose
  limbs, value modulo p) is the predicate \<open>fiat_ok\<close>.  \<open>rep a x\<close> says that the
  limbs \<open>a\<close> are tight and stand for \<open>x\<close>; the rules \<open>rep_intros\<close> carry it through
  every operation.
\<close>

type_synonym limbs = "u64 list"

record fiat =
  fi_from_bytes :: "bytes \<Rightarrow> limbs"
  fi_to_bytes :: "limbs \<Rightarrow> bytes"
  fi_relax :: "limbs \<Rightarrow> limbs"
  fi_carry :: "limbs \<Rightarrow> limbs"
  fi_add :: "limbs \<Rightarrow> limbs \<Rightarrow> limbs"
  fi_sub :: "limbs \<Rightarrow> limbs \<Rightarrow> limbs"
  fi_opp :: "limbs \<Rightarrow> limbs"
  fi_carry_mul :: "limbs \<Rightarrow> limbs \<Rightarrow> limbs"
  fi_carry_square :: "limbs \<Rightarrow> limbs"
  fi_selectznz :: "u8 \<Rightarrow> limbs \<Rightarrow> limbs \<Rightarrow> limbs"

section \<open>The operations\<close>

definition FE_ZERO :: limbs where "FE_ZERO = [0, 0, 0, 0, 0]"
definition FE_ONE :: limbs where "FE_ONE = [1, 0, 0, 0, 0]"

definition fe_from_bytes :: "fiat \<Rightarrow> bytes \<Rightarrow> limbs" where
  "fe_from_bytes F bs = fi_from_bytes F (bs[31 := (bs ! 31) AND 0x7f])"

definition fe_from_u64 :: "fiat \<Rightarrow> u64 \<Rightarrow> limbs" where
  "fe_from_u64 F x = fe_from_bytes F (u64_le x @ replicate 24 0)"

definition fe_to_bytes :: "fiat \<Rightarrow> limbs \<Rightarrow> bytes" where
  "fe_to_bytes F a = fi_to_bytes F a"

definition fe_add :: "fiat \<Rightarrow> limbs \<Rightarrow> limbs \<Rightarrow> limbs" where
  "fe_add F a b = fi_carry F (fi_add F a b)"
definition fe_sub :: "fiat \<Rightarrow> limbs \<Rightarrow> limbs \<Rightarrow> limbs" where
  "fe_sub F a b = fi_carry F (fi_sub F a b)"
definition fe_neg :: "fiat \<Rightarrow> limbs \<Rightarrow> limbs" where
  "fe_neg F a = fi_carry F (fi_opp F a)"
definition fe_mul :: "fiat \<Rightarrow> limbs \<Rightarrow> limbs \<Rightarrow> limbs" where
  "fe_mul F a b = fi_carry_mul F (fi_relax F a) (fi_relax F b)"
definition fe_square :: "fiat \<Rightarrow> limbs \<Rightarrow> limbs" where
  "fe_square F a = fi_carry_square F (fi_relax F a)"

primrec fe_pow2k :: "fiat \<Rightarrow> limbs \<Rightarrow> nat \<Rightarrow> limbs" where
  "fe_pow2k F a 0 = a"
| "fe_pow2k F a (Suc k) = fe_square F (fe_pow2k F a k)"

definition fe_pow22523 :: "fiat \<Rightarrow> limbs \<Rightarrow> limbs" where
  "fe_pow22523 F x =
     (let z2 = fe_square F x;
          z9 = fe_mul F (fe_pow2k F z2 2) x;
          z11 = fe_mul F z9 z2;
          z2_5_0 = fe_mul F (fe_square F z11) z9;
          z2_10_0 = fe_mul F (fe_pow2k F z2_5_0 5) z2_5_0;
          z2_20_0 = fe_mul F (fe_pow2k F z2_10_0 10) z2_10_0;
          z2_40_0 = fe_mul F (fe_pow2k F z2_20_0 20) z2_20_0;
          z2_50_0 = fe_mul F (fe_pow2k F z2_40_0 10) z2_10_0;
          z2_100_0 = fe_mul F (fe_pow2k F z2_50_0 50) z2_50_0;
          z2_200_0 = fe_mul F (fe_pow2k F z2_100_0 100) z2_100_0;
          z2_250_0 = fe_mul F (fe_pow2k F z2_200_0 50) z2_50_0
      in fe_mul F (fe_pow2k F z2_250_0 2) x)"

definition fe_invert :: "fiat \<Rightarrow> limbs \<Rightarrow> limbs" where
  "fe_invert F x =
     (let x3 = fe_mul F (fe_square F x) x
      in fe_mul F (fe_pow2k F (fe_pow22523 F x) 3) x3)"

definition fe_is_negative :: "fiat \<Rightarrow> limbs \<Rightarrow> bool" where
  "fe_is_negative F a \<longleftrightarrow> (fe_to_bytes F a ! 0) AND 1 \<noteq> 0"

definition fe_ct_eq :: "fiat \<Rightarrow> limbs \<Rightarrow> limbs \<Rightarrow> bool" where
  "fe_ct_eq F a b \<longleftrightarrow> fe_to_bytes F a = fe_to_bytes F b"

definition fe_select :: "fiat \<Rightarrow> limbs \<Rightarrow> limbs \<Rightarrow> bool \<Rightarrow> limbs" where
  "fe_select F a b choice = fi_selectznz F (if choice then 1 else 0) b a"

definition fe_abs :: "fiat \<Rightarrow> limbs \<Rightarrow> limbs" where
  "fe_abs F a = fe_select F (fe_neg F a) a (fe_is_negative F a)"

text \<open>\<open>fe_const\<close>: the four little-endian words, split into limbs.\<close>

definition fe_const :: "bytes \<Rightarrow> limbs" where
  "fe_const b =
     (let w = (\<lambda>i. foldl (\<lambda>acc j. acc OR push_bit (8 * j) (ucast (b ! (i * 8 + j)))) (0 :: u64) [0..<8]);
          mask = push_bit 51 1 - 1;
          w3 = w 3 AND 0x7fffffffffffffff
      in [w 0 AND mask,
          (drop_bit 51 (w 0) OR push_bit 13 (w 1)) AND mask,
          (drop_bit 38 (w 1) OR push_bit 26 (w 2)) AND mask,
          (drop_bit 25 (w 2) OR push_bit 39 w3) AND mask,
          drop_bit 12 w3 AND mask])"

definition SQRT_M1 :: limbs where
  "SQRT_M1 = fe_const
     [0xb0, 0xa0, 0x0e, 0x4a, 0x27, 0x1b, 0xee, 0xc4, 0x78, 0xe4, 0x2f, 0xad, 0x06, 0x18, 0x43, 0x2f,
      0xa7, 0xd7, 0xfb, 0x3d, 0x99, 0x00, 0x4d, 0x2b, 0x0b, 0xdf, 0xc1, 0x4f, 0x80, 0x24, 0x83, 0x2b]"

definition fe_sqrt_ratio :: "fiat \<Rightarrow> limbs \<Rightarrow> limbs \<Rightarrow> limbs \<times> bool" where
  "fe_sqrt_ratio F u v =
     (let v2 = fe_square F v;
          uv3 = fe_mul F u (fe_mul F v2 v);
          uv7 = fe_mul F uv3 (fe_square F v2);
          rr = fe_mul F uv3 (fe_pow22523 F uv7);
          check = fe_mul F v (fe_square F rr);
          u_neg = fe_neg F u;
          correct = fe_ct_eq F check u;
          flipped = fe_ct_eq F check u_neg;
          flipped_i = fe_ct_eq F check (fe_mul F u_neg SQRT_M1);
          r_prime = fe_mul F rr SQRT_M1;
          rr = fe_select F r_prime rr (flipped \<or> flipped_i)
      in (fe_abs F rr, correct \<or> flipped))"

section \<open>What the limbs stand for\<close>

definition fprime :: int where "fprime = 2 ^ 255 - 19"

fun limbs_val :: "limbs \<Rightarrow> int" where
  "limbs_val [] = 0"
| "limbs_val (w # ws) = uint w + 2 ^ 51 * limbs_val ws"

definition tight :: "limbs \<Rightarrow> bool" where
  "tight a \<longleftrightarrow> length a = 5 \<and> (\<forall>w\<in>set a. uint w \<le> 0x8000000000000)"
definition loose :: "limbs \<Rightarrow> bool" where
  "loose a \<longleftrightarrow> length a = 5 \<and> (\<forall>w\<in>set a. uint w \<le> 0x18000000000000)"

definition bytes_val :: "bytes \<Rightarrow> int" where "bytes_val bs = int (nat_of_le bs)"

text \<open>The documented pre- and postconditions of \<open>fiat_crypto::curve25519_64\<close>.\<close>

definition fiat_ok :: "fiat \<Rightarrow> bool" where
  "fiat_ok F \<longleftrightarrow>
     (\<forall>bs. length bs = 32 \<and> bs ! 31 \<le> 0x7f \<longrightarrow>
        tight (fi_from_bytes F bs) \<and> limbs_val (fi_from_bytes F bs) mod fprime = bytes_val bs mod fprime) \<and>
     (\<forall>a. tight a \<longrightarrow> fi_to_bytes F a = le_of_nat 32 (nat (limbs_val a mod fprime))) \<and>
     (\<forall>a. tight a \<longrightarrow> loose (fi_relax F a) \<and> limbs_val (fi_relax F a) = limbs_val a) \<and>
     (\<forall>a. loose a \<longrightarrow> tight (fi_carry F a) \<and> limbs_val (fi_carry F a) mod fprime = limbs_val a mod fprime) \<and>
     (\<forall>a b. tight a \<and> tight b \<longrightarrow> loose (fi_add F a b) \<and>
        limbs_val (fi_add F a b) mod fprime = (limbs_val a + limbs_val b) mod fprime) \<and>
     (\<forall>a b. tight a \<and> tight b \<longrightarrow> loose (fi_sub F a b) \<and>
        limbs_val (fi_sub F a b) mod fprime = (limbs_val a - limbs_val b) mod fprime) \<and>
     (\<forall>a. tight a \<longrightarrow> loose (fi_opp F a) \<and> limbs_val (fi_opp F a) mod fprime = (- limbs_val a) mod fprime) \<and>
     (\<forall>a b. loose a \<and> loose b \<longrightarrow> tight (fi_carry_mul F a b) \<and>
        limbs_val (fi_carry_mul F a b) mod fprime = (limbs_val a * limbs_val b) mod fprime) \<and>
     (\<forall>a. loose a \<longrightarrow> tight (fi_carry_square F a) \<and>
        limbs_val (fi_carry_square F a) mod fprime = (limbs_val a * limbs_val a) mod fprime) \<and>
     (\<forall>a b. fi_selectznz F 0 a b = a \<and> fi_selectznz F 1 a b = b)"

definition rep :: "limbs \<Rightarrow> int \<Rightarrow> bool" where
  "rep a x \<longleftrightarrow> tight a \<and> limbs_val a mod fprime = x mod fprime"

named_theorems rep_intros "the value of each field operation"

lemma rep_cong: "rep a x \<Longrightarrow> x mod fprime = y mod fprime \<Longrightarrow> rep a y"
  by (simp add: rep_def)

lemma rep_value: "tight a \<Longrightarrow> rep a (limbs_val a)"
  by (simp add: rep_def)

lemma rep_add [rep_intros]:
  "fiat_ok F \<Longrightarrow> rep a x \<Longrightarrow> rep b y \<Longrightarrow> rep (fe_add F a b) (x + y)"
  unfolding fiat_ok_def rep_def fe_add_def by (metis mod_add_eq)

lemma rep_sub [rep_intros]:
  "fiat_ok F \<Longrightarrow> rep a x \<Longrightarrow> rep b y \<Longrightarrow> rep (fe_sub F a b) (x - y)"
  unfolding fiat_ok_def rep_def fe_sub_def by (metis mod_diff_eq)

lemma rep_neg [rep_intros]: "fiat_ok F \<Longrightarrow> rep a x \<Longrightarrow> rep (fe_neg F a) (- x)"
  unfolding fiat_ok_def rep_def fe_neg_def by (metis mod_minus_eq)

lemma rep_mul [rep_intros]:
  "fiat_ok F \<Longrightarrow> rep a x \<Longrightarrow> rep b y \<Longrightarrow> rep (fe_mul F a b) (x * y)"
  unfolding fiat_ok_def rep_def fe_mul_def by (metis mod_mult_eq)

lemma rep_square [rep_intros]: "fiat_ok F \<Longrightarrow> rep a x \<Longrightarrow> rep (fe_square F a) (x * x)"
  unfolding fiat_ok_def rep_def fe_square_def by (metis mod_mult_eq)

lemma rep_select [rep_intros]:
  "fiat_ok F \<Longrightarrow> rep a x \<Longrightarrow> rep b y \<Longrightarrow> rep (fe_select F a b c) (if c then x else y)"
  by (simp add: fiat_ok_def fe_select_def)

lemma rep_FE_ONE [rep_intros]: "rep FE_ONE 1"
  by (simp add: rep_def tight_def FE_ONE_def)

lemma fprime_pos [simp]: "0 < fprime" by (simp add: fprime_def)
lemma fprime_odd: "odd fprime" by (simp add: fprime_def)

lemma fe_to_bytes_rep: "fiat_ok F \<Longrightarrow> rep a x \<Longrightarrow> fe_to_bytes F a = le_of_nat 32 (nat (x mod fprime))"
  by (simp add: fiat_ok_def rep_def fe_to_bytes_def)

lemma le_of_nat_inject:
  assumes "x < 256 ^ n" "y < 256 ^ n"
  shows "le_of_nat n x = le_of_nat n y \<longleftrightarrow> x = y"
  using assms nat_of_le_of_nat [of n x] nat_of_le_of_nat [of n y] by (metis mod_less)

lemma fe_bytes_bound: "nat (x mod fprime) < 256 ^ 32"
proof -
  have "x mod fprime < fprime" by simp
  also have "fprime < 256 ^ 32" by (simp add: fprime_def)
  finally show ?thesis by (simp add: nat_less_iff)
qed

lemma fe_ct_eq_rep:
  assumes "fiat_ok F" "rep a x" "rep b y"
  shows "fe_ct_eq F a b \<longleftrightarrow> x mod fprime = y mod fprime"
  unfolding fe_ct_eq_def fe_to_bytes_rep [OF assms(1,2)] fe_to_bytes_rep [OF assms(1,3)]
  using le_of_nat_inject [OF fe_bytes_bound fe_bytes_bound, of x y] by (simp add: eq_nat_nat_iff)

lemma nth0_le_of_nat: "0 < n \<Longrightarrow> le_of_nat n k ! 0 = word_of_nat k"
  by (cases n) auto

lemma word_and_1_iff: "(w :: u8) AND 1 \<noteq> 0 \<longleftrightarrow> odd (unat w)"
  by (simp add: and_one_eq odd_iff_mod_2_eq_one word_unat_eq_iff unat_mod)

lemma fe_is_negative_rep:
  assumes "fiat_ok F" "rep a x"
  shows "fe_is_negative F a \<longleftrightarrow> odd (x mod fprime)"
proof -
  have "le_of_nat 32 (nat (x mod fprime)) ! 0 = word_of_nat (nat (x mod fprime))"
    by (rule nth0_le_of_nat) simp
  moreover have "odd (unat (word_of_nat (nat (x mod fprime)) :: u8)) \<longleftrightarrow> odd (nat (x mod fprime))"
    unfolding unat_byte by (metis dvd_mod_iff dvd_trans even_numeral)
  ultimately show ?thesis
    unfolding fe_is_negative_def fe_to_bytes_rep [OF assms] word_and_1_iff
    by (simp only: even_nat_iff [OF pos_mod_sign [OF fprime_pos]])
qed

lemma rep_abs:
  assumes "fiat_ok F" "rep a x"
  shows "\<exists>y. rep (fe_abs F a) y \<and> (y = x \<or> y = - x) \<and> even (y mod fprime)"
proof (cases "odd (x mod fprime)")
  case True
  then have "x mod fprime \<noteq> 0" by (metis even_zero)
  then have "(- x) mod fprime = fprime - x mod fprime" by (simp add: zmod_zminus1_eq_if)
  with True fprime_odd have "even ((- x) mod fprime)" by simp
  moreover have "rep (fe_abs F a) (- x)"
    using rep_select [OF assms(1) rep_neg [OF assms] assms(2), of True] True
    by (simp add: fe_abs_def fe_is_negative_rep [OF assms])
  ultimately show ?thesis by blast
next
  case False
  then have "rep (fe_abs F a) x"
    using rep_select [OF assms(1) rep_neg [OF assms] assms(2), of False]
    by (simp add: fe_abs_def fe_is_negative_rep [OF assms])
  with False show ?thesis by blast
qed

section \<open>Powers and square roots\<close>

lemma rep_power_square: "fiat_ok F \<Longrightarrow> rep a (x ^ i) \<Longrightarrow> rep (fe_square F a) (x ^ (2 * i))"
  using rep_square [of F a "x ^ i"] by (simp add: mult_2 power_add)

lemma rep_power_mul:
  "fiat_ok F \<Longrightarrow> rep a (x ^ i) \<Longrightarrow> rep b (x ^ j) \<Longrightarrow> rep (fe_mul F a b) (x ^ (i + j))"
  using rep_mul [of F a "x ^ i" b "x ^ j"] by (simp add: power_add)

lemma rep_pow2k: "fiat_ok F \<Longrightarrow> rep a (x ^ i) \<Longrightarrow> rep (fe_pow2k F a k) (x ^ (2 ^ k * i))"
proof (induction k)
  case (Suc k)
  then show ?case using rep_power_square [of F "fe_pow2k F a k" x "2 ^ k * i"] by (simp add: mult.assoc)
qed simp

lemma rep_chain0:
  "fiat_ok F \<Longrightarrow> rep a (x ^ i) \<Longrightarrow> rep b (x ^ j) \<Longrightarrow> i + j = n \<Longrightarrow> rep (fe_mul F a b) (x ^ n)"
  using rep_power_mul by blast

lemma rep_chain:
  "fiat_ok F \<Longrightarrow> rep a (x ^ i) \<Longrightarrow> rep b (x ^ j) \<Longrightarrow> 2 ^ k * i + j = n \<Longrightarrow>
     rep (fe_mul F (fe_pow2k F a k) b) (x ^ n)"
  using rep_power_mul [OF _ rep_pow2k] by blast

lemma fe_pow2k_1: "fe_pow2k F a 1 = fe_square F a"
  by simp

lemma rep_pow22523:
  assumes F: "fiat_ok F" and x: "rep a x"
  shows "rep (fe_pow22523 F a) (x ^ (2 ^ 252 - 3))"
proof -
  have x1: "rep a (x ^ 1)" using x by simp
  note chain = rep_chain [OF F]
  note z2 = rep_power_square [OF F x1, unfolded mult_1_right]
  have z9: "2 ^ 2 * 2 + 1 = (9 :: nat)" and z5: "2 ^ 1 * 11 + 9 = (31 :: nat)"
    and z10: "2 ^ 5 * 31 + 31 = (1023 :: nat)"
    and z20: "2 ^ 10 * 1023 + 1023 = (2 ^ 20 - 1 :: nat)"
    and z40: "2 ^ 20 * (2 ^ 20 - 1) + (2 ^ 20 - 1) = (2 ^ 40 - 1 :: nat)"
    and z50: "2 ^ 10 * (2 ^ 40 - 1) + 1023 = (2 ^ 50 - 1 :: nat)"
    and z100: "2 ^ 50 * (2 ^ 50 - 1) + (2 ^ 50 - 1) = (2 ^ 100 - 1 :: nat)"
    and z200: "2 ^ 100 * (2 ^ 100 - 1) + (2 ^ 100 - 1) = (2 ^ 200 - 1 :: nat)"
    and z250: "2 ^ 50 * (2 ^ 200 - 1) + (2 ^ 50 - 1) = (2 ^ 250 - 1 :: nat)"
    and z252: "2 ^ 2 * (2 ^ 250 - 1) + 1 = (2 ^ 252 - 3 :: nat)"
    by simp_all
  note r9 = chain [OF z2 x1 z9]
  note r11 = rep_chain0 [OF F r9 z2, of 11, simplified]
  note r31 = chain [OF r11 r9 z5, unfolded fe_pow2k_1]
  note r10 = chain [OF r31 r31 z10]
  note r20 = chain [OF r10 r10 z20]
  note r40 = chain [OF r20 r20 z40]
  note r50 = chain [OF r40 r10 z50]
  note r100 = chain [OF r50 r50 z100]
  note r200 = chain [OF r100 r100 z200]
  note r250 = chain [OF r200 r50 z250]
  show ?thesis
    unfolding fe_pow22523_def Let_def by (rule chain [OF r250 x1 z252])
qed

lemma rep_invert:
  assumes F: "fiat_ok F" and x: "rep a x"
  shows "rep (fe_invert F a) (x ^ nat (fprime - 2))"
proof -
  have "2 ^ 3 * (2 ^ 252 - 3) + 3 = nat (fprime - 2)" by (simp add: fprime_def)
  moreover have x1: "rep a (x ^ 1)" using x by simp
  have "rep (fe_mul F (fe_square F a) a) (x ^ 3)"
    using rep_chain0 [OF F rep_power_square [OF F x1] x1, of 3] by simp
  ultimately show ?thesis
    unfolding fe_invert_def Let_def using rep_chain [OF F rep_pow22523 [OF F x]] by blast
qed

lemma SQRT_M1_limbs:
  "SQRT_M1 = [0x61b274a0ea0b0, 0x0d5a5fc8f189d, 0x7ef5e9cbd0c60, 0x78595a6804c9e, 0x2b8324804fc1d]"
  by code_simp

lemma rep_SQRT_M1: "\<exists>i. rep SQRT_M1 i \<and> i * i mod fprime = (- 1) mod fprime"
  by (rule exI [of _ "limbs_val SQRT_M1"])
    (simp add: rep_def tight_def SQRT_M1_limbs fprime_def)

lemma rep_sqrt_ratio:
  assumes F: "fiat_ok F" and u: "rep u x" and v: "rep v y" and r: "fe_sqrt_ratio F u v = (r, True)"
  shows "\<exists>z. rep r z \<and> (y * (z * z)) mod fprime = x mod fprime \<and> even (z mod fprime)"
proof -
  obtain i where i: "rep SQRT_M1 i" "i * i mod fprime = (- 1) mod fprime"
    using rep_SQRT_M1 by blast
  define rr where "rr = fe_mul F (fe_mul F u (fe_mul F (fe_square F v) v))
    (fe_pow22523 F (fe_mul F (fe_mul F u (fe_mul F (fe_square F v) v)) (fe_square F (fe_square F v))))"
  obtain s where s: "rep rr s"
    unfolding rr_def by (blast intro: rep_intros rep_pow22523 F u v)
  note check = rep_mul [OF F v rep_square [OF F s]]
  note flip = fe_ct_eq_rep [OF F check rep_neg [OF F u]]
  note flip_i = fe_ct_eq_rep [OF F check rep_mul [OF F rep_neg [OF F u] i(1)]]
  let ?c = "fe_ct_eq F (fe_mul F v (fe_square F rr)) (fe_neg F u) \<or>
    fe_ct_eq F (fe_mul F v (fe_square F rr)) (fe_mul F (fe_neg F u) SQRT_M1)"
  have r_eq: "r = fe_abs F (fe_select F (fe_mul F rr SQRT_M1) rr ?c)"
    and ok: "fe_ct_eq F (fe_mul F v (fe_square F rr)) u \<or> fe_ct_eq F (fe_mul F v (fe_square F rr)) (fe_neg F u)"
    using r by (simp_all add: fe_sqrt_ratio_def Let_def rr_def)
  obtain z where z: "rep r z" "z * z = (if ?c then s * i else s) * (if ?c then s * i else s)"
      "even (z mod fprime)"
    using rep_abs [OF F rep_select [OF F rep_mul [OF F s i(1)] s]] unfolding r_eq by fastforce
  have turn: "(y * ((s * i) * (s * i))) mod fprime = (- (y * (s * s))) mod fprime"
  proof -
    have "(y * ((s * i) * (s * i))) mod fprime = (y * (s * s)) * (i * i) mod fprime"
      by (simp add: mult.assoc mult.left_commute)
    also have "\<dots> = (y * (s * s)) * ((i * i) mod fprime) mod fprime" by (simp add: mod_mult_right_eq)
    finally show ?thesis unfolding i(2) by (simp add: mod_mult_right_eq)
  qed
  have root: "(- c) mod fprime = x mod fprime"
    if "c mod fprime = x mod fprime" "c mod fprime = (- x * i) mod fprime" for c
  proof -
    have "fprime dvd c - x" using that(1) by (simp add: mod_eq_dvd_iff)
    moreover have "fprime dvd c + x * i" using that(2) by (simp add: mod_eq_dvd_iff)
    moreover have "fprime dvd i * i + 1" using i(2) by (simp add: mod_eq_dvd_iff)
    ultimately have "fprime dvd - (c - x) - ((c + x * i) - (c - x)) * (1 - i) - x * (i * i + 1)"
      by (blast intro: dvd_diff dvd_mult2 dvd_mult iffD2 [OF dvd_minus_iff])
    also have "- (c - x) - ((c + x * i) - (c - x)) * (1 - i) - x * (i * i + 1) = - c - x"
      by (simp add: algebra_simps)
    finally show ?thesis by (simp add: mod_eq_dvd_iff)
  qed
  have neg: "(- c) mod fprime = x mod fprime" if "c mod fprime = (- x) mod fprime" for c
  proof -
    have "fprime dvd c + x" using that by (simp add: mod_eq_dvd_iff)
    then have "fprime dvd - (c + x)" by (simp only: dvd_minus_iff)
    then show ?thesis by (simp add: mod_eq_dvd_iff)
  qed
  have "(y * (z * z)) mod fprime = x mod fprime"
  proof (cases ?c)
    case True
    then have "(y * (z * z)) mod fprime = (- (y * (s * s))) mod fprime"
      using z(2) turn by simp
    with True ok root neg show ?thesis
      unfolding fe_ct_eq_rep [OF F check u] flip flip_i by metis
  next
    case False
    with ok z(2) show ?thesis
      unfolding fe_ct_eq_rep [OF F check u] flip by simp
  qed
  with z show ?thesis by blast
qed

section \<open>The contract can be met\<close>

text \<open>Canonical limbs, and operations that work on the value: one implementation of
  the documented contract, for the witnesses.\<close>

definition limbs_of :: "int \<Rightarrow> limbs" where
  "limbs_of x = map (\<lambda>i. word_of_int (x div 2 ^ (51 * i) mod 2 ^ 51)) [0..<5]"

definition on_value :: "(int \<Rightarrow> int) \<Rightarrow> limbs \<Rightarrow> limbs" where
  "on_value f a = limbs_of (f (limbs_val a) mod fprime)"

definition ref_fiat :: fiat where
  "ref_fiat = \<lparr>
     fi_from_bytes = (\<lambda>bs. limbs_of (bytes_val bs mod fprime)),
     fi_to_bytes = (\<lambda>a. le_of_nat 32 (nat (limbs_val a mod fprime))),
     fi_relax = (\<lambda>a. a), fi_carry = on_value (\<lambda>x. x),
     fi_add = (\<lambda>a b. on_value (\<lambda>x. x + limbs_val b) a),
     fi_sub = (\<lambda>a b. on_value (\<lambda>x. x - limbs_val b) a),
     fi_opp = on_value uminus,
     fi_carry_mul = (\<lambda>a b. on_value (\<lambda>x. x * limbs_val b) a),
     fi_carry_square = on_value (\<lambda>x. x * x),
     fi_selectznz = (\<lambda>c a b. if c = 0 then a else b)\<rparr>"

lemma uint_limb: "uint (word_of_int (x mod 2 ^ 51) :: u64) = x mod 2 ^ 51"
proof -
  have "0 \<le> x mod 2 ^ 51" "x mod 2 ^ 51 < 2 ^ 51" by simp_all
  then show ?thesis by (simp add: uint_word_of_int)
qed

lemma limbs_val_of: "0 \<le> x \<Longrightarrow> x < 2 ^ 255 \<Longrightarrow> limbs_val (limbs_of x) = x"
proof -
  assume x: "0 \<le> x" "x < 2 ^ 255"
  define y where "y k = x div 2 ^ (51 * k)" for k
  have step: "y k mod 2 ^ 51 + 2 ^ 51 * y (Suc k) = y k" for k
    unfolding y_def mult_Suc_right add.commute [of 51] power_add
    by (simp only: zdiv_zmult2_eq zero_le_power zero_le_numeral mod_mult_div_eq)
  have "y 5 = 0" using x by (simp add: y_def)
  with step [of 4] have top: "y (Suc (Suc (Suc (Suc 0)))) mod 2 ^ 51 = y (Suc (Suc (Suc (Suc 0))))"
    by (simp add: eval_nat_numeral)
  have "limbs_of x = map (\<lambda>i. word_of_int (y i mod 2 ^ 51)) [0, Suc 0, Suc (Suc 0), Suc (Suc (Suc 0)),
      Suc (Suc (Suc (Suc 0)))]"
    unfolding limbs_of_def y_def by (simp add: upt_conv_Cons eval_nat_numeral)
  then have "limbs_val (limbs_of x) = y 0"
    by (simp only: list.map limbs_val.simps uint_limb mult_zero_right add_0_right) (simp only: top step)
  then show ?thesis by (simp add: y_def)
qed

lemma tight_limbs_of: "tight (limbs_of x)"
proof -
  have "y mod 2 ^ 51 \<le> 0x8000000000000" for y :: int
  proof -
    have "y mod 2 ^ 51 < 2 ^ 51" by simp
    then show ?thesis by simp
  qed
  then show ?thesis unfolding tight_def limbs_of_def by (simp only: set_map ball_simps uint_limb) simp
qed

lemma tight_loose: "tight a \<Longrightarrow> loose a"
  unfolding tight_def loose_def by force

lemma ref_fiat_ok: "fiat_ok ref_fiat"
proof -
  have v: "limbs_val (limbs_of (x mod fprime)) mod fprime = x mod fprime" for x
  proof -
    have "x mod fprime < fprime" "fprime < 2 ^ 255" by (simp, simp add: fprime_def)
    then have "x mod fprime < 2 ^ 255" by (rule less_trans)
    then show ?thesis using limbs_val_of [of "x mod fprime"] by simp
  qed
  show ?thesis
    unfolding fiat_ok_def ref_fiat_def on_value_def
    by (simp add: v tight_limbs_of tight_loose)
qed

section \<open>Properties\<close>

text \<open>
  The addition chain of \<open>invert\<close> (and of \<open>pow22523\<close> inside it) computes
  \<open>x^(p - 2)\<close> modulo p for every field element.
\<close>

theorem invert_is_power:
  assumes "fiat_ok F" and "tight a"
  shows "tight (fe_invert F a) \<and>
    limbs_val (fe_invert F a) mod fprime = limbs_val a ^ nat (fprime - 2) mod fprime \<and>
    limbs_val (fe_pow22523 F a) mod fprime = limbs_val a ^ (2 ^ 252 - 3) mod fprime"
  using rep_invert [OF assms(1) rep_value [OF assms(2)]]
    rep_pow22523 [OF assms(1) rep_value [OF assms(2)]] by (simp add: rep_def)

lemma invert_is_power_witness:
  "limbs_val (fe_invert ref_fiat FE_ONE) mod fprime = 1"
  using invert_is_power [OF ref_fiat_ok, of FE_ONE] rep_FE_ONE
  by (simp add: rep_def FE_ONE_def fprime_def)

text \<open>
  When \<open>sqrt_ratio(u, v)\<close> reports a square, its first component is a
  non-negative (even) \<open>r\<close> with \<open>v * r^2 = u\<close>.
\<close>

theorem sqrt_ratio_sound:
  assumes "fiat_ok F" and "tight u" and "tight v" and "fe_sqrt_ratio F u v = (r, True)"
  shows "tight r \<and> limbs_val v * limbs_val r ^ 2 mod fprime = limbs_val u mod fprime \<and>
    even (limbs_val r mod fprime)"
proof -
  obtain z where z: "rep r z" "limbs_val v * (z * z) mod fprime = limbs_val u mod fprime" "even (z mod fprime)"
    using rep_sqrt_ratio [OF assms(1) rep_value [OF assms(2)] rep_value [OF assms(3)] assms(4)] by blast
  then have eq: "limbs_val r mod fprime = z mod fprime" by (simp add: rep_def)
  have "limbs_val v * limbs_val r ^ 2 mod fprime = limbs_val v * (z * z) mod fprime"
    unfolding power2_eq_square using eq by (metis mod_mult_cong)
  with z eq show ?thesis by (simp add: rep_def)
qed

lemma sqrt_ratio_one:
  assumes F: "fiat_ok F" and v: "rep v 1"
  shows "snd (fe_sqrt_ratio F FE_ONE v)"
proof -
  note one = rep_FE_ONE
  have uv3: "rep (fe_mul F FE_ONE (fe_mul F (fe_square F v) v)) 1"
    using rep_mul [OF F one rep_mul [OF F rep_square [OF F v] v]] by simp
  have rr: "rep (fe_mul F (fe_mul F FE_ONE (fe_mul F (fe_square F v) v))
     (fe_pow22523 F (fe_mul F (fe_mul F FE_ONE (fe_mul F (fe_square F v) v))
        (fe_square F (fe_square F v))))) 1"
    using rep_mul [OF F uv3 rep_pow22523 [OF F rep_mul [OF F uv3 rep_square [OF F rep_square [OF F v]]]]]
    by simp
  from fe_ct_eq_rep [OF F rep_mul [OF F v rep_square [OF F rr]] one]
  show ?thesis by (simp add: fe_sqrt_ratio_def Let_def)
qed

lemma sqrt_ratio_sound_witness:
  "\<exists>r. fe_sqrt_ratio ref_fiat FE_ONE FE_ONE = (r, True) \<and> limbs_val r ^ 2 mod fprime = 1 mod fprime \<and>
     even (limbs_val r mod fprime)"
proof -
  obtain r where r: "fe_sqrt_ratio ref_fiat FE_ONE FE_ONE = (r, True)"
    using sqrt_ratio_one [OF ref_fiat_ok rep_FE_ONE] by (cases "fe_sqrt_ratio ref_fiat FE_ONE FE_ONE") auto
  from sqrt_ratio_sound [OF ref_fiat_ok _ _ r] r show ?thesis
    by (intro exI [of _ r]) (simp add: tight_def FE_ONE_def)
qed

end
