(* ===== verification/Elligator.thy ===== *)
theory Elligator
  imports Field
begin

text \<open>
  Obfuscated X25519 keys, from \<open>src/shared/domain/crypto/x25519ell2.rs\<close>: the
  Elligator2 representative of a public key and the map back.  The Edwards
  arithmetic of \<open>curve25519_dalek\<close> is the record \<open>edwards\<close>.
\<close>

record 'p edwards =
  ed_decompress :: "bytes \<Rightarrow> 'p option"
  ed_default :: 'p
  ed_add :: "'p \<Rightarrow> 'p \<Rightarrow> 'p"
  ed_mul_base_clamped :: "bytes \<Rightarrow> 'p"
  ed_to_montgomery :: "'p \<Rightarrow> bytes"

definition NEG_TWO :: limbs where
  "NEG_TWO = fe_const (0xeb # replicate 30 0xff @ [0x7f])"
definition NEG_A :: limbs where
  "NEG_A = fe_const ([0xe7, 0x92, 0xf8] @ replicate 28 0xff @ [0x7f])"
definition U_FACTOR :: limbs where
  "U_FACTOR = fe_const
     [0x8d, 0xbe, 0xe2, 0x6b, 0xb1, 0xc9, 0x23, 0x76, 0x0e, 0x37, 0xa0, 0xa5, 0xf2, 0xcf, 0x79, 0xa1,
      0xb1, 0x50, 0x08, 0x84, 0xcd, 0xfe, 0x65, 0xa9, 0xe9, 0x41, 0x7c, 0x60, 0xff, 0xb6, 0xf9, 0x28]"

definition LOP_X :: bytes where
  "LOP_X =
     [0x4a, 0xd1, 0x45, 0xc5, 0x46, 0x46, 0xa1, 0xde, 0x38, 0xe2, 0xe5, 0x13, 0x70, 0x3c, 0x19, 0x5c,
      0xbb, 0x4a, 0xde, 0x38, 0x32, 0x99, 0x33, 0xe9, 0x28, 0x4a, 0x39, 0x06, 0xa0, 0xb9, 0xd5, 0x1f]"
definition LOP_Y :: bytes where
  "LOP_Y =
     [0x26, 0xe8, 0x95, 0x8f, 0xc2, 0xb2, 0x27, 0xb0, 0x45, 0xc3, 0xf4, 0x89, 0xf2, 0xef, 0x98, 0xf0,
      0xd5, 0xdf, 0xac, 0x05, 0xd3, 0xc6, 0x33, 0x39, 0xb1, 0x38, 0x02, 0x88, 0x6d, 0x53, 0xfc, 0x05]"

definition fe_a :: "fiat \<Rightarrow> limbs" where "fe_a F = fe_from_u64 F 486662"

text \<open>\<open>[c]L\<close> for \<open>c\<close> in 0..8; the \<open>expect\<close> on the decompression is the \<open>None\<close>.\<close>

definition low_order_points :: "'p edwards \<Rightarrow> 'p list option" where
  "low_order_points E =
     (case ed_decompress E (LOP_Y[31 := (LOP_Y ! 31) OR push_bit 7 ((LOP_X ! 0) AND 1)]) of
        None \<Rightarrow> None
      | Some l \<Rightarrow> Some (foldl (\<lambda>out i. out[i := ed_add E (out ! (i - 1)) l])
          (replicate 8 (ed_default E)) [1..<8]))"

definition scalar_base_mult_dirty :: "fiat \<Rightarrow> 'p edwards \<Rightarrow> bytes \<Rightarrow> limbs option" where
  "scalar_base_mult_dirty F E private_key =
     (let pk = ed_mul_base_clamped E private_key
      in case low_order_points E of
           None \<Rightarrow> None
         | Some points \<Rightarrow>
             let c = (private_key ! 0) AND 7;
                 lop = foldl (\<lambda>lop i. if (word_of_nat i :: u8) = c then points ! i else lop)
                   (ed_default E) [0..<length points]
             in Some (fe_from_bytes F (ed_to_montgomery E (ed_add E pk lop))))"

definition u_to_representative :: "fiat \<Rightarrow> limbs \<Rightarrow> u8 \<Rightarrow> bytes option" where
  "u_to_representative F u tweak =
     (let t1 = u;
          t2 = fe_add F t1 (fe_a F);
          t3 = fe_mul F (fe_mul F t1 t2) NEG_TWO
      in case fe_sqrt_ratio F FE_ONE t3 of
           (t3, is_square) \<Rightarrow>
             if \<not> is_square then None
             else
               let t1 = fe_select F t2 t1 (tweak AND 1 \<noteq> 0);
                   t3 = fe_mul F t1 t3;
                   doubled = fe_add F t3 t3;
                   t3 = fe_select F (fe_neg F t3) t3 ((fe_to_bytes F doubled ! 0) AND 1 \<noteq> 0);
                   representative = fe_to_bytes F t3
               in Some (representative[31 := (representative ! 31) OR (tweak AND 0xc0)]))"

text \<open>\<open>None\<close> of the result is the missing representative, \<open>None\<close> outside it the
  \<open>expect\<close> of \<open>low_order_points\<close>.\<close>

definition scalar_base_mult :: "fiat \<Rightarrow> 'p edwards \<Rightarrow> bytes \<Rightarrow> u8 \<Rightarrow> (bytes \<times> bytes) option option" where
  "scalar_base_mult F E private_key tweak =
     (case scalar_base_mult_dirty F E private_key of
        None \<Rightarrow> None
      | Some u \<Rightarrow>
          Some (case u_to_representative F u tweak of
             None \<Rightarrow> None
           | Some representative \<Rightarrow> Some (fe_to_bytes F u, representative)))"

definition montgomery_flavor_u :: "fiat \<Rightarrow> limbs \<Rightarrow> limbs" where
  "montgomery_flavor_u F r =
     (let a = fe_a F;
          a_squared = fe_from_u64 F (486662 * 486662);
          two = fe_add F FE_ONE FE_ONE;
          t1 = fe_mul F (fe_square F r) two;
          u = fe_add F t1 FE_ONE;
          t2 = fe_square F u;
          t3 = fe_mul F (fe_sub F (fe_mul F a_squared t1) t2) a;
          t1 = fe_mul F (fe_mul F t2 u) t3
      in case fe_sqrt_ratio F FE_ONE t1 of
           (t1, is_square) \<Rightarrow>
             let u = fe_mul F (fe_square F r) U_FACTOR;
                 u = fe_select F FE_ONE u is_square;
                 t1 = fe_square F t1
             in fe_mul F (fe_mul F (fe_mul F (fe_mul F u NEG_A) t3) t2) t1)"

definition representative_to_public_key :: "fiat \<Rightarrow> bytes \<Rightarrow> bytes" where
  "representative_to_public_key F representative =
     fe_to_bytes F (montgomery_flavor_u F
       (fe_from_bytes F (representative[31 := (representative ! 31) AND 63])))"

section \<open>Representatives\<close>

lemma NEG_TWO_limbs: "NEG_TWO = [0x7ffffffffffeb, 0x7ffffffffffff, 0x7ffffffffffff, 0x7ffffffffffff, 0x7ffffffffffff]"
  by code_simp

lemma rep_NEG_TWO [rep_intros]: "rep NEG_TWO (- 2)"
  by (simp add: rep_def tight_def NEG_TWO_limbs fprime_def)

lemma nat_of_le_zeros [simp]: "nat_of_le (replicate n 0) = 0"
  by (induction n) auto

lemma rep_from_bytes:
  assumes "fiat_ok F" and "length bs = 32"
  shows "rep (fe_from_bytes F bs) (bytes_val (bs[31 := bs ! 31 AND 0x7f]))"
proof -
  have "bs[31 := bs ! 31 AND 0x7f] ! 31 \<le> 0x7f" using assms(2) by (simp add: word_and_le1)
  then show ?thesis using assms unfolding fiat_ok_def rep_def fe_from_bytes_def by simp
qed

lemma rep_fe_a [rep_intros]:
  assumes "fiat_ok F"
  shows "rep (fe_a F) 486662"
proof -
  have val: "bytes_val ((u64_le 486662 @ replicate 24 0)[31 := (u64_le 486662 @ replicate 24 0) ! 31 AND 0x7f])
      = 486662"
  proof -
    have "u64_le 486662 = [0x06, 0x6d, 0x07, 0, 0, 0, 0, 0]" by (simp add: u64_le_def byte_simps)
    then have "(u64_le 486662 @ replicate 24 0)[31 := (u64_le 486662 @ replicate 24 0) ! 31 AND 0x7f]
        = [0x06, 0x6d, 0x07] @ replicate 29 0"
      by (simp only:) (simp add: numeral_eq_Suc)
    then show ?thesis by (simp add: bytes_val_def nat_of_le_append nat_of_le_zeros)
  qed
  show ?thesis
    using rep_from_bytes [OF assms, of "u64_le 486662 @ replicate 24 0"]
    unfolding val fe_a_def fe_from_u64_def by simp
qed

lemma nth_le_of_nat: "i < n \<Longrightarrow> le_of_nat n k ! i = word_of_nat (k div 256 ^ i)"
proof (induction n arbitrary: i k)
  case (Suc n)
  then show ?case by (cases i) (auto simp: div_mult2_eq)
qed simp

lemma tweak_bits:
  fixes b t :: u8
  assumes "b AND 63 = b"
  shows "(b OR (t AND 0xc0)) AND 63 = b" and "(b OR (t AND 0xc0)) AND 0xc0 = t AND 0xc0"
proof -
  have m: "(0xc0 :: u8) = NOT 63" by simp
  have "b AND NOT 63 = (b AND 63) AND NOT 63" using assms by simp
  then have b: "b AND NOT 63 = 0" by (simp only: and.assoc bit.conj_cancel_right and_zero_eq)
  show "(b OR (t AND 0xc0)) AND 63 = b"
    unfolding m bit.conj_disj_distrib2 and.assoc bit.conj_cancel_left
    using assms by simp
  show "(b OR (t AND 0xc0)) AND 0xc0 = t AND 0xc0"
    unfolding m bit.conj_disj_distrib2 b and.assoc by simp
qed

lemma top_byte_small:
  assumes "k < 2 ^ 254"
  shows "(word_of_nat (k div 256 ^ 31) :: u8) AND 63 = word_of_nat (k div 256 ^ 31)"
proof -
  have "k div 256 ^ 31 < 64" using assms by (simp add: div_less_iff_less_mult)
  then have "uint (word_of_nat (k div 256 ^ 31) :: u8) < 2 ^ 6" by (simp add: unsigned_of_nat take_bit_eq_mod)
  then have "(word_of_nat (k div 256 ^ 31) :: u8) AND mask 6 = word_of_nat (k div 256 ^ 31)"
    by (simp only: mask_eq_iff)
  moreover have "(mask 6 :: u8) = 63" by code_simp
  ultimately show ?thesis by simp
qed

lemma representative_square:
  fixes s t u A :: int
  assumes root: "(u * t * - 2) * (s * s) mod fprime = 1 mod fprime" and r: "r = t1 * s \<or> r = - (t1 * s)"
  shows "t1 = t \<Longrightarrow> (- 2 * u * (r * r)) mod fprime = t mod fprime"
    and "t1 = u \<Longrightarrow> (- 2 * t * (r * r)) mod fprime = u mod fprime"
proof -
  have rr: "r * r = t1 * t1 * (s * s)" using r by auto
  have "fprime dvd (u * t * - 2) * (s * s) - 1" using root by (simp add: mod_eq_dvd_iff)
  then have dvd: "fprime dvd a * ((u * t * - 2) * (s * s) - 1)" for a by simp
  show "(- 2 * u * (r * r)) mod fprime = t mod fprime" if "t1 = t"
    using dvd [of t] unfolding mod_eq_dvd_iff rr that by (simp add: algebra_simps)
  show "(- 2 * t * (r * r)) mod fprime = u mod fprime" if "t1 = u"
    using dvd [of u] unfolding mod_eq_dvd_iff rr that by (simp add: algebra_simps)
qed

text \<open>Choosing the sign by the parity of the double leaves the smaller root.\<close>

lemma smaller_root:
  assumes F: "fiat_ok F" and a: "rep a x"
    and b: "b = fe_select F (fe_neg F a) a ((fe_to_bytes F (fe_add F a a) ! 0) AND 1 \<noteq> 0)"
  shows "\<exists>y. rep b y \<and> (y = x \<or> y = - x) \<and> 2 * (y mod fprime) < fprime"
proof -
  let ?m = "x mod fprime"
  have neg: "((fe_to_bytes F (fe_add F a a) ! 0) AND 1 \<noteq> 0) \<longleftrightarrow> odd ((x + x) mod fprime)"
    using fe_is_negative_rep [OF F rep_add [OF F a a]] by (simp add: fe_is_negative_def)
  have "(x + x) mod fprime = (?m + ?m) mod fprime" by (metis mod_add_eq)
  also have "\<dots> = (if 2 * ?m < fprime then 2 * ?m else 2 * ?m - fprime)"
  proof (cases "2 * ?m < fprime")
    case False
    then have "0 \<le> 2 * ?m - fprime" "2 * ?m - fprime < fprime"
      using pos_mod_bound [OF fprime_pos, of x] by linarith+
    then have "(2 * ?m - fprime) mod fprime = 2 * ?m - fprime" by (rule mod_pos_pos_trivial)
    moreover have "(2 * ?m - fprime) mod fprime = (?m + ?m) mod fprime"
      by (simp only: mult_2 minus_mod_self2)
    ultimately show ?thesis unfolding if_not_P [OF False] by (simp only:)
  next
    case True
    have "0 \<le> 2 * ?m" by simp
    from mod_pos_pos_trivial [OF this True] show ?thesis
      unfolding if_P [OF True] by (simp only: mult_2)
  qed
  finally have odd: "odd ((x + x) mod fprime) \<longleftrightarrow> \<not> 2 * ?m < fprime"
    using fprime_odd by auto
  have sel: "rep b (if odd ((x + x) mod fprime) then - x else x)"
    using rep_select [OF F rep_neg [OF F a] a] unfolding b neg by simp
  show ?thesis
  proof (cases "odd ((x + x) mod fprime)")
    case True
    have "fprime \<noteq> 2 * ?m" using fprime_odd by (metis dvd_triv_left)
    with True odd have "fprime < 2 * ?m" by linarith
    moreover from this have "?m \<noteq> 0" using fprime_pos by linarith
    moreover from this have "(- x) mod fprime = fprime - ?m" by (simp add: zmod_zminus1_eq_if)
    ultimately have "2 * ((- x) mod fprime) < fprime" by linarith
    with sel True show ?thesis by auto
  next
    case False
    with sel odd show ?thesis by auto
  qed
qed

text \<open>
  A representative satisfies the Elligator2 equation for its key.  With the
  two tweak bits removed it is the smaller square root: for an odd tweak
  \<open>-2 u r^2 = u + A\<close>, for an even one \<open>-2 (u + A) r^2 = u\<close>, and \<open>2 r < p\<close>, so the top
  two bits are free and carry the tweak unchanged.
\<close>

theorem representative_equation:
  assumes "fiat_ok F" and "tight u" and "u_to_representative F u tweak = Some repr"
    and "r = bytes_val (repr[31 := (repr ! 31) AND 63])" and "U = limbs_val u"
  shows "length repr = 32 \<and> 2 * r < fprime \<and> (repr ! 31) AND 0xc0 = tweak AND 0xc0 \<and>
    (if tweak AND 1 \<noteq> 0 then (- 2 * U * r\<^sup>2) mod fprime = (U + 486662) mod fprime
     else (- 2 * (U + 486662) * r\<^sup>2) mod fprime = U mod fprime)"
proof -
  note F = assms(1)
  let ?c = "tweak AND 1 \<noteq> 0" and ?t2 = "fe_add F u (fe_a F)"
  let ?t3 = "fe_mul F (fe_mul F u ?t2) NEG_TWO"
  note u = rep_value [OF assms(2)]
  note t2 = rep_add [OF F u rep_fe_a [OF F]]
  note t3 = rep_mul [OF F rep_mul [OF F u t2] rep_NEG_TWO]
  obtain q where q: "fe_sqrt_ratio F FE_ONE ?t3 = (q, True)"
    using assms(3) by (auto simp: u_to_representative_def Let_def split: prod.splits if_splits)
  obtain s where s: "rep q s"
      "(limbs_val u * (limbs_val u + 486662) * - 2) * (s * s) mod fprime = 1 mod fprime"
    using rep_sqrt_ratio [OF F rep_FE_ONE t3 q] by blast
  let ?t1 = "if ?c then limbs_val u + 486662 else limbs_val u"
  let ?p = "fe_mul F (fe_select F ?t2 u ?c) q"
  let ?b = "fe_select F (fe_neg F ?p) ?p ((fe_to_bytes F (fe_add F ?p ?p) ! 0) AND 1 \<noteq> 0)"
  have repr: "repr = (fe_to_bytes F ?b)[31 := (fe_to_bytes F ?b ! 31) OR (tweak AND 0xc0)]"
    using assms(3) q by (simp add: u_to_representative_def Let_def)
  obtain y where y: "rep ?b y" "y = ?t1 * s \<or> y = - (?t1 * s)" "2 * (y mod fprime) < fprime"
    using smaller_root [OF F rep_mul [OF F rep_select [OF F t2 u] s(1)] refl] by blast
  let ?k = "nat (y mod fprime)"
  have bytes: "fe_to_bytes F ?b = le_of_nat 32 ?k" by (rule fe_to_bytes_rep [OF F y(1)])
  have small: "?k < 2 ^ 254" using y(3) by (simp add: fprime_def)
  have top: "le_of_nat 32 ?k ! 31 AND 63 = le_of_nat 32 ?k ! 31"
    using top_byte_small [OF small] by (simp add: nth_le_of_nat)
  have "repr[31 := (repr ! 31) AND 63] = le_of_nat 32 ?k"
    unfolding repr bytes using tweak_bits(1) [OF top, of tweak] by simp
  then have r: "r = y mod fprime"
    unfolding assms(4) bytes_val_def using small by (simp add: nat_of_le_of_nat)
  have r2: "(a * r\<^sup>2) mod fprime = (a * (y * y)) mod fprime" for a
    unfolding r power2_eq_square by (metis mod_mult_eq mod_mult_right_eq)
  have "(repr ! 31) AND 0xc0 = tweak AND 0xc0"
    unfolding repr bytes using tweak_bits(2) [OF top, of tweak] by simp
  moreover have "if ?c then (- 2 * U * r\<^sup>2) mod fprime = (U + 486662) mod fprime
     else (- 2 * (U + 486662) * r\<^sup>2) mod fprime = U mod fprime"
    unfolding r2 assms(5) using representative_square [OF s(2) y(2)] by auto
  ultimately show ?thesis using y(3) r unfolding repr bytes by simp
qed

lemma representative_equation_witness:
  "\<exists>repr u. u_to_representative ref_fiat u 0xc1 = Some repr \<and> length repr = 32 \<and>
     (repr ! 31) AND 0xc0 = 0xc0"
proof -
  let ?u = "[0x790cd459fd3b6, 0x130884a8bb2e9, 0x4e372ca9ca153, 0x1a29f7ee7b69e, 0x56ef6e9ab41d1] :: limbs"
  note F = ref_fiat_ok
  have u: "tight ?u" by (simp add: tight_def)
  have "(limbs_val ?u * (limbs_val ?u + 486662) * - 2) mod fprime = 1 mod fprime"
    by (simp add: fprime_def)
  then have "rep (fe_mul ref_fiat (fe_mul ref_fiat ?u (fe_add ref_fiat ?u (fe_a ref_fiat))) NEG_TWO) 1"
    using rep_cong [OF rep_mul [OF F rep_mul [OF F rep_value [OF u]
      rep_add [OF F rep_value [OF u] rep_fe_a [OF F]]] rep_NEG_TWO]] by blast
  from sqrt_ratio_one [OF F this]
  have "u_to_representative ref_fiat ?u 0xc1 \<noteq> None"
    by (auto simp: u_to_representative_def Let_def split: prod.splits)
  then obtain repr where some: "u_to_representative ref_fiat ?u 0xc1 = Some repr" by blast
  from representative_equation [OF F u some refl refl] show ?thesis
    by (intro exI [of _ repr] exI [of _ ?u] conjI some) simp_all
qed

end
