(* ===== verification/Ntor.thy ===== *)
theory Ntor
  imports Elligator Gorand
begin

text \<open>
  The obfs4 variant of Tor's ntor handshake, from
  \<open>src/shared/domain/crypto/ntor.rs\<close>: node identifiers, key pairs with and
  without an Elligator2 representative, and the two sides of the key agreement.
  The record \<open>crypto\<close> holds the third-party primitives: X25519 on byte strings
  (\<open>mul_base_clamped\<close>, \<open>mul_clamped\<close>), SHA-512, HMAC-SHA256, HKDF-SHA256 and hex.
\<close>

record 'p crypto =
  c_fiat :: fiat
  c_edwards :: "'p edwards"
  c_mul_base_clamped :: "bytes \<Rightarrow> bytes"
  c_mul_clamped :: "bytes \<Rightarrow> bytes \<Rightarrow> bytes"
  c_sha512 :: "bytes \<Rightarrow> bytes"
  c_hmac :: "bytes \<Rightarrow> bytes \<Rightarrow> bytes"
  c_hkdf :: "bytes \<Rightarrow> bytes \<Rightarrow> bytes \<Rightarrow> nat \<Rightarrow> bytes option"
  c_hex_encode :: "bytes \<Rightarrow> string"
  c_hex_decode :: "string \<Rightarrow> bytes option"

definition PUBLIC_KEY_LENGTH :: nat where "PUBLIC_KEY_LENGTH = 32"
definition REPRESENTATIVE_LENGTH :: nat where "REPRESENTATIVE_LENGTH = 32"
definition PRIVATE_KEY_LENGTH :: nat where "PRIVATE_KEY_LENGTH = 32"
definition NODE_ID_LENGTH :: nat where "NODE_ID_LENGTH = 20"
definition KEY_SEED_LENGTH :: nat where "KEY_SEED_LENGTH = 32"
definition AUTH_LENGTH :: nat where "AUTH_LENGTH = 32"

lemmas ntor_lengths [simp] = PUBLIC_KEY_LENGTH_def REPRESENTATIVE_LENGTH_def PRIVATE_KEY_LENGTH_def
  NODE_ID_LENGTH_def KEY_SEED_LENGTH_def AUTH_LENGTH_def

definition PROTO_ID :: bytes where "PROTO_ID = ascii ''ntor-curve25519-sha256-1''"
definition T_MAC :: bytes where "T_MAC = ascii ''ntor-curve25519-sha256-1:mac''"
definition T_KEY :: bytes where "T_KEY = ascii ''ntor-curve25519-sha256-1:key_extract''"
definition T_VERIFY :: bytes where "T_VERIFY = ascii ''ntor-curve25519-sha256-1:key_verify''"
definition M_EXPAND :: bytes where "M_EXPAND = ascii ''ntor-curve25519-sha256-1:key_expand''"

datatype key_error = NodeIdLength nat | PublicKeyLength nat | PrivateKeyLength nat | KeyHex

section \<open>Identifiers and keys\<close>

definition node_id_new :: "bytes \<Rightarrow> (bytes, key_error) res" where
  "node_id_new raw = (if length raw = NODE_ID_LENGTH then Ok raw else Err (NodeIdLength (length raw)))"

definition node_id_from_hex :: "'p crypto \<Rightarrow> string \<Rightarrow> (bytes, key_error) res" where
  "node_id_from_hex C encoded =
     (case c_hex_decode C encoded of None \<Rightarrow> Err KeyHex | Some raw \<Rightarrow> node_id_new raw)"

definition public_key_new :: "bytes \<Rightarrow> (bytes, key_error) res" where
  "public_key_new raw =
     (if length raw = PUBLIC_KEY_LENGTH then Ok raw else Err (PublicKeyLength (length raw)))"

definition public_key_from_hex :: "'p crypto \<Rightarrow> string \<Rightarrow> (bytes, key_error) res" where
  "public_key_from_hex C encoded =
     (case c_hex_decode C encoded of None \<Rightarrow> Err KeyHex | Some raw \<Rightarrow> public_key_new raw)"

definition representative_to_public :: "'p crypto \<Rightarrow> bytes \<Rightarrow> bytes" where
  "representative_to_public C repr = representative_to_public_key (c_fiat C) repr"

record keypair =
  kp_public :: bytes
  kp_private :: bytes
  kp_repr :: "bytes option"

text \<open>One iteration of \<open>Keypair::new\<close>; the outer \<open>None\<close> is the panic of \<open>scalar_base_mult\<close>.\<close>

definition keypair_from_random :: "'p crypto \<Rightarrow> bytes \<Rightarrow> bool \<Rightarrow> keypair option option" where
  "keypair_from_random C raw elligator =
     (let digest = c_sha512 C raw;
          private = take PRIVATE_KEY_LENGTH digest
      in if elligator then
           (case scalar_base_mult (c_fiat C) (c_edwards C) private (digest ! 63) of
              None \<Rightarrow> None
            | Some None \<Rightarrow> Some None
            | Some (Some (public, repr)) \<Rightarrow>
                Some (Some \<lparr>kp_public = public, kp_private = private, kp_repr = Some repr\<rparr>))
         else Some (Some \<lparr>kp_public = c_mul_base_clamped C private, kp_private = private, kp_repr = None\<rparr>))"

text \<open>\<open>Keypair::new\<close>: \<open>None\<close> when the loop never ends or panics.\<close>

partial_function (option) keypair_new ::
    "'p crypto \<Rightarrow> bool \<Rightarrow> (nat \<Rightarrow> bytes) \<Rightarrow> (keypair \<times> (nat \<Rightarrow> bytes)) option" where
  "keypair_new C elligator s =
     (case csrand_bytes PRIVATE_KEY_LENGTH s of (raw, s') \<Rightarrow>
        (case keypair_from_random C raw elligator of
           None \<Rightarrow> None
         | Some None \<Rightarrow> keypair_new C elligator s'
         | Some (Some kp) \<Rightarrow> Some (kp, s')))"

definition keypair_from_private :: "'p crypto \<Rightarrow> bytes \<Rightarrow> (keypair, key_error) res" where
  "keypair_from_private C raw =
     (if length raw = PRIVATE_KEY_LENGTH
      then Ok \<lparr>kp_public = c_mul_base_clamped C raw, kp_private = raw, kp_repr = None\<rparr>
      else Err (PrivateKeyLength (length raw)))"

definition keypair_from_hex :: "'p crypto \<Rightarrow> string \<Rightarrow> (keypair, key_error) res" where
  "keypair_from_hex C encoded =
     (case c_hex_decode C encoded of None \<Rightarrow> Err KeyHex | Some raw \<Rightarrow> keypair_from_private C raw)"

definition private_hex :: "'p crypto \<Rightarrow> keypair \<Rightarrow> string" where
  "private_hex C kp = c_hex_encode C (kp_private kp)"

section \<open>The handshake\<close>

definition x25519 :: "'p crypto \<Rightarrow> bytes \<Rightarrow> bytes \<Rightarrow> bytes" where
  "x25519 C scalar point = c_mul_clamped C point scalar"

definition is_zero :: "bytes \<Rightarrow> bool" where "is_zero x \<longleftrightarrow> x = replicate 32 0"

definition hmac_parts :: "'p crypto \<Rightarrow> bytes \<Rightarrow> bytes list \<Rightarrow> bytes" where
  "hmac_parts C key parts = c_hmac C key (concat parts)"

text \<open>The suffix holds \<open>B\<close> twice, as upstream's does.\<close>

definition ntor_common :: "'p crypto \<Rightarrow> bytes \<Rightarrow> bytes \<Rightarrow> bytes \<Rightarrow> bytes \<Rightarrow> bytes \<Rightarrow> bytes \<Rightarrow> bytes \<times> bytes" where
  "ntor_common C exp1 exp2 nid b x y =
     (let suffix = b @ b @ x @ y @ PROTO_ID @ nid;
          key_seed = hmac_parts C T_KEY [exp1, exp2, suffix];
          verify = hmac_parts C T_VERIFY [exp1, exp2, suffix];
          auth = hmac_parts C T_MAC [verify, suffix, ascii ''Server'']
      in (key_seed, auth))"

definition server_handshake :: "'p crypto \<Rightarrow> bytes \<Rightarrow> keypair \<Rightarrow> keypair \<Rightarrow> bytes \<Rightarrow> bool \<times> bytes \<times> bytes" where
  "server_handshake C client_public server_keypair id_keypair nid =
     (let exp1 = x25519 C (kp_private server_keypair) client_public;
          exp2 = x25519 C (kp_private id_keypair) client_public;
          not_ok = (is_zero exp1 \<or> is_zero exp2)
      in case ntor_common C exp1 exp2 nid (kp_public id_keypair) client_public (kp_public server_keypair)
         of (seed, auth) \<Rightarrow> (\<not> not_ok, seed, auth))"

definition client_handshake :: "'p crypto \<Rightarrow> keypair \<Rightarrow> bytes \<Rightarrow> bytes \<Rightarrow> bytes \<Rightarrow> bool \<times> bytes \<times> bytes" where
  "client_handshake C client_keypair server_public id_public nid =
     (let exp1 = x25519 C (kp_private client_keypair) server_public;
          exp2 = x25519 C (kp_private client_keypair) id_public;
          not_ok = (is_zero exp1 \<or> is_zero exp2)
      in case ntor_common C exp1 exp2 nid id_public (kp_public client_keypair) server_public
         of (seed, auth) \<Rightarrow> (\<not> not_ok, seed, auth))"

definition compare_auth :: "bytes \<Rightarrow> bytes \<Rightarrow> bool" where
  "compare_auth a b \<longleftrightarrow> length b = AUTH_LENGTH \<and> a = b"

definition ntor_kdf :: "'p crypto \<Rightarrow> bytes \<Rightarrow> nat \<Rightarrow> bytes option" where
  "ntor_kdf C key_seed okm_len = c_hkdf C T_KEY key_seed M_EXPAND okm_len"

section \<open>Key agreement\<close>

text \<open>The Diffie-Hellman law for two key pairs: each private key times the other
  public key is the same point.\<close>

definition dh_agree :: "'p crypto \<Rightarrow> keypair \<Rightarrow> keypair \<Rightarrow> bool" where
  "dh_agree C a b \<longleftrightarrow> c_mul_clamped C (kp_public b) (kp_private a) = c_mul_clamped C (kp_public a) (kp_private b)"

definition hmac_ok :: "'p crypto \<Rightarrow> bool" where
  "hmac_ok C \<longleftrightarrow> (\<forall>key msg. length (c_hmac C key msg) = 32)"

lemma length_hmac_parts [simp]: "hmac_ok C \<Longrightarrow> length (hmac_parts C key parts) = 32"
  by (simp add: hmac_ok_def hmac_parts_def)

lemma ntor_agree:
  assumes "dh_agree C client server" and "dh_agree C client identity"
  shows "client_handshake C client (kp_public server) (kp_public identity) nid =
    server_handshake C (kp_public client) server identity nid"
  using assms by (simp add: client_handshake_def server_handshake_def x25519_def dh_agree_def)

lemma server_auth_length:
  "hmac_ok C \<Longrightarrow> server_handshake C x server identity nid = (ok, seed, auth) \<Longrightarrow> length auth = 32"
  by (auto simp: server_handshake_def ntor_common_def Let_def)

lemma compare_auth_refl: "length a = 32 \<Longrightarrow> compare_auth a a"
  by (simp add: compare_auth_def)

lemma keypair_new_representative:
  assumes "keypair_new C True s = Some (kp, s')"
  shows "\<exists>raw. keypair_from_random C raw True = Some (Some kp)"
proof (rule keypair_new.raw_induct [where P = "\<lambda>C e s q. \<exists>raw. keypair_from_random C raw e = Some (Some (fst q))",
      OF _ assms, simplified fst_conv])
  fix rec C e s q
  assume IH: "\<And>C e s q. rec C e s = Some q \<Longrightarrow> \<exists>raw. keypair_from_random C raw e = Some (Some (fst q))"
    and eq: "(case csrand_bytes PRIVATE_KEY_LENGTH s of (raw, s') \<Rightarrow>
        (case keypair_from_random C raw e of None \<Rightarrow> None | Some None \<Rightarrow> rec C e s'
         | Some (Some kp) \<Rightarrow> Some (kp, s'))) = Some q"
  show "\<exists>raw. keypair_from_random C raw e = Some (Some (fst q))"
    using eq IH by (auto split: prod.splits option.splits)
qed

end
