(* ===== verification/ReplayFilter.thy ===== *)
theory ReplayFilter
  imports Prelude
begin

text \<open>
  The time-bounded replay filter of
  \<open>src/shared/domain/crypto/replayfilter.rs\<close>.  A digest (keyed SipHash of the
  handshake MAC, a parameter) is remembered until it is older than the time to
  live, until the filter is full, or until the clock runs backwards.  Times are
  integers of one unit (nanoseconds) relative to the Unix epoch, so
  \<open>now.duration_since(first_seen)\<close> is an error exactly when \<open>now < first_seen\<close>.
\<close>

definition MAX_FILTER_SIZE :: nat where
  "MAX_FILTER_SIZE = 100 * 1024"

record filter_inner =
  flt :: "u64 \<rightharpoonup> int"
  fifo :: "(u64 \<times> int) list"

definition filter_empty :: filter_inner where
  "filter_empty = \<lparr>flt = Map.empty, fifo = []\<rparr>"

text \<open>\<open>compact\<close>: the loop pops from the front of the queue.\<close>

function compact :: "int \<Rightarrow> int \<Rightarrow> filter_inner \<Rightarrow> filter_inner" where
  "compact ttl now st =
     (case fifo st of
        [] \<Rightarrow> st
      | (digest, first_seen) # rest \<Rightarrow>
          if length (fifo st) < MAX_FILTER_SIZE \<and> ttl \<noteq> 0 \<and> now < first_seen
          then filter_empty
          else if length (fifo st) < MAX_FILTER_SIZE \<and> ttl \<noteq> 0 \<and> now - first_seen < ttl
          then st
          else compact ttl now \<lparr>flt = (flt st)(digest := None), fifo = rest\<rparr>)"
  by pat_completeness auto
termination by (relation "measure (\<lambda>(ttl, now, st). length (fifo st))") auto

declare compact.simps [simp del]

text \<open>\<open>digest_of\<close> is SipHash-2-4 under the filter's key.\<close>

definition test_and_set :: "(bytes \<Rightarrow> u64) \<Rightarrow> int \<Rightarrow> int \<Rightarrow> bytes \<Rightarrow> filter_inner \<Rightarrow> bool \<times> filter_inner" where
  "test_and_set digest_of ttl now bs st =
     (let digest = digest_of bs;
          st' = compact ttl now st
      in if flt st' digest \<noteq> None then (True, st')
         else (False, \<lparr>flt = (flt st')(digest \<mapsto> now), fifo = fifo st' @ [(digest, now)]\<rparr>))"

section \<open>Invariant\<close>

text \<open>The map and the queue hold the same entries, each digest once, and the queue
  never exceeds the limit.\<close>

definition filter_inv :: "filter_inner \<Rightarrow> bool" where
  "filter_inv st \<longleftrightarrow> distinct (map fst (fifo st)) \<and> flt st = map_of (fifo st) \<and>
     length (fifo st) \<le> MAX_FILTER_SIZE"

lemma filter_inv_empty: "filter_inv filter_empty"
  by (simp add: filter_inv_def filter_empty_def)

lemma compact_result:
  assumes "filter_inv st"
  shows "filter_inv (compact ttl now st) \<and> length (fifo (compact ttl now st)) < MAX_FILTER_SIZE"
  using assms
proof (induction ttl now st rule: compact.induct)
  case (1 ttl now st)
  show ?case
  proof (cases "fifo st")
    case Nil
    with "1.prems" show ?thesis by (simp add: compact.simps [of ttl now st] MAX_FILTER_SIZE_def)
  next
    case (Cons e rest)
    obtain digest first_seen where e: "e = (digest, first_seen)" by force
    have "filter_inv \<lparr>flt = (flt st)(digest := None), fifo = rest\<rparr>"
      using "1.prems" Cons e by (auto simp: filter_inv_def map_of_eq_None_iff fun_upd_idem)
    with "1.IH" [OF Cons e [symmetric]] "1.prems" Cons e filter_inv_empty show ?thesis
      by (auto simp: compact.simps [of ttl now st] filter_empty_def MAX_FILTER_SIZE_def)
  qed
qed

lemma map_of_append_new: "k \<notin> fst ` set xs \<Longrightarrow> map_of (xs @ [(k, v)]) = (map_of xs)(k \<mapsto> v)"
  by (induction xs) (auto simp: fun_upd_twist simp del: map_of_append)

lemma test_and_set_inv:
  assumes "filter_inv st" and "test_and_set digest_of ttl now bs st = (seen, st')"
  shows "filter_inv st'"
proof -
  have inv: "filter_inv (compact ttl now st)" "length (fifo (compact ttl now st)) < MAX_FILTER_SIZE"
    using compact_result [OF assms(1)] by blast+
  show ?thesis
  proof (cases "flt (compact ttl now st) (digest_of bs) = None")
    case True
    with inv have "digest_of bs \<notin> fst ` set (fifo (compact ttl now st))"
      by (simp add: filter_inv_def map_of_eq_None_iff)
    moreover have "st' = \<lparr>flt = (flt (compact ttl now st))(digest_of bs \<mapsto> now),
        fifo = fifo (compact ttl now st) @ [(digest_of bs, now)]\<rparr>"
      using True assms(2) by (simp add: test_and_set_def Let_def)
    ultimately show ?thesis
      using inv by (auto simp: filter_inv_def map_of_append_new simp del: map_of_append)
  qed (use inv assms(2) in \<open>auto simp: test_and_set_def Let_def\<close>)
qed

section \<open>Replays within the time to live\<close>

text \<open>The queue is in the order of first sight and nothing in it is from the future.\<close>

definition filter_clock :: "int \<Rightarrow> filter_inner \<Rightarrow> bool" where
  "filter_clock now st \<longleftrightarrow> sorted (map snd (fifo st)) \<and> (\<forall>e\<in>set (fifo st). snd e \<le> now)"

text \<open>A sequence of calls, each with its time and its bytes.\<close>

fun run_filter :: "(bytes \<Rightarrow> u64) \<Rightarrow> int \<Rightarrow> (int \<times> bytes) list \<Rightarrow> filter_inner \<Rightarrow> filter_inner" where
  "run_filter digest_of ttl [] st = st"
| "run_filter digest_of ttl ((now, bs) # calls) st =
     run_filter digest_of ttl calls (snd (test_and_set digest_of ttl now bs st))"

lemma compact_keeps_recent:
  assumes "filter_clock now st" and "length (fifo st) < MAX_FILTER_SIZE"
    and "e \<in> set (fifo st)" and "now - snd e < ttl"
  shows "e \<in> set (fifo (compact ttl now st)) \<and> filter_clock now (compact ttl now st) \<and>
    length (fifo (compact ttl now st)) \<le> length (fifo st)"
  using assms
proof (induction ttl now st rule: compact.induct)
  case (1 ttl now st)
  obtain digest first_seen rest where st: "fifo st = (digest, first_seen) # rest"
    using "1.prems"(3) by (cases "fifo st") auto
  have le: "first_seen \<le> now" "first_seen \<le> snd e"
    using "1.prems"(1,3) st by (auto simp: filter_clock_def)
  show ?case
  proof (cases "now - first_seen < ttl")
    case True
    with "1.prems" st le show ?thesis by (simp add: compact.simps [of ttl now st])
  next
    case False
    with "1.prems" le have "e \<in> set rest" using st by auto
    then have "e \<in> set (fifo (compact ttl now \<lparr>flt = (flt st)(digest := None), fifo = rest\<rparr>)) \<and>
       filter_clock now (compact ttl now \<lparr>flt = (flt st)(digest := None), fifo = rest\<rparr>) \<and>
       length (fifo (compact ttl now \<lparr>flt = (flt st)(digest := None), fifo = rest\<rparr>)) \<le> length rest"
      using "1.IH" [OF st refl] "1.prems" st le False by (simp add: filter_clock_def)
    with False le st "1.prems"(2) show ?thesis by (simp add: compact.simps [of ttl now st])
  qed
qed

lemma compact_clock:
  assumes "filter_clock now st"
  shows "filter_clock now (compact ttl now st) \<and> length (fifo (compact ttl now st)) \<le> length (fifo st)"
  using assms
proof (induction ttl now st rule: compact.induct)
  case (1 ttl now st)
  show ?case
  proof (cases "fifo st")
    case (Cons e rest)
    obtain digest first_seen where e: "e = (digest, first_seen)" by force
    have "filter_clock now \<lparr>flt = (flt st)(digest := None), fifo = rest\<rparr>"
      using "1.prems" Cons by (simp add: filter_clock_def)
    with "1.IH" [OF Cons e [symmetric]] "1.prems" Cons e show ?thesis
      by (fastforce simp: compact.simps [of ttl now st] filter_empty_def filter_clock_def)
  qed (use "1.prems" in \<open>simp add: compact.simps [of ttl now st]\<close>)
qed

lemma test_and_set_keeps_recent:
  assumes "filter_clock now st" and "length (fifo st) < MAX_FILTER_SIZE"
    and "e \<in> set (fifo st)" and "now - snd e < ttl"
  shows "e \<in> set (fifo (snd (test_and_set digest_of ttl now bs st))) \<and>
    filter_clock now (snd (test_and_set digest_of ttl now bs st)) \<and>
    length (fifo (snd (test_and_set digest_of ttl now bs st))) \<le> Suc (length (fifo st))"
  using compact_keeps_recent [OF assms]
  by (auto simp: test_and_set_def Let_def filter_clock_def sorted_append)

lemma filter_clock_mono: "filter_clock now st \<Longrightarrow> now \<le> later \<Longrightarrow> filter_clock later st"
  by (auto simp: filter_clock_def)

lemma run_filter_keeps_recent:
  assumes "sorted (map fst calls)" and "\<forall>c\<in>set calls. now \<le> fst c \<and> fst c - snd e < ttl"
    and "filter_clock now st" and "length (fifo st) + length calls < MAX_FILTER_SIZE"
    and "filter_inv st" and "e \<in> set (fifo st)"
  shows "e \<in> set (fifo (run_filter digest_of ttl calls st)) \<and>
    filter_inv (run_filter digest_of ttl calls st) \<and>
    (\<exists>t. filter_clock t (run_filter digest_of ttl calls st) \<and> t \<in> insert now (fst ` set calls)) \<and>
    length (fifo (run_filter digest_of ttl calls st)) < MAX_FILTER_SIZE"
  using assms
proof (induction calls arbitrary: st now)
  case (Cons c calls)
  obtain t bs where c: "c = (t, bs)" by force
  let ?st = "snd (test_and_set digest_of ttl t bs st)"
  have "filter_clock t st" using Cons.prems c filter_clock_mono by fastforce
  then have keep: "e \<in> set (fifo ?st) \<and> filter_clock t ?st \<and> length (fifo ?st) \<le> Suc (length (fifo st))"
    using Cons.prems c by (intro test_and_set_keeps_recent) auto
  have "filter_inv ?st" using test_and_set_inv [OF Cons.prems(5)] by (metis prod.collapse)
  have "sorted (map fst calls)" "\<forall>c'\<in>set calls. t \<le> fst c' \<and> fst c' - snd e < ttl"
      "length (fifo ?st) + length calls < MAX_FILTER_SIZE"
    using Cons.prems(1,2,4) keep c by auto
  then have "e \<in> set (fifo (run_filter digest_of ttl calls ?st)) \<and>
    filter_inv (run_filter digest_of ttl calls ?st) \<and>
    (\<exists>t'. filter_clock t' (run_filter digest_of ttl calls ?st) \<and> t' \<in> insert t (fst ` set calls)) \<and>
    length (fifo (run_filter digest_of ttl calls ?st)) < MAX_FILTER_SIZE"
    using Cons.IH [of t ?st] keep \<open>filter_inv ?st\<close> by blast
  then show ?case by (auto simp: c)
qed auto

text \<open>
  A handshake accepted as new at time \<open>t0\<close> is reported as seen by every later
  call within the time to live, whatever calls with other handshakes come in
  between, as long as the clock does not run backwards and the filter does not
  overflow.
\<close>

lemma replay_detected:
  assumes "filter_inv st" and "filter_clock t0 st"
    and "test_and_set digest_of ttl t0 bs st = (False, st1)"
    and "sorted (t0 # map fst calls @ [t])" and "t - t0 < ttl"
    and "length (fifo st) + length calls + 1 < MAX_FILTER_SIZE"
  shows "fst (test_and_set digest_of ttl t bs (run_filter digest_of ttl calls st1))"
proof -
  let ?e = "(digest_of bs, t0)" and ?st = "run_filter digest_of ttl calls st1"
  have st1: "fifo st1 = fifo (compact ttl t0 st) @ [?e]"
    using assms(3) by (auto simp: test_and_set_def Let_def split: if_splits)
  have "filter_clock t0 st1 \<and> length (fifo st1) \<le> Suc (length (fifo st))"
    using compact_clock [OF assms(2)] st1 by (auto simp: filter_clock_def sorted_append)
  moreover have "filter_inv st1" using test_and_set_inv assms(1,3) by blast
  moreover have "\<forall>c\<in>set calls. t0 \<le> fst c \<and> fst c \<le> t"
    using assms(4) by (auto simp: sorted_append)
  ultimately have run: "?e \<in> set (fifo ?st)" "filter_inv ?st" "length (fifo ?st) < MAX_FILTER_SIZE"
      "filter_clock t ?st"
    using run_filter_keeps_recent [of calls t0 ?e ttl st1 digest_of] assms(4,5,6) st1
      filter_clock_mono by (fastforce simp: sorted_append)+
  have "?e \<in> set (fifo (compact ttl t ?st))"
    using compact_keeps_recent [OF run(4,3,1)] assms(5) by simp
  moreover have "filter_inv (compact ttl t ?st)" using compact_result [OF run(2)] by blast
  ultimately show ?thesis
    by (auto simp: test_and_set_def Let_def filter_inv_def)
qed

end
