(* ===== verification/Handshake.thy ===== *)
theory Handshake
  imports Ntor ReplayFilter Packet
begin

text \<open>
  obfs4 handshake messages, from \<open>src/transports/obfs4/domain/handshake.rs\<close>.
  Times are nanoseconds relative to the Unix epoch.  The randomness of the
  operating system is threaded as in \<open>Gorand\<close>; a result \<open>None\<close> inside \<open>Ok\<close> is a
  rejection loop that never ends, \<open>Panic\<close> is a failed \<open>expect\<close>.
\<close>

definition MAX_HANDSHAKE_LENGTH :: nat where "MAX_HANDSHAKE_LENGTH = 8192"
definition MARK_LENGTH :: nat where "MARK_LENGTH = 32 div 2"
definition MAC_LENGTH :: nat where "MAC_LENGTH = 32 div 2"
definition CLIENT_MIN_HANDSHAKE_LENGTH :: nat where
  "CLIENT_MIN_HANDSHAKE_LENGTH = REPRESENTATIVE_LENGTH + MARK_LENGTH + MAC_LENGTH"
definition SERVER_MIN_HANDSHAKE_LENGTH :: nat where
  "SERVER_MIN_HANDSHAKE_LENGTH = REPRESENTATIVE_LENGTH + AUTH_LENGTH + MARK_LENGTH + MAC_LENGTH"
definition INLINE_SEED_FRAME_LENGTH :: nat where
  "INLINE_SEED_FRAME_LENGTH = FRAME_OVERHEAD + PACKET_OVERHEAD + SEED_PACKET_PAYLOAD_LENGTH"
definition CLIENT_MIN_PAD_LENGTH :: nat where
  "CLIENT_MIN_PAD_LENGTH =
     (SERVER_MIN_HANDSHAKE_LENGTH + INLINE_SEED_FRAME_LENGTH) - CLIENT_MIN_HANDSHAKE_LENGTH"
definition CLIENT_MAX_PAD_LENGTH :: nat where
  "CLIENT_MAX_PAD_LENGTH = MAX_HANDSHAKE_LENGTH - CLIENT_MIN_HANDSHAKE_LENGTH"
definition SERVER_MIN_PAD_LENGTH :: nat where "SERVER_MIN_PAD_LENGTH = 0"
definition SERVER_MAX_PAD_LENGTH :: nat where
  "SERVER_MAX_PAD_LENGTH =
     MAX_HANDSHAKE_LENGTH - (SERVER_MIN_HANDSHAKE_LENGTH + INLINE_SEED_FRAME_LENGTH)"

lemma handshake_consts [simp]:
  "MAX_HANDSHAKE_LENGTH = 8192" "MARK_LENGTH = 16" "MAC_LENGTH = 16"
  "CLIENT_MIN_HANDSHAKE_LENGTH = 64" "SERVER_MIN_HANDSHAKE_LENGTH = 96"
  "INLINE_SEED_FRAME_LENGTH = 45" "CLIENT_MIN_PAD_LENGTH = 77" "CLIENT_MAX_PAD_LENGTH = 8128"
  "SERVER_MIN_PAD_LENGTH = 0" "SERVER_MAX_PAD_LENGTH = 8051"
  by (simp_all add: MAX_HANDSHAKE_LENGTH_def MARK_LENGTH_def MAC_LENGTH_def
      CLIENT_MIN_HANDSHAKE_LENGTH_def SERVER_MIN_HANDSHAKE_LENGTH_def INLINE_SEED_FRAME_LENGTH_def
      CLIENT_MIN_PAD_LENGTH_def CLIENT_MAX_PAD_LENGTH_def SERVER_MIN_PAD_LENGTH_def
      SERVER_MAX_PAD_LENGTH_def)

datatype handshake_error =
    MarkNotFoundYet
  | InvalidHandshake
  | ReplayedHandshake
  | NtorFailed
  | InvalidMac string string
  | InvalidAuth string string

text \<open>\<open>duration_since(UNIX_EPOCH)\<close> is an error before the epoch, which counts as 0.\<close>

definition epoch_hour :: "int \<Rightarrow> int" where
  "epoch_hour now = (if now < 0 then 0 else now div 10 ^ 9) div 3600"

definition hmac16 :: "'p crypto \<Rightarrow> bytes \<Rightarrow> bytes list \<Rightarrow> bytes" where
  "hmac16 C key parts = take 16 (hmac_parts C key parts)"

definition make_pad :: "nat \<Rightarrow> (nat \<Rightarrow> bytes) \<Rightarrow> bytes \<times> (nat \<Rightarrow> bytes)" where
  "make_pad len s = csrand_bytes len s"

definition mac_key_of :: "bytes \<Rightarrow> bytes \<Rightarrow> bytes" where
  "mac_key_of identity node_id = identity @ node_id"

section \<open>Locating the mark\<close>

definition find_window :: "bytes \<Rightarrow> bytes \<Rightarrow> nat option" where
  "find_window mark xs = find (\<lambda>p. slice p (p + MARK_LENGTH) xs = mark) [0..<length xs + 1 - MARK_LENGTH]"

definition find_mark_mac :: "bytes \<Rightarrow> bytes \<Rightarrow> nat \<Rightarrow> nat \<Rightarrow> bool \<Rightarrow> nat option" where
  "find_mark_mac mark buf start_pos max_pos from_tail =
     (if length buf < start_pos then None
      else
        let end_pos = min (length buf) max_pos
        in if end_pos < start_pos \<or> end_pos - start_pos < MARK_LENGTH + MAC_LENGTH then None
           else if from_tail then
             let pos = end_pos - (MARK_LENGTH + MAC_LENGTH)
             in if slice pos (pos + MARK_LENGTH) buf = mark then Some pos else None
           else
             (case find_window mark (slice start_pos end_pos buf) of
                None \<Rightarrow> None
              | Some pos \<Rightarrow>
                  if end_pos < start_pos + pos + MARK_LENGTH + MAC_LENGTH then None
                  else Some (start_pos + pos)))"

section \<open>The client\<close>

record client_hs =
  ch_keypair :: keypair
  ch_node_id :: bytes
  ch_server_identity :: bytes
  ch_epoch_hour :: string
  ch_pad_len :: nat
  ch_mac_key :: bytes
  ch_server :: "(bytes \<times> bytes \<times> bytes) option"

definition client_hs_new :: "bytes \<Rightarrow> bytes \<Rightarrow> keypair \<Rightarrow> (nat \<Rightarrow> bytes) \<Rightarrow>
    ((client_hs \<times> (nat \<Rightarrow> bytes)) option, unit) res" where
  "client_hs_new node_id server_identity session_key s =
     map_ok (map_option (\<lambda>(n, s).
         (\<lparr>ch_keypair = session_key, ch_node_id = node_id, ch_server_identity = server_identity,
           ch_epoch_hour = [], ch_pad_len = nat n, ch_mac_key = mac_key_of server_identity node_id,
           ch_server = None\<rparr>, s)))
       (csrand_int_range (int CLIENT_MIN_PAD_LENGTH) (int CLIENT_MAX_PAD_LENGTH) s)"

text \<open>\<open>None\<close>: the session key has no representative.\<close>

definition client_hs_generate :: "'p crypto \<Rightarrow> int \<Rightarrow> client_hs \<Rightarrow> (nat \<Rightarrow> bytes) \<Rightarrow>
    (bytes \<times> client_hs \<times> (nat \<Rightarrow> bytes)) option" where
  "client_hs_generate C now hs s =
     (case kp_repr (ch_keypair hs) of
        None \<Rightarrow> None
      | Some repr \<Rightarrow>
          let mark = hmac16 C (ch_mac_key hs) [repr];
              (pad, s) = make_pad (ch_pad_len hs) s;
              buf = repr @ pad @ mark;
              hs = hs\<lparr>ch_epoch_hour := dec_int (epoch_hour now)\<rparr>;
              mac = hmac16 C (ch_mac_key hs) [buf, ascii (ch_epoch_hour hs)]
          in Some (buf @ mac, hs, s))"

definition client_parse_server :: "'p crypto \<Rightarrow> bytes \<Rightarrow> client_hs \<Rightarrow>
    (nat \<times> bytes, handshake_error) res \<times> client_hs" where
  "client_parse_server C resp hs =
     (if length resp < SERVER_MIN_HANDSHAKE_LENGTH then (Err MarkNotFoundYet, hs)
      else
        let (repr, auth, mark) =
              (case ch_server hs of
                 Some x \<Rightarrow> x
               | None \<Rightarrow>
                   let repr = slice 0 REPRESENTATIVE_LENGTH resp
                   in (repr, slice REPRESENTATIVE_LENGTH (REPRESENTATIVE_LENGTH + AUTH_LENGTH) resp,
                       hmac16 C (ch_mac_key hs) [repr]));
            hs = hs\<lparr>ch_server := Some (repr, auth, mark)\<rparr>
        in case find_mark_mac mark resp (REPRESENTATIVE_LENGTH + AUTH_LENGTH + SERVER_MIN_PAD_LENGTH)
                  MAX_HANDSHAKE_LENGTH False of
             None \<Rightarrow>
               (Err (if MAX_HANDSHAKE_LENGTH \<le> length resp then InvalidHandshake else MarkNotFoundYet), hs)
           | Some pos \<Rightarrow>
               let derived = hmac16 C (ch_mac_key hs) [slice 0 (pos + MARK_LENGTH) resp, ascii (ch_epoch_hour hs)];
                   received = slice (pos + MARK_LENGTH) (pos + MARK_LENGTH + MAC_LENGTH) resp
               in if derived \<noteq> received
                  then (Err (InvalidMac (c_hex_encode C derived) (c_hex_encode C received)), hs)
                  else
                    let server_public = representative_to_public C repr;
                        (ok, seed, derived_auth) =
                          client_handshake C (ch_keypair hs) server_public (ch_server_identity hs) (ch_node_id hs)
                    in if \<not> ok then (Err NtorFailed, hs)
                       else if \<not> compare_auth derived_auth auth
                       then (Err (InvalidAuth (c_hex_encode C derived_auth) (c_hex_encode C auth)), hs)
                       else (Ok (pos + MARK_LENGTH + MAC_LENGTH, seed), hs))"

section \<open>The server\<close>

record server_hs =
  sh_keypair :: keypair
  sh_node_id :: bytes
  sh_server_identity :: keypair
  sh_epoch_hour :: string
  sh_server_auth :: bytes
  sh_pad_len :: nat
  sh_mac_key :: bytes
  sh_client :: "bytes option"

definition server_hs_new :: "bytes \<Rightarrow> keypair \<Rightarrow> keypair \<Rightarrow> (nat \<Rightarrow> bytes) \<Rightarrow>
    ((server_hs \<times> (nat \<Rightarrow> bytes)) option, unit) res" where
  "server_hs_new node_id server_identity session_key s =
     map_ok (map_option (\<lambda>(n, s).
         (\<lparr>sh_keypair = session_key, sh_node_id = node_id, sh_server_identity = server_identity,
           sh_epoch_hour = [], sh_server_auth = replicate AUTH_LENGTH 0, sh_pad_len = nat n,
           sh_mac_key = mac_key_of (kp_public server_identity) node_id, sh_client = None\<rparr>, s)))
       (csrand_int_range (int SERVER_MIN_PAD_LENGTH) (int SERVER_MAX_PAD_LENGTH) s)"

text \<open>The replay filter as the server holds it: its digest function, time to live
  and contents.\<close>

record replay_filter =
  rf_digest :: "bytes \<Rightarrow> u64"
  rf_ttl :: int
  rf_inner :: filter_inner

definition rf_test_and_set :: "int \<Rightarrow> bytes \<Rightarrow> replay_filter \<Rightarrow> bool \<times> replay_filter" where
  "rf_test_and_set now bs f =
     (case test_and_set (rf_digest f) (rf_ttl f) now bs (rf_inner f) of
        (seen, inner) \<Rightarrow> (seen, f\<lparr>rf_inner := inner\<rparr>))"

text \<open>The loop over the candidate hours; the first component says that a replay
  ended it, the second is \<open>mac_found\<close>.\<close>

fun try_hours :: "'p crypto \<Rightarrow> bytes \<Rightarrow> bytes \<Rightarrow> int \<Rightarrow> int \<Rightarrow> int list \<Rightarrow> bool \<Rightarrow> replay_filter \<Rightarrow> server_hs \<Rightarrow>
    bool \<times> bool \<times> replay_filter \<times> server_hs" where
  "try_hours C msg received now hour [] mac_found f hs = (False, mac_found, f, hs)"
| "try_hours C msg received now hour (off # offs) mac_found f hs =
     (let candidate = dec_int (hour + off);
          derived = hmac16 C (sh_mac_key hs) [msg, ascii candidate]
      in if derived = received then
           (case rf_test_and_set now received f of (seen, f) \<Rightarrow>
              if seen then (True, mac_found, f, hs)
              else try_hours C msg received now hour offs True f (hs\<lparr>sh_epoch_hour := candidate\<rparr>))
         else try_hours C msg received now hour offs mac_found f hs)"

definition server_parse_client :: "'p crypto \<Rightarrow> bytes \<Rightarrow> int \<Rightarrow> replay_filter \<Rightarrow> server_hs \<Rightarrow>
    (bytes, handshake_error) res \<times> replay_filter \<times> server_hs" where
  "server_parse_client C resp now f hs =
     (if length resp < CLIENT_MIN_HANDSHAKE_LENGTH then (Err MarkNotFoundYet, f, hs)
      else
        let mark = (case sh_client hs of
                      Some m \<Rightarrow> m
                    | None \<Rightarrow> hmac16 C (sh_mac_key hs) [slice 0 REPRESENTATIVE_LENGTH resp]);
            hs = hs\<lparr>sh_client := Some mark\<rparr>
        in case find_mark_mac mark resp (REPRESENTATIVE_LENGTH + CLIENT_MIN_PAD_LENGTH)
                  MAX_HANDSHAKE_LENGTH True of
             None \<Rightarrow>
               (Err (if MAX_HANDSHAKE_LENGTH \<le> length resp then InvalidHandshake else MarkNotFoundYet), f, hs)
           | Some pos \<Rightarrow>
               let received = slice (pos + MARK_LENGTH) (pos + MARK_LENGTH + MAC_LENGTH) resp;
                   (replayed, mac_found, f, hs) =
                     try_hours C (slice 0 (pos + MARK_LENGTH) resp) received now (epoch_hour now)
                       [0, -1, 1] False f hs
               in if replayed then (Err ReplayedHandshake, f, hs)
                  else if \<not> mac_found then (Err InvalidHandshake, f, hs)
                  else if length resp \<noteq> pos + MARK_LENGTH + MAC_LENGTH then (Err InvalidHandshake, f, hs)
                  else
                    let client_repr = slice 0 REPRESENTATIVE_LENGTH resp;
                        client_public = representative_to_public C client_repr;
                        (ok, seed, auth) =
                          server_handshake C client_public (sh_keypair hs) (sh_server_identity hs) (sh_node_id hs)
                    in if \<not> ok then (Err NtorFailed, f, hs)
                       else (Ok seed, f, hs\<lparr>sh_server_auth := auth\<rparr>))"

definition server_hs_generate :: "'p crypto \<Rightarrow> server_hs \<Rightarrow> (nat \<Rightarrow> bytes) \<Rightarrow> (bytes \<times> (nat \<Rightarrow> bytes)) option" where
  "server_hs_generate C hs s =
     (case kp_repr (sh_keypair hs) of
        None \<Rightarrow> None
      | Some repr \<Rightarrow>
          let mark = hmac16 C (sh_mac_key hs) [repr];
              (pad, s) = make_pad (sh_pad_len hs) s;
              buf = repr @ sh_server_auth hs @ pad @ mark;
              mac = hmac16 C (sh_mac_key hs) [buf, ascii (sh_epoch_hour hs)]
          in Some (buf @ mac, s))"

section \<open>Where the mark is found\<close>

lemma length_hmac16 [simp]: "hmac_ok C \<Longrightarrow> length (hmac16 C key parts) = 16"
  by (simp add: hmac16_def)

lemma slice_slice: "s + q + n \<le> e \<Longrightarrow> slice q (q + n) (slice s e xs) = slice (s + q) (s + q + n) xs"
  by (simp add: slice_def take_drop min_def add.commute)

lemma find_upt_Some_iff:
  "find P [0..<n] = Some p \<longleftrightarrow> p < n \<and> P p \<and> (\<forall>q<p. \<not> P q)"
  by (auto simp: find_Some_iff)

lemma find_window_Some_iff:
  assumes "s \<le> e" and "e \<le> length xs"
  shows "find_window mark (slice s e xs) = Some p \<longleftrightarrow>
    s + p + 16 \<le> e \<and> slice (s + p) (s + p + 16) xs = mark \<and>
    (\<forall>q<p. slice (s + q) (s + q + 16) xs \<noteq> mark)"
proof -
  have "slice q (q + 16) (slice s e xs) = slice (s + q) (s + q + 16) xs" if "s + q + 16 \<le> e" for q
    using slice_slice [OF that, of xs] by (simp add: add.assoc)
  moreover have "p < length (slice s e xs) + 1 - 16 \<longleftrightarrow> s + p + 16 \<le> e" for p
    using assms by auto
  ultimately show ?thesis
    unfolding find_window_def find_upt_Some_iff handshake_consts by fastforce
qed

lemma find_mark_mac_iff:
  "find_mark_mac mark buf s mx False = Some p \<longleftrightarrow>
     s \<le> p \<and> p + 32 \<le> min (length buf) mx \<and> slice p (p + 16) buf = mark \<and>
     (\<forall>q\<in>{s..<p}. slice q (q + 16) buf \<noteq> mark)"
proof (cases "s + 32 \<le> min (length buf) mx")
  case True
  let ?e = "min (length buf) mx"
  have "find_mark_mac mark buf s mx False = Some p \<longleftrightarrow>
      (\<exists>k. find_window mark (slice s ?e buf) = Some k \<and> p = s + k \<and> s + k + 32 \<le> ?e)"
    using True by (auto simp: find_mark_mac_def Let_def split: option.splits)
  also have "\<dots> \<longleftrightarrow> (\<exists>k. p = s + k \<and> s + k + 32 \<le> ?e \<and> slice (s + k) (s + k + 16) buf = mark \<and>
      (\<forall>q<k. slice (s + q) (s + q + 16) buf \<noteq> mark))"
    using True by (auto simp: find_window_Some_iff)
  also have "\<dots> \<longleftrightarrow> s \<le> p \<and> p + 32 \<le> ?e \<and> slice p (p + 16) buf = mark \<and>
     (\<forall>q\<in>{s..<p}. slice q (q + 16) buf \<noteq> mark)"
  proof safe
    fix q k
    assume "\<forall>q<k. slice (s + q) (s + q + 16) buf \<noteq> slice (s + k) (s + k + 16) buf" "q \<in> {s..<s + k}"
      "slice q (q + 16) buf = slice (s + k) (s + k + 16) buf"
    then show False by (metis add.commute atLeastLessThan_iff less_diff_conv2 le_add_diff_inverse)
  next
    assume *: "s \<le> p" "p + 32 \<le> ?e" "mark = slice p (p + 16) buf"
      "\<forall>q\<in>{s..<p}. slice q (q + 16) buf \<noteq> slice p (p + 16) buf"
    then show "\<exists>k. p = s + k \<and> s + k + 32 \<le> ?e \<and> slice (s + k) (s + k + 16) buf = slice p (p + 16) buf \<and>
      (\<forall>q<k. slice (s + q) (s + q + 16) buf \<noteq> slice p (p + 16) buf)"
      by (intro exI [of _ "p - s"]) auto
  qed auto
  finally show ?thesis .
next
  case False
  then show ?thesis by (auto simp: find_mark_mac_def Let_def)
qed

lemma find_mark_mac_tail:
  assumes "length mark = 16" and "length mac = 16" and "s \<le> length pre" and "length pre + 32 \<le> mx"
  shows "find_mark_mac mark (pre @ mark @ mac) s mx True = Some (length pre)"
  using assms slice_mid [of "length pre" pre "length pre + 16" mark mac]
  by (simp add: find_mark_mac_def Let_def min_def)

section \<open>Accepting a client\<close>

text \<open>No two hours of the range give the same MAC of the message.\<close>

definition macs_distinct :: "'p crypto \<Rightarrow> bytes \<Rightarrow> bytes \<Rightarrow> int \<Rightarrow> int \<Rightarrow> bool" where
  "macs_distinct C key msg lo hi \<longleftrightarrow> inj_on (\<lambda>h. hmac16 C key [msg, ascii (dec_int h)]) {lo..hi}"

lemma macs_distinctD:
  "macs_distinct C key msg lo hi \<Longrightarrow> h \<in> {lo..hi} \<Longrightarrow> h' \<in> {lo..hi} \<Longrightarrow>
     hmac16 C key [msg, ascii (dec_int h)] = hmac16 C key [msg, ascii (dec_int h')] \<longleftrightarrow> h = h'"
  by (auto simp: macs_distinct_def inj_on_def)

lemma try_hours_accept:
  assumes "macs_distinct C (sh_mac_key hs) msg (hour - 1) (hour + 1)"
    and "H \<in> {hour - 1..hour + 1}" and "received = hmac16 C (sh_mac_key hs) [msg, ascii (dec_int H)]"
    and "rf_test_and_set now received f = (False, f')"
  shows "try_hours C msg received now hour [0, -1, 1] False f hs =
    (False, True, f', hs\<lparr>sh_epoch_hour := dec_int H\<rparr>)"
proof -
  have same: "hmac16 C (sh_mac_key hs) [msg, ascii (dec_int h)] = received \<longleftrightarrow> h = H"
    if "h \<in> {hour - 1..hour + 1}" for h
    using macs_distinctD [OF assms(1) that assms(2)] assms(3) by simp
  from assms(2) consider "H = hour" | "H = hour - 1" | "H = hour + 1" by fastforce
  then show ?thesis
    using same [of hour] same [of "hour - 1"] same [of "hour + 1"] assms(4)
    by cases (auto simp: Let_def)
qed

lemma try_hours_found:
  assumes "macs_distinct C (sh_mac_key hs) msg (hour - 1) (hour + 1)"
    and "try_hours C msg received now hour [0, -1, 1] False f hs = (False, True, f', hs')"
  shows "\<exists>H\<in>{hour - 1..hour + 1}. hmac16 C (sh_mac_key hs) [msg, ascii (dec_int H)] = received \<and>
    rf_test_and_set now received f = (False, f')"
proof -
  let ?mac = "\<lambda>h. hmac16 C (sh_mac_key hs) [msg, ascii (dec_int h)]"
  have range: "hour \<in> {hour - 1..hour + 1}" "hour - 1 \<in> {hour - 1..hour + 1}" "hour + 1 \<in> {hour - 1..hour + 1}"
    by simp_all
  note ne = macs_distinctD [OF assms(1) range(1) range(2)] macs_distinctD [OF assms(1) range(1) range(3)]
    macs_distinctD [OF assms(1) range(2) range(3)]
  have "\<exists>H\<in>{hour - 1..hour + 1}. ?mac H = received"
    using assms(2) by (auto simp: Let_def split: if_splits)
  then obtain H where H: "H \<in> {hour - 1..hour + 1}" "?mac H = received" by blast
  obtain seen f'' where t: "rf_test_and_set now received f = (seen, f'')" by force
  show ?thesis
  proof (cases seen)
    case False
    with t try_hours_accept [OF assms(1) H(1) H(2) [symmetric], of now f f''] assms(2) H
    show ?thesis by auto
  next
    case True
    from H(1) consider "H = hour" | "H = hour - 1" | "H = hour + 1" by fastforce
    then have False
      using t True assms(2) H(2) ne by cases (auto simp: Let_def split: if_splits)
    then show ?thesis ..
  qed
qed

lemma try_hours_keeps:
  "try_hours C msg received now hour offs mac_found f hs = (replayed, found, f', hs') \<Longrightarrow>
     sh_mac_key hs' = sh_mac_key hs \<and> sh_keypair hs' = sh_keypair hs \<and>
     sh_server_identity hs' = sh_server_identity hs \<and> sh_node_id hs' = sh_node_id hs"
  by (induction offs arbitrary: mac_found f hs)
    (auto simp: Let_def split: if_splits prod.splits)

lemma find_mark_mac_tail_pos:
  assumes "find_mark_mac mark buf s mx True = Some p"
  shows "p + 32 = min (length buf) mx \<and> s \<le> p"
  using assms by (auto simp: find_mark_mac_def Let_def split: if_splits)

text \<open>What an accepted message went through.\<close>

lemma server_parse_Ok:
  assumes "server_parse_client C resp now f hs = (Ok seed, f', hs')"
  shows "\<exists>hs1 hs2. sh_mac_key hs1 = sh_mac_key hs \<and>
    try_hours C (slice 0 (length resp - 16) resp) (slice (length resp - 16) (length resp) resp)
      now (epoch_hour now) [0, -1, 1] False f hs1 = (False, True, f', hs2)"
proof -
  let ?mark = "case sh_client hs of Some m \<Rightarrow> m
    | None \<Rightarrow> hmac16 C (sh_mac_key hs) [slice 0 REPRESENTATIVE_LENGTH resp]"
  obtain pos where pos: "find_mark_mac ?mark resp (REPRESENTATIVE_LENGTH + CLIENT_MIN_PAD_LENGTH)
      MAX_HANDSHAKE_LENGTH True = Some pos"
    using assms unfolding server_parse_client_def Let_def
    by (auto split: if_splits option.splits)
  obtain replayed found f1 hs1 where t: "try_hours C (slice 0 (pos + 16) resp)
      (slice (pos + 16) (pos + 16 + 16) resp) now (epoch_hour now) [0, -1, 1] False f
      (hs\<lparr>sh_client := Some ?mark\<rparr>) = (replayed, found, f1, hs1)"
    by (metis prod_cases4)
  have *: "\<not> replayed \<and> found \<and> length resp = pos + 32 \<and> f' = f1"
    using assms pos t unfolding server_parse_client_def Let_def
    by (auto simp del: try_hours.simps split: if_splits prod.splits)
  then have eqs: "pos + 16 = length resp - 16" "pos + 16 + 16 = length resp" by simp_all
  have r: "replayed = False" "found = True" "f1 = f'" using * by simp_all
  show ?thesis
    using t [unfolded eqs(2), unfolded eqs(1) r]
    by (intro exI [of _ "hs\<lparr>sh_client := Some ?mark\<rparr>"] exI [of _ hs1] conjI) simp_all
qed

lemma epoch_hour_window:
  assumes "0 \<le> t" and "t \<le> t'" and "epoch_hour t' \<le> epoch_hour t + 2"
  shows "t' - t < 3 * 3600 * 10 ^ 9"
proof -
  have "t' div 10 ^ 9 div 3600 \<le> t div 10 ^ 9 div 3600 + 2"
    using assms by (simp add: epoch_hour_def)
  then show ?thesis by simp
qed

definition REPLAY_TTL :: int where "REPLAY_TTL = 3 * 3600 * 10 ^ 9"

text \<open>The mark a server looks for is cached in the handshake state once computed.\<close>

definition mark_of :: "'p crypto \<Rightarrow> server_hs \<Rightarrow> bytes \<Rightarrow> bytes" where
  "mark_of C hs resp = hmac16 C (sh_mac_key hs) [slice 0 REPRESENTATIVE_LENGTH resp]"

definition mark_cached :: "'p crypto \<Rightarrow> server_hs \<Rightarrow> bytes \<Rightarrow> bool" where
  "mark_cached C hs resp \<longleftrightarrow> sh_client hs = None \<or> sh_client hs = Some (mark_of C hs resp)"

lemma try_hours_seen:
  assumes "macs_distinct C (sh_mac_key hs) msg (hour - 1) (hour + 1)"
    and "H \<in> {hour - 1..hour + 1}" and "hmac16 C (sh_mac_key hs) [msg, ascii (dec_int H)] = received"
    and "rf_test_and_set now received f = (True, f')"
  shows "try_hours C msg received now hour [0, -1, 1] False f hs = (True, False, f', hs)"
proof -
  have same: "hmac16 C (sh_mac_key hs) [msg, ascii (dec_int h)] = received \<longleftrightarrow> h = H"
    if "h \<in> {hour - 1..hour + 1}" for h
    using macs_distinctD [OF assms(1) that assms(2)] assms(3) by simp
  from assms(2) consider "H = hour" | "H = hour - 1" | "H = hour + 1" by fastforce
  then show ?thesis
    using same [of hour] same [of "hour - 1"] same [of "hour + 1"] assms(4)
    by cases (auto simp: Let_def)
qed

lemma try_hours_none:
  assumes "\<And>h. h \<in> {hour - 1..hour + 1} \<Longrightarrow>
    hmac16 C (sh_mac_key hs) [msg, ascii (dec_int h)] \<noteq> received"
  shows "try_hours C msg received now hour [0, -1, 1] False f hs = (False, False, f, hs)"
  using assms [of hour] assms [of "hour - 1"] assms [of "hour + 1"] by (simp add: Let_def)

lemma server_parse_mark:
  assumes "server_parse_client C resp now f hs = (Ok seed, f', hs')" and "mark_cached C hs resp"
  shows "\<not> length resp < CLIENT_MIN_HANDSHAKE_LENGTH \<and>
    find_mark_mac (mark_of C hs resp) resp (REPRESENTATIVE_LENGTH + CLIENT_MIN_PAD_LENGTH)
      MAX_HANDSHAKE_LENGTH True = Some (length resp - 32) \<and> 32 \<le> length resp"
proof -
  have mark: "(case sh_client hs of Some m \<Rightarrow> m
      | None \<Rightarrow> hmac16 C (sh_mac_key hs) [slice 0 REPRESENTATIVE_LENGTH resp]) = mark_of C hs resp"
    using assms(2) by (auto simp: mark_cached_def mark_of_def)
  show ?thesis
    using assms(1) unfolding server_parse_client_def Let_def mark
    by (auto simp del: try_hours.simps split: if_splits option.splits prod.splits)
qed

text \<open>The same bytes at another connection: the mark is found at the same place, and
  the search over the hours decides.\<close>

lemma server_parse_refused:
  assumes "\<not> length resp < CLIENT_MIN_HANDSHAKE_LENGTH"
    and "find_mark_mac (mark_of C hs resp) resp (REPRESENTATIVE_LENGTH + CLIENT_MIN_PAD_LENGTH)
      MAX_HANDSHAKE_LENGTH True = Some (length resp - 32)" and "32 \<le> length resp"
    and "mark_cached C hs resp"
    and "try_hours C (slice 0 (length resp - 16) resp) (slice (length resp - 16) (length resp) resp)
      now (epoch_hour now) [0, -1, 1] False f (hs\<lparr>sh_client := Some (mark_of C hs resp)\<rparr>) = (replayed, False, f', hs')"
  shows "fst (server_parse_client C resp now f hs) =
    Err (if replayed then ReplayedHandshake else InvalidHandshake)"
proof -
  have mark: "(case sh_client hs of Some m \<Rightarrow> m
      | None \<Rightarrow> hmac16 C (sh_mac_key hs) [slice 0 REPRESENTATIVE_LENGTH resp]) = mark_of C hs resp"
    using assms(4) by (auto simp: mark_cached_def mark_of_def)
  have pos: "length resp - 32 + 16 = length resp - 16" "length resp - 16 + 16 = length resp"
    using assms(3) by simp_all
  show ?thesis
    using assms(1,2,5) unfolding server_parse_client_def Let_def mark
    by (simp del: try_hours.simps add: pos)
qed

text \<open>
  C4: a client handshake is accepted at most once.  After a message is accepted at
  time \<open>t\<close>, the same bytes presented to any connection of the same bridge at any
  later time \<open>t'\<close>, whatever other handshakes the filter saw in between, are refused:
  as a replay while the hour of the clock has not changed, and later as a replay or
  as an invalid handshake (either the replay filter with its three-hour time to
  live still holds the MAC, or its hour is out of the window of -1 to +1 hours).
  The conditions: the clock does not run backwards, the filter does not overflow,
  and no two hours in reach give the same MAC of the message.
\<close>

theorem accepted_at_most_once:
  assumes "server_parse_client C resp t f hs = (Ok seed, f1, hs1)" and "mark_cached C hs resp"
    and "rf_ttl f = REPLAY_TTL" and "filter_inv (rf_inner f)" and "filter_clock t (rf_inner f)" and "0 \<le> t"
    and "f2 = f1\<lparr>rf_inner := run_filter (rf_digest f) REPLAY_TTL calls (rf_inner f1)\<rparr>"
    and "sorted (t # map fst calls @ [t'])"
    and "length (fifo (rf_inner f)) + length calls + 1 < MAX_FILTER_SIZE"
    and "sh_mac_key hs' = sh_mac_key hs" and "mark_cached C hs' resp"
    and "macs_distinct C (sh_mac_key hs) (slice 0 (length resp - 16) resp)
      (epoch_hour t - 1) (epoch_hour t' + 1)"
  shows "fst (server_parse_client C resp t' f2 hs') \<in> {Err ReplayedHandshake, Err InvalidHandshake} \<and>
    (epoch_hour t' = epoch_hour t \<longrightarrow>
       fst (server_parse_client C resp t' f2 hs') = Err ReplayedHandshake)"
proof -
  let ?msg = "slice 0 (length resp - 16) resp" and ?mac = "slice (length resp - 16) (length resp) resp"
  let ?hmac = "\<lambda>H. hmac16 C (sh_mac_key hs) [?msg, ascii (dec_int H)]"
  let ?hs = "hs'\<lparr>sh_client := Some (mark_of C hs' resp)\<rparr>"
  have "t \<le> t'" using assms(8) by simp
  have mono: "epoch_hour t \<le> epoch_hour t'"
    using \<open>0 \<le> t\<close> \<open>t \<le> t'\<close> by (simp add: epoch_hour_def zdiv_mono1)
  then have near: "macs_distinct C (sh_mac_key hs) ?msg (epoch_hour t - 1) (epoch_hour t + 1)"
      "macs_distinct C (sh_mac_key hs) ?msg (epoch_hour t' - 1) (epoch_hour t' + 1)"
    using assms(12) by (auto simp: macs_distinct_def elim!: inj_on_subset)
  have "mark_of C hs' resp = mark_of C hs resp" using assms(10) by (simp add: mark_of_def)
  then have found: "\<not> length resp < CLIENT_MIN_HANDSHAKE_LENGTH" "32 \<le> length resp"
      "find_mark_mac (mark_of C hs' resp) resp (REPRESENTATIVE_LENGTH + CLIENT_MIN_PAD_LENGTH)
        MAX_HANDSHAKE_LENGTH True = Some (length resp - 32)"
    using server_parse_mark [OF assms(1,2)] by simp_all
  note refused = server_parse_refused [OF found(1,3,2) assms(11)]
  obtain H where H: "H \<in> {epoch_hour t - 1..epoch_hour t + 1}" "?hmac H = ?mac"
      and t1: "rf_test_and_set t ?mac f = (False, f1)"
    using server_parse_Ok [OF assms(1)] try_hours_found near(1) by metis
  show ?thesis
  proof (cases "H \<in> {epoch_hour t' - 1..epoch_hour t' + 1}")
    case True
    then have "epoch_hour t' \<le> epoch_hour t + 2" using H(1) by simp
    then have soon: "t' - t < REPLAY_TTL"
      using epoch_hour_window [OF \<open>0 \<le> t\<close> \<open>t \<le> t'\<close>] by (simp add: REPLAY_TTL_def)
    obtain inner where t2: "test_and_set (rf_digest f) REPLAY_TTL t ?mac (rf_inner f) = (False, inner)"
        and f1: "f1 = f\<lparr>rf_inner := inner\<rparr>"
      using t1 assms(3) by (auto simp: rf_test_and_set_def split: prod.splits)
    from replay_detected [OF assms(4,5) t2 assms(8) soon assms(9)]
    have "fst (rf_test_and_set t' ?mac f2)"
      using assms(3,7) f1 by (simp add: rf_test_and_set_def case_prod_beta)
    then obtain f3 where "rf_test_and_set t' ?mac f2 = (True, f3)"
      by (cases "rf_test_and_set t' ?mac f2") auto
    then have "try_hours C ?msg ?mac t' (epoch_hour t') [0, -1, 1] False f2 ?hs = (True, False, f3, ?hs)"
      using near(2) True H(2) assms(10) by (intro try_hours_seen) simp_all
    from refused [OF this] show ?thesis by simp
  next
    case False
    have "?hmac h \<noteq> ?mac" if "h \<in> {epoch_hour t' - 1..epoch_hour t' + 1}" for h
      using macs_distinctD [OF assms(12), of H h] H that mono False by auto
    then have "try_hours C ?msg ?mac t' (epoch_hour t') [0, -1, 1] False f2 ?hs = (False, False, f2, ?hs)"
      using assms(10) by (intro try_hours_none) simp_all
    from refused [OF this] show ?thesis using False H(1) by auto
  qed
qed

section \<open>The two sides agree\<close>

text \<open>A session key pair as \<open>Keypair::new(true)\<close> makes it.\<close>

definition session_key :: "'p crypto \<Rightarrow> keypair \<Rightarrow> bytes \<Rightarrow> bool" where
  "session_key C kp repr \<longleftrightarrow> kp_repr kp = Some repr \<and> length repr = 32 \<and>
     representative_to_public C repr = kp_public kp"

definition agreed_secret :: "'p crypto \<Rightarrow> keypair \<Rightarrow> keypair \<Rightarrow> keypair \<Rightarrow> bool" where
  "agreed_secret C client server identity \<longleftrightarrow> dh_agree C client server \<and> dh_agree C client identity \<and>
     \<not> is_zero (x25519 C (kp_private client) (kp_public server)) \<and>
     \<not> is_zero (x25519 C (kp_private client) (kp_public identity))"

lemma agreed_secretD:
  assumes "agreed_secret C client server identity"
  obtains seed auth where
    "client_handshake C client (kp_public server) (kp_public identity) nid = (True, seed, auth)"
    "server_handshake C (kp_public client) server identity nid = (True, seed, auth)"
proof -
  obtain seed auth where
    c: "client_handshake C client (kp_public server) (kp_public identity) nid = (True, seed, auth)"
    using assms by (auto simp: agreed_secret_def client_handshake_def Let_def ntor_common_def)
  moreover have "server_handshake C (kp_public client) server identity nid = (True, seed, auth)"
    using c ntor_agree [of C client server identity nid] assms by (simp add: agreed_secret_def)
  ultimately show thesis by (rule that)
qed

lemma server_parse_at:
  assumes "64 \<le> length resp" and "length resp = pos + 16 + 16" and "sh_client hs = None"
    and "find_mark_mac mark resp 109 8192 True = Some pos"
    and "mark = hmac16 C (sh_mac_key hs) [slice 0 32 resp]"
    and "try_hours C (slice 0 (pos + 16) resp) (slice (pos + 16) (pos + 16 + 16) resp) now (epoch_hour now)
      [0, - 1, 1] False f (hs\<lparr>sh_client := Some mark\<rparr>) = (False, True, f', hs')"
    and "server_handshake C (representative_to_public C (slice 0 32 resp)) (sh_keypair hs')
      (sh_server_identity hs') (sh_node_id hs') = (True, seed, auth)"
  shows "server_parse_client C resp now f hs = (Ok seed, f', hs'\<lparr>sh_server_auth := auth\<rparr>)"
  unfolding server_parse_client_def Let_def
  using assms by (simp del: try_hours.simps)

lemma client_message_accepted:
  assumes "hmac_ok C" and "session_key C (ch_keypair ch) xr"
    and "client_hs_generate C tc ch s = Some (m1, ch', s')"
    and "77 \<le> ch_pad_len ch" and "ch_pad_len ch \<le> 8128"
    and "ch_mac_key ch = sh_mac_key sh" and "sh_client sh = None"
    and "agreed_secret C (ch_keypair ch) (sh_keypair sh) (sh_server_identity sh)"
    and "epoch_hour tc \<in> {epoch_hour ts - 1..epoch_hour ts + 1}"
    and "macs_distinct C (sh_mac_key sh) (slice 0 (length m1 - 16) m1) (epoch_hour ts - 1) (epoch_hour ts + 1)"
    and "rf_test_and_set ts (slice (length m1 - 16) (length m1) m1) f = (False, f')"
  shows "\<exists>seed auth. server_parse_client C m1 ts f sh =
      (Ok seed, f', sh\<lparr>sh_client := Some (hmac16 C (sh_mac_key sh) [xr]),
         sh_epoch_hour := dec_int (epoch_hour tc), sh_server_auth := auth\<rparr>) \<and>
    client_handshake C (ch_keypair ch) (kp_public (sh_keypair sh)) (kp_public (sh_server_identity sh)) (sh_node_id sh)
      = (True, seed, auth) \<and> ch' = ch\<lparr>ch_epoch_hour := dec_int (epoch_hour tc)\<rparr>"
proof -
  let ?key = "sh_mac_key sh"
  let ?mark = "hmac16 C ?key [xr]"
  obtain pad where pad: "length pad = ch_pad_len ch" and pad_def: "pad = fst (make_pad (ch_pad_len ch) s)"
    by (simp add: make_pad_def)
  let ?msg = "(xr @ pad) @ ?mark"
  let ?mac = "hmac16 C ?key [?msg, ascii (dec_int (epoch_hour tc))]"
  have xr: "kp_repr (ch_keypair ch) = Some xr" "length xr = 32"
      "representative_to_public C xr = kp_public (ch_keypair ch)"
    using assms(2) by (auto simp: session_key_def)
  have m1: "m1 = (xr @ pad) @ ?mark @ ?mac" and ch': "ch' = ch\<lparr>ch_epoch_hour := dec_int (epoch_hour tc)\<rparr>"
    using assms(3,6) xr pad_def by (auto simp: client_hs_generate_def Let_def split: prod.splits)
  have len: "length m1 = ch_pad_len ch + 64" using m1 xr pad assms(1) by simp
  have parts: "slice 0 (length m1 - 16) m1 = ?msg" "slice (length m1 - 16) (length m1) m1 = ?mac"
      "slice 0 32 m1 = xr"
    using m1 len xr pad assms(1) by (auto simp: slice_def)
  have find: "find_mark_mac ?mark m1 109 8192 True = Some (ch_pad_len ch + 32)"
    using find_mark_mac_tail [of ?mark ?mac 109 "xr @ pad" 8192] m1 xr pad assms(1,4,5) by simp
  obtain seed auth where
    c: "client_handshake C (ch_keypair ch) (kp_public (sh_keypair sh)) (kp_public (sh_server_identity sh)) (sh_node_id sh)
        = (True, seed, auth)"
    and srv: "server_handshake C (kp_public (ch_keypair ch)) (sh_keypair sh) (sh_server_identity sh) (sh_node_id sh)
        = (True, seed, auth)"
    using agreed_secretD [OF assms(8)] by blast
  have pos: "ch_pad_len ch + 32 + 16 = length m1 - 16" "ch_pad_len ch + 32 + 16 + 16 = length m1"
    using len by simp_all
  have tries: "try_hours C ?msg ?mac ts (epoch_hour ts) [0, - 1, 1] False f
      (sh\<lparr>sh_client := Some ?mark\<rparr>) = (False, True, f',
      sh\<lparr>sh_client := Some ?mark, sh_epoch_hour := dec_int (epoch_hour tc)\<rparr>)"
    using try_hours_accept [of C "sh\<lparr>sh_client := Some ?mark\<rparr>" ?msg "epoch_hour ts" "epoch_hour tc"]
      assms(9,10,11) unfolding parts by (simp del: try_hours.simps)
  let ?p = "ch_pad_len ch + 32" and ?hs' = "sh\<lparr>sh_client := Some ?mark, sh_epoch_hour := dec_int (epoch_hour tc)\<rparr>"
  have "try_hours C (slice 0 (?p + 16) m1) (slice (?p + 16) (?p + 16 + 16) m1) ts (epoch_hour ts)
      [0, - 1, 1] False f (sh\<lparr>sh_client := Some ?mark\<rparr>) = (False, True, f', ?hs')"
    unfolding pos(2) unfolding pos(1) unfolding parts by (rule tries)
  moreover have "server_handshake C (representative_to_public C (slice 0 32 m1)) (sh_keypair ?hs')
      (sh_server_identity ?hs') (sh_node_id ?hs') = (True, seed, auth)"
    unfolding parts xr using srv by simp
  moreover have "?mark = hmac16 C ?key [slice 0 32 m1]" unfolding parts ..
  ultimately have "server_parse_client C m1 ts f sh = (Ok seed, f', ?hs'\<lparr>sh_server_auth := auth\<rparr>)"
    using len by (intro server_parse_at [OF _ pos(2) [symmetric] assms(7) find]) auto
  with c ch' show ?thesis by blast
qed

lemma server_message_accepted:
  assumes "hmac_ok C" and "session_key C (sh_keypair sh) yr"
    and "server_hs_generate C sh s = Some (m2, s')" and "sh_pad_len sh \<le> 8051"
    and "ch_mac_key ch = sh_mac_key sh" and "ch_server ch = None" and "ch_epoch_hour ch = sh_epoch_hour sh"
    and "client_handshake C (ch_keypair ch) (kp_public (sh_keypair sh)) (ch_server_identity ch) (ch_node_id ch)
      = (True, seed, sh_server_auth sh)" and "length (sh_server_auth sh) = 32"
    and "\<forall>q\<in>{64..<64 + sh_pad_len sh}. slice q (q + 16) m2 \<noteq> hmac16 C (sh_mac_key sh) [yr]"
  shows "fst (client_parse_server C (m2 @ tail) ch) = Ok (length m2, seed)"
proof -
  let ?key = "sh_mac_key sh" and ?auth = "sh_server_auth sh"
  let ?mark = "hmac16 C ?key [yr]"
  obtain pad where pad: "length pad = sh_pad_len sh" and pad_def: "pad = fst (make_pad (sh_pad_len sh) s)"
    by (simp add: make_pad_def)
  let ?pre = "yr @ ?auth @ pad"
  let ?mac = "hmac16 C ?key [?pre @ ?mark, ascii (sh_epoch_hour sh)]"
  have yr: "kp_repr (sh_keypair sh) = Some yr" "length yr = 32"
      "representative_to_public C yr = kp_public (sh_keypair sh)"
    using assms(2) by (auto simp: session_key_def)
  have m2: "m2 = ?pre @ ?mark @ ?mac"
    using assms(3) yr pad_def by (auto simp: server_hs_generate_def Let_def split: prod.splits)
  let ?p = "64 + sh_pad_len sh"
  have pre: "length ?pre = ?p" using yr pad assms(9) by simp
  have len: "length m2 = ?p + 32" using m2 pre assms(1) by simp
  have find: "find_mark_mac ?mark (m2 @ tail) 64 8192 False = Some ?p"
    unfolding find_mark_mac_iff
  proof (intro conjI ballI)
    show "slice ?p (?p + 16) (m2 @ tail) = ?mark"
      using slice_mid [of ?p ?pre "?p + 16" ?mark "?mac @ tail"] pre m2 assms(1) by simp
    fix q assume q: "q \<in> {64..<?p}"
    then have "slice q (q + 16) (m2 @ tail) = slice q (q + 16) m2"
      using len by (intro slice_append_left) simp
    then show "slice q (q + 16) (m2 @ tail) \<noteq> ?mark" using assms(10) q by simp
  qed (use len assms(4) in auto)
  have parts: "slice 0 32 (m2 @ tail) = yr" "slice 32 64 (m2 @ tail) = ?auth"
      "slice 0 (?p + 16) (m2 @ tail) = ?pre @ ?mark" "slice (?p + 16) (?p + 32) (m2 @ tail) = ?mac"
    using slice_mid [of 32 yr 64 ?auth "pad @ ?mark @ ?mac @ tail"]
      slice_mid [of "?p + 16" "?pre @ ?mark" "?p + 32" ?mac tail] pre yr assms(1,9) m2 pad
    by (auto simp: slice_def)
  have "96 \<le> length (m2 @ tail)" using len by simp
  moreover have "compare_auth ?auth ?auth" using assms(9) by (rule compare_auth_refl)
  ultimately show ?thesis
    using find assms(5,6,7,8) yr(3) parts len
    by (simp add: client_parse_server_def Let_def add.commute add.assoc)
qed

lemma client_hs_newD:
  assumes "client_hs_new nid public ck s0 = Ok (Some (ch, s1))"
  shows "77 \<le> ch_pad_len ch" "ch_pad_len ch \<le> 8128" "ch_keypair ch = ck" "ch_node_id ch = nid"
      "ch_server_identity ch = public" "ch_mac_key ch = mac_key_of public nid" "ch_server ch = None"
proof -
  obtain v where v: "csrand_int_range 77 8128 s0 = Ok (Some (v, s1))" "ch = \<lparr>ch_keypair = ck,
      ch_node_id = nid, ch_server_identity = public, ch_epoch_hour = [], ch_pad_len = nat v,
      ch_mac_key = mac_key_of public nid, ch_server = None\<rparr>"
    using assms by (cases "csrand_int_range 77 8128 s0") (auto simp: client_hs_new_def)
  from csrand_int_range_bounds [OF v(1)] v(2) show "77 \<le> ch_pad_len ch" "ch_pad_len ch \<le> 8128"
    by auto
qed (use assms in \<open>cases "csrand_int_range 77 8128 s0"; auto simp: client_hs_new_def\<close>)+

lemma server_hs_newD:
  assumes "server_hs_new nid identity sk s2 = Ok (Some (sh, s3))"
  shows "sh_pad_len sh \<le> 8051" "sh_keypair sh = sk" "sh_node_id sh = nid" "sh_server_identity sh = identity"
      "sh_mac_key sh = mac_key_of (kp_public identity) nid" "sh_client sh = None"
proof -
  obtain v where v: "csrand_int_range 0 8051 s2 = Ok (Some (v, s3))" "sh_pad_len sh = nat v"
    using assms by (cases "csrand_int_range 0 8051 s2") (auto simp: server_hs_new_def)
  from csrand_int_range_bounds [OF v(1)] v(2) show "sh_pad_len sh \<le> 8051" by auto
qed (use assms in \<open>cases "csrand_int_range 0 8051 s2"; auto simp: server_hs_new_def\<close>)+

text \<open>
  C5: the two sides agree.  A client's message, made with a key that has a
  representative, is accepted by the bridge it is meant for when their clocks are
  within an hour and the filter has not seen it; the bridge answers, and from any
  read that starts with the answer the client derives the same key seed and
  consumes exactly the answer, leaving what follows it.
\<close>

theorem handshake_agreement:
  assumes "hmac_ok C" and "session_key C ck xr" and "session_key C sk yr"
    and "agreed_secret C ck sk identity"
    and "client_hs_new nid (kp_public identity) ck s0 = Ok (Some (ch, s1))"
    and "server_hs_new nid identity sk s2 = Ok (Some (sh, s3))"
    and "client_hs_generate C tc ch s1 = Some (m1, ch1, s4)"
    and "epoch_hour tc \<in> {epoch_hour ts - 1..epoch_hour ts + 1}"
    and "macs_distinct C (sh_mac_key sh) (slice 0 (length m1 - 16) m1) (epoch_hour ts - 1) (epoch_hour ts + 1)"
    and "rf_test_and_set ts (slice (length m1 - 16) (length m1) m1) f = (False, f')"
  shows "\<exists>seed sh1 m2 s5. server_parse_client C m1 ts f sh = (Ok seed, f', sh1) \<and>
     server_hs_generate C sh1 s3 = Some (m2, s5) \<and>
     ((\<forall>q\<in>{64..<64 + sh_pad_len sh}. slice q (q + 16) m2 \<noteq> hmac16 C (sh_mac_key sh) [yr]) \<longrightarrow>
        fst (client_parse_server C (m2 @ tail) ch1) = Ok (length m2, seed))"
proof -
  note ch = client_hs_newD [OF assms(5)] and sh = server_hs_newD [OF assms(6)]
  have "session_key C (ch_keypair ch) xr" using assms(2) ch by simp
  from client_message_accepted [OF assms(1) this assms(7), of sh ts f f'] ch sh assms(4,8,9,10)
  obtain seed auth where srv: "server_parse_client C m1 ts f sh =
      (Ok seed, f', sh\<lparr>sh_client := Some (hmac16 C (sh_mac_key sh) [xr]),
         sh_epoch_hour := dec_int (epoch_hour tc), sh_server_auth := auth\<rparr>)"
    and cl: "client_handshake C ck (kp_public sk) (kp_public identity) nid = (True, seed, auth)"
    and ch1: "ch1 = ch\<lparr>ch_epoch_hour := dec_int (epoch_hour tc)\<rparr>"
    by auto
  have auth: "length auth = 32"
    using cl assms(1) by (auto simp: client_handshake_def ntor_common_def Let_def)
  let ?sh1 = "sh\<lparr>sh_client := Some (hmac16 C (sh_mac_key sh) [xr]),
         sh_epoch_hour := dec_int (epoch_hour tc), sh_server_auth := auth\<rparr>"
  have yr: "session_key C (sh_keypair ?sh1) yr" using assms(3) sh by simp
  then obtain m2 s5 where gen: "server_hs_generate C ?sh1 s3 = Some (m2, s5)"
    by (cases "make_pad (sh_pad_len sh) s3")
      (auto simp: server_hs_generate_def session_key_def Let_def)
  from server_message_accepted [OF assms(1) yr gen, of ch1 seed tail] srv gen cl ch ch1 sh auth
  show ?thesis by auto
qed

section \<open>Witnesses\<close>

text \<open>Primitives under which everything computes: a constant group, and a MAC that
  keeps the end of its message.\<close>

definition plain_fiat :: fiat where
  "plain_fiat = \<lparr>fi_from_bytes = \<lambda>_. [], fi_to_bytes = \<lambda>_. replicate 32 1, fi_relax = \<lambda>_. [],
     fi_carry = \<lambda>_. [], fi_add = \<lambda>_ _. [], fi_sub = \<lambda>_ _. [], fi_opp = \<lambda>_. [], fi_carry_mul = \<lambda>_ _. [],
     fi_carry_square = \<lambda>_. [], fi_selectznz = \<lambda>_ _ _. []\<rparr>"

definition plain_crypto :: "unit crypto" where
  "plain_crypto = \<lparr>c_fiat = plain_fiat,
     c_edwards = \<lparr>ed_decompress = \<lambda>_. None, ed_default = (), ed_add = \<lambda>_ _. (),
       ed_mul_base_clamped = \<lambda>_. (), ed_to_montgomery = \<lambda>_. []\<rparr>,
     c_mul_base_clamped = \<lambda>_. replicate 32 1, c_mul_clamped = \<lambda>_ _. replicate 32 1,
     c_sha512 = \<lambda>_. replicate 64 0, c_hmac = \<lambda>key msg. take 32 (rev msg @ replicate 32 0),
     c_hkdf = \<lambda>_ _ _ n. Some (replicate n 0),
     c_hex_encode = \<lambda>_. [], c_hex_decode = \<lambda>_. None\<rparr>"

definition plain_key :: "u8 \<Rightarrow> keypair" where
  "plain_key b = \<lparr>kp_public = replicate 32 1, kp_private = replicate 32 b, kp_repr = Some (replicate 32 b)\<rparr>"

lemma plain_hmac_ok: "hmac_ok plain_crypto"
  by (auto simp: hmac_ok_def plain_crypto_def min_def)

lemma plain_session_key: "session_key plain_crypto (plain_key b) (replicate 32 b)"
  by (simp add: session_key_def plain_key_def representative_to_public_def representative_to_public_key_def
      fe_to_bytes_def plain_crypto_def plain_fiat_def)

lemma plain_agreed: "agreed_secret plain_crypto (plain_key a) (plain_key b) (plain_key c)"
  by (simp add: agreed_secret_def dh_agree_def x25519_def is_zero_def plain_crypto_def replicate_eq_replicate)

lemma zero_draw: "csrand_bytes n (\<lambda>_. []) = (replicate n 0, \<lambda>_. [])"
  by (simp add: csrand_bytes_def map_replicate_trivial)

lemma zero_int63: "os_int63 (\<lambda>_. []) = (0, \<lambda>_. [])"
proof -
  have "be_u64 (replicate 8 0) = 0" by (simp add: be_u64_def)
  then show ?thesis by (simp only: os_int63_def zero_draw prod.case) simp
qed

lemma zero_int_range:
  "csrand_int_range 77 8128 (\<lambda>_. []) = Ok (Some (77, \<lambda>_. []))"
  "csrand_int_range 0 8051 (\<lambda>_. []) = Ok (Some (0, \<lambda>_. []))"
proof -
  have "rand_int31 os_int63 (\<lambda>_. []) = (0, \<lambda>_. [])"
    by (simp add: rand_int31_def rand_int63_def zero_int63)
  moreover have "reject_above (rand_int31 os_int63) mx 0 s = Some (0, s)" if "0 \<le> mx" for mx s
    using that by (simp add: reject_above.simps)
  ultimately show "csrand_int_range 77 8128 (\<lambda>_. []) = Ok (Some (77, \<lambda>_. []))"
      "csrand_int_range 0 8051 (\<lambda>_. []) = Ok (Some (0, \<lambda>_. []))"
    by (simp_all add: csrand_int_range_def csrand_intn_def rand_intn_def rand_int31n_def Let_def)
qed

lemma plain_macs_distinct: "macs_distinct plain_crypto key msg 4 6"
proof -
  have "{4..6} = {4, 5, 6 :: int}" by auto
  moreover have "dec_int 4 = ''4''" "dec_int 5 = ''5''" "dec_int 6 = ''6''"
    by code_simp+
  ultimately show ?thesis
    by (simp add: macs_distinct_def hmac16_def hmac_parts_def plain_crypto_def ascii_def)
qed

definition plain_filter :: replay_filter where
  "plain_filter = \<lparr>rf_digest = \<lambda>bs. 0, rf_ttl = REPLAY_TTL, rf_inner = filter_empty\<rparr>"

lemma plain_filter_fresh: "\<exists>f'. rf_test_and_set now bs plain_filter = (False, f')"
  by (simp add: rf_test_and_set_def test_and_set_def plain_filter_def filter_empty_def compact.simps)

lemma plain_hour: "epoch_hour (5 * 3600 * 10 ^ 9) = 5"
  by (simp add: epoch_hour_def)

lemma plain_run:
  obtains ch sh m1 ch1 s4 f' where
    "client_hs_new [] (kp_public (plain_key 3)) (plain_key 1) (\<lambda>_. []) = Ok (Some (ch, \<lambda>_. []))"
    "server_hs_new [] (plain_key 3) (plain_key 2) (\<lambda>_. []) = Ok (Some (sh, \<lambda>_. []))" "sh_pad_len sh = 0"
    "client_hs_generate plain_crypto (5 * 3600 * 10 ^ 9) ch (\<lambda>_. []) = Some (m1, ch1, s4)"
    "rf_test_and_set (5 * 3600 * 10 ^ 9) (slice (length m1 - 16) (length m1) m1) plain_filter = (False, f')"
proof -
  obtain ch where ch: "client_hs_new [] (kp_public (plain_key 3)) (plain_key 1) (\<lambda>_. []) = Ok (Some (ch, \<lambda>_. []))"
    by (simp add: client_hs_new_def zero_int_range)
  obtain sh where sh: "server_hs_new [] (plain_key 3) (plain_key 2) (\<lambda>_. []) = Ok (Some (sh, \<lambda>_. []))"
      "sh_pad_len sh = 0"
    by (simp add: server_hs_new_def zero_int_range)
  have "kp_repr (ch_keypair ch) = Some (replicate 32 1)"
    using ch by (auto simp: client_hs_new_def zero_int_range plain_key_def)
  then obtain m1 ch1 s4 where "client_hs_generate plain_crypto (5 * 3600 * 10 ^ 9) ch (\<lambda>_. []) = Some (m1, ch1, s4)"
    by (cases "make_pad (ch_pad_len ch) (\<lambda>_. [])") (auto simp: client_hs_generate_def Let_def)
  with ch sh plain_filter_fresh that show thesis by metis
qed

lemma handshake_agreement_witness:
  "\<exists>ch1 sh sh1 m1 m2 seed f' s. server_parse_client plain_crypto m1 (5 * 3600 * 10 ^ 9) plain_filter sh = (Ok seed, f', sh1) \<and>
     server_hs_generate plain_crypto sh1 (\<lambda>_. []) = Some (m2, s) \<and>
     fst (client_parse_server plain_crypto (m2 @ [9]) ch1) = Ok (length m2, seed)"
proof -
  let ?C = plain_crypto and ?t = "5 * 3600 * 10 ^ 9 :: int"
  obtain ch sh m1 ch1 s4 f' where run:
      "client_hs_new [] (kp_public (plain_key 3)) (plain_key 1) (\<lambda>_. []) = Ok (Some (ch, \<lambda>_. []))"
      "server_hs_new [] (plain_key 3) (plain_key 2) (\<lambda>_. []) = Ok (Some (sh, \<lambda>_. []))" "sh_pad_len sh = 0"
      "client_hs_generate ?C ?t ch (\<lambda>_. []) = Some (m1, ch1, s4)"
      "rf_test_and_set ?t (slice (length m1 - 16) (length m1) m1) plain_filter = (False, f')"
    by (rule plain_run)
  have "macs_distinct ?C (sh_mac_key sh) (slice 0 (length m1 - 16) m1) (epoch_hour ?t - 1) (epoch_hour ?t + 1)"
    using plain_macs_distinct unfolding plain_hour by simp
  from handshake_agreement [OF plain_hmac_ok plain_session_key plain_session_key plain_agreed run(1,2,4) _ this run(5), of "[9]"]
  obtain seed sh1 m2 s5 where "server_parse_client ?C m1 ?t plain_filter sh = (Ok seed, f', sh1)"
      "server_hs_generate ?C sh1 (\<lambda>_. []) = Some (m2, s5)"
      "fst (client_parse_server ?C (m2 @ [9]) ch1) = Ok (length m2, seed)"
    using run(3) by auto
  then show ?thesis by blast
qed

lemma accepted_at_most_once_witness:
  "\<exists>m1 sh seed f1 sh1. server_parse_client plain_crypto m1 (5 * 3600 * 10 ^ 9) plain_filter sh = (Ok seed, f1, sh1) \<and>
     fst (server_parse_client plain_crypto m1 (5 * 3600 * 10 ^ 9) f1 sh) = Err ReplayedHandshake"
proof -
  let ?C = plain_crypto and ?t = "5 * 3600 * 10 ^ 9 :: int"
  obtain ch sh m1 ch1 s4 f1 where run:
      "client_hs_new [] (kp_public (plain_key 3)) (plain_key 1) (\<lambda>_. []) = Ok (Some (ch, \<lambda>_. []))"
      "server_hs_new [] (plain_key 3) (plain_key 2) (\<lambda>_. []) = Ok (Some (sh, \<lambda>_. []))" "sh_pad_len sh = 0"
      "client_hs_generate ?C ?t ch (\<lambda>_. []) = Some (m1, ch1, s4)"
      "rf_test_and_set ?t (slice (length m1 - 16) (length m1) m1) plain_filter = (False, f1)"
    by (rule plain_run)
  have ch: "ch_keypair ch = plain_key 1" "ch_pad_len ch = 77" "ch_mac_key ch = sh_mac_key sh" "sh_client sh = None"
      "sh_keypair sh = plain_key 2" "sh_server_identity sh = plain_key 3"
    using run(1,2) by (auto simp: client_hs_new_def server_hs_new_def zero_int_range)
  have macs: "macs_distinct ?C (sh_mac_key sh) (slice 0 (length m1 - 16) m1) (epoch_hour ?t - 1) (epoch_hour ?t + 1)"
    using plain_macs_distinct unfolding plain_hour by simp
  have "session_key ?C (ch_keypair ch) (replicate 32 1)"
    "agreed_secret ?C (ch_keypair ch) (sh_keypair sh) (sh_server_identity sh)"
    unfolding ch by (rule plain_session_key, rule plain_agreed)
  from client_message_accepted [OF plain_hmac_ok this(1) run(4) _ _ ch(3,4) this(2) _ macs run(5)]
  obtain seed sh1 where ok: "server_parse_client ?C m1 ?t plain_filter sh = (Ok seed, f1, sh1)"
    using ch by auto
  have "f1 = f1\<lparr>rf_inner := run_filter (rf_digest plain_filter) REPLAY_TTL [] (rf_inner f1)\<rparr>" by simp
  from accepted_at_most_once [OF ok _ _ _ _ _ this _ _ refl _ macs]
  have "fst (server_parse_client ?C m1 ?t f1 sh) = Err ReplayedHandshake"
    by (simp add: mark_cached_def ch(4) plain_filter_def filter_inv_empty filter_clock_def filter_empty_def filter_inv_def MAX_FILTER_SIZE_def)
  with ok show ?thesis by blast
qed

end
