(* ===== verification/PtArgs.thy ===== *)
theory PtArgs
  imports Prelude
begin

text \<open>
  The key/value arguments of pluggable transports (\<open>src/shared/domain/pt/args.rs\<close>):
  the parsers of the two escaped notations and the SMETHOD encoder.  Strings are
  their UTF-8 bytes; the \<open>BTreeMap\<close> is an association list that \<open>args_add\<close> keeps
  sorted by key.
\<close>

section \<open>UTF-8\<close>

text \<open>What \<open>String::from_utf8\<close> accepts.\<close>

definition cont :: "u8 \<Rightarrow> bool" where "cont b \<longleftrightarrow> 128 \<le> b \<and> b \<le> 191"

fun utf8_valid :: "bytes \<Rightarrow> bool" where
  "utf8_valid [] = True"
| "utf8_valid (a # s) =
     (if a < 128 then utf8_valid s
      else case s of
        [] \<Rightarrow> False
      | b # s2 \<Rightarrow>
          if 194 \<le> a \<and> a \<le> 223 then cont b \<and> utf8_valid s2
          else case s2 of
            [] \<Rightarrow> False
          | c # s3 \<Rightarrow>
              if 224 \<le> a \<and> a \<le> 239 then
                cont b \<and> cont c \<and> (a = 224 \<longrightarrow> 160 \<le> b) \<and> (a = 237 \<longrightarrow> b \<le> 159) \<and> utf8_valid s3
              else case s3 of
                [] \<Rightarrow> False
              | d # s4 \<Rightarrow>
                  240 \<le> a \<and> a \<le> 244 \<and> cont b \<and> cont c \<and> cont d \<and> (a = 240 \<longrightarrow> 144 \<le> b) \<and>
                  (a = 244 \<longrightarrow> b \<le> 143) \<and> utf8_valid s4)"

section \<open>Arguments\<close>

type_synonym args = "(bytes \<times> bytes list) list"

definition args_new :: args where "args_new = []"

definition args_get :: "args \<Rightarrow> bytes \<Rightarrow> bytes option" where
  "args_get a key = (case map_of a key of Some (v # _) \<Rightarrow> Some v | _ \<Rightarrow> None)"

text \<open>Byte-wise lexicographic order, as \<open>String\<close>'s \<open>Ord\<close>.\<close>

fun bytes_less :: "bytes \<Rightarrow> bytes \<Rightarrow> bool" where
  "bytes_less _ [] = False"
| "bytes_less [] (_ # _) = True"
| "bytes_less (a # s) (b # t) = (a < b \<or> (a = b \<and> bytes_less s t))"

fun args_add :: "bytes \<Rightarrow> bytes \<Rightarrow> args \<Rightarrow> args" where
  "args_add key v [] = [(key, [v])]"
| "args_add key v ((k, vs) # a) =
     (if key = k then (k, vs @ [v]) # a
      else if bytes_less key k then (key, [v]) # (k, vs) # a
      else (k, vs) # args_add key v a)"

definition args_is_empty :: "args \<Rightarrow> bool" where "args_is_empty a \<longleftrightarrow> a = []"

section \<open>Parsing\<close>

abbreviation SEMI :: u8 where "SEMI \<equiv> 59"
abbreviation EQ :: u8 where "EQ \<equiv> 61"
abbreviation COLON :: u8 where "COLON \<equiv> 58"
abbreviation COMMA :: u8 where "COMMA \<equiv> 44"
abbreviation BACKSLASH :: u8 where "BACKSLASH \<equiv> 92"

text \<open>The errors carry the text they quote.\<close>

datatype args_error = DanglingEscape bytes | BadUtf8 bytes | NoEquals bytes | NoColon bytes
  | EmptyKey bytes | EmptyMethod bytes

text \<open>The loop of \<open>index_unescaped\<close>: the position of the first unescaped terminator and
  the text before it without its escapes; \<open>None\<close> if a final escape escapes nothing.\<close>

fun unescape :: "u8 set \<Rightarrow> bytes \<Rightarrow> (nat \<times> bytes) option" where
  "unescape stop [] = Some (0, [])"
| "unescape stop (b # s) =
     (if b \<in> stop then Some (0, [])
      else if b = BACKSLASH then
        (case s of [] \<Rightarrow> None | c # s \<Rightarrow> map_option (\<lambda>(i, u). (i + 2, c # u)) (unescape stop s))
      else map_option (\<lambda>(i, u). (i + 1, b # u)) (unescape stop s))"

definition index_unescaped :: "bytes \<Rightarrow> u8 set \<Rightarrow> (nat \<times> bytes, args_error) res" where
  "index_unescaped s stop =
     (case unescape stop s of
        None \<Rightarrow> Err (DanglingEscape s)
      | Some (i, text) \<Rightarrow> if utf8_valid text then Ok (i, text) else Err (BadUtf8 text))"

lemma unescape_bound: "unescape stop s = Some (i, u) \<Longrightarrow> i \<le> length s"
  by (induction stop s arbitrary: i u rule: unescape.induct) (auto split: if_splits list.splits)

text \<open>One \<open>k=v\<close>, and where the rest starts: after the separator, or nowhere.\<close>

definition parse_pair :: "bytes \<Rightarrow> ((bytes \<times> bytes) \<times> bytes option, args_error) res" where
  "parse_pair s =
     (case index_unescaped s {EQ, SEMI} of
        Err e \<Rightarrow> Err e | Panic \<Rightarrow> Panic
      | Ok (off, key) \<Rightarrow>
          if length s \<le> off \<or> s ! off \<noteq> EQ then Err (NoEquals (take off s))
          else
            let s' = drop (off + 1) s
            in case index_unescaped s' {SEMI} of
                 Err e \<Rightarrow> Err e | Panic \<Rightarrow> Panic
               | Ok (off', val) \<Rightarrow>
                   if key = [] then Err (EmptyKey (take (off + 1 + off') s))
                   else Ok ((key, val),
                     if length s' \<le> off' then None else Some (drop (off' + 1) s')))"

lemma index_unescaped_bound: "index_unescaped s stop = Ok (i, u) \<Longrightarrow> i \<le> length s"
  using unescape_bound by (auto simp: index_unescaped_def split: option.splits if_splits)

lemma parse_pair_shorter:
  "parse_pair s = Ok (kv, Some rest) \<Longrightarrow> length rest < length s"
  by (auto simp: parse_pair_def Let_def split: res.splits if_splits dest!: index_unescaped_bound) arith

function parse_pairs :: "bytes \<Rightarrow> args \<Rightarrow> (args, args_error) res" where
  "parse_pairs s args =
     (case parse_pair s of
        Err e \<Rightarrow> Err e | Panic \<Rightarrow> Panic
      | Ok ((key, val), None) \<Rightarrow> Ok (args_add key val args)
      | Ok ((key, val), Some rest) \<Rightarrow> parse_pairs rest (args_add key val args))"
  by pat_completeness auto
termination
  by (relation "measure (length \<circ> fst)") (auto dest: parse_pair_shorter)

declare parse_pairs.simps [simp del]

definition parse_client_parameters :: "bytes \<Rightarrow> (args, args_error) res" where
  "parse_client_parameters s = (if s = [] then Ok args_new else parse_pairs s args_new)"

text \<open>One \<open>method:k=v\<close>.\<close>

definition parse_option :: "bytes \<Rightarrow> ((bytes \<times> bytes \<times> bytes) \<times> bytes option, args_error) res" where
  "parse_option s =
     (case index_unescaped s {COLON, EQ, SEMI} of
        Err e \<Rightarrow> Err e | Panic \<Rightarrow> Panic
      | Ok (m_off, method) \<Rightarrow>
          if length s \<le> m_off \<or> s ! m_off \<noteq> COLON then Err (NoColon (take m_off s))
          else
            let s1 = drop (m_off + 1) s
            in case index_unescaped s1 {EQ, SEMI} of
                 Err e \<Rightarrow> Err e | Panic \<Rightarrow> Panic
               | Ok (k_off, key) \<Rightarrow>
                   if length s1 \<le> k_off \<or> s1 ! k_off \<noteq> EQ
                   then Err (NoEquals (take (m_off + 1 + k_off) s))
                   else
                     let s2 = drop (k_off + 1) s1
                     in case index_unescaped s2 {SEMI} of
                          Err e \<Rightarrow> Err e | Panic \<Rightarrow> Panic
                        | Ok (v_off, val) \<Rightarrow>
                            let span = take (m_off + 1 + k_off + 1 + v_off) s
                            in if method = [] then Err (EmptyMethod span)
                               else if key = [] then Err (EmptyKey span)
                               else Ok ((method, key, val),
                                 if length s2 \<le> v_off then None else Some (drop (v_off + 1) s2)))"

lemma parse_option_shorter:
  "parse_option s = Ok (mkv, Some rest) \<Longrightarrow> length rest < length s"
  by (auto simp: parse_option_def Let_def split: res.splits if_splits dest!: index_unescaped_bound) arith

type_synonym options = "bytes \<Rightarrow> args option"

definition options_add :: "bytes \<Rightarrow> bytes \<Rightarrow> bytes \<Rightarrow> options \<Rightarrow> options" where
  "options_add method key v opts =
     opts(method \<mapsto> args_add key v (case opts method of None \<Rightarrow> args_new | Some a \<Rightarrow> a))"

function parse_options :: "bytes \<Rightarrow> options \<Rightarrow> (options, args_error) res" where
  "parse_options s opts =
     (case parse_option s of
        Err e \<Rightarrow> Err e | Panic \<Rightarrow> Panic
      | Ok ((method, key, val), None) \<Rightarrow> Ok (options_add method key val opts)
      | Ok ((method, key, val), Some rest) \<Rightarrow> parse_options rest (options_add method key val opts))"
  by pat_completeness auto
termination
  by (relation "measure (length \<circ> fst)") (auto dest: parse_option_shorter)

declare parse_options.simps [simp del]

definition parse_server_transport_options :: "bytes \<Rightarrow> (options, args_error) res" where
  "parse_server_transport_options s = (if s = [] then Ok Map.empty else parse_options s Map.empty)"

section \<open>Encoding\<close>

definition backslash_escape :: "bytes \<Rightarrow> u8 set \<Rightarrow> bytes" where
  "backslash_escape s specials =
     concat (map (\<lambda>c. if c = BACKSLASH \<or> c \<in> specials then [BACKSLASH, c] else [c]) s)"

fun join :: "u8 \<Rightarrow> bytes list \<Rightarrow> bytes" where
  "join sep [] = []"
| "join sep [s] = s"
| "join sep (s # ss) = s @ sep # join sep ss"

definition args_pairs :: "args \<Rightarrow> (bytes \<times> bytes) list" where
  "args_pairs a = concat (map (\<lambda>(k, vs). map (Pair k) vs) a)"

definition encode_pair :: "u8 set \<Rightarrow> bytes \<times> bytes \<Rightarrow> bytes" where
  "encode_pair specials kv = backslash_escape (fst kv) specials @ EQ # backslash_escape (snd kv) specials"

definition encode_smethod_args :: "args option \<Rightarrow> bytes" where
  "encode_smethod_args args =
     (case args of None \<Rightarrow> []
      | Some a \<Rightarrow> join COMMA (map (encode_pair {EQ, COMMA}) (args_pairs a)))"

section \<open>Escaping is undone by unescaping\<close>

lemma backslash_escape_simps [simp]:
  "backslash_escape [] S = []"
  "backslash_escape (c # s) S = (if c = BACKSLASH \<or> c \<in> S then [BACKSLASH, c] else [c]) @ backslash_escape s S"
  by (simp_all add: backslash_escape_def)

text \<open>The text ends at the end of the input or at a terminator.\<close>

definition at_stop :: "u8 set \<Rightarrow> bytes \<Rightarrow> bool" where
  "at_stop stop rest \<longleftrightarrow> rest = [] \<or> hd rest \<in> stop"

lemma unescape_escape:
  assumes "stop \<subseteq> S" and "BACKSLASH \<notin> stop" and "at_stop stop rest"
  shows "unescape stop (backslash_escape s S @ rest) = Some (length (backslash_escape s S), s)"
proof (induction s)
  case Nil
  with assms(3) show ?case by (cases rest) (auto simp: at_stop_def)
next
  case (Cons c s)
  with assms(1,2) show ?case by auto
qed

lemma index_unescaped_escape:
  assumes "stop \<subseteq> S" and "BACKSLASH \<notin> stop" and "at_stop stop rest" and "utf8_valid s"
  shows "index_unescaped (backslash_escape s S @ rest) stop = Ok (length (backslash_escape s S), s)"
  using assms by (simp add: index_unescaped_def unescape_escape)

text \<open>A text that can be a key or a value, and the separators a notation escapes.\<close>

definition clean_pair :: "bytes \<times> bytes \<Rightarrow> bool" where
  "clean_pair kv \<longleftrightarrow> fst kv \<noteq> [] \<and> utf8_valid (fst kv) \<and> utf8_valid (snd kv)"

lemma parse_pair_encode:
  assumes "clean_pair kv" and "{EQ, SEMI} \<subseteq> S" and "at_stop {SEMI} rest"
  shows "parse_pair (encode_pair S kv @ rest) = Ok (kv, if rest = [] then None else Some (tl rest))"
proof -
  let ?k = "backslash_escape (fst kv) S" and ?v = "backslash_escape (snd kv) S"
  have s: "encode_pair S kv @ rest = ?k @ EQ # (?v @ rest)" by (simp add: encode_pair_def)
  have "index_unescaped (?k @ EQ # (?v @ rest)) {EQ, SEMI} = Ok (length ?k, fst kv)"
    by (rule index_unescaped_escape) (use assms in \<open>auto simp: clean_pair_def at_stop_def\<close>)
  moreover have "index_unescaped (?v @ rest) {SEMI} = Ok (length ?v, snd kv)"
    by (rule index_unescaped_escape) (use assms in \<open>auto simp: clean_pair_def\<close>)
  ultimately show ?thesis
    using assms(1) unfolding s parse_pair_def
    by (cases kv) (auto simp: nth_append clean_pair_def drop_Suc)
qed

lemma parse_pairs_encode:
  assumes "kvs \<noteq> []" and "list_all clean_pair kvs" and "{EQ, SEMI} \<subseteq> S"
  shows "parse_pairs (join SEMI (map (encode_pair S) kvs)) args = Ok (fold (\<lambda>(k, v). args_add k v) kvs args)"
  using assms
proof (induction kvs arbitrary: args)
  case (Cons kv kvs)
  obtain k v where kv: "kv = (k, v)" by force
  show ?case
  proof (cases "kvs = []")
    case True
    with parse_pair_encode [of kv S "[]"] Cons.prems kv show ?thesis
      by (subst parse_pairs.simps) (simp add: at_stop_def)
  next
    case False
    then have "join SEMI (map (encode_pair S) (kv # kvs)) =
        encode_pair S kv @ SEMI # join SEMI (map (encode_pair S) kvs)"
      by (cases kvs) simp_all
    with parse_pair_encode [of kv S "SEMI # join SEMI (map (encode_pair S) kvs)"] Cons False kv show ?thesis
      by (subst parse_pairs.simps) (simp add: at_stop_def)
  qed
qed simp

lemma client_parameters_parse:
  assumes "kvs \<noteq> []" and "list_all clean_pair kvs"
  shows "parse_client_parameters (join SEMI (map (encode_pair {EQ, SEMI}) kvs)) =
    Ok (fold (\<lambda>(k, v). args_add k v) kvs args_new)"
proof -
  have "join SEMI (map (encode_pair {EQ, SEMI}) kvs) \<noteq> []"
    using assms(1) by (cases kvs rule: list.exhaust; cases "tl kvs") (auto simp: encode_pair_def)
  with parse_pairs_encode [OF assms subset_refl] show ?thesis by (simp add: parse_client_parameters_def)
qed

definition encode_option :: "u8 set \<Rightarrow> bytes \<times> bytes \<times> bytes \<Rightarrow> bytes" where
  "encode_option S mkv = backslash_escape (fst mkv) S @ COLON # encode_pair S (snd mkv)"

lemma parse_option_encode:
  assumes "m \<noteq> []" and "utf8_valid m" and "clean_pair kv" and "{COLON, EQ, SEMI} \<subseteq> S" and "at_stop {SEMI} rest"
  shows "parse_option (encode_option S (m, kv) @ rest) =
    Ok ((m, fst kv, snd kv), if rest = [] then None else Some (tl rest))"
proof -
  let ?m = "backslash_escape m S" and ?k = "backslash_escape (fst kv) S" and ?v = "backslash_escape (snd kv) S"
  have s: "encode_option S (m, kv) @ rest = ?m @ COLON # (?k @ EQ # (?v @ rest))"
    by (simp add: encode_pair_def encode_option_def)
  have "index_unescaped (?m @ COLON # (?k @ EQ # (?v @ rest))) {COLON, EQ, SEMI} = Ok (length ?m, m)"
    by (rule index_unescaped_escape) (use assms in \<open>auto simp: at_stop_def\<close>)
  moreover have "index_unescaped (?k @ EQ # (?v @ rest)) {EQ, SEMI} = Ok (length ?k, fst kv)"
    by (rule index_unescaped_escape) (use assms in \<open>auto simp: clean_pair_def at_stop_def\<close>)
  moreover have "index_unescaped (?v @ rest) {SEMI} = Ok (length ?v, snd kv)"
    by (rule index_unescaped_escape) (use assms in \<open>auto simp: clean_pair_def\<close>)
  ultimately show ?thesis
    using assms(1,3) unfolding s parse_option_def
    by (auto simp: nth_append clean_pair_def Let_def drop_Suc)
qed

lemma parse_options_encode:
  assumes "mkvs \<noteq> []" and "list_all (\<lambda>(m, kv). m \<noteq> [] \<and> utf8_valid m \<and> clean_pair kv) mkvs"
    and "{COLON, EQ, SEMI} \<subseteq> S"
  shows "parse_options (join SEMI (map (encode_option S) mkvs)) opts =
    Ok (fold (\<lambda>(m, k, v). options_add m k v) mkvs opts)"
  using assms
proof (induction mkvs arbitrary: opts)
  case (Cons mkv mkvs)
  obtain m k v where mkv: "mkv = (m, k, v)" by (metis prod_cases3)
  note one = parse_option_encode [of m "(k, v)" S]
  show ?case
  proof (cases "mkvs = []")
    case True
    with one [of "[]"] Cons.prems mkv show ?thesis
      by (subst parse_options.simps) (simp add: at_stop_def)
  next
    case False
    then have "join SEMI (map (encode_option S) (mkv # mkvs)) =
        encode_option S mkv @ SEMI # join SEMI (map (encode_option S) mkvs)"
      by (cases mkvs) simp_all
    with one [of "SEMI # join SEMI (map (encode_option S) mkvs)"] Cons False mkv show ?thesis
      by (subst parse_options.simps) (simp add: at_stop_def)
  qed
qed simp

text \<open>
  The same for \<open>TOR_PT_SERVER_TRANSPORT_OPTIONS\<close>: a list of (method, key, value)
  written as \<open>method:k=v;...\<close> with \<open>\\\<close>, \<open>:\<close>, \<open>=\<close> and \<open>;\<close> escaped is read back,
  each pair filed under its method in order.
\<close>

theorem server_options_roundtrip:
  assumes "mkvs \<noteq> []" and "list_all (\<lambda>(m, kv). m \<noteq> [] \<and> utf8_valid m \<and> clean_pair kv) mkvs"
  shows "parse_server_transport_options (join SEMI (map (encode_option {COLON, EQ, SEMI}) mkvs)) =
    Ok (fold (\<lambda>(m, k, v). options_add m k v) mkvs Map.empty)"
proof -
  have "join SEMI (map (encode_option {COLON, EQ, SEMI}) mkvs) \<noteq> []"
    using assms(1) by (cases mkvs rule: list.exhaust; cases "tl mkvs") (auto simp: encode_option_def)
  with parse_options_encode [OF assms subset_refl] show ?thesis
    by (simp add: parse_server_transport_options_def)
qed

theorem server_options_roundtrip_witness:
  "parse_server_transport_options (join SEMI (map (encode_option {COLON, EQ, SEMI})
      [(ascii ''obfs4'', ascii ''k'', ascii ''a:b;''), (ascii ''x'', ascii ''y'', [])])) =
    Ok (fold (\<lambda>(m, k, v). options_add m k v)
      [(ascii ''obfs4'', ascii ''k'', ascii ''a:b;''), (ascii ''x'', ascii ''y'', [])] Map.empty)"
  by (rule server_options_roundtrip) (simp_all add: clean_pair_def ascii_def)

section \<open>The stored arguments\<close>

text \<open>What a consumer of arguments relies on: the first value given for a key counts.\<close>

locale arg_store =
  fixes ok :: "'a \<Rightarrow> bool" and get :: "'a \<Rightarrow> bytes \<Rightarrow> bytes option"
    and add :: "bytes \<Rightarrow> bytes \<Rightarrow> 'a \<Rightarrow> 'a" and empty :: 'a
  assumes ok_empty: "ok empty" and ok_add: "ok a \<Longrightarrow> ok (add k v a)"
    and get_empty: "get empty k = None"
    and get_add: "ok a \<Longrightarrow>
      get (add k v a) k' = (if k' = k then Some (case get a k of None \<Rightarrow> v | Some w \<Rightarrow> w) else get a k')"
begin

lemma ok_fold: "ok a \<Longrightarrow> ok (fold (\<lambda>(k, v). add k v) kvs a)"
  by (induction kvs arbitrary: a) (auto simp: ok_add)

lemma get_fold:
  "ok a \<Longrightarrow> get (fold (\<lambda>(k, v). add k v) kvs a) k = (case get a k of Some w \<Rightarrow> Some w | None \<Rightarrow> map_of kvs k)"
  by (induction kvs arbitrary: a) (auto simp: get_add ok_add split: option.splits)

lemma get_all: "get (fold (\<lambda>(k, v). add k v) kvs empty) k = map_of kvs k"
  by (simp add: get_fold get_empty ok_empty)

end

lemma bytes_less_irrefl [simp]: "\<not> bytes_less s s"
  by (induction s) auto

lemma bytes_less_trans: "bytes_less s t \<Longrightarrow> bytes_less t u \<Longrightarrow> bytes_less s u"
proof (induction s t arbitrary: u rule: bytes_less.induct)
  case (2 b t)
  then show ?case by (cases u) auto
next
  case (3 a s b t)
  then show ?case by (cases u) (auto dest: less_trans)
qed simp

lemma bytes_less_total: "s \<noteq> t \<Longrightarrow> bytes_less s t \<or> bytes_less t s"
  by (induction s t rule: bytes_less.induct) (auto simp: neq_iff neq_Nil_conv)

text \<open>The list is strictly sorted by key, as the iteration of a \<open>BTreeMap\<close>.\<close>

fun args_sorted :: "args \<Rightarrow> bool" where
  "args_sorted [] = True"
| "args_sorted ((k, vs) # a) = ((\<forall>k'\<in>fst ` set a. bytes_less k k') \<and> args_sorted a)"

lemma args_add_keys: "fst ` set (args_add k v a) = insert k (fst ` set a)"
  by (induction k v a rule: args_add.induct) auto

lemma args_sorted_add: "args_sorted a \<Longrightarrow> args_sorted (args_add k v a)"
proof (induction k v a rule: args_add.induct)
  case (2 key v k vs a)
  then show ?case
    using bytes_less_total [of key k] by (auto simp: args_add_keys dest: bytes_less_trans)
qed simp

lemma map_of_above: "\<forall>k'\<in>fst ` set a. bytes_less k k' \<Longrightarrow> map_of a k = None"
  by (induction a) auto

lemma args_get_simps [simp]:
  "args_get [] k = None"
  "args_get ((k', vs) # a) k = (if k = k' then (case vs of [] \<Rightarrow> None | v # _ \<Rightarrow> Some v) else args_get a k)"
  by (simp_all add: args_get_def split: list.split)

lemma args_get_above: "\<forall>k'\<in>fst ` set a. bytes_less k k' \<Longrightarrow> args_get a k = None"
  by (simp add: args_get_def map_of_above)

lemma args_get_add:
  "args_sorted a \<Longrightarrow> args_get (args_add k v a) k' =
     (if k' = k then Some (case args_get a k of None \<Rightarrow> v | Some w \<Rightarrow> w) else args_get a k')"
proof (induction k v a rule: args_add.induct)
  case (2 key v k vs a)
  have "args_get ((k, vs) # a) key = None" if "bytes_less key k"
    using that "2.prems" by (intro args_get_above) (auto dest: bytes_less_trans)
  with 2 show ?case by (auto split: list.splits)
qed simp

interpretation pt: arg_store args_sorted args_get args_add args_new
  by unfold_locales (auto simp: args_new_def args_sorted_add args_get_add)

text \<open>
  What a client looks up is what was sent.  After parsing escaped client
  parameters, \<open>get\<close> finds under every key the first value given for it, and nothing
  under a key that was not given; the arguments iterate in key order.
\<close>

theorem client_parameters_get:
  assumes "kvs \<noteq> []" and "list_all clean_pair kvs"
  shows "\<exists>a. parse_client_parameters (join SEMI (map (encode_pair {EQ, SEMI}) kvs)) = Ok a \<and>
    args_sorted a \<and> args_get a = map_of kvs"
  using client_parameters_parse [OF assms] pt.ok_fold [OF pt.ok_empty] pt.get_all by auto

theorem client_parameters_get_witness:
  "\<exists>a. parse_client_parameters (join SEMI (map (encode_pair {EQ, SEMI})
      [(ascii ''k'', ascii ''a;b=''), (ascii ''k'', ascii ''0'')])) = Ok a \<and>
    args_sorted a \<and> args_get a = map_of [(ascii ''k'', ascii ''a;b=''), (ascii ''k'', ascii ''0'')]"
  by (rule client_parameters_get) (simp_all add: clean_pair_def ascii_def)

section \<open>Texts stay UTF-8\<close>

text \<open>The first character of a valid text, and what is left.\<close>

lemma utf8_split:
  assumes "utf8_valid s" and "s \<noteq> []"
  obtains m t where "s = m @ t" and "m \<noteq> []" and "utf8_valid t" and "\<forall>v. utf8_valid (m @ v) = utf8_valid v"
    and "length m = 1 \<and> hd m < 128 \<or> (\<forall>b\<in>set m. 128 \<le> b)"
proof -
  obtain a s1 where s: "s = a # s1" using assms(2) by (cases s) auto
  show thesis
  proof (cases "a < 128")
    case True
    with assms(1) s show thesis by (intro that [of "[a]" s1]) auto
  next
    case a: False
    with assms(1) s obtain b s2 where s2: "s1 = b # s2" by (cases s1) auto
    show thesis
    proof (cases "194 \<le> a \<and> a \<le> 223")
      case True
      with assms(1) s s2 a show thesis by (intro that [of "[a, b]" s2]) (auto simp: cont_def)
    next
      case two: False
      with assms(1) s s2 a obtain c s3 where s3: "s2 = c # s3" by (cases s2) auto
      show thesis
      proof (cases "224 \<le> a \<and> a \<le> 239")
        case True
        with assms(1) s s2 s3 a two show thesis
          by (intro that [of "[a, b, c]" s3]) (auto simp: cont_def)
      next
        case False
        with assms(1) s s2 s3 a two obtain d s4 where s4: "s3 = d # s4" by (cases s3) auto
        from assms(1) s s2 s3 s4 a two False show thesis
          by (intro that [of "[a, b, c, d]" s4]) (auto simp: cont_def)
      qed
    qed
  qed
qed

lemma unescape_wide:
  assumes "\<forall>b\<in>set m. 128 \<le> b" and "\<forall>b\<in>stop. b < 128"
  shows "unescape stop (m @ s) = map_option (\<lambda>(i, u). (length m + i, m @ u)) (unescape stop s)"
  using assms(1)
proof (induction m)
  case Nil
  then show ?case by (cases "unescape stop s") auto
next
  case (Cons b m)
  then have "b \<notin> stop" "b \<noteq> BACKSLASH" using assms(2) by (auto simp: word_less_nat_alt word_le_nat_alt)
  with Cons show ?case by (cases "unescape stop s") auto
qed

lemma unescape_valid:
  assumes "utf8_valid s" and "\<forall>b\<in>stop. b < 128" and "unescape stop s = Some (i, u)"
  shows "utf8_valid u \<and> utf8_valid (drop i s) \<and> (i < length s \<longrightarrow> s ! i \<in> stop)"
  using assms(1,3)
proof (induction "length s" arbitrary: s i u rule: less_induct)
  case less
  show ?case
  proof (cases "s = []")
    case False
    obtain m t where m: "s = m @ t" "m \<noteq> []" "utf8_valid t" "\<forall>v. utf8_valid (m @ v) = utf8_valid v"
        "length m = 1 \<and> hd m < 128 \<or> (\<forall>b\<in>set m. 128 \<le> b)"
      using utf8_split [OF less.prems(1) False] by blast
    have shorter: "length t < length s" using m(1,2) by simp
    from m(5) show ?thesis
    proof
      assume wide: "\<forall>b\<in>set m. 128 \<le> b"
      with less.prems(2) m(1) unescape_wide [OF wide assms(2)] obtain j v where
        t: "unescape stop t = Some (j, v)" "i = length m + j" "u = m @ v" by auto
      from less.hyps [OF shorter m(3) t(1)] t m show ?thesis by (auto simp: nth_append)
    next
      assume "length m = 1 \<and> hd m < 128"
      then obtain b where b: "m = [b]" "b < 128" by (cases m) auto
      consider "b \<in> stop" | "b \<notin> stop" "b \<noteq> BACKSLASH" | "b \<notin> stop" "b = BACKSLASH" by blast
      then show ?thesis
      proof cases
        case 1
        with less.prems m b show ?thesis by auto
      next
        case 2
        with less.prems(2) m b obtain j v where t: "unescape stop t = Some (j, v)" "i = j + 1" "u = b # v" by auto
        from less.hyps [OF shorter m(3) t(1)] t m b show ?thesis by auto
      next
        case 3
        with less.prems(2) m b have "t \<noteq> []" by (cases t) auto
        then obtain n r where n: "t = n @ r" "n \<noteq> []" "utf8_valid r" "\<forall>v. utf8_valid (n @ v) = utf8_valid v"
            "length n = 1 \<and> hd n < 128 \<or> (\<forall>b\<in>set n. 128 \<le> b)"
          using utf8_split [OF m(3)] by blast
        then obtain c n' where c: "n = c # n'" "\<forall>b\<in>set n'. 128 \<le> b" by (cases n) auto
        from 3 less.prems(2) m(1) b n(1) c unescape_wide [OF c(2) assms(2), of r] obtain j v where
          r: "unescape stop r = Some (j, v)" "i = length n + j + 1" "u = n @ v" by auto
        have "length r < length s" using m(1) n(1) b by simp
        from less.hyps [OF this n(3) r(1)] r m n b show ?thesis by (auto simp: nth_append)
      qed
    qed
  qed (use less.prems in auto)
qed

abbreviation terminators :: "u8 set" where "terminators \<equiv> {COLON, EQ, SEMI}"

lemma index_unescaped_valid:
  assumes "utf8_valid s" and "stop \<subseteq> terminators"
  shows "index_unescaped s stop = Err (DanglingEscape s) \<or>
    (\<exists>i u. index_unescaped s stop = Ok (i, u) \<and> (i < length s \<longrightarrow> utf8_valid (drop (i + 1) s)))"
proof (cases "unescape stop s")
  case (Some iu)
  then obtain i u where iu: "unescape stop s = Some (i, u)" by (cases iu) auto
  have ascii: "\<forall>b\<in>stop. b < 128" using assms(2) by auto
  note valid = unescape_valid [OF assms(1) ascii iu]
  have "utf8_valid (drop (i + 1) s)" if "i < length s"
  proof -
    have "drop i s = s ! i # drop (i + 1) s" using that by (simp add: Cons_nth_drop_Suc)
    with valid that ascii show ?thesis by auto
  qed
  with iu valid show ?thesis by (auto simp: index_unescaped_def)
qed (simp add: index_unescaped_def)

definition rest_valid :: "('a \<times> bytes option, args_error) res \<Rightarrow> bool" where
  "rest_valid r \<longleftrightarrow>
     (case r of Ok (_, rest) \<Rightarrow> (case rest of None \<Rightarrow> True | Some s \<Rightarrow> utf8_valid s)
      | Err (BadUtf8 _) \<Rightarrow> False | Err _ \<Rightarrow> True | Panic \<Rightarrow> False)"

lemma rest_valid_simps [simp]:
  "rest_valid (Ok (x, None))" "rest_valid (Ok (x, Some s)) \<longleftrightarrow> utf8_valid s"
  "rest_valid (Err (DanglingEscape s))" "rest_valid (Err (NoEquals s))" "rest_valid (Err (NoColon s))"
  "rest_valid (Err (EmptyKey s))" "rest_valid (Err (EmptyMethod s))"
  by (simp_all add: rest_valid_def)

lemma index_unescaped_cases:
  assumes "utf8_valid s" and "stop \<subseteq> terminators"
  obtains "index_unescaped s stop = Err (DanglingEscape s)"
  | i u where "index_unescaped s stop = Ok (i, u)" and "length s \<le> i"
  | i u where "index_unescaped s stop = Ok (i, u)" and "i < length s" and "utf8_valid (drop (i + 1) s)"
  using index_unescaped_valid [OF assms] by (metis not_le_imp_less)

lemma parse_pair_valid:
  assumes "utf8_valid s"
  shows "rest_valid (parse_pair s)"
proof (rule index_unescaped_cases [OF assms, of "{EQ, SEMI}"])
  fix i u
  assume key: "index_unescaped s {EQ, SEMI} = Ok (i, u)" and i: "i < length s" "utf8_valid (drop (i + 1) s)"
  show ?thesis
    by (rule index_unescaped_cases [OF i(2), of "{SEMI}"]) (use key i in \<open>auto simp: parse_pair_def Let_def\<close>)
qed (auto simp: parse_pair_def)

lemma parse_option_valid:
  assumes "utf8_valid s"
  shows "rest_valid (parse_option s)"
proof (rule index_unescaped_cases [OF assms, of "{COLON, EQ, SEMI}"])
  fix i u
  assume m: "index_unescaped s {COLON, EQ, SEMI} = Ok (i, u)" and i: "i < length s" "utf8_valid (drop (i + 1) s)"
  show ?thesis
  proof (rule index_unescaped_cases [OF i(2), of "{EQ, SEMI}"])
    fix j w
    assume k: "index_unescaped (drop (i + 1) s) {EQ, SEMI} = Ok (j, w)" and j: "j < length (drop (i + 1) s)"
      "utf8_valid (drop (j + 1) (drop (i + 1) s))"
    show ?thesis
      by (rule index_unescaped_cases [OF j(2), of "{SEMI}"])
        (use m i k j in \<open>auto simp: parse_option_def Let_def simp del: drop_drop\<close>)
  qed (use m i in \<open>auto simp: parse_option_def Let_def\<close>)
qed (auto simp: parse_option_def)

lemma parse_pairs_valid: "utf8_valid s \<Longrightarrow> parse_pairs s args \<noteq> Panic \<and> parse_pairs s args \<noteq> Err (BadUtf8 t)"
proof (induction s args rule: parse_pairs.induct)
  case (1 s args)
  show ?case
  proof (cases "parse_pair s")
    case (Ok x)
    then obtain k v rest where ok: "parse_pair s = Ok ((k, v), rest)" by (metis prod.exhaust)
    show ?thesis
    proof (cases rest)
      case None
      with ok show ?thesis by (subst (1 2) parse_pairs.simps) simp
    next
      case (Some r)
      with ok parse_pair_valid [OF 1(2)] have "utf8_valid r" by simp
      with 1(1) [of _ "(k, v)" rest k v r] ok Some show ?thesis by (subst (1 2) parse_pairs.simps) simp
    qed
  qed (use parse_pair_valid [OF 1(2)] in \<open>subst (1 2) parse_pairs.simps; auto simp: rest_valid_def\<close>)+
qed

lemma parse_options_valid: "utf8_valid s \<Longrightarrow> parse_options s opts \<noteq> Panic \<and> parse_options s opts \<noteq> Err (BadUtf8 t)"
proof (induction s opts rule: parse_options.induct)
  case (1 s opts)
  show ?case
  proof (cases "parse_option s")
    case (Ok x)
    then obtain m k v rest where ok: "parse_option s = Ok ((m, k, v), rest)" by (metis prod.exhaust)
    show ?thesis
    proof (cases rest)
      case None
      with ok show ?thesis by (subst (1 2) parse_options.simps) simp
    next
      case (Some r)
      with ok parse_option_valid [OF 1(2)] have "utf8_valid r" by simp
      with 1(1) [of _ "(m, k, v)" rest m "(k, v)" k v r] ok Some show ?thesis
        by (subst (1 2) parse_options.simps) simp
    qed
  qed (use parse_option_valid [OF 1(2)] in \<open>subst (1 2) parse_options.simps; auto simp: rest_valid_def\<close>)+
qed

text \<open>
  Unescaping cannot break a text.  On any input that is UTF-8 (every \<open>&str\<close> is)
  the two parsers neither panic nor report invalid UTF-8: removing backslashes and
  cutting at terminators never splits a character.
\<close>

theorem parsers_keep_utf8:
  assumes "utf8_valid s"
  shows "parse_client_parameters s \<noteq> Panic \<and> parse_client_parameters s \<noteq> Err (BadUtf8 t) \<and>
    parse_server_transport_options s \<noteq> Panic \<and> parse_server_transport_options s \<noteq> Err (BadUtf8 t)"
  using parse_pairs_valid [OF assms] parse_options_valid [OF assms]
  by (simp add: parse_client_parameters_def parse_server_transport_options_def)

theorem parsers_keep_utf8_witness:
  "let s = [195, 169, BACKSLASH, 195, 169, EQ, 226, 130, 172] in
   parse_client_parameters s \<noteq> Panic \<and> parse_client_parameters s \<noteq> Err (BadUtf8 []) \<and>
   parse_server_transport_options s \<noteq> Panic \<and> parse_server_transport_options s \<noteq> Err (BadUtf8 [])"
  unfolding Let_def by (rule parsers_keep_utf8) (simp add: cont_def)

end
