(* ===== verification/Obfs4State.thy ===== *)
theory Obfs4State
  imports Conn Handshake PtArgs
begin

text \<open>
  Where an obfs4 bridge's identity comes from and how it is published:
  \<open>src/transports/obfs4/domain/state.rs\<close>, the argument names and the server factory
  of \<open>transport.rs\<close>, and the client's argument parser in \<open>client.rs\<close>.  Base64 and hex
  are third-party crates and parameters.  The state store is a record of its
  contents; \<open>fails k\<close> says that its \<open>k\<close>-th operation returns an error.
\<close>

section \<open>Texts and numbers\<close>

definition text_of :: "bytes \<Rightarrow> string" where "text_of bs = map (\<lambda>b. char_of (unat b)) bs"

lemma text_of_ascii [simp]: "text_of (ascii s) = s"
proof -
  have "char_of (unat (word_of_nat (of_char c) :: u8)) = c" for c :: char by simp
  then show ?thesis by (simp add: text_of_def ascii_def comp_def)
qed

text \<open>\<open>str::parse::<i64>\<close>: an optional sign and decimal digits, within range.\<close>

definition digits_value :: "bytes \<Rightarrow> int option" where
  "digits_value s =
     (if s \<noteq> [] \<and> list_all (\<lambda>b. 48 \<le> b \<and> b \<le> 57) s
      then Some (foldl (\<lambda>v b. 10 * v + (int (unat b) - 48)) 0 s) else None)"

definition parse_i64 :: "bytes \<Rightarrow> int option" where
  "parse_i64 s =
     (case (case s of
              [] \<Rightarrow> None
            | b # t \<Rightarrow> if b = 45 then map_option uminus (digits_value t)
                       else if b = 43 then digits_value t else digits_value s) of
        None \<Rightarrow> None
      | Some v \<Rightarrow> if - (2 ^ 63) \<le> v \<and> v < 2 ^ 63 then Some v else None)"

section \<open>Argument names\<close>

definition NODE_ID_ARG :: bytes where "NODE_ID_ARG = ascii ''node-id''"
definition PUBLIC_KEY_ARG :: bytes where "PUBLIC_KEY_ARG = ascii ''public-key''"
definition PRIVATE_KEY_ARG :: bytes where "PRIVATE_KEY_ARG = ascii ''private-key''"
definition SEED_ARG :: bytes where "SEED_ARG = ascii ''drbg-seed''"
definition IAT_ARG :: bytes where "IAT_ARG = ascii ''iat-mode''"
definition CERT_ARG :: bytes where "CERT_ARG = ascii ''cert''"

definition MAX_CLOSE_DELAY :: int where "MAX_CLOSE_DELAY = 60"

lemma arg_names_distinct [simp]: "CERT_ARG \<noteq> IAT_ARG" "IAT_ARG \<noteq> CERT_ARG"
  by (simp_all add: CERT_ARG_def IAT_ARG_def)

section \<open>The certificate\<close>

record base64 =
  b64_encode :: "bytes \<Rightarrow> bytes"
  b64_decode :: "bytes \<Rightarrow> bytes option"

definition CERT_SUFFIX :: bytes where "CERT_SUFFIX = ascii ''==''"
definition CERT_LENGTH :: nat where "CERT_LENGTH = NODE_ID_LENGTH + PUBLIC_KEY_LENGTH"

definition strip_suffix :: "bytes \<Rightarrow> bytes \<Rightarrow> bytes option" where
  "strip_suffix suf s =
     (if length suf \<le> length s \<and> drop (length s - length suf) s = suf
      then Some (take (length s - length suf) s) else None)"

definition cert_to_string :: "base64 \<Rightarrow> bytes \<Rightarrow> bytes \<Rightarrow> bytes" where
  "cert_to_string b64 node_id public =
     (let encoded = b64_encode b64 (node_id @ public)
      in case strip_suffix CERT_SUFFIX encoded of Some s \<Rightarrow> s | None \<Rightarrow> encoded)"

datatype cert_error = CertBase64 | CertLength nat

definition cert_from_string :: "base64 \<Rightarrow> bytes \<Rightarrow> (bytes \<times> bytes, cert_error) res" where
  "cert_from_string b64 encoded =
     (case b64_decode b64 (encoded @ CERT_SUFFIX) of
        None \<Rightarrow> Err CertBase64
      | Some decoded \<Rightarrow>
          if length decoded \<noteq> CERT_LENGTH then Err (CertLength (length decoded))
          else (case (node_id_new (take NODE_ID_LENGTH decoded), public_key_new (drop NODE_ID_LENGTH decoded)) of
                  (Ok nid, Ok public) \<Rightarrow> Ok (nid, public)
                | _ \<Rightarrow> Panic))"

text \<open>What is used of base64: decoding undoes encoding, the text is ASCII, and 52 bytes,
  one more than a multiple of three, are padded with two equals signs.\<close>

definition base64_ok :: "base64 \<Rightarrow> bool" where
  "base64_ok b64 \<longleftrightarrow> (\<forall>bs. b64_decode b64 (b64_encode b64 bs) = Some bs) \<and>
     (\<forall>bs. list_all (\<lambda>c. c < 128) (b64_encode b64 bs)) \<and>
     (\<forall>bs. length bs mod 3 = 1 \<longrightarrow> (\<exists>t. b64_encode b64 bs = t @ ascii ''==''))"

lemma cert_roundtrip:
  assumes "base64_ok b64" and "length nid = 20" and "length public = 32"
  shows "cert_from_string b64 (cert_to_string b64 nid public) = Ok (nid, public)"
proof -
  have "length (nid @ public) mod 3 = 1" using assms(2,3) by simp
  then obtain t where t: "b64_encode b64 (nid @ public) = t @ CERT_SUFFIX"
    using assms(1) unfolding base64_ok_def CERT_SUFFIX_def by blast
  then have "cert_to_string b64 nid public = t"
    by (simp add: cert_to_string_def strip_suffix_def)
  moreover have "b64_decode b64 (t @ CERT_SUFFIX) = Some (nid @ public)"
    using assms(1) t unfolding base64_ok_def by metis
  ultimately show ?thesis
    using assms(2,3) by (simp add: cert_from_string_def CERT_LENGTH_def node_id_new_def public_key_new_def)
qed

section \<open>The bridge's state\<close>

record server_state =
  ss_node_id :: bytes
  ss_identity_key :: keypair
  ss_drbg_seed :: bytes
  ss_iat_mode :: iat_mode

fun iat_mode_number :: "iat_mode \<Rightarrow> int" where
  "iat_mode_number IatNone = 0"
| "iat_mode_number IatEnabled = 1"
| "iat_mode_number IatParanoid = 2"

definition state_cert :: "base64 \<Rightarrow> server_state \<Rightarrow> bytes" where
  "state_cert b64 st = cert_to_string b64 (ss_node_id st) (kp_public (ss_identity_key st))"

definition client_string :: "base64 \<Rightarrow> server_state \<Rightarrow> bytes" where
  "client_string b64 st =
     CERT_ARG @ [EQ] @ state_cert b64 st @ ascii '' '' @ IAT_ARG @ [EQ] @
     ascii (dec_int (iat_mode_number (ss_iat_mode st)))"

definition newline :: bytes where "newline = [10]"

definition bridge_line_file :: "base64 \<Rightarrow> server_state \<Rightarrow> bytes" where
  "bridge_line_file b64 st =
     ascii ''# obfs4 torrc client bridge line'' @ newline @
     ascii ''#'' @ newline @
     ascii ''# This file is an automatically generated bridge line based on'' @ newline @
     ascii ''# the current lyrebird configuration.  EDITING IT WILL HAVE NO'' @ newline @
     ascii ''# EFFECT.'' @ newline @
     ascii ''#'' @ newline @
     ascii ''# Before distributing this Bridge, edit the placeholder fields'' @ newline @
     ascii ''# to contain the actual values:'' @ newline @
     ascii ''#  <IP ADDRESS>  - The public IP address of your obfs4 bridge.'' @ newline @
     ascii ''#  <PORT>        - The TCP/IP port of your obfs4 bridge.'' @ newline @
     ascii ''#  <FINGERPRINT> - The bridge'' @ [39] @ ascii ''s fingerprint.'' @ newline @ newline @
     ascii ''Bridge obfs4 <IP ADDRESS>:<PORT> <FINGERPRINT> '' @ client_string b64 st @ newline"

record stored_state =
  js_node_id :: string
  js_private_key :: string
  js_public_key :: string
  js_drbg_seed :: string
  js_iat_mode :: int

definition stored_default :: stored_state where
  "stored_default = \<lparr>js_node_id = [], js_private_key = [], js_public_key = [], js_drbg_seed = [], js_iat_mode = 0\<rparr>"

record store =
  sto_state :: "stored_state option"
  sto_line :: "bytes option"
  sto_ops :: nat

datatype state_error = MissingArg bytes | MalformedIat bytes | InvalidIat int
  | StateKey key_error | StateSeed seed_error | StoreFailed nat

definition store_op :: "(nat \<Rightarrow> bool) \<Rightarrow> (store \<Rightarrow> store) \<Rightarrow> store \<Rightarrow> state_error option \<times> store" where
  "store_op fails f s =
     (let k = sto_ops s; s = s\<lparr>sto_ops := k + 1\<rparr>
      in if fails k then (Some (StoreFailed k), s) else (None, f s))"

definition store_save :: "(nat \<Rightarrow> bool) \<Rightarrow> stored_state \<Rightarrow> store \<Rightarrow> state_error option \<times> store" where
  "store_save fails js = store_op fails (\<lambda>s. s\<lparr>sto_state := Some js\<rparr>)"

definition store_save_line :: "(nat \<Rightarrow> bool) \<Rightarrow> bytes \<Rightarrow> store \<Rightarrow> state_error option \<times> store" where
  "store_save_line fails line = store_op fails (\<lambda>s. s\<lparr>sto_line := Some line\<rparr>)"

definition state_of_stored :: "'p crypto \<Rightarrow> stored_state \<Rightarrow> (server_state, state_error) res" where
  "state_of_stored C js =
     (case node_id_from_hex C (js_node_id js) of
        Err e \<Rightarrow> Err (StateKey e) | Panic \<Rightarrow> Panic
      | Ok nid \<Rightarrow>
          (case keypair_from_hex C (js_private_key js) of
             Err e \<Rightarrow> Err (StateKey e) | Panic \<Rightarrow> Panic
           | Ok key \<Rightarrow>
               (case seed_from_hex (c_hex_decode C) (js_drbg_seed js) of
                  Err e \<Rightarrow> Err (StateSeed e) | Panic \<Rightarrow> Panic
                | Ok seed \<Rightarrow>
                    (case iat_mode_from_int (js_iat_mode js) of
                       None \<Rightarrow> Err (InvalidIat (js_iat_mode js))
                     | Some iat \<Rightarrow> Ok \<lparr>ss_node_id = nid, ss_identity_key = key, ss_drbg_seed = seed,
                         ss_iat_mode = iat\<rparr>))))"

text \<open>\<open>state_from_stored\<close>: the state is checked first, then the line and the state saved.\<close>

definition state_from_stored :: "'p crypto \<Rightarrow> base64 \<Rightarrow> (nat \<Rightarrow> bool) \<Rightarrow> stored_state \<Rightarrow> store \<Rightarrow>
    (server_state, state_error) res \<times> store" where
  "state_from_stored C b64 fails js s =
     (case state_of_stored C js of
        Ok st \<Rightarrow>
          (case store_save_line fails (bridge_line_file b64 st) s of
             (Some e, s) \<Rightarrow> (Err e, s)
           | (None, s) \<Rightarrow>
               (case store_save fails js s of (Some e, s) \<Rightarrow> (Err e, s) | (None, s) \<Rightarrow> (Ok st, s)))
      | r \<Rightarrow> (r, s))"

text \<open>A fresh identity; \<open>None\<close> if key generation never ends.\<close>

definition new_state :: "'p crypto \<Rightarrow> (nat \<Rightarrow> bool) \<Rightarrow> (nat \<Rightarrow> bytes) \<Rightarrow> store \<Rightarrow>
    ((stored_state, state_error) res \<times> store) option" where
  "new_state C fails entropy s =
     (let (raw_id, entropy) = csrand_bytes NODE_ID_LENGTH entropy
      in case keypair_new C False entropy of
           None \<Rightarrow> None
         | Some (identity, entropy) \<Rightarrow>
             let (seed, entropy) = csrand_bytes SEED_LENGTH entropy;
                 js = \<lparr>js_node_id = c_hex_encode C raw_id, js_private_key = private_hex C identity,
                       js_public_key = c_hex_encode C (kp_public identity),
                       js_drbg_seed = seed_hex (c_hex_encode C) seed, js_iat_mode = iat_mode_number IatNone\<rparr>
             in Some (case store_save fails js s of (Some e, s) \<Rightarrow> (Err e, s) | (None, s) \<Rightarrow> (Ok js, s)))"

text \<open>The stored state that the arguments select, before \<open>iat-mode\<close> overrides it.\<close>

definition select_state :: "'p crypto \<Rightarrow> (nat \<Rightarrow> bool) \<Rightarrow> args \<Rightarrow> (nat \<Rightarrow> bytes) \<Rightarrow> store \<Rightarrow>
    ((stored_state, state_error) res \<times> store) option" where
  "select_state C fails args entropy s =
     (case (args_get args PRIVATE_KEY_ARG, args_get args NODE_ID_ARG, args_get args SEED_ARG) of
        (None, None, None) \<Rightarrow>
          (case store_op fails (\<lambda>s. s) s of
             (Some e, s) \<Rightarrow> Some (Err e, s)
           | (None, s) \<Rightarrow>
               (case sto_state s of
                  Some stored \<Rightarrow> Some (Ok stored, s)
                | None \<Rightarrow> new_state C fails entropy s))
      | (None, _, _) \<Rightarrow> Some (Err (MissingArg PRIVATE_KEY_ARG), s)
      | (_, None, _) \<Rightarrow> Some (Err (MissingArg NODE_ID_ARG), s)
      | (_, _, None) \<Rightarrow> Some (Err (MissingArg SEED_ARG), s)
      | (Some k, Some n, Some d) \<Rightarrow>
          Some (Ok (stored_default\<lparr>js_private_key := text_of k, js_node_id := text_of n,
            js_drbg_seed := text_of d\<rparr>), s))"

definition override_iat :: "args \<Rightarrow> stored_state \<Rightarrow> (stored_state, state_error) res" where
  "override_iat args js =
     (case args_get args IAT_ARG of
        None \<Rightarrow> Ok js
      | Some iat \<Rightarrow>
          (case parse_i64 iat of None \<Rightarrow> Err (MalformedIat iat) | Some v \<Rightarrow> Ok (js\<lparr>js_iat_mode := v\<rparr>)))"

definition server_state_from_args :: "'p crypto \<Rightarrow> base64 \<Rightarrow> (nat \<Rightarrow> bool) \<Rightarrow> args \<Rightarrow> (nat \<Rightarrow> bytes) \<Rightarrow>
    store \<Rightarrow> ((server_state, state_error) res \<times> store) option" where
  "server_state_from_args C b64 fails args entropy s =
     (case select_state C fails args entropy s of
        None \<Rightarrow> None
      | Some (Ok js, s) \<Rightarrow>
          Some (case override_iat args js of
                  Ok js \<Rightarrow> state_from_stored C b64 fails js s
                | Err e \<Rightarrow> (Err e, s) | Panic \<Rightarrow> (Panic, s))
      | Some (Err e, s) \<Rightarrow> Some (Err e, s)
      | Some (Panic, s) \<Rightarrow> Some (Panic, s))"

section \<open>The client's arguments\<close>

record client_params =
  cp_node_id :: bytes
  cp_public_key :: bytes
  cp_session_key :: keypair
  cp_iat_mode :: iat_mode

datatype client_arg_error = ClientMissing bytes | ClientCert cert_error | ClientKey key_error
  | ClientIat bytes

definition client_identity :: "'p crypto \<Rightarrow> base64 \<Rightarrow> args \<Rightarrow> (bytes \<times> bytes, client_arg_error) res" where
  "client_identity C b64 args =
     (case args_get args CERT_ARG of
        Some cert \<Rightarrow>
          (case cert_from_string b64 cert of
             Ok x \<Rightarrow> Ok x | Err e \<Rightarrow> Err (ClientCert e) | Panic \<Rightarrow> Panic)
      | None \<Rightarrow>
          (case args_get args NODE_ID_ARG of
             None \<Rightarrow> Err (ClientMissing NODE_ID_ARG)
           | Some n \<Rightarrow>
               (case node_id_from_hex C (text_of n) of
                  Err e \<Rightarrow> Err (ClientKey e) | Panic \<Rightarrow> Panic
                | Ok nid \<Rightarrow>
                    (case args_get args PUBLIC_KEY_ARG of
                       None \<Rightarrow> Err (ClientMissing PUBLIC_KEY_ARG)
                     | Some p \<Rightarrow>
                         (case public_key_from_hex C (text_of p) of
                            Err e \<Rightarrow> Err (ClientKey e) | Panic \<Rightarrow> Panic
                          | Ok public \<Rightarrow> Ok (nid, public))))))"

definition client_iat :: "args \<Rightarrow> (iat_mode, client_arg_error) res" where
  "client_iat args =
     (case args_get args IAT_ARG of
        None \<Rightarrow> Err (ClientMissing IAT_ARG)
      | Some iat \<Rightarrow>
          (case Option.bind (parse_i64 iat) iat_mode_from_int of
             None \<Rightarrow> Err (ClientIat iat) | Some m \<Rightarrow> Ok m))"

text \<open>\<open>None\<close> if key generation never ends.\<close>

definition client_parse_args :: "'p crypto \<Rightarrow> base64 \<Rightarrow> args \<Rightarrow> (nat \<Rightarrow> bytes) \<Rightarrow>
    ((client_params, client_arg_error) res \<times> (nat \<Rightarrow> bytes)) option" where
  "client_parse_args C b64 args entropy =
     (case client_identity C b64 args of
        Err e \<Rightarrow> Some (Err e, entropy) | Panic \<Rightarrow> Some (Panic, entropy)
      | Ok (nid, public) \<Rightarrow>
          (case client_iat args of
             Err e \<Rightarrow> Some (Err e, entropy) | Panic \<Rightarrow> Some (Panic, entropy)
           | Ok iat \<Rightarrow>
               map_option (\<lambda>(key, entropy).
                   (Ok \<lparr>cp_node_id = nid, cp_public_key = public, cp_session_key = key, cp_iat_mode = iat\<rparr>,
                    entropy))
                 (keypair_new C True entropy)))"

section \<open>What the bridge publishes, the client understands\<close>

text \<open>The arguments \<open>server_factory\<close> puts on the SMETHOD line.\<close>

definition published_args :: "base64 \<Rightarrow> server_state \<Rightarrow> args" where
  "published_args b64 st =
     args_add IAT_ARG (ascii (dec_int (iat_mode_number (ss_iat_mode st))))
       (args_add CERT_ARG (state_cert b64 st) args_new)"

lemma utf8_valid_ascii: "list_all (\<lambda>c. c < 128) s \<Longrightarrow> utf8_valid s"
  by (induction s) simp_all

lemma parse_iat_number: "Option.bind (parse_i64 (ascii (dec_int (iat_mode_number m)))) iat_mode_from_int = Some m"
proof -
  have "dec_int 0 = ''0''" "dec_int 1 = ''1''" "dec_int 2 = ''2''" by code_simp+
  then show ?thesis
    by (cases m) (simp_all add: ascii_def parse_i64_def digits_value_def iat_mode_from_int_def)
qed

lemma iat_text_ascii: "list_all (\<lambda>c. c < 128) (ascii (dec_int (iat_mode_number m)))"
proof -
  have "dec_int 0 = ''0''" "dec_int 1 = ''1''" "dec_int 2 = ''2''" by code_simp+
  then show ?thesis by (cases m) (simp_all add: ascii_def)
qed

lemma list_all_append_left: "list_all P (xs @ ys) \<Longrightarrow> list_all P xs" by simp

lemma cert_text_ascii: "base64_ok b64 \<Longrightarrow> list_all (\<lambda>c. c < 128) (cert_to_string b64 nid public)"
proof -
  assume ok: "base64_ok b64"
  let ?e = "b64_encode b64 (nid @ public)"
  have "list_all (\<lambda>c. c < 128) ?e" using ok unfolding base64_ok_def by blast
  then have "list_all (\<lambda>c. c < 128) (take n ?e)" for n
    by (metis append_take_drop_id list_all_append_left)
  with \<open>list_all (\<lambda>c. c < 128) ?e\<close> show ?thesis
    by (simp add: cert_to_string_def strip_suffix_def Let_def)
qed

lemma published_pairs:
  "args_pairs (published_args b64 st) =
     [(CERT_ARG, state_cert b64 st), (IAT_ARG, ascii (dec_int (iat_mode_number (ss_iat_mode st))))]"
  by (simp add: published_args_def args_new_def args_pairs_def CERT_ARG_def IAT_ARG_def)
    (simp add: ascii_def)

text \<open>
  C16: the arguments a bridge publishes are all a client needs.  Carried to the client
  in its own notation, escaped or not, they parse back to the bridge's node id, its
  public key and its IAT mode.
\<close>

theorem published_args_identify:
  assumes "base64_ok b64" and "length (ss_node_id st) = 20" and "length (kp_public (ss_identity_key st)) = 32"
  shows "\<exists>a. parse_client_parameters (join SEMI (map (encode_pair {EQ, SEMI}) (args_pairs (published_args b64 st)))) = Ok a \<and>
    client_identity C b64 a = Ok (ss_node_id st, kp_public (ss_identity_key st)) \<and>
    client_iat a = Ok (ss_iat_mode st)"
proof -
  let ?kvs = "args_pairs (published_args b64 st)"
  have "list_all clean_pair ?kvs"
    using cert_text_ascii [OF assms(1)] iat_text_ascii
    by (simp add: published_pairs clean_pair_def state_cert_def utf8_valid_ascii)
      (simp add: CERT_ARG_def IAT_ARG_def ascii_def)
  then obtain a where a: "parse_client_parameters (join SEMI (map (encode_pair {EQ, SEMI}) ?kvs)) = Ok a"
      and get: "\<And>k. args_get a k = map_of ?kvs k"
    using client_parameters_parse [of ?kvs] pt.get_all [of ?kvs] by (auto simp: published_pairs)
  have "client_identity C b64 a = Ok (ss_node_id st, kp_public (ss_identity_key st))"
    using cert_roundtrip [OF assms] by (simp add: client_identity_def get published_pairs state_cert_def)
  moreover have "client_iat a = Ok (ss_iat_mode st)"
    by (simp add: client_iat_def get published_pairs parse_iat_number)
  ultimately show ?thesis using a by blast
qed

text \<open>An encoding of the required shape: two letters for each byte.\<close>

definition letters :: "u8 \<Rightarrow> bytes" where
  "letters b = [b div 16 + 65, b mod 16 + 65]"

fun unletters :: "bytes \<Rightarrow> bytes option" where
  "unletters (x # y # s) =
     (if x = 61 then Some [] else map_option (Cons ((x - 65) * 16 + (y - 65))) (unletters s))"
| "unletters _ = Some []"

definition letter64 :: base64 where
  "letter64 = \<lparr>b64_encode = \<lambda>bs. concat (map letters bs) @ [61, 61], b64_decode = unletters\<rparr>"

lemma unat_digits: "unat ((b :: u8) div 16) < 16" "unat ((b :: u8) mod 16) < 16"
  using unat_byte_less [of b] by (simp_all add: unat_div_distrib unat_mod_distrib)

lemma digit_range:
  assumes "unat (d :: u8) < 16"
  shows "unat (d + 65) = unat d + 65"
  using assms by (simp add: unat_word_ariths)

lemma unletters_letters: "unletters (concat (map letters bs) @ [61, 61]) = Some bs"
proof (induction bs)
  case (Cons b bs)
  have "b div 16 + 65 \<noteq> 61"
  proof
    assume "b div 16 + 65 = 61"
    then have "unat (b div 16 + 65) = unat (61 :: u8)" by (rule arg_cong)
    with digit_range [OF unat_digits(1)] show False by simp
  qed
  moreover have "(b div 16) * 16 + b mod 16 = b" by (rule div_mult_mod_eq)
  ultimately show ?case using Cons by (simp add: letters_def)
qed simp

lemma letter64_ok: "base64_ok letter64"
proof -
  have "d + 65 < 128" if "unat (d :: u8) < 16" for d
    using digit_range [OF that] that by (simp add: word_less_nat_alt)
  with unat_digits have "list_all (\<lambda>c. c < 128) (letters b)" for b by (simp add: letters_def)
  then have "list_all (\<lambda>c. c < 128) (concat (map letters bs))" for bs
    by (induction bs) simp_all
  then show ?thesis
    by (simp add: base64_ok_def letter64_def unletters_letters ascii_def)
qed

definition plain_state :: server_state where
  "plain_state = \<lparr>ss_node_id = replicate 20 7, ss_identity_key = plain_key 3, ss_drbg_seed = replicate 24 0,
     ss_iat_mode = IatParanoid\<rparr>"

theorem published_args_identify_witness:
  "\<exists>a. parse_client_parameters (join SEMI (map (encode_pair {EQ, SEMI})
        (args_pairs (published_args letter64 plain_state)))) = Ok a \<and>
    client_identity plain_crypto letter64 a = Ok (replicate 20 7, replicate 32 1) \<and>
    client_iat a = Ok IatParanoid"
  using published_args_identify [OF letter64_ok, of plain_state plain_crypto]
  by (simp add: plain_state_def plain_key_def)

section \<open>The identity survives restarts\<close>

definition identity_args :: "args \<Rightarrow> bytes option list" where
  "identity_args args = [args_get args PRIVATE_KEY_ARG, args_get args NODE_ID_ARG, args_get args SEED_ARG]"

text \<open>What a store holds after a start that returned this state.\<close>

definition holds_state :: "'p crypto \<Rightarrow> base64 \<Rightarrow> server_state \<Rightarrow> store \<Rightarrow> bool" where
  "holds_state C b64 st s \<longleftrightarrow> sto_line s = Some (bridge_line_file b64 st) \<and>
     (\<exists>js. sto_state s = Some js \<and> state_of_stored C js = Ok st)"

lemma store_op_cases:
  "store_op fails f s = (Some (StoreFailed (sto_ops s)), s\<lparr>sto_ops := sto_ops s + 1\<rparr>) \<or>
   store_op fails f s = (None, f (s\<lparr>sto_ops := sto_ops s + 1\<rparr>))"
  by (simp add: store_op_def Let_def)

lemma state_from_stored_Ok:
  assumes "state_from_stored C b64 fails js s = (Ok st, s')"
  shows "state_of_stored C js = Ok st \<and> holds_state C b64 st s' \<and> sto_state s' = Some js"
  using assms
  by (auto simp: state_from_stored_def store_save_line_def store_save_def store_op_def holds_state_def Let_def
      split: res.splits option.splits if_splits prod.splits)

lemma server_state_Ok:
  assumes "server_state_from_args C b64 fails args e s = Some (Ok st, s')"
  obtains js0 js s0 where "select_state C fails args e s = Some (Ok js0, s0)" "override_iat args js0 = Ok js"
    "state_of_stored C js = Ok st" "holds_state C b64 st s'" "sto_state s' = Some js"
proof -
  obtain js0 s0 where sel: "select_state C fails args e s = Some (Ok js0, s0)"
    using assms by (auto simp: server_state_from_args_def split: option.splits res.splits)
  moreover from sel assms obtain js where "override_iat args js0 = Ok js"
      "state_from_stored C b64 fails js s0 = (Ok st, s')"
    by (auto simp: server_state_from_args_def split: res.splits)
  ultimately show thesis using state_from_stored_Ok that by blast
qed

lemma state_of_stored_iat:
  assumes "state_of_stored C js = Ok st" and "state_of_stored C (js\<lparr>js_iat_mode := v\<rparr>) = Ok st'"
  shows "st' = st\<lparr>ss_iat_mode := ss_iat_mode st'\<rparr> \<and> iat_mode_from_int v = Some (ss_iat_mode st')"
  using assms by (auto simp: state_of_stored_def split: res.splits option.splits)

lemma override_iat_Ok:
  "override_iat args js0 = Ok js \<Longrightarrow>
     (args_get args IAT_ARG = None \<and> js = js0) \<or> (\<exists>v. js = js0\<lparr>js_iat_mode := v\<rparr>)"
  by (auto simp: override_iat_def split: option.splits)

text \<open>
  C15: a bridge keeps its identity.  Once a start has returned a state, a later start
  without identity arguments over what it left in the store draws nothing: if it
  succeeds it has the same node id, keys, seed and certificate, and the IAT mode too
  unless an argument overrides it; it succeeds when the store works and the mode is
  not overridden.  After every start the saved bridge line is that of the state.
\<close>

theorem identity_persists:
  assumes "server_state_from_args C b64 fails args e s = Some (Ok st, s')"
    and "identity_args args' = [None, None, None]"
  shows "holds_state C b64 st s' \<and>
    (\<exists>r s2. server_state_from_args C b64 fails' args' e' s' = Some (r, s2) \<and>
       (r = Ok st' \<longrightarrow> st' = st\<lparr>ss_iat_mode := ss_iat_mode st'\<rparr> \<and> state_cert b64 st' = state_cert b64 st \<and>
          holds_state C b64 st' s2) \<and>
       (args_get args' IAT_ARG = None \<and> fails' = (\<lambda>_. False) \<longrightarrow> r = Ok st))"
proof -
  from assms(1) obtain js where js: "state_of_stored C js = Ok st" "holds_state C b64 st s'" "sto_state s' = Some js"
    by (rule server_state_Ok)
  have "select_state C fails' args' e' s' = Some (Err (StoreFailed (sto_ops s')), s'\<lparr>sto_ops := sto_ops s' + 1\<rparr>)
      \<or> select_state C fails' args' e' s' = Some (Ok js, s'\<lparr>sto_ops := sto_ops s' + 1\<rparr>)"
    using assms(2) js(3) store_op_cases [of fails' "\<lambda>s. s" s'] by (auto simp: select_state_def identity_args_def)
  then obtain r s2 where run: "server_state_from_args C b64 fails' args' e' s' = Some (r, s2)"
    by (cases "override_iat args' js"; cases "state_from_stored C b64 fails' (case override_iat args' js of Ok j \<Rightarrow> j) (s'\<lparr>sto_ops := sto_ops s' + 1\<rparr>)")
      (auto simp: server_state_from_args_def)
  have "st' = st\<lparr>ss_iat_mode := ss_iat_mode st'\<rparr> \<and> state_cert b64 st' = state_cert b64 st \<and> holds_state C b64 st' s2"
    if "r = Ok st'"
  proof -
    from run that obtain js0 js' s0 where r: "select_state C fails' args' e' s' = Some (Ok js0, s0)"
        "override_iat args' js0 = Ok js'" "state_of_stored C js' = Ok st'" "holds_state C b64 st' s2"
      by (blast elim: server_state_Ok)
    have "js0 = js"
      using r(1) assms(2) js(3) by (auto simp: select_state_def identity_args_def store_op_def Let_def split: if_splits)
    with override_iat_Ok [OF r(2)] have "st' = st\<lparr>ss_iat_mode := ss_iat_mode st'\<rparr>"
      using js(1) r(3) state_of_stored_iat by fastforce
    moreover from this have "state_cert b64 st' = state_cert b64 st"
      by (metis (no_types) state_cert_def server_state.select_convs(1,2) server_state.update_convs(4) server_state.surjective)
    ultimately show ?thesis using r(4) by blast
  qed
  moreover have "r = Ok st" if "args_get args' IAT_ARG = None \<and> fails' = (\<lambda>_. False)"
    using run that js(1,3) assms(2)
    by (auto simp: server_state_from_args_def select_state_def identity_args_def store_op_def override_iat_def
        state_from_stored_def store_save_line_def store_save_def)
  ultimately show ?thesis using js(2) run by blast
qed

definition text_crypto :: "unit crypto" where
  "text_crypto = plain_crypto\<lparr>c_hex_encode := text_of, c_hex_decode := \<lambda>s. Some (ascii s)\<rparr>"

definition given_args :: args where
  "given_args = [(NODE_ID_ARG, [replicate 20 97]), (PRIVATE_KEY_ARG, [replicate 32 98]), (SEED_ARG, [replicate 24 99])]"

definition no_store :: store where
  "no_store = \<lparr>sto_state = None, sto_line = None, sto_ops = 0\<rparr>"

lemma given_args_start:
  "\<exists>st s'. server_state_from_args text_crypto letter64 (\<lambda>_. False) given_args e no_store = Some (Ok st, s')"
proof -
  have "NODE_ID_ARG \<noteq> PRIVATE_KEY_ARG" "NODE_ID_ARG \<noteq> SEED_ARG" "PRIVATE_KEY_ARG \<noteq> SEED_ARG"
      "NODE_ID_ARG \<noteq> IAT_ARG" "PRIVATE_KEY_ARG \<noteq> IAT_ARG" "SEED_ARG \<noteq> IAT_ARG"
    by (simp_all add: NODE_ID_ARG_def PRIVATE_KEY_ARG_def SEED_ARG_def IAT_ARG_def)
  moreover have "length (ascii (text_of bs)) = length bs" for bs by (simp add: ascii_def text_of_def)
  ultimately show ?thesis
    by (simp add: server_state_from_args_def select_state_def given_args_def override_iat_def state_from_stored_def
        state_of_stored_def stored_default_def text_crypto_def node_id_from_hex_def node_id_new_def
        keypair_from_hex_def keypair_from_private_def seed_from_hex_def seed_from_bytes_def SEED_LENGTH_def
        iat_mode_from_int_def store_save_line_def store_save_def store_op_def)
qed

theorem identity_persists_witness:
  "\<exists>st s' s2. server_state_from_args text_crypto letter64 (\<lambda>_. False) given_args (\<lambda>_. []) no_store = Some (Ok st, s') \<and>
     server_state_from_args text_crypto letter64 (\<lambda>_. False) [] (\<lambda>_. []) s' = Some (Ok st, s2)"
proof -
  obtain st s' where start: "server_state_from_args text_crypto letter64 (\<lambda>_. False) given_args (\<lambda>_. []) no_store = Some (Ok st, s')"
    using given_args_start by blast
  have "identity_args [] = [None, None, None]" by (simp add: identity_args_def)
  from identity_persists [OF start this, of "\<lambda>_. False" "\<lambda>_. []"] start show ?thesis by auto
qed

section \<open>Errors\<close>

lemma state_of_stored_no_panic: "state_of_stored C js \<noteq> Panic"
  by (auto simp: state_of_stored_def node_id_from_hex_def node_id_new_def keypair_from_hex_def
      keypair_from_private_def seed_from_hex_def seed_from_bytes_def split: option.splits res.splits)

lemma override_iat_no_panic: "override_iat args js \<noteq> Panic"
  by (auto simp: override_iat_def split: option.splits)

lemma state_from_stored_store:
  assumes "state_from_stored C b64 fails js s = (Err e, s')" and "\<And>k. e \<noteq> StoreFailed k"
  shows "s' = s"
  using assms by (auto simp: state_from_stored_def store_save_line_def store_save_def store_op_def Let_def
      split: res.splits option.splits if_splits prod.splits)

text \<open>
  The identity arguments count only together.  If some are given but not all, the
  bridge does not start: the error names one that is missing.  Whenever identity
  arguments are given, an error that is not the store's own leaves the store as it
  was, and no start panics.
\<close>

theorem identity_args_errors:
  assumes "\<exists>v\<in>set (identity_args args). v \<noteq> None"
  shows "(None \<in> set (identity_args args) \<longrightarrow>
      (\<exists>name\<in>{PRIVATE_KEY_ARG, NODE_ID_ARG, SEED_ARG}. args_get args name = None \<and>
         server_state_from_args C b64 fails args e s = Some (Err (MissingArg name), s))) \<and>
    (\<exists>r s'. server_state_from_args C b64 fails args e s = Some (r, s') \<and> r \<noteq> Panic \<and>
       ((\<exists>x. r = Err x \<and> (\<forall>k. x \<noteq> StoreFailed k)) \<longrightarrow> s' = s))"
proof (cases "None \<in> set (identity_args args)")
  case True
  with assms have "\<exists>name\<in>{PRIVATE_KEY_ARG, NODE_ID_ARG, SEED_ARG}. args_get args name = None \<and>
      select_state C fails args e s = Some (Err (MissingArg name), s)"
    by (auto simp: identity_args_def select_state_def split: option.splits)
  then show ?thesis by (auto simp: server_state_from_args_def)
next
  case False
  then obtain k n d where "args_get args PRIVATE_KEY_ARG = Some k" "args_get args NODE_ID_ARG = Some n"
      "args_get args SEED_ARG = Some d"
    unfolding identity_args_def by (metis list.set_intros option.exhaust)
  then obtain js where sel: "select_state C fails args e s = Some (Ok js, s)"
    by (simp add: select_state_def)
  show ?thesis
  proof (cases "override_iat args js")
    case (Ok js')
    obtain r s' where r: "state_from_stored C b64 fails js' s = (r, s')" by (rule prod.exhaust)
    moreover have "r \<noteq> Panic"
      using r state_of_stored_no_panic [of C js']
      by (auto simp: state_from_stored_def split: res.splits option.splits prod.splits)
    ultimately show ?thesis
      using sel Ok False state_from_stored_store [of C b64 fails js' s]
      by (auto simp: server_state_from_args_def)
  qed (use sel False override_iat_no_panic [of args js] in \<open>auto simp: server_state_from_args_def\<close>)
qed

theorem identity_args_errors_witness:
  "server_state_from_args text_crypto letter64 (\<lambda>_. False) [(NODE_ID_ARG, [[48, 48]])] (\<lambda>_. []) no_store =
     Some (Err (MissingArg PRIVATE_KEY_ARG), no_store)"
proof -
  have ne: "PRIVATE_KEY_ARG \<noteq> NODE_ID_ARG" "SEED_ARG \<noteq> NODE_ID_ARG"
    by (simp_all add: NODE_ID_ARG_def PRIVATE_KEY_ARG_def SEED_ARG_def)
  have some: "\<exists>v\<in>set (identity_args [(NODE_ID_ARG, [[48, 48]])]). v \<noteq> None"
    and none: "None \<in> set (identity_args [(NODE_ID_ARG, [[48, 48]])])"
    using ne by (simp_all add: identity_args_def)
  from identity_args_errors [OF some, of text_crypto letter64 "\<lambda>_. False" "\<lambda>_. []" no_store] none ne
  show ?thesis by (auto simp: server_state_from_args_def select_state_def)
qed

end
