(* ===== verification/Obfs4Peers.thy ===== *)
theory Obfs4Peers
  imports Obfs4State
begin

text \<open>
  The two ends of an obfs4 connection while it is being set up: the server of
  \<open>src/transports/obfs4/domain/server.rs\<close> with its probe-resistant closing, the client of
  \<open>client.rs\<close>, the factories of \<open>transport.rs\<close> and the assembly of the connection in
  \<open>conn.rs\<close>.  What a socket delivers is a list of reads with the time (nanoseconds)
  each is ready; with no event left the peer is silent for ever, and a timeout ends
  the wait.  \<open>wall\<close> maps an instant to the system clock.
\<close>

section \<open>Connections\<close>

text \<open>A connection just made; the writer's state is its encoder and its mode.\<close>

record ('h, 'f) conn =
  co_reader :: "('h, 'f) reader"
  co_encoder :: "'h encoder"
  co_mode :: iat_mode
  co_dists :: "'f dists"

definition assemble :: "'h encoder \<Rightarrow> 'h decoder \<Rightarrow> bool \<Rightarrow> buf \<Rightarrow> 'f dists \<Rightarrow> iat_mode \<Rightarrow> ('h, 'f) conn" where
  "assemble e d is_server receive dists mode =
     \<lparr>co_reader = \<lparr>r_decoder = d, r_receive = receive, r_decoded = buf_default, r_is_server = is_server,
        r_dists = dists, r_eof = False, r_error = None\<rparr>,
      co_encoder = e, co_mode = mode, co_dists = dists\<rparr>"

text \<open>\<open>None\<close>: a key of the wrong length.\<close>

definition split_conn :: "('h, 'f) ops \<Rightarrow> bytes \<Rightarrow> bytes \<Rightarrow> bool \<Rightarrow> buf \<Rightarrow> 'f dists \<Rightarrow> iat_mode \<Rightarrow>
    ('h, 'f) conn option" where
  "split_conn W encoder_key decoder_key is_server receive dists mode =
     (case (encoder_new (o_sip W) encoder_key, decoder_new (o_sip W) decoder_key) of
        (Some e, Some d) \<Rightarrow> Some (assemble e d is_server receive dists mode)
      | _ \<Rightarrow> None)"

section \<open>The server\<close>

definition SERVER_HANDSHAKE_TIMEOUT :: int where "SERVER_HANDSHAKE_TIMEOUT = 30 * 10 ^ 9"

record server_factory =
  sf_args :: args
  sf_node_id :: bytes
  sf_identity_key :: keypair
  sf_len_seed :: bytes
  sf_iat_seed :: "bytes option"
  sf_iat_mode :: iat_mode
  sf_replay_filter :: replay_filter
  sf_close_delay :: int
  sf_biased :: bool

text \<open>\<open>digest\<close> is the keyed digest that \<open>ReplayFilter::new\<close> draws.\<close>

definition server_factory_new :: "('h, 'f) ops \<Rightarrow> (bytes \<Rightarrow> u64) \<Rightarrow> server_state \<Rightarrow> args \<Rightarrow> int \<Rightarrow> bool \<Rightarrow>
    server_factory option" where
  "server_factory_new W digest st args close_delay biased =
     (let fac = \<lambda>iat_seed. \<lparr>sf_args = args, sf_node_id = ss_node_id st, sf_identity_key = ss_identity_key st,
            sf_len_seed = ss_drbg_seed st, sf_iat_seed = iat_seed, sf_iat_mode = ss_iat_mode st,
            sf_replay_filter = \<lparr>rf_digest = digest, rf_ttl = REPLAY_TTL, rf_inner = filter_empty\<rparr>,
            sf_close_delay = close_delay, sf_biased = biased\<rparr>
      in if ss_iat_mode st \<noteq> IatNone then
           (case iat_seed_from W (ss_drbg_seed st) of None \<Rightarrow> None | Some s \<Rightarrow> Some (fac (Some s)))
         else Some (fac None))"

text \<open>\<open>Transport::server_factory\<close>: the delay is drawn from the bridge's seed.  The outer
  option is a draw that never ends.\<close>

definition close_delay_of :: "'h sip_ops \<Rightarrow> bytes \<Rightarrow> (int option, unit) res" where
  "close_delay_of S seed =
     map_ok (map_option (\<lambda>(v, _). v * 10 ^ 9)) (rand_intn (drbg_int63 S) MAX_CLOSE_DELAY (drbg_new S seed))"

definition transport_server_factory :: "('h, 'f) ops \<Rightarrow> 'p crypto \<Rightarrow> base64 \<Rightarrow> (bytes \<Rightarrow> u64) \<Rightarrow> bool \<Rightarrow>
    (nat \<Rightarrow> bool) \<Rightarrow> args \<Rightarrow> (nat \<Rightarrow> bytes) \<Rightarrow> store \<Rightarrow> ((server_factory, state_error) res \<times> store) option" where
  "transport_server_factory W C b64 digest biased fails args entropy s =
     (case server_state_from_args C b64 fails args entropy s of
        None \<Rightarrow> None
      | Some (Err e, s) \<Rightarrow> Some (Err e, s)
      | Some (Panic, s) \<Rightarrow> Some (Panic, s)
      | Some (Ok st, s) \<Rightarrow>
          (case close_delay_of (o_sip W) (ss_drbg_seed st) of
             Ok None \<Rightarrow> None
           | Ok (Some delay) \<Rightarrow>
               (case server_factory_new W digest st (published_args b64 st) delay biased of
                  None \<Rightarrow> Some (Panic, s) | Some fac \<Rightarrow> Some (Ok fac, s))
           | _ \<Rightarrow> Some (Panic, s)))"

datatype wrap_error = WrapTimedOut | WrapEof | WrapIo nat | WrapHandshake handshake_error | WrapFrame frame_error
  | WrapWrite nat

type_synonym timed_events = "(int \<times> net_event) list"

text \<open>The loop under \<open>timeout(SERVER_HANDSHAKE_TIMEOUT, ..)\<close>, which ends at \<open>dl\<close>; \<open>t\<close> is the
  time now.  It returns its result, the filter, the handshake, the time and the rest.\<close>

fun server_receive :: "'p crypto \<Rightarrow> (int \<Rightarrow> int) \<Rightarrow> int \<Rightarrow> timed_events \<Rightarrow> int \<Rightarrow> buf \<Rightarrow> replay_filter \<Rightarrow> server_hs \<Rightarrow>
    (bytes, wrap_error) res \<times> replay_filter \<times> server_hs \<times> int \<times> timed_events" where
  "server_receive C wall dl [] t receive f hs = (Err WrapTimedOut, f, hs, dl, [])"
| "server_receive C wall dl ((ti, ev) # evs) t receive f hs =
     (if dl < ti then (Err WrapTimedOut, f, hs, dl, (ti, ev) # evs)
      else
        let t = max t ti
        in case ev of
             NetEof \<Rightarrow> (Err WrapEof, f, hs, t, evs)
           | NetErr n \<Rightarrow> (Err (WrapIo n), f, hs, t, evs)
           | NetData bs \<Rightarrow>
               if bs = [] then (Err WrapEof, f, hs, t, evs)
               else
                 let receive = buf_extend bs receive
                 in (case server_parse_client C (buf_as_slice receive) (wall t) f hs of
                       (Ok seed, f, hs) \<Rightarrow> (Ok seed, f, hs, t, evs)
                     | (Panic, f, hs) \<Rightarrow> (Panic, f, hs, t, evs)
                     | (Err e, f, hs) \<Rightarrow>
                         if e = MarkNotFoundYet then server_receive C wall dl evs t receive f hs
                         else (Err (WrapHandshake e), f, hs, t, evs)))"

text \<open>\<open>close_after_delay\<close>: reads and discards, and returns when the stream is dropped.\<close>

fun drain_until :: "int \<Rightarrow> int \<Rightarrow> timed_events \<Rightarrow> int" where
  "drain_until dl t [] = dl"
| "drain_until dl t ((ti, ev) # evs) =
     (if dl < ti then dl
      else case ev of
        NetData bs \<Rightarrow> if bs = [] then max t ti else drain_until dl (max t ti) evs
      | _ \<Rightarrow> max t ti)"

definition close_after_delay :: "int \<Rightarrow> int \<Rightarrow> int \<Rightarrow> timed_events \<Rightarrow> int" where
  "close_after_delay delay start t evs =
     (let deadline = start + delay + SERVER_HANDSHAKE_TIMEOUT
      in if deadline < t then t else drain_until deadline t evs)"

text \<open>What came of a connection: the result, what was written, and when it was closed.\<close>

record ('h, 'f) wrapped =
  wr_result :: "(('h, 'f) conn, wrap_error) res"
  wr_written :: "bytes list"
  wr_closed :: "int option"
  wr_rest :: timed_events

text \<open>The answer to an accepted client; \<open>None\<close>: a panic.  \<open>sink k\<close> is the error of the
  \<open>k\<close>-th \<open>write_all\<close>.\<close>

definition server_answer :: "('h, 'f) ops \<Rightarrow> 'p crypto \<Rightarrow> (nat \<Rightarrow> nat option) \<Rightarrow> server_factory \<Rightarrow> 'f dists \<Rightarrow>
    (nat \<Rightarrow> bytes) \<Rightarrow> server_hs \<Rightarrow> bytes \<Rightarrow> int \<Rightarrow> timed_events \<Rightarrow> ('h, 'f) wrapped option" where
  "server_answer W C sink fac dists entropy hs seed t evs =
     (case ntor_kdf C seed (KEY_LENGTH * 2) of
        None \<Rightarrow> None
      | Some okm \<Rightarrow>
          (case (encoder_new (o_sip W) (drop KEY_LENGTH okm), server_hs_generate C hs entropy) of
             (Some e, Some (blob, _)) \<Rightarrow>
               (case make_packet (o_sip W) (o_box W) e blob PACKET_TYPE_PRNG_SEED (sf_len_seed fac) 0 of
                  Panic \<Rightarrow> None
                | Err x \<Rightarrow> Some \<lparr>wr_result = Err (WrapFrame x), wr_written = [], wr_closed = Some t, wr_rest = evs\<rparr>
                | Ok (frame_buf, e) \<Rightarrow>
                    (case sink 0 of
                       Some n \<Rightarrow> Some \<lparr>wr_result = Err (WrapWrite n), wr_written = [], wr_closed = Some t, wr_rest = evs\<rparr>
                     | None \<Rightarrow>
                         (case decoder_new (o_sip W) (take KEY_LENGTH okm) of
                            None \<Rightarrow> None
                          | Some d \<Rightarrow>
                              Some \<lparr>wr_result = Ok (assemble e d True buf_default dists (sf_iat_mode fac)),
                                    wr_written = [frame_buf], wr_closed = None, wr_rest = evs\<rparr>)))
           | _ \<Rightarrow> None))"

text \<open>\<open>wrap_conn\<close> once the session key and the distributions are made.\<close>

definition wrap_session :: "('h, 'f) ops \<Rightarrow> 'p crypto \<Rightarrow> (int \<Rightarrow> int) \<Rightarrow> (nat \<Rightarrow> nat option) \<Rightarrow> timed_events \<Rightarrow> int \<Rightarrow>
    'f dists \<Rightarrow> (nat \<Rightarrow> bytes) \<Rightarrow> server_hs \<Rightarrow> server_factory \<Rightarrow> (('h, 'f) wrapped \<times> server_factory) option" where
  "wrap_session W C wall sink evs start dists entropy hs fac =
     (case server_receive C wall (start + SERVER_HANDSHAKE_TIMEOUT) evs start buf_default (sf_replay_filter fac) hs of
        (r, f, hs, t, evs) \<Rightarrow>
          let fac = fac\<lparr>sf_replay_filter := f\<rparr>
          in case r of
               Panic \<Rightarrow> None
             | Err e \<Rightarrow> Some (\<lparr>wr_result = Err e, wr_written = [],
                 wr_closed = Some (close_after_delay (sf_close_delay fac) start t evs), wr_rest = evs\<rparr>, fac)
             | Ok seed \<Rightarrow> map_option (\<lambda>w. (w, fac)) (server_answer W C sink fac dists entropy hs seed t evs))"

text \<open>\<open>Ok None\<close>: a draw that never ends.\<close>

definition wrap_conn :: "('h, 'f) ops \<Rightarrow> 'p crypto \<Rightarrow> (int \<Rightarrow> int) \<Rightarrow> (nat \<Rightarrow> nat option) \<Rightarrow> timed_events \<Rightarrow> int \<Rightarrow>
    (nat \<Rightarrow> bytes) \<Rightarrow> server_factory \<Rightarrow> ((('h, 'f) wrapped \<times> server_factory) option, unit) res" where
  "wrap_conn W C wall sink evs start entropy fac =
     (case keypair_new C True entropy of
        None \<Rightarrow> Ok None
      | Some (session, entropy) \<Rightarrow>
          (case dists_new W (sf_len_seed fac) (sf_iat_seed fac) (sf_biased fac) of
             Ok (Some dists) \<Rightarrow>
               (case server_hs_new (sf_node_id fac) (sf_identity_key fac) session entropy of
                  Ok (Some (hs, entropy)) \<Rightarrow>
                    (case wrap_session W C wall sink evs start dists entropy hs fac of
                       None \<Rightarrow> Panic | Some r \<Rightarrow> Ok (Some r))
                | Ok None \<Rightarrow> Ok None
                | _ \<Rightarrow> Panic)
           | Ok None \<Rightarrow> Ok None
           | _ \<Rightarrow> Panic))"

section \<open>The client\<close>

definition CLIENT_HANDSHAKE_TIMEOUT :: int where "CLIENT_HANDSHAKE_TIMEOUT = 60 * 10 ^ 9"

datatype dial_error = DialTimedOut | DialEof | DialIo nat | DialHandshake handshake_error

text \<open>The loop of \<open>client_handshake\<close>: the key seed, the time, what was read after the
  server's message, and the events left.  \<open>Panic\<close> is a failed \<open>consume\<close>.\<close>

fun client_receive :: "'p crypto \<Rightarrow> int \<Rightarrow> timed_events \<Rightarrow> buf \<Rightarrow> client_hs \<Rightarrow>
    (bytes \<times> buf, dial_error) res \<times> timed_events" where
  "client_receive C dl [] receive hs = (Err DialTimedOut, [])"
| "client_receive C dl ((ti, ev) # evs) receive hs =
     (if dl < ti then (Err DialTimedOut, (ti, ev) # evs)
      else case ev of
        NetEof \<Rightarrow> (Err DialEof, evs)
      | NetErr n \<Rightarrow> (Err (DialIo n), evs)
      | NetData bs \<Rightarrow>
          if bs = [] then (Err DialEof, evs)
          else
            let receive = buf_extend bs receive
            in (case client_parse_server C (buf_as_slice receive) hs of
                  (Ok (consumed, seed), hs) \<Rightarrow>
                    (case buf_consume consumed receive of
                       None \<Rightarrow> (Panic, evs)
                     | Some receive \<Rightarrow> (Ok (seed, receive), evs))
                | (Panic, hs) \<Rightarrow> (Panic, evs)
                | (Err e, hs) \<Rightarrow>
                    if e = MarkNotFoundYet then client_receive C dl evs receive hs
                    else (Err (DialHandshake e), evs)))"

record ('h, 'f) dialed =
  dl_result :: "(('h, 'f) conn, dial_error) res"
  dl_written :: "bytes list"
  dl_rest :: timed_events

text \<open>\<open>client_conn\<close> from the client's handshake message on; \<open>None\<close>: a panic.\<close>

definition client_session :: "('h, 'f) ops \<Rightarrow> 'p crypto \<Rightarrow> (int \<Rightarrow> int) \<Rightarrow> (nat \<Rightarrow> nat option) \<Rightarrow> timed_events \<Rightarrow> int \<Rightarrow>
    'f dists \<Rightarrow> (nat \<Rightarrow> bytes) \<Rightarrow> client_hs \<Rightarrow> iat_mode \<Rightarrow> ('h, 'f) dialed option" where
  "client_session W C wall sink evs start dists entropy hs mode =
     (case client_hs_generate C (wall start) hs entropy of
        None \<Rightarrow> None
      | Some (blob, hs, _) \<Rightarrow>
          (case sink 0 of
             Some n \<Rightarrow> Some \<lparr>dl_result = Err (DialIo n), dl_written = [], dl_rest = evs\<rparr>
           | None \<Rightarrow>
               (case client_receive C (start + CLIENT_HANDSHAKE_TIMEOUT) evs buf_default hs of
                  (Panic, _) \<Rightarrow> None
                | (Err e, evs) \<Rightarrow> Some \<lparr>dl_result = Err e, dl_written = [blob], dl_rest = evs\<rparr>
                | (Ok (seed, receive), evs) \<Rightarrow>
                    (case ntor_kdf C seed (KEY_LENGTH * 2) of
                       None \<Rightarrow> None
                     | Some okm \<Rightarrow>
                         map_option (\<lambda>c. \<lparr>dl_result = Ok c, dl_written = [blob], dl_rest = evs\<rparr>)
                           (split_conn W (take KEY_LENGTH okm) (drop KEY_LENGTH okm) False receive dists mode)))))"

text \<open>\<open>client_conn\<close> over a stream the dialer made; \<open>Ok None\<close>: a draw that never ends.\<close>

definition client_conn :: "('h, 'f) ops \<Rightarrow> 'p crypto \<Rightarrow> (int \<Rightarrow> int) \<Rightarrow> (nat \<Rightarrow> nat option) \<Rightarrow> timed_events \<Rightarrow> int \<Rightarrow>
    (nat \<Rightarrow> bytes) \<Rightarrow> client_params \<Rightarrow> bool \<Rightarrow> (('h, 'f) dialed option, unit) res" where
  "client_conn W C wall sink evs start entropy p biased =
     (let (seed, entropy) = csrand_bytes SEED_LENGTH entropy
      in if cp_iat_mode p \<noteq> IatNone \<and> iat_seed_from W seed = None then Panic
         else
           case dists_new W seed (if cp_iat_mode p = IatNone then None else iat_seed_from W seed) biased of
             Ok (Some dists) \<Rightarrow>
               (case client_hs_new (cp_node_id p) (cp_public_key p) (cp_session_key p) entropy of
                  Ok (Some (hs, entropy)) \<Rightarrow>
                    (case client_session W C wall sink evs start dists entropy hs (cp_iat_mode p) of
                       None \<Rightarrow> Panic | Some d \<Rightarrow> Ok (Some d))
                | Ok None \<Rightarrow> Ok None
                | _ \<Rightarrow> Panic)
           | Ok None \<Rightarrow> Ok None
           | _ \<Rightarrow> Panic)"

section \<open>Failed handshakes look alike\<close>

text \<open>The peer keeps its side of the connection open.\<close>

definition stays_open :: "timed_events \<Rightarrow> bool" where
  "stays_open evs \<longleftrightarrow> list_all (\<lambda>(ti, ev). \<exists>bs. ev = NetData bs \<and> bs \<noteq> []) evs"

lemma stays_open_simps [simp]:
  "stays_open []"
  "stays_open ((ti, ev) # evs) \<longleftrightarrow> (\<exists>bs. ev = NetData bs \<and> bs \<noteq> []) \<and> stays_open evs"
  by (simp_all add: stays_open_def)

lemma drain_stays_open: "stays_open evs \<Longrightarrow> drain_until dl t evs = dl"
  by (induction dl t evs rule: drain_until.induct) auto

lemma server_receive_open:
  assumes "server_receive C wall dl evs t receive f hs = (r, f', hs', t', evs')" and "stays_open evs" and "t \<le> dl"
  shows "t' \<le> dl \<and> stays_open evs'"
  using assms
proof (induction evs arbitrary: t receive f hs)
  case (Cons x evs)
  obtain ti ev where x: "x = (ti, ev)" by force
  show ?case
  proof (cases "dl < ti")
    case False
    from Cons.prems(2) x obtain bs where bs: "ev = NetData bs" "bs \<noteq> []" "stays_open evs" by auto
    obtain pr pf ph where p: "server_parse_client C (buf_as_slice (buf_extend bs receive)) (wall (max t ti)) f hs = (pr, pf, ph)"
      by (metis prod_cases3)
    have le: "max t ti \<le> dl" using False Cons.prems(3) by simp
    show ?thesis
    proof (cases "pr = Err MarkNotFoundYet")
      case True
      with Cons.prems(1) x False bs p
      have "server_receive C wall dl evs (max t ti) (buf_extend bs receive) pf ph = (r, f', hs', t', evs')"
        by (simp add: Let_def)
      from Cons.IH [OF this bs(3) le] show ?thesis .
    next
      case other: False
      with Cons.prems(1) x False bs p le show ?thesis
        by (cases pr) (auto simp: Let_def split: if_splits)
    qed
  qed (use Cons.prems x in auto)
qed auto

text \<open>The peer hangs up at time \<open>h\<close>, after some reads: from then on every read of the
  stream ends at once, with an end of file or an error.\<close>

fun hangs :: "net_event \<Rightarrow> bool" where
  "hangs (NetData bs) \<longleftrightarrow> bs = []"
| "hangs _ \<longleftrightarrow> True"

fun hangs_up_at :: "int \<Rightarrow> timed_events \<Rightarrow> bool" where
  "hangs_up_at h [] \<longleftrightarrow> False"
| "hangs_up_at h ((ti, ev) # evs) \<longleftrightarrow>
     (if hangs ev then ti = h \<and> (case evs of [] \<Rightarrow> False | (tj, ev') # _ \<Rightarrow> tj = h \<and> hangs ev')
      else ti \<le> h \<and> hangs_up_at h evs)"

lemma drain_hangs_up:
  "hangs_up_at h evs \<Longrightarrow> t \<le> h \<Longrightarrow> drain_until dl t evs = min h dl"
  by (induction dl t evs rule: drain_until.induct) (auto split: net_event.splits if_splits)

lemma server_receive_hangs_up:
  assumes "server_receive C wall dl evs t receive f hs = (r, f', hs', t', evs')"
    and "hangs_up_at h evs" and "t \<le> dl" and "t \<le> h" and "dl \<le> deadline"
  shows "t' \<le> dl \<and> drain_until deadline t' evs' = min h deadline"
  using assms
proof (induction evs arbitrary: t receive f hs)
  case (Cons x evs)
  obtain ti ev where x: "x = (ti, ev)" by force
  show ?case
  proof (cases "dl < ti")
    case True
    with Cons.prems x have "t' = dl" "evs' = (ti, ev) # evs" by auto
    moreover have "dl \<le> h" using True Cons.prems(2) x by (auto split: if_splits)
    ultimately show ?thesis using drain_hangs_up [OF Cons.prems(2)] x by simp
  next
    case False
    show ?thesis
    proof (cases "hangs ev")
      case True
      with False Cons.prems(1) x have "t' = max t ti" "evs' = evs"
        by (auto simp: Let_def split: net_event.splits)
      moreover obtain tj ev' rest where "evs = (tj, ev') # rest" "ti = h" "tj = h" "hangs ev'"
        using True Cons.prems(2) x by (auto split: list.splits)
      ultimately show ?thesis using False Cons.prems(3,4,5)
        by (cases ev' rule: hangs.cases) auto
    next
      case data: False
      then obtain bs where bs: "ev = NetData bs" "bs \<noteq> []" by (cases ev rule: hangs.cases) auto
      have up: "hangs_up_at h evs" "ti \<le> h" using Cons.prems(2) x data by auto
      obtain pr pf ph where p: "server_parse_client C (buf_as_slice (buf_extend bs receive)) (wall (max t ti)) f hs = (pr, pf, ph)"
        by (metis prod_cases3)
      have le: "max t ti \<le> dl" "max t ti \<le> h" using False Cons.prems(3,4) up by simp_all
      show ?thesis
      proof (cases "pr = Err MarkNotFoundYet")
        case True
        with Cons.prems(1) x False bs p
        have "server_receive C wall dl evs (max t ti) (buf_extend bs receive) pf ph = (r, f', hs', t', evs')"
          by (simp add: Let_def)
        from Cons.IH [OF this up(1) le Cons.prems(5)] show ?thesis .
      next
        case other: False
        with Cons.prems(1) x False bs p have "t' = max t ti" "evs' = evs"
          by (cases pr; auto simp: Let_def split: if_splits)+
        with le drain_hangs_up [OF up(1) le(2)] show ?thesis by simp
      qed
    qed
  qed
qed simp

definition handshake_failure :: "wrap_error \<Rightarrow> bool" where
  "handshake_failure e \<longleftrightarrow> (\<forall>x. e \<noteq> WrapFrame x) \<and> (\<forall>n. e \<noteq> WrapWrite n)"

lemma wrap_conn_session:
  assumes "wrap_conn W C wall sink evs start entropy fac = Ok (Some (w, fac'))"
  obtains dists entropy' hs where
    "wrap_session W C wall sink evs start dists entropy' hs fac = Some (w, fac')"
  using assms by (auto simp: wrap_conn_def split: option.splits res.splits prod.splits)

lemma wrap_session_failed:
  assumes "wrap_session W C wall sink evs start dists entropy hs fac = Some (w, fac')"
    and "wr_result w = Err e" and "handshake_failure e"
  obtains f hs' t evs' where
    "server_receive C wall (start + SERVER_HANDSHAKE_TIMEOUT) evs start buf_default (sf_replay_filter fac) hs
      = (Err e, f, hs', t, evs')"
    and "wr_written w = []"
    and "wr_closed w = Some (close_after_delay (sf_close_delay fac) start t evs')"
proof -
  obtain r f hs' t evs' where
    recv: "server_receive C wall (start + SERVER_HANDSHAKE_TIMEOUT) evs start buf_default (sf_replay_filter fac) hs
      = (r, f, hs', t, evs')" by (metis prod_cases5)
  show thesis
  proof (cases r)
    case (Ok seed)
    with assms(1) recv have "server_answer W C sink (fac\<lparr>sf_replay_filter := f\<rparr>) dists entropy hs' seed t evs' = Some w"
      by (auto simp: wrap_session_def Let_def)
    with assms(2,3) have False
      by (auto simp: server_answer_def handshake_failure_def split: option.splits res.splits prod.splits)
    then show ?thesis ..
  next
    case (Err e')
    with assms(1) recv have "w = \<lparr>wr_result = Err e', wr_written = [],
        wr_closed = Some (close_after_delay (sf_close_delay fac) start t evs'), wr_rest = evs'\<rparr>"
      by (auto simp: wrap_session_def Let_def)
    with that recv assms(2) Err show thesis by auto
  qed (use assms(1) recv in \<open>auto simp: wrap_session_def Let_def\<close>)
qed

text \<open>
  C2: probe resistance.  Whatever a prober sends and whenever, and for whichever
  reason the handshake fails (a bad mark or MAC, a replay, a timeout, an end of
  file), the bridge writes nothing.  A prober that keeps its side of the connection
  open (\<open>stays_open\<close>) is closed at one and the same time, the bridge's own delay
  plus the handshake timeout after the connection started; a prober that hangs up
  at time \<open>h\<close> (\<open>hangs_up_at\<close>) is closed at \<open>h\<close>, or at that same deadline if it is
  earlier.  In neither case does the time depend on what was sent or on the reason.
\<close>

theorem failed_handshakes_alike:
  assumes "wrap_session W C wall sink evs start dists entropy hs fac = Some (w, fac')"
    and "wr_result w = Err e" and "handshake_failure e" and "0 \<le> sf_close_delay fac"
  shows "wr_written w = [] \<and>
    (stays_open evs \<longrightarrow>
       wr_closed w = Some (start + sf_close_delay fac + SERVER_HANDSHAKE_TIMEOUT)) \<and>
    (\<forall>h. start \<le> h \<and> hangs_up_at h evs \<longrightarrow>
       wr_closed w = Some (min h (start + sf_close_delay fac + SERVER_HANDSHAKE_TIMEOUT)))"
proof -
  from assms(1-3) obtain f hs' t evs' where
    recv: "server_receive C wall (start + SERVER_HANDSHAKE_TIMEOUT) evs start buf_default (sf_replay_filter fac) hs
      = (Err e, f, hs', t, evs')" and w: "wr_written w = []"
      "wr_closed w = Some (close_after_delay (sf_close_delay fac) start t evs')"
    by (rule wrap_session_failed)
  have now: "start \<le> start + SERVER_HANDSHAKE_TIMEOUT"
    and dl: "start + SERVER_HANDSHAKE_TIMEOUT \<le> start + sf_close_delay fac + SERVER_HANDSHAKE_TIMEOUT"
    using assms(4) by (simp_all add: SERVER_HANDSHAKE_TIMEOUT_def)
  have "wr_closed w = Some (start + sf_close_delay fac + SERVER_HANDSHAKE_TIMEOUT)" if "stays_open evs"
    using server_receive_open [OF recv that now] w(2) assms(4)
    by (simp add: close_after_delay_def Let_def drain_stays_open)
  moreover have "wr_closed w = Some (min h (start + sf_close_delay fac + SERVER_HANDSHAKE_TIMEOUT))"
    if "start \<le> h" "hangs_up_at h evs" for h
    using server_receive_hangs_up [OF recv that(2) now that(1) dl] w(2) dl
    by (simp add: close_after_delay_def Let_def)
  ultimately show ?thesis using w(1) by blast
qed

definition plain_factory :: server_factory where
  "plain_factory = \<lparr>sf_args = [], sf_node_id = replicate 20 7, sf_identity_key = plain_key 3,
     sf_len_seed = replicate 24 0, sf_iat_seed = None, sf_iat_mode = IatNone, sf_replay_filter = plain_filter,
     sf_close_delay = 7 * 10 ^ 9, sf_biased = False\<rparr>"

theorem failed_handshakes_alike_witness:
  "\<forall>hs. \<exists>w fac'. wrap_session plain_ops plain_crypto (\<lambda>t. t) (\<lambda>_. None) [(5, NetData [1, 2, 3])] 2 (single_dists 100)
      (\<lambda>_. []) hs plain_factory = Some (w, fac') \<and>
    wr_result w = Err WrapTimedOut \<and> wr_written w = [] \<and> wr_closed w = Some (2 + 37 * 10 ^ 9)"
proof
  fix hs
  have "server_parse_client plain_crypto bs now f h = (Err MarkNotFoundYet, f, h)" if "length bs = 3" for bs now f h
    using that by (simp add: server_parse_client_def)
  moreover have "length (buf_as_slice (buf_extend [1, 2, 3] buf_default)) = 3"
    by (simp only: buf_view_simps) simp
  ultimately obtain w fac' where
    run: "wrap_session plain_ops plain_crypto (\<lambda>t. t) (\<lambda>_. None) [(5, NetData [1, 2, 3])] 2 (single_dists 100)
      (\<lambda>_. []) hs plain_factory = Some (w, fac')" and err: "wr_result w = Err WrapTimedOut"
    by (simp add: wrap_session_def SERVER_HANDSHAKE_TIMEOUT_def Let_def)
  have "wr_written w = [] \<and>
      wr_closed w = Some (2 + sf_close_delay plain_factory + SERVER_HANDSHAKE_TIMEOUT)"
    using failed_handshakes_alike [OF run err] by (simp add: handshake_failure_def plain_factory_def)
  with run err show "\<exists>w fac'. wrap_session plain_ops plain_crypto (\<lambda>t. t) (\<lambda>_. None) [(5, NetData [1, 2, 3])] 2
      (single_dists 100) (\<lambda>_. []) hs plain_factory = Some (w, fac') \<and>
    wr_result w = Err WrapTimedOut \<and> wr_written w = [] \<and> wr_closed w = Some (2 + 37 * 10 ^ 9)"
    by (simp add: plain_factory_def SERVER_HANDSHAKE_TIMEOUT_def)
qed

section \<open>Messages in pieces\<close>

fun read_bytes :: "timed_events \<Rightarrow> bytes" where
  "read_bytes [] = []"
| "read_bytes ((_, NetData bs) # evs) = bs @ read_bytes evs"
| "read_bytes (_ # evs) = read_bytes evs"

text \<open>A message that arrives in full before the deadline, cut into any pieces.\<close>

definition delivers :: "int \<Rightarrow> timed_events \<Rightarrow> bytes \<Rightarrow> bool" where
  "delivers dl evs bs \<longleftrightarrow> stays_open evs \<and> list_all (\<lambda>(ti, _). ti \<le> dl) evs \<and> read_bytes evs = bs"

lemma delivers_simps [simp]:
  "delivers dl [] bs \<longleftrightarrow> bs = []"
  "delivers dl ((ti, ev) # evs) bs \<longleftrightarrow>
     (\<exists>b bs'. ev = NetData b \<and> b \<noteq> [] \<and> ti \<le> dl \<and> bs = b @ bs' \<and> delivers dl evs bs')"
  by (auto simp: delivers_def)

definition arrival :: "int \<Rightarrow> timed_events \<Rightarrow> int" where
  "arrival t evs = foldl (\<lambda>t (ti, _). max t ti) t evs"

lemma arrival_simps [simp]: "arrival t [] = t" "arrival t ((ti, ev) # evs) = arrival (max t ti) evs"
  by (simp_all add: arrival_def)

lemma find_mark_mac_none:
  assumes "\<forall>p. s \<le> p \<longrightarrow> p + 32 \<le> length buf \<longrightarrow> slice p (p + 16) buf \<noteq> mark"
  shows "find_mark_mac mark buf s mx False = None"
proof (cases "find_mark_mac mark buf s mx False")
  case (Some p)
  then show ?thesis using assms by (auto simp: find_mark_mac_iff)
qed

lemma find_mark_mac_tail_none:
  assumes "\<forall>p. s \<le> p \<longrightarrow> p + 32 = length buf \<longrightarrow> slice p (p + 16) buf \<noteq> mark" and "length buf \<le> mx"
  shows "find_mark_mac mark buf s mx True = None"
proof (cases "s + 32 \<le> length buf")
  case True
  then have "slice (length buf - 32) (length buf - 32 + 16) buf \<noteq> mark"
    using assms(1) by (metis le_add_diff_inverse2 add_le_imp_le_diff add_leD2)
  moreover have "length buf - 32 + 16 = length buf - 16" using True by simp
  ultimately show ?thesis using assms(2) by (simp add: find_mark_mac_def Let_def min_def)
next
  case False
  with assms(2) show ?thesis by (auto simp: find_mark_mac_def Let_def min_def)
qed

lemma slice_take: "e \<le> n \<Longrightarrow> slice s e (take n xs) = slice s e xs"
  by (simp add: slice_def drop_take min_def)

text \<open>Until the message is complete, a parser asks for more and keeps what it derived.\<close>

lemma server_parse_no_mark:
  assumes "64 \<le> length resp" and "length resp < 8192" and "find_mark_mac mark resp 109 8192 True = None"
    and "sh_client hs = Some mark \<or> sh_client hs = None \<and> mark = hmac16 C (sh_mac_key hs) [slice 0 32 resp]"
  shows "server_parse_client C resp now f hs = (Err MarkNotFoundYet, f, hs\<lparr>sh_client := Some mark\<rparr>)"
proof -
  have "(case sh_client hs of Some m \<Rightarrow> m | None \<Rightarrow> hmac16 C (sh_mac_key hs) [slice 0 32 resp]) = mark"
    using assms(4) by auto
  with assms(1-3) show ?thesis
    unfolding server_parse_client_def REPRESENTATIVE_LENGTH_def by simp
qed

lemma client_parse_no_mark:
  assumes "96 \<le> length resp" and "length resp < 8192" and "find_mark_mac mark resp 64 8192 False = None"
    and "ch_server hs = Some (repr, auth, mark) \<or> ch_server hs = None \<and> repr = slice 0 32 resp \<and>
      auth = slice 32 64 resp \<and> mark = hmac16 C (ch_mac_key hs) [repr]"
  shows "client_parse_server C resp hs = (Err MarkNotFoundYet, hs\<lparr>ch_server := Some (repr, auth, mark)\<rparr>)"
proof -
  have "(case ch_server hs of Some x \<Rightarrow> x
      | None \<Rightarrow> (slice 0 32 resp, slice 32 (32 + 32) resp, hmac16 C (ch_mac_key hs) [slice 0 32 resp])) = (repr, auth, mark)"
    using assms(4) by auto
  with assms(1-3) show ?thesis
    unfolding client_parse_server_def REPRESENTATIVE_LENGTH_def AUTH_LENGTH_def Let_def by simp
qed

lemma server_parse_prefix:
  assumes "hs = sh \<or> hs = sh\<lparr>sh_client := Some mark\<rparr>" and "sh_client sh = None"
    and "mark = hmac16 C (sh_mac_key sh) [slice 0 32 m1]" and "n < length m1" and "length m1 \<le> 8192"
    and "\<forall>q\<in>{109..<length m1 - 32}. slice q (q + 16) m1 \<noteq> mark"
  shows "\<exists>hs'. (hs' = sh \<or> hs' = sh\<lparr>sh_client := Some mark\<rparr>) \<and>
    server_parse_client C (take n m1) now f hs = (Err MarkNotFoundYet, f, hs')"
proof (cases "length (take n m1) < CLIENT_MIN_HANDSHAKE_LENGTH")
  case True
  then show ?thesis using assms(1) by (auto simp: server_parse_client_def)
next
  case False
  then have n: "64 \<le> n" using assms(4) by (simp add: min_def split: if_splits)
  then have s: "slice 0 32 (take n m1) = slice 0 32 m1" by (simp add: slice_take)
  have "find_mark_mac mark (take n m1) 109 8192 True = None"
  proof (rule find_mark_mac_tail_none, safe)
    fix p assume p: "109 \<le> p" "p + 32 = length (take n m1)" "mark = slice p (p + 16) (take n m1)"
    then have "p + 32 = n" using assms(4) by simp
    with p(3) have "slice p (p + 16) m1 = mark" by (simp add: slice_take)
    then show False using assms(4,6) p(1) \<open>p + 32 = n\<close> by auto
  qed (use assms(4,5) in simp)
  then have "server_parse_client C (take n m1) now f hs = (Err MarkNotFoundYet, f, hs\<lparr>sh_client := Some mark\<rparr>)"
    using n s assms(1-5) by (intro server_parse_no_mark) auto
  with assms(1) show ?thesis by auto
qed

lemma server_parse_cached:
  assumes "64 \<le> length resp" and "sh_client sh = None" and "mark = hmac16 C (sh_mac_key sh) [slice 0 32 resp]"
  shows "server_parse_client C resp now f (sh\<lparr>sh_client := Some mark\<rparr>) = server_parse_client C resp now f sh"
  using assms by (simp add: server_parse_client_def Let_def)

lemma client_parse_prefix:
  assumes "hs = ch \<or> hs = ch\<lparr>ch_server := Some (slice 0 32 m2, slice 32 64 m2, mark)\<rparr>" and "ch_server ch = None"
    and "mark = hmac16 C (ch_mac_key ch) [slice 0 32 m2]" and "n < length m2" and "length m2 \<le> 8192"
    and "\<forall>q\<in>{64..<length m2 - 32}. slice q (q + 16) m2 \<noteq> mark"
  shows "\<exists>hs'. (hs' = ch \<or> hs' = ch\<lparr>ch_server := Some (slice 0 32 m2, slice 32 64 m2, mark)\<rparr>) \<and>
    client_parse_server C (take n m2) hs = (Err MarkNotFoundYet, hs')"
proof (cases "length (take n m2) < SERVER_MIN_HANDSHAKE_LENGTH")
  case True
  then show ?thesis using assms(1) by (auto simp: client_parse_server_def)
next
  case False
  then have n: "96 \<le> n" using assms(4) by (simp add: min_def split: if_splits)
  then have s: "slice 0 32 (take n m2) = slice 0 32 m2" "slice 32 64 (take n m2) = slice 32 64 m2"
    by (simp_all add: slice_take)
  have "find_mark_mac mark (take n m2) 64 8192 False = None"
  proof (rule find_mark_mac_none, safe)
    fix p assume p: "64 \<le> p" "p + 32 \<le> length (take n m2)" "mark = slice p (p + 16) (take n m2)"
    then have "p + 32 \<le> n" using assms(4) by simp
    with p(3) have "slice p (p + 16) m2 = mark" by (simp add: slice_take)
    then show False using assms(4,6) p(1) \<open>p + 32 \<le> n\<close> by auto
  qed
  then have "client_parse_server C (take n m2) hs =
      (Err MarkNotFoundYet, hs\<lparr>ch_server := Some (slice 0 32 m2, slice 32 64 m2, mark)\<rparr>)"
    using n s assms(1-5) by (intro client_parse_no_mark) auto
  with assms(1) show ?thesis by auto
qed

lemma client_parse_cached:
  assumes "96 \<le> length resp" and "ch_server ch = None" and "mark = hmac16 C (ch_mac_key ch) [slice 0 32 resp]"
  shows "client_parse_server C resp (ch\<lparr>ch_server := Some (slice 0 32 resp, slice 32 64 resp, mark)\<rparr>) =
    client_parse_server C resp ch"
  using assms by (simp add: client_parse_server_def Let_def)

lemma delivers_nonempty: "delivers dl evs bs \<Longrightarrow> bs \<noteq> [] \<longleftrightarrow> evs \<noteq> []"
  by (cases evs) auto

text \<open>The server's loop over a client message in pieces.\<close>

lemma server_receive_pieces:
  assumes "\<And>n now hs. ok hs \<Longrightarrow> n < length m1 \<Longrightarrow>
      \<exists>hs'. ok hs' \<and> server_parse_client C (take n m1) now f hs = (Err MarkNotFoundYet, f, hs')"
    and "\<And>hs. ok hs \<Longrightarrow> server_parse_client C m1 (wall (arrival t evs)) f hs = (Ok seed, f', hs1)"
    and "delivers dl evs bs" and "bs \<noteq> []" and "buf_inv receive" and "buf_as_slice receive @ bs = m1" and "ok hs"
  shows "server_receive C wall dl evs t receive f hs = (Ok seed, f', hs1, arrival t evs, [])"
  using assms(2-)
proof (induction evs arbitrary: t receive hs bs)
  case (Cons x evs)
  obtain ti ev where x: "x = (ti, ev)" by force
  from Cons.prems(2) x obtain b bs' where b: "ev = NetData b" "b \<noteq> []" "ti \<le> dl" "bs = b @ bs'" "delivers dl evs bs'"
    by auto
  let ?recv = "buf_extend b receive"
  have view: "buf_as_slice ?recv @ bs' = m1" "buf_inv ?recv"
    using Cons.prems(4,5) b by (simp_all add: buf_view_simps)
  show ?case
  proof (cases "bs' = []")
    case True
    then have "evs = []" using delivers_nonempty [OF b(5)] by simp
    with Cons.prems(1) [OF Cons.prems(6)] x b view True show ?thesis by (simp add: Let_def)
  next
    case False
    then have "buf_as_slice ?recv = take (length (buf_as_slice ?recv)) m1" "length (buf_as_slice ?recv) < length m1"
      using view(1) by (metis append_eq_conv_conj, metis length_append length_greater_0_conv less_add_same_cancel1)
    with assms(1) [OF Cons.prems(6)] obtain hs' where
      hs': "ok hs'" "\<And>now. server_parse_client C (buf_as_slice ?recv) (wall (max t ti)) f hs = (Err MarkNotFoundYet, f, hs')"
      by metis
    have "server_receive C wall dl evs (max t ti) ?recv f hs' = (Ok seed, f', hs1, arrival (max t ti) evs, [])"
      using Cons.prems(1) x by (intro Cons.IH [OF _ b(5) False view(2,1) hs'(1)]) simp
    with x b hs'(2) show ?thesis by (simp add: Let_def)
  qed
qed simp

text \<open>The client's loop over the server's message and what follows it, in pieces.\<close>

lemma client_receive_pieces:
  assumes "\<And>n hs. ok hs \<Longrightarrow> n < length m2 \<Longrightarrow>
      \<exists>hs'. ok hs' \<and> client_parse_server C (take n m2) hs = (Err MarkNotFoundYet, hs')"
    and "\<And>hs tail. ok hs \<Longrightarrow> \<exists>hs'. client_parse_server C (m2 @ tail) hs = (Ok (length m2, seed), hs')"
    and "delivers dl evs bs" and "length (buf_as_slice receive) < length m2"
    and "buf_inv receive" and "buf_as_slice receive @ bs = m2 @ rest" and "ok hs"
  shows "\<exists>receive' evs'. client_receive C dl evs receive hs = (Ok (seed, receive'), evs') \<and> buf_inv receive' \<and>
    buf_as_slice receive' @ read_bytes evs' = rest \<and> stays_open evs'"
  using assms(3-)
proof (induction evs arbitrary: receive hs bs)
  case Nil
  then have "length (buf_as_slice receive) = length (m2 @ rest)" by (metis append.right_neutral delivers_simps(1))
  with Nil.prems(2) show ?case by simp
next
  case (Cons x evs)
  obtain ti ev where x: "x = (ti, ev)" by force
  from Cons.prems(1) x obtain b bs' where b: "ev = NetData b" "b \<noteq> []" "ti \<le> dl" "bs = b @ bs'" "delivers dl evs bs'"
    by auto
  let ?recv = "buf_extend b receive"
  have view: "buf_as_slice ?recv @ bs' = m2 @ rest" "buf_inv ?recv"
    using Cons.prems(3,4) b by (simp_all add: buf_view_simps)
  show ?case
  proof (cases "length (buf_as_slice ?recv) < length m2")
    case True
    then have "buf_as_slice ?recv = take (length (buf_as_slice ?recv)) m2"
      using view(1) by (metis append_eq_conv_conj less_imp_le_nat take_append diff_is_0_eq' take0 append.right_neutral)
    with assms(1) [OF Cons.prems(5) True] obtain hs' where
      hs': "ok hs'" "client_parse_server C (buf_as_slice ?recv) hs = (Err MarkNotFoundYet, hs')"
      by metis
    from Cons.IH [OF b(5) True view(2,1) hs'(1)] x b hs'(2) show ?thesis by (simp add: Let_def)
  next
    case False
    then obtain tail where tail: "buf_as_slice ?recv = m2 @ tail" "tail @ bs' = rest"
      using view(1) by (metis (no_types) append_eq_append_conv_if append_take_drop_id linorder_not_less
          append_eq_append_conv append.assoc)
    from assms(2) [OF Cons.prems(5)] obtain hs' where
      "client_parse_server C (buf_as_slice ?recv) hs = (Ok (length m2, seed), hs')"
      unfolding tail(1) by blast
    moreover obtain receive' where "buf_consume (length m2) ?recv = Some receive'" "buf_inv receive'"
        "buf_as_slice receive' = drop (length m2) (buf_as_slice ?recv)"
      by (rule obfs_buf.consumeE [OF view(2), of "length m2"]) (use tail in simp)
    ultimately show ?thesis
      using x b tail by (auto simp: Let_def delivers_def)
  qed
qed

end
