(* ===== verification/Obfs4Session.thy ===== *)
theory Obfs4Session
  imports Obfs4Peers
begin

text \<open>
  The two ends of an obfs4 connection run against each other: a client that holds the
  bridge's certificate and the bridge end up with codecs in step, however the network
  cuts their messages.
\<close>

text \<open>HKDF gives as many bytes as it is asked for, up to its limit.\<close>

definition kdf_ok :: "'p crypto \<Rightarrow> bool" where
  "kdf_ok C \<longleftrightarrow> (\<forall>seed. \<exists>okm. ntor_kdf C seed (KEY_LENGTH * 2) = Some okm \<and> length okm = KEY_LENGTH * 2)"

text \<open>The mark occurs by chance before its place.\<close>

definition early_mark :: "bytes \<Rightarrow> nat \<Rightarrow> bytes \<Rightarrow> bool" where
  "early_mark mark s m \<longleftrightarrow> (\<exists>q\<in>{s..<length m - 32}. slice q (q + 16) m = mark)"

lemma split_okm:
  assumes "length okm = KEY_LENGTH * 2"
  obtains e1 d1 e2 d2 where
    "encoder_new S (take KEY_LENGTH okm) = Some e1" "decoder_new S (take KEY_LENGTH okm) = Some d1" "in_sync e1 d1"
    "encoder_new S (drop KEY_LENGTH okm) = Some e2" "decoder_new S (drop KEY_LENGTH okm) = Some d2" "in_sync e2 d2"
    "nonce_counter (enc_nonce e2) = 1"
proof -
  have len: "length (take KEY_LENGTH okm) = 72" "length (drop KEY_LENGTH okm) = 72" using assms by simp_all
  obtain e1 d1 e2 d2 where *: "encoder_new S (take KEY_LENGTH okm) = Some e1"
      "decoder_new S (take KEY_LENGTH okm) = Some d1" "encoder_new S (drop KEY_LENGTH okm) = Some e2"
      "decoder_new S (drop KEY_LENGTH okm) = Some d2"
    using new_succeeds [OF len(1)] new_succeeds [OF len(2)] by blast
  moreover have "nonce_counter (enc_nonce e2) = 1"
    using *(3) by (auto simp: encoder_new_def split_key_def nonce_new_def split: if_splits)
  ultimately show thesis using that new_in_sync by metis
qed

lemma server_answer_sent:
  assumes "ntor_kdf C seed (KEY_LENGTH * 2) = Some okm" and "length okm = KEY_LENGTH * 2"
    and "server_hs_generate C hs entropy = Some (m2, s')" and "length (sf_len_seed fac) = SEED_LENGTH"
  obtains e0 e1 d frame where "encoder_new (o_sip W) (drop KEY_LENGTH okm) = Some e0"
    "decoder_new (o_sip W) (take KEY_LENGTH okm) = Some d"
    "make_packet (o_sip W) (o_box W) e0 [] PACKET_TYPE_PRNG_SEED (sf_len_seed fac) 0 = Ok (frame, e1)"
    "server_answer W C (\<lambda>_. None) fac dists entropy hs seed t evs =
       Some \<lparr>wr_result = Ok (assemble e1 d True buf_default dists (sf_iat_mode fac)), wr_written = [m2 @ frame],
         wr_closed = None, wr_rest = evs\<rparr>"
proof -
  obtain e0 d where new: "encoder_new (o_sip W) (drop KEY_LENGTH okm) = Some e0"
      "decoder_new (o_sip W) (take KEY_LENGTH okm) = Some d" "nonce_counter (enc_nonce e0) = 1"
    by (rule split_okm [OF assms(2), of "o_sip W"])
  obtain frame e1 where "make_packet (o_sip W) (o_box W) e0 [] PACKET_TYPE_PRNG_SEED (sf_len_seed fac) 0 = Ok (frame, e1)"
    using make_packet_total [of "sf_len_seed fac" 0 e0 "o_sip W" "o_box W" "[]" PACKET_TYPE_PRNG_SEED] new(3) assms(4)
    by (auto simp: SEED_LENGTH_def)
  moreover from this have "make_packet (o_sip W) (o_box W) e0 m2 PACKET_TYPE_PRNG_SEED (sf_len_seed fac) 0 = Ok (m2 @ frame, e1)"
    by (subst make_packet_out) simp
  ultimately show thesis
    using that new assms(1,3) by (simp add: server_answer_def)
qed

text \<open>The bridge's side: it accepts the client's message in pieces, and answers.\<close>

lemma server_side:
  assumes "hmac_ok C" and "session_key C ck xr" and "agreed_secret C ck sk (sf_identity_key fac)"
    and "client_hs_new (sf_node_id fac) (kp_public (sf_identity_key fac)) ck s0 = Ok (Some (ch, s1))"
    and "server_hs_new (sf_node_id fac) (sf_identity_key fac) sk s2 = Ok (Some (sh, s3))"
    and "client_hs_generate C now_c ch s1 = Some (m1, ch1, s4)"
    and "delivers (ts + SERVER_HANDSHAKE_TIMEOUT) sevs m1" and "now = wall (arrival ts sevs)"
    and "epoch_hour now_c \<in> {epoch_hour now - 1..epoch_hour now + 1}"
    and "macs_distinct C (sh_mac_key sh) (slice 0 (length m1 - 16) m1) (epoch_hour now - 1) (epoch_hour now + 1)"
    and "rf_test_and_set now (slice (length m1 - 16) (length m1) m1) (sf_replay_filter fac) = (False, f')"
    and "\<not> early_mark (hmac16 C (ch_mac_key ch) [xr]) 109 m1"
  obtains seed auth sh1 where
    "server_receive C wall (ts + SERVER_HANDSHAKE_TIMEOUT) sevs ts buf_default (sf_replay_filter fac) sh =
       (Ok seed, f', sh1, arrival ts sevs, [])"
    "client_handshake C ck (kp_public sk) (kp_public (sf_identity_key fac)) (sf_node_id fac) = (True, seed, auth)"
    "ch1 = ch\<lparr>ch_epoch_hour := dec_int (epoch_hour now_c)\<rparr>"
    "sh1 = sh\<lparr>sh_client := Some (hmac16 C (sh_mac_key sh) [xr]), sh_epoch_hour := dec_int (epoch_hour now_c),
       sh_server_auth := auth\<rparr>"
proof -
  note ch = client_hs_newD [OF assms(4)] and sh = server_hs_newD [OF assms(5)]
  have key: "ch_mac_key ch = sh_mac_key sh" using ch sh by simp
  have ck: "session_key C (ch_keypair ch) xr" using assms(2) ch by simp
  have "agreed_secret C (ch_keypair ch) (sh_keypair sh) (sh_server_identity sh)" using assms(3) ch sh by simp
  from client_message_accepted [OF assms(1) ck assms(6) ch(1,2) key sh(6) this assms(9,10,11)]
  obtain seed auth where srv: "server_parse_client C m1 now (sf_replay_filter fac) sh =
      (Ok seed, f', sh\<lparr>sh_client := Some (hmac16 C (sh_mac_key sh) [xr]),
         sh_epoch_hour := dec_int (epoch_hour now_c), sh_server_auth := auth\<rparr>)"
    and cl: "client_handshake C ck (kp_public sk) (kp_public (sf_identity_key fac)) (sf_node_id fac) = (True, seed, auth)"
    and ch1: "ch1 = ch\<lparr>ch_epoch_hour := dec_int (epoch_hour now_c)\<rparr>"
    unfolding ch(3) sh(2-4) by blast
  obtain pad where m1: "m1 = xr @ pad @ hmac16 C (sh_mac_key sh) [xr] @
      hmac16 C (sh_mac_key sh) [xr @ pad @ hmac16 C (sh_mac_key sh) [xr], ascii (dec_int (epoch_hour now_c))]"
      and pad: "length pad = ch_pad_len ch"
    using assms(2,6) ch key by (auto simp: client_hs_generate_def session_key_def make_pad_def Let_def split: prod.splits)
      (metis fst_conv length_csrand_bytes)
  have len: "length m1 = ch_pad_len ch + 64" and xr: "slice 0 32 m1 = xr"
    using m1 pad assms(1,2) by (auto simp: session_key_def slice_def)
  let ?mark = "hmac16 C (sh_mac_key sh) [xr]" and ?sh1 = "sh\<lparr>sh_client := Some (hmac16 C (sh_mac_key sh) [xr]),
         sh_epoch_hour := dec_int (epoch_hour now_c), sh_server_auth := auth\<rparr>"
  let ?ok = "\<lambda>hs. hs = sh \<or> hs = sh\<lparr>sh_client := Some ?mark\<rparr>"
  have "server_receive C wall (ts + SERVER_HANDSHAKE_TIMEOUT) sevs ts buf_default (sf_replay_filter fac) sh =
      (Ok seed, f', ?sh1, arrival ts sevs, [])"
  proof (rule server_receive_pieces [where ok = ?ok and ?m1.0 = m1 and bs = m1])
    show "\<exists>hs'. ?ok hs' \<and> server_parse_client C (take n m1) now' (sf_replay_filter fac) hs =
        (Err MarkNotFoundYet, sf_replay_filter fac, hs')" if "?ok hs" "n < length m1" for n now' hs
    proof (rule server_parse_prefix [OF that(1) sh(6) _ that(2)])
      show "\<forall>q\<in>{109..<length m1 - 32}. slice q (q + 16) m1 \<noteq> ?mark"
        using assms(12) key by (auto simp: early_mark_def)
    qed (use xr len ch in auto)
    show "server_parse_client C m1 (wall (arrival ts sevs)) (sf_replay_filter fac) hs = (Ok seed, f', ?sh1)" if "?ok hs" for hs
      using that srv server_parse_cached [of m1 sh ?mark C now "sf_replay_filter fac"] assms(8) sh(6) xr len by auto
  qed (use assms(7) len in \<open>auto simp: buf_view_simps\<close>)
  with cl ch1 that show thesis by blast
qed

lemma client_auth_length:
  "hmac_ok C \<Longrightarrow> client_handshake C kp x y nid = (ok, seed, auth) \<Longrightarrow> length auth = 32"
  by (auto simp: client_handshake_def ntor_common_def Let_def)

lemma server_hs_length:
  assumes "server_hs_generate C hs s = Some (m, s')" and "hmac_ok C" and "session_key C (sh_keypair hs) yr"
    and "length (sh_server_auth hs) = 32"
  shows "length m = 96 + sh_pad_len hs" "slice 0 32 m = yr"
proof -
  obtain pad s'' where pad: "make_pad (sh_pad_len hs) s = (pad, s'')" by (rule prod.exhaust)
  then have "length pad = sh_pad_len hs" by (metis make_pad_def fst_conv length_csrand_bytes)
  then show "length m = 96 + sh_pad_len hs" "slice 0 32 m = yr"
    using assms pad by (auto simp: server_hs_generate_def session_key_def slice_def Let_def)
qed

text \<open>The client's side: from the answer and what follows it, in pieces.\<close>

lemma client_side:
  assumes "hmac_ok C" and "session_key C (sh_keypair sh1) yr" and "server_hs_generate C sh1 s3 = Some (m2, s5)"
    and "sh_pad_len sh1 \<le> 8051" and "ch_mac_key ch1 = sh_mac_key sh1" and "ch_server ch1 = None"
    and "ch_epoch_hour ch1 = sh_epoch_hour sh1"
    and "client_handshake C (ch_keypair ch1) (kp_public (sh_keypair sh1)) (ch_server_identity ch1) (ch_node_id ch1)
      = (True, seed, sh_server_auth sh1)"
    and "delivers dl cevs (m2 @ frame)" and "\<not> early_mark (hmac16 C (ch_mac_key ch1) [yr]) 64 m2"
  shows "length m2 = 96 + sh_pad_len sh1 \<and>
    (\<exists>receive evs'. client_receive C dl cevs buf_default ch1 = (Ok (seed, receive), evs') \<and> buf_inv receive \<and>
      buf_as_slice receive @ read_bytes evs' = frame)"
proof -
  have auth: "length (sh_server_auth sh1) = 32" by (rule client_auth_length [OF assms(1,8)])
  note len = server_hs_length(1) [OF assms(3,1,2) auth] and start = server_hs_length(2) [OF assms(3,1,2) auth]
  let ?mark = "hmac16 C (ch_mac_key ch1) [yr]"
  let ?ok = "\<lambda>hs. hs = ch1 \<or> hs = ch1\<lparr>ch_server := Some (slice 0 32 m2, slice 32 64 m2, ?mark)\<rparr>"
  have early: "\<forall>q\<in>{64..<length m2 - 32}. slice q (q + 16) m2 \<noteq> ?mark"
    using assms(10) by (auto simp: early_mark_def)
  have "\<exists>receive evs'. client_receive C dl cevs buf_default ch1 = (Ok (seed, receive), evs') \<and> buf_inv receive \<and>
      buf_as_slice receive @ read_bytes evs' = frame \<and> stays_open evs'"
  proof (rule client_receive_pieces [where ok = ?ok and ?m2.0 = m2 and bs = "m2 @ frame"])
    show "\<exists>hs'. ?ok hs' \<and> client_parse_server C (take n m2) hs = (Err MarkNotFoundYet, hs')"
      if "?ok hs" "n < length m2" for n hs
      by (rule client_parse_prefix [OF that(1) assms(6) _ that(2) _ early]) (use start len assms(4) in auto)
    show "\<exists>hs'. client_parse_server C (m2 @ tail) hs = (Ok (length m2, seed), hs')" if "?ok hs" for hs tail
    proof -
      have "fst (client_parse_server C (m2 @ tail) ch1) = Ok (length m2, seed)"
        using early len assms(5)
        by (intro server_message_accepted [OF assms(1,2,3,4,5,6,7,8) auth]) auto
      moreover have s: "slice 0 32 (m2 @ tail) = slice 0 32 m2" "slice 32 64 (m2 @ tail) = slice 32 64 m2"
        using len by (simp_all add: slice_append_left)
      ultimately show ?thesis
        using that client_parse_cached [of "m2 @ tail" ch1 ?mark C] assms(6) start len
        by (cases "client_parse_server C (m2 @ tail) ch1") auto
    qed
  qed (use assms(9) len in \<open>auto simp: buf_view_simps\<close>)
  with len show ?thesis by blast
qed

text \<open>
  C1: a client with the bridge's certificate and the bridge end up in step.  The
  bridge accepts the client's message however it is cut, answers, and from the answer
  in any pieces the client makes a connection whose encoder is in step with the
  bridge's decoder; what it has read of the answer's rest and what is still to come
  is the packet with the bridge's length seed, after which its decoder is in step
  with the bridge's encoder.
\<close>

theorem session_established:
  assumes "hmac_ok C" and "kdf_ok C" and "secretbox_ok (o_box W)"
    and "session_key C ck xr" and "session_key C sk yr" and "agreed_secret C ck sk (sf_identity_key fac)"
    and "client_hs_new (sf_node_id fac) (kp_public (sf_identity_key fac)) ck s0 = Ok (Some (ch, s1))"
    and "server_hs_new (sf_node_id fac) (sf_identity_key fac) sk s2 = Ok (Some (sh, s3))"
    and "client_hs_generate C (wall tc) ch s1 = Some (m1, ch1, s4)"
    and "delivers (ts + SERVER_HANDSHAKE_TIMEOUT) sevs m1" and "now = wall (arrival ts sevs)"
    and "epoch_hour (wall tc) \<in> {epoch_hour now - 1..epoch_hour now + 1}"
    and "macs_distinct C (sh_mac_key sh) (slice 0 (length m1 - 16) m1) (epoch_hour now - 1) (epoch_hour now + 1)"
    and "rf_test_and_set now (slice (length m1 - 16) (length m1) m1) (sf_replay_filter fac) = (False, f')"
    and "\<not> early_mark (hmac16 C (ch_mac_key ch) [xr]) 109 m1" and "length (sf_len_seed fac) = SEED_LENGTH"
  shows "\<exists>w sc blob. wrap_session W C wall (\<lambda>_. None) sevs ts sd s3 sh fac = Some (w, fac\<lparr>sf_replay_filter := f'\<rparr>) \<and>
    wr_result w = Ok sc \<and> wr_written w = [blob] \<and>
    (delivers (tc + CLIENT_HANDSHAKE_TIMEOUT) (cevs blob) blob \<and>
       \<not> early_mark (hmac16 C (ch_mac_key ch) [yr]) 64 (take (96 + sh_pad_len sh) blob) \<longrightarrow>
     (\<exists>c cc d. client_session W C wall (\<lambda>_. None) (cevs blob) tc cd s1 ch mode = Some c \<and>
        dl_result c = Ok cc \<and> dl_written c = [m1] \<and>
        in_sync (co_encoder cc) (r_decoder (co_reader sc)) \<and>
        packet_step (o_sip W) (o_box W) rl (r_decoder (co_reader cc))
          (buf_as_slice (r_receive (co_reader cc)) @ read_bytes (dl_rest c)) =
          (Got (PACKET_TYPE_PRNG_SEED, sf_len_seed fac), d, []) \<and>
        in_sync (co_encoder sc) d))"
proof -
  note ch = client_hs_newD [OF assms(7)] and sh = server_hs_newD [OF assms(8)]
  obtain seed auth sh1 where
    recv: "server_receive C wall (ts + SERVER_HANDSHAKE_TIMEOUT) sevs ts buf_default (sf_replay_filter fac) sh =
       (Ok seed, f', sh1, arrival ts sevs, [])"
    and cl: "client_handshake C ck (kp_public sk) (kp_public (sf_identity_key fac)) (sf_node_id fac) = (True, seed, auth)"
    and ch1: "ch1 = ch\<lparr>ch_epoch_hour := dec_int (epoch_hour (wall tc))\<rparr>"
    and sh1: "sh1 = sh\<lparr>sh_client := Some (hmac16 C (sh_mac_key sh) [xr]), sh_epoch_hour := dec_int (epoch_hour (wall tc)),
       sh_server_auth := auth\<rparr>"
    by (rule server_side [where wall = wall, OF assms(1,4,6,7,8,9,10,11,12,13,14,15)])
  have yr: "session_key C (sh_keypair sh1) yr" using assms(5) sh sh1 by simp
  then obtain m2 s5 where gen: "server_hs_generate C sh1 s3 = Some (m2, s5)"
    by (cases "make_pad (sh_pad_len sh1) s3") (auto simp: server_hs_generate_def session_key_def Let_def)
  obtain okm where okm: "ntor_kdf C seed (KEY_LENGTH * 2) = Some okm" "length okm = KEY_LENGTH * 2"
    using assms(2) unfolding kdf_ok_def by blast
  let ?fac = "fac\<lparr>sf_replay_filter := f'\<rparr>"
  have seed_len: "length (sf_len_seed ?fac) = SEED_LENGTH" using assms(16) by simp
  obtain e0 e1 d1 frame where srv: "encoder_new (o_sip W) (drop KEY_LENGTH okm) = Some e0"
      "decoder_new (o_sip W) (take KEY_LENGTH okm) = Some d1"
      "make_packet (o_sip W) (o_box W) e0 [] PACKET_TYPE_PRNG_SEED (sf_len_seed ?fac) 0 = Ok (frame, e1)"
      "server_answer W C (\<lambda>_. None) ?fac sd s3 sh1 seed (arrival ts sevs) [] =
       Some \<lparr>wr_result = Ok (assemble e1 d1 True buf_default sd (sf_iat_mode ?fac)), wr_written = [m2 @ frame],
         wr_closed = None, wr_rest = []\<rparr>"
    by (rule server_answer_sent [OF okm gen seed_len])
  obtain ec dc where cli: "encoder_new (o_sip W) (take KEY_LENGTH okm) = Some ec" "in_sync ec d1"
      "decoder_new (o_sip W) (drop KEY_LENGTH okm) = Some dc" "in_sync e0 dc"
    using split_okm [OF okm(2), of "o_sip W"] srv(1,2) by (metis option.inject)
  obtain d where d: "in_sync e1 d"
      "packet_step (o_sip W) (o_box W) rl dc frame = (Got (PACKET_TYPE_PRNG_SEED, sf_len_seed fac), d, [])"
    using packet_step_packet [OF assms(3) cli(4) srv(3)] by (metis append.right_neutral server_factory.select_convs(4)
        server_factory.surjective server_factory.update_convs(7))
  have dial: "\<exists>c cc. client_session W C wall (\<lambda>_. None) cev tc cd s1 ch mode = Some c \<and>
      dl_result c = Ok cc \<and> dl_written c = [m1] \<and> co_encoder cc = ec \<and> r_decoder (co_reader cc) = dc \<and>
      buf_as_slice (r_receive (co_reader cc)) @ read_bytes (dl_rest c) = frame"
    if "delivers (tc + CLIENT_HANDSHAKE_TIMEOUT) cev (m2 @ frame)"
      "\<not> early_mark (hmac16 C (ch_mac_key ch) [yr]) 64 (take (96 + sh_pad_len sh) (m2 @ frame))" for cev
  proof -
    have len: "length m2 = 96 + sh_pad_len sh"
      using server_hs_length(1) [OF gen assms(1) yr] client_auth_length [OF assms(1) cl] sh1 by simp
    have "client_handshake C (ch_keypair ch1) (kp_public (sh_keypair sh1)) (ch_server_identity ch1) (ch_node_id ch1)
      = (True, seed, sh_server_auth sh1)" using cl ch ch1 sh sh1 by simp
    from client_side [OF assms(1) yr gen _ _ _ _ this that(1)] that(2) len ch sh ch1 sh1
    obtain receive evs' where "client_receive C (tc + CLIENT_HANDSHAKE_TIMEOUT) cev buf_default ch1 = (Ok (seed, receive), evs')"
        "buf_as_slice receive @ read_bytes evs' = frame"
      by auto
    then show ?thesis
      using assms(9) okm cli by (simp add: client_session_def split_conn_def assemble_def)
  qed
  have "wrap_session W C wall (\<lambda>_. None) sevs ts sd s3 sh fac =
      Some (\<lparr>wr_result = Ok (assemble e1 d1 True buf_default sd (sf_iat_mode ?fac)), wr_written = [m2 @ frame],
         wr_closed = None, wr_rest = []\<rparr>, ?fac)"
    using recv srv(4) by (simp add: wrap_session_def)
  with dial [of "cevs (m2 @ frame)"] d cli(2) show ?thesis by (auto simp: assemble_def)
qed

definition in_two :: "int \<Rightarrow> bytes \<Rightarrow> timed_events" where
  "in_two t bs = (if bs = [] then [] else if tl bs = [] then [(t, NetData bs)]
     else [(t, NetData [hd bs]), (t, NetData (tl bs))])"

lemma in_two_delivers: "t \<le> dl \<Longrightarrow> delivers dl (in_two t bs) bs"
  by (cases bs) (auto simp: in_two_def)

lemma in_two_arrival: "bs \<noteq> [] \<Longrightarrow> arrival t (in_two t bs) = t"
  by (simp add: in_two_def)

lemma no_early_mark: "length m \<le> s + 32 \<Longrightarrow> \<not> early_mark mark s m"
  by (simp add: early_mark_def)

theorem session_established_witness:
  "\<exists>sevs cevs s f hs ch ss w sc blob m1 c cc d.
     wrap_session plain_ops plain_crypto (\<lambda>t. t) (\<lambda>_. None) sevs (5 * 3600 * 10 ^ 9) (single_dists 100) ss hs
       (plain_factory\<lparr>sf_node_id := []\<rparr>) = Some (w, f) \<and> wr_result w = Ok sc \<and> wr_written w = [blob] \<and>
     client_session plain_ops plain_crypto (\<lambda>t. t) (\<lambda>_. None) cevs (5 * 3600 * 10 ^ 9) (single_dists 90) s ch IatNone = Some c \<and>
     dl_result c = Ok cc \<and> read_bytes cevs = blob \<and> dl_written c = [m1] \<and> read_bytes sevs = m1 \<and>
     in_sync (co_encoder cc) (r_decoder (co_reader sc)) \<and> in_sync (co_encoder sc) d"
proof -
  let ?C = plain_crypto and ?t = "5 * 3600 * 10 ^ 9 :: int" and ?fac = "plain_factory\<lparr>sf_node_id := []\<rparr>"
  obtain ch sh m1 ch1 s4 f' where run:
      "client_hs_new [] (kp_public (plain_key 3)) (plain_key 1) (\<lambda>_. []) = Ok (Some (ch, \<lambda>_. []))"
      "server_hs_new [] (plain_key 3) (plain_key 2) (\<lambda>_. []) = Ok (Some (sh, \<lambda>_. []))" "sh_pad_len sh = 0"
      "client_hs_generate ?C ?t ch (\<lambda>_. []) = Some (m1, ch1, s4)"
      "rf_test_and_set ?t (slice (length m1 - 16) (length m1) m1) plain_filter = (False, f')"
    by (rule plain_run)
  have "ch_pad_len ch = 77" "kp_repr (ch_keypair ch) = Some (replicate 32 1)"
    using run(1) by (auto simp: client_hs_new_def zero_int_range plain_key_def)
  then have len: "length m1 = 141"
    using run(4) plain_hmac_ok by (auto simp: client_hs_generate_def make_pad_def zero_draw Let_def)
  then have ne: "m1 \<noteq> []" by auto
  have fac: "sf_node_id ?fac = []" "sf_identity_key ?fac = plain_key 3" "sf_replay_filter ?fac = plain_filter"
    by (simp_all add: plain_factory_def)
  have kdf: "kdf_ok ?C" by (simp add: kdf_ok_def ntor_kdf_def plain_crypto_def)
  have box: "secretbox_ok (o_box plain_ops)" by (simp add: plain_ops_def tag_box_ok)
  have dlv: "delivers (?t + SERVER_HANDSHAKE_TIMEOUT) (in_two ?t m1) m1"
    by (rule in_two_delivers) (simp add: SERVER_HANDSHAKE_TIMEOUT_def)
  have now: "?t = (\<lambda>t. t) (arrival ?t (in_two ?t m1))" by (simp add: in_two_arrival ne)
  have macs: "macs_distinct ?C (sh_mac_key sh) (slice 0 (length m1 - 16) m1) (epoch_hour ?t - 1) (epoch_hour ?t + 1)"
    using plain_macs_distinct unfolding plain_hour by simp
  have early: "\<not> early_mark (hmac16 ?C (ch_mac_key ch) [replicate 32 1]) 109 m1"
    by (rule no_early_mark) (simp add: len)
  have hour: "epoch_hour ((\<lambda>t. t) ?t) \<in> {epoch_hour ?t - 1..epoch_hour ?t + 1}" by simp
  have seed: "length (sf_len_seed ?fac) = SEED_LENGTH" by (simp add: plain_factory_def SEED_LENGTH_def)
  have agreed: "agreed_secret ?C (plain_key 1) (plain_key 2) (sf_identity_key ?fac)"
    unfolding fac by (rule plain_agreed)
  note est = session_established [where wall = "\<lambda>t. t" and W = plain_ops and fac = ?fac and cevs = "in_two ?t"
      and sd = "single_dists 100" and cd = "single_dists 90" and mode = IatNone,
      OF plain_hmac_ok kdf box plain_session_key plain_session_key agreed _ _ run(4) dlv now hour macs _ early seed,
      unfolded fac, OF run(1,2,5)]
  obtain w sc blob where w: "wrap_session plain_ops ?C (\<lambda>t. t) (\<lambda>_. None) (in_two ?t m1) ?t (single_dists 100) (\<lambda>_. []) sh ?fac =
      Some (w, ?fac\<lparr>sf_replay_filter := f'\<rparr>)" "wr_result w = Ok sc" "wr_written w = [blob]"
    and rest: "delivers (?t + CLIENT_HANDSHAKE_TIMEOUT) (in_two ?t blob) blob \<and>
       \<not> early_mark (hmac16 ?C (ch_mac_key ch) [replicate 32 2]) 64 (take (96 + sh_pad_len sh) blob) \<longrightarrow>
     (\<exists>c cc d. client_session plain_ops ?C (\<lambda>t. t) (\<lambda>_. None) (in_two ?t blob) ?t (single_dists 90) (\<lambda>_. []) ch IatNone = Some c \<and>
        dl_result c = Ok cc \<and> dl_written c = [m1] \<and> in_sync (co_encoder cc) (r_decoder (co_reader sc)) \<and>
        in_sync (co_encoder sc) d)"
    using est by blast
  have "delivers (?t + CLIENT_HANDSHAKE_TIMEOUT) (in_two ?t blob) blob"
    by (rule in_two_delivers) (simp add: CLIENT_HANDSHAKE_TIMEOUT_def)
  moreover have "\<not> early_mark (hmac16 ?C (ch_mac_key ch) [replicate 32 2]) 64 (take (96 + sh_pad_len sh) blob)"
    by (rule no_early_mark) (simp add: run(3))
  ultimately obtain c cc d where "client_session plain_ops ?C (\<lambda>t. t) (\<lambda>_. None) (in_two ?t blob) ?t (single_dists 90) (\<lambda>_. []) ch IatNone = Some c"
      "dl_result c = Ok cc" "dl_written c = [m1]" "in_sync (co_encoder cc) (r_decoder (co_reader sc))" "in_sync (co_encoder sc) d"
    using rest by blast
  moreover have "read_bytes (in_two t bs) = bs" for t bs by (cases bs) (auto simp: in_two_def)
  ultimately show ?thesis using w by blast
qed

end
