(* ===== verification/Kcp.thy ===== *)
theory Kcp
  imports Prelude
begin

text \<open>
  The KCP state machine of \<open>src/transports/snowflake/domain/kcp.rs\<close>: segments and
  their wire format, the send and receive queues, acknowledgements, congestion
  window and \<open>flush\<close>.  Every \<open>u32\<close> is a word and wraps (the release profile has no
  overflow checks), an \<open>i32\<close> is an \<open>int\<close> wrapped by \<open>i32\<close>, a \<open>usize\<close> a \<open>nat\<close>.
  \<open>current_ms()\<close> is a parameter \<open>clk\<close>: its \<open>n\<close>-th call returns \<open>clk n\<close>, and the state
  counts the calls.
\<close>

section \<open>Constants and segments\<close>

definition IKCP_RTO_NDL :: u32 where "IKCP_RTO_NDL = 30"
definition IKCP_RTO_MIN :: u32 where "IKCP_RTO_MIN = 100"
definition IKCP_RTO_DEF :: u32 where "IKCP_RTO_DEF = 200"
definition IKCP_RTO_MAX :: u32 where "IKCP_RTO_MAX = 60000"
definition IKCP_CMD_PUSH :: u8 where "IKCP_CMD_PUSH = 81"
definition IKCP_CMD_ACK :: u8 where "IKCP_CMD_ACK = 82"
definition IKCP_CMD_WASK :: u8 where "IKCP_CMD_WASK = 83"
definition IKCP_CMD_WINS :: u8 where "IKCP_CMD_WINS = 84"
definition IKCP_ASK_SEND :: u32 where "IKCP_ASK_SEND = 1"
definition IKCP_ASK_TELL :: u32 where "IKCP_ASK_TELL = 2"
definition IKCP_WND_SND :: u32 where "IKCP_WND_SND = 32"
definition IKCP_WND_RCV :: u32 where "IKCP_WND_RCV = 32"
definition IKCP_MTU_DEF :: u32 where "IKCP_MTU_DEF = 1400"
definition IKCP_INTERVAL :: u32 where "IKCP_INTERVAL = 100"
definition IKCP_OVERHEAD :: nat where "IKCP_OVERHEAD = 24"
definition IKCP_DEADLINK :: u32 where "IKCP_DEADLINK = 20"
definition IKCP_THRESH_INIT :: u32 where "IKCP_THRESH_INIT = 2"
definition IKCP_THRESH_MIN :: u32 where "IKCP_THRESH_MIN = 2"
definition IKCP_PROBE_INIT :: u32 where "IKCP_PROBE_INIT = 7000"
definition IKCP_PROBE_LIMIT :: u32 where "IKCP_PROBE_LIMIT = 120000"

lemmas kcp_consts = IKCP_RTO_NDL_def IKCP_RTO_MIN_def IKCP_RTO_DEF_def IKCP_RTO_MAX_def
  IKCP_CMD_PUSH_def IKCP_CMD_ACK_def IKCP_CMD_WASK_def IKCP_CMD_WINS_def IKCP_ASK_SEND_def
  IKCP_ASK_TELL_def IKCP_WND_SND_def IKCP_WND_RCV_def IKCP_MTU_DEF_def IKCP_INTERVAL_def
  IKCP_OVERHEAD_def IKCP_DEADLINK_def IKCP_THRESH_INIT_def IKCP_THRESH_MIN_def
  IKCP_PROBE_INIT_def IKCP_PROBE_LIMIT_def

definition i32 :: "int \<Rightarrow> int" where "i32 x = sint (word_of_int x :: u32)"

definition timediff :: "u32 \<Rightarrow> u32 \<Rightarrow> int" where
  "timediff later earlier = sint (later - earlier)"

definition bound :: "u32 \<Rightarrow> u32 \<Rightarrow> u32 \<Rightarrow> u32" where
  "bound lower middle upper = min (max middle lower) upper"

record segment =
  sg_conv :: u32
  sg_cmd :: u8
  sg_frg :: u8
  sg_wnd :: u16
  sg_ts :: u32
  sg_sn :: u32
  sg_una :: u32
  sg_rto :: u32
  sg_xmit :: u32
  sg_resendts :: u32
  sg_fastack :: u32
  sg_acked :: bool
  sg_data :: bytes

definition segment_default :: segment where
  "segment_default = \<lparr>sg_conv = 0, sg_cmd = 0, sg_frg = 0, sg_wnd = 0, sg_ts = 0, sg_sn = 0, sg_una = 0,
     sg_rto = 0, sg_xmit = 0, sg_resendts = 0, sg_fastack = 0, sg_acked = False, sg_data = []\<rparr>"

text \<open>What \<open>Segment::encode\<close> appends: the header, not the data.\<close>

definition segment_encode :: "segment \<Rightarrow> bytes" where
  "segment_encode s =
     u32_le (sg_conv s) @ [sg_cmd s] @ [sg_frg s] @ u16_le (sg_wnd s) @ u32_le (sg_ts s) @
     u32_le (sg_sn s) @ u32_le (sg_una s) @ u32_le (word_of_nat (length (sg_data s)))"

section \<open>State\<close>

record kcp =
  k_conv :: u32
  k_mtu :: u32
  k_mss :: u32
  k_state :: u32
  snd_una :: u32
  snd_nxt :: u32
  rcv_nxt :: u32
  ssthresh :: u32
  rx_rttvar :: int
  rx_srtt :: int
  rx_rto :: u32
  rx_minrto :: u32
  snd_wnd :: u32
  rcv_wnd :: u32
  rmt_wnd :: u32
  k_cwnd :: u32
  k_probe :: u32
  k_interval :: u32
  ts_flush :: u32
  k_nodelay :: u32
  k_updated :: bool
  ts_probe :: u32
  probe_wait :: u32
  dead_link :: u32
  k_incr :: u32
  fastresend :: int
  nocwnd :: bool
  k_stream :: bool
  snd_queue :: "segment list"
  rcv_queue :: "segment list"
  snd_buf :: "segment list"
  rcv_buf :: "segment list"
  acklist :: "(u32 \<times> u32) list"
  k_output :: "bytes list"
  k_reads :: nat

definition kcp_new :: "u32 \<Rightarrow> kcp" where
  "kcp_new conv = \<lparr>k_conv = conv, k_mtu = IKCP_MTU_DEF, k_mss = IKCP_MTU_DEF - word_of_nat IKCP_OVERHEAD,
     k_state = 0, snd_una = 0, snd_nxt = 0, rcv_nxt = 0, ssthresh = IKCP_THRESH_INIT, rx_rttvar = 0,
     rx_srtt = 0, rx_rto = IKCP_RTO_DEF, rx_minrto = IKCP_RTO_MIN, snd_wnd = IKCP_WND_SND,
     rcv_wnd = IKCP_WND_RCV, rmt_wnd = IKCP_WND_RCV, k_cwnd = 0, k_probe = 0, k_interval = IKCP_INTERVAL,
     ts_flush = IKCP_INTERVAL, k_nodelay = 0, k_updated = False, ts_probe = 0, probe_wait = 0,
     dead_link = IKCP_DEADLINK, k_incr = 0, fastresend = 0, nocwnd = False, k_stream = False,
     snd_queue = [], rcv_queue = [], snd_buf = [], rcv_buf = [], acklist = [], k_output = [], k_reads = 0\<rparr>"

definition take_output :: "kcp \<Rightarrow> bytes list \<times> kcp" where
  "take_output k = (k_output k, k\<lparr>k_output := []\<rparr>)"

section \<open>Receiving messages\<close>

fun message_length :: "segment list \<Rightarrow> nat" where
  "message_length [] = 0"
| "message_length (s # ss) = length (sg_data s) + (if sg_frg s = 0 then 0 else message_length ss)"

definition peek_size :: "kcp \<Rightarrow> int" where
  "peek_size k =
     (case rcv_queue k of
        [] \<Rightarrow> -1
      | seg # _ \<Rightarrow>
          if sg_frg seg = 0 then i32 (int (length (sg_data seg)))
          else if length (rcv_queue k) < unat (sg_frg seg) + 1 then -1
          else i32 (int (message_length (rcv_queue k))))"

text \<open>The \<open>while\<close> loop of \<open>move_ready_segments\<close>, on the buffer, the queue and \<open>rcv_nxt\<close>.\<close>

fun move_ready :: "u32 \<Rightarrow> segment list \<Rightarrow> segment list \<Rightarrow> u32 \<Rightarrow> segment list \<times> segment list \<times> u32" where
  "move_ready wnd [] queue nxt = ([], queue, nxt)"
| "move_ready wnd (seg # buf) queue nxt =
     (if sg_sn seg = nxt \<and> length queue < unat wnd
      then move_ready wnd buf (queue @ [seg]) (nxt + 1)
      else (seg # buf, queue, nxt))"

definition move_ready_segments :: "kcp \<Rightarrow> kcp" where
  "move_ready_segments k =
     (case move_ready (rcv_wnd k) (rcv_buf k) (rcv_queue k) (rcv_nxt k) of
        (buf, queue, nxt) \<Rightarrow> k\<lparr>rcv_buf := buf, rcv_queue := queue, rcv_nxt := nxt\<rparr>)"

text \<open>Popping one message into a caller's buffer of \<open>cap\<close> bytes, \<open>acc\<close> being what was
  copied so far; \<open>None\<close> is the out-of-range slice.\<close>

fun take_message :: "nat \<Rightarrow> bytes \<Rightarrow> segment list \<Rightarrow> (bytes \<times> segment list) option" where
  "take_message cap acc [] = Some (acc, [])"
| "take_message cap acc (s # ss) =
     (if cap < length acc + length (sg_data s) then None
      else let acc = acc @ sg_data s
           in if sg_frg s = 0 then Some (acc, ss) else take_message cap acc ss)"

definition recv :: "nat \<Rightarrow> kcp \<Rightarrow> (int \<times> bytes \<times> kcp, unit) res" where
  "recv cap k =
     (let peeksize = peek_size k
      in if peeksize < 0 then Ok (-1, [], k)
         else if cap < nat peeksize then Ok (-2, [], k)
         else
           let fast_recover = unat (rcv_wnd k) \<le> length (rcv_queue k)
           in case take_message cap [] (rcv_queue k) of
                None \<Rightarrow> Panic
              | Some (msg, queue) \<Rightarrow>
                  let k = move_ready_segments (k\<lparr>rcv_queue := queue\<rparr>);
                      k = (if length (rcv_queue k) < unat (rcv_wnd k) \<and> fast_recover
                           then k\<lparr>k_probe := k_probe k OR IKCP_ASK_TELL\<rparr> else k)
                  in Ok (i32 (int (length msg)), msg, k))"

section \<open>Sending\<close>

text \<open>In stream mode the last queued segment is filled first.\<close>

definition extend_last :: "nat \<Rightarrow> segment list \<Rightarrow> bytes \<Rightarrow> segment list \<times> bytes" where
  "extend_last mss queue buf =
     (if queue = [] then (queue, buf)
      else
        let seg = last queue
        in if length (sg_data seg) < mss then
             let extend = min (mss - length (sg_data seg)) (length buf)
             in (butlast queue @ [seg\<lparr>sg_data := sg_data seg @ take extend buf\<rparr>], drop extend buf)
           else (queue, buf))"

text \<open>The loop \<open>for i in 0..count\<close>; \<open>n\<close> is \<open>count - i\<close>.\<close>

fun fragments :: "bool \<Rightarrow> nat \<Rightarrow> nat \<Rightarrow> bytes \<Rightarrow> segment list" where
  "fragments stream mss 0 buf = []"
| "fragments stream mss (Suc n) buf =
     (let size = min (length buf) mss
      in segment_default\<lparr>sg_frg := (if stream then 0 else word_of_nat n), sg_data := take size buf\<rparr>
           # fragments stream mss n (drop size buf))"

text \<open>\<open>div_ceil\<close> by a maximal segment size of 0 would panic.\<close>

definition kcp_send :: "bytes \<Rightarrow> kcp \<Rightarrow> (int \<times> kcp, unit) res" where
  "kcp_send buf k =
     (if buf = [] then Ok (-1, k)
      else
        let mss = unat (k_mss k);
            (queue, buf) = (if k_stream k then extend_last mss (snd_queue k) buf else (snd_queue k, buf));
            k = k\<lparr>snd_queue := queue\<rparr>
        in if k_stream k \<and> buf = [] then Ok (0, k)
           else if mss < length buf \<and> mss = 0 then Panic
           else
             let count = (if length buf \<le> mss then 1 else (length buf + mss - 1) div mss)
             in if 255 < count then Ok (-2, k)
                else Ok (0, k\<lparr>snd_queue := snd_queue k @ fragments (k_stream k) mss count buf\<rparr>))"

section \<open>Acknowledgements\<close>

definition update_ack :: "int \<Rightarrow> kcp \<Rightarrow> kcp" where
  "update_ack rtt k =
     (let k =
        (if rx_srtt k = 0 then k\<lparr>rx_srtt := rtt, rx_rttvar := rtt div 2\<rparr>
         else
           let delta = i32 (rtt - rx_srtt k);
               srtt = i32 (rx_srtt k + delta div 8);
               delta = (if delta < 0 then i32 (- delta) else delta);
               rttvar =
                 (if rtt < i32 (srtt - rx_rttvar k)
                  then i32 (rx_rttvar k + i32 (delta - rx_rttvar k) div 32)
                  else i32 (rx_rttvar k + i32 (delta - rx_rttvar k) div 4))
           in k\<lparr>rx_srtt := srtt, rx_rttvar := rttvar\<rparr>);
        rto = word_of_int (rx_srtt k) + max (k_interval k) (push_bit 2 (word_of_int (rx_rttvar k)))
      in k\<lparr>rx_rto := bound (rx_minrto k) rto IKCP_RTO_MAX\<rparr>)"

definition shrink_buf :: "kcp \<Rightarrow> kcp" where
  "shrink_buf k =
     k\<lparr>snd_una := (case snd_buf k of seg # _ \<Rightarrow> sg_sn seg | [] \<Rightarrow> snd_nxt k)\<rparr>"

fun mark_acked :: "u32 \<Rightarrow> segment list \<Rightarrow> segment list" where
  "mark_acked sn [] = []"
| "mark_acked sn (seg # segs) =
     (if sn = sg_sn seg then seg\<lparr>sg_acked := True, sg_data := []\<rparr> # segs
      else if timediff sn (sg_sn seg) < 0 then seg # segs
      else seg # mark_acked sn segs)"

definition outside_window :: "u32 \<Rightarrow> kcp \<Rightarrow> bool" where
  "outside_window sn k \<longleftrightarrow> timediff sn (snd_una k) < 0 \<or> 0 \<le> timediff sn (snd_nxt k)"

definition parse_ack :: "u32 \<Rightarrow> kcp \<Rightarrow> kcp" where
  "parse_ack sn k = (if outside_window sn k then k else k\<lparr>snd_buf := mark_acked sn (snd_buf k)\<rparr>)"

fun count_fastack :: "u32 \<Rightarrow> u32 \<Rightarrow> segment list \<Rightarrow> segment list" where
  "count_fastack sn ts [] = []"
| "count_fastack sn ts (seg # segs) =
     (if timediff sn (sg_sn seg) < 0 then seg # segs
      else (if sn \<noteq> sg_sn seg \<and> timediff (sg_ts seg) ts \<le> 0
            then seg\<lparr>sg_fastack := sg_fastack seg + 1\<rparr> else seg) # count_fastack sn ts segs)"

definition parse_fastack :: "u32 \<Rightarrow> u32 \<Rightarrow> kcp \<Rightarrow> kcp" where
  "parse_fastack sn ts k =
     (if outside_window sn k then k else k\<lparr>snd_buf := count_fastack sn ts (snd_buf k)\<rparr>)"

fun drop_below :: "u32 \<Rightarrow> segment list \<Rightarrow> segment list \<times> nat" where
  "drop_below una [] = ([], 0)"
| "drop_below una (seg # segs) =
     (if 0 < timediff una (sg_sn seg)
      then (case drop_below una segs of (buf, count) \<Rightarrow> (buf, count + 1))
      else (seg # segs, 0))"

definition parse_una :: "u32 \<Rightarrow> kcp \<Rightarrow> nat \<times> kcp" where
  "parse_una una k = (case drop_below una (snd_buf k) of (buf, count) \<Rightarrow> (count, k\<lparr>snd_buf := buf\<rparr>))"

section \<open>Incoming data\<close>

text \<open>The backwards search for the place of a new segment: position and whether it is
  a repeat.\<close>

fun find_slot :: "u32 \<Rightarrow> segment list \<Rightarrow> nat \<Rightarrow> nat \<times> bool" where
  "find_slot sn buf 0 = (0, False)"
| "find_slot sn buf (Suc i) =
     (if sg_sn (buf ! i) = sn then (0, True)
      else if 0 < timediff sn (sg_sn (buf ! i)) then (i + 1, False)
      else find_slot sn buf i)"

definition parse_data :: "segment \<Rightarrow> kcp \<Rightarrow> bool \<times> kcp" where
  "parse_data newseg k =
     (let sn = sg_sn newseg
      in if 0 \<le> timediff sn (rcv_nxt k + rcv_wnd k) \<or> timediff sn (rcv_nxt k) < 0 then (True, k)
         else
           case find_slot sn (rcv_buf k) (length (rcv_buf k)) of
             (insert_idx, repeat) \<Rightarrow>
               let k = (if repeat then k
                        else k\<lparr>rcv_buf := take insert_idx (rcv_buf k) @ newseg # drop insert_idx (rcv_buf k)\<rparr>)
               in (repeat, move_ready_segments k))"

text \<open>The header fields of a datagram's next segment, with an empty data field, and the
  announced length of its data.\<close>

definition segment_header :: "bytes \<Rightarrow> segment" where
  "segment_header data =
     segment_default\<lparr>sg_conv := le_u32 (slice 0 4 data), sg_cmd := data ! 4, sg_frg := data ! 5,
       sg_wnd := le_u16 (slice 6 8 data), sg_ts := le_u32 (slice 8 12 data),
       sg_sn := le_u32 (slice 12 16 data), sg_una := le_u32 (slice 16 20 data)\<rparr>"

definition segment_length :: "bytes \<Rightarrow> nat" where
  "segment_length data = unat (le_u32 (slice 20 24 data))"

text \<open>The loop's locals.\<close>

record input_locals =
  in_latest :: u32
  in_flag :: bool
  in_slides :: bool

text \<open>What every segment does: the remote window and the cumulative acknowledgement.\<close>

definition input_head :: "bool \<Rightarrow> segment \<Rightarrow> kcp \<Rightarrow> nat \<times> kcp" where
  "input_head regular seg k =
     (case parse_una (sg_una seg) (if regular then k\<lparr>rmt_wnd := ucast (sg_wnd seg)\<rparr> else k) of
        (count, k) \<Rightarrow> (count, shrink_buf k))"

definition input_push :: "segment \<Rightarrow> kcp \<Rightarrow> kcp" where
  "input_push seg k =
     (if timediff (sg_sn seg) (rcv_nxt k + rcv_wnd k) < 0 then
        let k = k\<lparr>acklist := acklist k @ [(sg_sn seg, sg_ts seg)]\<rparr>
        in if 0 \<le> timediff (sg_sn seg) (rcv_nxt k) then snd (parse_data seg k) else k
      else k)"

definition input_segment :: "bool \<Rightarrow> segment \<Rightarrow> input_locals \<times> kcp \<Rightarrow> input_locals \<times> kcp" where
  "input_segment regular seg lk =
     (let (l, k) = lk;
          (count, k) = input_head regular seg k;
          l = (if 0 < count then l\<lparr>in_slides := True\<rparr> else l)
      in if sg_cmd seg = IKCP_CMD_ACK then
           (l\<lparr>in_flag := True, in_latest := sg_ts seg\<rparr>,
            parse_fastack (sg_sn seg) (sg_ts seg) (parse_ack (sg_sn seg) k))
         else if sg_cmd seg = IKCP_CMD_PUSH then (l, input_push seg k)
         else if sg_cmd seg = IKCP_CMD_WASK then (l, k\<lparr>k_probe := k_probe k OR IKCP_ASK_TELL\<rparr>)
         else (l, k))"

text \<open>\<open>Some code\<close> is the early return in the middle of a datagram.\<close>

function input_loop :: "bool \<Rightarrow> bytes \<Rightarrow> input_locals \<times> kcp \<Rightarrow> int option \<times> input_locals \<times> kcp" where
  "input_loop regular data lk =
     (if length data < IKCP_OVERHEAD then (None, lk)
      else
        let seg = segment_header data; len = segment_length data; data = drop IKCP_OVERHEAD data
        in if sg_conv seg \<noteq> k_conv (snd lk) then (Some (-1), lk)
           else if length data < len then (Some (-2), lk)
           else if sg_cmd seg \<notin> {IKCP_CMD_PUSH, IKCP_CMD_ACK, IKCP_CMD_WASK, IKCP_CMD_WINS} then (Some (-3), lk)
           else input_loop regular (drop len data) (input_segment regular (seg\<lparr>sg_data := take len data\<rparr>) lk))"
  by pat_completeness auto
termination
  by (relation "measure (\<lambda>(r, data, lk). length data)") (auto simp: IKCP_OVERHEAD_def)

declare input_loop.simps [simp del]

definition input_rtt :: "(nat \<Rightarrow> u32) \<Rightarrow> u32 \<Rightarrow> kcp \<Rightarrow> kcp" where
  "input_rtt clk latest k =
     (let current = clk (k_reads k); k = k\<lparr>k_reads := k_reads k + 1\<rparr>
      in if 0 \<le> timediff current latest then update_ack (timediff current latest) k else k)"

text \<open>Growth of the congestion window after new data was acknowledged; \<open>None\<close> is the
  division by zero that a maximal segment size of 0 would give.\<close>

definition input_cwnd :: "u32 \<Rightarrow> kcp \<Rightarrow> kcp option" where
  "input_cwnd una k =
     (if \<not> nocwnd k \<and> 0 < timediff (snd_una k) una \<and> k_cwnd k < rmt_wnd k then
        let mss = k_mss k;
            grown =
              (if k_cwnd k < ssthresh k
               then Some (k\<lparr>k_cwnd := k_cwnd k + 1, k_incr := k_incr k + mss\<rparr>)
               else
                 let incr = max (k_incr k) mss
                 in if incr = 0 then None
                    else
                      let incr = incr + (mss * mss div incr + mss div 16);
                          k = k\<lparr>k_incr := incr\<rparr>
                      in Some (if (k_cwnd k + 1) * mss \<le> incr then
                            k\<lparr>k_cwnd := (if 0 < mss then incr div mss + (if incr mod mss = 0 then 0 else 1)
                                         else incr + mss - 1)\<rparr>
                          else k))
        in map_option (\<lambda>k. if rmt_wnd k < k_cwnd k
             then k\<lparr>k_cwnd := rmt_wnd k, k_incr := rmt_wnd k * mss\<rparr> else k) grown
      else Some k)"

section \<open>Flushing\<close>

definition wnd_unused :: "kcp \<Rightarrow> u16" where
  "wnd_unused k =
     (if length (rcv_queue k) < unat (rcv_wnd k)
      then word_of_nat (unat (rcv_wnd k) - length (rcv_queue k)) else 0)"

text \<open>The datagram being filled and those already complete.\<close>

type_synonym packer = "bytes \<times> bytes list"

definition make_space :: "nat \<Rightarrow> nat \<Rightarrow> packer \<Rightarrow> packer" where
  "make_space mtu space p =
     (if mtu < length (fst p) + space then ([], snd p @ [fst p]) else p)"

definition pack :: "nat \<Rightarrow> bytes \<Rightarrow> packer \<Rightarrow> packer" where
  "pack mtu bs p = (case make_space mtu (length bs) p of (buf, out) \<Rightarrow> (buf @ bs, out))"

definition ctrl_segment :: "kcp \<Rightarrow> segment" where
  "ctrl_segment k = segment_default\<lparr>sg_conv := k_conv k, sg_cmd := IKCP_CMD_ACK,
     sg_wnd := wnd_unused k, sg_una := rcv_nxt k\<rparr>"

text \<open>The loop over the acknowledgements: space is made for each, but one that is already
  covered by \<open>una\<close> is only sent when it is the last.  The control segment keeps the
  last \<open>sn\<close> and \<open>ts\<close> it was given.\<close>

fun flush_acks :: "nat \<Rightarrow> u32 \<Rightarrow> (u32 \<times> u32) list \<Rightarrow> segment \<times> packer \<Rightarrow> segment \<times> packer" where
  "flush_acks mtu nxt [] cp = cp"
| "flush_acks mtu nxt ((sn, ts) # acks) (ctrl, p) =
     (let p = make_space mtu IKCP_OVERHEAD p
      in if 0 \<le> timediff sn nxt \<or> acks = []
         then let ctrl = ctrl\<lparr>sg_sn := sn, sg_ts := ts\<rparr>
              in flush_acks mtu nxt acks (ctrl, (fst p @ segment_encode ctrl, snd p))
         else flush_acks mtu nxt acks (ctrl, p))"

definition flush_probe :: "(nat \<Rightarrow> u32) \<Rightarrow> kcp \<Rightarrow> kcp" where
  "flush_probe clk k =
     (if rmt_wnd k = 0 then
        let current = clk (k_reads k); k = k\<lparr>k_reads := k_reads k + 1\<rparr>
        in if probe_wait k = 0
           then k\<lparr>probe_wait := IKCP_PROBE_INIT, ts_probe := current + IKCP_PROBE_INIT\<rparr>
           else if 0 \<le> timediff current (ts_probe k) then
             let wait = max (probe_wait k) IKCP_PROBE_INIT;
                 wait = min (wait + wait div 2) IKCP_PROBE_LIMIT
             in k\<lparr>probe_wait := wait, ts_probe := current + wait, k_probe := k_probe k OR IKCP_ASK_SEND\<rparr>
           else k
      else k\<lparr>ts_probe := 0, probe_wait := 0\<rparr>)"

definition flush_asks :: "kcp \<Rightarrow> segment \<times> packer \<Rightarrow> packer" where
  "flush_asks k cp =
     (let (ctrl, p) = cp;
          p = (if k_probe k AND IKCP_ASK_SEND \<noteq> 0
               then pack (unat (k_mtu k)) (segment_encode (ctrl\<lparr>sg_cmd := IKCP_CMD_WASK\<rparr>)) p else p);
          p = (if k_probe k AND IKCP_ASK_TELL \<noteq> 0
               then pack (unat (k_mtu k)) (segment_encode (ctrl\<lparr>sg_cmd := IKCP_CMD_WINS\<rparr>)) p else p)
      in p)"

definition flush_cwnd :: "kcp \<Rightarrow> u32" where
  "flush_cwnd k = (let cwnd = min (snd_wnd k) (rmt_wnd k) in if nocwnd k then cwnd else min (k_cwnd k) cwnd)"

text \<open>Moving segments from the queue into the window; they get their sequence numbers
  here.\<close>

fun fill_window :: "u32 \<Rightarrow> u32 \<Rightarrow> segment list \<Rightarrow> segment list \<Rightarrow> u32 \<Rightarrow> segment list \<times> segment list \<times> u32" where
  "fill_window conv limit [] buf nxt = ([], buf, nxt)"
| "fill_window conv limit (seg # queue) buf nxt =
     (if 0 \<le> timediff nxt limit then (seg # queue, buf, nxt)
      else fill_window conv limit queue
        (buf @ [seg\<lparr>sg_conv := conv, sg_cmd := IKCP_CMD_PUSH, sg_sn := nxt\<rparr>]) (nxt + 1))"

definition flush_fill :: "u32 \<Rightarrow> kcp \<Rightarrow> nat \<times> kcp" where
  "flush_fill cwnd k =
     (case fill_window (k_conv k) (snd_una k + cwnd) (snd_queue k) (snd_buf k) (snd_nxt k) of
        (queue, buf, nxt) \<Rightarrow>
          (length (snd_queue k) - length queue, k\<lparr>snd_queue := queue, snd_buf := buf, snd_nxt := nxt\<rparr>))"

definition flush_resent :: "kcp \<Rightarrow> u32" where
  "flush_resent k = (if fastresend k \<le> 0 then - 1 else word_of_int (fastresend k))"

text \<open>The locals of the transmission loop.\<close>

record flush_locals =
  fl_current :: u32
  fl_reads :: nat
  fl_change :: nat
  fl_lost :: nat
  fl_minrto :: int
  fl_dead :: bool
  fl_pack :: packer

text \<open>The parts of the state the loop reads.\<close>

record flush_params =
  fp_mtu :: nat
  fp_rto :: u32
  fp_nodelay :: u32
  fp_dead_link :: u32
  fp_resent :: u32
  fp_new :: nat
  fp_wnd :: u16
  fp_una :: u32

definition rearm :: "u32 \<Rightarrow> u32 \<Rightarrow> segment \<Rightarrow> segment" where
  "rearm current rto seg = seg\<lparr>sg_rto := rto, sg_resendts := current + rto\<rparr>"

definition needs_send :: "flush_params \<Rightarrow> flush_locals \<Rightarrow> segment \<Rightarrow> bool \<times> flush_locals \<times> segment" where
  "needs_send P l seg =
     (let now = fl_current l
      in if sg_xmit seg = 0 then (True, l, rearm now (fp_rto P) seg)
         else if fp_resent P \<le> sg_fastack seg then
           (True, l\<lparr>fl_change := fl_change l + 1\<rparr>, rearm now (fp_rto P) (seg\<lparr>sg_fastack := 0\<rparr>))
         else if 0 < sg_fastack seg \<and> fp_new P = 0 then
           (True, l\<lparr>fl_change := fl_change l + 1\<rparr>, rearm now (fp_rto P) (seg\<lparr>sg_fastack := 0\<rparr>))
         else if 0 \<le> timediff now (sg_resendts seg) then
           (True, l\<lparr>fl_lost := fl_lost l + 1\<rparr>,
            rearm now (sg_rto seg + (if fp_nodelay P = 0 then fp_rto P else fp_rto P div 2))
              (seg\<lparr>sg_fastack := 0\<rparr>))
         else (False, l, seg))"

definition transmit :: "(nat \<Rightarrow> u32) \<Rightarrow> flush_params \<Rightarrow> flush_locals \<Rightarrow> segment \<Rightarrow> flush_locals \<times> segment" where
  "transmit clk P l seg =
     (let current = clk (fl_reads l);
          seg = seg\<lparr>sg_xmit := sg_xmit seg + 1, sg_ts := current, sg_wnd := fp_wnd P, sg_una := fp_una P\<rparr>
      in (l\<lparr>fl_current := current, fl_reads := fl_reads l + 1,
            fl_pack := pack (fp_mtu P) (segment_encode seg @ sg_data seg) (fl_pack l),
            fl_dead := (fl_dead l \<or> fp_dead_link P \<le> sg_xmit seg)\<rparr>, seg))"

definition flush_segment :: "(nat \<Rightarrow> u32) \<Rightarrow> flush_params \<Rightarrow> flush_locals \<Rightarrow> segment \<Rightarrow> flush_locals \<times> segment" where
  "flush_segment clk P l seg =
     (if sg_acked seg then (l, seg)
      else
        let (needsend, l, seg) = needs_send P l seg;
            (l, seg) = (if needsend then transmit clk P l seg else (l, seg));
            rto = timediff (sg_resendts seg) (fl_current l)
        in (if 0 < rto \<and> rto < fl_minrto l then l\<lparr>fl_minrto := rto\<rparr> else l, seg))"

fun flush_segments :: "(nat \<Rightarrow> u32) \<Rightarrow> flush_params \<Rightarrow> flush_locals \<Rightarrow> segment list \<Rightarrow>
    flush_locals \<times> segment list" where
  "flush_segments clk P l [] = (l, [])"
| "flush_segments clk P l (seg # segs) =
     (case flush_segment clk P l seg of
        (l, seg) \<Rightarrow> (case flush_segments clk P l segs of (l, segs) \<Rightarrow> (l, seg # segs)))"

definition flush_congestion :: "u32 \<Rightarrow> u32 \<Rightarrow> nat \<Rightarrow> nat \<Rightarrow> kcp \<Rightarrow> kcp" where
  "flush_congestion cwnd resent change lost k =
     (if nocwnd k then k
      else
        let k = (if 0 < change then
                   let inflight = snd_nxt k - snd_una k;
                       thresh = max (inflight div 2) IKCP_THRESH_MIN
                   in k\<lparr>ssthresh := thresh, k_cwnd := thresh + resent, k_incr := (thresh + resent) * k_mss k\<rparr>
                 else k);
            k = (if 0 < lost
                 then k\<lparr>ssthresh := max (cwnd div 2) IKCP_THRESH_MIN, k_cwnd := 1, k_incr := k_mss k\<rparr>
                 else k)
        in if k_cwnd k < 1 then k\<lparr>k_cwnd := 1, k_incr := k_mss k\<rparr> else k)"

text \<open>The datagram left at the end is output if it is not empty.\<close>

definition pack_done :: "packer \<Rightarrow> bytes list" where
  "pack_done p = snd p @ (if fst p = [] then [] else [fst p])"

text \<open>The part of \<open>flush\<close> after the acknowledgements.\<close>

definition flush_data :: "(nat \<Rightarrow> u32) \<Rightarrow> segment \<times> packer \<Rightarrow> kcp \<Rightarrow> u32 \<times> kcp" where
  "flush_data clk cp k =
     (let k = flush_probe clk k;
          p = flush_asks k cp;
          cwnd = flush_cwnd k;
          (new_segs, k) = flush_fill cwnd (k\<lparr>k_probe := 0\<rparr>);
          resent = flush_resent k;
          P = \<lparr>fp_mtu = unat (k_mtu k), fp_rto = rx_rto k, fp_nodelay = k_nodelay k,
               fp_dead_link = dead_link k, fp_resent = resent, fp_new = new_segs,
               fp_wnd = sg_wnd (fst cp), fp_una = sg_una (fst cp)\<rparr>;
          (l, segs) = flush_segments clk P
            \<lparr>fl_current = clk (k_reads k), fl_reads = k_reads k + 1, fl_change = 0, fl_lost = 0,
             fl_minrto = sint (k_interval k), fl_dead = False, fl_pack = p\<rparr> (snd_buf k);
          k = k\<lparr>snd_buf := segs, k_reads := fl_reads l, k_output := pack_done (fl_pack l),
                k_state := (if fl_dead l then - 1 else k_state k)\<rparr>
      in (word_of_int (fl_minrto l), flush_congestion cwnd resent (fl_change l) (fl_lost l) k))"

definition flush :: "(nat \<Rightarrow> u32) \<Rightarrow> bool \<Rightarrow> kcp \<Rightarrow> u32 \<times> kcp" where
  "flush clk ack_only k =
     (let cp = flush_acks (unat (k_mtu k)) (rcv_nxt k) (acklist k) (ctrl_segment k, ([], k_output k));
          k = k\<lparr>acklist := []\<rparr>
      in if ack_only then (k_interval k, k\<lparr>k_output := pack_done (snd cp)\<rparr>)
         else flush_data clk cp k)"

section \<open>Input and update\<close>

definition kcp_input :: "(nat \<Rightarrow> u32) \<Rightarrow> bool \<Rightarrow> bool \<Rightarrow> bytes \<Rightarrow> kcp \<Rightarrow> (int \<times> kcp, unit) res" where
  "kcp_input clk regular ack_no_delay data k =
     (if length data < IKCP_OVERHEAD then Ok (-1, k)
      else
        case input_loop regular data (\<lparr>in_latest = 0, in_flag = False, in_slides = False\<rparr>, k) of
          (Some code, l, k') \<Rightarrow> Ok (code, k')
        | (None, l, k') \<Rightarrow>
            let k' = (if in_flag l \<and> regular then input_rtt clk (in_latest l) k' else k')
            in case input_cwnd (snd_una k) k' of
                 None \<Rightarrow> Panic
               | Some k' \<Rightarrow>
                   Ok (0, if in_slides l then snd (flush clk False k')
                          else if ack_no_delay \<and> acklist k' \<noteq> [] then snd (flush clk True k')
                          else k'))"

definition kcp_update :: "(nat \<Rightarrow> u32) \<Rightarrow> kcp \<Rightarrow> kcp" where
  "kcp_update clk k =
     (let current = clk (k_reads k);
          k = k\<lparr>k_reads := k_reads k + 1\<rparr>;
          k = (if k_updated k then k else k\<lparr>k_updated := True, ts_flush := current\<rparr>);
          slap = timediff current (ts_flush k);
          (k, slap) = (if slap < -10000 \<or> 10000 \<le> slap then (k\<lparr>ts_flush := current\<rparr>, 0) else (k, slap))
      in if 0 \<le> slap then
           let k = k\<lparr>ts_flush := ts_flush k + k_interval k\<rparr>;
               k = (if 0 \<le> timediff current (ts_flush k) then k\<lparr>ts_flush := current + k_interval k\<rparr> else k)
           in snd (flush clk False k)
         else k)"

section \<open>Settings\<close>

definition set_mtu :: "u32 \<Rightarrow> kcp \<Rightarrow> int \<times> kcp" where
  "set_mtu mtu k =
     (if mtu < 50 \<or> unat mtu < IKCP_OVERHEAD then (-1, k)
      else (0, k\<lparr>k_mtu := mtu, k_mss := mtu - word_of_nat IKCP_OVERHEAD\<rparr>))"

definition set_nodelay :: "int \<Rightarrow> int \<Rightarrow> int \<Rightarrow> int \<Rightarrow> kcp \<Rightarrow> kcp" where
  "set_nodelay nodelay interval resend nc k =
     (let k = (if 0 \<le> nodelay then k\<lparr>k_nodelay := word_of_int nodelay,
                   rx_minrto := (if nodelay \<noteq> 0 then IKCP_RTO_NDL else IKCP_RTO_MIN)\<rparr> else k);
          k = (if 0 \<le> interval then k\<lparr>k_interval := word_of_int (min (max interval 10) 5000)\<rparr> else k);
          k = (if 0 \<le> resend then k\<lparr>fastresend := resend\<rparr> else k)
      in if 0 \<le> nc then k\<lparr>nocwnd := (nc \<noteq> 0)\<rparr> else k)"

definition wnd_size :: "int \<Rightarrow> int \<Rightarrow> kcp \<Rightarrow> kcp" where
  "wnd_size sndwnd rcvwnd k =
     (let k = (if 0 < sndwnd then k\<lparr>snd_wnd := word_of_int sndwnd\<rparr> else k)
      in if 0 < rcvwnd then k\<lparr>rcv_wnd := word_of_int rcvwnd\<rparr> else k)"

definition set_stream :: "bool \<Rightarrow> kcp \<Rightarrow> kcp" where
  "set_stream stream k = k\<lparr>k_stream := stream\<rparr>"

definition wait_snd :: "kcp \<Rightarrow> nat" where
  "wait_snd k = length (snd_buf k) + length (snd_queue k)"

definition release_tx :: "kcp \<Rightarrow> kcp" where
  "release_tx k = k\<lparr>snd_queue := [], snd_buf := []\<rparr>"

section \<open>The wire format\<close>

lemma length_segment_encode [simp, wire_simps]: "length (segment_encode s) = 24"
  by (simp add: segment_encode_def)

lemma segment_header_encode:
  "segment_header (segment_encode s @ rest) =
     segment_default\<lparr>sg_conv := sg_conv s, sg_cmd := sg_cmd s, sg_frg := sg_frg s, sg_wnd := sg_wnd s,
       sg_ts := sg_ts s, sg_sn := sg_sn s, sg_una := sg_una s\<rparr>"
  by (simp add: segment_header_def segment_encode_def slice_def nth_append)

lemma segment_length_encode:
  "segment_length (segment_encode s @ rest) = length (sg_data s) mod 2 ^ 32"
proof -
  have "slice 20 24 (segment_encode s @ rest) = u32_le (word_of_nat (length (sg_data s)))"
    by (simp add: segment_encode_def slice_def)
  then show ?thesis by (simp add: segment_length_def unat_of_nat)
qed

end
