(* ===== verification/KcpInv.thy ===== *)
theory KcpInv
  imports Kcp
begin

text \<open>
  Invariants of the two ends of a KCP conversation.  \<open>H\<close> is the list of all segments
  that ever entered the sender's window, so that sequence number \<open>i\<close> belongs to
  \<open>H ! i\<close>.  The sender only ever transmits segments of \<open>H\<close> under their own number;
  the receiver's queue continues what was delivered, segment by segment.
\<close>

section \<open>Genuine segments\<close>

definition core :: "segment \<Rightarrow> u8 \<times> bytes" where "core s = (sg_frg s, sg_data s)"

definition genuine :: "segment list \<Rightarrow> segment \<Rightarrow> bool" where
  "genuine H s \<longleftrightarrow> (\<exists>i<length H. sg_sn s = word_of_nat i \<and> core s = core (H ! i))"

definition small :: "segment \<Rightarrow> bool" where "small s \<longleftrightarrow> length (sg_data s) < 2 ^ 32"

definition wire :: "segment \<Rightarrow> bytes" where "wire s = segment_encode s @ sg_data s"

definition good :: "segment list \<Rightarrow> bytes \<Rightarrow> bool" where
  "good H d \<longleftrightarrow> (\<exists>segs. d = concat (map wire segs) \<and>
     (\<forall>s\<in>set segs. small s \<and> (sg_cmd s = IKCP_CMD_PUSH \<longrightarrow> genuine H s)))"

lemma genuine_append: "genuine H s \<Longrightarrow> genuine (H @ H') s"
  unfolding genuine_def by (metis length_append nth_append trans_less_add1)

lemma genuine_core: "sg_sn s' = sg_sn s \<Longrightarrow> core s' = core s \<Longrightarrow> genuine H s' \<longleftrightarrow> genuine H s"
  by (simp add: genuine_def)

lemma good_append: "good H d \<Longrightarrow> good (H @ H') d"
  unfolding good_def using genuine_append by metis

lemma good_Nil [simp]: "good H []"
  unfolding good_def by (rule exI [of _ "[]"]) simp

lemma good_snoc:
  assumes "good H d" and "small s" and "sg_cmd s = IKCP_CMD_PUSH \<Longrightarrow> genuine H s"
  shows "good H (d @ wire s)"
proof -
  obtain segs where "d = concat (map wire segs)"
    "\<forall>s\<in>set segs. small s \<and> (sg_cmd s = IKCP_CMD_PUSH \<longrightarrow> genuine H s)"
    using assms(1) by (auto simp: good_def)
  with assms(2,3) show ?thesis unfolding good_def by (intro exI [of _ "segs @ [s]"]) auto
qed

lemma wire_control: "sg_data s = [] \<Longrightarrow> wire s = segment_encode s"
  by (simp add: wire_def)

section \<open>The receiving side\<close>

definition receiver_ok :: "segment list \<Rightarrow> segment list \<Rightarrow> kcp \<Rightarrow> bool" where
  "receiver_ok H R k \<longleftrightarrow>
     (\<exists>n\<le>length H. rcv_nxt k = word_of_nat n \<and> map core (R @ rcv_queue k) = map core (take n H)) \<and>
     (\<forall>s\<in>set (rcv_buf k). genuine H s)"

lemma receiver_ok_cong:
  assumes "rcv_nxt k' = rcv_nxt k" "rcv_queue k' = rcv_queue k" "rcv_buf k' = rcv_buf k"
  shows "receiver_ok H R k' \<longleftrightarrow> receiver_ok H R k"
  using assms by (simp add: receiver_ok_def)

lemma receiver_ok_append: "receiver_ok H R k \<Longrightarrow> receiver_ok (H @ H') R k"
proof -
  assume "receiver_ok H R k"
  then obtain n where "n \<le> length H" "rcv_nxt k = word_of_nat n"
      "map core (R @ rcv_queue k) = map core (take n H)" "\<forall>s\<in>set (rcv_buf k). genuine H s"
    by (auto simp: receiver_ok_def)
  then show ?thesis
    using genuine_append by (auto simp: receiver_ok_def intro!: exI [of _ n])
qed

lemma u32_of_nat_inject:
  assumes "i < 2 ^ 32" and "j < 2 ^ 32" and eq: "(word_of_nat i :: u32) = word_of_nat j"
  shows "i = j"
proof -
  have "unat (word_of_nat i :: u32) = i" "unat (word_of_nat j :: u32) = j"
    using assms(1,2) by (simp_all add: unat_u32_of_nat)
  with eq show ?thesis by metis
qed

lemma move_ready_ok:
  assumes "move_ready wnd buf queue nxt = (buf', queue', nxt')" and "length H < 2 ^ 32"
    and "n \<le> length H" "nxt = word_of_nat n" "map core (R @ queue) = map core (take n H)"
    and "\<forall>s\<in>set buf. genuine H s"
  shows "(\<exists>n\<le>length H. nxt' = word_of_nat n \<and> map core (R @ queue') = map core (take n H)) \<and>
    (\<forall>s\<in>set buf'. genuine H s)"
  using assms
proof (induction wnd buf queue nxt arbitrary: n rule: move_ready.induct)
  case (2 wnd seg buf queue nxt)
  show ?case
  proof (cases "sg_sn seg = nxt \<and> length queue < unat wnd")
    case True
    from 2 obtain i where i: "i < length H" "sg_sn seg = word_of_nat i" "core seg = core (H ! i)"
      by (auto simp: genuine_def)
    have "i = n"
      using True i(1,2) "2.prems"(2,3,4) by (intro u32_of_nat_inject) auto
    with i "2.prems" have "Suc n \<le> length H" "nxt + 1 = word_of_nat (Suc n)"
      "map core (R @ queue @ [seg]) = map core (take (Suc n) H)"
      by (auto simp: take_Suc_conv_app_nth)
    moreover have "move_ready wnd buf (queue @ [seg]) (nxt + 1) = (buf', queue', nxt')"
        "\<forall>s\<in>set buf. genuine H s"
      using "2.prems"(1,6) True by auto
    ultimately show ?thesis using "2.IH" [OF True _ "2.prems"(2)] by blast
  next
    case False
    with "2.prems" show ?thesis by auto
  qed
qed auto

lemma move_ready_segments_ok:
  "receiver_ok H R k \<Longrightarrow> length H < 2 ^ 32 \<Longrightarrow> receiver_ok H R (move_ready_segments k)"
  unfolding receiver_ok_def move_ready_segments_def
  by (cases "move_ready (rcv_wnd k) (rcv_buf k) (rcv_queue k) (rcv_nxt k)")
    (auto dest!: move_ready_ok [where R = R])

lemma parse_data_ok:
  assumes "receiver_ok H R k" and "length H < 2 ^ 32" and "genuine H seg"
  shows "receiver_ok H R (snd (parse_data seg k))"
proof -
  have "receiver_ok H R (k\<lparr>rcv_buf := take i (rcv_buf k) @ seg # drop i (rcv_buf k)\<rparr>)" for i
    using assms(1,3) by (auto simp: receiver_ok_def dest: in_set_takeD in_set_dropD)
  with assms(1,2) show ?thesis
    by (auto simp: parse_data_def Let_def intro!: move_ready_segments_ok split: prod.split)
qed

lemma take_message_split:
  "take_message cap acc q = Some (msg, q') \<Longrightarrow>
     \<exists>taken. q = taken @ q' \<and> msg = acc @ concat (map sg_data taken)"
proof (induction cap acc q rule: take_message.induct)
  case (2 cap acc s ss)
  show ?case
  proof (cases "sg_frg s = 0")
    case True
    with 2 show ?thesis by (intro exI [of _ "[s]"]) (auto split: if_splits)
  next
    case False
    with 2 obtain taken where "ss = taken @ q'" "msg = (acc @ sg_data s) @ concat (map sg_data taken)"
      by (auto simp: Let_def split: if_splits)
    then show ?thesis by (intro exI [of _ "s # taken"]) simp
  qed
qed simp

lemma core_data: "map core xs = map core ys \<Longrightarrow> concat (map sg_data xs) = concat (map sg_data ys)"
proof -
  assume "map core xs = map core ys"
  then have "map (snd \<circ> core) xs = map (snd \<circ> core) ys" by (metis map_map)
  moreover have "snd \<circ> core = sg_data" by (auto simp: core_def)
  ultimately show ?thesis by metis
qed

lemma recv_ok:
  assumes "receiver_ok H R k" and "length H < 2 ^ 32" and "recv cap k = Ok (code, msg, k')"
  shows "\<exists>taken. receiver_ok H (R @ taken) k' \<and> msg = concat (map sg_data taken)"
proof (cases "peek_size k < 0 \<or> cap < nat (peek_size k)")
  case True
  with assms show ?thesis by (intro exI [of _ "[]"]) (auto simp: recv_def Let_def split: if_splits)
next
  case False
  with assms(3) obtain queue where t: "take_message cap [] (rcv_queue k) = Some (msg, queue)"
    and k': "rcv_nxt k' = rcv_nxt (move_ready_segments (k\<lparr>rcv_queue := queue\<rparr>))"
      "rcv_queue k' = rcv_queue (move_ready_segments (k\<lparr>rcv_queue := queue\<rparr>))"
      "rcv_buf k' = rcv_buf (move_ready_segments (k\<lparr>rcv_queue := queue\<rparr>))"
    by (auto simp: recv_def Let_def split: option.splits prod.splits)
  from take_message_split [OF t] obtain taken where
    taken: "rcv_queue k = taken @ queue" "msg = concat (map sg_data taken)" by auto
  with assms(1) have "receiver_ok H (R @ taken) (k\<lparr>rcv_queue := queue\<rparr>)"
    by (simp add: receiver_ok_def)
  from move_ready_segments_ok [OF this assms(2)] taken(2) k' show ?thesis
    by (intro exI [of _ taken]) (simp add: receiver_ok_cong [OF k'])
qed

text \<open>What \<open>input\<close> does to the receiving side, segment by segment.\<close>

lemma recv_side_simps [simp]:
  "rcv_nxt (snd (parse_una una k)) = rcv_nxt k" "rcv_queue (snd (parse_una una k)) = rcv_queue k"
  "rcv_buf (snd (parse_una una k)) = rcv_buf k" "k_conv (snd (parse_una una k)) = k_conv k"
  "rcv_nxt (shrink_buf k) = rcv_nxt k" "rcv_queue (shrink_buf k) = rcv_queue k"
  "rcv_buf (shrink_buf k) = rcv_buf k" "k_conv (shrink_buf k) = k_conv k"
  "rcv_nxt (parse_ack sn k) = rcv_nxt k" "rcv_queue (parse_ack sn k) = rcv_queue k"
  "rcv_buf (parse_ack sn k) = rcv_buf k" "k_conv (parse_ack sn k) = k_conv k"
  "rcv_nxt (parse_fastack sn ts k) = rcv_nxt k" "rcv_queue (parse_fastack sn ts k) = rcv_queue k"
  "rcv_buf (parse_fastack sn ts k) = rcv_buf k" "k_conv (parse_fastack sn ts k) = k_conv k"
  by (simp_all add: parse_una_def shrink_buf_def parse_ack_def parse_fastack_def split: prod.split)

lemma input_push_receiver:
  assumes "receiver_ok H R k" and "length H < 2 ^ 32" and "genuine H seg"
  shows "receiver_ok H R (input_push seg k)"
proof -
  have "receiver_ok H R (k\<lparr>acklist := a\<rparr>)" for a
    using assms(1) by (subst receiver_ok_cong [of _ k]) auto
  then show ?thesis
    using assms parse_data_ok by (auto simp: input_push_def Let_def)
qed

lemma input_segment_receiver:
  assumes "receiver_ok H R k" and "length H < 2 ^ 32"
    and "sg_cmd seg = IKCP_CMD_PUSH \<Longrightarrow> genuine H seg"
  shows "receiver_ok H R (snd (input_segment regular seg (l, k)))"
proof -
  obtain count k1 where h: "input_head regular seg k = (count, k1)" by force
  have k1: "receiver_ok H R k1"
    using assms(1) h by (subst receiver_ok_cong [of _ k]) (auto simp: input_head_def split_def)
  have "receiver_ok H R (k1\<lparr>k_probe := p\<rparr>)" for p
    using k1 by (subst receiver_ok_cong [of _ k1]) auto
  moreover have "receiver_ok H R (parse_fastack sn ts (parse_ack sn k1))" for sn ts
    using k1 by (subst receiver_ok_cong [of _ k1]) auto
  ultimately show ?thesis
    using h k1 input_push_receiver [OF k1 assms(2)] assms(3) by (auto simp: input_segment_def Let_def)
qed

text \<open>The segment a receiver reads off the wire, and a datagram of genuine segments.\<close>

definition seen :: "segment \<Rightarrow> segment" where
  "seen s = segment_default\<lparr>sg_conv := sg_conv s, sg_cmd := sg_cmd s, sg_frg := sg_frg s, sg_wnd := sg_wnd s,
     sg_ts := sg_ts s, sg_sn := sg_sn s, sg_una := sg_una s, sg_data := sg_data s\<rparr>"

lemma input_loop_wire:
  assumes "small s"
  shows "input_loop regular (wire s @ rest) lk =
    (if sg_conv s \<noteq> k_conv (snd lk) then (Some (-1), lk)
     else if sg_cmd s \<notin> {IKCP_CMD_PUSH, IKCP_CMD_ACK, IKCP_CMD_WASK, IKCP_CMD_WINS} then (Some (-3), lk)
     else input_loop regular rest (input_segment regular (seen s) lk))"
proof -
  have len: "segment_length (wire s @ rest) = length (sg_data s)"
    using assms by (simp add: wire_def small_def segment_length_encode)
  have hdr: "segment_header (wire s @ rest) = segment_default\<lparr>sg_conv := sg_conv s, sg_cmd := sg_cmd s,
      sg_frg := sg_frg s, sg_wnd := sg_wnd s, sg_ts := sg_ts s, sg_sn := sg_sn s, sg_una := sg_una s\<rparr>"
    by (simp add: wire_def segment_header_encode)
  have body: "drop IKCP_OVERHEAD (wire s @ rest) = sg_data s @ rest" "\<not> length (wire s @ rest) < IKCP_OVERHEAD"
    by (simp_all add: wire_def IKCP_OVERHEAD_def)
  show ?thesis
    using body by (subst input_loop.simps) (simp add: len hdr Let_def seen_def)
qed

text \<open>A segment cut off by the reader's buffer is refused and changes nothing.\<close>

lemma input_loop_cut:
  assumes "small s" and "m < length (wire s)"
  shows "snd (input_loop regular (take m (wire s)) lk) = lk"
proof (cases "m < 24")
  case True
  then show ?thesis by (simp add: input_loop.simps IKCP_OVERHEAD_def wire_def)
next
  case False
  then have d: "take m (wire s) = segment_encode s @ take (m - 24) (sg_data s)" "m - 24 < length (sg_data s)"
    using assms(2) by (auto simp: wire_def)
  have "segment_length (take m (wire s)) = length (sg_data s)"
    using assms(1) d(1) by (simp add: small_def segment_length_encode)
  moreover have "drop IKCP_OVERHEAD (take m (wire s)) = take (m - 24) (sg_data s)"
    using d(1) by (simp add: IKCP_OVERHEAD_def)
  ultimately show ?thesis
    using d(2) by (subst input_loop.simps) (auto simp: Let_def)
qed

lemma input_loop_receiver:
  assumes "receiver_ok H R (snd lk)" and "length H < 2 ^ 32"
    and "\<forall>s\<in>set segs. small s \<and> (sg_cmd s = IKCP_CMD_PUSH \<longrightarrow> genuine H s)"
  shows "receiver_ok H R (snd (snd (input_loop regular (take m (concat (map wire segs))) lk)))"
  using assms
proof (induction segs arbitrary: lk m)
  case Nil
  then show ?case by (simp add: input_loop.simps IKCP_OVERHEAD_def)
next
  case (Cons s segs)
  obtain l k where lk: "lk = (l, k)" by force
  show ?case
  proof (cases "m < length (wire s)")
    case True
    then have d: "take m (concat (map wire (s # segs))) = take m (wire s)" by simp
    have "small s" using Cons.prems(3) by simp
    from input_loop_cut [OF this True] Cons.prems(1) show ?thesis unfolding d by simp
  next
    case False
    then have d: "take m (concat (map wire (s # segs))) = wire s @ take (m - length (wire s)) (concat (map wire segs))"
      by simp
    have "receiver_ok H R (snd (input_segment regular (seen s) (l, k)))"
      using Cons.prems lk by (intro input_segment_receiver) (auto simp: genuine_def core_def seen_def)
    from Cons.IH [OF this Cons.prems(2)] Cons.prems(1,3) show ?thesis
      unfolding d by (simp add: input_loop_wire lk)
  qed
qed

section \<open>The sending side\<close>

definition full :: "segment \<Rightarrow> bool" where "full s \<longleftrightarrow> small s \<and> sg_data s \<noteq> []"

definition slot_ok :: "segment list \<Rightarrow> segment \<Rightarrow> bool" where
  "slot_ok H s \<longleftrightarrow> small s \<and> (sg_acked s \<or> genuine H s)"

definition sender_ok :: "segment list \<Rightarrow> kcp \<Rightarrow> bool" where
  "sender_ok H k \<longleftrightarrow> snd_nxt k = word_of_nat (length H) \<and> (\<forall>s\<in>set (snd_buf k). slot_ok H s) \<and>
     (\<forall>s\<in>set (snd_queue k). full s) \<and> (\<forall>s\<in>set H. sg_data s \<noteq> []) \<and> (\<forall>d\<in>set (k_output k). good H d)"

definition queued :: "kcp \<Rightarrow> bytes" where "queued k = concat (map sg_data (snd_queue k))"

lemma sender_ok_cong:
  assumes "snd_nxt k' = snd_nxt k" "snd_buf k' = snd_buf k" "snd_queue k' = snd_queue k" "k_output k' = k_output k"
  shows "sender_ok H k' \<longleftrightarrow> sender_ok H k"
  using assms by (simp add: sender_ok_def)

lemma slot_ok_append: "slot_ok H s \<Longrightarrow> slot_ok (H @ H') s"
  by (auto simp: slot_ok_def genuine_append)

lemma small_default [simp]: "small segment_default"
  by (simp add: small_def segment_default_def)

subsection \<open>Queueing\<close>

lemma fragments_full:
  "mss < 2 ^ 32 \<Longrightarrow> 0 < mss \<Longrightarrow> (n - 1) * mss < length buf \<Longrightarrow> s \<in> set (fragments stream mss n buf) \<Longrightarrow> full s"
proof (induction n arbitrary: buf)
  case (Suc n)
  from Suc.prems(3) have len: "n * mss < length buf" by simp
  show ?case
  proof (cases "s \<in> set (fragments stream mss n (drop (min (length buf) mss) buf))")
    case True
    have "(n - 1) * mss < length (drop (min (length buf) mss) buf)"
    proof (cases n)
      case (Suc m)
      then have "m * mss + mss < length buf" using len by simp
      then show ?thesis using Suc by simp
    qed (use True in simp)
    with Suc.IH Suc.prems(1,2) True show ?thesis by blast
  next
    case False
    have "take (min (length buf) mss) buf \<noteq> []" using len Suc.prems(2) by auto
    moreover from False Suc.prems(4) have "sg_data s = take (min (length buf) mss) buf"
      by (simp add: Let_def)
    ultimately show ?thesis using Suc.prems(1) by (auto simp: full_def small_def)
  qed
qed simp

lemma fragments_data: "length buf \<le> n * mss \<Longrightarrow> concat (map sg_data (fragments stream mss n buf)) = buf"
proof (induction n arbitrary: buf)
  case (Suc n)
  then have "length (drop (min (length buf) mss) buf) \<le> n * mss" by auto
  from Suc.IH [OF this] show ?case by (simp add: Let_def)
qed simp

lemma extend_last_ok:
  assumes "extend_last mss queue buf = (queue', buf')" and "\<forall>s\<in>set queue. full s" and "mss < 2 ^ 32"
  shows "concat (map sg_data queue') @ buf' = concat (map sg_data queue) @ buf \<and> (\<forall>s\<in>set queue'. full s)"
proof (cases "queue = [] \<or> mss \<le> length (sg_data (last queue))")
  case True
  with assms show ?thesis by (auto simp: extend_last_def Let_def split: if_splits)
next
  case False
  then obtain front seg where q: "queue = front @ [seg]" "length (sg_data seg) < mss"
    by (cases queue rule: rev_cases) auto
  with assms show ?thesis
    by (auto simp: extend_last_def Let_def small_def full_def)
qed

lemma kcp_send_ok:
  assumes "sender_ok H k" and "kcp_send buf k = Ok (code, k')"
  shows "sender_ok H k' \<and> (code = 0 \<longrightarrow> queued k' = queued k @ buf)"
proof (cases "buf = []")
  case False
  have mss: "unat (k_mss k) < 2 ^ 32" using unat_bound [of "k_mss k"] by simp
  obtain queue buf' where e: "(if k_stream k then extend_last (unat (k_mss k)) (snd_queue k) buf
      else (snd_queue k, buf)) = (queue, buf')" by force
  then have q: "concat (map sg_data queue) @ buf' = queued k @ buf" "\<forall>s\<in>set queue. full s"
    using extend_last_ok [OF _ _ mss] assms(1) by (auto simp: sender_ok_def queued_def split: if_splits)
  then have base: "sender_ok H (k\<lparr>snd_queue := queue\<rparr>)" using assms(1) by (simp add: sender_ok_def)
  let ?mss = "unat (k_mss k)"
  let ?count = "if length buf' \<le> ?mss then 1 else (length buf' + ?mss - 1) div ?mss"
  show ?thesis
  proof (cases "(k_stream k \<and> buf' = []) \<or> 255 < ?count")
    case True
    with assms(2) False e base q show ?thesis
      by (auto simp: kcp_send_def Let_def queued_def split: if_splits)
  next
    case False
    with assms(2) \<open>buf \<noteq> []\<close> e have k': "code = 0" "\<not> (?mss < length buf' \<and> ?mss = 0)"
      "k' = k\<lparr>snd_queue := queue @ fragments (k_stream k) ?mss ?count buf'\<rparr>"
      by (auto simp: kcp_send_def Let_def split: if_splits)
    have "length buf' \<le> ?count * ?mss"
    proof (cases "length buf' \<le> ?mss")
      case False
      then have "length buf' + ?mss - 1 < ((length buf' + ?mss - 1) div ?mss) * ?mss + ?mss"
        using k'(2) dividend_less_div_times [of ?mss "length buf' + ?mss - 1"] by simp
      with False show ?thesis by simp
    qed simp
    note data = fragments_data [OF this, of "k_stream k"]
    have "buf' \<noteq> []" using e False \<open>buf \<noteq> []\<close> by (cases "k_stream k") auto
    with k'(2) have pos: "0 < ?mss" by (cases "?mss = 0") auto
    have "(?count - 1) * ?mss < length buf'"
    proof (cases "length buf' \<le> ?mss")
      case False
      then have "length buf' + ?mss - 1 = (length buf' - 1) + ?mss" using \<open>buf' \<noteq> []\<close> by (cases buf') auto
      then have "(length buf' + ?mss - 1) div ?mss = (length buf' - 1) div ?mss + 1"
        using pos by (metis div_add_self2 less_numeral_extra(3))
      with False have "?count - 1 = (length buf' - 1) div ?mss" by simp
      then have "(?count - 1) * ?mss \<le> length buf' - 1" by simp
      then show ?thesis using \<open>buf' \<noteq> []\<close> by (cases buf') auto
    qed (use \<open>buf' \<noteq> []\<close> in simp)
    note nonempty = fragments_full [OF mss pos this]
    obtain frags where f: "frags = fragments (k_stream k) ?mss ?count buf'" by simp
    have "\<forall>s\<in>set frags. full s" using nonempty f by blast
    moreover have "concat (map sg_data frags) = buf'" using data f by simp
    moreover have "k' = k\<lparr>snd_queue := queue @ frags\<rparr>" using k'(3) f by simp
    ultimately show ?thesis using q k'(1) base by (auto simp: sender_ok_def queued_def)
  qed
qed (use assms in \<open>auto simp: kcp_send_def\<close>)

subsection \<open>Acknowledgements\<close>

lemma slot_ok_acked: "slot_ok H (s\<lparr>sg_acked := True, sg_data := []\<rparr>)"
  by (simp add: slot_ok_def small_def)

lemma slot_ok_fastack: "slot_ok H (s\<lparr>sg_fastack := n\<rparr>) \<longleftrightarrow> slot_ok H s"
  by (simp add: slot_ok_def small_def genuine_def core_def)

lemma mark_acked_ok: "\<forall>s\<in>set segs. slot_ok H s \<Longrightarrow> \<forall>s\<in>set (mark_acked sn segs). slot_ok H s"
  by (induction segs) (simp_all add: slot_ok_acked)

lemma count_fastack_ok: "\<forall>s\<in>set segs. slot_ok H s \<Longrightarrow> \<forall>s\<in>set (count_fastack sn ts segs). slot_ok H s"
  by (induction segs) (simp_all add: slot_ok_fastack)

lemma drop_below_set: "drop_below una segs = (buf, count) \<Longrightarrow> set buf \<subseteq> set segs"
  by (induction segs arbitrary: buf count) (auto split: if_splits prod.splits)

lemma input_head_sender:
  assumes "sender_ok H k" and "input_head regular seg k = (count, k')"
  shows "sender_ok H k' \<and> snd_queue k' = snd_queue k"
  using assms drop_below_set by (auto simp: sender_ok_def input_head_def parse_una_def shrink_buf_def
      split: prod.splits if_splits) blast+

lemma parse_ack_sender: "sender_ok H k \<Longrightarrow> sender_ok H (parse_ack sn k) \<and> snd_queue (parse_ack sn k) = snd_queue k"
  using mark_acked_ok [of "snd_buf k" H sn] by (auto simp: sender_ok_def parse_ack_def)

lemma parse_fastack_sender:
  "sender_ok H k \<Longrightarrow> sender_ok H (parse_fastack sn ts k) \<and> snd_queue (parse_fastack sn ts k) = snd_queue k"
  using count_fastack_ok [of "snd_buf k" H sn ts] by (auto simp: sender_ok_def parse_fastack_def)

lemma input_push_send_side [simp]:
  "snd_nxt (input_push seg k) = snd_nxt k" "snd_buf (input_push seg k) = snd_buf k"
  "snd_queue (input_push seg k) = snd_queue k" "k_output (input_push seg k) = k_output k"
  by (auto simp: input_push_def parse_data_def move_ready_segments_def Let_def split: prod.split)

lemma input_segment_sender:
  assumes "sender_ok H k"
  shows "sender_ok H (snd (input_segment regular seg (l, k))) \<and>
    snd_queue (snd (input_segment regular seg (l, k))) = snd_queue k"
proof -
  obtain count k1 where h: "input_head regular seg k = (count, k1)" by force
  note k1 = input_head_sender [OF assms h]
  have probe: "sender_ok H (k1\<lparr>k_probe := p\<rparr>)" for p
    using k1 by (subst sender_ok_cong [of _ k1]) auto
  have push: "sender_ok H (input_push seg k1)"
    using k1 by (subst sender_ok_cong [of _ k1]) auto
  have ack: "sender_ok H (parse_fastack sn ts (parse_ack sn k1)) \<and>
      snd_queue (parse_fastack sn ts (parse_ack sn k1)) = snd_queue k1" for sn ts
    using k1 parse_ack_sender parse_fastack_sender by metis
  show ?thesis
    using h k1 probe push ack by (simp add: input_segment_def)
qed

lemma input_loop_sender:
  "sender_ok H (snd lk) \<Longrightarrow> sender_ok H (snd (snd (input_loop regular data lk))) \<and>
     snd_queue (snd (snd (input_loop regular data lk))) = snd_queue (snd lk)"
proof (induction regular data lk rule: input_loop.induct)
  case (1 regular data lk)
  let ?seg = "(segment_header data)\<lparr>sg_data := take (segment_length data) (drop IKCP_OVERHEAD data)\<rparr>"
  obtain l k where lk: "lk = (l, k)" by force
  have "sender_ok H (snd (input_segment regular ?seg lk)) \<and>
      snd_queue (snd (input_segment regular ?seg lk)) = snd_queue (snd lk)"
    using input_segment_sender 1(2) lk by simp
  with 1 show ?case
    by (subst (1 2) input_loop.simps) (simp add: Let_def)
qed

subsection \<open>Flushing\<close>

definition packer_ok :: "segment list \<Rightarrow> packer \<Rightarrow> bool" where
  "packer_ok H p \<longleftrightarrow> good H (fst p) \<and> (\<forall>d\<in>set (snd p). good H d)"

definition ctrl_ok :: "segment \<Rightarrow> bool" where
  "ctrl_ok s \<longleftrightarrow> sg_data s = [] \<and> sg_cmd s \<noteq> IKCP_CMD_PUSH"

lemma packer_ok_append: "packer_ok H p \<Longrightarrow> packer_ok (H @ H') p"
  using good_append by (auto simp: packer_ok_def)

lemma make_space_ok: "packer_ok H p \<Longrightarrow> packer_ok H (make_space mtu space p)"
  by (auto simp: packer_ok_def make_space_def)

lemma pack_ok:
  assumes "packer_ok H p" and "slot_ok H s" and "\<not> sg_acked s"
  shows "packer_ok H (pack mtu (wire s) p)"
proof -
  obtain buf out where m: "make_space mtu (length (wire s)) p = (buf, out)" by force
  with make_space_ok [OF assms(1)] have "packer_ok H (buf, out)" by metis
  then show ?thesis
    using m assms(2,3) good_snoc by (auto simp: packer_ok_def pack_def slot_ok_def)
qed

lemma good_snoc_ctrl: "good H d \<Longrightarrow> ctrl_ok s \<Longrightarrow> good H (d @ segment_encode s)"
  using good_snoc [of H d s] by (simp add: ctrl_ok_def wire_control small_def)

lemma pack_ctrl_ok:
  assumes "packer_ok H p" and "ctrl_ok s"
  shows "packer_ok H (pack mtu (segment_encode s) p)"
proof -
  obtain buf out where m: "make_space mtu (length (segment_encode s)) p = (buf, out)" by force
  with make_space_ok [OF assms(1)] have "packer_ok H (buf, out)" by metis
  then show ?thesis
    using m assms(2) good_snoc_ctrl by (auto simp: packer_ok_def pack_def)
qed

lemma flush_acks_ok:
  "packer_ok H p \<Longrightarrow> ctrl_ok ctrl \<Longrightarrow> flush_acks mtu nxt acks (ctrl, p) = (ctrl', p') \<Longrightarrow>
     packer_ok H p' \<and> ctrl_ok ctrl'"
proof (induction acks arbitrary: ctrl p)
  case (Cons a acks)
  obtain sn ts where a: "a = (sn, ts)" by force
  obtain buf out where m: "make_space mtu IKCP_OVERHEAD p = (buf, out)" by force
  with make_space_ok [OF Cons.prems(1)] have ok: "packer_ok H (buf, out)" by metis
  have ctrl: "ctrl_ok (ctrl\<lparr>sg_sn := sn, sg_ts := ts\<rparr>)"
    using Cons.prems(2) by (simp add: ctrl_ok_def)
  then have "packer_ok H (buf @ segment_encode (ctrl\<lparr>sg_sn := sn, sg_ts := ts\<rparr>), out)"
    using ok good_snoc_ctrl by (simp add: packer_ok_def)
  with Cons m a ok ctrl show ?case by (simp add: Let_def split: if_splits)
qed simp

lemma flush_asks_ok: "packer_ok H p \<Longrightarrow> ctrl_ok ctrl \<Longrightarrow> packer_ok H (flush_asks k (ctrl, p))"
proof -
  assume p: "packer_ok H p" and "ctrl_ok ctrl"
  then have "ctrl_ok (ctrl\<lparr>sg_cmd := IKCP_CMD_WASK\<rparr>)" "ctrl_ok (ctrl\<lparr>sg_cmd := IKCP_CMD_WINS\<rparr>)"
    by (simp_all add: ctrl_ok_def kcp_consts)
  with p show ?thesis by (simp add: flush_asks_def Let_def pack_ctrl_ok)
qed

lemma fill_window_ok:
  assumes "fill_window conv limit queue buf nxt = (queue', buf', nxt')"
    and "nxt = word_of_nat (length H)" and "\<forall>s\<in>set buf. slot_ok H s" and "\<forall>s\<in>set queue. full s"
  shows "\<exists>moved. queue = moved @ queue' \<and> nxt' = word_of_nat (length (H @ moved)) \<and>
    (\<forall>s\<in>set buf'. slot_ok (H @ moved) s)"
  using assms
proof (induction conv limit queue buf nxt arbitrary: H rule: fill_window.induct)
  case (2 conv limit seg queue buf nxt)
  show ?case
  proof (cases "0 \<le> timediff nxt limit")
    case True
    with 2 show ?thesis by (intro exI [of _ "[]"]) auto
  next
    case False
    let ?seg = "seg\<lparr>sg_conv := conv, sg_cmd := IKCP_CMD_PUSH, sg_sn := nxt\<rparr>"
    have "genuine (H @ [seg]) ?seg"
      using "2.prems"(2) by (auto simp: genuine_def core_def intro!: exI [of _ "length H"])
    then have "\<forall>s\<in>set (buf @ [?seg]). slot_ok (H @ [seg]) s"
      using "2.prems"(3,4) slot_ok_append by (auto simp: slot_ok_def small_def full_def)
    moreover have "nxt + 1 = word_of_nat (length (H @ [seg]))" using "2.prems"(2) by simp
    moreover have "fill_window conv limit queue (buf @ [?seg]) (nxt + 1) = (queue', buf', nxt')"
      using "2.prems"(1) False by simp
    ultimately obtain moved where "queue = moved @ queue'"
        "nxt' = word_of_nat (length ((H @ [seg]) @ moved))" "\<forall>s\<in>set buf'. slot_ok ((H @ [seg]) @ moved) s"
      using "2.IH" [OF False, of "H @ [seg]"] "2.prems"(4) by auto
    then show ?thesis by (intro exI [of _ "seg # moved"]) simp
  qed
qed (auto intro!: exI [of _ "[]"])

lemma needs_send_ok:
  "needs_send P l s = (b, l', s') \<Longrightarrow>
     core s' = core s \<and> sg_sn s' = sg_sn s \<and> sg_acked s' = sg_acked s \<and> fl_pack l' = fl_pack l"
  by (auto simp: needs_send_def rearm_def core_def Let_def split: if_splits)

lemma slot_ok_core: "core s' = core s \<Longrightarrow> sg_sn s' = sg_sn s \<Longrightarrow> sg_acked s' = sg_acked s \<Longrightarrow>
    slot_ok H s' \<longleftrightarrow> slot_ok H s"
  by (auto simp: slot_ok_def small_def genuine_def core_def)

lemma slot_ok_transmit:
  "slot_ok H (s\<lparr>sg_xmit := a, sg_ts := b, sg_wnd := c, sg_una := d\<rparr>) \<longleftrightarrow> slot_ok H s"
  by (rule slot_ok_core) (simp_all add: core_def)

lemma transmit_ok:
  assumes "transmit clk P l s = (l', s')" and "slot_ok H s" and "\<not> sg_acked s" and "packer_ok H (fl_pack l)"
  shows "slot_ok H s' \<and> packer_ok H (fl_pack l')"
proof -
  have s': "slot_ok H s'" "\<not> sg_acked s'" "sg_data s' = sg_data s"
    using assms(1-3) by (auto simp: transmit_def Let_def slot_ok_transmit)
  have "fl_pack l' = pack (fp_mtu P) (wire s') (fl_pack l)"
    using assms(1) by (auto simp: transmit_def Let_def wire_def)
  with pack_ok [OF assms(4) s'(1,2)] s'(1) show ?thesis by simp
qed

lemma flush_segment_ok:
  assumes "flush_segment clk P l s = (l', s')" and "slot_ok H s" and "packer_ok H (fl_pack l)"
  shows "slot_ok H s' \<and> packer_ok H (fl_pack l')"
proof (cases "sg_acked s")
  case False
  obtain b l1 s1 where n: "needs_send P l s = (b, l1, s1)" by (metis prod_cases3)
  note n' = needs_send_ok [OF n]
  have s1: "slot_ok H s1" "\<not> sg_acked s1" "packer_ok H (fl_pack l1)"
    using n' assms(2,3) False slot_ok_core [of s1 s] by auto
  obtain l2 s2 where t: "(if b then transmit clk P l1 s1 else (l1, s1)) = (l2, s2)" by force
  have "slot_ok H s2 \<and> packer_ok H (fl_pack l2)"
    using t transmit_ok [OF _ s1] s1 by (cases b) auto
  moreover have "s' = s2" "fl_pack l' = fl_pack l2"
    using assms(1) False n t by (auto simp: flush_segment_def Let_def split: if_splits)
  ultimately show ?thesis by simp
qed (use assms in \<open>auto simp: flush_segment_def\<close>)

lemma flush_segments_ok:
  "flush_segments clk P l segs = (l', segs') \<Longrightarrow> \<forall>s\<in>set segs. slot_ok H s \<Longrightarrow> packer_ok H (fl_pack l) \<Longrightarrow>
     (\<forall>s\<in>set segs'. slot_ok H s) \<and> packer_ok H (fl_pack l')"
proof (induction segs arbitrary: l l' segs')
  case (Cons s segs)
  obtain l1 s1 where f: "flush_segment clk P l s = (l1, s1)" by force
  obtain l2 segs2 where r: "flush_segments clk P l1 segs = (l2, segs2)" by force
  have "slot_ok H s1 \<and> packer_ok H (fl_pack l1)"
    using flush_segment_ok [OF f] Cons.prems by simp
  with Cons.IH [OF r] Cons.prems f r show ?case by auto
qed simp

lemma pack_done_ok: "packer_ok H p \<Longrightarrow> \<forall>d\<in>set (pack_done p). good H d"
  by (auto simp: packer_ok_def pack_done_def)

lemma flush_congestion_side [simp]:
  "snd_nxt (flush_congestion c r ch lo k) = snd_nxt k" "snd_buf (flush_congestion c r ch lo k) = snd_buf k"
  "snd_queue (flush_congestion c r ch lo k) = snd_queue k" "k_output (flush_congestion c r ch lo k) = k_output k"
  "rcv_nxt (flush_congestion c r ch lo k) = rcv_nxt k" "rcv_queue (flush_congestion c r ch lo k) = rcv_queue k"
  "rcv_buf (flush_congestion c r ch lo k) = rcv_buf k" "k_mss (flush_congestion c r ch lo k) = k_mss k"
  "rcv_wnd (flush_congestion c r ch lo k) = rcv_wnd k" "k_conv (flush_congestion c r ch lo k) = k_conv k"
  by (simp_all add: flush_congestion_def Let_def)

lemma flush_probe_side [simp]:
  "snd_nxt (flush_probe c k) = snd_nxt k" "snd_buf (flush_probe c k) = snd_buf k"
  "snd_queue (flush_probe c k) = snd_queue k" "k_output (flush_probe c k) = k_output k"
  "rcv_nxt (flush_probe c k) = rcv_nxt k" "rcv_queue (flush_probe c k) = rcv_queue k"
  "rcv_buf (flush_probe c k) = rcv_buf k" "k_mss (flush_probe c k) = k_mss k"
  "rcv_wnd (flush_probe c k) = rcv_wnd k" "k_conv (flush_probe c k) = k_conv k"
  by (simp_all add: flush_probe_def Let_def)

lemma flush_data_sender:
  assumes "sender_ok H k" and "packer_ok H p" and "ctrl_ok ctrl" and "flush_data clk (ctrl, p) k = (t, k')"
  shows "\<exists>moved. snd_queue k = moved @ snd_queue k' \<and> sender_ok (H @ moved) k'"
proof -
  let ?k1 = "flush_probe clk k"
  obtain queue buf nxt where f: "fill_window (k_conv ?k1) (snd_una ?k1 + flush_cwnd ?k1) (snd_queue ?k1)
      (snd_buf ?k1) (snd_nxt ?k1) = (queue, buf, nxt)"
    by (metis prod_cases3)
  let ?k2 = "?k1\<lparr>k_probe := 0, snd_queue := queue, snd_buf := buf, snd_nxt := nxt\<rparr>"
  have fill: "flush_fill (flush_cwnd ?k1) (?k1\<lparr>k_probe := 0\<rparr>)
      = (length (snd_queue ?k1) - length queue, ?k2)"
    using f by (simp add: flush_fill_def)
  obtain moved where m: "snd_queue k = moved @ queue" "nxt = word_of_nat (length (H @ moved))"
      "\<forall>s\<in>set buf. slot_ok (H @ moved) s"
    using fill_window_ok [OF f] assms(1) by (auto simp: sender_ok_def)
  have asks: "packer_ok (H @ moved) (flush_asks ?k1 (ctrl, p))"
    using flush_asks_ok [OF assms(2,3)] by (rule packer_ok_append)
  obtain P l0 l segs where s: "flush_segments clk P l0 buf = (l, segs)"
      and l0: "fl_pack l0 = flush_asks ?k1 (ctrl, p)"
      and k': "snd_nxt k' = nxt" "snd_buf k' = segs" "snd_queue k' = queue" "k_output k' = pack_done (fl_pack l)"
    using assms(4) fill unfolding flush_data_def Let_def by (auto split: prod.splits)
  from flush_segments_ok [OF s m(3)] asks l0
  have "\<forall>s\<in>set segs. slot_ok (H @ moved) s" "packer_ok (H @ moved) (fl_pack l)" by auto
  then have "sender_ok (H @ moved) k'"
    using assms(1) m k' pack_done_ok by (auto simp: sender_ok_def full_def)
  with m(1) k'(3) show ?thesis by blast
qed

lemma flush_sender:
  assumes "sender_ok H k" and "flush clk ack_only k = (t, k')"
  shows "\<exists>moved. snd_queue k = moved @ snd_queue k' \<and> sender_ok (H @ moved) k'"
proof -
  obtain ctrl p where a: "flush_acks (unat (k_mtu k)) (rcv_nxt k) (acklist k)
      (ctrl_segment k, ([], k_output k)) = (ctrl, p)" by (rule prod.exhaust)
  have "packer_ok H ([], k_output k)" "ctrl_ok (ctrl_segment k)"
    using assms(1) by (auto simp: packer_ok_def sender_ok_def ctrl_ok_def ctrl_segment_def
        segment_default_def kcp_consts)
  from flush_acks_ok [OF this a] have ok: "packer_ok H p" "ctrl_ok ctrl" by auto
  have k: "sender_ok H (k\<lparr>acklist := []\<rparr>)"
    using assms(1) by (subst sender_ok_cong [of _ k]) auto
  show ?thesis
  proof (cases ack_only)
    case True
    with assms a pack_done_ok [OF ok(1)] show ?thesis
      by (intro exI [of _ "[]"]) (auto simp: flush_def sender_ok_def)
  next
    case False
    with assms(2) a have "flush_data clk (ctrl, p) (k\<lparr>acklist := []\<rparr>) = (t, k')"
      by (simp add: flush_def)
    from flush_data_sender [OF k ok this] show ?thesis by simp
  qed
qed

lemma flush_data_recv_side:
  "flush_data clk cp k = (t, k') \<Longrightarrow> rcv_nxt k' = rcv_nxt k \<and> rcv_queue k' = rcv_queue k \<and>
     rcv_buf k' = rcv_buf k \<and> rcv_wnd k' = rcv_wnd k \<and> k_mss k' = k_mss k \<and> k_conv k' = k_conv k"
  unfolding flush_data_def flush_fill_def Let_def by (auto split: prod.splits)

lemma flush_recv_side:
  "flush clk ack_only k = (t, k') \<Longrightarrow> rcv_nxt k' = rcv_nxt k \<and> rcv_queue k' = rcv_queue k \<and>
     rcv_buf k' = rcv_buf k \<and> rcv_wnd k' = rcv_wnd k \<and> k_mss k' = k_mss k \<and> k_conv k' = k_conv k"
  by (auto simp: flush_def Let_def split: if_splits dest!: flush_data_recv_side)

section \<open>A whole datagram\<close>

lemma update_ack_side [simp]:
  "snd_nxt (update_ack r k) = snd_nxt k" "snd_buf (update_ack r k) = snd_buf k"
  "snd_queue (update_ack r k) = snd_queue k" "k_output (update_ack r k) = k_output k"
  "rcv_nxt (update_ack r k) = rcv_nxt k" "rcv_queue (update_ack r k) = rcv_queue k"
  "rcv_buf (update_ack r k) = rcv_buf k" "k_mss (update_ack r k) = k_mss k"
  "rcv_wnd (update_ack r k) = rcv_wnd k" "k_conv (update_ack r k) = k_conv k"
  by (simp_all add: update_ack_def Let_def)

lemma input_rtt_side [simp]:
  "snd_nxt (input_rtt c r k) = snd_nxt k" "snd_buf (input_rtt c r k) = snd_buf k"
  "snd_queue (input_rtt c r k) = snd_queue k" "k_output (input_rtt c r k) = k_output k"
  "rcv_nxt (input_rtt c r k) = rcv_nxt k" "rcv_queue (input_rtt c r k) = rcv_queue k"
  "rcv_buf (input_rtt c r k) = rcv_buf k" "k_mss (input_rtt c r k) = k_mss k"
  "rcv_wnd (input_rtt c r k) = rcv_wnd k" "k_conv (input_rtt c r k) = k_conv k"
  by (simp_all add: input_rtt_def Let_def)

text \<open>Two states that agree on all the invariants speak of.\<close>

definition same_sides :: "kcp \<Rightarrow> kcp \<Rightarrow> bool" where
  "same_sides k' k \<longleftrightarrow> snd_nxt k' = snd_nxt k \<and> snd_buf k' = snd_buf k \<and> snd_queue k' = snd_queue k \<and>
     k_output k' = k_output k \<and> rcv_nxt k' = rcv_nxt k \<and> rcv_queue k' = rcv_queue k \<and> rcv_buf k' = rcv_buf k \<and>
     k_mss k' = k_mss k \<and> rcv_wnd k' = rcv_wnd k \<and> k_conv k' = k_conv k"

lemma same_sides_sender: "same_sides k' k \<Longrightarrow> sender_ok H k' = sender_ok H k"
  by (rule sender_ok_cong) (simp_all add: same_sides_def)

lemma same_sides_receiver: "same_sides k' k \<Longrightarrow> receiver_ok H R k' = receiver_ok H R k"
  by (rule receiver_ok_cong) (simp_all add: same_sides_def)

lemma input_cwnd_side: "input_cwnd una k = Some k' \<Longrightarrow> same_sides k' k"
  by (auto simp: same_sides_def input_cwnd_def Let_def split: if_splits)

lemma input_rtt_same: "same_sides k' (if b then input_rtt c r k else k) \<longleftrightarrow> same_sides k' k"
  by (simp add: same_sides_def)

text \<open>\<open>input\<close> in one piece: the loop, two adjustments that touch neither side, and
  perhaps a flush.\<close>

abbreviation input_start :: "kcp \<Rightarrow> input_locals \<times> kcp" where
  "input_start k \<equiv> (\<lparr>in_latest = 0, in_flag = False, in_slides = False\<rparr>, k)"

lemma kcp_input_cases:
  assumes "kcp_input clk regular ack_no_delay data k = Ok (code, k')"
  obtains (short) "k' = k" and "length data < IKCP_OVERHEAD"
  | (stopped) c l where "input_loop regular data (input_start k) = (c, l, k')"
  | (finished) l k1 k2 where "input_loop regular data (input_start k) = (None, l, k1)"
      and "same_sides k2 k1" and "k' = k2 \<or> (\<exists>a t. flush clk a k2 = (t, k'))"
proof -
  obtain c l k1 where loop: "input_loop regular data (input_start k) = (c, l, k1)" by (metis prod_cases3)
  show ?thesis
  proof (cases "length data < IKCP_OVERHEAD \<or> c \<noteq> None")
    case True
    with assms loop short stopped show ?thesis by (cases c) (auto simp: kcp_input_def split: if_splits)
  next
    case False
    then obtain k2 where "input_cwnd (snd_una k) (if in_flag l \<and> regular then input_rtt clk (in_latest l) k1 else k1) = Some k2"
        and k': "k' = k2 \<or> (\<exists>a. k' = snd (flush clk a k2))"
      using assms loop by (auto simp: kcp_input_def Let_def split: option.splits if_splits)
    from input_cwnd_side [OF this(1)] have "same_sides k2 k1" by (simp only: input_rtt_same)
    moreover have "k' = k2 \<or> (\<exists>a t. flush clk a k2 = (t, k'))" using k' by (metis prod.collapse)
    moreover have "input_loop regular data (input_start k) = (None, l, k1)" using loop False by simp
    ultimately show ?thesis using finished by metis
  qed
qed

lemma kcp_input_sender:
  assumes "sender_ok H k" and "kcp_input clk regular ack_no_delay data k = Ok (code, k')"
  shows "\<exists>moved. snd_queue k = moved @ snd_queue k' \<and> sender_ok (H @ moved) k'"
  using assms(2)
proof (cases rule: kcp_input_cases)
  case short
  with assms(1) show ?thesis by (intro exI [of _ "[]"]) simp
next
  case (stopped c l)
  with input_loop_sender [of H "input_start k" regular data] assms(1)
  show ?thesis by (intro exI [of _ "[]"]) simp
next
  case (finished l k1 k2)
  have "sender_ok H k1" "snd_queue k1 = snd_queue k"
    using input_loop_sender [of H "input_start k" regular data] assms(1) finished(1) by auto
  then have k2: "sender_ok H k2" "snd_queue k2 = snd_queue k"
    using same_sides_sender [OF finished(2)] finished(2) by (auto simp: same_sides_def)
  from finished(3) show ?thesis
  proof
    assume "k' = k2"
    with k2 show ?thesis by (intro exI [of _ "[]"]) simp
  next
    assume "\<exists>a t. flush clk a k2 = (t, k')"
    with flush_sender [OF k2(1)] k2(2) show ?thesis by metis
  qed
qed

lemma kcp_input_receiver:
  assumes "receiver_ok H R k" and "length H < 2 ^ 32" and "good H data"
    and "kcp_input clk regular ack_no_delay (take m data) k = Ok (code, k')"
  shows "receiver_ok H R k'"
proof -
  obtain segs where segs: "data = concat (map wire segs)"
      "\<forall>s\<in>set segs. small s \<and> (sg_cmd s = IKCP_CMD_PUSH \<longrightarrow> genuine H s)"
    using assms(3) by (auto simp: good_def)
  have loop: "receiver_ok H R (snd (snd (input_loop regular (take m data) (input_start k))))"
    using input_loop_receiver [of H R "input_start k" segs] assms(1,2) segs by simp
  from assms(4) show ?thesis
  proof (cases rule: kcp_input_cases)
    case short
    with assms(1) show ?thesis by simp
  next
    case (stopped c l)
    with loop show ?thesis by simp
  next
    case (finished l k1 k2)
    with loop same_sides_receiver [OF finished(2)] have "receiver_ok H R k2" by simp
    then show ?thesis
      using finished(3) flush_recv_side by (metis receiver_ok_cong)
  qed
qed

lemma history_short: "sender_ok H k \<Longrightarrow> length H \<le> length (concat (map sg_data H))"
proof -
  have "\<forall>s\<in>set H. sg_data s \<noteq> [] \<Longrightarrow> length H \<le> length (concat (map sg_data H))" for H :: "segment list"
    by (induction H) (auto simp: neq_Nil_conv)
  then show "sender_ok H k \<Longrightarrow> ?thesis" by (simp add: sender_ok_def)
qed

section \<open>No operation panics\<close>

text \<open>The segments held for reading are bounded, and there are at most a window of them.\<close>

definition kcp_bounded :: "nat \<Rightarrow> kcp \<Rightarrow> bool" where
  "kcp_bounded M k \<longleftrightarrow> k_mss k \<noteq> 0 \<and> (\<forall>s\<in>set (rcv_queue k) \<union> set (rcv_buf k). length (sg_data s) \<le> M) \<and>
     length (rcv_queue k) \<le> unat (rcv_wnd k)"

lemma kcp_bounded_cong:
  assumes "k_mss k' = k_mss k" "rcv_queue k' = rcv_queue k" "rcv_buf k' = rcv_buf k" "rcv_wnd k' = rcv_wnd k"
  shows "kcp_bounded M k' \<longleftrightarrow> kcp_bounded M k"
  using assms by (simp add: kcp_bounded_def)

lemma move_ready_bounded:
  "move_ready wnd buf queue nxt = (buf', queue', nxt') \<Longrightarrow> length queue \<le> unat wnd \<Longrightarrow>
     length queue' \<le> unat wnd \<and> set queue' \<union> set buf' = set queue \<union> set buf"
  by (induction wnd buf queue nxt rule: move_ready.induct) (auto split: if_splits)

lemma move_ready_segments_bounded: "kcp_bounded M k \<Longrightarrow> kcp_bounded M (move_ready_segments k)"
proof -
  assume b: "kcp_bounded M k"
  obtain buf queue nxt where m: "move_ready (rcv_wnd k) (rcv_buf k) (rcv_queue k) (rcv_nxt k) = (buf, queue, nxt)"
    by (metis prod_cases3)
  with move_ready_bounded [OF m] b show ?thesis
    by (auto simp: kcp_bounded_def move_ready_segments_def)
qed

lemma message_length_bound:
  "\<forall>s\<in>set q. length (sg_data s) \<le> M \<Longrightarrow> message_length q \<le> length q * M"
  by (induction q) (auto split: if_splits)

lemma take_message_total:
  "length acc + message_length q \<le> cap \<Longrightarrow> \<exists>msg q'. take_message cap acc q = Some (msg, q')"
  by (induction cap acc q rule: take_message.induct) (auto simp: Let_def split: if_splits)

lemma i32_small: "0 \<le> x \<Longrightarrow> x < 2 ^ 31 \<Longrightarrow> i32 x = x"
  by (simp add: i32_def signed_of_int signed_take_bit_int_eq_self)

lemma peek_size_message:
  assumes "message_length (rcv_queue k) < 2 ^ 31" and "0 \<le> peek_size k"
  shows "peek_size k = int (message_length (rcv_queue k))"
  using assms by (auto simp: peek_size_def i32_small split: list.splits if_splits)

lemma recv_safe:
  assumes "kcp_bounded M k" and "unat (rcv_wnd k) * M < 2 ^ 31"
  shows "\<exists>code msg k'. recv cap k = Ok (code, msg, k') \<and> kcp_bounded M k' \<and> rcv_wnd k' = rcv_wnd k"
proof (cases "peek_size k < 0 \<or> cap < nat (peek_size k)")
  case True
  with assms show ?thesis by (auto simp: recv_def Let_def)
next
  case False
  have "message_length (rcv_queue k) \<le> length (rcv_queue k) * M"
    using assms(1) by (intro message_length_bound) (auto simp: kcp_bounded_def)
  also have "\<dots> \<le> unat (rcv_wnd k) * M" using assms(1) by (simp add: kcp_bounded_def)
  finally have "peek_size k = int (message_length (rcv_queue k))"
    using False assms(2) by (intro peek_size_message) auto
  with False obtain msg q where t: "take_message cap [] (rcv_queue k) = Some (msg, q)"
    using take_message_total [of "[]" "rcv_queue k" cap] by auto
  from take_message_split [OF t] have "kcp_bounded M (k\<lparr>rcv_queue := q\<rparr>)"
    using assms(1) by (auto simp: kcp_bounded_def)
  from move_ready_segments_bounded [OF this] t False show ?thesis
    by (auto simp: recv_def Let_def kcp_bounded_def move_ready_segments_def split: prod.splits)
qed

lemma parse_data_bounded:
  assumes "kcp_bounded M k" and "length (sg_data seg) \<le> M"
  shows "kcp_bounded M (snd (parse_data seg k))"
proof -
  have "kcp_bounded M (k\<lparr>rcv_buf := take i (rcv_buf k) @ seg # drop i (rcv_buf k)\<rparr>)" for i
    using assms by (auto simp: kcp_bounded_def dest: in_set_takeD in_set_dropD)
  with assms(1) show ?thesis
    by (auto simp: parse_data_def Let_def intro!: move_ready_segments_bounded split: prod.split)
qed

lemma input_push_bounded:
  assumes "kcp_bounded M k" and "length (sg_data seg) \<le> M"
  shows "kcp_bounded M (input_push seg k)"
proof -
  have "kcp_bounded M (k\<lparr>acklist := a\<rparr>)" for a
    using assms(1) by (subst kcp_bounded_cong [of _ k]) auto
  with assms parse_data_bounded show ?thesis by (auto simp: input_push_def Let_def)
qed

lemma input_side_wnd [simp]:
  "rcv_wnd (snd (parse_una una k)) = rcv_wnd k" "k_mss (snd (parse_una una k)) = k_mss k"
  "rcv_wnd (shrink_buf k) = rcv_wnd k" "k_mss (shrink_buf k) = k_mss k"
  "rcv_wnd (parse_ack sn k) = rcv_wnd k" "k_mss (parse_ack sn k) = k_mss k"
  "rcv_wnd (parse_fastack sn ts k) = rcv_wnd k" "k_mss (parse_fastack sn ts k) = k_mss k"
  "rcv_wnd (input_push seg k) = rcv_wnd k" "k_mss (input_push seg k) = k_mss k"
  by (auto simp: parse_una_def shrink_buf_def parse_ack_def parse_fastack_def input_push_def
      parse_data_def move_ready_segments_def Let_def split: prod.split)

lemma input_segment_bounded:
  assumes "kcp_bounded M k" and "length (sg_data seg) \<le> M"
  shows "kcp_bounded M (snd (input_segment regular seg (l, k))) \<and>
    rcv_wnd (snd (input_segment regular seg (l, k))) = rcv_wnd k"
proof -
  obtain count k1 where h: "input_head regular seg k = (count, k1)" by force
  have w: "rcv_wnd k1 = rcv_wnd k" "k_mss k1 = k_mss k"
    using h by (auto simp: input_head_def split_def)
  have k1: "kcp_bounded M k1"
    using assms(1) h by (subst kcp_bounded_cong [of _ k]) (auto simp: input_head_def split_def)
  have probe: "kcp_bounded M (k1\<lparr>k_probe := p\<rparr>)" for p
    using k1 by (subst kcp_bounded_cong [of _ k1]) auto
  have ack: "kcp_bounded M (parse_fastack sn ts (parse_ack sn k1))" for sn ts
    using k1 by (subst kcp_bounded_cong [of _ k1]) auto
  show ?thesis
    using h w k1 probe ack input_push_bounded [OF k1 assms(2)] by (simp add: input_segment_def)
qed

lemma input_loop_bounded:
  "kcp_bounded M (snd lk) \<Longrightarrow> length data \<le> M \<Longrightarrow>
     kcp_bounded M (snd (snd (input_loop regular data lk))) \<and>
     rcv_wnd (snd (snd (input_loop regular data lk))) = rcv_wnd (snd lk)"
proof (induction regular data lk rule: input_loop.induct)
  case (1 regular data lk)
  let ?seg = "(segment_header data)\<lparr>sg_data := take (segment_length data) (drop IKCP_OVERHEAD data)\<rparr>"
  obtain l k where lk: "lk = (l, k)" by force
  have "kcp_bounded M (snd (input_segment regular ?seg lk)) \<and>
      rcv_wnd (snd (input_segment regular ?seg lk)) = rcv_wnd (snd lk)"
    using input_segment_bounded [of M k ?seg regular l] 1(2,3) lk by simp
  moreover have "length (drop (segment_length data) (drop IKCP_OVERHEAD data)) \<le> M"
    using 1(3) by simp
  ultimately show ?case
    using 1 by (subst (1 2) input_loop.simps) (simp add: Let_def)
qed

lemma input_cwnd_total: "k_mss k \<noteq> 0 \<Longrightarrow> \<exists>k'. input_cwnd una k = Some k'"
proof -
  assume "k_mss k \<noteq> 0"
  then have "max (k_incr k) (k_mss k) \<noteq> 0"
    by (metis max.cobounded2 word_le_0_iff)
  then show ?thesis by (auto simp: input_cwnd_def Let_def)
qed

lemma same_sides_bounded: "same_sides k' k \<Longrightarrow> kcp_bounded M k' = kcp_bounded M k"
  by (rule kcp_bounded_cong) (simp_all add: same_sides_def)

lemma flush_bounded:
  "flush clk a k = (t, k') \<Longrightarrow> kcp_bounded M k' = kcp_bounded M k"
  by (rule kcp_bounded_cong) (use flush_recv_side in metis)+

lemma kcp_input_safe:
  assumes "kcp_bounded M k" and "length data \<le> M"
  shows "\<exists>code k'. kcp_input clk regular ack_no_delay data k = Ok (code, k') \<and> kcp_bounded M k' \<and>
    rcv_wnd k' = rcv_wnd k"
proof -
  obtain c l k1 where loop: "input_loop regular data (input_start k) = (c, l, k1)" by (metis prod_cases3)
  then have k1: "kcp_bounded M k1" "rcv_wnd k1 = rcv_wnd k"
    using input_loop_bounded [of M "input_start k" data regular] assms by auto
  let ?k2 = "if in_flag l \<and> regular then input_rtt clk (in_latest l) k1 else k1"
  have "k_mss ?k2 \<noteq> 0" using k1(1) by (simp add: kcp_bounded_def)
  then obtain k2 where k2: "input_cwnd (snd_una k) ?k2 = Some k2" using input_cwnd_total by blast
  have "\<exists>r. kcp_input clk regular ack_no_delay data k = Ok r"
    using loop k2 by (cases c) (simp_all add: kcp_input_def Let_def)
  then obtain code k' where ok: "kcp_input clk regular ack_no_delay data k = Ok (code, k')" by auto
  from ok have "kcp_bounded M k' \<and> rcv_wnd k' = rcv_wnd k"
  proof (cases rule: kcp_input_cases)
    case short
    with assms(1) show ?thesis by simp
  next
    case (stopped c l)
    with loop k1 show ?thesis by simp
  next
    case (finished l k1' k2)
    with loop have "k1' = k1" by simp
    with finished(2) k1 have "kcp_bounded M k2" "rcv_wnd k2 = rcv_wnd k"
      using same_sides_bounded [OF finished(2)] finished(2) by (auto simp: same_sides_def)
    with finished(3) flush_bounded flush_recv_side show ?thesis by metis
  qed
  with ok show ?thesis by blast
qed

lemma kcp_send_safe:
  assumes "kcp_bounded M k"
  shows "\<exists>code k'. kcp_send buf k = Ok (code, k') \<and> kcp_bounded M k' \<and> rcv_wnd k' = rcv_wnd k"
proof -
  have "unat (k_mss k) \<noteq> 0" using assms by (simp add: kcp_bounded_def unat_eq_zero)
  then have "\<exists>code k'. kcp_send buf k = Ok (code, k')"
    by (simp add: kcp_send_def Let_def split: prod.split)
  then obtain code k' where s: "kcp_send buf k = Ok (code, k')" by blast
  then have "k_mss k' = k_mss k" "rcv_queue k' = rcv_queue k" "rcv_buf k' = rcv_buf k" "rcv_wnd k' = rcv_wnd k"
    by (auto simp: kcp_send_def Let_def split: prod.splits if_splits)
  with s assms kcp_bounded_cong show ?thesis by metis
qed

end
