(* ===== verification/KcpSession.thy ===== *)
theory KcpSession
  imports KcpInv "HOL-Library.Sublist"
begin

text \<open>
  The KCP session of \<open>src/transports/snowflake/domain/kcp_session.rs\<close>: the reader with
  its pending tail, the writer with its window check, the input and update tasks,
  and closing.  A packet handed to \<open>pconn.send\<close> is an element of the list an
  operation returns.  An operation that has to wait returns \<open>Waits\<close> with the errors
  its \<open>select!\<close> could end with now; the two \<open>Notify\<close> permits are flags of the state.

  The last part joins two sessions by a network that loses, repeats and reorders
  packets and proves that the bytes read are a prefix of the bytes written.
\<close>

section \<open>State and operations\<close>

definition MTU_LIMIT :: nat where "MTU_LIMIT = 1500"

record session =
  ks_kcp :: kcp
  ks_pending :: bytes
  ks_write_delay :: bool
  ks_ack_no_delay :: bool
  ks_dead :: bool
  ks_read_error :: "string option"
  ks_read_failed :: bool
  ks_read_note :: bool
  ks_write_note :: bool

definition with_conv :: "u32 \<Rightarrow> session" where
  "with_conv conv = \<lparr>ks_kcp = kcp_new conv, ks_pending = [], ks_write_delay = False,
     ks_ack_no_delay = False, ks_dead = False, ks_read_error = None, ks_read_failed = False,
     ks_read_note = False, ks_write_note = False\<rparr>"

definition session_new :: "(nat \<Rightarrow> bytes) \<Rightarrow> session" where
  "session_new entropy = with_conv (le_u32 (entropy 4))"

definition session_configure :: "(kcp \<Rightarrow> kcp) \<Rightarrow> session \<Rightarrow> session" where
  "session_configure f s = s\<lparr>ks_kcp := f (ks_kcp s)\<rparr>"

definition read_error :: "session \<Rightarrow> string" where
  "read_error s = (case ks_read_error s of Some msg \<Rightarrow> msg | None \<Rightarrow> [])"

text \<open>\<open>transmit\<close> drops packets shorter than a header.\<close>

definition transmitted :: "bytes list \<Rightarrow> bytes list" where
  "transmitted packets = filter (\<lambda>p. IKCP_OVERHEAD \<le> length p) packets"

text \<open>\<open>BrokenPipe msg\<close> is an error of that kind with a message, \<open>None\<close> without.\<close>

datatype 'a poll = Done 'a | Fails "string option" | Waits "string option set"

text \<open>One pass of the loop in \<open>read\<close>: the bytes stored into the caller's buffer, and the
  packets sent on.\<close>

definition session_read :: "nat \<Rightarrow> session \<Rightarrow> (bytes poll \<times> bytes list \<times> session, unit) res" where
  "session_read cap s =
     (if ks_pending s \<noteq> [] then
        let n = min (length (ks_pending s)) cap
        in Ok (Done (take n (ks_pending s)), [], s\<lparr>ks_pending := drop n (ks_pending s)\<rparr>)
      else
        let size = peek_size (ks_kcp s)
        in if 0 < size then
             let room = (if nat size \<le> cap then cap else nat size)
             in case recv room (ks_kcp s) of
                  Panic \<Rightarrow> Panic
                | Err e \<Rightarrow> Err e
                | Ok (code, msg, k) \<Rightarrow>
                    let (out, k) = take_output k
                    in if nat size \<le> cap then Ok (Done msg, transmitted out, s\<lparr>ks_kcp := k\<rparr>)
                       else Ok (Done (take cap msg), transmitted out,
                              s\<lparr>ks_kcp := k, ks_pending := drop cap msg\<rparr>)
           else
             Ok (Waits ((if ks_read_failed s then {Some (read_error s)} else {}) \<union>
                  (if ks_dead s then {None} else {})), [], s\<lparr>ks_read_note := False\<rparr>))"

definition has_room :: "kcp \<Rightarrow> bool" where
  "has_room k \<longleftrightarrow> wait_snd k < unat (snd_wnd k) \<and> wait_snd k < unat (rmt_wnd k)"

fun send_chunks :: "bytes list \<Rightarrow> kcp \<Rightarrow> (kcp, unit) res" where
  "send_chunks [] k = Ok k"
| "send_chunks (c # cs) k =
     (case kcp_send c k of Ok (code, k) \<Rightarrow> send_chunks cs k | Err e \<Rightarrow> Err e | Panic \<Rightarrow> Panic)"

text \<open>The flush after a write, unless writes are delayed and the window has room.\<close>

definition write_flush :: "(nat \<Rightarrow> u32) \<Rightarrow> session \<Rightarrow> kcp \<Rightarrow> kcp" where
  "write_flush clk s k =
     (if \<not> has_room k \<or> \<not> ks_write_delay s then snd (flush clk False k) else k)"

text \<open>One pass of the loop in \<open>write_buffers\<close>; \<open>chunks(0)\<close> would panic.\<close>

definition session_write :: "(nat \<Rightarrow> u32) \<Rightarrow> bytes list \<Rightarrow> session \<Rightarrow>
    (nat poll \<times> bytes list \<times> session, unit) res" where
  "session_write clk bufs s =
     (if ks_dead s then Ok (Fails None, [], s)
      else if has_room (ks_kcp s) then
        let mss = unat (k_mss (ks_kcp s))
        in if mss = 0 \<and> bufs \<noteq> [] then Panic
           else case send_chunks (concat (map (chunks mss) bufs)) (ks_kcp s) of
               Panic \<Rightarrow> Panic
             | Err e \<Rightarrow> Err e
             | Ok k \<Rightarrow>
                 let (out, k) = take_output (write_flush clk s k)
                 in Ok (Done (sum_list (map length bufs)), transmitted out, s\<lparr>ks_kcp := k\<rparr>)
      else Ok (Waits {}, [], s\<lparr>ks_write_note := False\<rparr>))"

definition session_close :: "(nat \<Rightarrow> u32) \<Rightarrow> session \<Rightarrow> bytes list \<times> session" where
  "session_close clk s =
     (if ks_dead s then ([], s)
      else
        let (out, k) = take_output (snd (flush clk False (ks_kcp s)))
        in (transmitted out, s\<lparr>ks_dead := True, ks_kcp := release_tx k\<rparr>))"

definition note_room :: "session \<Rightarrow> session" where
  "note_room s = (if has_room (ks_kcp s) then s\<lparr>ks_write_note := True\<rparr> else s)"

definition session_input :: "(nat \<Rightarrow> u32) \<Rightarrow> bytes \<Rightarrow> session \<Rightarrow> (bytes list \<times> session, unit) res" where
  "session_input clk data s =
     (case kcp_input clk True (ks_ack_no_delay s) data (ks_kcp s) of
        Panic \<Rightarrow> Panic
      | Err e \<Rightarrow> Err e
      | Ok (code, k) \<Rightarrow>
          let s = s\<lparr>ks_kcp := k\<rparr>;
              s = (if 0 < peek_size k then s\<lparr>ks_read_note := True\<rparr> else s);
              s = note_room s;
              (out, k) = take_output (ks_kcp s)
          in Ok (transmitted out, s\<lparr>ks_kcp := k\<rparr>))"

text \<open>What \<open>pconn.recv\<close> hands to the read task: a datagram, cut to the buffer, or an
  error that ends the task.\<close>

datatype received = Datagram bytes | RecvError string

definition read_loop_step :: "(nat \<Rightarrow> u32) \<Rightarrow> received \<Rightarrow> session \<Rightarrow>
    (bytes list \<times> session \<times> bool, unit) res" where
  "read_loop_step clk r s =
     (case r of
        Datagram d \<Rightarrow>
          let d = take MTU_LIMIT d
          in if IKCP_OVERHEAD \<le> length d
             then map_ok (\<lambda>(out, s). (out, s, True)) (session_input clk d s)
             else Ok ([], s, True)
      | RecvError e \<Rightarrow> Ok ([], s\<lparr>ks_read_error := Some e, ks_read_failed := True\<rparr>, False))"

text \<open>One round of the update task: \<open>None\<close> when it ends, else the delay to the next.\<close>

definition update_loop_step :: "(nat \<Rightarrow> u32) \<Rightarrow> session \<Rightarrow> u32 option \<times> bytes list \<times> session" where
  "update_loop_step clk s =
     (if ks_dead s then (None, [], s)
      else
        let (interval, k) = flush clk False (ks_kcp s);
            s = note_room (s\<lparr>ks_kcp := k\<rparr>);
            (out, k) = take_output (ks_kcp s)
        in (Some interval, transmitted out, s\<lparr>ks_kcp := k\<rparr>))"

section \<open>Two sessions and a network\<close>

text \<open>
  \<open>l_net\<close> holds every packet the writing session ever sent; \<open>Carry i\<close> delivers the
  \<open>i\<close>-th of them, so a schedule may lose, repeat and reorder packets at will.  The
  writing session may receive anything (\<open>Inject\<close>).
\<close>

datatype link_event = Write "bytes list" | Read nat | Carry nat | Inject received | TickWriter
  | TickReader | CloseWriter | CloseReader

record link =
  l_writer :: session
  l_reader :: session
  l_net :: "bytes list"
  l_written :: bytes
  l_read :: bytes

definition link_start :: "session \<Rightarrow> session \<Rightarrow> link" where
  "link_start a b = \<lparr>l_writer = a, l_reader = b, l_net = [], l_written = [], l_read = []\<rparr>"

definition sent_on :: "link \<Rightarrow> bytes list \<Rightarrow> session \<Rightarrow> link" where
  "sent_on l out a = l\<lparr>l_writer := a, l_net := l_net l @ out\<rparr>"

definition link_step :: "(nat \<Rightarrow> u32) \<Rightarrow> (nat \<Rightarrow> u32) \<Rightarrow> link_event \<Rightarrow> link \<Rightarrow> link option" where
  "link_step ca cb ev l =
     (case ev of
        Write bufs \<Rightarrow>
          (case session_write ca bufs (l_writer l) of
             Ok (Done n, out, a) \<Rightarrow> Some ((sent_on l out a)\<lparr>l_written := l_written l @ concat bufs\<rparr>)
           | Ok (_, out, a) \<Rightarrow> Some (sent_on l out a)
           | _ \<Rightarrow> None)
      | Read cap \<Rightarrow>
          (case session_read cap (l_reader l) of
             Ok (Done bs, out, b) \<Rightarrow> Some (l\<lparr>l_reader := b, l_read := l_read l @ bs\<rparr>)
           | Ok (_, out, b) \<Rightarrow> Some (l\<lparr>l_reader := b\<rparr>)
           | _ \<Rightarrow> None)
      | Carry i \<Rightarrow>
          if length (l_net l) \<le> i then Some l
          else (case read_loop_step cb (Datagram (l_net l ! i)) (l_reader l) of
                  Ok (out, b, _) \<Rightarrow> Some (l\<lparr>l_reader := b\<rparr>)
                | _ \<Rightarrow> None)
      | Inject r \<Rightarrow>
          (case read_loop_step ca r (l_writer l) of
             Ok (out, a, _) \<Rightarrow> Some (sent_on l out a)
           | _ \<Rightarrow> None)
      | TickWriter \<Rightarrow> (case update_loop_step ca (l_writer l) of (_, out, a) \<Rightarrow> Some (sent_on l out a))
      | TickReader \<Rightarrow> (case update_loop_step cb (l_reader l) of (_, out, b) \<Rightarrow> Some (l\<lparr>l_reader := b\<rparr>))
      | CloseWriter \<Rightarrow> (case session_close ca (l_writer l) of (out, a) \<Rightarrow> Some (sent_on l out a))
      | CloseReader \<Rightarrow> (case session_close cb (l_reader l) of (out, b) \<Rightarrow> Some (l\<lparr>l_reader := b\<rparr>)))"

fun run_link :: "(nat \<Rightarrow> u32) \<Rightarrow> (nat \<Rightarrow> u32) \<Rightarrow> link_event list \<Rightarrow> link \<Rightarrow> link option" where
  "run_link ca cb [] l = Some l"
| "run_link ca cb (ev # evs) l =
     (case link_step ca cb ev l of None \<Rightarrow> None | Some l \<Rightarrow> run_link ca cb evs l)"

section \<open>The writing session\<close>

text \<open>\<open>H\<close> is the history of the window; \<open>lost\<close> what a close threw away.\<close>

definition writer_ok :: "segment list \<Rightarrow> bytes list \<Rightarrow> bytes \<Rightarrow> session \<Rightarrow> bool" where
  "writer_ok H net written a \<longleftrightarrow> sender_ok H (ks_kcp a) \<and> (\<forall>p\<in>set net. good H p) \<and>
     (\<exists>lost. written = concat (map sg_data H) @ queued (ks_kcp a) @ lost \<and> (\<not> ks_dead a \<longrightarrow> lost = []))"

lemma send_chunks_ok:
  "send_chunks cs k = Ok k' \<Longrightarrow> sender_ok H k \<Longrightarrow> \<forall>c\<in>set cs. 0 < length c \<and> length c \<le> unat (k_mss k) \<Longrightarrow>
     sender_ok H k' \<and> queued k' = queued k @ concat cs"
proof (induction cs arbitrary: k)
  case (Cons c cs)
  then obtain code k1 where s: "kcp_send c k = Ok (code, k1)" and r: "send_chunks cs k1 = Ok k'"
    by (auto split: res.splits)
  have "code = 0 \<and> k_mss k1 = k_mss k"
  proof -
    obtain queue buf where e: "(if k_stream k then extend_last (unat (k_mss k)) (snd_queue k) c
        else (snd_queue k, c)) = (queue, buf)" by force
    have "length buf \<le> length c"
      using e by (auto simp: extend_last_def Let_def split: if_splits)
    with Cons.prems(3) e s show ?thesis by (auto simp: kcp_send_def Let_def split: if_splits)
  qed
  with kcp_send_ok [OF Cons.prems(2) s] Cons.IH [OF r] Cons.prems(3) show ?case by auto
qed simp

lemma drained_ok:
  assumes "sender_ok H k" and "take_output k = (out, k')"
  shows "sender_ok H k' \<and> (\<forall>p\<in>set (transmitted out). good H p) \<and> snd_queue k' = snd_queue k"
  using assms by (auto simp: take_output_def sender_ok_def transmitted_def)

text \<open>Whatever the operation, a flush and the emptying of the output keep the invariant.\<close>

lemma writer_ok_moved:
  assumes w: "\<forall>p\<in>set net. good H p" "written = concat (map sg_data H) @ queued k @ lost"
    and "snd_queue k = moved @ snd_queue k1" and "sender_ok (H @ moved) k1"
    and "take_output k1 = (out, k2)" and "ks_kcp a = k2" and "\<not> ks_dead a \<longrightarrow> lost = []"
  shows "\<exists>H'. writer_ok (H @ H') (net @ transmitted out) written a"
proof -
  from drained_ok [OF assms(4,5)] have d: "sender_ok (H @ moved) k2"
      "\<forall>p\<in>set (transmitted out). good (H @ moved) p" "snd_queue k2 = snd_queue k1" by auto
  moreover have "\<forall>p\<in>set net. good (H @ moved) p" using w(1) good_append by blast
  moreover have "written = concat (map sg_data (H @ moved)) @ queued k2 @ lost"
    using w(2) assms(3) d(3) by (simp add: queued_def)
  ultimately show ?thesis
    using assms(6,7) by (intro exI [of _ moved]) (auto simp: writer_ok_def)
qed

lemma chunked_writes:
  assumes "mss \<noteq> 0"
  shows "concat (concat (map (chunks mss) bufs)) = concat bufs"
    and "\<forall>c\<in>set (concat (map (chunks mss) bufs)). 0 < length c \<and> length c \<le> mss"
  using assms by (induction bufs) (auto simp: concat_chunks dest: chunks_bounds)

lemma writer_write:
  assumes "writer_ok H net written a" and "session_write clk bufs a = Ok (p, out, a')"
  shows "\<exists>H'. writer_ok (H @ H') (net @ out) (written @ (case p of Done _ \<Rightarrow> concat bufs | _ \<Rightarrow> [])) a'"
proof (cases "\<not> ks_dead a \<and> has_room (ks_kcp a)")
  case True
  let ?mss = "unat (k_mss (ks_kcp a))"
  obtain k where s: "send_chunks (concat (map (chunks ?mss) bufs)) (ks_kcp a) = Ok k"
    using assms(2) True by (auto simp: session_write_def Let_def split: res.splits if_splits)
  have p: "p = Done (sum_list (map length bufs))" and mss: "?mss \<noteq> 0 \<or> bufs = []"
    and rest: "take_output (write_flush clk a k) = (k_output (write_flush clk a k), ks_kcp a')"
      "out = transmitted (k_output (write_flush clk a k))" "ks_dead a' = ks_dead a"
    using assms(2) True s by (auto simp: session_write_def take_output_def Let_def split: if_splits)
  have chunks: "concat (concat (map (chunks ?mss) bufs)) = concat bufs"
    and each: "\<forall>c\<in>set (concat (map (chunks ?mss) bufs)). 0 < length c \<and> length c \<le> ?mss"
    using mss chunked_writes [of ?mss bufs] by (cases "bufs = []"; simp)+
  from send_chunks_ok [OF s _ each] assms(1) chunks
  have k: "sender_ok H k" "queued k = queued (ks_kcp a) @ concat bufs" by (auto simp: writer_ok_def)
  have "write_flush clk a k = k \<or> (\<exists>t. flush clk False k = (t, write_flush clk a k))"
    by (metis write_flush_def prod.collapse)
  then obtain moved where m: "snd_queue k = moved @ snd_queue (write_flush clk a k)"
      "sender_ok (H @ moved) (write_flush clk a k)"
    using k(1) flush_sender [OF k(1)] by (metis append.right_neutral append_Nil)
  have "\<forall>p\<in>set net. good H p" "written @ concat bufs = concat (map sg_data H) @ queued k @ []"
    using assms(1) True k(2) by (auto simp: writer_ok_def)
  from writer_ok_moved [OF this m rest(1)] rest(2,3) p show ?thesis by simp
next
  case False
  with assms show ?thesis
    by (intro exI [of _ "[]"]) (auto simp: session_write_def writer_ok_def split: if_splits)
qed

lemma writer_keeps:
  assumes "writer_ok H net written a" and "snd_queue (ks_kcp a) = moved @ snd_queue k1"
    and "sender_ok (H @ moved) k1" and "take_output k1 = (out, k2)" and "ks_kcp a' = k2" and "ks_dead a' = ks_dead a"
  shows "\<exists>H'. writer_ok (H @ H') (net @ transmitted out) written a'"
proof -
  obtain lost where "\<forall>p\<in>set net. good H p" "written = concat (map sg_data H) @ queued (ks_kcp a) @ lost"
      "\<not> ks_dead a' \<longrightarrow> lost = []"
    using assms(1,6) by (auto simp: writer_ok_def)
  from writer_ok_moved [OF this(1,2) assms(2-5) this(3)] show ?thesis .
qed

lemma note_room_simps [simp]: "ks_kcp (note_room s) = ks_kcp s" "ks_dead (note_room s) = ks_dead s"
    "ks_pending (note_room s) = ks_pending s"
  by (simp_all add: note_room_def)

lemma session_input_Ok:
  assumes "session_input clk data s = Ok (out, s')"
  obtains code k where "kcp_input clk True (ks_ack_no_delay s) data (ks_kcp s) = Ok (code, k)"
    and "take_output k = (k_output k, ks_kcp s')" and "out = transmitted (k_output k)"
    and "ks_dead s' = ks_dead s" and "ks_pending s' = ks_pending s"
  using assms by (auto simp: session_input_def take_output_def Let_def split: res.splits prod.splits)

lemma writer_read_loop:
  assumes "writer_ok H net written a" and "read_loop_step clk r a = Ok (out, a', b)"
  shows "\<exists>H'. writer_ok (H @ H') (net @ out) written a'"
proof (cases "\<exists>d. r = Datagram d \<and> IKCP_OVERHEAD \<le> length (take MTU_LIMIT d)")
  case True
  then obtain d where d: "r = Datagram d" "IKCP_OVERHEAD \<le> length (take MTU_LIMIT d)" by blast
  then have "session_input clk (take MTU_LIMIT d) a = Ok (out, a')"
    using assms(2) by (cases "session_input clk (take MTU_LIMIT d) a") (auto simp: read_loop_step_def)
  then obtain code k where k: "kcp_input clk True (ks_ack_no_delay a) (take MTU_LIMIT d) (ks_kcp a) = Ok (code, k)"
      "take_output k = (k_output k, ks_kcp a')" "out = transmitted (k_output k)" "ks_dead a' = ks_dead a"
    by (rule session_input_Ok)
  obtain moved where "snd_queue (ks_kcp a) = moved @ snd_queue k" "sender_ok (H @ moved) k"
    using kcp_input_sender [OF _ k(1)] assms(1) by (auto simp: writer_ok_def)
  from writer_keeps [OF assms(1) this k(2) refl k(4)] k(3) show ?thesis by simp
next
  case False
  with assms show ?thesis
    by (intro exI [of _ "[]"]) (auto simp: read_loop_step_def writer_ok_def Let_def split: received.splits)
qed

lemma writer_update:
  assumes "writer_ok H net written a" and "update_loop_step clk a = (t, out, a')"
  shows "\<exists>H'. writer_ok (H @ H') (net @ out) written a'"
proof (cases "ks_dead a")
  case False
  obtain i k where f: "flush clk False (ks_kcp a) = (i, k)" by force
  with assms(2) False have a': "out = transmitted (k_output k)" "take_output k = (k_output k, ks_kcp a')"
      "ks_dead a' = ks_dead a"
    by (auto simp: update_loop_step_def take_output_def Let_def note_room_def split: if_splits)
  obtain moved where "snd_queue (ks_kcp a) = moved @ snd_queue k" "sender_ok (H @ moved) k"
    using flush_sender [OF _ f] assms(1) by (auto simp: writer_ok_def)
  from writer_keeps [OF assms(1) this a'(2) refl a'(3)] a'(1) show ?thesis by simp
qed (use assms in \<open>auto simp: update_loop_step_def intro!: exI [of _ "[]"]\<close>)

lemma writer_close:
  assumes "writer_ok H net written a" and "session_close clk a = (out, a')"
  shows "\<exists>H'. writer_ok (H @ H') (net @ out) written a'"
proof (cases "ks_dead a")
  case False
  obtain i k where f: "flush clk False (ks_kcp a) = (i, k)" by force
  obtain moved where m: "snd_queue (ks_kcp a) = moved @ snd_queue k" "sender_ok (H @ moved) k"
    using flush_sender [OF _ f] assms(1) by (auto simp: writer_ok_def)
  have "\<exists>H'. writer_ok (H @ H') (net @ transmitted (k_output k)) written (a\<lparr>ks_kcp := k\<lparr>k_output := []\<rparr>\<rparr>)"
    using writer_keeps [OF assms(1) m, of "k_output k" "k\<lparr>k_output := []\<rparr>" "a\<lparr>ks_kcp := k\<lparr>k_output := []\<rparr>\<rparr>"]
    by (simp add: take_output_def)
  then obtain H' lost where H': "sender_ok (H @ H') (k\<lparr>k_output := []\<rparr>)"
      "\<forall>p\<in>set (net @ transmitted (k_output k)). good (H @ H') p"
      "written = concat (map sg_data (H @ H')) @ queued k @ lost"
    by (auto simp: writer_ok_def queued_def)
  have a': "out = transmitted (k_output k)" "ks_kcp a' = release_tx (k\<lparr>k_output := []\<rparr>)" "ks_dead a'"
    using assms(2) False f by (auto simp: session_close_def take_output_def)
  have "sender_ok (H @ H') (ks_kcp a')" "queued (ks_kcp a') = []"
    using H'(1) a'(2) by (auto simp: sender_ok_def release_tx_def queued_def)
  then show ?thesis
    using H' a'(1,3) by (intro exI [of _ H']) (auto simp: writer_ok_def)
qed (use assms in \<open>auto simp: session_close_def intro!: exI [of _ "[]"]\<close>)

section \<open>The reading session\<close>

definition reader_ok :: "segment list \<Rightarrow> bytes \<Rightarrow> session \<Rightarrow> bool" where
  "reader_ok H got b \<longleftrightarrow>
     (\<exists>R. receiver_ok H R (ks_kcp b) \<and> got @ ks_pending b = concat (map sg_data R))"

lemma reader_ok_append: "reader_ok H got b \<Longrightarrow> reader_ok (H @ H') got b"
  unfolding reader_ok_def using receiver_ok_append by metis

lemma reader_ok_cong:
  assumes "rcv_nxt (ks_kcp b') = rcv_nxt (ks_kcp b)" "rcv_queue (ks_kcp b') = rcv_queue (ks_kcp b)"
    and "rcv_buf (ks_kcp b') = rcv_buf (ks_kcp b)" "ks_pending b' = ks_pending b"
  shows "reader_ok H got b' \<longleftrightarrow> reader_ok H got b"
  unfolding reader_ok_def assms(4) receiver_ok_cong [OF assms(1-3)] by (rule refl)

lemma reader_read:
  assumes "reader_ok H got b" and "length H < 2 ^ 32" and "session_read cap b = Ok (p, out, b')"
  shows "reader_ok H (got @ (case p of Done bs \<Rightarrow> bs | _ \<Rightarrow> [])) b'"
proof -
  obtain R where R: "receiver_ok H R (ks_kcp b)" "got @ ks_pending b = concat (map sg_data R)"
    using assms(1) by (auto simp: reader_ok_def)
  consider (pending) "ks_pending b \<noteq> []" | (message) "ks_pending b = []" "0 < peek_size (ks_kcp b)"
    | (waiting) "ks_pending b = []" "\<not> 0 < peek_size (ks_kcp b)" by blast
  then show ?thesis
  proof cases
    case pending
    with assms(3) R show ?thesis
      by (auto simp: session_read_def Let_def reader_ok_def intro!: exI [of _ R])
  next
    case message
    then obtain room code msg k where r: "recv room (ks_kcp b) = Ok (code, msg, k)"
        and p: "p = Done (take cap msg) \<and> ks_pending b' = drop cap msg \<or> p = Done msg \<and> ks_pending b' = []"
        and k: "ks_kcp b' = k\<lparr>k_output := []\<rparr>"
      using assms(3) by (auto simp: session_read_def Let_def take_output_def split: res.splits if_splits)
    obtain taken where t: "receiver_ok H (R @ taken) k" "msg = concat (map sg_data taken)"
      using recv_ok [OF R(1) assms(2) r] by blast
    have "receiver_ok H (R @ taken) (ks_kcp b')"
      using t(1) k by (subst receiver_ok_cong [of _ k]) auto
    moreover have "(got @ (case p of Done bs \<Rightarrow> bs | _ \<Rightarrow> [])) @ ks_pending b' = concat (map sg_data (R @ taken))"
      using p R(2) t(2) message(1) by auto
    ultimately show ?thesis by (auto simp: reader_ok_def)
  next
    case waiting
    with assms(3) R show ?thesis
      by (auto simp: session_read_def Let_def reader_ok_def intro!: exI [of _ R])
  qed
qed

lemma reader_carry:
  assumes "reader_ok H got b" and "length H < 2 ^ 32" and "good H d"
    and "read_loop_step clk (Datagram d) b = Ok (out, b', c)"
  shows "reader_ok H got b'"
proof (cases "IKCP_OVERHEAD \<le> length (take MTU_LIMIT d)")
  case True
  with assms(4) have "session_input clk (take MTU_LIMIT d) b = Ok (out, b')"
    by (cases "session_input clk (take MTU_LIMIT d) b") (auto simp: read_loop_step_def)
  then obtain code k where k: "kcp_input clk True (ks_ack_no_delay b) (take MTU_LIMIT d) (ks_kcp b) = Ok (code, k)"
      "take_output k = (k_output k, ks_kcp b')" "ks_pending b' = ks_pending b"
    by (rule session_input_Ok)
  obtain R where R: "receiver_ok H R (ks_kcp b)" "got @ ks_pending b = concat (map sg_data R)"
    using assms(1) by (auto simp: reader_ok_def)
  have "receiver_ok H R k" by (rule kcp_input_receiver [OF R(1) assms(2,3) k(1)])
  then have "receiver_ok H R (ks_kcp b')"
    using k(2) by (subst receiver_ok_cong [of _ k]) (auto simp: take_output_def dest: sym)
  with R(2) k(3) show ?thesis by (auto simp: reader_ok_def)
qed (use assms in \<open>auto simp: read_loop_step_def Let_def\<close>)

lemma reader_flush:
  assumes "reader_ok H got b" and "flush clk a (ks_kcp b) = (t, k)"
    and "rcv_nxt (ks_kcp b') = rcv_nxt k" "rcv_queue (ks_kcp b') = rcv_queue k" "rcv_buf (ks_kcp b') = rcv_buf k"
    and "ks_pending b' = ks_pending b"
  shows "reader_ok H got b'"
  using assms flush_recv_side [OF assms(2)] by (simp add: reader_ok_cong [of b' b])

lemma reader_update:
  assumes "reader_ok H got b" and "update_loop_step clk b = (t, out, b')"
  shows "reader_ok H got b'"
proof (cases "ks_dead b")
  case False
  obtain i k where f: "flush clk False (ks_kcp b) = (i, k)" by force
  with assms(2) False show ?thesis
    by (intro reader_flush [OF assms(1) f]) (auto simp: update_loop_step_def take_output_def Let_def)
qed (use assms in \<open>auto simp: update_loop_step_def\<close>)

lemma reader_close:
  assumes "reader_ok H got b" and "session_close clk b = (out, b')"
  shows "reader_ok H got b'"
proof (cases "ks_dead b")
  case False
  obtain i k where f: "flush clk False (ks_kcp b) = (i, k)" by force
  with assms(2) False show ?thesis
    by (intro reader_flush [OF assms(1) f]) (auto simp: session_close_def take_output_def release_tx_def)
qed (use assms in \<open>auto simp: session_close_def\<close>)

lemma reader_prefix:
  assumes "reader_ok H got b" and "written = concat (map sg_data H) @ rest"
  shows "prefix got written"
proof -
  obtain R n where R: "got @ ks_pending b = concat (map sg_data R)"
      "map core (R @ rcv_queue (ks_kcp b)) = map core (take n H)"
    using assms(1) by (auto simp: reader_ok_def receiver_ok_def)
  from core_data [OF R(2)] have "got @ ks_pending b @ concat (map sg_data (rcv_queue (ks_kcp b)))
      = concat (map sg_data (take n H))"
    unfolding append_assoc [symmetric] R(1) by simp
  moreover have "concat (map sg_data H) = concat (map sg_data (take n H)) @ concat (map sg_data (drop n H))"
    by (metis append_take_drop_id concat_append map_append)
  ultimately have "written = got @ (ks_pending b @ concat (map sg_data (rcv_queue (ks_kcp b))) @
      concat (map sg_data (drop n H)) @ rest)"
    using assms(2) by (metis append.assoc)
  then show ?thesis by (rule prefixI)
qed

section \<open>Sessions never panic\<close>

text \<open>The window is small enough for the size of a message to fit an \<open>i32\<close>.\<close>

definition session_safe :: "session \<Rightarrow> bool" where
  "session_safe s \<longleftrightarrow> kcp_bounded MTU_LIMIT (ks_kcp s) \<and> unat (rcv_wnd (ks_kcp s)) * MTU_LIMIT < 2 ^ 31"

lemma session_safe_cong:
  assumes "kcp_bounded MTU_LIMIT (ks_kcp s') = kcp_bounded MTU_LIMIT (ks_kcp s)"
    and "rcv_wnd (ks_kcp s') = rcv_wnd (ks_kcp s)"
  shows "session_safe s' \<longleftrightarrow> session_safe s"
  using assms by (simp add: session_safe_def)

lemma kcp_bounded_output [simp]:
  "kcp_bounded M (k\<lparr>k_output := x\<rparr>) \<longleftrightarrow> kcp_bounded M k"
  "kcp_bounded M (release_tx k) \<longleftrightarrow> kcp_bounded M k"
  "rcv_wnd (release_tx k) = rcv_wnd k"
  by (simp_all add: kcp_bounded_def release_tx_def)

lemma flush_snd_bounded [simp]:
  "kcp_bounded M (snd (flush clk a k)) \<longleftrightarrow> kcp_bounded M k" "rcv_wnd (snd (flush clk a k)) = rcv_wnd k"
  using flush_bounded flush_recv_side by (metis prod.collapse)+

lemma session_read_safe:
  assumes "session_safe s"
  shows "\<exists>p out s'. session_read cap s = Ok (p, out, s') \<and> session_safe s'"
proof -
  let ?room = "if nat (peek_size (ks_kcp s)) \<le> cap then cap else nat (peek_size (ks_kcp s))"
  obtain code msg k where "recv ?room (ks_kcp s) = Ok (code, msg, k)" "kcp_bounded MTU_LIMIT k"
      "rcv_wnd k = rcv_wnd (ks_kcp s)"
    using recv_safe [of MTU_LIMIT "ks_kcp s" ?room] assms unfolding session_safe_def by metis
  with assms show ?thesis
    by (auto simp: session_read_def take_output_def session_safe_def Let_def)
qed

lemma send_chunks_safe:
  "kcp_bounded M k \<Longrightarrow> \<exists>k'. send_chunks cs k = Ok k' \<and> kcp_bounded M k' \<and> rcv_wnd k' = rcv_wnd k"
proof (induction cs arbitrary: k)
  case (Cons c cs)
  obtain code k1 where "kcp_send c k = Ok (code, k1)" "kcp_bounded M k1" "rcv_wnd k1 = rcv_wnd k"
    using kcp_send_safe [OF Cons.prems] by blast
  with Cons.IH [of k1] show ?case by auto
qed simp

lemma session_write_safe:
  assumes "session_safe s"
  shows "\<exists>p out s'. session_write clk bufs s = Ok (p, out, s') \<and> session_safe s'"
proof -
  have mss: "unat (k_mss (ks_kcp s)) \<noteq> 0"
    using assms by (simp add: session_safe_def kcp_bounded_def unat_eq_zero)
  obtain k where k: "send_chunks (concat (map (chunks (unat (k_mss (ks_kcp s)))) bufs)) (ks_kcp s) = Ok k"
      "kcp_bounded MTU_LIMIT k" "rcv_wnd k = rcv_wnd (ks_kcp s)"
    using send_chunks_safe [of MTU_LIMIT "ks_kcp s"] assms by (auto simp: session_safe_def)
  have "kcp_bounded MTU_LIMIT (write_flush clk s k) \<and> rcv_wnd (write_flush clk s k) = rcv_wnd (ks_kcp s)"
    using k(2,3) by (simp add: write_flush_def)
  with k(1) mss assms show ?thesis
    by (auto simp: session_write_def take_output_def session_safe_def Let_def)
qed

lemma read_loop_step_safe:
  assumes "session_safe s"
  shows "\<exists>out s' b. read_loop_step clk r s = Ok (out, s', b) \<and> session_safe s'"
proof (cases r)
  case (Datagram d)
  obtain code k where "kcp_input clk True (ks_ack_no_delay s) (take MTU_LIMIT d) (ks_kcp s) = Ok (code, k)"
      "kcp_bounded MTU_LIMIT k" "rcv_wnd k = rcv_wnd (ks_kcp s)"
    using kcp_input_safe [of MTU_LIMIT "ks_kcp s" "take MTU_LIMIT d"] assms by (fastforce simp: session_safe_def)
  with assms Datagram show ?thesis
    by (auto simp: read_loop_step_def session_input_def take_output_def session_safe_def Let_def)
qed (use assms in \<open>auto simp: read_loop_step_def session_safe_def\<close>)

lemma update_loop_step_safe:
  "session_safe s \<Longrightarrow> update_loop_step clk s = (t, out, s') \<Longrightarrow> session_safe s'"
  by (auto simp: update_loop_step_def take_output_def session_safe_def Let_def split: if_splits prod.splits)
    (metis flush_bounded flush_recv_side)+

lemma session_close_safe:
  "session_safe s \<Longrightarrow> session_close clk s = (out, s') \<Longrightarrow> session_safe s'"
  by (auto simp: session_close_def take_output_def session_safe_def Let_def split: if_splits)

section \<open>The link\<close>

definition link_ok :: "link \<Rightarrow> bool" where
  "link_ok l \<longleftrightarrow> (\<exists>H. writer_ok H (l_net l) (l_written l) (l_writer l) \<and> reader_ok H (l_read l) (l_reader l))"

definition link_safe :: "link \<Rightarrow> bool" where
  "link_safe l \<longleftrightarrow> session_safe (l_writer l) \<and> session_safe (l_reader l)"

lemma link_step_safe:
  assumes "link_safe l"
  shows "\<exists>l'. link_step ca cb ev l = Some l' \<and> link_safe l'"
proof -
  have w: "session_safe (l_writer l)" and r: "session_safe (l_reader l)"
    using assms by (simp_all add: link_safe_def)
  show ?thesis
  proof (cases ev)
    case (Write bufs)
    then show ?thesis using session_write_safe [OF w, of ca bufs] r
      by (auto simp: link_step_def link_safe_def sent_on_def split: poll.split)
  next
    case (Read cap)
    then show ?thesis using session_read_safe [OF r, of cap] w
      by (auto simp: link_step_def link_safe_def split: poll.split)
  next
    case (Carry i)
    then show ?thesis using read_loop_step_safe [OF r, of cb "Datagram (l_net l ! i)"] w assms
      by (auto simp: link_step_def link_safe_def)
  next
    case (Inject x)
    then show ?thesis using read_loop_step_safe [OF w, of ca x] r
      by (auto simp: link_step_def link_safe_def sent_on_def)
  next
    case TickWriter
    then show ?thesis using update_loop_step_safe [OF w] r
      by (auto simp: link_step_def link_safe_def sent_on_def split: prod.split)
  next
    case TickReader
    then show ?thesis using update_loop_step_safe [OF r] w
      by (auto simp: link_step_def link_safe_def split: prod.split)
  next
    case CloseWriter
    then show ?thesis using session_close_safe [OF w] r
      by (auto simp: link_step_def link_safe_def sent_on_def split: prod.split)
  next
    case CloseReader
    then show ?thesis using session_close_safe [OF r] w
      by (auto simp: link_step_def link_safe_def split: prod.split)
  qed
qed

lemma run_link_safe: "link_safe l \<Longrightarrow> \<exists>l'. run_link ca cb evs l = Some l' \<and> link_safe l'"
proof (induction evs arbitrary: l)
  case (Cons ev evs)
  obtain l1 where "link_step ca cb ev l = Some l1" "link_safe l1"
    using link_step_safe [OF Cons.prems] by blast
  with Cons.IH [of l1] show ?case by auto
qed simp

lemma writer_ok_short: "writer_ok H net written a \<Longrightarrow> length H \<le> length written"
  using history_short by (fastforce simp: writer_ok_def)

lemma link_step_ok:
  assumes "link_ok l" and "length (l_written l) < 2 ^ 32" and step: "link_step ca cb ev l = Some l'"
  shows "link_ok l'"
proof -
  obtain H where w: "writer_ok H (l_net l) (l_written l) (l_writer l)"
      and r: "reader_ok H (l_read l) (l_reader l)"
    using assms(1) by (auto simp: link_ok_def)
  have H: "length H < 2 ^ 32" using writer_ok_short [OF w] assms(2) by simp
  have good: "i < length (l_net l) \<Longrightarrow> good H (l_net l ! i)" for i
    using w by (auto simp: writer_ok_def)
  have wrote: "link_ok l'" if "\<exists>H'. writer_ok (H @ H') (l_net l') (l_written l') (l_writer l')"
      "l_reader l' = l_reader l" "l_read l' = l_read l" for l'
    using that reader_ok_append [OF r] unfolding link_ok_def by metis
  have "read": "link_ok l'" if "reader_ok H (l_read l') (l_reader l')"
      "l_writer l' = l_writer l" "l_net l' = l_net l" "l_written l' = l_written l" for l'
    using that w unfolding link_ok_def by metis
  show ?thesis
  proof (cases ev)
    case (Write bufs)
    with step obtain p out a where s: "session_write ca bufs (l_writer l) = Ok (p, out, a)"
        "l' = (sent_on l out a)\<lparr>l_written := l_written l @ (case p of Done _ \<Rightarrow> concat bufs | _ \<Rightarrow> [])\<rparr>"
      by (auto simp: link_step_def sent_on_def split: res.splits poll.splits)
    show ?thesis by (rule wrote) (use writer_write [OF w s(1)] s(2) in \<open>simp_all add: sent_on_def\<close>)
  next
    case (Read cap)
    with step obtain p out b where s: "session_read cap (l_reader l) = Ok (p, out, b)"
        "l' = l\<lparr>l_reader := b, l_read := l_read l @ (case p of Done bs \<Rightarrow> bs | _ \<Rightarrow> [])\<rparr>"
      by (auto simp: link_step_def split: res.splits poll.splits)
    show ?thesis by (rule "read") (use reader_read [OF r H s(1)] s(2) in simp_all)
  next
    case (Carry i)
    show ?thesis
    proof (cases "i < length (l_net l)")
      case True
      with Carry step obtain out b c where s: "read_loop_step cb (Datagram (l_net l ! i)) (l_reader l) = Ok (out, b, c)"
          "l' = l\<lparr>l_reader := b\<rparr>"
        by (auto simp: link_step_def split: res.splits)
      show ?thesis by (rule "read") (use reader_carry [OF r H good [OF True] s(1)] s(2) in simp_all)
    qed (use Carry step assms(1) in \<open>simp add: link_step_def\<close>)
  next
    case (Inject x)
    with step obtain out a c where s: "read_loop_step ca x (l_writer l) = Ok (out, a, c)" "l' = sent_on l out a"
      by (auto simp: link_step_def split: res.splits)
    show ?thesis by (rule wrote) (use writer_read_loop [OF w s(1)] s(2) in \<open>simp_all add: sent_on_def\<close>)
  next
    case TickWriter
    with step obtain t out a where s: "update_loop_step ca (l_writer l) = (t, out, a)" "l' = sent_on l out a"
      by (auto simp: link_step_def split: prod.splits)
    show ?thesis by (rule wrote) (use writer_update [OF w s(1)] s(2) in \<open>simp_all add: sent_on_def\<close>)
  next
    case TickReader
    with step obtain t out b where s: "update_loop_step cb (l_reader l) = (t, out, b)" "l' = l\<lparr>l_reader := b\<rparr>"
      by (auto simp: link_step_def split: prod.splits)
    show ?thesis by (rule "read") (use reader_update [OF r s(1)] s(2) in simp_all)
  next
    case CloseWriter
    with step obtain out a where s: "session_close ca (l_writer l) = (out, a)" "l' = sent_on l out a"
      by (auto simp: link_step_def split: prod.splits)
    show ?thesis by (rule wrote) (use writer_close [OF w s(1)] s(2) in \<open>simp_all add: sent_on_def\<close>)
  next
    case CloseReader
    with step obtain out b where s: "session_close cb (l_reader l) = (out, b)" "l' = l\<lparr>l_reader := b\<rparr>"
      by (auto simp: link_step_def split: prod.splits)
    show ?thesis by (rule "read") (use reader_close [OF r s(1)] s(2) in simp_all)
  qed
qed

lemma link_step_written: "link_step ca cb ev l = Some l' \<Longrightarrow> length (l_written l) \<le> length (l_written l')"
  by (auto simp: link_step_def sent_on_def split: link_event.splits res.splits poll.splits if_splits prod.splits)

lemma run_link_written: "run_link ca cb evs l = Some l' \<Longrightarrow> length (l_written l) \<le> length (l_written l')"
  by (induction evs arbitrary: l) (auto dest: link_step_written order_trans split: option.splits)

lemma run_link_ok:
  "run_link ca cb evs l = Some l' \<Longrightarrow> link_ok l \<Longrightarrow> length (l_written l') < 2 ^ 32 \<Longrightarrow> link_ok l'"
proof (induction evs arbitrary: l)
  case (Cons ev evs)
  from Cons.prems(1) obtain l1 where s: "link_step ca cb ev l = Some l1" "run_link ca cb evs l1 = Some l'"
    by (auto split: option.splits)
  have "length (l_written l) < 2 ^ 32"
    using link_step_written [OF s(1)] run_link_written [OF s(2)] Cons.prems(3) by simp
  with Cons.IH [OF s(2) link_step_ok [OF Cons.prems(2) _ s(1)]] Cons.prems(3) show ?case by simp
qed simp

text \<open>A session before anything was sent or received, and the settings of the client
  (\<open>client.rs\<close>).\<close>

definition fresh_session :: "session \<Rightarrow> bool" where
  "fresh_session s \<longleftrightarrow>
     (let k = ks_kcp s
      in snd_nxt k = 0 \<and> snd_buf k = [] \<and> snd_queue k = [] \<and> k_output k = [] \<and> rcv_nxt k = 0 \<and>
         rcv_queue k = [] \<and> rcv_buf k = [] \<and> k_mss k \<noteq> 0 \<and> unat (rcv_wnd k) * MTU_LIMIT < 2 ^ 31) \<and>
     ks_pending s = [] \<and> \<not> ks_dead s"

definition KCP_WINDOW_SIZE :: int where "KCP_WINDOW_SIZE = 65535"

definition tune :: "kcp \<Rightarrow> kcp" where
  "tune k = set_nodelay 0 0 0 1 (wnd_size KCP_WINDOW_SIZE KCP_WINDOW_SIZE (set_stream True k))"

lemma tune_simps [simp]:
  "snd_nxt (tune k) = snd_nxt k" "snd_buf (tune k) = snd_buf k" "snd_queue (tune k) = snd_queue k"
  "k_output (tune k) = k_output k" "rcv_nxt (tune k) = rcv_nxt k" "rcv_queue (tune k) = rcv_queue k"
  "rcv_buf (tune k) = rcv_buf k" "k_mss (tune k) = k_mss k" "rcv_wnd (tune k) = 65535"
  by (simp_all add: tune_def set_nodelay_def wnd_size_def set_stream_def Let_def KCP_WINDOW_SIZE_def)

lemma fresh_tuned: "fresh_session (session_configure tune (with_conv conv))"
  by (simp add: fresh_session_def session_configure_def with_conv_def kcp_new_def Let_def kcp_consts MTU_LIMIT_def)

lemma link_start_ok:
  assumes "fresh_session a" and "fresh_session b"
  shows "link_ok (link_start a b)" and "link_safe (link_start a b)"
proof -
  have "writer_ok [] [] [] a" "reader_ok [] [] b"
    using assms by (auto simp: fresh_session_def Let_def writer_ok_def sender_ok_def queued_def
        reader_ok_def receiver_ok_def intro!: exI [of _ "[]"])
  then show "link_ok (link_start a b)"
    unfolding link_ok_def link_start_def by (intro exI [of _ "[]"]) simp
  show "link_safe (link_start a b)"
    using assms by (simp add: fresh_session_def Let_def link_safe_def session_safe_def kcp_bounded_def link_start_def)
qed

text \<open>The number of bytes a schedule offers for writing.\<close>

fun offered :: "link_event list \<Rightarrow> nat" where
  "offered [] = 0"
| "offered (Write bufs # evs) = length (concat bufs) + offered evs"
| "offered (_ # evs) = offered evs"

lemma link_step_offered:
  "link_step ca cb ev l = Some l' \<Longrightarrow> length (l_written l') + offered evs \<le> length (l_written l) + offered (ev # evs)"
  by (cases ev) (auto simp: link_step_def sent_on_def split: res.splits poll.splits if_splits prod.splits)

lemma run_link_offered:
  "run_link ca cb evs l = Some l' \<Longrightarrow> length (l_written l') \<le> length (l_written l) + offered evs"
proof (induction evs arbitrary: l)
  case (Cons ev evs)
  from Cons.prems obtain l1 where "link_step ca cb ev l = Some l1" "run_link ca cb evs l1 = Some l'"
    by (auto split: option.splits)
  with Cons.IH [of l1] link_step_offered [of ca cb ev l l1 evs] show ?case by simp
qed simp

text \<open>
  C3: a KCP connection is a reliable byte stream.  Take two fresh sessions and any
  schedule: writes, reads with any buffer sizes, update ticks at any times, packets
  lost, repeated, reordered and cut off, anything at all sent to the writer, either
  side closed at any point.  No operation panics, and what was read is a prefix of
  what was written, as long as less than 4 GiB are offered for writing (so that no
  sequence number is used twice).
\<close>

theorem kcp_stream_prefix:
  assumes "fresh_session a" and "fresh_session b" and "offered evs < 2 ^ 32"
  shows "\<exists>l. run_link ca cb evs (link_start a b) = Some l \<and> prefix (l_read l) (l_written l)"
proof -
  obtain l where run: "run_link ca cb evs (link_start a b) = Some l"
    using run_link_safe [OF link_start_ok(2) [OF assms(1,2)]] by blast
  have "length (l_written l) < 2 ^ 32"
    using run_link_offered [OF run] assms(3) by (simp add: link_start_def)
  from run_link_ok [OF run link_start_ok(1) [OF assms(1,2)] this] obtain H where
    w: "writer_ok H (l_net l) (l_written l) (l_writer l)" and r: "reader_ok H (l_read l) (l_reader l)"
    by (auto simp: link_ok_def)
  from w have "prefix (l_read l) (l_written l)" by (auto simp: writer_ok_def intro: reader_prefix [OF r])
  with run show ?thesis by blast
qed

theorem kcp_stream_prefix_witness:
  "\<exists>l. run_link (\<lambda>n. word_of_nat n) (\<lambda>_. 7)
      [Write [[104, 105], [33]], TickWriter, Carry 1, Carry 0, Carry 0, Read 2, Inject (Datagram [1, 2]),
       TickReader, CloseWriter, Read 2]
      (link_start (session_configure tune (with_conv 9)) (session_configure tune (with_conv 9))) = Some l \<and>
    prefix (l_read l) (l_written l)"
  by (rule kcp_stream_prefix [OF fresh_tuned fresh_tuned]) simp

end
