(* ===== verification/KcpProgress.thy ===== *)
theory KcpProgress
  imports KcpSession
begin

text \<open>
  What KCP does make happen, beside its safety: the wire format is faithful, a flush
  transmits every segment that enters the window, an in-order segment becomes
  readable at once, datagrams fit the MTU, the retransmission timeout is bounded;
  and what it does not: an empty message at the head of the queue blocks the reader.
\<close>

section \<open>The wire format\<close>

text \<open>
  A receiver reads off a transmitted segment exactly the fields the sender put
  in, and finds its data after the header, whatever follows in the datagram.
\<close>

theorem segment_roundtrip:
  assumes "length (sg_data s) < 2 ^ 32"
  shows "(segment_header (wire s @ rest))\<lparr>sg_data := take (segment_length (wire s @ rest))
      (drop IKCP_OVERHEAD (wire s @ rest))\<rparr> = seen s \<and>
    drop (IKCP_OVERHEAD + segment_length (wire s @ rest)) (wire s @ rest) = rest"
  using assms segment_header_encode [of s "sg_data s @ rest"] segment_length_encode [of s "sg_data s @ rest"]
  by (simp add: wire_def seen_def IKCP_OVERHEAD_def)

theorem segment_roundtrip_witness:
  "(segment_header (wire (segment_default\<lparr>sg_data := [7]\<rparr>) @ [1]))\<lparr>sg_data :=
      take (segment_length (wire (segment_default\<lparr>sg_data := [7]\<rparr>) @ [1]))
        (drop IKCP_OVERHEAD (wire (segment_default\<lparr>sg_data := [7]\<rparr>) @ [1]))\<rparr>
      = seen (segment_default\<lparr>sg_data := [7]\<rparr>) \<and>
    drop (IKCP_OVERHEAD + segment_length (wire (segment_default\<lparr>sg_data := [7]\<rparr>) @ [1]))
      (wire (segment_default\<lparr>sg_data := [7]\<rparr>) @ [1]) = [1]"
  by (rule segment_roundtrip) simp

section \<open>First transmissions\<close>

definition within :: "bytes \<Rightarrow> bytes \<Rightarrow> bool" where
  "within w d \<longleftrightarrow> (\<exists>x y. d = x @ w @ y)"

definition packed :: "bytes \<Rightarrow> packer \<Rightarrow> bool" where
  "packed w p \<longleftrightarrow> (\<exists>d\<in>set (snd p @ [fst p]). within w d)"

lemma within_end: "within w (b @ w)"
  unfolding within_def by (metis append.right_neutral)

lemma within_append: "within w b \<Longrightarrow> within w (b @ v)"
  unfolding within_def by (metis append.assoc)

lemma pack_simps: "fst (pack mtu w p) = (if mtu < length (fst p) + length w then [] else fst p) @ w"
    "snd (pack mtu w p) = snd p @ (if mtu < length (fst p) + length w then [fst p] else [])"
  by (simp_all add: pack_def make_space_def split_def)

lemma packed_pack: "packed w (pack mtu w p)"
  unfolding packed_def pack_simps by (simp add: within_end)

lemma packed_mono: "packed w p \<Longrightarrow> packed w (pack mtu v p)"
  unfolding packed_def pack_simps by (auto simp: within_append)

lemma packed_done: "packed w p \<Longrightarrow> w \<noteq> [] \<Longrightarrow> \<exists>d\<in>set (pack_done p). within w d"
  by (auto simp: packed_def pack_done_def within_def)

lemma flush_segment_packed: "packed w (fl_pack l) \<Longrightarrow> packed w (fl_pack (fst (flush_segment clk P l s)))"
  by (auto simp: flush_segment_def needs_send_def transmit_def Let_def packed_mono)

lemma flush_segments_Cons: "fst (flush_segments clk P l (s # segs)) =
    fst (flush_segments clk P (fst (flush_segment clk P l s)) segs)"
  by (simp add: split_def)

lemma flush_segments_packed: "packed w (fl_pack l) \<Longrightarrow> packed w (fl_pack (fst (flush_segments clk P l segs)))"
proof (induction segs arbitrary: l)
  case (Cons s segs)
  then show ?case unfolding flush_segments_Cons by (blast intro: flush_segment_packed)
qed simp

text \<open>The segment as it is sent for the first time: only the bookkeeping differs.\<close>

definition same_content :: "segment \<Rightarrow> segment \<Rightarrow> bool" where
  "same_content s' s \<longleftrightarrow> sg_conv s' = sg_conv s \<and> sg_cmd s' = sg_cmd s \<and> sg_frg s' = sg_frg s \<and>
     sg_sn s' = sg_sn s \<and> sg_data s' = sg_data s"

lemma flush_segment_first:
  assumes "\<not> sg_acked s" and "sg_xmit s = 0"
  shows "\<exists>s'. same_content s' s \<and> packed (wire s') (fl_pack (fst (flush_segment clk P l s)))"
proof -
  let ?s = "(rearm (fl_current l) (fp_rto P) s)\<lparr>sg_xmit := sg_xmit s + 1, sg_ts := clk (fl_reads l),
    sg_wnd := fp_wnd P, sg_una := fp_una P\<rparr>"
  have "same_content ?s s" by (simp add: same_content_def rearm_def)
  moreover have "fl_pack (fst (flush_segment clk P l s)) = pack (fp_mtu P) (wire ?s) (fl_pack l)"
    using assms by (simp add: flush_segment_def needs_send_def transmit_def wire_def Let_def rearm_def)
  ultimately show ?thesis using packed_pack by metis
qed

lemma flush_segments_first:
  "s \<in> set segs \<Longrightarrow> \<not> sg_acked s \<Longrightarrow> sg_xmit s = 0 \<Longrightarrow>
     \<exists>s'. same_content s' s \<and> packed (wire s') (fl_pack (fst (flush_segments clk P l segs)))"
proof (induction segs arbitrary: l)
  case (Cons t segs)
  show ?case
  proof (cases "s = t")
    case True
    from flush_segment_first [OF Cons.prems(2,3)] True flush_segments_packed show ?thesis
      unfolding flush_segments_Cons by metis
  next
    case False
    with Cons show ?thesis unfolding flush_segments_Cons by simp
  qed
qed simp

lemma fill_window_moved:
  "fill_window conv limit queue buf nxt = (queue', buf', nxt') \<Longrightarrow> i < length queue - length queue' \<Longrightarrow>
     (queue ! i)\<lparr>sg_conv := conv, sg_cmd := IKCP_CMD_PUSH, sg_sn := nxt + word_of_nat i\<rparr> \<in> set buf'"
proof (induction conv limit queue buf nxt arbitrary: i rule: fill_window.induct)
  case (2 conv limit seg queue buf nxt)
  have keep: "fill_window conv limit queue buf nxt = (queue', buf', nxt') \<Longrightarrow> set buf \<subseteq> set buf'"
    for conv limit queue buf nxt queue' buf' nxt'
    by (induction conv limit queue buf nxt rule: fill_window.induct) (auto split: if_splits)
  have len: "fill_window conv limit queue buf nxt = (queue', buf', nxt') \<Longrightarrow> length queue' \<le> length queue"
    for conv limit queue buf nxt queue' buf' nxt'
    by (induction conv limit queue buf nxt rule: fill_window.induct) (auto split: if_splits)
  have no: "\<not> 0 \<le> timediff nxt limit" using "2.prems" by (auto split: if_splits)
  let ?seg = "seg\<lparr>sg_conv := conv, sg_cmd := IKCP_CMD_PUSH, sg_sn := nxt\<rparr>"
  have rest: "fill_window conv limit queue (buf @ [?seg]) (nxt + 1) = (queue', buf', nxt')"
    using "2.prems"(1) no by simp
  show ?case
  proof (cases i)
    case 0
    with keep [OF rest] show ?thesis by simp
  next
    case (Suc j)
    with "2.prems"(2) len [OF rest] have "j < length queue - length queue'" by simp
    from "2.IH" [OF no rest this] Suc show ?thesis by (simp add: algebra_simps)
  qed
qed simp

text \<open>
  A flush transmits every segment it moves into the window: the \<open>i\<close>-th segment
  taken from the queue is in one of the datagrams put out, under the sequence number
  that follows those before it, with this conversation's id, its fragment number and
  its data.
\<close>

theorem flush_transmits_new:
  assumes "flush clk False k = (t, k')" and "i < length (snd_queue k) - length (snd_queue k')"
    and "\<not> sg_acked (snd_queue k ! i)" and "sg_xmit (snd_queue k ! i) = 0"
  shows "\<exists>s. sg_cmd s = IKCP_CMD_PUSH \<and> sg_conv s = k_conv k \<and> sg_sn s = snd_nxt k + word_of_nat i \<and>
    sg_frg s = sg_frg (snd_queue k ! i) \<and> sg_data s = sg_data (snd_queue k ! i) \<and>
    (\<exists>d\<in>set (k_output k'). within (wire s) d)"
proof -
  let ?k0 = "k\<lparr>acklist := []\<rparr>"
  let ?k1 = "flush_probe clk ?k0"
  obtain queue buf nxt where f: "fill_window (k_conv ?k1) (snd_una ?k1 + flush_cwnd ?k1) (snd_queue ?k1)
      (snd_buf ?k1) (snd_nxt ?k1) = (queue, buf, nxt)"
    by (metis prod_cases3)
  have fill: "flush_fill (flush_cwnd ?k1) (?k1\<lparr>k_probe := 0\<rparr>)
      = (length (snd_queue ?k1) - length queue,
         ?k1\<lparr>k_probe := 0, snd_queue := queue, snd_buf := buf, snd_nxt := nxt\<rparr>)"
    using f by (simp add: flush_fill_def)
  have "\<exists>P l0. k_output k' = pack_done (fl_pack (fst (flush_segments clk P l0 buf))) \<and> snd_queue k' = queue"
    using assms(1) fill unfolding flush_def flush_data_def Let_def split_def if_False
    by (intro exI conjI) (drule sym, simp)+
  then obtain P l0 where out: "k_output k' = pack_done (fl_pack (fst (flush_segments clk P l0 buf)))"
      and q: "snd_queue k' = queue" by blast
  let ?s = "(snd_queue k ! i)\<lparr>sg_conv := k_conv k, sg_cmd := IKCP_CMD_PUSH, sg_sn := snd_nxt k + word_of_nat i\<rparr>"
  have "?s \<in> set buf" using fill_window_moved [OF f] assms(2) q by simp
  from flush_segments_first [OF this, of clk P l0] assms(3,4) obtain s where
    s: "same_content s ?s" "packed (wire s) (fl_pack (fst (flush_segments clk P l0 buf)))" by auto
  have "wire s \<noteq> []" by (metis length_segment_encode append_is_Nil_conv list.size(3) wire_def zero_neq_numeral)
  from packed_done [OF s(2) this] s(1) out show ?thesis
    by (intro exI [of _ s]) (simp add: same_content_def)
qed

lemma flush_queue:
  "snd_queue (snd (flush clk False k)) = fst (fill_window (k_conv k) (snd_una k + flush_cwnd k)
     (snd_queue k) (snd_buf k) (snd_nxt k))"
proof -
  have "k_conv (flush_probe clk k) = k_conv k" "snd_una (flush_probe clk k) = snd_una k"
      "flush_cwnd (flush_probe clk k) = flush_cwnd k" for k
    by (simp_all add: flush_probe_def flush_cwnd_def Let_def)
  then show ?thesis
    by (simp add: flush_def flush_data_def flush_fill_def Let_def split_def)
      (simp add: flush_cwnd_def Let_def)
qed

lemma kcp_new_simps [simp]:
  "k_conv (kcp_new c) = c" "snd_una (kcp_new c) = 0" "snd_nxt (kcp_new c) = 0" "snd_buf (kcp_new c) = []"
  "rcv_nxt (kcp_new c) = 0" "rcv_queue (kcp_new c) = []" "rcv_buf (kcp_new c) = []" "rcv_wnd (kcp_new c) = 32"
  "k_mss (kcp_new c) = 1376" "snd_queue (kcp_new c) = []"
  by (simp_all add: kcp_new_def kcp_consts)

theorem flush_transmits_new_witness:
  fixes k :: kcp
  defines "k \<equiv> (kcp_new 9)\<lparr>nocwnd := True, snd_queue := [segment_default\<lparr>sg_data := [104, 105]\<rparr>]\<rparr>"
  shows "\<exists>s. sg_cmd s = IKCP_CMD_PUSH \<and> sg_conv s = k_conv k \<and> sg_sn s = snd_nxt k + word_of_nat 0 \<and>
    sg_frg s = sg_frg (snd_queue k ! 0) \<and> sg_data s = sg_data (snd_queue k ! 0) \<and>
    (\<exists>d\<in>set (k_output (snd (flush (\<lambda>_. 3) False k))). within (wire s) d)"
proof -
  have "snd_queue (snd (flush (\<lambda>_. 3) False k)) = []"
    unfolding flush_queue by (simp add: k_def flush_cwnd_def kcp_new_def kcp_consts timediff_def)
  then show ?thesis
    by (intro flush_transmits_new [of "\<lambda>_. 3" k "fst (flush (\<lambda>_. 3) False k)" "snd (flush (\<lambda>_. 3) False k)" 0])
      (simp_all add: k_def segment_default_def)
qed

section \<open>In-order delivery\<close>

lemma find_slot_front:
  "n \<le> length buf \<Longrightarrow> \<forall>s\<in>set buf. timediff sn (sg_sn s) < 0 \<Longrightarrow> find_slot sn buf n = (0, False)"
proof (induction n)
  case (Suc n)
  then have neg: "timediff sn (sg_sn (buf ! n)) < 0" and IH: "find_slot sn buf n = (0, False)" by simp_all
  from neg have "sg_sn (buf ! n) \<noteq> sn" by (auto simp: timediff_def)
  with neg IH show ?case by simp
qed simp

lemma move_ready_prefix:
  "move_ready wnd buf queue nxt = (buf', queue', nxt') \<Longrightarrow> prefix queue queue'"
proof (induction wnd buf queue nxt rule: move_ready.induct)
  case (2 wnd seg buf queue nxt)
  then show ?case by (auto split: if_splits dest: append_prefixD)
qed simp

lemma timediff_self [simp]: "timediff n n = 0"
  by (simp add: timediff_def)

text \<open>An in-order segment goes straight through the buffer into the queue.\<close>

lemma parse_data_in_order:
  assumes "sg_sn seg = rcv_nxt k" and "timediff (rcv_nxt k) (rcv_nxt k + rcv_wnd k) < 0"
    and "length (rcv_queue k) < unat (rcv_wnd k)"
    and "\<forall>s\<in>set (rcv_buf k). timediff (rcv_nxt k) (sg_sn s) < 0"
  shows "prefix (rcv_queue k @ [seg]) (rcv_queue (snd (parse_data seg k)))"
proof -
  have "find_slot (rcv_nxt k) (rcv_buf k) (length (rcv_buf k)) = (0, False)"
    by (rule find_slot_front) (use assms(4) in auto)
  then have "snd (parse_data seg k) = move_ready_segments (k\<lparr>rcv_buf := seg # rcv_buf k\<rparr>)"
    using assms(1,2) by (simp add: parse_data_def Let_def)
  moreover obtain buf queue nxt where m: "move_ready (rcv_wnd k) (rcv_buf k) (rcv_queue k @ [seg]) (rcv_nxt k + 1)
      = (buf, queue, nxt)"
    by (metis prod_cases3)
  ultimately show ?thesis
    using move_ready_prefix [OF m] assms(1,3) by (simp add: move_ready_segments_def)
qed

lemma input_head_recv [simp]:
  "rcv_nxt (snd (input_head r seg k)) = rcv_nxt k" "rcv_queue (snd (input_head r seg k)) = rcv_queue k"
  "rcv_buf (snd (input_head r seg k)) = rcv_buf k" "rcv_wnd (snd (input_head r seg k)) = rcv_wnd k"
  "acklist (snd (input_head r seg k)) = acklist k"
  by (simp_all add: input_head_def split_def parse_una_def shrink_buf_def)

lemma input_push_in_order:
  assumes "sg_sn seg = rcv_nxt k" and "timediff (rcv_nxt k) (rcv_nxt k + rcv_wnd k) < 0"
    and "length (rcv_queue k) < unat (rcv_wnd k)"
    and "\<forall>s\<in>set (rcv_buf k). timediff (rcv_nxt k) (sg_sn s) < 0"
  shows "prefix (rcv_queue k @ [seg]) (rcv_queue (input_push seg k))"
  using assms parse_data_in_order [of seg "k\<lparr>acklist := acklist k @ [(sg_sn seg, sg_ts seg)]\<rparr>"]
  by (simp add: input_push_def Let_def)

lemma input_push_grows: "prefix (rcv_queue k) (rcv_queue (input_push seg k))"
proof -
  have "prefix (rcv_queue k) (rcv_queue (move_ready_segments k))" for k
    using move_ready_prefix by (auto simp: move_ready_segments_def split: prod.splits)
  from this [of "k\<lparr>acklist := a, rcv_buf := b\<rparr>" for a b] this [of "k\<lparr>acklist := a\<rparr>" for a] show ?thesis
    by (auto simp: input_push_def parse_data_def Let_def split: prod.splits)
qed

lemma input_segment_grows: "prefix (rcv_queue (snd lk)) (rcv_queue (snd (input_segment r seg lk)))"
proof -
  obtain l k where lk: "lk = (l, k)" by force
  obtain c k1 where h: "input_head r seg k = (c, k1)" by force
  have q: "rcv_queue k1 = rcv_queue k" using input_head_recv(2) [of r seg k] h by simp
  show ?thesis
    using lk h q input_push_grows [of k1 seg] by (simp add: input_segment_def)
qed

lemma input_loop_grows: "prefix (rcv_queue (snd lk)) (rcv_queue (snd (snd (input_loop r data lk))))"
proof (induction r data lk rule: input_loop.induct)
  case (1 r data lk)
  let ?seg = "(segment_header data)\<lparr>sg_data := take (segment_length data) (drop IKCP_OVERHEAD data)\<rparr>"
  have "prefix (rcv_queue (snd lk)) (rcv_queue (snd (input_segment r ?seg lk)))"
    by (rule input_segment_grows)
  with 1 show ?case
    by (subst input_loop.simps) (auto simp: Let_def intro: prefix_order.order_trans)
qed

lemma kcp_input_grows:
  assumes "kcp_input clk regular nd data k = Ok (code, k')"
    and "input_loop regular data (input_start k) = (c, l, k1)" and "IKCP_OVERHEAD \<le> length data"
  shows "rcv_queue k' = rcv_queue k1"
  using assms(1)
proof (cases rule: kcp_input_cases)
  case short
  then show ?thesis using assms(3) by simp
next
  case (stopped c l)
  then show ?thesis using assms(2) by simp
next
  case (finished l k1' k2)
  then show ?thesis using assms(2) flush_recv_side by (auto simp: same_sides_def)
qed

lemma timediff_window:
  assumes "w \<noteq> 0" and "unat w < 2 ^ 31"
  shows "timediff n (n + w) < 0"
proof -
  have "sint (word_of_int (- int (unat w)) :: u32) = - int (unat w)"
  proof (rule sint_word_of_int)
    have "int (unat w) < int (2 ^ 31)" using assms(2) by (simp only: of_nat_less_iff)
    then show "- (2 ^ 31) \<le> - int (unat w)" by (simp only: of_nat_power of_nat_numeral)
    show "- int (unat w) < 2 ^ 31" by (rule le_less_trans [of _ 0]) simp_all
  qed
  moreover have "n - (n + w) = word_of_int (- int (unat w))" by simp
  moreover have "0 < uint w"
  proof -
    have "uint w \<noteq> 0" using assms(1) uint_0_iff by blast
    then show ?thesis using uint_ge_0 [of w] order_le_less by metis
  qed
  ultimately show ?thesis unfolding timediff_def by simp
qed

text \<open>
  A segment that arrives in order is delivered.  Its data is appended to the
  readable queue as soon as it is fed in, whatever the rest of the datagram holds
  and even if it already was received before and lost; the window must have room
  and the buffer hold only later segments.
\<close>

theorem in_order_delivered:
  assumes "sg_cmd s = IKCP_CMD_PUSH" and "sg_conv s = k_conv k" and "sg_sn s = rcv_nxt k"
    and "length (sg_data s) < 2 ^ 32"
    and "length (rcv_queue k) < unat (rcv_wnd k)" and "unat (rcv_wnd k) < 2 ^ 31"
    and "\<forall>b\<in>set (rcv_buf k). timediff (rcv_nxt k) (sg_sn b) < 0"
    and "kcp_input clk regular ack_no_delay (wire s @ rest) k = Ok (code, k')"
  shows "prefix (rcv_queue k @ [seen s]) (rcv_queue k')"
proof -
  have seen: "sg_cmd (seen s) = IKCP_CMD_PUSH" "sg_sn (seen s) = rcv_nxt k"
    using assms(1,3) by (simp_all add: seen_def)
  obtain c0 k0 where h: "input_head regular (seen s) k = (c0, k0)" by force
  have k0: "rcv_nxt k0 = rcv_nxt k" "rcv_queue k0 = rcv_queue k" "rcv_buf k0 = rcv_buf k" "rcv_wnd k0 = rcv_wnd k"
    using input_head_recv [of regular "seen s" k] h by simp_all
  have wnd: "rcv_wnd k \<noteq> 0" using assms(5) by auto
  let ?lk = "input_segment regular (seen s) (input_start k)"
  have "snd ?lk = input_push (seen s) k0"
    using h seen by (simp add: input_segment_def kcp_consts)
  with input_push_in_order [of "seen s" k0] seen k0 timediff_window [OF wnd assms(6)] assms(5,7)
  have first: "prefix (rcv_queue k @ [seen s]) (rcv_queue (snd ?lk))" by simp
  obtain c l k1 where loop: "input_loop regular rest ?lk = (c, l, k1)" by (metis prod_cases3)
  have whole: "input_loop regular (wire s @ rest) (input_start k) = (c, l, k1)"
    using loop assms(1,2,4) by (simp add: input_loop_wire small_def)
  have "prefix (rcv_queue (snd ?lk)) (rcv_queue k1)"
    using input_loop_grows [of ?lk regular rest] loop by simp
  moreover have "rcv_queue k' = rcv_queue k1"
    by (rule kcp_input_grows [OF assms(8) whole]) (simp add: wire_def IKCP_OVERHEAD_def)
  ultimately show ?thesis using first prefix_order.order_trans by metis
qed

theorem in_order_delivered_witness:
  "\<exists>code k'. kcp_input (\<lambda>_. 3) True False
      (wire (segment_default\<lparr>sg_conv := 9, sg_cmd := 81, sg_data := [1]\<rparr>) @ [2]) (kcp_new 9) = Ok (code, k') \<and>
    prefix (rcv_queue (kcp_new 9) @ [seen (segment_default\<lparr>sg_conv := 9, sg_cmd := 81, sg_data := [1]\<rparr>)])
      (rcv_queue k')"
proof -
  let ?s = "segment_default\<lparr>sg_conv := 9, sg_cmd := 81, sg_data := [1]\<rparr>"
  have "kcp_bounded 100 (kcp_new 9)" by (simp add: kcp_bounded_def)
  then obtain code k' where ok: "kcp_input (\<lambda>_. 3) True False (wire ?s @ [2]) (kcp_new 9) = Ok (code, k')"
    using kcp_input_safe [of 100 "kcp_new 9" "wire ?s @ [2]" "\<lambda>_. 3" True False] by (auto simp: wire_def)
  have "prefix (rcv_queue (kcp_new 9) @ [seen ?s]) (rcv_queue k')"
    by (rule in_order_delivered [OF _ _ _ _ _ _ _ ok]) (simp_all add: kcp_consts segment_default_def)
  with ok show ?thesis by blast
qed

section \<open>An empty message blocks the reader\<close>

definition blocked :: "session \<Rightarrow> bool" where
  "blocked s \<longleftrightarrow> ks_pending s = [] \<and>
     (\<exists>e q. rcv_queue (ks_kcp s) = e # q \<and> sg_frg e = 0 \<and> sg_data e = [])"

lemma blocked_grows:
  assumes "blocked s" and "prefix (rcv_queue (ks_kcp s)) (rcv_queue (ks_kcp s'))" and "ks_pending s' = ks_pending s"
  shows "blocked s'"
  using assms by (auto simp: blocked_def prefix_def)

text \<open>
  C14: an empty unfragmented segment blocks the stream for ever.  When a segment with
  no data and no fragments to follow (\<open>sg_frg\<close> 0, which only a peer that does not follow
  this code sends) comes to the head of the queue and nothing of an earlier message is
  left over, every later read waits, and no packet, no timer and no further data
  change that.
\<close>

theorem empty_message_blocks:
  assumes "blocked s"
  shows "(\<exists>errs s'. session_read cap s = Ok (Waits errs, [], s') \<and> blocked s') \<and>
    (case read_loop_step clk r s of Ok (out, s', b) \<Rightarrow> blocked s' | _ \<Rightarrow> True) \<and>
    (case update_loop_step clk s of (t, out, s') \<Rightarrow> blocked s')"
proof (intro conjI)
  show "\<exists>errs s'. session_read cap s = Ok (Waits errs, [], s') \<and> blocked s'"
    using assms by (auto simp: blocked_def session_read_def peek_size_def i32_def)
  show "case read_loop_step clk r s of Ok (out, s', b) \<Rightarrow> blocked s' | _ \<Rightarrow> True"
  proof (cases "read_loop_step clk r s")
    case (Ok x)
    then obtain out s' b where ok: "read_loop_step clk r s = Ok (out, s', b)" by (metis prod_cases3)
    have "blocked s'"
    proof (cases "\<exists>d. r = Datagram d \<and> IKCP_OVERHEAD \<le> length (take MTU_LIMIT d)")
      case True
      then obtain d where d: "r = Datagram d" "IKCP_OVERHEAD \<le> length (take MTU_LIMIT d)" by blast
      then have "session_input clk (take MTU_LIMIT d) s = Ok (out, s')"
        using ok by (cases "session_input clk (take MTU_LIMIT d) s") (auto simp: read_loop_step_def)
      then obtain code k where k: "kcp_input clk True (ks_ack_no_delay s) (take MTU_LIMIT d) (ks_kcp s) = Ok (code, k)"
          "take_output k = (k_output k, ks_kcp s')" "ks_pending s' = ks_pending s"
        by (rule session_input_Ok)
      obtain c l k1 where loop: "input_loop True (take MTU_LIMIT d) (input_start (ks_kcp s)) = (c, l, k1)"
        by (metis prod_cases3)
      have "rcv_queue k = rcv_queue k1" by (rule kcp_input_grows [OF k(1) loop d(2)])
      with input_loop_grows [of "input_start (ks_kcp s)" True "take MTU_LIMIT d"] loop k(2)
      have "prefix (rcv_queue (ks_kcp s)) (rcv_queue (ks_kcp s'))" by (auto simp: take_output_def dest: sym)
      from blocked_grows [OF assms this k(3)] show ?thesis .
    next
      case False
      with ok assms show ?thesis
        by (auto simp: read_loop_step_def Let_def blocked_def split: received.splits)
    qed
    with ok show ?thesis by simp
  qed simp_all
  obtain t out s' where u: "update_loop_step clk s = (t, out, s')" by (metis prod_cases3)
  obtain i k where f: "flush clk False (ks_kcp s) = (i, k)" by force
  have "rcv_queue (ks_kcp s') = rcv_queue (ks_kcp s) \<and> ks_pending s' = ks_pending s"
    using u f flush_recv_side [OF f]
    by (auto simp: update_loop_step_def take_output_def Let_def split: if_splits)
  then have "blocked s'" using assms by (simp add: blocked_def)
  with u show "case update_loop_step clk s of (t, out, s') \<Rightarrow> blocked s'" by simp
qed

definition blocked_session :: session where
  "blocked_session = session_configure (\<lambda>k. k\<lparr>rcv_queue := [segment_default]\<rparr>) (with_conv 9)"

theorem empty_message_blocks_witness:
  "(\<exists>errs s'. session_read 10 blocked_session = Ok (Waits errs, [], s') \<and> blocked s') \<and>
    (case read_loop_step (\<lambda>_. 3) (Datagram [1]) blocked_session of Ok (out, s', b) \<Rightarrow> blocked s' | _ \<Rightarrow> True) \<and>
    (case update_loop_step (\<lambda>_. 3) blocked_session of (t, out, s') \<Rightarrow> blocked s')"
  by (rule empty_message_blocks)
    (simp add: blocked_def blocked_session_def session_configure_def with_conv_def segment_default_def)

section \<open>Datagrams fit the MTU\<close>

definition packer_fits :: "nat \<Rightarrow> packer \<Rightarrow> bool" where
  "packer_fits mtu p \<longleftrightarrow> length (fst p) \<le> mtu \<and> (\<forall>d\<in>set (snd p). length d \<le> mtu)"

lemma pack_fits: "packer_fits mtu p \<Longrightarrow> length w \<le> mtu \<Longrightarrow> packer_fits mtu (pack mtu w p)"
  unfolding packer_fits_def pack_simps by auto

lemma flush_acks_fits:
  "packer_fits mtu p \<Longrightarrow> 24 \<le> mtu \<Longrightarrow> packer_fits mtu (snd (flush_acks mtu nxt acks (ctrl, p)))"
proof (induction acks arbitrary: ctrl p)
  case (Cons a acks)
  obtain sn ts where a: "a = (sn, ts)" by force
  let ?p = "make_space mtu IKCP_OVERHEAD p" and ?c = "ctrl\<lparr>sg_sn := sn, sg_ts := ts\<rparr>"
  have "packer_fits mtu ?p" "packer_fits mtu (fst ?p @ segment_encode ?c, snd ?p)"
    using Cons.prems by (auto simp: packer_fits_def make_space_def IKCP_OVERHEAD_def)
  with Cons a show ?case by (simp add: Let_def)
qed simp

lemma flush_asks_fits: "packer_fits (unat (k_mtu k)) (snd cp) \<Longrightarrow> 24 \<le> unat (k_mtu k) \<Longrightarrow>
    packer_fits (unat (k_mtu k)) (flush_asks k cp)"
  by (simp add: flush_asks_def Let_def split_def pack_fits)

definition fits :: "nat \<Rightarrow> segment \<Rightarrow> bool" where "fits mtu s \<longleftrightarrow> length (sg_data s) + 24 \<le> mtu"

lemma flush_segment_fits:
  assumes "fits (fp_mtu P) s" and "packer_fits (fp_mtu P) (fl_pack l)"
  shows "packer_fits (fp_mtu P) (fl_pack (fst (flush_segment clk P l s)))"
proof -
  obtain b l1 s1 where n: "needs_send P l s = (b, l1, s1)" by (metis prod_cases3)
  from needs_send_ok [OF n] have "length (sg_data s1) + 24 \<le> fp_mtu P" "fl_pack l1 = fl_pack l"
    using assms(1) by (auto simp: fits_def core_def)
  then show ?thesis
    using assms(2) n by (auto simp: flush_segment_def transmit_def Let_def split_def intro!: pack_fits)
qed

lemma flush_segments_fits:
  "\<forall>s\<in>set segs. fits (fp_mtu P) s \<Longrightarrow> packer_fits (fp_mtu P) (fl_pack l) \<Longrightarrow>
     packer_fits (fp_mtu P) (fl_pack (fst (flush_segments clk P l segs)))"
proof (induction segs arbitrary: l)
  case (Cons s segs)
  then show ?case unfolding flush_segments_Cons by (simp add: flush_segment_fits)
qed simp

lemma fill_window_fits:
  "fill_window conv limit queue buf nxt = (queue', buf', nxt') \<Longrightarrow> \<forall>s\<in>set (buf @ queue). fits mtu s \<Longrightarrow>
     \<forall>s\<in>set buf'. fits mtu s"
  by (induction conv limit queue buf nxt rule: fill_window.induct) (auto simp: fits_def split: if_splits)

lemma pack_done_fits: "packer_fits mtu p \<Longrightarrow> \<forall>d\<in>set (pack_done p). length d \<le> mtu"
  by (auto simp: packer_fits_def pack_done_def)

text \<open>
  No datagram is longer than the MTU.  When every segment waiting or in flight
  leaves room for a header, all that a flush puts out, acknowledgements, probes and
  data packed together, fits.
\<close>

theorem flush_datagrams_fit:
  assumes "\<forall>s\<in>set (snd_buf k @ snd_queue k). length (sg_data s) + IKCP_OVERHEAD \<le> unat (k_mtu k)"
    and "IKCP_OVERHEAD \<le> unat (k_mtu k)" and "\<forall>d\<in>set (k_output k). length d \<le> unat (k_mtu k)"
  shows "\<forall>d\<in>set (k_output (snd (flush clk ack_only k))). length d \<le> unat (k_mtu k)"
proof -
  let ?mtu = "unat (k_mtu k)" and ?k0 = "k\<lparr>acklist := []\<rparr>"
  obtain ctrl p where a: "flush_acks ?mtu (rcv_nxt k) (acklist k) (ctrl_segment k, ([], k_output k)) = (ctrl, p)"
    by (rule prod.exhaust)
  have p: "packer_fits ?mtu p"
    using flush_acks_fits [of ?mtu "([], k_output k)"] a assms(2,3)
    by (metis (no_types, lifting) IKCP_OVERHEAD_def fst_conv list.size(3) packer_fits_def snd_conv zero_le)
  show ?thesis
  proof (cases ack_only)
    case True
    with a pack_done_fits [OF p] show ?thesis by (simp add: flush_def)
  next
    case False
    let ?k1 = "flush_probe clk ?k0"
    have mtu: "k_mtu ?k1 = k_mtu k" by (simp add: flush_probe_def Let_def)
    obtain queue buf nxt where f: "fill_window (k_conv ?k1) (snd_una ?k1 + flush_cwnd ?k1) (snd_queue ?k1)
        (snd_buf ?k1) (snd_nxt ?k1) = (queue, buf, nxt)"
      by (metis prod_cases3)
    have buf: "\<forall>s\<in>set buf. fits ?mtu s"
      by (rule fill_window_fits [OF f]) (use assms(1) in \<open>auto simp: fits_def IKCP_OVERHEAD_def\<close>)
    have "\<exists>P l0. k_output (snd (flush clk False k)) = pack_done (fl_pack (fst (flush_segments clk P l0 buf))) \<and>
        fp_mtu P = ?mtu \<and> fl_pack l0 = flush_asks ?k1 (ctrl, p)"
      using a f mtu
      by (simp add: flush_def flush_data_def flush_fill_def Let_def split_def)
        (intro exI conjI, rule refl, simp_all)
    then obtain P l0 where out: "k_output (snd (flush clk False k)) = pack_done (fl_pack (fst (flush_segments clk P l0 buf)))"
        and P: "fp_mtu P = ?mtu" "fl_pack l0 = flush_asks ?k1 (ctrl, p)" by blast
    have "packer_fits ?mtu (flush_asks ?k1 (ctrl, p))"
      using flush_asks_fits [of ?k1 "(ctrl, p)"] p assms(2) mtu by (simp add: IKCP_OVERHEAD_def)
    with flush_segments_fits [of buf P l0 clk] buf P have "packer_fits ?mtu (fl_pack (fst (flush_segments clk P l0 buf)))"
      by simp
    from pack_done_fits [OF this] out False show ?thesis by simp
  qed
qed

theorem flush_datagrams_fit_witness:
  "list_all (\<lambda>d. length d \<le> unat (k_mtu (kcp_new 9)))
     (k_output (snd (flush (\<lambda>_. 3) False ((kcp_new 9)\<lparr>snd_queue := [segment_default\<lparr>sg_data := [1]\<rparr>]\<rparr>))))"
  using flush_datagrams_fit [of "(kcp_new 9)\<lparr>snd_queue := [segment_default\<lparr>sg_data := [1]\<rparr>]\<rparr>" "\<lambda>_. 3" False]
  by (simp add: kcp_new_def kcp_consts list_all_iff)

end
