(* ===== verification/ByteSource.thy ===== *)
theory ByteSource
  imports Prelude
begin

text \<open>
  Byte streams read piece by piece, as the \<open>ByteRead\<close> of
  \<open>src/transports/snowflake/domain/encapsulation.rs\<close> and the \<open>MuxConn\<close> of \<open>smux.rs\<close>: a
  source is the list of what will arrive, and a read takes at most as many bytes as
  its buffer holds.  \<open>read_exact\<close> (\<open>read_full\<close> in \<open>smux.rs\<close>) is the loop both build on;
  the locale states what a decoder may rely on, that the pieces do not matter.
\<close>

datatype src_event = SrcData bytes | SrcEof | SrcErr nat

type_synonym source = "src_event list"

datatype io_kind = UnexpectedEof | InvalidData | InvalidInput | IoErr nat

text \<open>A call has returned, failed, or is still waiting when the events are used up.\<close>

datatype 'a io = Done 'a | Failed io_kind | Pending

text \<open>One \<open>read\<close> into a buffer of \<open>k\<close> bytes; no bytes at all is the end of the stream, which
  stays.  An event without bytes is nothing.\<close>

fun src_read :: "nat \<Rightarrow> source \<Rightarrow> bytes io \<times> source" where
  "src_read k [] = (Pending, [])"
| "src_read k (SrcEof # evs) = (Done [], SrcEof # evs)"
| "src_read k (SrcErr n # evs) = (Failed (IoErr n), SrcErr n # evs)"
| "src_read k (SrcData bs # evs) =
     (if bs = [] then src_read k evs
      else if length bs \<le> k then (Done bs, evs)
      else (Done (take k bs), SrcData (drop k bs) # evs))"

lemma src_read_bound: "src_read k src = (Done bs, src') \<Longrightarrow> length bs \<le> k"
  by (induction k src rule: src_read.induct) (auto split: if_splits)

text \<open>\<open>read_exact\<close> into a buffer with \<open>n\<close> bytes left to fill.\<close>

function read_exact :: "nat \<Rightarrow> source \<Rightarrow> bytes io \<times> source" where
  "read_exact n src =
     (if n = 0 then (Done [], src)
      else case src_read n src of
        (Done bs, src) \<Rightarrow>
          if bs = [] then (Failed UnexpectedEof, src)
          else (case read_exact (n - length bs) src of
                  (Done r, src) \<Rightarrow> (Done (bs @ r), src)
                | x \<Rightarrow> x)
      | (Failed e, src) \<Rightarrow> (Failed e, src)
      | (Pending, src) \<Rightarrow> (Pending, src))"
  by pat_completeness auto
termination
  by (relation "measure fst") (auto dest!: src_read_bound sym [of "src_read _ _"])

declare read_exact.simps [simp del]

text \<open>What a source holds: its bytes up to the first end or error, and which it is.\<close>

datatype src_end = AtEof | AtErr nat | StillOpen

fun src_flat :: "source \<Rightarrow> bytes \<times> src_end" where
  "src_flat [] = ([], StillOpen)"
| "src_flat (SrcEof # evs) = ([], AtEof)"
| "src_flat (SrcErr n # evs) = ([], AtErr n)"
| "src_flat (SrcData bs # evs) = (case src_flat evs of (r, e) \<Rightarrow> (bs @ r, e))"

fun end_result :: "src_end \<Rightarrow> 'a io" where
  "end_result AtEof = Failed UnexpectedEof"
| "end_result (AtErr n) = Failed (IoErr n)"
| "end_result StillOpen = Pending"

text \<open>What a reader of the stream may rely on.\<close>

locale flat_source =
  fixes flat :: "'s \<Rightarrow> bytes \<times> src_end"
    and exact :: "nat \<Rightarrow> 's \<Rightarrow> bytes io \<times> 's"
  assumes exact_enough: "flat s = (bs, e) \<Longrightarrow> n \<le> length bs \<Longrightarrow>
      \<exists>s'. exact n s = (Done (take n bs), s') \<and> flat s' = (drop n bs, e)"
    and exact_short: "flat s = (bs, e) \<Longrightarrow> length bs < n \<Longrightarrow> fst (exact n s) = end_result e"
begin

lemma exact_append:
  assumes "flat s = (bs @ r, e)"
  obtains s' where "exact (length bs) s = (Done bs, s')" "flat s' = (r, e)"
  using exact_enough [OF assms, of "length bs"] by auto

lemma exact_agree:
  assumes "flat s1 = flat s2"
  shows "fst (exact n s1) = fst (exact n s2)"
proof -
  obtain bs e where f: "flat s1 = (bs, e)" by force
  then show ?thesis
    using assms exact_enough [of s1 bs e n] exact_enough [of s2 bs e n] exact_short [of s1 bs e n]
      exact_short [of s2 bs e n]
    by (cases "n \<le> length bs") auto
qed

end

lemma src_read_flat:
  assumes "0 < k" and "src_flat src = (bs, e)"
  shows "(bs = [] \<and> fst (src_read k src) = (case e of AtEof \<Rightarrow> Done [] | AtErr n \<Rightarrow> Failed (IoErr n) | StillOpen \<Rightarrow> Pending)) \<or>
    (\<exists>m src'. 0 < m \<and> m \<le> k \<and> m \<le> length bs \<and> src_read k src = (Done (take m bs), src') \<and> src_flat src' = (drop m bs, e))"
  using assms
proof (induction k src arbitrary: bs rule: src_read.induct)
  case (4 k c evs)
  obtain r where r: "src_flat evs = (r, e)" "bs = c @ r" using "4.prems"(2) by (auto split: prod.splits)
  show ?case
  proof (cases "c = []")
    case True
    with 4 r show ?thesis by auto
  next
    case False
    then show ?thesis
      using r "4.prems"(1) by (intro disjI2 exI [of _ "min k (length c)"]) (auto simp: min_def)
  qed
qed auto

interpretation src: flat_source src_flat read_exact
proof unfold_locales
  show "\<exists>s'. read_exact n s = (Done (take n bs), s') \<and> src_flat s' = (drop n bs, e)"
    if "src_flat s = (bs, e)" "n \<le> length bs" for s bs e n
    using that
  proof (induction n arbitrary: s bs rule: less_induct)
    case (less n)
    show ?case
    proof (cases "n = 0")
      case False
      with src_read_flat [of n s bs e] less.prems obtain m s1 where
        m: "0 < m" "m \<le> n" "m \<le> length bs" "src_read n s = (Done (take m bs), s1)" "src_flat s1 = (drop m bs, e)"
        by auto
      moreover have "n - m \<le> length (drop m bs)" using less.prems(2) by (simp add: diff_le_mono)
      ultimately obtain s2 where s2: "read_exact (n - m) s1 = (Done (take (n - m) (drop m bs)), s2)"
          "src_flat s2 = (drop (n - m) (drop m bs), e)"
        using less.IH [OF _ m(5), of "n - m"] False by auto
      have "take m bs @ take (n - m) (drop m bs) = take n bs"
        using m(2) by (metis le_add_diff_inverse take_add)
      with m s2 False show ?thesis by (subst read_exact.simps) (auto simp: min_def)
    qed (use less.prems in \<open>simp add: read_exact.simps\<close>)
  qed
  show "fst (read_exact n s) = end_result e" if "src_flat s = (bs, e)" "length bs < n" for s bs e n
    using that
  proof (induction n arbitrary: s bs rule: less_induct)
    case (less n)
    from src_read_flat [of n s bs e] less.prems consider
        "bs = []" "fst (src_read n s) = (case e of AtEof \<Rightarrow> Done [] | AtErr n \<Rightarrow> Failed (IoErr n) | StillOpen \<Rightarrow> Pending)"
      | m s1 where "0 < m" "m \<le> n" "m \<le> length bs" "src_read n s = (Done (take m bs), s1)" "src_flat s1 = (drop m bs, e)"
      by (cases "n = 0") auto
    then show ?case
    proof cases
      case 1
      with less.prems(2) show ?thesis
        by (cases e; cases "src_read n s") (simp_all add: read_exact.simps [of n s])
    next
      case 2
      then have "fst (read_exact (n - m) s1) = end_result e"
        using less.IH [of "n - m" s1 "drop m bs"] less.prems(2) by auto
      with 2 less.prems(2) show ?thesis
        by (cases e; cases "read_exact (n - m) s1") (auto simp: read_exact.simps [of n s] min_def)
    qed
  qed
qed

end
