(* ===== verification/Encapsulation.thy ===== *)
theory Encapsulation
  imports ByteSource
begin

text \<open>
  Packets over a byte stream, the inner protocol of snowflake's turbo tunnel, from
  \<open>src/transports/snowflake/domain/encapsulation.rs\<close>: a chunk is a length prefix of one to
  three bytes and data or padding.
\<close>

section \<open>Reading\<close>

definition read_byte :: "source \<Rightarrow> u8 option io \<times> source" where
  "read_byte src =
     (case src_read 1 src of
        (Done [], src) \<Rightarrow> (Done None, src)
      | (Done (b # _), src) \<Rightarrow> (Done (Some b), src)
      | (Failed e, src) \<Rightarrow> (Failed e, src)
      | (Pending, src) \<Rightarrow> (Pending, src))"

function discard :: "nat \<Rightarrow> source \<Rightarrow> unit io \<times> source" where
  "discard n src =
     (if n = 0 then (Done (), src)
      else let k = min n 1024
           in case read_exact k src of
                (Done _, src) \<Rightarrow> discard (n - k) src
              | (Failed e, src) \<Rightarrow> (Failed e, src)
              | (Pending, src) \<Rightarrow> (Pending, src))"
  by pat_completeness auto
termination by (relation "measure fst") auto

declare discard.simps [simp del]

text \<open>The length bytes after the first; \<open>n << 7 | x\<close> is \<open>128 n + x\<close> as \<open>x < 128\<close>.\<close>

function read_length :: "nat \<Rightarrow> bool \<Rightarrow> nat \<Rightarrow> source \<Rightarrow> nat io \<times> source" where
  "read_length i more n src =
     (if \<not> more then (Done n, src)
      else if 2 \<le> i then (Failed InvalidData, src)
      else case read_byte src of
        (Done (Some b), src) \<Rightarrow> read_length (i + 1) (b AND 0x80 \<noteq> 0) (n * 128 + unat (b AND 0x7f)) src
      | (Done None, src) \<Rightarrow> (Failed UnexpectedEof, src)
      | (Failed e, src) \<Rightarrow> (Failed e, src)
      | (Pending, src) \<Rightarrow> (Pending, src))"
  by pat_completeness auto
termination by (relation "measure (\<lambda>(i, _). 2 - i)") auto

declare read_length.simps [simp del]

lemma read_byte_flat:
  assumes "src_flat src = (bs, e)"
  shows "(bs = [] \<and> fst (read_byte src) = (case e of AtEof \<Rightarrow> Done None | _ \<Rightarrow> end_result e)) \<or>
    (\<exists>b r src'. bs = b # r \<and> read_byte src = (Done (Some b), src') \<and> src_flat src' = (r, e))"
proof -
  from src_read_flat [OF zero_less_one assms] consider
      "bs = []" "fst (src_read 1 src) = (case e of AtEof \<Rightarrow> Done [] | AtErr n \<Rightarrow> Failed (IoErr n) | StillOpen \<Rightarrow> Pending)"
    | src' where "1 \<le> length bs" "src_read 1 src = (Done (take 1 bs), src')" "src_flat src' = (drop 1 bs, e)"
    by (auto simp: le_Suc_eq)
  then show ?thesis
  proof cases
    case 1
    then show ?thesis by (cases "src_read 1 src"; cases e) (auto simp: read_byte_def)
  next
    case 2
    then show ?thesis by (cases bs) (auto simp: read_byte_def)
  qed
qed

definition left_over :: "source \<Rightarrow> nat" where "left_over src = length (fst (src_flat src))"

lemma read_byte_left: "read_byte src = (Done (Some b), src') \<Longrightarrow> left_over src' < left_over src"
  using read_byte_flat [of src] by (cases "src_flat src") (auto simp: left_over_def split: src_end.splits)

lemma read_exact_left: "read_exact n src = (Done bs, src') \<Longrightarrow> left_over src' \<le> left_over src"
proof -
  assume r: "read_exact n src = (Done bs, src')"
  obtain all e where f: "src_flat src = (all, e)" by force
  show ?thesis
  proof (cases "n \<le> length all")
    case True
    from src.exact_enough [OF f this] r f show ?thesis by (auto simp: left_over_def)
  next
    case False
    with src.exact_short [OF f, of n] r show ?thesis by (cases e) auto
  qed
qed

lemma discard_left: "discard n src = (Done u, src') \<Longrightarrow> left_over src' \<le> left_over src"
proof (induction n src rule: discard.induct)
  case (1 n src)
  show ?case
  proof (cases "n = 0")
    case False
    with "1.prems" obtain bs s1 where s1: "read_exact (min n 1024) src = (Done bs, s1)"
        "discard (n - min n 1024) s1 = (Done u, src')"
      by (subst (asm) discard.simps) (auto simp: Let_def split: prod.splits io.splits)
    with "1.IH" [OF False refl s1(1) [symmetric] refl s1(2)] read_exact_left [OF s1(1)] show ?thesis by simp
  qed (use "1.prems" in \<open>simp add: discard.simps\<close>)
qed

lemma read_length_left: "read_length i more n src = (Done k, src') \<Longrightarrow> left_over src' \<le> left_over src"
proof (induction i more n src rule: read_length.induct)
  case (1 i more n src)
  show ?case
  proof (cases "more \<and> i < 2")
    case True
    with "1.prems" obtain b s1 where s1: "read_byte src = (Done (Some b), s1)"
        "read_length (i + 1) (b AND 0x80 \<noteq> 0) (n * 128 + unat (b AND 0x7f)) s1 = (Done k, src')"
      by (subst (asm) read_length.simps) (auto split: prod.splits io.splits option.splits)
    with "1.IH" [OF _ _ s1(1) [symmetric] refl refl s1(2)] read_byte_left [OF s1(1)] True show ?thesis by simp
  next
    case False
    with "1.prems" show ?thesis by (subst (asm) read_length.simps) (auto split: if_splits)
  qed
qed

text \<open>\<open>read_data\<close> into a buffer of \<open>cap\<close> bytes: what is stored, or nothing at a clean end.\<close>

function read_data :: "nat \<Rightarrow> source \<Rightarrow> bytes option io \<times> source" where
  "read_data cap src =
     (case read_byte src of
        (Done None, src) \<Rightarrow> (Done None, src)
      | (Failed e, src) \<Rightarrow> (Failed e, src)
      | (Pending, src) \<Rightarrow> (Pending, src)
      | (Done (Some b), src) \<Rightarrow>
          (case read_length 0 (b AND 0x40 \<noteq> 0) (unat (b AND 0x3f)) src of
             (Failed e, src) \<Rightarrow> (Failed e, src)
           | (Pending, src) \<Rightarrow> (Pending, src)
           | (Done n, src) \<Rightarrow>
               if b AND 0x80 \<noteq> 0 then
                 (case read_exact (min n cap) src of
                    (Failed e, src) \<Rightarrow> (Failed e, src)
                  | (Pending, src) \<Rightarrow> (Pending, src)
                  | (Done bs, src) \<Rightarrow>
                      (case discard (n - min n cap) src of
                         (Failed e, src) \<Rightarrow> (Failed e, src)
                       | (Pending, src) \<Rightarrow> (Pending, src)
                       | (Done _, src) \<Rightarrow> (Done (Some bs), src)))
               else
                 (case discard n src of
                    (Failed e, src) \<Rightarrow> (Failed e, src)
                  | (Pending, src) \<Rightarrow> (Pending, src)
                  | (Done _, src) \<Rightarrow> read_data cap src)))"
  by pat_completeness auto
termination
proof (relation "measure (\<lambda>(cap, src). left_over src)", goal_cases)
  case (2 cap src r s1 v b r2 s2 n r3 s3 u)
  then show ?case
    using read_byte_left [of src b s1] read_length_left [of 0 "b AND 0x40 \<noteq> 0" "unat (b AND 0x3f)" s1 n s2]
      discard_left [of n s2 u s3] by auto
qed auto

declare read_data.simps [simp del]

section \<open>Writing\<close>

definition data_prefix :: "nat \<Rightarrow> (bytes, io_kind) res" where
  "data_prefix n =
     (if n div 64 = 0 then Ok [0x80 OR word_of_nat n]
      else if n div 2 ^ 13 = 0 then Ok [0xc0 OR word_of_nat (n div 128), word_of_nat (n mod 128)]
      else if n div 2 ^ 20 = 0
      then Ok [0xc0 OR word_of_nat (n div 2 ^ 14), 0x80 OR word_of_nat (n div 128 mod 128), word_of_nat (n mod 128)]
      else Err InvalidInput)"

definition encode_data :: "bytes \<Rightarrow> (bytes, io_kind) res" where
  "encode_data data = map_ok (\<lambda>out. out @ data) (data_prefix (length data))"

text \<open>One padding chunk of \<open>p\<close> bytes in all, \<open>0 < p \<le> 1024\<close>.\<close>

definition padding_chunk :: "nat \<Rightarrow> bytes" where
  "padding_chunk p =
     (if (p - 1) div 64 = 0 then word_of_nat (p - 1) # replicate (p - 1) 0
      else if (p - 2) div 2 ^ 13 = 0
      then [0x40 OR word_of_nat ((p - 2) div 128), word_of_nat ((p - 2) mod 128)] @ replicate (p - 2) 0
      else [0x40 OR word_of_nat ((p - 3) div 2 ^ 14), 0x80 OR word_of_nat ((p - 3) div 128 mod 64),
             word_of_nat ((p - 3) mod 128)] @ replicate (p - 3) 0)"

function encode_padding :: "nat \<Rightarrow> bytes" where
  "encode_padding n = (if n = 0 then [] else padding_chunk (min n 1024) @ encode_padding (n - min n 1024))"
  by pat_completeness auto
termination by (relation "measure id") auto

declare encode_padding.simps [simp del]

section \<open>Prefix bytes\<close>

text \<open>The bytes of a prefix: \<open>first\<close> is what the reader takes from the first byte, \<open>next_byte\<close>
  from the others.\<close>

definition first_byte :: "u8 \<Rightarrow> bool \<times> bool \<times> nat" where
  "first_byte b = (b AND 0x80 \<noteq> 0, b AND 0x40 \<noteq> 0, unat (b AND 0x3f))"

definition next_byte :: "u8 \<Rightarrow> bool \<times> nat" where
  "next_byte b = (b AND 0x80 \<noteq> 0, unat (b AND 0x7f))"

lemma first_byte_table:
  "list_all (\<lambda>n. first_byte (0x80 OR word_of_nat n) = (True, False, n) \<and>
      first_byte (0xc0 OR word_of_nat n) = (True, True, n) \<and>
      first_byte (word_of_nat n) = (False, False, n) \<and>
      first_byte (0x40 OR word_of_nat n) = (False, True, n)) [0..<64]"
  by code_simp

lemma next_byte_table:
  "list_all (\<lambda>n. next_byte (word_of_nat n) = (False, n) \<and> next_byte (0x80 OR word_of_nat n) = (True, n)) [0..<128]"
  by code_simp

lemma first_byte_simps [simp]:
  assumes "n < 64"
  shows "first_byte (0x80 OR word_of_nat n) = (True, False, n)" "first_byte (0xc0 OR word_of_nat n) = (True, True, n)"
    "first_byte (word_of_nat n) = (False, False, n)" "first_byte (0x40 OR word_of_nat n) = (False, True, n)"
  using first_byte_table assms by (auto simp: list_all_iff)

lemma next_byte_simps [simp]:
  assumes "n < 128"
  shows "next_byte (word_of_nat n) = (False, n)" "next_byte (0x80 OR word_of_nat n) = (True, n)"
  using next_byte_table assms by (auto simp: list_all_iff)

text \<open>A chunk header on the wire: what it says, and its bytes.\<close>

fun header_value :: "bytes \<Rightarrow> (bool \<times> nat) option" where
  "header_value [b] = (case first_byte b of (d, more, n) \<Rightarrow> if more then None else Some (d, n))"
| "header_value [b, c] =
     (case (first_byte b, next_byte c) of
        ((d, m1, n), (m2, x)) \<Rightarrow> if m1 \<and> \<not> m2 then Some (d, n * 128 + x) else None)"
| "header_value [b, c, c'] =
     (case (first_byte b, next_byte c, next_byte c') of
        ((d, m1, n), (m2, x), (m3, y)) \<Rightarrow>
          if m1 \<and> m2 \<and> \<not> m3 then Some (d, (n * 128 + x) * 128 + y) else None)"
| "header_value _ = None"

lemma data_prefix_header:
  assumes "data_prefix n = Ok p"
  shows "header_value p = Some (True, n)"
proof -
  have "n = (n div 2 ^ 14 * 128 + n div 128 mod 128) * 128 + n mod 128"
    using div_mult_mod_eq [of n 128] div_mult_mod_eq [of "n div 128" 128] by (simp add: div_mult2_eq [symmetric])
  with assms show ?thesis
    by (auto simp: data_prefix_def less_mult_imp_div_less div_eq_0_iff split: if_splits)
qed

lemma padding_chunk_header:
  assumes "0 < p" and "p \<le> 1024"
  obtains hdr n where "padding_chunk p = hdr @ replicate n 0" "header_value hdr = Some (False, n)" "length hdr + n = p"
proof (cases "p \<le> 64")
  case True
  obtain q where "p = Suc q" using assms(1) by (cases p) auto
  with True that [of "[word_of_nat q]" q] show thesis
    by (simp add: padding_chunk_def div_eq_0_iff)
next
  case False
  then have "(p - 2) div 128 * 128 + (p - 2) mod 128 = p - 2" by simp
  with False assms that [of "[0x40 OR word_of_nat ((p - 2) div 128), word_of_nat ((p - 2) mod 128)]" "p - 2"]
  show thesis by (auto simp: padding_chunk_def div_eq_0_iff)
qed

section \<open>Reading what was written\<close>

lemma read_byte_Cons:
  assumes "src_flat src = (b # r, e)"
  obtains src' where "read_byte src = (Done (Some b), src')" "src_flat src' = (r, e)"
  using read_byte_flat [OF assms] by auto

lemma discard_flat:
  assumes "src_flat src = (bs @ r, e)"
  shows "\<exists>src'. discard (length bs) src = (Done (), src') \<and> src_flat src' = (r, e)"
  using assms
proof (induction "length bs" arbitrary: src bs rule: less_induct)
  case less
  show ?case
  proof (cases "bs = []")
    case False
    let ?k = "min (length bs) 1024"
    from src.exact_append [of src "take ?k bs" "drop ?k bs @ r" e] less.prems obtain s1 where
      s1: "read_exact ?k src = (Done (take ?k bs), s1)" "src_flat s1 = (drop ?k bs @ r, e)"
      by (auto simp: append_assoc [symmetric] simp del: append_assoc)
    with less.hyps [of "drop ?k bs" s1] False show ?thesis
      by (subst discard.simps) (auto simp: Let_def)
  qed (use less.prems in \<open>simp add: discard.simps\<close>)
qed

text \<open>A header is read in full, whatever the pieces.\<close>

lemma read_header:
  assumes "src_flat src = (hdr @ r, e)" and "header_value hdr = Some (d, n)"
  obtains b s1 s2 where "read_byte src = (Done (Some b), s1)"
    "read_length 0 (b AND 0x40 \<noteq> 0) (unat (b AND 0x3f)) s1 = (Done n, s2)" "(b AND 0x80 \<noteq> 0) = d" "src_flat s2 = (r, e)"
proof -
  from assms(2) consider b where "hdr = [b]" | b c where "hdr = [b, c]" | b c c' where "hdr = [b, c, c']"
    by (cases hdr rule: header_value.cases) auto
  then show thesis
  proof cases
    case (1 b)
    with assms obtain s1 where "read_byte src = (Done (Some b), s1)" "src_flat s1 = (r, e)"
      by (auto elim: read_byte_Cons)
    with 1 assms(2) that show thesis by (auto simp: first_byte_def read_length.simps split: if_splits)
  next
    case (2 b c)
    with assms obtain s1 where s1: "read_byte src = (Done (Some b), s1)" "src_flat s1 = (c # r, e)"
      by (auto elim: read_byte_Cons)
    then obtain s2 where "read_byte s1 = (Done (Some c), s2)" "src_flat s2 = (r, e)"
      by (auto elim: read_byte_Cons)
    with s1 2 assms(2) that show thesis
      by (auto simp: first_byte_def next_byte_def read_length.simps split: if_splits)
  next
    case (3 b c c')
    with assms obtain s1 where s1: "read_byte src = (Done (Some b), s1)" "src_flat s1 = (c # c' # r, e)"
      by (auto elim: read_byte_Cons)
    then obtain s2 where s2: "read_byte s1 = (Done (Some c), s2)" "src_flat s2 = (c' # r, e)"
      by (auto elim: read_byte_Cons)
    then obtain s3 where "read_byte s2 = (Done (Some c'), s3)" "src_flat s3 = (r, e)"
      by (auto elim: read_byte_Cons)
    with s1 s2 3 assms(2) that show thesis
      by (auto simp: first_byte_def next_byte_def read_length.simps split: if_splits)
  qed
qed

lemma read_data_padding:
  assumes "src_flat src = (hdr @ bs @ r, e)" and "header_value hdr = Some (False, length bs)"
  shows "\<exists>src'. read_data cap src = read_data cap src' \<and> src_flat src' = (r, e)"
proof -
  obtain b s1 s2 where h: "read_byte src = (Done (Some b), s1)"
    "read_length 0 (b AND 0x40 \<noteq> 0) (unat (b AND 0x3f)) s1 = (Done (length bs), s2)" "(b AND 0x80 \<noteq> 0) = False"
    "src_flat s2 = (bs @ r, e)"
    by (rule read_header [OF assms])
  from discard_flat [OF h(4)] obtain s3 where "discard (length bs) s2 = (Done (), s3)" "src_flat s3 = (r, e)"
    by blast
  with h(1-3) show ?thesis by (subst read_data.simps) auto
qed

lemma read_data_data:
  assumes "src_flat src = (hdr @ bs @ r, e)" and "header_value hdr = Some (True, length bs)"
  shows "\<exists>src'. read_data cap src = (Done (Some (take cap bs)), src') \<and> src_flat src' = (r, e)"
proof -
  obtain b s1 s2 where h: "read_byte src = (Done (Some b), s1)"
    "read_length 0 (b AND 0x40 \<noteq> 0) (unat (b AND 0x3f)) s1 = (Done (length bs), s2)" "(b AND 0x80 \<noteq> 0) = True"
    "src_flat s2 = (bs @ r, e)"
    by (rule read_header [OF assms])
  let ?k = "min (length bs) cap"
  have split: "take ?k bs = take cap bs" by (auto simp: min_def)
  from h(4) have "src_flat s2 = (take ?k bs @ drop ?k bs @ r, e)" by (metis append.assoc append_take_drop_id)
  then obtain s3 where s3: "read_exact ?k s2 = (Done (take cap bs), s3)" "src_flat s3 = (drop ?k bs @ r, e)"
    using src.exact_append [of s2 "take ?k bs" "drop ?k bs @ r" e] split by auto
  from discard_flat [OF s3(2)] obtain s4 where "discard (length bs - ?k) s3 = (Done (), s4)" "src_flat s4 = (r, e)"
    by auto
  with h s3 show ?thesis by (subst read_data.simps) auto
qed

lemma encode_padding_skipped:
  assumes "src_flat src = (encode_padding n @ r, e)"
  shows "\<exists>src'. read_data cap src = read_data cap src' \<and> src_flat src' = (r, e)"
  using assms
proof (induction n arbitrary: src rule: less_induct)
  case (less n)
  show ?case
  proof (cases "n = 0")
    case False
    then obtain hdr k where p: "padding_chunk (min n 1024) = hdr @ replicate k 0"
        "header_value hdr = Some (False, k)"
      by (rule_tac padding_chunk_header [of "min n 1024"]) auto
    then have "src_flat src = (hdr @ replicate k 0 @ encode_padding (n - min n 1024) @ r, e)"
      using less.prems False by (subst (asm) encode_padding.simps) simp
    from read_data_padding [OF this] p(2) obtain s1 where "read_data cap src = read_data cap s1"
        "src_flat s1 = (encode_padding (n - min n 1024) @ r, e)" by auto
    with less.IH [of "n - min n 1024" s1] False show ?thesis by auto
  qed (use less.prems in \<open>auto simp: encode_padding.simps\<close>)
qed

fun encode_packets :: "(nat \<times> bytes) list \<Rightarrow> (bytes, io_kind) res" where
  "encode_packets [] = Ok []"
| "encode_packets ((n, data) # ps) =
     (case (encode_data data, encode_packets ps) of
        (Ok w, Ok ws) \<Rightarrow> Ok (encode_padding n @ w @ ws)
      | (Err e, _) \<Rightarrow> Err e | (_, Err e) \<Rightarrow> Err e | _ \<Rightarrow> Panic)"

fun read_many :: "nat \<Rightarrow> nat \<Rightarrow> source \<Rightarrow> bytes list io \<times> source" where
  "read_many cap 0 src = (Done [], src)"
| "read_many cap (Suc k) src =
     (case read_data cap src of
        (Done (Some bs), src) \<Rightarrow>
          (case read_many cap k src of (Done l, src) \<Rightarrow> (Done (bs # l), src) | x \<Rightarrow> x)
      | (Done None, src) \<Rightarrow> (Done [], src)
      | (Failed e, src) \<Rightarrow> (Failed e, src)
      | (Pending, src) \<Rightarrow> (Pending, src))"

text \<open>
  Packets written with padding between them are read back in order, each cut to
  the reader's buffer, however the carrier cuts the stream; what follows is left for
  the next read.
\<close>

theorem packets_any_segmentation:
  assumes "encode_packets ps = Ok wire" and "src_flat src = (wire @ rest, e)"
  shows "\<exists>src'. read_many cap (length ps) src = (Done (map (\<lambda>(_, data). take cap data) ps), src') \<and>
    src_flat src' = (rest, e)"
  using assms
proof (induction ps arbitrary: wire src)
  case (Cons p ps)
  obtain n data where p: "p = (n, data)" by force
  from Cons.prems(1) p obtain h ws where h: "data_prefix (length data) = Ok h" and ws: "encode_packets ps = Ok ws"
      and wire: "wire = encode_padding n @ h @ data @ ws"
    by (auto simp: encode_data_def split: res.splits elim!: map_ok.elims)
  from encode_padding_skipped [of src n "h @ data @ ws @ rest" e cap] Cons.prems(2) wire obtain s1 where
    s1: "read_data cap src = read_data cap s1" "src_flat s1 = (h @ data @ ws @ rest, e)" by auto
  from read_data_data [OF s1(2) data_prefix_header [OF h]] obtain s2 where
    "read_data cap s1 = (Done (Some (take cap data)), s2)" "src_flat s2 = (ws @ rest, e)" by blast
  with Cons.IH [OF ws, of s2] s1(1) p show ?case by auto
qed auto

definition two_packets :: "(nat \<times> bytes) list" where
  "two_packets = [(3, [1, 2]), (0, [7])]"

theorem packets_any_segmentation_witness:
  "\<exists>src'. read_many 1 2 [SrcData [2, 0], SrcData [0, 0x82, 1], SrcData [2, 0x81, 7, 9]] = (Done [[1], [7]], src') \<and>
     src_flat src' = ([9], StillOpen)"
proof -
  have "encode_packets two_packets = Ok [2, 0, 0, 0x82, 1, 2, 0x81, 7]"
    by (simp add: two_packets_def encode_data_def data_prefix_def encode_padding.simps padding_chunk_def numeral_2_eq_2)
  from packets_any_segmentation [OF this, of "[SrcData [2, 0], SrcData [0, 0x82, 1], SrcData [2, 0x81, 7, 9]]" "[9]" StillOpen 1]
  show ?thesis by (simp add: two_packets_def numeral_2_eq_2)
qed

section \<open>Truncation and lengths\<close>

lemma discard_short:
  assumes "src_flat src = (bs, e)" and "length bs < n"
  shows "fst (discard n src) = end_result e"
  using assms
proof (induction n arbitrary: src bs rule: less_induct)
  case (less n)
  then have n: "n \<noteq> 0" by auto
  let ?k = "min n 1024"
  show ?case
  proof (cases "?k \<le> length bs")
    case True
    with src.exact_enough [OF less.prems(1)] obtain s1 where
      "read_exact ?k src = (Done (take ?k bs), s1)" "src_flat s1 = (drop ?k bs, e)" by blast
    moreover from this have "fst (discard (n - ?k) s1) = end_result e"
      using n less.prems(2) True by (intro less.IH [of _ _ "drop ?k bs"]) auto
    ultimately show ?thesis using n by (subst discard.simps) (simp add: Let_def)
  next
    case False
    then have "length bs < ?k" by linarith
    from src.exact_short [OF less.prems(1) this] n show ?thesis
      by (subst discard.simps) (cases "read_exact ?k src"; cases e; simp add: Let_def)
  qed
qed

lemma read_header_short:
  assumes "header_value (hdr @ more) = Some (d, n)" and "hdr \<noteq> []" and "more \<noteq> []" and "src_flat src = (hdr, AtEof)"
  shows "fst (read_data cap src) = Failed UnexpectedEof"
proof -
  obtain b hdr' where hdr: "hdr = b # hdr'" using assms(2) by (cases hdr) auto
  obtain c more' where m: "hdr' @ more = c # more'" using assms(3) by (cases "hdr' @ more") auto
  have more: "b AND 0x40 \<noteq> 0"
    using assms(1) hdr m by (cases more') (auto simp: first_byte_def next_byte_def split: if_splits prod.splits elim: header_value.elims)
  obtain s1 where s1: "read_byte src = (Done (Some b), s1)" "src_flat s1 = (hdr', AtEof)"
    by (rule read_byte_Cons [of src b hdr' AtEof]) (use assms(4) hdr in simp)
  have "fst (read_length 0 True k s1) = Failed UnexpectedEof" for k
  proof (cases hdr')
    case Nil
    with read_byte_flat [OF s1(2)] show ?thesis
      by (subst read_length.simps) (cases "read_byte s1"; auto)
  next
    case (Cons c' t)
    with m have c: "c' = c" "t = []" "more' = more"
      using assms(1,3) hdr by (cases t; cases more; auto elim: header_value.elims)+
    then have "c AND 0x80 \<noteq> 0"
      using assms(1,3) hdr Cons by (cases more) (auto simp: next_byte_def split: if_splits prod.splits elim: header_value.elims)
    moreover obtain s2 where s2: "read_byte s1 = (Done (Some c), s2)" "src_flat s2 = ([], AtEof)"
      by (rule read_byte_Cons [of s1 c "[]" AtEof]) (use s1 Cons c in simp)
    moreover have "fst (read_byte s2) = Done None" using read_byte_flat [OF s2(2)] by simp
    ultimately show ?thesis
      by (subst read_length.simps, subst read_length.simps) (cases "read_byte s2"; simp)
  qed
  then obtain s2 where "read_length 0 True (unat (b AND 0x3f)) s1 = (Failed UnexpectedEof, s2)"
    by (metis prod.collapse)
  then show ?thesis using s1(1) more by (subst read_data.simps) simp
qed

text \<open>
  A stream that ends between chunks ends cleanly; one that ends inside a chunk,
  in its length or in its data, is an error, never a short packet.
\<close>

theorem truncated_is_error:
  assumes "encode_data data = Ok w" and "k < length w" and "src_flat src = (take k w, AtEof)"
  shows "fst (read_data cap src) = (if k = 0 then Done None else Failed UnexpectedEof)"
proof -
  from assms(1) obtain h where h: "data_prefix (length data) = Ok h" and w: "w = h @ data"
    by (auto simp: encode_data_def elim: map_ok.elims)
  note hv = data_prefix_header [OF h]
  consider "k = 0" | "0 < k" "k < length h" | "0 < k" "length h \<le> k" by linarith
  then show ?thesis
  proof cases
    case 1
    with assms(3) read_byte_flat [of src "[]" AtEof] show ?thesis
      by (subst read_data.simps) (cases "read_byte src"; auto)
  next
    case 2
    with assms(3) w hv have "fst (read_data cap src) = Failed UnexpectedEof"
      by (intro read_header_short [of "take k h" "drop k h" True "length data"]) auto
    with 2 show ?thesis by simp
  next
    case 3
    with assms(2,3) w have flat: "src_flat src = (h @ take (k - length h) data, AtEof)" by simp
    obtain b s1 s2 where r: "read_byte src = (Done (Some b), s1)"
      "read_length 0 (b AND 0x40 \<noteq> 0) (unat (b AND 0x3f)) s1 = (Done (length data), s2)" "(b AND 0x80 \<noteq> 0) = True"
      "src_flat s2 = (take (k - length h) data, AtEof)"
      by (rule read_header [OF flat hv])
    have short: "length (take (k - length h) data) < length data" using 3 assms(2) w by simp
    let ?n = "min (length data) cap"
    show ?thesis
    proof (cases "?n \<le> length (take (k - length h) data)")
      case True
      with src.exact_enough [OF r(4)] obtain s3 where
        s3: "read_exact ?n s2 = (Done (take ?n (take (k - length h) data)), s3)"
          "src_flat s3 = (drop ?n (take (k - length h) data), AtEof)" by blast
      have "fst (discard (length data - ?n) s3) = end_result AtEof"
        by (rule discard_short [OF s3(2)]) (use short True in simp)
      with r s3 3 show ?thesis by (subst read_data.simps) (auto split: prod.splits)
    next
      case False
      then have "length (take (k - length h) data) < ?n" by linarith
      from src.exact_short [OF r(4) this] r 3 show ?thesis
        by (subst read_data.simps) (cases "read_exact ?n s2"; auto)
    qed
  qed
qed

theorem truncated_is_error_witness:
  "fst (read_data 9 [SrcData [0x82], SrcData [1], SrcEof]) = Failed UnexpectedEof"
proof -
  have "encode_data [1, 2] = Ok [0x82, 1, 2]" by (simp add: encode_data_def data_prefix_def)
  from truncated_is_error [OF this, of 2 "[SrcData [0x82], SrcData [1], SrcEof]" 9] show ?thesis by simp
qed

text \<open>
  Lengths are exact and bounded: padding of \<open>n\<close> bytes is \<open>n\<close> bytes on the wire, and a
  packet can be encoded just when it is shorter than a mebibyte, with at most three
  bytes of prefix.
\<close>

theorem encoded_lengths:
  "length (encode_padding n) = n \<and>
   (case encode_data data of
      Ok w \<Rightarrow> length data < 2 ^ 20 \<and> length w \<le> length data + 3
    | Err e \<Rightarrow> 2 ^ 20 \<le> length data \<and> e = InvalidInput
    | Panic \<Rightarrow> False)"
proof
  show "length (encode_padding n) = n"
  proof (induction n rule: less_induct)
    case (less n)
    show ?case
    proof (cases "n = 0")
      case False
      then obtain hdr k where "padding_chunk (min n 1024) = hdr @ replicate k 0" "length hdr + k = min n 1024"
        by (rule_tac padding_chunk_header [of "min n 1024"]) auto
      with less.IH [of "n - min n 1024"] False show ?thesis by (subst encode_padding.simps) simp
    qed (simp add: encode_padding.simps)
  qed
qed (auto simp: encode_data_def data_prefix_def div_eq_0_iff split: res.splits)

end
