(* ===== verification/Turbotunnel.thy ===== *)
theory Turbotunnel
  imports Prelude "HOL-Library.Sublist"
begin

text \<open>
  The packet connection that survives its carrier, from
  \<open>src/transports/snowflake/domain/turbotunnel.rs\<close>: two bounded queues, a latch with the first
  error, and the loop that dials a carrier, pumps packets until it fails, and dials
  again.  The tasks interleave at their waits; each rule of \<open>redial_step\<close> is what one
  of them does between two waits, labelled with what is seen from outside.
\<close>

definition TOKEN :: bytes where
  "TOKEN = [0x12, 0x93, 0x60, 0x5d, 0x27, 0x81, 0x75, 0xf5]"

definition QUEUE_SIZE :: nat where "QUEUE_SIZE = 512"

definition CARRIER_BUFFER :: nat where "CARRIER_BUFFER = 1500"

text \<open>Where \<open>dial_loop\<close> is: at its head, waiting for the dial, in \<open>exchange\<close>, or returned.\<close>

datatype dial_phase = LoopHead | Dialing | Exchanging | Stopped

record redial =
  rc_recv :: "bytes list"
  rc_send :: "bytes list"
  rc_closed :: bool
  rc_err :: "string option"
  rc_phase :: dial_phase
  rc_waiting :: bool

definition CLOSED_MSG :: string where "CLOSED_MSG = ''operation on closed connection''"

definition redial_new :: redial where
  "redial_new = \<lparr>rc_recv = [], rc_send = [], rc_closed = False, rc_err = None, rc_phase = LoopHead, rc_waiting = False\<rparr>"

definition close_with_error :: "string option \<Rightarrow> redial \<Rightarrow> bool \<times> redial" where
  "close_with_error err rc =
     (if rc_closed rc then (False, rc)
      else (True, rc\<lparr>rc_closed := True, rc_err := Some (case err of Some m \<Rightarrow> m | None \<Rightarrow> CLOSED_MSG)\<rparr>))"

definition redial_error :: "redial \<Rightarrow> string" where
  "redial_error rc = (case rc_err rc of Some m \<Rightarrow> m | None \<Rightarrow> CLOSED_MSG)"

definition redial_close :: "redial \<Rightarrow> redial" where
  "redial_close rc = snd (close_with_error None rc)"

text \<open>A channel's \<open>try_send\<close>: a full queue drops the packet.\<close>

definition try_send :: "bytes \<Rightarrow> bytes list \<Rightarrow> bytes list" where
  "try_send p q = (if length q < QUEUE_SIZE then q @ [p] else q)"

text \<open>\<open>send\<close>: an error once closed.\<close>

definition redial_send :: "bytes \<Rightarrow> redial \<Rightarrow> string option \<times> redial" where
  "redial_send pkt rc =
     (if rc_closed rc then (Some (redial_error rc), rc)
      else (None, rc\<lparr>rc_send := try_send pkt (rc_send rc)\<rparr>))"

text \<open>\<open>recv\<close>: the check at its start, and the branches of its \<open>select!\<close> that are ready.\<close>

definition recv_begin :: "redial \<Rightarrow> string option \<times> redial" where
  "recv_begin rc = (if rc_closed rc then (Some (redial_error rc), rc) else (None, rc\<lparr>rc_waiting := True\<rparr>))"

definition recv_select :: "nat \<Rightarrow> redial \<Rightarrow> ((string, bytes) sum \<times> redial) list" where
  "recv_select cap rc =
     (let rc' = rc\<lparr>rc_waiting := False\<rparr>
      in (if rc_closed rc then [(Inl (redial_error rc), rc')] else []) @
         (case rc_recv rc of
            p # q \<Rightarrow> [(Inr (take cap p), rc'\<lparr>rc_recv := q\<rparr>)]
          | [] \<Rightarrow> if rc_phase rc = Stopped then [(Inl (redial_error rc), rc')] else []))"

text \<open>The loop of \<open>dial_loop\<close>.\<close>

definition dial_start :: "redial \<Rightarrow> redial" where
  "dial_start rc = rc\<lparr>rc_phase := if rc_closed rc then Stopped else Dialing\<rparr>"

definition dial_done :: "(string, unit) sum \<Rightarrow> redial \<Rightarrow> redial" where
  "dial_done r rc =
     (case r of
        Inr _ \<Rightarrow> rc\<lparr>rc_phase := Exchanging\<rparr>
      | Inl e \<Rightarrow> (snd (close_with_error (Some e) rc))\<lparr>rc_phase := Stopped\<rparr>)"

text \<open>One packet from the carrier, read into the buffer.\<close>

definition exchange_recv :: "bytes \<Rightarrow> redial \<Rightarrow> redial" where
  "exchange_recv p rc = rc\<lparr>rc_recv := try_send (take CARRIER_BUFFER p) (rc_recv rc)\<rparr>"

text \<open>One packet to the carrier; when that fails the packet is gone and the exchange ends.\<close>

definition exchange_send :: "bool \<Rightarrow> redial \<Rightarrow> (bytes \<times> redial) option" where
  "exchange_send ok rc =
     (case rc_send rc of
        [] \<Rightarrow> None
      | p # q \<Rightarrow> Some (p, rc\<lparr>rc_send := q, rc_phase := if ok then Exchanging else LoopHead\<rparr>))"

datatype redial_event = Send bytes | SendErr string | Recv nat bytes | RecvErr string
  | Carried bytes bool | Arrived bytes | Silent

inductive redial_step :: "redial \<Rightarrow> redial_event \<Rightarrow> redial \<Rightarrow> bool" where
  app_send: "redial_send p rc = (None, rc') \<Longrightarrow> redial_step rc (Send p) rc'"
| app_send_err: "redial_send p rc = (Some e, rc') \<Longrightarrow> redial_step rc (SendErr e) rc'"
| app_recv: "\<not> rc_waiting rc \<Longrightarrow> recv_begin rc = (None, rc') \<Longrightarrow> redial_step rc Silent rc'"
| app_recv_err: "\<not> rc_waiting rc \<Longrightarrow> recv_begin rc = (Some e, rc') \<Longrightarrow> redial_step rc (RecvErr e) rc'"
| recv_got: "rc_waiting rc \<Longrightarrow> (Inr b, rc') \<in> set (recv_select cap rc) \<Longrightarrow> redial_step rc (Recv cap b) rc'"
| recv_failed: "rc_waiting rc \<Longrightarrow> (Inl e, rc') \<in> set (recv_select cap rc) \<Longrightarrow> redial_step rc (RecvErr e) rc'"
| app_close: "redial_step rc Silent (redial_close rc)"
| loop: "rc_phase rc = LoopHead \<Longrightarrow> redial_step rc Silent (dial_start rc)"
| dialed: "rc_phase rc = Dialing \<Longrightarrow> redial_step rc Silent (dial_done r rc)"
| dial_closed: "rc_phase rc = Dialing \<Longrightarrow> rc_closed rc \<Longrightarrow> redial_step rc Silent (rc\<lparr>rc_phase := Stopped\<rparr>)"
| from_carrier: "rc_phase rc = Exchanging \<Longrightarrow> redial_step rc (Arrived p) (exchange_recv p rc)"
| to_carrier: "rc_phase rc = Exchanging \<Longrightarrow> exchange_send ok rc = Some (p, rc') \<Longrightarrow>
    redial_step rc (Carried p ok) rc'"
| carrier_down: "rc_phase rc = Exchanging \<Longrightarrow> redial_step rc Silent (rc\<lparr>rc_phase := LoopHead\<rparr>)"

text \<open>\<open>carrier_down\<close> covers a failed \<open>recv\<close> of the carrier and the closed connection.\<close>

inductive redial_run :: "redial \<Rightarrow> redial_event list \<Rightarrow> redial \<Rightarrow> bool" where
  start: "redial_run rc [] rc"
| more: "redial_run rc evs rc' \<Longrightarrow> redial_step rc' ev rc'' \<Longrightarrow> redial_run rc (evs @ [ev]) rc''"

inductive_cases redial_stepE: "redial_step rc ev rc'"

definition sent :: "redial_event list \<Rightarrow> bytes list" where
  "sent evs = concat (map (\<lambda>ev. case ev of Send p \<Rightarrow> [p] | _ \<Rightarrow> []) evs)"

definition carried :: "redial_event list \<Rightarrow> bytes list" where
  "carried evs = concat (map (\<lambda>ev. case ev of Carried p _ \<Rightarrow> [p] | _ \<Rightarrow> []) evs)"

definition arrived :: "redial_event list \<Rightarrow> bytes list" where
  "arrived evs = concat (map (\<lambda>ev. case ev of Arrived p \<Rightarrow> [p] | _ \<Rightarrow> []) evs)"

definition got_packets :: "redial_event list \<Rightarrow> (nat \<times> bytes) list" where
  "got_packets evs = concat (map (\<lambda>ev. case ev of Recv cap b \<Rightarrow> [(cap, b)] | _ \<Rightarrow> []) evs)"

lemma seen_append [simp]:
  "sent (evs @ fs) = sent evs @ sent fs" "carried (evs @ fs) = carried evs @ carried fs"
  "arrived (evs @ fs) = arrived evs @ arrived fs" "got_packets (evs @ fs) = got_packets evs @ got_packets fs"
  by (simp_all add: sent_def carried_def arrived_def got_packets_def)

lemma seen_single [simp]:
  "sent [Send p] = [p]" "sent [SendErr e] = []" "sent [Recv c b] = []" "sent [RecvErr e] = []"
  "sent [Carried p ok] = []" "sent [Arrived p] = []" "sent [Silent] = []"
  "carried [Send p] = []" "carried [SendErr e] = []" "carried [Recv c b] = []" "carried [RecvErr e] = []"
  "carried [Carried p ok] = [p]" "carried [Arrived p] = []" "carried [Silent] = []"
  "arrived [Send p] = []" "arrived [SendErr e] = []" "arrived [Recv c b] = []" "arrived [RecvErr e] = []"
  "arrived [Carried p ok] = []" "arrived [Arrived p] = [p]" "arrived [Silent] = []"
  "got_packets [Send p] = []" "got_packets [SendErr e] = []" "got_packets [Recv c b] = [(c, b)]" "got_packets [RecvErr e] = []"
  "got_packets [Carried p ok] = []" "got_packets [Arrived p] = []" "got_packets [Silent] = []"
  by (simp_all add: sent_def carried_def arrived_def got_packets_def)

lemma seen_nil [simp]: "sent [] = []" "carried [] = []" "arrived [] = []" "got_packets [] = []"
  by (simp_all add: sent_def carried_def arrived_def got_packets_def)

section \<open>The invariant\<close>

text \<open>The packets as they arrived whose beginnings \<open>recv\<close> returned, and then those queued.\<close>

definition cut_from :: "redial_event list \<Rightarrow> bytes list \<Rightarrow> bool" where
  "cut_from evs q \<longleftrightarrow>
     (\<exists>src. map snd (got_packets evs) = map2 take (map fst (got_packets evs)) src \<and> length src = length (got_packets evs) \<and>
        subseq (src @ q) (map (take CARRIER_BUFFER) (arrived evs)))"

text \<open>What is queued continues what went out, in order.\<close>

definition redial_inv :: "redial_event list \<Rightarrow> redial \<Rightarrow> bool" where
  "redial_inv evs rc \<longleftrightarrow>
     subseq (carried evs @ rc_send rc) (sent evs) \<and> length (rc_send rc) \<le> QUEUE_SIZE \<and>
     length (rc_recv rc) \<le> QUEUE_SIZE \<and> cut_from evs (rc_recv rc) \<and>
     (rc_closed rc \<longleftrightarrow> rc_err rc \<noteq> None) \<and> (rc_phase rc = Stopped \<longrightarrow> rc_closed rc)"

lemma try_send_cases: "try_send p q = q @ [p] \<and> length q < QUEUE_SIZE \<or> try_send p q = q"
  by (simp add: try_send_def)

lemma try_send_length: "length q \<le> QUEUE_SIZE \<Longrightarrow> length (try_send p q) \<le> QUEUE_SIZE"
  by (simp add: try_send_def)

lemma subseq_try_send:
  assumes "subseq (xs @ q) ys"
  shows "subseq (xs @ try_send p q) (ys @ [p])"
  using try_send_cases [of p q]
proof
  assume "try_send p q = q @ [p] \<and> length q < QUEUE_SIZE"
  with list_emb_append_mono [OF assms, of "[p]" "[p]"] show ?thesis by simp
next
  assume "try_send p q = q"
  with subseq_rev_drop_many [OF assms, of "[p]"] show ?thesis by simp
qed

lemma cut_from_same [simp]:
  "cut_from (evs @ [Send p]) q = cut_from evs q" "cut_from (evs @ [SendErr e]) q = cut_from evs q"
  "cut_from (evs @ [RecvErr e]) q = cut_from evs q" "cut_from (evs @ [Carried p ok]) q = cut_from evs q"
  "cut_from (evs @ [Silent]) q = cut_from evs q"
  by (simp_all add: cut_from_def)

lemma cut_from_recv:
  assumes "cut_from evs (p # q)"
  shows "cut_from (evs @ [Recv cap (take cap p)]) q"
proof -
  from assms obtain s where "map snd (got_packets evs) = map2 take (map fst (got_packets evs)) s"
      "length s = length (got_packets evs)" "subseq (s @ p # q) (map (take CARRIER_BUFFER) (arrived evs))"
    unfolding cut_from_def by blast
  then show ?thesis unfolding cut_from_def by (intro exI [of _ "s @ [p]"]) simp
qed

lemma cut_from_arrived:
  assumes "cut_from evs q"
  shows "cut_from (evs @ [Arrived p]) (try_send (take CARRIER_BUFFER p) q)"
proof -
  from assms obtain s where "map snd (got_packets evs) = map2 take (map fst (got_packets evs)) s"
      "length s = length (got_packets evs)" "subseq (s @ q) (map (take CARRIER_BUFFER) (arrived evs))"
    unfolding cut_from_def by blast
  with subseq_try_send [OF this(3)] show ?thesis unfolding cut_from_def by (intro exI [of _ s]) simp
qed

lemma redial_inv_step:
  assumes "redial_step rc ev rc'" and "redial_inv evs rc"
  shows "redial_inv (evs @ [ev]) rc'"
  using assms
proof cases
  case (app_send p)
  with assms(2) show ?thesis
    by (auto simp: redial_inv_def redial_send_def try_send_length intro: subseq_try_send split: if_splits)
next
  case (recv_got b cap)
  then obtain p q where p: "rc_recv rc = p # q" "b = take cap p" "rc' = rc\<lparr>rc_waiting := False, rc_recv := q\<rparr>"
    by (auto simp: recv_select_def Let_def split: list.splits if_splits)
  with assms(2) recv_got(1) cut_from_recv [of evs p q cap] show ?thesis by (auto simp: redial_inv_def)
next
  case (from_carrier p)
  with assms(2) cut_from_arrived [of evs "rc_recv rc" p] show ?thesis
    by (auto simp: redial_inv_def exchange_recv_def try_send_length)
next
  case (to_carrier ok p)
  with assms(2) show ?thesis by (auto simp: redial_inv_def exchange_send_def split: list.splits if_splits)
next
  case (dialed r)
  with assms(2) show ?thesis
    by (cases r) (auto simp: redial_inv_def dial_done_def close_with_error_def split: option.splits)
next
  case (loop)
  with assms(2) show ?thesis by (auto simp: redial_inv_def dial_start_def)
qed (use assms(2) in \<open>auto simp: redial_inv_def redial_send_def recv_begin_def recv_select_def redial_close_def
      close_with_error_def Let_def split: if_splits list.splits\<close>)

lemma redial_run_inv: "redial_run rc evs rc' \<Longrightarrow> redial_inv [] rc \<Longrightarrow> redial_inv evs rc'"
  by (induction rule: redial_run.induct) (auto intro: redial_inv_step)

lemma redial_new_inv: "redial_inv [] redial_new"
  by (simp add: redial_inv_def redial_new_def cut_from_def)

text \<open>
  C20: packets may be dropped but are never reordered, repeated or made up, across any
  number of carriers: what the carriers were handed is a subsequence of what was
  sent, what the caller got_packets (cut to its buffers) of what arrived, and neither
  queue grows beyond its bound.
\<close>

theorem redial_keeps_order:
  assumes "redial_run redial_new evs rc"
  shows "subseq (carried evs) (sent evs) \<and> length (rc_send rc) \<le> 512 \<and> length (rc_recv rc) \<le> 512 \<and>
    (\<exists>src. map snd (got_packets evs) = map2 take (map fst (got_packets evs)) src \<and>
       subseq src (map (take 1500) (arrived evs)))"
proof -
  have inv: "redial_inv evs rc" by (rule redial_run_inv [OF assms redial_new_inv])
  have "subseq xs zs" if "subseq (xs @ ys) zs" for xs ys zs :: "bytes list"
    using that by (metis subseq_order.order_trans subseq_rev_drop_many subseq_order.order_refl)
  then show ?thesis
    using inv unfolding redial_inv_def cut_from_def QUEUE_SIZE_def CARRIER_BUFFER_def by blast
qed

lemma redial_run_snoc: "redial_run rc evs rc1 \<Longrightarrow> redial_step rc1 ev rc2 \<Longrightarrow> evs' = evs @ [ev] \<Longrightarrow> redial_run rc evs' rc2"
  by (simp add: redial_run.more)

definition exchanging :: "bytes list \<Rightarrow> redial" where
  "exchanging q = redial_new\<lparr>rc_send := q, rc_phase := Exchanging\<rparr>"

lemma exchanging_run: "redial_run redial_new [Send [7], Silent, Silent, Carried [7] False] (exchanging []\<lparr>rc_phase := LoopHead\<rparr>)"
proof -
  let ?r1 = "redial_new\<lparr>rc_send := [[7]]\<rparr>"
  have "redial_run redial_new [Send [7]] ?r1"
    by (rule redial_run_snoc [OF redial_run.start], rule redial_step.app_send)
      (auto simp: redial_send_def redial_new_def try_send_def QUEUE_SIZE_def)
  then have "redial_run redial_new [Send [7], Silent] (dial_start ?r1)"
    by (rule redial_run_snoc [OF _ redial_step.loop]) (simp_all add: redial_new_def)
  then have "redial_run redial_new [Send [7], Silent, Silent] (dial_done (Inr ()) (dial_start ?r1))"
    by (rule redial_run_snoc [OF _ redial_step.dialed]) (simp_all add: redial_new_def dial_start_def)
  then show ?thesis
    by (rule redial_run_snoc [OF _ redial_step.to_carrier [where ok = False and p = "[7]"]])
      (simp_all add: redial_new_def dial_start_def dial_done_def exchange_send_def exchanging_def)
qed

theorem redial_keeps_order_witness:
  "subseq (carried [Send [7], Silent, Silent, Carried [7] False]) [[7]] \<and>
   carried [Send [7], Silent, Silent, Carried [7] False] = [[7]]"
  using redial_keeps_order [OF exchanging_run] by (simp add: carried_def sent_def)

text \<open>
  Closing is for good, and the first error is the one that is reported.  After a
  connection is closed no packet is accepted, whatever happens later, and every
  failing call carries the error it was closed with.
\<close>

theorem redial_stays_closed:
  assumes "redial_run rc evs rc'" and "rc_closed rc"
  shows "rc_closed rc' \<and> redial_error rc' = redial_error rc \<and> sent evs = [] \<and>
    set evs \<inter> {SendErr e | e. e \<noteq> redial_error rc} = {} \<and> set evs \<inter> {RecvErr e | e. e \<noteq> redial_error rc} = {}"
  using assms
proof (induction rule: redial_run.induct)
  case (more rc evs rc1 ev rc2)
  then have closed: "rc_closed rc1" "redial_error rc1 = redial_error rc" by simp_all
  have "rc_closed rc2 \<and> redial_error rc2 = redial_error rc1 \<and> sent [ev] = [] \<and>
      (\<forall>e. ev = SendErr e \<or> ev = RecvErr e \<longrightarrow> e = redial_error rc1)"
    using more.hyps(2) closed(1)
    by cases (auto simp: redial_send_def recv_begin_def recv_select_def redial_close_def close_with_error_def
        dial_start_def dial_done_def exchange_recv_def exchange_send_def redial_error_def Let_def
        split: list.splits if_splits sum.splits)
  with closed more.IH more.prems show ?case by auto
qed simp

theorem redial_stays_closed_witness:
  "redial_error (redial_close (redial_close redial_new)) = CLOSED_MSG"
proof -
  have "redial_run (redial_close redial_new) ([] @ [Silent]) (redial_close (redial_close redial_new))"
    by (rule redial_run.more [OF redial_run.start redial_step.app_close])
  from redial_stays_closed [OF this] show ?thesis
    by (simp add: redial_close_def close_with_error_def redial_new_def redial_error_def)
qed

end
