(* ===== verification/Smux.thy ===== *)
theory Smux
  imports ByteSource
begin

text \<open>
  Stream multiplexing over a reliable byte stream, from
  \<open>src/transports/snowflake/domain/smux.rs\<close>: frames, the priority queue of the writer task,
  the reader task with its receive budget, and streams with the flow control of
  version 2.  A session's tasks and callers interleave at their waits: every
  definition here is what one of them does between two waits, a wait itself is the
  list of the \<open>select!\<close> branches that are ready.  \<open>StreamInner\<close> objects live at
  addresses (\<open>se_objs\<close>), the stream table maps ids to addresses.
\<close>

section \<open>Configuration\<close>

definition CMD_SYN :: u8 where "CMD_SYN = 0"
definition CMD_FIN :: u8 where "CMD_FIN = 1"
definition CMD_PSH :: u8 where "CMD_PSH = 2"
definition CMD_NOP :: u8 where "CMD_NOP = 3"
definition CMD_UPD :: u8 where "CMD_UPD = 4"
definition HEADER_SIZE :: nat where "HEADER_SIZE = 8"
definition UPD_SIZE :: nat where "UPD_SIZE = 8"
definition INITIAL_PEER_WINDOW :: u32 where "INITIAL_PEER_WINDOW = 262144"
definition ACCEPT_BACKLOG :: nat where "ACCEPT_BACKLOG = 1024"

lemmas smux_consts = CMD_SYN_def CMD_FIN_def CMD_PSH_def CMD_NOP_def CMD_UPD_def HEADER_SIZE_def UPD_SIZE_def
  INITIAL_PEER_WINDOW_def ACCEPT_BACKLOG_def

text \<open>Durations are in nanoseconds.\<close>

record config =
  cf_version :: u8
  cf_keepalive_disabled :: bool
  cf_keepalive_interval :: nat
  cf_keepalive_timeout :: nat
  cf_max_frame_size :: nat
  cf_max_receive_buffer :: nat
  cf_max_stream_buffer :: nat

definition config_default :: config where
  "config_default = \<lparr>cf_version = 1, cf_keepalive_disabled = False, cf_keepalive_interval = 10 * 10 ^ 9,
     cf_keepalive_timeout = 30 * 10 ^ 9, cf_max_frame_size = 32768, cf_max_receive_buffer = 4194304,
     cf_max_stream_buffer = 65536\<rparr>"

datatype config_error = BadVersion | ZeroInterval | ShortTimeout | BadFrameSize | ZeroBuffer
  | StreamOverReceive | StreamOver31

definition config_verify :: "config \<Rightarrow> config_error option" where
  "config_verify c =
     (if \<not> (cf_version c = 1 \<or> cf_version c = 2) then Some BadVersion
      else if \<not> cf_keepalive_disabled c \<and> cf_keepalive_interval c = 0 then Some ZeroInterval
      else if \<not> cf_keepalive_disabled c \<and> cf_keepalive_timeout c < cf_keepalive_interval c then Some ShortTimeout
      else if cf_max_frame_size c = 0 \<or> 65535 < cf_max_frame_size c then Some BadFrameSize
      else if cf_max_receive_buffer c = 0 \<or> cf_max_stream_buffer c = 0 then Some ZeroBuffer
      else if cf_max_receive_buffer c < cf_max_stream_buffer c then Some StreamOverReceive
      else if 2 ^ 31 - 1 < cf_max_stream_buffer c then Some StreamOver31
      else None)"

section \<open>Requests and their order\<close>

datatype smux_error = BrokenPipe | StreamEof | TimedOut | InvalidProtocol | OverConsumed | IdOverflow
  | ConnFailed io_kind

text \<open>\<open>ErrLatch::set\<close> keeps the first error.\<close>

definition latch_error :: "smux_error \<Rightarrow> smux_error option \<Rightarrow> smux_error option" where
  "latch_error e slot = (case slot of None \<Rightarrow> Some e | Some e' \<Rightarrow> Some e')"

datatype frame_class = Ctrl | Data

record request =
  rq_class :: frame_class
  rq_seq :: u32
  rq_ver :: u8
  rq_cmd :: u8
  rq_sid :: u32
  rq_data :: bytes

datatype ordering = Less | Equal | Greater

definition compare_int :: "int \<Rightarrow> int \<Rightarrow> ordering" where
  "compare_int a b = (if a < b then Less else if a = b then Equal else Greater)"

definition class_rank :: "frame_class \<Rightarrow> int" where
  "class_rank c = (case c of Ctrl \<Rightarrow> 0 | Data \<Rightarrow> 1)"

text \<open>\<open>WriteRequest::cmp\<close>: control before data, then the lower sequence number.\<close>

definition request_cmp :: "request \<Rightarrow> request \<Rightarrow> ordering" where
  "request_cmp r q =
     (case compare_int (class_rank (rq_class q)) (class_rank (rq_class r)) of
        Equal \<Rightarrow> compare_int (sint (rq_seq q - rq_seq r)) 0
      | x \<Rightarrow> x)"

text \<open>\<open>BinaryHeap::pop\<close> returns a greatest element.  The heap is the list of its elements.\<close>

fun heap_max :: "request \<Rightarrow> request list \<Rightarrow> request" where
  "heap_max m [] = m"
| "heap_max m (r # rs) = heap_max (if request_cmp r m = Greater then r else m) rs"

definition heap_pop :: "request list \<Rightarrow> (request \<times> request list) option" where
  "heap_pop h = (case h of [] \<Rightarrow> None | r # rs \<Rightarrow> let m = heap_max r rs in Some (m, remove1 m h))"

definition frame_header :: "request \<Rightarrow> bytes" where
  "frame_header r = rq_ver r # rq_cmd r # u16_le (word_of_nat (length (rq_data r))) @ u32_le (rq_sid r)"

section \<open>Sessions\<close>

text \<open>\<open>sm_read_event\<close> and \<open>sm_update\<close> are the permits of the two \<open>Notify\<close>s.\<close>

record stream =
  sm_id :: u32
  sm_frame_size :: nat
  sm_buffers :: "bytes list"
  sm_num_read :: u32
  sm_incr :: u32
  sm_read_event :: bool
  sm_die :: bool
  sm_fin :: bool
  sm_num_written :: u32
  sm_peer_consumed :: u32
  sm_peer_window :: u32
  sm_update :: bool

definition stream_new :: "u32 \<Rightarrow> nat \<Rightarrow> stream" where
  "stream_new sid frame_size = \<lparr>sm_id = sid, sm_frame_size = frame_size, sm_buffers = [], sm_num_read = 0,
     sm_incr = 0, sm_read_event = False, sm_die = False, sm_fin = False, sm_num_written = 0,
     sm_peer_consumed = 0, sm_peer_window = INITIAL_PEER_WINDOW, sm_update = False\<rparr>"

definition buffered :: "stream \<Rightarrow> nat" where "buffered st = length (concat (sm_buffers st))"

definition recycle_tokens :: "stream \<Rightarrow> nat \<times> stream" where
  "recycle_tokens st = (buffered st, st\<lparr>sm_buffers := []\<rparr>)"

text \<open>
  \<open>se_writes\<close> is the channel to the writer task and \<open>se_heap\<close> its heap, \<open>se_results\<close> the
  answers to requests, \<open>se_log\<close> the frames written; \<open>se_source\<close> is what will arrive,
  \<open>se_header\<close> a header read whose frame is not handled yet, \<open>se_accepting\<close> a new stream
  waiting for room in the backlog.  \<open>se_send_done\<close> and \<open>se_recv_done\<close>: the task returned.
\<close>

record mux_session =
  se_config :: config
  se_next_id :: "u32 \<times> bool"
  se_bucket :: u32
  se_bucket_notify :: bool
  se_streams :: "u32 \<Rightarrow> nat option"
  se_objs :: "stream list"
  se_die :: bool
  se_read_error :: "smux_error option"
  se_write_error :: "smux_error option"
  se_proto_error :: "smux_error option"
  se_accepts :: "nat list"
  se_accepting :: "nat option"
  se_data_ready :: bool
  se_request_id :: u32
  se_writes :: "request list"
  se_heap :: "request list"
  se_results :: "u32 \<Rightarrow> (nat, smux_error) res option"
  se_log :: "request list"
  se_source :: source
  se_header :: "bytes option"
  se_conn_closed :: bool
  se_send_done :: bool
  se_recv_done :: bool

definition mux_new :: "source \<Rightarrow> config \<Rightarrow> bool \<Rightarrow> (mux_session, config_error) res" where
  "mux_new src config client =
     (case config_verify config of
        Some e \<Rightarrow> Err e
      | None \<Rightarrow> Ok \<lparr>se_config = config, se_next_id = (if client then 1 else 0, False),
          se_bucket = word_of_nat (cf_max_receive_buffer config), se_bucket_notify = False,
          se_streams = Map.empty, se_objs = [], se_die = False, se_read_error = None, se_write_error = None,
          se_proto_error = None, se_accepts = [], se_accepting = None, se_data_ready = False,
          se_request_id = 0, se_writes = [], se_heap = [], se_results = Map.empty, se_log = [],
          se_source = src, se_header = None, se_conn_closed = False, se_send_done = False, se_recv_done = False\<rparr>)"

abbreviation obj :: "mux_session \<Rightarrow> nat \<Rightarrow> stream" where "obj s a \<equiv> se_objs s ! a"

definition set_obj :: "nat \<Rightarrow> stream \<Rightarrow> mux_session \<Rightarrow> mux_session" where
  "set_obj a st s = s\<lparr>se_objs := (se_objs s)[a := st]\<rparr>"

definition add_obj :: "stream \<Rightarrow> mux_session \<Rightarrow> mux_session" where
  "add_obj st s = s\<lparr>se_objs := se_objs s @ [st], se_streams := (se_streams s)(sm_id st \<mapsto> length (se_objs s))\<rparr>"

definition return_tokens :: "nat \<Rightarrow> mux_session \<Rightarrow> mux_session" where
  "return_tokens n s =
     (let b = se_bucket s + word_of_nat n
      in s\<lparr>se_bucket := b, se_bucket_notify := se_bucket_notify s \<or> 0 < sint b\<rparr>)"

text \<open>\<open>stream_closed\<close>: whatever the table holds under the id is removed and drained.\<close>

definition stream_closed :: "u32 \<Rightarrow> mux_session \<Rightarrow> mux_session" where
  "stream_closed sid s =
     (case se_streams s sid of
        None \<Rightarrow> s
      | Some a \<Rightarrow>
          let (n, st) = recycle_tokens (obj s a);
              s = set_obj a st (s\<lparr>se_streams := (se_streams s)(sid := None)\<rparr>)
          in if 0 < n then return_tokens n s else s)"

text \<open>A stream is in the table under its own id.\<close>

definition close_session :: "mux_session \<Rightarrow> mux_session" where
  "close_session s =
     (if se_die s then s
      else s\<lparr>se_die := True, se_conn_closed := True,
             se_objs := map (\<lambda>(a, st). if se_streams s (sm_id st) = Some a
                                      then st\<lparr>sm_die := True, sm_read_event := True\<rparr> else st)
               (zip [0..<length (se_objs s)] (se_objs s))\<rparr>)"

section \<open>Writing frames\<close>

text \<open>\<open>write_frame\<close> up to its wait: the request is queued under the next number.\<close>

definition write_start :: "frame_class \<Rightarrow> u8 \<Rightarrow> u32 \<Rightarrow> bytes \<Rightarrow> mux_session \<Rightarrow> (u32, smux_error) res \<times> mux_session" where
  "write_start class cmd sid data s =
     (let seq = se_request_id s + 1;
          s = s\<lparr>se_request_id := seq\<rparr>;
          req = \<lparr>rq_class = class, rq_seq = seq, rq_ver = cf_version (se_config s), rq_cmd = cmd, rq_sid = sid,
                 rq_data = data\<rparr>
      in if se_die s then (Err BrokenPipe, s)
         else case se_write_error s of
           Some e \<Rightarrow> (Err e, s)
         | None \<Rightarrow>
             if se_send_done s then (Err BrokenPipe, s)
             else (Ok seq, s\<lparr>se_writes := se_writes s @ [req]\<rparr>))"

text \<open>The branches of its wait that are ready; a timeout may fire instead.\<close>

definition write_wait :: "u32 \<Rightarrow> mux_session \<Rightarrow> (nat, smux_error) res list" where
  "write_wait seq s =
     (case se_results s seq of Some r \<Rightarrow> [r] | None \<Rightarrow> []) @
     (if se_die s then [Err BrokenPipe] else []) @
     (case se_write_error s of Some e \<Rightarrow> [Err e] | None \<Rightarrow> [])"

text \<open>One round of \<open>send_loop\<close>: everything queued goes to the heap, its top to the wire;
  \<open>fail\<close> is the error of the write.  \<open>None\<close>: nothing to send, or the task has returned.\<close>

definition send_round :: "io_kind option \<Rightarrow> mux_session \<Rightarrow> (request \<times> mux_session) option" where
  "send_round fail s =
     (if se_send_done s then None
      else case heap_pop (se_heap s @ se_writes s) of
        None \<Rightarrow> None
      | Some (req, h) \<Rightarrow>
          let s = s\<lparr>se_heap := h, se_writes := []\<rparr>
          in Some (req, case fail of
               None \<Rightarrow> s\<lparr>se_log := se_log s @ [req],
                         se_results := (se_results s)(rq_seq req \<mapsto> Ok (length (rq_data req)))\<rparr>
             | Some e \<Rightarrow> s\<lparr>se_write_error := latch_error (ConnFailed e) (se_write_error s), se_send_done := True,
                           se_results := (se_results s)(rq_seq req \<mapsto> Err (ConnFailed e))\<rparr>))"

section \<open>Opening and accepting streams\<close>

definition next_stream_id :: "u32 \<times> bool \<Rightarrow> u32 option \<times> u32 \<times> bool" where
  "next_stream_id next =
     (if snd next then (None, next)
      else let n = fst next + 2 in if n = n mod 2 then (None, n, True) else (Some n, n, False))"

definition open_start :: "mux_session \<Rightarrow> (u32 \<times> u32, smux_error) res \<times> mux_session" where
  "open_start s =
     (if se_die s then (Err BrokenPipe, s)
      else case next_stream_id (se_next_id s) of
        (None, next) \<Rightarrow> (Err IdOverflow, s\<lparr>se_next_id := next\<rparr>)
      | (Some sid, next) \<Rightarrow>
          (case write_start Ctrl CMD_SYN sid [] (s\<lparr>se_next_id := next\<rparr>) of
             (Ok seq, s) \<Rightarrow> (Ok (sid, seq), s)
           | (Err e, s) \<Rightarrow> (Err e, s)
           | (Panic, s) \<Rightarrow> (Panic, s)))"

text \<open>The rest of \<open>open_stream\<close>, once the frame's result is known: the new address.\<close>

definition open_finish :: "u32 \<Rightarrow> (nat, smux_error) res \<Rightarrow> mux_session \<Rightarrow> (nat, smux_error) res \<times> mux_session" where
  "open_finish sid r s =
     (case r of
        Err e \<Rightarrow> (Err e, s)
      | Panic \<Rightarrow> (Panic, s)
      | Ok _ \<Rightarrow>
          (case se_read_error s of Some e \<Rightarrow> (Err e, s)
           | None \<Rightarrow>
               (case se_write_error s of Some e \<Rightarrow> (Err e, s)
                | None \<Rightarrow>
                    if se_die s then (Err BrokenPipe, s)
                    else (Ok (length (se_objs s)),
                          add_obj (stream_new sid (cf_max_frame_size (se_config s))) s))))"

text \<open>The ready branches of \<open>accept_stream\<close>; a stream that waits for room moves up.\<close>

definition accept_ready :: "mux_session \<Rightarrow> ((nat, smux_error) res \<times> mux_session) list" where
  "accept_ready s =
     (case se_accepts s of
        a # q \<Rightarrow> [(Ok a, case se_accepting s of
                       None \<Rightarrow> s\<lparr>se_accepts := q\<rparr>
                     | Some b \<Rightarrow> s\<lparr>se_accepts := q @ [b], se_accepting := None\<rparr>)]
      | [] \<Rightarrow> []) @
     (case se_read_error s of Some e \<Rightarrow> [(Err e, s)] | None \<Rightarrow> []) @
     (case se_proto_error s of Some e \<Rightarrow> [(Err e, s)] | None \<Rightarrow> []) @
     (if se_die s then [(Err BrokenPipe, s)] else [])"

section \<open>Receiving frames\<close>

definition update_stream :: "u32 \<Rightarrow> (stream \<Rightarrow> stream) \<Rightarrow> mux_session \<Rightarrow> mux_session" where
  "update_stream sid f s =
     (case se_streams s sid of None \<Rightarrow> s | Some a \<Rightarrow> set_obj a (f (obj s a)) s)"

definition recv_fail :: "io_kind \<Rightarrow> mux_session \<Rightarrow> mux_session" where
  "recv_fail e s = s\<lparr>se_read_error := latch_error (ConnFailed e) (se_read_error s), se_recv_done := True\<rparr>"

definition proto_fail :: "mux_session \<Rightarrow> mux_session" where
  "proto_fail s = s\<lparr>se_proto_error := latch_error InvalidProtocol (se_proto_error s), se_recv_done := True\<rparr>"

text \<open>The wait for tokens and the header; \<open>None\<close>: \<open>recv_loop\<close> is waiting or has returned.\<close>

definition recv_header :: "mux_session \<Rightarrow> mux_session option" where
  "recv_header s =
     (if se_recv_done s \<or> se_header s \<noteq> None \<or> se_accepting s \<noteq> None \<or> (sint (se_bucket s) \<le> 0 \<and> \<not> se_die s)
      then None
      else case read_exact HEADER_SIZE (se_source s) of
        (Pending, _) \<Rightarrow> None
      | (Failed e, src) \<Rightarrow> Some (recv_fail e (s\<lparr>se_source := src\<rparr>))
      | (Done hdr, src) \<Rightarrow>
          let s = s\<lparr>se_source := src, se_data_ready := True\<rparr>
          in Some (if hdr ! 0 \<noteq> cf_version (se_config s) then proto_fail s else s\<lparr>se_header := Some hdr\<rparr>))"

definition recv_syn :: "u32 \<Rightarrow> mux_session \<Rightarrow> mux_session" where
  "recv_syn sid s =
     (case se_streams s sid of
        Some _ \<Rightarrow> s
      | None \<Rightarrow>
          let a = length (se_objs s);
              s = add_obj (stream_new sid (cf_max_frame_size (se_config s))) s
          in if length (se_accepts s) < ACCEPT_BACKLOG then s\<lparr>se_accepts := se_accepts s @ [a]\<rparr>
             else s\<lparr>se_accepting := Some a\<rparr>)"

definition recv_push :: "u32 \<Rightarrow> bytes \<Rightarrow> mux_session \<Rightarrow> mux_session" where
  "recv_push sid buf s =
     (case se_streams s sid of
        None \<Rightarrow> s
      | Some a \<Rightarrow>
          (set_obj a ((obj s a)\<lparr>sm_buffers := sm_buffers (obj s a) @ [buf], sm_read_event := True\<rparr>) s)
            \<lparr>se_bucket := se_bucket s - word_of_nat (length buf)\<rparr>)"

text \<open>The \<open>match\<close> on the command, with the header read; \<open>None\<close>: its body has not arrived.\<close>

definition recv_body :: "mux_session \<Rightarrow> mux_session option" where
  "recv_body s =
     (case se_header s of
        None \<Rightarrow> None
      | Some hdr \<Rightarrow>
          let cmd = hdr ! 1; len = nat_of_le (slice 2 4 hdr);
              sid = word_of_nat (nat_of_le (slice 4 8 hdr)) :: u32;
              s = s\<lparr>se_header := None\<rparr>
          in if cmd = CMD_NOP then Some s
             else if cmd = CMD_SYN then Some (recv_syn sid s)
             else if cmd = CMD_FIN
             then Some (update_stream sid (\<lambda>st. st\<lparr>sm_fin := True, sm_read_event := True\<rparr>) s)
             else if cmd = CMD_PSH then
               (if len = 0 then Some s
                else case read_exact len (se_source s) of
                  (Pending, _) \<Rightarrow> None
                | (Failed e, src) \<Rightarrow> Some (recv_fail e (s\<lparr>se_source := src\<rparr>))
                | (Done buf, src) \<Rightarrow> Some (recv_push sid buf (s\<lparr>se_source := src\<rparr>)))
             else if cmd = CMD_UPD then
               (case read_exact UPD_SIZE (se_source s) of
                  (Pending, _) \<Rightarrow> None
                | (Failed e, src) \<Rightarrow> Some (recv_fail e (s\<lparr>se_source := src\<rparr>))
                | (Done upd, src) \<Rightarrow>
                    Some (update_stream sid (\<lambda>st. st\<lparr>sm_peer_consumed := word_of_nat (nat_of_le (take 4 upd)),
                        sm_peer_window := word_of_nat (nat_of_le (drop 4 upd)), sm_update := True\<rparr>)
                      (s\<lparr>se_source := src\<rparr>)))
             else Some (proto_fail s))"

text \<open>\<open>keepalive\<close>: a ping, and the check of its timeout.\<close>

definition keepalive_ping :: "mux_session \<Rightarrow> (u32, smux_error) res \<times> mux_session" where
  "keepalive_ping s = write_start Ctrl CMD_NOP 0 [] (s\<lparr>se_bucket_notify := True\<rparr>)"

definition keepalive_check :: "mux_session \<Rightarrow> mux_session" where
  "keepalive_check s =
     (let ready = se_data_ready s; s = s\<lparr>se_data_ready := False\<rparr>
      in if \<not> ready \<and> 0 < sint (se_bucket s) then close_session s else s)"

section \<open>Reading from a stream\<close>

datatype try_result = ReadData bytes | WouldBlock | ReadEof

text \<open>The result, and the number of bytes to report to the peer.\<close>

definition count_read :: "mux_session \<Rightarrow> nat \<Rightarrow> stream \<Rightarrow> u32 option \<times> stream" where
  "count_read s n st =
     (if cf_version (se_config s) \<noteq> 2 then (None, st)
      else
        let nr = sm_num_read st + word_of_nat n; inc = sm_incr st + word_of_nat n
        in if word_of_nat (cf_max_stream_buffer (se_config s) div 2) \<le> inc \<or> nr = word_of_nat n
           then (Some nr, st\<lparr>sm_num_read := nr, sm_incr := 0\<rparr>)
           else (None, st\<lparr>sm_num_read := nr, sm_incr := inc\<rparr>))"

definition take_buffer :: "nat \<Rightarrow> stream \<Rightarrow> bytes \<times> stream" where
  "take_buffer cap st =
     (case sm_buffers st of
        [] \<Rightarrow> ([], st)
      | front # rest \<Rightarrow>
          (take cap front, st\<lparr>sm_buffers := if drop cap front = [] then rest else drop cap front # rest\<rparr>))"

definition try_read :: "nat \<Rightarrow> nat \<Rightarrow> mux_session \<Rightarrow> (try_result \<times> u32 option) \<times> mux_session" where
  "try_read cap a s =
     (let (bs, st) = take_buffer cap (obj s a);
          (notify, st) = count_read s (length bs) st;
          s = set_obj a st s
      in if bs \<noteq> [] then
           ((ReadData bs, case notify of Some c \<Rightarrow> if 0 < c then Some c else None | None \<Rightarrow> None),
            return_tokens (length bs) s)
         else if sm_die st then ((ReadEof, None), s)
         else ((WouldBlock, None), s))"

text \<open>The ready branches of \<open>wait_read\<close>.\<close>

definition wait_read :: "nat \<Rightarrow> mux_session \<Rightarrow> ((unit, smux_error) res \<times> mux_session) list" where
  "wait_read a s =
     (let st = obj s a
      in (if sm_read_event st then [(Ok (), set_obj a (st\<lparr>sm_read_event := False\<rparr>) s)] else []) @
         (if sm_fin st then [(if sm_buffers st = [] then Err StreamEof else Ok (), s)] else []) @
         (case se_read_error s of Some e \<Rightarrow> [(Err e, s)] | None \<Rightarrow> []) @
         (case se_proto_error s of Some e \<Rightarrow> [(Err e, s)] | None \<Rightarrow> []) @
         (if sm_die st then [(Err BrokenPipe, s)] else []))"

definition send_window_update :: "nat \<Rightarrow> u32 \<Rightarrow> mux_session \<Rightarrow> (u32, smux_error) res \<times> mux_session" where
  "send_window_update a consumed s =
     write_start Ctrl CMD_UPD (sm_id (obj s a))
       (u32_le consumed @ u32_le (word_of_nat (cf_max_stream_buffer (se_config s)))) s"

text \<open>One pass of the loop of \<open>read\<close> into a non-empty buffer: the data with the update
  frame it has queued, if any; the end; an error of the update; or a wait.\<close>

datatype read_pass = PassData bytes "u32 option" | PassEof | PassErr smux_error | PassWait

definition stream_read_pass :: "nat \<Rightarrow> nat \<Rightarrow> mux_session \<Rightarrow> read_pass \<times> mux_session" where
  "stream_read_pass cap a s =
     (case try_read cap a s of
        ((ReadData bs, None), s) \<Rightarrow> (PassData bs None, s)
      | ((ReadData bs, Some c), s) \<Rightarrow>
          (case send_window_update a c s of
             (Ok seq, s) \<Rightarrow> (PassData bs (Some seq), s)
           | (Err e, s) \<Rightarrow> (PassErr e, s)
           | (Panic, s) \<Rightarrow> (PassErr BrokenPipe, s))
      | ((ReadEof, _), s) \<Rightarrow> (PassEof, s)
      | ((WouldBlock, _), s) \<Rightarrow> (PassWait, s))"

section \<open>Writing to a stream\<close>

definition check_writable :: "nat \<Rightarrow> mux_session \<Rightarrow> smux_error option" where
  "check_writable a s =
     (if sm_fin (obj s a) then Some StreamEof else if sm_die (obj s a) then Some BrokenPipe else None)"

text \<open>The chunks of \<open>slice::chunks\<close>.\<close>

function chunks_of :: "nat \<Rightarrow> bytes \<Rightarrow> bytes list" where
  "chunks_of n b = (if n = 0 \<or> b = [] then [] else take n b # chunks_of n (drop n b))"
  by pat_completeness auto
termination by (relation "measure (\<lambda>(_, b). length b)") auto

declare chunks_of.simps [simp del]

text \<open>A version 1 write: the chunks to send, each with \<open>chunk_start\<close> and a wait.\<close>

definition write_v1 :: "nat \<Rightarrow> bytes \<Rightarrow> mux_session \<Rightarrow> (bytes list, smux_error) res" where
  "write_v1 a b s =
     (case check_writable a s of Some e \<Rightarrow> Err e | None \<Rightarrow> Ok (chunks_of (sm_frame_size (obj s a)) b))"

definition chunk_start :: "nat \<Rightarrow> bytes \<Rightarrow> mux_session \<Rightarrow> (u32, smux_error) res \<times> mux_session" where
  "chunk_start a chunk s = write_start Data CMD_PSH (sm_id (obj s a)) chunk s"

text \<open>One pass of \<open>write_v2\<close>: the chunks that fit the peer's window and what is left.\<close>

definition inflight :: "stream \<Rightarrow> int" where
  "inflight st = sint (sm_num_written st - sm_peer_consumed st)"

text \<open>The subtraction of \<open>i32\<close>s wraps, as in a release build.\<close>

definition window :: "stream \<Rightarrow> int" where
  "window st = sint (sm_peer_window st - (sm_num_written st - sm_peer_consumed st))"

definition v2_pass :: "nat \<Rightarrow> bytes \<Rightarrow> mux_session \<Rightarrow> (bytes list \<times> bytes, smux_error) res" where
  "v2_pass a b s =
     (let st = obj s a
      in if inflight st < 0 then Err OverConsumed
         else if 0 < window st then
           let n = min (nat (window st)) (length b)
           in Ok (chunks_of (sm_frame_size st) (take n b), drop n b)
         else Ok ([], b))"

text \<open>The start of \<open>write\<close>: nothing to do, the chunks of version 1, or passes of version 2.\<close>

datatype write_plan = PlanDone | PlanChunks "bytes list" | PlanPasses

definition stream_write :: "nat \<Rightarrow> bytes \<Rightarrow> mux_session \<Rightarrow> (write_plan, smux_error) res" where
  "stream_write a b s =
     (if cf_version (se_config s) = 2 then
        if b = [] then Ok PlanDone
        else (case check_writable a s of Some e \<Rightarrow> Err e | None \<Rightarrow> Ok PlanPasses)
      else map_ok PlanChunks (write_v1 a b s))"

text \<open>After a chunk's result in version 2, good or bad.\<close>

definition count_written :: "nat \<Rightarrow> bytes \<Rightarrow> mux_session \<Rightarrow> mux_session" where
  "count_written a chunk s =
     set_obj a ((obj s a)\<lparr>sm_num_written := sm_num_written (obj s a) + word_of_nat (length chunk)\<rparr>) s"

text \<open>The ready branches of the wait for the window.\<close>

definition wait_window :: "nat \<Rightarrow> mux_session \<Rightarrow> ((unit, smux_error) res \<times> mux_session) list" where
  "wait_window a s =
     (let st = obj s a
      in (if sm_update st then [(Ok (), set_obj a (st\<lparr>sm_update := False\<rparr>) s)] else []) @
         (if sm_fin st then [(Err StreamEof, s)] else []) @
         (if sm_die st then [(Err BrokenPipe, s)] else []) @
         (case se_write_error s of Some e \<Rightarrow> [(Err e, s)] | None \<Rightarrow> []))"

text \<open>\<open>close\<close>: the FIN frame, and what follows its wait.\<close>

definition close_start :: "nat \<Rightarrow> mux_session \<Rightarrow> (u32, smux_error) res \<times> mux_session" where
  "close_start a s =
     (if sm_die (obj s a) then (Err BrokenPipe, s)
      else write_start Data CMD_FIN (sm_id (obj s a)) [] (set_obj a ((obj s a)\<lparr>sm_die := True\<rparr>) s))"

definition close_finish :: "nat \<Rightarrow> mux_session \<Rightarrow> mux_session" where
  "close_finish a s = stream_closed (sm_id (obj s a)) s"

end
