(* ===== verification/SmuxFrame.thy ===== *)
theory SmuxFrame
  imports Smux
begin

text \<open>
  Frames of \<open>smux.rs\<close> on the wire: what the reader task makes of a frame that the writer
  task sent, and the order in which queued frames are sent.
\<close>

section \<open>Frames\<close>

lemma frame_header_parts:
  assumes "length (rq_data r) \<le> 65535"
  shows "length (frame_header r) = 8" "frame_header r ! 0 = rq_ver r" "frame_header r ! 1 = rq_cmd r"
    "nat_of_le (slice 2 4 (frame_header r)) = length (rq_data r)"
    "(word_of_nat (nat_of_le (slice 4 8 (frame_header r))) :: u32) = rq_sid r"
proof -
  let ?l = "word_of_nat (length (rq_data r)) :: u16"
  have l: "length (u16_le ?l) = 2" "length (u32_le (rq_sid r)) = 4" by (simp_all add: u16_le_def u32_le_def)
  then show "length (frame_header r) = 8" "frame_header r ! 0 = rq_ver r" "frame_header r ! 1 = rq_cmd r"
    by (simp_all add: frame_header_def)
  have "slice 2 4 (frame_header r) = u16_le ?l" "slice 4 8 (frame_header r) = u32_le (rq_sid r)"
    using l by (simp_all add: frame_header_def slice_def)
  moreover have "unat ?l = length (rq_data r)" using assms by (simp add: unat_of_nat)
  moreover have "unat (rq_sid r) < 2 ^ 32" by (rule order_less_le_trans [OF unsigned_less]) simp
  ultimately show "nat_of_le (slice 2 4 (frame_header r)) = length (rq_data r)"
      "(word_of_nat (nat_of_le (slice 4 8 (frame_header r))) :: u32) = rq_sid r"
    using assms by (simp_all add: u16_le_def u32_le_def nat_of_le_of_nat)
qed

definition ready_for :: "mux_session \<Rightarrow> bytes \<Rightarrow> src_end \<Rightarrow> bool" where
  "ready_for s bs e \<longleftrightarrow> \<not> se_recv_done s \<and> se_header s = None \<and> se_accepting s = None \<and>
     0 < sint (se_bucket s) \<and> src_flat (se_source s) = (bs, e)"

lemma recv_header_frame:
  assumes "ready_for s (frame_header r @ rest) e" and "length (rq_data r) \<le> 65535" and "rq_ver r = cf_version (se_config s)"
  obtains src where "src_flat src = (rest, e)"
    "recv_header s = Some (s\<lparr>se_source := src, se_data_ready := True, se_header := Some (frame_header r)\<rparr>)"
proof -
  note h = frame_header_parts [OF assms(2)]
  have "src_flat (se_source s) = (frame_header r @ rest, e)" using assms(1) by (simp add: ready_for_def)
  then obtain src where "read_exact HEADER_SIZE (se_source s) = (Done (frame_header r), src)" "src_flat src = (rest, e)"
    using src.exact_append [of "se_source s" "frame_header r" rest e] h(1) by (auto simp: HEADER_SIZE_def)
  with assms h that show thesis by (simp add: recv_header_def ready_for_def)
qed

text \<open>The state after a frame, apart from the source: what the reader task did.\<close>

definition handled :: "request \<Rightarrow> mux_session \<Rightarrow> mux_session" where
  "handled r s =
     (let s = s\<lparr>se_data_ready := True\<rparr>
      in if rq_cmd r = CMD_SYN then recv_syn (rq_sid r) s
         else if rq_cmd r = CMD_FIN
         then update_stream (rq_sid r) (\<lambda>st. st\<lparr>sm_fin := True, sm_read_event := True\<rparr>) s
         else if rq_cmd r = CMD_PSH \<and> rq_data r \<noteq> [] then recv_push (rq_sid r) (rq_data r) s
         else if rq_cmd r = CMD_UPD
         then update_stream (rq_sid r)
                (\<lambda>st. st\<lparr>sm_peer_consumed := word_of_nat (nat_of_le (take 4 (rq_data r))),
                         sm_peer_window := word_of_nat (nat_of_le (drop 4 (rq_data r))), sm_update := True\<rparr>) s
         else s)"

text \<open>The frames a session sends: a known command, and data only where it belongs.\<close>

definition well_formed :: "request \<Rightarrow> bool" where
  "well_formed r \<longleftrightarrow> rq_cmd r \<in> {CMD_SYN, CMD_FIN, CMD_PSH, CMD_NOP, CMD_UPD} \<and> length (rq_data r) \<le> 65535 \<and>
     (rq_cmd r \<noteq> CMD_PSH \<and> rq_cmd r \<noteq> CMD_UPD \<longrightarrow> rq_data r = []) \<and>
     (rq_cmd r = CMD_UPD \<longrightarrow> length (rq_data r) = UPD_SIZE)"

lemma session_fields_commute:
  "recv_syn sid (s\<lparr>se_source := src, se_header := h\<rparr>) = (recv_syn sid s)\<lparr>se_source := src, se_header := h\<rparr>"
  "update_stream sid f (s\<lparr>se_source := src, se_header := h\<rparr>) = (update_stream sid f s)\<lparr>se_source := src, se_header := h\<rparr>"
  "recv_push sid buf (s\<lparr>se_source := src, se_header := h\<rparr>) = (recv_push sid buf s)\<lparr>se_source := src, se_header := h\<rparr>"
  by (auto simp: recv_syn_def update_stream_def recv_push_def add_obj_def set_obj_def Let_def split: option.split)

lemma recv_body_frame:
  assumes "src_flat src = (rq_data r @ rest, e)" and "well_formed r"
  obtains src' where
    "recv_body (s\<lparr>se_source := src, se_data_ready := True, se_header := Some (frame_header r)\<rparr>) =
       Some ((handled r s)\<lparr>se_source := src', se_header := None\<rparr>)"
    "src_flat src' = (rest, e)"
proof -
  have len: "length (rq_data r) \<le> 65535" using assms(2) by (simp add: well_formed_def)
  note h = frame_header_parts [OF len]
  obtain src' where src': "read_exact (length (rq_data r)) src = (Done (rq_data r), src')" "src_flat src' = (rest, e)"
    by (rule src.exact_append [OF assms(1)])
  let ?s1 = "s\<lparr>se_source := src, se_data_ready := True, se_header := Some (frame_header r)\<rparr>"
  let ?s = "s\<lparr>se_data_ready := True\<rparr>"
  have set': "?s1\<lparr>se_header := None, se_source := src'\<rparr> = ?s\<lparr>se_source := src', se_header := None\<rparr>" by simp
  note cmds = CMD_SYN_def CMD_FIN_def CMD_PSH_def CMD_NOP_def CMD_UPD_def
  consider (data) "rq_cmd r = CMD_PSH" "rq_data r \<noteq> []" | (upd) "rq_cmd r = CMD_UPD" "length (rq_data r) = UPD_SIZE"
    | (none) "rq_cmd r \<in> {CMD_SYN, CMD_FIN, CMD_NOP, CMD_PSH}" "rq_data r = []"
    using assms(2) by (auto simp: well_formed_def)
  then have "\<exists>src. recv_body ?s1 = Some ((handled r s)\<lparr>se_source := src, se_header := None\<rparr>) \<and> src_flat src = (rest, e)"
  proof cases
    case data
    then have "recv_body ?s1 = Some (recv_push (rq_sid r) (rq_data r) (?s1\<lparr>se_header := None, se_source := src'\<rparr>))"
      using h(3,4,5) src' by (simp add: recv_body_def cmds Let_def)
    then have "recv_body ?s1 = Some ((recv_push (rq_sid r) (rq_data r) ?s)\<lparr>se_source := src', se_header := None\<rparr>)"
      unfolding set' session_fields_commute .
    with data src'(2) show ?thesis by (auto simp: handled_def cmds Let_def)
  next
    case upd
    then have "recv_body ?s1 = Some (update_stream (rq_sid r)
        (\<lambda>st. st\<lparr>sm_peer_consumed := word_of_nat (nat_of_le (take 4 (rq_data r))),
             sm_peer_window := word_of_nat (nat_of_le (drop 4 (rq_data r))), sm_update := True\<rparr>)
        (?s1\<lparr>se_header := None, se_source := src'\<rparr>))"
      using h(3,4,5) src' by (simp add: recv_body_def cmds Let_def)
    then have "recv_body ?s1 = Some ((update_stream (rq_sid r)
        (\<lambda>st. st\<lparr>sm_peer_consumed := word_of_nat (nat_of_le (take 4 (rq_data r))),
             sm_peer_window := word_of_nat (nat_of_le (drop 4 (rq_data r))), sm_update := True\<rparr>) ?s)
        \<lparr>se_source := src', se_header := None\<rparr>)"
      unfolding set' session_fields_commute .
    with upd src'(2) show ?thesis by (auto simp: handled_def cmds Let_def)
  next
    case none
    then have flat: "src_flat src = (rest, e)" using assms(1) by simp
    have eq: "?s\<lparr>se_source := src, se_header := None\<rparr> = ?s1\<lparr>se_header := None\<rparr>" by simp
    have "recv_body ?s1 = Some ((handled r s)\<lparr>se_source := src, se_header := None\<rparr>)"
      using none h(3,4,5) session_fields_commute [where s = ?s and src = src and h = None, unfolded eq]
      by (auto simp: recv_body_def handled_def cmds Let_def)
    with flat show ?thesis by blast
  qed
  with that show thesis by blast
qed


text \<open>A server that receives a stream and three bytes for it.\<close>

definition three_bytes :: bytes where "three_bytes = [7, 8, 9]"

definition syn_request :: request where
  "syn_request = \<lparr>rq_class = Ctrl, rq_seq = 1, rq_ver = 1, rq_cmd = CMD_SYN, rq_sid = 3, rq_data = []\<rparr>"

definition push_request :: request where
  "push_request = \<lparr>rq_class = Data, rq_seq = 2, rq_ver = 1, rq_cmd = CMD_PSH, rq_sid = 3, rq_data = three_bytes\<rparr>"

definition two_frames :: source where
  "two_frames = [SrcData (frame_header syn_request @ frame_header push_request @ three_bytes)]"

definition fresh_server :: mux_session where
  "fresh_server = (case mux_new two_frames config_default False of Ok s \<Rightarrow> s)"

lemma fresh_server: "mux_new two_frames config_default False = Ok fresh_server"
  "ready_for fresh_server (frame_header syn_request @ rq_data syn_request @ frame_header push_request @ three_bytes) StillOpen"
  "se_config fresh_server = config_default" "se_objs fresh_server = []" "se_streams fresh_server = Map.empty"
  "se_bucket fresh_server = 4194304" "se_accepts fresh_server = []" "se_die fresh_server = False"
  "se_header fresh_server = None" "se_accepting fresh_server = None" "se_recv_done fresh_server = False"
  by (simp_all add: fresh_server_def mux_new_def config_verify_def config_default_def ready_for_def two_frames_def syn_request_def)

lemma requests_formed: "well_formed syn_request" "well_formed push_request"
  by (simp_all add: well_formed_def syn_request_def push_request_def three_bytes_def smux_consts)


end
