(* ===== verification/SmuxInv.thy ===== *)
theory SmuxInv
  imports SmuxFrame "HOL-Library.Sublist"
begin

text \<open>
  Sessions as a step relation, whose rules are the operations of \<open>Smux\<close>, and what all
  of them keep: the stream table points at the right objects, the tokens of the
  receive budget are conserved, and every stream delivers what was pushed to it in
  order.
\<close>

section \<open>Steps\<close>

text \<open>Bytes pushed to a stream by the network, bytes a read returned to its caller, a read
  that failed after it had taken bytes, and everything else.\<close>

datatype smux_event = Pushed nat bytes | Taken nat bytes | Lost nat | Quiet

text \<open>What handling the received frame pushes to a stream.\<close>

definition body_event :: "mux_session \<Rightarrow> smux_event" where
  "body_event s =
     (case se_header s of
        None \<Rightarrow> Quiet
      | Some hdr \<Rightarrow>
          let len = nat_of_le (slice 2 4 hdr)
          in if hdr ! 1 \<noteq> CMD_PSH \<or> len = 0 then Quiet
             else (case (se_streams s (word_of_nat (nat_of_le (slice 4 8 hdr))), read_exact len (se_source s)) of
                     (Some a, Done buf, _) \<Rightarrow> Pushed a buf
                   | _ \<Rightarrow> Quiet))"

text \<open>What a pass of \<open>read\<close> gives to its caller: the bytes of its result.  When it has
  queued a window update, the read still waits for that frame to be sent and returns
  an error instead if it is not (\<open>sent\<close> is false).\<close>

fun read_event :: "nat \<Rightarrow> read_pass \<Rightarrow> bool \<Rightarrow> smux_event" where
  "read_event a (PassData bs None) sent = Taken a bs"
| "read_event a (PassData bs (Some seq)) sent = (if sent then Taken a bs else Lost a)"
| "read_event a (PassErr e) sent = Lost a"
| "read_event a PassEof sent = Quiet"
| "read_event a PassWait sent = Quiet"

inductive smux_step :: "mux_session \<Rightarrow> smux_event \<Rightarrow> mux_session \<Rightarrow> bool" where
  open_start: "open_start s = (r, s') \<Longrightarrow> smux_step s Quiet s'"
| open_finish: "open_finish sid r s = (r', s') \<Longrightarrow> smux_step s Quiet s'"
| accept: "(r, s') \<in> set (accept_ready s) \<Longrightarrow> smux_step s Quiet s'"
| close_session: "smux_step s Quiet (close_session s)"
| send: "send_round fail s = Some (req, s') \<Longrightarrow> smux_step s Quiet s'"
| send_stop: "se_die s \<Longrightarrow> smux_step s Quiet (s\<lparr>se_send_done := True\<rparr>)"
| recv_header: "recv_header s = Some s' \<Longrightarrow> smux_step s Quiet s'"
| recv_body: "recv_body s = Some s' \<Longrightarrow> smux_step s (body_event s) s'"
| recv_stop: "se_die s \<Longrightarrow> smux_step s Quiet (s\<lparr>se_recv_done := True\<rparr>)"
| ping: "keepalive_ping s = (r, s') \<Longrightarrow> smux_step s Quiet s'"
| check: "smux_step s Quiet (keepalive_check s)"
| read_pass: "a < length (se_objs s) \<Longrightarrow> stream_read_pass cap a s = (p, s') \<Longrightarrow>
    smux_step s (read_event a p sent) s'"
| read_wait: "a < length (se_objs s) \<Longrightarrow> (r, s') \<in> set (wait_read a s) \<Longrightarrow> smux_step s Quiet s'"
| chunk: "a < length (se_objs s) \<Longrightarrow> chunk_start a c s = (r, s') \<Longrightarrow> smux_step s Quiet s'"
| chunk_done: "a < length (se_objs s) \<Longrightarrow> smux_step s Quiet (count_written a c s)"
| window_wait: "a < length (se_objs s) \<Longrightarrow> (r, s') \<in> set (wait_window a s) \<Longrightarrow> smux_step s Quiet s'"
| close_start: "a < length (se_objs s) \<Longrightarrow> close_start a s = (r, s') \<Longrightarrow> smux_step s Quiet s'"
| close_finish: "a < length (se_objs s) \<Longrightarrow> smux_step s Quiet (close_finish a s)"

inductive smux_run :: "mux_session \<Rightarrow> smux_event list \<Rightarrow> mux_session \<Rightarrow> bool" where
  start: "smux_run s [] s"
| more: "smux_run s evs s' \<Longrightarrow> smux_step s' ev s'' \<Longrightarrow> smux_run s (evs @ [ev]) s''"

section \<open>What a step changes\<close>

definition same_view :: "mux_session \<Rightarrow> mux_session \<Rightarrow> bool" where
  "same_view s s' \<longleftrightarrow> se_bucket s' = se_bucket s \<and> map sm_buffers (se_objs s') = map sm_buffers (se_objs s) \<and>
     map sm_id (se_objs s') = map sm_id (se_objs s) \<and> se_streams s' = se_streams s \<and> se_config s' = se_config s \<and>
     (se_die s \<longrightarrow> se_die s')"

lemma same_view_refl: "same_view s s" by (simp add: same_view_def)

lemma same_view_trans: "same_view s s1 \<Longrightarrow> same_view s1 s2 \<Longrightarrow> same_view s s2"
  by (simp add: same_view_def)

lemma same_view_set_obj:
  assumes "sm_buffers st = sm_buffers (obj s a)" and "sm_id st = sm_id (obj s a)"
  shows "same_view s (set_obj a st s)"
  using assms by (cases "a < length (se_objs s)") (simp_all add: same_view_def set_obj_def map_update list_update_same_conv list_update_beyond)

lemma write_start_view: "write_start class cmd sid data s = (r, s') \<Longrightarrow> same_view s s' \<and> se_header s' = se_header s"
  by (auto simp: write_start_def same_view_def Let_def split: if_splits option.splits)

lemma close_session_view: "same_view s (close_session s) \<and> se_header (close_session s) = se_header s"
proof -
  have "map f (map (\<lambda>(a, st). if P a st then st\<lparr>sm_die := True, sm_read_event := True\<rparr> else st) (zip [0..<length xs] xs)) = map f xs"
    if "\<And>st. f (st\<lparr>sm_die := True, sm_read_event := True\<rparr>) = f st" for f :: "stream \<Rightarrow> 'a" and P xs
    using that by (intro nth_equalityI) auto
  note m = this [of sm_buffers] this [of sm_id]
  show ?thesis by (simp add: close_session_def same_view_def m del: map_map)
qed

text \<open>Every step is one of five kinds.\<close>

datatype change = NoChange | Added stream | Got nat bytes | Gave nat bytes stream | Recycled nat

fun labelled :: "change \<Rightarrow> smux_event \<Rightarrow> bool" where
  "labelled (Got a buf) ev \<longleftrightarrow> ev = Pushed a buf"
| "labelled (Gave a bs _) ev \<longleftrightarrow> ev = Taken a bs \<or> ev = Lost a \<or> (bs = [] \<and> ev = Quiet)"
| "labelled NoChange ev \<longleftrightarrow> ev = Quiet"
| "labelled (Added _) ev \<longleftrightarrow> ev = Quiet"
| "labelled (Recycled _) ev \<longleftrightarrow> ev = Quiet"

definition table_ok :: "mux_session \<Rightarrow> bool" where
  "table_ok s \<longleftrightarrow> (\<forall>sid a. se_streams s sid = Some a \<longrightarrow> a < length (se_objs s) \<and> sm_id (obj s a) = sid)"

lemma table_okD: "table_ok s \<Longrightarrow> se_streams s sid = Some a \<Longrightarrow> a < length (se_objs s) \<and> sm_id (obj s a) = sid"
  by (simp add: table_ok_def)

lemma table_ok_view:
  assumes "same_view s s'" and "table_ok s"
  shows "table_ok s'"
proof -
  have ids: "map sm_id (se_objs s') = map sm_id (se_objs s)" "se_streams s' = se_streams s"
    using assms(1) by (simp_all add: same_view_def)
  then have "length (se_objs s') = length (se_objs s)" by (metis length_map)
  moreover from this ids have "sm_id (obj s' a) = sm_id (obj s a)" if "a < length (se_objs s)" for a
    using that by (metis nth_map)
  ultimately show ?thesis using assms(2) ids by (simp add: table_ok_def)
qed

text \<open>The state a change leads to, up to what the invariants do not see.\<close>

fun changed :: "change \<Rightarrow> mux_session \<Rightarrow> mux_session" where
  "changed NoChange s = s"
| "changed (Added st) s = add_obj st s"
| "changed (Got a buf) s =
     (set_obj a ((obj s a)\<lparr>sm_buffers := sm_buffers (obj s a) @ [buf]\<rparr>) s)
       \<lparr>se_bucket := se_bucket s - word_of_nat (length buf)\<rparr>"
| "changed (Gave a bs st) s = (set_obj a st s)\<lparr>se_bucket := se_bucket s + word_of_nat (length bs)\<rparr>"
| "changed (Recycled a) s =
     (set_obj a ((obj s a)\<lparr>sm_buffers := []\<rparr>) s)
       \<lparr>se_bucket := se_bucket s + word_of_nat (buffered (obj s a)),
        se_streams := (se_streams s)(sm_id (obj s a) := None)\<rparr>"

fun change_ok :: "change \<Rightarrow> mux_session \<Rightarrow> bool" where
  "change_ok NoChange s = True"
| "change_ok (Added st) s = (sm_buffers st = [])"
| "change_ok (Got a buf) s = (a < length (se_objs s) \<and> se_streams s (sm_id (obj s a)) = Some a \<and> length buf \<le> 65535)"
| "change_ok (Gave a bs st) s = (a < length (se_objs s) \<and> sm_id st = sm_id (obj s a) \<and>
     concat (sm_buffers (obj s a)) = bs @ concat (sm_buffers st))"
| "change_ok (Recycled a) s = (a < length (se_objs s))"

lemma changed_table:
  assumes "change_ok c s" and "table_ok s"
  shows "table_ok (changed c s)"
  using assms by (cases c) (auto simp: table_ok_def set_obj_def add_obj_def nth_list_update nth_append less_Suc_eq split: if_splits)

section \<open>Classifying the steps\<close>

lemma return_tokens_view: "se_bucket (return_tokens n s) = se_bucket s + word_of_nat n"
  "se_objs (return_tokens n s) = se_objs s" "se_streams (return_tokens n s) = se_streams s"
  "se_config (return_tokens n s) = se_config s" "se_die (return_tokens n s) = se_die s"
  "se_header (return_tokens n s) = se_header s"
  by (simp_all add: return_tokens_def Let_def)

lemma take_buffer_split: "take_buffer cap st = (bs, st') \<Longrightarrow>
    concat (sm_buffers st) = bs @ concat (sm_buffers st') \<and> sm_id st' = sm_id st"
  by (auto simp: take_buffer_def split: list.splits if_splits)

lemma count_read_view: "count_read s n st = (u, st') \<Longrightarrow> sm_buffers st' = sm_buffers st \<and> sm_id st' = sm_id st \<and> sm_die st' = sm_die st"
  by (auto simp: count_read_def Let_def split: if_splits)

lemma try_read_gave:
  assumes "try_read cap a s = (r, s')" and "a < length (se_objs s)"
  obtains bs st where "change_ok (Gave a bs st) s"
    "same_view (changed (Gave a bs st) s) s'" "se_header s' = se_header s"
    "case fst r of ReadData got \<Rightarrow> got = bs | _ \<Rightarrow> bs = []"
proof -
  obtain bs st1 where t: "take_buffer cap (obj s a) = (bs, st1)" by force
  obtain n st where c: "count_read s (length bs) st1 = (n, st)" by force
  have "concat (sm_buffers (obj s a)) = bs @ concat (sm_buffers st)" "sm_id st = sm_id (obj s a)"
    using take_buffer_split [OF t] count_read_view [OF c] by auto
  moreover have "same_view ((set_obj a st s)\<lparr>se_bucket := se_bucket s + word_of_nat (length bs)\<rparr>) s' \<and> se_header s' = se_header s"
    using assms(1) t c by (auto simp: try_read_def same_view_def Let_def return_tokens_view set_obj_def split: if_splits)
  moreover have "case fst r of ReadData got \<Rightarrow> got = bs | _ \<Rightarrow> bs = []"
    using assms(1) t c by (auto simp: try_read_def Let_def split: if_splits)
  ultimately show thesis using assms(2) that [of bs st] by simp
qed

lemma read_pass_gave:
  assumes "stream_read_pass cap a s = (p, s')" and "a < length (se_objs s)"
  obtains bs st where "change_ok (Gave a bs st) s"
    "same_view (changed (Gave a bs st) s) s'" "se_header s' = se_header s"
    "labelled (Gave a bs st) (read_event a p sent)"
proof -
  obtain r s1 where r: "try_read cap a s = (r, s1)" by (rule prod.exhaust)
  obtain bs st where g: "change_ok (Gave a bs st) s" "same_view (changed (Gave a bs st) s) s1" "se_header s1 = se_header s"
    "case fst r of ReadData got \<Rightarrow> got = bs | _ \<Rightarrow> bs = []"
    by (rule try_read_gave [OF r assms(2)])
  have "(s' = s1 \<or> (\<exists>c x. send_window_update a c s1 = (x, s'))) \<and> labelled (Gave a bs st) (read_event a p sent)"
  proof (cases "\<exists>got c. r = (ReadData got, Some c)")
    case True
    then obtain got c where rc: "r = (ReadData got, Some c)" by blast
    obtain x s2 where w: "send_window_update a c s1 = (x, s2)" by (rule prod.exhaust)
    have "stream_read_pass cap a s =
        ((case x of Ok seq \<Rightarrow> PassData got (Some seq) | Err e \<Rightarrow> PassErr e | Panic \<Rightarrow> PassErr BrokenPipe), s2)"
      using r rc w by (cases x) (simp_all add: stream_read_pass_def)
    then have p: "p = (case x of Ok seq \<Rightarrow> PassData got (Some seq) | Err e \<Rightarrow> PassErr e | Panic \<Rightarrow> PassErr BrokenPipe)"
      and s2: "s2 = s'" using assms(1) by simp_all
    have "got = bs" using g(4) rc by simp
    then have "labelled (Gave a bs st) (read_event a p sent)" unfolding p by (cases x) simp_all
    with w s2 show ?thesis by blast
  next
    case False
    then consider got where "r = (ReadData got, None)" | u where "r = (ReadEof, u)" | u where "r = (WouldBlock, u)"
      by (cases r; cases "fst r"; cases "snd r") auto
    then show ?thesis using assms(1) r g(4) by cases (auto simp: stream_read_pass_def)
  qed
  then have upd: "s' = s1 \<or> (\<exists>c x. send_window_update a c s1 = (x, s'))"
    and "labelled (Gave a bs st) (read_event a p sent)" by blast+
  moreover from upd have "same_view s1 s' \<and> se_header s' = se_header s1"
  proof
    assume "\<exists>c x. send_window_update a c s1 = (x, s')"
    then show ?thesis unfolding send_window_update_def by (elim exE) (rule write_start_view)
  qed (simp add: same_view_refl)
  ultimately show thesis using that [of bs st] g same_view_trans [of _ s1 s'] by simp
qed

text \<open>How a step moves the pending header: \<open>recv_header\<close> sets it with tokens left or after
  the end, handling it clears it, and only handling it pushes.\<close>

definition header_ok :: "change \<Rightarrow> mux_session \<Rightarrow> mux_session \<Rightarrow> bool" where
  "header_ok c s s' \<longleftrightarrow>
     (case c of Got _ _ \<Rightarrow> se_header s \<noteq> None \<and> se_header s' = None
      | _ \<Rightarrow> se_header s' = se_header s \<or> se_header s' = None \<or>
          (c = NoChange \<and> se_header s = None \<and> (se_die s \<or> 0 < sint (se_bucket s))))"

definition step_as :: "change \<Rightarrow> mux_session \<Rightarrow> mux_session \<Rightarrow> bool" where
  "step_as c s s' \<longleftrightarrow> change_ok c s \<and> same_view (changed c s) s' \<and> header_ok c s s'"

lemma step_as_none: "same_view s s' \<Longrightarrow> se_header s' = se_header s \<Longrightarrow> step_as NoChange s s'"
  by (simp add: step_as_def header_ok_def)

lemma set_obj_none:
  assumes "sm_buffers st = sm_buffers (obj s a)" and "sm_id st = sm_id (obj s a)"
  shows "step_as NoChange s (set_obj a st s)"
  by (rule step_as_none [OF same_view_set_obj [OF assms]]) (simp add: set_obj_def)

lemma update_stream_none:
  assumes "\<And>st. sm_buffers (f st) = sm_buffers st \<and> sm_id (f st) = sm_id st"
  shows "same_view s (update_stream sid f s)" "se_header (update_stream sid f s) = se_header s"
  using assms same_view_set_obj
  by (simp_all add: update_stream_def same_view_refl set_obj_def [of _ _ s, THEN arg_cong, of se_header] split: option.split)

lemma open_start_none: "open_start s = (r, s') \<Longrightarrow> step_as NoChange s s'"
proof -
  assume o: "open_start s = (r, s')"
  have v: "same_view s (s\<lparr>se_next_id := n\<rparr>)" for n by (simp add: same_view_def)
  have "same_view s s' \<and> se_header s' = se_header s"
    using o by (auto simp: open_start_def same_view_refl v dest!: write_start_view
        intro: same_view_trans [OF v] split: if_splits prod.splits option.splits res.splits)
  then show ?thesis by (simp add: step_as_none)
qed

lemma accept_none: "(r, s') \<in> set (accept_ready s) \<Longrightarrow> step_as NoChange s s'"
  by (rule step_as_none) (auto simp: accept_ready_def same_view_def split: list.splits option.splits if_splits)

lemma send_none: "send_round fail s = Some (req, s') \<Longrightarrow> step_as NoChange s s'"
  by (rule step_as_none) (auto simp: send_round_def same_view_def Let_def split: if_splits option.splits prod.splits)

lemma recv_header_none: "recv_header s = Some s' \<Longrightarrow> step_as NoChange s s'"
  unfolding step_as_def
  by (auto simp: recv_header_def header_ok_def recv_fail_def proto_fail_def same_view_def Let_def
      split: if_splits prod.splits io.splits)

lemma wait_read_none: "(r, s') \<in> set (wait_read a s) \<Longrightarrow> step_as NoChange s s'"
  by (auto simp: wait_read_def Let_def step_as_none same_view_refl intro: set_obj_none split: if_splits option.splits)

lemma wait_window_none: "(r, s') \<in> set (wait_window a s) \<Longrightarrow> step_as NoChange s s'"
  by (auto simp: wait_window_def Let_def step_as_none same_view_refl intro: set_obj_none split: if_splits option.splits)

lemma close_start_none: "close_start a s = (r, s') \<Longrightarrow> step_as NoChange s s'"
proof -
  assume c: "close_start a s = (r, s')"
  have v: "same_view s (set_obj a ((obj s a)\<lparr>sm_die := True\<rparr>) s)" by (rule same_view_set_obj) simp_all
  have "same_view s s' \<and> se_header s' = se_header s"
    using c by (auto simp: close_start_def same_view_refl set_obj_def dest!: write_start_view
        intro: same_view_trans [OF v [unfolded set_obj_def]] split: if_splits)
  then show ?thesis by (simp add: step_as_none)
qed

lemma ping_none: "keepalive_ping s = (r, s') \<Longrightarrow> step_as NoChange s s'"
proof -
  assume "keepalive_ping s = (r, s')"
  then have "same_view (s\<lparr>se_bucket_notify := True\<rparr>) s'" "se_header s' = se_header s"
    by (auto simp: keepalive_ping_def dest!: write_start_view)
  then show ?thesis by (simp add: step_as_none same_view_def)
qed

lemma check_none: "step_as NoChange s (keepalive_check s)"
proof -
  have "same_view s (s\<lparr>se_data_ready := False\<rparr>)" by (simp add: same_view_def)
  with close_session_view [of "s\<lparr>se_data_ready := False\<rparr>"] show ?thesis
    by (auto simp: keepalive_check_def Let_def intro!: step_as_none intro: same_view_trans)
qed

lemma close_finish_change:
  assumes "table_ok s"
  obtains c where "step_as c s (close_finish a s)" "labelled c Quiet"
proof (cases "se_streams s (sm_id (obj s a))")
  case None
  then have "step_as NoChange s (close_finish a s)"
    by (simp add: close_finish_def stream_closed_def step_as_none same_view_refl)
  then show thesis by (rule that) simp
next
  case (Some b)
  with table_okD [OF assms] have b: "b < length (se_objs s)" "sm_id (obj s b) = sm_id (obj s a)" by auto
  then have "step_as (Recycled b) s (close_finish a s)"
    using Some by (auto simp: close_finish_def stream_closed_def recycle_tokens_def step_as_def header_ok_def same_view_def
        set_obj_def return_tokens_def Let_def)
  then show thesis by (rule that) simp
qed

lemma open_finish_change:
  assumes "open_finish sid r s = (r', s')"
  obtains c where "step_as c s s'" "labelled c Quiet"
proof -
  from assms consider "s' = s" | "s' = add_obj (stream_new sid (cf_max_frame_size (se_config s))) s"
    by (auto simp: open_finish_def split: res.splits option.splits if_splits)
  then show thesis
  proof cases
    case 1
    then have "step_as NoChange s s'" by (simp add: step_as_none same_view_refl)
    then show thesis by (rule that) simp
  next
    case 2
    then have "step_as (Added (stream_new sid (cf_max_frame_size (se_config s)))) s s'"
      by (simp add: step_as_def header_ok_def same_view_refl stream_new_def add_obj_def)
    then show thesis by (rule that) simp
  qed
qed

lemma read_exact_length:
  assumes "read_exact n src = (Done bs, src')"
  shows "length bs = n"
proof -
  obtain all e where f: "src_flat src = (all, e)" by force
  show ?thesis
  proof (cases "n \<le> length all")
    case True
    from src.exact_enough [OF f this] assms True show ?thesis by auto
  next
    case False
    then have "length all < n" by simp
    from src.exact_short [OF f this] assms show ?thesis by (cases e) auto
  qed
qed

lemma recv_push_change:
  assumes "se_header s \<noteq> None" and "length buf \<le> 65535" and "table_ok s"
  shows "step_as (case se_streams s sid of Some a \<Rightarrow> Got a buf | None \<Rightarrow> NoChange) s
    (recv_push sid buf (s\<lparr>se_header := None, se_source := src\<rparr>))"
proof (cases "se_streams s sid")
  case None
  then show ?thesis by (simp add: recv_push_def step_as_def header_ok_def same_view_def)
next
  case (Some a)
  with table_okD [OF assms(3)] assms(1,2) show ?thesis
    by (auto simp: recv_push_def step_as_def header_ok_def same_view_def set_obj_def map_update)
qed

lemma recv_syn_change:
  obtains c where "step_as c s (recv_syn sid (s\<lparr>se_header := None\<rparr>))" "labelled c Quiet"
proof (cases "se_streams s sid")
  case None
  then have "step_as (Added (stream_new sid (cf_max_frame_size (se_config s)))) s (recv_syn sid (s\<lparr>se_header := None\<rparr>))"
    by (simp add: recv_syn_def step_as_def header_ok_def same_view_def stream_new_def add_obj_def Let_def)
  then show thesis by (rule that) simp
next
  case (Some a)
  then have "step_as NoChange s (recv_syn sid (s\<lparr>se_header := None\<rparr>))"
    by (simp add: recv_syn_def step_as_def header_ok_def same_view_def)
  then show thesis by (rule that) simp
qed

text \<open>What clears the header and changes nothing the invariants see.\<close>

lemma step_as_handled:
  assumes "same_view s s'" and "se_header s' = None"
  shows "step_as NoChange s s'"
  using assms by (simp add: step_as_def header_ok_def)

lemma recv_body_change:
  assumes "recv_body s = Some s'" and "table_ok s"
  obtains c where "step_as c s s'" "labelled c (body_event s)"
proof -
  obtain hdr where hdr: "se_header s = Some hdr" using assms(1) by (auto simp: recv_body_def split: option.splits)
  let ?len = "nat_of_le (slice 2 4 hdr)" and ?sid = "word_of_nat (nat_of_le (slice 4 8 hdr)) :: u32"
  let ?s = "s\<lparr>se_header := None\<rparr>"
  have clear: "same_view s ?s" "se_header ?s = None" by (simp_all add: same_view_def)
  note cmds = CMD_SYN_def CMD_FIN_def CMD_PSH_def CMD_NOP_def CMD_UPD_def
  consider (push) "hdr ! 1 = CMD_PSH" "0 < ?len" | (syn) "hdr ! 1 = CMD_SYN"
    | (other) "hdr ! 1 \<noteq> CMD_SYN" "hdr ! 1 \<noteq> CMD_PSH \<or> ?len = 0" by blast
  then show thesis
  proof cases
    case push
    then have run: "(case read_exact ?len (se_source s) of
        (Pending, _) \<Rightarrow> None
      | (Failed e, src) \<Rightarrow> Some (recv_fail e (?s\<lparr>se_source := src\<rparr>))
      | (Done buf, src) \<Rightarrow> Some (recv_push ?sid buf (?s\<lparr>se_source := src\<rparr>))) = Some s'"
      using assms(1) hdr by (simp add: recv_body_def cmds Let_def)
    obtain r src where r: "read_exact ?len (se_source s) = (r, src)" by (rule prod.exhaust)
    show thesis
    proof (cases r)
      case (Done buf)
      have "?len < 256 ^ length (slice 2 4 hdr)" by (rule nat_of_le_less)
      also have "\<dots> \<le> 256 ^ 2" by (rule power_increasing) simp_all
      finally have "length buf \<le> 65535" using read_exact_length [of ?len "se_source s" buf src] r Done by simp
      from recv_push_change [OF _ this assms(2), of ?sid src] hdr run r Done
      have "step_as (case se_streams s ?sid of Some a \<Rightarrow> Got a buf | None \<Rightarrow> NoChange) s s'" by simp
      moreover have "labelled (case se_streams s ?sid of Some a \<Rightarrow> Got a buf | None \<Rightarrow> NoChange) (body_event s)"
        using hdr push r Done by (simp add: body_event_def split: option.split)
      ultimately show thesis by (rule that)
    next
      case (Failed e)
      then have "step_as NoChange s s'" using run r
        by (auto simp: recv_fail_def intro!: step_as_handled) (simp add: same_view_def)
      moreover have "body_event s = Quiet"
        using hdr push r Failed by (simp add: body_event_def split: option.split)
      ultimately show thesis using that by simp
    qed (use run r in simp)
  next
    case syn
    then have "s' = recv_syn ?sid ?s" using assms(1) hdr by (simp add: recv_body_def cmds Let_def)
    moreover have "body_event s = Quiet" using hdr syn by (simp add: body_event_def cmds)
    ultimately show thesis using recv_syn_change [of s ?sid] that by metis
  next
    case other
    have upd: "same_view s (update_stream ?sid f (?s\<lparr>se_source := src\<rparr>)) \<and> se_header (update_stream ?sid f (?s\<lparr>se_source := src\<rparr>)) = None"
      if "\<And>st. sm_buffers (f st) = sm_buffers st \<and> sm_id (f st) = sm_id st" for f src
    proof -
      have v: "same_view s (?s\<lparr>se_source := src\<rparr>)" by (simp add: same_view_def)
      show ?thesis using update_stream_none [where f = f and s = "?s\<lparr>se_source := src\<rparr>" and sid = ?sid] that same_view_trans [OF v] by simp
    qed
    have upd0: "same_view s (update_stream ?sid f ?s) \<and> se_header (update_stream ?sid f ?s) = None"
      if "\<And>st. sm_buffers (f st) = sm_buffers st \<and> sm_id (f st) = sm_id st" for f
      using update_stream_none [where f = f and s = ?s and sid = ?sid] that same_view_trans [OF clear(1)] by simp
    have failed: "same_view s (recv_fail e (?s\<lparr>se_source := src\<rparr>)) \<and> se_header (recv_fail e (?s\<lparr>se_source := src\<rparr>)) = None"
      "same_view s (proto_fail ?s) \<and> se_header (proto_fail ?s) = None" for e src
      by (simp_all add: same_view_def recv_fail_def proto_fail_def)
    have "same_view s s' \<and> se_header s' = None"
      using assms(1) hdr other upd upd0 clear failed
      by (auto simp: recv_body_def Let_def split: if_splits prod.splits io.splits)
    moreover have "body_event s = Quiet" using hdr other by (simp add: body_event_def)
    ultimately show thesis using that [of NoChange] step_as_handled by simp
  qed
qed

lemma quiet_change: "step_as NoChange s s' \<Longrightarrow> \<exists>c. step_as c s s' \<and> labelled c Quiet"
  by (intro exI [of _ NoChange]) simp

lemma step_change:
  assumes "smux_step s ev s'" and "table_ok s"
  shows "\<exists>c. step_as c s s' \<and> labelled c ev"
  using assms(1)
proof cases
  case (read_pass a cap p sent)
  obtain bs st where "change_ok (Gave a bs st) s"
    "same_view (changed (Gave a bs st) s) s'" "se_header s' = se_header s"
    "labelled (Gave a bs st) (read_event a p sent)"
    by (rule read_pass_gave [OF read_pass(3,2)])
  with read_pass(1) show ?thesis
    by (intro exI [of _ "Gave a bs st"]) (simp add: step_as_def header_ok_def)
next
  case (chunk a c r)
  then show ?thesis
    unfolding chunk_start_def by (auto dest!: write_start_view intro!: quiet_change step_as_none)
next
  case (chunk_done a c)
  then show ?thesis by (auto simp: count_written_def intro!: quiet_change set_obj_none)
next
  case recv_stop
  then show ?thesis by (auto intro!: quiet_change step_as_none simp: same_view_def)
next
  case send_stop
  then show ?thesis by (auto intro!: quiet_change step_as_none simp: same_view_def)
next
  case (open_finish sid r r')
  then show ?thesis using open_finish_change by blast
next
  case recv_body
  then show ?thesis using recv_body_change [OF _ assms(2)] by metis
next
  case (close_finish a)
  then show ?thesis using close_finish_change [OF assms(2), of a] by metis
next
  case close_session
  then show ?thesis using close_session_view [of s] by (auto intro!: quiet_change step_as_none)
qed (auto intro!: quiet_change check_none dest: open_start_none accept_none send_none recv_header_none wait_read_none
    wait_window_none close_start_none ping_none)

section \<open>Tokens\<close>

definition total_buffered :: "mux_session \<Rightarrow> nat" where
  "total_buffered s = sum_list (map buffered (se_objs s))"

lemma buffered_view: "same_view s s' \<Longrightarrow> total_buffered s' = total_buffered s"
proof -
  assume "same_view s s'"
  then have "map (length \<circ> concat) (map sm_buffers (se_objs s')) = map (length \<circ> concat) (map sm_buffers (se_objs s))"
    by (simp add: same_view_def)
  then show ?thesis by (simp add: total_buffered_def buffered_def [abs_def] comp_def)
qed

lemma total_set_obj:
  "a < length (se_objs s) \<Longrightarrow> total_buffered (set_obj a st s) + buffered (obj s a) = total_buffered s + buffered st"
  using elem_le_sum_list [of a "map buffered (se_objs s)"]
  by (simp add: total_buffered_def set_obj_def map_update sum_list_update)

lemma total_fields [simp]: "total_buffered (s\<lparr>se_bucket := b\<rparr>) = total_buffered s"
  "total_buffered (s\<lparr>se_streams := m\<rparr>) = total_buffered s"
  by (simp_all add: total_buffered_def)

lemma changed_bucket:
  assumes "change_ok c s"
  shows "se_bucket (changed c s) + word_of_nat (total_buffered (changed c s)) = se_bucket s + word_of_nat (total_buffered s)"
proof (cases c)
  case (Added st)
  with assms show ?thesis by (simp add: total_buffered_def buffered_def add_obj_def)
next
  case (Got a buf)
  with assms total_set_obj [of a s "(obj s a)\<lparr>sm_buffers := sm_buffers (obj s a) @ [buf]\<rparr>"]
  have "total_buffered (set_obj a ((obj s a)\<lparr>sm_buffers := sm_buffers (obj s a) @ [buf]\<rparr>) s) = total_buffered s + length buf"
    by (simp add: buffered_def)
  with Got show ?thesis by (simp add: set_obj_def)
next
  case (Gave a bs st)
  with assms total_set_obj [of a s st] have "total_buffered s = total_buffered (set_obj a st s) + length bs"
    by (simp add: buffered_def)
  with Gave show ?thesis by (simp add: set_obj_def)
next
  case (Recycled a)
  with assms total_set_obj [of a s "(obj s a)\<lparr>sm_buffers := []\<rparr>"]
  have "total_buffered s = total_buffered (set_obj a ((obj s a)\<lparr>sm_buffers := []\<rparr>) s) + buffered (obj s a)"
    by (simp add: buffered_def)
  with Recycled show ?thesis by (simp add: set_obj_def)
qed simp

definition tokens_ok :: "nat \<Rightarrow> mux_session \<Rightarrow> bool" where
  "tokens_ok m s \<longleftrightarrow> table_ok s \<and> se_bucket s + word_of_nat (total_buffered s) = word_of_nat m \<and>
     (m < 2 ^ 31 \<and> \<not> se_die s \<longrightarrow> total_buffered s < (if se_header s = None then m + 65535 else m))"

lemma bucket_value:
  assumes "se_bucket s + word_of_nat t = word_of_nat m" and "m < 2 ^ 31" and "t < m + 65535"
  shows "sint (se_bucket s) = int m - int t"
proof -
  have "se_bucket s = word_of_int (int m - int t)"
    using assms(1) by (simp add: eq_diff_eq)
  moreover have "sint (word_of_int (int m - int t) :: u32) = int m - int t"
    by (rule sint_word_of_int) (use assms(2,3) in simp_all)
  ultimately show ?thesis by (simp only:)
qed

lemma total_grows:
  assumes "change_ok c s"
  shows "total_buffered (changed c s) \<le> total_buffered s + (case c of Got _ buf \<Rightarrow> length buf | _ \<Rightarrow> 0)"
proof (cases c)
  case (Got a buf)
  with assms total_set_obj [of a s "(obj s a)\<lparr>sm_buffers := sm_buffers (obj s a) @ [buf]\<rparr>"]
  show ?thesis by (simp add: buffered_def set_obj_def total_buffered_def)
next
  case (Gave a bs st)
  with assms total_set_obj [of a s st] show ?thesis by (simp add: buffered_def)
next
  case (Recycled a)
  with assms total_set_obj [of a s "(obj s a)\<lparr>sm_buffers := []\<rparr>"] show ?thesis by (simp add: buffered_def)
qed (use assms in \<open>simp_all add: total_buffered_def add_obj_def buffered_def\<close>)

lemma tokens_ok_step:
  assumes "step_as c s s'" and "tokens_ok m s"
  shows "tokens_ok m s'"
proof -
  have c: "change_ok c s" "same_view (changed c s) s'" "header_ok c s s'"
    using assms(1) by (simp_all add: step_as_def)
  have table: "table_ok s'" using changed_table [OF c(1)] table_ok_view [OF c(2)] assms(2) by (simp add: tokens_ok_def)
  have bucket: "se_bucket s' + word_of_nat (total_buffered s') = word_of_nat m"
    using changed_bucket [OF c(1)] buffered_view [OF c(2)] c(2) assms(2) by (simp add: tokens_ok_def same_view_def)
  have "total_buffered s' < (if se_header s' = None then m + 65535 else m)" if m: "m < 2 ^ 31" "\<not> se_die s'"
  proof -
    have "se_die (changed c s) = se_die s" by (cases c) (simp_all add: set_obj_def add_obj_def)
    then have live: "\<not> se_die s" using m(2) c(2) by (auto simp: same_view_def)
    then have old: "total_buffered s < (if se_header s = None then m + 65535 else m)"
      using assms(2) m(1) by (simp add: tokens_ok_def)
    have grows: "total_buffered s' \<le> total_buffered s + (case c of Got _ buf \<Rightarrow> length buf | _ \<Rightarrow> 0)"
      using total_grows [OF c(1)] buffered_view [OF c(2)] by simp
    show ?thesis
    proof (cases "se_header s = None \<and> se_header s' \<noteq> None")
      case True
      then have "c = NoChange" "0 < sint (se_bucket s)"
        using c(3) live by (auto simp: header_ok_def split: change.splits)
      moreover have "sint (se_bucket s) = int m - int (total_buffered s)"
        using bucket_value [of s "total_buffered s" m] assms(2) m(1) old True by (simp add: tokens_ok_def)
      ultimately show ?thesis using grows True by simp
    next
      case False
      with c grows old show ?thesis
        by (cases c) (auto simp: header_ok_def split: if_splits)
    qed
  qed
  with table bucket show ?thesis by (simp add: tokens_ok_def)
qed

lemma tokens_ok_new:
  assumes "mux_new src config client = Ok s"
  shows "tokens_ok (cf_max_receive_buffer config) s"
  using assms by (auto simp: mux_new_def tokens_ok_def table_ok_def total_buffered_def split: option.splits)

lemma tokens_ok_run: "smux_run s evs s' \<Longrightarrow> tokens_ok m s \<Longrightarrow> tokens_ok m s'"
proof (induction rule: smux_run.induct)
  case (more s evs s1 ev s2)
  then have "tokens_ok m s1" by simp
  with step_change [OF more.hyps(2)] tokens_ok_step show ?case unfolding tokens_ok_def by blast
qed

text \<open>
  C18: the receive budget is conserved: whatever the peer sends and the callers do, the
  tokens and the bytes buffered in all streams add up to the configured maximum.  So
  while the session lives its streams never hold more than that maximum and one frame
  that arrived with the last token.
\<close>

theorem receive_budget_conserved:
  assumes "mux_new src config client = Ok s0" and "smux_run s0 evs s"
  shows "se_bucket s + word_of_nat (total_buffered s) = word_of_nat (cf_max_receive_buffer config) \<and>
    (cf_max_receive_buffer config < 2 ^ 31 \<and> \<not> se_die s \<longrightarrow>
      total_buffered s \<le> cf_max_receive_buffer config + 65534 \<and>
      sint (se_bucket s) = int (cf_max_receive_buffer config) - int (total_buffered s))"
proof -
  let ?m = "cf_max_receive_buffer config"
  have ok: "tokens_ok ?m s" using tokens_ok_run [OF assms(2)] tokens_ok_new [OF assms(1)] by blast
  have "total_buffered s \<le> ?m + 65534 \<and> sint (se_bucket s) = int ?m - int (total_buffered s)"
    if "?m < 2 ^ 31" "\<not> se_die s"
  proof -
    have "total_buffered s < ?m + 65535" using ok that by (auto simp: tokens_ok_def split: if_splits)
    with bucket_value [of s "total_buffered s" ?m] ok that(1) show ?thesis by (simp add: tokens_ok_def)
  qed
  with ok show ?thesis by (simp add: tokens_ok_def)
qed

section \<open>Order\<close>

definition pushed :: "nat \<Rightarrow> smux_event list \<Rightarrow> bytes" where
  "pushed a evs = concat (map (\<lambda>ev. case ev of Pushed b bs \<Rightarrow> if a = b then bs else [] | _ \<Rightarrow> []) evs)"

definition taken :: "nat \<Rightarrow> smux_event list \<Rightarrow> bytes" where
  "taken a evs = concat (map (\<lambda>ev. case ev of Taken b bs \<Rightarrow> if a = b then bs else [] | _ \<Rightarrow> []) evs)"

lemma pushed_snoc [simp]:
  "pushed a (evs @ [Pushed b bs]) = pushed a evs @ (if a = b then bs else [])"
  "pushed a (evs @ [Taken b bs]) = pushed a evs" "pushed a (evs @ [Lost b]) = pushed a evs"
  "pushed a (evs @ [Quiet]) = pushed a evs" "pushed a [] = []"
  by (simp_all add: pushed_def)

lemma taken_snoc [simp]:
  "taken a (evs @ [Taken b bs]) = taken a evs @ (if a = b then bs else [])"
  "taken a (evs @ [Pushed b bs]) = taken a evs" "taken a (evs @ [Lost b]) = taken a evs"
  "taken a (evs @ [Quiet]) = taken a evs" "taken a [] = []"
  by (simp_all add: taken_def)

text \<open>What left an object (\<open>gone\<close>: the bytes its readers got and those of failed reads) and
  what it holds continue each other; while it is in the table nothing is missing, and
  an object that does not exist yet has nothing.\<close>

definition gone_ok :: "nat \<Rightarrow> smux_event list \<Rightarrow> bytes \<Rightarrow> bool" where
  "gone_ok a evs gone \<longleftrightarrow> subseq (taken a evs) gone \<and> (Lost a \<notin> set evs \<longrightarrow> gone = taken a evs)"

definition object_ok :: "nat \<Rightarrow> smux_event list \<Rightarrow> bytes list list \<Rightarrow> bool \<Rightarrow> bool" where
  "object_ok a evs bufs live \<longleftrightarrow>
     (if a < length bufs then \<exists>gone. gone_ok a evs gone \<and> prefix (gone @ concat (bufs ! a)) (pushed a evs) \<and>
        (live \<longrightarrow> pushed a evs = gone @ concat (bufs ! a))
      else pushed a evs = [] \<and> gone_ok a evs [])"

definition in_table :: "mux_session \<Rightarrow> nat \<Rightarrow> bool" where
  "in_table s a \<longleftrightarrow> a < length (se_objs s) \<and> se_streams s (sm_id (obj s a)) = Some a"

definition order_ok :: "smux_event list \<Rightarrow> mux_session \<Rightarrow> bool" where
  "order_ok evs s \<longleftrightarrow> table_ok s \<and> (\<forall>a. object_ok a evs (map sm_buffers (se_objs s)) (in_table s a))"

lemma in_table_view: "same_view s s' \<Longrightarrow> in_table s' a = in_table s a"
proof -
  assume v: "same_view s s'"
  then have ids: "map sm_id (se_objs s') = map sm_id (se_objs s)" by (simp add: same_view_def)
  then have len: "length (se_objs s') = length (se_objs s)" by (rule map_eq_imp_length_eq)
  have "sm_id (obj s' a) = sm_id (obj s a)" if "a < length (se_objs s)"
    using arg_cong [OF ids, of "\<lambda>xs. xs ! a"] that len by simp
  with len v show ?thesis by (auto simp: in_table_def same_view_def)
qed

lemma gone_ok_snoc:
  assumes "gone_ok a evs gone"
  shows "gone_ok a (evs @ [Quiet]) gone" "gone_ok a (evs @ [Pushed b bs]) gone"
    "a \<noteq> b \<Longrightarrow> gone_ok a (evs @ [Taken b bs]) gone" "a \<noteq> b \<Longrightarrow> gone_ok a (evs @ [Lost b]) gone"
    "gone_ok a (evs @ [Taken a bs]) (gone @ bs)" "gone_ok a (evs @ [Lost a]) (gone @ bs)"
proof -
  have "subseq (taken a evs) (gone @ bs)" using assms by (auto simp: gone_ok_def intro: subseq_rev_drop_many)
  then show "gone_ok a (evs @ [Lost a]) (gone @ bs)" by (simp add: gone_ok_def)
qed (use assms in \<open>auto simp: gone_ok_def list_emb_append_mono\<close>)

lemma gave_gone:
  assumes "gone_ok a evs gone" and "labelled (Gave b bs st) ev"
  shows "gone_ok a (evs @ [ev]) (if a = b then gone @ bs else gone)" "pushed a (evs @ [ev]) = pushed a evs"
proof -
  from assms(2) consider "ev = Taken b bs" | "ev = Lost b" | "bs = []" "ev = Quiet" by auto
  then show "gone_ok a (evs @ [ev]) (if a = b then gone @ bs else gone)" "pushed a (evs @ [ev]) = pushed a evs"
    by (cases; use gone_ok_snoc [OF assms(1)] in auto)+
qed

lemma changed_order:
  assumes "change_ok c s" and "order_ok evs s" and "labelled c ev"
  shows "object_ok a (evs @ [ev]) (map sm_buffers (se_objs (changed c s))) (in_table (changed c s) a)"
proof -
  have old: "object_ok a evs (map sm_buffers (se_objs s)) (in_table s a)"
    using assms(2) by (simp add: order_ok_def)
  show ?thesis
  proof (cases "a < length (se_objs s)")
    case False
    with old have none: "pushed a evs = []" "gone_ok a evs []" by (simp_all add: object_ok_def)
    with False assms(1,3) gone_ok_snoc [OF none(2)] show ?thesis
      by (cases c) (auto simp: object_ok_def set_obj_def add_obj_def nth_append less_Suc_eq)
  next
    case True
    with old obtain gone where gone: "gone_ok a evs gone" "prefix (gone @ concat (sm_buffers (obj s a))) (pushed a evs)"
      "in_table s a \<Longrightarrow> pushed a evs = gone @ concat (sm_buffers (obj s a))"
      by (auto simp: object_ok_def)
    show ?thesis
    proof (cases c)
      case (Added st)
      with True gone assms(3) gone_ok_snoc(1) [OF gone(1)] show ?thesis
        by (auto simp: object_ok_def add_obj_def in_table_def nth_append split: if_splits)
    next
      case (Got b buf)
      then have "in_table s b" using assms(1) by (simp add: in_table_def)
      with Got True gone assms(1,3) gone_ok_snoc(2) [OF gone(1)] show ?thesis
        by (auto simp: object_ok_def set_obj_def in_table_def nth_list_update map_update split: if_splits)
    next
      case (Gave b bs st)
      with gave_gone [OF gone(1), of b bs st ev] True gone(2,3) assms(1,3) show ?thesis
        unfolding object_ok_def
        by (intro if_P [THEN iffD2] exI [of _ "if a = b then gone @ bs else gone"])
          (auto simp: set_obj_def in_table_def nth_list_update map_update split: if_splits)
    next
      case (Recycled b)
      with True gone assms(1,3) gone_ok_snoc(1) [OF gone(1)] show ?thesis
        by (auto simp: object_ok_def set_obj_def in_table_def nth_list_update map_update dest: append_prefixD split: if_splits)
    next
      case NoChange
      with True gone assms(3) gone_ok_snoc(1) [OF gone(1)] show ?thesis
        by (auto simp: object_ok_def split: if_splits)
    qed
  qed
qed

lemma order_ok_run: "smux_run s0 evs s \<Longrightarrow> order_ok [] s0 \<Longrightarrow> order_ok evs s"
proof (induction rule: smux_run.induct)
  case (more s evs s1 ev s2)
  then have ok: "order_ok evs s1" by simp
  then have table: "table_ok s1" by (simp add: order_ok_def)
  obtain c where c: "change_ok c s1" "same_view (changed c s1) s2" "labelled c ev"
    using step_change [OF more.hyps(2) table] by (auto simp: step_as_def)
  have "map sm_buffers (se_objs s2) = map sm_buffers (se_objs (changed c s1))" using c(2) by (simp add: same_view_def)
  with changed_order [OF c(1) ok c(3)] in_table_view [OF c(2)] table_ok_view [OF c(2) changed_table [OF c(1) table]]
  show ?case by (simp add: order_ok_def)
qed

text \<open>
  C17: streams do not mix and do not reorder.  What the reads of a stream return to
  their callers is a subsequence of what arrived for it; as long as none of its reads
  failed (a read whose window update cannot be sent loses what it had taken), it is a
  prefix, and while the stream is in the table what is still missing is exactly what it
  holds.
\<close>

theorem streams_keep_order:
  assumes "mux_new src config client = Ok s0" and "smux_run s0 evs s"
  shows "subseq (taken a evs) (pushed a evs) \<and>
    (Lost a \<notin> set evs \<longrightarrow> prefix (taken a evs) (pushed a evs) \<and>
       (se_streams s sid = Some a \<longrightarrow> pushed a evs = taken a evs @ concat (sm_buffers (obj s a))))"
proof -
  have "order_ok [] s0"
    using assms(1) by (auto simp: mux_new_def order_ok_def object_ok_def gone_ok_def taken_def table_ok_def split: option.splits)
  then have ok: "order_ok evs s" by (rule order_ok_run [OF assms(2)])
  then have obj: "object_ok a evs (map sm_buffers (se_objs s)) (in_table s a)" by (simp add: order_ok_def)
  have table: "a < length (se_objs s) \<and> in_table s a" if "se_streams s sid = Some a"
    using ok table_okD [of s sid a] that by (auto simp: order_ok_def in_table_def)
  show ?thesis
  proof (cases "a < length (se_objs s)")
    case True
    with obj obtain gone where gone: "gone_ok a evs gone" "prefix (gone @ concat (sm_buffers (obj s a))) (pushed a evs)"
      "in_table s a \<Longrightarrow> pushed a evs = gone @ concat (sm_buffers (obj s a))"
      by (auto simp: object_ok_def)
    then have "subseq (taken a evs) (pushed a evs)"
      unfolding gone_ok_def by (meson append_prefixD prefix_imp_subseq subseq_order.trans)
    with gone table show ?thesis by (auto simp: gone_ok_def append_prefixD)
  next
    case False
    with obj table show ?thesis by (auto simp: object_ok_def gone_ok_def)
  qed
qed

section \<open>A run\<close>

lemma after_syn:
  fixes src :: source
  defines "s \<equiv> (handled syn_request fresh_server)\<lparr>se_source := src, se_header := None\<rparr>"
  assumes "src_flat src = (frame_header push_request @ three_bytes, StillOpen)"
  shows "ready_for s (frame_header push_request @ rq_data push_request @ []) StillOpen"
    "se_streams s 3 = Some 0" "obj s 0 = stream_new 3 32768" "length (se_objs s) = 1" "cf_version (se_config s) = 1"
  using assms(2)
  by (simp_all add: s_def ready_for_def handled_def syn_request_def push_request_def recv_syn_def fresh_server add_obj_def
      ACCEPT_BACKLOG_def stream_new_def config_default_def)

lemma two_frames_run:
  obtains s where "smux_run fresh_server [Quiet, Quiet, Quiet, Pushed 0 three_bytes] s"
    "total_buffered s = 3" "se_streams s 3 = Some 0"
proof -
  obtain a where a: "src_flat a = (rq_data syn_request @ frame_header push_request @ three_bytes, StillOpen)"
    "recv_header fresh_server = Some (fresh_server\<lparr>se_source := a, se_data_ready := True, se_header := Some (frame_header syn_request)\<rparr>)"
    (is "_ = Some ?h1")
    using recv_header_frame [OF fresh_server(2)] by (auto simp: fresh_server config_default_def syn_request_def)
  obtain b where b: "recv_body ?h1 = Some ((handled syn_request fresh_server)\<lparr>se_source := b, se_header := None\<rparr>)"
      (is "_ = Some ?s1")
    "src_flat b = (frame_header push_request @ three_bytes, StillOpen)"
    by (rule recv_body_frame [OF a(1) requests_formed(1)])
  note s1 = after_syn [OF b(2)]
  obtain c where c: "src_flat c = (rq_data push_request @ [], StillOpen)"
    "recv_header ?s1 = Some (?s1\<lparr>se_source := c, se_data_ready := True, se_header := Some (frame_header push_request)\<rparr>)"
    (is "_ = Some ?h2")
    using recv_header_frame [OF s1(1)] s1(5) by (auto simp: push_request_def three_bytes_def)
  obtain d where d: "recv_body ?h2 = Some ((handled push_request ?s1)\<lparr>se_source := d, se_header := None\<rparr>)"
      (is "_ = Some ?s2")
    by (rule recv_body_frame [OF c(1) requests_formed(2)])
  have parts: "frame_header syn_request ! 1 = CMD_SYN" "frame_header push_request ! 1 = CMD_PSH"
    "nat_of_le (slice 2 4 (frame_header push_request)) = 3"
    "(word_of_nat (nat_of_le (slice 4 8 (frame_header push_request))) :: u32) = 3"
    using frame_header_parts [of syn_request] frame_header_parts [of push_request]
    by (simp_all add: syn_request_def push_request_def three_bytes_def)
  have "fst (read_exact 3 c) = Done three_bytes"
    using src.exact_enough [OF c(1), of 3] by (auto simp: push_request_def three_bytes_def)
  then have "body_event ?h1 = Quiet" "body_event ?h2 = Pushed 0 three_bytes"
    using s1(2) parts by (auto simp: body_event_def CMD_SYN_def CMD_PSH_def split: prod.split)
  note steps = smux_step.recv_header [OF a(2)] smux_step.recv_body [OF b(1), unfolded this(1)]
    smux_step.recv_header [OF c(2)] smux_step.recv_body [OF d(1), unfolded this(2)]
  have run: "smux_run fresh_server (((([] @ [Quiet]) @ [Quiet]) @ [Quiet]) @ [Pushed 0 three_bytes]) ?s2"
    by (intro smux_run.more [OF _ steps(4)] smux_run.more [OF _ steps(3)] smux_run.more [OF _ steps(2)]
        smux_run.more [OF smux_run.start steps(1)])
  have "se_objs ?s2 = [(obj ?s1 0)\<lparr>sm_buffers := [three_bytes], sm_read_event := True\<rparr>]" "se_streams ?s2 3 = Some 0"
    using s1(2,3,4) unfolding handled_def [of push_request]
    by (auto simp: push_request_def recv_push_def set_obj_def smux_consts three_bytes_def stream_new_def length_Suc_conv)
  then have "total_buffered ?s2 = 3" "se_streams ?s2 3 = Some 0" by (simp_all add: total_buffered_def buffered_def three_bytes_def)
  with run that show thesis by simp
qed

theorem receive_budget_conserved_witness:
  "\<exists>s. smux_run fresh_server [Quiet, Quiet, Quiet, Pushed 0 three_bytes] s \<and> total_buffered s = 3 \<and>
     se_bucket s = 4194301"
proof -
  obtain s where s: "smux_run fresh_server [Quiet, Quiet, Quiet, Pushed 0 three_bytes] s" "total_buffered s = 3"
    by (rule two_frames_run)
  from receive_budget_conserved [OF fresh_server(1) s(1)] s(2) have "se_bucket s + 3 = 4194304"
    by (simp add: config_default_def)
  then have "se_bucket s = 4194304 - 3" by (simp only: eq_diff_eq)
  with s show ?thesis by auto
qed

theorem streams_keep_order_witness:
  "\<exists>s. smux_run fresh_server [Quiet, Quiet, Quiet, Pushed 0 three_bytes] s \<and> concat (sm_buffers (obj s 0)) = three_bytes"
proof -
  obtain s where s: "smux_run fresh_server [Quiet, Quiet, Quiet, Pushed 0 three_bytes] s" "se_streams s 3 = Some 0"
    by (rule two_frames_run)
  from streams_keep_order [OF fresh_server(1) s(1), of 0 3] s(2)
  have "concat (sm_buffers (obj s 0)) = three_bytes" by (simp add: pushed_def taken_def)
  with s(1) show ?thesis by blast
qed

end
