(* ===== verification/Text.thy ===== *)
theory Text
  imports PtArgs
begin

text \<open>
  The string functions of the Rust standard library that the parsers use, on UTF-8
  bytes: ASCII case, splitting, trimming, searching and parsing of unsigned numbers.
\<close>

section \<open>Case\<close>

definition lower :: "u8 \<Rightarrow> u8" where "lower c = (if 65 \<le> c \<and> c \<le> 90 then c + 32 else c)"

definition eq_ignore_case :: "bytes \<Rightarrow> bytes \<Rightarrow> bool" where
  "eq_ignore_case a b \<longleftrightarrow> map lower a = map lower b"

lemma eq_ignore_case_refl [simp]: "eq_ignore_case a a" by (simp add: eq_ignore_case_def)

definition is_alpha :: "u8 \<Rightarrow> bool" where "is_alpha c \<longleftrightarrow> (65 \<le> c \<and> c \<le> 90) \<or> (97 \<le> c \<and> c \<le> 122)"
definition is_digit :: "u8 \<Rightarrow> bool" where "is_digit c \<longleftrightarrow> 48 \<le> c \<and> c \<le> 57"

section \<open>Splitting\<close>

text \<open>\<open>split\<close> and \<open>split_once\<close> at a byte.\<close>

fun split_on :: "u8 \<Rightarrow> bytes \<Rightarrow> bytes list" where
  "split_on c [] = [[]]"
| "split_on c (x # xs) = (if x = c then [] # split_on c xs
     else case split_on c xs of [] \<Rightarrow> [[x]] | p # ps \<Rightarrow> (x # p) # ps)"

fun split_once :: "u8 \<Rightarrow> bytes \<Rightarrow> (bytes \<times> bytes) option" where
  "split_once c [] = None"
| "split_once c (x # xs) =
     (if x = c then Some ([], xs) else map_option (\<lambda>(a, b). (x # a, b)) (split_once c xs))"

lemma split_on_not_Nil [simp]: "split_on c s \<noteq> []"
  by (induction s) (auto split: list.split)

lemma split_on_none: "c \<notin> set s \<Longrightarrow> split_on c s = [s]"
  by (induction s) auto

lemma split_on_append: "c \<notin> set s \<Longrightarrow> split_on c (s @ c # t) = s # split_on c t"
  by (induction s) auto

lemma split_once_append: "c \<notin> set s \<Longrightarrow> split_once c (s @ c # t) = Some (s, t)"
  by (induction s) auto

text \<open>\<open>split("\r\n")\<close>.\<close>

fun split_crlf :: "bytes \<Rightarrow> bytes list" where
  "split_crlf (x # y # xs) =
     (if x = 13 \<and> y = 10 then [] # split_crlf xs
      else case split_crlf (y # xs) of [] \<Rightarrow> [[x]] | p # ps \<Rightarrow> (x # p) # ps)"
| "split_crlf s = [s]"

lemma split_crlf_not_Nil [simp]: "split_crlf s \<noteq> []"
  by (induction s rule: split_crlf.induct) (auto split: list.split)

lemma split_crlf_none: "13 \<notin> set s \<Longrightarrow> split_crlf s = [s]"
  by (induction s rule: split_crlf.induct) auto

lemma split_crlf_append: "13 \<notin> set s \<Longrightarrow> split_crlf (s @ 13 # 10 # t) = s # split_crlf t"
proof (induction s)
  case (Cons x s)
  then show ?case by (cases s) auto
qed simp

section \<open>Trimming\<close>

text \<open>The characters of Unicode's \<open>White_Space\<close>, in UTF-8.\<close>

definition white_space :: "bytes list" where
  "white_space = map (\<lambda>c. [c]) [9, 10, 11, 12, 13, 32] @ [[0xC2, 0x85], [0xC2, 0xA0], [0xE1, 0x9A, 0x80]] @
     map (\<lambda>c. [0xE2, 0x80, c]) [0x80, 0x81, 0x82, 0x83, 0x84, 0x85, 0x86, 0x87, 0x88, 0x89, 0x8A, 0xA8, 0xA9, 0xAF] @
     [[0xE2, 0x81, 0x9F], [0xE3, 0x80, 0x80]]"

definition starts_with :: "bytes \<Rightarrow> bytes \<Rightarrow> bool" where
  "starts_with p s \<longleftrightarrow> take (length p) s = p"

fun strip_prefixes :: "nat \<Rightarrow> bytes list \<Rightarrow> bytes \<Rightarrow> bytes" where
  "strip_prefixes 0 ws s = s"
| "strip_prefixes (Suc k) ws s =
     (case filter (\<lambda>w. starts_with w s) ws of [] \<Rightarrow> s | w # _ \<Rightarrow> strip_prefixes k ws (drop (length w) s))"

text \<open>A string has at most as many characters as bytes, so the count is enough.\<close>

definition trim_start :: "bytes \<Rightarrow> bytes" where "trim_start s = strip_prefixes (length s) white_space s"
definition trim_end :: "bytes \<Rightarrow> bytes" where
  "trim_end s = rev (strip_prefixes (length s) (map rev white_space) (rev s))"
definition trim :: "bytes \<Rightarrow> bytes" where "trim s = trim_end (trim_start s)"

definition trimmed :: "bytes \<Rightarrow> bool" where
  "trimmed s \<longleftrightarrow> list_all (\<lambda>w. \<not> starts_with w s \<and> \<not> starts_with (rev w) (rev s)) white_space"

lemma strip_prefixes_none: "list_all (\<lambda>w. \<not> starts_with w s) ws \<Longrightarrow> strip_prefixes k ws s = s"
  by (cases k) (auto simp: list_all_iff filter_empty_conv split: list.split)

lemma trim_start_trimmed: "trimmed s \<Longrightarrow> trim_start s = s"
  unfolding trim_start_def by (rule strip_prefixes_none) (simp add: trimmed_def list_all_iff)

lemma trim_end_trimmed: "trimmed s \<Longrightarrow> trim_end s = s"
  unfolding trim_end_def by (subst strip_prefixes_none) (simp_all add: trimmed_def list_all_iff)

lemma trim_trimmed: "trimmed s \<Longrightarrow> trim s = s"
  by (simp add: trim_def trim_start_trimmed trim_end_trimmed)

text \<open>What begins with a space otherwise trimmed.\<close>

lemma trim_space: "s \<noteq> [] \<Longrightarrow> trimmed s \<Longrightarrow> trim (32 # s) = s"
proof -
  assume s: "s \<noteq> []" "trimmed s"
  have "filter (\<lambda>w. starts_with w (32 # s)) white_space = [[32]]"
    by (simp add: white_space_def starts_with_def)
  then have "trim_start (32 # s) = strip_prefixes (length s) white_space s" by (simp add: trim_start_def)
  also have "\<dots> = s" by (rule strip_prefixes_none) (use s(2) in \<open>simp add: trimmed_def list_all_iff\<close>)
  finally show ?thesis using s(2) by (simp add: trim_def trim_end_trimmed)
qed

section \<open>Words\<close>

text \<open>\<open>split_whitespace\<close>: the pieces between runs of white space.\<close>

definition space_at :: "bytes \<Rightarrow> nat option" where
  "space_at s = (case filter (\<lambda>w. starts_with w s) white_space of [] \<Rightarrow> None | w # _ \<Rightarrow> Some (length w))"

text \<open>\<open>w\<close> is the piece under way.\<close>

function words_from :: "bytes \<Rightarrow> bytes \<Rightarrow> bytes list" where
  "words_from w [] = (if w = [] then [] else [w])"
| "words_from w (c # s) =
     (case space_at (c # s) of
        None \<Rightarrow> words_from (w @ [c]) s
      | Some n \<Rightarrow> (if w = [] then [] else [w]) @ words_from [] (drop (n - 1) s))"
  by pat_completeness auto
termination by (relation "measure (\<lambda>(_, s). length s)") auto

declare words_from.simps [simp del]

definition split_whitespace :: "bytes \<Rightarrow> bytes list" where "split_whitespace s = words_from [] s"

text \<open>Words without white space, and where they end.\<close>

definition plain_word :: "bytes \<Rightarrow> bool" where
  "plain_word w \<longleftrightarrow> w \<noteq> [] \<and> list_all (\<lambda>c. 32 < c \<and> c < 128) w"

lemma white_space_heads: "list_all (\<lambda>w. w \<noteq> [] \<and> (hd w \<le> 32 \<or> 128 \<le> hd w)) white_space"
  by (simp add: white_space_def)

lemma space_at_plain: "32 < c \<Longrightarrow> c < 128 \<Longrightarrow> space_at (c # s) = None"
proof -
  assume c: "32 < c" "c < 128"
  have "\<not> starts_with w (c # s)" if "w \<in> set white_space" for w
  proof
    assume "starts_with w (c # s)"
    moreover have "w \<noteq> []" "hd w \<le> 32 \<or> 128 \<le> hd w" using white_space_heads that by (auto simp: list_all_iff)
    ultimately have "hd w = c" by (cases w) (auto simp: starts_with_def)
    with \<open>hd w \<le> 32 \<or> 128 \<le> hd w\<close> c show False by (auto simp: not_less [symmetric])
  qed
  then have "filter (\<lambda>w. starts_with w (c # s)) white_space = []" by (simp add: filter_empty_conv)
  then show ?thesis by (simp add: space_at_def)
qed

lemma space_at_space: "space_at (32 # s) = Some 1"
  by (simp add: space_at_def white_space_def starts_with_def)

lemma words_from_plain: "list_all (\<lambda>c. 32 < c \<and> c < 128) v \<Longrightarrow> words_from w (v @ s) = words_from (w @ v) s"
  by (induction v arbitrary: w) (auto simp: words_from.simps(2) space_at_plain)

lemma split_whitespace_word: "plain_word v \<Longrightarrow> split_whitespace v = [v]"
  using words_from_plain [of v "[]" "[]"] by (simp add: split_whitespace_def plain_word_def words_from.simps(1))

lemma split_whitespace_words: "plain_word v \<Longrightarrow> split_whitespace (v @ 32 # s) = v # split_whitespace s"
  using words_from_plain [of v "[]" "32 # s"] by (simp add: split_whitespace_def plain_word_def words_from.simps(2) space_at_space)

section \<open>Searching\<close>

text \<open>\<open>windows(needle.len()).position(|w| w == needle)\<close>, for a needle that is not empty.\<close>

fun find_sub :: "bytes \<Rightarrow> bytes \<Rightarrow> nat option" where
  "find_sub pat [] = None"
| "find_sub pat (x # xs) = (if starts_with pat (x # xs) then Some 0 else map_option Suc (find_sub pat xs))"

lemma find_sub_bound: "find_sub pat s = Some i \<Longrightarrow> i + length pat \<le> length s \<and> starts_with pat (drop i s)"
proof (induction s arbitrary: i)
  case (Cons x s)
  show ?case
  proof (cases "starts_with pat (x # s)")
    case True
    with Cons.prems have "i = 0" by simp
    moreover have "length pat \<le> length (x # s)"
      using True unfolding starts_with_def by (metis length_take min.cobounded2 min_def nat_le_linear)
    ultimately show ?thesis using True by simp
  next
    case False
    with Cons show ?thesis by auto
  qed
qed simp

lemma starts_with_append: "starts_with p s \<Longrightarrow> starts_with p (s @ t)"
  by (metis append_take_drop_id append.assoc append_eq_conv_conj starts_with_def)

lemma starts_with_long: "length p \<le> length s \<Longrightarrow> starts_with p (s @ t) = starts_with p s"
  by (simp add: starts_with_def)

lemma find_sub_append: "find_sub pat s = Some i \<Longrightarrow> find_sub pat (s @ t) = Some i"
proof (induction s arbitrary: i)
  case (Cons x s)
  show ?case
  proof (cases "starts_with pat (x # s)")
    case True
    then show ?thesis using Cons.prems starts_with_append [of pat "x # s" t] by simp
  next
    case False
    then obtain j where j: "find_sub pat s = Some j" "i = Suc j" using Cons.prems by auto
    have "starts_with pat ((x # s) @ t) = starts_with pat (x # s)"
      by (rule starts_with_long) (use find_sub_bound [OF j(1)] in simp)
    with False j Cons.IH show ?thesis by simp
  qed
qed simp

lemma find_sub_prefix: "find_sub pat (s @ t) = Some i \<Longrightarrow> i + length pat \<le> length s \<Longrightarrow> pat \<noteq> [] \<Longrightarrow> find_sub pat s = Some i"
proof (induction s arbitrary: i)
  case (Cons x s)
  show ?case
  proof (cases i)
    case 0
    with Cons.prems have "starts_with pat ((x # s) @ t)" by (auto split: if_splits)
    moreover have "length pat \<le> length (x # s)" using Cons.prems(2) by simp
    ultimately show ?thesis using 0 starts_with_long [of pat "x # s" t] by simp
  next
    case (Suc j)
    with Cons.prems have "find_sub pat (s @ t) = Some j" "\<not> starts_with pat ((x # s) @ t)"
      by (auto split: if_splits)
    with Suc Cons show ?thesis using starts_with_append [of pat "x # s" t] by auto
  qed
qed simp

text \<open>The first occurrence: nothing of the pattern begins before it.\<close>

lemma find_sub_first:
  assumes "\<forall>i < length s. \<not> starts_with pat (drop i (s @ pat @ t))" and "pat \<noteq> []"
  shows "find_sub pat (s @ pat @ t) = Some (length s)"
  using assms(1)
proof (induction s)
  case Nil
  then show ?case using assms(2) by (cases pat) (simp_all add: starts_with_def)
next
  case (Cons x s)
  have "\<not> starts_with pat (x # s @ pat @ t)" using Cons.prems by (metis append_Cons drop0 length_greater_0_conv list.simps(3))
  moreover have "find_sub pat (s @ pat @ t) = Some (length s)"
    using Cons.prems by (intro Cons.IH) (auto dest: spec [where x = "Suc _"])
  ultimately show ?case by simp
qed

section \<open>Numbers\<close>

text \<open>\<open>from_str_radix\<close> of an unsigned integer up to \<open>mx\<close>: a plus sign is accepted.\<close>

definition digit_value :: "nat \<Rightarrow> u8 \<Rightarrow> nat option" where
  "digit_value radix c =
     (let v = if is_digit c then unat c - 48
              else if 97 \<le> c \<and> c \<le> 122 then unat c - 87
              else if 65 \<le> c \<and> c \<le> 90 then unat c - 55 else 36
      in if v < radix then Some v else None)"

fun digits_to_nat :: "nat \<Rightarrow> nat \<Rightarrow> nat \<Rightarrow> bytes \<Rightarrow> nat option" where
  "digits_to_nat radix mx n [] = Some n"
| "digits_to_nat radix mx n (c # s) =
     (case digit_value radix c of
        None \<Rightarrow> None
      | Some v \<Rightarrow> if n * radix + v \<le> mx then digits_to_nat radix mx (n * radix + v) s else None)"

definition parse_unsigned :: "nat \<Rightarrow> nat \<Rightarrow> bytes \<Rightarrow> nat option" where
  "parse_unsigned radix mx s =
     (let s' = (case s of c # r \<Rightarrow> if c = 43 then r else s | [] \<Rightarrow> [])
      in if s' = [] then None else digits_to_nat radix mx 0 s')"

lemma digits_to_nat_append:
  "digits_to_nat radix mx n (s @ t) = (case digits_to_nat radix mx n s of None \<Rightarrow> None | Some m \<Rightarrow> digits_to_nat radix mx m t)"
  by (induction radix mx n s rule: digits_to_nat.induct) (auto split: option.split)

lemma ascii_append [simp]: "ascii (s @ t) = ascii s @ ascii t" by (simp add: ascii_def)

lemma digit_value_dec: "d < 10 \<Longrightarrow> digit_value 10 (word_of_nat (48 + d)) = Some d"
proof -
  assume "d < 10"
  then have "unat (word_of_nat (48 + d) :: u8) = 48 + d" by (simp only: unat_byte) simp
  then have "unat (word_of_nat (48 + d) :: u8) = 48 + d" "is_digit (word_of_nat (48 + d))"
    using \<open>d < 10\<close> by (simp_all add: is_digit_def word_le_nat_alt)
  with \<open>d < 10\<close> show ?thesis by (simp only: digit_value_def Let_def if_True) simp
qed

lemma ascii_single: "d < 10 \<Longrightarrow> ascii [char_of (48 + d)] = [word_of_nat (48 + d)]"
  by (simp only: ascii_def list.map of_char_digit)

lemma digits_to_nat_dec: "n \<le> mx \<Longrightarrow> digits_to_nat 10 mx 0 (ascii (dec_nat n)) = Some n"
proof (induction n rule: dec_nat.induct)
  case (1 n)
  show ?case
  proof (cases "n < 10")
    case True
    then have "ascii (dec_nat n) = [word_of_nat (48 + n)]" using ascii_single [of n] by (simp only: dec_nat.simps [of n] if_True)
    with True 1 digit_value_dec [of n] show ?thesis by (simp del: of_nat_add)
  next
    case False
    then have "ascii (dec_nat n) = ascii (dec_nat (n div 10)) @ [word_of_nat (48 + n mod 10)]"
      using ascii_single [of "n mod 10"] by (simp only: dec_nat.simps [of n] if_False ascii_append)
    moreover have "digits_to_nat 10 mx 0 (ascii (dec_nat (n div 10))) = Some (n div 10)"
      using 1 False by simp
    ultimately show ?thesis using 1(2) digit_value_dec [of "n mod 10"]
      by (simp add: digits_to_nat_append del: of_nat_add)
  qed
qed

lemma parse_dec: "n \<le> mx \<Longrightarrow> parse_unsigned 10 mx (ascii (dec_nat n)) = Some n"
proof -
  assume n: "n \<le> mx"
  obtain c r where c: "dec_nat n = c # r" by (cases "dec_nat n") auto
  have "(of_char c :: nat) \<noteq> 43" using dec_nat_digits [of c n] c by auto
  moreover have "(of_char c :: nat) < 256" by simp
  ultimately have "(word_of_nat (of_char c) :: u8) \<noteq> 43" by (simp add: word_unat_eq_iff)
  with c digits_to_nat_dec [OF n] show ?thesis by (simp add: parse_unsigned_def ascii_def)
qed

end
