(* ===== verification/Await.thy ===== *)
theory Await
  imports Prelude
begin

text \<open>
  Results of functions that wait for a stream: \<open>None\<close> is still waiting.  \<open>await\<close> is the
  \<open>.await?\<close> of the source: go on with the value, or return the error or the wait.
\<close>

type_synonym ('a, 'e, 's) await = "('a, 'e) res option \<times> 's"

fun await :: "('a, 'e, 's) await \<Rightarrow> ('a \<Rightarrow> 's \<Rightarrow> ('b, 'e, 's) await) \<Rightarrow> ('b, 'e, 's) await" where
  "await (Some (Ok a), c) f = f a c"
| "await (Some (Err e), c) f = (Some (Err e), c)"
| "await (Some Panic, c) f = (Some Panic, c)"
| "await (None, c) f = (None, c)"

lemma await_cong [fundef_cong]:
  "m = m' \<Longrightarrow> (\<And>a c. m' = (Some (Ok a), c) \<Longrightarrow> f a c = f' a c) \<Longrightarrow> await m f = await m' f'"
  by (cases "(m', f')" rule: await.cases) auto

lemma await_ok: "await m f = (Some (Ok b), c') \<longleftrightarrow> (\<exists>a c. m = (Some (Ok a), c) \<and> f a c = (Some (Ok b), c'))"
  by (cases "(m, f)" rule: await.cases) auto

end
