(* ===== verification/Http.thy ===== *)
theory Http
  imports Text ByteSource Await
begin

text \<open>
  HTTP/1.1 messages, from \<open>src/shared/domain/http.rs\<close>: the encoding of requests, and the
  reading of response heads and bodies over a stream that arrives in pieces.  The
  connection is its buffer and what the stream will still deliver.  What the
  client takes from a URL (\<open>dial_addr\<close>, \<open>host_header\<close>) is in \<open>HttpClient\<close>.
\<close>

section \<open>Requests\<close>

definition GO_USER_AGENT :: bytes where "GO_USER_AGENT = ascii ''Go-http-client/1.1''"
definition MAX_HEADER_BYTES :: nat where "MAX_HEADER_BYTES = 1048576"

abbreviation CRLF :: bytes where "CRLF \<equiv> [13, 10]"

record http_request =
  hr_method :: bytes
  hr_target :: bytes
  hr_host :: bytes
  hr_headers :: "(bytes \<times> bytes) list"
  hr_body :: "bytes option"
  hr_gzip :: bool

text \<open>\<open>sort_by\<close> on the names, stable.\<close>

fun insert_header :: "bytes \<times> bytes \<Rightarrow> (bytes \<times> bytes) list \<Rightarrow> (bytes \<times> bytes) list" where
  "insert_header h [] = [h]"
| "insert_header h (g # gs) = (if bytes_less (fst g) (fst h) then g # insert_header h gs else h # g # gs)"

definition sort_headers :: "(bytes \<times> bytes) list \<Rightarrow> (bytes \<times> bytes) list" where
  "sort_headers hs = foldr insert_header hs []"

abbreviation is_user_agent :: "bytes \<times> bytes \<Rightarrow> bool" where
  "is_user_agent h \<equiv> eq_ignore_case (fst h) (ascii ''user-agent'')"

definition user_agent :: "http_request \<Rightarrow> bytes" where
  "user_agent r = (case find is_user_agent (hr_headers r) of None \<Rightarrow> GO_USER_AGENT | Some (_, v) \<Rightarrow> v)"

definition request_lines :: "http_request \<Rightarrow> bytes list" where
  "request_lines r =
     [hr_method r @ ascii '' '' @ hr_target r @ ascii '' HTTP/1.1'', ascii ''Host: '' @ hr_host r] @
     (if user_agent r \<noteq> [] then [ascii ''User-Agent: '' @ user_agent r] else []) @
     (case hr_body r of None \<Rightarrow> [] | Some b \<Rightarrow> [ascii ''Content-Length: '' @ ascii (dec_nat (length b))]) @
     map (\<lambda>(k, v). k @ ascii '': '' @ v) (sort_headers (filter (\<lambda>h. \<not> is_user_agent h) (hr_headers r))) @
     (if hr_gzip r then [ascii ''Accept-Encoding: gzip''] else [])"

definition encode_lines :: "bytes list \<Rightarrow> bytes" where
  "encode_lines ls = concat (map (\<lambda>l. l @ CRLF) ls) @ CRLF"

definition encode_request :: "http_request \<Rightarrow> bytes" where
  "encode_request r = encode_lines (request_lines r) @ (case hr_body r of None \<Rightarrow> [] | Some b \<Rightarrow> b)"

section \<open>Response heads\<close>

datatype http_error = MalformedResponse | MalformedVersion bytes | MalformedStatus bytes | MalformedHeader bytes
  | HeadersTooLong | MalformedChunk | BadChunkLength | BadContentLength bytes | HttpEof | HttpIo io_kind

record response_head =
  hd_minor :: nat
  hd_status :: nat
  hd_text :: bytes
  hd_headers :: "(bytes \<times> bytes) list"

definition head_header :: "bytes \<Rightarrow> response_head \<Rightarrow> bytes option" where
  "head_header name h = map_option snd (find (\<lambda>kv. eq_ignore_case (fst kv) name) (hd_headers h))"

definition has_token :: "bytes \<Rightarrow> bytes \<Rightarrow> response_head \<Rightarrow> bool" where
  "has_token name token h =
     list_ex (\<lambda>t. eq_ignore_case (trim t) token)
       (concat (map (\<lambda>(_, v). split_on 44 v) (filter (\<lambda>kv. eq_ignore_case (fst kv) name) (hd_headers h))))"

fun parse_headers :: "bytes list \<Rightarrow> ((bytes \<times> bytes) list, http_error) res" where
  "parse_headers [] = Ok []"
| "parse_headers (line # ls) =
     (if line = [] then parse_headers ls
      else case split_once 58 line of
        None \<Rightarrow> Err (MalformedHeader line)
      | Some (k, v) \<Rightarrow> map_ok (\<lambda>hs. (trim k, trim v) # hs) (parse_headers ls))"

definition parse_status :: "bytes \<Rightarrow> (nat \<times> nat \<times> bytes, http_error) res" where
  "parse_status line =
     (case split_once 32 line of
        None \<Rightarrow> Err MalformedResponse
      | Some (proto, rest) \<Rightarrow>
          if proto \<noteq> ascii ''HTTP/1.1'' \<and> proto \<noteq> ascii ''HTTP/1.0'' then Err (MalformedVersion proto)
          else
            let rest = trim_start rest; code = hd (split_on 32 rest)
            in case parse_unsigned 10 65535 code of
                 None \<Rightarrow> Err (MalformedStatus code)
               | Some status \<Rightarrow>
                   if length code \<noteq> 3 then Err (MalformedStatus code)
                   else Ok (if proto = ascii ''HTTP/1.1'' then 1 else 0, status, rest))"

definition parse_head :: "bytes \<Rightarrow> (response_head, http_error) res" where
  "parse_head raw =
     (if \<not> utf8_valid raw then Err MalformedResponse
      else let ls = split_crlf raw
           in case parse_status (hd ls) of
                Err e \<Rightarrow> Err e
              | Panic \<Rightarrow> Panic
              | Ok (minor, status, rest) \<Rightarrow>
                  map_ok (\<lambda>hs. \<lparr>hd_minor = minor, hd_status = status, hd_text = rest, hd_headers = hs\<rparr>)
                    (parse_headers (tl ls)))"

section \<open>Reading\<close>

record connection =
  hc_stream :: source
  hc_rbuf :: bytes

definition connection_new :: "source \<Rightarrow> connection" where
  "connection_new src = \<lparr>hc_stream = src, hc_rbuf = []\<rparr>"

type_synonym 'a http = "('a, http_error, connection) await"

definition fill :: "connection \<Rightarrow> nat http" where
  "fill c =
     (case src_read 8192 (hc_stream c) of
        (Done bs, src) \<Rightarrow> (Some (Ok (length bs)), c\<lparr>hc_stream := src, hc_rbuf := hc_rbuf c @ bs\<rparr>)
      | (Failed e, src) \<Rightarrow> (Some (Err (HttpIo e)), c\<lparr>hc_stream := src\<rparr>)
      | (Pending, src) \<Rightarrow> (None, c\<lparr>hc_stream := src\<rparr>))"

fun src_size :: "source \<Rightarrow> nat" where
  "src_size [] = 0"
| "src_size (SrcData bs # evs) = Suc (length bs) + src_size evs"
| "src_size (_ # evs) = Suc (src_size evs)"

lemma src_read_size: "src_read k src = (r, src') \<Longrightarrow> src_size src' + (case r of Done bs \<Rightarrow> length bs | _ \<Rightarrow> 0) \<le> src_size src"
  by (induction k src rule: src_read.induct) (auto split: if_splits)

lemma fill_size:
  assumes "fill c = (r, c')"
  shows "length (hc_rbuf c') + src_size (hc_stream c') \<le> length (hc_rbuf c) + src_size (hc_stream c)"
    "r = Some (Ok n) \<Longrightarrow> src_size (hc_stream c') + n \<le> src_size (hc_stream c) \<and>
      length (hc_rbuf c') = length (hc_rbuf c) + n"
  using assms src_read_size [of 8192 "hc_stream c"]
  by (fastforce simp: fill_def split: prod.splits io.splits)+

lemma fill_less: "(Some (Ok n), c') = fill c \<Longrightarrow> 0 < n \<Longrightarrow> src_size (hc_stream c') < src_size (hc_stream c)"
  using fill_size(2) [of c "Some (Ok n)" c' n] by simp

text \<open>The loop of \<open>read_head\<close> and \<open>read_line\<close>: fill the buffer until it holds \<open>pat\<close>; what is
  read past is given up when it grows beyond \<open>mx\<close>.\<close>

function read_past :: "bytes \<Rightarrow> nat \<Rightarrow> http_error \<Rightarrow> connection \<Rightarrow> nat http" where
  "read_past pat mx too_long c =
     (case find_sub pat (hc_rbuf c) of
        Some i \<Rightarrow> (Some (Ok i), c)
      | None \<Rightarrow>
          if mx < length (hc_rbuf c) then (Some (Err too_long), c)
          else await (fill c)
            (\<lambda>n c. if n = 0 then (Some (Err HttpEof), c) else read_past pat mx too_long c))"
  by pat_completeness auto
termination
  by (relation "measure (\<lambda>(_, _, _, c). src_size (hc_stream c))") (auto dest: fill_less [OF sym])

declare read_past.simps [simp del]

text \<open>A head and the rest of the loop: interim responses other than 101 are skipped.\<close>

definition drain_buf :: "nat \<Rightarrow> connection \<Rightarrow> bytes \<times> connection" where
  "drain_buf n c = (take n (hc_rbuf c), c\<lparr>hc_rbuf := drop n (hc_rbuf c)\<rparr>)"

definition conn_size :: "connection \<Rightarrow> nat" where "conn_size c = length (hc_rbuf c) + src_size (hc_stream c)"

lemma read_past_size: "read_past pat mx e c = (Some (Ok i), c') \<Longrightarrow> conn_size c' \<le> conn_size c \<and> find_sub pat (hc_rbuf c') = Some i"
proof (induction pat mx e c rule: read_past.induct)
  case (1 pat mx e c)
  show ?case
  proof (cases "find_sub pat (hc_rbuf c)")
    case None
    with "1.prems" obtain n c1 where f: "fill c = (Some (Ok n), c1)" "n \<noteq> 0" "\<not> mx < length (hc_rbuf c)"
      "read_past pat mx e c1 = (Some (Ok i), c')"
      by (auto simp: read_past.simps [of pat mx e c] await_ok split: if_splits)
    with "1.IH" [OF None f(3,1,2)] fill_size(1) [OF f(1)] show ?thesis by (simp add: conn_size_def)
  qed (use "1.prems" in \<open>simp add: read_past.simps [of pat mx e c]\<close>)
qed

lemma read_past_drain:
  assumes "read_past pat mx e c = (Some (Ok i), c1)" and "k = length pat"
  shows "conn_size (snd (drain_buf (i + k) c1)) + i + k \<le> conn_size c" "length (fst (drain_buf (i + k) c1)) = i + k"
proof -
  have "conn_size c1 \<le> conn_size c" "find_sub pat (hc_rbuf c1) = Some i"
    using read_past_size [OF assms(1)] by simp_all
  moreover from find_sub_bound [OF this(2)] have "i + k \<le> length (hc_rbuf c1)" using assms(2) by simp
  ultimately show "conn_size (snd (drain_buf (i + k) c1)) + i + k \<le> conn_size c" "length (fst (drain_buf (i + k) c1)) = i + k"
    by (simp_all add: drain_buf_def conn_size_def)
qed

lemma read_past_less:
  "read_past pat mx e c = (Some (Ok i), c1) \<Longrightarrow> (raw, c2) = drain_buf (i + k) c1 \<Longrightarrow> k = length pat \<Longrightarrow> 0 < k \<Longrightarrow>
    conn_size c2 < conn_size c"
proof -
  assume r: "read_past pat mx e c = (Some (Ok i), c1)" "(raw, c2) = drain_buf (i + k) c1" "k = length pat" "0 < k"
  have "snd (drain_buf (i + k) c1) = c2" by (simp only: r(2) [symmetric] snd_conv)
  with read_past_drain(1) [OF r(1,3)] have "conn_size c2 + i + k \<le> conn_size c" by (simp only:)
  with r(4) show ?thesis by linarith
qed

definition interim :: "response_head \<Rightarrow> bool" where
  "interim h \<longleftrightarrow> 100 \<le> hd_status h \<and> hd_status h < 200 \<and> hd_status h \<noteq> 101"

function read_head :: "connection \<Rightarrow> response_head http" where
  "read_head c =
     await (read_past (CRLF @ CRLF) MAX_HEADER_BYTES HeadersTooLong c) (\<lambda>i c.
       let (raw, c) = drain_buf (i + 4) c
       in case parse_head (take (length raw - 4) raw) of
            Ok h \<Rightarrow> if interim h then read_head c else (Some (Ok h), c)
          | Err e \<Rightarrow> (Some (Err e), c)
          | Panic \<Rightarrow> (Some Panic, c))"
  by pat_completeness auto
termination
  by (relation "measure conn_size") (auto dest: read_past_less)

declare read_head.simps [simp del]

text \<open>A line of the chunked encoding.\<close>

definition read_line :: "connection \<Rightarrow> bytes http" where
  "read_line c =
     await (read_past CRLF 4096 MalformedChunk c) (\<lambda>i c.
       let (line, c) = drain_buf (i + 2) c
       in if utf8_valid (take i line) then (Some (Ok (take i line)), c) else (Some (Err MalformedChunk), c))"

text \<open>The next \<open>need\<close> bytes, as far as they fit into the limit.\<close>

function read_exact_buf :: "nat \<Rightarrow> nat \<Rightarrow> bytes \<Rightarrow> connection \<Rightarrow> (bytes \<times> bool) http" where
  "read_exact_buf need limit out c =
     (if need = 0 then (Some (Ok (out, True)), c)
      else await (if hc_rbuf c = [] then fill c else (Some (Ok (length (hc_rbuf c))), c)) (\<lambda>n c.
        if n = 0 then (Some (Err HttpEof), c)
        else
          let k = min need (length (hc_rbuf c)); room = limit - length out;
              (got, c) = drain_buf k c; out = out @ take (min k room) got
          in if limit \<le> length out then (Some (Ok (out, False)), c)
             else read_exact_buf (need - k) limit out c))"
  by pat_completeness auto
termination
  by (relation "measure fst") (auto split: if_splits dest: fill_size(2) [OF _ refl])

declare read_exact_buf.simps [simp del]

lemma read_line_less: "read_line c = (Some (Ok l), c') \<Longrightarrow> conn_size c' < conn_size c"
proof -
  assume "read_line c = (Some (Ok l), c')"
  then obtain i c1 where r: "read_past CRLF 4096 MalformedChunk c = (Some (Ok i), c1)" "snd (drain_buf (i + 2) c1) = c'"
    unfolding read_line_def await_ok Let_def case_prod_beta by (metis prod.inject option.inject res.inject(1) res.distinct(1))
  have "(fst (drain_buf (i + 2) c1), c') = drain_buf (i + 2) c1" using r(2) by (metis prod.collapse)
  from read_past_less [OF r(1) this] show ?thesis by simp
qed

lemma read_exact_buf_size: "read_exact_buf need limit out c = (Some (Ok r), c') \<Longrightarrow> conn_size c' \<le> conn_size c"
proof (induction need limit out c arbitrary: r rule: read_exact_buf.induct)
  case (1 need limit out c)
  show ?case
  proof (cases "need = 0")
    case False
    let ?m = "if hc_rbuf c = [] then fill c else (Some (Ok (length (hc_rbuf c))), c)"
    obtain n c1 where m: "?m = (Some (Ok n), c1)" "n \<noteq> 0"
      using False "1.prems" by (auto simp: read_exact_buf.simps [of need] await_ok split: if_splits)
    then have size: "conn_size c1 \<le> conn_size c"
      using fill_size(1) [of c _ c1] by (auto simp: conn_size_def split: if_splits)
    obtain got c2 where d: "drain_buf (min need (length (hc_rbuf c1))) c1 = (got, c2)" by force
    then have "conn_size c2 \<le> conn_size c1" by (auto simp: drain_buf_def conn_size_def)
    with size "1.prems" False m d "1.IH" [OF False m refl refl refl d [symmetric] refl] show ?thesis
      by (auto simp: read_exact_buf.simps [of need] Let_def split: if_splits)
  qed (use "1.prems" in \<open>simp add: read_exact_buf.simps\<close>)
qed

function read_trailers :: "connection \<Rightarrow> unit http" where
  "read_trailers c = await (read_line c) (\<lambda>l c. if l = [] then (Some (Ok ()), c) else read_trailers c)"
  by pat_completeness auto
termination by (relation "measure conn_size") (auto dest: read_line_less)

declare read_trailers.simps [simp del]

definition chunk_size :: "bytes \<Rightarrow> nat option" where
  "chunk_size line = parse_unsigned 16 (2 ^ 64 - 1) (trim (hd (split_on 59 line)))"

function read_chunks :: "bytes \<Rightarrow> nat \<Rightarrow> bool \<Rightarrow> connection \<Rightarrow> (bytes \<times> bool) http" where
  "read_chunks body limit reusable c =
     await (read_line c) (\<lambda>line c.
       case chunk_size line of
         None \<Rightarrow> (Some (Err BadChunkLength), c)
       | Some n \<Rightarrow>
           if n = 0 then await (read_trailers c) (\<lambda>_ c. (Some (Ok (body, reusable)), c))
           else await (read_exact_buf n limit body c) (\<lambda>r c.
             if \<not> snd r then (Some (Ok (fst r, False)), c)
             else await (read_line c) (\<lambda>l c.
               if l \<noteq> [] then (Some (Err MalformedChunk), c) else read_chunks (fst r) limit reusable c)))"
  by pat_completeness auto
termination
  by (relation "measure (\<lambda>(_, _, _, c). conn_size c)")
    (auto dest!: read_line_less read_exact_buf_size)

declare read_chunks.simps [simp del]

text \<open>A body that ends with the stream.\<close>

function read_rest :: "bytes \<Rightarrow> nat \<Rightarrow> connection \<Rightarrow> bytes http" where
  "read_rest body limit c =
     (let (got, c) = drain_buf (min (length (hc_rbuf c)) (limit - length body)) c; body = body @ got
      in if limit \<le> length body then (Some (Ok body), c)
         else await (fill c) (\<lambda>n c.
           if n = 0 then (let (got, c) = drain_buf (min (length (hc_rbuf c)) (limit - length body)) c in (Some (Ok (body @ got)), c))
           else read_rest body limit c))"
  by pat_completeness auto
termination
  by (relation "measure (\<lambda>(_, _, c). src_size (hc_stream c))")
    (auto simp: drain_buf_def dest: fill_less [OF sym])

declare read_rest.simps [simp del]

definition read_body :: "response_head \<Rightarrow> bytes \<Rightarrow> nat \<Rightarrow> connection \<Rightarrow> (bytes \<times> bool) http" where
  "read_body head method limit c =
     (let reusable = hd_minor head = 1 \<and> \<not> has_token (ascii ''Connection'') (ascii ''close'') head
      in if method = ascii ''HEAD'' \<or> hd_status head = 204 \<or> hd_status head = 304 then (Some (Ok ([], reusable)), c)
         else if has_token (ascii ''Transfer-Encoding'') (ascii ''chunked'') head then read_chunks [] limit reusable c
         else case head_header (ascii ''Content-Length'') head of
           Some cl \<Rightarrow>
             (case parse_unsigned 10 (2 ^ 64 - 1) cl of
                None \<Rightarrow> (Some (Err (BadContentLength cl)), c)
              | Some n \<Rightarrow> await (read_exact_buf n limit [] c) (\<lambda>r c. (Some (Ok (fst r, reusable \<and> snd r)), c)))
         | None \<Rightarrow> await (read_rest [] limit c) (\<lambda>body c. (Some (Ok (body, False)), c)))"

text \<open>Nothing has come from a stream that is still open.\<close>

definition still_open :: "connection \<Rightarrow> bool" where
  "still_open c = (case src_read 1 (hc_stream c) of (Pending, _) \<Rightarrow> True | _ \<Rightarrow> False)"

end
