(* ===== verification/HttpRead.thy ===== *)
theory HttpRead
  imports Http
begin

text \<open>
  What reading HTTP gives: heads and bodies come out of the stream as they were sent,
  whatever pieces it arrives in; what follows them stays; no body exceeds its limit.
\<close>

section \<open>The stream behind a connection\<close>

definition hc_flat :: "connection \<Rightarrow> bytes \<times> src_end" where
  "hc_flat c = (case src_flat (hc_stream c) of (bs, e) \<Rightarrow> (hc_rbuf c @ bs, e))"

lemma hc_flat_prefix: "hc_flat c = (bs, e) \<Longrightarrow> \<exists>t. bs = hc_rbuf c @ t \<and> src_flat (hc_stream c) = (t, e)"
  by (auto simp: hc_flat_def split: prod.splits)

lemma fill_flat:
  assumes "hc_flat c = (bs, e)" and "length (hc_rbuf c) < length bs"
  obtains n c' where "fill c = (Some (Ok n), c')" "n \<noteq> 0" "hc_flat c' = (bs, e)" "length (hc_rbuf c') = length (hc_rbuf c) + n"
proof -
  obtain t where t: "bs = hc_rbuf c @ t" "src_flat (hc_stream c) = (t, e)" using hc_flat_prefix [OF assms(1)] by blast
  then have "t \<noteq> []" using assms(2) by auto
  then obtain m src where m: "0 < m" "m \<le> length t" "src_read 8192 (hc_stream c) = (Done (take m t), src)" "src_flat src = (drop m t, e)"
    using src_read_flat [of 8192, OF _ t(2)] by auto
  then show thesis using t(1) by (intro that [of m]) (auto simp: fill_def hc_flat_def)
qed

lemma drain_buf_flat:
  assumes "hc_flat c = (bs, e)" and "k \<le> length (hc_rbuf c)"
  obtains c' where "drain_buf k c = (take k bs, c')" "hc_flat c' = (drop k bs, e)"
  using assms by (auto simp: drain_buf_def hc_flat_def split: prod.splits)

lemma read_past_found:
  assumes "hc_flat c = (bs, e)" and "find_sub pat bs = Some i" and "i + length pat \<le> mx" and "pat \<noteq> []"
  shows "\<exists>c'. read_past pat mx err c = (Some (Ok i), c') \<and> hc_flat c' = (bs, e) \<and> i + length pat \<le> length (hc_rbuf c')"
  using assms
proof (induction pat mx err c rule: read_past.induct)
  case (1 pat mx err c)
  obtain t where t: "bs = hc_rbuf c @ t" using hc_flat_prefix [OF "1.prems"(1)] by blast
  show ?case
  proof (cases "find_sub pat (hc_rbuf c)")
    case None
    have "\<not> i + length pat \<le> length (hc_rbuf c)"
    proof
      assume "i + length pat \<le> length (hc_rbuf c)"
      from find_sub_prefix [OF _ this "1.prems"(4)] "1.prems"(2) t None show False by simp
    qed
    with "1.prems"(3) find_sub_bound [OF "1.prems"(2)] have len: "\<not> mx < length (hc_rbuf c)" "length (hc_rbuf c) < length bs"
      by linarith+
    obtain n c1 where f: "fill c = (Some (Ok n), c1)" "n \<noteq> 0" "hc_flat c1 = (bs, e)"
      by (rule fill_flat [OF "1.prems"(1) len(2)])
    with "1.IH" [OF None len(1) f(1,2,3)] "1.prems" None len show ?thesis by (simp add: read_past.simps [of pat mx err c])
  next
    case (Some j)
    then have "j = i" using find_sub_append [OF Some, of t] t "1.prems"(2) by simp
    with Some "1.prems"(1) find_sub_bound [OF Some] show ?thesis by (simp add: read_past.simps [of pat mx err c])
  qed
qed

section \<open>Lines\<close>

lemma starts_with_Cons: "starts_with (p # ps) (x # xs) \<longleftrightarrow> p = x \<and> starts_with ps xs"
  by (auto simp: starts_with_def)

lemma find_sub_skip: "x \<noteq> p \<Longrightarrow> find_sub (p # ps) (x # xs) = map_option Suc (find_sub (p # ps) xs)"
  by (simp add: starts_with_Cons)

lemma find_sub_skips: "p \<notin> set l \<Longrightarrow> find_sub (p # ps) (l @ t) = map_option ((+) (length l)) (find_sub (p # ps) t)"
  by (cases "find_sub (p # ps) t"; induction l) (auto simp: starts_with_Cons)

lemma find_crlf: "13 \<notin> set l \<Longrightarrow> find_sub CRLF (l @ CRLF @ r) = Some (length l)"
  using find_sub_skips [of 13 l "[10]" "CRLF @ r"] by (simp add: starts_with_def)

fun join_lines :: "bytes list \<Rightarrow> bytes" where
  "join_lines [] = []"
| "join_lines [l] = l"
| "join_lines (l # ls) = l @ CRLF @ join_lines ls"

lemma encode_lines_join: "ls \<noteq> [] \<Longrightarrow> encode_lines ls = join_lines ls @ CRLF @ CRLF"
  by (induction ls rule: join_lines.induct) (auto simp: encode_lines_def)

definition clean_lines :: "bytes list \<Rightarrow> bool" where
  "clean_lines ls \<longleftrightarrow> ls \<noteq> [] \<and> list_all (\<lambda>l. l \<noteq> [] \<and> 13 \<notin> set l) ls"

lemma split_join: "clean_lines ls \<Longrightarrow> split_crlf (join_lines ls) = ls"
  by (induction ls rule: join_lines.induct) (auto simp: clean_lines_def split_crlf_none split_crlf_append)

lemma find_blank_next: "x \<noteq> 13 \<Longrightarrow> find_sub (CRLF @ CRLF) (13 # 10 # x # t) = map_option ((+) 2) (find_sub (CRLF @ CRLF) (x # t))"
  by (simp add: starts_with_def option.map_comp comp_def)

lemma find_blank_line: "clean_lines ls \<Longrightarrow> find_sub (CRLF @ CRLF) (encode_lines ls @ r) = Some (length (join_lines ls))"
proof (induction ls rule: join_lines.induct)
  case (2 l)
  then have "find_sub (CRLF @ CRLF) (l @ CRLF @ CRLF @ r) = map_option ((+) (length l)) (find_sub (CRLF @ CRLF) (CRLF @ CRLF @ r))"
    using find_sub_skips [of 13 l "[10, 13, 10]"] by (simp add: clean_lines_def)
  then show ?case by (simp add: encode_lines_def starts_with_def)
next
  case (3 l l' ls)
  then have c: "clean_lines (l' # ls)" "13 \<notin> set l" by (simp_all add: clean_lines_def)
  then obtain x k where x: "l' = x # k" "x \<noteq> 13" by (cases l') (auto simp: clean_lines_def)
  have e: "encode_lines (l # l' # ls) @ r = l @ 13 # 10 # encode_lines (l' # ls) @ r" by (simp add: encode_lines_def)
  obtain t where t: "encode_lines (l' # ls) @ r = x # t" using x by (simp add: encode_lines_def)
  have "find_sub (CRLF @ CRLF) (l @ 13 # 10 # x # t) = map_option ((+) (length l)) (find_sub (CRLF @ CRLF) (13 # 10 # x # t))"
    using find_sub_skips [of 13 l "[10, 13, 10]" "13 # 10 # x # t"] c(2) by (simp del: find_sub.simps)
  also have "\<dots> = Some (length l + (2 + length (join_lines (l' # ls))))"
    using find_blank_next [OF x(2)] "3.IH" [OF c(1)] t by (simp del: find_sub.simps)
  finally show ?case by (simp only: e t) simp
qed (simp add: clean_lines_def)

section \<open>Bodies\<close>

lemma read_line_flat:
  assumes "hc_flat c = (l @ CRLF @ r, e)" and "13 \<notin> set l" and "length l \<le> 4094" and "utf8_valid l"
  shows "\<exists>c'. read_line c = (Some (Ok l), c') \<and> hc_flat c' = (r, e)"
proof -
  obtain c1 where c1: "read_past CRLF 4096 MalformedChunk c = (Some (Ok (length l)), c1)"
    "hc_flat c1 = (l @ CRLF @ r, e)" "length l + 2 \<le> length (hc_rbuf c1)"
    using read_past_found [OF assms(1) find_crlf [OF assms(2)], of 4096] assms(3) by auto
  obtain c2 where c2: "drain_buf (length l + 2) c1 = (take (length l + 2) (l @ CRLF @ r), c2)"
    "hc_flat c2 = (drop (length l + 2) (l @ CRLF @ r), e)"
    by (rule drain_buf_flat [OF c1(2,3)])
  with c1(1) assms(4) show ?thesis by (auto simp: read_line_def Let_def)
qed

lemma read_exact_buf_flat:
  assumes "hc_flat c = (bs, e)" and "n \<le> length bs" and "length out + n < limit"
  shows "\<exists>c'. read_exact_buf n limit out c = (Some (Ok (out @ take n bs, True)), c') \<and> hc_flat c' = (drop n bs, e)"
  using assms
proof (induction n limit out c arbitrary: bs rule: read_exact_buf.induct)
  case (1 need limit out c)
  show ?case
  proof (cases "need = 0")
    case False
    let ?m = "if hc_rbuf c = [] then fill c else (Some (Ok (length (hc_rbuf c))), c)"
    obtain n c1 where m: "?m = (Some (Ok n), c1)" "n \<noteq> 0" "hc_flat c1 = (bs, e)" "hc_rbuf c1 \<noteq> []"
    proof (cases "hc_rbuf c = []")
      case True
      then have "length (hc_rbuf c) < length bs" using "1.prems"(2) False by (cases bs) simp_all
      from fill_flat [OF "1.prems"(1) this] True that show thesis by (metis add_eq_0_iff_both_eq_0 length_0_conv)
    qed (use "1.prems"(1) in \<open>auto intro!: that\<close>)
    define k where "k = min need (length (hc_rbuf c1))"
    obtain c2 where d: "drain_buf k c1 = (take k bs, c2)" "hc_flat c2 = (drop k bs, e)"
      by (rule drain_buf_flat [OF m(3), of k]) (simp add: k_def)
    have k: "k \<le> need" "length (take k bs) = k" using "1.prems"(2) by (simp_all add: k_def)
    let ?out = "out @ take (min k (limit - length out)) (take k bs)"
    have out: "?out = out @ take k bs" "\<not> limit \<le> length ?out" 
    proof -
      have "min k (limit - length out) = k" using k(1) "1.prems"(3) by simp
      then show "?out = out @ take k bs" "\<not> limit \<le> length ?out" using k "1.prems"(3) by simp_all
    qed
    obtain c' where c': "read_exact_buf (need - k) limit ?out c2 =
        (Some (Ok (?out @ take (need - k) (drop k bs), True)), c')" "hc_flat c' = (drop (need - k) (drop k bs), e)"
      using "1.IH" [OF False m(1,2) k_def refl refl d(1) [symmetric] refl out(2) d(2)] "1.prems" k out(1) by fastforce
    have "take k bs @ take (need - k) (drop k bs) = take need bs" using k(1) by (metis le_add_diff_inverse take_add)
    with False m(1,2) d(1) out(2) c' k(1) show ?thesis
      by (simp only: read_exact_buf.simps [of need] if_False await.simps Let_def k_def [symmetric] case_prod_conv out(1)) simp
  qed (use "1.prems" in \<open>simp add: read_exact_buf.simps\<close>)
qed

text \<open>The chunked encoding of a body: size lines with extensions, a last chunk and trailers.\<close>

definition wire_line :: "bytes \<Rightarrow> bool" where
  "wire_line l \<longleftrightarrow> 13 \<notin> set l \<and> length l \<le> 4094 \<and> utf8_valid l"

definition chunked :: "(bytes \<times> bytes) list \<Rightarrow> bytes \<Rightarrow> bytes list \<Rightarrow> bytes" where
  "chunked cs lst ts = concat (map (\<lambda>(l, d). l @ CRLF @ d @ CRLF) cs) @ lst @ CRLF @ encode_lines ts"

definition chunks_ok :: "(bytes \<times> bytes) list \<Rightarrow> bytes \<Rightarrow> bytes list \<Rightarrow> bool" where
  "chunks_ok cs lst ts \<longleftrightarrow> list_all (\<lambda>(l, d). wire_line l \<and> d \<noteq> [] \<and> chunk_size l = Some (length d)) cs \<and>
     wire_line lst \<and> chunk_size lst = Some 0 \<and> list_all (\<lambda>l. wire_line l \<and> l \<noteq> []) ts"

lemma read_trailers_flat:
  assumes "hc_flat c = (encode_lines ts @ r, e)" and "list_all (\<lambda>l. wire_line l \<and> l \<noteq> []) ts"
  shows "\<exists>c'. read_trailers c = (Some (Ok ()), c') \<and> hc_flat c' = (r, e)"
  using assms
proof (induction ts arbitrary: c)
  case Nil
  then have "hc_flat c = ([] @ CRLF @ r, e)" by (simp add: encode_lines_def)
  from read_line_flat [OF this] obtain c1 where "read_line c = (Some (Ok []), c1)" "hc_flat c1 = (r, e)" by auto
  then show ?case by (simp add: read_trailers.simps [of c])
next
  case (Cons l ts)
  then have "hc_flat c = (l @ CRLF @ encode_lines ts @ r, e)" by (simp add: encode_lines_def)
  from read_line_flat [OF this] Cons.prems(2) obtain c1 where
    c1: "read_line c = (Some (Ok l), c1)" "hc_flat c1 = (encode_lines ts @ r, e)" by (auto simp: wire_line_def)
  from Cons.IH [OF c1(2)] Cons.prems(2) c1(1) show ?case by (simp add: read_trailers.simps [of c])
qed

lemma read_chunks_flat:
  assumes "hc_flat c = (chunked cs lst ts @ r, e)" and "chunks_ok cs lst ts"
    and "length body + length (concat (map snd cs)) < limit"
  shows "\<exists>c'. read_chunks body limit reusable c = (Some (Ok (body @ concat (map snd cs), reusable)), c') \<and> hc_flat c' = (r, e)"
  using assms
proof (induction cs arbitrary: body c)
  case Nil
  then have "hc_flat c = (lst @ CRLF @ encode_lines ts @ r, e)" by (simp add: chunked_def)
  from read_line_flat [OF this] Nil.prems(2) obtain c1 where
    c1: "read_line c = (Some (Ok lst), c1)" "hc_flat c1 = (encode_lines ts @ r, e)"
    by (auto simp: wire_line_def chunks_ok_def)
  from read_trailers_flat [OF c1(2)] Nil.prems(2) c1(1) show ?case
    by (auto simp: read_chunks.simps [of body] chunks_ok_def)
next
  case (Cons ld cs)
  obtain l d where ld: "ld = (l, d)" by force
  have ok: "wire_line l" "d \<noteq> []" "chunk_size l = Some (length d)" "chunks_ok cs lst ts"
    using Cons.prems(2) ld by (simp_all add: chunks_ok_def)
  have "hc_flat c = (l @ CRLF @ d @ CRLF @ chunked cs lst ts @ r, e)" using Cons.prems(1) ld by (simp add: chunked_def)
  from read_line_flat [OF this] ok(1) obtain c1 where
    c1: "read_line c = (Some (Ok l), c1)" "hc_flat c1 = (d @ CRLF @ chunked cs lst ts @ r, e)" by (auto simp: wire_line_def)
  obtain c2 where c2: "read_exact_buf (length d) limit body c1 = (Some (Ok (body @ d, True)), c2)"
    "hc_flat c2 = (CRLF @ chunked cs lst ts @ r, e)"
    using read_exact_buf_flat [OF c1(2), of "length d" body limit] Cons.prems(3) ld by auto
  have "hc_flat c2 = ([] @ CRLF @ chunked cs lst ts @ r, e)" using c2(2) by simp
  from read_line_flat [OF this] obtain c3 where
    c3: "read_line c2 = (Some (Ok []), c3)" "hc_flat c3 = (chunked cs lst ts @ r, e)" by auto
  from Cons.IH [OF c3(2) ok(4), of "body @ d"] Cons.prems(3) ld c1(1) c2(1) c3(1) ok(2,3) show ?case
    by (auto simp: read_chunks.simps [of body])
qed

text \<open>How a body is put on the wire under a head.\<close>

definition framed :: "response_head \<Rightarrow> bytes \<Rightarrow> bytes \<Rightarrow> bool" where
  "framed h body wire \<longleftrightarrow>
     (if has_token (ascii ''Transfer-Encoding'') (ascii ''chunked'') h
      then \<exists>cs lst ts. chunks_ok cs lst ts \<and> wire = chunked cs lst ts \<and> body = concat (map snd cs)
      else wire = body \<and> (\<exists>cl. head_header (ascii ''Content-Length'') h = Some cl \<and>
        parse_unsigned 10 (2 ^ 64 - 1) cl = Some (length body)))"

definition bodiless :: "response_head \<Rightarrow> bytes \<Rightarrow> bool" where
  "bodiless h method \<longleftrightarrow> method = ascii ''HEAD'' \<or> hd_status h = 204 \<or> hd_status h = 304"

text \<open>
  A response body below the limit is read exactly, chunked or counted, whatever
  pieces it arrives in; what follows it stays in the connection, which may be reused
  when the head allows it.
\<close>

theorem body_any_segmentation:
  assumes "hc_flat c = (wire @ rest, e)" and "framed h body wire" and "\<not> bodiless h method" and "length body < limit"
  shows "\<exists>c'. read_body h method limit c =
      (Some (Ok (body, hd_minor h = 1 \<and> \<not> has_token (ascii ''Connection'') (ascii ''close'') h)), c') \<and>
    hc_flat c' = (rest, e)"
proof (cases "has_token (ascii ''Transfer-Encoding'') (ascii ''chunked'') h")
  case True
  then obtain cs lst ts where w: "chunks_ok cs lst ts" "wire = chunked cs lst ts" "body = concat (map snd cs)"
    using assms(2) by (auto simp: framed_def)
  with read_chunks_flat [of c cs lst ts rest e "[]" limit] assms True show ?thesis
    unfolding read_body_def Let_def bodiless_def by simp
next
  case False
  then obtain cl where cl: "head_header (ascii ''Content-Length'') h = Some cl" "wire = body"
    "parse_unsigned 10 (2 ^ 64 - 1) cl = Some (length body)"
    using assms(2) by (auto simp: framed_def)
  obtain c' where "read_exact_buf (length body) limit [] c = (Some (Ok (body, True)), c')" "hc_flat c' = (rest, e)"
    using read_exact_buf_flat [OF assms(1), of "length body" "[]" limit] cl(2) assms(4) by auto
  with cl False assms(3) show ?thesis unfolding read_body_def Let_def bodiless_def by simp
qed

definition chunked_head :: response_head where
  "chunked_head = \<lparr>hd_minor = 1, hd_status = 200, hd_text = ascii ''200 OK'',
     hd_headers = [(ascii ''Transfer-Encoding'', ascii ''chunked'')]\<rparr>"

theorem body_any_segmentation_witness:
  "\<exists>c'. read_body chunked_head (ascii ''GET'') 100
      (connection_new [SrcData [50], SrcData [13, 10, 7], SrcData [8, 13, 10, 48, 13, 10, 13, 10, 9]]) =
    (Some (Ok ([7, 8], True)), c') \<and> hc_flat c' = ([9], StillOpen)"
proof -
  have "chunk_size [50] = Some 2" "chunk_size [48] = Some 0"
    by (simp_all add: chunk_size_def trim_def trim_start_def trim_end_def white_space_def starts_with_def parse_unsigned_def
        digit_value_def is_digit_def)
  then have ok: "chunks_ok [([50], [7, 8])] [48] []" by (simp add: chunks_ok_def wire_line_def)
  have t: "has_token (ascii ''Transfer-Encoding'') (ascii ''chunked'') chunked_head"
    "\<not> has_token (ascii ''Connection'') (ascii ''close'') chunked_head"
    by (simp_all add: has_token_def chunked_head_def ascii_def eq_ignore_case_def lower_def trim_def trim_start_def trim_end_def
        white_space_def starts_with_def)
  then have f: "framed chunked_head [7, 8] (chunked [([50], [7, 8])] [48] [])"
    using ok unfolding framed_def if_P [OF t(1)]
    by (intro exI [of _ "[([50], [7, 8])]"] exI [of _ "[48]"] exI [of _ "[]"]) simp
  have "hc_flat (connection_new [SrcData [50], SrcData [13, 10, 7], SrcData [8, 13, 10, 48, 13, 10, 13, 10, 9]]) =
    (chunked [([50], [7, 8])] [48] [] @ [9], StillOpen)"
    by (simp add: hc_flat_def connection_new_def chunked_def encode_lines_def)
  from body_any_segmentation [OF this f, of "ascii ''GET''" 100] t show ?thesis
    by (simp add: bodiless_def chunked_head_def ascii_def)
qed

section \<open>Limits\<close>

lemma drain_buf_part: "drain_buf k c = (got, c') \<Longrightarrow> length got \<le> k"
  by (auto simp: drain_buf_def)

lemma read_exact_buf_bound:
  "read_exact_buf need limit out c = (Some (Ok r), c') \<Longrightarrow> length out \<le> limit \<Longrightarrow> length (fst r) \<le> limit"
proof (induction need limit out c arbitrary: r rule: read_exact_buf.induct)
  case (1 need limit out c)
  show ?case
  proof (cases "need = 0")
    case False
    let ?m = "if hc_rbuf c = [] then fill c else (Some (Ok (length (hc_rbuf c))), c)"
    obtain n c1 where m: "?m = (Some (Ok n), c1)" "n \<noteq> 0"
      using False "1.prems"(1) by (auto simp: read_exact_buf.simps [of need] await_ok split: if_splits)
    define k where "k = min need (length (hc_rbuf c1))"
    obtain got c2 where d: "drain_buf k c1 = (got, c2)" by force
    let ?out = "out @ take (min k (limit - length out)) got"
    have len: "length ?out \<le> limit" using "1.prems"(2) by simp
    have step: "read_exact_buf need limit out c =
        (if limit \<le> length ?out then (Some (Ok (?out, False)), c2) else read_exact_buf (need - k) limit ?out c2)"
      using False m d by (simp only: read_exact_buf.simps [of need] if_False await.simps Let_def k_def [symmetric] case_prod_conv)
    show ?thesis
    proof (cases "limit \<le> length ?out")
      case True
      with step "1.prems"(1) len show ?thesis by auto
    next
      case more: False
      with step "1.prems"(1) have "read_exact_buf (need - k) limit ?out c2 = (Some (Ok r), c')" by (simp only: if_False)
      from "1.IH" [OF False m k_def refl refl d [symmetric] refl more this len] show ?thesis .
    qed
  qed (use "1.prems" in \<open>auto simp: read_exact_buf.simps\<close>)
qed

lemma read_chunks_bound:
  "read_chunks body limit reusable c = (Some (Ok r), c') \<Longrightarrow> length body \<le> limit \<Longrightarrow> length (fst r) \<le> limit"
proof (induction body limit reusable c arbitrary: r rule: read_chunks.induct)
  case (1 body limit reusable c)
  obtain line c1 n where line: "read_line c = (Some (Ok line), c1)" "chunk_size line = Some n"
    using "1.prems"(1) by (auto simp: read_chunks.simps [of body] await_ok split: option.splits)
  show ?case
  proof (cases "n = 0")
    case True
    with line "1.prems" show ?thesis by (auto simp: read_chunks.simps [of body] await_ok)
  next
    case False
    with line "1.prems"(1) obtain q c2 where q: "read_exact_buf n limit body c1 = (Some (Ok q), c2)"
      by (auto simp: read_chunks.simps [of body] await_ok)
    have len: "length (fst q) \<le> limit" by (rule read_exact_buf_bound [OF q "1.prems"(2)])
    show ?thesis
    proof (cases "snd q")
      case more: True
      with line q False "1.prems"(1) obtain c3 where c3: "read_line c2 = (Some (Ok []), c3)"
        "read_chunks (fst q) limit reusable c3 = (Some (Ok r), c')"
        by (auto simp: read_chunks.simps [of body] await_ok split: if_splits)
      from "1.IH" [OF line False q _ c3(1) _ c3(2) len] more show ?thesis by simp
    qed (use line q False "1.prems"(1) len in \<open>auto simp: read_chunks.simps [of body]\<close>)
  qed
qed

lemma read_rest_bound:
  "read_rest body limit c = (Some (Ok b), c') \<Longrightarrow> length body \<le> limit \<Longrightarrow> length b \<le> limit"
proof (induction body limit c arbitrary: b rule: read_rest.induct)
  case (1 body limit c)
  define k where "k = min (length (hc_rbuf c)) (limit - length body)"
  obtain got c1 where d: "drain_buf k c = (got, c1)" by force
  have len: "length (body @ got) \<le> limit" using drain_buf_part [OF d] "1.prems"(2) by (simp add: k_def) linarith
  have step: "read_rest body limit c =
     (if limit \<le> length (body @ got) then (Some (Ok (body @ got)), c1)
      else await (fill c1) (\<lambda>n c.
        if n = 0 then (let (g, c) = drain_buf (min (length (hc_rbuf c)) (limit - length (body @ got))) c
                       in (Some (Ok ((body @ got) @ g)), c))
        else read_rest (body @ got) limit c))"
    using d by (simp only: read_rest.simps [of body] k_def [symmetric] Let_def case_prod_conv)
  show ?case
  proof (cases "limit \<le> length (body @ got)")
    case False
    then obtain n c2 where f: "fill c1 = (Some (Ok n), c2)" using "1.prems"(1) unfolding step by (auto simp: await_ok)
    show ?thesis
    proof (cases "n = 0")
      case True
      obtain g c3 where g: "drain_buf (min (length (hc_rbuf c2)) (limit - length (body @ got))) c2 = (g, c3)" by force
      have "b = (body @ got) @ g" using step "1.prems"(1) False f True g by (simp only: if_False await.simps) simp
      with drain_buf_part [OF g] len show ?thesis by simp linarith
    next
      case more: False
      have "read_rest (body @ got) limit c2 = (Some (Ok b), c')"
        using step "1.prems"(1) False f more by (simp only: if_False await.simps)
      from "1.IH" [OF refl d [unfolded k_def, symmetric] refl False f more this len] show ?thesis .
    qed
  qed (use step "1.prems"(1) len in \<open>auto\<close>)
qed

text \<open>
  No response makes the client hold more of a body than it asked for, whatever the
  server declares or sends.
\<close>

theorem body_within_limit:
  assumes "read_body h method limit c = (Some (Ok (body, reusable)), c')"
  shows "length body \<le> limit"
  using assms unfolding read_body_def Let_def
  by (auto simp: await_ok split: if_splits option.splits
      dest!: read_chunks_bound read_exact_buf_bound read_rest_bound)

theorem body_within_limit_witness:
  "\<exists>body c'. read_body chunked_head (ascii ''HEAD'') 0 (connection_new []) = (Some (Ok (body, True)), c') \<and> length body \<le> 0"
proof -
  have "\<not> has_token (ascii ''Connection'') (ascii ''close'') chunked_head"
    by (simp add: has_token_def chunked_head_def ascii_def eq_ignore_case_def lower_def)
  then have r: "read_body chunked_head (ascii ''HEAD'') 0 (connection_new []) = (Some (Ok ([], True)), connection_new [])"
    by (simp add: read_body_def Let_def chunked_head_def)
  with body_within_limit [OF r] show ?thesis by blast
qed

section \<open>Heads\<close>

definition render_lines :: "response_head \<Rightarrow> bytes list" where
  "render_lines h = ((if hd_minor h = 1 then ascii ''HTTP/1.1'' else ascii ''HTTP/1.0'') @ [32] @ hd_text h) #
     map (\<lambda>(k, v). k @ [58, 32] @ v) (hd_headers h)"

text \<open>A head that can be written: its text begins with the status, nothing breaks a line.\<close>

definition clean_head :: "response_head \<Rightarrow> bool" where
  "clean_head h \<longleftrightarrow> hd_minor h \<le> 1 \<and> trim_start (hd_text h) = hd_text h \<and> length (hd (split_on 32 (hd_text h))) = 3 \<and>
     parse_unsigned 10 65535 (hd (split_on 32 (hd_text h))) = Some (hd_status h) \<and> 13 \<notin> set (hd_text h) \<and>
     list_all (\<lambda>(k, v). 58 \<notin> set k \<and> 13 \<notin> set k \<and> 13 \<notin> set v \<and> trimmed k \<and> trimmed v) (hd_headers h) \<and>
     utf8_valid (join_lines (render_lines h)) \<and> length (join_lines (render_lines h)) + 4 \<le> MAX_HEADER_BYTES"

lemma clean_head_lines: "clean_head h \<Longrightarrow> clean_lines (render_lines h)"
  by (auto simp: clean_head_def clean_lines_def render_lines_def ascii_def list_all_iff)

lemma trim_value: "trimmed v \<Longrightarrow> trim (32 # v) = v"
proof (cases v)
  case Nil
  then show ?thesis by (simp add: trim_def trim_start_def trim_end_def white_space_def starts_with_def)
qed (use trim_space in auto)

lemma parse_rendered_headers:
  "list_all (\<lambda>(k, v). 58 \<notin> set k \<and> 13 \<notin> set k \<and> 13 \<notin> set v \<and> trimmed k \<and> trimmed v) hs \<Longrightarrow>
    parse_headers (map (\<lambda>(k, v). k @ [58, 32] @ v) hs) = Ok hs"
proof (induction hs)
  case (Cons kv hs)
  obtain k v where kv: "kv = (k, v)" by force
  with Cons.prems have "split_once 58 (k @ 58 # 32 # v) = Some (k, 32 # v)" by (intro split_once_append) simp
  with Cons kv show ?case by (simp add: trim_value trim_trimmed)
qed simp

lemma parse_rendered:
  assumes "clean_head h"
  shows "parse_head (join_lines (render_lines h)) = Ok h"
proof -
  note c = assms [unfolded clean_head_def]
  let ?p = "if hd_minor h = 1 then ascii ''HTTP/1.1'' else ascii ''HTTP/1.0''"
  have "split_once 32 (?p @ 32 # hd_text h) = Some (?p, hd_text h)"
    by (rule split_once_append) (simp add: ascii_def)
  moreover have "?p = ascii ''HTTP/1.1'' \<longleftrightarrow> hd_minor h = 1" "?p = ascii ''HTTP/1.1'' \<or> ?p = ascii ''HTTP/1.0''" by simp_all
  ultimately have "parse_status (?p @ [32] @ hd_text h) = Ok (hd_minor h, hd_status h, hd_text h)"
    using c by (auto simp: parse_status_def Let_def)
  then show ?thesis
    using c split_join [OF clean_head_lines [OF assms]] parse_rendered_headers [of "hd_headers h"]
    by (simp add: parse_head_def Let_def) (simp add: render_lines_def)
qed

definition render_head :: "response_head \<Rightarrow> bytes" where "render_head h = encode_lines (render_lines h)"

lemma read_head_step:
  assumes "hc_flat c = (render_head h @ r, e)" and "clean_head h"
  shows "\<exists>c'. read_head c = (if interim h then read_head c' else (Some (Ok h), c')) \<and> hc_flat c' = (r, e)"
proof -
  note lines = clean_head_lines [OF assms(2)]
  let ?j = "join_lines (render_lines h)"
  have w: "render_head h @ r = ?j @ (CRLF @ CRLF) @ r"
    using encode_lines_join [of "render_lines h"] lines by (simp add: render_head_def clean_lines_def)
  have "find_sub (CRLF @ CRLF) (render_head h @ r) = Some (length ?j)"
    using find_blank_line [OF lines] by (simp add: render_head_def)
  moreover have "length ?j + length (CRLF @ CRLF) \<le> MAX_HEADER_BYTES" using assms(2) by (simp add: clean_head_def)
  ultimately obtain c1 where c1: "read_past (CRLF @ CRLF) MAX_HEADER_BYTES HeadersTooLong c = (Some (Ok (length ?j)), c1)"
    "hc_flat c1 = (render_head h @ r, e)" "length ?j + length (CRLF @ CRLF) \<le> length (hc_rbuf c1)"
    using read_past_found [OF assms(1)] by (metis append_is_Nil_conv list.distinct(1))
  then have "length ?j + 4 \<le> length (hc_rbuf c1)" by simp
  then obtain c2 where c2: "drain_buf (length ?j + 4) c1 = (take (length ?j + 4) (render_head h @ r), c2)"
    "hc_flat c2 = (drop (length ?j + 4) (render_head h @ r), e)"
    by (rule drain_buf_flat [OF c1(2)])
  have cut: "take (length ?j + 4) (render_head h @ r) = ?j @ CRLF @ CRLF" "drop (length ?j + 4) (render_head h @ r) = r"
    unfolding w by simp_all
  with c1(1) c2 parse_rendered [OF assms(2)] show ?thesis
    by (intro exI [of _ c2]) (subst read_head.simps, simp)
qed

text \<open>
  A response head is read off the stream exactly as the server wrote it, whatever
  pieces it arrives in and however many interim responses precede it; the bytes after
  it stay in the connection.
\<close>

lemma head_any_segmentation:
  assumes "hc_flat c = (concat (map render_head interims) @ render_head h @ rest, e)"
    and "list_all (\<lambda>i. clean_head i \<and> interim i) interims" and "clean_head h" and "\<not> interim h"
  shows "\<exists>c'. read_head c = (Some (Ok h), c') \<and> hc_flat c' = (rest, e)"
  using assms(1,2)
proof (induction interims arbitrary: c)
  case Nil
  then have "hc_flat c = (render_head h @ rest, e)" by simp
  from read_head_step [OF this assms(3)] assms(4) show ?case by auto
next
  case (Cons i interims)
  then have "hc_flat c = (render_head i @ concat (map render_head interims) @ render_head h @ rest, e)" by simp
  from read_head_step [OF this] Cons.prems(2) obtain c1 where
    c1: "read_head c = read_head c1" "hc_flat c1 = (concat (map render_head interims) @ render_head h @ rest, e)" by auto
  from Cons.IH [OF c1(2)] Cons.prems(2) c1(1) show ?case by simp
qed

lemmas text_defs = trim_def trim_start_def trim_end_def trimmed_def white_space_def starts_with_def ascii_def
  parse_unsigned_def digit_value_def is_digit_def

section \<open>Requests\<close>

text \<open>No field of the request can end a line.\<close>

definition clean_request :: "http_request \<Rightarrow> bool" where
  "clean_request r \<longleftrightarrow> 13 \<notin> set (hr_method r) \<and> 13 \<notin> set (hr_target r) \<and> 13 \<notin> set (hr_host r) \<and>
     list_all (\<lambda>(k, v). 13 \<notin> set k \<and> 13 \<notin> set v) (hr_headers r)"

lemma set_insert_header: "set (insert_header h hs) = insert h (set hs)"
  by (induction hs) auto

lemma set_sort_headers [simp]: "set (sort_headers hs) = set hs"
  by (induction hs) (simp_all add: sort_headers_def set_insert_header)

lemma dec_nat_no_cr: "13 \<notin> set (ascii (dec_nat n))"
proof
  assume "13 \<in> set (ascii (dec_nat n))"
  then obtain c where c: "c \<in> set (dec_nat n)" "(13 :: u8) = word_of_nat (of_char c)" by (auto simp: ascii_def)
  from arg_cong [OF c(2), of unat] have "(of_char c :: nat) = 13" by simp
  with dec_nat_digits [OF c(1)] show False by simp
qed

lemma ascii_literal: "ascii [] = []" "ascii (x # s) = word_of_nat (of_char x) # ascii s"
  by (simp_all add: ascii_def)

lemma request_lines_clean:
  assumes "clean_request r"
  shows "clean_lines (request_lines r)"
proof -
  have "13 \<notin> set (user_agent r)"
  proof (cases "find is_user_agent (hr_headers r)")
    case (Some kv)
    then have "kv \<in> set (hr_headers r)" by (auto simp: find_Some_iff)
    with assms Some show ?thesis by (cases kv) (auto simp: user_agent_def clean_request_def list_all_iff)
  qed (simp add: user_agent_def GO_USER_AGENT_def ascii_def)
  moreover have "13 \<notin> set k \<and> 13 \<notin> set v" if "(k, v) \<in> set (hr_headers r)" for k v
    using assms that by (auto simp: clean_request_def list_all_iff)
  ultimately show ?thesis
    using assms dec_nat_no_cr
    by (auto simp: clean_lines_def request_lines_def clean_request_def list_all_iff ascii_literal
        split: option.split)
qed

text \<open>
  A request cannot be split by its fields: as long as none of them holds a carriage
  return, the first empty line is the end of its head and what follows is its body.
\<close>

theorem request_head_ends:
  assumes "clean_request r"
  shows "find_sub (CRLF @ CRLF) (encode_request r) = Some (length (join_lines (request_lines r))) \<and>
    drop (length (join_lines (request_lines r)) + 4) (encode_request r) = (case hr_body r of None \<Rightarrow> [] | Some b \<Rightarrow> b)"
proof -
  note c = request_lines_clean [OF assms]
  then have "request_lines r \<noteq> []" by (simp add: clean_lines_def)
  with find_blank_line [OF c] encode_lines_join [of "request_lines r"] show ?thesis by (simp add: encode_request_def)
qed

definition get_request :: http_request where
  "get_request = \<lparr>hr_method = ascii ''GET'', hr_target = ascii ''/'', hr_host = ascii ''h'', hr_headers = [],
     hr_body = Some [13, 10], hr_gzip = False\<rparr>"

theorem request_head_ends_witness:
  "drop (length (join_lines (request_lines get_request)) + 4) (encode_request get_request) = [13, 10]"
proof -
  have "clean_request get_request" by (simp add: clean_request_def get_request_def ascii_def)
  from request_head_ends [OF this] show ?thesis by (simp add: get_request_def)
qed

end
