(* ===== verification/Webtunnel.thy ===== *)
theory Webtunnel
  imports HttpRead "HOL-Library.Sublist"
begin

text \<open>
  The webtunnel client (\<open>src/transports/webtunnel/domain\<close>): bridge-line arguments and the
  TLS checks they ask for (\<open>config.rs\<close>), the rotation of server names
  (\<open>servername.rs\<close>), the HTTP upgrade (\<open>upgrade.rs\<close>) and the dial that puts them together
  (\<open>transport.rs\<close>).  URLs, base64 and Unicode case mapping are parameters, so are the TCP
  and TLS connections; log lines are left out.
\<close>

section \<open>Server names\<close>

record generator =
  gn_spec :: bytes
  gn_names :: "bytes list"
  gn_position :: nat

text \<open>\<open>pick n\<close> is the random index below \<open>n\<close>; \<open>None\<close> is an invalid spec.\<close>

definition generator_new :: "(nat \<Rightarrow> nat) \<Rightarrow> bytes \<Rightarrow> generator option" where
  "generator_new pick spec =
     (let names = if spec = [] then [] else filter (\<lambda>n. n \<noteq> []) (map trim (split_on 44 spec))
      in if spec \<noteq> [] \<and> names = [] then None
         else Some \<lparr>gn_spec = spec, gn_names = names,
                    gn_position = if names = [] then 0 else pick (length names)\<rparr>)"

text \<open>An index out of range would panic; \<open>generator_ok\<close> rules it out.\<close>

definition current_name :: "generator \<Rightarrow> nat \<Rightarrow> bytes" where
  "current_name g p = (if gn_names g = [] then gn_spec g else gn_names g ! p)"

definition generate :: "generator \<Rightarrow> bytes" where "generate g = current_name g (gn_position g)"

definition reroll_if_unchanged :: "bytes \<Rightarrow> generator \<Rightarrow> generator" where
  "reroll_if_unchanged name g =
     (if gn_names g = [] \<or> current_name g (gn_position g) \<noteq> name then g
      else g\<lparr>gn_position := (gn_position g + 1) mod length (gn_names g)\<rparr>)"

definition generator_ok :: "generator \<Rightarrow> bool" where
  "generator_ok g \<longleftrightarrow> (gn_names g = [] \<or> gn_position g < length (gn_names g))"

type_synonym holder = "bytes \<rightharpoonup> generator"

definition holder_get :: "(nat \<Rightarrow> nat) \<Rightarrow> bytes \<Rightarrow> holder \<Rightarrow> (generator \<times> holder) option" where
  "holder_get pick spec h =
     (case h spec of
        Some g \<Rightarrow> Some (g, h)
      | None \<Rightarrow> map_option (\<lambda>g. (g, h(spec \<mapsto> g))) (generator_new pick spec))"

section \<open>Configuration\<close>

definition DEFAULT_UTLS :: bytes where "DEFAULT_UTLS = ascii ''hellorandomizednoalpn''"

definition UTLS_NAMES :: "bytes list" where
  "UTLS_NAMES = map ascii
     [''hellorandomized'', ''hellorandomizedalpn'', ''hellorandomizednoalpn'', ''hellofirefox_auto'', ''hellofirefox_55'',
      ''hellofirefox_56'', ''hellofirefox_63'', ''hellofirefox_65'', ''hellofirefox_99'', ''hellofirefox_102'',
      ''hellofirefox_105'', ''hellochrome_auto'', ''hellochrome_58'', ''hellochrome_62'', ''hellochrome_70'',
      ''hellochrome_72'', ''hellochrome_83'', ''hellochrome_87'', ''hellochrome_96'', ''hellochrome_100'',
      ''hellochrome_102'', ''helloios_auto'', ''helloios_11_1'', ''helloios_12_1'', ''helloios_13'', ''helloios_14'',
      ''helloandroid_11'', ''helloedge_auto'', ''helloedge_85'', ''helloedge_106'', ''hellosafari_auto'',
      ''hellosafari_16_0'', ''hello360_auto'', ''hello360_7_5'', ''hello360_11_0'', ''helloqq_auto'', ''helloqq_11_1'']"

text \<open>What the model takes from other crates.\<close>

record url =
  ur_scheme :: bytes
  ur_host :: "bytes option"
  ur_port :: "nat option"
  ur_path :: bytes

record wt_env =
  we_url :: "bytes \<Rightarrow> url option"
  we_lowercase :: "bytes \<Rightarrow> bytes"
  we_base64 :: "bytes \<Rightarrow> bytes option"
  we_pick :: "nat \<Rightarrow> nat"

datatype wt_error = BadUrl | UnknownScheme | BadHello bytes | BadPin | ChainOnly | NoServerName | NoServerNameUtls
  | DialFailed | BadSpec | TlsPrepare | TlsConnect | UpgradeIo http_error | UpgradeWait | Unrecognized

definition parse_client_hello_id :: "wt_env \<Rightarrow> bytes \<Rightarrow> (bytes option, wt_error) res" where
  "parse_client_hello_id E s =
     (let s = we_lowercase E s
      in if s = ascii ''none'' then Ok None
         else if s = [] then Ok (Some (ascii ''hellochrome_auto''))
         else if s \<in> set UTLS_NAMES then Ok (Some s)
         else Err (BadHello s))"

record wt_config =
  wc_remote_address :: bytes
  wc_path :: bytes
  wc_tls_kind :: bytes
  wc_tls_server_name :: bytes
  wc_http_host :: bytes
  wc_utls_fingerprint :: bytes
  wc_utls_verify_name :: bytes
  wc_pinned_hash :: bytes

definition config_empty :: wt_config where
  "config_empty = \<lparr>wc_remote_address = [], wc_path = [], wc_tls_kind = [], wc_tls_server_name = [], wc_http_host = [],
     wc_utls_fingerprint = [], wc_utls_verify_name = [], wc_pinned_hash = []\<rparr>"

definition trim_brackets :: "bytes \<Rightarrow> bytes" where
  "trim_brackets s =
     rev (dropWhile (\<lambda>c. c = 91 \<or> c = 93) (rev (dropWhile (\<lambda>c. c = 91 \<or> c = 93) s)))"

definition url_config :: "wt_env \<Rightarrow> args \<Rightarrow> bytes \<Rightarrow> (wt_config, wt_error) res" where
  "url_config E a url_str =
     (case we_url E url_str of
        None \<Rightarrow> Err BadUrl
      | Some url \<Rightarrow>
          if ur_scheme url \<noteq> ascii ''https'' \<and> ur_scheme url \<noteq> ascii ''http'' then Err UnknownScheme
          else
            let https = (ur_scheme url = ascii ''https'');
                hostname = trim_brackets (case ur_host url of Some h \<Rightarrow> h | None \<Rightarrow> []);
                port = ascii (dec_nat (case ur_port url of Some p \<Rightarrow> p | None \<Rightarrow> if https then 443 else 80));
                addr = (if 58 \<in> set hostname then [91] @ hostname @ [93, 58] @ port else hostname @ [58] @ port)
            in Ok (config_empty
                 \<lparr>wc_tls_kind := if https then ascii ''tls'' else [],
                  wc_path := (case ur_path url of c # p \<Rightarrow> if c = 47 then p else c # p | [] \<Rightarrow> []),
                  wc_tls_server_name := hostname, wc_http_host := hostname,
                  wc_remote_address := (case args_get a (ascii ''addr'') of Some v \<Rightarrow> v | None \<Rightarrow> addr)\<rparr>))"

definition parse_client_args :: "wt_env \<Rightarrow> args \<Rightarrow> (wt_config, wt_error) res" where
  "parse_client_args E a =
     map_ok (\<lambda>c.
       let c = (case args_get a (ascii ''sni-imitation'') of
                  Some v \<Rightarrow> c\<lparr>wc_tls_server_name := v, wc_utls_verify_name := wc_http_host c\<rparr> | None \<Rightarrow> c);
           c = (case args_get a (ascii ''servername'') of Some v \<Rightarrow> c\<lparr>wc_tls_server_name := v\<rparr> | None \<Rightarrow> c);
           c = c\<lparr>wc_utls_fingerprint :=
                  (case args_get a (ascii ''utls'') of
                     None \<Rightarrow> DEFAULT_UTLS
                   | Some v \<Rightarrow> if v = [] then DEFAULT_UTLS else if v = ascii ''none'' then [] else v)\<rparr>;
           c = (case args_get a (ascii ''cert'') of Some v \<Rightarrow> c\<lparr>wc_pinned_hash := v\<rparr> | None \<Rightarrow> c)
       in case args_get a (ascii ''cert-domain'') of Some v \<Rightarrow> c\<lparr>wc_utls_verify_name := v\<rparr> | None \<Rightarrow> c)
     (case args_get a (ascii ''url'') of None \<Rightarrow> Ok config_empty | Some u \<Rightarrow> url_config E a u)"

datatype verify = Pins "bytes list" | VerifyName bytes | VerifyServerName

definition tls_checks :: "wt_env \<Rightarrow> wt_config \<Rightarrow> bytes \<Rightarrow> (verify \<times> bytes option, wt_error) res" where
  "tls_checks E c server_name =
     (case if wc_pinned_hash c = [] then Some [] else map_option (\<lambda>p. [p]) (we_base64 E (wc_pinned_hash c)) of
        None \<Rightarrow> Err BadPin
      | Some pins \<Rightarrow>
          (case if wc_utls_fingerprint c = [] then Ok None else parse_client_hello_id E (wc_utls_fingerprint c) of
             Err e \<Rightarrow> Err e
           | Panic \<Rightarrow> Panic
           | Ok utls \<Rightarrow>
               if pins = [] \<and> utls \<noteq> None \<and> wc_utls_verify_name c = ascii ''*'' then Err ChainOnly
               else
                 let v = (if pins \<noteq> [] then Pins pins
                          else if utls \<noteq> None \<and> wc_utls_verify_name c \<noteq> [] then VerifyName (wc_utls_verify_name c)
                          else VerifyServerName)
                 in if server_name = [] then
                      (if v = VerifyServerName then Err (if utls \<noteq> None then NoServerNameUtls else NoServerName)
                       else Ok (v, None))
                    else Ok (v, Some server_name)))"

section \<open>The upgrade\<close>

definition upgrade_request :: "bytes \<Rightarrow> bytes \<Rightarrow> http_request" where
  "upgrade_request path host =
     \<lparr>hr_method = ascii ''GET'', hr_target = [47] @ path, hr_host = host,
      hr_headers = [(ascii ''Connection'', ascii ''upgrade''), (ascii ''Upgrade'', ascii ''websocket'')],
      hr_body = None, hr_gzip = False\<rparr>"

definition switches :: "response_head \<Rightarrow> bool" where
  "switches h \<longleftrightarrow> hd_text h = ascii ''101 Switching Protocols'' \<and>
     (case head_header (ascii ''Upgrade'') h of Some v \<Rightarrow> eq_ignore_case v (ascii ''websocket'') | None \<Rightarrow> False) \<and>
     (case head_header (ascii ''Connection'') h of Some v \<Rightarrow> eq_ignore_case v (ascii ''upgrade'') | None \<Rightarrow> False)"

text \<open>The bytes written, and the result: a connection, an error, or a wait for the reply.\<close>

definition upgrade_client :: "source \<Rightarrow> bytes \<Rightarrow> bytes \<Rightarrow> bytes \<times> (connection, wt_error) res option" where
  "upgrade_client stream path host =
     (encode_request (upgrade_request path host),
      case read_head (connection_new stream) of
        (None, _) \<Rightarrow> None
      | (Some (Err e), _) \<Rightarrow> Some (Err (UpgradeIo e))
      | (Some Panic, _) \<Rightarrow> Some Panic
      | (Some (Ok h), c) \<Rightarrow> Some (if switches h then Ok c else Err Unrecognized))"

section \<open>The dial\<close>

text \<open>\<open>Prefixed\<close>: what arrived with the reply is read first.\<close>

record prefixed =
  px_prefix :: bytes
  px_pos :: nat
  px_inner :: source

definition wt_assemble :: "connection \<Rightarrow> prefixed" where
  "wt_assemble c = \<lparr>px_prefix = hc_rbuf c, px_pos = 0, px_inner = hc_stream c\<rparr>"

definition prefixed_read :: "nat \<Rightarrow> prefixed \<Rightarrow> bytes io \<times> prefixed" where
  "prefixed_read cap p =
     (if px_pos p < length (px_prefix p) then
        let n = min cap (length (px_prefix p) - px_pos p)
        in (Done (take n (drop (px_pos p) (px_prefix p))), p\<lparr>px_pos := px_pos p + n\<rparr>)
      else case src_read cap (px_inner p) of (r, src) \<Rightarrow> (r, p\<lparr>px_inner := src\<rparr>))"

text \<open>\<open>tcp\<close> is the dialed connection; the TLS connector's \<open>prepare\<close> checks the settings and
  \<open>connect\<close> is the handshake with them, which gives the encrypted stream, fails or
  (\<open>None\<close>) waits.  A dial that is still waiting has the result \<open>UpgradeWait\<close>.\<close>

record wt_net =
  wn_tcp :: "bytes \<Rightarrow> source option"
  wn_prepare :: "verify \<Rightarrow> bytes option \<Rightarrow> (unit, bytes) res"
  wn_connect :: "verify \<Rightarrow> bytes option \<Rightarrow> source \<Rightarrow> (source, bytes) res option"

text \<open>A dial that used \<open>name\<close> has failed; other dials may have moved on since.\<close>

definition dial_failed :: "bytes \<Rightarrow> bytes \<Rightarrow> holder \<Rightarrow> holder" where
  "dial_failed spec name h = (case h spec of None \<Rightarrow> h | Some g \<Rightarrow> h(spec \<mapsto> reroll_if_unchanged name g))"

definition wt_stream :: "wt_net \<Rightarrow> (verify \<times> bytes option) option \<Rightarrow> source \<Rightarrow> (source, wt_error) res" where
  "wt_stream N tls tcp =
     (case tls of
        None \<Rightarrow> Ok tcp
      | Some (v, sni) \<Rightarrow>
          (case wn_connect N v sni tcp of
             None \<Rightarrow> Err UpgradeWait | Some (Ok s) \<Rightarrow> Ok s | Some (Err _) \<Rightarrow> Err TlsConnect | Some Panic \<Rightarrow> Panic))"

definition wt_upgrade :: "wt_net \<Rightarrow> (verify \<times> bytes option) option \<Rightarrow> wt_config \<Rightarrow> source \<Rightarrow> (connection, wt_error) res" where
  "wt_upgrade N tls c tcp =
     (case wt_stream N tls tcp of
        Err e \<Rightarrow> Err e
      | Panic \<Rightarrow> Panic
      | Ok stream \<Rightarrow>
          (case snd (upgrade_client stream (wc_path c) (wc_http_host c)) of None \<Rightarrow> Err UpgradeWait | Some r \<Rightarrow> r))"

text \<open>The TLS settings of a dial, if it uses TLS, once the connector accepted them.\<close>

definition wt_tls :: "wt_env \<Rightarrow> wt_net \<Rightarrow> wt_config \<Rightarrow> bytes \<Rightarrow> ((verify \<times> bytes option) option, wt_error) res" where
  "wt_tls E N c name =
     (if wc_tls_kind c = ascii ''tls'' then
        (case tls_checks E c name of
           Err e \<Rightarrow> Err e
         | Panic \<Rightarrow> Panic
         | Ok (v, sni) \<Rightarrow>
             (case wn_prepare N v sni of Ok _ \<Rightarrow> Ok (Some (v, sni)) | Err _ \<Rightarrow> Err TlsPrepare | Panic \<Rightarrow> Panic))
      else Ok None)"

definition dial_impl :: "wt_env \<Rightarrow> wt_net \<Rightarrow> wt_config \<Rightarrow> holder \<Rightarrow> (prefixed, wt_error) res \<times> holder" where
  "dial_impl E N c h =
     (case wn_tcp N (wc_remote_address c) of
        None \<Rightarrow> (Err DialFailed, h)
      | Some tcp \<Rightarrow>
          let spec = trim (wc_tls_server_name c)
          in case if wc_tls_server_name c = [] then Some (None, h)
                  else map_option (\<lambda>(g, h). (Some g, h)) (holder_get (we_pick E) spec h) of
               None \<Rightarrow> (Err BadSpec, h)
             | Some (gen, h) \<Rightarrow>
                 let name = (case gen of None \<Rightarrow> [] | Some g \<Rightarrow> generate g)
                 in case wt_tls E N c name of
                      Err e \<Rightarrow> (Err e, h)
                    | Panic \<Rightarrow> (Panic, h)
                    | Ok tls \<Rightarrow>
                        (case wt_upgrade N tls c tcp of
                           Ok conn \<Rightarrow> (Ok (wt_assemble conn), h)
                         | Panic \<Rightarrow> (Panic, h)
                         | Err e \<Rightarrow>
                             (Err e, if e = UpgradeWait then h
                                     else case gen of None \<Rightarrow> h
                                       | Some g \<Rightarrow> dial_failed spec name h)))"

section \<open>Rotation of names\<close>

lemma reroll_same:
  "generator_ok g \<Longrightarrow> gn_names (reroll_if_unchanged n g) = gn_names g \<and> generator_ok (reroll_if_unchanged n g)"
  by (auto simp: reroll_if_unchanged_def generator_ok_def)

lemma reroll_once:
  assumes "generator_ok g" and "distinct (gn_names g)" and "2 \<le> length (gn_names g)"
  shows "gn_position ((reroll_if_unchanged (generate g) ^^ Suc m) g) = (gn_position g + 1) mod length (gn_names g) \<and>
    gn_names ((reroll_if_unchanged (generate g) ^^ Suc m) g) = gn_names g"
proof (induction m)
  case 0
  show ?case using assms(3) by (auto simp: reroll_if_unchanged_def generate_def)
next
  case (Suc m)
  let ?g = "(reroll_if_unchanged (generate g) ^^ Suc m) g" and ?n = "length (gn_names g)"
  have pos: "gn_position g < ?n" using assms(1,3) by (auto simp: generator_ok_def)
  have "(gn_position g + 1) mod ?n \<noteq> gn_position g"
  proof (cases "gn_position g + 1 = ?n")
    case False
    with pos have "gn_position g + 1 < ?n" by simp
    then show ?thesis by simp
  qed (use assms(3) in auto)
  moreover have "(gn_position g + 1) mod ?n < ?n" using assms(3) by (intro mod_less_divisor) linarith
  ultimately have "generate ?g \<noteq> generate g"
    using Suc pos assms(2,3) by (auto simp: generate_def current_name_def nth_eq_iff_index_eq)
  then have "reroll_if_unchanged (generate g) ?g = ?g" by (simp add: reroll_if_unchanged_def generate_def)
  with Suc show ?case by simp
qed

text \<open>
  Blocked names are left behind one by one.  However many dials with the current
  name fail at the same time, they move the generator exactly one entry on; so after
  \<open>k\<close> such rounds it is \<open>k\<close> entries further, and every name of the list gets its turn.
\<close>

theorem names_rotate:
  assumes "generator_ok g" and "distinct (gn_names g)" and "2 \<le> length (gn_names g)"
  shows "generate (fold (\<lambda>m g. (reroll_if_unchanged (generate g) ^^ Suc m) g) rounds g) =
    gn_names g ! ((gn_position g + length rounds) mod length (gn_names g))"
  using assms
proof (induction rounds arbitrary: g)
  case Nil
  then have "gn_position g < length (gn_names g)" by (auto simp: generator_ok_def)
  with Nil show ?case by (auto simp: generate_def current_name_def)
next
  case (Cons m rounds)
  let ?g = "(reroll_if_unchanged (generate g) ^^ Suc m) g"
  note once = reroll_once [OF Cons.prems, of m]
  have "0 < length (gn_names g)" using Cons.prems(3) by linarith
  then have ok: "generator_ok ?g" using once by (simp only: generator_ok_def) (simp add: mod_less_divisor)
  have "generate (fold (\<lambda>m g. (reroll_if_unchanged (generate g) ^^ Suc m) g) rounds ?g) =
    gn_names ?g ! ((gn_position ?g + length rounds) mod length (gn_names ?g))"
    by (rule Cons.IH [OF ok]) (use once Cons.prems in simp_all)
  with once show ?case by (simp only: fold.simps comp_apply list.size) (simp add: mod_simps)
qed

definition two_names :: generator where
  "two_names = \<lparr>gn_spec = [97, 44, 98], gn_names = [[97], [98]], gn_position = 1\<rparr>"

theorem names_rotate_witness: "generate (fold (\<lambda>m g. (reroll_if_unchanged (generate g) ^^ Suc m) g) [3, 0] two_names) = [98]"
proof -
  have "generator_ok two_names" "distinct (gn_names two_names)" "2 \<le> length (gn_names two_names)"
    by (simp_all add: generator_ok_def two_names_def)
  note names_rotate [OF this, of "[3, 0]"]
  also have "gn_names two_names ! ((gn_position two_names + length [3, 0 :: nat]) mod length (gn_names two_names)) = [98]"
    by (simp add: two_names_def mod_Suc)
  finally show ?thesis .
qed

section \<open>Certificates\<close>

text \<open>
  No setting turns the certificate check off.  When the arguments are accepted the
  certificate is checked against the pins if there are any, else against a name that
  is not empty and not the wildcard: the server name, which is then also sent, or the
  name given for verification.
\<close>

theorem certificate_always_checked:
  assumes "tls_checks E c name = Ok (v, sni)"
  shows "sni = (if name = [] then None else Some name) \<and>
    (case v of
       Pins pins \<Rightarrow> wc_pinned_hash c \<noteq> [] \<and> pins \<noteq> [] \<and> we_base64 E (wc_pinned_hash c) = Some (hd pins)
     | VerifyName n \<Rightarrow> wc_pinned_hash c = [] \<and> n = wc_utls_verify_name c \<and> n \<noteq> [] \<and> n \<noteq> ascii ''*''
     | VerifyServerName \<Rightarrow> wc_pinned_hash c = [] \<and> name \<noteq> [] \<and> sni = Some name)"
proof -
  obtain pins where pins: "(if wc_pinned_hash c = [] then Some [] else map_option (\<lambda>p. [p]) (we_base64 E (wc_pinned_hash c))) = Some pins"
    using assms by (auto simp: tls_checks_def split: option.splits)
  obtain utls where utls: "(if wc_utls_fingerprint c = [] then Ok None else parse_client_hello_id E (wc_utls_fingerprint c)) = Ok utls"
    using assms pins by (auto simp: tls_checks_def split: res.splits)
  note step = assms [unfolded tls_checks_def pins utls option.case res.case Let_def]
  show ?thesis
  proof (cases "pins = []")
    case True
    with pins have "wc_pinned_hash c = []" by (auto split: if_splits option.splits)
    with True step show ?thesis by (auto split: if_splits)
  next
    case False
    with pins have "wc_pinned_hash c \<noteq> []" "we_base64 E (wc_pinned_hash c) = Some (hd pins)"
      by (auto split: if_splits option.splits)
    with False step show ?thesis by (auto split: if_splits)
  qed
qed

definition plain_env :: wt_env where
  "plain_env = \<lparr>we_url = (\<lambda>_. None), we_lowercase = map lower, we_base64 = Some, we_pick = (\<lambda>_. 0)\<rparr>"

theorem certificate_always_checked_witness:
  "tls_checks plain_env config_empty [104] = Ok (VerifyServerName, Some [104]) \<and> wc_pinned_hash config_empty = []"
proof -
  have "tls_checks plain_env config_empty [104] = Ok (VerifyServerName, Some [104])"
    by (simp add: tls_checks_def config_empty_def)
  with certificate_always_checked [OF this] show ?thesis by simp
qed

section \<open>The tunnel\<close>

definition px_flat :: "prefixed \<Rightarrow> bytes \<times> src_end" where
  "px_flat p = (case src_flat (px_inner p) of (bs, e) \<Rightarrow> (drop (px_pos p) (px_prefix p) @ bs, e))"

text \<open>Reads with buffers of the given sizes, up to a wait, the end or an error.\<close>

fun px_reads :: "nat list \<Rightarrow> prefixed \<Rightarrow> bytes \<times> prefixed" where
  "px_reads [] p = ([], p)"
| "px_reads (cap # caps) p =
     (case prefixed_read cap p of
        (Done bs, p) \<Rightarrow> if bs = [] then ([], p) else (case px_reads caps p of (r, p) \<Rightarrow> (bs @ r, p))
      | (_, p) \<Rightarrow> ([], p))"

lemma prefixed_read_flat:
  assumes "px_flat p = (bs, e)" and "0 < cap"
  shows "(bs = [] \<and> fst (prefixed_read cap p) = (case e of AtEof \<Rightarrow> Done [] | AtErr n \<Rightarrow> Failed (IoErr n) | StillOpen \<Rightarrow> Pending)) \<or>
    (\<exists>m p'. 0 < m \<and> m \<le> length bs \<and> prefixed_read cap p = (Done (take m bs), p') \<and> px_flat p' = (drop m bs, e))"
proof -
  obtain t where t: "src_flat (px_inner p) = (t, e)" "bs = drop (px_pos p) (px_prefix p) @ t"
    using assms(1) by (auto simp: px_flat_def split: prod.splits)
  show ?thesis
  proof (cases "px_pos p < length (px_prefix p)")
    case True
    let ?n = "min cap (length (px_prefix p) - px_pos p)"
    have "prefixed_read cap p = (Done (take ?n bs), p\<lparr>px_pos := px_pos p + ?n\<rparr>)"
      using True t(2) by (simp add: prefixed_read_def Let_def)
    moreover have "px_flat (p\<lparr>px_pos := px_pos p + ?n\<rparr>) = (drop ?n bs, e)"
      using True t by (simp add: px_flat_def add.commute)
    moreover have "0 < ?n" "?n \<le> length bs" using True t(2) assms(2) by simp_all
    ultimately show ?thesis by blast
  next
    case False
    with src_read_flat [OF assms(2) t(1)] t show ?thesis
      by (auto simp: prefixed_read_def px_flat_def split: prod.split)
  qed
qed

lemma px_reads_flat:
  assumes "px_flat p = (bs, e)" and "0 \<notin> set caps"
  shows "prefix (fst (px_reads caps p)) bs \<and> (caps \<noteq> [] \<and> bs \<noteq> [] \<longrightarrow> fst (px_reads caps p) \<noteq> [])"
  using assms
proof (induction caps arbitrary: p bs)
  case (Cons cap caps)
  from prefixed_read_flat [OF Cons.prems(1), of cap] Cons.prems(2) consider
      "bs = []" "fst (prefixed_read cap p) = (case e of AtEof \<Rightarrow> Done [] | AtErr n \<Rightarrow> Failed (IoErr n) | StillOpen \<Rightarrow> Pending)"
    | m p' where "0 < m" "m \<le> length bs" "prefixed_read cap p = (Done (take m bs), p')" "px_flat p' = (drop m bs, e)"
    by auto
  then show ?case
  proof cases
    case 1
    then have "fst (px_reads (cap # caps) p) = []" by (cases "prefixed_read cap p"; cases e) auto
    with 1(1) show ?thesis by simp
  next
    case 2
    with Cons.IH [OF 2(4)] Cons.prems(2) have "prefix (fst (px_reads caps p')) (drop m bs)" by simp
    then have "prefix (take m bs @ fst (px_reads caps p')) bs" by (metis append_take_drop_id same_prefix_prefix)
    with 2 show ?thesis by (auto split: prod.split)
  qed
qed simp

lemma upgrade_request_sent: "upgrade_client stream path host = (req, r) \<Longrightarrow> req = encode_request (upgrade_request path host)"
  by (simp add: upgrade_client_def)

lemma reply_accepted:
  assumes "src_flat stream = (concat (map render_head interims) @ render_head h @ rest, e)"
    and "list_all (\<lambda>i. clean_head i \<and> interim i) interims" and "clean_head h" and "hd_status h = 101" and "switches h"
  shows "\<exists>c. upgrade_client stream path host = (encode_request (upgrade_request path host), Some (Ok c)) \<and>
    px_flat (wt_assemble c) = (rest, e)"
proof -
  have "hc_flat (connection_new stream) = (concat (map render_head interims) @ render_head h @ rest, e)"
    using assms(1) by (simp add: hc_flat_def connection_new_def)
  moreover have "\<not> interim h" using assms(4) by (simp add: interim_def)
  ultimately obtain c where c: "read_head (connection_new stream) = (Some (Ok h), c)" "hc_flat c = (rest, e)"
    using head_any_segmentation [OF _ assms(2,3)] by blast
  then have "px_flat (wt_assemble c) = (rest, e)" by (simp add: px_flat_def wt_assemble_def hc_flat_def)
  with c(1) assms(5) show ?thesis by (simp add: upgrade_client_def)
qed

text \<open>
  C21: the tunnel begins right after the bridge's reply.  Whatever pieces the reply
  arrives in, whatever interim responses precede it and whatever the bridge sends with
  it, the upgrade succeeds and the bytes tor reads are, from the first one on, those
  that follow the reply's head.
\<close>

theorem tunnel_after_reply:
  assumes "src_flat stream = (concat (map render_head interims) @ render_head h @ rest, e)"
    and "list_all (\<lambda>i. clean_head i \<and> interim i) interims" and "clean_head h" and "hd_status h = 101" and "switches h"
    and "0 \<notin> set caps"
  shows "\<exists>c. upgrade_client stream path host = (encode_request (upgrade_request path host), Some (Ok c)) \<and>
    prefix (fst (px_reads caps (wt_assemble c))) rest \<and>
    (caps \<noteq> [] \<and> rest \<noteq> [] \<longrightarrow> fst (px_reads caps (wt_assemble c)) \<noteq> [])"
  using reply_accepted [OF assms(1-5), of path host] px_reads_flat [OF _ assms(6)] by blast

definition reply_head :: response_head where
  "reply_head = \<lparr>hd_minor = 1, hd_status = 101, hd_text = ascii ''101 Switching Protocols'',
     hd_headers = [(ascii ''upgrade'', ascii ''WebSocket''), (ascii ''connection'', ascii ''Upgrade'')]\<rparr>"

lemma reply_head_clean: "clean_head reply_head" "switches reply_head" "hd_status reply_head = 101"
  by (simp_all add: clean_head_def reply_head_def render_lines_def text_defs MAX_HEADER_BYTES_def
      switches_def head_header_def eq_ignore_case_def lower_def)

lemma sample_reply_accepted:
  "\<exists>c. snd (upgrade_client [SrcData (render_head reply_head)] path host) = Some (Ok c)"
proof -
  have "src_flat [SrcData (render_head reply_head)] = (concat (map render_head []) @ render_head reply_head @ [], StillOpen)" by simp
  from reply_accepted [OF this _ reply_head_clean(1,3,2), of path host] show ?thesis by auto
qed

theorem tunnel_after_reply_witness:
  "\<exists>c. snd (upgrade_client [SrcData (render_head reply_head @ [1, 2]), SrcData [3]] [112] [104]) = Some (Ok c) \<and>
    prefix (fst (px_reads [1, 5, 1] (wt_assemble c))) [1, 2, 3] \<and> fst (px_reads [1, 5, 1] (wt_assemble c)) \<noteq> []"
proof -
  have flat: "src_flat [SrcData (render_head reply_head @ [1, 2]), SrcData [3]] =
      (concat (map render_head []) @ render_head reply_head @ [1, 2, 3], StillOpen)" by simp
  have clean: "clean_head reply_head"
    by (simp add: clean_head_def reply_head_def render_lines_def text_defs MAX_HEADER_BYTES_def)
  have sw: "switches reply_head"
    by (simp add: switches_def reply_head_def head_header_def eq_ignore_case_def lower_def ascii_def)
  have "hd_status reply_head = 101" "list_all (\<lambda>i. clean_head i \<and> interim i) []" "0 \<notin> set [1, 5, 1 :: nat]"
    by (simp_all add: reply_head_def)
  from tunnel_after_reply [OF flat this(2) clean this(1) sw this(3), of "[112]" "[104]"]
  show ?thesis by (auto simp del: px_reads.simps)
qed

section \<open>Failed dials\<close>

text \<open>The failures that count against the server name: those of the handshake and the upgrade.\<close>

fun name_failed :: "(prefixed, wt_error) res \<Rightarrow> bool" where
  "name_failed (Err TlsConnect) = True"
| "name_failed (Err (UpgradeIo _)) = True"
| "name_failed (Err Unrecognized) = True"
| "name_failed _ = False"

text \<open>
  Only a failure that may be the name's fault moves to the next name.  A dial that
  fails before the connection is up, on its settings or is still waiting leaves the
  generator where it was, and so does one that succeeds; one whose handshake or upgrade
  fails moves it on; no dial touches another spec's generator.
\<close>

theorem failed_name_moves:
  assumes "dial_impl E N c h = (r, h')" and "wc_tls_server_name c \<noteq> []" and "h (trim (wc_tls_server_name c)) = Some g"
  shows "h' = h(trim (wc_tls_server_name c) \<mapsto> (if name_failed r then reroll_if_unchanged (generate g) g else g))"
proof -
  let ?spec = "trim (wc_tls_server_name c)"
  have same: "h(?spec \<mapsto> g) = h" using assms(3) by (simp add: fun_upd_idem)
  have get: "holder_get (we_pick E) ?spec h = Some (g, h)" using assms(3) by (simp add: holder_get_def)
  have fail: "dial_failed ?spec (generate g) h = h(?spec \<mapsto> reroll_if_unchanged (generate g) g)"
    using assms(3) by (simp add: dial_failed_def)
  have upgrade: "wt_upgrade N tls c tcp = Err e \<Longrightarrow> e \<in> {TlsConnect, UpgradeWait, Unrecognized} \<or> (\<exists>x. e = UpgradeIo x)" for tls tcp e
    by (auto simp: wt_upgrade_def wt_stream_def upgrade_client_def split: option.splits prod.splits res.splits if_splits)
  have checks: "\<not> name_failed (Err e)" if "wt_tls E N c name = Err e" for name e
    using that by (auto simp: wt_tls_def tls_checks_def parse_client_hello_id_def Let_def split: option.splits res.splits if_splits)
  obtain tcp where "wn_tcp N (wc_remote_address c) = Some tcp \<or> wn_tcp N (wc_remote_address c) = None" by blast
  show ?thesis
  proof (cases "wn_tcp N (wc_remote_address c)")
    case None
    with assms(1) same show ?thesis by (auto simp: dial_impl_def)
  next
    case (Some tcp)
    have run: "dial_impl E N c h =
      (case wt_tls E N c (generate g) of Err e \<Rightarrow> (Err e, h) | Panic \<Rightarrow> (Panic, h)
       | Ok tls \<Rightarrow> (case wt_upgrade N tls c tcp of Ok conn \<Rightarrow> (Ok (wt_assemble conn), h) | Panic \<Rightarrow> (Panic, h)
             | Err e \<Rightarrow> (Err e, if e = UpgradeWait then h else dial_failed ?spec (generate g) h)))"
      using Some assms(2) get by (simp only: dial_impl_def Let_def option.case if_False option.map case_prod_conv)
    show ?thesis
    proof (cases "wt_tls E N c (generate g)")
      case (Ok tls)
      show ?thesis
      proof (cases "wt_upgrade N tls c tcp")
        case (Err e)
        with upgrade [OF this] assms(1) same fail Ok show ?thesis unfolding run by auto
      qed (use assms(1) same Ok in \<open>auto simp: run\<close>)
    next
      case (Err e)
      with assms(1) same checks [OF Err] show ?thesis by (auto simp: run)
    qed (use assms(1) same in \<open>auto simp: run\<close>)
  qed
qed

definition no_net :: wt_net where
  "no_net = \<lparr>wn_tcp = (\<lambda>_. Some [SrcEof]), wn_prepare = (\<lambda>_ _. Ok ()), wn_connect = (\<lambda>_ _ s. Some (Ok s))\<rparr>"

theorem failed_name_moves_witness:
  "snd (dial_impl plain_env no_net (config_empty\<lparr>wc_tls_server_name := [97, 44, 98]\<rparr>) [[97, 44, 98] \<mapsto> two_names]) =
     [[97, 44, 98] \<mapsto> two_names\<lparr>gn_position := 0\<rparr>]"
proof -
  let ?c = "config_empty\<lparr>wc_tls_server_name := [97, 44, 98]\<rparr>" and ?h = "[[97, 44, 98] \<mapsto> two_names]"
  have trim: "trim [97, 44, 98] = [97, 44, 98]" by (simp add: text_defs)
  have "read_past (CRLF @ CRLF) MAX_HEADER_BYTES HeadersTooLong (connection_new [SrcEof]) = (Some (Err HttpEof), connection_new [SrcEof])"
    by (subst read_past.simps) (simp add: connection_new_def fill_def)
  then have "read_head (connection_new [SrcEof]) = (Some (Err HttpEof), connection_new [SrcEof])"
    by (subst read_head.simps) (simp only: await.simps)
  then have "wt_upgrade no_net None ?c [SrcEof] = Err (UpgradeIo HttpEof)"
    by (simp add: wt_upgrade_def wt_stream_def upgrade_client_def)
  then obtain r where r: "dial_impl plain_env no_net ?c ?h = (r, snd (dial_impl plain_env no_net ?c ?h))" "name_failed r"
    by (simp add: dial_impl_def wt_tls_def trim holder_get_def no_net_def config_empty_def ascii_def Let_def)
  have moved: "reroll_if_unchanged (generate two_names) two_names = two_names\<lparr>gn_position := 0\<rparr>"
    by (simp add: reroll_if_unchanged_def generate_def current_name_def two_names_def)
  have "wc_tls_server_name ?c \<noteq> []" "?h (trim (wc_tls_server_name ?c)) = Some two_names" by (simp_all add: trim)
  from failed_name_moves [OF r(1) this] r(2) show ?thesis by (simp only: trim moved if_True fun_upd_upd) (auto simp: trim moved)
qed

end
