(* ===== verification/Socks5.thy ===== *)
theory Socks5
  imports Text ByteSource Await
begin

text \<open>
  The SOCKS5 server that tor talks to, from \<open>src/shared/adapters/socks5.rs\<close>: negotiation,
  the arguments carried in the username and password, and the CONNECT request.  A
  session is its \<open>BufReader\<close> (the buffer and what the stream will still deliver) and
  what it has written.
\<close>

section \<open>The arguments\<close>

datatype socks_error = FieldWas string u8 u8 | TrailingData nat | EmptyUser | EmptyPassword | ArgsError string nat | ArgsUtf8
  | EmptyDomain | DomainUtf8 | BadAddressType u8 | NoMethod | BadMethod u8 | SocksIo io_kind | SocksEof | WriteFailed | SocksTimeout

text \<open>The loop of \<open>parse_client_parameters\<close>: the index, the rest, the key, what is collected of
  the key or value, and whether the last character was an escape.\<close>

fun strict_loop :: "nat \<Rightarrow> bytes \<Rightarrow> bytes option \<Rightarrow> bytes \<Rightarrow> bool \<Rightarrow> args \<Rightarrow> (args, socks_error) res" where
  "strict_loop i [] key acc esc a =
     (if esc then Err (ArgsError ''unterminated escape'' i)
      else case key of
        None \<Rightarrow> Err (ArgsError ''final key with no value'' i)
      | Some k \<Rightarrow> if utf8_valid acc then Ok (args_add k acc a) else Err ArgsUtf8)"
| "strict_loop i (c # rest) key acc esc a =
     (if c = BACKSLASH \<and> \<not> esc then strict_loop (i + 1) rest key acc True a
      else if c = EQ \<and> \<not> esc \<and> key = None then
        (if acc = [] then Err (ArgsError ''unexpected ='' i)
         else if \<not> utf8_valid acc then Err ArgsUtf8
         else strict_loop (i + 1) rest (Some acc) [] False a)
      else if c = SEMI \<and> \<not> esc then
        (case key of
           None \<Rightarrow> Err (ArgsError ''unexpected ;'' i)
         | Some k \<Rightarrow>
             if rest = [] then Err (ArgsError ''unexpected ;'' i)
             else if \<not> utf8_valid acc then Err ArgsUtf8
             else strict_loop (i + 1) rest None [] False (args_add k acc a))
      else if c \<noteq> BACKSLASH \<and> c \<noteq> EQ \<and> c \<noteq> SEMI \<and> esc then Err (ArgsError ''unexpected escape'' (i - 1))
      else strict_loop (i + 1) rest key (acc @ [c]) False a)"

definition socks_client_parameters :: "bytes \<Rightarrow> (args, socks_error) res" where
  "socks_client_parameters s = (if s = [] then Ok args_new else strict_loop 0 s None [] False args_new)"

section \<open>The session\<close>

definition VERSION :: u8 where "VERSION = 5"
definition RSV :: u8 where "RSV = 0"
definition CMD_CONNECT :: u8 where "CMD_CONNECT = 1"
definition ATYP_IPV4 :: u8 where "ATYP_IPV4 = 1"
definition ATYP_DOMAIN :: u8 where "ATYP_DOMAIN = 3"
definition ATYP_IPV6 :: u8 where "ATYP_IPV6 = 4"
definition AUTH_NONE :: u8 where "AUTH_NONE = 0"
definition AUTH_USERPASS :: u8 where "AUTH_USERPASS = 2"
definition AUTH_NO_ACCEPTABLE :: u8 where "AUTH_NO_ACCEPTABLE = 255"
definition RFC1929_VER :: u8 where "RFC1929_VER = 1"
definition RFC1929_SUCCESS :: u8 where "RFC1929_SUCCESS = 0"
definition RFC1929_FAIL :: u8 where "RFC1929_FAIL = 1"

lemmas socks_consts = VERSION_def RSV_def CMD_CONNECT_def ATYP_IPV4_def ATYP_DOMAIN_def ATYP_IPV6_def AUTH_NONE_def
  AUTH_USERPASS_def AUTH_NO_ACCEPTABLE_def RFC1929_VER_def RFC1929_SUCCESS_def RFC1929_FAIL_def

datatype reply_code = Succeeded | GeneralFailure | ConnectionNotAllowed | NetworkUnreachable | HostUnreachable
  | ConnectionRefused | TtlExpired | CommandNotSupported | AddressNotSupported

definition reply_value :: "reply_code \<Rightarrow> u8" where
  "reply_value c =
     (case c of Succeeded \<Rightarrow> 0 | GeneralFailure \<Rightarrow> 1 | ConnectionNotAllowed \<Rightarrow> 2 | NetworkUnreachable \<Rightarrow> 3
      | HostUnreachable \<Rightarrow> 4 | ConnectionRefused \<Rightarrow> 5 | TtlExpired \<Rightarrow> 6 | CommandNotSupported \<Rightarrow> 7 | AddressNotSupported \<Rightarrow> 8)"

definition reply_bytes :: "reply_code \<Rightarrow> bytes" where
  "reply_bytes c = [VERSION, reply_value c, RSV, ATYP_IPV4, 0, 0, 0, 0, 0, 0]"

text \<open>\<open>sk_wfail\<close> is the number of writes that succeed before one fails, if one does.\<close>

record socks =
  sk_buf :: bytes
  sk_src :: source
  sk_out :: "bytes list"
  sk_wfail :: "nat option"

type_synonym 'a sk = "('a, socks_error, socks) await"

definition socks_new :: "source \<Rightarrow> nat option \<Rightarrow> socks" where
  "socks_new src wfail = \<lparr>sk_buf = [], sk_src = src, sk_out = [], sk_wfail = wfail\<rparr>"

text \<open>\<open>fill_buf\<close> of the \<open>BufReader\<close>: one read when the buffer is empty.\<close>

definition sk_fill :: "socks \<Rightarrow> unit sk" where
  "sk_fill s =
     (if sk_buf s \<noteq> [] then (Some (Ok ()), s)
      else case src_read 4096 (sk_src s) of
        (Done bs, src) \<Rightarrow> (Some (if bs = [] then Err SocksEof else Ok ()), s\<lparr>sk_src := src, sk_buf := bs\<rparr>)
      | (Failed e, src) \<Rightarrow> (Some (Err (SocksIo e)), s\<lparr>sk_src := src\<rparr>)
      | (Pending, src) \<Rightarrow> (None, s\<lparr>sk_src := src\<rparr>))"

lemma sk_fill_ok: "sk_fill s = (Some (Ok u), s') \<Longrightarrow> sk_buf s' \<noteq> []"
  by (auto simp: sk_fill_def split: if_splits prod.splits io.splits)

function sk_full :: "nat \<Rightarrow> socks \<Rightarrow> bytes sk" where
  "sk_full n s =
     (if n = 0 then (Some (Ok []), s)
      else await (sk_fill s) (\<lambda>_ s.
        let k = min n (length (sk_buf s)); bs = take k (sk_buf s)
        in await (sk_full (n - k) (s\<lparr>sk_buf := drop k (sk_buf s)\<rparr>)) (\<lambda>r s. (Some (Ok (bs @ r)), s))))"
  by pat_completeness auto
termination by (relation "measure fst") (auto dest: sk_fill_ok)

declare sk_full.simps [simp del]

definition sk_byte :: "socks \<Rightarrow> u8 sk" where
  "sk_byte s = await (sk_full 1 s) (\<lambda>bs s. (Some (Ok (hd bs)), s))"

definition sk_verify :: "string \<Rightarrow> u8 \<Rightarrow> socks \<Rightarrow> unit sk" where
  "sk_verify what expected s =
     await (sk_byte s) (\<lambda>v s. (Some (if v \<noteq> expected then Err (FieldWas what v expected) else Ok ()), s))"

definition sk_write :: "bytes \<Rightarrow> socks \<Rightarrow> unit sk" where
  "sk_write data s =
     (if sk_wfail s = Some 0 then (Some (Err WriteFailed), s)
      else (Some (Ok ()), s\<lparr>sk_out := sk_out s @ [data], sk_wfail := map_option (\<lambda>k. k - 1) (sk_wfail s)\<rparr>))"

definition check_no_trailing :: "socks \<Rightarrow> unit sk" where
  "check_no_trailing s = (Some (if sk_buf s = [] then Ok () else Err (TrailingData (length (sk_buf s)))), s)"

definition sk_send :: "bytes \<Rightarrow> socks \<Rightarrow> unit sk" where
  "sk_send data s = await (sk_write data s) (\<lambda>_ s. check_no_trailing s)"

definition sk_reply :: "reply_code \<Rightarrow> socks \<Rightarrow> unit sk" where
  "sk_reply code s = sk_send (reply_bytes code) s"

definition negotiate_auth :: "socks \<Rightarrow> u8 sk" where
  "negotiate_auth s =
     await (sk_verify ''version'' VERSION s) (\<lambda>_ s.
     await (sk_byte s) (\<lambda>n s.
     await (sk_full (unat n) s) (\<lambda>methods s.
       let m = (if AUTH_USERPASS \<in> set methods then AUTH_USERPASS
                else if AUTH_NONE \<in> set methods then AUTH_NONE else AUTH_NO_ACCEPTABLE)
       in await (sk_send [VERSION, m] s) (\<lambda>_ s. (Some (Ok m), s)))))"

definition read_rfc1929 :: "socks \<Rightarrow> args sk" where
  "read_rfc1929 s =
     await (sk_verify ''auth version'' RFC1929_VER s) (\<lambda>_ s.
     await (sk_byte s) (\<lambda>ulen s.
       if ulen < 1 then (Some (Err EmptyUser), s)
       else await (sk_full (unat ulen) s) (\<lambda>uname s.
       await (sk_byte s) (\<lambda>plen s.
         if plen < 1 then (Some (Err EmptyPassword), s)
         else await (sk_full (unat plen) s) (\<lambda>passwd s.
           (Some (socks_client_parameters
              (if plen = 1 \<and> hd passwd = 0 then uname else uname @ passwd)), s))))))"

text \<open>What a failed part answers with before its error is returned: a wait stays one, and the
  answer's own result does not matter.\<close>

definition answer_failure :: "bytes \<Rightarrow> ('a, socks_error, socks) await \<Rightarrow> 'a sk" where
  "answer_failure data r =
     (case r of (Some (Err e), s) \<Rightarrow> (Some (Err e), snd (sk_send data s)) | _ \<Rightarrow> r)"

definition auth_rfc1929 :: "socks \<Rightarrow> args sk" where
  "auth_rfc1929 s =
     (case read_rfc1929 s of
        (Some (Ok a), s) \<Rightarrow> await (sk_write [RFC1929_VER, RFC1929_SUCCESS] s) (\<lambda>_ s. (Some (Ok a), s))
      | r \<Rightarrow> answer_failure [RFC1929_VER, RFC1929_FAIL] r)"

section \<open>Addresses\<close>

definition dec_byte :: "u8 \<Rightarrow> bytes" where "dec_byte b = ascii (dec_nat (unat b))"

definition show_ipv4 :: "bytes \<Rightarrow> bytes" where
  "show_ipv4 b = dec_byte (b ! 0) @ [46] @ dec_byte (b ! 1) @ [46] @ dec_byte (b ! 2) @ [46] @ dec_byte (b ! 3)"

text \<open>\<open>Display\<close> of \<open>Ipv6Addr\<close>: the longest run of at least two zero groups is left out.\<close>

definition groups :: "bytes \<Rightarrow> u16 list" where
  "groups b = map (\<lambda>i. be_u16 (slice (2 * i) (2 * i + 2) b)) [0..<8]"

fun hex_nat :: "nat \<Rightarrow> bytes" where
  "hex_nat n =
     (let d = n mod 16; c = [word_of_nat (if d < 10 then 48 + d else 87 + d)] in if n < 16 then c else hex_nat (n div 16) @ c)"

declare hex_nat.simps [simp del]

fun longest_zeros :: "u16 list \<Rightarrow> nat \<Rightarrow> nat \<times> nat \<Rightarrow> nat \<times> nat \<Rightarrow> nat \<times> nat" where
  "longest_zeros [] i longest current = longest"
| "longest_zeros (g # gs) i longest (start, len) =
     (if g = 0 then
        (let current = (if len = 0 then i else start, len + 1)
         in longest_zeros gs (i + 1) (if snd longest < len + 1 then current else longest) current)
      else longest_zeros gs (i + 1) longest (0, 0))"

definition show_groups :: "u16 list \<Rightarrow> bytes" where
  "show_groups gs = join 58 (map (\<lambda>g. hex_nat (unat g)) gs)"

definition show_ipv6 :: "bytes \<Rightarrow> bytes" where
  "show_ipv6 b =
     (let gs = groups b; (start, len) = longest_zeros gs 0 (0, 0) (0, 0)
      in if 1 < len then show_groups (take start gs) @ [58, 58] @ show_groups (drop (start + len) gs)
         else show_groups gs)"

definition ipv4_mapped :: "bytes \<Rightarrow> bytes option" where
  "ipv4_mapped b = (if take 12 b = replicate 10 0 @ [255, 255] then Some (drop 12 b) else None)"

definition bracketed :: "bytes \<Rightarrow> bytes" where
  "bracketed b = [91] @ (case ipv4_mapped b of Some v4 \<Rightarrow> show_ipv4 v4 | None \<Rightarrow> show_ipv6 b) @ [93]"

section \<open>The request\<close>

text \<open>An error with the code it is answered with.\<close>

definition with_code :: "reply_code \<Rightarrow> 'a sk \<Rightarrow> ('a, reply_code \<times> socks_error, socks) await" where
  "with_code code r =
     (case r of (Some (Err e), s) \<Rightarrow> (Some (Err (code, e)), s) | (Some (Ok a), s) \<Rightarrow> (Some (Ok a), s)
      | (Some Panic, s) \<Rightarrow> (Some Panic, s) | (None, s) \<Rightarrow> (None, s))"

definition read_host :: "u8 \<Rightarrow> socks \<Rightarrow> (bytes, reply_code \<times> socks_error, socks) await" where
  "read_host atyp s =
     (if atyp = ATYP_IPV4 then
        await (with_code GeneralFailure (sk_full 4 s)) (\<lambda>b s. (Some (Ok (show_ipv4 b)), s))
      else if atyp = ATYP_DOMAIN then
        await (with_code GeneralFailure (sk_byte s)) (\<lambda>n s.
          if n = 0 then (Some (Err (GeneralFailure, EmptyDomain)), s)
          else await (with_code GeneralFailure (sk_full (unat n) s)) (\<lambda>b s.
            (Some (if utf8_valid b then Ok b else Err (GeneralFailure, DomainUtf8)), s)))
      else if atyp = ATYP_IPV6 then
        await (with_code GeneralFailure (sk_full 16 s)) (\<lambda>b s. (Some (Ok (bracketed b)), s))
      else (Some (Err (AddressNotSupported, BadAddressType atyp)), s))"

definition read_command_inner :: "socks \<Rightarrow> (bytes, reply_code \<times> socks_error, socks) await" where
  "read_command_inner s =
     await (with_code GeneralFailure (sk_verify ''version'' VERSION s)) (\<lambda>_ s.
     await (with_code CommandNotSupported (sk_verify ''command'' CMD_CONNECT s)) (\<lambda>_ s.
     await (with_code GeneralFailure (sk_verify ''reserved'' RSV s)) (\<lambda>_ s.
     await (with_code GeneralFailure (sk_byte s)) (\<lambda>atyp s.
     await (read_host atyp s) (\<lambda>host s.
     await (with_code GeneralFailure (sk_full 2 s)) (\<lambda>port s.
       (Some (Ok (host @ [58] @ ascii (dec_nat (unat (be_u16 port))))), s)))))))"

definition read_command :: "socks \<Rightarrow> bytes sk" where
  "read_command s =
     (case read_command_inner s of
        (Some (Ok t), s) \<Rightarrow> await (check_no_trailing s) (\<lambda>_ s. (Some (Ok t), s))
      | (Some (Err (code, e)), s) \<Rightarrow> (Some (Err e), snd (sk_reply code s))
      | (Some Panic, s) \<Rightarrow> (Some Panic, s)
      | (None, s) \<Rightarrow> (None, s))"

definition handshake_work :: "socks \<Rightarrow> (args \<times> bytes) sk" where
  "handshake_work s =
     await (negotiate_auth s) (\<lambda>m s.
     await (if m = AUTH_NONE then (Some (Ok args_new), s)
            else if m = AUTH_USERPASS then auth_rfc1929 s
            else if m = AUTH_NO_ACCEPTABLE then (Some (Err NoMethod), s)
            else (Some (Err (BadMethod m)), s)) (\<lambda>a s.
     await (check_no_trailing s) (\<lambda>_ s.
     await (read_command s) (\<lambda>t s. (Some (Ok (a, t)), s)))))"

text \<open>\<open>None\<close> after the deadline is the timeout.  The connection handed on is the stream alone:
  the buffer is dropped.\<close>

definition handshake :: "source \<Rightarrow> nat option \<Rightarrow> (args \<times> bytes \<times> source, socks_error) res \<times> bytes list" where
  "handshake src wfail =
     (case handshake_work (socks_new src wfail) of
        (None, s) \<Rightarrow> (Err SocksTimeout, sk_out s)
      | (Some (Err e), s) \<Rightarrow> (Err e, sk_out s)
      | (Some Panic, s) \<Rightarrow> (Panic, sk_out s)
      | (Some (Ok (a, t)), s) \<Rightarrow> (Ok (a, t, sk_src s), sk_out s))"

end
