(* ===== verification/Socks5Props.thy ===== *)
theory Socks5Props
  imports Socks5
begin

text \<open>
  What the SOCKS5 handshake gives: it accepts exactly what the protocol says, hands on the
  stream from the first byte after the request, and reads arguments as the other
  parser of client arguments does.
\<close>

section \<open>Reading\<close>

definition sk_flat :: "socks \<Rightarrow> bytes \<times> src_end" where
  "sk_flat s = (case src_flat (sk_src s) of (bs, e) \<Rightarrow> (sk_buf s @ bs, e))"

lemma sk_fill_flat: "sk_fill s = (Some (Ok u), s') \<Longrightarrow> sk_flat s' = sk_flat s \<and> sk_out s' = sk_out s"
proof (cases "sk_buf s = []")
  case True
  assume f: "sk_fill s = (Some (Ok u), s')"
  obtain bs e where flat: "src_flat (sk_src s) = (bs, e)" by force
  from src_read_flat [of 4096, OF _ flat] True f flat show ?thesis
    by (auto simp: sk_fill_def sk_flat_def split: prod.splits io.splits if_splits src_end.splits)
qed (auto simp: sk_fill_def)

lemma sk_full_flat:
  assumes "sk_full n s = (Some (Ok bs), s')" and "sk_flat s = (all, e)"
  shows "length bs = n \<and> (\<exists>r. all = bs @ r \<and> sk_flat s' = (r, e)) \<and> sk_out s' = sk_out s"
  using assms
proof (induction n s arbitrary: bs all rule: sk_full.induct)
  case (1 n s)
  show ?case
  proof (cases "n = 0")
    case False
    then obtain u s1 where f: "sk_fill s = (Some (Ok u), s1)" using "1.prems"(1) by (auto simp: sk_full.simps [of n] await_ok)
    let ?k = "min n (length (sk_buf s1))" and ?s2 = "s1\<lparr>sk_buf := drop (min n (length (sk_buf s1))) (sk_buf s1)\<rparr>"
    obtain r where r: "sk_full (n - ?k) ?s2 = (Some (Ok r), s')" "bs = take ?k (sk_buf s1) @ r"
      using False f "1.prems"(1) by (auto simp: sk_full.simps [of n] await_ok Let_def)
    obtain t where t: "src_flat (sk_src s1) = (t, e)" "all = sk_buf s1 @ t"
      using sk_fill_flat [OF f] "1.prems"(2) by (auto simp: sk_flat_def split: prod.splits)
    then have "sk_flat ?s2 = (drop ?k (sk_buf s1) @ t, e)" by (simp add: sk_flat_def)
    from "1.IH" [OF False f refl refl r(1) this] obtain r' where r': "length r = n - ?k" "drop ?k (sk_buf s1) @ t = r @ r'"
      "sk_flat s' = (r', e)" "sk_out s' = sk_out s1" by auto
    have "all = bs @ r'" using t(2) r(2) r'(2) by (metis append.assoc append_take_drop_id)
    with r r' sk_fill_flat [OF f] show ?thesis by simp
  qed (use "1.prems" in \<open>auto simp: sk_full.simps\<close>)
qed

lemma sk_byte_flat:
  assumes "sk_byte s = (Some (Ok b), s')" and "sk_flat s = (all, e)"
  obtains r where "all = b # r" "sk_flat s' = (r, e)" "sk_out s' = sk_out s"
proof -
  obtain bs where bs: "sk_full 1 s = (Some (Ok bs), s')" "b = hd bs" using assms(1) by (auto simp: sk_byte_def await_ok)
  from sk_full_flat [OF bs(1) assms(2)] bs(2) that show thesis by (cases bs) auto
qed

lemma sk_verify_flat:
  assumes "sk_verify what x s = (Some (Ok u), s')" and "sk_flat s = (all, e)"
  obtains r where "all = x # r" "sk_flat s' = (r, e)" "sk_out s' = sk_out s"
proof -
  have "sk_byte s = (Some (Ok x), s')" using assms(1) by (auto simp: sk_verify_def await_ok split: if_splits)
  from sk_byte_flat [OF this assms(2)] that show thesis by blast
qed

lemma sk_write_flat: "sk_write d s = (Some (Ok u), s') \<Longrightarrow> sk_flat s' = sk_flat s \<and> sk_out s' = sk_out s @ [d] \<and> sk_buf s' = sk_buf s"
  by (auto simp: sk_write_def sk_flat_def split: if_splits)

lemma no_trailing_ok: "check_no_trailing s = (Some (Ok u), s') \<longleftrightarrow> s' = s \<and> sk_buf s = []"
  by (auto simp: check_no_trailing_def)

lemma sk_send_flat: "sk_send d s = (Some (Ok u), s') \<Longrightarrow> sk_flat s' = sk_flat s \<and> sk_out s' = sk_out s @ [d] \<and> sk_buf s' = []"
  by (auto simp: sk_send_def await_ok no_trailing_ok dest!: sk_write_flat)

lemma with_code_ok: "with_code c r = (Some (Ok a), s) \<longleftrightarrow> r = (Some (Ok a), s)"
  by (auto simp: with_code_def split: prod.splits option.splits res.splits)

section \<open>The protocol\<close>

definition args_text :: "bytes \<Rightarrow> bytes \<Rightarrow> bytes" where
  "args_text user pass = (if length pass = 1 \<and> hd pass = 0 then user else user @ pass)"

text \<open>The bytes of an address, with how it is written in the target.\<close>

inductive host_bytes :: "bytes \<Rightarrow> bytes \<Rightarrow> bool" where
  ipv4: "length b = 4 \<Longrightarrow> host_bytes (1 # b) (show_ipv4 b)"
| domain: "unat n = length b \<Longrightarrow> b \<noteq> [] \<Longrightarrow> utf8_valid b \<Longrightarrow> host_bytes (3 # n # b) b"
| ipv6: "length b = 16 \<Longrightarrow> host_bytes (4 # b) (bracketed b)"

definition connect_request :: "bytes \<Rightarrow> bytes \<Rightarrow> bool" where
  "connect_request req target \<longleftrightarrow>
     (\<exists>h host port. req = [5, 1, 0] @ h @ port \<and> host_bytes h host \<and> length port = 2 \<and>
        target = host @ [58] @ ascii (dec_nat (unat (be_u16 port))))"

definition auth_message :: "bytes \<Rightarrow> bytes \<Rightarrow> bytes \<Rightarrow> bool" where
  "auth_message m user pass \<longleftrightarrow>
     (\<exists>u p. m = [1, u] @ user @ [p] @ pass \<and> unat u = length user \<and> unat p = length pass \<and> user \<noteq> [] \<and> pass \<noteq> [])"

text \<open>The client's three messages with what they ask for and the replies before the request's.\<close>

definition socks_dialogue :: "bytes \<Rightarrow> bytes \<Rightarrow> bytes \<Rightarrow> args \<Rightarrow> bytes \<Rightarrow> bytes list \<Rightarrow> bool" where
  "socks_dialogue greeting auth req a target replies \<longleftrightarrow>
     (\<exists>n methods. greeting = [5, n] @ methods \<and> unat n = length methods \<and>
        (if AUTH_USERPASS \<in> set methods
         then replies = [[5, 2], [1, 0]] \<and>
           (\<exists>user pass. auth_message auth user pass \<and> socks_client_parameters (args_text user pass) = Ok a)
         else AUTH_NONE \<in> set methods \<and> replies = [[5, 0]] \<and> auth = [] \<and> a = args_new)) \<and>
     connect_request req target"

lemma negotiate_flat:
  assumes "negotiate_auth s = (Some (Ok m), s')" and "sk_flat s = (all, e)"
  obtains n methods r where "all = [5, n] @ methods @ r" "unat n = length methods" "sk_flat s' = (r, e)" "sk_buf s' = []"
    "sk_out s' = sk_out s @ [[5, m]]"
    "m = (if AUTH_USERPASS \<in> set methods then AUTH_USERPASS else if AUTH_NONE \<in> set methods then AUTH_NONE else AUTH_NO_ACCEPTABLE)"
proof -
  from assms(1) obtain s1 s2 s3 n methods where
    s: "sk_verify ''version'' VERSION s = (Some (Ok ()), s1)" "sk_byte s1 = (Some (Ok n), s2)"
      "sk_full (unat n) s2 = (Some (Ok methods), s3)" "sk_send [VERSION, m] s3 = (Some (Ok ()), s')"
    and m: "m = (if AUTH_USERPASS \<in> set methods then AUTH_USERPASS else if AUTH_NONE \<in> set methods then AUTH_NONE else AUTH_NO_ACCEPTABLE)"
    by (auto simp: negotiate_auth_def await_ok Let_def)
  obtain r1 where r1: "all = VERSION # r1" "sk_flat s1 = (r1, e)" "sk_out s1 = sk_out s" by (rule sk_verify_flat [OF s(1) assms(2)])
  obtain r2 where r2: "r1 = n # r2" "sk_flat s2 = (r2, e)" "sk_out s2 = sk_out s1" by (rule sk_byte_flat [OF s(2) r1(2)])
  from sk_full_flat [OF s(3) r2(2)] obtain r3 where r3: "length methods = unat n" "r2 = methods @ r3" "sk_flat s3 = (r3, e)"
    "sk_out s3 = sk_out s2" by blast
  show thesis
    by (rule that [of n methods r3]) (use r1 r2 r3 sk_send_flat [OF s(4)] m in \<open>simp_all add: VERSION_def\<close>)
qed

lemma auth_flat:
  assumes "auth_rfc1929 s = (Some (Ok a), s')" and "sk_flat s = (all, e)"
  obtains m user pass r where "all = m @ r" "auth_message m user pass" "socks_client_parameters (args_text user pass) = Ok a"
    "sk_flat s' = (r, e)" "sk_out s' = sk_out s @ [[1, 0]]"
proof -
  from assms(1) obtain s0 where read: "read_rfc1929 s = (Some (Ok a), s0)" and w: "sk_write [RFC1929_VER, RFC1929_SUCCESS] s0 = (Some (Ok ()), s')"
    by (auto simp: auth_rfc1929_def answer_failure_def await_ok split: prod.splits option.splits res.splits)
  from read obtain s1 s2 s3 s4 u p user pass where
    s: "sk_verify ''auth version'' RFC1929_VER s = (Some (Ok ()), s1)" "sk_byte s1 = (Some (Ok u), s2)" "\<not> u < 1"
      "sk_full (unat u) s2 = (Some (Ok user), s3)" "sk_byte s3 = (Some (Ok p), s4)" "\<not> p < 1"
      "sk_full (unat p) s4 = (Some (Ok pass), s0)"
    and a: "socks_client_parameters (if p = 1 \<and> hd pass = 0 then user else user @ pass) = Ok a"
    unfolding read_rfc1929_def by (auto simp: await_ok split: if_splits)
  obtain r1 where r1: "all = RFC1929_VER # r1" "sk_flat s1 = (r1, e)" "sk_out s1 = sk_out s" by (rule sk_verify_flat [OF s(1) assms(2)])
  obtain r2 where r2: "r1 = u # r2" "sk_flat s2 = (r2, e)" "sk_out s2 = sk_out s1" by (rule sk_byte_flat [OF s(2) r1(2)])
  from sk_full_flat [OF s(4) r2(2)] obtain r3 where r3: "length user = unat u" "r2 = user @ r3" "sk_flat s3 = (r3, e)"
    "sk_out s3 = sk_out s2" by blast
  obtain r4 where r4: "r3 = p # r4" "sk_flat s4 = (r4, e)" "sk_out s4 = sk_out s3" by (rule sk_byte_flat [OF s(5) r3(3)])
  from sk_full_flat [OF s(7) r4(2)] obtain r5 where r5: "length pass = unat p" "r4 = pass @ r5" "sk_flat s0 = (r5, e)"
    "sk_out s0 = sk_out s4" by blast
  have "unat u \<noteq> 0" "unat p \<noteq> 0" using s(3,6) by (auto simp: word_less_nat_alt)
  then have "auth_message ([1, u] @ user @ [p] @ pass) user pass" using r3(1) r5(1) by (auto simp: auth_message_def)
  moreover have "p = 1 \<longleftrightarrow> length pass = 1" using r5(1) by (simp add: word_unat_eq_iff)
  ultimately show thesis
    using a r1 r2 r3 r4 r5 sk_write_flat [OF w]
    by (intro that [of "[1, u] @ user @ [p] @ pass" r5 user pass])
      (simp_all add: args_text_def RFC1929_VER_def RFC1929_SUCCESS_def)
qed

lemma host_flat:
  assumes "read_host t s = (Some (Ok host), s')" and "sk_flat s = (all, e)"
  obtains h r where "t # all = h @ r" "host_bytes h host" "sk_flat s' = (r, e)" "sk_out s' = sk_out s"
proof -
  consider (v4) b where "t = ATYP_IPV4" "sk_full 4 s = (Some (Ok b), s')" "host = show_ipv4 b"
    | (name) n s1 where "t = ATYP_DOMAIN" "sk_byte s = (Some (Ok n), s1)" "n \<noteq> 0" "sk_full (unat n) s1 = (Some (Ok host), s')"
        "utf8_valid host"
    | (v6) b where "t = ATYP_IPV6" "sk_full 16 s = (Some (Ok b), s')" "host = bracketed b"
    using assms(1) by (auto simp: read_host_def await_ok with_code_ok split: if_splits)
  then show thesis
  proof cases
    case v4
    from sk_full_flat [OF v4(2) assms(2)] v4 show thesis
      by (auto simp: ATYP_IPV4_def intro!: that [of "1 # b"] host_bytes.ipv4)
  next
    case name
    obtain r1 where r1: "all = n # r1" "sk_flat s1 = (r1, e)" "sk_out s1 = sk_out s" by (rule sk_byte_flat [OF name(2) assms(2)])
    from sk_full_flat [OF name(4) r1(2)] obtain r2 where r2: "length host = unat n" "r1 = host @ r2" "sk_flat s' = (r2, e)"
      "sk_out s' = sk_out s1" by blast
    have "unat n \<noteq> 0" using name(3) by (simp add: word_unat_eq_iff)
    then have "host_bytes (3 # n # host) host" using r2(1) name(5) by (intro host_bytes.domain) auto
    with name(1) r1 r2 show thesis by (intro that [of "3 # n # host" r2]) (simp_all add: ATYP_DOMAIN_def)
  next
    case v6
    from sk_full_flat [OF v6(2) assms(2)] v6 show thesis
      by (auto simp: ATYP_IPV6_def intro!: that [of "4 # b"] host_bytes.ipv6)
  qed
qed

lemma command_flat:
  assumes "read_command s = (Some (Ok t), s')" and "sk_flat s = (all, e)"
  obtains req r where "all = req @ r" "connect_request req t" "sk_flat s' = (r, e)" "sk_buf s' = []" "sk_out s' = sk_out s"
proof -
  from assms(1) have inner: "read_command_inner s = (Some (Ok t), s')" "sk_buf s' = []"
    by (auto simp: read_command_def await_ok no_trailing_ok split: prod.splits option.splits res.splits)
  from inner(1) obtain s1 s2 s3 s4 s5 atyp host port where
    s: "sk_verify ''version'' VERSION s = (Some (Ok ()), s1)" "sk_verify ''command'' CMD_CONNECT s1 = (Some (Ok ()), s2)"
      "sk_verify ''reserved'' RSV s2 = (Some (Ok ()), s3)" "sk_byte s3 = (Some (Ok atyp), s4)"
      "read_host atyp s4 = (Some (Ok host), s5)" "sk_full 2 s5 = (Some (Ok port), s')"
    and t: "t = host @ [58] @ ascii (dec_nat (unat (be_u16 port)))"
    unfolding read_command_inner_def by (auto simp: await_ok with_code_ok)
  obtain r1 where r1: "all = VERSION # r1" "sk_flat s1 = (r1, e)" "sk_out s1 = sk_out s" by (rule sk_verify_flat [OF s(1) assms(2)])
  obtain r2 where r2: "r1 = CMD_CONNECT # r2" "sk_flat s2 = (r2, e)" "sk_out s2 = sk_out s1" by (rule sk_verify_flat [OF s(2) r1(2)])
  obtain r3 where r3: "r2 = RSV # r3" "sk_flat s3 = (r3, e)" "sk_out s3 = sk_out s2" by (rule sk_verify_flat [OF s(3) r2(2)])
  obtain r4 where r4: "r3 = atyp # r4" "sk_flat s4 = (r4, e)" "sk_out s4 = sk_out s3" by (rule sk_byte_flat [OF s(4) r3(2)])
  obtain h r5 where r5: "atyp # r4 = h @ r5" "host_bytes h host" "sk_flat s5 = (r5, e)" "sk_out s5 = sk_out s4"
    by (rule host_flat [OF s(5) r4(2)])
  from sk_full_flat [OF s(6) r5(3)] obtain r6 where r6: "length port = 2" "r5 = port @ r6" "sk_flat s' = (r6, e)"
    "sk_out s' = sk_out s5" by blast
  have "connect_request ([5, 1, 0] @ h @ port) t" using r5(2) r6(1) t by (auto simp: connect_request_def)
  with r1 r2 r3 r4 r5 r6 inner(2) show thesis
    by (intro that [of "[5, 1, 0] @ h @ port" r6]) (simp_all add: VERSION_def CMD_CONNECT_def RSV_def)
qed

lemma handshake_sound_flat:
  assumes "handshake src wfail = (Ok (a, target, src'), out)" and "src_flat src = (all, e)"
  shows "\<exists>greeting auth req rest. all = greeting @ auth @ req @ rest \<and> socks_dialogue greeting auth req a target out \<and>
    src_flat src' = (rest, e)"
proof -
  from assms(1) obtain s where "handshake_work (socks_new src wfail) = (Some (Ok (a, target)), s)" and s: "src' = sk_src s" "out = sk_out s"
    by (auto simp: handshake_def split: prod.splits option.splits res.splits)
  then obtain m s1 s2 where
    neg: "negotiate_auth (socks_new src wfail) = (Some (Ok m), s1)"
    and auth: "(if m = AUTH_NONE then (Some (Ok args_new), s1) else if m = AUTH_USERPASS then auth_rfc1929 s1
      else if m = AUTH_NO_ACCEPTABLE then (Some (Err NoMethod), s1) else (Some (Err (BadMethod m)), s1)) = (Some (Ok a), s2)"
    and cmd: "read_command s2 = (Some (Ok target), s)"
    by (auto simp: handshake_work_def await_ok no_trailing_ok)
  have "sk_flat (socks_new src wfail) = (all, e)" using assms(2) by (simp add: sk_flat_def socks_new_def)
  then obtain n methods r1 where r1: "all = [5, n] @ methods @ r1" "unat n = length methods" "sk_flat s1 = (r1, e)"
    "sk_out s1 = sk_out (socks_new src wfail) @ [[5, m]]"
    "m = (if AUTH_USERPASS \<in> set methods then AUTH_USERPASS else if AUTH_NONE \<in> set methods then AUTH_NONE else AUTH_NO_ACCEPTABLE)"
    by (rule negotiate_flat [OF neg])
  have out1: "sk_out s1 = [[5, m]]" using r1(4) by (simp add: socks_new_def)
  show ?thesis
  proof (cases "AUTH_USERPASS \<in> set methods")
    case True
    then have "m = 2" using r1(5) by (simp add: AUTH_USERPASS_def)
    with auth have "auth_rfc1929 s1 = (Some (Ok a), s2)" by (simp add: AUTH_NONE_def AUTH_USERPASS_def)
    then obtain am user pass r2 where r2: "r1 = am @ r2" "auth_message am user pass"
      "socks_client_parameters (args_text user pass) = Ok a" "sk_flat s2 = (r2, e)" "sk_out s2 = sk_out s1 @ [[1, 0]]"
      by (rule auth_flat [OF _ r1(3)])
    obtain req r3 where r3: "r2 = req @ r3" "connect_request req target" "sk_flat s = (r3, e)" "sk_buf s = []" "sk_out s = sk_out s2"
      by (rule command_flat [OF cmd r2(4)])
    have "socks_dialogue ([5, n] @ methods) am req a target out"
      unfolding socks_dialogue_def using True r1(2) r2 r3 s(2) out1 \<open>m = 2\<close> by auto
    moreover have "src_flat src' = (r3, e)" using r3(3,4) s(1) by (auto simp: sk_flat_def split: prod.splits)
    moreover have "all = ([5, n] @ methods) @ am @ req @ r3" using r1(1) r2(1) r3(1) by simp
    ultimately show ?thesis by blast
  next
    case False
    then have "m = AUTH_NONE \<and> AUTH_NONE \<in> set methods"
      using r1(5) auth by (auto simp: AUTH_NONE_def AUTH_NO_ACCEPTABLE_def AUTH_USERPASS_def split: if_splits)
    with auth have m: "a = args_new" "s2 = s1" "m = 0" "AUTH_NONE \<in> set methods" by (simp_all add: AUTH_NONE_def)
    obtain req r3 where r3: "r1 = req @ r3" "connect_request req target" "sk_flat s = (r3, e)" "sk_buf s = []" "sk_out s = sk_out s2"
      by (rule command_flat [OF cmd]) (use m r1(3) in simp)
    have "socks_dialogue ([5, n] @ methods) [] req a target out"
      unfolding socks_dialogue_def using False r1(2) r3 s(2) out1 m by auto
    moreover have "src_flat src' = (r3, e)" using r3(3,4) s(1) by (auto simp: sk_flat_def split: prod.splits)
    moreover have "all = ([5, n] @ methods) @ [] @ req @ r3" using r1(1) r3(1) by simp
    ultimately show ?thesis by blast
  qed
qed

text \<open>
  C24: the SOCKS5 handshake accepts only what the protocol says.  When it succeeds, the
  client has sent a greeting, the arguments if it offered to authenticate and a CONNECT
  request, each was answered as it should be, the arguments and the target are those it
  sent, and the stream handed on starts with the first byte after the request.
\<close>

theorem handshake_sound:
  assumes "handshake src wfail = (Ok (a, target, src'), out)" and "src_flat src = (all, e)"
  shows "\<exists>greeting auth req rest. all = greeting @ auth @ req @ rest \<and> socks_dialogue greeting auth req a target out \<and>
    src_flat src' = (rest, e)"
  using assms by (rule handshake_sound_flat)

theorem handshake_sound_witness:
  "\<exists>greeting auth req rest. [5, 1, 0, 5, 1, 0, 1, 1, 2, 3, 4, 0, 80, 9] = greeting @ auth @ req @ rest \<and>
    socks_dialogue greeting auth req args_new (ascii ''1.2.3.4:80'') [[5, 0]] \<and> rest = [9]"
proof -
  have run: "handshake [SrcData [5, 1], SrcData [0], SrcData [5, 1, 0, 1, 1, 2, 3, 4, 0, 80], SrcData [9]] None =
    (Ok (args_new, ascii ''1.2.3.4:80'', [SrcData [9]]), [[5, 0]])"
    by code_simp
  from handshake_sound [OF run] show ?thesis by auto
qed

section \<open>A client that keeps to the protocol\<close>

text \<open>What is left of the current message, cut into pieces, and what comes after the answer.\<close>

definition pieces :: "bytes \<Rightarrow> source \<Rightarrow> bool" where
  "pieces m ps \<longleftrightarrow> (\<exists>bs. ps = map SrcData bs \<and> concat bs = m \<and> list_all (\<lambda>b. b \<noteq> [] \<and> length b \<le> 4096) bs)"

definition sk_msg :: "bytes \<Rightarrow> source \<Rightarrow> socks \<Rightarrow> bool" where
  "sk_msg m evs s \<longleftrightarrow> (\<exists>ps t. sk_src s = ps @ evs \<and> pieces t ps \<and> m = sk_buf s @ t)"

lemma pieces_empty: "pieces [] ps \<longleftrightarrow> ps = []"
  by (auto simp: pieces_def list_all_iff)

lemma sk_msg_done: "sk_msg [] evs s \<longleftrightarrow> sk_buf s = [] \<and> sk_src s = evs"
  by (auto simp: sk_msg_def pieces_empty)

lemma sk_msg_start: "sk_buf s = [] \<Longrightarrow> sk_src s = ps @ evs \<Longrightarrow> pieces m ps \<Longrightarrow> sk_msg m evs s"
  by (auto simp: sk_msg_def)

lemma sk_fill_msg:
  assumes "sk_msg m evs s" and "m \<noteq> []"
  obtains s' where "sk_fill s = (Some (Ok ()), s')" "sk_msg m evs s'" "sk_buf s' \<noteq> []" "sk_out s' = sk_out s" "sk_wfail s' = sk_wfail s"
proof (cases "sk_buf s = []")
  case True
  obtain bs where bs: "sk_src s = map SrcData bs @ evs" "concat bs = m" "list_all (\<lambda>b. b \<noteq> [] \<and> length b \<le> 4096) bs"
    using assms(1) True by (auto simp: sk_msg_def pieces_def)
  then obtain b bs' where b: "bs = b # bs'" using assms(2) by (cases bs) auto
  have "sk_msg m evs (s\<lparr>sk_src := map SrcData bs' @ evs, sk_buf := b\<rparr>)"
    using bs b by (auto simp: sk_msg_def pieces_def intro!: exI [of _ "map SrcData bs'"] exI [of _ "concat bs'"])
  with bs b True show thesis
    by (intro that [of "s\<lparr>sk_src := map SrcData bs' @ evs, sk_buf := b\<rparr>"]) (auto simp: sk_fill_def)
qed (use assms(1) in \<open>auto simp: sk_fill_def intro: that\<close>)

lemma sk_full_msg:
  assumes "sk_msg m evs s" and "n \<le> length m"
  shows "\<exists>s'. sk_full n s = (Some (Ok (take n m)), s') \<and> sk_msg (drop n m) evs s' \<and> sk_out s' = sk_out s \<and> sk_wfail s' = sk_wfail s"
  using assms
proof (induction n s arbitrary: m rule: sk_full.induct)
  case (1 n s)
  show ?case
  proof (cases "n = 0")
    case False
    then have "m \<noteq> []" using "1.prems"(2) by auto
    then obtain s1 where f: "sk_fill s = (Some (Ok ()), s1)" "sk_msg m evs s1" "sk_buf s1 \<noteq> []" "sk_out s1 = sk_out s" "sk_wfail s1 = sk_wfail s"
      by (rule sk_fill_msg [OF "1.prems"(1)])
    define k where "k = min n (length (sk_buf s1))"
    obtain ps t where t: "sk_src s1 = ps @ evs" "pieces t ps" "m = sk_buf s1 @ t" using f(2) by (auto simp: sk_msg_def)
    let ?s2 = "s1\<lparr>sk_buf := drop k (sk_buf s1)\<rparr>"
    have k: "k \<le> n" "k \<le> length (sk_buf s1)" by (simp_all add: k_def)
    then have "sk_msg (drop k m) evs ?s2" using t by (auto simp: sk_msg_def)
    moreover have "n - k \<le> length (drop k m)" using "1.prems"(2) by (simp add: diff_le_mono)
    ultimately obtain s' where s': "sk_full (n - k) ?s2 = (Some (Ok (take (n - k) (drop k m))), s')"
        "sk_msg (drop (n - k) (drop k m)) evs s'" "sk_out s' = sk_out ?s2" "sk_wfail s' = sk_wfail ?s2"
      using "1.IH" [OF False f(1) k_def refl] by blast
    have "take k (sk_buf s1) = take k m" using k(2) t(3) by simp
    moreover have "take k m @ take (n - k) (drop k m) = take n m" using k(1) by (metis le_add_diff_inverse take_add)
    ultimately have "sk_full n s = (Some (Ok (take n m)), s')"
      using False f(1) s'(1) by (simp only: sk_full.simps [of n] if_False await.simps Let_def k_def [symmetric])
    with s' k(1) f show ?thesis by simp
  qed (use "1.prems" in \<open>simp add: sk_full.simps\<close>)
qed

lemma sk_byte_msg:
  assumes "sk_msg (b # m) evs s"
  shows "\<exists>s'. sk_byte s = (Some (Ok b), s') \<and> sk_msg m evs s' \<and> sk_out s' = sk_out s \<and> sk_wfail s' = sk_wfail s"
  using sk_full_msg [OF assms, of 1] by (auto simp: sk_byte_def)

lemma sk_verify_msg:
  assumes "sk_msg (b # m) evs s"
  shows "\<exists>s'. sk_verify what b s = (Some (Ok ()), s') \<and> sk_msg m evs s' \<and> sk_out s' = sk_out s \<and> sk_wfail s' = sk_wfail s"
  using sk_byte_msg [OF assms] by (auto simp: sk_verify_def)

lemma sk_part_msg:
  assumes "sk_msg (p @ m) evs s" and "k = length p"
  shows "\<exists>s'. sk_full k s = (Some (Ok p), s') \<and> sk_msg m evs s' \<and> sk_out s' = sk_out s \<and> sk_wfail s' = sk_wfail s"
  using sk_full_msg [OF assms(1), of k] assms(2) by simp

lemma sk_send_msg:
  assumes "sk_msg [] evs s" and "sk_wfail s = None"
  shows "sk_send d s = (Some (Ok ()), s\<lparr>sk_out := sk_out s @ [d]\<rparr>)"
  using assms by (cases s) (simp add: sk_send_def sk_write_def check_no_trailing_def sk_msg_done)

lemma sk_msg_out [simp]: "sk_msg m evs (s\<lparr>sk_out := o'\<rparr>) = sk_msg m evs s"
  by (simp add: sk_msg_def)

lemma negotiate_msg:
  assumes "sk_msg ([5, n] @ methods) evs s" and "unat n = length methods" and "sk_wfail s = None"
    and "m = (if AUTH_USERPASS \<in> set methods then AUTH_USERPASS else if AUTH_NONE \<in> set methods then AUTH_NONE else AUTH_NO_ACCEPTABLE)"
  shows "\<exists>s'. negotiate_auth s = (Some (Ok m), s') \<and> sk_msg [] evs s' \<and> sk_out s' = sk_out s @ [[5, m]] \<and> sk_wfail s' = None"
proof -
  have "sk_msg (VERSION # n # methods) evs s" using assms(1) by (simp add: VERSION_def)
  from sk_verify_msg [OF this] obtain s1 where s1: "sk_verify ''version'' VERSION s = (Some (Ok ()), s1)" "sk_msg (n # methods) evs s1"
    "sk_out s1 = sk_out s" "sk_wfail s1 = sk_wfail s" by blast
  from sk_byte_msg [OF s1(2)] obtain s2 where s2: "sk_byte s1 = (Some (Ok n), s2)" "sk_msg (methods @ []) evs s2"
    "sk_out s2 = sk_out s1" "sk_wfail s2 = sk_wfail s1" by auto
  from sk_part_msg [OF s2(2) assms(2)] obtain s3 where s3: "sk_full (unat n) s2 = (Some (Ok methods), s3)" "sk_msg [] evs s3"
    "sk_out s3 = sk_out s2" "sk_wfail s3 = sk_wfail s2" by blast
  have "sk_wfail s3 = None" using s1 s2 s3 assms(3) by simp
  with s1 s2 s3 assms(4) sk_send_msg [OF s3(2)] show ?thesis
    by (intro exI [of _ "s3\<lparr>sk_out := sk_out s3 @ [[VERSION, m]]\<rparr>"]) (simp add: negotiate_auth_def Let_def VERSION_def)
qed

lemma auth_msg:
  assumes "sk_msg am evs s" and "auth_message am user pass" and "socks_client_parameters (args_text user pass) = Ok a"
    and "sk_wfail s = None"
  shows "\<exists>s'. auth_rfc1929 s = (Some (Ok a), s') \<and> sk_msg [] evs s' \<and> sk_out s' = sk_out s @ [[1, 0]] \<and> sk_wfail s' = None"
proof -
  obtain u p where up: "am = [1, u] @ user @ [p] @ pass" "unat u = length user" "unat p = length pass" "user \<noteq> []" "pass \<noteq> []"
    using assms(2) by (auto simp: auth_message_def)
  then have pos: "\<not> u < 1" "\<not> p < 1" by (auto simp: word_less_nat_alt)
  have "sk_msg (RFC1929_VER # u # user @ p # pass) evs s" using assms(1) up(1) by (simp add: RFC1929_VER_def)
  from sk_verify_msg [OF this] obtain s1 where s1: "sk_verify ''auth version'' RFC1929_VER s = (Some (Ok ()), s1)"
    "sk_msg (u # user @ p # pass) evs s1" "sk_out s1 = sk_out s" "sk_wfail s1 = sk_wfail s" by blast
  from sk_byte_msg [OF s1(2)] obtain s2 where s2: "sk_byte s1 = (Some (Ok u), s2)" "sk_msg (user @ p # pass) evs s2"
    "sk_out s2 = sk_out s1" "sk_wfail s2 = sk_wfail s1" by blast
  from sk_part_msg [OF s2(2) up(2)] obtain s3 where s3: "sk_full (unat u) s2 = (Some (Ok user), s3)" "sk_msg (p # pass) evs s3"
    "sk_out s3 = sk_out s2" "sk_wfail s3 = sk_wfail s2" by blast
  from sk_byte_msg [OF s3(2)] obtain s4 where s4: "sk_byte s3 = (Some (Ok p), s4)" "sk_msg (pass @ []) evs s4"
    "sk_out s4 = sk_out s3" "sk_wfail s4 = sk_wfail s3" by auto
  from sk_part_msg [OF s4(2) up(3)] obtain s5 where s5: "sk_full (unat p) s4 = (Some (Ok pass), s5)" "sk_msg [] evs s5"
    "sk_out s5 = sk_out s4" "sk_wfail s5 = sk_wfail s4" by blast
  have "p = 1 \<longleftrightarrow> length pass = 1" using up(3) by (simp add: word_unat_eq_iff)
  then have "read_rfc1929 s = (Some (Ok a), s5)"
    using s1 s2 s3 s4 s5 pos assms(3) by (simp add: read_rfc1929_def args_text_def)
  moreover have "sk_wfail s5 = None" using s1 s2 s3 s4 s5 assms(4) by simp
  ultimately show ?thesis using s1 s2 s3 s4 s5
    by (intro exI [of _ "s5\<lparr>sk_out := sk_out s5 @ [[1, 0]]\<rparr>"])
      (simp add: auth_rfc1929_def sk_write_def RFC1929_VER_def RFC1929_SUCCESS_def)
qed

lemma host_msg:
  assumes "host_bytes h host" and "sk_msg (h @ m) evs s"
  shows "\<exists>t s1 s2. sk_byte s = (Some (Ok t), s1) \<and> read_host t s1 = (Some (Ok host), s2) \<and> sk_msg m evs s2 \<and>
    sk_out s2 = sk_out s \<and> sk_wfail s2 = sk_wfail s"
  using assms
proof cases
  case (ipv4 b)
  from assms(2) ipv4 have "sk_msg (1 # b @ m) evs s" by simp
  from sk_byte_msg [OF this] obtain s1 where s1: "sk_byte s = (Some (Ok 1), s1)" "sk_msg (b @ m) evs s1" "sk_out s1 = sk_out s"
    "sk_wfail s1 = sk_wfail s" by blast
  from sk_part_msg [OF s1(2) ipv4(3) [symmetric]] s1 ipv4(2) show ?thesis
    by (auto simp: read_host_def ATYP_IPV4_def with_code_def)
next
  case (domain n)
  from assms(2) domain have "sk_msg (3 # n # host @ m) evs s" by simp
  from sk_byte_msg [OF this] obtain s1 where s1: "sk_byte s = (Some (Ok 3), s1)" "sk_msg (n # host @ m) evs s1"
    "sk_out s1 = sk_out s" "sk_wfail s1 = sk_wfail s" by blast
  from sk_byte_msg [OF s1(2)] obtain s2 where s2: "sk_byte s1 = (Some (Ok n), s2)" "sk_msg (host @ m) evs s2"
    "sk_out s2 = sk_out s1" "sk_wfail s2 = sk_wfail s1" by blast
  have "n \<noteq> 0" using domain(2,3) by (auto simp: word_unat_eq_iff)
  with sk_part_msg [OF s2(2) domain(2)] s1 s2 domain(4) show ?thesis
    by (auto simp: read_host_def ATYP_IPV4_def ATYP_DOMAIN_def with_code_def)
next
  case (ipv6 b)
  from assms(2) ipv6 have "sk_msg (4 # b @ m) evs s" by simp
  from sk_byte_msg [OF this] obtain s1 where s1: "sk_byte s = (Some (Ok 4), s1)" "sk_msg (b @ m) evs s1" "sk_out s1 = sk_out s"
    "sk_wfail s1 = sk_wfail s" by blast
  from sk_part_msg [OF s1(2) ipv6(3) [symmetric]] s1 ipv6(2) show ?thesis
    by (auto simp: read_host_def ATYP_IPV4_def ATYP_DOMAIN_def ATYP_IPV6_def with_code_def)
qed

lemma command_msg:
  assumes "sk_msg req evs s" and "connect_request req t"
  shows "\<exists>s'. read_command s = (Some (Ok t), s') \<and> sk_msg [] evs s' \<and> sk_out s' = sk_out s"
proof -
  obtain h host port where r: "req = [5, 1, 0] @ h @ port" "host_bytes h host" "length port = 2"
    "t = host @ [58] @ ascii (dec_nat (unat (be_u16 port)))"
    using assms(2) by (auto simp: connect_request_def)
  have "sk_msg (VERSION # CMD_CONNECT # RSV # h @ port) evs s" using assms(1) r(1) by (simp add: VERSION_def CMD_CONNECT_def RSV_def)
  from sk_verify_msg [OF this] obtain s1 where s1: "sk_verify ''version'' VERSION s = (Some (Ok ()), s1)"
    "sk_msg (CMD_CONNECT # RSV # h @ port) evs s1" "sk_out s1 = sk_out s" by blast
  from sk_verify_msg [OF s1(2)] obtain s2 where s2: "sk_verify ''command'' CMD_CONNECT s1 = (Some (Ok ()), s2)"
    "sk_msg (RSV # h @ port) evs s2" "sk_out s2 = sk_out s1" by blast
  from sk_verify_msg [OF s2(2)] obtain s3 where s3: "sk_verify ''reserved'' RSV s2 = (Some (Ok ()), s3)"
    "sk_msg (h @ port) evs s3" "sk_out s3 = sk_out s2" by blast
  from host_msg [OF r(2) s3(2)] obtain x s4 s5 where s5: "sk_byte s3 = (Some (Ok x), s4)" "read_host x s4 = (Some (Ok host), s5)"
    "sk_msg (port @ []) evs s5" "sk_out s5 = sk_out s3" by auto
  from sk_part_msg [OF s5(3) r(3) [symmetric]] obtain s6 where s6: "sk_full 2 s5 = (Some (Ok port), s6)" "sk_msg [] evs s6"
    "sk_out s6 = sk_out s5" by blast
  have "read_command_inner s = (Some (Ok t), s6)"
    using s1(1) s2(1) s3(1) s5(1,2) s6(1) r(4) by (simp add: read_command_inner_def with_code_def)
  with s1 s2 s3 s5 s6 show ?thesis by (simp add: read_command_def check_no_trailing_def sk_msg_done)
qed

lemma handshake_runs:
  assumes "socks_dialogue greeting auth req a target replies"
    and "pieces greeting ps1" and "pieces auth ps2" and "pieces req ps3"
  shows "handshake (ps1 @ ps2 @ ps3 @ evs) None = (Ok (a, target, evs), replies)"
proof -
  from assms(1) obtain n methods where g: "greeting = [5, n] @ methods" "unat n = length methods" "connect_request req target"
    and d: "if AUTH_USERPASS \<in> set methods
         then replies = [[5, 2], [1, 0]] \<and> (\<exists>user pass. auth_message auth user pass \<and> socks_client_parameters (args_text user pass) = Ok a)
         else AUTH_NONE \<in> set methods \<and> replies = [[5, 0]] \<and> auth = [] \<and> a = args_new"
    unfolding socks_dialogue_def by blast
  let ?s = "socks_new (ps1 @ ps2 @ ps3 @ evs) None"
  define m where "m = (if AUTH_USERPASS \<in> set methods then AUTH_USERPASS else if AUTH_NONE \<in> set methods then AUTH_NONE else AUTH_NO_ACCEPTABLE)"
  have "sk_msg ([5, n] @ methods) (ps2 @ ps3 @ evs) ?s" using assms(2) g(1) by (intro sk_msg_start [of _ ps1]) (simp_all add: socks_new_def)
  from negotiate_msg [OF this g(2) _ m_def] obtain s1 where s1: "negotiate_auth ?s = (Some (Ok m), s1)" "sk_msg [] (ps2 @ ps3 @ evs) s1"
    "sk_out s1 = [[5, m]]" "sk_wfail s1 = None" by (auto simp: socks_new_def)
  obtain s2 where s2: "(if m = AUTH_NONE then (Some (Ok args_new), s1) else if m = AUTH_USERPASS then auth_rfc1929 s1
      else if m = AUTH_NO_ACCEPTABLE then (Some (Err NoMethod), s1) else (Some (Err (BadMethod m)), s1)) = (Some (Ok a), s2)"
    "sk_msg [] (ps3 @ evs) s2" "sk_out s2 = replies"
  proof (cases "AUTH_USERPASS \<in> set methods")
    case True
    then have m: "m = AUTH_USERPASS" by (simp add: m_def)
    obtain user pass where up: "auth_message auth user pass" "socks_client_parameters (args_text user pass) = Ok a"
      "replies = [[5, 2], [1, 0]]" using d True by auto
    have "sk_msg auth (ps3 @ evs) s1" using s1(2) assms(3) by (auto simp: sk_msg_done intro: sk_msg_start)
    from auth_msg [OF this up(1,2) s1(4)] that s1(3) up(3) m show thesis by (auto simp: AUTH_USERPASS_def AUTH_NONE_def)
  next
    case False
    then have "m = AUTH_NONE" "auth = []" "a = args_new" "replies = [[5, 0]]" using d by (simp_all add: m_def)
    with assms(3) s1 that show thesis by (auto simp: pieces_empty AUTH_NONE_def)
  qed
  have "sk_msg req evs s2" using s2(2) assms(4) by (auto simp: sk_msg_done intro: sk_msg_start)
  from command_msg [OF this g(3)] obtain s3 where s3: "read_command s2 = (Some (Ok target), s3)" "sk_msg [] evs s3" "sk_out s3 = sk_out s2"
    by blast
  have "handshake_work ?s = (Some (Ok (a, target)), s3)"
    using s1(1) s2(1,2) s3(1) by (simp add: handshake_work_def check_no_trailing_def sk_msg_done)
  with s2(3) s3(2,3) show ?thesis by (simp add: handshake_def sk_msg_done)
qed

text \<open>
  A client that keeps to the protocol is served: when it waits for each answer before
  its next message, the handshake succeeds with its arguments and target however its
  messages are cut, and the stream is handed on as it is.
\<close>

theorem handshake_complete:
  assumes "socks_dialogue greeting auth req a target replies"
    and "pieces greeting ps1" and "pieces auth ps2" and "pieces req ps3"
  shows "handshake (ps1 @ ps2 @ ps3 @ evs) None = (Ok (a, target, evs), replies)"
  using assms by (rule handshake_runs)

definition tor_dialogue :: "source" where
  "tor_dialogue = [SrcData [5, 1, 2], SrcData [1, 3, 97], SrcData [61, 98, 1, 0], SrcData [5, 1, 0, 3, 1, 104, 0, 80]]"

lemma tor_dialogue:
  "socks_dialogue [5, 1, 2] [1, 3, 97, 61, 98, 1, 0] [5, 1, 0, 3, 1, 104, 0, 80] [([97], [[98]])] [104, 58, 56, 48] [[5, 2], [1, 0]]"
proof -
  have "socks_client_parameters (args_text [97, 61, 98] [0]) = Ok [([97], [[98]])]"
    by (simp add: socks_client_parameters_def args_text_def args_new_def)
  moreover have "auth_message [1, 3, 97, 61, 98, 1, 0] [97, 61, 98] [0]"
    unfolding auth_message_def by (intro exI [of _ 3] exI [of _ 1]) simp
  moreover have "host_bytes [3, 1, 104] [104]" by (rule host_bytes.domain) simp_all
  then have "connect_request [5, 1, 0, 3, 1, 104, 0, 80] [104, 58, 56, 48]"
    unfolding connect_request_def
    by (intro exI [of _ "[3, 1, 104]"] exI [of _ "[104]"] exI [of _ "[0, 80]"])
      (simp add: be_u16_def ascii_def dec_nat.simps)
  ultimately show ?thesis unfolding socks_dialogue_def AUTH_USERPASS_def
    by (intro conjI exI [of _ 1] exI [of _ "[2]"]) auto
qed

theorem handshake_complete_witness:
  "handshake (tor_dialogue @ [SrcData [9]]) None = (Ok ([([97], [[98]])], [104, 58, 56, 48], [SrcData [9]]), [[5, 2], [1, 0]])"
proof -
  have "pieces [5, 1, 2] [SrcData [5, 1, 2]]" "pieces [1, 3, 97, 61, 98, 1, 0] [SrcData [1, 3, 97], SrcData [61, 98, 1, 0]]"
    "pieces [5, 1, 0, 3, 1, 104, 0, 80] [SrcData [5, 1, 0, 3, 1, 104, 0, 80]]"
    unfolding pieces_def
    by (rule exI [of _ "[[5, 1, 2]]"], simp) (rule exI [of _ "[[1, 3, 97], [61, 98, 1, 0]]"], simp,
      rule exI [of _ "[[5, 1, 0, 3, 1, 104, 0, 80]]"], simp)
  from handshake_complete [OF tor_dialogue this, of "[SrcData [9]]"] show ?thesis by (simp add: tor_dialogue_def)
qed

section \<open>The two parsers of arguments\<close>

text \<open>What the loop has accepted when it succeeds, in terms of the other parser's scanner.\<close>

lemma strict_escaped:
  assumes "strict_loop n (BACKSLASH # s) key acc False a = Ok r"
  obtains d t m where "s = d # t" "strict_loop m t key (acc @ [d]) False a = Ok r"
  using assms by (cases s) (auto split: if_splits)

lemma strict_key:
  assumes "strict_loop n s None acc False a = Ok r"
  shows "\<exists>i u m. unescape {EQ, SEMI} s = Some (i, u) \<and> i < length s \<and> s ! i = EQ \<and> acc @ u \<noteq> [] \<and> utf8_valid (acc @ u) \<and>
    strict_loop m (drop (i + 1) s) (Some (acc @ u)) [] False a = Ok r"
  using assms
proof (induction s arbitrary: n acc rule: length_induct)
  case (1 s)
  obtain c s1 where s: "s = c # s1" using "1.prems" by (cases s) auto
  consider (esc) "c = BACKSLASH" | (eq) "c = EQ" | (other) "c \<noteq> BACKSLASH" "c \<noteq> EQ" "c \<noteq> SEMI"
    using "1.prems" s by (cases "c = SEMI") auto
  then show ?case
  proof cases
    case esc
    obtain d t m where d: "s1 = d # t" "strict_loop m t None (acc @ [d]) False a = Ok r"
      by (rule strict_escaped [OF "1.prems" [unfolded s esc]])
    have "length t < length s" using s d(1) by simp
    with "1.IH" d(2) obtain i u m where i: "unescape {EQ, SEMI} t = Some (i, u)" "i < length t" "t ! i = EQ"
      "utf8_valid ((acc @ [d]) @ u)" "strict_loop m (drop (i + 1) t) (Some ((acc @ [d]) @ u)) [] False a = Ok r" by blast
    with s d(1) esc show ?thesis by (intro exI [of _ "i + 2"] exI [of _ "d # u"] exI [of _ m]) simp
  next
    case eq
    with "1.prems" s show ?thesis
      by (intro exI [of _ 0] exI [of _ "[]"] exI [of _ "n + 1"]) (auto split: if_splits)
  next
    case other
    with "1.prems" s have "strict_loop (n + 1) s1 None (acc @ [c]) False a = Ok r" by simp
    moreover have "length s1 < length s" using s by simp
    ultimately obtain i u m where i: "unescape {EQ, SEMI} s1 = Some (i, u)" "i < length s1" "s1 ! i = EQ"
      "utf8_valid ((acc @ [c]) @ u)" "strict_loop m (drop (i + 1) s1) (Some ((acc @ [c]) @ u)) [] False a = Ok r"
      using "1.IH" by blast
    with s other show ?thesis by (intro exI [of _ "i + 1"] exI [of _ "c # u"] exI [of _ m]) simp
  qed
qed

lemma strict_value:
  assumes "strict_loop n s (Some k) acc False a = Ok r"
  shows "\<exists>i u. unescape {SEMI} s = Some (i, u) \<and> utf8_valid (acc @ u) \<and>
    (if i < length s then drop (i + 1) s \<noteq> [] \<and> (\<exists>m. strict_loop m (drop (i + 1) s) None [] False (args_add k (acc @ u) a) = Ok r)
     else r = args_add k (acc @ u) a)"
  using assms
proof (induction s arbitrary: n acc rule: length_induct)
  case (1 s)
  show ?case
  proof (cases s)
    case Nil
    with "1.prems" show ?thesis by (auto split: if_splits)
  next
    case s: (Cons c s1)
    consider (esc) "c = BACKSLASH" | (semi) "c = SEMI" | (other) "c \<noteq> BACKSLASH" "c \<noteq> SEMI" by blast
    then show ?thesis
    proof cases
      case esc
      obtain d t m where d: "s1 = d # t" "strict_loop m t (Some k) (acc @ [d]) False a = Ok r"
        by (rule strict_escaped [OF "1.prems" [unfolded s esc]])
      have "length t < length s" using s d(1) by simp
      with "1.IH" d(2) obtain i u where i: "unescape {SEMI} t = Some (i, u)" "utf8_valid ((acc @ [d]) @ u)"
        "if i < length t then drop (i + 1) t \<noteq> [] \<and> (\<exists>m. strict_loop m (drop (i + 1) t) None [] False (args_add k ((acc @ [d]) @ u) a) = Ok r)
         else r = args_add k ((acc @ [d]) @ u) a" by blast
      with s d(1) esc show ?thesis by (intro exI [of _ "i + 2"] exI [of _ "d # u"]) (auto split: if_splits)
    next
      case semi
      with "1.prems" s have "s1 \<noteq> []" "utf8_valid acc" "strict_loop (n + 1) s1 None [] False (args_add k acc a) = Ok r"
        by (auto split: if_splits)
      with semi s show ?thesis by (intro exI [of _ 0] exI [of _ "[]"]) auto
    next
      case other
      with "1.prems" s have "strict_loop (n + 1) s1 (Some k) (acc @ [c]) False a = Ok r" by simp
      moreover have "length s1 < length s" using s by simp
      ultimately obtain i u where i: "unescape {SEMI} s1 = Some (i, u)" "utf8_valid ((acc @ [c]) @ u)"
        "if i < length s1 then drop (i + 1) s1 \<noteq> [] \<and> (\<exists>m. strict_loop m (drop (i + 1) s1) None [] False (args_add k ((acc @ [c]) @ u) a) = Ok r)
         else r = args_add k ((acc @ [c]) @ u) a" using "1.IH" by blast
      with s other show ?thesis by (intro exI [of _ "i + 1"] exI [of _ "c # u"]) (auto split: if_splits)
    qed
  qed
qed

lemma strict_pairs: "strict_loop n s None [] False a = Ok r \<Longrightarrow> parse_pairs s a = Ok r"
proof (induction s a arbitrary: n rule: parse_pairs.induct)
  case (1 s a)
  obtain i k m where k: "unescape {EQ, SEMI} s = Some (i, k)" "i < length s" "s ! i = EQ" "k \<noteq> []" "utf8_valid k"
    "strict_loop m (drop (i + 1) s) (Some k) [] False a = Ok r"
    using strict_key [OF "1.prems"] by auto
  let ?s = "drop (i + 1) s"
  obtain j v where v: "unescape {SEMI} ?s = Some (j, v)" "utf8_valid v"
    "if j < length ?s then drop (j + 1) ?s \<noteq> [] \<and> (\<exists>m. strict_loop m (drop (j + 1) ?s) None [] False (args_add k v a) = Ok r)
     else r = args_add k v a"
    using strict_value [OF k(6)] unfolding append_Nil by blast
  have pair: "parse_pair s = Ok ((k, v), if length ?s \<le> j then None else Some (drop (j + 1) ?s))"
    using k v(1,2) by (simp add: parse_pair_def index_unescaped_def Let_def)
  show ?case
  proof (cases "j < length ?s")
    case True
    then have p: "parse_pair s = Ok ((k, v), Some (drop (j + 1) ?s))" using pair by simp
    from True v(3) obtain m where "strict_loop m (drop (j + 1) ?s) None [] False (args_add k v a) = Ok r" by auto
    from "1.IH" [OF p refl refl refl this] p show ?thesis by (simp add: parse_pairs.simps [of s])
  next
    case False
    with pair v(3) show ?thesis by (simp add: parse_pairs.simps [of s])
  qed
qed

text \<open>
  The two parsers of client arguments agree: whatever the strict one of the SOCKS
  server accepts, the lenient one accepts with the same result.
\<close>

theorem strict_parser_agrees:
  assumes "socks_client_parameters s = Ok a"
  shows "parse_client_parameters s = Ok a"
  using assms strict_pairs by (auto simp: socks_client_parameters_def parse_client_parameters_def split: if_splits)

theorem strict_parser_agrees_witness:
  "parse_client_parameters [97, 92, 59, 61, 98, 61, 59, 99, 61] = Ok [([97, 59], [[98, 61]]), ([99], [[]])]"
  by (rule strict_parser_agrees) code_simp

end
