(* ===== verification/Stun.thy ===== *)
theory Stun
  imports Prelude
begin

text \<open>
  The STUN client of \<open>src/transports/snowflake/adapters/stun.rs\<close> and what
  \<open>src/transports/snowflake/domain/nat.rs\<close> makes of it: binding requests and responses,
  the collection of responses with retransmission, the mapping test and the NAT type
  that is claimed.  The socket is the list of what each wait gives, with the clock before it.
\<close>

section \<open>Messages\<close>

definition MAGIC :: u32 where "MAGIC = 0x2112A442"
definition BINDING_REQUEST :: u16 where "BINDING_REQUEST = 0x0001"
definition BINDING_SUCCESS :: u16 where "BINDING_SUCCESS = 0x0101"
definition ATTR_MAPPED_ADDRESS :: u16 where "ATTR_MAPPED_ADDRESS = 0x0001"
definition ATTR_XOR_MAPPED_ADDRESS :: u16 where "ATTR_XOR_MAPPED_ADDRESS = 0x0020"
definition ATTR_OTHER_ADDRESS :: u16 where "ATTR_OTHER_ADDRESS = 0x802C"

lemmas attr_defs = ATTR_MAPPED_ADDRESS_def ATTR_XOR_MAPPED_ADDRESS_def ATTR_OTHER_ADDRESS_def

definition u32_be :: "u32 \<Rightarrow> bytes" where "u32_be w = rev (u32_le w)"
definition be_u32 :: "bytes \<Rightarrow> u32" where "be_u32 bs = le_u32 (rev bs)"

lemma length_u32_be [simp]: "length (u32_be w) = 4" by (simp add: u32_be_def)
lemma be_u32_of_u32_be [simp]: "be_u32 (u32_be w) = w" by (simp add: u32_be_def be_u32_def)

datatype ip_addr = IpV4 bytes | IpV6 bytes

type_synonym socket_addr = "ip_addr \<times> u16"

record binding_response =
  mapped :: "socket_addr option"
  other :: "socket_addr option"

definition binding_default :: binding_response where
  "binding_default = \<lparr>mapped = None, other = None\<rparr>"

definition binding_request :: "bytes \<Rightarrow> bytes" where
  "binding_request txid = u16_be BINDING_REQUEST @ u16_be 0 @ u32_be MAGIC @ txid"

definition parse_address :: "bytes \<Rightarrow> bytes option \<Rightarrow> socket_addr option" where
  "parse_address v xr =
     (if length v < 4 then None
      else let family = v ! 1; port = be_u16 [v ! 2, v ! 3];
               port = (if xr \<noteq> None then port XOR ucast (drop_bit 16 MAGIC) else port)
           in if family = 1 \<and> length v = 8 then
                let b = slice 4 8 v; b = (if xr \<noteq> None then map2 (XOR) b (u32_be MAGIC) else b) in Some (IpV4 b, port)
              else if family = 2 \<and> length v = 20 then
                let b = slice 4 20 v; b = (case xr of Some txid \<Rightarrow> map2 (XOR) b (u32_be MAGIC @ txid) | None \<Rightarrow> b) in Some (IpV6 b, port)
              else None)"

text \<open>One attribute, and the loop over them with the address of \<open>xor_mapped\<close>.\<close>

definition take_attr :: "bytes \<Rightarrow> u16 \<Rightarrow> bytes \<Rightarrow> socket_addr option \<times> binding_response \<Rightarrow> socket_addr option \<times> binding_response" where
  "take_attr txid t v acc =
     (case acc of (xor_mapped, r) \<Rightarrow>
       if t = ATTR_XOR_MAPPED_ADDRESS then (parse_address v (Some txid), r)
       else if t = ATTR_MAPPED_ADDRESS then
         (xor_mapped, r\<lparr>mapped := (case mapped r of Some a \<Rightarrow> Some a | None \<Rightarrow> parse_address v None)\<rparr>)
       else if t = ATTR_OTHER_ADDRESS then (xor_mapped, r\<lparr>other := parse_address v None\<rparr>)
       else (xor_mapped, r))"

definition padded_len :: "nat \<Rightarrow> nat" where "padded_len n = (n + 3) div 4 * 4"

function parse_attrs :: "bytes \<Rightarrow> bytes \<Rightarrow> socket_addr option \<times> binding_response \<Rightarrow> socket_addr option \<times> binding_response" where
  "parse_attrs txid attrs acc =
     (if length attrs < 4 then acc
      else let t = be_u16 [attrs ! 0, attrs ! 1]; n = unat (be_u16 [attrs ! 2, attrs ! 3])
           in if length attrs < 4 + n then acc
              else parse_attrs txid (drop (min (4 + padded_len n) (length attrs)) attrs)
                     (take_attr txid t (slice 4 (4 + n) attrs) acc))"
  by pat_completeness auto
termination by (relation "measure (\<lambda>(_, attrs, _). length attrs)") auto

declare parse_attrs.simps [simp del]

definition parse_response :: "bytes \<Rightarrow> (bytes \<times> binding_response) option" where
  "parse_response msg =
     (if length msg < 20 \<or> msg ! 0 AND 0xc0 \<noteq> 0 then None
      else let mtype = be_u16 [msg ! 0, msg ! 1]; n = unat (be_u16 [msg ! 2, msg ! 3])
           in if mtype \<noteq> BINDING_SUCCESS \<or> be_u32 (slice 4 8 msg) \<noteq> MAGIC \<or> length msg < 20 + n then None
              else let txid = slice 8 20 msg
                   in case parse_attrs txid (slice 20 (20 + n) msg) (None, binding_default) of
                        (xor_mapped, r) \<Rightarrow> Some (txid, if xor_mapped \<noteq> None then r\<lparr>mapped := xor_mapped\<rparr> else r))"

section \<open>Collecting responses\<close>

text \<open>What one wait for a datagram gives; the buffer holds 1500 bytes.\<close>

datatype udp_event = Datagram bytes | RecvFailed | WaitElapsed

record binding =
  bn_pending :: "(bytes \<times> socket_addr \<times> bytes) list"
  bn_out :: "(socket_addr \<times> binding_response) list"
  bn_retransmit :: nat
  bn_sent :: "(bytes \<times> socket_addr) list"
  bn_wait :: nat

definition pending_insert :: "bytes \<Rightarrow> 'v \<Rightarrow> (bytes \<times> 'v) list \<Rightarrow> (bytes \<times> 'v) list" where
  "pending_insert k v p = filter (\<lambda>(k', _). k' \<noteq> k) p @ [(k, v)]"

definition pending_remove :: "bytes \<Rightarrow> (bytes \<times> 'v) list \<Rightarrow> (bytes \<times> 'v) list" where
  "pending_remove k p = filter (\<lambda>(k', _). k' \<noteq> k) p"

fun bind_requests :: "(bytes \<times> socket_addr) list \<Rightarrow> binding \<Rightarrow> binding" where
  "bind_requests [] b = b"
| "bind_requests ((txid, server) # rest) b =
     (let msg = binding_request txid
      in bind_requests rest (b\<lparr>bn_sent := bn_sent b @ [(msg, server)],
                               bn_pending := pending_insert txid (server, msg) (bn_pending b)\<rparr>))"

definition bind_datagram :: "bytes \<Rightarrow> binding \<Rightarrow> binding" where
  "bind_datagram d b =
     (case parse_response (take 1500 d) of
        None \<Rightarrow> b
      | Some (txid, resp) \<Rightarrow>
          (case map_of (bn_pending b) txid of
             None \<Rightarrow> b
           | Some (server, _) \<Rightarrow> b\<lparr>bn_pending := pending_remove txid (bn_pending b), bn_out := bn_out b @ [(server, resp)]\<rparr>))"

text \<open>The retransmission before a wait, and the wait.\<close>

definition bind_retransmit :: "nat \<Rightarrow> nat \<Rightarrow> binding \<Rightarrow> binding" where
  "bind_retransmit deadline now b =
     (let b = (if bn_retransmit b \<le> now
               then b\<lparr>bn_sent := bn_sent b @ map (\<lambda>(_, server, msg). (msg, server)) (bn_pending b),
                      bn_retransmit := now + 1000\<rparr>
               else b)
      in b\<lparr>bn_wait := min deadline (bn_retransmit b) - now\<rparr>)"

fun bind_loop :: "nat \<Rightarrow> (nat \<times> udp_event) list \<Rightarrow> binding \<Rightarrow> binding option" where
  "bind_loop deadline [] b = (if bn_pending b = [] then Some b else None)"
| "bind_loop deadline ((now, ev) # evs) b =
     (if bn_pending b = [] \<or> deadline \<le> now then Some b
      else let b = bind_retransmit deadline now b
           in bind_loop deadline evs (case ev of Datagram d \<Rightarrow> bind_datagram d b | _ \<Rightarrow> b))"

text \<open>The random transaction ids and the time of the call are arguments; \<open>None\<close> is still waiting.\<close>

definition bind_all :: "(bytes \<times> socket_addr) list \<Rightarrow> nat \<Rightarrow> nat \<Rightarrow> (nat \<times> udp_event) list \<Rightarrow> binding option" where
  "bind_all reqs start timeout evs =
     bind_loop (start + timeout) evs
       (bind_requests reqs \<lparr>bn_pending = [], bn_out = [], bn_retransmit = start + 500, bn_sent = [], bn_wait = 0\<rparr>)"

section \<open>The mapping test\<close>

datatype stun_error = StunTimedOut | LookupFailed | NoIpv4 | BindFailed | NoMapped | NoOther

definition round_trip :: "bytes \<Rightarrow> socket_addr \<Rightarrow> nat \<Rightarrow> (nat \<times> udp_event) list \<Rightarrow> (binding_response, stun_error) res option" where
  "round_trip txid server start evs =
     (case bind_all [(txid, server)] start 10000 evs of
        None \<Rightarrow> None
      | Some b \<Rightarrow> Some (if bn_out b = [] then Err StunTimedOut else Ok (snd (last (bn_out b)))))"

definition is_ipv4 :: "socket_addr \<Rightarrow> bool" where
  "is_ipv4 a \<longleftrightarrow> (case fst a of IpV4 _ \<Rightarrow> True | IpV6 _ \<Rightarrow> False)"

record exchange =
  ex_txid :: bytes
  ex_start :: nat
  ex_events :: "(nat \<times> udp_event) list"

text \<open>\<open>lookup_host\<close> and \<open>bind\<close> are arguments: the addresses of the name, if it resolves, and
  whether there is a socket.\<close>

definition is_restricted_mapping ::
  "socket_addr list option \<Rightarrow> bool \<Rightarrow> exchange \<Rightarrow> exchange \<Rightarrow> (bool, stun_error) res option" where
  "is_restricted_mapping addrs bound x1 x2 =
     (case addrs of None \<Rightarrow> Some (Err LookupFailed) | Some addrs \<Rightarrow>
      (case filter is_ipv4 addrs of [] \<Rightarrow> Some (Err NoIpv4) | primary # _ \<Rightarrow>
       if \<not> bound then Some (Err BindFailed)
       else (case round_trip (ex_txid x1) primary (ex_start x1) (ex_events x1) of
          None \<Rightarrow> None
        | Some (Err e) \<Rightarrow> Some (Err e)
        | Some Panic \<Rightarrow> Some Panic
        | Some (Ok first) \<Rightarrow>
            (case mapped first of None \<Rightarrow> Some (Err NoMapped) | Some mapped1 \<Rightarrow>
             (case other first of None \<Rightarrow> Some (Err NoOther) | Some oth \<Rightarrow>
              (case round_trip (ex_txid x2) oth (ex_start x2) (ex_events x2) of
                 None \<Rightarrow> None
               | Some (Err e) \<Rightarrow> Some (Err e)
               | Some Panic \<Rightarrow> Some Panic
               | Some (Ok second) \<Rightarrow>
                   (case mapped second of None \<Rightarrow> Some (Err NoMapped)
                    | Some mapped2 \<Rightarrow> Some (Ok (mapped1 \<noteq> mapped2)))))))))"

section \<open>The NAT type\<close>

datatype nat_kind = NatUnknown | NatRestricted | NatUnrestricted

text \<open>\<open>NatPolicy\<close> is its flag.\<close>

definition nat_type_to_send :: "bool \<Rightarrow> nat_kind \<Rightarrow> nat_kind" where
  "nat_type_to_send assumed_failed actual =
     (if \<not> assumed_failed \<and> actual = NatUnknown then NatUnrestricted else actual)"

definition nat_failure :: "nat_kind \<Rightarrow> nat_kind \<Rightarrow> bool \<Rightarrow> bool" where
  "nat_failure actual sent flag = (if actual = NatUnknown \<and> sent = NatUnrestricted then True else flag)"

definition strip_stun :: "bytes \<Rightarrow> bytes" where
  "strip_stun s = (if take 5 s = ascii ''stun:'' then drop 5 s else s)"

text \<open>The servers are tried in turn; the result is the type given to the broker, if any.\<close>

fun update_nat_type :: "bytes list \<Rightarrow> (bytes \<Rightarrow> bool option) \<Rightarrow> bool \<Rightarrow> nat_kind option" where
  "update_nat_type [] probe failed = (if failed then Some NatUnknown else None)"
| "update_nat_type (server # rest) probe failed =
     (case probe (strip_stun server) of
        Some restricted \<Rightarrow> Some (if restricted then NatRestricted else NatUnrestricted)
      | None \<Rightarrow> update_nat_type rest probe True)"

section \<open>Responses are read as they were written\<close>

text \<open>RFC 8489's encoding, as the tests of \<open>stun.rs\<close> build it.\<close>

definition ip_ok :: "ip_addr \<Rightarrow> bool" where
  "ip_ok ip \<longleftrightarrow> (case ip of IpV4 b \<Rightarrow> length b = 4 | IpV6 b \<Rightarrow> length b = 16)"

definition encode_address :: "bytes option \<Rightarrow> socket_addr \<Rightarrow> bytes" where
  "encode_address xr a =
     (case a of (ip, port) \<Rightarrow>
        (case ip of IpV4 _ \<Rightarrow> [0, 1] | IpV6 _ \<Rightarrow> [0, 2]) @
        u16_be (if xr = None then port else port XOR 0x2112) @
        (case (xr, ip) of
           (None, IpV4 b) \<Rightarrow> b | (None, IpV6 b) \<Rightarrow> b
         | (Some txid, IpV4 b) \<Rightarrow> map2 (XOR) b (u32_be MAGIC)
         | (Some txid, IpV6 b) \<Rightarrow> map2 (XOR) b (u32_be MAGIC @ txid)))"

definition stun_attr :: "u16 \<times> bytes \<Rightarrow> bytes" where
  "stun_attr a = (case a of (t, v) \<Rightarrow>
     u16_be t @ u16_be (word_of_nat (length v)) @ v @ replicate (padded_len (length v) - length v) 0)"

definition stun_response :: "bytes \<Rightarrow> (u16 \<times> bytes) list \<Rightarrow> bytes" where
  "stun_response txid attrs =
     (let body = concat (map stun_attr attrs)
      in u16_be BINDING_SUCCESS @ u16_be (word_of_nat (length body)) @ u32_be MAGIC @ txid @ body)"

lemma u16_be_list: "\<exists>x y. u16_be w = [x, y] \<and> be_u16 [x, y] = w"
proof -
  have "length (u16_be w) = Suc (Suc 0)" by simp
  then obtain x y where "u16_be w = [x, y]" by (auto simp: length_Suc_conv simp del: length_u16_be)
  with be_u16_of_u16_be [of w] show ?thesis by simp
qed

lemma map2_xor_cancel: "length b \<le> length k \<Longrightarrow> map2 (XOR) (map2 (XOR) b k) k = (b :: bytes)"
proof (induction b arbitrary: k)
  case (Cons x b)
  then show ?case by (cases k) (simp_all add: xor.assoc)
qed simp

lemma parse_encoded_address:
  assumes "ip_ok (fst a)" and "\<forall>txid. xr = Some txid \<longrightarrow> length txid = 12"
  shows "parse_address (encode_address xr a) xr = Some a"
proof -
  obtain ip port where a: "a = (ip, port)" by force
  obtain x y where xy: "u16_be (if xr = None then port else port XOR 0x2112) = [x, y]"
    "be_u16 [x, y] = (if xr = None then port else port XOR 0x2112)"
    using u16_be_list by blast
  have m: "(ucast (drop_bit 16 MAGIC) :: u16) = 0x2112" by (simp add: MAGIC_def)
  show ?thesis
  proof (cases ip)
    case (IpV4 b)
    then have "length b = 4" using assms by (simp add: a ip_ok_def)
    with xy show ?thesis
      by (cases xr) (simp_all add: parse_address_def encode_address_def a IpV4 slice_def m xor.assoc map2_xor_cancel)
  next
    case (IpV6 b)
    then have "length b = 16" using assms by (simp add: a ip_ok_def)
    with xy assms(2) show ?thesis
      by (cases xr) (simp_all add: parse_address_def encode_address_def a IpV6 slice_def m xor.assoc map2_xor_cancel)
  qed
qed

lemma padded_len_ge: "n \<le> padded_len n" by (simp add: padded_len_def)

lemma parse_attrs_encoded:
  assumes "\<forall>(t, v) \<in> set attrs. length v < 65536"
  shows "parse_attrs txid (concat (map stun_attr attrs)) acc = fold (\<lambda>(t, v). take_attr txid t v) attrs acc"
  using assms
proof (induction attrs arbitrary: acc)
  case (Cons a attrs)
  obtain t v where a: "a = (t, v)" by force
  let ?rest = "concat (map stun_attr attrs)"
  obtain x y where t: "u16_be t = [x, y]" "be_u16 [x, y] = t" using u16_be_list by blast
  obtain z w where n: "u16_be (word_of_nat (length v)) = [z, w]" "be_u16 [z, w] = word_of_nat (length v)" using u16_be_list by blast
  have len: "length v < 65536" using Cons.prems a by simp
  let ?pad = "replicate (padded_len (length v) - length v) 0"
  have attr: "concat (map stun_attr (a # attrs)) = [x, y, z, w] @ v @ ?pad @ ?rest"
    by (simp add: a stun_attr_def t n)
  have "drop (4 + padded_len (length v)) ([x, y, z, w] @ v @ ?pad @ ?rest) = ?rest"
  proof -
    have "length ([x, y, z, w] @ v @ ?pad) = 4 + padded_len (length v)" using padded_len_ge [of "length v"] by simp
    then show ?thesis by (metis append.assoc append_eq_conv_conj)
  qed
  moreover have "slice 4 (4 + length v) ([x, y, z, w] @ v @ ?pad @ ?rest) = v" by (simp add: slice_def)
  moreover have "4 + padded_len (length v) \<le> length ([x, y, z, w] @ v @ ?pad @ ?rest)"
    using padded_len_ge [of "length v"] by simp
  ultimately have "parse_attrs txid (concat (map stun_attr (a # attrs))) acc = parse_attrs txid ?rest (take_attr txid t v acc)"
    unfolding attr by (subst parse_attrs.simps) (simp add: t n unat_u16_of_nat [OF len] min_def)
  with Cons show ?case by (simp add: a)
qed (simp add: parse_attrs.simps)

lemma take_attr_parts:
  "fst (take_attr txid t v acc) = (if t = ATTR_XOR_MAPPED_ADDRESS then parse_address v (Some txid) else fst acc)"
  "other (snd (take_attr txid t v acc)) = (if t = ATTR_OTHER_ADDRESS then parse_address v None else other (snd acc))"
  by (simp_all add: take_attr_def attr_defs split: prod.split)

lemma fold_xor_mapped:
  "fst (fold (\<lambda>(t, v). take_attr txid t v) attrs acc) =
     (let xs = filter (\<lambda>(t, _). t = ATTR_XOR_MAPPED_ADDRESS) attrs
      in if xs = [] then fst acc else parse_address (snd (last xs)) (Some txid))"
  by (induction attrs arbitrary: acc) (auto simp: take_attr_parts Let_def)

lemma fold_other:
  "other (snd (fold (\<lambda>(t, v). take_attr txid t v) attrs acc)) =
     (let os = filter (\<lambda>(t, _). t = ATTR_OTHER_ADDRESS) attrs
      in if os = [] then other (snd acc) else parse_address (snd (last os)) None)"
  by (induction attrs arbitrary: acc) (auto simp: take_attr_parts Let_def)

lemma binding_success_bytes: "u16_be BINDING_SUCCESS = [1, 1]" "be_u16 [1, 1] = BINDING_SUCCESS"
  by (simp_all add: BINDING_SUCCESS_def u16_be_def be_u16_def byte_simps)

lemma parse_stun_response:
  assumes "length txid = 12" and "\<forall>(t, v) \<in> set attrs. length v < 65536"
    and "length (concat (map stun_attr attrs)) < 65536" and "ip_ok (fst a)" and "ip_ok (fst oth)"
    and "filter (\<lambda>(t, _). t = ATTR_XOR_MAPPED_ADDRESS) attrs = [(ATTR_XOR_MAPPED_ADDRESS, encode_address (Some txid) a)]"
    and "filter (\<lambda>(t, _). t = ATTR_OTHER_ADDRESS) attrs = [(ATTR_OTHER_ADDRESS, encode_address None oth)]"
  shows "parse_response (stun_response txid attrs @ trailing) = Some (txid, \<lparr>mapped = Some a, other = Some oth\<rparr>)"
proof -
  let ?body = "concat (map stun_attr attrs)"
  obtain z w where n: "u16_be (word_of_nat (length ?body)) = [z, w]" "be_u16 [z, w] = word_of_nat (length ?body)" using u16_be_list by blast
  have msg: "stun_response txid attrs @ trailing = [1, 1, z, w] @ u32_be MAGIC @ txid @ ?body @ trailing"
    by (simp add: stun_response_def Let_def n binding_success_bytes)
  have 1: "slice 4 8 (stun_response txid attrs @ trailing) = u32_be MAGIC"
    and 2: "slice 8 20 (stun_response txid attrs @ trailing) = txid"
    and 3: "slice 20 (20 + length ?body) (stun_response txid attrs @ trailing) = ?body"
    unfolding msg using assms(1) by (simp_all add: slice_def)
  have len: "length (stun_response txid attrs @ trailing) = 20 + length ?body + length trailing"
    unfolding msg using assms(1) by simp
  have hd: "(stun_response txid attrs @ trailing) ! 0 = 1" "(stun_response txid attrs @ trailing) ! 1 = 1"
    "(stun_response txid attrs @ trailing) ! 2 = z" "(stun_response txid attrs @ trailing) ! 3 = w"
    unfolding msg by simp_all
  obtain x r where acc: "fold (\<lambda>(t, v). take_attr txid t v) attrs (None, binding_default) = (x, r)" by force
  have "x = Some a" "other r = Some oth"
    using fold_xor_mapped [of txid attrs "(None, binding_default)"] fold_other [of txid attrs "(None, binding_default)"] assms(1,6,7)
      parse_encoded_address [OF assms(4)] parse_encoded_address [OF assms(5)] by (simp_all add: acc)
  then show ?thesis
    unfolding parse_response_def Let_def hd len
    by (simp add: n binding_success_bytes unat_u16_of_nat [OF assms(3)] 1 2 3 parse_attrs_encoded [OF assms(2)] acc)
qed

text \<open>A STUN binding response is read as it was written: whatever other attributes it carries and
  whatever follows it in the datagram, the transaction id, the XOR-mapped address and the other address come out.\<close>
theorem binding_response_parsed:
  assumes "length txid = 12" and "\<forall>(t, v) \<in> set attrs. length v < 65536"
    and "length (concat (map stun_attr attrs)) < 65536" and "ip_ok (fst a)" and "ip_ok (fst oth)"
    and "filter (\<lambda>(t, _). t = ATTR_XOR_MAPPED_ADDRESS) attrs = [(ATTR_XOR_MAPPED_ADDRESS, encode_address (Some txid) a)]"
    and "filter (\<lambda>(t, _). t = ATTR_OTHER_ADDRESS) attrs = [(ATTR_OTHER_ADDRESS, encode_address None oth)]"
  shows "parse_response (stun_response txid attrs @ trailing) = Some (txid, \<lparr>mapped = Some a, other = Some oth\<rparr>)"
  by (rule parse_stun_response) (use assms in auto)

definition sample_txid :: bytes where "sample_txid = [1, 2, 3, 4, 5, 6, 7, 8, 9, 10, 11, 12]"
definition sample_mapped :: socket_addr where "sample_mapped = (IpV4 [192, 0, 2, 1], 32853)"
definition sample_other :: socket_addr where "sample_other = (IpV6 [32, 1, 13, 184, 0, 0, 0, 0, 0, 0, 0, 0, 0, 0, 0, 1], 3479)"
definition sample_attrs :: "(u16 \<times> bytes) list" where
  "sample_attrs = [(0x8022, [97, 98, 99]), (ATTR_XOR_MAPPED_ADDRESS, encode_address (Some sample_txid) sample_mapped),
     (ATTR_OTHER_ADDRESS, encode_address None sample_other)]"

lemma binding_response_parsed_witness:
  "parse_response (stun_response sample_txid sample_attrs @ [0]) = Some (sample_txid, \<lparr>mapped = Some sample_mapped, other = Some sample_other\<rparr>)"
  by (rule binding_response_parsed) (simp_all add: sample_txid_def sample_mapped_def sample_other_def sample_attrs_def attr_defs
    encode_address_def stun_attr_def padded_len_def ip_ok_def)

section \<open>Only answers to own requests count\<close>

definition answer_to :: "(bytes \<times> socket_addr) list \<Rightarrow> (nat \<times> udp_event) set \<Rightarrow> nat \<Rightarrow> bytes \<Rightarrow> socket_addr \<times> binding_response \<Rightarrow> bool" where
  "answer_to reqs E deadline txid sr \<longleftrightarrow> (txid, fst sr) \<in> set reqs \<and>
     (\<exists>now d. (now, Datagram d) \<in> E \<and> now < deadline \<and> parse_response (take 1500 d) = Some (txid, snd sr))"

definition binding_inv :: "(bytes \<times> socket_addr) list \<Rightarrow> (nat \<times> udp_event) set \<Rightarrow> nat \<Rightarrow> binding \<Rightarrow> bool" where
  "binding_inv reqs E deadline b \<longleftrightarrow>
     (\<forall>(txid, server, msg) \<in> set (bn_pending b). (txid, server) \<in> set reqs \<and> msg = binding_request txid) \<and>
     (\<forall>(msg, server) \<in> set (bn_sent b). \<exists>txid. msg = binding_request txid \<and> (txid, server) \<in> set reqs) \<and>
     (\<exists>ids. distinct ids \<and> set ids \<inter> fst ` set (bn_pending b) = {} \<and> list_all2 (answer_to reqs E deadline) ids (bn_out b))"

lemma binding_invI:
  assumes "\<And>txid server msg. (txid, server, msg) \<in> set (bn_pending b) \<Longrightarrow> (txid, server) \<in> set reqs \<and> msg = binding_request txid"
    and "\<And>msg server. (msg, server) \<in> set (bn_sent b) \<Longrightarrow> \<exists>txid. msg = binding_request txid \<and> (txid, server) \<in> set reqs"
    and "distinct ids" "set ids \<inter> fst ` set (bn_pending b) = {}" "list_all2 (answer_to reqs E deadline) ids (bn_out b)"
  shows "binding_inv reqs E deadline b"
  using assms unfolding binding_inv_def by fast

lemma bind_requests_inv:
  assumes "set rs \<subseteq> set reqs" and "binding_inv reqs E deadline b" and "bn_out b = []"
  shows "binding_inv reqs E deadline (bind_requests rs b) \<and> bn_out (bind_requests rs b) = []"
  using assms
proof (induction rs arbitrary: b)
  case (Cons r rs)
  obtain txid server where r: "r = (txid, server)" by (cases r)
  let ?b = "b\<lparr>bn_sent := bn_sent b @ [(binding_request txid, server)],
              bn_pending := pending_insert txid (server, binding_request txid) (bn_pending b)\<rparr>"
  have "binding_inv reqs E deadline ?b"
    using Cons.prems by (intro binding_invI [where ids = "[]"]) (auto simp: r pending_insert_def binding_inv_def)
  with Cons show ?case by (simp add: r Let_def)
qed simp

lemma bind_retransmit_inv: "binding_inv reqs E deadline b \<Longrightarrow> binding_inv reqs E deadline (bind_retransmit dl now b)"
  by (fastforce simp: binding_inv_def bind_retransmit_def Let_def split: if_splits)

lemma bind_datagram_inv:
  assumes inv: "binding_inv reqs E deadline b" and ev: "(now, Datagram d) \<in> E" "now < deadline"
  shows "binding_inv reqs E deadline (bind_datagram d b)"
proof (cases "parse_response (take 1500 d)")
  case (Some tr)
  obtain txid resp where tr: "tr = (txid, resp)" by force
  show ?thesis
  proof (cases "map_of (bn_pending b) txid")
    case (Some sm)
    obtain server msg where sm: "sm = (server, msg)" by (cases sm)
    have p: "(txid, server, msg) \<in> set (bn_pending b)" using map_of_SomeD [OF Some] sm by simp
    from inv obtain ids where ids: "distinct ids" "set ids \<inter> fst ` set (bn_pending b) = {}"
      "list_all2 (answer_to reqs E deadline) ids (bn_out b)" by (auto simp: binding_inv_def)
    have "answer_to reqs E deadline txid (server, resp)"
      using inv p ev \<open>parse_response _ = Some tr\<close> by (auto simp: answer_to_def binding_inv_def tr)
    moreover have "txid \<notin> set ids" using ids(2) p by force
    moreover have "bind_datagram d b = b\<lparr>bn_pending := pending_remove txid (bn_pending b), bn_out := bn_out b @ [(server, resp)]\<rparr>"
      using \<open>parse_response _ = Some tr\<close> Some by (simp add: bind_datagram_def tr sm)
    ultimately show ?thesis
      using inv ids by (intro binding_invI [where ids = "ids @ [txid]"])
        (auto simp: binding_inv_def pending_remove_def list_all2_appendI)
  qed (use inv Some in \<open>simp add: bind_datagram_def tr\<close>)
qed (use inv in \<open>simp add: bind_datagram_def\<close>)

lemma bind_loop_inv:
  assumes "bind_loop deadline evs b = Some b'" and "binding_inv reqs E deadline b" and "set evs \<subseteq> E"
  shows "binding_inv reqs E deadline b'"
  using assms
proof (induction deadline evs b rule: bind_loop.induct)
  case (2 deadline now ev evs b)
  show ?case
  proof (cases "bn_pending b = [] \<or> deadline \<le> now")
    case False
    let ?b = "case ev of Datagram d \<Rightarrow> bind_datagram d (bind_retransmit deadline now b) | _ \<Rightarrow> bind_retransmit deadline now b"
    have "binding_inv reqs E deadline ?b"
      using 2(3,4) False bind_datagram_inv [OF bind_retransmit_inv, of reqs E deadline b now]
      by (auto split: udp_event.split intro: bind_retransmit_inv)
    with 2(1) [OF False refl] 2(2,4) False show ?thesis by (simp add: Let_def)
  qed (use 2 in simp)
qed (simp split: if_splits)

theorem bind_all_answers:
  assumes "bind_all reqs start timeout evs = Some b"
  shows "binding_inv reqs (set evs) (start + timeout) b"
proof -
  have "binding_inv reqs (set evs) (start + timeout) (bind_requests reqs \<lparr>bn_pending = [], bn_out = [], bn_retransmit = start + 500, bn_sent = [], bn_wait = 0\<rparr>)"
    by (rule conjunct1, rule bind_requests_inv) (auto intro!: binding_invI [where ids = "[]"])
  with assms show ?thesis unfolding bind_all_def by (rule bind_loop_inv) simp
qed

text \<open>A wait ends at the deadline at the latest, and the call with it.\<close>

lemma bind_wait_bound: "now < deadline \<Longrightarrow> 0 < bn_wait (bind_retransmit deadline now b) \<and> now + bn_wait (bind_retransmit deadline now b) \<le> deadline"
  by (auto simp: bind_retransmit_def Let_def min_def)

lemma bind_loop_returns: "(now, ev) \<in> set evs \<Longrightarrow> deadline \<le> now \<Longrightarrow> \<exists>b'. bind_loop deadline evs b = Some b'"
  by (induction deadline evs b rule: bind_loop.induct) (auto simp: Let_def)

lemma round_trip_answer:
  assumes "round_trip txid server start evs = Some (Ok r)"
  obtains now d where "(now, Datagram d) \<in> set evs" "now < start + 10000" "parse_response (take 1500 d) = Some (txid, r)"
proof -
  from assms obtain b where b: "bind_all [(txid, server)] start 10000 evs = Some b" "bn_out b \<noteq> []" "r = snd (last (bn_out b))"
    by (auto simp: round_trip_def split: option.splits if_splits)
  from bind_all_answers [OF b(1)] obtain ids where "list_all2 (answer_to [(txid, server)] (set evs) (start + 10000)) ids (bn_out b)"
    by (auto simp: binding_inv_def)
  with b(2) obtain i where "answer_to [(txid, server)] (set evs) (start + 10000) i (last (bn_out b))"
    by (cases ids rule: rev_cases; cases "bn_out b" rule: rev_cases) (auto simp: list_all2_append2)
  with that b(3) show thesis by (auto simp: answer_to_def)
qed

text \<open>The NAT mapping test reports only what the two servers said: both answers arrived in time under the
  transaction ids of the two requests, and the mapping is restricted exactly when their mapped addresses differ.\<close>
theorem mapping_test_sound:
  assumes "is_restricted_mapping addrs bound x1 x2 = Some (Ok restricted)"
  shows "\<exists>t1 d1 r1 m1 oth t2 d2 r2 m2.
    (t1, Datagram d1) \<in> set (ex_events x1) \<and> t1 < ex_start x1 + 10000 \<and> parse_response (take 1500 d1) = Some (ex_txid x1, r1) \<and>
    mapped r1 = Some m1 \<and> other r1 = Some oth \<and>
    (t2, Datagram d2) \<in> set (ex_events x2) \<and> t2 < ex_start x2 + 10000 \<and> parse_response (take 1500 d2) = Some (ex_txid x2, r2) \<and>
    mapped r2 = Some m2 \<and> (restricted \<longleftrightarrow> m1 \<noteq> m2)"
proof -
  from assms obtain p r1 m1 oth r2 m2 where
    r: "round_trip (ex_txid x1) p (ex_start x1) (ex_events x1) = Some (Ok r1)" "mapped r1 = Some m1" "other r1 = Some oth"
    "round_trip (ex_txid x2) oth (ex_start x2) (ex_events x2) = Some (Ok r2)" "mapped r2 = Some m2" "restricted = (m1 \<noteq> m2)"
    by (auto simp: is_restricted_mapping_def split: option.splits list.splits res.splits if_splits)
  from round_trip_answer [OF r(1)] obtain t1 d1 where 1: "(t1, Datagram d1) \<in> set (ex_events x1)" "t1 < ex_start x1 + 10000"
    "parse_response (take 1500 d1) = Some (ex_txid x1, r1)" .
  from round_trip_answer [OF r(4)] obtain t2 d2 where 2: "(t2, Datagram d2) \<in> set (ex_events x2)" "t2 < ex_start x2 + 10000"
    "parse_response (take 1500 d2) = Some (ex_txid x2, r2)" .
  from 1 2 r show ?thesis by blast
qed

definition sample_events :: "bytes \<Rightarrow> (nat \<times> udp_event) list" where
  "sample_events txid = [(5, RecvFailed), (6, WaitElapsed), (510, Datagram (stun_response txid
     [(ATTR_XOR_MAPPED_ADDRESS, encode_address (Some txid) sample_mapped), (ATTR_OTHER_ADDRESS, encode_address None sample_other)]))]"

definition sample_exchange :: "bytes \<Rightarrow> exchange" where
  "sample_exchange txid = \<lparr>ex_txid = txid, ex_start = 5, ex_events = sample_events txid\<rparr>"

lemma sample_parsed:
  assumes "length txid = 12"
  shows "parse_response (take 1500 (stun_response txid [(ATTR_XOR_MAPPED_ADDRESS, encode_address (Some txid) sample_mapped),
    (ATTR_OTHER_ADDRESS, encode_address None sample_other)])) = Some (txid, \<lparr>mapped = Some sample_mapped, other = Some sample_other\<rparr>)"
proof -
  let ?m = "stun_response txid [(ATTR_XOR_MAPPED_ADDRESS, encode_address (Some txid) sample_mapped), (ATTR_OTHER_ADDRESS, encode_address None sample_other)]"
  have "take 1500 ?m = ?m @ []" using assms by (simp add: stun_response_def stun_attr_def encode_address_def sample_mapped_def sample_other_def padded_len_def Let_def)
  moreover have "parse_response (?m @ []) = Some (txid, \<lparr>mapped = Some sample_mapped, other = Some sample_other\<rparr>)"
    by (rule parse_stun_response) (use assms in \<open>simp_all add: sample_mapped_def sample_other_def attr_defs
      encode_address_def stun_attr_def padded_len_def ip_ok_def\<close>)
  ultimately show ?thesis by simp
qed

lemma sample_round_trip: "length txid = 12 \<Longrightarrow>
    round_trip txid server 5 (sample_events txid) = Some (Ok \<lparr>mapped = Some sample_mapped, other = Some sample_other\<rparr>)"
  by (simp add: round_trip_def bind_all_def sample_events_def sample_parsed bind_datagram_def bind_retransmit_def Let_def
    pending_insert_def pending_remove_def)

lemma sample_mapping: "is_restricted_mapping (Some [sample_other, sample_mapped]) True (sample_exchange sample_txid) (sample_exchange (rev sample_txid)) = Some (Ok False)"
  by (simp add: is_restricted_mapping_def sample_exchange_def sample_round_trip sample_txid_def is_ipv4_def sample_other_def sample_mapped_def)

lemma mapping_test_sound_witness:
  "\<exists>t1 d1 r1 m1. (t1, Datagram d1) \<in> set (ex_events (sample_exchange sample_txid)) \<and> t1 < 10005 \<and>
     parse_response (take 1500 d1) = Some (sample_txid, r1) \<and> mapped r1 = Some m1"
proof -
  have "ex_start (sample_exchange sample_txid) = 5" "ex_txid (sample_exchange sample_txid) = sample_txid"
    by (simp_all add: sample_exchange_def)
  with mapping_test_sound [OF sample_mapping] show ?thesis by auto blast
qed

end
