(* ===== verification/Peer.thy ===== *)
theory Peer
  imports Encapsulation Turbotunnel Stun
begin

text \<open>
  One snowflake, from \<open>src/transports/snowflake/domain/peer.rs\<close>: how it is caught, its data
  channel as a pipe, its end, and the packet carrier over it.
\<close>

section \<open>The peer\<close>

datatype sf_event = OfferCreated "string option" | BrokerRendezvous "string option" | Connected | ConnectionFailed string

text \<open>The channels to and from the WebRTC stack: messages received and not yet taken, whether the
  stack still holds its end of each, and the messages to send.\<close>

record peer =
  pr_rx :: "bytes list"
  pr_rx_open :: bool
  pr_buf :: bytes
  pr_pos :: nat
  pr_out :: "bytes list"
  pr_out_open :: bool
  pr_closed :: bool
  pr_last :: nat
  pr_events :: "sf_event list"

definition PEER_OUTGOING :: nat where "PEER_OUTGOING = 512"
definition SNOWFLAKE_TIMEOUT :: nat where "SNOWFLAKE_TIMEOUT = 20000"

definition peer_new :: "nat \<Rightarrow> sf_event list \<Rightarrow> peer" where
  "peer_new now evs = \<lparr>pr_rx = [], pr_rx_open = True, pr_buf = [], pr_pos = 0, pr_out = [], pr_out_open = True,
     pr_closed = False, pr_last = now, pr_events = evs\<rparr>"

definition peer_emit :: "sf_event \<Rightarrow> peer \<Rightarrow> peer" where
  "peer_emit e p = p\<lparr>pr_events := pr_events p @ [e]\<rparr>"

definition peer_close :: "peer \<Rightarrow> peer" where "peer_close p = p\<lparr>pr_closed := True\<rparr>"
definition peer_opened :: "peer \<Rightarrow> peer" where "peer_opened p = peer_emit Connected p"
definition peer_received :: "nat \<Rightarrow> peer \<Rightarrow> peer" where "peer_received now p = p\<lparr>pr_last := now\<rparr>"

section \<open>The pipe\<close>

text \<open>The \<open>select!\<close> of \<open>read\<close>: the next message, or nothing once there will be none or the peer is
  closed.  When both branches are ready either is taken; \<open>closed_first\<close> says which.
  \<open>None\<close> is waiting.\<close>

definition peer_select :: "bool \<Rightarrow> peer \<Rightarrow> bytes option option \<times> peer" where
  "peer_select closed_first p =
     (if pr_closed p \<and> closed_first then (Some None, p)
      else case pr_rx p of
        m # q \<Rightarrow> (Some (Some m), p\<lparr>pr_rx := q\<rparr>)
      | [] \<Rightarrow> (if pr_closed p \<or> \<not> pr_rx_open p then Some None else None, p))"

text \<open>\<open>read\<close> into a buffer of \<open>k\<close> bytes; the choice is made anew in each round.\<close>

function peer_read :: "nat \<Rightarrow> (nat \<Rightarrow> bool) \<Rightarrow> peer \<Rightarrow> bytes option \<times> peer" where
  "peer_read k pick p =
     (if length (pr_buf p) \<le> pr_pos p then
        (case peer_select (pick (length (pr_rx p))) p of
           (Some (Some m), p) \<Rightarrow> peer_read k pick (p\<lparr>pr_buf := m, pr_pos := 0\<rparr>)
         | (Some None, p) \<Rightarrow> (Some [], p)
         | (None, p) \<Rightarrow> (None, p))
      else let n = min (length (pr_buf p) - pr_pos p) k
           in (Some (slice (pr_pos p) (pr_pos p + n) (pr_buf p)), p\<lparr>pr_pos := pr_pos p + n\<rparr>))"
  by pat_completeness auto
termination
  by (relation "measure (\<lambda>(_, _, p). length (pr_rx p))") (auto simp: peer_select_def split: if_splits list.splits)

declare peer_read.simps [simp del]

text \<open>\<open>write\<close>: an error when closed, a wait when the channel is full.\<close>

definition peer_write :: "bytes \<Rightarrow> peer \<Rightarrow> (unit, io_kind) res option \<times> peer" where
  "peer_write msg p =
     (if pr_closed p then (Some (Err (IoErr 32)), p)
      else if \<not> pr_out_open p then (Some (Err (IoErr 32)), p)
      else if length (pr_out p) < PEER_OUTGOING then (Some (Ok ()), p\<lparr>pr_out := pr_out p @ [msg]\<rparr>)
      else (None, p))"

section \<open>Catching a snowflake\<close>

text \<open>What the WebRTC stack and the broker answer, and what the wait for the data channel ends with.\<close>

datatype open_result = OpenSignal | OpenLost | OpenTimeout | OpenClosed

record catch_env =
  ce_offer :: "(bytes, string) res"
  ce_negotiate :: "bytes \<Rightarrow> nat_kind \<Rightarrow> (bytes, string) res"
  ce_start :: "bytes \<Rightarrow> (unit, string) res"
  ce_opened :: open_result

definition OPEN_MSG :: string where "OPEN_MSG = ''timeout waiting for DataChannel.OnOpen''"

text \<open>\<open>connect\<close>: the peer or the error, the events, the flag of the NAT policy, and the NAT type the
  broker was told, if it was asked.\<close>

definition peer_connect :: "catch_env \<Rightarrow> nat_kind \<Rightarrow> nat \<Rightarrow> bool \<Rightarrow> (peer, string) res \<times> sf_event list \<times> bool \<times> nat_kind option" where
  "peer_connect env actual now flag =
     (case ce_offer env of
        Err e \<Rightarrow> (Err e, [OfferCreated (Some e)], flag, None)
      | Panic \<Rightarrow> (Panic, [], flag, None)
      | Ok sdp \<Rightarrow>
          let to_send = nat_type_to_send flag actual; evs = [OfferCreated None]
          in (case ce_negotiate env sdp to_send of
                Err e \<Rightarrow> (Err e, evs @ [BrokerRendezvous (Some e)], flag, Some to_send)
              | Panic \<Rightarrow> (Panic, evs, flag, Some to_send)
              | Ok answer \<Rightarrow>
                  let evs = evs @ [BrokerRendezvous None]
                  in (case ce_start env answer of
                        Err e \<Rightarrow> (Err e, evs, flag, Some to_send)
                      | Panic \<Rightarrow> (Panic, evs, flag, Some to_send)
                      | Ok _ \<Rightarrow>
                          if ce_opened env = OpenSignal then (Ok (peer_received now (peer_new now evs)), evs, flag, Some to_send)
                          else (Err OPEN_MSG, evs @ [ConnectionFailed OPEN_MSG], nat_failure actual to_send flag, Some to_send))))"

text \<open>One round of \<open>check_for_staleness\<close>: whether the task is over.\<close>

definition stale_check :: "nat \<Rightarrow> nat \<Rightarrow> peer \<Rightarrow> bool \<times> peer" where
  "stale_check timeout now p =
     (if timeout < now - pr_last p then
        (True, peer_close (peer_emit (ConnectionFailed ''no messages received, closing stale connection'') p))
      else (pr_closed p, p))"

section \<open>The carrier\<close>

text \<open>A peer as the byte stream that \<open>PeerReader\<close> makes of it.\<close>

definition peer_source :: "peer \<Rightarrow> source" where
  "peer_source p =
     (if length (pr_buf p) \<le> pr_pos p then [] else [SrcData (drop (pr_pos p) (pr_buf p))]) @
     map SrcData (pr_rx p) @ (if pr_closed p \<or> \<not> pr_rx_open p then [SrcEof] else [])"

definition carrier_recv :: "nat \<Rightarrow> source \<Rightarrow> bytes io \<times> source" where
  "carrier_recv cap src =
     (case read_data cap src of
        (Done (Some bs), src) \<Rightarrow> (Done bs, src)
      | (Done None, src) \<Rightarrow> (Failed UnexpectedEof, src)
      | (Failed e, src) \<Rightarrow> (Failed e, src)
      | (Pending, src) \<Rightarrow> (Pending, src))"

definition carrier_send :: "bytes \<Rightarrow> peer \<Rightarrow> (unit, io_kind) res option \<times> peer" where
  "carrier_send pkt p =
     (case encode_data pkt of
        Ok msg \<Rightarrow> peer_write msg p
      | Err e \<Rightarrow> (Some (Err e), p)
      | Panic \<Rightarrow> (Some Panic, p))"

text \<open>What the dial of \<open>client.rs\<close> writes before a peer becomes a carrier.\<close>

definition dial_hello :: "bytes \<Rightarrow> peer \<Rightarrow> (unit, io_kind) res option \<times> peer" where
  "dial_hello client_id p =
     (case peer_write TOKEN p of
        (Some (Ok _), p) \<Rightarrow> peer_write client_id p
      | r \<Rightarrow> r)"

section \<open>A peer is a byte stream\<close>

definition read_io :: "bytes option \<Rightarrow> bytes io" where
  "read_io r = (case r of Some bs \<Rightarrow> Done bs | None \<Rightarrow> Pending)"

text \<open>C25: A snowflake refines a byte stream: whatever the sizes of the messages and of the reader's buffers, a
  read of a peer does what reading the stream of its messages does, and leaves the rest of that stream; only a closed
  peer may report the end while messages are left.\<close>
theorem peer_read_refines:
  "case peer_read k pick p of (r, p') \<Rightarrow>
     (pr_closed p \<and> r = Some []) \<or> src_read k (peer_source p) = (read_io r, peer_source p')"
proof (induction k pick p rule: peer_read.induct)
  case (1 k pick p)
  show ?case
  proof (cases "length (pr_buf p) \<le> pr_pos p")
    case False
    then show ?thesis
      by (auto simp: peer_read.simps [of k] Let_def slice_def peer_source_def read_io_def min_def add.commute split: if_splits)
  next
    case True
    show ?thesis
    proof (cases "pr_rx p")
      case Nil
      with True show ?thesis
        by (auto simp: peer_read.simps [of k] peer_select_def peer_source_def read_io_def split: if_splits)
    next
      case (Cons m q)
      show ?thesis
      proof (cases "pr_closed p \<and> pick (length (pr_rx p))")
        case False
        then have sel: "peer_select (pick (length (pr_rx p))) p = (Some (Some m), p\<lparr>pr_rx := q\<rparr>)"
          using Cons by (auto simp: peer_select_def)
        with True have "peer_read k pick p = peer_read k pick (p\<lparr>pr_rx := q, pr_buf := m, pr_pos := 0\<rparr>)"
          by (simp add: peer_read.simps [of k pick p])
        with "1.IH" [OF True sel [symmetric] refl refl] True Cons show ?thesis
          by (cases "m = []") (auto simp: peer_source_def split: prod.splits)
      qed (use True in \<open>simp add: peer_read.simps [of k] peer_select_def\<close>)
    qed
  qed
qed

section \<open>What a carrier delivers\<close>

fun carrier_sends :: "bytes list \<Rightarrow> peer \<Rightarrow> (unit, io_kind) res option \<times> peer" where
  "carrier_sends [] p = (Some (Ok ()), p)"
| "carrier_sends (pkt # pkts) p =
     (case carrier_send pkt p of (Some (Ok _), p) \<Rightarrow> carrier_sends pkts p | r \<Rightarrow> r)"

fun carrier_recvs :: "nat \<Rightarrow> nat \<Rightarrow> source \<Rightarrow> bytes list \<times> source" where
  "carrier_recvs cap 0 src = ([], src)"
| "carrier_recvs cap (Suc k) src =
     (case carrier_recv cap src of
        (Done b, src) \<Rightarrow> (case carrier_recvs cap k src of (l, src) \<Rightarrow> (b # l, src))
      | (_, src) \<Rightarrow> ([], src))"

lemma peer_write_ok:
  "peer_write msg p = (Some (Ok u), p') \<Longrightarrow> p' = p\<lparr>pr_out := pr_out p @ [msg]\<rparr>"
  by (auto simp: peer_write_def split: if_splits)

lemma carrier_recv_data:
  assumes "encode_data pkt = Ok w" and "src_flat src = (w @ rest, e)"
  obtains src' where "carrier_recv cap src = (Done (take cap pkt), src')" "src_flat src' = (rest, e)"
proof -
  from assms(1) obtain h where h: "data_prefix (length pkt) = Ok h" "w = h @ pkt"
    by (auto simp: encode_data_def elim!: map_ok.elims)
  with assms(2) have "src_flat src = (h @ pkt @ rest, e)" by simp
  from read_data_data [OF this data_prefix_header [OF h(1)], of cap] that show thesis by (auto simp: carrier_recv_def)
qed

lemma carrier_sends_received:
  assumes "carrier_sends pkts p = (Some (Ok u), p')"
  obtains msgs where "pr_out p' = pr_out p @ msgs"
    "\<And>src rest e. src_flat src = (concat msgs @ rest, e) \<Longrightarrow>
       \<exists>src'. carrier_recvs cap (length pkts) src = (map (take cap) pkts, src') \<and> src_flat src' = (rest, e)"
proof -
  from assms have "\<exists>msgs. pr_out p' = pr_out p @ msgs \<and> (\<forall>src rest e. src_flat src = (concat msgs @ rest, e) \<longrightarrow>
      (\<exists>src'. carrier_recvs cap (length pkts) src = (map (take cap) pkts, src') \<and> src_flat src' = (rest, e)))"
  proof (induction pkts arbitrary: p)
    case (Cons pkt pkts)
    then obtain w where w: "encode_data pkt = Ok w" "carrier_sends pkts (p\<lparr>pr_out := pr_out p @ [w]\<rparr>) = (Some (Ok u), p')"
      by (auto simp: carrier_send_def dest: peer_write_ok split: prod.splits option.splits res.splits)
    from Cons.IH [OF w(2)] obtain msgs where m: "pr_out p' = pr_out p @ w # msgs"
      "\<forall>src rest e. src_flat src = (concat msgs @ rest, e) \<longrightarrow>
        (\<exists>src'. carrier_recvs cap (length pkts) src = (map (take cap) pkts, src') \<and> src_flat src' = (rest, e))" by auto
    have "\<exists>src'. carrier_recvs cap (length (pkt # pkts)) src = (map (take cap) (pkt # pkts), src') \<and> src_flat src' = (rest, e)"
      if "src_flat src = (concat (w # msgs) @ rest, e)" for src rest e
    proof -
      from that have "src_flat src = (w @ concat msgs @ rest, e)" by simp
      then obtain s1 where s1: "carrier_recv cap src = (Done (take cap pkt), s1)" "src_flat s1 = (concat msgs @ rest, e)"
        by (rule carrier_recv_data [OF w(1)])
      with m(2) obtain s2 where "carrier_recvs cap (length pkts) s1 = (map (take cap) pkts, s2)" "src_flat s2 = (rest, e)" by blast
      with s1 show ?thesis by simp
    qed
    with m(1) show ?case by (intro exI [of _ "w # msgs"]) auto
  qed auto
  with that show thesis by blast
qed

text \<open>C26: What a dialled snowflake is sent is read back at the other end of its data channel, however the
  messages are cut: the token, the client's id, and then exactly the packets, each cut to the reader's buffer.\<close>
theorem carrier_delivers:
  assumes "pr_out p = []" and "dial_hello client_id p = (Some (Ok ()), p1)" and "carrier_sends pkts p1 = (Some (Ok ()), p2)"
    and "src_flat src = (concat (pr_out p2), e)"
  shows "\<exists>s1 s2 s3. read_exact 8 src = (Done TOKEN, s1) \<and> read_exact (length client_id) s1 = (Done client_id, s2) \<and>
    carrier_recvs cap (length pkts) s2 = (map (take cap) pkts, s3) \<and> src_flat s3 = ([], e)"
proof -
  from assms(1,2) have p1: "pr_out p1 = [TOKEN, client_id]"
    by (auto simp: dial_hello_def dest!: peer_write_ok split: prod.splits option.splits res.splits)
  from carrier_sends_received [OF assms(3)] p1 obtain msgs where m: "pr_out p2 = TOKEN # client_id # msgs"
    "\<And>src rest e. src_flat src = (concat msgs @ rest, e) \<Longrightarrow>
       \<exists>src'. carrier_recvs cap (length pkts) src = (map (take cap) pkts, src') \<and> src_flat src' = (rest, e)" by auto
  have len: "length TOKEN = 8" by (simp add: TOKEN_def)
  from assms(4) m(1) have "src_flat src = (TOKEN @ client_id @ concat msgs, e)" by simp
  then obtain s1 where s1: "read_exact (length TOKEN) src = (Done TOKEN, s1)" "src_flat s1 = (client_id @ concat msgs, e)"
    by (rule src.exact_append)
  from s1(2) obtain s2 where s2: "read_exact (length client_id) s1 = (Done client_id, s2)" "src_flat s2 = (concat msgs @ [], e)"
    by (rule src.exact_append) simp
  from m(2) [OF s2(2)] s1(1) s2(1) show ?thesis unfolding len by blast
qed

lemma carrier_delivers_witness:
  "\<exists>s1 s2 s3. read_exact 8 [SrcData (TOKEN @ [9]), SrcData [9, 9, 9, 9], SrcData [9, 9, 9, 0x82, 1], SrcData [2]] = (Done TOKEN, s1) \<and>
     read_exact (length (replicate 8 (9 :: u8))) s1 = (Done (replicate 8 9), s2) \<and>
     carrier_recvs 1500 (length [[1, 2 :: u8]]) s2 = (map (take 1500) [[1, 2]], s3) \<and> src_flat s3 = ([], StillOpen)"
proof (rule carrier_delivers)
  let ?p = "peer_new 0 []"
  show "pr_out ?p = []" by (simp add: peer_new_def)
  show "dial_hello (replicate 8 9) ?p = (Some (Ok ()), ?p\<lparr>pr_out := [TOKEN, replicate 8 9]\<rparr>)"
    by (simp add: dial_hello_def peer_write_def peer_new_def PEER_OUTGOING_def)
  show "carrier_sends [[1, 2]] (?p\<lparr>pr_out := [TOKEN, replicate 8 9]\<rparr>) = (Some (Ok ()), ?p\<lparr>pr_out := [TOKEN, replicate 8 9, [0x82, 1, 2]]\<rparr>)"
    by (simp add: carrier_send_def encode_data_def data_prefix_def peer_write_def peer_new_def PEER_OUTGOING_def)
qed (simp add: numeral_eq_Suc)

section \<open>Lifecycle\<close>

text \<open>A peer is closed as stale only when nothing arrived for the timeout, and is then closed.\<close>

lemma stale_check_iff: "fst (stale_check t now p) \<longleftrightarrow> pr_closed p \<or> t < now - pr_last p"
  and stale_check_closes: "pr_closed (snd (stale_check t now p)) \<longleftrightarrow> fst (stale_check t now p)"
  by (auto simp: stale_check_def peer_close_def peer_emit_def)

text \<open>Catching one snowflake after the other, each with what it is told and the actual type then.\<close>

fun catch_all :: "(catch_env \<times> nat_kind \<times> nat) list \<Rightarrow> bool \<Rightarrow> (nat_kind \<times> nat_kind option \<times> (peer, string) res) list" where
  "catch_all [] flag = []"
| "catch_all ((env, actual, now) # rest) flag =
     (case peer_connect env actual now flag of
        (r, _, flag, told) \<Rightarrow> (actual, told, r) # catch_all rest flag)"

lemma peer_connect_told: "peer_connect env actual now flag = (r, evs, flag', Some told) \<Longrightarrow> told = nat_type_to_send flag actual"
  by (auto simp: peer_connect_def Let_def split: res.splits if_splits)

lemma peer_connect_flag: "peer_connect env actual now flag = (r, evs, flag', told) \<Longrightarrow> flag \<Longrightarrow> flag'"
  by (auto simp: peer_connect_def nat_failure_def Let_def split: res.splits if_splits)

lemma peer_connect_fails_flag: "peer_connect env NatUnknown now flag = (Err OPEN_MSG, evs @ [ConnectionFailed OPEN_MSG], flag', told) \<Longrightarrow> flag'"
  by (cases flag) (auto simp: peer_connect_def nat_failure_def nat_type_to_send_def Let_def split: res.splits if_splits)

lemma catch_all_honest: "(actual, Some told, r) \<in> set (catch_all envs True) \<Longrightarrow> told = actual"
proof (induction envs)
  case (Cons e envs)
  obtain env a now where e: "e = (env, a, now)" by (cases e)
  obtain r' evs flag' told' where c: "peer_connect env a now True = (r', evs, flag', told')" by (metis surj_pair)
  with peer_connect_flag [OF c] have "flag'" by simp
  with Cons c e peer_connect_told [of env a now True r' evs flag' told] show ?case by (auto simp: nat_type_to_send_def)
qed simp

end
