(* ===== verification/Snowflakes.thy ===== *)
theory Snowflakes
  imports Peer
begin

text \<open>
  The pool of connected snowflakes of one session, \<open>Peers\<close> of
  \<open>src/transports/snowflake/domain/client.rs\<close>.  Collecting, taking out and ending run in tasks of their
  own; each rule of \<open>pool_step\<close> is what one of them does between two points where the
  others can run.  Snowflakes are numbered as they are caught.
\<close>

section \<open>The pool\<close>

text \<open>Where the one running \<open>collect\<close> is: not running, catching, with a snowflake just caught, or
  waiting to put it into the queue.\<close>

datatype collect_phase = NotCollecting | Catching | Caught nat | Handing nat

record pool =
  pl_max :: nat
  pl_queue :: "nat list"
  pl_active :: "nat list"
  pl_melted :: bool
  pl_phase :: collect_phase
  pl_next :: nat
  pl_closed :: "nat set"

definition pool_new :: "nat \<Rightarrow> pool" where
  "pool_new mx = \<lparr>pl_max = mx, pl_queue = [], pl_active = [], pl_melted = False, pl_phase = NotCollecting, pl_next = 0, pl_closed = {}\<rparr>"

definition pool_count :: "pool \<Rightarrow> nat \<times> pool" where
  "pool_count pl =
     (let act = filter (\<lambda>n. n \<notin> pl_closed pl) (pl_active pl) in (length act, pl\<lparr>pl_active := act\<rparr>))"

datatype collect_error = Melted | AtCapacity nat nat | CatchFailed string

definition collect_start :: "pool \<Rightarrow> collect_error option \<times> pool" where
  "collect_start pl =
     (if pl_melted pl then (Some Melted, pl)
      else case pool_count pl of
        (cnt, pl) \<Rightarrow>
          if pl_max pl \<le> cnt then (Some (AtCapacity cnt (pl_max pl)), pl)
          else (None, pl\<lparr>pl_phase := Catching\<rparr>))"

text \<open>\<open>catch\<close> came back with a new snowflake; it is recorded; it is put into the queue.\<close>

definition collect_caught :: "pool \<Rightarrow> pool" where
  "collect_caught pl = pl\<lparr>pl_phase := Caught (pl_next pl), pl_next := pl_next pl + 1\<rparr>"

definition collect_push :: "nat \<Rightarrow> pool \<Rightarrow> pool" where
  "collect_push n pl = pl\<lparr>pl_active := pl_active pl @ [n], pl_phase := Handing n\<rparr>"

definition collect_send :: "nat \<Rightarrow> pool \<Rightarrow> pool option" where
  "collect_send n pl =
     (if length (pl_queue pl) < pl_max pl then Some (pl\<lparr>pl_queue := pl_queue pl @ [n], pl_phase := NotCollecting\<rparr>) else None)"

definition collect_melted :: "pool \<Rightarrow> pool" where
  "collect_melted pl =
     (case pl_phase pl of
        Handing n \<Rightarrow> pl\<lparr>pl_closed := insert n (pl_closed pl), pl_phase := NotCollecting\<rparr>
      | _ \<Rightarrow> pl\<lparr>pl_phase := NotCollecting\<rparr>)"

definition pool_end :: "pool \<Rightarrow> pool" where
  "pool_end pl =
     (if pl_melted pl then pl
      else pl\<lparr>pl_melted := True, pl_closed := pl_closed pl \<union> set (pl_active pl), pl_active := []\<rparr>)"

datatype pool_event = Collected nat | CollectErr collect_error | Popped nat | PopNone | PeerGone nat | PoolEnd | PoolTau

text \<open>\<open>select!\<close> takes any branch that is ready, so a snowflake may be caught or handed on although the
  pool has melted.\<close>

inductive pool_step :: "pool \<Rightarrow> pool_event \<Rightarrow> pool \<Rightarrow> bool" where
  collect_err: "pl_phase pl = NotCollecting \<Longrightarrow> collect_start pl = (Some e, pl') \<Longrightarrow> pool_step pl (CollectErr e) pl'"
| collect: "pl_phase pl = NotCollecting \<Longrightarrow> collect_start pl = (None, pl') \<Longrightarrow> pool_step pl PoolTau pl'"
| caught: "pl_phase pl = Catching \<Longrightarrow> pool_step pl PoolTau (collect_caught pl)"
| catch_failed: "pl_phase pl = Catching \<Longrightarrow> pool_step pl (CollectErr (CatchFailed e)) (pl\<lparr>pl_phase := NotCollecting\<rparr>)"
| catch_melted: "pl_phase pl = Catching \<Longrightarrow> pl_melted pl \<Longrightarrow> pool_step pl (CollectErr Melted) (collect_melted pl)"
| push: "pl_phase pl = Caught n \<Longrightarrow> pool_step pl PoolTau (collect_push n pl)"
| hand: "pl_phase pl = Handing n \<Longrightarrow> collect_send n pl = Some pl' \<Longrightarrow> pool_step pl (Collected n) pl'"
| hand_melted: "pl_phase pl = Handing n \<Longrightarrow> pl_melted pl \<Longrightarrow> pool_step pl (CollectErr Melted) (collect_melted pl)"
| pop_skip: "pl_queue pl = n # q \<Longrightarrow> n \<in> pl_closed pl \<Longrightarrow> pool_step pl PoolTau (pl\<lparr>pl_queue := q\<rparr>)"
| pop: "pl_queue pl = n # q \<Longrightarrow> n \<notin> pl_closed pl \<Longrightarrow> pool_step pl (Popped n) (pl\<lparr>pl_queue := q\<rparr>)"
| pop_melted: "pl_melted pl \<Longrightarrow> pool_step pl PopNone pl"
| peer_gone: "n < pl_next pl \<Longrightarrow> pool_step pl (PeerGone n) (pl\<lparr>pl_closed := insert n (pl_closed pl)\<rparr>)"
| ended: "pool_step pl PoolEnd (pool_end pl)"

inductive pool_run :: "pool \<Rightarrow> pool_event list \<Rightarrow> pool \<Rightarrow> bool" where
  run_start: "pool_run pl [] pl"
| run_more: "pool_run pl evs pl' \<Longrightarrow> pool_step pl' ev pl'' \<Longrightarrow> pool_run pl (evs @ [ev]) pl''"

inductive_cases pool_stepE: "pool_step pl ev pl'"

text \<open>The pool of a client: \<open>max\<close> of its configuration, at least one, and at most half of many ICE servers.\<close>

definition client_max :: "int \<Rightarrow> nat" where "client_max m = nat (max m 1)"

definition ice_subset :: "'a list \<Rightarrow> 'a list" where
  "ice_subset servers = (if 2 < length servers then take ((length servers + 1) div 2) servers else servers)"

section \<open>What the tunnel's stream makes of reads and writes\<close>

definition conn_read :: "(bytes, io_kind) res \<Rightarrow> (bytes, io_kind) res" where
  "conn_read r = (if r = Err UnexpectedEof then Ok [] else r)"

text \<open>The loop of \<open>write_all\<close> over what each \<open>write\<close> reports, and the bytes each call was given.\<close>

fun conn_write_all :: "(nat, io_kind) res list \<Rightarrow> bytes \<Rightarrow> (unit, io_kind) res option \<times> bytes list" where
  "conn_write_all [] buf = (if buf = [] then Some (Ok ()) else None, [])"
| "conn_write_all (r # rs) buf =
     (if buf = [] then (Some (Ok ()), [])
      else case r of
        Ok n \<Rightarrow>
          if n = 0 then (Some (Err (IoErr 0)), [buf])
          else if length buf < n then (Some Panic, [buf])
          else (case conn_write_all rs (drop n buf) of (x, calls) \<Rightarrow> (x, buf # calls))
      | Err e \<Rightarrow> (Some (Err e), [buf])
      | Panic \<Rightarrow> (Some Panic, [buf]))"

section \<open>The invariant\<close>

definition open_peers :: "pool \<Rightarrow> nat set" where
  "open_peers pl = {n. n < pl_next pl \<and> n \<notin> pl_closed pl}"

definition popped :: "pool_event list \<Rightarrow> nat list" where
  "popped evs = concat (map (\<lambda>ev. case ev of Popped n \<Rightarrow> [n] | _ \<Rightarrow> []) evs)"

definition waiting :: "pool \<Rightarrow> nat list" where
  "waiting pl = (case pl_phase pl of Caught n \<Rightarrow> [n] | Handing n \<Rightarrow> [n] | _ \<Rightarrow> [])"

text \<open>How many more snowflakes the phase still allows.\<close>

definition room :: "pool \<Rightarrow> nat" where
  "room pl = (case pl_phase pl of Catching \<Rightarrow> 1 | _ \<Rightarrow> 0)"

definition pool_inv :: "pool_event list \<Rightarrow> pool \<Rightarrow> bool" where
  "pool_inv evs pl \<longleftrightarrow>
     (\<forall>n \<in> open_peers pl. n \<in> set (pl_active pl) \<or> pl_phase pl = Caught n) \<and>
     card (open_peers pl) + room pl \<le> (if pl_melted pl then 1 else pl_max pl) \<and>
     length (pl_queue pl) \<le> pl_max pl \<and>
     distinct (popped evs @ pl_queue pl @ waiting pl) \<and> set (popped evs @ pl_queue pl @ waiting pl) \<subseteq> {..< pl_next pl} \<and>
     set (pl_active pl) \<subseteq> {..< pl_next pl} \<and>
     (\<forall>n. pl_phase pl = Handing n \<and> n \<notin> pl_closed pl \<longrightarrow> n \<in> set (pl_active pl)) \<and> 0 < pl_max pl"

lemma popped_simps [simp]:
  "popped [] = []" "popped (evs @ [Popped n]) = popped evs @ [n]" "popped (evs @ [Collected n]) = popped evs"
  "popped (evs @ [CollectErr e]) = popped evs" "popped (evs @ [PopNone]) = popped evs" "popped (evs @ [PeerGone n]) = popped evs"
  "popped (evs @ [PoolEnd]) = popped evs" "popped (evs @ [PoolTau]) = popped evs"
  by (simp_all add: popped_def)

lemma finite_open [simp]: "finite (open_peers pl)" by (simp add: open_peers_def)

lemma open_peers_closed_mono:
  "pl_next pl' = pl_next pl \<Longrightarrow> pl_closed pl \<subseteq> pl_closed pl' \<Longrightarrow> open_peers pl' \<subseteq> open_peers pl"
  by (auto simp: open_peers_def)

lemma pool_invD:
  assumes "pool_inv evs pl"
  shows "\<And>n. n \<in> open_peers pl \<Longrightarrow> n \<in> set (pl_active pl) \<or> pl_phase pl = Caught n"
    "card (open_peers pl) + room pl \<le> (if pl_melted pl then 1 else pl_max pl)"
    "length (pl_queue pl) \<le> pl_max pl" "distinct (popped evs @ pl_queue pl @ waiting pl)"
    "set (popped evs @ pl_queue pl @ waiting pl) \<subseteq> {..< pl_next pl}" "set (pl_active pl) \<subseteq> {..< pl_next pl}"
    "\<And>n. pl_phase pl = Handing n \<Longrightarrow> n \<notin> pl_closed pl \<Longrightarrow> n \<in> set (pl_active pl)" "0 < pl_max pl"
  using assms by (auto simp: pool_inv_def)

lemma pool_invI:
  assumes "\<And>n. n \<in> open_peers pl \<Longrightarrow> n \<in> set (pl_active pl) \<or> pl_phase pl = Caught n"
    and "card (open_peers pl) + room pl \<le> (if pl_melted pl then 1 else pl_max pl)"
    and "length (pl_queue pl) \<le> pl_max pl" and "distinct (popped evs @ pl_queue pl @ waiting pl)"
    and "set (popped evs @ pl_queue pl @ waiting pl) \<subseteq> {..< pl_next pl}" and "set (pl_active pl) \<subseteq> {..< pl_next pl}"
    and "\<And>n. pl_phase pl = Handing n \<Longrightarrow> n \<notin> pl_closed pl \<Longrightarrow> n \<in> set (pl_active pl)" and "0 < pl_max pl"
  shows "pool_inv evs pl"
  using assms by (auto simp: pool_inv_def)

text \<open>Closing more snowflakes and leaving the phase keeps the invariant.\<close>

lemma collect_start_inv:
  assumes inv: "pool_inv evs pl" and "pl_phase pl = NotCollecting" and c: "collect_start pl = (r, pl')"
  shows "pool_inv evs pl'"
proof -
  let ?act = "filter (\<lambda>n. n \<notin> pl_closed pl) (pl_active pl)"
  note d = pool_invD [OF inv]
  have sub: "open_peers pl \<subseteq> set ?act" using d(1) assms(2) by (fastforce simp: open_peers_def)
  consider "pl_melted pl" "pl' = pl"
    | "\<not> pl_melted pl" "pl' = pl\<lparr>pl_active := ?act\<rparr>"
    | "\<not> pl_melted pl" "length ?act < pl_max pl" "pl' = pl\<lparr>pl_active := ?act, pl_phase := Catching\<rparr>"
    using c by (auto simp: collect_start_def pool_count_def Let_def split: if_splits)
  then show ?thesis
  proof cases
    case 2
    show ?thesis
      by (rule pool_invI) (use d assms(2) sub in \<open>auto simp: 2 open_peers_def room_def waiting_def\<close>)
  next
    case 3
    have "card (open_peers pl) \<le> length ?act" using card_mono [OF _ sub] card_length [of ?act] by simp
    with 3(2) have "card (open_peers pl) + 1 \<le> pl_max pl" by simp
    then show ?thesis
      by (intro pool_invI) (use d assms(2) sub 3(1) in \<open>auto simp: 3(3) open_peers_def room_def waiting_def\<close>)
  qed (use inv in simp)
qed

lemma collect_caught_inv:
  assumes inv: "pool_inv evs pl" and "pl_phase pl = Catching"
  shows "pool_inv evs (collect_caught pl)"
proof -
  note d = pool_invD [OF inv]
  have "open_peers (collect_caught pl) \<subseteq> insert (pl_next pl) (open_peers pl)" by (auto simp: open_peers_def collect_caught_def)
  then have "card (open_peers (collect_caught pl)) \<le> card (insert (pl_next pl) (open_peers pl))" by (simp add: card_mono)
  then have "card (open_peers (collect_caught pl)) \<le> Suc (card (open_peers pl))" by (simp add: card_insert_if split: if_splits)
  moreover have "card (open_peers pl) + 1 \<le> (if pl_melted pl then 1 else pl_max pl)" using d(2) assms(2) by (simp add: room_def)
  moreover have "n \<in> set (pl_active pl) \<or> n = pl_next pl" if "n \<in> open_peers (collect_caught pl)" for n
    using that d(1) [of n] assms(2) by (auto simp: open_peers_def collect_caught_def)
  moreover have "distinct (popped evs @ pl_queue pl @ [pl_next pl])"
    and "set (popped evs @ pl_queue pl @ [pl_next pl]) \<subseteq> {..< Suc (pl_next pl)}"
    using d(4,5) assms(2) by (auto simp: waiting_def)
  moreover have "set (pl_active pl) \<subseteq> {..< Suc (pl_next pl)}" using d(6) by auto
  ultimately show ?thesis
    using d(3,8) by (intro pool_invI) (auto simp: collect_caught_def room_def waiting_def split: if_splits)
qed

lemma close_inv:
  assumes inv: "pool_inv evs pl" and "pl_closed pl \<subseteq> C"
  shows "pool_inv evs (pl\<lparr>pl_closed := C\<rparr>)"
proof -
  note d = pool_invD [OF inv]
  have sub: "open_peers (pl\<lparr>pl_closed := C\<rparr>) \<subseteq> open_peers pl" using assms(2) by (intro open_peers_closed_mono) auto
  then have "card (open_peers (pl\<lparr>pl_closed := C\<rparr>)) \<le> card (open_peers pl)" by (simp add: card_mono)
  then show ?thesis
    by (intro pool_invI) (use d assms(2) sub in \<open>auto simp: room_def waiting_def split: collect_phase.splits\<close>)
qed

lemma to_idle_inv:
  assumes inv: "pool_inv evs pl" and "\<forall>n. pl_phase pl \<noteq> Caught n" and q: "q = pl_queue pl \<or> q = pl_queue pl @ waiting pl \<and> length q \<le> pl_max pl"
  shows "pool_inv evs (pl\<lparr>pl_queue := q, pl_phase := NotCollecting\<rparr>)"
proof -
  note d = pool_invD [OF inv]
  have "open_peers (pl\<lparr>pl_queue := q, pl_phase := NotCollecting\<rparr>) = open_peers pl" by (simp add: open_peers_def)
  with d assms(2) show ?thesis
    by (intro pool_invI) (use q in \<open>auto simp: room_def waiting_def\<close>)
qed

lemma pool_end_inv:
  assumes inv: "pool_inv evs pl"
  shows "pool_inv evs (pool_end pl)"
proof (cases "pl_melted pl")
  case False
  note d = pool_invD [OF inv]
  have sub: "open_peers (pool_end pl) \<subseteq> (case pl_phase pl of Caught n \<Rightarrow> {n} | _ \<Rightarrow> {})"
    using d(1) False by (fastforce simp: open_peers_def pool_end_def split: collect_phase.splits)
  then have card: "card (open_peers (pool_end pl)) + room (pool_end pl) \<le> 1"
    using False card_mono [OF _ sub] by (auto simp: room_def pool_end_def split: collect_phase.splits)
  have ph: "n \<in> open_peers (pool_end pl) \<Longrightarrow> pl_phase pl = Caught n" for n
    using sub by (auto split: collect_phase.splits)
  show ?thesis
    by (rule pool_invI) (use d card ph False in \<open>auto simp: pool_end_def waiting_def split: collect_phase.splits\<close>)
qed (use inv in \<open>simp add: pool_end_def\<close>)

lemma pool_inv_same: "pool_inv evs pl \<Longrightarrow> popped evs' = popped evs \<Longrightarrow> pool_inv evs' pl"
  by (simp add: pool_inv_def)

lemma pool_inv_step:
  assumes "pool_step pl ev pl'" and inv: "pool_inv evs pl"
  shows "pool_inv (evs @ [ev]) pl'"
  using assms(1)
proof cases
  case (collect_err e)
  then show ?thesis using collect_start_inv [OF inv] by (auto intro: pool_inv_same)
next
  case collect
  then show ?thesis using collect_start_inv [OF inv] by (auto intro: pool_inv_same)
next
  case caught
  then show ?thesis using collect_caught_inv [OF inv] by (auto intro: pool_inv_same)
next
  case (catch_failed e)
  then show ?thesis using to_idle_inv [OF inv, of "pl_queue pl"] by (auto intro: pool_inv_same)
next
  case catch_melted
  then show ?thesis using to_idle_inv [OF inv, of "pl_queue pl"] by (auto simp: collect_melted_def intro: pool_inv_same)
next
  case (push n)
  have "pool_inv evs (collect_push n pl)"
    using pool_invD [OF inv] push(3) by (intro pool_invI) (auto simp: collect_push_def open_peers_def room_def waiting_def)
  then show ?thesis using push by (auto intro: pool_inv_same)
next
  case (hand n)
  then show ?thesis using to_idle_inv [OF inv, of "pl_queue pl @ [n]"]
    by (auto simp: collect_send_def waiting_def intro: pool_inv_same split: if_splits)
next
  case (hand_melted n)
  have "pool_inv evs (pl\<lparr>pl_closed := insert n (pl_closed pl)\<rparr>)" by (rule close_inv [OF inv]) auto
  from to_idle_inv [OF this, of "pl_queue pl"] hand_melted show ?thesis
    by (auto simp: collect_melted_def intro: pool_inv_same)
next
  case (pop_skip n q)
  then show ?thesis using pool_invD [OF inv]
    by (intro pool_invI) (auto simp: open_peers_def room_def waiting_def)
next
  case (pop n q)
  then show ?thesis using pool_invD [OF inv]
    by (intro pool_invI) (auto simp: open_peers_def room_def waiting_def)
next
  case (peer_gone n)
  then show ?thesis using close_inv [OF inv, of "insert n (pl_closed pl)", OF subset_insertI] by (auto intro: pool_inv_same)
next
  case ended
  then show ?thesis using pool_end_inv [OF inv] by (auto intro: pool_inv_same)
qed (use inv in \<open>auto intro: pool_inv_same\<close>)

lemma pool_run_inv: "pool_run pl evs pl' \<Longrightarrow> pool_inv [] pl \<Longrightarrow> pool_inv evs pl'"
  by (induction rule: pool_run.induct) (auto intro: pool_inv_step)

lemma pool_new_inv: "0 < mx \<Longrightarrow> pool_inv [] (pool_new mx)"
  by (simp add: pool_inv_def pool_new_def open_peers_def room_def waiting_def)

text \<open>C29: Whatever the tasks of a session do and in whatever order, no more than the configured number of
  snowflakes are open at a time, none is handed out twice, and once the pool has melted at most one is left: the one
  that was being caught.\<close>
theorem pool_bounded:
  assumes "pool_run (pool_new (client_max m)) evs pl"
  shows "card (open_peers pl) \<le> client_max m \<and> distinct (popped evs) \<and> (pl_melted pl \<longrightarrow> card (open_peers pl) \<le> 1)"
proof -
  have "0 < client_max m" by (simp add: client_max_def)
  then have inv: "pool_inv evs pl" using pool_run_inv [OF assms pool_new_inv] by simp
  have "pl_max pl = client_max m"
    using assms by (induction "pool_new (client_max m)" evs pl rule: pool_run.induct)
      (auto simp: pool_new_def collect_start_def pool_count_def collect_caught_def collect_push_def collect_send_def
        collect_melted_def pool_end_def Let_def elim!: pool_stepE split: if_splits prod.splits collect_phase.splits)
  with pool_invD [OF inv] \<open>0 < client_max m\<close> show ?thesis by (auto split: if_splits)
qed

text \<open>A pool that has melted while a snowflake was being caught: it is recorded and handed on, open.\<close>

definition late_snowflake :: pool where
  "late_snowflake = \<lparr>pl_max = 1, pl_queue = [0], pl_active = [0], pl_melted = True, pl_phase = NotCollecting, pl_next = 1, pl_closed = {}\<rparr>"

lemma late_snowflake_run: "pool_run (pool_new 1) [PoolTau, PoolTau, PoolEnd, PoolTau, Collected 0] late_snowflake"
proof -
  let ?p = "pool_new 1"
  have 1: "pool_run ?p ([] @ [PoolTau]) (?p\<lparr>pl_phase := Catching\<rparr>)"
    by (rule run_more [OF run_start], rule pool_step.collect) (simp_all add: pool_new_def collect_start_def pool_count_def)
  have 2: "pool_run ?p (([] @ [PoolTau]) @ [PoolTau]) (collect_caught (?p\<lparr>pl_phase := Catching\<rparr>))"
    by (rule run_more [OF 1], rule pool_step.caught) simp
  have 3: "pool_run ?p ((([] @ [PoolTau]) @ [PoolTau]) @ [PoolEnd]) (pool_end (collect_caught (?p\<lparr>pl_phase := Catching\<rparr>)))"
    by (rule run_more [OF 2], rule pool_step.ended)
  let ?e = "pool_end (collect_caught (?p\<lparr>pl_phase := Catching\<rparr>))"
  have 4: "pool_run ?p (((([] @ [PoolTau]) @ [PoolTau]) @ [PoolEnd]) @ [PoolTau]) (collect_push 0 ?e)"
    by (rule run_more [OF 3], rule pool_step.push) (simp add: pool_end_def collect_caught_def pool_new_def)
  have 5: "pool_run ?p ((((([] @ [PoolTau]) @ [PoolTau]) @ [PoolEnd]) @ [PoolTau]) @ [Collected 0]) late_snowflake"
    by (rule run_more [OF 4], rule pool_step.hand)
      (simp_all add: collect_push_def collect_send_def pool_end_def collect_caught_def pool_new_def late_snowflake_def)
  then show ?thesis by simp
qed

lemma melted_idle_step:
  assumes "pool_step pl ev pl'" and "pl_melted pl" "pl_phase pl = NotCollecting" "\<forall>n. ev \<noteq> PeerGone n"
  shows "pl_melted pl' \<and> pl_phase pl' = NotCollecting \<and> pl_closed pl' = pl_closed pl \<and> pl_next pl' = pl_next pl"
  using assms by cases (auto simp: collect_start_def pool_end_def)

text \<open>The end of a session can leave a snowflake open: one caught while the pool melts is handed on as
  usual, and nothing the pool does afterwards closes it; only its own end does.\<close>
theorem late_snowflake_stays_open:
  assumes "pool_run late_snowflake evs pl" and "\<forall>n. PeerGone n \<notin> set evs"
  shows "pool_run (pool_new 1) [PoolTau, PoolTau, PoolEnd, PoolTau, Collected 0] late_snowflake \<and> pl_melted pl \<and> 0 \<in> open_peers pl"
proof -
  have "pl_melted pl \<and> pl_phase pl = NotCollecting \<and> pl_closed pl = {} \<and> pl_next pl = 1"
    using assms
  proof (induction late_snowflake evs pl rule: pool_run.induct)
    case (run_more evs pl' ev pl'')
    then show ?case using melted_idle_step [of pl' ev pl''] by auto
  qed (simp add: late_snowflake_def)
  with late_snowflake_run show ?thesis by (simp add: open_peers_def)
qed

lemma late_snowflake_stays_open_witness:
  "pool_run (pool_new 1) [PoolTau, PoolTau, PoolEnd, PoolTau, Collected 0] late_snowflake \<and>
     pl_melted late_snowflake \<and> 0 \<in> open_peers late_snowflake"
  by (rule late_snowflake_stays_open [of "[]"]) (auto intro: run_start)

lemma pool_bounded_witness:
  "card (open_peers late_snowflake) \<le> client_max 0 \<and> distinct (popped [PoolTau, PoolTau, PoolEnd, PoolTau, Collected 0]) \<and>
     card (open_peers late_snowflake) \<le> 1"
proof -
  have r: "pool_run (pool_new (client_max 0)) [PoolTau, PoolTau, PoolEnd, PoolTau, Collected 0] late_snowflake"
    using late_snowflake_run by (simp add: client_max_def)
  have "pl_melted late_snowflake" by (simp add: late_snowflake_def)
  with pool_bounded [OF r] show ?thesis by blast
qed

end
