(* ===== verification/NetAddr.thy ===== *)
theory NetAddr
  imports Stun Socks5
begin

text \<open>
  Addresses in text: the IP address parsers of the Rust standard library
  (\<open>core::net::parser\<close>), which the configuration code and the log scrubber rely on, and
  \<open>src/shared/domain/pt/addr.rs\<close>, which splits and resolves what tor passes.
\<close>

section \<open>The standard library's parsers\<close>

text \<open>A parser takes a prefix of its input or nothing.\<close>

fun read_digits :: "nat \<Rightarrow> nat option \<Rightarrow> nat \<Rightarrow> nat \<Rightarrow> nat \<Rightarrow> bytes \<Rightarrow> (nat \<times> nat \<times> bytes) option" where
  "read_digits radix lim mx count acc [] = Some (acc, count, [])"
| "read_digits radix lim mx count acc (c # s) =
     (case digit_value radix c of
        None \<Rightarrow> Some (acc, count, c # s)
      | Some d \<Rightarrow>
          if mx < acc * radix + d \<or> (case lim of Some l \<Rightarrow> l < count + 1 | None \<Rightarrow> False) then None
          else read_digits radix lim mx (count + 1) (acc * radix + d) s)"

definition read_number :: "nat \<Rightarrow> nat option \<Rightarrow> bool \<Rightarrow> nat \<Rightarrow> bytes \<Rightarrow> (nat \<times> bytes) option" where
  "read_number radix lim zero_prefix mx s =
     (case read_digits radix lim mx 0 0 s of
        None \<Rightarrow> None
      | Some (v, count, r) \<Rightarrow>
          if count = 0 \<or> (\<not> zero_prefix \<and> take 1 s = [48] \<and> 1 < count) then None else Some (v, r))"

definition read_char :: "u8 \<Rightarrow> bytes \<Rightarrow> bytes option" where
  "read_char c s = (case s of x # r \<Rightarrow> if x = c then Some r else None | [] \<Rightarrow> None)"

definition read_separated :: "u8 \<Rightarrow> nat \<Rightarrow> (bytes \<Rightarrow> ('a \<times> bytes) option) \<Rightarrow> bytes \<Rightarrow> ('a \<times> bytes) option" where
  "read_separated sep i inner s =
     (if 0 < i then (case read_char sep s of None \<Rightarrow> None | Some r \<Rightarrow> inner r) else inner s)"

definition read_octet :: "bytes \<Rightarrow> (nat \<times> bytes) option" where
  "read_octet = read_number 10 (Some 3) False 255"

fun read_octets :: "nat \<Rightarrow> nat \<Rightarrow> bytes \<Rightarrow> (bytes \<times> bytes) option" where
  "read_octets 0 i s = Some ([], s)"
| "read_octets (Suc k) i s =
     (case read_separated 46 i read_octet s of
        None \<Rightarrow> None
      | Some (v, r) \<Rightarrow> (case read_octets k (i + 1) r of None \<Rightarrow> None | Some (vs, r) \<Rightarrow> Some (word_of_nat v # vs, r)))"

definition read_ipv4 :: "bytes \<Rightarrow> (bytes \<times> bytes) option" where "read_ipv4 s = read_octets 4 0 s"

text \<open>Groups from the \<open>i\<close>th on, and whether they end with an IPv4 address.\<close>

function read_groups :: "nat \<Rightarrow> nat \<Rightarrow> bytes \<Rightarrow> nat list \<times> bool \<times> bytes" where
  "read_groups limit i s =
     (if limit \<le> i then ([], False, s)
      else case (if i < limit - 1 then read_separated 58 i read_ipv4 s else None) of
        Some (b, r) \<Rightarrow> ([unat (be_u16 (take 2 b)), unat (be_u16 (drop 2 b))], True, r)
      | None \<Rightarrow>
          (case read_separated 58 i (read_number 16 (Some 4) True 65535) s of
             None \<Rightarrow> ([], False, s)
           | Some (g, r) \<Rightarrow> (case read_groups limit (i + 1) r of (gs, v4, r) \<Rightarrow> (g # gs, v4, r))))"
  by pat_completeness auto
termination by (relation "measure (\<lambda>(limit, i, _). limit - i)") auto

declare read_groups.simps [simp del]

definition group_bytes :: "nat list \<Rightarrow> bytes" where
  "group_bytes gs = concat (map (\<lambda>g. u16_be (word_of_nat g)) gs)"

definition read_ipv6 :: "bytes \<Rightarrow> (bytes \<times> bytes) option" where
  "read_ipv6 s =
     (case read_groups 8 0 s of
        (front, v4, r) \<Rightarrow>
          if length front = 8 then Some (group_bytes front, r)
          else if v4 then None
          else case read_char 58 r of None \<Rightarrow> None | Some r \<Rightarrow>
               (case read_char 58 r of None \<Rightarrow> None | Some r \<Rightarrow>
                 (case read_groups (8 - (length front + 1)) 0 r of
                    (back, _, r) \<Rightarrow> Some (group_bytes (front @ replicate (8 - length back - length front) 0 @ back), r))))"

definition read_port :: "bytes \<Rightarrow> (nat \<times> bytes) option" where
  "read_port s = (case read_char 58 s of None \<Rightarrow> None | Some r \<Rightarrow> read_number 10 None True 65535 r)"

definition all_read :: "('a \<times> bytes) option \<Rightarrow> 'a option" where
  "all_read r = (case r of Some (v, []) \<Rightarrow> Some v | _ \<Rightarrow> None)"

definition parse_ipv4 :: "bytes \<Rightarrow> ip_addr option" where
  "parse_ipv4 s = (if 15 < length s then None else map_option IpV4 (all_read (read_ipv4 s)))"

definition parse_ip :: "bytes \<Rightarrow> ip_addr option" where
  "parse_ip s =
     (case read_ipv4 s of
        Some r \<Rightarrow> map_option IpV4 (all_read (Some r))
      | None \<Rightarrow> map_option IpV6 (all_read (read_ipv6 s)))"

text \<open>A scope id may follow the IPv6 address of a socket address; it is not kept here.\<close>

definition read_socket_v4 :: "bytes \<Rightarrow> (socket_addr \<times> bytes) option" where
  "read_socket_v4 s =
     (case read_ipv4 s of None \<Rightarrow> None | Some (b, r) \<Rightarrow>
      (case read_port r of None \<Rightarrow> None | Some (p, r) \<Rightarrow> Some ((IpV4 b, word_of_nat p), r)))"

definition skip_scope :: "bytes \<Rightarrow> bytes" where
  "skip_scope s =
     (case read_char 37 s of None \<Rightarrow> s
      | Some r \<Rightarrow> (case read_number 10 None True 4294967295 r of None \<Rightarrow> s | Some (_, r) \<Rightarrow> r))"

definition read_socket_v6 :: "bytes \<Rightarrow> (socket_addr \<times> bytes) option" where
  "read_socket_v6 s =
     (case read_char 91 s of None \<Rightarrow> None | Some r \<Rightarrow>
      (case read_ipv6 r of None \<Rightarrow> None | Some (b, r) \<Rightarrow>
       (case read_char 93 (skip_scope r) of None \<Rightarrow> None | Some r \<Rightarrow>
        (case read_port r of None \<Rightarrow> None | Some (p, r) \<Rightarrow> Some ((IpV6 b, word_of_nat p), r)))))"

definition parse_socket_addr :: "bytes \<Rightarrow> socket_addr option" where
  "parse_socket_addr s =
     all_read (case read_socket_v4 s of Some r \<Rightarrow> Some r | None \<Rightarrow> read_socket_v6 s)"

text \<open>\<open>Display\<close>.\<close>

definition show_ip6 :: "bytes \<Rightarrow> bytes" where
  "show_ip6 b = (case ipv4_mapped b of Some v4 \<Rightarrow> ascii ''::ffff:'' @ show_ipv4 v4 | None \<Rightarrow> show_ipv6 b)"

definition show_socket_addr :: "socket_addr \<Rightarrow> bytes" where
  "show_socket_addr a =
     (case a of (ip, port) \<Rightarrow>
        (case ip of IpV4 b \<Rightarrow> show_ipv4 b | IpV6 b \<Rightarrow> [91] @ show_ip6 b @ [93]) @ [58] @ ascii (dec_nat (unat port)))"

section \<open>addr.rs\<close>

datatype addr_error = MissingPort bytes | MissingBracket bytes | TooManyColons bytes | UnexpectedOpen bytes | UnexpectedClose bytes
  | NoHost bytes | NoPort bytes | NotAnIp bytes | BadPort bytes

fun find_last :: "u8 \<Rightarrow> bytes \<Rightarrow> nat option" where
  "find_last c [] = None"
| "find_last c (x # xs) =
     (case find_last c xs of Some i \<Rightarrow> Some (Suc i) | None \<Rightarrow> if x = c then Some 0 else None)"

fun find_first :: "u8 \<Rightarrow> bytes \<Rightarrow> nat option" where
  "find_first c [] = None"
| "find_first c (x # xs) = (if x = c then Some 0 else map_option Suc (find_first c xs))"

definition split_tail :: "bytes \<Rightarrow> nat \<Rightarrow> bytes \<Rightarrow> nat \<Rightarrow> nat \<Rightarrow> (bytes \<times> bytes, addr_error) res" where
  "split_tail s i host j k =
     (if 91 \<in> set (drop j s) then Err (UnexpectedOpen s)
      else if 93 \<in> set (drop k s) then Err (UnexpectedClose s)
      else Ok (host, drop (i + 1) s))"

definition split_host_port :: "bytes \<Rightarrow> (bytes \<times> bytes, addr_error) res" where
  "split_host_port s =
     (case find_last 58 s of
        None \<Rightarrow> Err (MissingPort s)
      | Some i \<Rightarrow>
          if take 1 s = [91] then
            (case find_first 93 s of
               None \<Rightarrow> Err (MissingBracket s)
             | Some e \<Rightarrow>
                 if e + 1 = length s then Err (MissingPort s)
                 else if e + 1 \<noteq> i then
                   (if s ! (e + 1) = 58 then Err (TooManyColons s) else Err (MissingPort s))
                 else split_tail s i (slice 1 e s) 1 (e + 1))
          else if 58 \<in> set (take i s) then Err (TooManyColons s)
          else split_tail s i (take i s) 0 0)"

definition resolve_parts :: "bytes \<Rightarrow> bytes \<times> bytes \<Rightarrow> (socket_addr, addr_error) res" where
  "resolve_parts addr hp =
     (case hp of (ip, port) \<Rightarrow>
        if ip = [] then Err (NoHost addr)
        else if port = [] then Err (NoPort addr)
        else case parse_ip ip of
          None \<Rightarrow> Err (NotAnIp ip)
        | Some a \<Rightarrow>
            (case parse_unsigned 10 65535 port of
               None \<Rightarrow> Err (BadPort port)
             | Some p \<Rightarrow> Ok (a, word_of_nat p)))"

definition resolve_addr :: "bytes \<Rightarrow> (socket_addr, addr_error) res" where
  "resolve_addr addr =
     (case split_host_port addr of
        Ok hp \<Rightarrow> resolve_parts addr hp
      | Panic \<Rightarrow> Panic
      | Err e \<Rightarrow>
          let parts = split_on 58 addr
          in if length parts \<le> 2 then Err e
             else case split_host_port ([91] @ join 58 (butlast parts) @ [93, 58] @ last parts) of
               Ok hp \<Rightarrow> resolve_parts addr hp
             | Err e \<Rightarrow> Err e
             | Panic \<Rightarrow> Panic)"

section \<open>Splitting host and port\<close>

lemma find_last_Some: "find_last c s = Some i \<longleftrightarrow> i < length s \<and> s ! i = c \<and> c \<notin> set (drop (Suc i) s)"
proof (induction s arbitrary: i)
  case (Cons x s)
  have none: "find_last c s = None \<longleftrightarrow> c \<notin> set s"
    by (induction s) (auto split: option.splits)
  show ?case
  proof (cases i)
    case 0
    then show ?thesis using none by (auto split: option.splits)
  next
    case (Suc j)
    then show ?thesis using Cons.IH [of j] none by (auto split: option.splits)
  qed
qed simp

lemma find_last_None: "find_last c s = None \<longleftrightarrow> c \<notin> set s"
  by (induction s) (auto split: option.splits)

lemma find_last_append: "c \<notin> set t \<Longrightarrow> find_last c (s @ c # t) = Some (length s)"
  by (simp add: find_last_Some)

lemma find_first_append: "c \<notin> set s \<Longrightarrow> find_first c (s @ c # t) = Some (length s)"
  by (induction s) auto

lemma find_first_Some: "find_first c s = Some i \<Longrightarrow> i < length s \<and> s ! i = c \<and> c \<notin> set (take i s)"
proof (induction s arbitrary: i)
  case (Cons x s)
  then show ?case by (cases i) (auto split: if_splits)
qed simp

text \<open>What the two accepted forms are.\<close>

definition host_port_form :: "bytes \<Rightarrow> bytes \<Rightarrow> bytes \<Rightarrow> bool" where
  "host_port_form s h p \<longleftrightarrow> 58 \<notin> set p \<and> 91 \<notin> set h \<union> set p \<and> 93 \<notin> set h \<union> set p \<and>
     (58 \<notin> set h \<and> s = h @ 58 # p \<or> s = 91 # h @ [93, 58] @ p)"

lemma split_host_port_plain:
  assumes "58 \<notin> set h" "58 \<notin> set p" "91 \<notin> set h \<union> set p" "93 \<notin> set h \<union> set p"
  shows "split_host_port (h @ 58 # p) = Ok (h, p)"
proof -
  have "take 1 (h @ 58 # p) \<noteq> [91]" using assms(3) by (cases h) auto
  then show ?thesis using assms by (simp add: split_host_port_def find_last_append split_tail_def)
qed

lemma split_host_port_bracketed:
  assumes "58 \<notin> set p" "91 \<notin> set h \<union> set p" "93 \<notin> set h \<union> set p"
  shows "split_host_port (91 # h @ [93, 58] @ p) = Ok (h, p)"
proof -
  have "find_last 58 ((91 # h @ [93]) @ 58 # p) = Some (length (91 # h @ [93]))" using assms(1) by (rule find_last_append)
  moreover have "find_first 93 ((91 # h) @ 93 # 58 # p) = Some (length (91 # h))"
    by (rule find_first_append) (use assms(3) in auto)
  ultimately show ?thesis using assms by (simp add: split_host_port_def split_tail_def slice_def)
qed

lemma split_host_port_sound:
  assumes "split_host_port s = Ok (h, p)"
  shows "host_port_form s h p"
proof -
  from assms obtain i where i: "find_last 58 s = Some i" by (auto simp: split_host_port_def split: option.splits)
  then have lt: "i < length s" "s ! i = 58" and "58 \<notin> set (drop (Suc i) s)" by (auto simp: find_last_Some)
  with id_take_nth_drop [OF lt(1)] have s: "s = take i s @ 58 # drop (Suc i) s" "58 \<notin> set (drop (Suc i) s)" by auto
  show ?thesis
  proof (cases "take 1 s = [91]")
    case True
    with assms i obtain e where e: "find_first 93 s = Some e" "e + 1 = i" and h: "h = slice 1 e s" "p = drop (i + 1) s"
      and no: "91 \<notin> set (drop 1 s)" "93 \<notin> set (drop i s)"
      by (auto simp: split_host_port_def split_tail_def split: option.splits if_splits)
    from find_first_Some [OF e(1)] have e': "e < length s" "s ! e = 93" "93 \<notin> set (take e s)" by auto
    obtain t where t: "s = 91 # t" using True by (cases s) auto
    have "e \<noteq> 0" using e'(2) t by (cases e) auto
    then have "take e s = 91 # h" using t h(1) by (cases e) (auto simp: slice_def)
    moreover have "take i s = take e s @ [93]" using e' e(2) by (metis Suc_eq_plus1 take_Suc_conv_app_nth)
    ultimately have form: "s = 91 # h @ [93, 58] @ p" using s(1) h(2) by simp
    have "drop i s = 58 # p" using Cons_nth_drop_Suc [OF lt(1)] lt(2) h(2) by simp
    with no(2) have "93 \<notin> set p" by simp
    moreover have "93 \<notin> set h" using e'(3) \<open>take e s = 91 # h\<close> by simp
    moreover have "91 \<notin> set h \<union> set p" using no(1) unfolding form by simp
    moreover have "58 \<notin> set p" using s(2) h(2) by simp
    ultimately show ?thesis using form by (simp add: host_port_form_def)
  next
    case False
    with assms i have "h = take i s" "p = drop (Suc i) s" "58 \<notin> set h" "91 \<notin> set s" "93 \<notin> set s"
      by (auto simp: split_host_port_def split_tail_def split: if_splits)
    with s show ?thesis by (auto simp: host_port_form_def dest: in_set_takeD in_set_dropD)
  qed
qed

text \<open>Splitting an address accepts exactly the two forms \<open>host:port\<close> and \<open>[host]:port\<close>, with no further
  bracket anywhere and no further colon outside the brackets, and returns host and port; it never panics.\<close>
theorem split_host_port_exact:
  "(split_host_port s = Ok (h, p)) = host_port_form s h p \<and> split_host_port s \<noteq> Panic"
proof
  show "(split_host_port s = Ok (h, p)) = host_port_form s h p"
    using split_host_port_sound [of s h p] split_host_port_plain [of h p] split_host_port_bracketed [of p h]
    by (auto simp: host_port_form_def)
  show "split_host_port s \<noteq> Panic" by (auto simp: split_host_port_def split_tail_def split: option.splits)
qed

section \<open>Printed addresses are read back\<close>

definition no_digit :: "nat \<Rightarrow> bytes \<Rightarrow> bool" where
  "no_digit radix r \<longleftrightarrow> (case r of [] \<Rightarrow> True | c # _ \<Rightarrow> digit_value radix c = None)"

lemma read_digits_stop: "no_digit radix r \<Longrightarrow> read_digits radix lim mx n v r = Some (v, n, r)"
  by (cases r) (simp_all add: no_digit_def)

lemma read_digits_value:
  assumes "digits_to_nat radix mx acc s = Some v" and "no_digit radix r" and "\<forall>l. lim = Some l \<longrightarrow> count + length s \<le> l"
  shows "read_digits radix lim mx count acc (s @ r) = Some (v, count + length s, r)"
  using assms
proof (induction radix mx acc s arbitrary: count rule: digits_to_nat.induct)
  case (2 radix mx n c s)
  then obtain d where d: "digit_value radix c = Some d" "n * radix + d \<le> mx" "digits_to_nat radix mx (n * radix + d) s = Some v"
    by (auto split: option.splits if_splits)
  have "read_digits radix lim mx (count + 1) (n * radix + d) (s @ r) = Some (v, count + 1 + length s, r)"
    by (rule 2(1) [OF d(1,2) d(3)]) (use 2(3,4) in auto)
  with d 2(4) show ?case by (auto split: option.splits)
qed (simp add: read_digits_stop)

lemma dec_nat_hd: "0 < n \<Longrightarrow> hd (dec_nat n) \<noteq> char_of (48 :: nat)"
proof (induction n rule: dec_nat.induct)
  case (1 n)
  show ?case
  proof (cases "n < 10")
    case True
    have "(of_char (char_of (48 + n)) :: nat) = 48 + n" using True by (rule of_char_digit)
    then show ?thesis using 1(2) True
      by (subst dec_nat.simps) (metis (mono_tags) add_cancel_right_right less_not_refl list.sel(1) of_char_digit True zero_less_numeral add.right_neutral)
  next
    case False
    then show ?thesis using 1 by (subst dec_nat.simps) (simp add: hd_append)
  qed
qed

lemma dec_nat_length: "n < 10 ^ k \<Longrightarrow> 0 < k \<Longrightarrow> length (dec_nat n) \<le> k"
proof (induction k arbitrary: n)
  case (Suc k)
  show ?case
  proof (cases "n < 10")
    case False
    then have "k \<noteq> 0" using Suc.prems(1) by (cases k) auto
    moreover have "n div 10 < 10 ^ k" using Suc.prems(1) by (simp add: less_mult_imp_div_less mult.commute)
    ultimately show ?thesis using Suc.IH [of "n div 10"] False by (simp add: dec_nat.simps [of n])
  qed (simp add: dec_nat.simps [of n])
qed simp

lemma read_dec:
  assumes "n \<le> mx" and "no_digit 10 r" and "\<forall>l. lim = Some l \<longrightarrow> length (dec_nat n) \<le> l"
  shows "read_number 10 lim zp mx (ascii (dec_nat n) @ r) = Some (n, r)"
proof -
  have len: "length (ascii (dec_nat n)) = length (dec_nat n)" by (simp add: ascii_def)
  have "read_digits 10 lim mx 0 0 (ascii (dec_nat n) @ r) = Some (n, 0 + length (ascii (dec_nat n)), r)"
    by (rule read_digits_value) (use assms digits_to_nat_dec in \<open>simp_all add: len\<close>)
  moreover have "take 1 (ascii (dec_nat n) @ r) \<noteq> [48]" if "1 < length (dec_nat n)"
  proof
    assume h: "take 1 (ascii (dec_nat n) @ r) = [48]"
    obtain c t where c: "dec_nat n = c # t" by (cases "dec_nat n") auto
    have "0 < n" using that by (cases n) (auto simp: dec_nat.simps [of 0])
    from dec_nat_hd [OF this] c have "c \<noteq> char_of (48 :: nat)" by simp
    moreover have "[c] = [char_of (48 :: nat)]" by (rule ascii_inject [THEN iffD1]) (use h c in \<open>simp add: ascii_def\<close>)
    ultimately show False by simp
  qed
  ultimately show ?thesis by (auto simp: read_number_def len)
qed

lemma read_octet_byte: "no_digit 10 r \<Longrightarrow> read_octet (dec_byte b @ r) = Some (unat b, r)"
  using unat_byte_less [of b] dec_nat_length [of "unat b" 3]
  by (simp add: read_octet_def dec_byte_def read_dec)

lemma no_digit_sep [simp]: "no_digit 10 (46 # r)" "no_digit 10 (58 # r)" "no_digit 10 []" "no_digit 10 (93 # r)"
  "no_digit 16 (58 # r)" "no_digit 16 []" "no_digit 16 (93 # r)"
  by (simp_all add: no_digit_def digit_value_def is_digit_def)

lemma read_ipv4_show:
  assumes "length b = 4" and "no_digit 10 r"
  shows "read_ipv4 (show_ipv4 b @ r) = Some (b, r)"
proof -
  obtain b0 b1 b2 b3 where b: "b = [b0, b1, b2, b3]" using assms(1) by (auto simp: length_Suc_conv numeral_eq_Suc)
  have four: "(4 :: nat) = Suc (Suc (Suc (Suc 0)))" by simp
  show ?thesis using assms(2) unfolding read_ipv4_def four
    by (simp add: b show_ipv4_def read_separated_def read_char_def read_octet_byte)
qed

text \<open>IPv6: the groups in hexadecimal.\<close>

definition hex_char :: "nat \<Rightarrow> u8" where "hex_char d = word_of_nat (if d < 10 then 48 + d else 87 + d)"

lemma hex_nat_digits: "hex_nat n = (if n < 16 then [hex_char n] else hex_nat (n div 16) @ [hex_char (n mod 16)])"
  by (subst hex_nat.simps) (simp add: hex_char_def Let_def del: of_nat_add)

lemma unat_hex_char: "d < 16 \<Longrightarrow> unat (hex_char d) = (if d < 10 then 48 + d else 87 + d)"
  unfolding hex_char_def by (simp only: unat_byte) simp

lemma hex_nat_plain: "c \<in> set (hex_nat n) \<Longrightarrow> 32 < c \<and> c < 128"
proof (induction n rule: hex_nat.induct)
  case (1 n)
  have "32 < hex_char d \<and> hex_char d < 128" if "d < 16" for d
    using unat_hex_char [OF that] that by (simp add: word_less_nat_alt split: if_splits)
  with 1 show ?case by (cases "n < 16") (auto simp: hex_nat_digits [of n])
qed

lemma digit_value_hex: "d < 16 \<Longrightarrow> digit_value 16 (hex_char d) = Some d"
  by (simp add: digit_value_def is_digit_def word_le_nat_alt unat_hex_char)

lemma hex_nat_value: "n \<le> mx \<Longrightarrow> digits_to_nat 16 mx 0 (hex_nat n) = Some n"
proof (induction n rule: hex_nat.induct)
  case (1 n)
  show ?case
  proof (cases "n < 16")
    case True
    then show ?thesis using 1(2) by (simp add: hex_nat_digits [of n] digit_value_hex)
  next
    case False
    then have "digits_to_nat 16 mx 0 (hex_nat (n div 16)) = Some (n div 16)" using 1 by simp
    then show ?thesis using 1(2) False
      by (simp add: hex_nat_digits [of n] digits_to_nat_append digit_value_hex)
  qed
qed

lemma hex_nat_length: "n < 16 ^ k \<Longrightarrow> 0 < k \<Longrightarrow> length (hex_nat n) \<le> k \<and> hex_nat n \<noteq> []"
proof (induction k arbitrary: n)
  case (Suc k)
  show ?case
  proof (cases "n < 16")
    case False
    then have "k \<noteq> 0" using Suc.prems(1) by (cases k) auto
    moreover have "n div 16 < 16 ^ k" using Suc.prems(1) by (simp add: less_mult_imp_div_less mult.commute)
    ultimately show ?thesis using Suc.IH [of "n div 16"] False by (simp add: hex_nat_digits [of n])
  qed (simp add: hex_nat_digits [of n])
qed simp

lemma read_group: "n < 65536 \<Longrightarrow> no_digit 16 r \<Longrightarrow> read_number 16 (Some 4) True 65535 (hex_nat n @ r) = Some (n, r)"
proof -
  assume n: "n < 65536" and r: "no_digit 16 r"
  have len: "length (hex_nat n) \<le> 4 \<and> hex_nat n \<noteq> []" by (rule hex_nat_length) (use n in simp_all)
  have "read_digits 16 (Some 4) 65535 0 0 (hex_nat n @ r) = Some (n, 0 + length (hex_nat n), r)"
    by (rule read_digits_value) (use n r len hex_nat_value in simp_all)
  with len show ?thesis by (simp add: read_number_def)
qed

text \<open>Without a full stop there is no IPv4 address.\<close>

lemma read_digits_rest: "read_digits radix lim mx count acc s = Some (v, n, r) \<Longrightarrow> set r \<subseteq> set s"
  by (induction s arbitrary: count acc) (auto split: option.splits if_splits)

lemma read_octet_rest: "read_octet s = Some (v, r) \<Longrightarrow> set r \<subseteq> set s"
  by (auto simp: read_octet_def read_number_def dest!: read_digits_rest split: option.splits if_splits)

lemma read_ipv4_none: "46 \<notin> set s \<Longrightarrow> read_ipv4 s = None"
proof -
  assume s: "46 \<notin> set s"
  have four: "(4 :: nat) = Suc (Suc (Suc (Suc 0)))" by simp
  have "read_char 46 r = None" if "read_octet s = Some (v, r)" for v r
    using read_octet_rest [OF that] s by (auto simp: read_char_def split: list.split)
  then show ?thesis unfolding read_ipv4_def four
    by (auto simp: read_separated_def split: option.split)
qed

lemma hex_nat_no_dot: "46 \<notin> set (hex_nat n)"
proof (induction n rule: hex_nat.induct)
  case (1 n)
  have "hex_char d \<noteq> 46" if "d < 16" for d
    using unat_hex_char [OF that] by (auto split: if_splits)
  with 1 show ?case by (subst hex_nat_digits) (auto dest: sym)
qed

text \<open>Groups with a colon before each but the first of all.\<close>

fun group_text :: "nat \<Rightarrow> nat list \<Rightarrow> bytes" where
  "group_text i [] = []"
| "group_text i (g # gs) = (if 0 < i then [58] else []) @ hex_nat g @ group_text (i + 1) gs"

definition group_end :: "bytes \<Rightarrow> bool" where
  "group_end r \<longleftrightarrow> r = [] \<or> (\<exists>t. r = 93 # t) \<or> (\<exists>t. r = 58 # 58 # t)"

lemma group_text_no_dot: "46 \<notin> set (group_text i gs)"
  by (induction gs arbitrary: i) (auto simp: hex_nat_no_dot)

lemma group_end_digit: "group_end r \<Longrightarrow> no_digit 16 r"
  by (auto simp: group_end_def)

lemma no_number: "no_digit 16 s \<Longrightarrow> read_number 16 (Some 4) True 65535 s = None"
  by (cases s) (auto simp: read_number_def no_digit_def)

lemma read_ipv4_no_digit: "no_digit 10 s \<Longrightarrow> read_ipv4 s = None"
proof -
  assume "no_digit 10 s"
  then have "read_octet s = None" by (cases s) (auto simp: read_octet_def read_number_def no_digit_def)
  moreover have four: "(4 :: nat) = Suc (Suc (Suc (Suc 0)))" by simp
  ultimately show ?thesis unfolding read_ipv4_def four by (simp add: read_separated_def)
qed

lemma read_groups_end:
  assumes "group_end r"
  shows "read_groups limit i r = ([], False, r)"
proof -
  have "read_separated 58 i read_ipv4 r = None"
    using assms by (auto simp: read_separated_def read_char_def group_end_def intro!: read_ipv4_no_digit)
  moreover have "read_separated 58 i (read_number 16 (Some 4) True 65535) r = None"
    using assms by (auto simp: read_separated_def read_char_def group_end_def intro!: no_number)
  ultimately show ?thesis by (simp add: read_groups.simps)
qed

lemma read_groups_text:
  assumes "\<forall>g \<in> set gs. g < 65536" and "i + length gs \<le> limit" and "46 \<notin> set r" and "group_end r"
  shows "read_groups limit i (group_text i gs @ r) = (gs, False, r)"
  using assms(1,2)
proof (induction gs arbitrary: i)
  case Nil
  then show ?case using read_groups_end [OF assms(4)] by simp
next
  case (Cons g gs)
  let ?t = "group_text (i + 1) gs @ r"
  have dot: "46 \<notin> set (hex_nat g @ ?t)" using assms(3) by (simp add: hex_nat_no_dot group_text_no_dot)
  have v4: "read_separated 58 i read_ipv4 (group_text i (g # gs) @ r) = None"
    using read_ipv4_none [OF dot] by (auto simp: read_separated_def read_char_def)
  have "no_digit 16 ?t" using group_end_digit [OF assms(4)] by (cases gs) auto
  then have "read_separated 58 i (read_number 16 (Some 4) True 65535) (group_text i (g # gs) @ r) = Some (g, ?t)"
    using read_group [of g ?t] Cons.prems(1) by (auto simp: read_separated_def read_char_def)
  moreover have "read_groups limit (i + 1) ?t = (gs, False, r)" using Cons by simp
  ultimately show ?case using v4 Cons.prems(2) by (simp add: read_groups.simps [of limit i])
qed

lemma group_text_join:
  "join 58 (map hex_nat gs) = group_text 0 gs" "0 < i \<Longrightarrow> gs \<noteq> [] \<Longrightarrow> group_text i gs = 58 # join 58 (map hex_nat gs)"
proof -
  have *: "group_text i gs = (if 0 < i \<and> gs \<noteq> [] then [58] else []) @ join 58 (map hex_nat gs)" for i
  proof (induction gs arbitrary: i)
    case (Cons g gs)
    then show ?case by (cases gs) auto
  qed simp
  from * [of 0] show "join 58 (map hex_nat gs) = group_text 0 gs" by simp
  from * [of i] show "0 < i \<Longrightarrow> gs \<noteq> [] \<Longrightarrow> group_text i gs = 58 # join 58 (map hex_nat gs)" by simp
qed

lemma unat_u16_less: "unat (w :: u16) < 65536" using unat_bound [of w] by simp

text \<open>The run of zeros that is left out.\<close>

definition zero_run :: "u16 list \<Rightarrow> nat \<times> nat \<Rightarrow> bool" where
  "zero_run gs r \<longleftrightarrow> (case r of (s, l) \<Rightarrow> s + l \<le> length gs \<and> (\<forall>j. s \<le> j \<and> j < s + l \<longrightarrow> gs ! j = 0))"

lemma zero_run_append: "zero_run gs r \<Longrightarrow> zero_run (gs @ hs) r"
  by (auto simp: zero_run_def nth_append split: prod.splits)

lemma longest_zeros_run:
  assumes "zero_run pre longest" and "zero_run pre (s, l)" and "0 < l \<longrightarrow> s + l = length pre"
  shows "zero_run (pre @ gs) (longest_zeros gs (length pre) longest (s, l))"
  using assms
proof (induction gs arbitrary: pre longest s l)
  case (Cons g gs)
  show ?case
  proof (cases "g = 0")
    case True
    let ?c = "(if l = 0 then length pre else s, l + 1)"
    have c: "zero_run (pre @ [g]) ?c" using Cons.prems(2,3) True by (auto simp: zero_run_def nth_append)
    have "zero_run (pre @ [g]) (if snd longest < l + 1 then ?c else longest)"
      using c zero_run_append [OF Cons.prems(1)] by simp
    with Cons.IH [of "pre @ [g]" "if snd longest < l + 1 then ?c else longest" "fst ?c" "snd ?c"] c Cons.prems(3) True
    show ?thesis by (cases "l = 0") (auto simp: Let_def split: if_splits)
  next
    case False
    have "zero_run (pre @ [g]) (0, 0)" by (simp add: zero_run_def)
    with Cons.IH [of "pre @ [g]" longest 0 0] zero_run_append [OF Cons.prems(1)] False show ?thesis by simp
  qed
qed simp

lemma zero_run_split:
  assumes "zero_run gs (s, l)"
  shows "gs = take s gs @ replicate l 0 @ drop (s + l) gs"
proof (rule nth_equalityI)
  show "length gs = length (take s gs @ replicate l 0 @ drop (s + l) gs)" using assms by (simp add: zero_run_def)
  fix i assume i: "i < length gs"
  consider "i < s" | "s \<le> i" "i < s + l" | "s + l \<le> i" by linarith
  then show "gs ! i = (take s gs @ replicate l 0 @ drop (s + l) gs) ! i"
    using assms i by cases (auto simp: zero_run_def nth_append)
qed

lemma concat_slices: "concat (map (\<lambda>i. slice (2 * i) (2 * i + 2) b) [0..<n]) = take (2 * n) b"
proof (induction n)
  case (Suc n)
  have "take (2 * n + 2) b = take (2 * n) b @ take 2 (drop (2 * n) b)" by (rule take_add)
  moreover have "2 * Suc n = 2 * n + 2" by simp
  ultimately show ?case using Suc by (simp only: upt_Suc_append le0 map_append concat_append) (simp add: slice_def)
qed simp

lemma u16_be_of_be: "u16_be (be_u16 [x, y]) = [x, y]"
proof -
  have "nat_of_le [y, x] < 65536" using nat_of_le_less [of "[y, x]"] by simp
  then show ?thesis using le_of_nat_of_le [of "[y, x]" 2]
    by (simp only: u16_be_def be_u16_def rev.simps append.simps unat_u16_of_nat) simp
qed

lemma group_bytes_groups: "length b = 16 \<Longrightarrow> group_bytes (map unat (groups b)) = b"
proof -
  assume b: "length b = 16"
  have "u16_be (be_u16 (slice (2 * i) (2 * i + 2) b)) = slice (2 * i) (2 * i + 2) b" if "i < 8" for i
  proof -
    have "length (slice (2 * i) (2 * i + 2) b) = Suc (Suc 0)" using b that by simp
    then obtain x y where "slice (2 * i) (2 * i + 2) b = [x, y]" by (auto simp: length_Suc_conv simp del: length_slice)
    then show ?thesis by (simp only: u16_be_of_be)
  qed
  then have "map (\<lambda>g. u16_be (word_of_nat g)) (map unat (groups b)) = map (\<lambda>i. slice (2 * i) (2 * i + 2) b) [0..<8]"
    by (simp add: groups_def)
  then show ?thesis using concat_slices [of b 8] b by (simp add: group_bytes_def)
qed

lemma read_group_list:
  assumes "length b = 16" and "46 \<notin> set r" and "group_end r"
  shows "read_ipv6 (show_ipv6 b @ r) = Some (b, r)"
proof -
  let ?gs = "groups b"
  obtain s l where r: "longest_zeros ?gs 0 (0, 0) (0, 0) = (s, l)" by force
  have len: "length ?gs = 8" by (simp add: groups_def)
  have bound: "\<forall>g \<in> set (map unat gs). g < 65536" for gs :: "u16 list" using unat_u16_less by simp
  have join: "show_groups gs = group_text 0 (map unat gs)" for gs
    using group_text_join(1) [of "map unat gs"] by (simp add: show_groups_def comp_def)
  show ?thesis
  proof (cases "1 < l")
    case False
    then have "show_ipv6 b = group_text 0 (map unat ?gs)" using r by (simp add: show_ipv6_def Let_def join)
    moreover have "read_groups 8 0 (group_text 0 (map unat ?gs) @ r) = (map unat ?gs, False, r)"
      by (rule read_groups_text) (use bound assms len in simp_all)
    ultimately show ?thesis using group_bytes_groups [OF assms(1)] len by (simp add: read_ipv6_def)
  next
    case True
    let ?f = "map unat (take s ?gs)" and ?k = "map unat (drop (s + l) ?gs)"
    have run: "zero_run ?gs (s, l)"
      using longest_zeros_run [of "[]" "(0, 0)" 0 0 ?gs] r by (simp add: zero_run_def)
    then have sl: "s + l \<le> 8" using len by (simp add: zero_run_def)
    have shown: "show_ipv6 b @ r = group_text 0 ?f @ 58 # 58 # group_text 0 ?k @ r"
      using r True by (simp add: show_ipv6_def Let_def join)
    have 1: "read_groups 8 0 (group_text 0 ?f @ 58 # 58 # group_text 0 ?k @ r) = (?f, False, 58 # 58 # group_text 0 ?k @ r)"
      by (rule read_groups_text) (use bound len sl assms(2) group_text_no_dot in \<open>auto simp: group_end_def\<close>)
    have 2: "read_groups (8 - (length ?f + 1)) 0 (group_text 0 ?k @ r) = (?k, False, r)"
      by (rule read_groups_text) (use bound len sl True assms(2,3) in auto)
    have lens: "length ?f = s" "length ?k = 8 - (s + l)" using len sl by simp_all
    have "?f @ replicate (8 - length ?k - length ?f) 0 @ ?k = map unat ?gs"
    proof -
      have "map unat ?gs = map unat (take s ?gs @ replicate l 0 @ drop (s + l) ?gs)"
        using zero_run_split [OF run] by simp
      moreover have "8 - length ?k - length ?f = l" unfolding lens using sl by linarith
      ultimately show ?thesis by simp
    qed
    moreover have "length ?f \<noteq> 8" unfolding lens using sl True by linarith
    ultimately show ?thesis using 2 group_bytes_groups [OF assms(1)]
      by (simp only: shown read_ipv6_def 1 prod.case if_False read_char_def list.case option.case simp_thms if_True)
  qed
qed

lemma u16_be_0: "u16_be 0 = [0, 0]" and u16_be_max: "u16_be 65535 = [255, 255]"
  by (simp_all add: u16_be_def byte_simps)

lemma replicate_5: "replicate 5 x = [x, x, x, x, x]" and replicate_10: "replicate 10 x = [x, x, x, x, x, x, x, x, x, x]"
  by (simp_all add: numeral_eq_Suc)

lemma read_mapped:
  assumes "length b = 16" and "ipv4_mapped b = Some v4" and "no_digit 10 r"
  shows "read_ipv6 (ascii ''::ffff:'' @ show_ipv4 v4 @ r) = Some (b, r)"
proof -
  have t: "take 12 b = replicate 10 0 @ [255, 255]" and d: "v4 = drop 12 b"
    using assms(2) by (auto simp: ipv4_mapped_def split: if_splits)
  have v4: "length v4 = 4" using assms(1) d by simp
  have b: "b = replicate 10 0 @ [255, 255] @ v4"
    using append_take_drop_id [of 12 b] unfolding t d by simp
  let ?t = "ascii ''ffff:'' @ show_ipv4 v4 @ r"
  have shown: "ascii ''::ffff:'' @ show_ipv4 v4 @ r = 58 # 58 # ?t" by (simp add: ascii_def)
  have 1: "read_groups 8 0 (58 # 58 # ?t) = ([], False, 58 # 58 # ?t)" by (rule read_groups_end) (simp add: group_end_def)
  have 2: "read_groups 7 1 (58 # show_ipv4 v4 @ r) = ([unat (be_u16 (take 2 v4)), unat (be_u16 (drop 2 v4))], True, r)"
    using read_ipv4_show [OF v4 assms(3)] by (subst read_groups.simps) (simp add: read_separated_def read_char_def)
  have hex: "hex_nat 65535 = ascii ''ffff''" by (simp add: hex_nat.simps ascii_def)
  have f: "read_number 16 (Some 4) True 65535 ?t = Some (65535, 58 # show_ipv4 v4 @ r)"
    using read_group [of 65535 "58 # show_ipv4 v4 @ r"] by (simp add: hex ascii_def)
  have n: "read_ipv4 ?t = None" by (rule read_ipv4_no_digit) (simp add: ascii_def no_digit_def digit_value_def is_digit_def)
  have 3: "read_groups 7 0 ?t = ([65535, unat (be_u16 (take 2 v4)), unat (be_u16 (drop 2 v4))], True, r)"
    using 2 f n by (simp add: read_groups.simps [of 7 0] read_separated_def)
  have "length (take 2 v4) = Suc (Suc 0)" "length (drop 2 v4) = Suc (Suc 0)" using v4 by simp_all
  then have "u16_be (be_u16 (take 2 v4)) = take 2 v4" "u16_be (be_u16 (drop 2 v4)) = drop 2 v4"
    using u16_be_of_be by (auto simp: length_Suc_conv simp del: length_take length_drop)
  then have "group_bytes (replicate 5 0 @ [65535, unat (be_u16 (take 2 v4)), unat (be_u16 (drop 2 v4))]) = b"
    using u16_be_0 u16_be_max replicate_5 [of "0 :: nat"] replicate_10 [of "0 :: u8"]
    by (simp add: group_bytes_def b del: replicate.simps)
  with 3 show ?thesis by (simp add: read_ipv6_def shown 1 read_char_def)
qed

lemma read_ip6_show:
  assumes "length b = 16" and "46 \<notin> set r" and "group_end r"
  shows "read_ipv6 (show_ip6 b @ r) = Some (b, r)"
proof (cases "ipv4_mapped b")
  case (Some v4)
  have "no_digit 10 r" using assms(3) by (auto simp: group_end_def)
  from read_mapped [OF assms(1) Some this] show ?thesis by (simp add: show_ip6_def Some)
qed (use read_group_list [OF assms] in \<open>simp add: show_ip6_def\<close>)

lemma ascii_dec_digits: "c \<in> set (ascii (dec_nat n)) \<Longrightarrow> 48 \<le> c \<and> c \<le> 57"
proof -
  assume "c \<in> set (ascii (dec_nat n))"
  then obtain d where d: "d \<in> set (dec_nat n)" "c = word_of_nat (of_char d)" by (auto simp: ascii_def)
  from dec_nat_digits [OF d(1)] have "48 \<le> (of_char d :: nat)" "(of_char d :: nat) \<le> 57" by auto
  moreover from this have "unat c = of_char d" using d(2) by simp
  ultimately show ?thesis by (simp add: word_le_nat_alt)
qed

lemma dec_no_special: "58 \<notin> set (ascii (dec_nat n))" "91 \<notin> set (ascii (dec_nat n))" "93 \<notin> set (ascii (dec_nat n))"
  using ascii_dec_digits [of _ n] by fastforce+

lemma show_ipv4_no_special: "58 \<notin> set (show_ipv4 b)" "91 \<notin> set (show_ipv4 b)" "93 \<notin> set (show_ipv4 b)"
  by (simp_all add: show_ipv4_def dec_byte_def dec_no_special)

lemma hex_nat_no_bracket: "91 \<notin> set (hex_nat n)" "93 \<notin> set (hex_nat n)"
proof (induction n rule: hex_nat.induct)
  case (1 n)
  have *: "hex_char d \<noteq> 91 \<and> hex_char d \<noteq> 93" if "d < 16" for d
    using unat_hex_char [OF that] by (auto split: if_splits)
  { case 1 with * "1.IH"(1) show ?case by (subst hex_nat_digits) (auto dest: sym) }
  { case 2 with * "1.IH"(2) show ?case by (subst hex_nat_digits) (auto dest: sym) }
qed

lemma join_chars: "c \<noteq> sep \<Longrightarrow> \<forall>x \<in> set xs. c \<notin> set x \<Longrightarrow> c \<notin> set (join sep xs)"
  by (induction sep xs rule: join.induct) auto

lemma show_groups_chars: "c \<notin> {58} \<Longrightarrow> \<forall>g. c \<notin> set (hex_nat g) \<Longrightarrow> c \<notin> set (show_groups gs)"
  unfolding show_groups_def by (rule join_chars) auto

lemma show_ipv6_chars: "c \<notin> {58} \<Longrightarrow> \<forall>g. c \<notin> set (hex_nat g) \<Longrightarrow> c \<notin> set (show_ipv6 b)"
  by (simp add: show_ipv6_def Let_def show_groups_chars split: prod.split)

lemma show_ip6_no_bracket: "91 \<notin> set (show_ip6 b)" "93 \<notin> set (show_ip6 b)"
  by (simp_all add: show_ip6_def show_ipv6_chars hex_nat_no_bracket show_ipv4_no_special ascii_def split: option.split)

lemma parse_ip_show: "ip_ok ip \<Longrightarrow> parse_ip (case ip of IpV4 b \<Rightarrow> show_ipv4 b | IpV6 b \<Rightarrow> show_ip6 b) = Some ip"
proof (cases ip)
  case (IpV4 b)
  assume "ip_ok ip"
  with IpV4 read_ipv4_show [of b "[]"] show ?thesis by (simp add: ip_ok_def parse_ip_def all_read_def)
next
  case (IpV6 b)
  assume "ip_ok ip"
  then have "read_ipv6 (show_ip6 b) = Some (b, [])" using IpV6 read_ip6_show [of b "[]"] by (simp add: ip_ok_def group_end_def)
  moreover have "read_ipv4 (show_ip6 b) = None"
  proof (cases "ipv4_mapped b")
    case None
    then show ?thesis by (intro read_ipv4_none) (simp add: show_ip6_def hex_nat_no_dot show_ipv6_chars)
  next
    case (Some v4)
    then show ?thesis by (intro read_ipv4_no_digit) (simp add: show_ip6_def ascii_def)
  qed
  ultimately show ?thesis by (simp add: IpV6 parse_ip_def all_read_def)
qed

lemma show_ip_not_Nil: "ip_ok ip \<Longrightarrow> (case ip of IpV4 b \<Rightarrow> show_ipv4 b | IpV6 b \<Rightarrow> show_ip6 b) \<noteq> []"
proof
  assume "ip_ok ip" "(case ip of IpV4 b \<Rightarrow> show_ipv4 b | IpV6 b \<Rightarrow> show_ip6 b) = []"
  with parse_ip_show [of ip] have "parse_ip [] = Some ip" by simp
  moreover have "read_groups 8 0 [] = ([], False, [])" by (rule read_groups_end) (simp add: group_end_def)
  ultimately show False using read_ipv4_no_digit [of "[]"] by (simp add: parse_ip_def all_read_def read_ipv6_def read_char_def)
qed

lemma split_shown:
  "split_host_port (show_socket_addr (ip, port)) = Ok (case ip of IpV4 b \<Rightarrow> show_ipv4 b | IpV6 b \<Rightarrow> show_ip6 b, ascii (dec_nat (unat port)))"
proof (cases ip)
  case (IpV4 b)
  then show ?thesis using split_host_port_plain [of "show_ipv4 b" "ascii (dec_nat (unat port))"]
    by (simp add: show_socket_addr_def show_ipv4_no_special dec_no_special)
next
  case (IpV6 b)
  then show ?thesis using split_host_port_bracketed [of "ascii (dec_nat (unat port))" "show_ip6 b"]
    by (simp add: show_socket_addr_def show_ip6_no_bracket dec_no_special)
qed

lemma resolve_shown: "ip_ok (fst a) \<Longrightarrow> resolve_addr (show_socket_addr a) = Ok a"
proof -
  assume ok: "ip_ok (fst a)"
  obtain ip port where a: "a = (ip, port)" by (cases a)
  have "ascii (dec_nat (unat port)) \<noteq> []" by (simp add: ascii_def)
  moreover have "parse_unsigned 10 65535 (ascii (dec_nat (unat port))) = Some (unat port)"
    using unat_u16_less [of port] by (intro parse_dec) simp
  ultimately show ?thesis
    using ok parse_ip_show [of ip] show_ip_not_Nil [of ip] by (simp add: a resolve_addr_def split_shown resolve_parts_def)
qed

text \<open>What the program prints as a socket address is read back as that address, as tor's variables are
  read, for every IPv4 and IPv6 address with whatever zeros left out.\<close>
theorem address_roundtrip:
  assumes "ip_ok (fst a)"
  shows "resolve_addr (show_socket_addr a) = Ok a"
  using assms by (rule resolve_shown)

lemma address_roundtrip_witness:
  "resolve_addr (show_socket_addr (IpV6 (1 # replicate 14 0 @ [7]), 443)) = Ok (IpV6 (1 # replicate 14 0 @ [7]), 443)"
  by (rule address_roundtrip) (simp add: ip_ok_def)

end
