(* ===== verification/PtSetup.thy ===== *)
theory PtSetup
  imports NetAddr
begin

text \<open>
  What passes between tor and the program at start: the control lines of
  \<open>src/shared/domain/pt/control.rs\<close>, the environment of \<open>managed.rs\<close> and the proxy of
  \<open>src/shared/domain/proxy.rs\<close>.  A call returns its result, which may be a panic, and the
  lines it wrote.
\<close>

section \<open>Control lines\<close>

type_synonym 'a ctl = "('a, bytes) res \<times> bytes list"

fun ctl_bind :: "'a ctl \<Rightarrow> ('a \<Rightarrow> 'b ctl) \<Rightarrow> 'b ctl" where
  "ctl_bind (Ok a, ls) f = (case f a of (r, ls') \<Rightarrow> (r, ls @ ls'))"
| "ctl_bind (Err e, ls) f = (Err e, ls)"
| "ctl_bind (Panic, ls) f = (Panic, ls)"

abbreviation ctl_ok :: "'a \<Rightarrow> 'a ctl" where "ctl_ok a \<equiv> (Ok a, [])"

definition keyword_is_safe :: "bytes \<Rightarrow> bool" where
  "keyword_is_safe k \<longleftrightarrow> list_all (\<lambda>b. is_alpha b \<or> is_digit b \<or> b = 45 \<or> b = 95) k"

definition arg_is_safe :: "bytes \<Rightarrow> bool" where
  "arg_is_safe a \<longleftrightarrow> list_all (\<lambda>b. b < 0x80 \<and> b \<noteq> 0 \<and> b \<noteq> 10) a"

text \<open>\<open>None\<close> is the failed assertion.\<close>

definition format_line :: "bytes \<Rightarrow> bytes list \<Rightarrow> bytes option" where
  "format_line keyword as =
     (if keyword_is_safe keyword \<and> list_all arg_is_safe as then Some (keyword @ concat (map (\<lambda>a. 32 # a) as)) else None)"

definition octal3 :: "u8 \<Rightarrow> bytes" where
  "octal3 c = [word_of_nat (48 + unat c div 64), word_of_nat (48 + unat c div 8 mod 8), word_of_nat (48 + unat c mod 8)]"

definition cstring_char :: "u8 \<Rightarrow> bytes" where
  "cstring_char c =
     (if c = 32 \<or> c = 33 \<or> (35 \<le> c \<and> c \<le> 91) \<or> (93 \<le> c \<and> c \<le> 126) then [c] else 92 # octal3 c)"

definition encode_cstring :: "bytes \<Rightarrow> bytes" where
  "encode_cstring s = [34] @ concat (map cstring_char s) @ [34]"

definition tor_line :: "string \<Rightarrow> bytes list \<Rightarrow> unit ctl" where
  "tor_line keyword as = (case format_line (ascii keyword) as of None \<Rightarrow> (Panic, []) | Some l \<Rightarrow> (Ok (), [l]))"

definition tor_error :: "string \<Rightarrow> bytes list \<Rightarrow> 'a ctl" where
  "tor_error keyword as = (case format_line (ascii keyword) as of None \<Rightarrow> (Panic, []) | Some l \<Rightarrow> (Err l, [l]))"

definition env_error :: "bytes \<Rightarrow> 'a ctl" where "env_error msg = tor_error ''ENV-ERROR'' [msg]"
definition version_error :: "bytes \<Rightarrow> 'a ctl" where "version_error msg = tor_error ''VERSION-ERROR'' [msg]"
definition cmethod_error :: "bytes \<Rightarrow> bytes \<Rightarrow> 'a ctl" where "cmethod_error m msg = tor_error ''CMETHOD-ERROR'' [m, msg]"
definition smethod_error :: "bytes \<Rightarrow> bytes \<Rightarrow> 'a ctl" where "smethod_error m msg = tor_error ''SMETHOD-ERROR'' [m, msg]"
definition proxy_error :: "bytes \<Rightarrow> 'a ctl" where "proxy_error msg = tor_error ''PROXY-ERROR'' [msg]"

definition cmethod :: "bytes \<Rightarrow> bytes \<Rightarrow> socket_addr \<Rightarrow> unit ctl" where
  "cmethod name socks addr = tor_line ''CMETHOD'' [name, socks, show_socket_addr addr]"
definition cmethods_done :: "unit ctl" where "cmethods_done = tor_line ''CMETHODS'' [ascii ''DONE'']"
definition smethod_args :: "bytes \<Rightarrow> socket_addr \<Rightarrow> args option \<Rightarrow> unit ctl" where
  "smethod_args name addr a = tor_line ''SMETHOD'' [name, show_socket_addr addr, ascii ''ARGS:'' @ encode_smethod_args a]"
definition smethods_done :: "unit ctl" where "smethods_done = tor_line ''SMETHODS'' [ascii ''DONE'']"
definition proxy_done :: "unit ctl" where "proxy_done = tor_line ''PROXY'' [ascii ''DONE'']"

definition report_version :: "bytes \<Rightarrow> bytes \<Rightarrow> unit ctl" where
  "report_version impl ver =
     tor_line ''STATUS'' [ascii ''TYPE=version'', ascii ''IMPLEMENTATION='' @ encode_cstring impl, ascii ''VERSION='' @ encode_cstring ver]"

datatype log_severity = SevError | SevWarning | SevNotice | SevInfo | SevDebug

definition severity_name :: "log_severity \<Rightarrow> string" where
  "severity_name s = (case s of SevError \<Rightarrow> ''error'' | SevWarning \<Rightarrow> ''warning'' | SevNotice \<Rightarrow> ''notice'' | SevInfo \<Rightarrow> ''info'' | SevDebug \<Rightarrow> ''debug'')"

definition tor_log :: "log_severity \<Rightarrow> bytes \<Rightarrow> unit ctl" where
  "tor_log sev msg = tor_line ''LOG'' [ascii ''SEVERITY='' @ ascii (severity_name sev), ascii ''MESSAGE='' @ encode_cstring msg]"

section \<open>Error texts\<close>

text \<open>\<open>{:?}\<close> of a string.  Which characters beyond ASCII are printed as they are is in a table of
  the standard library, \<open>te_char\<close>, as is the text of a UTF-8 error, \<open>te_utf8\<close>.\<close>

record text_env =
  te_char :: "bytes \<Rightarrow> bytes"
  te_utf8 :: "bytes \<Rightarrow> bytes"

definition debug_ascii :: "u8 \<Rightarrow> bytes" where
  "debug_ascii c =
     (if c = 0 then [92, 48] else if c = 9 then [92, 116] else if c = 10 then [92, 110] else if c = 13 then [92, 114]
      else if c = 34 then [92, 34] else if c = 92 then [92, 92]
      else if c < 32 \<or> c = 127 then [92, 117, 123] @ hex_nat (unat c) @ [125] else [c])"

definition char_len :: "u8 \<Rightarrow> nat" where
  "char_len c = (if c < 128 then 1 else if c < 224 then 2 else if c < 240 then 3 else 4)"

function debug_chars :: "text_env \<Rightarrow> bytes \<Rightarrow> bytes" where
  "debug_chars te [] = []"
| "debug_chars te (c # s) =
     (if c < 128 then debug_ascii c @ debug_chars te s
      else te_char te (take (char_len c) (c # s)) @ debug_chars te (drop (char_len c) (c # s)))"
  by pat_completeness auto
termination by (relation "measure (\<lambda>(_, s). length s)") (auto simp: char_len_def)

definition debug :: "text_env \<Rightarrow> bytes \<Rightarrow> bytes" where "debug te s = [34] @ debug_chars te s @ [34]"

definition show_args_error :: "text_env \<Rightarrow> args_error \<Rightarrow> bytes" where
  "show_args_error te e =
     (case e of
        DanglingEscape s \<Rightarrow> ascii ''nothing following final escape in '' @ debug te s
      | BadUtf8 s \<Rightarrow> te_utf8 te s
      | NoEquals s \<Rightarrow> ascii ''no equals sign in '' @ debug te s
      | NoColon s \<Rightarrow> ascii ''no colon in '' @ debug te s
      | EmptyKey s \<Rightarrow> ascii ''empty key in '' @ debug te s
      | EmptyMethod s \<Rightarrow> ascii ''empty method name in '' @ debug te s)"

text \<open>Why \<open>str::parse\<close> refuses a number.\<close>

fun parse_failure :: "nat \<Rightarrow> nat \<Rightarrow> nat \<Rightarrow> bytes \<Rightarrow> string" where
  "parse_failure radix mx n [] = ''''"
| "parse_failure radix mx n (c # s) =
     (case digit_value radix c of
        None \<Rightarrow> ''invalid digit found in string''
      | Some v \<Rightarrow>
          if n * radix + v \<le> mx then parse_failure radix mx (n * radix + v) s
          else ''number too large to fit in target type'')"

definition show_addr_error :: "text_env \<Rightarrow> addr_error \<Rightarrow> bytes" where
  "show_addr_error te e =
     (case e of
        MissingPort s \<Rightarrow> ascii ''address '' @ s @ ascii '': missing port in address''
      | MissingBracket s \<Rightarrow> ascii ''address '' @ s @ ascii '': missing ']' in address''
      | TooManyColons s \<Rightarrow> ascii ''address '' @ s @ ascii '': too many colons in address''
      | UnexpectedOpen s \<Rightarrow> ascii ''address '' @ s @ ascii '': unexpected '[' in address''
      | UnexpectedClose s \<Rightarrow> ascii ''address '' @ s @ ascii '': unexpected ']' in address''
      | NoHost s \<Rightarrow> ascii ''address string '' @ debug te s @ ascii '' lacks a host part''
      | NoPort s \<Rightarrow> ascii ''address string '' @ debug te s @ ascii '' lacks a port part''
      | NotAnIp s \<Rightarrow> ascii ''not an IP string: '' @ debug te s
      | BadPort s \<Rightarrow> ascii (if s = [43] then ''invalid digit found in string''
                           else parse_failure 10 65535 0 (if take 1 s = [43] then tl s else s)))"

section \<open>The managed environment\<close>

type_synonym env = "bytes \<Rightarrow> bytes"

definition getenv_required :: "env \<Rightarrow> string \<Rightarrow> bytes ctl" where
  "getenv_required env key =
     (let v = env (ascii key)
      in if v = [] then env_error (ascii ''no '' @ ascii key @ ascii '' environment variable'') else ctl_ok v)"

definition TRANSPORT_VERSION :: bytes where "TRANSPORT_VERSION = ascii ''1''"

definition get_managed_transport_ver :: "env \<Rightarrow> bytes ctl" where
  "get_managed_transport_ver env =
     ctl_bind (getenv_required env ''TOR_PT_MANAGED_TRANSPORT_VER'') (\<lambda>offered.
       if TRANSPORT_VERSION \<in> set (split_on 44 offered) then ctl_ok TRANSPORT_VERSION
       else version_error (ascii ''no-version''))"

text \<open>\<open>is_client\<close>: its error is a plain string, the line is written on the side.\<close>

definition is_client :: "env \<Rightarrow> bool ctl" where
  "is_client env =
     (let client = env (ascii ''TOR_PT_CLIENT_TRANSPORTS''); server = env (ascii ''TOR_PT_SERVER_TRANSPORTS'')
      in if client \<noteq> [] \<and> server \<noteq> [] then
           (case (env_error (ascii ''TOR_PT_[CLIENT,SERVER]_TRANSPORTS both set'') :: unit ctl) of
              (Panic, ls) \<Rightarrow> (Panic, ls)
            | (_, ls) \<Rightarrow> (Err (ascii ''TOR_PT_[CLIENT,SERVER]_TRANSPORTS both set''), ls))
         else if client \<noteq> [] then ctl_ok True
         else if server \<noteq> [] then ctl_ok False
         else (Err (ascii ''not launched as a managed transport''), []))"

definition exit_on_stdin_close :: "env \<Rightarrow> bool" where
  "exit_on_stdin_close env \<longleftrightarrow> env (ascii ''TOR_PT_EXIT_ON_STDIN_CLOSE'') = ascii ''1''"

text \<open>The storage port answers with nothing or the text of its error.\<close>

definition make_state_dir :: "env \<Rightarrow> (bytes \<Rightarrow> bytes option) \<Rightarrow> bytes ctl" where
  "make_state_dir env create =
     ctl_bind (getenv_required env ''TOR_PT_STATE_LOCATION'') (\<lambda>dir.
       case create dir of
         None \<Rightarrow> ctl_ok dir
       | Some e \<Rightarrow> (Err (ascii ''mkdir '' @ dir @ ascii '': '' @ e), []))"

definition client_setup :: "env \<Rightarrow> bytes list ctl" where
  "client_setup env =
     ctl_bind (get_managed_transport_ver env) (\<lambda>ver.
     ctl_bind (tor_line ''VERSION'' [ver]) (\<lambda>_.
     ctl_bind (getenv_required env ''TOR_PT_CLIENT_TRANSPORTS'') (\<lambda>transports. ctl_ok (split_on 44 transports))))"

record bindaddr =
  ba_method :: bytes
  ba_addr :: socket_addr
  ba_options :: args

record server_info =
  si_bindaddrs :: "bindaddr list"
  si_or_addr :: "socket_addr option"
  si_extended_or_addr :: "socket_addr option"
  si_auth_cookie_path :: bytes

text \<open>\<open>map_err\<close> with a line to tor.\<close>

definition ctl_addr :: "text_env \<Rightarrow> bytes \<Rightarrow> (socket_addr, addr_error) res \<Rightarrow> socket_addr ctl" where
  "ctl_addr te prefix r =
     (case r of Ok a \<Rightarrow> ctl_ok a | Err e \<Rightarrow> env_error (prefix @ show_addr_error te e) | Panic \<Rightarrow> (Panic, []))"

fun bind_specs :: "text_env \<Rightarrow> options \<Rightarrow> bytes list \<Rightarrow> bytes list \<Rightarrow> bindaddr list ctl" where
  "bind_specs te opts seen [] = ctl_ok []"
| "bind_specs te opts seen (spec # specs) =
     (let pre = ascii ''TOR_PT_SERVER_BINDADDR: '' @ debug te spec
      in case split_once 45 spec of
        None \<Rightarrow> env_error (pre @ ascii '': doesn't contain \"-\"'')
      | Some (name, addr) \<Rightarrow>
          if name \<in> set seen then env_error (pre @ ascii '': duplicate method name '' @ debug te name)
          else ctl_bind (ctl_addr te (pre @ ascii '': '') (resolve_addr addr)) (\<lambda>a.
               ctl_bind (bind_specs te opts (name # seen) specs) (\<lambda>bs.
                 ctl_ok (\<lparr>ba_method = name, ba_addr = a,
                          ba_options = (case opts name of Some o' \<Rightarrow> o' | None \<Rightarrow> args_new)\<rparr> # bs))))"

definition get_server_bindaddrs :: "text_env \<Rightarrow> env \<Rightarrow> bindaddr list ctl" where
  "get_server_bindaddrs te env =
     (let raw_opts = env (ascii ''TOR_PT_SERVER_TRANSPORT_OPTIONS'')
      in ctl_bind (case parse_server_transport_options raw_opts of
             Ok opts \<Rightarrow> ctl_ok opts
           | Err e \<Rightarrow> env_error (ascii ''TOR_PT_SERVER_TRANSPORT_OPTIONS: '' @ debug te raw_opts @ ascii '': '' @ show_args_error te e)
           | Panic \<Rightarrow> (Panic, [])) (\<lambda>opts.
         ctl_bind (getenv_required env ''TOR_PT_SERVER_BINDADDR'') (\<lambda>bnd.
         ctl_bind (bind_specs te opts [] (split_on 44 bnd)) (\<lambda>result.
         ctl_bind (getenv_required env ''TOR_PT_SERVER_TRANSPORTS'') (\<lambda>transports.
           let wanted = split_on 44 transports
           in ctl_ok (filter (\<lambda>b. ba_method b \<in> set wanted) result))))))"

definition or_addr_of :: "text_env \<Rightarrow> env \<Rightarrow> socket_addr option ctl" where
  "or_addr_of te env =
     (let or_port = env (ascii ''TOR_PT_ORPORT'')
      in if or_port = [] then ctl_ok None
         else ctl_bind (ctl_addr te (ascii ''cannot resolve TOR_PT_ORPORT '' @ debug te or_port @ ascii '': '') (resolve_addr or_port))
                (\<lambda>a. ctl_ok (Some a)))"

definition ext_addr_of :: "text_env \<Rightarrow> env \<Rightarrow> socket_addr option ctl" where
  "ext_addr_of te env =
     (let ext = env (ascii ''TOR_PT_EXTENDED_SERVER_PORT''); cookie = env (ascii ''TOR_PT_AUTH_COOKIE_FILE'')
      in if ext = [] then ctl_ok None
         else if cookie = [] then
           env_error (ascii ''need TOR_PT_AUTH_COOKIE_FILE environment variable with TOR_PT_EXTENDED_SERVER_PORT'')
         else ctl_bind (ctl_addr te (ascii ''cannot resolve TOR_PT_EXTENDED_SERVER_PORT '' @ debug te ext @ ascii '': '') (resolve_addr ext))
                (\<lambda>a. ctl_ok (Some a)))"

definition server_setup :: "text_env \<Rightarrow> env \<Rightarrow> server_info ctl" where
  "server_setup te env =
     ctl_bind (get_managed_transport_ver env) (\<lambda>ver.
     ctl_bind (tor_line ''VERSION'' [ver]) (\<lambda>_.
     ctl_bind (get_server_bindaddrs te env) (\<lambda>bs.
     ctl_bind (or_addr_of te env) (\<lambda>ora.
     ctl_bind (ext_addr_of te env) (\<lambda>ext.
       if ora = None \<and> ext = None then env_error (ascii ''need TOR_PT_ORPORT or TOR_PT_EXTENDED_SERVER_PORT environment variable'')
       else ctl_ok \<lparr>si_bindaddrs = bs, si_or_addr = ora, si_extended_or_addr = ext,
                    si_auth_cookie_path = env (ascii ''TOR_PT_AUTH_COOKIE_FILE'')\<rparr>)))))"

section \<open>The proxy\<close>

datatype proxy_config = HttpProxy bytes "(bytes \<times> bytes) option" | Socks4aProxy bytes bytes | Socks5Proxy bytes "(bytes \<times> bytes) option"

record proxy_spec =
  px_scheme :: bytes
  px_username :: "bytes option"
  px_password :: "bytes option"
  px_host_port :: bytes
  px_path :: bool
  px_query :: bool
  px_fragment :: bool

definition scheme_ok :: "bytes \<Rightarrow> bool" where
  "scheme_ok s \<longleftrightarrow> s \<noteq> [] \<and> is_alpha (hd s) \<and> list_all (\<lambda>c. is_alpha c \<or> is_digit c \<or> c \<in> {43, 45, 46}) s"

text \<open>Percent decoding, of another crate, is an argument.\<close>

definition user_info :: "(bytes \<Rightarrow> bytes) \<Rightarrow> bytes option \<Rightarrow> bytes option \<times> bytes option" where
  "user_info pct ui =
     (case ui of
        None \<Rightarrow> (None, None)
      | Some u \<Rightarrow> (case split_once 58 u of Some (a, b) \<Rightarrow> (Some (pct a), Some (pct b)) | None \<Rightarrow> (Some (pct u), None)))"

definition parse_proxy_uri :: "text_env \<Rightarrow> (bytes \<Rightarrow> bytes) \<Rightarrow> bytes \<Rightarrow> (proxy_spec, bytes) res" where
  "parse_proxy_uri te pct raw =
     (case find_sub [58, 47, 47] raw of
        None \<Rightarrow> Err (ascii ''proxy URI is relative, must be absolute'')
      | Some i \<Rightarrow>
          let scheme = take i raw; rest = drop (i + 3) raw
          in if \<not> scheme_ok scheme then Err (ascii ''invalid scheme '' @ debug te scheme)
             else
               let authority = takeWhile (\<lambda>c. c \<notin> {47, 63, 35}) rest; tail = dropWhile (\<lambda>c. c \<notin> {47, 63, 35}) rest;
                   (userinfo, host_port) = (case find_last 64 authority of
                      Some j \<Rightarrow> (Some (take j authority), drop (j + 1) authority) | None \<Rightarrow> (None, authority));
                   (username, password) = user_info pct userinfo;
                   query_part = dropWhile (\<lambda>c. c \<notin> {63, 35}) tail
               in Ok \<lparr>px_scheme = map lower scheme, px_username = username, px_password = password, px_host_port = host_port,
                      px_path = length query_part < length tail,
                      px_query = take 1 query_part = [63] \<and> 1 < length query_part,
                      px_fragment = 35 \<in> set query_part \<and> last query_part \<noteq> 35\<rparr>)"

definition resolve_ip_port :: "text_env \<Rightarrow> bytes \<Rightarrow> (socket_addr, bytes) res" where
  "resolve_ip_port te addr =
     (case split_host_port addr of
        Err e \<Rightarrow> Err (show_addr_error te e)
      | Panic \<Rightarrow> Panic
      | Ok (ip, port) \<Rightarrow>
          if ip = [] then Err (show_addr_error te (NoHost addr))
          else if port = [] then Err (show_addr_error te (NoPort addr))
          else case parse_ip ip of
            None \<Rightarrow> Err (show_addr_error te (NotAnIp ip))
          | Some a \<Rightarrow>
              (case parse_unsigned 10 65535 port of
                 None \<Rightarrow> Err (ascii ''not a Port string: '' @ debug te port)
               | Some p \<Rightarrow> Ok (a, word_of_nat p)))"

definition socks5_auth :: "bytes option \<Rightarrow> bytes option \<Rightarrow> (bytes \<times> bytes) option ctl" where
  "socks5_auth username password =
     (case username of
        None \<Rightarrow> ctl_ok None
      | Some u \<Rightarrow>
          if u = [] \<or> 255 < length u then proxy_error (ascii ''proxy URI specified a invalid SOCKS5 username'')
          else case password of
            Some p \<Rightarrow> if p \<noteq> [] \<and> length p \<le> 255 then ctl_ok (Some (u, p))
                     else proxy_error (ascii ''proxy URI specified a invalid SOCKS5 password'')
          | None \<Rightarrow> proxy_error (ascii ''proxy URI specified a invalid SOCKS5 password''))"

definition proxy_of_spec :: "proxy_spec \<Rightarrow> proxy_config ctl" where
  "proxy_of_spec sp =
     (if px_scheme sp = ascii ''http'' then
        ctl_ok (HttpProxy (px_host_port sp)
          (map_option (\<lambda>u. (u, case px_password sp of Some p \<Rightarrow> p | None \<Rightarrow> [])) (px_username sp)))
      else if px_scheme sp = ascii ''socks4a'' then
        (if px_password sp \<noteq> None then proxy_error (ascii ''proxy URI specified SOCKS4a and a password'')
         else ctl_ok (Socks4aProxy (px_host_port sp) (case px_username sp of Some u \<Rightarrow> u | None \<Rightarrow> [])))
      else if px_scheme sp = ascii ''socks5'' then
        ctl_bind (socks5_auth (px_username sp) (px_password sp)) (\<lambda>auth. ctl_ok (Socks5Proxy (px_host_port sp) auth))
      else proxy_error (ascii ''proxy URI has invalid scheme: '' @ px_scheme sp))"

definition proxy_from_env :: "text_env \<Rightarrow> (bytes \<Rightarrow> bytes) \<Rightarrow> env \<Rightarrow> proxy_config option ctl" where
  "proxy_from_env te pct env =
     (let raw = env (ascii ''TOR_PT_PROXY'')
      in if raw = [] then ctl_ok None
         else case parse_proxy_uri te pct raw of
           Err e \<Rightarrow> proxy_error (ascii ''failed to parse proxy config: '' @ e)
         | Panic \<Rightarrow> (Panic, [])
         | Ok sp \<Rightarrow>
             if px_path sp then proxy_error (ascii ''proxy URI has a path defined'')
             else if px_query sp then proxy_error (ascii ''proxy URI has a query defined'')
             else if px_fragment sp then proxy_error (ascii ''proxy URI has a fragment defined'')
             else ctl_bind (proxy_of_spec sp) (\<lambda>config.
               case resolve_ip_port te (px_host_port sp) of
                 Err e \<Rightarrow> proxy_error (ascii ''proxy URI has invalid host: '' @ e)
               | Panic \<Rightarrow> (Panic, [])
               | Ok _ \<Rightarrow> ctl_ok (Some config)))"

section \<open>Quoted strings\<close>

text \<open>What tor makes of a quoted string: three octal digits after a backslash are a byte.\<close>

fun unquote_chars :: "bytes \<Rightarrow> bytes option" where
  "unquote_chars [] = None"
| "unquote_chars (c # s) =
     (if c = 34 then (if s = [] then Some [] else None)
      else if c = 92 then
        (case s of
           a # b # d # r \<Rightarrow> map_option (\<lambda>t. word_of_nat (unat (a - 48) * 64 + unat (b - 48) * 8 + unat (d - 48)) # t) (unquote_chars r)
         | _ \<Rightarrow> None)
      else map_option (\<lambda>t. c # t) (unquote_chars s))"

definition unquote :: "bytes \<Rightarrow> bytes option" where
  "unquote q = (case q of c # s \<Rightarrow> if c = 34 then unquote_chars s else None | [] \<Rightarrow> None)"

lemma octal3_value: "\<exists>a b d. octal3 c = [a, b, d] \<and> list_all (\<lambda>x. 48 \<le> x \<and> x \<le> 55) [a, b, d] \<and>
    word_of_nat (unat (a - 48) * 64 + unat (b - 48) * 8 + unat (d - 48)) = c"
proof -
  have digit: "unat (word_of_nat (48 + k) - 48 :: u8) = k \<and> 48 \<le> (word_of_nat (48 + k) :: u8) \<and> (word_of_nat (48 + k) :: u8) \<le> 55"
    if "k < 8" for k :: nat
  proof -
    have "(word_of_nat (48 + k) :: u8) - 48 = word_of_nat k" by simp
    then have "unat (word_of_nat (48 + k) - 48 :: u8) = k" using that by (simp only: unat_byte) simp
    moreover have "unat (word_of_nat (48 + k) :: u8) = 48 + k" using that by (simp only: unat_byte) simp
    ultimately show ?thesis using that by (simp add: word_le_nat_alt del: of_nat_add)
  qed
  have c: "unat c < 256" by (rule unat_byte_less)
  then have "unat c div 64 < 8" by (simp add: less_mult_imp_div_less)
  moreover have "unat c div 8 mod 8 < 8" "unat c mod 8 < 8" by simp_all
  moreover have "unat c div 64 * 64 + unat c div 8 mod 8 * 8 + unat c mod 8 = unat c"
  proof -
    have "unat c div 64 = unat c div 8 div 8" by (simp add: div_mult2_eq [symmetric])
    then show ?thesis using div_mult_mod_eq [of "unat c" 8] div_mult_mod_eq [of "unat c div 8" 8] by linarith
  qed
  ultimately show ?thesis
    using digit [of "unat c div 64"] digit [of "unat c div 8 mod 8"] digit [of "unat c mod 8"]
    by (simp add: octal3_def del: of_nat_add)
qed

lemma unquote_chars_encode: "unquote_chars (concat (map cstring_char s) @ [34]) = Some s"
proof (induction s)
  case (Cons c s)
  obtain a b d where o: "octal3 c = [a, b, d]" "word_of_nat (unat (a - 48) * 64 + unat (b - 48) * 8 + unat (d - 48)) = c"
    using octal3_value [of c] by blast
  show ?case
  proof (cases "c = 32 \<or> c = 33 \<or> (35 \<le> c \<and> c \<le> 91) \<or> (93 \<le> c \<and> c \<le> 126)")
    case True
    then have "c \<noteq> 34" "c \<noteq> 92" by auto
    with True Cons show ?thesis by (simp add: cstring_char_def)
  next
    case False
    then have "cstring_char c = [92, a, b, d]" using o(1) by (simp add: cstring_char_def)
    with o(2) Cons show ?thesis by simp
  qed
qed simp

lemma cstring_char_safe: "arg_is_safe (cstring_char c)"
proof -
  obtain a b d where o: "octal3 c = [a, b, d]" "list_all (\<lambda>x. 48 \<le> x \<and> x \<le> 55) [a, b, d]" using octal3_value [of c] by blast
  have "x < 0x80 \<and> x \<noteq> 0 \<and> x \<noteq> 10" if "48 \<le> x" "x \<le> 55" for x :: u8
    using that by (auto simp: word_le_nat_alt word_less_nat_alt)
  moreover have "x < 0x80 \<and> x \<noteq> 0 \<and> x \<noteq> 10" if "(35 \<le> x \<and> x \<le> 91) \<or> (93 \<le> x \<and> x \<le> 126)" for x :: u8
    using that by (auto simp: word_le_nat_alt word_less_nat_alt)
  ultimately show ?thesis using o by (auto simp: arg_is_safe_def cstring_char_def)
qed

lemma arg_is_safe_append [simp]: "arg_is_safe (s @ t) \<longleftrightarrow> arg_is_safe s \<and> arg_is_safe t"
  by (simp add: arg_is_safe_def)

lemma encode_cstring_safe: "arg_is_safe (encode_cstring s)"
proof -
  have "arg_is_safe (concat (map cstring_char s))"
    using cstring_char_safe by (induction s) (auto simp: arg_is_safe_def)
  then show ?thesis by (simp add: encode_cstring_def) (simp add: arg_is_safe_def)
qed

lemma severity_safe: "arg_is_safe (ascii ''SEVERITY='' @ ascii (severity_name sev))"
  by (cases sev) (simp_all add: severity_name_def ascii_def arg_is_safe_def)

lemma tor_log_line:
  "\<exists>q. tor_log sev msg = (Ok (), [ascii ''LOG SEVERITY='' @ ascii (severity_name sev) @ ascii '' MESSAGE='' @ q]) \<and>
     arg_is_safe q \<and> unquote q = Some msg"
proof (intro exI conjI)
  have safe: "arg_is_safe (ascii ''MESSAGE='' @ encode_cstring msg)"
    using encode_cstring_safe [of msg] by (simp add: arg_is_safe_def ascii_def)
  have key: "keyword_is_safe (ascii ''LOG'')" by (simp add: keyword_is_safe_def ascii_def is_alpha_def)
  show "tor_log sev msg = (Ok (), [ascii ''LOG SEVERITY='' @ ascii (severity_name sev) @ ascii '' MESSAGE='' @ encode_cstring msg])"
    using safe severity_safe [of sev] key by (simp add: tor_log_def tor_line_def format_line_def) (simp add: ascii_def)
  show "arg_is_safe (encode_cstring msg)" by (rule encode_cstring_safe)
  show "unquote (encode_cstring msg) = Some msg" using unquote_chars_encode [of msg] by (simp add: unquote_def encode_cstring_def)
qed

text \<open>C30: Whatever a message holds, relaying it to tor's log writes exactly one line, of safe bytes only, from
  which tor's unquoting recovers the message; it never trips the assertion on forbidden bytes.\<close>
theorem log_lines_safe:
  "\<exists>q. tor_log sev msg = (Ok (), [ascii ''LOG SEVERITY='' @ ascii (severity_name sev) @ ascii '' MESSAGE='' @ q]) \<and>
     arg_is_safe q \<and> unquote q = Some msg"
  by (rule tor_log_line)

section \<open>Setup errors reach tor\<close>

text \<open>A call that fails has written its error and, before it, nothing but the lines in \<open>pre\<close>.\<close>

definition reports :: "bytes list set \<Rightarrow> 'a ctl \<Rightarrow> bool" where
  "reports pre c \<longleftrightarrow> (case c of (Ok _, ls) \<Rightarrow> ls \<in> pre | (Err e, ls) \<Rightarrow> \<exists>p \<in> pre. ls = p @ [e] | (Panic, ls) \<Rightarrow> ls \<in> pre)"

lemma reports_error [simp]: "reports {[]} (tor_error k as)"
  by (auto simp: reports_def tor_error_def split: option.split)

lemma reports_simps [simp]: "reports {[]} (env_error m)" "reports {[]} (version_error m)" "reports {[]} (proxy_error m)"
  "reports {[]} (Panic, [])" "reports {[]} (Ok a, [])"
  by (simp_all add: env_error_def version_error_def proxy_error_def) (simp_all add: reports_def)

lemma reports_bind: "reports {[]} c \<Longrightarrow> (\<And>a. reports {[]} (f a)) \<Longrightarrow> reports {[]} (ctl_bind c f)"
  by (cases "(c, f)" rule: ctl_bind.cases) (force simp: reports_def split: res.splits prod.splits)+

lemma reports_getenv [simp]: "reports {[]} (getenv_required env k)"
  by (simp add: getenv_required_def Let_def)

lemma reports_ctl_addr [simp]: "reports {[]} (ctl_addr te p r)"
  by (simp add: ctl_addr_def split: res.split)

lemma reports_bind_specs: "reports {[]} (bind_specs te opts seen specs)"
  by (induction te opts seen specs rule: bind_specs.induct) (auto simp: Let_def intro!: reports_bind split: option.splits)

lemma reports_rest:
  "reports {[]} (get_server_bindaddrs te env)" "reports {[]} (or_addr_of te env)" "reports {[]} (ext_addr_of te env)"
  by (auto simp: get_server_bindaddrs_def or_addr_of_def ext_addr_of_def Let_def intro!: reports_bind reports_bind_specs split: res.split)

definition VERSION_LINE :: bytes where "VERSION_LINE = ascii ''VERSION 1''"

lemma version_line: "tor_line ''VERSION'' [TRANSPORT_VERSION] = (Ok (), [VERSION_LINE])"
  by (simp add: tor_line_def format_line_def keyword_is_safe_def arg_is_safe_def ascii_def is_alpha_def TRANSPORT_VERSION_def VERSION_LINE_def)

lemma reports_version: "reports {[]} (get_managed_transport_ver env)"
  by (auto simp: get_managed_transport_ver_def intro!: reports_bind)

lemma version_ok: "get_managed_transport_ver env = (Ok v, ls) \<Longrightarrow> v = TRANSPORT_VERSION \<and> ls = []"
  by (auto simp: get_managed_transport_ver_def getenv_required_def Let_def env_error_def version_error_def tor_error_def
    split: if_splits option.splits)

section \<open>Printable environments never make setup panic\<close>

text \<open>A line to tor that names an error, of bytes the protocol allows.\<close>

definition error_line :: "bytes \<Rightarrow> bool" where
  "error_line l \<longleftrightarrow> (\<exists>m. arg_is_safe m \<and> (l = ascii ''ENV-ERROR '' @ m \<or> l = ascii ''VERSION-ERROR '' @ m))"

text \<open>A call that ends without a panic and, if it fails, has written its error as its one line.\<close>

definition speaks :: "'a ctl \<Rightarrow> bool" where
  "speaks c \<longleftrightarrow> (case c of (Ok _, ls) \<Rightarrow> ls = [] | (Err e, ls) \<Rightarrow> ls = [e] \<and> error_line e | (Panic, _) \<Rightarrow> False)"

lemma speaks_ok [simp]: "speaks (ctl_ok a)"
  by (simp add: speaks_def)

lemma speaks_bind: "speaks c \<Longrightarrow> (\<And>a ls. c = (Ok a, ls) \<Longrightarrow> speaks (f a)) \<Longrightarrow> speaks (ctl_bind c f)"
  by (cases "(c, f)" rule: ctl_bind.cases) (force simp: speaks_def split: res.splits prod.splits)+

lemma speaks_error: "arg_is_safe m \<Longrightarrow> speaks (env_error m)" "arg_is_safe m \<Longrightarrow> speaks (version_error m)"
proof -
  assume m: "arg_is_safe m"
  have k: "keyword_is_safe (ascii ''ENV-ERROR'')" "keyword_is_safe (ascii ''VERSION-ERROR'')"
    by (simp_all add: keyword_is_safe_def ascii_def is_alpha_def)
  have t: "ascii ''ENV-ERROR'' @ 32 # m = ascii ''ENV-ERROR '' @ m" "ascii ''VERSION-ERROR'' @ 32 # m = ascii ''VERSION-ERROR '' @ m"
    by (simp_all add: ascii_def)
  show "speaks (env_error m)" "speaks (version_error m)"
    using m k by (auto simp: speaks_def env_error_def version_error_def tor_error_def format_line_def error_line_def t)
qed

lemma safe_texts:
  "arg_is_safe s \<Longrightarrow> arg_is_safe (take n s)" "arg_is_safe s \<Longrightarrow> arg_is_safe (drop n s)"
  "arg_is_safe s \<Longrightarrow> t \<in> set (split_on c s) \<Longrightarrow> arg_is_safe t"
  "arg_is_safe s \<Longrightarrow> split_once c s = Some (a, b) \<Longrightarrow> arg_is_safe a \<and> arg_is_safe b"
  "arg_is_safe [c] \<Longrightarrow> \<forall>t \<in> set ts. arg_is_safe t \<Longrightarrow> arg_is_safe (join c ts)"
proof -
  show "arg_is_safe s \<Longrightarrow> arg_is_safe (take n s)" "arg_is_safe s \<Longrightarrow> arg_is_safe (drop n s)"
    by (auto simp: arg_is_safe_def list_all_iff dest: in_set_takeD in_set_dropD)
  show "arg_is_safe s \<Longrightarrow> t \<in> set (split_on c s) \<Longrightarrow> arg_is_safe t"
    by (induction c s arbitrary: t rule: split_on.induct) (auto simp: arg_is_safe_def split: if_splits list.splits)
  show "arg_is_safe s \<Longrightarrow> split_once c s = Some (a, b) \<Longrightarrow> arg_is_safe a \<and> arg_is_safe b"
    by (induction c s arbitrary: a b rule: split_once.induct) (auto simp: arg_is_safe_def split: if_splits)
  show "arg_is_safe [c] \<Longrightarrow> \<forall>t \<in> set ts. arg_is_safe t \<Longrightarrow> arg_is_safe (join c ts)"
    by (induction c ts rule: join.induct) (auto simp: arg_is_safe_def)
qed

lemma debug_safe: "arg_is_safe s \<Longrightarrow> arg_is_safe (debug te s)"
proof -
  have hex: "arg_is_safe (hex_nat n)" for n
    using hex_nat_plain [of _ n] by (fastforce simp: arg_is_safe_def list_all_iff)
  have "arg_is_safe (debug_ascii c)" if "arg_is_safe [c]" for c
    using that hex [of "unat c"] by (auto simp: debug_ascii_def arg_is_safe_def)
  then have "arg_is_safe (debug_chars te s)" if "arg_is_safe s" for s
    using that by (induction te s rule: debug_chars.induct) (auto simp: arg_is_safe_def)
  then show "arg_is_safe s \<Longrightarrow> arg_is_safe (debug te s)" by (simp add: debug_def) (simp add: arg_is_safe_def)
qed

text \<open>The errors of the transport options quote parts of them.\<close>

definition quotes_safe :: "args_error \<Rightarrow> bool" where
  "quotes_safe e \<longleftrightarrow>
     (case e of BadUtf8 _ \<Rightarrow> False | DanglingEscape s \<Rightarrow> arg_is_safe s | NoEquals s \<Rightarrow> arg_is_safe s | NoColon s \<Rightarrow> arg_is_safe s
      | EmptyKey s \<Rightarrow> arg_is_safe s | EmptyMethod s \<Rightarrow> arg_is_safe s)"

lemma index_unescaped_quotes: "arg_is_safe s \<Longrightarrow> index_unescaped s stop = Err e \<Longrightarrow> quotes_safe e"
proof -
  have "arg_is_safe u" if "unescape stop s = Some (i, u)" "arg_is_safe s" for i u s
    using that by (induction stop s arbitrary: i u rule: unescape.induct) (auto simp: arg_is_safe_def split: if_splits list.splits)
  moreover have "utf8_valid u" if "arg_is_safe u" for u
    using that by (induction u) (auto simp: arg_is_safe_def)
  ultimately show "arg_is_safe s \<Longrightarrow> index_unescaped s stop = Err e \<Longrightarrow> quotes_safe e"
    by (auto simp: index_unescaped_def quotes_safe_def split: option.splits if_splits)
qed

lemma parse_option_quotes: "arg_is_safe s \<Longrightarrow> parse_option s = Err e \<Longrightarrow> quotes_safe e"
  by (auto simp: parse_option_def Let_def safe_texts(1,2) quotes_safe_def [of "NoColon _"] quotes_safe_def [of "NoEquals _"]
      quotes_safe_def [of "EmptyKey _"] quotes_safe_def [of "EmptyMethod _"]
      split: res.splits if_splits elim!: index_unescaped_quotes [rotated])

lemma parse_option_rest: "arg_is_safe s \<Longrightarrow> parse_option s = Ok (kv, Some rest) \<Longrightarrow> arg_is_safe rest"
  by (auto simp: parse_option_def Let_def safe_texts(1,2) split: res.splits if_splits)

lemma parse_option_not_panic: "parse_option s \<noteq> Panic"
  by (auto simp: parse_option_def index_unescaped_def Let_def split: res.splits if_splits option.splits)

lemma parse_options_quotes:
  "arg_is_safe s \<Longrightarrow> case parse_options s opts of Ok _ \<Rightarrow> True | Err e \<Rightarrow> quotes_safe e | Panic \<Rightarrow> False"
proof (induction s opts rule: parse_options.induct)
  case (1 s opts)
  show ?case
  proof (cases "parse_option s")
    case (Ok x)
    then obtain m k v rest where x: "parse_option s = Ok ((m, k, v), rest)" by (cases x) auto
    with 1 parse_option_rest show ?thesis by (cases rest) (fastforce simp: parse_options.simps [of s])+
  qed (use 1 parse_option_quotes parse_option_not_panic in \<open>auto simp: parse_options.simps [of s]\<close>)
qed

lemma args_error_safe: "quotes_safe e \<Longrightarrow> arg_is_safe (show_args_error te e)"
  by (cases e) (simp_all add: quotes_safe_def show_args_error_def debug_safe, simp_all add: arg_is_safe_def ascii_def)

text \<open>The errors of an address quote it or parts of it.\<close>

definition addr_quotes_safe :: "addr_error \<Rightarrow> bool" where
  "addr_quotes_safe e \<longleftrightarrow>
     (case e of MissingPort s \<Rightarrow> arg_is_safe s | MissingBracket s \<Rightarrow> arg_is_safe s | TooManyColons s \<Rightarrow> arg_is_safe s
      | UnexpectedOpen s \<Rightarrow> arg_is_safe s | UnexpectedClose s \<Rightarrow> arg_is_safe s | NoHost s \<Rightarrow> arg_is_safe s
      | NoPort s \<Rightarrow> arg_is_safe s | NotAnIp s \<Rightarrow> arg_is_safe s | BadPort s \<Rightarrow> True)"

lemma addr_error_safe: "addr_quotes_safe e \<Longrightarrow> arg_is_safe (show_addr_error te e)"
proof -
  have "arg_is_safe (ascii (parse_failure r m n s))" for r m n s
    by (induction r m n s rule: parse_failure.induct) (auto simp: arg_is_safe_def ascii_def split: option.split)
  then show "addr_quotes_safe e \<Longrightarrow> arg_is_safe (show_addr_error te e)"
    by (cases e) (simp_all add: addr_quotes_safe_def show_addr_error_def debug_safe, simp_all add: arg_is_safe_def ascii_def)
qed

lemma split_host_port_quotes:
  assumes "arg_is_safe s"
  shows "case split_host_port s of Ok (ip, port) \<Rightarrow> arg_is_safe ip | Err e \<Rightarrow> addr_quotes_safe e | Panic \<Rightarrow> False"
  using assms by (auto simp: split_host_port_def split_tail_def addr_quotes_safe_def slice_def safe_texts(1,2) split: option.splits)

lemma resolve_parts_quotes:
  "arg_is_safe addr \<Longrightarrow> arg_is_safe ip \<Longrightarrow>
    case resolve_parts addr (ip, port) of Ok _ \<Rightarrow> True | Err e \<Rightarrow> addr_quotes_safe e | Panic \<Rightarrow> False"
  by (auto simp: resolve_parts_def addr_quotes_safe_def split: option.splits)

lemma resolve_addr_quotes:
  assumes s: "arg_is_safe addr"
  shows "case resolve_addr addr of Ok _ \<Rightarrow> True | Err e \<Rightarrow> addr_quotes_safe e | Panic \<Rightarrow> False"
proof -
  let ?ps = "split_on 58 addr"
  have parts: "\<forall>t \<in> set ?ps. arg_is_safe t" using safe_texts(3) [OF s] by blast
  then have "arg_is_safe (join 58 (butlast ?ps))" by (intro safe_texts(5)) (auto simp: arg_is_safe_def dest: in_set_butlastD)
  moreover have "arg_is_safe (last ?ps)" using parts by simp
  ultimately have again: "arg_is_safe ([91] @ join 58 (butlast ?ps) @ [93, 58] @ last ?ps)"
    by (simp add: arg_is_safe_def)
  have resolved: "resolve_parts addr (ip, port) = Err e \<Longrightarrow> arg_is_safe ip \<Longrightarrow> addr_quotes_safe e"
    "resolve_parts addr (ip, port) \<noteq> Panic" for ip port e
    using resolve_parts_quotes [OF s, of ip port] by (auto simp: resolve_parts_def split: option.splits)
  show ?thesis
    using split_host_port_quotes [OF s] split_host_port_quotes [OF again] resolved
    by (auto simp: resolve_addr_def Let_def split: res.splits prod.splits)
qed

lemma speaks_ctl_addr:
  assumes "arg_is_safe p" and "arg_is_safe addr"
  shows "speaks (ctl_addr te p (resolve_addr addr))"
  using resolve_addr_quotes [OF assms(2)] assms(1)
  by (auto simp: ctl_addr_def addr_error_safe split: res.splits intro!: speaks_error)

lemma speaks_getenv: "list_all (\<lambda>c. arg_is_safe (ascii [c])) k \<Longrightarrow> speaks (getenv_required env k)"
proof -
  assume "list_all (\<lambda>c. arg_is_safe (ascii [c])) k"
  then have "arg_is_safe (ascii k)" by (induction k) (auto simp: arg_is_safe_def ascii_def)
  then show "speaks (getenv_required env k)"
    by (auto simp: getenv_required_def Let_def intro!: speaks_error) (auto simp: arg_is_safe_def ascii_def)
qed

lemma speaks_bind_specs: "\<forall>s \<in> set specs. arg_is_safe s \<Longrightarrow> speaks (bind_specs te opts seen specs)"
proof (induction te opts seen specs rule: bind_specs.induct)
  case (2 te opts seen spec specs)
  have spec: "arg_is_safe spec" using 2(2) by simp
  have pre: "arg_is_safe (ascii ''TOR_PT_SERVER_BINDADDR: '' @ debug te spec @ t)" if "arg_is_safe t" for t
    using debug_safe [OF spec] that by (simp add: arg_is_safe_def ascii_def)
  show ?case
  proof (cases "split_once 45 spec")
    case None
    then show ?thesis using pre [of "ascii '': doesn't contain \"-\"''"]
      by (auto intro!: speaks_error simp: Let_def) (auto simp: arg_is_safe_def ascii_def)
  next
    case (Some x)
    then obtain name addr where x: "split_once 45 spec = Some (name, addr)" by (cases x) auto
    have parts: "arg_is_safe name" "arg_is_safe addr" using safe_texts(4) [OF spec x] by blast+
    have dup: "arg_is_safe (ascii '': duplicate method name '' @ debug te name)" and sep: "arg_is_safe (ascii '': '')"
      using debug_safe [OF parts(1)] by (simp_all add: arg_is_safe_def ascii_def)
    show ?thesis
    proof (cases "name \<in> set seen")
      case True
      then show ?thesis using x pre [OF dup] by (auto intro!: speaks_error simp: Let_def)
    next
      case False
      have "speaks (bind_specs te opts (name # seen) specs)" using 2(1) [OF refl x refl False] 2(2) by simp
      moreover have "speaks (ctl_addr te ((ascii ''TOR_PT_SERVER_BINDADDR: '' @ debug te spec) @ ascii '': '') (resolve_addr addr))"
        using pre [OF sep] parts(2) by (intro speaks_ctl_addr) simp_all
      ultimately show ?thesis using x False by (auto simp: Let_def intro!: speaks_bind)
    qed
  qed
qed simp

lemma speaks_server_parts:
  assumes "\<forall>k. arg_is_safe (env k)"
  shows "speaks (get_server_bindaddrs te env)" "speaks (or_addr_of te env)" "speaks (ext_addr_of te env)"
proof -
  have env: "arg_is_safe (env k)" for k using assms by blast
  note texts = debug_safe [OF env]
  let ?opts = "env (ascii ''TOR_PT_SERVER_TRANSPORT_OPTIONS'')"
  have opts: "case parse_server_transport_options ?opts of Ok _ \<Rightarrow> True | Err e \<Rightarrow> quotes_safe e | Panic \<Rightarrow> False"
    using parse_options_quotes [OF env] by (simp add: parse_server_transport_options_def)
  have lit: "arg_is_safe (ascii ''TOR_PT_SERVER_TRANSPORT_OPTIONS: '')" "arg_is_safe (ascii '': '')"
    "arg_is_safe (ascii ''cannot resolve TOR_PT_ORPORT '')" "arg_is_safe (ascii ''cannot resolve TOR_PT_EXTENDED_SERVER_PORT '')"
    "arg_is_safe (ascii ''need TOR_PT_AUTH_COOKIE_FILE environment variable with TOR_PT_EXTENDED_SERVER_PORT'')"
    by (simp_all add: arg_is_safe_def ascii_def)
  have first: "speaks (case parse_server_transport_options ?opts of Ok opts \<Rightarrow> ctl_ok opts
      | Err e \<Rightarrow> env_error (ascii ''TOR_PT_SERVER_TRANSPORT_OPTIONS: '' @ debug te ?opts @ ascii '': '' @ show_args_error te e)
      | Panic \<Rightarrow> (Panic, []))"
    using opts lit texts args_error_safe by (auto split: res.splits intro!: speaks_error)
  have keys: "speaks (getenv_required env ''TOR_PT_SERVER_BINDADDR'')" "speaks (getenv_required env ''TOR_PT_SERVER_TRANSPORTS'')"
    by (rule speaks_getenv, simp add: arg_is_safe_def ascii_def)+
  have specs: "speaks (bind_specs te opts [] (split_on 44 bnd))" if "getenv_required env k = (Ok bnd, ls)" for opts bnd k ls
  proof (rule speaks_bind_specs)
    have "bnd = env (ascii k)" using that by (auto simp: getenv_required_def Let_def env_error_def tor_error_def split: if_splits option.splits)
    then show "\<forall>s \<in> set (split_on 44 bnd). arg_is_safe s" using safe_texts(3) [OF env] by blast
  qed
  show "speaks (get_server_bindaddrs te env)"
    unfolding get_server_bindaddrs_def Let_def
    by (intro speaks_bind first keys speaks_ok) (rule specs)
  show "speaks (or_addr_of te env)" "speaks (ext_addr_of te env)"
    using lit texts env by (auto simp: or_addr_of_def ext_addr_of_def Let_def intro!: speaks_bind speaks_ctl_addr speaks_error)
qed

lemma speaks_version:
  "speaks (get_managed_transport_ver env)" "speaks (getenv_required env ''TOR_PT_CLIENT_TRANSPORTS'')"
proof -
  have "speaks (getenv_required env ''TOR_PT_MANAGED_TRANSPORT_VER'')" "speaks (version_error (ascii ''no-version'') :: bytes ctl)"
    by (rule speaks_getenv speaks_error, simp add: arg_is_safe_def ascii_def)+
  then show "speaks (get_managed_transport_ver env)"
    by (auto simp: get_managed_transport_ver_def intro!: speaks_bind)
  show "speaks (getenv_required env ''TOR_PT_CLIENT_TRANSPORTS'')"
    by (rule speaks_getenv) (simp add: arg_is_safe_def ascii_def)
qed

text \<open>The outcome of a setup: accepted, with the version line; refused, with its error as the last line; no panic.\<close>

definition setup_reported :: "'a ctl \<Rightarrow> bool" where
  "setup_reported c \<longleftrightarrow>
     (case c of
        (Ok _, ls) \<Rightarrow> ls = [VERSION_LINE]
      | (Err e, ls) \<Rightarrow> error_line e \<and> (ls = [e] \<or> ls = [VERSION_LINE, e])
      | (Panic, _) \<Rightarrow> False)"

lemma reported_after_version:
  assumes "\<And>u. speaks (f u)"
  shows "setup_reported (ctl_bind (get_managed_transport_ver env) (\<lambda>ver. ctl_bind (tor_line ''VERSION'' [ver]) f))"
proof -
  obtain r ls where v: "get_managed_transport_ver env = (r, ls)" by force
  show ?thesis
  proof (cases r)
    case (Ok ver)
    with version_ok v have "ver = TRANSPORT_VERSION" "ls = []" by auto
    with v Ok assms [of "()"] show ?thesis by (cases "f ()") (auto simp: setup_reported_def version_line speaks_def split: res.splits)
  qed (use v speaks_version(1) [of env] in \<open>auto simp: setup_reported_def speaks_def\<close>)
qed

text \<open>C31: Setup errors reach tor.  As long as the values of the environment are of the bytes a control line may hold
  (ASCII without NUL and newline), setup never panics: an accepted one writes the version line alone, and a refused one
  writes its error, an \<open>ENV-ERROR\<close> or \<open>VERSION-ERROR\<close> line of allowed bytes, as its last line, after at most the version
  line; so for bridges and for clients.\<close>
theorem setup_errors_reported:
  assumes "\<forall>k. arg_is_safe (env k)"
  shows "setup_reported (server_setup te env) \<and> setup_reported (client_setup env)"
proof
  note parts = speaks_server_parts [OF assms, of te]
  have "speaks (env_error (ascii ''need TOR_PT_ORPORT or TOR_PT_EXTENDED_SERVER_PORT environment variable'') :: server_info ctl)"
    by (rule speaks_error) (simp add: arg_is_safe_def ascii_def)
  then show "setup_reported (server_setup te env)"
    unfolding server_setup_def by (intro reported_after_version) (auto intro!: speaks_bind parts)
  show "setup_reported (client_setup env)"
    unfolding client_setup_def by (intro reported_after_version speaks_bind speaks_version speaks_ok)
qed

section \<open>What an accepted environment is\<close>

lemma ctl_bind_ok: "ctl_bind c f = (Ok b, ls) \<longleftrightarrow> (\<exists>a l1 l2. c = (Ok a, l1) \<and> f a = (Ok b, l2) \<and> ls = l1 @ l2)"
  by (cases "(c, f)" rule: ctl_bind.cases) (auto split: prod.splits)

lemma tor_error_not_ok [simp]: "tor_error k as \<noteq> (Ok a, ls)"
  by (simp add: tor_error_def split: option.split)

lemma errors_not_ok [simp]: "env_error m \<noteq> (Ok a, ls)" "version_error m \<noteq> (Ok a, ls)" "proxy_error m \<noteq> (Ok a, ls)"
  by (simp_all add: env_error_def version_error_def proxy_error_def)

lemma getenv_ok: "getenv_required env k = (Ok v, ls) \<longleftrightarrow> v = env (ascii k) \<and> v \<noteq> [] \<and> ls = []"
  by (auto simp: getenv_required_def Let_def)

lemma ctl_addr_ok: "ctl_addr te p r = (Ok a, ls) \<longleftrightarrow> r = Ok a \<and> ls = []"
  by (auto simp: ctl_addr_def split: res.splits)

definition spec_gives :: "options \<Rightarrow> bytes \<Rightarrow> bindaddr \<Rightarrow> bool" where
  "spec_gives opts spec b \<longleftrightarrow>
     (\<exists>addr. split_once 45 spec = Some (ba_method b, addr) \<and> resolve_addr addr = Ok (ba_addr b)) \<and>
     ba_options b = (case opts (ba_method b) of Some a \<Rightarrow> a | None \<Rightarrow> args_new)"

lemma bind_specs_ok:
  "bind_specs te opts seen specs = (Ok bs, ls) \<Longrightarrow>
     list_all2 (spec_gives opts) specs bs \<and> distinct (map ba_method bs) \<and> set (map ba_method bs) \<inter> set seen = {}"
proof (induction te opts seen specs arbitrary: bs ls rule: bind_specs.induct)
  case (2 te opts seen spec specs)
  from 2(2) obtain name addr a bs' l2 where *: "split_once 45 spec = Some (name, addr)" "name \<notin> set seen" "resolve_addr addr = Ok a"
    "bind_specs te opts (name # seen) specs = (Ok bs', l2)"
    "bs = \<lparr>ba_method = name, ba_addr = a, ba_options = (case opts name of Some o' \<Rightarrow> o' | None \<Rightarrow> args_new)\<rparr> # bs'"
    by (auto simp: Let_def ctl_bind_ok ctl_addr_ok split: option.splits if_splits)
  from 2(1) [OF refl *(1) refl *(2), of bs' l2] * show ?case by (auto simp: spec_gives_def)
qed simp

text \<open>An accepted bridge environment is what tor said: every listening address is that of its method in
  the bind list, with that method's options, no method twice and none that was not asked for; the two ORPorts are
  those given, at least one of them is, and the extended one comes with its cookie file.\<close>
theorem server_setup_sound:
  assumes "server_setup te env = (Ok si, ls)"
  shows "\<exists>opts bs.
    parse_server_transport_options (env (ascii ''TOR_PT_SERVER_TRANSPORT_OPTIONS'')) = Ok opts \<and>
    list_all2 (spec_gives opts) (split_on 44 (env (ascii ''TOR_PT_SERVER_BINDADDR''))) bs \<and> distinct (map ba_method bs) \<and>
    si_bindaddrs si = filter (\<lambda>b. ba_method b \<in> set (split_on 44 (env (ascii ''TOR_PT_SERVER_TRANSPORTS'')))) bs \<and>
    (si_or_addr si \<noteq> None \<or> si_extended_or_addr si \<noteq> None) \<and>
    (case si_or_addr si of None \<Rightarrow> env (ascii ''TOR_PT_ORPORT'') = [] | Some a \<Rightarrow> resolve_addr (env (ascii ''TOR_PT_ORPORT'')) = Ok a) \<and>
    (case si_extended_or_addr si of None \<Rightarrow> env (ascii ''TOR_PT_EXTENDED_SERVER_PORT'') = []
     | Some a \<Rightarrow> resolve_addr (env (ascii ''TOR_PT_EXTENDED_SERVER_PORT'')) = Ok a \<and> si_auth_cookie_path si \<noteq> [])"
proof -
  from assms obtain bs0 l1 ora l2 ext l3 where
    b: "get_server_bindaddrs te env = (Ok bs0, l1)" and o: "or_addr_of te env = (Ok ora, l2)" and e: "ext_addr_of te env = (Ok ext, l3)"
    and some: "ora \<noteq> None \<or> ext \<noteq> None"
    and si: "si = \<lparr>si_bindaddrs = bs0, si_or_addr = ora, si_extended_or_addr = ext, si_auth_cookie_path = env (ascii ''TOR_PT_AUTH_COOKIE_FILE'')\<rparr>"
    by (auto simp: server_setup_def ctl_bind_ok split: if_splits)
  from b obtain opts bs l4 where
    "parse_server_transport_options (env (ascii ''TOR_PT_SERVER_TRANSPORT_OPTIONS'')) = Ok opts"
    and bs: "bind_specs te opts [] (split_on 44 (env (ascii ''TOR_PT_SERVER_BINDADDR''))) = (Ok bs, l4)"
    and "bs0 = filter (\<lambda>b. ba_method b \<in> set (split_on 44 (env (ascii ''TOR_PT_SERVER_TRANSPORTS'')))) bs"
    by (auto simp: get_server_bindaddrs_def Let_def ctl_bind_ok getenv_ok split: res.splits)
  moreover have "case ora of None \<Rightarrow> env (ascii ''TOR_PT_ORPORT'') = [] | Some a \<Rightarrow> resolve_addr (env (ascii ''TOR_PT_ORPORT'')) = Ok a"
    using o by (auto simp: or_addr_of_def Let_def ctl_bind_ok ctl_addr_ok split: if_splits)
  moreover have "case ext of None \<Rightarrow> env (ascii ''TOR_PT_EXTENDED_SERVER_PORT'') = []
     | Some a \<Rightarrow> resolve_addr (env (ascii ''TOR_PT_EXTENDED_SERVER_PORT'')) = Ok a \<and> env (ascii ''TOR_PT_AUTH_COOKIE_FILE'') \<noteq> []"
    using e by (auto simp: ext_addr_of_def Let_def ctl_bind_ok ctl_addr_ok split: if_splits)
  ultimately show ?thesis using some bind_specs_ok [OF bs] unfolding si
    by (intro exI [of _ opts] exI [of _ bs] conjI) (simp_all cong: option.case_cong)
qed

section \<open>Errors that do not reach tor\<close>

lemma env_error_unsafe: "\<not> arg_is_safe m \<Longrightarrow> env_error m = (Panic, [])"
  by (simp add: env_error_def tor_error_def format_line_def)

text \<open>Not every error reaches tor: when the transport options are malformed and contain a character beyond
  ASCII that is printed as it is, quoting them in the error trips the assertion on control lines, and setup panics
  after the version line.\<close>
theorem setup_panics_on_unsafe_text:
  assumes "TRANSPORT_VERSION \<in> set (split_on 44 (env (ascii ''TOR_PT_MANAGED_TRANSPORT_VER'')))"
    and "parse_server_transport_options (env (ascii ''TOR_PT_SERVER_TRANSPORT_OPTIONS'')) = Err e"
    and "b \<in> set (debug te (env (ascii ''TOR_PT_SERVER_TRANSPORT_OPTIONS'')))" "128 \<le> b"
  shows "server_setup te env = (Panic, [VERSION_LINE])"
proof -
  have "split_on 44 [] = [[]]" by simp
  then have "env (ascii ''TOR_PT_MANAGED_TRANSPORT_VER'') \<noteq> []" using assms(1) by (auto simp: TRANSPORT_VERSION_def ascii_def)
  then have v: "get_managed_transport_ver env = (Ok TRANSPORT_VERSION, [])"
    using assms(1) by (simp add: get_managed_transport_ver_def getenv_required_def)
  have "\<not> b < 0x80" using assms(4) by simp
  then have "\<not> arg_is_safe (debug te (env (ascii ''TOR_PT_SERVER_TRANSPORT_OPTIONS'')))"
    using assms(3) by (auto simp: arg_is_safe_def list_all_iff)
  then have "get_server_bindaddrs te env = (Panic, [])"
    using assms(2) by (simp add: get_server_bindaddrs_def Let_def env_error_unsafe)
  with v show ?thesis by (simp add: server_setup_def version_line)
qed

definition sample_env :: "bytes \<Rightarrow> env" where
  "sample_env opts key =
     (if key = ascii ''TOR_PT_MANAGED_TRANSPORT_VER'' then ascii ''1''
      else if key = ascii ''TOR_PT_SERVER_TRANSPORT_OPTIONS'' then opts
      else if key = ascii ''TOR_PT_SERVER_BINDADDR'' then ascii ''obfs4-127.0.0.1:9,x-127.0.0.1:80''
      else if key = ascii ''TOR_PT_SERVER_TRANSPORTS'' then ascii ''obfs4''
      else if key = ascii ''TOR_PT_ORPORT'' then ascii ''127.0.0.1:80''
      else [])"

lemma setup_panics_on_unsafe_text_witness:
  "server_setup \<lparr>te_char = (\<lambda>c. c), te_utf8 = (\<lambda>c. c)\<rparr> (sample_env [0xC3, 0xA9]) = (Panic, [VERSION_LINE])"
proof (rule setup_panics_on_unsafe_text)
  show "TRANSPORT_VERSION \<in> set (split_on 44 (sample_env [0xC3, 0xA9] (ascii ''TOR_PT_MANAGED_TRANSPORT_VER'')))"
    by (simp add: sample_env_def TRANSPORT_VERSION_def ascii_def)
  have opts: "sample_env [0xC3, 0xA9] (ascii ''TOR_PT_SERVER_TRANSPORT_OPTIONS'') = [0xC3, 0xA9]" by (simp add: sample_env_def)
  have i: "index_unescaped [0xC3, 0xA9] {COLON, EQ, SEMI} = Ok (2, [0xC3, 0xA9])"
    by (simp add: index_unescaped_def cont_def)
  show "parse_server_transport_options (sample_env [0xC3, 0xA9] (ascii ''TOR_PT_SERVER_TRANSPORT_OPTIONS'')) = Err (NoColon [0xC3, 0xA9])"
    unfolding opts by (simp add: parse_server_transport_options_def parse_options.simps [of "[0xC3, 0xA9]"] parse_option_def i)
  show "0xC3 \<in> set (debug \<lparr>te_char = (\<lambda>c. c), te_utf8 = (\<lambda>c. c)\<rparr> (sample_env [0xC3, 0xA9] (ascii ''TOR_PT_SERVER_TRANSPORT_OPTIONS'')))"
    unfolding opts by (simp add: debug_def char_len_def)
qed simp

lemma sample_env_simps:
  "sample_env opts (ascii ''TOR_PT_MANAGED_TRANSPORT_VER'') = ascii ''1''"
  "sample_env opts (ascii ''TOR_PT_SERVER_TRANSPORT_OPTIONS'') = opts"
  "sample_env opts (ascii ''TOR_PT_SERVER_BINDADDR'') = ascii ''obfs4-127.0.0.1:9,x-127.0.0.1:80''"
  "sample_env opts (ascii ''TOR_PT_SERVER_TRANSPORTS'') = ascii ''obfs4''"
  "sample_env opts (ascii ''TOR_PT_ORPORT'') = ascii ''127.0.0.1:80''"
  "sample_env opts (ascii ''TOR_PT_EXTENDED_SERVER_PORT'') = []"
  by (simp_all add: sample_env_def)

lemma sample_resolve:
  "resolve_addr (ascii ''127.0.0.1:80'') = Ok (IpV4 [127, 0, 0, 1], 80)" "resolve_addr (ascii ''127.0.0.1:9'') = Ok (IpV4 [127, 0, 0, 1], 9)"
  using resolve_shown [of "(IpV4 [127, 0, 0, 1], 80)"] resolve_shown [of "(IpV4 [127, 0, 0, 1], 9)"]
  by (simp_all add: show_socket_addr_def show_ipv4_def dec_byte_def dec_nat.simps ascii_def ip_ok_def)

lemma sample_specs:
  "split_on 44 (ascii ''obfs4-127.0.0.1:9,x-127.0.0.1:80'') = [ascii ''obfs4-127.0.0.1:9'', ascii ''x-127.0.0.1:80'']"
  "split_once 45 (ascii ''obfs4-127.0.0.1:9'') = Some (ascii ''obfs4'', ascii ''127.0.0.1:9'')"
  "split_once 45 (ascii ''x-127.0.0.1:80'') = Some (ascii ''x'', ascii ''127.0.0.1:80'')"
  "split_on 44 (ascii ''obfs4'') = [ascii ''obfs4'']" "split_on 44 (ascii ''1'') = [ascii ''1'']"
  by (simp_all add: ascii_def)

lemma sample_version: "get_managed_transport_ver (sample_env opts) = (Ok TRANSPORT_VERSION, [])"
  by (simp add: get_managed_transport_ver_def getenv_required_def sample_env_simps TRANSPORT_VERSION_def sample_specs Let_def)
    (simp add: ascii_def)

lemma sample_setup: "\<exists>si ls. server_setup te (sample_env []) = (Ok si, ls)"
  by (simp add: server_setup_def sample_version getenv_required_def get_server_bindaddrs_def or_addr_of_def
    ext_addr_of_def sample_env_simps sample_specs sample_resolve parse_server_transport_options_def ctl_addr_def version_line Let_def)
    (simp add: ascii_def)

lemma server_setup_sound_witness:
  "\<exists>si ls opts bs. server_setup \<lparr>te_char = (\<lambda>c. c), te_utf8 = (\<lambda>c. c)\<rparr> (sample_env []) = (Ok si, ls) \<and>
     list_all2 (spec_gives opts) (split_on 44 (ascii ''obfs4-127.0.0.1:9,x-127.0.0.1:80'')) bs \<and> distinct (map ba_method bs)"
proof -
  obtain si ls where s: "server_setup \<lparr>te_char = (\<lambda>c. c), te_utf8 = (\<lambda>c. c)\<rparr> (sample_env []) = (Ok si, ls)" using sample_setup by blast
  with server_setup_sound [OF s] show ?thesis by (auto simp: sample_env_simps)
qed

lemma setup_errors_reported_witness:
  "setup_reported (server_setup \<lparr>te_char = (\<lambda>c. c), te_utf8 = (\<lambda>c. c)\<rparr> (sample_env [58])) \<and>
   setup_reported (client_setup (sample_env [58]))"
proof (rule setup_errors_reported)
  show "\<forall>k. arg_is_safe (sample_env [58] k)" by (simp add: sample_env_def arg_is_safe_def ascii_def)
qed

end
