(* ===== verification/Scrub.thy ===== *)
theory Scrub
  imports PtSetup Peer
begin

text \<open>
  The address scrubber of \<open>src/shared/domain/scrub.rs\<close>, and the status events of
  \<open>src/transports/snowflake/domain/events.rs\<close> that go through it to tor's log.
\<close>

section \<open>Scrubbing\<close>

definition ELIDED_ADDR :: bytes where "ELIDED_ADDR = ascii ''[scrubbed]''"

definition token_char :: "u8 \<Rightarrow> bool" where
  "token_char c \<longleftrightarrow> is_digit c \<or> (97 \<le> c \<and> c \<le> 102) \<or> (65 \<le> c \<and> c \<le> 70) \<or> c \<in> {46, 58, 91, 93}"

definition trim_end_of :: "u8 set \<Rightarrow> bytes \<Rightarrow> bytes" where
  "trim_end_of cs s = rev (dropWhile (\<lambda>c. c \<in> cs) (rev s))"

definition is_addr :: "bytes \<Rightarrow> bool" where
  "is_addr token \<longleftrightarrow>
     (let bare = trim_end_of {93} (dropWhile (\<lambda>c. c = 91) token)
      in parse_socket_addr token \<noteq> None \<or> parse_ip bare \<noteq> None \<or> parse_ipv4 token \<noteq> None)"

text \<open>Trailing colons and stops belong to the text around.\<close>

definition scrub_core :: "bytes \<Rightarrow> bytes" where "scrub_core token = trim_end_of {58, 46} token"

definition names_addr :: "bytes \<Rightarrow> bool" where
  "names_addr token \<longleftrightarrow>
     (let core = scrub_core token in core \<noteq> [] \<and> (46 \<in> set core \<or> 58 \<in> set core) \<and> is_addr core)"

definition scrub_flush :: "bytes \<Rightarrow> bytes" where
  "scrub_flush token = (if names_addr token then ELIDED_ADDR @ drop (length (scrub_core token)) token else token)"

fun scrub_loop :: "bytes \<Rightarrow> bytes \<Rightarrow> bytes" where
  "scrub_loop token [] = scrub_flush token"
| "scrub_loop token (c # s) =
     (if token_char c then scrub_loop (token @ [c]) s else scrub_flush token @ c # scrub_loop [] s)"

definition scrub :: "bytes \<Rightarrow> bytes" where "scrub s = scrub_loop [] s"

section \<open>Events\<close>

definition show_event :: "sf_event \<Rightarrow> bytes" where
  "show_event e =
     (case e of
        OfferCreated None \<Rightarrow> ascii ''offer created''
      | OfferCreated (Some m) \<Rightarrow> ascii ''offer creation failure '' @ scrub (ascii m)
      | BrokerRendezvous None \<Rightarrow> ascii ''broker rendezvous peer received''
      | BrokerRendezvous (Some m) \<Rightarrow> ascii ''broker failure '' @ scrub (ascii m)
      | Connected \<Rightarrow> ascii ''connected''
      | ConnectionFailed m \<Rightarrow> ascii ''trying a new proxy: '' @ scrub (ascii m))"

text \<open>A sink relays to tor, or drops.\<close>

definition emit_event :: "bool \<Rightarrow> sf_event \<Rightarrow> unit ctl" where
  "emit_event to_tor e = (if to_tor then tor_log SevNotice (show_event e) else ctl_ok ())"

section \<open>What an address is\<close>

text \<open>The characters of addresses, and the maximal runs of them in a text.\<close>

definition address_char :: "u8 \<Rightarrow> bool" where "address_char c \<longleftrightarrow> c \<in> set (ascii ''0123456789abcdefABCDEF.:[]'')"

lemma address_char_iff: "address_char c \<longleftrightarrow> token_char c"
proof -
  have chars: "ascii ''0123456789abcdefABCDEF.:[]'' =
      [48, 49, 50, 51, 52, 53, 54, 55, 56, 57, 97, 98, 99, 100, 101, 102, 65, 66, 67, 68, 69, 70, 46, 58, 91, 93]"
    by (simp add: ascii_def)
  have byte: "c = k \<longleftrightarrow> unat c = unat k" for k by (simp only: word_unat_eq_iff)
  show ?thesis
    unfolding address_char_def chars token_char_def is_digit_def word_le_nat_alt byte list.set insert_iff by (simp add: byte) arith
qed

fun runs :: "bytes \<Rightarrow> bytes \<Rightarrow> bytes list" where
  "runs acc [] = [acc]"
| "runs acc (c # s) = (if address_char c then runs (acc @ [c]) s else acc # runs [] s)"

text \<open>The text of an address, by the parsers of the standard library: an IP address, bare or in brackets, or one with a port.\<close>

definition address_text :: "bytes \<Rightarrow> bool" where
  "address_text t \<longleftrightarrow> parse_socket_addr t \<noteq> None \<or>
     (\<exists>m n s. t = replicate m 91 @ s @ replicate n 93 \<and> parse_ip s \<noteq> None)"

text \<open>No run is an address with stops or colons of the text after it.  The exception is an address that ends with a
  colon itself, an IPv6 address written with its zeros at the end (\<open>2001:db8::\<close>).\<close>

definition no_address :: "bytes \<Rightarrow> bool" where
  "no_address s \<longleftrightarrow>
     (\<forall>t \<in> set (runs [] s). \<forall>a r. t = a @ r \<and> set r \<subseteq> {46, 58} \<and> address_text a \<longrightarrow> last a = 58)"

text \<open>What the parsers of addresses consume: hexadecimal digits, stops and colons, the last one a digit.\<close>

definition hex_digit :: "u8 \<Rightarrow> bool" where
  "hex_digit c \<longleftrightarrow> is_digit c \<or> (97 \<le> c \<and> c \<le> 102) \<or> (65 \<le> c \<and> c \<le> 70)"

definition plain_addr :: "bytes \<Rightarrow> bool" where "plain_addr p \<longleftrightarrow> list_all (\<lambda>c. hex_digit c \<or> c = 46 \<or> c = 58) p"

definition consumed :: "bytes \<Rightarrow> bytes \<Rightarrow> bool" where
  "consumed s r \<longleftrightarrow> (\<exists>p. p \<noteq> [] \<and> s = p @ r \<and> plain_addr p \<and> hex_digit (last p))"

lemma consumed_trans: "consumed s r \<Longrightarrow> consumed r r' \<Longrightarrow> consumed s r'"
  unfolding consumed_def
proof (elim exE conjE)
  fix p q
  assume a: "p \<noteq> []" "s = p @ r" "plain_addr p" "q \<noteq> []" "r = q @ r'" "plain_addr q" "hex_digit (last q)"
  then show "\<exists>p. p \<noteq> [] \<and> s = p @ r' \<and> plain_addr p \<and> hex_digit (last p)"
    by (intro exI [of _ "p @ q"]) (simp add: plain_addr_def)
qed

lemma consumed_Cons: "consumed s r \<Longrightarrow> c = 46 \<or> c = 58 \<Longrightarrow> consumed (c # s) r"
  unfolding consumed_def
proof (elim exE conjE)
  fix p
  assume "c = 46 \<or> c = 58" "p \<noteq> []" "s = p @ r" "plain_addr p" "hex_digit (last p)"
  then show "\<exists>p. p \<noteq> [] \<and> c # s = p @ r \<and> plain_addr p \<and> hex_digit (last p)"
    by (intro exI [of _ "c # p"]) (auto simp: plain_addr_def)
qed

lemma consumed_subset: "consumed s r \<Longrightarrow> set r \<subseteq> set s"
  by (auto simp: consumed_def)

lemma digit_value_hex_digit: "digit_value radix c = Some v \<Longrightarrow> radix \<le> 16 \<Longrightarrow> hex_digit c"
  by (auto simp: digit_value_def hex_digit_def Let_def word_le_nat_alt split: if_splits)

lemma read_digits_consumed:
  "read_digits radix lim mx n acc s = Some (v, k, r) \<Longrightarrow> radix \<le> 16 \<Longrightarrow>
     n \<le> k \<and> (\<exists>p. s = p @ r \<and> length p = k - n \<and> list_all hex_digit p)"
proof (induction radix lim mx n acc s rule: read_digits.induct)
  case (2 radix lim mx n acc c s)
  show ?case
  proof (cases "digit_value radix c")
    case (Some d)
    with 2(2) have "read_digits radix lim mx (n + 1) (acc * radix + d) s = Some (v, k, r)"
      "\<not> (mx < acc * radix + d \<or> (case lim of Some l \<Rightarrow> l < n + 1 | None \<Rightarrow> False))"
      by (auto split: if_splits)
    from 2(1) [OF Some this(2) this(1) 2(3)] obtain p where "n + 1 \<le> k" "s = p @ r" "length p = k - (n + 1)" "list_all hex_digit p" by auto
    then show ?thesis using digit_value_hex_digit [OF Some 2(3)] by (intro conjI exI [of _ "c # p"]) auto
  qed (use 2 in auto)
qed auto

lemma read_number_consumed:
  assumes "read_number radix lim z mx s = Some (v, r)" and "radix \<le> 16"
  shows "consumed s r"
proof -
  from assms(1) obtain k where "read_digits radix lim mx 0 0 s = Some (v, k, r)" "k \<noteq> 0"
    by (auto simp: read_number_def split: option.splits if_splits)
  with read_digits_consumed [OF this(1) assms(2)] obtain p where "s = p @ r" "p \<noteq> []" "list_all hex_digit p" by auto
  then show ?thesis unfolding consumed_def plain_addr_def by (intro exI [of _ p]) (auto simp: list_all_iff)
qed

lemma read_char_Some: "read_char c s = Some r \<longleftrightarrow> s = c # r"
  by (auto simp: read_char_def split: list.splits)

lemma separated_consumed:
  assumes "read_separated sep i inner s = Some (v, r)" and "sep = 46 \<or> sep = 58"
    and "\<And>t. inner t = Some (v, r) \<Longrightarrow> consumed t r"
  shows "consumed s r \<and> (0 < i \<longrightarrow> sep \<in> set s)"
  using assms by (auto simp: read_separated_def read_char_Some consumed_Cons split: if_splits option.splits)

lemma read_octets_consumed:
  "read_octets k i s = Some (b, r) \<Longrightarrow> 0 < k \<Longrightarrow> consumed s r \<and> (0 < i \<or> 1 < k \<longrightarrow> 46 \<in> set s)"
proof (induction k arbitrary: i s b)
  case (Suc k)
  from Suc.prems obtain v r1 vs where o: "read_separated 46 i read_octet s = Some (v, r1)" "read_octets k (i + 1) r1 = Some (vs, r)"
    by (auto split: option.splits)
  have c: "consumed s r1 \<and> (0 < i \<longrightarrow> 46 \<in> set s)"
    by (rule separated_consumed [OF o(1)]) (simp_all add: read_octet_def read_number_consumed)
  show ?case
  proof (cases k)
    case 0
    with c o(2) show ?thesis by auto
  next
    case (Suc m)
    with Suc.IH [OF o(2)] have "consumed r1 r" "46 \<in> set r1" by auto
    with c consumed_trans [of s r1 r] consumed_subset [of s r1] show ?thesis by blast
  qed
qed simp

lemma read_ipv4_consumed: "read_ipv4 s = Some (b, r) \<Longrightarrow> consumed s r \<and> 46 \<in> set s"
  using read_octets_consumed [of 4 0 s b r] by (simp add: read_ipv4_def)

lemma group_ipv4_consumed:
  assumes "read_separated 58 i read_ipv4 s = Some (b, r)"
  shows "consumed s r \<and> 46 \<in> set s"
proof -
  have "consumed s r" by (rule separated_consumed [OF assms, THEN conjunct1]) (simp_all add: read_ipv4_consumed)
  moreover have "46 \<in> set s" using assms read_ipv4_consumed
    by (fastforce simp: read_separated_def read_char_Some split: if_splits option.splits)
  ultimately show ?thesis ..
qed

lemma read_groups_consumed:
  "read_groups limit i s = (gs, v4, r) \<Longrightarrow>
     (s = r \<and> gs = [] \<and> \<not> v4 \<or> consumed s r) \<and>
     (length gs \<le> 1 \<and> \<not> v4 \<or> 46 \<in> set s \<or> 58 \<in> set s) \<and>
     (0 < i \<and> gs \<noteq> [] \<longrightarrow> 46 \<in> set s \<or> 58 \<in> set s)"
proof (induction limit i s arbitrary: gs v4 r rule: read_groups.induct)
  case (1 limit i s)
  show ?case
  proof (cases "limit \<le> i")
    case True
    with 1(2) show ?thesis by (simp add: read_groups.simps [of limit i s])
  next
    case False
    show ?thesis
    proof (cases "if i < limit - 1 then read_separated 58 i read_ipv4 s else None")
      case (Some x)
      then obtain b r1 where x: "x = (b, r1)" "read_separated 58 i read_ipv4 s = Some (b, r1)" by (cases x) (auto split: if_splits)
      with 1(2) False Some have "r = r1" "v4" by (auto simp: read_groups.simps [of limit i s])
      with group_ipv4_consumed [OF x(2)] show ?thesis by blast
    next
      case None
      note no4 = this
      show ?thesis
      proof (cases "read_separated 58 i (read_number 16 (Some 4) True 65535) s")
        case None
        with 1(2) False no4 show ?thesis by (auto simp: read_groups.simps [of limit i s])
      next
        case (Some x)
        then obtain g r1 where x: "read_separated 58 i (read_number 16 (Some 4) True 65535) s = Some (g, r1)" "x = (g, r1)" by (cases x) auto
        obtain gs1 w r2 where rest: "read_groups limit (i + 1) r1 = (gs1, w, r2)" by (metis prod_cases3)
        have eq: "gs = g # gs1" "v4 = w" "r = r2" using 1(2) False no4 x rest by (auto simp: read_groups.simps [of limit i s])
        have c: "consumed s r1 \<and> (0 < i \<longrightarrow> 58 \<in> set s)"
          by (rule separated_consumed [OF x(1)]) (simp_all add: read_number_consumed)
        from 1(1) [OF False no4 x(1) refl rest] show ?thesis
          using c eq consumed_trans [of s r1 r] consumed_subset [of s r1] by (cases gs1) auto
      qed
    qed
  qed
qed


lemma read_ipv6_consumed:
  assumes "read_ipv6 s = Some (b, r)"
  shows "\<exists>p. p \<noteq> [] \<and> s = p @ r \<and> plain_addr p \<and> (hex_digit (last p) \<or> last p = 58) \<and> (r = [] \<longrightarrow> 46 \<in> set s \<or> 58 \<in> set s)"
proof -
  obtain front v4 r1 where front: "read_groups 8 0 s = (front, v4, r1)" by (metis prod_cases3)
  note c = read_groups_consumed [OF front]
  show ?thesis
  proof (cases "length front = 8")
    case True
    with assms front have "r1 = r" by (simp add: read_ipv6_def)
    have "consumed s r1" "46 \<in> set s \<or> 58 \<in> set s" using c True by auto
    with \<open>r1 = r\<close> show ?thesis unfolding consumed_def by blast
  next
    case False
    with assms front obtain r2 where r2: "r1 = 58 # 58 # r2" "\<not> v4"
      by (auto simp: read_ipv6_def read_char_Some split: if_splits option.splits)
    obtain tail_gs w r3 where tail_gs: "read_groups (8 - (length front + 1)) 0 r2 = (tail_gs, w, r3)" by (metis prod_cases3)
    have "r3 = r" using assms front False r2 tail_gs by (simp add: read_ipv6_def read_char_def)
    obtain p where p: "s = p @ r1" "plain_addr p" using c by (auto simp: consumed_def plain_addr_def)
    obtain q where q: "r2 = q @ r" "plain_addr q" "q = [] \<or> hex_digit (last q)"
      using read_groups_consumed [OF tail_gs] \<open>r3 = r\<close> by (auto simp: consumed_def plain_addr_def)
    show ?thesis
      by (rule exI [of _ "p @ 58 # 58 # q"]) (use p q r2 in \<open>auto simp: plain_addr_def\<close>)
  qed
qed

lemma all_read_Some: "all_read r = Some v \<longleftrightarrow> r = Some (v, [])"
  by (auto simp: all_read_def split: option.splits list.splits prod.splits)

lemma parse_ip_text:
  assumes "parse_ip s = Some ip"
  shows "s \<noteq> [] \<and> plain_addr s \<and> (hex_digit (last s) \<or> last s = 58) \<and> (46 \<in> set s \<or> 58 \<in> set s)"
proof (cases "read_ipv4 s")
  case (Some r)
  with assms obtain b where "read_ipv4 s = Some (b, [])" by (auto simp: parse_ip_def all_read_Some)
  from read_ipv4_consumed [OF this] show ?thesis by (auto simp: consumed_def)
next
  case None
  with assms obtain b where "read_ipv6 s = Some (b, [])" by (auto simp: parse_ip_def all_read_Some)
  from read_ipv6_consumed [OF this] show ?thesis by auto
qed

lemma read_port_text: "read_port r = Some (p, []) \<Longrightarrow> \<exists>q. r = 58 # q \<and> q \<noteq> [] \<and> hex_digit (last q)"
  by (auto simp: read_port_def read_char_Some consumed_def split: option.splits dest!: read_number_consumed)

lemma skip_scope_suffix: "\<exists>p. s = p @ skip_scope s"
proof -
  have "\<exists>p. r = p @ t" if "read_number 10 None True 4294967295 r = Some (v, t)" for r v t
    using read_number_consumed [OF that] by (auto simp: consumed_def)
  then show ?thesis
    by (fastforce simp: skip_scope_def read_char_Some split: option.splits prod.splits)
qed

lemma parse_socket_addr_text:
  assumes "parse_socket_addr s = Some a"
  shows "s \<noteq> [] \<and> hex_digit (last s) \<and> 58 \<in> set s"
proof -
  have port: "s = u @ r \<Longrightarrow> read_port r = Some (p, []) \<Longrightarrow> ?thesis" for u r p
    using read_port_text [of r p] by auto
  from assms consider b r p where "read_ipv4 s = Some (b, r)" "read_port r = Some (p, [])"
    | r1 b r2 r3 p where "s = 91 # r1" "read_ipv6 r1 = Some (b, r2)" "skip_scope r2 = 93 # r3" "read_port r3 = Some (p, [])"
    by (auto simp: parse_socket_addr_def all_read_Some read_socket_v4_def read_socket_v6_def read_char_Some split: option.splits)
  then show ?thesis
  proof cases
    case 1
    with read_ipv4_consumed [OF 1(1)] port show ?thesis by (auto simp: consumed_def)
  next
    case 2
    obtain u v where "r1 = u @ r2" "r2 = v @ 93 # r3" using read_ipv6_consumed [OF 2(2)] skip_scope_suffix [of r2] 2(3) by auto
    with 2 have "s = (91 # u @ v @ [93]) @ r3" by simp
    with port 2(4) show ?thesis by blast
  qed
qed

section \<open>No address is left\<close>

definition all_scrubbed :: "bytes \<Rightarrow> bool" where "all_scrubbed s \<longleftrightarrow> list_all (\<lambda>t. \<not> names_addr t) (runs [] s)"

lemma runs_sep: "\<not> token_char c \<Longrightarrow> runs acc (xs @ c # ys) = runs acc xs @ runs [] ys"
  by (induction acc xs rule: runs.induct) (auto simp: address_char_iff)

lemma runs_token: "list_all token_char s \<Longrightarrow> runs acc s = [acc @ s]"
  by (induction s arbitrary: acc) (auto simp: address_char_iff)

lemma all_scrubbed_sep: "\<not> token_char c \<Longrightarrow> all_scrubbed (xs @ c # ys) \<longleftrightarrow> all_scrubbed xs \<and> all_scrubbed ys"
  by (simp add: all_scrubbed_def runs_sep)

lemma all_scrubbed_token: "list_all token_char t \<Longrightarrow> all_scrubbed t \<longleftrightarrow> \<not> names_addr t"
  by (simp add: all_scrubbed_def runs_token)

lemma trim_end_of_append: "set t \<subseteq> cs \<Longrightarrow> trim_end_of cs (s @ t) = trim_end_of cs s"
  by (simp add: trim_end_of_def) (rule dropWhile_append2, auto)

lemma trim_end_of_split: "\<exists>t. s = trim_end_of cs s @ t \<and> set t \<subseteq> cs"
proof -
  have "rev s = takeWhile (\<lambda>c. c \<in> cs) (rev s) @ dropWhile (\<lambda>c. c \<in> cs) (rev s)" by simp
  then have "s = trim_end_of cs s @ rev (takeWhile (\<lambda>c. c \<in> cs) (rev s))"
    unfolding trim_end_of_def by (metis rev_append rev_rev_ident)
  moreover have "set (rev (takeWhile (\<lambda>c. c \<in> cs) (rev s))) \<subseteq> cs" by (auto dest: set_takeWhileD)
  ultimately show ?thesis by blast
qed

lemma address_not_brackets: "plain_addr s \<Longrightarrow> 91 \<notin> set s \<and> 93 \<notin> set s"
  by (auto simp: plain_addr_def list_all_iff hex_digit_def is_digit_def)

lemma trim_end_of_keep: "s = [] \<or> last s \<notin> cs \<Longrightarrow> trim_end_of cs s = s"
  by (cases s rule: rev_cases) (auto simp: trim_end_of_def)

lemma address_named:
  assumes a: "address_text a" and "set r \<subseteq> {46, 58}" and last: "last a \<noteq> 58"
  shows "names_addr (a @ r)"
proof -
  have stop: "\<not> hex_digit 46" "\<not> hex_digit 58" by (simp_all add: hex_digit_def is_digit_def)
  have facts: "a \<noteq> [] \<and> last a \<noteq> 46 \<and> (46 \<in> set a \<or> 58 \<in> set a) \<and> is_addr a"
  proof (cases "parse_socket_addr a")
    case (Some x)
    with parse_socket_addr_text [OF Some] stop show ?thesis by (auto simp: is_addr_def Let_def)
  next
    case None
    with a obtain m n s ip where t: "a = replicate m 91 @ s @ replicate n 93" "parse_ip s = Some ip" by (auto simp: address_text_def)
    note s = parse_ip_text [OF t(2)]
    have plain: "91 \<notin> set s" "93 \<notin> set s" using s address_not_brackets by blast+
    have "dropWhile (\<lambda>c. c = 91) a = s @ replicate n 93"
      unfolding t(1) using s plain(1) by (cases s) (auto simp: dropWhile_append)
    moreover have "trim_end_of {93} (s @ replicate n 93) = s"
    proof -
      have "set (replicate n 93) \<subseteq> {93}" by auto
      then have "trim_end_of {93} (s @ replicate n 93) = trim_end_of {93} s" by (rule trim_end_of_append)
      also have "\<dots> = s" using plain(2) by (intro trim_end_of_keep) (metis last_in_set singletonD)
      finally show ?thesis .
    qed
    ultimately have "is_addr a" using t(2) by (simp add: is_addr_def Let_def)
    moreover have "last a \<noteq> 46" using s stop t(1) last by (cases n) (auto simp: replicate_append_same [symmetric])
    ultimately show ?thesis using s t(1) by auto
  qed
  have "scrub_core (a @ r) = trim_end_of {58, 46} a"
    unfolding scrub_core_def by (rule trim_end_of_append) (use assms(2) in auto)
  also have "\<dots> = a" using facts last by (intro trim_end_of_keep) auto
  finally show ?thesis using facts by (simp add: names_addr_def Let_def)
qed

lemma plain_not_addr: "46 \<notin> set (scrub_core t) \<Longrightarrow> 58 \<notin> set (scrub_core t) \<Longrightarrow> \<not> names_addr t"
  by (simp add: names_addr_def Let_def)

lemma token_chars:
  "\<not> token_char 32" "\<not> token_char 115" "\<not> token_char 114" "\<not> token_char 117"
  "token_char 91" "token_char 93" "token_char 98" "token_char 99" "token_char 100" "token_char 101" "token_char 46" "token_char 58"
  by (simp_all add: token_char_def is_digit_def)

lemma flush_all_scrubbed: "list_all token_char t \<Longrightarrow> all_scrubbed (scrub_flush t)"
proof (cases "names_addr t")
  case True
  assume t: "list_all token_char t"
  obtain r where r: "t = scrub_core t @ r" "set r \<subseteq> {58, 46}" using trim_end_of_split unfolding scrub_core_def by blast
  have "drop (length (scrub_core t)) t = r" using arg_cong [OF r(1), of "drop (length (scrub_core t))"] by simp
  then have out: "scrub_flush t = [91] @ 115 # [99] @ 114 # [] @ 117 # ([98, 98, 101, 100, 93] @ r)"
    using True by (simp add: scrub_flush_def ELIDED_ADDR_def ascii_def)
  have "scrub_core ([98, 98, 101, 100, 93] @ r) = scrub_core [98, 98, 101, 100, 93]"
    unfolding scrub_core_def by (rule trim_end_of_append) (use r(2) in auto)
  then have "\<not> names_addr ([98, 98, 101, 100, 93] @ r)"
    by (intro plain_not_addr) (simp_all add: scrub_core_def trim_end_of_def)
  moreover have "list_all token_char ([98, 98, 101, 100, 93] @ r)"
    using r(2) by (auto simp: token_chars list_all_iff)
  ultimately have tail: "all_scrubbed ([98, 98, 101, 100, 93] @ r)" by (simp only: all_scrubbed_token) simp
  have "all_scrubbed [91]" "all_scrubbed [99]" "all_scrubbed []"
    by (simp_all add: all_scrubbed_def token_chars plain_not_addr scrub_core_def trim_end_of_def)
  with tail show ?thesis unfolding out by (simp only: all_scrubbed_sep token_chars simp_thms)
next
  case False
  assume t: "list_all token_char t"
  then show ?thesis using False by (simp add: scrub_flush_def all_scrubbed_token)
qed

lemma scrub_loop_all_scrubbed: "list_all token_char t \<Longrightarrow> all_scrubbed (scrub_loop t s)"
  by (induction t s rule: scrub_loop.induct) (simp_all add: flush_all_scrubbed all_scrubbed_sep)

lemma fixed_all_scrubbed:
  "all_scrubbed (ascii ''offer created'')" "all_scrubbed (ascii ''broker rendezvous peer received'')" "all_scrubbed (ascii ''connected'')"
  "all_scrubbed (ascii ''offer creation failure'')" "all_scrubbed (ascii ''broker failure'')" "all_scrubbed (ascii ''trying a new proxy:'')"
  by (simp_all add: all_scrubbed_def ascii_def address_char_iff token_char_def is_digit_def plain_not_addr scrub_core_def trim_end_of_def)

lemma show_event_scrubbed: "all_scrubbed (show_event e)"
proof -
  have after: "all_scrubbed (p @ 32 # scrub (ascii m))" if "all_scrubbed p" for p m
    using that scrub_loop_all_scrubbed [of "[]"] by (simp add: all_scrubbed_sep token_chars scrub_def)
  have "ascii ''offer creation failure '' @ x = ascii ''offer creation failure'' @ 32 # x"
    "ascii ''broker failure '' @ x = ascii ''broker failure'' @ 32 # x"
    "ascii ''trying a new proxy: '' @ x = ascii ''trying a new proxy:'' @ 32 # x" for x
    by (simp_all add: ascii_def)
  then show ?thesis
    by (simp add: show_event_def fixed_all_scrubbed after split: sf_event.split option.split)
qed

lemma all_scrubbed_no_address:
  assumes "all_scrubbed s"
  shows "no_address s"
  unfolding no_address_def
proof (intro ballI allI impI, elim conjE, rule ccontr)
  fix t a r
  assume t: "t \<in> set (runs [] s)" "t = a @ r" "set r \<subseteq> {46, 58}" "address_text a" "last a \<noteq> 58"
  then have "names_addr t" using address_named [of a r] by simp
  with assms t(1) show False by (simp add: all_scrubbed_def list_all_iff)
qed

text \<open>C32: Status events give no address away: what is relayed to tor for an event is one line, whose message tor reads as
  the text of the event, and in it no run of address characters is an IP address, with or without brackets or a port, or
  one followed by stops or colons of the text, whatever the event carried.  The one exception is an address that itself
  ends with a colon: the scrubber takes the colons for text (\<open>trailing_colons_kept\<close>).\<close>
theorem events_name_no_address:
  "\<exists>q. emit_event True e = (Ok (), [ascii ''LOG SEVERITY=notice MESSAGE='' @ q]) \<and>
     unquote q = Some (show_event e) \<and> no_address (show_event e)"
proof -
  obtain q where q: "tor_log SevNotice (show_event e) = (Ok (), [ascii ''LOG SEVERITY='' @ ascii (severity_name SevNotice) @ ascii '' MESSAGE='' @ q])"
    "unquote q = Some (show_event e)" using tor_log_line [of SevNotice "show_event e"] by blast
  have "ascii ''LOG SEVERITY='' @ ascii (severity_name SevNotice) @ ascii '' MESSAGE='' @ q = ascii ''LOG SEVERITY=notice MESSAGE='' @ q"
    by (simp add: ascii_def severity_name_def)
  with q all_scrubbed_no_address [OF show_event_scrubbed [of e]] show ?thesis by (auto simp: emit_event_def)
qed

section \<open>An address that is left\<close>

text \<open>\<open>2001:db8\<close> and what \<open>2001:db8::\<close> is read as.\<close>

lemma db8_reads:
  "read_octet (50 # 48 # 48 # 49 # t) = None" "read_octet (100 # t) = None" "read_octet (58 # t) = None"
  "read_number 16 (Some 4) True 65535 (58 # t) = None"
  "read_number 16 (Some 4) True 65535 (50 # 48 # 48 # 49 # 58 # t) = Some (8193, 58 # t)"
  "read_number 16 (Some 4) True 65535 (100 # 98 # 56 # 58 # t) = Some (3512, 58 # t)"
  "read_number 16 (Some 4) True 65535 [100, 98, 56] = Some (3512, [])"
  by (simp_all add: read_octet_def read_number_def digit_value_def is_digit_def)

lemma no_octet_no_ipv4: "read_octet s = None \<Longrightarrow> read_ipv4 s = None"
  using read_octets.simps(2) [of 3 0 s] by (simp add: read_ipv4_def read_separated_def)

lemma db8_groups:
  "read_groups 8 0 [50, 48, 48, 49, 58, 100, 98, 56] = ([8193, 3512], False, [])"
  "read_groups 8 0 [50, 48, 48, 49, 58, 100, 98, 56, 58, 58] = ([8193, 3512], False, [58, 58])"
proof -
  note reads = read_separated_def read_char_def db8_reads no_octet_no_ipv4
  have "read_groups 8 (Suc (Suc 0)) [] = ([], False, [])" "read_groups 8 (Suc (Suc 0)) [58, 58] = ([], False, [58, 58])"
    by (subst read_groups.simps, simp add: reads)+
  then have "read_groups 8 1 [58, 100, 98, 56] = ([3512], False, [])"
    "read_groups 8 1 [58, 100, 98, 56, 58, 58] = ([3512], False, [58, 58])"
    by (subst read_groups.simps, simp add: reads)+
  then show "read_groups 8 0 [50, 48, 48, 49, 58, 100, 98, 56] = ([8193, 3512], False, [])"
    "read_groups 8 0 [50, 48, 48, 49, 58, 100, 98, 56, 58, 58] = ([8193, 3512], False, [58, 58])"
    by (subst read_groups.simps, simp add: reads)+
qed

text \<open>An IPv6 address that ends with \<open>::\<close> is an address and is not scrubbed.\<close>

lemma trailing_colons_kept:
  "scrub (ascii ''2001:db8::'') = ascii ''2001:db8::'' \<and> parse_ip (ascii ''2001:db8::'') \<noteq> None"
proof -
  have t: "ascii ''2001:db8::'' = [50, 48, 48, 49, 58, 100, 98, 56, 58, 58]" by (simp add: ascii_def)
  have "\<not> is_addr [50, 48, 48, 49, 58, 100, 98, 56]"
    by (simp add: is_addr_def parse_socket_addr_def read_socket_v4_def read_socket_v6_def parse_ip_def parse_ipv4_def
        no_octet_no_ipv4 db8_reads all_read_def read_char_def read_ipv6_def db8_groups trim_end_of_def)
  then have "scrub (ascii ''2001:db8::'') = ascii ''2001:db8::''"
    unfolding t by (simp add: scrub_def token_char_def is_digit_def scrub_flush_def names_addr_def scrub_core_def trim_end_of_def)
  moreover have "read_groups 5 0 [] = ([], False, [])"
    by (subst read_groups.simps) (simp add: read_separated_def read_ipv4_def read_number_def read_octets.simps(2) [of 3, simplified] read_octet_def)
  then have "parse_ip (ascii ''2001:db8::'') \<noteq> None"
    unfolding t by (simp add: parse_ip_def no_octet_no_ipv4 db8_reads read_ipv6_def db8_groups read_char_def all_read_def)
  ultimately show ?thesis ..
qed

end
