(* ===== verification/Amp.thy ===== *)
theory Amp
  imports Text
begin

text \<open>
  The AMP cache rendezvous of \<open>src/transports/snowflake/adapters/amp.rs\<close>: request paths, cache
  URLs, and the HTML armor around the broker's answers.  Base64, IDNA, SHA-256, percent
  encoding and URLs are of other crates and arguments here.
\<close>

section \<open>Paths and names\<close>

definition ELEMENT_SIZE_LIMIT :: nat where "ELEMENT_SIZE_LIMIT = 32 * 1024"

text \<open>The nine random bytes are an argument.\<close>

definition encode_path :: "(bytes \<Rightarrow> bytes) \<Rightarrow> bytes \<Rightarrow> bytes \<Rightarrow> bytes" where
  "encode_path b64url breaker data = [48] @ b64url breaker @ [47] @ b64url data"

definition ALPHABET :: bytes where "ALPHABET = ascii ''abcdefghijklmnopqrstuvwxyz234567''"

text \<open>The inner loop of \<open>base32_lower_nopad\<close>, and the loop over the data.\<close>

function base32_flush :: "u32 \<Rightarrow> nat \<Rightarrow> bytes \<times> nat" where
  "base32_flush acc bits =
     (if 5 \<le> bits
      then (case base32_flush acc (bits - 5) of
              (out, bits') \<Rightarrow> (ALPHABET ! unat (drop_bit (bits - 5) acc AND 31) # out, bits'))
      else ([], bits))"
  by pat_completeness auto
termination by (relation "measure snd") auto

declare base32_flush.simps [simp del]

fun base32_loop :: "bytes \<Rightarrow> u32 \<Rightarrow> nat \<Rightarrow> bytes" where
  "base32_loop [] acc bits = (if 0 < bits then [ALPHABET ! unat (push_bit (5 - bits) acc AND 31)] else [])"
| "base32_loop (b # data) acc bits =
     (let acc = push_bit 8 acc OR ucast b; (out, bits) = base32_flush acc (bits + 8) in out @ base32_loop data acc bits)"

definition base32_lower_nopad :: "bytes \<Rightarrow> bytes" where "base32_lower_nopad data = base32_loop data 0 0"

definition dash_escape :: "bytes \<Rightarrow> bytes" where
  "dash_escape s = concat (map (\<lambda>c. if c = 46 then [45] else [c]) (concat (map (\<lambda>c. if c = 45 then [45, 45] else [c]) s)))"

record amp_env =
  ae_unicode :: "bytes \<Rightarrow> bytes option"
  ae_ascii :: "bytes \<Rightarrow> bytes option"
  ae_sha256 :: "bytes \<Rightarrow> bytes"
  ae_percent :: "bytes \<Rightarrow> bytes"

definition domain_prefix_basic :: "amp_env \<Rightarrow> bytes \<Rightarrow> bytes option" where
  "domain_prefix_basic ae domain =
     (case ae_unicode ae domain of
        None \<Rightarrow> None
      | Some unicode \<Rightarrow>
          let prefix = dash_escape unicode;
              prefix = (if 4 \<le> length prefix \<and> prefix ! 2 = 45 \<and> prefix ! 3 = 45 then [48, 45] @ prefix @ [45, 48] else prefix)
          in if list_all (\<lambda>c. c < 128) prefix then Some prefix else ae_ascii ae prefix)"

definition domain_prefix :: "amp_env \<Rightarrow> bytes \<Rightarrow> bytes" where
  "domain_prefix ae domain =
     (case domain_prefix_basic ae domain of
        Some p \<Rightarrow> if length p \<le> 63 then p else base32_lower_nopad (ae_sha256 ae domain)
      | None \<Rightarrow> base32_lower_nopad (ae_sha256 ae domain))"

text \<open>One segment of a path: dropped, taking the last one back, or kept.\<close>

definition join_segment :: "bool \<Rightarrow> bytes \<Rightarrow> bytes list \<Rightarrow> bytes list" where
  "join_segment rooted seg out =
     (if seg = [] \<or> seg = [46] then out
      else if seg = [46, 46] then
        (if out \<noteq> [] \<and> last out \<noteq> [46, 46] then butlast out else if \<not> rooted then out @ [[46, 46]] else out)
      else out @ [seg])"

definition path_join :: "bytes list \<Rightarrow> bytes" where
  "path_join parts =
     (let joined = join 47 (filter (\<lambda>p. p \<noteq> []) parts)
      in if joined = [] then []
         else let rooted = (take 1 joined = [47]); body = join 47 (fold (join_segment rooted) (split_on 47 joined) [])
              in if rooted then 47 # body else if body = [] then [46] else body)"

record amp_url =
  au_scheme :: bytes
  au_username :: bytes
  au_password :: "bytes option"
  au_host :: "bytes option"
  au_port :: "nat option"
  au_path :: bytes
  au_query :: "bytes option"
  au_fragment :: "bytes option"

datatype amp_error = BadContentType bytes | BadScheme bytes | HasUserinfo | BadPubPort nat bytes | BadPubHost bytes
  | CacheQuery | CacheFragment | UrlError

text \<open>The text of a cache URL; the last step, parsing it, is \<open>url\<close>'s.\<close>

definition cache_url_text :: "amp_env \<Rightarrow> amp_url \<Rightarrow> amp_url \<Rightarrow> bytes \<Rightarrow> (bytes, amp_error) res" where
  "cache_url_text ae pub cache content_type =
     (let unwrap = (\<lambda>h. case h of Some b \<Rightarrow> b | None \<Rightarrow> []);
          pub_host = rev (dropWhile (\<lambda>c. c = 93) (rev (dropWhile (\<lambda>c. c = 91) (unwrap (au_host pub)))));
          host = domain_prefix ae pub_host @ [46] @ unwrap (au_host cache);
          host = (case au_port cache of Some p \<Rightarrow> host @ [58] @ ascii (dec_nat p) | None \<Rightarrow> host)
      in if content_type = [] then Err (BadContentType content_type)
         else if au_scheme pub \<noteq> ascii ''http'' \<and> au_scheme pub \<noteq> ascii ''https'' then Err (BadScheme (au_scheme pub))
         else if au_username pub \<noteq> [] \<or> au_password pub \<noteq> None then Err HasUserinfo
         else case au_port pub of
           Some p \<Rightarrow> Err (BadPubPort p (au_scheme pub))
         | None \<Rightarrow>
             if pub_host = [] then Err (BadPubHost pub_host)
             else if (case au_query cache of Some q \<Rightarrow> q \<noteq> [] | None \<Rightarrow> False) then Err CacheQuery
             else if (case au_fragment cache of Some f \<Rightarrow> f \<noteq> [] | None \<Rightarrow> False) then Err CacheFragment
             else
               let scheme_part = (if au_scheme pub = ascii ''https'' then [115] else []);
                   path = path_join [au_path cache, ae_percent ae content_type, scheme_part, ae_percent ae pub_host, au_path pub];
                   user = (if au_username cache = [] then []
                           else au_username cache @ (case au_password cache of Some pw \<Rightarrow> 58 # pw | None \<Rightarrow> []) @ [64])
               in Ok (au_scheme cache @ [58, 47, 47] @ user @ host @ path @
                      (case au_query pub of Some q \<Rightarrow> 63 # q | None \<Rightarrow> []) @
                      (case au_fragment pub of Some f \<Rightarrow> 35 # f | None \<Rightarrow> [])))"

definition cache_url :: "amp_env \<Rightarrow> (bytes \<Rightarrow> amp_url option) \<Rightarrow> amp_url \<Rightarrow> amp_url \<Rightarrow> bytes \<Rightarrow> (amp_url, amp_error) res" where
  "cache_url ae parse pub cache content_type =
     (case cache_url_text ae pub cache content_type of
        Err e \<Rightarrow> Err e | Panic \<Rightarrow> Panic
      | Ok t \<Rightarrow> (case parse t of Some u \<Rightarrow> Ok u | None \<Rightarrow> Err UrlError))"

section \<open>The armor\<close>

definition RAW_TEXT_TAGS :: "bytes list" where
  "RAW_TEXT_TAGS = map ascii [''iframe'', ''noembed'', ''noframes'', ''noscript'', ''plaintext'', ''script'', ''style'', ''textarea'', ''title'', ''xmp'']"

definition ascii_whitespace :: "u8 \<Rightarrow> bool" where "ascii_whitespace c \<longleftrightarrow> c \<in> {9, 10, 12, 13, 32}"

definition tag_name :: "bytes \<Rightarrow> bytes" where
  "tag_name b = map lower (takeWhile (\<lambda>c. \<not> ascii_whitespace c \<and> c \<noteq> 47 \<and> c \<noteq> 62) b)"

text \<open>The loop of \<open>tag_end\<close> from the second byte on.\<close>

fun tag_end_from :: "nat \<Rightarrow> u8 option \<Rightarrow> bytes \<Rightarrow> nat option" where
  "tag_end_from i q [] = None"
| "tag_end_from i q (c # s) =
     (case q of
        Some k \<Rightarrow> tag_end_from (i + 1) (if c = k then None else Some k) s
      | None \<Rightarrow>
          if c = 34 \<or> c = 39 then tag_end_from (i + 1) (Some c) s
          else if c = 62 then Some (i + 1)
          else tag_end_from (i + 1) None s)"

definition tag_end :: "bytes \<Rightarrow> nat option" where "tag_end b = tag_end_from 1 None (drop 1 b)"

definition find_ci :: "bytes \<Rightarrow> bytes \<Rightarrow> nat option" where
  "find_ci hay needle = find_sub (map lower needle) (map lower hay)"

datatype armor_error = MaxBuffer | UnexpectedTag bytes | MissingPre | ArmorEof | BadBase64 | BadVersion u8

fun position :: "u8 \<Rightarrow> bytes \<Rightarrow> nat option" where
  "position c [] = None"
| "position c (x # s) = (if x = c then Some 0 else map_option Suc (position c s))"

definition or_len :: "nat option \<Rightarrow> nat \<Rightarrow> nat \<Rightarrow> nat" where
  "or_len r extra n = (case r of Some e \<Rightarrow> e + extra | None \<Rightarrow> n)"

definition alpha_at :: "bytes \<Rightarrow> nat \<Rightarrow> bool" where "alpha_at s i \<longleftrightarrow> i < length s \<and> is_alpha (s ! i)"
definition byte_at :: "bytes \<Rightarrow> nat \<Rightarrow> u8 \<Rightarrow> bool" where "byte_at s i c \<longleftrightarrow> i < length s \<and> s ! i = c"

text \<open>A tag at the head of the rest: where to go on and whether text is collected from there.\<close>

definition pre_tag :: "bytes \<Rightarrow> bool \<Rightarrow> (bytes \<times> bool, armor_error) res" where
  "pre_tag rest active =
     (let closing = byte_at rest 1 47;
          name = tag_name (drop (if closing then 2 else 1) rest);
          end = or_len (tag_end rest) 0 (length rest)
      in if ELEMENT_SIZE_LIMIT < end then Err MaxBuffer
         else if name = ascii ''pre'' then
           (if active \<noteq> closing then Err (UnexpectedTag (take end rest)) else Ok (drop end rest, \<not> closing))
         else if \<not> closing \<and> name \<in> set RAW_TEXT_TAGS then
           let after = drop end rest in Ok (drop (or_len (find_ci after ([60, 47] @ name)) 0 (length after)) after, active)
         else Ok (drop end rest, active))"

lemma tag_end_pos: "tag_end_from i q s = Some e \<Longrightarrow> i < e"
  by (induction i q s rule: tag_end_from.induct) (auto split: option.splits if_splits)

lemma pre_tag_shorter: "pre_tag rest active = Ok (r, a) \<Longrightarrow> rest \<noteq> [] \<Longrightarrow> length r < length rest"
  by (cases "tag_end rest")
     (auto simp: pre_tag_def Let_def or_len_def tag_end_def dest!: tag_end_pos split: if_splits option.splits)

function pre_loop :: "bytes \<Rightarrow> bool \<Rightarrow> bytes \<Rightarrow> (bytes, armor_error) res" where
  "pre_loop rest active out =
     (if rest = [] then (if active then Err MissingPre else Ok out)
      else if hd rest \<noteq> 60 then
        let end = or_len (position 60 rest) 0 (length rest)
        in if ELEMENT_SIZE_LIMIT < end then Err MaxBuffer
           else pre_loop (drop end rest) active (if active then out @ filter (\<lambda>c. \<not> ascii_whitespace c) (take end rest) else out)
      else if starts_with (ascii ''<!--'') rest then
        pre_loop (drop (or_len (find_ci (drop 4 rest) (ascii ''-->'')) 7 (length rest)) rest) active out
      else
        let closing = byte_at rest 1 47; is_tag = alpha_at rest (if closing then 2 else 1)
        in if byte_at rest 1 33 \<or> byte_at rest 1 63 \<or> (closing \<and> \<not> is_tag) then
             pre_loop (drop (or_len (position 62 rest) 1 (length rest)) rest) active out
           else if \<not> is_tag then pre_loop (drop 1 rest) active (if active then out @ [60] else out)
           else case pre_tag rest active of
             Ok (rest, active) \<Rightarrow> pre_loop rest active out
           | Err e \<Rightarrow> Err e
           | Panic \<Rightarrow> Panic)"
  by pat_completeness auto
termination
proof (relation "measure (\<lambda>(rest, _). length rest)", goal_cases)
  case (2 rest active out e)
  then show ?case by (cases rest) (auto simp: or_len_def split: option.splits)
next
  case (6 rest active out closing is_tag p r a)
  then show ?case using pre_tag_shorter by fastforce
qed (auto simp: or_len_def split: option.splits)

declare pre_loop.simps [simp del]

definition pre_text :: "bytes \<Rightarrow> (bytes, armor_error) res" where "pre_text html = pre_loop html False []"

definition armor_decode :: "(bytes \<Rightarrow> bytes option) \<Rightarrow> bytes \<Rightarrow> (bytes, armor_error) res" where
  "armor_decode base64 html =
     (case pre_text html of
        Err e \<Rightarrow> Err e | Panic \<Rightarrow> Panic
      | Ok [] \<Rightarrow> Err ArmorEof
      | Ok (v # t) \<Rightarrow>
          if v = 48 then (case base64 t of Some d \<Rightarrow> Ok d | None \<Rightarrow> Err BadBase64) else Err (BadVersion v))"

section \<open>What the broker wraps is unwrapped\<close>

text \<open>Markup as an AMP page has it, inside and outside of \<open>pre\<close> elements: comments, declarations (and
  processing instructions and bogus end tags), tags, and elements of raw text.\<close>

datatype markup = MComment bytes | MDecl u8 bytes | MTag bool bytes bytes | MRaw bytes bytes bytes bytes

definition tag_text :: "bool \<Rightarrow> bytes \<Rightarrow> bytes \<Rightarrow> bytes" where
  "tag_text closing name attrs = 60 # (if closing then [47] else []) @ name @ attrs @ [62]"

fun render :: "markup \<Rightarrow> bytes" where
  "render (MComment t) = ascii ''<!--'' @ t @ ascii ''-->''"
| "render (MDecl c t) = [60, c] @ t @ [62]"
| "render (MTag closing name attrs) = tag_text closing name attrs"
| "render (MRaw name attrs t name') = tag_text False name attrs @ t @ tag_text True name' []"

text \<open>Attributes may quote anything; outside quotes there is no \<open>>\<close>.\<close>

fun attrs_closed :: "u8 option \<Rightarrow> bytes \<Rightarrow> bool" where
  "attrs_closed q [] = (q = None)"
| "attrs_closed q (c # s) =
     (case q of
        Some k \<Rightarrow> attrs_closed (if c = k then None else Some k) s
      | None \<Rightarrow> c \<noteq> 62 \<and> attrs_closed (if c = 34 \<or> c = 39 then Some c else None) s)"

definition name_char :: "u8 \<Rightarrow> bool" where
  "name_char c \<longleftrightarrow> \<not> ascii_whitespace c \<and> c \<noteq> 47 \<and> c \<noteq> 62 \<and> c \<noteq> 34 \<and> c \<noteq> 39"

definition tag_ok :: "bool \<Rightarrow> bytes \<Rightarrow> bytes \<Rightarrow> bool" where
  "tag_ok closing name attrs \<longleftrightarrow> name \<noteq> [] \<and> is_alpha (hd name) \<and> list_all name_char name \<and>
     attrs_closed None attrs \<and> (attrs = [] \<or> ascii_whitespace (hd attrs) \<or> hd attrs = 47) \<and>
     length (tag_text closing name attrs) \<le> ELEMENT_SIZE_LIMIT"

text \<open>A text that an end mark follows holds no earlier occurrence of the mark.\<close>

definition ends_first :: "bytes \<Rightarrow> bytes \<Rightarrow> bool" where
  "ends_first mark t \<longleftrightarrow> (\<forall>i < length t. \<not> starts_with mark (drop i (t @ mark)))"

fun markup_ok :: "markup \<Rightarrow> bool" where
  "markup_ok (MComment t) = ends_first (ascii ''-->'') t"
| "markup_ok (MDecl c t) =
     (62 \<notin> set t \<and> (c = 33 \<and> take 2 t \<noteq> [45, 45] \<or> c = 63 \<or> c = 47 \<and> (t = [] \<or> \<not> is_alpha (hd t))))"
| "markup_ok (MTag closing name attrs) =
     (tag_ok closing name attrs \<and> map lower name \<noteq> ascii ''pre'' \<and> (closing \<or> map lower name \<notin> set RAW_TEXT_TAGS))"
| "markup_ok (MRaw name attrs t name') =
     (tag_ok False name attrs \<and> tag_ok True name' [] \<and> map lower name' = map lower name \<and>
      map lower name \<in> set RAW_TEXT_TAGS \<and> ends_first ([60, 47] @ map lower name) (map lower t))"

definition text_ok :: "bytes \<Rightarrow> bool" where "text_ok t \<longleftrightarrow> 60 \<notin> set t \<and> length t \<le> ELEMENT_SIZE_LIMIT"

text \<open>Text broken by markup.\<close>

type_synonym flow = "(bytes \<times> markup) list \<times> bytes"

definition flow_render :: "flow \<Rightarrow> bytes" where
  "flow_render fl = concat (map (\<lambda>(t, m). t @ render m) (fst fl)) @ snd fl"
definition flow_ok :: "flow \<Rightarrow> bool" where
  "flow_ok fl \<longleftrightarrow> list_all (\<lambda>(t, m). text_ok t \<and> markup_ok m) (fst fl) \<and> text_ok (snd fl)"
definition flow_content :: "flow \<Rightarrow> bytes" where
  "flow_content fl = filter (\<lambda>c. \<not> ascii_whitespace c) (concat (map fst (fst fl)) @ snd fl)"

text \<open>A page: flows of markup, each but the last followed by a \<open>pre\<close> element (the name in any case, with
  attributes) with a flow inside.\<close>

record pre_element =
  pe_name :: bytes
  pe_attrs :: bytes
  pe_flow :: flow
  pe_end :: bytes
  pe_end_attrs :: bytes

definition pre_render :: "pre_element \<Rightarrow> bytes" where
  "pre_render pe = tag_text False (pe_name pe) (pe_attrs pe) @ flow_render (pe_flow pe) @ tag_text True (pe_end pe) (pe_end_attrs pe)"
definition pre_ok :: "pre_element \<Rightarrow> bool" where
  "pre_ok pe \<longleftrightarrow> tag_ok False (pe_name pe) (pe_attrs pe) \<and> map lower (pe_name pe) = ascii ''pre'' \<and> flow_ok (pe_flow pe) \<and>
     tag_ok True (pe_end pe) (pe_end_attrs pe) \<and> map lower (pe_end pe) = ascii ''pre''"

definition page :: "(flow \<times> pre_element) list \<Rightarrow> flow \<Rightarrow> bytes" where
  "page ps end = concat (map (\<lambda>(fl, pe). flow_render fl @ pre_render pe) ps) @ flow_render end"
definition page_ok :: "(flow \<times> pre_element) list \<Rightarrow> flow \<Rightarrow> bool" where
  "page_ok ps end \<longleftrightarrow> list_all (\<lambda>(fl, pe). flow_ok fl \<and> pre_ok pe) ps \<and> flow_ok end"
definition page_content :: "(flow \<times> pre_element) list \<Rightarrow> bytes" where
  "page_content ps = concat (map (\<lambda>(_, pe). flow_content (pe_flow pe)) ps)"

lemma position_append: "c \<notin> set t \<Longrightarrow> position c (t @ r) = map_option ((+) (length t)) (position c r)"
  by (induction t) (cases "position c r"; auto)+

lemma position_none: "c \<notin> set t \<Longrightarrow> position c t = None"
  by (induction t) auto

lemma pre_loop_text:
  assumes "text_ok t" and "r = [] \<or> hd r = 60"
  shows "pre_loop (t @ r) a out = pre_loop r a (if a then out @ filter (\<lambda>c. \<not> ascii_whitespace c) t else out)"
proof (cases t)
  case (Cons x s)
  have "or_len (position 60 (t @ r)) 0 (length (t @ r)) = length t"
    using assms by (cases r) (auto simp: text_ok_def position_append position_none or_len_def)
  then show ?thesis using assms(1) Cons
    by (subst pre_loop.simps) (auto simp: text_ok_def Let_def)
qed simp

lemma tag_end_from_closed: "attrs_closed q s \<Longrightarrow> tag_end_from i q (s @ 62 # r) = Some (i + length s + 1)"
proof (induction s arbitrary: q i)
  case (Cons c s)
  then show ?case by (cases q) auto
qed simp

lemma alpha_other: "is_alpha c \<Longrightarrow> c \<noteq> 47 \<and> c \<noteq> 33 \<and> c \<noteq> 63"
  by (auto simp: is_alpha_def)

lemma attrs_closed_name: "list_all name_char name \<Longrightarrow> attrs_closed None s \<Longrightarrow> attrs_closed None (name @ s)"
  by (induction name) (auto simp: name_char_def)

lemma tag_end_tag:
  assumes "tag_ok closing name attrs"
  shows "tag_end (tag_text closing name attrs @ r) = Some (length (tag_text closing name attrs))"
proof -
  have "attrs_closed None ((if closing then [47] else []) @ name @ attrs)"
    using assms attrs_closed_name [of name attrs] by (simp add: tag_ok_def)
  from tag_end_from_closed [OF this, of 1 r] show ?thesis by (simp add: tag_end_def tag_text_def)
qed

lemma tag_name_tag:
  assumes "tag_ok closing name attrs"
  shows "tag_name (name @ attrs @ 62 # r) = map lower name"
proof -
  have "takeWhile (\<lambda>c. \<not> ascii_whitespace c \<and> c \<noteq> 47 \<and> c \<noteq> 62) (name @ attrs @ 62 # r) = name"
    using assms by (cases attrs) (auto simp: tag_ok_def list_all_iff name_char_def takeWhile_append2)
  then show ?thesis by (simp add: tag_name_def)
qed

lemma pre_tag_eval:
  assumes "tag_ok closing name attrs"
  shows "pre_tag (tag_text closing name attrs @ r) active =
    (if map lower name = ascii ''pre'' then
       (if active \<noteq> closing then Err (UnexpectedTag (tag_text closing name attrs)) else Ok (r, \<not> closing))
     else if \<not> closing \<and> map lower name \<in> set RAW_TEXT_TAGS then
       Ok (drop (or_len (find_ci r ([60, 47] @ map lower name)) 0 (length r)) r, active)
     else Ok (r, active))"
proof -
  let ?t = "tag_text closing name attrs"
  have c: "byte_at (?t @ r) 1 47 = closing"
    using assms alpha_other by (cases name) (auto simp: tag_text_def byte_at_def tag_ok_def)
  have n: "tag_name (drop (if closing then 2 else 1) (?t @ r)) = map lower name"
    using tag_name_tag [OF assms, of r] by (simp add: tag_text_def)
  have e: "or_len (tag_end (?t @ r)) 0 (length (?t @ r)) = length ?t"
    using tag_end_tag [OF assms, of r] by (simp add: or_len_def)
  show ?thesis
    using assms unfolding pre_tag_def c Let_def n e by (simp add: tag_ok_def)
qed

lemma pre_loop_tag:
  assumes "tag_ok closing name attrs"
  shows "pre_loop (tag_text closing name attrs @ r) active out =
    (case pre_tag (tag_text closing name attrs @ r) active of Ok (rest, active) \<Rightarrow> pre_loop rest active out | Err e \<Rightarrow> Err e | Panic \<Rightarrow> Panic)"
proof -
  let ?t = "tag_text closing name attrs @ r"
  obtain x s where x: "name = x # s" "is_alpha x" using assms by (cases name) (auto simp: tag_ok_def)
  then have x': "x \<noteq> 47" "x \<noteq> 33" "x \<noteq> 63" using alpha_other [of x] by auto
  have "\<not> starts_with (ascii ''<!--'') ?t" using x'(2) by (auto simp: starts_with_def tag_text_def ascii_def x(1))
  moreover have "byte_at ?t 1 47 = closing" using x' by (auto simp: byte_at_def tag_text_def x(1))
  moreover have "alpha_at ?t (if closing then 2 else 1)" using x by (auto simp: alpha_at_def tag_text_def)
  moreover have "\<not> byte_at ?t 1 33" "\<not> byte_at ?t 1 63" using x' by (auto simp: byte_at_def tag_text_def x(1))
  moreover have "tag_text closing name attrs \<noteq> []" "hd ?t = 60" by (simp_all add: tag_text_def)
  ultimately show ?thesis by (subst pre_loop.simps) (simp add: Let_def)
qed

lemma lower_idem: "lower (lower c) = lower c"
  by (auto simp: lower_def word_le_nat_alt unat_word_ariths)

lemma map_lower_idem: "map lower (map lower s) = map lower s" by (simp add: lower_idem)

lemma pre_not_raw: "ascii ''pre'' \<notin> set RAW_TEXT_TAGS" by (simp add: RAW_TEXT_TAGS_def ascii_def)

lemma find_first: "ends_first mark t \<Longrightarrow> mark \<noteq> [] \<Longrightarrow> find_sub mark (t @ mark @ r) = Some (length t)"
proof (rule find_sub_first)
  assume e: "ends_first mark t"
  show "\<forall>i<length t. \<not> starts_with mark (drop i (t @ mark @ r))"
  proof (intro allI impI)
    fix i assume i: "i < length t"
    have "\<not> starts_with mark (drop i (t @ mark))" using e i by (simp add: ends_first_def)
    moreover have "length mark \<le> length (drop i (t @ mark))" using i by simp
    moreover have "drop i (t @ mark @ r) = drop i (t @ mark) @ r" using i by simp
    ultimately show "\<not> starts_with mark (drop i (t @ mark @ r))" using starts_with_long by metis
  qed
qed simp

lemma find_ci_first:
  assumes "ends_first mark (map lower t)" and "map lower m = mark" and "map lower mark = mark" and "mark \<noteq> []"
  shows "find_ci (t @ m @ r) mark = Some (length t)"
  using find_first [OF assms(1,4), of "map lower r"] assms(2,3) by (simp add: find_ci_def)

lemma lower_mark: "lower c = 45 \<longleftrightarrow> c = 45" "lower c = 62 \<longleftrightarrow> c = 62"
  by (auto simp: lower_def word_le_nat_alt word_unat_eq_iff unat_word_ariths)

lemma starts_with_mark: "starts_with [45, 45, 62] (map lower s) = starts_with [45, 45, 62] s"
  by (cases s; cases "tl s"; cases "tl (tl s)") (auto simp: starts_with_def lower_mark)

lemma drop_comment: "drop (length t + 7) (a # b # c # d # t @ x # y # z # r) = r"
  by (simp add: numeral_eq_Suc)

lemma pre_loop_comment:
  assumes "ends_first (ascii ''-->'') t"
  shows "pre_loop (render (MComment t) @ r) a out = pre_loop r a out"
proof -
  have mark: "ascii ''-->'' = [45, 45, 62]" "ascii ''<!--'' = [60, 33, 45, 45]" by (simp_all add: ascii_def)
  have "ends_first [45, 45, 62] (map lower t)"
    unfolding ends_first_def
  proof (intro allI impI)
    fix i assume "i < length (map lower t)"
    then have "\<not> starts_with [45, 45, 62] (drop i (t @ [45, 45, 62]))" using assms by (simp add: ends_first_def mark)
    moreover have "drop i (map lower t @ [45, 45, 62]) = map lower (drop i (t @ [45, 45, 62]))"
      by (simp add: drop_map [symmetric] lower_def)
    ultimately show "\<not> starts_with [45, 45, 62] (drop i (map lower t @ [45, 45, 62]))" using starts_with_mark by metis
  qed
  from find_ci_first [OF this, of "[45, 45, 62]" r]
  have f: "find_ci (t @ [45, 45, 62] @ r) [45, 45, 62] = Some (length t)" by (simp add: lower_mark)
  have "starts_with [60, 33, 45, 45] ([60, 33, 45, 45] @ t @ [45, 45, 62] @ r)" by (simp add: starts_with_def)
  with f show ?thesis
    by (subst pre_loop.simps) (simp add: mark or_len_def drop_comment)
qed

lemma pre_loop_decl:
  assumes "markup_ok (MDecl c t)"
  shows "pre_loop (render (MDecl c t) @ r) a out = pre_loop r a out"
proof -
  have p: "position 62 ([60, c] @ t @ [62] @ r) = Some (length t + 2)"
    using assms by (auto simp: position_append)
  have "\<not> starts_with (ascii ''<!--'') ([60, c] @ t @ [62] @ r)"
  proof
    assume h: "starts_with (ascii ''<!--'') ([60, c] @ t @ [62] @ r)"
    then have "c = 33" "take 2 (t @ [62] @ r) = [45, 45]" by (simp_all add: starts_with_def ascii_def numeral_eq_Suc)
    then show False using assms by (cases t; cases "tl t") auto
  qed
  moreover have "byte_at ([60, c] @ t @ [62] @ r) 1 d = (c = d)" for d by (simp add: byte_at_def)
  moreover have "c = 47 \<Longrightarrow> \<not> alpha_at ([60, c] @ t @ [62] @ r) 2"
    using assms by (cases t) (auto simp: alpha_at_def is_alpha_def)
  ultimately show ?thesis using assms p
    by (subst pre_loop.simps) (auto simp: Let_def or_len_def)
qed

lemma pre_loop_markup:
  assumes "markup_ok m"
  shows "pre_loop (render m @ r) a out = pre_loop r a out"
proof (cases m)
  case (MComment t)
  then show ?thesis using assms pre_loop_comment by simp
next
  case (MDecl c t)
  then show ?thesis using assms pre_loop_decl by simp
next
  case (MTag closing name attrs)
  then have "tag_ok closing name attrs" using assms by simp
  from pre_loop_tag [OF this] pre_tag_eval [OF this] show ?thesis using assms MTag by auto
next
  case (MRaw name attrs t name')
  let ?c = "tag_text True name' []" and ?n = "[60, 47] @ map lower name"
  from MRaw assms have ok: "tag_ok False name attrs" "tag_ok True name' []" and raw: "map lower name \<in> set RAW_TEXT_TAGS"
    and same: "map lower name' = map lower name" and e: "ends_first ?n (map lower t)" by auto
  have lens: "lower 60 = 60" "lower 47 = 47" by (simp_all add: lower_def)
  have "find_ci (t @ ([60, 47] @ name') @ [62] @ r) ?n = Some (length t)"
    by (rule find_ci_first [OF e]) (simp_all add: same lens lower_idem)
  then have first: "find_ci (t @ ?c @ r) ?n = Some (length t)" by (simp add: tag_text_def)
  have not_pre: "map lower name \<noteq> ascii ''pre''" using raw pre_not_raw by auto
  have "pre_loop (render m @ r) a out = pre_loop (?c @ r) a out"
    using pre_loop_tag [OF ok(1), of "t @ ?c @ r" a out] pre_tag_eval [OF ok(1), of "t @ ?c @ r" a] first raw not_pre
    by (simp add: MRaw or_len_def)
  also have "\<dots> = pre_loop r a out"
    using pre_loop_tag [OF ok(2), of r a out] pre_tag_eval [OF ok(2), of r a] not_pre same by simp
  finally show ?thesis .
qed

lemma render_hd: "markup_ok m \<Longrightarrow> render m \<noteq> [] \<and> hd (render m) = 60"
  by (cases m) (simp_all add: tag_text_def ascii_def)

text \<open>A flow leaves the element as it is; its text is collected inside of \<open>pre\<close> elements only.\<close>

lemma pre_loop_flow:
  assumes "flow_ok fl" and "r = [] \<or> hd r = 60"
  shows "pre_loop (flow_render fl @ r) a out = pre_loop r a (if a then out @ flow_content fl else out)"
proof -
  obtain ps e where fl: "fl = (ps, e)" by force
  from assms(1) show ?thesis unfolding fl
  proof (induction ps arbitrary: out)
    case Nil
    then show ?case using pre_loop_text [of e r a out] assms(2) by (simp add: flow_ok_def flow_render_def flow_content_def)
  next
    case (Cons p ps)
    obtain t m where p: "p = (t, m)" by force
    from Cons.prems have ok: "text_ok t" "markup_ok m" "flow_ok (ps, e)" by (simp_all add: p flow_ok_def)
    let ?r = "flow_render (ps, e) @ r" and ?o = "if a then out @ filter (\<lambda>c. \<not> ascii_whitespace c) t else out"
    have "pre_loop (flow_render (p # ps, e) @ r) a out = pre_loop (t @ render m @ ?r) a out" by (simp add: p flow_render_def)
    also have "\<dots> = pre_loop (render m @ ?r) a ?o"
      by (rule pre_loop_text [OF ok(1)]) (use render_hd [OF ok(2)] in simp)
    also have "\<dots> = pre_loop ?r a ?o" by (rule pre_loop_markup [OF ok(2)])
    also have "\<dots> = pre_loop r a (if a then ?o @ flow_content (ps, e) else ?o)" by (rule Cons.IH [OF ok(3)])
    finally show ?case by (cases a) (simp_all add: p flow_content_def)
  qed
qed

lemma pre_loop_pre:
  assumes "pre_ok pe"
  shows "pre_loop (pre_render pe @ r) False out = pre_loop r False (out @ flow_content (pe_flow pe))"
proof -
  let ?e = "tag_text True (pe_end pe) (pe_end_attrs pe)" and ?f = "flow_render (pe_flow pe)"
  from assms have ok: "tag_ok False (pe_name pe) (pe_attrs pe)" "map lower (pe_name pe) = ascii ''pre''" "flow_ok (pe_flow pe)"
    "tag_ok True (pe_end pe) (pe_end_attrs pe)" "map lower (pe_end pe) = ascii ''pre''" by (simp_all add: pre_ok_def)
  have "pre_loop (pre_render pe @ r) False out = pre_loop (?f @ ?e @ r) True out"
    using pre_loop_tag [OF ok(1), of "?f @ ?e @ r" False out] pre_tag_eval [OF ok(1), of "?f @ ?e @ r" False] ok(2)
    by (simp add: pre_render_def)
  also have "\<dots> = pre_loop (?e @ r) True (out @ flow_content (pe_flow pe))"
    using pre_loop_flow [OF ok(3), of "?e @ r" True out] by (simp add: tag_text_def)
  also have "\<dots> = pre_loop r False (out @ flow_content (pe_flow pe))"
    using pre_loop_tag [OF ok(4), of r True] pre_tag_eval [OF ok(4), of r True] ok(5) by simp
  finally show ?thesis .
qed

lemma pre_loop_page:
  "page_ok ps end \<Longrightarrow> pre_loop (page ps end) False out = Ok (out @ page_content ps)"
proof (induction ps arbitrary: out)
  case Nil
  then show ?case using pre_loop_flow [of "end" "[]" False out]
    by (simp add: page_ok_def page_def page_content_def) (simp add: pre_loop.simps)
next
  case (Cons p ps)
  obtain fl pe where p: "p = (fl, pe)" by (cases p)
  from Cons.prems have ok: "flow_ok fl" "pre_ok pe" "page_ok ps end" by (simp_all add: p page_ok_def)
  have "pre_loop (page (p # ps) end) False out = pre_loop (flow_render fl @ pre_render pe @ page ps end) False out"
    by (simp add: p page_def)
  also have "\<dots> = pre_loop (pre_render pe @ page ps end) False out"
    using pre_loop_flow [OF ok(1), of "pre_render pe @ page ps end" False out] by (simp add: pre_render_def tag_text_def)
  also have "\<dots> = pre_loop (page ps end) False (out @ flow_content (pe_flow pe))" by (rule pre_loop_pre [OF ok(2)])
  finally show ?case using Cons.IH [OF ok(3)] by (simp add: p page_content_def)
qed

text \<open>C33: An answer the broker wrapped for an AMP cache is unwrapped.  The page may hold, around and inside its
  \<open>pre\<close> elements (whose name may be in any case and have attributes), comments, which end at their first
  \<open>--\<close> with a \<open>>\<close> and may hold any tags, declarations, tags with attributes that quote anything, and
  scripts, styles and other raw text; every text and tag is within the element size limit and every \<open><\<close>
  starts such markup.  The text of the \<open>pre\<close> elements without its white space is put together
  across all of that, and when it is the version \<open>0\<close> and the base64 of some data, the data is the result.\<close>
theorem armor_decodes_page:
  assumes "page_ok ps end" and "page_content ps = 48 # enc" and "base64 enc = Some data"
  shows "armor_decode base64 (page ps end) = Ok data"
  using pre_loop_page [OF assms(1), of "[]"] assms(2,3) by (simp add: armor_decode_def pre_text_def)

text \<open>A comment with a tag in it, inside of a \<open>PRE\<close> with attributes.\<close>

definition sample_page :: "(flow \<times> pre_element) list" where
  "sample_page =
     [(([([], MDecl 33 (ascii ''doctype html'')), ([10], MRaw (ascii ''SCRIPT'') (ascii '' src=''  @ [34, 62, 34]) [60] (ascii ''script'')),
        ([10], MTag False (ascii ''amp-body'') []), ([], MComment (ascii ''<pre>''))], [10]),
       \<lparr>pe_name = ascii ''PRE'', pe_attrs = ascii '' class='' @ [39] @ ascii ''a>b'' @ [39],
        pe_flow = ([(ascii ''0Q'', MComment (ascii ''</p>'')), (ascii ''U'', MTag True (ascii ''b'') [])], [10]),
        pe_end = ascii ''PRE'', pe_end_attrs = []\<rparr>),
      (([], [10]), \<lparr>pe_name = ascii ''pre'', pe_attrs = [], pe_flow = ([], ascii ''JD''), pe_end = ascii ''Pre'', pe_end_attrs = [32]\<rparr>)]"

lemma sample_page_ok: "page_ok sample_page ([], ascii ''ok'')"
  by (simp add: page_ok_def flow_ok_def pre_ok_def sample_page_def text_ok_def tag_ok_def tag_text_def ascii_def is_alpha_def name_char_def
    RAW_TEXT_TAGS_def ELEMENT_SIZE_LIMIT_def ascii_whitespace_def starts_with_def lower_def ends_first_def All_less_Suc)

lemma armor_decodes_page_witness:
  "armor_decode (\<lambda>s. if s = ascii ''QUJD'' then Some [65, 66, 67] else None) (page sample_page ([], ascii ''ok'')) = Ok [65, 66, 67]"
  by (rule armor_decodes_page [OF sample_page_ok, where enc = "ascii ''QUJD''"])
     (simp_all add: sample_page_def page_content_def flow_content_def ascii_def ascii_whitespace_def)

section \<open>Paths\<close>

text \<open>A segment list in normal form: no empty or dot segments, and parents only at the front of a relative
  path.\<close>

definition normal_segments :: "bool \<Rightarrow> bytes list \<Rightarrow> bool" where
  "normal_segments rooted segs \<longleftrightarrow>
     (\<exists>n ns. segs = replicate n [46, 46] @ ns \<and> (rooted \<longrightarrow> n = 0) \<and>
        (\<forall>s \<in> set ns. s \<noteq> [] \<and> s \<noteq> [46] \<and> s \<noteq> [46, 46] \<and> 47 \<notin> set s))"

lemma join_segment_normal:
  assumes "normal_segments rooted out" and "47 \<notin> set seg"
  shows "normal_segments rooted (join_segment rooted seg out)"
proof -
  from assms(1) obtain n ns where o: "out = replicate n [46, 46] @ ns" "rooted \<longrightarrow> n = 0"
    "\<forall>s \<in> set ns. s \<noteq> [] \<and> s \<noteq> [46] \<and> s \<noteq> [46, 46] \<and> 47 \<notin> set s" unfolding normal_segments_def by blast
  consider "seg = [] \<or> seg = [46]" | "seg = [46, 46]" "ns = []" | "seg = [46, 46]" "ns \<noteq> []"
    | "seg \<noteq> [] \<and> seg \<noteq> [46] \<and> seg \<noteq> [46, 46]" by blast
  then show ?thesis
  proof cases
    case 1
    then show ?thesis using assms(1) by (auto simp: join_segment_def)
  next
    case 2
    have "join_segment rooted seg out = (if rooted then out else replicate (Suc n) [46, 46] @ [])"
      using 2 o(1,2) by (auto simp: join_segment_def last_conv_nth replicate_append_same)
    then show ?thesis using assms(1) unfolding normal_segments_def by (metis empty_iff list.set(1))
  next
    case 3
    then have "last out \<noteq> [46, 46]" "out \<noteq> []" using o(1,3) by auto
    then have "join_segment rooted seg out = replicate n [46, 46] @ butlast ns"
      using 3 o(1) by (simp add: join_segment_def butlast_append)
    then show ?thesis using o unfolding normal_segments_def by (metis in_set_butlastD)
  next
    case 4
    then have "join_segment rooted seg out = replicate n [46, 46] @ (ns @ [seg])" using o(1) by (simp add: join_segment_def)
    moreover have "\<forall>s \<in> set (ns @ [seg]). s \<noteq> [] \<and> s \<noteq> [46] \<and> s \<noteq> [46, 46] \<and> 47 \<notin> set s" using o(3) 4 assms(2) by auto
    ultimately show ?thesis using o(2) unfolding normal_segments_def by blast
  qed
qed

lemma split_on_clean: "p \<in> set (split_on c s) \<Longrightarrow> c \<notin> set p"
  by (induction s arbitrary: p) (auto split: list.splits if_splits)

lemma fold_join_normal: "\<forall>s \<in> set segs. 47 \<notin> set s \<Longrightarrow> normal_segments rooted out \<Longrightarrow> normal_segments rooted (fold (join_segment rooted) segs out)"
  by (induction segs arbitrary: out) (auto intro: join_segment_normal)

lemma split_on_join: "ss \<noteq> [] \<Longrightarrow> \<forall>s \<in> set ss. c \<notin> set s \<Longrightarrow> split_on c (join c ss) = ss"
  by (induction c ss rule: join.induct) (auto simp: split_on_none split_on_append)

text \<open>A list in normal form is left as it is.\<close>

lemma fold_join_fixed:
  "normal_segments rooted (out @ segs) \<Longrightarrow> fold (join_segment rooted) segs out = out @ segs"
proof (induction segs arbitrary: out)
  case (Cons s segs)
  from Cons.prems obtain n ns where o: "out @ s # segs = replicate n [46, 46] @ ns" "rooted \<longrightarrow> n = 0"
    "\<forall>s \<in> set ns. s \<noteq> [] \<and> s \<noteq> [46] \<and> s \<noteq> [46, 46] \<and> 47 \<notin> set s" unfolding normal_segments_def by blast
  have "s = (replicate n [46, 46] @ ns) ! length out" using o(1) by (metis nth_append_length)
  moreover have "length out < length (replicate n [46, 46] @ ns)" using arg_cong [OF o(1), of length] by simp
  ultimately consider "length out < n" "s = [46, 46]" | "s \<in> set ns"
    by (cases "length out < n") (auto simp: nth_append)
  then have "join_segment rooted s out = out @ [s]"
  proof cases
    case 1
    then have "out = replicate (length out) [46, 46]"
      using arg_cong [OF o(1), of "take (length out)"] by (simp add: min_def)
    then have "out = [] \<or> last out = [46, 46]" by (metis last_replicate length_0_conv)
    then show ?thesis using 1 o(2) by (auto simp: join_segment_def)
  next
    case 2
    then show ?thesis using o(3) by (auto simp: join_segment_def)
  qed
  with Cons.IH [of "out @ [s]"] Cons.prems show ?case by simp
qed simp

definition path_normal :: "bytes \<Rightarrow> bool" where
  "path_normal p \<longleftrightarrow> (\<exists>segs. (normal_segments True segs \<and> p = 47 # join 47 segs) \<or>
     (normal_segments False segs \<and> segs \<noteq> [] \<and> p = join 47 segs)) \<or> p = [46]"

lemma normal_nonempty:
  assumes "normal_segments rooted segs" and "s \<in> set segs"
  shows "s \<noteq> [] \<and> 47 \<notin> set s \<and> s \<noteq> [46]"
proof -
  from assms(1) obtain n ns where o: "segs = replicate n [46, 46] @ ns"
    "\<forall>s \<in> set ns. s \<noteq> [] \<and> s \<noteq> [46] \<and> s \<noteq> [46, 46] \<and> 47 \<notin> set s" unfolding normal_segments_def by blast
  with assms(2) consider "s = [46, 46]" | "s \<in> set ns" by auto
  then show ?thesis using o(2) by cases auto
qed

lemma join_normal: "normal_segments rooted segs \<Longrightarrow> segs \<noteq> [] \<Longrightarrow> join 47 segs \<noteq> [] \<and> hd (join 47 segs) \<noteq> 47"
proof -
  assume n: "normal_segments rooted segs" "segs \<noteq> []"
  then obtain s ss where s: "segs = s # ss" by (cases segs) auto
  with n(1) normal_nonempty [of rooted segs s] have "s \<noteq> [] \<and> hd s \<noteq> 47" by (cases s) auto
  then show ?thesis by (cases ss) (auto simp: s)
qed

lemma path_join_normal: "path_join parts = [] \<or> path_normal (path_join parts)"
proof -
  let ?j = "join 47 (filter (\<lambda>p. p \<noteq> []) parts)"
  let ?s = "fold (join_segment (take 1 ?j = [47])) (split_on 47 ?j) []"
  have n: "normal_segments (take 1 ?j = [47]) ?s"
    by (rule fold_join_normal) (auto dest: split_on_clean simp: normal_segments_def intro!: exI [of _ 0])
  show ?thesis
  proof (cases "?s = []")
    case True
    then show ?thesis using n by (auto simp: path_join_def Let_def path_normal_def intro!: exI [of _ "[]"])
  next
    case False
    with join_normal [OF n False] n show ?thesis by (auto simp: path_join_def Let_def path_normal_def)
  qed
qed

lemma path_normal_join: "path_normal p \<Longrightarrow> path_join [p] = p"
proof -
  assume "path_normal p"
  then consider segs where "normal_segments True segs" "p = 47 # join 47 segs"
    | segs where "normal_segments False segs" "segs \<noteq> []" "p = join 47 segs" | "p = [46]" by (auto simp: path_normal_def)
  then show ?thesis
  proof cases
    case 1
    have f: "fold (join_segment True) segs [] = segs" using fold_join_fixed [of True "[]" segs] 1(1) by simp
    have "split_on 47 p = [] # (if segs = [] then [[]] else segs)"
      using 1 normal_nonempty [OF 1(1)] by (auto simp: split_on_join)
    with f have "fold (join_segment True) (split_on 47 p) [] = segs" by (auto simp: join_segment_def)
    then show ?thesis by (simp add: path_join_def 1(2))
  next
    case 2
    from join_normal [OF 2(1,2)] have r: "take 1 p \<noteq> [47]" "p \<noteq> []" unfolding 2(3) by (auto simp: neq_Nil_conv)
    have f: "fold (join_segment False) segs [] = segs" using fold_join_fixed [of False "[]" segs] 2(1) by simp
    have "split_on 47 p = segs" unfolding 2(3) by (rule split_on_join) (use 2 normal_nonempty in auto)
    with f r 2(3) show ?thesis by (simp add: path_join_def)
  next
    case 3
    then show ?thesis by (simp add: path_join_def join_segment_def)
  qed
qed

text \<open>A path joined for a cache URL is in normal form whatever the publisher's path holds: it has no
  empty and no dot segment, none of a rooted path points upwards, and joining it again changes nothing.\<close>
theorem path_join_normal_form:
  "(path_join parts = [] \<or> path_normal (path_join parts)) \<and> path_join [path_join parts] = path_join parts"
proof
  show n: "path_join parts = [] \<or> path_normal (path_join parts)" by (rule path_join_normal)
  have "path_join [[]] = []" by (simp add: path_join_def)
  then show "path_join [path_join parts] = path_join parts" using n path_normal_join by auto
qed

section \<open>Host labels\<close>

lemma base32_flush_count: "base32_flush acc bits = (out, bits') \<Longrightarrow> 5 * length out + bits' = bits \<and> bits' < 5"
proof (induction acc bits arbitrary: out rule: base32_flush.induct)
  case (1 acc bits)
  show ?case
  proof (cases "5 \<le> bits")
    case True
    with "1.prems" obtain out' where "base32_flush acc (bits - 5) = (out', bits')" "length out = Suc (length out')"
      by (subst (asm) base32_flush.simps) (auto split: prod.splits)
    with "1.IH" [OF True this(1)] True show ?thesis by linarith
  qed (use "1.prems" in \<open>subst (asm) base32_flush.simps, simp\<close>)
qed

lemma base32_loop_length: "bits < 5 \<Longrightarrow> length (base32_loop data acc bits) = (bits + 8 * length data + 4) div 5"
proof (induction data acc bits rule: base32_loop.induct)
  case (2 b data acc bits)
  obtain out bits' where f: "base32_flush (push_bit 8 acc OR ucast b) (bits + 8) = (out, bits')" by force
  from base32_flush_count [OF f] have c: "5 * length out + bits' = bits + 8" "bits' < 5" by auto
  have "length (base32_loop data (push_bit 8 acc OR ucast b) bits') = (bits' + 8 * length data + 4) div 5"
    using 2 f c(2) by auto
  moreover have "bits + 8 * length (b # data) + 4 = 5 * length out + (bits' + 8 * length data + 4)" using c(1) by simp
  ultimately show ?case by (simp add: Let_def f)
qed (auto simp: div_if)

text \<open>Every host label fits the limit of the domain name system.\<close>

lemma domain_prefix_fits:
  assumes "length (ae_sha256 ae domain) = 32"
  shows "length (domain_prefix ae domain) \<le> 63"
  using base32_loop_length [of 0 "ae_sha256 ae domain" 0] assms
  by (auto simp: domain_prefix_def base32_lower_nopad_def split: option.splits)

end
