(* ===== verification/ExtOrPort.thy ===== *)
theory ExtOrPort
  imports PtSetup Await
begin

text \<open>
  The server side's connection to tor, from \<open>src/shared/adapters/extorport.rs\<close>: the plain
  ORPort, or the extended one with mutual proof of the cookie and the metadata of the
  client.  A connection is what tor will still send, what was written to it, and how many
  writes succeed; HMAC, the random nonce and the file's contents are arguments.
\<close>

section \<open>The connection\<close>

datatype or_error = CookieEof | CookieTooLong | CookieHeader | CookieUnreadable | TooManyTypes | TypeNotOffered | HashMismatch
  | AuthRejected | BodyTooLong nat | Denied | UnknownCommand u16 | NoOrPort | ConnectFailed | OrTimedOut | OrIo io_kind | OrWrite

record tcp =
  tc_src :: source
  tc_out :: "bytes list"
  tc_wfail :: "nat option"

type_synonym 'a orc = "('a, or_error, tcp) await"

definition tc_read :: "nat \<Rightarrow> tcp \<Rightarrow> bytes orc" where
  "tc_read n s =
     (case read_exact n (tc_src s) of
        (Done bs, src) \<Rightarrow> (Some (Ok bs), s\<lparr>tc_src := src\<rparr>)
      | (Failed e, src) \<Rightarrow> (Some (Err (OrIo e)), s\<lparr>tc_src := src\<rparr>)
      | (Pending, src) \<Rightarrow> (None, s\<lparr>tc_src := src\<rparr>))"

definition tc_write :: "bytes \<Rightarrow> tcp \<Rightarrow> unit orc" where
  "tc_write data s =
     (if tc_wfail s = Some 0 then (Some (Err OrWrite), s)
      else (Some (Ok ()), s\<lparr>tc_out := tc_out s @ [data], tc_wfail := map_option (\<lambda>k. k - 1) (tc_wfail s)\<rparr>))"

section \<open>Authentication\<close>

definition CMD_DONE :: u16 where "CMD_DONE = 0x0000"
definition CMD_USERADDR :: u16 where "CMD_USERADDR = 0x0001"
definition CMD_TRANSPORT :: u16 where "CMD_TRANSPORT = 0x0002"
definition CMD_OKAY :: u16 where "CMD_OKAY = 0x1000"
definition CMD_DENY :: u16 where "CMD_DENY = 0x1001"

definition AUTH_COOKIE_HEADER :: bytes where "AUTH_COOKIE_HEADER = ascii ''! Extended ORPort Auth Cookie !'' @ [10]"

definition read_auth_cookie :: "bytes \<Rightarrow> (bytes, or_error) res" where
  "read_auth_cookie data =
     (if length data < 64 then Err CookieEof
      else if 64 < length data then Err CookieTooLong
      else if take 32 data \<noteq> AUTH_COOKIE_HEADER then Err CookieHeader
      else Ok (drop 32 data))"

definition ext_hash :: "(bytes \<Rightarrow> bytes \<Rightarrow> bytes) \<Rightarrow> bytes \<Rightarrow> bytes \<Rightarrow> bytes \<Rightarrow> bytes \<Rightarrow> bytes" where
  "ext_hash hmac cookie label client_nonce server_nonce = hmac cookie (label @ client_nonce @ server_nonce)"

definition SERVER_LABEL :: bytes where "SERVER_LABEL = ascii ''ExtORPort authentication server-to-client hash''"
definition CLIENT_LABEL :: bytes where "CLIENT_LABEL = ascii ''ExtORPort authentication client-to-server hash''"

text \<open>The loop over the offered types: how many more may come, and those seen.\<close>

fun auth_types :: "nat \<Rightarrow> u8 set \<Rightarrow> tcp \<Rightarrow> u8 set orc" where
  "auth_types 0 offered s = (Some (Err TooManyTypes), s)"
| "auth_types (Suc k) offered s =
     await (tc_read 1 s) (\<lambda>bs s.
       if hd bs = 0 then (Some (Ok offered), s) else auth_types k (insert (hd bs) offered) s)"

definition read_cookie :: "bytes option \<Rightarrow> (bytes, or_error) res" where
  "read_cookie file = (case file of None \<Rightarrow> Err CookieUnreadable | Some data \<Rightarrow> read_auth_cookie data)"

definition authenticate :: "(bytes \<Rightarrow> bytes \<Rightarrow> bytes) \<Rightarrow> bytes \<Rightarrow> bytes option \<Rightarrow> tcp \<Rightarrow> unit orc" where
  "authenticate hmac client_nonce file s =
     await (auth_types 256 {} s) (\<lambda>offered s.
       if 1 \<notin> offered then (Some (Err TypeNotOffered), s)
       else await (tc_write [1] s) (\<lambda>_ s.
       await (tc_write client_nonce s) (\<lambda>_ s.
       await (tc_read 32 s) (\<lambda>server_hash s.
       await (tc_read 32 s) (\<lambda>server_nonce s.
       await (Some (read_cookie file), s) (\<lambda>cookie s.
         if ext_hash hmac cookie SERVER_LABEL client_nonce server_nonce \<noteq> server_hash then (Some (Err HashMismatch), s)
         else await (tc_write (ext_hash hmac cookie CLIENT_LABEL client_nonce server_nonce) s) (\<lambda>_ s.
         await (tc_read 1 s) (\<lambda>b s. (Some (if hd b \<noteq> 1 then Err AuthRejected else Ok ()), s)))))))))"

section \<open>Metadata\<close>

definition send_command :: "u16 \<Rightarrow> bytes \<Rightarrow> tcp \<Rightarrow> unit orc" where
  "send_command cmd body s =
     (if 65535 < length body then (Some (Err (BodyTooLong (length body))), s)
      else tc_write (u16_be cmd @ u16_be (word_of_nat (length body)) @ body) s)"

definition set_metadata :: "bytes \<Rightarrow> bytes \<Rightarrow> tcp \<Rightarrow> unit orc" where
  "set_metadata addr method s =
     await (if addr \<noteq> [] then send_command CMD_USERADDR addr s else (Some (Ok ()), s)) (\<lambda>_ s.
     await (if method \<noteq> [] then send_command CMD_TRANSPORT method s else (Some (Ok ()), s)) (\<lambda>_ s.
     await (send_command CMD_DONE [] s) (\<lambda>_ s.
     await (tc_read 2 s) (\<lambda>cmd s.
     await (tc_read 2 s) (\<lambda>len s.
     await (tc_read (unat (be_u16 len)) s) (\<lambda>_ s.
       (Some (if be_u16 cmd = CMD_OKAY then Ok () else if be_u16 cmd = CMD_DENY then Err Denied
              else Err (UnknownCommand (be_u16 cmd))), s)))))))"

text \<open>\<open>dial_or\<close>: connecting gives a connection or fails; a wait past the five seconds is the
  timeout.\<close>

definition dial_or :: "(bytes \<Rightarrow> bytes \<Rightarrow> bytes) \<Rightarrow> bytes \<Rightarrow> bytes option \<Rightarrow> (socket_addr \<Rightarrow> tcp option) \<Rightarrow>
    server_info \<Rightarrow> socket_addr \<Rightarrow> bytes \<Rightarrow> (tcp, or_error) res" where
  "dial_or hmac client_nonce file connect info peer method =
     (case (if si_auth_cookie_path info \<noteq> [] then si_extended_or_addr info else None) of
        None \<Rightarrow>
          (case si_or_addr info of
             None \<Rightarrow> Err NoOrPort
           | Some a \<Rightarrow> (case connect a of None \<Rightarrow> Err ConnectFailed | Some s \<Rightarrow> Ok s))
      | Some a \<Rightarrow>
          (case connect a of
             None \<Rightarrow> Err ConnectFailed
           | Some s \<Rightarrow>
               (case await (authenticate hmac client_nonce file s) (\<lambda>_ s. set_metadata (show_socket_addr peer) method s) of
                  (Some (Ok _), s) \<Rightarrow> Ok s
                | (Some (Err e), _) \<Rightarrow> Err e
                | (Some Panic, _) \<Rightarrow> Panic
                | (None, _) \<Rightarrow> Err OrTimedOut)))"

section \<open>Who is at the other end\<close>

lemma tc_read_ok:
  assumes "tc_read n s = (Some (Ok bs), s')" and "src_flat (tc_src s) = (all, e)"
  obtains r where "all = bs @ r" "length bs = n" "src_flat (tc_src s') = (r, e)" "tc_out s' = tc_out s"
proof -
  from assms(1) obtain src where r: "read_exact n (tc_src s) = (Done bs, src)" "s' = s\<lparr>tc_src := src\<rparr>"
    by (auto simp: tc_read_def split: prod.splits io.splits)
  have "n \<le> length all"
  proof (rule ccontr)
    assume "\<not> n \<le> length all"
    with src.exact_short [OF assms(2), of n] r(1) show False by (cases e) auto
  qed
  with src.exact_enough [OF assms(2), of n] r that [of "drop n all"] show thesis by auto
qed

lemma tc_write_ok: "tc_write d s = (Some (Ok u), s') \<Longrightarrow> tc_src s' = tc_src s \<and> tc_out s' = tc_out s @ [d]"
  by (auto simp: tc_write_def split: if_splits)

lemma auth_types_ok:
  assumes "auth_types k offered s = (Some (Ok seen), s')" and "src_flat (tc_src s) = (all, e)"
  obtains ts r where "all = ts @ 0 # r" "0 \<notin> set ts" "seen = offered \<union> set ts" "length ts < k"
    "src_flat (tc_src s') = (r, e)" "tc_out s' = tc_out s"
proof -
  from assms have "\<exists>ts r. all = ts @ 0 # r \<and> 0 \<notin> set ts \<and> seen = offered \<union> set ts \<and> length ts < k \<and>
    src_flat (tc_src s') = (r, e) \<and> tc_out s' = tc_out s"
  proof (induction k offered s arbitrary: all rule: auth_types.induct)
    case (2 k offered s)
    from "2.prems"(1) obtain bs s1 where b: "tc_read 1 s = (Some (Ok bs), s1)"
      and rest: "(if hd bs = 0 then (Some (Ok offered), s1) else auth_types k (insert (hd bs) offered) s1) = (Some (Ok seen), s')"
      by (auto simp: await_ok)
    from tc_read_ok [OF b "2.prems"(2)] obtain r where r: "all = bs @ r" "length bs = 1" "src_flat (tc_src s1) = (r, e)" "tc_out s1 = tc_out s" .
    then obtain x where x: "bs = [x]" by (cases bs) auto
    show ?case
    proof (cases "x = 0")
      case True
      with rest r x show ?thesis by (intro exI [of _ "[]"] exI [of _ r]) auto
    next
      case False
      with rest x have "auth_types k (insert x offered) s1 = (Some (Ok seen), s')" by simp
      with "2.IH" [of bs s1 r] b x False r(3) obtain ts t where
        "r = ts @ 0 # t" "0 \<notin> set ts" "seen = insert x offered \<union> set ts" "length ts < k" "src_flat (tc_src s') = (t, e)" "tc_out s' = tc_out s1" by auto
      with r x False show ?thesis by (intro exI [of _ "x # ts"] exI [of _ t]) auto
    qed
  qed simp
  with that show thesis by blast
qed

lemma authenticate_ok:
  assumes "authenticate hmac cn file s = (Some (Ok u), s')" and "src_flat (tc_src s) = (all, e)"
  obtains ts sh sn cookie r where "all = ts @ 0 # sh @ sn @ 1 # r" "1 \<in> set ts" "length sh = 32" "length sn = 32"
    "file = Some (AUTH_COOKIE_HEADER @ cookie)" "length cookie = 32" "sh = hmac cookie (SERVER_LABEL @ cn @ sn)"
    "tc_out s' = tc_out s @ [[1], cn, hmac cookie (CLIENT_LABEL @ cn @ sn)]" "src_flat (tc_src s') = (r, e)"
proof -
  from assms(1) obtain seen s1 u1 s2 u2 s3 sh s4 sn s5 cookie u6 s6 b where
    1: "auth_types 256 {} s = (Some (Ok seen), s1)" "1 \<in> seen" and w: "tc_write [1] s1 = (Some (Ok u1), s2)" "tc_write cn s2 = (Some (Ok u2), s3)"
    and 4: "tc_read 32 s3 = (Some (Ok sh), s4)" and 5: "tc_read 32 s4 = (Some (Ok sn), s5)" and c: "read_cookie file = Ok cookie"
    and h: "ext_hash hmac cookie SERVER_LABEL cn sn = sh"
    and 6: "tc_write (ext_hash hmac cookie CLIENT_LABEL cn sn) s5 = (Some (Ok u6), s6)" and 7: "tc_read 1 s6 = (Some (Ok b), s')" "hd b = 1"
    by (auto simp: authenticate_def await_ok split: if_splits)
  from auth_types_ok [OF 1(1) assms(2)] obtain ts r1 where t: "all = ts @ 0 # r1" "seen = {} \<union> set ts" "src_flat (tc_src s1) = (r1, e)" "tc_out s1 = tc_out s" .
  have "src_flat (tc_src s3) = (r1, e)" using t(3) tc_write_ok [OF w(1)] tc_write_ok [OF w(2)] by simp
  from tc_read_ok [OF 4 this] obtain r2 where 4: "r1 = sh @ r2" "length sh = 32" "src_flat (tc_src s4) = (r2, e)" "tc_out s4 = tc_out s3" .
  from tc_read_ok [OF 5 4(3)] obtain r3 where 5: "r2 = sn @ r3" "length sn = 32" "src_flat (tc_src s5) = (r3, e)" "tc_out s5 = tc_out s4" .
  have "src_flat (tc_src s6) = (r3, e)" using 5(3) tc_write_ok [OF 6] by simp
  from tc_read_ok [OF 7(1) this] obtain r where 7: "r3 = b @ r" "length b = 1" "src_flat (tc_src s') = (r, e)" "tc_out s' = tc_out s6" .
  then have "b = [1]" using \<open>hd b = 1\<close> by (cases b) auto
  from c obtain data where d: "file = Some data" "read_auth_cookie data = Ok cookie" by (auto simp: read_cookie_def split: option.splits)
  then have data: "length data = 64" "take 32 data = AUTH_COOKIE_HEADER" "cookie = drop 32 data"
    by (auto simp: read_auth_cookie_def split: if_splits)
  have stored: "file = Some (AUTH_COOKIE_HEADER @ cookie)" using append_take_drop_id [of 32 data] data(2,3) d(1) by simp
  have out: "tc_out s' = tc_out s @ [[1], cn, hmac cookie (CLIENT_LABEL @ cn @ sn)]"
    using 7(4) tc_write_ok [OF 6] 5(4) 4(4) tc_write_ok [OF w(2)] tc_write_ok [OF w(1)] t(4) by (simp add: ext_hash_def)
  have all: "all = ts @ 0 # sh @ sn @ 1 # r" using t(1) 4(1) 5(1) 7(1) \<open>b = [1]\<close> by simp
  show thesis
    by (rule that [OF all _ 4(2) 5(2) stored _ _ out 7(3)]) (use t(2) 1(2) data h in \<open>simp_all add: ext_hash_def\<close>)
qed

definition command_bytes :: "u16 \<Rightarrow> bytes \<Rightarrow> bytes" where
  "command_bytes cmd body = u16_be cmd @ u16_be (word_of_nat (length body)) @ body"

lemma send_command_ok: "send_command cmd body s = (Some (Ok u), s') \<Longrightarrow> tc_src s' = tc_src s \<and> tc_out s' = tc_out s @ [command_bytes cmd body]"
  by (auto simp: send_command_def command_bytes_def dest: tc_write_ok split: if_splits)

lemma okay_bytes: "u16_be CMD_OKAY = [0x10, 0]"
  by (simp add: CMD_OKAY_def u16_be_def byte_simps)

lemma set_metadata_ok:
  assumes "set_metadata addr method s = (Some (Ok u), s')" and "src_flat (tc_src s) = (all, e)"
  obtains len body r where "all = [0x10, 0] @ len @ body @ r" "length len = 2" "length body = unat (be_u16 len)"
    "tc_out s' = tc_out s @ (if addr \<noteq> [] then [command_bytes CMD_USERADDR addr] else []) @
       (if method \<noteq> [] then [command_bytes CMD_TRANSPORT method] else []) @ [command_bytes CMD_DONE []]"
    "src_flat (tc_src s') = (r, e)"
proof -
  from assms(1) obtain u1 s1 u2 s2 u3 s3 cmd s4 len s5 body s6 where
    1: "(if addr \<noteq> [] then send_command CMD_USERADDR addr s else (Some (Ok ()), s)) = (Some (Ok u1), s1)"
    and 2: "(if method \<noteq> [] then send_command CMD_TRANSPORT method s1 else (Some (Ok ()), s1)) = (Some (Ok u2), s2)"
    and 3: "send_command CMD_DONE [] s2 = (Some (Ok u3), s3)" and 4: "tc_read 2 s3 = (Some (Ok cmd), s4)" and 5: "tc_read 2 s4 = (Some (Ok len), s5)"
    and 6: "tc_read (unat (be_u16 len)) s5 = (Some (Ok body), s6)"
    and last: "(Some (if be_u16 cmd = CMD_OKAY then Ok () else if be_u16 cmd = CMD_DENY then Err Denied
              else Err (UnknownCommand (be_u16 cmd))), s6) = (Some (Ok u), s')"
    unfolding set_metadata_def await_ok by blast
  from last have c: "be_u16 cmd = CMD_OKAY" "s6 = s'" by (auto split: if_splits)
  have o: "tc_src s3 = tc_src s" "tc_out s3 = tc_out s @ (if addr \<noteq> [] then [command_bytes CMD_USERADDR addr] else []) @
       (if method \<noteq> [] then [command_bytes CMD_TRANSPORT method] else []) @ [command_bytes CMD_DONE []]"
    using 1 2 send_command_ok [OF 3] by (auto dest!: send_command_ok split: if_splits)
  from tc_read_ok [OF 4] o(1) assms(2) obtain r1 where 4: "all = cmd @ r1" "length cmd = 2" "src_flat (tc_src s4) = (r1, e)" "tc_out s4 = tc_out s3" by metis
  from tc_read_ok [OF 5 4(3)] obtain r2 where 5: "r1 = len @ r2" "length len = 2" "src_flat (tc_src s5) = (r2, e)" "tc_out s5 = tc_out s4" .
  from tc_read_ok [OF 6 [unfolded c(2)] 5(3)] obtain r where 6: "r2 = body @ r" "length body = unat (be_u16 len)" "src_flat (tc_src s') = (r, e)" "tc_out s' = tc_out s5" .
  have "length cmd = Suc (Suc 0)" using 4(2) by simp
  then obtain x y where xy: "cmd = [x, y]" by (auto simp: length_Suc_conv)
  have "u16_be (be_u16 cmd) = cmd" unfolding xy by (rule u16_be_of_be)
  then have "cmd = [0x10, 0]" unfolding c(1) okay_bytes by simp
  then show thesis using that [of len body r] 4 5 6 o(2) c(2) by simp
qed

text \<open>C39: A bridge talks only to the tor that knows its cookie, and says who calls: when the extended ORPort is
  dialled with success, the other end offered the cookie type and proved the cookie of the file for this nonce, what
  was written is the type, the nonce, our proof and the metadata, and the tunnel begins right after the reply.\<close>
theorem extended_or_authenticated:
  assumes "dial_or hmac cn file connect info peer method = Ok s" and "si_auth_cookie_path info \<noteq> []"
    and "si_extended_or_addr info = Some a" and "connect a = Some s0" and "src_flat (tc_src s0) = (all, e)" and "tc_out s0 = []"
  shows "\<exists>cookie ts sn len body r.
    file = Some (AUTH_COOKIE_HEADER @ cookie) \<and> length cookie = 32 \<and> 1 \<in> set ts \<and> length sn = 32 \<and>
    all = ts @ [0] @ hmac cookie (SERVER_LABEL @ cn @ sn) @ sn @ [1, 0x10, 0] @ len @ body @ r \<and>
    length len = 2 \<and> length body = unat (be_u16 len) \<and> src_flat (tc_src s) = (r, e) \<and>
    tc_out s = [[1], cn, hmac cookie (CLIENT_LABEL @ cn @ sn), command_bytes CMD_USERADDR (show_socket_addr peer)] @
      (if method \<noteq> [] then [command_bytes CMD_TRANSPORT method] else []) @ [command_bytes CMD_DONE []]"
proof -
  from assms(1-4) obtain u where "await (authenticate hmac cn file s0) (\<lambda>_ s. set_metadata (show_socket_addr peer) method s) = (Some (Ok u), s)"
    by (auto simp: dial_or_def split: prod.splits option.splits res.splits)
  then obtain u1 s1 where 1: "authenticate hmac cn file s0 = (Some (Ok u1), s1)" and 2: "set_metadata (show_socket_addr peer) method s1 = (Some (Ok u), s)"
    unfolding await_ok by blast
  from authenticate_ok [OF 1 assms(5)] obtain ts sh sn cookie r where a: "all = ts @ 0 # sh @ sn @ 1 # r" "1 \<in> set ts" "length sh = 32" "length sn = 32"
    "file = Some (AUTH_COOKIE_HEADER @ cookie)" "length cookie = 32" "sh = hmac cookie (SERVER_LABEL @ cn @ sn)"
    "tc_out s1 = tc_out s0 @ [[1], cn, hmac cookie (CLIENT_LABEL @ cn @ sn)]" "src_flat (tc_src s1) = (r, e)" .
  from set_metadata_ok [OF 2 a(9)] obtain len body r' where m: "r = [0x10, 0] @ len @ body @ r'" "length len = 2" "length body = unat (be_u16 len)"
    "tc_out s = tc_out s1 @ (if show_socket_addr peer \<noteq> [] then [command_bytes CMD_USERADDR (show_socket_addr peer)] else []) @
       (if method \<noteq> [] then [command_bytes CMD_TRANSPORT method] else []) @ [command_bytes CMD_DONE []]"
    "src_flat (tc_src s) = (r', e)" .
  have "show_socket_addr peer \<noteq> []" by (simp add: show_socket_addr_def split: prod.split)
  then have out: "tc_out s = [[1], cn, hmac cookie (CLIENT_LABEL @ cn @ sn), command_bytes CMD_USERADDR (show_socket_addr peer)] @
      (if method \<noteq> [] then [command_bytes CMD_TRANSPORT method] else []) @ [command_bytes CMD_DONE []]"
    unfolding m(4) a(8) assms(6) by simp
  have all: "all = ts @ [0] @ hmac cookie (SERVER_LABEL @ cn @ sn) @ sn @ [1, 0x10, 0] @ len @ body @ r'"
    unfolding a(1) m(1) a(7) by simp
  from out all a(2,4,5,6) m(2,3,5) show ?thesis by blast
qed

definition sample_events :: source where
  "sample_events = [SrcData [3], SrcData [1], SrcData [0], SrcData (replicate 32 7), SrcData (replicate 32 9), SrcData [1],
     SrcData [0x10, 0], SrcData [0, 1], SrcData [5], SrcData [42]]"

definition sample_info :: server_info where
  "sample_info = \<lparr>si_bindaddrs = [], si_or_addr = None, si_extended_or_addr = Some (IpV4 [127, 0, 0, 1], 9), si_auth_cookie_path = [47]\<rparr>"

lemma tc_read_chunk:
  assumes "bs \<noteq> []" and "n = length bs"
  shows "tc_read n \<lparr>tc_src = SrcData bs # evs, tc_out = out, tc_wfail = w\<rparr> = (Some (Ok bs), \<lparr>tc_src = evs, tc_out = out, tc_wfail = w\<rparr>)"
  using assms by (simp add: tc_read_def read_exact.simps [of "length bs"] read_exact.simps [of 0])

lemma auth_types_Suc: "0 < k \<Longrightarrow> auth_types k offered s =
     await (tc_read 1 s) (\<lambda>bs s. if hd bs = 0 then (Some (Ok offered), s) else auth_types (k - 1) (insert (hd bs) offered) s)"
  by (cases k) (simp_all only: auth_types.simps diff_Suc_1 less_irrefl)

lemma sample_auth:
  "authenticate (\<lambda>_ _. replicate 32 7) (replicate 32 1) (Some (AUTH_COOKIE_HEADER @ replicate 32 6)) \<lparr>tc_src = sample_events, tc_out = [], tc_wfail = None\<rparr> =
     (Some (Ok ()), \<lparr>tc_src = drop 6 sample_events, tc_out = [[1], replicate 32 1, replicate 32 7], tc_wfail = None\<rparr>)"
proof -
  have len: "length AUTH_COOKIE_HEADER = 32" by (simp add: AUTH_COOKIE_HEADER_def ascii_def)
  have r: "replicate 32 x \<noteq> []" for x :: u8 by simp
  show ?thesis
    by (simp add: authenticate_def sample_events_def auth_types_Suc tc_read_chunk tc_write_def read_cookie_def read_auth_cookie_def len r
      ext_hash_def)
qed

lemma sample_metadata:
  "set_metadata (show_socket_addr peer) [] \<lparr>tc_src = drop 6 sample_events, tc_out = out, tc_wfail = None\<rparr> =
     (Some (Ok ()), \<lparr>tc_src = [SrcData [42]], tc_out = out @ [command_bytes CMD_USERADDR (show_socket_addr peer), command_bytes CMD_DONE []], tc_wfail = None\<rparr>)"
  if "length (show_socket_addr peer) \<le> 65535"
proof -
  have "be_u16 [0x10, 0] = CMD_OKAY" "unat (be_u16 [0, 1]) = 1" by (simp_all add: be_u16_def CMD_OKAY_def)
  moreover have "show_socket_addr peer \<noteq> []" by (simp add: show_socket_addr_def split: prod.split)
  ultimately show ?thesis using that
    by (simp add: set_metadata_def sample_events_def send_command_def command_bytes_def tc_write_def tc_read_chunk)
qed

definition sample_end :: tcp where
  "sample_end = \<lparr>tc_src = [SrcData [42]], tc_out = [[1], replicate 32 1, replicate 32 7,
     command_bytes CMD_USERADDR (show_socket_addr (IpV4 [10, 0, 0, 1], 7)), command_bytes CMD_DONE []], tc_wfail = None\<rparr>"

lemma sample_dial:
  "dial_or (\<lambda>_ _. replicate 32 7) (replicate 32 1) (Some (AUTH_COOKIE_HEADER @ replicate 32 6))
     (\<lambda>_. Some \<lparr>tc_src = sample_events, tc_out = [], tc_wfail = None\<rparr>) sample_info (IpV4 [10, 0, 0, 1], 7) [] = Ok sample_end"
proof -
  let ?peer = "(IpV4 [10, 0, 0, 1], 7) :: socket_addr"
  have "show_socket_addr ?peer = ascii ''10.0.0.1:7''"
    by (simp add: show_socket_addr_def show_ipv4_def dec_byte_def dec_nat.simps ascii_def)
  then have "length (show_socket_addr ?peer) \<le> 65535" by (simp add: ascii_def)
  then show ?thesis
    by (simp add: dial_or_def sample_info_def sample_auth sample_metadata sample_end_def)
qed

lemma extended_or_authenticated_witness:
  "\<exists>cookie ts sn len body r.
    Some (AUTH_COOKIE_HEADER @ replicate 32 6) = Some (AUTH_COOKIE_HEADER @ cookie) \<and> length cookie = 32 \<and> 1 \<in> set ts \<and> length sn = 32 \<and>
    fst (src_flat sample_events) = ts @ [0] @ (\<lambda>_ _. replicate 32 7) cookie (SERVER_LABEL @ replicate 32 1 @ sn) @ sn @ [1, 0x10, 0] @ len @ body @ r \<and>
    length len = 2 \<and> length body = unat (be_u16 len) \<and> src_flat (tc_src sample_end) = (r, StillOpen) \<and>
    tc_out sample_end = [[1], replicate 32 1, (\<lambda>_ _. replicate 32 7) cookie (CLIENT_LABEL @ replicate 32 1 @ sn),
        command_bytes CMD_USERADDR (show_socket_addr (IpV4 [10, 0, 0, 1], 7))] @
      (if [] \<noteq> ([] :: bytes) then [command_bytes CMD_TRANSPORT []] else []) @ [command_bytes CMD_DONE []]"
  by (rule extended_or_authenticated [OF sample_dial, where a = "(IpV4 [127, 0, 0, 1], 9)"
      and ?s0.0 = "\<lparr>tc_src = sample_events, tc_out = [], tc_wfail = None\<rparr>"])
     (simp_all add: sample_info_def sample_events_def)

end
