(* ===== verification/Broker.thy ===== *)
theory Broker
  imports PtSetup Gorand
begin

text \<open>
  The broker of snowflake: the bridge-line arguments and ICE servers of
  \<open>src/transports/snowflake/domain/config.rs\<close>, and the poll request, the poll response and
  the choice of a rendezvous channel of \<open>domain/broker.rs\<close>.  Strings are their UTF-8
  bytes.  Reading JSON and building the channels are arguments, the first of the crate
  \<open>serde_json\<close>, the second the trait \<open>RendezvousFactory\<close>.  Log lines are left out.
\<close>

section \<open>The arguments\<close>

record broker_config =
  bc_broker_url :: bytes
  bc_amp_cache_url :: bytes
  bc_sqs_queue_url :: bytes
  bc_sqs_creds :: bytes
  bc_front_domains :: "bytes list"
  bc_keep_local :: bool
  bc_utls_client_id :: bytes
  bc_utls_remove_sni :: bool
  bc_fingerprint :: bytes

record sf_config =
  sc_broker :: broker_config
  sc_ice :: "bytes list"
  sc_max :: int

definition broker_config_default :: broker_config where
  "broker_config_default = \<lparr>bc_broker_url = [], bc_amp_cache_url = [], bc_sqs_queue_url = [], bc_sqs_creds = [],
     bc_front_domains = [], bc_keep_local = False, bc_utls_client_id = [], bc_utls_remove_sni = False, bc_fingerprint = []\<rparr>"

definition split_list :: "bytes \<Rightarrow> bytes list" where "split_list s = split_on 44 (trim s)"

text \<open>\<open>parse::<i64>\<close>: a sign, then at least one digit, within the range.\<close>

definition parse_int64 :: "bytes \<Rightarrow> int option" where
  "parse_int64 s =
     (case s of
        [] \<Rightarrow> None
      | c # r \<Rightarrow>
          if c = 45 then
            (if r = [] then None else map_option (\<lambda>n. - int n) (digits_to_nat 10 (2 ^ 63) 0 r))
          else map_option int (parse_unsigned 10 (2 ^ 63 - 1) s))"

abbreviation arg :: "args \<Rightarrow> string \<Rightarrow> bytes option" where "arg a k \<equiv> args_get a (ascii k)"

text \<open>An argument that is absent leaves the default, which is empty.\<close>

definition arg_or_empty :: "args \<Rightarrow> string \<Rightarrow> bytes" where
  "arg_or_empty a k = (case arg a k of Some v \<Rightarrow> v | None \<Rightarrow> [])"

definition front_domains :: "args \<Rightarrow> bytes list" where
  "front_domains a =
     (case arg a ''fronts'' of
        Some v \<Rightarrow> if v \<noteq> [] then split_list v else []
      | None \<Rightarrow> (case arg a ''front'' of Some v \<Rightarrow> split_list v | None \<Rightarrow> []))"

definition proxy_arg :: "text_env \<Rightarrow> (bytes \<Rightarrow> bytes) \<Rightarrow> bytes \<Rightarrow> ('a, bytes) res" where
  "proxy_arg te pct v =
     (case parse_proxy_uri te pct v of
        Ok sp \<Rightarrow>
          if px_scheme sp \<noteq> ascii ''socks5'' then Err (ascii ''proxy is not supported: unsupported proxy type'')
          else Err (ascii ''proxy is not supported: SOCKS5 UDP relaying is not implemented in lyrebird-rs'')
      | Err _ \<Rightarrow> Err (ascii ''Invalid SOCKS arg: proxy='' @ v)
      | Panic \<Rightarrow> Panic)"

definition parse_sf_args :: "text_env \<Rightarrow> (bytes \<Rightarrow> bytes) \<Rightarrow> args \<Rightarrow> (sf_config, bytes) res" where
  "parse_sf_args te pct a =
     (case (case arg a ''max'' of
              Some v \<Rightarrow> (case parse_int64 v of Some m \<Rightarrow> Ok m | None \<Rightarrow> Err (ascii ''Invalid SOCKS arg: max='' @ v))
            | None \<Rightarrow> Ok 0) of
        Err e \<Rightarrow> Err e
      | Panic \<Rightarrow> Panic
      | Ok mx \<Rightarrow>
          (case arg a ''proxy'' of
             Some v \<Rightarrow> proxy_arg te pct v
           | None \<Rightarrow>
               Ok \<lparr>sc_broker =
                     \<lparr>bc_broker_url = arg_or_empty a ''url'', bc_amp_cache_url = arg_or_empty a ''ampcache'',
                      bc_sqs_queue_url = arg_or_empty a ''sqsqueue'', bc_sqs_creds = arg_or_empty a ''sqscreds'',
                      bc_front_domains = front_domains a, bc_keep_local = False,
                      bc_utls_client_id = arg_or_empty a ''utls-imitate'',
                      bc_utls_remove_sni = (case arg a ''utls-nosni'' of
                        Some v \<Rightarrow> map lower v \<in> {ascii ''true'', ascii ''yes''} | None \<Rightarrow> False),
                      bc_fingerprint = arg_or_empty a ''fingerprint''\<rparr>,
                   sc_ice = (case arg a ''ice'' of Some v \<Rightarrow> split_list v | None \<Rightarrow> []),
                   sc_max = mx\<rparr>))"

section \<open>ICE servers\<close>

datatype ice_error = UnknownScheme | QueryInAddress | NoCloseBracket | InvalidPort | ManyColons | MissingHost

text \<open>The host and, if one is named, the port.\<close>

definition ice_host_port :: "bytes \<Rightarrow> (bytes \<times> bytes option, ice_error) res" where
  "ice_host_port rest =
     (if take 1 rest = [91] then
        (case split_once 93 (drop 1 rest) of
           None \<Rightarrow> Err NoCloseBracket
         | Some (h, tail) \<Rightarrow>
             if tail = [] then Ok (h, None)
             else if take 1 tail = [58] then Ok (h, Some (drop 1 tail)) else Err InvalidPort)
      else case find_last 58 rest of
        Some i \<Rightarrow> if 58 \<in> set (take i rest) then Err ManyColons else Ok (take i rest, Some (drop (i + 1) rest))
      | None \<Rightarrow> Ok (rest, None))"

definition stun_text :: "bytes \<Rightarrow> nat \<Rightarrow> bytes" where
  "stun_text host port =
     (if 58 \<in> set host then ascii ''stun:['' @ host @ ascii '']:'' @ ascii (dec_nat port)
      else ascii ''stun:'' @ host @ ascii '':'' @ ascii (dec_nat port))"

definition parse_stun_url :: "bytes \<Rightarrow> (bytes, ice_error) res" where
  "parse_stun_url address =
     (if take 5 address \<noteq> ascii ''stun:'' then Err UnknownScheme
      else
        let rest = drop 5 address
        in if set rest \<inter> {63, 47, 35} \<noteq> {} then Err QueryInAddress
           else case ice_host_port rest of
             Err e \<Rightarrow> Err e
           | Panic \<Rightarrow> Panic
           | Ok (host, port) \<Rightarrow>
               if host = [] then Err MissingHost
               else case (case port of None \<Rightarrow> Some 3478 | Some p \<Rightarrow> parse_unsigned 10 65535 p) of
                      None \<Rightarrow> Err InvalidPort
                    | Some n \<Rightarrow> Ok (stun_text host n))"

text \<open>One address: its scheme is compared without case, then it is parsed.\<close>

definition ice_server :: "bytes \<Rightarrow> bytes list" where
  "ice_server address =
     (let address = trim address
      in if map_option (\<lambda>(s, _). map lower s) (split_once 58 address) \<noteq> Some (ascii ''stun'') then []
         else case parse_stun_url address of Ok s \<Rightarrow> [s] | _ \<Rightarrow> [])"

definition parse_ice_servers :: "bytes list \<Rightarrow> bytes list" where
  "parse_ice_servers addresses = concat (map ice_server addresses)"

text \<open>\<open>shuffle\<close>: \<open>for i in (1..len).rev() { swap(i, intn(i + 1)) }\<close>, drawing from \<open>csrand\<close>.\<close>

fun shuffle_down :: "nat \<Rightarrow> 'a list \<Rightarrow> (nat \<Rightarrow> bytes) \<Rightarrow> (('a list \<times> (nat \<Rightarrow> bytes)) option, unit) res" where
  "shuffle_down 0 v s = Ok (Some (v, s))"
| "shuffle_down (Suc i) v s =
     (case csrand_intn (int (Suc i) + 1) s of
        Ok (Some (j, s')) \<Rightarrow> shuffle_down i (v[Suc i := v ! nat j, nat j := v ! Suc i]) s'
      | Ok None \<Rightarrow> Ok None
      | Err e \<Rightarrow> Err e
      | Panic \<Rightarrow> Panic)"

definition shuffle :: "'a list \<Rightarrow> (nat \<Rightarrow> bytes) \<Rightarrow> (('a list \<times> (nat \<Rightarrow> bytes)) option, unit) res" where
  "shuffle v s = shuffle_down (length v - 1) v s"

section \<open>The poll request\<close>

definition CLIENT_VERSION :: bytes where "CLIENT_VERSION = ascii ''1.0''"
definition DEFAULT_BRIDGE_FINGERPRINT :: bytes where
  "DEFAULT_BRIDGE_FINGERPRINT = ascii ''2B280B23E1107BB62ABFC40DDCC8824814F80A72''"

definition u_escape :: "nat \<Rightarrow> bytes" where
  "u_escape n = [92, 117, hex_char (n div 4096), hex_char (n div 256 mod 16), hex_char (n div 16 mod 16), hex_char (n mod 16)]"

text \<open>The characters U+2028 and U+2029 are the only ones of more than one byte to be escaped.\<close>

definition line_separator :: "u8 \<Rightarrow> bytes \<Rightarrow> bool" where
  "line_separator c s \<longleftrightarrow> c = 0xE2 \<and> (take 2 s = [0x80, 0xA8] \<or> take 2 s = [0x80, 0xA9])"

definition json_char :: "u8 \<Rightarrow> bytes" where
  "json_char c =
     (if c = 34 then [92, 34] else if c = 92 then [92, 92] else if c = 10 then [92, 110] else if c = 13 then [92, 114]
      else if c = 9 then [92, 116] else if c \<in> {60, 62, 38} \<or> c < 32 then u_escape (unat c) else [c])"

function json_chars :: "bytes \<Rightarrow> bytes" where
  "json_chars [] = []"
| "json_chars (c # s) =
     (if line_separator c s then u_escape (if take 2 s = [0x80, 0xA8] then 0x2028 else 0x2029) @ json_chars (drop 2 s)
      else json_char c @ json_chars s)"
  by pat_completeness auto
termination by (relation "measure length") auto

definition go_json_string :: "bytes \<Rightarrow> bytes" where "go_json_string s = [34] @ json_chars s @ [34]"

definition encode_poll_request :: "bytes \<Rightarrow> bytes \<Rightarrow> bytes \<Rightarrow> bytes" where
  "encode_poll_request offer_sdp nat_type fingerprint =
     (let fingerprint = (if fingerprint = [] then DEFAULT_BRIDGE_FINGERPRINT else fingerprint);
          offer = ascii ''{\"type\":\"offer\",\"sdp\":'' @ go_json_string offer_sdp @ ascii ''}''
      in CLIENT_VERSION @ [10] @ ascii ''{\"offer\":'' @ go_json_string offer @ ascii '',\"nat\":'' @ go_json_string nat_type @
         ascii '',\"fingerprint\":'' @ go_json_string fingerprint @ ascii ''}'')"

section \<open>The poll response\<close>

text \<open>Values of \<open>serde_json\<close>; numbers are their text.\<close>

datatype json = JNull | JBool bool | JNumber bytes | JString bytes | JArray "json list" | JObject "(bytes \<times> json) list"

text \<open>
  What the crate is asked for: the members \<open>answer\<close> and \<open>error\<close> of the response, empty when
  absent, and the members of a JSON object.  Both fail with a text.
\<close>

record json_env =
  js_response :: "bytes \<Rightarrow> (bytes \<times> bytes, bytes) res"
  js_object :: "bytes \<Rightarrow> (bytes \<rightharpoonup> json, bytes) res"

datatype answer_error = BadJson bytes | EmptyResponse | BrokerError bytes | NoType | NoSdp | NotAnAnswer | UnknownType | SdpNotString

definition decode_answer :: "(bytes \<rightharpoonup> json) \<Rightarrow> (bytes, answer_error) res" where
  "decode_answer desc =
     (case desc (ascii ''type'') of
        None \<Rightarrow> Err NoType
      | Some kind \<Rightarrow>
          (case desc (ascii ''sdp'') of
             None \<Rightarrow> Err NoSdp
           | Some sdp \<Rightarrow>
               (case kind of
                  JString k \<Rightarrow>
                    if k = ascii ''answer'' then (case sdp of JString t \<Rightarrow> Ok t | _ \<Rightarrow> Err SdpNotString)
                    else if k \<in> {ascii ''offer'', ascii ''pranswer'', ascii ''rollback''} then Err NotAnAnswer
                    else Err UnknownType
                | _ \<Rightarrow> Err UnknownType)))"

definition decode_poll_response :: "json_env \<Rightarrow> bytes \<Rightarrow> (bytes, answer_error) res" where
  "decode_poll_response je data =
     (case js_response je data of
        Err e \<Rightarrow> Err (BadJson e)
      | Panic \<Rightarrow> Panic
      | Ok (answer, error) \<Rightarrow>
          if error = [] \<and> answer = [] then Err EmptyResponse
          else if error \<noteq> [] then Err (BrokerError error)
          else case js_object je answer of
            Err e \<Rightarrow> Err (BadJson e)
          | Panic \<Rightarrow> Panic
          | Ok desc \<Rightarrow> decode_answer desc)"

section \<open>The broker channel\<close>

datatype channel_request = AskSqs bytes bytes | AskAmp bytes bytes "bytes list" bool | AskHttp bytes "bytes list" bool

datatype channel_error = MultipleMethods | NoSqsCreds | NoMethodGiven | FactoryError bytes

definition choose_channel :: "broker_config \<Rightarrow> (channel_request, channel_error) res" where
  "choose_channel c =
     (let send_sni = (\<not> bc_utls_remove_sni c \<or> bc_utls_client_id c = [])
      in if bc_sqs_queue_url c \<noteq> [] then
           (if bc_amp_cache_url c \<noteq> [] \<or> bc_broker_url c \<noteq> [] then Err MultipleMethods
            else if bc_sqs_creds c = [] then Err NoSqsCreds
            else Ok (AskSqs (bc_sqs_queue_url c) (bc_sqs_creds c)))
         else if bc_amp_cache_url c \<noteq> [] \<and> bc_broker_url c \<noteq> [] then
           Ok (AskAmp (bc_broker_url c) (bc_amp_cache_url c) (bc_front_domains c) send_sni)
         else if bc_broker_url c \<noteq> [] then Ok (AskHttp (bc_broker_url c) (bc_front_domains c) send_sni)
         else Err NoMethodGiven)"

record 'r broker_channel =
  bk_rendezvous :: 'r
  bk_keep_local :: bool
  bk_nat_type :: nat_kind
  bk_fingerprint :: bytes

definition broker_new :: "(channel_request \<Rightarrow> ('r, bytes) res) \<Rightarrow> broker_config \<Rightarrow> ('r broker_channel, channel_error) res" where
  "broker_new factory c =
     (case choose_channel c of
        Err e \<Rightarrow> Err e
      | Panic \<Rightarrow> Panic
      | Ok ask \<Rightarrow>
          (case factory ask of
             Err e \<Rightarrow> Err (FactoryError e)
           | Panic \<Rightarrow> Panic
           | Ok r \<Rightarrow> Ok \<lparr>bk_rendezvous = r, bk_keep_local = bc_keep_local c, bk_nat_type = NatUnknown, bk_fingerprint = bc_fingerprint c\<rparr>))"

definition nat_name :: "nat_kind \<Rightarrow> bytes" where
  "nat_name k = ascii (case k of NatUnknown \<Rightarrow> ''unknown'' | NatRestricted \<Rightarrow> ''restricted'' | NatUnrestricted \<Rightarrow> ''unrestricted'')"

datatype 'e negotiate_error = ExchangeFailed 'e | AnswerFailed answer_error

text \<open>\<open>negotiate\<close>, over what the rendezvous answers to a request; \<open>None\<close> is still waiting.\<close>

definition negotiate ::
  "json_env \<Rightarrow> ('r \<Rightarrow> bytes \<Rightarrow> (bytes, 'e) res option) \<Rightarrow> 'r broker_channel \<Rightarrow> bytes \<Rightarrow> nat_kind \<Rightarrow> (bytes, 'e negotiate_error) res option" where
  "negotiate je exchange bk offer_sdp nat_to_send =
     map_option (\<lambda>r.
       case r of
         Err e \<Rightarrow> Err (ExchangeFailed e)
       | Panic \<Rightarrow> Panic
       | Ok resp \<Rightarrow>
           (case decode_poll_response je resp of Ok sdp \<Rightarrow> Ok sdp | Err e \<Rightarrow> Err (AnswerFailed e) | Panic \<Rightarrow> Panic))
       (exchange (bk_rendezvous bk) (encode_poll_request offer_sdp (nat_name nat_to_send) (bk_fingerprint bk)))"

definition set_nat_type :: "nat_kind \<Rightarrow> 'r broker_channel \<Rightarrow> 'r broker_channel" where
  "set_nat_type k bk = bk\<lparr>bk_nat_type := k\<rparr>"

section \<open>A request is read back\<close>

text \<open>RFC 8259's strings, read up to the closing quote: what a broker does with the request.\<close>

definition utf8_of :: "nat \<Rightarrow> bytes option" where
  "utf8_of n =
     (if n < 0x80 then Some [word_of_nat n]
      else if n < 0x800 then Some [word_of_nat (0xC0 + n div 64), word_of_nat (0x80 + n mod 64)]
      else if 0xD800 \<le> n \<and> n < 0xE000 then None
      else Some [word_of_nat (0xE0 + n div 4096), word_of_nat (0x80 + n div 64 mod 64), word_of_nat (0x80 + n mod 64)])"

definition simple_escape :: "u8 \<Rightarrow> u8 option" where
  "simple_escape e =
     (if e \<in> {34, 92, 47} then Some e else if e = 110 then Some 10 else if e = 114 then Some 13 else if e = 116 then Some 9
      else if e = 98 then Some 8 else if e = 102 then Some 12 else None)"

function json_read :: "bytes \<Rightarrow> (bytes \<times> bytes) option" where
  "json_read [] = None"
| "json_read (c # s) =
     (if c = 34 then Some ([], s)
      else if c = 92 then
        (if take 1 s = [117] then
           (if length s < 5 then None
            else case Option.bind (digits_to_nat 16 65535 0 (slice 1 5 s)) utf8_of of
              None \<Rightarrow> None
            | Some bs \<Rightarrow> map_option (\<lambda>(t, r). (bs @ t, r)) (json_read (drop 5 s)))
         else case s of
           [] \<Rightarrow> None
         | e # s' \<Rightarrow>
             (case simple_escape e of
                None \<Rightarrow> None
              | Some x \<Rightarrow> map_option (\<lambda>(t, r). (x # t, r)) (json_read (drop 1 s))))
      else if c < 32 then None
      else map_option (\<lambda>(t, r). (c # t, r)) (json_read s))"
  by pat_completeness auto
termination by (relation "measure length") auto

declare json_read.simps [simp del] json_chars.simps [simp del]

lemma json_chars_Nil [simp]: "json_chars [] = []" by (simp add: json_chars.simps)

lemma digit_value_hex_char: "d < 16 \<Longrightarrow> digit_value 16 (hex_char d) = Some d" by (rule digit_value_hex)

lemma hex_digits_value:
  assumes "n < 65536"
  shows "digits_to_nat 16 65535 0 [hex_char (n div 4096), hex_char (n div 256 mod 16), hex_char (n div 16 mod 16), hex_char (n mod 16)] = Some n"
proof -
  let ?a = "n div 4096" and ?b = "n div 256 mod 16" and ?c = "n div 16 mod 16" and ?d = "n mod 16"
  have d: "n div 4096 < 16" using assms by (simp add: div_less_iff_less_mult)
  have digits: "digit_value 16 (hex_char ?a) = Some ?a" "digit_value 16 (hex_char ?b) = Some ?b"
    "digit_value 16 (hex_char ?c) = Some ?c" "digit_value 16 (hex_char ?d) = Some ?d"
    using d by (simp_all add: digit_value_hex)
  have "n div 4096 = n div 256 div 16" "n div 256 = n div 16 div 16" by (simp_all add: div_mult2_eq [symmetric])
  then have parts: "n div 256 = 16 * ?a + ?b" "n div 16 = 16 * (n div 256) + ?c" "n = 16 * (n div 16) + ?d"
    by (metis mult_div_mod_eq)+
  have sums: "?a * 16 + ?b = n div 256" "n div 256 * 16 + ?c = n div 16" "n div 16 * 16 + ?d = n"
    using parts by (simp_all only: mult.commute)
  have "n div k \<le> 65535" for k using assms div_le_dividend [of n k] by linarith
  then show ?thesis using assms by (simp add: digits sums del: div_mult_mod_eq mod_div_mult_eq)
qed

lemma json_read_escape:
  assumes "n < 65536" and "utf8_of n = Some bs"
  shows "json_read (u_escape n @ s) = map_option (\<lambda>(t, r). (bs @ t, r)) (json_read s)"
  using hex_digits_value [OF assms(1)] assms(2) by (simp add: u_escape_def json_read.simps(2) [of 92] slice_def)

lemma json_read_char:
  "json_read (json_char c @ s) = map_option (\<lambda>(t, r). (c # t, r)) (json_read s)"
proof -
  consider "c \<in> {34, 92, 10, 13, 9}" | "c \<in> {60, 62, 38} \<or> c < 32" "c \<notin> {34, 92, 10, 13, 9}" | "c \<notin> {34, 92, 10, 13, 9, 60, 62, 38}" "\<not> c < 32"
    by auto
  then show ?thesis
  proof cases
    case 1
    then show ?thesis by (auto simp: json_char_def json_read.simps(2) [of 92] simple_escape_def)
  next
    case 2
    have "unat c < 128" using 2(1) by (auto simp: word_less_nat_alt)
    then have "utf8_of (unat c) = Some [c]" by (simp add: utf8_of_def)
    with \<open>unat c < 128\<close> 2 show ?thesis using json_read_escape [of "unat c" "[c]" s] by (auto simp: json_char_def)
  next
    case 3
    then show ?thesis by (simp add: json_char_def json_read.simps(2) [of c])
  qed
qed

lemma json_read_chars: "json_read (json_chars s @ [34] @ r) = Some (s, r)"
proof (induction s rule: json_chars.induct)
  case 1
  then show ?case by (simp add: json_read.simps(2))
next
  case (2 c s)
  show ?case
  proof (cases "line_separator c s")
    case False
    with 2 show ?thesis using json_read_char [of c "json_chars s @ [34] @ r"] by (simp add: json_chars.simps(2))
  next
    case True
    then have s: "s = take 2 s @ drop 2 s" "c = 0xE2" by (simp_all add: line_separator_def)
    have utf8: "utf8_of 0x2028 = Some [0xE2, 0x80, 0xA8]" "utf8_of 0x2029 = Some [0xE2, 0x80, 0xA9]" by (simp_all add: utf8_of_def)
    show ?thesis
    proof (cases "take 2 s = [0x80, 0xA8]")
      case True
      then show ?thesis using 2(1) \<open>line_separator c s\<close> json_read_escape [OF _ utf8(1), of "json_chars (drop 2 s) @ [34] @ r"] s
        by (simp add: json_chars.simps(2))
    next
      case False
      then have "take 2 s = [0x80, 0xA9]" using \<open>line_separator c s\<close> by (simp add: line_separator_def)
      then show ?thesis using 2(1) False \<open>line_separator c s\<close> json_read_escape [OF _ utf8(2), of "json_chars (drop 2 s) @ [34] @ r"] s
        by (simp add: json_chars.simps(2))
    qed
  qed
qed

text \<open>The reader of a request: every literal in its place, the offer inside its string.\<close>

definition read_text :: "bytes \<Rightarrow> bytes \<Rightarrow> bytes option" where
  "read_text t s = (if take (length t) s = t then Some (drop (length t) s) else None)"

definition json_member :: "bytes \<Rightarrow> bytes \<Rightarrow> (bytes \<times> bytes) option" where
  "json_member label s = Option.bind (read_text (label @ [34]) s) json_read"

definition read_offer :: "bytes \<Rightarrow> bytes option" where
  "read_offer s =
     (case json_member (ascii ''{\"type\":\"offer\",\"sdp\":'') s of
        Some (sdp, r) \<Rightarrow> if r = ascii ''}'' then Some sdp else None | None \<Rightarrow> None)"

definition read_poll_request :: "bytes \<Rightarrow> (bytes \<times> bytes \<times> bytes) option" where
  "read_poll_request s =
     (case json_member (CLIENT_VERSION @ [10] @ ascii ''{\"offer\":'') s of
        None \<Rightarrow> None
      | Some (offer, r) \<Rightarrow>
          (case (read_offer offer, json_member (ascii '',\"nat\":'') r) of
             (Some sdp, Some (nat_type, r)) \<Rightarrow>
               (case json_member (ascii '',\"fingerprint\":'') r of
                  Some (fp, r) \<Rightarrow> if r = ascii ''}'' then Some (sdp, nat_type, fp) else None
                | None \<Rightarrow> None)
           | _ \<Rightarrow> None))"

lemma json_member_string: "json_member label (label @ go_json_string s @ r) = Some (s, r)"
  using json_read_chars [of s r] by (simp add: json_member_def read_text_def go_json_string_def)

lemma ascii_nonempty [simp]: "ascii s = [] \<longleftrightarrow> s = []" by (simp add: ascii_def)

lemma poll_request_read:
  "read_poll_request (encode_poll_request offer_sdp nat_type fingerprint) =
     Some (offer_sdp, nat_type, if fingerprint = [] then DEFAULT_BRIDGE_FINGERPRINT else fingerprint)"
proof -
  define fp where "fp = (if fingerprint = [] then DEFAULT_BRIDGE_FINGERPRINT else fingerprint)"
  define offer where "offer = ascii ''{\"type\":\"offer\",\"sdp\":'' @ go_json_string offer_sdp @ ascii ''}''"
  have "read_offer offer = Some offer_sdp" unfolding read_offer_def offer_def json_member_string by simp
  moreover have "encode_poll_request offer_sdp nat_type fingerprint =
      (CLIENT_VERSION @ [10] @ ascii ''{\"offer\":'') @ go_json_string offer @ ascii '',\"nat\":'' @ go_json_string nat_type @
      ascii '',\"fingerprint\":'' @ go_json_string fp @ ascii ''}''"
    by (simp only: encode_poll_request_def Let_def fp_def offer_def append_assoc)
  ultimately show ?thesis unfolding fp_def [symmetric] by (simp only: read_poll_request_def json_member_string option.case prod.case if_True refl)
qed

text \<open>A poll request is read back by a JSON reader as the offer, the NAT type and the fingerprint it was made of,
  whatever characters they hold; an empty fingerprint stands for the default bridge.\<close>

theorem poll_request_roundtrip:
  "read_poll_request (encode_poll_request offer_sdp nat_type fingerprint) =
     Some (offer_sdp, nat_type, if fingerprint = [] then DEFAULT_BRIDGE_FINGERPRINT else fingerprint)"
  by (rule poll_request_read)

section \<open>Answers\<close>

lemma poll_response_ok:
  "decode_poll_response je data = Ok sdp \<longleftrightarrow>
     (\<exists>answer desc. js_response je data = Ok (answer, []) \<and> answer \<noteq> [] \<and> js_object je answer = Ok desc \<and>
        desc (ascii ''type'') = Some (JString (ascii ''answer'')) \<and> desc (ascii ''sdp'') = Some (JString sdp))"
proof -
  have answer: "decode_answer desc = Ok sdp \<longleftrightarrow>
      desc (ascii ''type'') = Some (JString (ascii ''answer'')) \<and> desc (ascii ''sdp'') = Some (JString sdp)" for desc
    by (auto simp: decode_answer_def split: option.splits json.splits)
  show ?thesis by (auto simp: decode_poll_response_def answer split: res.splits)
qed

text \<open>A poll response yields an SDP exactly when the broker reports no error, and its answer is an object of
  type \<open>answer\<close> with that SDP: an error of the broker, an offer or a missing field never passes for an answer.\<close>

theorem answers_are_answers:
  "decode_poll_response je data = Ok sdp \<longleftrightarrow>
     (\<exists>answer desc. js_response je data = Ok (answer, []) \<and> answer \<noteq> [] \<and> js_object je answer = Ok desc \<and>
        desc (ascii ''type'') = Some (JString (ascii ''answer'')) \<and> desc (ascii ''sdp'') = Some (JString sdp))"
  by (rule poll_response_ok)

section \<open>The shuffle\<close>

lemma shuffle_down_mset:
  "shuffle_down i v s = Ok (Some (v', s')) \<Longrightarrow> i < length v \<or> i = 0 \<Longrightarrow> mset v' = mset v"
proof (induction i arbitrary: v s)
  case (Suc i)
  then obtain j t where j: "csrand_intn (int (Suc i) + 1) s = Ok (Some (j, t))"
    and rest: "shuffle_down i (v[Suc i := v ! nat j, nat j := v ! Suc i]) t = Ok (Some (v', s'))"
    by (auto split: res.splits option.splits)
  have "nat j \<le> Suc i" using os_rand.intn_range [of _ s j t] j by (fastforce simp: csrand_intn_def)
  then have "mset (v[Suc i := v ! nat j, nat j := v ! Suc i]) = mset v" using Suc.prems by (intro mset_swap) auto
  with Suc.IH [OF rest] Suc.prems show ?case by simp
qed simp

lemma shuffle_permutes: "shuffle v s = Ok (Some (v', s')) \<Longrightarrow> mset v' = mset v"
  by (rule shuffle_down_mset [of "length v - 1" v s]) (auto simp: shuffle_def)

lemma shuffle_no_panic: "shuffle v s \<noteq> Panic"
proof -
  have "shuffle_down i v s \<noteq> Panic" for i
  proof (induction i arbitrary: v s)
    case (Suc i)
    have "csrand_intn (int (Suc i) + 1) s \<noteq> Panic" by (simp add: csrand_intn_def os_rand.intn_panics_iff)
    with Suc show ?case by (auto split: res.split option.split)
  qed simp
  then show ?thesis by (simp add: shuffle_def)
qed

section \<open>ICE servers are usable\<close>

lemma stun_prefix: "ascii ''stun:'' = ascii ''stun'' @ [58]" "58 \<notin> set (ascii ''stun'')"
  by (simp_all add: ascii_def)

lemma trimmed_ends:
  assumes "x \<notin> set (map hd white_space)" and "y \<notin> set (map last white_space)"
  shows "trimmed (x # s @ [y])"
proof -
  have ne: "w \<noteq> []" if "w \<in> set white_space" for w using that by (auto simp: white_space_def)
  have "\<not> starts_with w (x # s @ [y])" "\<not> starts_with (rev w) (rev (x # s @ [y]))" if w: "w \<in> set white_space" for w
  proof -
    have "hd w \<noteq> x" "last w \<noteq> y" using assms w by auto
    with ne [OF w] show "\<not> starts_with w (x # s @ [y])" "\<not> starts_with (rev w) (rev (x # s @ [y]))"
      by (cases w, simp_all add: starts_with_def) (cases w rule: rev_cases, simp_all)
  qed
  then show ?thesis by (simp add: trimmed_def list_all_iff)
qed

lemma dec_last_digit: "\<exists>s y. ascii (dec_nat n) = s @ [y] \<and> 48 \<le> y \<and> y \<le> 57"
proof -
  have "ascii (dec_nat n) \<noteq> []" by simp
  then obtain s y where "ascii (dec_nat n) = s @ [y]" by (cases "ascii (dec_nat n)" rule: rev_cases) auto
  then show ?thesis using ascii_dec_digits [of y n] by auto
qed

lemma stun_text_trim: "trim (stun_text host port) = stun_text host port"
proof (rule trim_trimmed)
  obtain s y where y: "ascii (dec_nat port) = s @ [y]" "48 \<le> y" "y \<le> 57" using dec_last_digit by blast
  have "y \<notin> set (map last white_space)" using y(2,3) by (auto simp: white_space_def word_le_nat_alt)
  moreover have "(115 :: u8) \<notin> set (map hd white_space)" by (simp add: white_space_def)
  moreover have "\<exists>m. stun_text host port = 115 # m @ [y]" using y(1) by (auto simp: stun_text_def ascii_def)
  ultimately show "trimmed (stun_text host port)" using trimmed_ends [of 115 y] by metis
qed

lemma stun_text_rest:
  "drop 5 (stun_text host port) = (if 58 \<in> set host then 91 # host @ [93, 58] @ ascii (dec_nat port) else host @ 58 # ascii (dec_nat port))"
  "take 5 (stun_text host port) = ascii ''stun:''"
  by (simp_all add: stun_text_def ascii_def)

lemma split_stun_text:
  assumes "set host \<inter> {91, 93} = {}" and "host \<noteq> []"
  shows "split_host_port (strip_stun (stun_text host port)) = Ok (host, ascii (dec_nat port))"
    "ice_host_port (drop 5 (stun_text host port)) = Ok (host, Some (ascii (dec_nat port)))"
proof -
  have h: "91 \<notin> set host" "93 \<notin> set host" using assms by auto
  show "split_host_port (strip_stun (stun_text host port)) = Ok (host, ascii (dec_nat port))"
    using h dec_no_special [of port] split_host_port_plain split_host_port_bracketed
    by (simp add: strip_stun_def stun_text_rest)
  have "take 1 (host @ 58 # ascii (dec_nat port)) \<noteq> [91]" using assms by (cases host) auto
  then show "ice_host_port (drop 5 (stun_text host port)) = Ok (host, Some (ascii (dec_nat port)))"
    using h dec_no_special [of port] split_once_append [OF h(2), of "58 # ascii (dec_nat port)"] find_last_append [of 58 "ascii (dec_nat port)" host]
    by (simp add: ice_host_port_def stun_text_rest)
qed

lemma parse_stun_text:
  assumes "set host \<inter> {63, 47, 35, 91, 93} = {}" and "host \<noteq> []" and "port < 65536"
  shows "parse_stun_url (stun_text host port) = Ok (stun_text host port)"
proof -
  have "63 \<notin> set (ascii (dec_nat port))" "47 \<notin> set (ascii (dec_nat port))" "35 \<notin> set (ascii (dec_nat port))"
    using ascii_dec_digits [of _ port] by (auto simp: word_le_nat_alt dest!: ascii_dec_digits)
  then have "set (drop 5 (stun_text host port)) \<inter> {63, 47, 35} = {}" using assms(1) by (auto simp: stun_text_rest)
  moreover have "ice_host_port (drop 5 (stun_text host port)) = Ok (host, Some (ascii (dec_nat port)))"
    using assms split_stun_text(2) [of host port] by auto
  moreover have "parse_unsigned 10 65535 (ascii (dec_nat port)) = Some port" using assms(3) by (intro parse_dec) simp
  ultimately show ?thesis using assms(2) by (simp add: parse_stun_url_def stun_text_rest)
qed

lemma ice_host_set: "ice_host_port rest = Ok (host, port) \<Longrightarrow> set host \<subseteq> set rest"
proof -
  have once: "split_once c s = Some (a, b) \<Longrightarrow> set a \<subseteq> set s" for c s a b
    by (induction s arbitrary: a) (auto split: if_splits)
  assume "ice_host_port rest = Ok (host, port)"
  then show ?thesis
    using once [of 93 "drop 1 rest"] set_drop_subset [of 1 rest] set_take_subset
    by (fastforce simp: ice_host_port_def split: if_splits option.splits prod.splits)
qed

lemma parse_unsigned_bound: "parse_unsigned radix mx s = Some n \<Longrightarrow> n \<le> mx"
proof -
  have "digits_to_nat radix mx a s = Some n \<Longrightarrow> a \<le> mx \<Longrightarrow> n \<le> mx" for a s
    by (induction s arbitrary: a) (auto split: option.splits if_splits)
  then show "parse_unsigned radix mx s = Some n \<Longrightarrow> n \<le> mx"
    by (auto simp: parse_unsigned_def Let_def split: if_splits list.splits)
qed

lemma parse_stun_url_sound:
  assumes "parse_stun_url a = Ok t"
  obtains host port where "t = stun_text host port" "host \<noteq> []" "port < 65536" "set host \<inter> {63, 47, 35} = {}"
proof -
  from assms obtain host p n where p: "ice_host_port (drop 5 a) = Ok (host, p)" "host \<noteq> []"
    "(case p of None \<Rightarrow> Some 3478 | Some p \<Rightarrow> parse_unsigned 10 65535 p) = Some n" "t = stun_text host n"
    "set (drop 5 a) \<inter> {63, 47, 35} = {}"
    by (auto simp: parse_stun_url_def Let_def split: if_splits res.splits option.splits)
  have "n < 65536" using p(3) by (auto split: option.splits dest!: parse_unsigned_bound)
  then show thesis using that [of host n] p ice_host_set [OF p(1)] by auto
qed

lemma ice_server_text:
  "ice_server (stun_text host port) = (case parse_stun_url (stun_text host port) of Ok s \<Rightarrow> [s] | _ \<Rightarrow> [])"
proof -
  have "\<exists>r. stun_text host port = ascii ''stun'' @ 58 # r" by (simp add: stun_text_def ascii_def)
  then obtain r where r: "stun_text host port = ascii ''stun'' @ 58 # r" ..
  have "map_option (\<lambda>(s, _). map lower s) (split_once 58 (stun_text host port)) = Some (ascii ''stun'')"
    unfolding r by (simp only: split_once_append [OF stun_prefix(2)]) (simp add: ascii_def lower_def)
  then show ?thesis by (simp only: ice_server_def stun_text_trim Let_def) simp
qed

text \<open>Every ICE server that is kept names a host and a port below 65536, and when the host has no brackets the NAT
  probe splits it into just these two; what is kept is kept again as it is.\<close>

theorem ice_servers_usable:
  assumes "t \<in> set (parse_ice_servers addresses)"
  shows "\<exists>host port. t = stun_text host port \<and> host \<noteq> [] \<and> port < 65536 \<and>
     (set host \<inter> {91, 93} = {} \<longrightarrow>
        split_host_port (strip_stun t) = Ok (host, ascii (dec_nat port)) \<and> parse_ice_servers [t] = [t])"
proof -
  from assms obtain a where "parse_stun_url a = Ok t"
    by (auto simp: parse_ice_servers_def ice_server_def Let_def split: if_splits res.splits)
  then obtain host port where t: "t = stun_text host port" "host \<noteq> []" "port < 65536" "set host \<inter> {63, 47, 35} = {}"
    by (rule parse_stun_url_sound)
  moreover have "split_host_port (strip_stun t) = Ok (host, ascii (dec_nat port)) \<and> parse_ice_servers [t] = [t]"
    if "set host \<inter> {91, 93} = {}"
  proof -
    have "parse_stun_url t = Ok t" using t that by (auto intro!: parse_stun_text)
    then show ?thesis using split_stun_text(1) [of host port] ice_server_text [of host port] that t
      by (simp add: parse_ice_servers_def)
  qed
  ultimately show ?thesis by blast
qed

lemma ice_servers_usable_witness:
  "\<exists>host port. ascii ''stun:b:3478'' = stun_text host port \<and> host \<noteq> [] \<and> port < 65536 \<and>
     (set host \<inter> {91, 93} = {} \<longrightarrow>
        split_host_port (strip_stun (ascii ''stun:b:3478'')) = Ok (host, ascii (dec_nat port)) \<and>
        parse_ice_servers [ascii ''stun:b:3478''] = [ascii ''stun:b:3478''])"
proof (rule ice_servers_usable)
  have "ascii ''stun:b:3478'' = stun_text (ascii ''b'') 3478" by (simp add: stun_text_def ascii_def dec_nat.simps)
  moreover have "parse_stun_url (stun_text (ascii ''b'') 3478) = Ok (stun_text (ascii ''b'') 3478)"
    by (rule parse_stun_text) (simp_all add: ascii_def)
  ultimately show "ascii ''stun:b:3478'' \<in> set (parse_ice_servers [ascii ''stun:b:3478''])"
    by (simp add: parse_ice_servers_def ice_server_text)
qed

text \<open>The scheme is compared without case, but stripped as lower case: a server written \<open>STUN:\<close> is skipped.\<close>

lemma upper_case_scheme_skipped:
  "map_option (\<lambda>(s, _). map lower s) (split_once 58 (ascii ''STUN:b:3478'')) = Some (ascii ''stun'') \<and>
   parse_ice_servers [ascii ''STUN:b:3478''] = []"
proof -
  have "trimmed (ascii ''STUN:b:3478'')" by (simp add: trimmed_def white_space_def starts_with_def ascii_def)
  moreover have "parse_stun_url (ascii ''STUN:b:3478'') = Err UnknownScheme" by (simp add: parse_stun_url_def ascii_def)
  ultimately show ?thesis by (simp add: parse_ice_servers_def ice_server_def trim_trimmed) (simp add: ascii_def lower_def)
qed

end
