(* ===== verification/HttpClient.thy ===== *)
theory HttpClient
  imports HttpRead Amp
begin

text \<open>
  The HTTP client of \<open>src/shared/adapters/httpc.rs\<close>: dialling, one exchange over a connection,
  and the pool of one idle connection.  A connection is what it reads, what was written,
  and the peer: the events that each write makes arrive.  Dialling, TLS and gzip are
  arguments; URLs are the record \<open>amp_url\<close>.
\<close>

section \<open>The connection\<close>

text \<open>\<open>hx_wfail\<close> is the number of writes that succeed before one fails, if one does.\<close>

record hconn =
  hx_conn :: connection
  hx_out :: "bytes list"
  hx_peer :: "nat \<Rightarrow> source"
  hx_wfail :: "nat option"

definition hx_new :: "(nat \<Rightarrow> source) \<Rightarrow> nat option \<Rightarrow> hconn" where
  "hx_new peer wfail = \<lparr>hx_conn = connection_new [], hx_out = [], hx_peer = peer, hx_wfail = wfail\<rparr>"

definition hx_write :: "bytes \<Rightarrow> hconn \<Rightarrow> hconn option" where
  "hx_write d x =
     (if hx_wfail x = Some 0 then None
      else Some (x\<lparr>hx_out := hx_out x @ [d], hx_wfail := map_option (\<lambda>k. k - 1) (hx_wfail x),
        hx_conn := (hx_conn x)\<lparr>hc_stream := hc_stream (hx_conn x) @ hx_peer x (length (hx_out x))\<rparr>\<rparr>))"

datatype client_error = ClHttp http_error | ClWrite | HeaderTimeout | NoUrlHost | NoUrlPort | DialTimeout | DialFailed
  | TlsTimeout | TlsFailed | BadServerName | UnsupportedScheme bytes | BadGzip

section \<open>Dialling\<close>

text \<open>\<open>port_or_known_default\<close> of the crate \<open>url\<close>: its table of the special schemes.\<close>

definition known_port :: "bytes \<Rightarrow> nat option" where
  "known_port scheme =
     (if scheme \<in> {ascii ''http'', ascii ''ws''} then Some 80
      else if scheme \<in> {ascii ''https'', ascii ''wss''} then Some 443
      else if scheme = ascii ''ftp'' then Some 21 else None)"

definition dial_addr :: "amp_url \<Rightarrow> (bytes, client_error) res" where
  "dial_addr u =
     (case au_host u of
        None \<Rightarrow> Err NoUrlHost
      | Some host \<Rightarrow>
          (case (case au_port u of Some p \<Rightarrow> Some p | None \<Rightarrow> known_port (au_scheme u)) of
             None \<Rightarrow> Err NoUrlPort
           | Some p \<Rightarrow> Ok (host @ [58] @ ascii (dec_nat p))))"

definition host_header :: "amp_url \<Rightarrow> bytes" where
  "host_header u =
     (let host = (case au_host u of Some h \<Rightarrow> h | None \<Rightarrow> [])
      in case au_port u of Some p \<Rightarrow> host @ [58] @ ascii (dec_nat p) | None \<Rightarrow> host)"

text \<open>What dialling and the TLS handshake lead to, each within its time: the inner \<open>None\<close> is a failure.\<close>

record dial_env =
  de_dial :: "bytes \<Rightarrow> hconn option option"
  de_server_name :: "bytes \<Rightarrow> bytes option"
  de_tls :: "bytes \<Rightarrow> hconn \<Rightarrow> hconn option option"

definition bare_host :: "amp_url \<Rightarrow> bytes" where
  "bare_host u =
     (let h = (case au_host u of Some h \<Rightarrow> h | None \<Rightarrow> [])
      in rev (dropWhile (\<lambda>c. c = 93) (rev (dropWhile (\<lambda>c. c = 91) h))))"

definition http_dial :: "dial_env \<Rightarrow> amp_url \<Rightarrow> (hconn, client_error) res" where
  "http_dial de u =
     (case dial_addr u of
        Err e \<Rightarrow> Err e
      | Panic \<Rightarrow> Panic
      | Ok addr \<Rightarrow>
          (case de_dial de addr of
             None \<Rightarrow> Err DialTimeout
           | Some None \<Rightarrow> Err DialFailed
           | Some (Some tcp) \<Rightarrow>
               if au_scheme u = ascii ''http'' then Ok tcp
               else if au_scheme u = ascii ''https'' then
                 (case de_server_name de (bare_host u) of
                    None \<Rightarrow> Err BadServerName
                  | Some name \<Rightarrow>
                      (case de_tls de name tcp of
                         None \<Rightarrow> Err TlsTimeout | Some None \<Rightarrow> Err TlsFailed | Some (Some tls) \<Rightarrow> Ok tls))
               else Err (UnsupportedScheme (au_scheme u))))"

section \<open>One exchange\<close>

record http_response =
  rs_head :: response_head
  rs_body :: bytes
  rs_truncated :: bool

text \<open>Of gzip: what the data decodes to, and whether it ends well.  \<open>take(limit)\<close> stops before an error it
  does not reach.\<close>

definition gunzip_to :: "(bytes \<Rightarrow> bytes \<times> bool) \<Rightarrow> nat \<Rightarrow> bytes \<Rightarrow> bytes option" where
  "gunzip_to gunzip limit data =
     (case gunzip data of (out, ok) \<Rightarrow> if limit \<le> length out then Some (take limit out) else if ok then Some out else None)"

definition is_eof :: "http_error \<Rightarrow> bool" where
  "is_eof e \<longleftrightarrow> e = HttpEof \<or> e = HttpIo UnexpectedEof"

definition wants_gunzip :: "http_request \<Rightarrow> response_head \<Rightarrow> bool" where
  "wants_gunzip req head \<longleftrightarrow> hr_gzip req \<and>
     (case head_header (ascii ''Content-Encoding'') head of Some v \<Rightarrow> eq_ignore_case v (ascii ''gzip'') | None \<Rightarrow> False)"

definition finish_response :: "(bytes \<Rightarrow> bytes \<times> bool) \<Rightarrow> http_request \<Rightarrow> nat \<Rightarrow> response_head \<Rightarrow> bytes \<Rightarrow> bool \<Rightarrow>
    (http_response \<times> bool, bool \<times> client_error) res" where
  "finish_response gunzip req limit head raw reusable =
     (case (if wants_gunzip req head then gunzip_to gunzip (limit + 1) raw else Some raw) of
        None \<Rightarrow> Err (True, BadGzip)
      | Some body \<Rightarrow>
          let truncated = limit < length body
          in Ok (\<lparr>rs_head = head, rs_body = take limit body, rs_truncated = truncated\<rparr>, reusable \<and> \<not> truncated))"

text \<open>The flag of an error is set once a byte of the response has arrived; \<open>timed\<close> says whether a wait for the
  head is cut short.\<close>

definition http_exchange :: "(bytes \<Rightarrow> bytes \<times> bool) \<Rightarrow> bool \<Rightarrow> http_request \<Rightarrow> nat \<Rightarrow> hconn \<Rightarrow>
    (http_response \<times> bool, bool \<times> client_error) res option \<times> hconn" where
  "http_exchange gunzip timed req limit x =
     (case hx_write (encode_request req) x of
        None \<Rightarrow> (Some (Err (False, ClWrite)), x)
      | Some x \<Rightarrow>
          (case read_head (hx_conn x) of
             (None, c) \<Rightarrow> (if timed then Some (Err (True, HeaderTimeout)) else None, x\<lparr>hx_conn := c\<rparr>)
           | (Some Panic, c) \<Rightarrow> (Some Panic, x\<lparr>hx_conn := c\<rparr>)
           | (Some (Err e), c) \<Rightarrow> (Some (Err (\<not> is_eof e \<or> hc_rbuf c \<noteq> [], ClHttp e)), x\<lparr>hx_conn := c\<rparr>)
           | (Some (Ok head), c) \<Rightarrow>
               (case read_body head (hr_method req) (if wants_gunzip req head then 2 ^ 64 - 1 else limit + 1) c of
                  (None, c) \<Rightarrow> (None, x\<lparr>hx_conn := c\<rparr>)
                | (Some Panic, c) \<Rightarrow> (Some Panic, x\<lparr>hx_conn := c\<rparr>)
                | (Some (Err e), c) \<Rightarrow> (Some (Err (True, ClHttp e)), x\<lparr>hx_conn := c\<rparr>)
                | (Some (Ok (raw, reusable)), c) \<Rightarrow> (Some (finish_response gunzip req limit head raw reusable), x\<lparr>hx_conn := c\<rparr>))))"

section \<open>The client\<close>

text \<open>The idle connection with its key.\<close>

type_synonym idle = "(bytes \<times> hconn) option"

definition put_idle :: "bytes \<Rightarrow> hconn \<Rightarrow> bool \<Rightarrow> idle \<Rightarrow> idle" where
  "put_idle key x reusable idle = (if reusable \<and> hc_rbuf (hx_conn x) = [] then Some (key, x) else idle)"

type_synonym round = "(http_response, client_error) res option \<times> idle"

definition fresh_round :: "(bytes \<Rightarrow> bytes \<times> bool) \<Rightarrow> bool \<Rightarrow> dial_env \<Rightarrow> bytes \<Rightarrow> amp_url \<Rightarrow> http_request \<Rightarrow> nat \<Rightarrow> round" where
  "fresh_round gunzip timed de key u req limit =
     (case http_dial de u of
        Err e \<Rightarrow> (Some (Err e), None)
      | Panic \<Rightarrow> (Some Panic, None)
      | Ok x \<Rightarrow>
          (case http_exchange gunzip timed req limit x of
             (Some (Ok (resp, reusable)), x) \<Rightarrow> (Some (Ok resp), put_idle key x reusable None)
           | (Some (Err (_, e)), _) \<Rightarrow> (Some (Err e), None)
           | (Some Panic, _) \<Rightarrow> (Some Panic, None)
           | (None, _) \<Rightarrow> (None, None)))"

definition http_round_trip :: "(bytes \<Rightarrow> bytes \<times> bool) \<Rightarrow> bool \<Rightarrow> dial_env \<Rightarrow> amp_url \<Rightarrow> http_request \<Rightarrow> nat \<Rightarrow> idle \<Rightarrow> round" where
  "http_round_trip gunzip timed de u req limit idle =
     (case dial_addr u of
        Err e \<Rightarrow> (Some (Err e), idle)
      | Panic \<Rightarrow> (Some Panic, idle)
      | Ok addr \<Rightarrow>
          let key = au_scheme u @ [58, 47, 47] @ addr;
              fresh = fresh_round gunzip timed de key u req limit
          in case idle of
               None \<Rightarrow> fresh
             | Some (k, x) \<Rightarrow>
                 if k \<noteq> key \<or> \<not> still_open (hx_conn x) then fresh
                 else case http_exchange gunzip timed req limit x of
                   (Some (Ok (resp, reusable)), x) \<Rightarrow> (Some (Ok resp), put_idle key x reusable None)
                 | (Some (Err (arrived, e)), _) \<Rightarrow> if arrived then (Some (Err e), None) else fresh
                 | (Some Panic, _) \<Rightarrow> (Some Panic, None)
                 | (None, _) \<Rightarrow> (None, None))"

section \<open>A connection stays in step\<close>

text \<open>A reply: interim heads, the head, the body, what it is coded to (by gzip, or itself), and how that is put on the
  wire.\<close>

record reply =
  rp_interims :: "response_head list"
  rp_head :: response_head
  rp_body :: bytes
  rp_raw :: bytes
  rp_wire :: bytes

definition reply_wire :: "reply \<Rightarrow> bytes" where
  "reply_wire rp = concat (map render_head (rp_interims rp)) @ render_head (rp_head rp) @ rp_wire rp"

definition keeps_open :: "response_head \<Rightarrow> bool" where
  "keeps_open h \<longleftrightarrow> hd_minor h = 1 \<and> \<not> has_token (ascii ''Connection'') (ascii ''close'') h"

text \<open>A reply that fits a request: no body where there is none, and else a body on the wire as the head says; coded
  by gzip when the request allows it and the head says so; no longer than the limit.\<close>

definition reply_fits :: "(bytes \<Rightarrow> bytes \<times> bool) \<Rightarrow> http_request \<Rightarrow> nat \<Rightarrow> reply \<Rightarrow> bool" where
  "reply_fits gunzip req limit rp \<longleftrightarrow>
     list_all (\<lambda>i. clean_head i \<and> interim i) (rp_interims rp) \<and> clean_head (rp_head rp) \<and> \<not> interim (rp_head rp) \<and>
     (if bodiless (rp_head rp) (hr_method req) then rp_raw rp = [] \<and> rp_wire rp = []
      else framed (rp_head rp) (rp_raw rp) (rp_wire rp)) \<and>
     (if wants_gunzip req (rp_head rp) then gunzip (rp_raw rp) = (rp_body rp, True) \<and> length (rp_raw rp) < 2 ^ 64 - 1
      else rp_raw rp = rp_body rp) \<and>
     length (rp_body rp) \<le> limit"

definition response_of :: "reply \<Rightarrow> http_response" where
  "response_of rp = \<lparr>rs_head = rp_head rp, rs_body = rp_body rp, rs_truncated = False\<rparr>"

text \<open>Nothing is buffered, nothing has come and the peer has not closed.\<close>

definition quiet :: "hconn \<Rightarrow> bool" where
  "quiet x \<longleftrightarrow> hc_flat (hx_conn x) = ([], StillOpen) \<and> hx_wfail x = None"

lemma src_flat_append: "src_flat s = (bs, StillOpen) \<Longrightarrow> src_flat (s @ t) = (case src_flat t of (r, e) \<Rightarrow> (bs @ r, e))"
  by (induction s arbitrary: bs rule: src_flat.induct) (auto split: prod.splits)

lemma fits_body:
  assumes "reply_fits gunzip req limit rp" and "hc_flat c = (rp_wire rp @ rest, e)"
  shows "\<exists>c'. read_body (rp_head rp) (hr_method req) (if wants_gunzip req (rp_head rp) then 2 ^ 64 - 1 else limit + 1) c =
      (Some (Ok (rp_raw rp, keeps_open (rp_head rp))), c') \<and> hc_flat c' = (rest, e)"
proof (cases "bodiless (rp_head rp) (hr_method req)")
  case True
  then show ?thesis using assms by (auto simp: reply_fits_def read_body_def bodiless_def keeps_open_def Let_def)
next
  case False
  then have "framed (rp_head rp) (rp_raw rp) (rp_wire rp)"
    "length (rp_raw rp) < (if wants_gunzip req (rp_head rp) then 2 ^ 64 - 1 else limit + 1)"
    using assms(1) by (auto simp: reply_fits_def split: if_splits)
  from body_any_segmentation [OF assms(2) this(1) False this(2)] show ?thesis by (simp add: keeps_open_def)
qed

lemma fits_finish:
  "reply_fits gunzip req limit rp \<Longrightarrow> finish_response gunzip req limit (rp_head rp) (rp_raw rp) k = Ok (response_of rp, k)"
  by (auto simp: reply_fits_def finish_response_def gunzip_to_def Let_def response_of_def split: if_splits)

lemma exchange_reads:
  assumes "quiet x" and "reply_fits gunzip req limit rp" and "src_flat (hx_peer x (length (hx_out x))) = (reply_wire rp @ rest, e)"
  shows "\<exists>x'. http_exchange gunzip timed req limit x = (Some (Ok (response_of rp, keeps_open (rp_head rp))), x') \<and>
    hc_flat (hx_conn x') = (rest, e) \<and> hx_out x' = hx_out x @ [encode_request req] \<and> hx_peer x' = hx_peer x \<and> hx_wfail x' = None"
proof -
  let ?c = "(hx_conn x)\<lparr>hc_stream := hc_stream (hx_conn x) @ hx_peer x (length (hx_out x))\<rparr>"
  let ?x = "x\<lparr>hx_out := hx_out x @ [encode_request req], hx_wfail := None, hx_conn := ?c\<rparr>"
  have w: "hx_write (encode_request req) x = Some ?x" using assms(1) by (simp add: hx_write_def quiet_def)
  have "hc_rbuf (hx_conn x) = []" "src_flat (hc_stream (hx_conn x)) = ([], StillOpen)"
    using assms(1) by (auto simp: quiet_def hc_flat_def split: prod.splits)
  then have "hc_flat ?c = (concat (map render_head (rp_interims rp)) @ render_head (rp_head rp) @ (rp_wire rp @ rest), e)"
    using assms(3) by (simp add: hc_flat_def src_flat_append reply_wire_def)
  with head_any_segmentation [OF this] assms(2) obtain c1 where
    c1: "read_head ?c = (Some (Ok (rp_head rp)), c1)" "hc_flat c1 = (rp_wire rp @ rest, e)" by (auto simp: reply_fits_def)
  from fits_body [OF assms(2) c1(2)] obtain c2 where
    c2: "read_body (rp_head rp) (hr_method req) (if wants_gunzip req (rp_head rp) then 2 ^ 64 - 1 else limit + 1) c1 =
      (Some (Ok (rp_raw rp, keeps_open (rp_head rp))), c2)" "hc_flat c2 = (rest, e)" by blast
  have "http_exchange gunzip timed req limit x =
      (Some (finish_response gunzip req limit (rp_head rp) (rp_raw rp) (keeps_open (rp_head rp))), ?x\<lparr>hx_conn := c2\<rparr>)"
    unfolding http_exchange_def w using c1(1) c2(1) by simp
  then show ?thesis using c2(2) fits_finish [OF assms(2)] by (intro exI [of _ "?x\<lparr>hx_conn := c2\<rparr>"]) simp
qed

lemma quiet_still_open: "quiet x \<Longrightarrow> still_open (hx_conn x) \<and> hc_rbuf (hx_conn x) = []"
proof -
  assume "quiet x"
  then have "hc_rbuf (hx_conn x) = []" "src_flat (hc_stream (hx_conn x)) = ([], StillOpen)"
    by (auto simp: quiet_def hc_flat_def split: prod.splits)
  with src_read_flat [of 1 "hc_stream (hx_conn x)" "[]" StillOpen] show ?thesis
    by (auto simp: still_open_def split: prod.splits)
qed

text \<open>Requests one after the other.\<close>

fun http_rounds :: "(bytes \<Rightarrow> bytes \<times> bool) \<Rightarrow> bool \<Rightarrow> dial_env \<Rightarrow> amp_url \<Rightarrow> nat \<Rightarrow> http_request list \<Rightarrow> idle \<Rightarrow>
    (http_response, client_error) res option list \<times> idle" where
  "http_rounds gunzip timed de u limit [] idle = ([], idle)"
| "http_rounds gunzip timed de u limit (req # reqs) idle =
     (case http_round_trip gunzip timed de u req limit idle of
        (r, idle) \<Rightarrow> (case http_rounds gunzip timed de u limit reqs idle of (rs, idle) \<Rightarrow> (r # rs, idle)))"

definition url_key :: "amp_url \<Rightarrow> bytes \<Rightarrow> bytes" where "url_key u addr = au_scheme u @ [58, 47, 47] @ addr"

text \<open>The peer answers the requests to come with these replies, each when it was asked.\<close>

fun answers_with :: "(bytes \<Rightarrow> bytes \<times> bool) \<Rightarrow> nat \<Rightarrow> http_request list \<Rightarrow> reply list \<Rightarrow> (nat \<Rightarrow> source) \<Rightarrow> nat \<Rightarrow> bool" where
  "answers_with gunzip limit [] [] peer n = True"
| "answers_with gunzip limit (req # reqs) (rp # rps) peer n \<longleftrightarrow>
     reply_fits gunzip req limit rp \<and> keeps_open (rp_head rp) \<and> src_flat (peer n) = (reply_wire rp, StillOpen) \<and>
     answers_with gunzip limit reqs rps peer (n + 1)"
| "answers_with gunzip limit _ _ peer n = False"

text \<open>C34: Over a kept connection every request gets the response that was sent for it.  The peer answers each request
  in turn by HTTP/1.1 replies that do not ask to close: interim heads, a head, and (except where there is none) a
  body that is counted or chunked, and coded by gzip or not, whose decoded length is within the limit; each cut in any
  pieces.  Then each result is the head and the decoded body of the reply to that request, no other connection is made,
  the requests are written in order, and the connection is idle again.\<close>

theorem keepalive_in_step:
  assumes "dial_addr u = Ok addr" and "quiet x" and "answers_with gunzip limit reqs replies (hx_peer x) (length (hx_out x))"
  shows "\<exists>x'. http_rounds gunzip timed de u limit reqs (Some (url_key u addr, x)) =
     (map (\<lambda>rp. Some (Ok (response_of rp))) replies, Some (url_key u addr, x')) \<and>
    quiet x' \<and> hx_out x' = hx_out x @ map encode_request reqs"
  using assms(2,3)
proof (induction reqs arbitrary: replies x)
  case Nil
  then show ?case by (cases replies) auto
next
  case (Cons req reqs)
  then obtain rp rps where rps: "replies = rp # rps" "reply_fits gunzip req limit rp" "keeps_open (rp_head rp)"
    "src_flat (hx_peer x (length (hx_out x))) = (reply_wire rp, StillOpen)"
    "answers_with gunzip limit reqs rps (hx_peer x) (length (hx_out x) + 1)" by (cases replies) auto
  from exchange_reads [OF Cons.prems(1) rps(2), of "[]" StillOpen] rps(3,4) obtain x1 where
    x1: "http_exchange gunzip timed req limit x = (Some (Ok (response_of rp, True)), x1)"
      "hc_flat (hx_conn x1) = ([], StillOpen)" "hx_out x1 = hx_out x @ [encode_request req]" "hx_peer x1 = hx_peer x" "hx_wfail x1 = None"
    by auto
  then have "quiet x1" by (simp add: quiet_def)
  moreover have "http_round_trip gunzip timed de u req limit (Some (url_key u addr, x)) =
      (Some (Ok (response_of rp)), Some (url_key u addr, x1))"
    using assms(1) x1(1) quiet_still_open [OF Cons.prems(1)] quiet_still_open [OF \<open>quiet x1\<close>]
    by (simp add: http_round_trip_def url_key_def put_idle_def)
  moreover have "answers_with gunzip limit reqs rps (hx_peer x1) (length (hx_out x1))" using rps(5) x1(3,4) by simp
  ultimately show ?case using Cons.IH [of x1 rps] x1(3) rps(1) by auto
qed

text \<open>A body of one byte, as it is or in a coding of two.\<close>

definition one_byte :: response_head where
  "one_byte = \<lparr>hd_minor = 1, hd_status = 200, hd_text = ascii ''200 OK'', hd_headers = [(ascii ''Content-Length'', ascii ''1'')]\<rparr>"
definition zipped :: response_head where
  "zipped = \<lparr>hd_minor = 1, hd_status = 200, hd_text = ascii ''200 OK'',
     hd_headers = [(ascii ''Content-Encoding'', ascii ''GZip''), (ascii ''Content-Length'', ascii ''2'')]\<rparr>"

definition byte_reply :: "u8 \<Rightarrow> reply" where
  "byte_reply c = \<lparr>rp_interims = [], rp_head = one_byte, rp_body = [c], rp_raw = [c], rp_wire = [c]\<rparr>"
definition zipped_reply :: "u8 \<Rightarrow> reply" where
  "zipped_reply c = \<lparr>rp_interims = [], rp_head = zipped, rp_body = [c], rp_raw = [7, c], rp_wire = [7, c]\<rparr>"

definition sample_gunzip :: "bytes \<Rightarrow> bytes \<times> bool" where
  "sample_gunzip b = (drop 1 b, b \<noteq> [])"

lemma one_byte_fits:
  "reply_fits gunzip req limit (byte_reply c) \<longleftrightarrow> hr_method req \<noteq> ascii ''HEAD'' \<and> 1 \<le> limit"
  "keeps_open one_byte" "hd_status one_byte = 200"
proof -
  have "clean_head one_byte"
    by (simp add: clean_head_def one_byte_def render_lines_def text_defs MAX_HEADER_BYTES_def)
  moreover have "framed one_byte [c] [c]"
    by (simp add: framed_def one_byte_def has_token_def head_header_def eq_ignore_case_def lower_def ascii_def parse_unsigned_def
        digit_value_def is_digit_def)
  moreover have "\<not> interim one_byte" "\<not> wants_gunzip req one_byte"
    by (simp_all add: interim_def wants_gunzip_def one_byte_def head_header_def eq_ignore_case_def lower_def ascii_def)
  moreover have "bodiless one_byte (hr_method req) \<longleftrightarrow> hr_method req = ascii ''HEAD''" by (simp add: bodiless_def one_byte_def)
  ultimately show "reply_fits gunzip req limit (byte_reply c) \<longleftrightarrow> hr_method req \<noteq> ascii ''HEAD'' \<and> 1 \<le> limit"
    by (auto simp: reply_fits_def byte_reply_def)
  show "keeps_open one_byte" "hd_status one_byte = 200"
    by (simp_all add: keeps_open_def one_byte_def has_token_def eq_ignore_case_def lower_def ascii_def)
qed

lemma zipped_fits:
  assumes "hr_gzip req" and "hr_method req \<noteq> ascii ''HEAD''" and "1 \<le> limit"
  shows "reply_fits sample_gunzip req limit (zipped_reply c)" "keeps_open zipped"
proof -
  have "clean_head zipped"
    by (simp add: clean_head_def zipped_def render_lines_def text_defs MAX_HEADER_BYTES_def)
  moreover have "framed zipped [7, c] [7, c]"
    by (simp add: framed_def zipped_def has_token_def head_header_def eq_ignore_case_def lower_def ascii_def parse_unsigned_def
        digit_value_def is_digit_def)
  moreover have "\<not> interim zipped" "wants_gunzip req zipped" "\<not> bodiless zipped (hr_method req)"
    using assms by (simp_all add: interim_def wants_gunzip_def zipped_def head_header_def eq_ignore_case_def lower_def ascii_def bodiless_def)
  ultimately show "reply_fits sample_gunzip req limit (zipped_reply c)" using assms(3)
    by (simp add: reply_fits_def zipped_reply_def sample_gunzip_def)
  show "keeps_open zipped"
    by (simp add: keeps_open_def zipped_def has_token_def eq_ignore_case_def lower_def ascii_def)
qed

definition plain_url :: amp_url where
  "plain_url = \<lparr>au_scheme = ascii ''http'', au_username = [], au_password = None, au_host = Some [104], au_port = None,
     au_path = [47], au_query = None, au_fragment = None\<rparr>"

definition two_replies :: hconn where
  "two_replies = hx_new (\<lambda>i. if i = 0 then [SrcData (reply_wire (byte_reply 65))] else [SrcData (reply_wire (zipped_reply 66))]) None"

lemma two_replies_simps: "hx_out two_replies = []" "src_flat (hx_peer two_replies 0) = (reply_wire (byte_reply 65), StillOpen)"
  "src_flat (hx_peer two_replies 1) = (reply_wire (zipped_reply 66), StillOpen)" "quiet two_replies"
  by (simp_all add: two_replies_def hx_new_def quiet_def hc_flat_def connection_new_def)

lemma keepalive_in_step_witness:
  "\<forall>de. \<exists>x'. http_rounds sample_gunzip True de plain_url 10 [get_request, get_request\<lparr>hr_gzip := True\<rparr>]
       (Some (url_key plain_url ([104, 58] @ ascii ''80''), two_replies)) =
     ([Some (Ok \<lparr>rs_head = one_byte, rs_body = [65], rs_truncated = False\<rparr>),
       Some (Ok \<lparr>rs_head = zipped, rs_body = [66], rs_truncated = False\<rparr>)],
      Some (url_key plain_url ([104, 58] @ ascii ''80''), x')) \<and>
     quiet x' \<and> hx_out x' = [encode_request get_request, encode_request (get_request\<lparr>hr_gzip := True\<rparr>)]"
proof -
  have get: "hr_method get_request \<noteq> ascii ''HEAD''" by (simp add: get_request_def ascii_def)
  have heads: "rp_head (byte_reply c) = one_byte" "rp_head (zipped_reply c) = zipped" for c
    by (simp_all add: byte_reply_def zipped_reply_def)
  have fits: "answers_with sample_gunzip 10 [get_request, get_request\<lparr>hr_gzip := True\<rparr>] [byte_reply 65, zipped_reply 66]
      (hx_peer two_replies) (length (hx_out two_replies))"
    using get zipped_fits [of "get_request\<lparr>hr_gzip := True\<rparr>" 10] two_replies_simps(2,3)
    by (simp add: one_byte_fits two_replies_simps(1) heads)
  have addr: "dial_addr plain_url = Ok ([104, 58] @ ascii ''80'')"
    by (simp add: dial_addr_def plain_url_def known_port_def ascii_def dec_nat.simps)
  from keepalive_in_step [OF addr two_replies_simps(4) fits, of True] show ?thesis
    by (simp add: response_of_def two_replies_simps(1) byte_reply_def zipped_reply_def)
qed

section \<open>When a request is sent again\<close>

lemma src_read_end: "src_read k src = (Done [], src') \<Longrightarrow> 0 < k \<Longrightarrow> src_flat src' = src_flat src"
  by (induction k src rule: src_read.induct) (auto split: if_splits)

lemma fill_ok_flat: "fill c = (Some (Ok n), c') \<Longrightarrow> hc_flat c' = hc_flat c \<and> length (hc_rbuf c') = length (hc_rbuf c) + n \<and>
    (n = 0 \<longrightarrow> src_flat (hc_stream c) = ([], AtEof))"
proof -
  assume "fill c = (Some (Ok n), c')"
  then obtain bs src where r: "src_read 8192 (hc_stream c) = (Done bs, src)" "n = length bs"
    "c' = c\<lparr>hc_stream := src, hc_rbuf := hc_rbuf c @ bs\<rparr>"
    by (auto simp: fill_def split: prod.splits io.splits)
  obtain all e where flat: "src_flat (hc_stream c) = (all, e)" by force
  from src_read_flat [of 8192, OF _ flat] r(1) src_read_end [of 8192 "hc_stream c" src] flat r(2)
  have "src_flat src = (drop n all, e) \<and> bs = take n all \<and> (n = 0 \<longrightarrow> all = [] \<and> e = AtEof)"
    by (auto split: src_end.splits)
  with r(2,3) flat show ?thesis by (simp add: hc_flat_def)
qed

lemma fill_err: "fill c = (Some (Err e), c') \<Longrightarrow> \<not> is_eof e"
proof -
  have "src_read k src = (Failed x, src') \<Longrightarrow> \<exists>n. x = IoErr n" for k src x src'
    by (induction k src rule: src_read.induct) (auto split: if_splits)
  then show "fill c = (Some (Err e), c') \<Longrightarrow> \<not> is_eof e" by (fastforce simp: fill_def is_eof_def split: prod.splits io.splits)
qed

lemma read_past_flat: "read_past pat mx err c = (Some (Ok i), c') \<Longrightarrow> hc_flat c' = hc_flat c \<and> find_sub pat (hc_rbuf c') = Some i"
proof (induction pat mx err c rule: read_past.induct)
  case (1 pat mx err c)
  show ?case
  proof (cases "find_sub pat (hc_rbuf c)")
    case None
    with "1.prems" obtain n c1 where f: "fill c = (Some (Ok n), c1)" "n \<noteq> 0" "\<not> mx < length (hc_rbuf c)"
      "read_past pat mx err c1 = (Some (Ok i), c')"
      by (auto simp: read_past.simps [of pat mx err c] await_ok split: if_splits)
    with "1.IH" [OF None f(3,1,2)] fill_ok_flat [OF f(1)] show ?thesis by simp
  qed (use "1.prems" in \<open>simp add: read_past.simps [of pat mx err c]\<close>)
qed

lemma await_err: "await m f = (Some (Err e), c') \<longleftrightarrow> m = (Some (Err e), c') \<or> (\<exists>a c. m = (Some (Ok a), c) \<and> f a c = (Some (Err e), c'))"
  by (cases "(m, f)" rule: await.cases) auto

lemma read_past_eof:
  "read_past pat mx err c = (Some (Err e), c') \<Longrightarrow> is_eof e \<Longrightarrow> \<not> is_eof err \<Longrightarrow> hc_rbuf c' = [] \<Longrightarrow> hc_flat c = ([], AtEof)"
proof (induction pat mx err c rule: read_past.induct)
  case (1 pat mx err c)
  have none: "find_sub pat (hc_rbuf c) = None" "\<not> mx < length (hc_rbuf c)"
    using "1.prems"(1-3) by (auto simp: read_past.simps [of pat mx err c] split: option.splits if_splits)
  then obtain n c1 where f: "fill c = (Some (Ok n), c1)"
    and r: "(if n = 0 then (Some (Err HttpEof), c1) else read_past pat mx err c1) = (Some (Err e), c')"
    using "1.prems"(1,2) by (auto simp: read_past.simps [of pat mx err c] await_err dest: fill_err)
  show ?case
  proof (cases "n = 0")
    case True
    then show ?thesis using r fill_ok_flat [OF f] "1.prems"(4) by (simp add: hc_flat_def)
  next
    case False
    with r have "hc_flat c1 = ([], AtEof)" using "1.IH" [OF none f False] "1.prems"(2-4) by simp
    then show ?thesis using fill_ok_flat [OF f] by simp
  qed
qed

lemma parse_head_error: "parse_head raw = Err e \<Longrightarrow> \<not> is_eof e"
proof -
  have hs: "parse_headers ls = Err e \<Longrightarrow> \<not> is_eof e" for ls
    by (induction ls) (auto simp: is_eof_def split: if_splits option.splits res.splits elim: map_ok.elims)
  have "parse_status l = Err e \<Longrightarrow> \<not> is_eof e" for l
    by (auto simp: parse_status_def is_eof_def Let_def split: option.splits if_splits)
  then show "parse_head raw = Err e \<Longrightarrow> \<not> is_eof e"
    by (auto simp: parse_head_def Let_def is_eof_def [of MalformedResponse] split: if_splits res.splits elim!: map_ok.elims dest: hs)
qed

text \<open>The text of an interim head with its empty line.\<close>

definition interim_text :: "bytes \<Rightarrow> bool" where
  "interim_text raw \<longleftrightarrow> (\<exists>t h. raw = t @ CRLF @ CRLF \<and> parse_head t = Ok h \<and> interim h)"

lemma read_head_eof:
  "read_head c = (Some (Err e), c') \<Longrightarrow> is_eof e \<Longrightarrow> hc_rbuf c' = [] \<Longrightarrow>
    \<exists>raws. hc_flat c = (concat raws, AtEof) \<and> list_all interim_text raws"
proof (induction c rule: read_head.induct)
  case (1 c)
  let ?p = "read_past (CRLF @ CRLF) MAX_HEADER_BYTES HeadersTooLong c"
  have "\<not> is_eof HeadersTooLong" by (simp add: is_eof_def)
  show ?case
  proof (cases "\<exists>i c1. ?p = (Some (Ok i), c1)")
    case False
    then have "?p = (Some (Err e), c')" using "1.prems"(1) by (subst (asm) read_head.simps) (auto simp: await_err)
    from read_past_eof [OF this "1.prems"(2) \<open>\<not> is_eof HeadersTooLong\<close> "1.prems"(3)] show ?thesis
      by (intro exI [of _ "[]"]) simp
  next
    case True
    then obtain i c1 where p: "?p = (Some (Ok i), c1)" by blast
    obtain raw c2 where d: "drain_buf (i + 4) c1 = (raw, c2)" by force
    have flat: "hc_flat c1 = hc_flat c" "find_sub (CRLF @ CRLF) (hc_rbuf c1) = Some i" using read_past_flat [OF p] by simp_all
    have four: "length (CRLF @ CRLF) = 4" by simp
    from find_sub_bound [OF flat(2)] have bound: "i + 4 \<le> length (hc_rbuf c1)" "take 4 (drop i (hc_rbuf c1)) = CRLF @ CRLF"
      by (simp_all only: starts_with_def four)
    have raw: "raw = take i (hc_rbuf c1) @ CRLF @ CRLF" "length raw = i + 4"
      using d bound by (auto simp: drain_buf_def take_add)
    have run: "read_head c = (case parse_head (take (length raw - 4) raw) of
        Ok h \<Rightarrow> if interim h then read_head c2 else (Some (Ok h), c2) | Err e \<Rightarrow> (Some (Err e), c2) | Panic \<Rightarrow> (Some Panic, c2))"
      by (subst read_head.simps) (simp only: p await.simps d Let_def prod.case)
    obtain h where h: "parse_head (take (length raw - 4) raw) = Ok h" "interim h"
      using "1.prems"(1,2) run parse_head_error by (auto split: res.splits if_splits)
    then have "read_head c2 = (Some (Err e), c')" using run "1.prems"(1) by simp
    from "1.IH" [OF p d [symmetric] refl h this "1.prems"(2,3)] obtain raws where
      raws: "hc_flat c2 = (concat raws, AtEof)" "list_all interim_text raws" by blast
    have "hc_flat c1 = (raw @ concat raws, AtEof)"
      using raws(1) d append_take_drop_id [of "i + 4" "hc_rbuf c1"]
      by (auto simp: hc_flat_def drain_buf_def split: prod.splits simp flip: append_assoc) (metis append.assoc append_take_drop_id)
    moreover have "interim_text raw" using raw h by (auto simp: interim_text_def)
    ultimately show ?thesis using raws(2) flat(1) by (intro exI [of _ "raw # raws"]) simp
  qed
qed

text \<open>A request on a connection is unanswered when it could not be written, or the server closed the connection after
  interim heads or nothing.\<close>

definition unanswered :: "http_request \<Rightarrow> hconn \<Rightarrow> bool" where
  "unanswered req x \<longleftrightarrow> hx_write (encode_request req) x = None \<or>
    (\<exists>x1 raws. hx_write (encode_request req) x = Some x1 \<and> hc_flat (hx_conn x1) = (concat raws, AtEof) \<and> list_all interim_text raws)"

definition hangs_up :: "http_request \<Rightarrow> hconn \<Rightarrow> bool" where
  "hangs_up req x \<longleftrightarrow> hx_write (encode_request req) x = None \<or>
    (\<exists>x1 interims. hx_write (encode_request req) x = Some x1 \<and> hc_flat (hx_conn x1) = (concat (map render_head interims), AtEof) \<and>
       list_all (\<lambda>h. clean_head h \<and> interim h) interims)"

lemma unflagged_unanswered:
  assumes "http_exchange gunzip timed req limit x = (Some (Err (False, e)), x')"
  shows "unanswered req x"
proof (cases "hx_write (encode_request req) x")
  case (Some x1)
  with assms obtain e' c where "read_head (hx_conn x1) = (Some (Err e'), c)" "is_eof e'" "hc_rbuf c = []"
    by (auto simp: http_exchange_def finish_response_def Let_def split: prod.splits option.splits res.splits if_splits)
  from read_head_eof [OF this] Some show ?thesis unfolding unanswered_def by blast
qed (simp add: unanswered_def)

lemma read_head_at_end: "hc_flat c = ([], AtEof) \<Longrightarrow> \<exists>c'. read_head c = (Some (Err HttpEof), c') \<and> hc_rbuf c' = []"
proof -
  assume "hc_flat c = ([], AtEof)"
  then have flat: "hc_rbuf c = []" "src_flat (hc_stream c) = ([], AtEof)" by (auto simp: hc_flat_def split: prod.splits)
  then obtain c2 where f: "fill c = (Some (Ok 0), c2)"
    using src_read_flat [of 8192 "hc_stream c" "[]" AtEof]
    by (cases "src_read 8192 (hc_stream c)") (auto simp: fill_def)
  have "hc_rbuf c2 = []" using fill_ok_flat [OF f] flat(1) by simp
  moreover have "read_past (CRLF @ CRLF) MAX_HEADER_BYTES HeadersTooLong c = (Some (Err HttpEof), c2)"
    using f flat(1) by (subst read_past.simps) simp
  then have "read_head c = (Some (Err HttpEof), c2)" by (subst read_head.simps) (simp only: await.simps)
  ultimately show ?thesis by blast
qed

lemma read_head_interims:
  "hc_flat c = (concat (map render_head interims), AtEof) \<Longrightarrow> list_all (\<lambda>h. clean_head h \<and> interim h) interims \<Longrightarrow>
    \<exists>c'. read_head c = (Some (Err HttpEof), c') \<and> hc_rbuf c' = []"
proof (induction interims arbitrary: c)
  case (Cons h hs)
  then obtain c1 where "read_head c = read_head c1" "hc_flat c1 = (concat (map render_head hs), AtEof)"
    using read_head_step [of c h "concat (map render_head hs)" AtEof] by auto
  with Cons show ?case by simp
qed (simp add: read_head_at_end)

lemma hangs_up_unflagged:
  assumes "hangs_up req x"
  shows "\<exists>e x'. http_exchange gunzip timed req limit x = (Some (Err (False, e)), x')"
proof (cases "hx_write (encode_request req) x")
  case (Some x1)
  then obtain c where "read_head (hx_conn x1) = (Some (Err HttpEof), c)" "hc_rbuf c = []"
    using assms read_head_interims [of "hx_conn x1"] by (auto simp: hangs_up_def)
  then show ?thesis using Some by (simp add: http_exchange_def is_eof_def)
qed (simp add: http_exchange_def)

text \<open>What a caller gets of an exchange.\<close>

fun outcome :: "(http_response \<times> bool, bool \<times> client_error) res option \<Rightarrow> (http_response, client_error) res option" where
  "outcome (Some (Ok (resp, _))) = Some (Ok resp)"
| "outcome (Some (Err (_, e))) = Some (Err e)"
| "outcome (Some Panic) = Some Panic"
| "outcome None = None"

text \<open>C38: When a request is sent again.  On a pooled connection that is still open, a request that could be written and
  that the server did not answer with nothing but interim heads before it closed has the result of that one exchange,
  whatever it is, an error included: no dialling has a part in it (it is the same for every network and name), so the
  request is not repeated, and a connection is kept only after a response.  When the write failed, or the server closed
  having sent nothing or well-formed interim heads, the request goes to a new connection as if none had been pooled.\<close>

theorem resent_only_unanswered:
  assumes "dial_addr u = Ok addr" and "still_open (hx_conn x)"
  shows "(\<not> unanswered req x \<longrightarrow>
      (\<exists>idle. (\<forall>de. http_round_trip gunzip timed de u req limit (Some (url_key u addr, x)) =
                (outcome (fst (http_exchange gunzip timed req limit x)), idle)) \<and>
        (idle \<noteq> None \<longrightarrow> (\<exists>resp. outcome (fst (http_exchange gunzip timed req limit x)) = Some (Ok resp))))) \<and>
    (hangs_up req x \<longrightarrow>
      (\<forall>de. http_round_trip gunzip timed de u req limit (Some (url_key u addr, x)) = http_round_trip gunzip timed de u req limit None))"
proof (intro conjI impI)
  let ?x = "http_exchange gunzip timed req limit x"
  obtain res x' where ex: "?x = (res, x')" by force
  assume "\<not> unanswered req x"
  then have "res \<noteq> Some (Err (False, e))" for e using unflagged_unanswered [of gunzip timed req limit x e x'] ex by auto
  then show "\<exists>idle. (\<forall>de. http_round_trip gunzip timed de u req limit (Some (url_key u addr, x)) = (outcome (fst ?x), idle)) \<and>
      (idle \<noteq> None \<longrightarrow> (\<exists>resp. outcome (fst ?x) = Some (Ok resp)))"
    using assms ex by (cases res rule: outcome.cases) (auto simp: http_round_trip_def url_key_def)
next
  assume "hangs_up req x"
  from hangs_up_unflagged [OF this, of gunzip timed limit] assms
  show "\<forall>de. http_round_trip gunzip timed de u req limit (Some (url_key u addr, x)) = http_round_trip gunzip timed de u req limit None"
    by (auto simp: http_round_trip_def url_key_def Let_def)
qed

text \<open>An interim head does not count: the comment on the exchange says that its error is marked \<open>once any response byte
  arrived\<close>, yet after an interim head alone it is not, and the request is sent again.\<close>

definition continue_head :: response_head where
  "continue_head = \<lparr>hd_minor = 1, hd_status = 100, hd_text = ascii ''100 Continue'', hd_headers = []\<rparr>"

definition half_answered :: hconn where "half_answered = hx_new (\<lambda>_. [SrcData [72], SrcEof]) None"
definition only_continued :: hconn where "only_continued = hx_new (\<lambda>_. [SrcData (render_head continue_head), SrcEof]) None"

lemma samples_open: "still_open (hx_conn half_answered)" "still_open (hx_conn only_continued)"
  by (simp_all add: still_open_def half_answered_def only_continued_def hx_new_def connection_new_def)

lemma half_answered_answered: "\<not> unanswered get_request half_answered"
proof
  assume "unanswered get_request half_answered"
  then obtain raws where r: "[72] = concat raws" "list_all interim_text raws"
    by (auto simp: unanswered_def half_answered_def hx_write_def hx_new_def connection_new_def hc_flat_def)
  then obtain raw rs where "raws = raw # rs" by (cases raws) auto
  then have "4 \<le> length raw" "length raw \<le> 1" using r arg_cong [OF r(1), of length] by (auto simp: interim_text_def)
  then show False by simp
qed

lemma interim_then_closed: "hangs_up get_request only_continued"
proof -
  have "clean_head continue_head" "interim continue_head"
    by (simp_all add: clean_head_def continue_head_def render_lines_def text_defs MAX_HEADER_BYTES_def interim_def)
  then show ?thesis unfolding hangs_up_def
    by (intro disjI2 exI [of _ "the (hx_write (encode_request get_request) only_continued)"] exI [of _ "[continue_head]"])
       (simp add: hx_write_def only_continued_def hx_new_def connection_new_def hc_flat_def)
qed

lemma resent_only_unanswered_witness:
  "(\<exists>r idle. \<forall>de. http_round_trip (\<lambda>b. (b, True)) True de plain_url get_request 10 (Some (url_key plain_url ([104, 58] @ ascii ''80''), half_answered)) =
     (r, idle)) \<and>
   (\<forall>de. http_round_trip (\<lambda>b. (b, True)) True de plain_url get_request 10 (Some (url_key plain_url ([104, 58] @ ascii ''80''), only_continued)) =
     http_round_trip (\<lambda>b. (b, True)) True de plain_url get_request 10 None)"
proof -
  have addr: "dial_addr plain_url = Ok ([104, 58] @ ascii ''80'')"
    by (simp add: dial_addr_def plain_url_def known_port_def ascii_def dec_nat.simps)
  from resent_only_unanswered [OF addr samples_open(1), of get_request "\<lambda>b. (b, True)" True 10] half_answered_answered
    resent_only_unanswered [OF addr samples_open(2), of get_request "\<lambda>b. (b, True)" True 10] interim_then_closed
  show ?thesis by blast
qed

end
