(* ===== verification/Rendezvous.thy ===== *)
theory Rendezvous
  imports Broker HttpClient
begin

text \<open>
  The rendezvous channels of \<open>src/transports/snowflake/adapters/rendezvous.rs\<close>: HTTP POST, with
  domain fronting, and the AMP cache, over the HTTP client.  A channel is its settings
  and its client's idle connection; what the crate \<open>url\<close> does is \<open>url_env\<close>.  Log lines
  are left out.
\<close>

section \<open>URLs\<close>

record url_env =
  ue_parse :: "bytes \<Rightarrow> amp_url option"
  ue_join :: "amp_url \<Rightarrow> bytes \<Rightarrow> amp_url option"
  ue_set_host :: "bytes option \<Rightarrow> amp_url \<Rightarrow> amp_url option"
  ue_set_port :: "nat option \<Rightarrow> amp_url \<Rightarrow> amp_url option"

definition READ_LIMIT :: nat where "READ_LIMIT = 100000"

datatype rv_error = BadUrlText bytes | BadFront | BrokerUnexpected | BodyCut | RvJoin | RvClient client_error | RvAmp amp_error
  | RvArmor armor_error

text \<open>\<open>apply_front\<close>: the draw is the operating system's; \<open>intn\<close> is given a positive bound.\<close>

definition apply_front :: "url_env \<Rightarrow> amp_url \<Rightarrow> bytes list \<Rightarrow> (nat \<Rightarrow> bytes) \<Rightarrow> (amp_url \<times> (nat \<Rightarrow> bytes), rv_error) res option" where
  "apply_front ue u fronts s =
     (if fronts = [] then Some (Ok (u, s))
      else case csrand_intn (int (length fronts)) s of
        Ok None \<Rightarrow> None
      | Err _ \<Rightarrow> Some Panic
      | Panic \<Rightarrow> Some Panic
      | Ok (Some (i, s)) \<Rightarrow>
          Some (case ue_parse ue (au_scheme u @ [58, 47, 47] @ fronts ! nat i @ [47]) of
                  None \<Rightarrow> Err BadFront
                | Some parsed \<Rightarrow>
                    (case Option.bind (ue_set_host ue (au_host parsed) u) (ue_set_port ue (au_port parsed)) of
                       None \<Rightarrow> Err BadFront | Some u' \<Rightarrow> Ok (u', s))))"

definition request_target :: "amp_url \<Rightarrow> bytes" where
  "request_target u = au_path u @ (case au_query u of Some q \<Rightarrow> [63] @ q | None \<Rightarrow> [])"

section \<open>The channels\<close>

record channel =
  cn_broker :: amp_url
  cn_cache :: "amp_url option"
  cn_fronts :: "bytes list"
  cn_sni :: bool
  cn_idle :: idle

datatype rendezvous_channel = HttpChannel channel | AmpChannel channel

definition parse_url_text :: "url_env \<Rightarrow> bytes \<Rightarrow> (amp_url, rv_error) res" where
  "parse_url_text ue s = (case ue_parse ue s of Some u \<Rightarrow> Ok u | None \<Rightarrow> Err (BadUrlText s))"

definition http_channel :: "url_env \<Rightarrow> bytes \<Rightarrow> bytes list \<Rightarrow> bool \<Rightarrow> (rendezvous_channel, rv_error) res" where
  "http_channel ue broker fronts sni =
     (case parse_url_text ue broker of
        Err e \<Rightarrow> Err e | Panic \<Rightarrow> Panic
      | Ok b \<Rightarrow> Ok (HttpChannel \<lparr>cn_broker = b, cn_cache = None, cn_fronts = fronts, cn_sni = sni, cn_idle = None\<rparr>))"

definition amp_channel :: "url_env \<Rightarrow> bytes \<Rightarrow> bytes \<Rightarrow> bytes list \<Rightarrow> bool \<Rightarrow> (rendezvous_channel, rv_error) res" where
  "amp_channel ue broker cache fronts sni =
     (case parse_url_text ue broker of
        Err e \<Rightarrow> Err e | Panic \<Rightarrow> Panic
      | Ok b \<Rightarrow>
          (case parse_url_text ue cache of
             Err e \<Rightarrow> Err e | Panic \<Rightarrow> Panic
           | Ok c \<Rightarrow> Ok (AmpChannel \<lparr>cn_broker = b, cn_cache = Some c, cn_fronts = fronts, cn_sni = sni, cn_idle = None\<rparr>)))"

section \<open>An exchange\<close>

text \<open>The result, the idle connection it leaves, and the random bytes still to come.\<close>

type_synonym 'a rv = "('a, rv_error) res option \<times> idle"

definition rv_post :: "amp_url \<Rightarrow> bytes \<Rightarrow> bytes \<Rightarrow> http_request" where
  "rv_post u host body =
     \<lparr>hr_method = ascii ''POST'', hr_target = request_target u, hr_host = host, hr_headers = [], hr_body = Some body, hr_gzip = True\<rparr>"

definition rv_get :: "amp_url \<Rightarrow> bytes \<Rightarrow> http_request" where
  "rv_get u host =
     \<lparr>hr_method = ascii ''GET'', hr_target = request_target u, hr_host = host, hr_headers = [], hr_body = None, hr_gzip = True\<rparr>"

definition http_answer :: "http_response \<Rightarrow> (bytes, rv_error) res" where
  "http_answer resp =
     (if hd_status (rs_head resp) \<noteq> 200 then Err BrokerUnexpected else if rs_truncated resp then Err BodyCut else Ok (rs_body resp))"

definition http_rendezvous :: "url_env \<Rightarrow> (bytes \<Rightarrow> bytes \<times> bool) \<Rightarrow> dial_env \<Rightarrow> channel \<Rightarrow> bytes \<Rightarrow> (nat \<Rightarrow> bytes) \<Rightarrow> bytes rv" where
  "http_rendezvous ue gunzip de cn req s =
     (case ue_join ue (cn_broker cn) (ascii ''client'') of
        None \<Rightarrow> (Some (Err RvJoin), cn_idle cn)
      | Some u \<Rightarrow>
          (case apply_front ue u (cn_fronts cn) s of
             None \<Rightarrow> (None, cn_idle cn)
           | Some (Err e) \<Rightarrow> (Some (Err e), cn_idle cn)
           | Some Panic \<Rightarrow> (Some Panic, cn_idle cn)
           | Some (Ok (u', _)) \<Rightarrow>
               (case http_round_trip gunzip True de u' (rv_post u' (host_header u) req) READ_LIMIT (cn_idle cn) of
                  (Some (Ok resp), idle) \<Rightarrow> (Some (http_answer resp), idle)
                | (Some (Err e), idle) \<Rightarrow> (Some (Err (RvClient e)), idle)
                | (Some Panic, idle) \<Rightarrow> (Some Panic, idle)
                | (None, idle) \<Rightarrow> (None, idle))))"

text \<open>The URL asked for through the cache: the request is in the path.\<close>

definition amp_target :: "url_env \<Rightarrow> amp_env \<Rightarrow> (bytes \<Rightarrow> bytes) \<Rightarrow> channel \<Rightarrow> bytes \<Rightarrow> bytes \<Rightarrow> (amp_url, rv_error) res" where
  "amp_target ue ae b64url cn breaker req =
     (case ue_join ue (cn_broker cn) (ascii ''amp/client/'' @ encode_path b64url breaker req) of
        None \<Rightarrow> Err RvJoin
      | Some u \<Rightarrow>
          (case cn_cache cn of
             None \<Rightarrow> Ok u
           | Some cache \<Rightarrow>
               (case cache_url ae (ue_parse ue) u cache [99] of Ok u \<Rightarrow> Ok u | Err e \<Rightarrow> Err (RvAmp e) | Panic \<Rightarrow> Panic)))"

definition amp_answer :: "(bytes \<Rightarrow> bytes option) \<Rightarrow> http_response \<Rightarrow> (bytes, rv_error) res" where
  "amp_answer b64d resp =
     (if hd_status (rs_head resp) \<noteq> 200 \<or> head_header (ascii ''Location'') (rs_head resp) \<noteq> None then Err BrokerUnexpected
      else if READ_LIMIT < length (rs_body resp) then Err BodyCut
      else case armor_decode b64d (rs_body resp) of Ok t \<Rightarrow> Ok t | Err e \<Rightarrow> Err (RvArmor e) | Panic \<Rightarrow> Panic)"

definition amp_rendezvous :: "url_env \<Rightarrow> amp_env \<Rightarrow> (bytes \<Rightarrow> bytes) \<Rightarrow> (bytes \<Rightarrow> bytes option) \<Rightarrow> (bytes \<Rightarrow> bytes \<times> bool) \<Rightarrow> dial_env \<Rightarrow>
    channel \<Rightarrow> bytes \<Rightarrow> bytes \<Rightarrow> (nat \<Rightarrow> bytes) \<Rightarrow> bytes rv" where
  "amp_rendezvous ue ae b64url b64d gunzip de cn breaker req s =
     (case amp_target ue ae b64url cn breaker req of
        Err e \<Rightarrow> (Some (Err e), cn_idle cn)
      | Panic \<Rightarrow> (Some Panic, cn_idle cn)
      | Ok u \<Rightarrow>
          (case apply_front ue u (cn_fronts cn) s of
             None \<Rightarrow> (None, cn_idle cn)
           | Some (Err e) \<Rightarrow> (Some (Err e), cn_idle cn)
           | Some Panic \<Rightarrow> (Some Panic, cn_idle cn)
           | Some (Ok (u', _)) \<Rightarrow>
               (case http_round_trip gunzip True de u' (rv_get u' (host_header u)) (READ_LIMIT + 1) (cn_idle cn) of
                  (Some (Ok resp), idle) \<Rightarrow> (Some (amp_answer b64d resp), idle)
                | (Some (Err e), idle) \<Rightarrow> (Some (Err (RvClient e)), idle)
                | (Some Panic, idle) \<Rightarrow> (Some Panic, idle)
                | (None, idle) \<Rightarrow> (None, idle))))"

section \<open>Domain fronting\<close>

text \<open>
  What the crate \<open>url\<close> documents for URLs of the web's schemes: a text with such a scheme and an authority is
  parsed to a URL with that scheme, a host, and no port that is the scheme's own; \<open>set_host\<close> with the host of a
  parsed URL of the same scheme, which is normalised, sets that host; \<open>set_port\<close> sets a port unless it is the
  scheme's own, which is dropped; the rest of the URL stays.
\<close>

definition WEB :: "bytes set" where "WEB = {ascii ''http'', ascii ''https''}"

definition url_crate :: "url_env \<Rightarrow> bool" where
  "url_crate ue \<longleftrightarrow>
     (\<forall>sch r v. sch \<in> WEB \<and> ue_parse ue (sch @ [58, 47, 47] @ r) = Some v \<longrightarrow>
        au_scheme v = sch \<and> au_host v \<noteq> None \<and> au_port v \<noteq> known_port sch) \<and>
     (\<forall>t v u u'. ue_parse ue t = Some v \<and> au_scheme v \<in> WEB \<and> au_scheme u = au_scheme v \<and>
        ue_set_host ue (au_host v) u = Some u' \<longrightarrow> u' = u\<lparr>au_host := au_host v\<rparr>) \<and>
     (\<forall>p u u'. au_scheme u \<in> WEB \<and> ue_set_port ue p u = Some u' \<longrightarrow>
        u' = u\<lparr>au_port := if p = known_port (au_scheme u) then None else p\<rparr>)"

lemma url_crate_parse: "url_crate ue \<Longrightarrow> sch \<in> WEB \<Longrightarrow> ue_parse ue (sch @ [58, 47, 47] @ r) = Some v \<Longrightarrow>
    au_scheme v = sch \<and> au_host v \<noteq> None \<and> au_port v \<noteq> known_port sch"
  unfolding url_crate_def by blast

lemma url_crate_host: "url_crate ue \<Longrightarrow> ue_parse ue t = Some v \<Longrightarrow> au_scheme v \<in> WEB \<Longrightarrow> au_scheme u = au_scheme v \<Longrightarrow>
    ue_set_host ue (au_host v) u = Some u' \<Longrightarrow> u' = u\<lparr>au_host := au_host v\<rparr>"
  unfolding url_crate_def by blast

lemma url_crate_port: "url_crate ue \<Longrightarrow> au_scheme u \<in> WEB \<Longrightarrow> ue_set_port ue p u = Some u' \<Longrightarrow>
    u' = u\<lparr>au_port := if p = known_port (au_scheme u) then None else p\<rparr>"
  unfolding url_crate_def by blast

text \<open>The URLs of the fronts.\<close>

definition front_urls :: "url_env \<Rightarrow> bytes list \<Rightarrow> bytes \<Rightarrow> amp_url set" where
  "front_urls ue fronts scheme = {v. \<exists>front \<in> set fronts. ue_parse ue (scheme @ [58, 47, 47] @ front @ [47]) = Some v}"

lemma apply_front_url:
  assumes "url_crate ue" and "au_scheme u \<in> WEB" and "fronts \<noteq> []" and "apply_front ue u fronts s = Some (Ok (u', s'))"
  shows "\<exists>v \<in> front_urls ue fronts (au_scheme u). au_scheme v = au_scheme u \<and> u' = u\<lparr>au_host := au_host v, au_port := au_port v\<rparr>"
proof -
  from assms(3,4) obtain i t where i: "csrand_intn (int (length fronts)) s = Ok (Some (i, t))"
    and r: "(case ue_parse ue (au_scheme u @ [58, 47, 47] @ fronts ! nat i @ [47]) of None \<Rightarrow> Err BadFront
      | Some parsed \<Rightarrow> (case Option.bind (ue_set_host ue (au_host parsed) u) (ue_set_port ue (au_port parsed)) of
          None \<Rightarrow> Err BadFront | Some u' \<Rightarrow> Ok (u', t))) = Ok (u', s')"
    by (auto simp: apply_front_def split: if_splits res.splits option.splits)
  from r obtain v w where p: "ue_parse ue (au_scheme u @ [58, 47, 47] @ (fronts ! nat i @ [47])) = Some v"
    "ue_set_host ue (au_host v) u = Some w" "ue_set_port ue (au_port v) w = Some u'"
    by (auto split: option.splits bind_splits)
  have v: "au_scheme v = au_scheme u" "au_port v \<noteq> known_port (au_scheme u)"
    using url_crate_parse [OF assms(1,2) p(1)] by simp_all
  have web: "au_scheme v \<in> WEB" using assms(2) v(1) by (simp only:)
  have w: "w = u\<lparr>au_host := au_host v\<rparr>" by (rule url_crate_host [OF assms(1) p(1) web v(1) [symmetric] p(2)])
  then have wsch: "au_scheme w \<in> WEB" "au_scheme w = au_scheme u" using assms(2) by simp_all
  have "u' = w\<lparr>au_port := if au_port v = known_port (au_scheme w) then None else au_port v\<rparr>"
    by (rule url_crate_port [OF assms(1) wsch(1) p(3)])
  then have u': "u' = w\<lparr>au_port := au_port v\<rparr>" unfolding wsch(2) if_not_P [OF v(2)] .
  have "0 \<le> i \<and> i < int (length fronts)" using os_rand.intn_range [of "int (length fronts)" s i t] i by (simp add: csrand_intn_def)
  then have "fronts ! nat i \<in> set fronts" by (intro nth_mem) linarith
  then have "v \<in> front_urls ue fronts (au_scheme u)" using p(1) unfolding front_urls_def by blast
  moreover have "u' = u\<lparr>au_host := au_host v, au_port := au_port v\<rparr>" using u' w by simp
  ultimately show ?thesis using v(1) by blast
qed

text \<open>Two networks that are the same towards a URL: at its address, for its name in TLS.\<close>

definition same_towards :: "amp_url \<Rightarrow> dial_env \<Rightarrow> dial_env \<Rightarrow> bool" where
  "same_towards v de de' \<longleftrightarrow> (\<forall>addr. dial_addr v = Ok addr \<longrightarrow> de_dial de addr = de_dial de' addr) \<and>
     de_server_name de (bare_host v) = de_server_name de' (bare_host v) \<and>
     (\<forall>name. de_server_name de (bare_host v) = Some name \<longrightarrow> de_tls de name = de_tls de' name)"

lemma fronted_address:
  assumes "au_scheme v = au_scheme u"
  shows "dial_addr (u\<lparr>au_host := au_host v, au_port := au_port v\<rparr>) = dial_addr v"
    and "bare_host (u\<lparr>au_host := au_host v, au_port := au_port v\<rparr>) = bare_host v"
  using assms by (simp_all add: dial_addr_def bare_host_def cong: option.case_cong)

lemma http_dial_same: "same_towards v de de' \<Longrightarrow> au_scheme v = au_scheme u \<Longrightarrow>
    http_dial de (u\<lparr>au_host := au_host v, au_port := au_port v\<rparr>) = http_dial de' (u\<lparr>au_host := au_host v, au_port := au_port v\<rparr>)"
  by (auto simp: http_dial_def fronted_address same_towards_def split: res.splits option.splits)

lemma round_trip_same: "http_dial de u = http_dial de' u \<Longrightarrow>
    http_round_trip gunzip timed de u req limit idle = http_round_trip gunzip timed de' u req limit idle"
proof -
  assume "http_dial de u = http_dial de' u"
  then have f: "fresh_round gunzip timed de key u req limit = fresh_round gunzip timed de' key u req limit" for key
    by (simp add: fresh_round_def)
  show ?thesis unfolding http_round_trip_def f ..
qed

text \<open>What is on a connection that is kept: the request, last.\<close>

lemma exchange_written: "http_exchange gunzip timed req limit x = (Some (Ok r), x') \<Longrightarrow> hx_out x' = hx_out x @ [encode_request req]"
  by (auto simp: http_exchange_def hx_write_def split: if_splits prod.splits option.splits res.splits)

definition kept_after :: "http_request \<Rightarrow> bytes \<Rightarrow> idle \<Rightarrow> bool" where
  "kept_after req key idle \<longleftrightarrow> (case idle of None \<Rightarrow> True | Some (k, x) \<Rightarrow> k = key \<and> hx_out x \<noteq> [] \<and> last (hx_out x) = encode_request req)"

lemma round_trip_kept:
  assumes "dial_addr u = Ok addr"
  shows "kept_after req (url_key u addr) (snd (http_round_trip gunzip timed de u req limit idle))"
  using assms
  by (auto simp: http_round_trip_def fresh_round_def Let_def kept_after_def put_idle_def url_key_def dest!: exchange_written
      split: option.splits res.splits prod.splits if_splits)

lemma web_dial_addr:
  assumes "au_scheme v \<in> WEB" and "au_host v = Some h"
  shows "\<exists>addr. dial_addr v = Ok addr"
  using assms by (auto simp: dial_addr_def known_port_def WEB_def split: option.splits)

lemma fronted_round_trip:
  assumes "url_crate ue" and "au_scheme u \<in> WEB" and "fronts \<noteq> []"
    and "apply_front ue u fronts s = Some (Ok (u', s'))"
    and "\<forall>v \<in> front_urls ue fronts (au_scheme u). same_towards v de de'"
  shows "http_round_trip gunzip timed de u' req limit idle = http_round_trip gunzip timed de' u' req limit idle"
    and "request_target u' = request_target u"
    and "\<exists>v \<in> front_urls ue fronts (au_scheme u). \<exists>addr. dial_addr v = Ok addr \<and>
      kept_after req (url_key v addr) (snd (http_round_trip gunzip timed de u' req limit idle))"
proof -
  from apply_front_url [OF assms(1-4)] obtain v where v: "v \<in> front_urls ue fronts (au_scheme u)" "au_scheme v = au_scheme u"
    "u' = u\<lparr>au_host := au_host v, au_port := au_port v\<rparr>" by blast
  show "http_round_trip gunzip timed de u' req limit idle = http_round_trip gunzip timed de' u' req limit idle"
    unfolding v(3) using assms(5) v(1,2) by (intro round_trip_same http_dial_same) auto
  show "request_target u' = request_target u" by (simp add: v(3) request_target_def)
  have "au_host v \<noteq> None" using url_crate_parse [OF assms(1,2)] v(1) unfolding front_urls_def by blast
  then obtain addr where addr: "dial_addr v = Ok addr" using web_dial_addr [of v] assms(2) v(2) by auto
  have "dial_addr u' = Ok addr" "url_key u' addr = url_key v addr"
    using addr fronted_address [OF v(2)] by (simp_all add: v(2,3) url_key_def)
  with round_trip_kept [of u' addr req gunzip timed de limit idle] v(1) addr show
    "\<exists>v \<in> front_urls ue fronts (au_scheme u). \<exists>addr. dial_addr v = Ok addr \<and>
      kept_after req (url_key v addr) (snd (http_round_trip gunzip timed de u' req limit idle))" by auto
qed

text \<open>The exchange of a channel, with the URL and the request that are meant for the broker (or its cache).\<close>

record rv_env =
  re_urls :: url_env
  re_amp :: amp_env
  re_b64url :: "bytes \<Rightarrow> bytes"
  re_b64d :: "bytes \<Rightarrow> bytes option"
  re_gunzip :: "bytes \<Rightarrow> bytes \<times> bool"

fun channel_exchange :: "rv_env \<Rightarrow> dial_env \<Rightarrow> rendezvous_channel \<Rightarrow> bytes \<Rightarrow> bytes \<Rightarrow> (nat \<Rightarrow> bytes) \<Rightarrow> bytes rv" where
  "channel_exchange re de (HttpChannel cn) breaker req s = http_rendezvous (re_urls re) (re_gunzip re) de cn req s"
| "channel_exchange re de (AmpChannel cn) breaker req s =
     amp_rendezvous (re_urls re) (re_amp re) (re_b64url re) (re_b64d re) (re_gunzip re) de cn breaker req s"

fun channel_of :: "rendezvous_channel \<Rightarrow> channel" where
  "channel_of (HttpChannel cn) = cn"
| "channel_of (AmpChannel cn) = cn"

fun meant_for :: "rv_env \<Rightarrow> rendezvous_channel \<Rightarrow> bytes \<Rightarrow> bytes \<Rightarrow> (amp_url \<times> http_request) option" where
  "meant_for re (HttpChannel cn) breaker req =
     map_option (\<lambda>u. (u, rv_post u (host_header u) req)) (ue_join (re_urls re) (cn_broker cn) (ascii ''client''))"
| "meant_for re (AmpChannel cn) breaker req =
     (case amp_target (re_urls re) (re_amp re) (re_b64url re) cn breaker req of Ok u \<Rightarrow> Some (u, rv_get u (host_header u)) | _ \<Rightarrow> None)"

text \<open>C36: With fronts configured, over HTTP and over the AMP cache, only a front is dialled, and the request written
  there is the one for the broker.  On two networks that are the same towards the fronts (at their addresses, and for
  their names in TLS) an exchange goes the same, whatever they do anywhere else, at the broker and the cache too; and the
  connection that is left for the next exchange is as it was, or none, or one filed under the address of a front on
  which the last thing written is the request with the broker's (or cache's) own target and \<open>Host\<close>.\<close>

theorem only_the_front_is_dialled:
  assumes "url_crate (re_urls re)" and "cn_fronts (channel_of ch) \<noteq> []" and "meant_for re ch breaker req = Some (u, rq)"
    and "au_scheme u \<in> WEB" and "\<forall>v \<in> front_urls (re_urls re) (cn_fronts (channel_of ch)) (au_scheme u). same_towards v de de'"
  shows "channel_exchange re de ch breaker req s = channel_exchange re de' ch breaker req s \<and>
    (snd (channel_exchange re de ch breaker req s) = cn_idle (channel_of ch) \<or>
     (\<exists>v \<in> front_urls (re_urls re) (cn_fronts (channel_of ch)) (au_scheme u). \<exists>addr. dial_addr v = Ok addr \<and>
        kept_after rq (url_key v addr) (snd (channel_exchange re de ch breaker req s))))"
proof (cases "\<exists>u' s'. apply_front (re_urls re) u (cn_fronts (channel_of ch)) s = Some (Ok (u', s'))")
  case True
  then obtain u' s' where f: "apply_front (re_urls re) u (cn_fronts (channel_of ch)) s = Some (Ok (u', s'))" by blast
  note r = fronted_round_trip [OF assms(1,4,2) f assms(5)]
  show ?thesis
  proof (cases ch)
    case (HttpChannel cn)
    with assms(3) have u: "ue_join (re_urls re) (cn_broker cn) (ascii ''client'') = Some u" "rq = rv_post u (host_header u) req" by auto
    then have rq: "rv_post u' (host_header u) req = rq" using r(2) by (simp add: rv_post_def)
    let ?t = "\<lambda>de. http_round_trip (re_gunzip re) True de u' rq READ_LIMIT (cn_idle cn)"
    have "snd (channel_exchange re de ch breaker req s) = snd (?t de)"
      using HttpChannel u(1) f rq by (simp add: http_rendezvous_def split: prod.splits option.splits res.splits)
    moreover have "channel_exchange re de ch breaker req s = channel_exchange re de' ch breaker req s"
      using HttpChannel u(1) f rq r(1) by (simp add: http_rendezvous_def)
    ultimately show ?thesis using r(3) by simp
  next
    case (AmpChannel cn)
    with assms(3) have u: "amp_target (re_urls re) (re_amp re) (re_b64url re) cn breaker req = Ok u" "rq = rv_get u (host_header u)"
      by (auto split: res.splits)
    then have rq: "rv_get u' (host_header u) = rq" using r(2) by (simp add: rv_get_def)
    let ?t = "\<lambda>de. http_round_trip (re_gunzip re) True de u' rq (READ_LIMIT + 1) (cn_idle cn)"
    have "snd (channel_exchange re de ch breaker req s) = snd (?t de)"
      using AmpChannel u(1) f rq by (simp add: amp_rendezvous_def split: prod.splits option.splits res.splits)
    moreover have "channel_exchange re de ch breaker req s = channel_exchange re de' ch breaker req s"
      using AmpChannel u(1) f rq r(1) by (simp add: amp_rendezvous_def)
    ultimately show ?thesis using r(3) by simp
  qed
next
  case False
  then show ?thesis using assms(3)
    by (cases ch) (auto simp: http_rendezvous_def amp_rendezvous_def split: option.splits res.splits)
qed

definition plain_urls :: url_env where
  "plain_urls = \<lparr>ue_parse = (\<lambda>t. Some (plain_url\<lparr>au_scheme := if starts_with (ascii ''https'') t then ascii ''https'' else ascii ''http'',
       au_host := Some [102]\<rparr>)),
     ue_join = (\<lambda>u _. Some u), ue_set_host = (\<lambda>h u. Some (u\<lparr>au_host := h\<rparr>)),
     ue_set_port = (\<lambda>p u. Some (u\<lparr>au_port := if p = known_port (au_scheme u) then None else p\<rparr>))\<rparr>"

lemma plain_urls_ok: "url_crate plain_urls"
proof -
  have "(if starts_with (ascii ''https'') (sch @ [58, 47, 47] @ r) then ascii ''https'' else ascii ''http'') = sch"
    if "sch \<in> WEB" for sch r
    using that by (auto simp: WEB_def starts_with_def ascii_def)
  moreover have "None \<noteq> known_port sch" if "sch \<in> WEB" for sch
    using that by (auto simp: WEB_def known_port_def)
  ultimately show ?thesis by (auto simp: url_crate_def plain_urls_def plain_url_def)
qed

definition sample_rv :: rv_env where
  "sample_rv = \<lparr>re_urls = plain_urls, re_amp = \<lparr>ae_unicode = Some, ae_ascii = Some, ae_sha256 = (\<lambda>b. b), ae_percent = (\<lambda>b. b)\<rparr>,
     re_b64url = (\<lambda>b. b), re_b64d = Some, re_gunzip = sample_gunzip\<rparr>"
definition fronted_channel :: channel where
  "fronted_channel = \<lparr>cn_broker = plain_url, cn_cache = None, cn_fronts = [[102]], cn_sni = True, cn_idle = None\<rparr>"
definition front_only :: dial_env where
  "front_only = \<lparr>de_dial = (\<lambda>addr. if addr = [102, 58] @ ascii ''80'' then Some (Some two_replies) else None),
     de_server_name = Some, de_tls = (\<lambda>_ x. Some (Some x))\<rparr>"
definition everywhere :: dial_env where
  "everywhere = \<lparr>de_dial = (\<lambda>_. Some (Some two_replies)), de_server_name = Some, de_tls = (\<lambda>_ x. Some (Some x))\<rparr>"

lemma front_address: "dial_addr (plain_url\<lparr>au_host := Some [102]\<rparr>) = Ok ([102, 58] @ ascii ''80'')"
  by (simp add: dial_addr_def plain_url_def known_port_def ascii_def dec_nat.simps)

lemma front_parsed: "ue_parse plain_urls (au_scheme plain_url @ [58, 47, 47] @ r) = Some (plain_url\<lparr>au_host := Some [102]\<rparr>)"
  by (simp add: plain_urls_def plain_url_def starts_with_def ascii_def)

lemma only_the_front_is_dialled_witness:
  "\<forall>req s. channel_exchange sample_rv front_only (HttpChannel fronted_channel) [] req s =
       channel_exchange sample_rv everywhere (HttpChannel fronted_channel) [] req s \<and>
     channel_exchange sample_rv front_only (AmpChannel fronted_channel) [] req s =
       channel_exchange sample_rv everywhere (AmpChannel fronted_channel) [] req s"
proof -
  have crate: "url_crate (re_urls sample_rv)" using plain_urls_ok by (simp add: sample_rv_def)
  have web: "au_scheme plain_url \<in> WEB" by (simp add: plain_url_def WEB_def)
  have fronts: "cn_fronts (channel_of (HttpChannel fronted_channel)) \<noteq> []" "cn_fronts (channel_of (AmpChannel fronted_channel)) \<noteq> []"
    by (simp_all add: fronted_channel_def)
  have meant: "meant_for sample_rv (HttpChannel fronted_channel) [] req = Some (plain_url, rv_post plain_url (host_header plain_url) req)"
    "meant_for sample_rv (AmpChannel fronted_channel) [] req = Some (plain_url, rv_get plain_url (host_header plain_url))" for req
    by (simp_all add: fronted_channel_def sample_rv_def plain_urls_def amp_target_def)
  have urls: "front_urls (re_urls sample_rv) (cn_fronts fronted_channel) (au_scheme plain_url) = {plain_url\<lparr>au_host := Some [102]\<rparr>}"
    using front_parsed by (auto simp: front_urls_def sample_rv_def fronted_channel_def)
  have "same_towards (plain_url\<lparr>au_host := Some [102]\<rparr>) front_only everywhere"
    using front_address by (simp add: same_towards_def front_only_def everywhere_def)
  then have same: "\<forall>v \<in> front_urls (re_urls sample_rv) (cn_fronts (channel_of ch)) (au_scheme plain_url). same_towards v front_only everywhere"
    if "channel_of ch = fronted_channel" for ch using urls that by simp
  from only_the_front_is_dialled [OF crate fronts(1) meant(1) web same] only_the_front_is_dialled [OF crate fronts(2) meant(2) web same]
  show ?thesis by simp
qed

section \<open>A negotiation from end to end\<close>

text \<open>The channel as \<open>negotiate\<close> uses it.\<close>

definition http_exchange_of :: "url_env \<Rightarrow> (bytes \<Rightarrow> bytes \<times> bool) \<Rightarrow> dial_env \<Rightarrow> (nat \<Rightarrow> bytes) \<Rightarrow> channel \<Rightarrow> bytes \<Rightarrow> (bytes, rv_error) res option" where
  "http_exchange_of ue gunzip de s cn req = fst (http_rendezvous ue gunzip de cn req s)"

text \<open>The connection a request goes to: the pooled one, or one that is dialled.\<close>

definition connects :: "dial_env \<Rightarrow> amp_url \<Rightarrow> idle \<Rightarrow> hconn \<Rightarrow> bool" where
  "connects de u idle x \<longleftrightarrow> (case idle of None \<Rightarrow> http_dial de u = Ok x
     | Some (k, y) \<Rightarrow> (\<exists>addr. dial_addr u = Ok addr \<and> k = url_key u addr) \<and> y = x)"

lemma http_answered:
  assumes "connects de u idle x" and "quiet x" and "reply_fits gunzip req limit rp"
    and "src_flat (hx_peer x (length (hx_out x))) = (reply_wire rp, e)"
  shows "\<exists>x' idle'. http_round_trip gunzip timed de u req limit idle = (Some (Ok (response_of rp)), idle') \<and>
    hx_out x' = hx_out x @ [encode_request req] \<and> (keeps_open (rp_head rp) \<longrightarrow> (\<exists>key. idle' = Some (key, x')))"
proof -
  from exchange_reads [OF assms(2,3), of "[]" e timed] assms(4) obtain x1 where
    x1: "http_exchange gunzip timed req limit x = (Some (Ok (response_of rp, keeps_open (rp_head rp))), x1)"
      "hc_flat (hx_conn x1) = ([], e)" "hx_out x1 = hx_out x @ [encode_request req]" by auto
  then have r: "hc_rbuf (hx_conn x1) = []" by (auto simp: hc_flat_def split: prod.splits)
  show ?thesis
  proof (cases idle)
    case None
    then have d: "http_dial de u = Ok x" using assms(1) by (simp add: connects_def)
    then obtain addr where "dial_addr u = Ok addr" by (auto simp: http_dial_def split: res.splits)
    with None d x1(1,3) r show ?thesis
      by (intro exI [of _ x1]) (auto simp: http_round_trip_def fresh_round_def put_idle_def)
  next
    case (Some p)
    then obtain addr where "dial_addr u = Ok addr" "p = (url_key u addr, x)" using assms(1) by (auto simp: connects_def)
    with Some x1(1,3) r quiet_still_open [OF assms(2)] show ?thesis
      by (intro exI [of _ x1]) (auto simp: http_round_trip_def put_idle_def url_key_def)
  qed
qed

text \<open>C35: A negotiation over the HTTP channel, fronted or not, on a pooled connection or a new one.  When the server the
  (front's) URL leads to answers the poll with a reply that fits the request (interim heads, counted or chunked, coded by
  gzip or not, within the read limit, in any pieces) of status 200 with the answer of a proxy, the negotiation returns the
  SDP of that answer.  If the reply keeps the connection, what was written on it is one POST, with the broker's \<open>Host\<close>,
  whose body a JSON reader reads as our offer, the NAT type and the fingerprint.\<close>

theorem negotiation_end_to_end:
  assumes "ue_join ue (cn_broker cn) (ascii ''client'') = Some u" and "apply_front ue u (cn_fronts cn) s = Some (Ok (u', s'))"
    and "connects de u' (cn_idle cn) x" and "quiet x"
    and "bk_rendezvous bk = cn" and "req = encode_poll_request offer (nat_name nat_type) (bk_fingerprint bk)"
    and "reply_fits gunzip (rv_post u' (host_header u) req) READ_LIMIT rp" and "hd_status (rp_head rp) = 200"
    and "src_flat (hx_peer x (length (hx_out x))) = (reply_wire rp, e)"
    and "js_response je (rp_body rp) = Ok (answer, [])" and "answer \<noteq> []" and "js_object je answer = Ok desc"
    and "desc (ascii ''type'') = Some (JString (ascii ''answer''))" and "desc (ascii ''sdp'') = Some (JString sdp)"
  shows "negotiate je (http_exchange_of ue gunzip de s) bk offer nat_type = Some (Ok sdp) \<and>
    (keeps_open (rp_head rp) \<longrightarrow> (\<exists>key x'. snd (http_rendezvous ue gunzip de cn req s) = Some (key, x') \<and>
       hx_out x' = hx_out x @ [encode_request \<lparr>hr_method = ascii ''POST'', hr_target = request_target u', hr_host = host_header u,
         hr_headers = [], hr_body = Some req, hr_gzip = True\<rparr>])) \<and>
    read_poll_request req = Some (offer, nat_name nat_type, if bk_fingerprint bk = [] then DEFAULT_BRIDGE_FINGERPRINT else bk_fingerprint bk)"
proof -
  let ?post = "rv_post u' (host_header u) req"
  from http_answered [OF assms(3,4,7,9), of True] obtain x' idle where
    rt: "http_round_trip gunzip True de u' ?post READ_LIMIT (cn_idle cn) = (Some (Ok (response_of rp)), idle)"
      "hx_out x' = hx_out x @ [encode_request ?post]" "keeps_open (rp_head rp) \<longrightarrow> (\<exists>key. idle = Some (key, x'))" by blast
  have "http_answer (response_of rp) = Ok (rp_body rp)" using assms(8) by (simp add: http_answer_def response_of_def)
  then have run: "http_rendezvous ue gunzip de cn req s = (Some (Ok (rp_body rp)), idle)"
    using assms(1,2) rt(1) by (simp add: http_rendezvous_def)
  have "decode_poll_response je (rp_body rp) = Ok sdp" using assms(10-14) poll_response_ok by blast
  then have "negotiate je (http_exchange_of ue gunzip de s) bk offer nat_type = Some (Ok sdp)"
    using run assms(5,6) by (simp add: negotiate_def http_exchange_of_def)
  then show ?thesis using run rt(2,3) assms(6) poll_request_read unfolding rv_post_def by auto
qed

definition answering :: json_env where
  "answering = \<lparr>js_response = (\<lambda>_. Ok ([1], [])),
     js_object = (\<lambda>_. Ok [ascii ''type'' \<mapsto> JString (ascii ''answer''), ascii ''sdp'' \<mapsto> JString [118]])\<rparr>"

text \<open>A fronted negotiation whose answer is coded by gzip.\<close>

definition gzip_conn :: hconn where "gzip_conn = hx_new (\<lambda>_. [SrcData (reply_wire (zipped_reply 65))]) None"
definition gzip_net :: dial_env where
  "gzip_net = \<lparr>de_dial = (\<lambda>addr. if addr = [102, 58] @ ascii ''80'' then Some (Some gzip_conn) else None),
     de_server_name = Some, de_tls = (\<lambda>_ x. Some (Some x))\<rparr>"

lemma negotiation_end_to_end_witness:
  "negotiate answering (http_exchange_of plain_urls sample_gunzip gzip_net (\<lambda>_. []))
     \<lparr>bk_rendezvous = fronted_channel, bk_keep_local = False, bk_nat_type = NatUnknown, bk_fingerprint = []\<rparr> [111] NatUnknown = Some (Ok [118])"
proof -
  let ?bk = "\<lparr>bk_rendezvous = fronted_channel, bk_keep_local = False, bk_nat_type = NatUnknown, bk_fingerprint = []\<rparr>"
  let ?u = "plain_url\<lparr>au_host := Some [102]\<rparr>"
  have join: "ue_join plain_urls (cn_broker fronted_channel) (ascii ''client'') = Some plain_url"
    by (simp add: plain_urls_def fronted_channel_def)
  have "\<exists>t. csrand_intn 1 (\<lambda>_. []) = Ok (Some (0, t))"
    by (simp add: csrand_intn_def rand_intn_def rand_int31n_def Let_def case_prod_beta)
  moreover have "Option.bind (ue_set_host plain_urls (Some [102]) plain_url) (ue_set_port plain_urls None) = Some ?u"
    by (simp add: plain_urls_def plain_url_def known_port_def)
  ultimately obtain s' where front: "apply_front plain_urls plain_url (cn_fronts fronted_channel) (\<lambda>_. []) = Some (Ok (?u, s'))"
    using front_parsed [of "[102] @ [47]"] by (auto simp: apply_front_def fronted_channel_def plain_url_def)
  have conn: "connects gzip_net ?u (cn_idle fronted_channel) gzip_conn"
    using front_address by (simp add: connects_def fronted_channel_def http_dial_def gzip_net_def) (simp add: plain_url_def)
  have q: "quiet gzip_conn" by (simp add: gzip_conn_def hx_new_def quiet_def hc_flat_def connection_new_def)
  have fits: "reply_fits sample_gunzip (rv_post ?u (host_header plain_url) req) READ_LIMIT (zipped_reply 65)" for req
    by (rule zipped_fits(1)) (simp_all add: rv_post_def READ_LIMIT_def ascii_def)
  have status: "hd_status (rp_head (zipped_reply 65)) = 200" by (simp add: zipped_reply_def zipped_def)
  have peer: "src_flat (hx_peer gzip_conn (length (hx_out gzip_conn))) = (reply_wire (zipped_reply 65), StillOpen)"
    by (simp add: gzip_conn_def hx_new_def)
  have answer: "js_response answering (rp_body (zipped_reply 65)) = Ok ([1], [])" "([1] :: bytes) \<noteq> []"
    "js_object answering [1] = Ok [ascii ''type'' \<mapsto> JString (ascii ''answer''), ascii ''sdp'' \<mapsto> JString [118]]"
    "[ascii ''type'' \<mapsto> JString (ascii ''answer''), ascii ''sdp'' \<mapsto> JString [118]] (ascii ''type'') = Some (JString (ascii ''answer''))"
    "[ascii ''type'' \<mapsto> JString (ascii ''answer''), ascii ''sdp'' \<mapsto> JString [118]] (ascii ''sdp'') = Some (JString [118])"
    by (simp_all add: answering_def ascii_def)
  have bk: "bk_rendezvous ?bk = fronted_channel" by simp
  from negotiation_end_to_end [OF join front conn q bk refl fits status peer answer] show ?thesis by blast
qed

end
