(* ===== verification/OutProxy.thy ===== *)
theory OutProxy
  imports ExtOrPort Socks5Props
begin

text \<open>
  Dialling out through a proxy, from \<open>src/shared/adapters/proxy.rs\<close>: the HTTP CONNECT, SOCKS4a
  and SOCKS5 handshakes.  A connection is \<open>tcp\<close> of \<open>ExtOrPort\<close>; connecting is an
  argument, and so is Base64, of another crate.
\<close>

section \<open>Lossy UTF-8\<close>

text \<open>\<open>from_utf8_lossy\<close>: what begins no character is cut off as far as it could have been one, and
  becomes U+FFFD.  \<open>second_ok\<close> is the range of the byte after the first.\<close>

definition second_ok :: "u8 \<Rightarrow> u8 \<Rightarrow> bool" where
  "second_ok a b \<longleftrightarrow> cont b \<and> (a = 224 \<longrightarrow> 160 \<le> b) \<and> (a = 237 \<longrightarrow> b \<le> 159) \<and> (a = 240 \<longrightarrow> 144 \<le> b) \<and> (a = 244 \<longrightarrow> b \<le> 143)"

definition char_width :: "u8 \<Rightarrow> nat" where
  "char_width a =
     (if a < 128 then 1 else if 194 \<le> a \<and> a \<le> 223 then 2 else if 224 \<le> a \<and> a \<le> 239 then 3
      else if 240 \<le> a \<and> a \<le> 244 then 4 else 0)"

text \<open>How many bytes of a character of width \<open>w\<close>, which begins with \<open>a\<close>, are there.\<close>

definition char_extent :: "u8 \<Rightarrow> bytes \<Rightarrow> nat" where
  "char_extent a s =
     (case s of [] \<Rightarrow> 1
      | b # t \<Rightarrow> if char_width a < 2 \<or> \<not> second_ok a b then 1 else 2 + length (takeWhile cont (take (char_width a - 2) t)))"

function utf8_lossy :: "bytes \<Rightarrow> bytes" where
  "utf8_lossy [] = []"
| "utf8_lossy (a # s) =
     (let n = char_extent a s
      in (if n = char_width a then take n (a # s) else [0xEF, 0xBF, 0xBD]) @ utf8_lossy (drop (n - 1) s))"
  by pat_completeness auto
termination by (relation "measure length") (auto simp: char_extent_def split: list.splits)

declare utf8_lossy.simps [simp del]

section \<open>The connection to the proxy\<close>

datatype outbound_error = ProxyIo or_error | ProxyUnreachable | HeaderTooLong | ProxyStatus bytes | ProxyAddr addr_error | NotAnIpAddr
  | NotAnIpv4Addr | BadDialPort | Socks4Version | Socks4Refused bytes | Socks5Version u8 | NoAuthAccepted | AuthFailed
  | HostTooLong bytes | Socks5Refused bytes | BadReplyType u8

type_synonym 'a px = "('a, outbound_error, tcp) await"

definition px_io :: "'a orc \<Rightarrow> 'a px" where
  "px_io r =
     (case r of (Some (Ok a), s) \<Rightarrow> (Some (Ok a), s) | (Some (Err e), s) \<Rightarrow> (Some (Err (ProxyIo e)), s)
      | (Some Panic, s) \<Rightarrow> (Some Panic, s) | (None, s) \<Rightarrow> (None, s))"

definition px_read :: "nat \<Rightarrow> tcp \<Rightarrow> bytes px" where "px_read n s = px_io (tc_read n s)"
definition px_write :: "bytes \<Rightarrow> tcp \<Rightarrow> unit px" where "px_write d s = px_io (tc_write d s)"

lemma px_io_ok [simp]: "px_io r = (Some (Ok a), s) \<longleftrightarrow> r = (Some (Ok a), s)"
  by (auto simp: px_io_def split: prod.splits option.splits res.splits)

lemma px_read_length: "px_read n s = (Some (Ok bs), s') \<Longrightarrow> length bs = n"
proof -
  assume "px_read n s = (Some (Ok bs), s')"
  then have "tc_read n s = (Some (Ok bs), s')" by (simp add: px_read_def)
  moreover obtain all e where "src_flat (tc_src s) = (all, e)" by force
  ultimately show ?thesis by (rule tc_read_ok) simp
qed

section \<open>HTTP CONNECT\<close>

definition END_OF_HEAD :: bytes where "END_OF_HEAD = [13, 10, 13, 10]"

definition ends_with :: "bytes \<Rightarrow> bytes \<Rightarrow> bool" where
  "ends_with s p \<longleftrightarrow> length p \<le> length s \<and> drop (length s - length p) s = p"

text \<open>The loop that reads the head of the reply byte by byte.\<close>

function http_head :: "bytes \<Rightarrow> tcp \<Rightarrow> bytes px" where
  "http_head head s =
     (if ends_with head END_OF_HEAD then (Some (Ok head), s)
      else if 16 * 1024 < length head then (Some (Err HeaderTooLong), s)
      else await (px_read 1 s) (\<lambda>b s. http_head (head @ b) s))"
  by pat_completeness auto
termination
  by (relation "measure (\<lambda>(head, _). 16 * 1024 + 1 - length head)") (auto dest!: sym [of "px_read _ _"] px_read_length)

declare http_head.simps [simp del]

definition connect_head :: "(bytes \<Rightarrow> bytes) \<Rightarrow> (bytes \<times> bytes) option \<Rightarrow> bytes \<Rightarrow> bytes" where
  "connect_head b64 auth addr =
     ascii ''CONNECT '' @ addr @ ascii '' HTTP/1.1'' @ [13, 10] @ ascii ''Host: '' @ addr @ [13, 10] @
     (case auth of None \<Rightarrow> [] | Some (u, p) \<Rightarrow> ascii ''Proxy-Authorization: Basic '' @ b64 (u @ [58] @ p) @ [13, 10]) @ [13, 10]"

text \<open>\<open>lines().next()\<close>, and the second part of \<open>splitn(3, ' ')\<close>.\<close>

definition first_line :: "bytes \<Rightarrow> bytes" where
  "first_line t =
     (let l = takeWhile (\<lambda>c. c \<noteq> 10) t in if length l < length t \<and> l \<noteq> [] \<and> last l = 13 then butlast l else l)"

definition status_code :: "bytes \<Rightarrow> bytes" where
  "status_code line = (case split_once 32 line of None \<Rightarrow> [] | Some (_, r) \<Rightarrow> takeWhile (\<lambda>c. c \<noteq> 32) r)"

definition check_status :: "bytes \<Rightarrow> (unit, outbound_error) res" where
  "check_status head =
     (let line = first_line (utf8_lossy head)
      in if status_code line \<noteq> ascii ''200'' then Err (ProxyStatus (case split_once 32 line of None \<Rightarrow> [] | Some (_, r) \<Rightarrow> r))
         else Ok ())"

definition http_connect :: "(bytes \<Rightarrow> bytes) \<Rightarrow> (bytes \<times> bytes) option \<Rightarrow> bytes \<Rightarrow> tcp \<Rightarrow> unit px" where
  "http_connect b64 auth addr s =
     await (px_write (connect_head b64 auth addr) s) (\<lambda>_ s.
     await (http_head [] s) (\<lambda>head s. (Some (check_status head), s)))"

section \<open>SOCKS4a\<close>

definition socks4_refusal :: "u8 \<Rightarrow> bytes" where
  "socks4_refusal c =
     (if c = 0x5b then ascii ''request rejected or failed''
      else if c = 0x5c then ascii ''request rejected because SOCKS server cannot connect to identd on the client''
      else if c = 0x5d then ascii ''request rejected because the client program and identd report different user-ids''
      else ascii ''unknown failure code '' @ hex_nat (unat c))"

definition socks4_target :: "bytes \<Rightarrow> (bytes \<times> u16, outbound_error) res" where
  "socks4_target addr =
     (case split_host_port addr of
        Err e \<Rightarrow> Err (ProxyAddr e)
      | Panic \<Rightarrow> Panic
      | Ok (ip, port) \<Rightarrow>
          (case parse_ip ip of
             None \<Rightarrow> Err NotAnIpAddr
           | Some (IpV6 _) \<Rightarrow> Err NotAnIpv4Addr
           | Some (IpV4 b) \<Rightarrow>
               (case parse_unsigned 10 65535 port of None \<Rightarrow> Err BadDialPort | Some p \<Rightarrow> Ok (b, word_of_nat p))))"

definition socks4_handshake :: "bytes \<Rightarrow> bytes \<Rightarrow> u16 \<Rightarrow> tcp \<Rightarrow> unit px" where
  "socks4_handshake user ip4 port s =
     await (px_write ([4, 1] @ u16_be port @ ip4 @ user @ [0]) s) (\<lambda>_ s.
     await (px_read 8 s) (\<lambda>resp s.
       (Some (if resp ! 0 \<noteq> 0 then Err Socks4Version
              else if resp ! 1 \<noteq> 0x5a then Err (Socks4Refused (socks4_refusal (resp ! 1))) else Ok ()), s)))"

section \<open>SOCKS5\<close>

definition socks5_reply_text :: "u8 \<Rightarrow> bytes" where
  "socks5_reply_text c =
     (if c = 1 then ascii ''general SOCKS server failure'' else if c = 2 then ascii ''connection not allowed by ruleset''
      else if c = 3 then ascii ''network unreachable'' else if c = 4 then ascii ''host unreachable''
      else if c = 5 then ascii ''connection refused'' else if c = 6 then ascii ''TTL expired''
      else if c = 7 then ascii ''command not supported'' else if c = 8 then ascii ''address type not supported''
      else ascii ''unknown code: '' @ ascii (dec_nat (unat c)))"

definition socks5_greeting :: "(bytes \<times> bytes) option \<Rightarrow> bytes" where
  "socks5_greeting auth = (case auth of Some _ \<Rightarrow> [5, 2, 0, 2] | None \<Rightarrow> [5, 1, 0])"

text \<open>The lengths are cut to a byte.\<close>

definition socks5_login :: "bytes \<Rightarrow> bytes \<Rightarrow> bytes" where
  "socks5_login u p = [1, word_of_nat (length u)] @ u @ [word_of_nat (length p)] @ p"

definition socks5_method :: "(bytes \<times> bytes) option \<Rightarrow> tcp \<Rightarrow> unit px" where
  "socks5_method auth s =
     await (px_write (socks5_greeting auth) s) (\<lambda>_ s.
     await (px_read 2 s) (\<lambda>resp s.
       if resp ! 0 \<noteq> 5 then (Some (Err (Socks5Version (resp ! 0))), s)
       else if resp ! 1 = 0 then (Some (Ok ()), s)
       else if resp ! 1 = 2 then
         (case auth of
            None \<Rightarrow> (Some (Err NoAuthAccepted), s)
          | Some (u, p) \<Rightarrow>
              await (px_write (socks5_login u p) s) (\<lambda>_ s.
              await (px_read 2 s) (\<lambda>resp s. (Some (if resp ! 1 \<noteq> 0 then Err AuthFailed else Ok ()), s))))
       else (Some (Err NoAuthAccepted), s)))"

definition host_field :: "bytes \<Rightarrow> (bytes, outbound_error) res" where
  "host_field host =
     (case parse_ip host of
        Some (IpV4 b) \<Rightarrow> Ok ([1] @ b)
      | Some (IpV6 b) \<Rightarrow> Ok ([4] @ b)
      | None \<Rightarrow> if 255 < length host then Err (HostTooLong host) else Ok ([3, word_of_nat (length host)] @ host))"

definition socks5_bound :: "u8 \<Rightarrow> tcp \<Rightarrow> ip_addr px" where
  "socks5_bound atyp s =
     (if atyp = 1 then await (px_read 4 s) (\<lambda>b s. (Some (Ok (IpV4 b)), s))
      else if atyp = 4 then await (px_read 16 s) (\<lambda>b s. (Some (Ok (IpV6 b)), s))
      else if atyp = 3 then
        await (px_read 1 s) (\<lambda>n s. await (px_read (unat (hd n)) s) (\<lambda>_ s. (Some (Ok (IpV4 [0, 0, 0, 0])), s)))
      else (Some (Err (BadReplyType atyp)), s))"

definition socks5_request :: "u8 \<Rightarrow> bytes \<Rightarrow> u16 \<Rightarrow> tcp \<Rightarrow> socket_addr px" where
  "socks5_request cmd field port s =
     await (px_write ([5, cmd, 0] @ field @ u16_be port) s) (\<lambda>_ s.
     await (px_read 4 s) (\<lambda>head s.
       if head ! 0 \<noteq> 5 then (Some (Err (Socks5Version (head ! 0))), s)
       else if head ! 1 \<noteq> 0 then (Some (Err (Socks5Refused (socks5_reply_text (head ! 1)))), s)
       else await (socks5_bound (head ! 3) s) (\<lambda>ip s.
         await (px_read 2 s) (\<lambda>p s. (Some (Ok (ip, be_u16 p)), s)))))"

definition socks5_client_handshake :: "(bytes \<times> bytes) option \<Rightarrow> bytes \<Rightarrow> u16 \<Rightarrow> u8 \<Rightarrow> tcp \<Rightarrow> socket_addr px" where
  "socks5_client_handshake auth host port cmd s =
     await (socks5_method auth s) (\<lambda>_ s.
     await (Some (host_field host), s) (\<lambda>field s. socks5_request cmd field port s))"

definition socks5_target :: "bytes \<Rightarrow> (bytes \<times> u16, outbound_error) res" where
  "socks5_target addr =
     (case split_host_port addr of
        Err e \<Rightarrow> Err (ProxyAddr e)
      | Panic \<Rightarrow> Panic
      | Ok (host, port) \<Rightarrow> (case parse_unsigned 10 65535 port of None \<Rightarrow> Err BadDialPort | Some p \<Rightarrow> Ok (host, word_of_nat p)))"

section \<open>The dialer\<close>

text \<open>\<open>ProxyDialer::dial\<close>: the address is checked before connecting, where it is; \<open>connect\<close> is given the
  proxy's address.\<close>

definition with_tcp :: "(bytes \<Rightarrow> tcp option) \<Rightarrow> bytes \<Rightarrow> (tcp \<Rightarrow> 'a px) \<Rightarrow> (tcp, outbound_error) res option" where
  "with_tcp connect proxy f =
     (case connect proxy of
        None \<Rightarrow> Some (Err ProxyUnreachable)
      | Some s \<Rightarrow>
          (case f s of (Some (Ok _), s) \<Rightarrow> Some (Ok s) | (Some (Err e), _) \<Rightarrow> Some (Err e) | (Some Panic, _) \<Rightarrow> Some Panic
           | (None, _) \<Rightarrow> None))"

definition proxy_dial :: "(bytes \<Rightarrow> bytes) \<Rightarrow> (bytes \<Rightarrow> tcp option) \<Rightarrow> proxy_config \<Rightarrow> bytes \<Rightarrow> (tcp, outbound_error) res option" where
  "proxy_dial b64 connect config addr =
     (case config of
        HttpProxy hp auth \<Rightarrow> with_tcp connect hp (http_connect b64 auth addr)
      | Socks4aProxy hp user \<Rightarrow>
          (case socks4_target addr of
             Err e \<Rightarrow> Some (Err e) | Panic \<Rightarrow> Some Panic
           | Ok (ip4, port) \<Rightarrow> with_tcp connect hp (socks4_handshake user ip4 port))
      | Socks5Proxy hp auth \<Rightarrow>
          (case socks5_target addr of
             Err e \<Rightarrow> Some (Err e) | Panic \<Rightarrow> Some Panic
           | Ok (host, port) \<Rightarrow> with_tcp connect hp (socks5_client_handshake auth host port 1)))"

section \<open>Nothing of the tunnel is read\<close>

lemma px_read_ok:
  assumes "px_read n s = (Some (Ok bs), s')" and "src_flat (tc_src s) = (all, e)"
  obtains r where "all = bs @ r" "length bs = n" "src_flat (tc_src s') = (r, e)" "tc_out s' = tc_out s"
  using tc_read_ok [of n s bs s'] assms by (auto simp: px_read_def)

lemma px_write_ok: "px_write d s = (Some (Ok u), s') \<Longrightarrow> tc_src s' = tc_src s \<and> tc_out s' = tc_out s @ [d]"
  by (simp add: px_write_def tc_write_ok)

lemma http_head_ok:
  assumes "http_head h s = (Some (Ok head), s')" and "src_flat (tc_src s) = (all, e)"
  shows "\<exists>t rest. head = h @ t \<and> all = t @ rest \<and> src_flat (tc_src s') = (rest, e) \<and> tc_out s' = tc_out s \<and>
     ends_with head END_OF_HEAD \<and> (\<forall>n. length h \<le> n \<and> n < length head \<longrightarrow> \<not> ends_with (take n head) END_OF_HEAD \<and> n \<le> 16 * 1024)"
  using assms
proof (induction h s arbitrary: all rule: http_head.induct)
  case (1 h s)
  show ?case
  proof (cases "ends_with h END_OF_HEAD")
    case True
    with "1.prems" show ?thesis by (auto simp: http_head.simps [of h])
  next
    case False
    have "length h \<le> 16 * 1024" using "1.prems"(1) False by (auto simp: http_head.simps [of h] split: if_splits)
    with "1.prems"(1) False obtain b s1 where b: "px_read 1 s = (Some (Ok b), s1)" and next': "http_head (h @ b) s1 = (Some (Ok head), s')"
      by (auto simp: http_head.simps [of h] await_ok)
    obtain r where r: "all = b @ r" "length b = 1" "src_flat (tc_src s1) = (r, e)" "tc_out s1 = tc_out s"
      by (rule px_read_ok [OF b "1.prems"(2)])
    have "\<not> 16 * 1024 < length h" using \<open>length h \<le> 16 * 1024\<close> by simp
    from "1.IH" [OF False this b next' r(3)] obtain t rest where
      t: "head = (h @ b) @ t" "r = t @ rest" "src_flat (tc_src s') = (rest, e)" "tc_out s' = tc_out s1" "ends_with head END_OF_HEAD"
      and earlier: "\<forall>n. length (h @ b) \<le> n \<and> n < length head \<longrightarrow> \<not> ends_with (take n head) END_OF_HEAD \<and> n \<le> 16 * 1024"
      by blast
    have "\<not> ends_with (take n head) END_OF_HEAD \<and> n \<le> 16 * 1024" if "length h \<le> n" "n < length head" for n
    proof (cases "n = length h")
      case True
      then show ?thesis using t(1) False \<open>length h \<le> 16 * 1024\<close> by simp
    next
      case False
      then show ?thesis using earlier that r(2) by auto
    qed
    then show ?thesis using t r by (intro exI [of _ "b @ t"] exI [of _ rest]) auto
  qed
qed

text \<open>When CONNECT succeeds, the request was written and the reply read is a head that ends with the first empty
  line and carries status 200; the connection handed on still has every byte after that head.\<close>

theorem http_tunnel_exact:
  assumes "http_connect b64 auth addr s = (Some (Ok ()), s')" and "src_flat (tc_src s) = (all, e)"
  shows "\<exists>head rest. all = head @ rest \<and> src_flat (tc_src s') = (rest, e) \<and> tc_out s' = tc_out s @ [connect_head b64 auth addr] \<and>
     ends_with head END_OF_HEAD \<and> (\<forall>n. n < length head \<longrightarrow> \<not> ends_with (take n head) END_OF_HEAD) \<and> length head \<le> 16 * 1024 + 1 \<and>
     status_code (first_line (utf8_lossy head)) = ascii ''200''"
proof -
  from assms(1) obtain s1 head where w: "px_write (connect_head b64 auth addr) s = (Some (Ok ()), s1)"
    and h: "http_head [] s1 = (Some (Ok head), s')" and c: "check_status head = Ok ()"
    by (auto simp: http_connect_def await_ok)
  have "src_flat (tc_src s1) = (all, e)" using px_write_ok [OF w] assms(2) by simp
  from http_head_ok [OF h this] obtain rest where
    r: "all = head @ rest" "src_flat (tc_src s') = (rest, e)" "tc_out s' = tc_out s1" "ends_with head END_OF_HEAD"
      "\<forall>n. n < length head \<longrightarrow> \<not> ends_with (take n head) END_OF_HEAD \<and> n \<le> 16 * 1024" by auto
  have "length head \<le> 16 * 1024 + 1" using spec [OF r(5), of "length head - 1"] by (cases head) auto
  moreover have "status_code (first_line (utf8_lossy head)) = ascii ''200''"
    using c by (simp add: check_status_def Let_def split: if_splits)
  ultimately show ?thesis using r px_write_ok [OF w] by auto
qed

section \<open>The client and the server of SOCKS5 understand each other\<close>

lemma px_reads:
  assumes "src_flat (tc_src s) = (bs @ r, e)" and "length bs = n"
  shows "\<exists>s'. px_read n s = (Some (Ok bs), s') \<and> src_flat (tc_src s') = (r, e) \<and> tc_out s' = tc_out s \<and> tc_wfail s' = tc_wfail s"
proof -
  from src.exact_append [OF assms(1)] obtain src' where "read_exact n (tc_src s) = (Done bs, src')" "src_flat src' = (r, e)"
    using assms(2) by blast
  then show ?thesis by (intro exI [of _ "s\<lparr>tc_src := src'\<rparr>"]) (simp add: px_read_def px_io_def tc_read_def)
qed

lemma px_writes: "tc_wfail s = None \<Longrightarrow> px_write d s = (Some (Ok ()), s\<lparr>tc_out := tc_out s @ [d]\<rparr>)"
  by (simp add: px_write_def px_io_def tc_write_def)

definition method_replies :: "(bytes \<times> bytes) option \<Rightarrow> bytes list" where
  "method_replies auth = (case auth of None \<Rightarrow> [[5, 0]] | Some _ \<Rightarrow> [[5, 2], [1, 0]])"

definition method_messages :: "(bytes \<times> bytes) option \<Rightarrow> bytes list" where
  "method_messages auth = (case auth of None \<Rightarrow> [socks5_greeting auth] | Some (u, p) \<Rightarrow> [socks5_greeting auth, socks5_login u p])"

lemma method_runs:
  assumes "src_flat (tc_src s) = (concat (method_replies auth) @ r, e)" and w: "tc_wfail s = None"
  obtains s' where "socks5_method auth s = (Some (Ok ()), s')" "src_flat (tc_src s') = (r, e)"
    "tc_out s' = tc_out s @ method_messages auth" "tc_wfail s' = None"
proof (cases auth)
  case None
  let ?s1 = "s\<lparr>tc_out := tc_out s @ [socks5_greeting auth]\<rparr>"
  have "src_flat (tc_src ?s1) = ([5, 0] @ r, e)" using assms(1) None by (simp add: method_replies_def)
  from px_reads [OF this, of 2] obtain s2 where "px_read 2 ?s1 = (Some (Ok [5, 0]), s2)" "src_flat (tc_src s2) = (r, e)"
    "tc_out s2 = tc_out ?s1" "tc_wfail s2 = None" using w by auto
  then show thesis using that [of s2] None by (simp add: socks5_method_def px_writes [OF w] method_messages_def)
next
  case (Some up)
  obtain u p where up: "up = (u, p)" by force
  let ?s1 = "s\<lparr>tc_out := tc_out s @ [socks5_greeting auth]\<rparr>"
  have "src_flat (tc_src ?s1) = ([5, 2] @ [1, 0] @ r, e)" using assms(1) Some by (simp add: method_replies_def)
  from px_reads [OF this, of 2] obtain s2 where s2: "px_read 2 ?s1 = (Some (Ok [5, 2]), s2)" "src_flat (tc_src s2) = ([1, 0] @ r, e)"
    "tc_out s2 = tc_out ?s1" "tc_wfail s2 = None" using w by auto
  let ?s3 = "s2\<lparr>tc_out := tc_out s2 @ [socks5_login u p]\<rparr>"
  have "src_flat (tc_src ?s3) = ([1, 0] @ r, e)" using s2 by simp
  from px_reads [OF this, of 2] obtain s4 where s4: "px_read 2 ?s3 = (Some (Ok [1, 0]), s4)" "src_flat (tc_src s4) = (r, e)"
    "tc_out s4 = tc_out ?s3" "tc_wfail s4 = None" using s2 by auto
  show thesis
    by (rule that [of s4]) (use s2 s4 Some up in \<open>simp_all add: socks5_method_def px_writes [OF w] px_writes [OF s2(4)] method_messages_def\<close>)
qed

lemma read_octets_length: "read_octets k i s = Some (b, r) \<Longrightarrow> length b = k"
  by (induction k i s arbitrary: b r rule: read_octets.induct) (auto split: option.splits prod.splits)

lemma read_groups_length: "read_groups limit i s = (gs, v4, r) \<Longrightarrow> length gs \<le> limit - i"
proof (induction limit i s arbitrary: gs v4 r rule: read_groups.induct)
  case (1 limit i s)
  show ?case
  proof (cases "limit \<le> i")
    case True
    with "1.prems" show ?thesis by (simp add: read_groups.simps)
  next
    case False
    let ?v4 = "if i < limit - 1 then read_separated 58 i read_ipv4 s else None"
    let ?g = "read_separated 58 i (read_number 16 (Some 4) True 65535) s"
    consider b t where "?v4 = Some (b, t)" | "?v4 = None" "?g = None" | g t where "?v4 = None" "?g = Some (g, t)"
      by (cases ?v4; cases ?g) auto
    then show ?thesis
    proof cases
      case 1
      then have "i < limit - 1" by (auto split: if_splits)
      with 1 "1.prems" False show ?thesis by (auto simp: read_groups.simps [of limit i s])
    next
      case 2
      with "1.prems" False show ?thesis by (simp add: read_groups.simps [of limit i s])
    next
      case 3
      obtain gs' v' r' where rest: "read_groups limit (i + 1) t = (gs', v', r')" using prod_cases3 by blast
      have "length gs' \<le> limit - (i + 1)" by (rule "1.IH" [OF False 3(1,2) refl rest])
      with 3 rest "1.prems" False show ?thesis by (auto simp: read_groups.simps [of limit i s])
    qed
  qed
qed

lemma length_group_bytes: "length (group_bytes gs) = 2 * length gs"
  by (induction gs) (simp_all add: group_bytes_def u16_be_def)

lemma read_ipv6_length: "read_ipv6 s = Some (b, r) \<Longrightarrow> length b = 16"
proof -
  assume b: "read_ipv6 s = Some (b, r)"
  obtain front v4 t where f: "read_groups 8 0 s = (front, v4, t)" using prod_cases3 by blast
  show ?thesis
  proof (cases "length front = 8")
    case True
    with b f show ?thesis by (auto simp: read_ipv6_def length_group_bytes)
  next
    case False
    with b f obtain bk w v u where bk: "read_groups (7 - length front) 0 u = (bk, w, v)"
      and len: "b = group_bytes (front @ replicate (8 - (length bk + length front)) 0 @ bk)"
      by (auto simp: read_ipv6_def split: if_splits option.splits prod.splits)
    have "length front + length bk \<le> 8"
      using read_groups_length [OF f] read_groups_length [OF bk] False by linarith
    with len show ?thesis by (auto simp: length_group_bytes)
  qed
qed

lemma parse_ip_ok: "parse_ip s = Some ip \<Longrightarrow> ip_ok ip"
  by (auto simp: parse_ip_def all_read_def ip_ok_def read_ipv4_def split: option.splits list.splits
      dest!: read_octets_length read_ipv6_length)

text \<open>The server's name for the target.\<close>

definition written_host :: "bytes \<Rightarrow> bytes" where
  "written_host host = (case parse_ip host of Some (IpV4 b) \<Rightarrow> show_ipv4 b | Some (IpV6 b) \<Rightarrow> bracketed b | None \<Rightarrow> host)"

definition written_target :: "bytes \<Rightarrow> u16 \<Rightarrow> bytes" where
  "written_target host port = written_host host @ [58] @ ascii (dec_nat (unat port))"

lemma unat_length: "length xs < 256 \<Longrightarrow> unat (word_of_nat (length xs) :: u8) = length xs"
  by (simp add: unat_byte)

lemma host_field_bytes:
  assumes "host_field host = Ok f" and "host \<noteq> []" and "utf8_valid host"
  shows "host_bytes f (written_host host)"
proof (cases "parse_ip host")
  case None
  then have "f = [3, word_of_nat (length host)] @ host" "length host < 256"
    using assms(1) by (auto simp: host_field_def split: if_splits)
  then show ?thesis using host_bytes.domain [of "word_of_nat (length host)" host] assms(2,3) None
    by (simp add: written_host_def unat_length)
next
  case (Some ip)
  with parse_ip_ok [OF Some] assms(1) show ?thesis
    by (cases ip) (auto simp: host_field_def written_host_def ip_ok_def intro: host_bytes.intros)
qed

lemma request_accepted:
  assumes "host_field host = Ok f" and "host \<noteq> []" and "utf8_valid host"
  shows "connect_request ([5, 1, 0] @ f @ u16_be port) (written_target host port)"
  unfolding connect_request_def written_target_def
  by (intro exI [of _ f] exI [of _ "written_host host"] exI [of _ "u16_be port"])
    (use host_field_bytes [OF assms] in \<open>simp add: length_u16_be\<close>)

definition auth_fits :: "(bytes \<times> bytes) option \<Rightarrow> bool" where
  "auth_fits auth \<longleftrightarrow> (case auth of None \<Rightarrow> True | Some (u, p) \<Rightarrow> u \<noteq> [] \<and> p \<noteq> [] \<and> length u < 256 \<and> length p < 256)"

definition login_args :: "(bytes \<times> bytes) option \<Rightarrow> (args, socks_error) res" where
  "login_args auth = (case auth of None \<Rightarrow> Ok args_new | Some (u, p) \<Rightarrow> socks_client_parameters (args_text u p))"

definition login_bytes :: "(bytes \<times> bytes) option \<Rightarrow> bytes" where
  "login_bytes auth = (case auth of None \<Rightarrow> [] | Some (u, p) \<Rightarrow> socks5_login u p)"

lemma client_dialogue:
  assumes "host_field host = Ok f" "host \<noteq> []" "utf8_valid host" "auth_fits auth" "login_args auth = Ok a"
  shows "socks_dialogue (socks5_greeting auth) (login_bytes auth) ([5, 1, 0] @ f @ u16_be port) a (written_target host port) (method_replies auth)"
proof (cases auth)
  case None
  then show ?thesis using request_accepted [OF assms(1-3)] assms(5)
    by (auto simp: socks_dialogue_def socks5_greeting_def login_bytes_def method_replies_def login_args_def AUTH_NONE_def AUTH_USERPASS_def
        intro!: exI [of _ 1] exI [of _ "[0]"])
next
  case (Some up)
  obtain u p where up: "up = (u, p)" by force
  have "auth_message (socks5_login u p) u p" unfolding auth_message_def socks5_login_def
    by (intro exI [of _ "word_of_nat (length u)"] exI [of _ "word_of_nat (length p)"])
      (use assms(4) Some up in \<open>simp add: unat_length auth_fits_def\<close>)
  moreover have "socks_client_parameters (args_text u p) = Ok a" using assms(5) Some up by (simp add: login_args_def)
  ultimately have "\<exists>user pass. auth_message (socks5_login u p) user pass \<and> socks_client_parameters (args_text user pass) = Ok a"
    by blast
  then show ?thesis using request_accepted [OF assms(1-3), of port] Some up
    unfolding socks_dialogue_def
    by (intro conjI exI [of _ 2] exI [of _ "[0, 2]"])
      (simp_all add: socks5_greeting_def login_bytes_def method_replies_def AUTH_USERPASS_def)
qed

lemma client_runs:
  assumes f: "host_field host = Ok f" and w: "tc_wfail s = None"
    and src: "src_flat (tc_src s) = (concat (method_replies auth) @ reply_bytes Succeeded @ tunnel, e)"
  shows "\<exists>s'. socks5_client_handshake auth host port 1 s = (Some (Ok (IpV4 [0, 0, 0, 0], 0)), s') \<and>
    src_flat (tc_src s') = (tunnel, e) \<and> tc_out s' = tc_out s @ method_messages auth @ [[5, 1, 0] @ f @ u16_be port]"
proof -
  obtain s1 where s1: "socks5_method auth s = (Some (Ok ()), s1)" "src_flat (tc_src s1) = (reply_bytes Succeeded @ tunnel, e)"
    "tc_out s1 = tc_out s @ method_messages auth" "tc_wfail s1 = None" by (rule method_runs [OF src w])
  let ?s2 = "s1\<lparr>tc_out := tc_out s1 @ [[5, 1, 0] @ f @ u16_be port]\<rparr>"
  have "src_flat (tc_src ?s2) = ([5, 0, 0, 1] @ [0, 0, 0, 0] @ [0, 0] @ tunnel, e)"
    using s1(2) by (simp add: reply_bytes_def reply_value_def VERSION_def RSV_def ATYP_IPV4_def)
  from px_reads [OF this, of 4] obtain s3 where s3: "px_read 4 ?s2 = (Some (Ok [5, 0, 0, 1]), s3)"
    "src_flat (tc_src s3) = ([0, 0, 0, 0] @ [0, 0] @ tunnel, e)" "tc_out s3 = tc_out ?s2" by auto
  from px_reads [OF s3(2), of 4] obtain s4 where s4: "px_read 4 s3 = (Some (Ok [0, 0, 0, 0]), s4)"
    "src_flat (tc_src s4) = ([0, 0] @ tunnel, e)" "tc_out s4 = tc_out s3" by auto
  from px_reads [OF s4(2), of 2] obtain s5 where s5: "px_read 2 s4 = (Some (Ok [0, 0]), s5)"
    "src_flat (tc_src s5) = (tunnel, e)" "tc_out s5 = tc_out s4" by auto
  have "socks5_client_handshake auth host port 1 s = (Some (Ok (IpV4 [0, 0, 0, 0], 0)), s5)"
    using s3(1) s4(1) s5(1)
    by (simp add: socks5_client_handshake_def s1(1) f socks5_request_def px_writes [OF s1(4)] socks5_bound_def be_u16_def)
  then show ?thesis using s1(3) s3(3) s4(3) s5(2,3) by auto
qed

lemma pieces_one: "m \<noteq> [] \<Longrightarrow> length m \<le> 4096 \<Longrightarrow> pieces m [SrcData m]"
  unfolding pieces_def by (intro exI [of _ "[m]"]) simp

lemma host_field_length: "host_field host = Ok f \<Longrightarrow> length f \<le> 257"
  by (auto simp: host_field_def split: option.splits ip_addr.splits if_splits dest!: parse_ip_ok simp: ip_ok_def)

lemma method_pieces: "auth_fits auth \<Longrightarrow> \<exists>g l. map SrcData (method_messages auth) = g @ l \<and>
    pieces (socks5_greeting auth) g \<and> pieces (login_bytes auth) l"
proof (cases auth)
  case None
  then show ?thesis using pieces_one [of "[5, 1, 0]"]
    by (intro exI [of _ "[SrcData [5, 1, 0]]"] exI [of _ "[]"])
      (simp add: method_messages_def socks5_greeting_def login_bytes_def pieces_empty)
next
  case (Some up)
  moreover obtain u p where "up = (u, p)" by force
  moreover assume "auth_fits auth"
  ultimately show ?thesis using pieces_one [of "[5, 2, 0, 2]"] pieces_one [of "socks5_login u p"]
    by (intro exI [of _ "[SrcData [5, 2, 0, 2]]"] exI [of _ "[SrcData (socks5_login u p)]"])
      (simp add: method_messages_def socks5_greeting_def login_bytes_def auth_fits_def socks5_login_def)
qed

text \<open>C37: The SOCKS5 client and the SOCKS5 server of the program understand each other: given the server's replies the
  client succeeds and leaves every byte of the tunnel unread, and the server, given what the client wrote,
  succeeds with these replies, the login's arguments, the target, and the stream as it is after the request.\<close>

theorem socks5_ends_agree:
  assumes "host_field host = Ok f" and "host \<noteq> []" and "utf8_valid host" and "auth_fits auth" and "login_args auth = Ok a"
    and "tc_wfail s = None" and "tc_out s = []"
    and "src_flat (tc_src s) = (concat (method_replies auth) @ reply_bytes Succeeded @ tunnel, e)"
  shows "\<exists>s'. socks5_client_handshake auth host port 1 s = (Some (Ok (IpV4 [0, 0, 0, 0], 0)), s') \<and> src_flat (tc_src s') = (tunnel, e) \<and>
    handshake (map SrcData (tc_out s') @ evs) None = (Ok (a, written_target host port, evs), method_replies auth)"
proof -
  from client_runs [OF assms(1,6,8), of port] assms(7) obtain s' where
    s': "socks5_client_handshake auth host port 1 s = (Some (Ok (IpV4 [0, 0, 0, 0], 0)), s')" "src_flat (tc_src s') = (tunnel, e)"
      "tc_out s' = method_messages auth @ [[5, 1, 0] @ f @ u16_be port]" by auto
  from method_pieces [OF assms(4)] obtain g l where
    p: "map SrcData (method_messages auth) = g @ l" "pieces (socks5_greeting auth) g" "pieces (login_bytes auth) l" by auto
  have "pieces ([5, 1, 0] @ f @ u16_be port) [SrcData ([5, 1, 0] @ f @ u16_be port)]"
    using host_field_length [OF assms(1)] by (intro pieces_one) auto
  from handshake_runs [OF client_dialogue [OF assms(1-5)] p(2,3) this, of evs] p(1) s'
  show ?thesis by auto
qed

lemma socks5_ends_agree_witness:
  "\<exists>s'. socks5_client_handshake (Some ([97, 61, 98], [0])) [104] 80 1
       \<lparr>tc_src = [SrcData [5, 2, 1], SrcData [0, 5, 0, 0, 1, 0, 0, 0, 0, 0, 0, 9]], tc_out = [], tc_wfail = None\<rparr> =
       (Some (Ok (IpV4 [0, 0, 0, 0], 0)), s') \<and> src_flat (tc_src s') = ([9], StillOpen) \<and>
     handshake (map SrcData (tc_out s') @ [SrcData [7]]) None =
       (Ok ([([97], [[98]])], written_target [104] 80, [SrcData [7]]), [[5, 2], [1, 0]])"
proof -
  have "digit_value 16 104 = None" "digit_value 10 104 = None" by (simp_all add: digit_value_def is_digit_def)
  then have "read_ipv4 [104] = None" "read_number 16 (Some 4) True 65535 [104] = None"
    by (auto intro!: read_ipv4_no_digit no_number simp: no_digit_def)
  then have "parse_ip [104] = None"
    by (simp add: parse_ip_def read_ipv6_def read_groups.simps read_separated_def read_char_def all_read_def)
  then have field: "host_field [104] = Ok [3, 1, 104]" by (simp add: host_field_def)
  have login: "login_args (Some ([97, 61, 98], [0])) = Ok [([97], [[98]])]"
    by (simp add: login_args_def socks_client_parameters_def args_text_def args_new_def)
  show ?thesis
    using socks5_ends_agree [OF field _ _ _ login, of
        "\<lparr>tc_src = [SrcData [5, 2, 1], SrcData [0, 5, 0, 0, 1, 0, 0, 0, 0, 0, 0, 9]], tc_out = [], tc_wfail = None\<rparr>" "[9]" StillOpen 80 "[SrcData [7]]"]
    by (simp add: auth_fits_def method_replies_def reply_bytes_def reply_value_def socks_consts)
qed

lemma http_head_byte:
  assumes "\<not> ends_with head END_OF_HEAD" and "length head \<le> 16 * 1024" and "bs \<noteq> []"
  shows "http_head head \<lparr>tc_src = [SrcData (b # bs)], tc_out = out, tc_wfail = None\<rparr> =
    http_head (head @ [b]) \<lparr>tc_src = [SrcData bs], tc_out = out, tc_wfail = None\<rparr>"
  using assms by (subst http_head.simps) (simp add: px_read_def px_io_def tc_read_def read_exact.simps)

lemma http_tunnel_exact_witness:
  "\<exists>head rest. ascii ''H 200'' @ [13, 10, 13, 10, 88] = head @ rest \<and> rest = [88] \<and>
     status_code (first_line (utf8_lossy head)) = ascii ''200''"
proof -
  let ?s = "\<lparr>tc_src = [SrcData (ascii ''H 200'' @ [13, 10, 13, 10, 88])], tc_out = [], tc_wfail = None\<rparr>"
  let ?out = "[connect_head (\<lambda>t. t) None (ascii ''h:1'')]"
  let ?fin = "\<lparr>tc_src = [SrcData [88]], tc_out = ?out, tc_wfail = None\<rparr>"
  let ?head = "ascii ''H 200'' @ [13, 10, 13, 10]"
  have "http_head [] (?s\<lparr>tc_out := ?out\<rparr>) = (Some (Ok ?head), ?fin)"
    by (simp add: ascii_def http_head_byte ends_with_def END_OF_HEAD_def) (simp add: http_head.simps ends_with_def END_OF_HEAD_def)
  moreover have "utf8_lossy ?head = ?head"
    by (simp add: ascii_def utf8_lossy.simps char_extent_def char_width_def second_ok_def cont_def)
  then have "check_status ?head = Ok ()"
    by (simp add: check_status_def status_code_def first_line_def) (simp add: ascii_def)
  ultimately have run: "http_connect (\<lambda>t. t) None (ascii ''h:1'') ?s = (Some (Ok ()), ?fin)"
    by (simp add: http_connect_def px_writes)
  have flat: "src_flat (tc_src ?s) = (ascii ''H 200'' @ [13, 10, 13, 10, 88], StillOpen)" by simp
  from http_tunnel_exact [OF run flat] obtain head rest where
    h: "ascii ''H 200'' @ [13, 10, 13, 10, 88] = head @ rest" "src_flat (tc_src ?fin) = (rest, StillOpen)"
      "status_code (first_line (utf8_lossy head)) = ascii ''200''" by (elim exE conjE)
  from h(2) have "rest = [88]" by simp
  with h(1,3) show ?thesis by (intro exI conjI)
qed

section \<open>What is configured fits\<close>

text \<open>A login from the environment has both lengths in a byte, as the handshake needs.\<close>

lemma configured_auth_fits: "proxy_of_spec sp = (Ok (Socks5Proxy hp auth), out) \<Longrightarrow> auth_fits auth"
proof -
  have err2: "proxy_error m \<noteq> (Ok x, out')" for m and x :: proxy_config and out'
    by (simp add: proxy_error_def tor_error_def split: option.split)
  have err3: "proxy_error m \<noteq> (Ok x, out')" for m and x :: "(bytes \<times> bytes) option" and out'
    by (simp add: proxy_error_def tor_error_def split: option.split)
  have "socks5_auth u p = (Ok auth, out') \<Longrightarrow> auth_fits auth" for u p auth out'
    by (auto simp: socks5_auth_def auth_fits_def err3 split: option.splits if_splits)
  moreover assume "proxy_of_spec sp = (Ok (Socks5Proxy hp auth), out)"
  ultimately show ?thesis
    by (cases "socks5_auth (px_username sp) (px_password sp)" rule: prod.exhaust, cases "fst (socks5_auth (px_username sp) (px_password sp))")
      (auto simp: proxy_of_spec_def err2 split: if_splits)
qed

end
