(* ===== verification/Sqs.thy ===== *)
theory Sqs
  imports Rendezvous OutProxy
begin

text \<open>
  The SQS rendezvous of \<open>src/transports/snowflake/adapters/sqs.rs\<close>: credentials and region, the
  signature of requests, the three calls with their retries, and the exchange.  Base64,
  SHA-256, HMAC and JSON are arguments; a round trip of the HTTP client is one too, with
  the state it keeps.  Log lines are left out.
\<close>

section \<open>Credentials and region\<close>

record sqs_creds =
  cr_access_key_id :: bytes
  cr_secret_key :: bytes

text \<open>\<open>sq_creds\<close> reads the two members of the JSON object, empty when absent.\<close>

record sqs_env =
  sq_b64d :: "bytes \<Rightarrow> bytes option"
  sq_creds :: "bytes \<Rightarrow> (bytes \<times> bytes) option"
  sq_sha256 :: "bytes \<Rightarrow> bytes"
  sq_hmac :: "bytes \<Rightarrow> bytes \<Rightarrow> bytes"
  sq_write :: "json \<Rightarrow> bytes"
  sq_read :: "bytes \<Rightarrow> json option"

datatype sqs_error = SqsBase64 | SqsCreds | SqsRegion | SqsUrl bytes | SqsJson bytes | SqsStatus bytes nat bytes bytes bytes | SqsClient bytes client_error

definition creds_from_base64 :: "sqs_env \<Rightarrow> bytes \<Rightarrow> (sqs_creds, sqs_error) res" where
  "creds_from_base64 se s =
     (case sq_b64d se s of
        None \<Rightarrow> Err SqsBase64
      | Some data \<Rightarrow>
          (case sq_creds se data of None \<Rightarrow> Err SqsCreds | Some (i, k) \<Rightarrow> Ok \<lparr>cr_access_key_id = i, cr_secret_key = k\<rparr>))"

definition without_prefix :: "bytes \<Rightarrow> bytes \<Rightarrow> bytes option" where
  "without_prefix p s = (if starts_with p s then Some (drop (length p) s) else None)"

definition without_suffix :: "bytes \<Rightarrow> bytes \<Rightarrow> bytes option" where
  "without_suffix p s = (if length p \<le> length s \<and> drop (length s - length p) s = p then Some (take (length s - length p) s) else None)"

definition region_from_host :: "bytes \<Rightarrow> bytes option" where
  "region_from_host host =
     (case Option.bind (without_prefix (ascii ''sqs.'') host) (without_suffix (ascii ''.amazonaws.com'')) of
        None \<Rightarrow> None
      | Some region \<Rightarrow>
          if region \<noteq> [] \<and> list_all (\<lambda>c. is_alpha c \<or> is_digit c \<or> c = 95 \<or> c = 45) region then Some region else None)"

section \<open>The signature\<close>

definition hex_bytes :: "bytes \<Rightarrow> bytes" where
  "hex_bytes bs = concat (map (\<lambda>b. [hex_char (unat b div 16), hex_char (unat b mod 16)]) bs)"

definition pair_less :: "bytes \<times> bytes \<Rightarrow> bytes \<times> bytes \<Rightarrow> bool" where
  "pair_less p q \<longleftrightarrow> bytes_less (fst p) (fst q) \<or> fst p = fst q \<and> bytes_less (snd p) (snd q)"

fun insert_pair :: "bytes \<times> bytes \<Rightarrow> (bytes \<times> bytes) list \<Rightarrow> (bytes \<times> bytes) list" where
  "insert_pair p [] = [p]"
| "insert_pair p (q # qs) = (if pair_less q p then q # insert_pair p qs else p # q # qs)"

definition sort_pairs :: "(bytes \<times> bytes) list \<Rightarrow> (bytes \<times> bytes) list" where
  "sort_pairs ps = foldr insert_pair ps []"

definition canonical_headers :: "(bytes \<times> bytes) list \<Rightarrow> (bytes \<times> bytes) list" where
  "canonical_headers headers = sort_pairs (map (\<lambda>(k, v). (map lower k, join 32 (split_whitespace v))) headers)"

definition newline_after :: "bytes \<Rightarrow> bytes" where "newline_after t = t @ [10]"

definition canonical_request :: "sqs_env \<Rightarrow> bytes \<Rightarrow> bytes \<Rightarrow> bytes \<Rightarrow> (bytes \<times> bytes) list \<Rightarrow> bytes \<Rightarrow> bytes" where
  "canonical_request se verb path query headers body =
     newline_after verb @ newline_after path @ newline_after query @
     newline_after (concat (map (\<lambda>(k, v). k @ [58] @ v @ [10]) headers)) @
     newline_after (join 59 (map fst headers)) @ hex_bytes (sq_sha256 se body)"

definition SERVICE :: bytes where "SERVICE = ascii ''sqs''"
definition MAX_ATTEMPTS :: nat where "MAX_ATTEMPTS = 3"
definition BODY_LIMIT :: nat where "BODY_LIMIT = 16 * 1024 * 1024"
definition USER_AGENT :: bytes where
  "USER_AGENT = ascii ''aws-sdk-go-v2/1.36.1 ua/2.1 os/linux lang/go#1.23.6 md/GOOS#linux md/GOARCH#amd64 api/sqs#1.37.14''"

text \<open>The slice \<open>amz_date[..8]\<close> panics on a shorter date; it is ASCII.\<close>

definition sigv4_authorization :: "sqs_env \<Rightarrow> sqs_creds \<Rightarrow> bytes \<Rightarrow> bytes \<Rightarrow> bytes \<Rightarrow> bytes \<Rightarrow> bytes \<Rightarrow> (bytes \<times> bytes) list \<Rightarrow> bytes \<Rightarrow>
    bytes \<Rightarrow> (bytes, unit) res" where
  "sigv4_authorization se creds region service verb path query headers body amz_date =
     (if length amz_date < 8 then Panic
      else
        let hs = canonical_headers headers; date = take 8 amz_date;
            scope = date @ [47] @ region @ [47] @ service @ ascii ''/aws4_request'';
            to_sign = newline_after (ascii ''AWS4-HMAC-SHA256'') @ newline_after amz_date @ newline_after scope @
              hex_bytes (sq_sha256 se (canonical_request se verb path query hs body));
            key = sq_hmac se (sq_hmac se (sq_hmac se (sq_hmac se (ascii ''AWS4'' @ cr_secret_key creds) date) region) service) (ascii ''aws4_request'')
        in Ok (ascii ''AWS4-HMAC-SHA256 Credential='' @ cr_access_key_id creds @ [47] @ scope @ ascii '', SignedHeaders='' @
               join 59 (map fst hs) @ ascii '', Signature='' @ hex_bytes (sq_hmac se key to_sign)))"

definition uuid_v4 :: "bytes \<Rightarrow> bytes" where
  "uuid_v4 b =
     (let b = b[6 := (b ! 6 AND 0x0f) OR 0x40]; b = b[8 := (b ! 8 AND 0x3f) OR 0x80]; h = hex_bytes b
      in slice 0 8 h @ [45] @ slice 8 12 h @ [45] @ slice 12 16 h @ [45] @ slice 16 20 h @ [45] @ slice 20 32 h)"

section \<open>Calls\<close>

record sqs_client =
  sc_host :: bytes
  sc_region :: bytes
  sc_creds :: sqs_creds

text \<open>\<open>SqsClient::new\<close>: the endpoint of the region; its \<open>Host\<close> value is the host, without a port.\<close>

definition sqs_client_new :: "bytes \<Rightarrow> sqs_creds \<Rightarrow> sqs_client" where
  "sqs_client_new region creds = \<lparr>sc_host = ascii ''sqs.'' @ region @ ascii ''.amazonaws.com'', sc_region = region, sc_creds = creds\<rparr>"

definition sqs_headers :: "bytes \<Rightarrow> bytes \<Rightarrow> nat \<Rightarrow> bytes \<Rightarrow> (bytes \<times> bytes) list" where
  "sqs_headers op_name invocation attempt amz_date =
     [(ascii ''Amz-Sdk-Invocation-Id'', invocation),
      (ascii ''Amz-Sdk-Request'', ascii ''attempt='' @ ascii (dec_nat attempt) @ ascii ''; max='' @ ascii (dec_nat MAX_ATTEMPTS)),
      (ascii ''Content-Type'', ascii ''application/x-amz-json-1.0''),
      (ascii ''X-Amz-Date'', amz_date),
      (ascii ''X-Amz-Target'', ascii ''AmazonSQS.'' @ op_name)]"

definition sqs_request :: "sqs_env \<Rightarrow> sqs_client \<Rightarrow> bytes \<Rightarrow> bytes \<Rightarrow> nat \<Rightarrow> bytes \<Rightarrow> bytes \<Rightarrow> (http_request, unit) res" where
  "sqs_request se cl op_name invocation attempt amz_date body =
     (let hs = sqs_headers op_name invocation attempt amz_date;
          signed = hs @ [(ascii ''Content-Length'', ascii (dec_nat (length body))), (ascii ''Host'', sc_host cl)]
      in map_ok (\<lambda>auth.
           \<lparr>hr_method = ascii ''POST'', hr_target = [47], hr_host = sc_host cl,
            hr_headers = hs @ [(ascii ''Authorization'', auth), (ascii ''User-Agent'', USER_AGENT)], hr_body = Some body, hr_gzip = True\<rparr>)
         (sigv4_authorization se (sc_creds cl) (sc_region cl) SERVICE (ascii ''POST'') [47] [] signed body amz_date))"

text \<open>\<open>v[name].as_str()\<close>.\<close>

definition json_str :: "string \<Rightarrow> json \<Rightarrow> bytes option" where
  "json_str name v =
     (case v of JObject ms \<Rightarrow> (case map_of ms (ascii name) of Some (JString t) \<Rightarrow> Some t | _ \<Rightarrow> None) | _ \<Rightarrow> None)"

definition or_text :: "bytes option \<Rightarrow> bytes \<Rightarrow> bytes" where "or_text t d = (case t of Some x \<Rightarrow> x | None \<Rightarrow> d)"

text \<open>A response: the result, or whether to try again with the error.\<close>

definition sqs_judge :: "sqs_env \<Rightarrow> bytes \<Rightarrow> (http_response, client_error) res \<Rightarrow> (json, sqs_error) res + bool \<times> sqs_error" where
  "sqs_judge se op_name r =
     (case r of
        Panic \<Rightarrow> Inl Panic
      | Err e \<Rightarrow> Inr (True, SqsClient op_name e)
      | Ok resp \<Rightarrow>
          if hd_status (rs_head resp) = 200 then
            Inl (case sq_read se (rs_body resp) of Some v \<Rightarrow> Ok v | None \<Rightarrow> Err (SqsJson op_name))
          else
            let v = (case sq_read se (rs_body resp) of Some v \<Rightarrow> v | None \<Rightarrow> JNull);
                kind = last (split_on 35 (or_text (json_str ''__type'' v) (ascii ''UnknownError'')));
                msg = or_text (case json_str ''message'' v of Some t \<Rightarrow> Some t | None \<Rightarrow> json_str ''Message'' v) [];
                throttled = (find_sub (ascii ''Throttl'') kind \<noteq> None \<or> kind = ascii ''RequestThrottled'')
            in Inr (500 \<le> hd_status (rs_head resp) \<or> throttled,
                    SqsStatus op_name (hd_status (rs_head resp)) (or_text (head_header (ascii ''x-amzn-RequestId'') (rs_head resp)) []) kind msg))"

text \<open>The loop of \<open>call\<close>: \<open>rt\<close> is the client's round trip, \<open>date\<close> the clock's text at an attempt.  The caps of the
  sleeps, in seconds, are collected.\<close>

function sqs_attempts :: "sqs_env \<Rightarrow> (http_request \<Rightarrow> 's \<Rightarrow> (http_response, client_error) res \<times> 's) \<Rightarrow> (nat \<Rightarrow> bytes) \<Rightarrow> sqs_client \<Rightarrow>
    bytes \<Rightarrow> bytes \<Rightarrow> bytes \<Rightarrow> nat \<Rightarrow> 's \<Rightarrow> (json, sqs_error) res \<times> nat list \<times> 's" where
  "sqs_attempts se rt date cl op_name invocation body attempt s =
     (case sqs_request se cl op_name invocation attempt (date attempt) body of
        Ok req \<Rightarrow>
          (case rt req s of
             (r, s) \<Rightarrow>
               (case sqs_judge se op_name r of
                  Inl r \<Rightarrow> (r, [], s)
                | Inr (retry, e) \<Rightarrow>
                    if \<not> retry \<or> MAX_ATTEMPTS \<le> attempt then (Err e, [], s)
                    else
                      (case sqs_attempts se rt date cl op_name invocation body (attempt + 1) s of
                         (r, sleeps, s) \<Rightarrow> (r, min 20 (2 ^ (attempt - 1)) # sleeps, s))))
      | _ \<Rightarrow> (Panic, [], s))"
  by pat_completeness auto
termination by (relation "measure (\<lambda>(_, _, _, _, _, _, _, attempt, _). MAX_ATTEMPTS - attempt)") auto

declare sqs_attempts.simps [simp del]

text \<open>One operation of the client, with the random bytes of its invocation id.\<close>

definition sqs_call :: "sqs_env \<Rightarrow> (http_request \<Rightarrow> 's \<Rightarrow> (http_response, client_error) res \<times> 's) \<Rightarrow> (nat \<Rightarrow> bytes) \<Rightarrow> (bytes \<Rightarrow> bytes) \<Rightarrow>
    sqs_client \<Rightarrow> bytes \<Rightarrow> json \<Rightarrow> 's \<Rightarrow> (json, sqs_error) res \<times> 's" where
  "sqs_call se rt date rand cl op_name input s =
     (case sqs_attempts se rt date cl op_name (uuid_v4 (rand op_name)) (sq_write se input) 1 s of (r, _, s) \<Rightarrow> (r, s))"

type_synonym 's caller = "bytes \<Rightarrow> json \<Rightarrow> 's \<Rightarrow> (json, sqs_error) res \<times> 's"

definition send_message :: "'s caller \<Rightarrow> bytes \<Rightarrow> bytes \<Rightarrow> bytes \<Rightarrow> 's \<Rightarrow> (unit, sqs_error) res \<times> 's" where
  "send_message call queue_url body client_id s =
     (case call (ascii ''SendMessage'')
        (JObject [(ascii ''MessageAttributes'', JObject [(ascii ''ClientID'',
             JObject [(ascii ''DataType'', JString (ascii ''String'')), (ascii ''StringValue'', JString client_id)])]),
           (ascii ''MessageBody'', JString body), (ascii ''QueueUrl'', JString queue_url)]) s of
        (r, s) \<Rightarrow> (map_ok (\<lambda>_. ()) r, s))"

definition get_queue_url :: "'s caller \<Rightarrow> bytes \<Rightarrow> 's \<Rightarrow> (bytes, sqs_error) res \<times> 's" where
  "get_queue_url call name s =
     (case call (ascii ''GetQueueUrl'') (JObject [(ascii ''QueueName'', JString name)]) s of
        (r, s) \<Rightarrow> (map_ok (\<lambda>v. or_text (json_str ''QueueUrl'' v) []) r, s))"

definition first_message :: "json \<Rightarrow> bytes option" where
  "first_message v =
     (case v of
        JObject ms \<Rightarrow>
          (case map_of ms (ascii ''Messages'') of
             Some (JArray (m # _)) \<Rightarrow> Some (or_text (json_str ''Body'' m) []) | _ \<Rightarrow> None)
      | _ \<Rightarrow> None)"

definition receive_message :: "'s caller \<Rightarrow> bytes \<Rightarrow> nat \<Rightarrow> 's \<Rightarrow> (bytes option, sqs_error) res \<times> 's" where
  "receive_message call queue_url wait s =
     (case call (ascii ''ReceiveMessage'')
        (JObject [(ascii ''MaxNumberOfMessages'', JNumber (ascii (dec_nat 1))), (ascii ''QueueUrl'', JString queue_url),
           (ascii ''WaitTimeSeconds'', JNumber (ascii (dec_nat wait)))]) s of
        (r, s) \<Rightarrow> (map_ok first_message r, s))"

section \<open>The exchange\<close>

definition SQS_RETRIES :: nat where "SQS_RETRIES = 5"

text \<open>The two loops: what is tried and how often it still may be.\<close>

fun queue_url_tries :: "'s caller \<Rightarrow> bytes \<Rightarrow> nat \<Rightarrow> (bytes, sqs_error) res \<Rightarrow> 's \<Rightarrow> (bytes, sqs_error) res \<times> 's" where
  "queue_url_tries call name 0 r s = (r, s)"
| "queue_url_tries call name (Suc k) _ s =
     (case get_queue_url call name s of
        (Err e, s) \<Rightarrow> queue_url_tries call name k (Err e) s
      | (r, s) \<Rightarrow> (r, s))"

fun receive_tries :: "'s caller \<Rightarrow> bytes \<Rightarrow> nat \<Rightarrow> 's \<Rightarrow> (bytes, sqs_error) res \<times> 's" where
  "receive_tries call queue 0 s = (Ok [], s)"
| "receive_tries call queue (Suc k) s =
     (case receive_message call queue 20 s of
        (Ok (Some answer), s) \<Rightarrow> (Ok answer, s)
      | (Ok None, s) \<Rightarrow> receive_tries call queue k s
      | (Err e, s) \<Rightarrow> (Err e, s)
      | (Panic, s) \<Rightarrow> (Panic, s))"

text \<open>\<open>id8\<close> are the eight random bytes of the client id.\<close>

definition sqs_exchange :: "'s caller \<Rightarrow> bytes \<Rightarrow> bytes \<Rightarrow> bytes \<Rightarrow> 's \<Rightarrow> (bytes, sqs_error) res \<times> 's" where
  "sqs_exchange call queue_url id8 req s =
     (let client_id = hex_bytes id8; body = utf8_lossy req
      in case send_message call queue_url body client_id s of
           (Err e, s) \<Rightarrow> (Err e, s)
         | (Panic, s) \<Rightarrow> (Panic, s)
         | (Ok _, s) \<Rightarrow>
             (case queue_url_tries call (ascii ''snowflake-client-'' @ client_id) SQS_RETRIES (Err (SqsUrl [])) s of
                (Err e, s) \<Rightarrow> (Err e, s)
              | (Panic, s) \<Rightarrow> (Panic, s)
              | (Ok response_queue, s) \<Rightarrow> receive_tries call response_queue SQS_RETRIES s))"

text \<open>The channel that \<open>RendezvousClients\<close> builds for a queue.\<close>

definition sqs_channel :: "url_env \<Rightarrow> sqs_env \<Rightarrow> (amp_url \<Rightarrow> bytes) \<Rightarrow> bytes \<Rightarrow> bytes \<Rightarrow> (bytes \<times> sqs_client, sqs_error) res" where
  "sqs_channel ue se show_url queue_url creds =
     (case ue_parse ue queue_url of
        None \<Rightarrow> Err (SqsUrl queue_url)
      | Some queue \<Rightarrow>
          (case creds_from_base64 se creds of
             Err e \<Rightarrow> Err e
           | Panic \<Rightarrow> Panic
           | Ok c \<Rightarrow>
               (case Option.bind (au_host queue) region_from_host of
                  None \<Rightarrow> Err SqsRegion
                | Some region \<Rightarrow> Ok (show_url queue, sqs_client_new region c))))"

section \<open>The signature does not depend on the order of headers\<close>

lemma pair_less_total: "pair_less p q \<or> p = q \<or> pair_less q p"
  using bytes_less_total unfolding pair_less_def prod_eq_iff by metis

lemma pair_less_irrefl: "\<not> pair_less p p"
  by (simp add: pair_less_def)

lemma pair_less_trans: "pair_less p q \<Longrightarrow> pair_less q r \<Longrightarrow> pair_less p r"
  using bytes_less_trans [of "fst p" "fst q" "fst r"] bytes_less_trans [of "snd p" "snd q" "snd r"]
  by (auto simp: pair_less_def)

lemma pair_less_asym: "pair_less p q \<Longrightarrow> \<not> pair_less q p"
  using pair_less_trans pair_less_irrefl by blast

lemma pair_less_le_trans: "\<not> pair_less x q \<Longrightarrow> pair_less x p \<Longrightarrow> pair_less q p"
  using pair_less_total [of x q] pair_less_trans by blast

lemma insert_pair_commute: "insert_pair p (insert_pair q xs) = insert_pair q (insert_pair p xs)"
proof (induction xs)
  case Nil
  show ?case using pair_less_total [of p q] pair_less_asym [of p q] pair_less_asym [of q p] by auto
next
  case (Cons x xs)
  consider "pair_less x p" "pair_less x q" | "pair_less x p" "\<not> pair_less x q" | "\<not> pair_less x p" "pair_less x q"
    | "\<not> pair_less x p" "\<not> pair_less x q" by blast
  then show ?case
  proof cases
    case 2
    then have "pair_less q p" by (rule pair_less_le_trans [rotated])
    with 2 show ?thesis by simp
  next
    case 3
    then have "pair_less p q" by (rule pair_less_le_trans)
    with 3 show ?thesis by simp
  next
    case 4
    show ?thesis using 4 pair_less_total [of p q] pair_less_asym [of p q] pair_less_asym [of q p] by auto
  qed (simp add: Cons.IH)
qed

lemma sort_pairs_remove1: "p \<in> set ps \<Longrightarrow> sort_pairs ps = insert_pair p (sort_pairs (remove1 p ps))"
  by (induction ps) (auto simp: sort_pairs_def insert_pair_commute [of p])

lemma sort_pairs_mset: "mset ps = mset qs \<Longrightarrow> sort_pairs ps = sort_pairs qs"
proof (induction ps arbitrary: qs)
  case (Cons p ps)
  then have "p \<in> set qs" "mset ps = mset (remove1 p qs)" by (metis list.set_intros(1) set_mset_mset, simp add: Cons.prems [symmetric])
  then have "sort_pairs ps = sort_pairs (remove1 p qs)" "sort_pairs qs = insert_pair p (sort_pairs (remove1 p qs))"
    using Cons.IH sort_pairs_remove1 by blast+
  then show ?case by (simp add: sort_pairs_def)
qed (simp add: sort_pairs_def)

text \<open>The signature of a request does not depend on the order of its headers, nor on the case of their names.\<close>

theorem signature_order_free:
  assumes "mset (map (\<lambda>(k, v). (map lower k, v)) headers) = mset (map (\<lambda>(k, v). (map lower k, v)) headers')"
  shows "sigv4_authorization se creds region service verb path query headers body amz_date =
    sigv4_authorization se creds region service verb path query headers' body amz_date"
proof -
  let ?low = "\<lambda>(k, v). (map lower k, v)" and ?val = "\<lambda>(k :: bytes, v). (k, join 32 (split_whitespace v))"
  have canon: "map (\<lambda>(k, v). (map lower k, join 32 (split_whitespace v))) hs = map ?val (map ?low hs)" for hs
    by (induction hs) auto
  have "mset (map ?val (map ?low headers)) = mset (map ?val (map ?low headers'))"
    using assms by (simp only: mset_map)
  then have "canonical_headers headers = canonical_headers headers'"
    unfolding canonical_headers_def canon by (rule sort_pairs_mset)
  then show ?thesis by (simp add: sigv4_authorization_def)
qed

lemma signature_order_free_witness:
  "sigv4_authorization se creds region service verb path query [(ascii ''Host'', [104]), (ascii ''a'', [49])] body amz_date =
   sigv4_authorization se creds region service verb path query [(ascii ''A'', [49]), (ascii ''host'', [104])] body amz_date"
  by (rule signature_order_free) (simp add: ascii_def lower_def)

section \<open>The number of round trips\<close>

text \<open>A client that counts its round trips.\<close>

definition counted :: "(http_request \<Rightarrow> 's \<Rightarrow> (http_response, client_error) res \<times> 's) \<Rightarrow> http_request \<Rightarrow> nat \<times> 's \<Rightarrow>
    (http_response, client_error) res \<times> nat \<times> 's" where
  "counted rt req ns = (case rt req (snd ns) of (r, s) \<Rightarrow> (r, fst ns + 1, s))"

lemma attempts_counted:
  "sqs_attempts se (counted rt) date cl op_name iv body attempt ns = (r, sleeps, ns') \<Longrightarrow>
    fst ns' \<le> fst ns + (MAX_ATTEMPTS - attempt) + 1"
proof (induction se "counted rt" date cl op_name iv body attempt ns arbitrary: r sleeps ns' rule: sqs_attempts.induct)
  case (1 se date cl op_name iv body attempt ns)
  show ?case
  proof (cases "sqs_request se cl op_name iv attempt (date attempt) body")
    case (Ok req)
    obtain q t where q: "counted rt req ns = (q, t)" by (cases "counted rt req ns")
    then have t: "fst t = fst ns + 1" by (auto simp: counted_def split: prod.splits)
    show ?thesis
    proof (cases "sqs_judge se op_name q")
      case (Inl x)
      with Ok q "1.prems" t show ?thesis by (simp add: sqs_attempts.simps [of se "counted rt"])
    next
      case (Inr re)
      obtain retry e where re: "re = (retry, e)" by (cases re)
      show ?thesis
      proof (cases "\<not> retry \<or> MAX_ATTEMPTS \<le> attempt")
        case True
        with Ok q Inr re "1.prems" t show ?thesis by (simp add: sqs_attempts.simps [of se "counted rt"])
      next
        case False
        obtain r1 sl1 ns1 where rest: "sqs_attempts se (counted rt) date cl op_name iv body (attempt + 1) t = (r1, sl1, ns1)"
          using prod_cases3 by blast
        have "fst ns1 \<le> fst t + (MAX_ATTEMPTS - (attempt + 1)) + 1"
          by (rule "1.hyps" [OF Ok q [symmetric] Inr re [symmetric] False rest])
        moreover have "ns' = ns1" using False Ok q Inr re rest "1.prems"
          by (simp add: sqs_attempts.simps [of se "counted rt" date cl op_name iv body attempt ns])
        ultimately show ?thesis using False t by auto
      qed
    qed
  qed (use "1.prems" in \<open>simp_all add: sqs_attempts.simps [of se "counted rt"]\<close>)
qed

definition calls_within :: "nat \<Rightarrow> (nat \<times> 's) caller \<Rightarrow> bool" where
  "calls_within n call \<longleftrightarrow> (\<forall>op_name input ns. fst (snd (call op_name input ns)) \<le> fst ns + n)"

lemma sqs_call_within: "calls_within 3 (sqs_call se (counted rt) date rand cl)"
  unfolding calls_within_def
proof (intro allI)
  fix op_name input and ns :: "nat \<times> 'a"
  obtain r sleeps ns' where "sqs_attempts se (counted rt) date cl op_name (uuid_v4 (rand op_name)) (sq_write se input) 1 ns = (r, sleeps, ns')"
    using prod_cases3 by blast
  with attempts_counted [OF this] show "fst (snd (sqs_call se (counted rt) date rand cl op_name input ns)) \<le> fst ns + 3"
    by (simp add: sqs_call_def MAX_ATTEMPTS_def)
qed

lemma operation_bounds:
  assumes "calls_within n call"
  shows "send_message call url text cid ns = (r1, t) \<Longrightarrow> fst t \<le> fst ns + n"
    and "get_queue_url call name ns = (r2, t) \<Longrightarrow> fst t \<le> fst ns + n"
    and "receive_message call url wait ns = (r3, t) \<Longrightarrow> fst t \<le> fst ns + n"
proof -
  have b: "fst (snd (call op_name input ns)) \<le> fst ns + n" for op_name input
    using assms unfolding calls_within_def by blast
  show "send_message call url text cid ns = (r1, t) \<Longrightarrow> fst t \<le> fst ns + n" "get_queue_url call name ns = (r2, t) \<Longrightarrow> fst t \<le> fst ns + n"
    "receive_message call url wait ns = (r3, t) \<Longrightarrow> fst t \<le> fst ns + n"
    using b by (auto simp: send_message_def get_queue_url_def receive_message_def case_prod_beta)
qed

lemma queue_url_tries_bound:
  "calls_within n call \<Longrightarrow> queue_url_tries call name k r ns = (r', ns') \<Longrightarrow> fst ns' \<le> fst ns + n * k"
proof (induction k arbitrary: r ns)
  case (Suc k)
  obtain q t where q: "get_queue_url call name ns = (q, t)" by (cases "get_queue_url call name ns")
  then have "fst t \<le> fst ns + n" by (rule operation_bounds(2) [OF Suc.prems(1)])
  with Suc q show ?case by (cases q) fastforce+
qed simp

lemma receive_tries_bound:
  "calls_within n call \<Longrightarrow> receive_tries call queue k ns = (r', ns') \<Longrightarrow> fst ns' \<le> fst ns + n * k"
proof (induction k arbitrary: ns)
  case (Suc k)
  obtain q t where q: "receive_message call queue 20 ns = (q, t)" by (cases "receive_message call queue 20 ns")
  then have t: "fst t \<le> fst ns + n" by (rule operation_bounds(3) [OF Suc.prems(1)])
  show ?case
  proof (cases "q = Ok None")
    case True
    with Suc.prems(2) q have "receive_tries call queue k t = (r', ns')" by simp
    from Suc.IH [OF Suc.prems(1) this] t show ?thesis by simp
  next
    case False
    with Suc.prems(2) q have "ns' = t" by (auto split: res.splits option.splits)
    with t show ?thesis by simp
  qed
qed simp

text \<open>An exchange over a queue makes at most 33 HTTP round trips, whatever the answers: three attempts of each of the
  eleven calls it can make.\<close>

theorem sqs_exchange_bounded:
  assumes "sqs_exchange (sqs_call se (counted rt) date rand cl) queue_url id8 body (0, s) = (r, n, s')"
  shows "n \<le> 33"
proof -
  let ?call = "sqs_call se (counted rt) date rand cl" and ?id = "hex_bytes id8"
  note w = sqs_call_within [of se rt date rand cl]
  obtain r1 t1 where 1: "send_message ?call queue_url (utf8_lossy body) ?id (0, s) = (r1, t1)" by (cases "send_message ?call queue_url (utf8_lossy body) ?id (0, s)")
  then have b1: "fst t1 \<le> 3" using operation_bounds(1) [OF w, of queue_url "utf8_lossy body" ?id "(0, s)" r1 t1] by simp
  let ?name = "ascii ''snowflake-client-'' @ ?id"
  obtain r2 t2 where 2: "queue_url_tries ?call ?name SQS_RETRIES (Err (SqsUrl [])) t1 = (r2, t2)"
    by (cases "queue_url_tries ?call ?name SQS_RETRIES (Err (SqsUrl [])) t1")
  from queue_url_tries_bound [OF w 2] b1 have b2: "fst t2 \<le> 18" by (simp add: SQS_RETRIES_def)
  show ?thesis
  proof (cases "\<exists>u q. r1 = Ok u \<and> r2 = Ok q")
    case False
    then have "n = fst t1 \<or> n = fst t2" using assms 1 2
      by (cases r1; cases r2) (auto simp: sqs_exchange_def Let_def)
    with b1 b2 show ?thesis by linarith
  next
    case True
    then obtain q where "receive_tries ?call q SQS_RETRIES t2 = (r, n, s')"
      using assms 1 2 by (auto simp: sqs_exchange_def Let_def)
    from receive_tries_bound [OF w this] b2 show ?thesis by (simp add: SQS_RETRIES_def)
  qed
qed

text \<open>Without a network the first call fails at its third attempt, after sleeps of at most one and two seconds.\<close>

lemma sqs_request_ok: "8 \<le> length amz_date \<Longrightarrow> \<exists>req. sqs_request se cl op_name iv attempt amz_date body = Ok req"
  by (simp add: sqs_request_def Let_def sigv4_authorization_def)

lemma no_network_attempts:
  assumes "\<forall>i. 8 \<le> length (date i)"
  shows "sqs_attempts se (counted (\<lambda>_ s. (Err e, s))) date cl op_name iv body 1 (0, ()) = (Err (SqsClient op_name e), [1, 2], (3, ()))"
proof -
  have step: "sqs_attempts se (counted (\<lambda>_ s. (Err e, s))) date cl op_name iv body i (n, ()) =
      (if 3 \<le> i then (Err (SqsClient op_name e), [], (n + 1, ()))
       else case sqs_attempts se (counted (\<lambda>_ s. (Err e, s))) date cl op_name iv body (i + 1) (n + 1, ()) of
         (r, sleeps, s) \<Rightarrow> (r, min 20 (2 ^ (i - 1)) # sleeps, s))" for i n
    using sqs_request_ok [of "date i" se cl op_name iv i body] assms
    by (subst sqs_attempts.simps) (auto simp: counted_def sqs_judge_def MAX_ATTEMPTS_def)
  show ?thesis by (simp add: step [of 1] step [of 2] step [of 3] numeral_2_eq_2 numeral_3_eq_3) (simp add: step)
qed

lemma sqs_exchange_bounded_witness:
  "\<forall>se rand cl queue_url id8 body. sqs_exchange (sqs_call se (counted (\<lambda>_ s. (Err DialFailed, s))) (\<lambda>_. ascii ''20260917T010203Z'') rand cl) queue_url id8 body (0, ()) =
     (Err (SqsClient (ascii ''SendMessage'') DialFailed), 3, ()) \<and> (3 :: nat) \<le> 33"
proof (intro allI)
  fix se rand cl queue_url id8 body
  have "\<forall>i :: nat. 8 \<le> length (ascii ''20260917T010203Z'')" by (simp add: ascii_def)
  note fails = no_network_attempts [of "\<lambda>_. ascii ''20260917T010203Z''", OF this]
  have run: "sqs_exchange (sqs_call se (counted (\<lambda>_ s. (Err DialFailed, s))) (\<lambda>_. ascii ''20260917T010203Z'') rand cl) queue_url id8 body (0, ()) =
     (Err (SqsClient (ascii ''SendMessage'') DialFailed), 3, ())"
    using fails by (simp add: sqs_exchange_def Let_def send_message_def sqs_call_def)
  from sqs_exchange_bounded [OF run] run
  show "sqs_exchange (sqs_call se (counted (\<lambda>_ s. (Err DialFailed, s))) (\<lambda>_. ascii ''20260917T010203Z'') rand cl) queue_url id8 body (0, ()) =
     (Err (SqsClient (ascii ''SendMessage'') DialFailed), 3, ()) \<and> (3 :: nat) \<le> 33" by blast
qed

end
