(* ===== verification/TlsChain.thy ===== *)
theory TlsChain
  imports Webtunnel
begin

text \<open>
  The TLS adapter of webtunnel (\<open>src/transports/webtunnel/adapters/rustls.rs\<close>): the hash of a
  chain, the three verifiers, the preparation of a handshake and its error text.  SHA-256,
  the verifier of the web PKI, the server names and the handshake itself belong to
  other crates: they are the arguments \<open>tls_env\<close>, and the handshake is given the verifier.
\<close>

section \<open>The hash of a chain\<close>

definition hash_step :: "(bytes \<Rightarrow> bytes) \<Rightarrow> bytes \<Rightarrow> bytes option \<Rightarrow> bytes option" where
  "hash_step sha cert hash = Some (case hash of None \<Rightarrow> sha cert | Some prev \<Rightarrow> sha (prev @ sha cert))"

definition chain_hash :: "(bytes \<Rightarrow> bytes) \<Rightarrow> bytes list \<Rightarrow> bytes" where
  "chain_hash sha certs = (case fold (hash_step sha) certs None of Some h \<Rightarrow> h | None \<Rightarrow> [])"

section \<open>Verifiers\<close>

text \<open>Errors of \<open>rustls\<close>: those a verifier makes itself, and all others, by their text.\<close>

datatype tls_error = GeneralError bytes | OtherTlsError bytes

type_synonym 'n verifier = "bytes \<Rightarrow> bytes list \<Rightarrow> 'n \<Rightarrow> bytes \<Rightarrow> nat \<Rightarrow> (unit, tls_error) res"

record 'n tls_env =
  te_sha256 :: "bytes \<Rightarrow> bytes"
  te_server_name :: "bytes \<Rightarrow> 'n option"
  te_webpki :: "'n verifier"
  te_handshake :: "'n verifier \<Rightarrow> 'n \<Rightarrow> bool \<Rightarrow> source \<Rightarrow> (source, tls_error) res option"

definition ERR_PIN_MISMATCH :: bytes where
  "ERR_PIN_MISMATCH = ascii ''pinned certificate chain hash not matched''"

definition name_verifier :: "'n verifier \<Rightarrow> 'n \<Rightarrow> 'n verifier" where
  "name_verifier inner name cert chain server_name ocsp now = inner cert chain name ocsp now"

definition pin_matched :: "bytes \<Rightarrow> bytes list \<Rightarrow> bool" where
  "pin_matched hash pins = fold (\<lambda>pin acc. acc \<or> length pin = length hash \<and> pin = hash) pins False"

definition pin_verifier :: "(bytes \<Rightarrow> bytes) \<Rightarrow> bytes list \<Rightarrow> 'n verifier" where
  "pin_verifier sha pins cert chain server_name ocsp now =
     (if pin_matched (chain_hash sha (cert # chain)) pins then Ok () else Err (GeneralError ERR_PIN_MISMATCH))"

section \<open>A handshake\<close>

datatype 'n checked = CheckServerName | CheckName 'n | CheckPins "bytes list"

definition checked_verifier :: "'n tls_env \<Rightarrow> 'n checked \<Rightarrow> 'n verifier" where
  "checked_verifier te v =
     (case v of CheckServerName \<Rightarrow> te_webpki te | CheckName name \<Rightarrow> name_verifier (te_webpki te) name
      | CheckPins pins \<Rightarrow> pin_verifier (te_sha256 te) pins)"

text \<open>Brackets and trailing dots are dropped; an error carries what is left.\<close>

definition stripped_name :: "bytes \<Rightarrow> bytes" where
  "stripped_name host = rev (dropWhile (\<lambda>c. c = 46) (rev (trim_brackets host)))"

definition tls_server_name :: "'n tls_env \<Rightarrow> bytes \<Rightarrow> ('n, bytes) res" where
  "tls_server_name te host =
     (let name = stripped_name host
      in case te_server_name te name of Some n \<Rightarrow> Ok n | None \<Rightarrow> Err name)"

record 'n tls_handshake =
  hk_check :: "'n checked"
  hk_sni :: bool
  hk_name :: 'n

definition tls_prepare :: "'n tls_env \<Rightarrow> verify \<Rightarrow> bytes option \<Rightarrow> ('n tls_handshake, bytes) res" where
  "tls_prepare te v sni =
     (case (case v of VerifyServerName \<Rightarrow> Ok CheckServerName | VerifyName name \<Rightarrow> map_ok CheckName (tls_server_name te name)
            | Pins pins \<Rightarrow> Ok (CheckPins pins)) of
        Err e \<Rightarrow> Err e
      | Panic \<Rightarrow> Panic
      | Ok check \<Rightarrow>
          (case sni of
             None \<Rightarrow>
               (case te_server_name te (ascii ''no-sni.invalid'') of
                  None \<Rightarrow> Panic | Some n \<Rightarrow> Ok \<lparr>hk_check = check, hk_sni = False, hk_name = n\<rparr>)
           | Some sni \<Rightarrow> map_ok (\<lambda>n. \<lparr>hk_check = check, hk_sni = True, hk_name = n\<rparr>) (tls_server_name te sni)))"

text \<open>The text of an error, which \<open>rustls\<close> prefixes for one of a verifier; that of the pins is cut out again.\<close>

definition show_tls_error :: "tls_error \<Rightarrow> bytes" where
  "show_tls_error e = (case e of GeneralError t \<Rightarrow> ascii ''unexpected error: '' @ t | OtherTlsError t \<Rightarrow> t)"

definition connect_error_text :: "bytes \<Rightarrow> bytes" where
  "connect_error_text t =
     (let p = ascii ''unexpected error: ''
      in if take (length p) t = p \<and> drop (length p) t = ERR_PIN_MISMATCH then ERR_PIN_MISMATCH else t)"

definition tls_connect :: "'n tls_env \<Rightarrow> 'n tls_handshake \<Rightarrow> source \<Rightarrow> (source, bytes) res option" where
  "tls_connect te hk stream =
     map_option (\<lambda>r. case r of Ok s \<Rightarrow> Ok s | Err e \<Rightarrow> Err (connect_error_text (show_tls_error e)) | Panic \<Rightarrow> Panic)
       (te_handshake te (checked_verifier te (hk_check hk)) (hk_name hk) (hk_sni hk) stream)"

text \<open>The connector as the dial of \<open>Webtunnel\<close> uses it, over the TCP connections \<open>tcp\<close> makes.\<close>

definition tls_net :: "(bytes \<Rightarrow> source option) \<Rightarrow> 'n tls_env \<Rightarrow> wt_net" where
  "tls_net tcp te =
     \<lparr>wn_tcp = tcp, wn_prepare = (\<lambda>v sni. map_ok (\<lambda>_. ()) (tls_prepare te v sni)),
      wn_connect = (\<lambda>v sni stream.
        case tls_prepare te v sni of Ok hk \<Rightarrow> tls_connect te hk stream | Err e \<Rightarrow> Some (Err e) | Panic \<Rightarrow> Some Panic)\<rparr>"

section \<open>The hash fixes the chain\<close>

lemma chain_hash_simps:
  "chain_hash sha [] = []" "chain_hash sha [c] = sha c"
  "certs \<noteq> [] \<Longrightarrow> chain_hash sha (certs @ [c]) = sha (chain_hash sha certs @ sha c)"
proof -
  show "chain_hash sha [] = []" "chain_hash sha [c] = sha c" by (simp_all add: chain_hash_def hash_step_def)
  assume "certs \<noteq> []"
  then obtain cs d where "certs = cs @ [d]" by (cases certs rule: rev_cases) auto
  then show "chain_hash sha (certs @ [c]) = sha (chain_hash sha certs @ sha c)" by (simp add: chain_hash_def hash_step_def)
qed

text \<open>What is hashed on the way.\<close>

definition hashed :: "(bytes \<Rightarrow> bytes) \<Rightarrow> bytes list \<Rightarrow> bytes set" where
  "hashed sha certs = set certs \<union> (\<lambda>n. chain_hash sha (take n certs) @ sha (certs ! n)) ` {0<..<length certs}"

lemma hashed_snoc:
  "hashed sha certs \<subseteq> hashed sha (certs @ [c])" "c \<in> hashed sha (certs @ [c])"
  "certs \<noteq> [] \<Longrightarrow> chain_hash sha certs @ sha c \<in> hashed sha (certs @ [c])"
proof -
  show "hashed sha certs \<subseteq> hashed sha (certs @ [c])" by (auto simp: hashed_def nth_append image_iff intro!: bexI)
  show "c \<in> hashed sha (certs @ [c])" by (simp add: hashed_def)
  assume "certs \<noteq> []"
  then show "chain_hash sha certs @ sha c \<in> hashed sha (certs @ [c])"
    by (auto simp: hashed_def intro!: rev_image_eqI [of "length certs"])
qed

text \<open>A digest of the length of SHA-256's, and certificates that are not twice as long, as a chain's inner message is.\<close>

definition digest32 :: "(bytes \<Rightarrow> bytes) \<Rightarrow> bool" where "digest32 sha \<longleftrightarrow> (\<forall>b. length (sha b) = 32)"

lemma chain_hash_length: "digest32 sha \<Longrightarrow> certs \<noteq> [] \<Longrightarrow> length (chain_hash sha certs) = 32"
  by (cases certs rule: rev_cases; cases "butlast certs = []") (auto simp: chain_hash_simps digest32_def)

lemma chain_hash_inj:
  assumes "digest32 sha"
  shows "inj_on sha (hashed sha xs \<union> hashed sha ys) \<Longrightarrow> \<forall>c \<in> set xs \<union> set ys. length c \<noteq> 64 \<Longrightarrow> xs \<noteq> [] \<Longrightarrow> ys \<noteq> [] \<Longrightarrow>
    chain_hash sha xs = chain_hash sha ys \<Longrightarrow> xs = ys"
proof (induction xs arbitrary: ys rule: rev_induct)
  case (snoc c xs)
  from \<open>ys \<noteq> []\<close> obtain zs d where ys: "ys = zs @ [d]" by (cases ys rule: rev_cases) auto
  let ?S = "hashed sha (xs @ [c]) \<union> hashed sha ys"
  have same: "a = b" if "sha a = sha b" "a \<in> ?S" "b \<in> ?S" for a b using snoc.prems(1) that by (auto dest: inj_onD)
  have in_S: "c \<in> ?S" "d \<in> ?S" by (simp_all add: hashed_snoc ys)
  have step_S: "zs \<noteq> [] \<Longrightarrow> chain_hash sha zs @ sha d \<in> ?S" "xs \<noteq> [] \<Longrightarrow> chain_hash sha xs @ sha c \<in> ?S"
    by (simp_all add: hashed_snoc ys)
  have len: "length (chain_hash sha us @ sha e) = 64" if "us \<noteq> []" for us e
    using chain_hash_length [OF assms that] assms by (simp add: digest32_def)
  consider "xs = []" "zs = []" | "xs = []" "zs \<noteq> []" | "xs \<noteq> []" "zs = []" | "xs \<noteq> []" "zs \<noteq> []" by blast
  then show ?case
  proof cases
    case 1
    with snoc.prems(5) same in_S show ?thesis by (simp add: ys chain_hash_simps)
  next
    case 2
    with snoc.prems(5) same [OF _ in_S(1) step_S(1)] have "c = chain_hash sha zs @ sha d" by (simp add: ys chain_hash_simps)
    with len [OF 2(2)] have "length c = 64" by blast
    with snoc.prems(2) show ?thesis by simp
  next
    case 3
    with snoc.prems(5) same [OF _ step_S(2) in_S(2)] have "d = chain_hash sha xs @ sha c" by (simp add: ys chain_hash_simps)
    with len [OF 3(1)] have "length d = 64" by blast
    with snoc.prems(2) show ?thesis by (simp add: ys)
  next
    case 4
    with snoc.prems(5) same [OF _ step_S(2) step_S(1)] have "chain_hash sha xs @ sha c = chain_hash sha zs @ sha d"
      by (simp add: ys chain_hash_simps)
    then have eq: "chain_hash sha xs = chain_hash sha zs" "sha c = sha d"
      using chain_hash_length [OF assms 4(1)] chain_hash_length [OF assms 4(2)] by simp_all
    have "inj_on sha (hashed sha xs \<union> hashed sha zs)"
      by (rule inj_on_subset [OF snoc.prems(1)]) (use hashed_snoc(1) in \<open>auto simp: ys\<close>)
    moreover have "\<forall>c \<in> set xs \<union> set zs. length c \<noteq> 64" using snoc.prems(2) by (auto simp: ys)
    ultimately have "xs = zs" using snoc.IH [OF _ _ 4 eq(1)] by blast
    moreover have "c = d" using same [OF eq(2) in_S] .
    ultimately show ?thesis by (simp add: ys)
  qed
qed simp

lemma pin_matched_iff: "pin_matched hash pins \<longleftrightarrow> hash \<in> set pins"
proof -
  have "fold (\<lambda>pin acc. acc \<or> length pin = length hash \<and> pin = hash) pins b \<longleftrightarrow> b \<or> hash \<in> set pins" for b
    by (induction pins arbitrary: b) auto
  then show ?thesis by (simp add: pin_matched_def)
qed

section \<open>No chain goes unchecked\<close>

text \<open>
  What \<open>rustls\<close> documents: a handshake completes only after the verifier accepted the chain the
  server presented, for the name the handshake was given.  \<open>presents\<close> is what the server of a
  stream presents: its certificate, the rest of the chain, the OCSP response, and the time of day.
\<close>

definition asks_verifier :: "'n tls_env \<Rightarrow> (source \<Rightarrow> bytes \<times> bytes list \<times> bytes \<times> nat) \<Rightarrow> bool" where
  "asks_verifier te presents \<longleftrightarrow>
     (\<forall>vf name sni stream s. te_handshake te vf name sni stream = Some (Ok s) \<longrightarrow>
        (case presents stream of (cert, chain, ocsp, now) \<Rightarrow> vf cert chain name ocsp now = Ok ()))"

lemma res_cases_ok: "(case r of Ok x \<Rightarrow> Ok x | Err e \<Rightarrow> Err (f e) | Panic \<Rightarrow> Panic) = Ok x \<Longrightarrow> (r = Ok x \<Longrightarrow> P) \<Longrightarrow> P"
  by (cases r) auto

lemma connected_checked:
  assumes "asks_verifier te presents" and "tls_connect te hk stream = Some (Ok s)" and "presents stream = (cert, chain, ocsp, now)"
  shows "checked_verifier te (hk_check hk) cert chain (hk_name hk) ocsp now = Ok ()"
proof -
  from assms(2) obtain s' where "te_handshake te (checked_verifier te (hk_check hk)) (hk_name hk) (hk_sni hk) stream = Some (Ok s')"
    by (cases "te_handshake te (checked_verifier te (hk_check hk)) (hk_name hk) (hk_sni hk) stream")
      (auto simp: tls_connect_def elim!: res_cases_ok)
  with assms(1,3) show ?thesis unfolding asks_verifier_def by fastforce
qed

text \<open>A handshake that completed, with the settings of a configuration.\<close>

lemma checked_handshake:
  assumes "asks_verifier te presents" and "tls_checks E c name = Ok (v, sni)" and "tls_prepare te v sni = Ok hk"
    and "tls_connect te hk stream = Some (Ok s)" and "presents stream = (cert, chain, ocsp, now)"
  shows "if wc_pinned_hash c \<noteq> [] then we_base64 E (wc_pinned_hash c) = Some (chain_hash (te_sha256 te) (cert # chain))
    else \<exists>host n. host \<noteq> [] \<and> tls_server_name te host = Ok n \<and> te_webpki te cert chain n ocsp now = Ok () \<and>
      (host = name \<or> host = wc_utls_verify_name c)"
proof -
  note ok = connected_checked [OF assms(1,4,5)]
  note c = certificate_always_checked [OF assms(2)]
  show ?thesis
  proof (cases v)
    case (Pins pins)
    with assms(3) have "hk_check hk = CheckPins pins" by (auto simp: tls_prepare_def split: option.splits elim!: map_ok.elims)
    with ok have "chain_hash (te_sha256 te) (cert # chain) \<in> set pins"
      by (auto simp: checked_verifier_def pin_verifier_def pin_matched_iff split: if_splits)
    moreover have "pins = [hd pins]" using assms(2) Pins by (auto simp: tls_checks_def Let_def split: option.splits res.splits if_splits)
    ultimately show ?thesis using c Pins by (cases pins) auto
  next
    case (VerifyName m)
    with assms(3) obtain n where "hk_check hk = CheckName n" "tls_server_name te m = Ok n"
      by (auto simp: tls_prepare_def split: option.splits res.splits elim!: map_ok.elims)
    with ok c VerifyName show ?thesis by (auto simp: checked_verifier_def name_verifier_def)
  next
    case VerifyServerName
    with assms(3) c have "hk_check hk = CheckServerName" "tls_server_name te name = Ok (hk_name hk)" "hk_sni hk"
      by (auto simp: tls_prepare_def elim!: map_ok.elims)
    with ok c VerifyServerName show ?thesis by (auto simp: checked_verifier_def)
  qed
qed

lemma handshake_run:
  assumes "tls_connect te hk stream = Some (Ok s)"
  shows "\<exists>vf name sni. te_handshake te vf name sni stream = Some (Ok s)"
proof (intro exI)
  show "te_handshake te (checked_verifier te (hk_check hk)) (hk_name hk) (hk_sni hk) stream = Some (Ok s)"
    using assms by (cases "te_handshake te (checked_verifier te (hk_check hk)) (hk_name hk) (hk_sni hk) stream")
      (auto simp: tls_connect_def elim!: res_cases_ok)
qed

text \<open>The server name a dial uses.\<close>

definition name_in_use :: "wt_env \<Rightarrow> wt_config \<Rightarrow> holder \<Rightarrow> bytes" where
  "name_in_use E c h =
     (if wc_tls_server_name c = [] then []
      else case holder_get (we_pick E) (trim (wc_tls_server_name c)) h of None \<Rightarrow> [] | Some (g, _) \<Rightarrow> generate g)"

lemma dialed_over_tls:
  assumes "dial_impl E N c h = (Ok p, h')" and "wc_tls_kind c = ascii ''tls''" and "wn_tcp N (wc_remote_address c) = Some tcp"
  obtains v sni u s conn where "tls_checks E c (name_in_use E c h) = Ok (v, sni)" and "wn_prepare N v sni = Ok u"
    and "wn_connect N v sni tcp = Some (Ok s)" and "snd (upgrade_client s (wc_path c) (wc_http_host c)) = Some (Ok conn)"
    and "p = wt_assemble conn"
proof -
  obtain tls conn where tls: "wt_tls E N c (name_in_use E c h) = Ok tls" and up: "wt_upgrade N tls c tcp = Ok conn"
    and p: "p = wt_assemble conn"
    using assms(1,3) by (auto simp: dial_impl_def name_in_use_def Let_def split: option.splits res.splits if_splits)
  from tls assms(2) obtain v sni u where v: "tls_checks E c (name_in_use E c h) = Ok (v, sni)" "wn_prepare N v sni = Ok u" "tls = Some (v, sni)"
    by (auto simp: wt_tls_def split: res.splits)
  from up v(3) obtain s where "wn_connect N v sni tcp = Some (Ok s)" "snd (upgrade_client s (wc_path c) (wc_http_host c)) = Some (Ok conn)"
    by (auto simp: wt_upgrade_def wt_stream_def split: option.splits res.splits)
  with v p that show thesis by blast
qed

text \<open>What \<open>ServerName::try_from\<close> documents: neither the empty string nor a lone wildcard is a server name.\<close>

definition names_parsed :: "'n tls_env \<Rightarrow> bool" where
  "names_parsed te \<longleftrightarrow> te_server_name te [] = None \<and> te_server_name te (ascii ''*'') = None"

text \<open>
  C22: a dial that uses TLS gives a tunnel only if the server's chain was checked.  When
  \<open>dial_impl\<close> with this connector succeeds, then the tunnel is the upgraded stream of a TLS
  handshake over the dialed connection; with a pin, the hash of the chain presented there is
  the pin; without one, the web PKI accepts the chain for a name that is neither empty nor the
  wildcard, which is the name to verify or the server name in use.
\<close>

theorem no_unverified_chain:
  assumes "asks_verifier te presents" and "names_parsed te"
    and "dial_impl E (tls_net tcp te) c h = (Ok p, h')" and "wc_tls_kind c = ascii ''tls''"
    and "tcp (wc_remote_address c) = Some stream" and "presents stream = (cert, chain, ocsp, now)"
  shows "(if wc_pinned_hash c \<noteq> [] then we_base64 E (wc_pinned_hash c) = Some (chain_hash (te_sha256 te) (cert # chain))
      else \<exists>host n. host \<in> {wc_utls_verify_name c, name_in_use E c h} \<and> stripped_name host \<notin> {[], ascii ''*''} \<and>
        te_server_name te (stripped_name host) = Some n \<and> te_webpki te cert chain n ocsp now = Ok ()) \<and>
    (\<exists>vf name sni s conn. te_handshake te vf name sni stream = Some (Ok s) \<and>
       snd (upgrade_client s (wc_path c) (wc_http_host c)) = Some (Ok conn) \<and> p = wt_assemble conn)"
proof -
  have tcp: "wn_tcp (tls_net tcp te) (wc_remote_address c) = Some stream" using assms(5) by (simp add: tls_net_def)
  obtain v sni u s conn where run: "tls_checks E c (name_in_use E c h) = Ok (v, sni)" "wn_prepare (tls_net tcp te) v sni = Ok u"
    "wn_connect (tls_net tcp te) v sni stream = Some (Ok s)" "snd (upgrade_client s (wc_path c) (wc_http_host c)) = Some (Ok conn)"
    "p = wt_assemble conn"
    by (rule dialed_over_tls [OF assms(3,4) tcp])
  obtain hk where hk: "tls_prepare te v sni = Ok hk"
    using run(2) by (cases "tls_prepare te v sni") (auto simp: tls_net_def)
  have conn: "tls_connect te hk stream = Some (Ok s)" using run(3) hk by (simp add: tls_net_def)
  have named: "te_server_name te (stripped_name host) = Some n \<and> stripped_name host \<notin> {[], ascii ''*''}"
    if "tls_server_name te host = Ok n" for host n
    using that assms(2) by (auto simp: tls_server_name_def names_parsed_def Let_def split: option.splits)
  note checked_handshake [OF assms(1) run(1) hk conn assms(6)]
  then have "if wc_pinned_hash c \<noteq> [] then we_base64 E (wc_pinned_hash c) = Some (chain_hash (te_sha256 te) (cert # chain))
      else \<exists>host n. host \<in> {wc_utls_verify_name c, name_in_use E c h} \<and> stripped_name host \<notin> {[], ascii ''*''} \<and>
        te_server_name te (stripped_name host) = Some n \<and> te_webpki te cert chain n ocsp now = Ok ()"
    using named by (auto split: if_splits)
  with handshake_run [OF conn] run(4,5) show ?thesis by blast
qed

text \<open>C23: A pin fixes the chain: when the pin is the hash of a chain and SHA-256 does not collide on the messages hashed,
  the handshake succeeds with no other chain.  Certificates of 64 bytes, which are too short to be any, are excluded.\<close>

theorem pin_fixes_chain:
  assumes "asks_verifier te presents" and "tls_prepare te (Pins [chain_hash (te_sha256 te) pinned]) sni = Ok hk"
    and "tls_connect te hk stream = Some (Ok s)" and "presents stream = (cert, chain, ocsp, now)"
    and "digest32 (te_sha256 te)" and "inj_on (te_sha256 te) (hashed (te_sha256 te) pinned \<union> hashed (te_sha256 te) (cert # chain))"
    and "\<forall>c \<in> set pinned \<union> set (cert # chain). length c \<noteq> 64"
  shows "cert # chain = pinned"
proof -
  from assms(2) have "hk_check hk = CheckPins [chain_hash (te_sha256 te) pinned]"
    by (auto simp: tls_prepare_def split: option.splits elim!: map_ok.elims)
  with connected_checked [OF assms(1,3,4)] have eq: "chain_hash (te_sha256 te) pinned = chain_hash (te_sha256 te) (cert # chain)"
    by (auto simp: checked_verifier_def pin_verifier_def pin_matched_iff split: if_splits)
  moreover have "pinned \<noteq> []"
    using eq chain_hash_length [OF assms(5), of "cert # chain"] by (auto simp: chain_hash_simps)
  ultimately show ?thesis using chain_hash_inj [OF assms(5,6,7)] by simp
qed

text \<open>A server of a chain of two certificates, and a digest that tells the messages hashed for it apart.\<close>

definition toy_digest :: "bytes \<Rightarrow> bytes" where
  "toy_digest b = replicate 30 0 @ [word_of_nat (length b), (if b = [] then 0 else hd b)]"

definition sample_tls :: "bytes tls_env" where
  "sample_tls = \<lparr>te_sha256 = toy_digest, te_server_name = (\<lambda>n. if n = [] \<or> n = ascii ''*'' then None else Some n), te_webpki = (\<lambda>_ _ _ _ _. Ok ()),
     te_handshake = (\<lambda>vf name sni stream. Some (case vf [1] [[2]] name [] 0 of Ok _ \<Rightarrow> Ok stream | Err e \<Rightarrow> Err e | Panic \<Rightarrow> Panic))\<rparr>"

lemma sample_tls_asks: "asks_verifier sample_tls (\<lambda>_. ([1], [[2]], [], 0))"
proof -
  have "r = Ok ()" if "(case r of Ok _ \<Rightarrow> Ok stream | Err e \<Rightarrow> Err e | Panic \<Rightarrow> Panic) = Ok s"
    for r :: "(unit, tls_error) res" and stream s :: source using that by (cases r) auto
  then show ?thesis by (auto simp: asks_verifier_def sample_tls_def)
qed

definition sample_dial :: wt_config where
  "sample_dial = config_empty\<lparr>wc_tls_kind := ascii ''tls'', wc_tls_server_name := [104]\<rparr>"

definition sample_tcp :: "bytes \<Rightarrow> source option" where
  "sample_tcp addr = Some [SrcData (render_head reply_head)]"

lemma sample_dial_runs:
  "\<exists>p h'. dial_impl plain_env (tls_net sample_tcp sample_tls) sample_dial Map.empty = (Ok p, h') \<and>
    name_in_use plain_env sample_dial Map.empty = [104]"
proof -
  let ?hk = "\<lparr>hk_check = CheckServerName, hk_sni = True, hk_name = [104]\<rparr> :: bytes tls_handshake"
  have gen: "generator_new (we_pick plain_env) [104] = Some \<lparr>gn_spec = [104], gn_names = [[104]], gn_position = we_pick plain_env 1\<rparr>"
    "trim [104] = [104]"
    by (simp_all add: generator_new_def text_defs)
  have pick: "we_pick plain_env n = 0" for n by (simp add: plain_env_def)
  have checks: "tls_checks plain_env sample_dial [104] = Ok (VerifyServerName, Some [104])"
    by (simp add: tls_checks_def sample_dial_def config_empty_def)
  have "tls_server_name sample_tls [104] = Ok [104]" by (simp add: tls_server_name_def stripped_name_def trim_brackets_def sample_tls_def ascii_def)
  then have prep: "tls_prepare sample_tls VerifyServerName (Some [104]) = Ok ?hk" by (simp add: tls_prepare_def)
  have conn: "tls_connect sample_tls ?hk st = Some (Ok st)" for st by (simp add: tls_connect_def sample_tls_def checked_verifier_def)
  obtain c where up: "snd (upgrade_client [SrcData (render_head reply_head)] (wc_path sample_dial) (wc_http_host sample_dial)) = Some (Ok c)"
    using sample_reply_accepted by blast
  let ?N = "tls_net sample_tcp sample_tls"
  have net: "wn_tcp ?N addr = Some [SrcData (render_head reply_head)]"
    "wn_prepare ?N VerifyServerName (Some [104]) = Ok ()" "wn_connect ?N VerifyServerName (Some [104]) st = Some (Ok st)" for addr st
    by (simp_all add: tls_net_def sample_tcp_def prep conn)
  have tls: "wt_tls plain_env ?N sample_dial [104] = Ok (Some (VerifyServerName, Some [104]))"
    using checks net by (simp add: wt_tls_def sample_dial_def)
  have "wt_upgrade ?N (Some (VerifyServerName, Some [104])) sample_dial [SrcData (render_head reply_head)] = Ok c"
    by (simp add: wt_upgrade_def wt_stream_def net up)
  moreover have kind: "wc_tls_server_name sample_dial = [104]" by (simp add: sample_dial_def)
  have name: "name_in_use plain_env sample_dial Map.empty = [104]"
    by (simp add: name_in_use_def kind gen holder_get_def generate_def current_name_def pick)
  ultimately show ?thesis
    by (simp add: dial_impl_def Let_def kind gen holder_get_def generate_def current_name_def pick net(1) tls)
qed

lemma no_unverified_chain_witness:
  "\<exists>p h' n. dial_impl plain_env (tls_net sample_tcp sample_tls) sample_dial Map.empty = (Ok p, h') \<and>
     te_server_name sample_tls [104] = Some n \<and> te_webpki sample_tls [1] [[2]] n [] 0 = Ok ()"
proof -
  obtain p h' where run: "dial_impl plain_env (tls_net sample_tcp sample_tls) sample_dial Map.empty = (Ok p, h')"
    "name_in_use plain_env sample_dial Map.empty = [104]"
    using sample_dial_runs by blast
  have names: "names_parsed sample_tls" by (simp add: names_parsed_def sample_tls_def)
  have tls: "wc_tls_kind sample_dial = ascii ''tls''" and pin: "wc_pinned_hash sample_dial = []" "wc_utls_verify_name sample_dial = []"
    by (simp_all add: sample_dial_def config_empty_def)
  have strip: "stripped_name [] = []" "stripped_name [104] = [104]" by (simp_all add: stripped_name_def trim_brackets_def)
  have tcp: "sample_tcp (wc_remote_address sample_dial) = Some [SrcData (render_head reply_head)]" by (simp add: sample_tcp_def)
  from no_unverified_chain [OF sample_tls_asks names run(1) tls tcp refl] run(2) pin strip
  have "\<exists>n. te_server_name sample_tls [104] = Some n \<and> te_webpki sample_tls [1] [[2]] n [] 0 = Ok ()" by auto
  with run(1) show ?thesis by blast
qed

lemma pin_fixes_chain_witness:
  "([1] :: bytes) # [[2]] = [[1], [2]] \<and> tls_connect sample_tls
     \<lparr>hk_check = CheckPins [chain_hash toy_digest [[1], [2]]], hk_sni = False, hk_name = ascii ''no-sni.invalid''\<rparr> [] = Some (Ok [])"
proof -
  let ?hk = "\<lparr>hk_check = CheckPins [chain_hash toy_digest [[1], [2]]], hk_sni = False, hk_name = ascii ''no-sni.invalid''\<rparr> :: bytes tls_handshake"
  have sha: "te_sha256 sample_tls = toy_digest" by (simp add: sample_tls_def)
  have prep: "tls_prepare sample_tls (Pins [chain_hash (te_sha256 sample_tls) [[1], [2]]]) None = Ok ?hk"
    by (simp add: tls_prepare_def sample_tls_def ascii_def)
  have conn: "tls_connect sample_tls ?hk [] = Some (Ok [])"
    by (simp add: tls_connect_def sample_tls_def checked_verifier_def pin_verifier_def pin_matched_iff)
  have dig: "digest32 (te_sha256 sample_tls)" by (simp add: digest32_def sha toy_digest_def)
  have "{0<..<2 :: nat} = {1}" by auto
  then have "hashed toy_digest [[1], [2]] = {[1], [2], toy_digest [1] @ toy_digest [2]}"
    by (simp add: hashed_def chain_hash_simps insert_commute numeral_2_eq_2)
  then have inj: "inj_on (te_sha256 sample_tls) (hashed (te_sha256 sample_tls) [[1], [2]] \<union> hashed (te_sha256 sample_tls) [[1], [2]])"
    by (simp add: sha inj_on_def toy_digest_def)
  have "\<forall>c \<in> set [[1], [2]] \<union> set [[1], [2]]. length (c :: bytes) \<noteq> 64" by simp
  from pin_fixes_chain [OF sample_tls_asks prep conn refl dig inj this] conn show ?thesis by blast
qed

end
