(* ===== verification/Relay.thy ===== *)
theory Relay
  imports Webtunnel OutProxy
begin

text \<open>
  Relaying between tor and a transport, from \<open>src/app/relay.rs\<close>.  The halves of a connection
  are states with the functions that read and write them, as the traits \<open>ReadHalf\<close> and
  \<open>WriteHalf\<close> of \<open>src/shared/ports/transport.rs\<close>; two locales say what a half promises, and
  the halves of a TCP stream and the reading half of webtunnel's tunnel keep it.
\<close>

section \<open>The loops\<close>

definition COPY_BUFFER :: nat where "COPY_BUFFER = 32 * 1024"

text \<open>\<open>copy\<close>: inside, a result may be a wait; \<open>None\<close> is a loop that never comes back.\<close>

partial_function (option) copy ::
  "(nat \<Rightarrow> 'r \<Rightarrow> bytes io \<times> 'r) \<Rightarrow> (bytes \<Rightarrow> 'w \<Rightarrow> unit io \<times> 'w) \<Rightarrow> 'r \<Rightarrow> 'w \<Rightarrow> (unit io \<times> 'r \<times> 'w) option" where
  "copy rd wr r w =
     (case rd COPY_BUFFER r of
        (Failed e, r) \<Rightarrow> Some (Failed e, r, w)
      | (Pending, r) \<Rightarrow> Some (Pending, r, w)
      | (Done bs, r) \<Rightarrow>
          if bs = [] then Some (Done (), r, w)
          else (case wr bs w of
                  (Done _, w) \<Rightarrow> copy rd wr r w
                | (Failed e, w) \<Rightarrow> Some (Failed e, r, w)
                | (Pending, w) \<Rightarrow> Some (Pending, r, w)))"

record ('r, 'w) stream_ops =
  so_read :: "nat \<Rightarrow> 'r \<Rightarrow> bytes io \<times> 'r"
  so_write :: "bytes \<Rightarrow> 'w \<Rightarrow> unit io \<times> 'w"
  so_shutdown :: "'w \<Rightarrow> 'w"

text \<open>\<open>copy_loop\<close>: \<open>join!\<close> runs both directions, which share nothing, until each has ended; while one
  still waits the loop does.  Then both writers are shut down, within a second each.\<close>

definition copy_loop :: "('ra, 'wa) stream_ops \<Rightarrow> ('rb, 'wb) stream_ops \<Rightarrow> 'ra \<times> 'wa \<Rightarrow> 'rb \<times> 'wb \<Rightarrow>
    (unit io \<times> ('ra \<times> 'wa) \<times> ('rb \<times> 'wb)) option" where
  "copy_loop A B a b =
     (case (a, b) of ((ar, aw), (br, bw)) \<Rightarrow>
        (case copy (so_read A) (so_write B) ar bw of
           None \<Rightarrow> None
         | Some (r1, ar, bw) \<Rightarrow>
             (case copy (so_read B) (so_write A) br aw of
                None \<Rightarrow> None
              | Some (r2, br, aw) \<Rightarrow>
                  if r1 = Pending \<or> r2 = Pending then Some (Pending, (ar, aw), (br, bw))
                  else Some (case r1 of Done _ \<Rightarrow> r2 | _ \<Rightarrow> r1, (ar, so_shutdown A aw), (br, so_shutdown B bw)))))"

section \<open>What halves promise\<close>

definition half_result :: "src_end \<Rightarrow> bytes io" where
  "half_result e = (case e of AtEof \<Rightarrow> Done [] | AtErr n \<Rightarrow> Failed (IoErr n) | StillOpen \<Rightarrow> Pending)"

definition copy_result :: "src_end \<Rightarrow> unit io" where
  "copy_result e = (case e of AtEof \<Rightarrow> Done () | AtErr n \<Rightarrow> Failed (IoErr n) | StillOpen \<Rightarrow> Pending)"

text \<open>A reader of a stream: reads return the next bytes of it, and its end when there are no more.\<close>

locale byte_reader =
  fixes flat :: "'r \<Rightarrow> bytes \<times> src_end"
    and rd :: "nat \<Rightarrow> 'r \<Rightarrow> bytes io \<times> 'r"
  assumes rd_some: "flat r = (bs, e) \<Longrightarrow> bs \<noteq> [] \<Longrightarrow> 0 < k \<Longrightarrow>
      \<exists>m r'. 0 < m \<and> m \<le> length bs \<and> rd k r = (Done (take m bs), r') \<and> flat r' = (drop m bs, e)"
    and rd_end: "flat r = ([], e) \<Longrightarrow> 0 < k \<Longrightarrow> fst (rd k r) = half_result e"

text \<open>A writer: what it has sent, and whether its writes always complete; one that does not may have sent a part.\<close>

locale byte_writer =
  fixes sent :: "'w \<Rightarrow> bytes"
    and steady :: "'w \<Rightarrow> bool"
    and wr :: "bytes \<Rightarrow> 'w \<Rightarrow> unit io \<times> 'w"
  assumes wr_done: "wr d w = (Done u, w') \<Longrightarrow> sent w' = sent w @ d"
    and wr_part: "wr d w = (x, w') \<Longrightarrow> \<exists>n. sent w' = sent w @ take n d"
    and wr_steady: "steady w \<Longrightarrow> wr d w = (x, w') \<Longrightarrow> x = Done () \<and> steady w'"

text \<open>A copy forwards a prefix of what arrives: all of it, with the end of the stream as its result, unless a
  write does not complete.\<close>

locale byte_relay = byte_reader flat rd + byte_writer sent steady wr
  for flat :: "'r \<Rightarrow> bytes \<times> src_end" and rd and sent :: "'w \<Rightarrow> bytes" and steady and wr
begin

lemma copy_forwards:
  assumes "flat r = (bs, e)"
  shows "\<exists>res r' w' n. copy rd wr r w = Some (res, r', w') \<and> sent w' = sent w @ take n bs \<and>
    (length bs \<le> n \<and> res = copy_result e \<or> res \<noteq> Done () \<and> \<not> steady w)"
  using assms
proof (induction "length bs" arbitrary: bs r w rule: less_induct)
  case less
  show ?case
  proof (cases "bs = []")
    case True
    with rd_end [of r e COPY_BUFFER] less.prems obtain r' where "rd COPY_BUFFER r = (half_result e, r')"
      by (cases "rd COPY_BUFFER r") (auto simp: COPY_BUFFER_def)
    then have "copy rd wr r w = Some (copy_result e, r', w)"
      by (subst copy.simps) (cases e; simp add: half_result_def copy_result_def)
    with True show ?thesis by (intro exI [of _ "copy_result e"] exI [of _ r'] exI [of _ w] exI [of _ 0]) simp
  next
    case False
    have "0 < COPY_BUFFER" by (simp add: COPY_BUFFER_def)
    with rd_some [OF less.prems False] obtain m r1 where
      m: "0 < m" "m \<le> length bs" "rd COPY_BUFFER r = (Done (take m bs), r1)" "flat r1 = (drop m bs, e)" by blast
    have ne: "take m bs \<noteq> []" using m(1) False by simp
    obtain x w1 where w1: "wr (take m bs) w = (x, w1)" by force
    show ?thesis
    proof (cases "x = Done ()")
      case True
      have "length (drop m bs) < length bs" using m(1,2) by simp
      from less.hyps [OF this m(4), of w1] obtain res r' w' n where
        IH: "copy rd wr r1 w1 = Some (res, r', w')" "sent w' = sent w1 @ take n (drop m bs)"
          "length (drop m bs) \<le> n \<and> res = copy_result e \<or> res \<noteq> Done () \<and> \<not> steady w1" by blast
      have "copy rd wr r w = Some (res, r', w')" using m(3) ne w1 True IH(1) by (subst copy.simps) simp
      moreover have "sent w' = sent w @ take (m + n) bs" using IH(2) wr_done w1 True by (simp add: take_add)
      moreover have "length bs \<le> m + n \<and> res = copy_result e \<or> res \<noteq> Done () \<and> \<not> steady w"
        using IH(3) m(2) wr_steady w1 by auto
      ultimately show ?thesis by blast
    next
      case False
      then have "copy rd wr r w = Some (x, r1, w1)" using m(3) ne w1 by (subst copy.simps) (cases x; simp)
      moreover from wr_part [OF w1] obtain k where "sent w1 = sent w @ take (min k m) bs" by (auto simp: min.commute)
      moreover have "\<not> steady w" using wr_steady w1 False by blast
      ultimately show ?thesis using False by blast
    qed
  qed
qed

end

section \<open>Halves of TCP streams and of the tunnel\<close>

text \<open>The writing half of a TCP stream: what was written, after how many writes one fails, and whether it was shut.\<close>

record tcp_writer =
  tw_out :: "bytes list"
  tw_fail :: "nat option"
  tw_shut :: bool

definition tw_write :: "bytes \<Rightarrow> tcp_writer \<Rightarrow> unit io \<times> tcp_writer" where
  "tw_write d w =
     (if tw_fail w = Some 0 then (Failed (IoErr 32), w)
      else (Done (), w\<lparr>tw_out := tw_out w @ [d], tw_fail := map_option (\<lambda>k. k - 1) (tw_fail w)\<rparr>))"

definition tw_sent :: "tcp_writer \<Rightarrow> bytes" where "tw_sent w = concat (tw_out w)"

definition tcp_ops :: "(source, tcp_writer) stream_ops" where
  "tcp_ops = \<lparr>so_read = src_read, so_write = tw_write, so_shutdown = (\<lambda>w. w\<lparr>tw_shut := True\<rparr>)\<rparr>"

definition tunnel_ops :: "(prefixed, tcp_writer) stream_ops" where
  "tunnel_ops = \<lparr>so_read = prefixed_read, so_write = tw_write, so_shutdown = (\<lambda>w. w\<lparr>tw_shut := True\<rparr>)\<rparr>"

interpretation tcp_reader: byte_reader src_flat src_read
proof unfold_locales
  show "\<exists>m r'. 0 < m \<and> m \<le> length bs \<and> src_read k r = (Done (take m bs), r') \<and> src_flat r' = (drop m bs, e)"
    if "src_flat r = (bs, e)" "bs \<noteq> []" "0 < k" for r bs e k
    using src_read_flat [OF that(3,1)] that(2) by auto
  show "fst (src_read k r) = half_result e" if "src_flat r = ([], e)" "0 < k" for r e k
    using src_read_flat [OF that(2,1)] by (auto simp: half_result_def)
qed

interpretation tunnel_reader: byte_reader px_flat prefixed_read
proof unfold_locales
  show "\<exists>m p'. 0 < m \<and> m \<le> length bs \<and> prefixed_read k p = (Done (take m bs), p') \<and> px_flat p' = (drop m bs, e)"
    if "px_flat p = (bs, e)" "bs \<noteq> []" "0 < k" for p bs e k
    using prefixed_read_flat [OF that(1,3)] that(2) by auto
  show "fst (prefixed_read k p) = half_result e" if "px_flat p = ([], e)" "0 < k" for p e k
    using prefixed_read_flat [OF that] by (auto simp: half_result_def)
qed

definition tw_steady :: "tcp_writer \<Rightarrow> bool" where "tw_steady w \<longleftrightarrow> tw_fail w = None"

interpretation tw: byte_writer tw_sent tw_steady tw_write
proof unfold_locales
  show "tw_sent w' = tw_sent w @ d" if "tw_write d w = (Done u, w')" for d w w' and u :: unit
    using that by (auto simp: tw_write_def tw_sent_def split: if_splits)
  show "\<exists>n. tw_sent w' = tw_sent w @ take n d" if "tw_write d w = (x, w')" for d w w' x
    using that by (auto simp: tw_write_def tw_sent_def split: if_splits intro: exI [of _ 0] exI [of _ "length d"])
  show "x = Done () \<and> tw_steady w'" if "tw_steady w" "tw_write d w = (x, w')" for d w w' x
    using that by (auto simp: tw_write_def tw_steady_def)
qed

interpretation up: byte_relay src_flat src_read tw_sent tw_steady tw_write ..

interpretation down: byte_relay px_flat prefixed_read tw_sent tw_steady tw_write ..

section \<open>The relay is transparent\<close>

lemma relay_forwards:
  assumes "src_flat src = (up, eu)" and "px_flat p = (down, ed)"
  shows "\<exists>res src' p' tor' bridge' n m.
    copy_loop tcp_ops tunnel_ops (src, tor) (p, bridge) = Some (res, (src', tor'), (p', bridge')) \<and>
    tw_sent bridge' = tw_sent bridge @ take n up \<and> tw_sent tor' = tw_sent tor @ take m down \<and>
    (res = Done () \<longrightarrow> length up \<le> n \<and> length down \<le> m \<and> eu = AtEof \<and> ed = AtEof) \<and>
    (res \<noteq> Pending \<longrightarrow> tw_shut tor' \<and> tw_shut bridge') \<and>
    (tw_steady tor \<and> tw_steady bridge \<longrightarrow>
       length up \<le> n \<and> length down \<le> m \<and> (res = Pending \<longleftrightarrow> eu = StillOpen \<or> ed = StillOpen))"
proof -
  from up.copy_forwards [OF assms(1), of bridge] obtain r1 src' bridge1 n where
    1: "copy src_read tw_write src bridge = Some (r1, src', bridge1)" "tw_sent bridge1 = tw_sent bridge @ take n up"
      "length up \<le> n \<and> r1 = copy_result eu \<or> r1 \<noteq> Done () \<and> \<not> tw_steady bridge" by blast
  from down.copy_forwards [OF assms(2), of tor] obtain r2 p' tor1 m where
    2: "copy prefixed_read tw_write p tor = Some (r2, p', tor1)" "tw_sent tor1 = tw_sent tor @ take m down"
      "length down \<le> m \<and> r2 = copy_result ed \<or> r2 \<noteq> Done () \<and> \<not> tw_steady tor" by blast
  let ?wait = "r1 = Pending \<or> r2 = Pending"
  let ?res = "if ?wait then Pending else case r1 of Done _ \<Rightarrow> r2 | _ \<Rightarrow> r1"
  let ?tor = "if ?wait then tor1 else tor1\<lparr>tw_shut := True\<rparr>" and ?bridge = "if ?wait then bridge1 else bridge1\<lparr>tw_shut := True\<rparr>"
  have "copy_loop tcp_ops tunnel_ops (src, tor) (p, bridge) = Some (?res, (src', ?tor), (p', ?bridge))"
    using 1(1) 2(1) by (simp add: copy_loop_def tcp_ops_def tunnel_ops_def)
  moreover have "tw_sent ?bridge = tw_sent bridge @ take n up" "tw_sent ?tor = tw_sent tor @ take m down"
    using 1(2) 2(2) by (simp_all add: tw_sent_def)
  moreover have "?res = Done () \<longrightarrow> length up \<le> n \<and> length down \<le> m \<and> eu = AtEof \<and> ed = AtEof"
    using 1(3) 2(3) by (cases r1; cases r2) (auto simp: copy_result_def split: src_end.splits)
  moreover have "?res \<noteq> Pending \<longrightarrow> tw_shut ?tor \<and> tw_shut ?bridge" by simp
  moreover have "tw_steady tor \<and> tw_steady bridge \<longrightarrow>
      length up \<le> n \<and> length down \<le> m \<and> (?res = Pending \<longleftrightarrow> eu = StillOpen \<or> ed = StillOpen)"
    using 1(3) 2(3) by (cases eu; cases ed) (auto simp: copy_result_def)
  ultimately show ?thesis by blast
qed

text \<open>The relay between tor and webtunnel's tunnel always comes back, and forwards in each direction, in order, a
  prefix of what arrives; when it reports success both streams have ended and were forwarded whole; unless it is waiting
  both ends have been shut down; and while no write fails everything that arrives is forwarded, and it waits only for a stream
  that is still open.\<close>

theorem relay_exact:
  assumes "src_flat src = (up, eu)" and "px_flat p = (down, ed)"
  shows "\<exists>res src' p' tor' bridge' n m.
    copy_loop tcp_ops tunnel_ops (src, tor) (p, bridge) = Some (res, (src', tor'), (p', bridge')) \<and>
    tw_sent bridge' = tw_sent bridge @ take n up \<and> tw_sent tor' = tw_sent tor @ take m down \<and>
    (res = Done () \<longrightarrow> length up \<le> n \<and> length down \<le> m \<and> eu = AtEof \<and> ed = AtEof) \<and>
    (res \<noteq> Pending \<longrightarrow> tw_shut tor' \<and> tw_shut bridge') \<and>
    (tw_steady tor \<and> tw_steady bridge \<longrightarrow>
       length up \<le> n \<and> length down \<le> m \<and> (res = Pending \<longleftrightarrow> eu = StillOpen \<or> ed = StillOpen))"
  by (rule relay_forwards [OF assms])

text \<open>Tor sends two pieces and closes; the bridge's first bytes came with its reply.\<close>

definition idle_writer :: tcp_writer where "idle_writer = \<lparr>tw_out = [], tw_fail = None, tw_shut = False\<rparr>"

lemma relay_exact_witness:
  "\<exists>res src' p' tor' bridge'.
    copy_loop tcp_ops tunnel_ops ([SrcData [1, 2], SrcData [3], SrcEof], idle_writer)
      (\<lparr>px_prefix = [9], px_pos = 0, px_inner = [SrcData [8], SrcEof]\<rparr>, idle_writer) = Some (res, (src', tor'), (p', bridge')) \<and>
    tw_sent bridge' = [1, 2, 3] \<and> tw_sent tor' = [9, 8] \<and> res \<noteq> Pending"
proof -
  have a: "src_flat [SrcData [1, 2], SrcData [3], SrcEof] = ([1, 2, 3], AtEof)" by simp
  have b: "px_flat \<lparr>px_prefix = [9], px_pos = 0, px_inner = [SrcData [8], SrcEof]\<rparr> = ([9, 8], AtEof)" by (simp add: px_flat_def)
  have c: "tw_steady idle_writer" "tw_sent idle_writer = []" by (simp_all add: tw_steady_def tw_sent_def idle_writer_def)
  from relay_exact [OF a b, of idle_writer idle_writer] c show ?thesis
    by (elim exE conjE) (intro exI conjI, assumption, auto)
qed

end
