(* ===== verification/App.thy ===== *)
theory App
  imports Relay Scrub
begin

text \<open>
  The application, \<open>src/app\<close>: flags (\<open>src/shared/adapters/cli.rs\<close>), the registry, the setup of clients
  and bridges with what tor is told, a connection from accept to relay, and the shutdown; and
  the logging policy of \<open>src/shared/ports/log.rs\<close>.  The network, storage and transports are arguments, as
  the ports they come through; log lines of the application itself are left out.
\<close>

section \<open>Flags\<close>

record flags =
  fl_show_version :: bool
  fl_log_level :: bytes
  fl_enable_logging :: bool
  fl_unsafe_logging :: bool
  fl_dist_bias :: bool

definition flags_default :: flags where
  "flags_default = \<lparr>fl_show_version = False, fl_log_level = ascii ''ERROR'', fl_enable_logging = False,
     fl_unsafe_logging = False, fl_dist_bias = False\<rparr>"

definition parse_bool :: "text_env \<Rightarrow> bytes \<Rightarrow> bytes \<Rightarrow> (bool, bytes) res" where
  "parse_bool te name v =
     (if v \<in> set (map ascii [''1'', ''t'', ''T'', ''true'', ''TRUE'', ''True'']) then Ok True
      else if v \<in> set (map ascii [''0'', ''f'', ''F'', ''false'', ''FALSE'', ''False'']) then Ok False
      else Err (ascii ''invalid boolean value '' @ debug te v @ ascii '' for -'' @ name @ ascii '': parse error''))"

definition set_flag :: "bytes \<Rightarrow> bool \<Rightarrow> flags \<Rightarrow> flags" where
  "set_flag name v f =
     (if name = ascii ''version'' then f\<lparr>fl_show_version := v\<rparr>
      else if name = ascii ''enableLogging'' then f\<lparr>fl_enable_logging := v\<rparr>
      else if name = ascii ''unsafeLogging'' then f\<lparr>fl_unsafe_logging := v\<rparr>
      else f\<lparr>fl_dist_bias := v\<rparr>)"

definition BOOL_FLAGS :: "bytes list" where
  "BOOL_FLAGS = map ascii [''version'', ''enableLogging'', ''unsafeLogging'', ''obfs4-distBias'']"

text \<open>The loop of \<open>parse_flags\<close>; an empty error asks for help.\<close>

fun flags_loop :: "text_env \<Rightarrow> flags \<Rightarrow> bytes list \<Rightarrow> (flags, bytes) res" where
  "flags_loop te f [] = Ok f"
| "flags_loop te f (a # as) =
     (if a = [45, 45] \<or> take 1 a \<noteq> [45] \<or> a = [45] then Ok f
      else
        let body = dropWhile (\<lambda>c. c = 45) a
        in if 2 < length a - length body \<or> body = [] \<or> take 1 body = [61] then Err (ascii ''bad flag syntax: '' @ a)
           else
             let (name, value) = (case split_once 61 body of Some (n, v) \<Rightarrow> (n, Some v) | None \<Rightarrow> (body, None))
             in if name \<in> set BOOL_FLAGS then
                  (case (case value of Some v \<Rightarrow> parse_bool te name v | None \<Rightarrow> Ok True) of
                     Ok v \<Rightarrow> flags_loop te (set_flag name v f) as
                   | Err e \<Rightarrow> Err e
                   | Panic \<Rightarrow> Panic)
                else if name = ascii ''logLevel'' then
                  (case value of
                     Some v \<Rightarrow> flags_loop te (f\<lparr>fl_log_level := v\<rparr>) as
                   | None \<Rightarrow>
                       (case as of
                          [] \<Rightarrow> Err (ascii ''flag needs an argument: -'' @ name)
                        | v # as \<Rightarrow> flags_loop te (f\<lparr>fl_log_level := v\<rparr>) as))
                else if name = ascii ''h'' \<or> name = ascii ''help'' then Err []
                else Err (ascii ''flag provided but not defined: -'' @ name))"

definition parse_flags :: "text_env \<Rightarrow> bytes list \<Rightarrow> (flags, bytes) res" where
  "parse_flags te as = flags_loop te flags_default as"

section \<open>Logging\<close>

datatype level = LevelError | LevelWarn | LevelInfo | LevelDebug

definition level_rank :: "level \<Rightarrow> nat" where
  "level_rank l = (case l of LevelError \<Rightarrow> 0 | LevelWarn \<Rightarrow> 1 | LevelInfo \<Rightarrow> 2 | LevelDebug \<Rightarrow> 3)"

text \<open>The statics: the level, whether logging is unsafe, and the sink with its records, if one is installed.\<close>

record log_state =
  lg_level :: level
  lg_unsafe :: bool
  lg_sink :: "(string option \<times> bytes) list option"

definition upper :: "u8 \<Rightarrow> u8" where "upper c = (if 97 \<le> c \<and> c \<le> 122 then c - 32 else c)"

definition set_log_level :: "bytes \<Rightarrow> log_state \<Rightarrow> (log_state, bytes) res" where
  "set_log_level s lg =
     (let u = map upper s
      in if u = ascii ''ERROR'' then Ok (lg\<lparr>lg_level := LevelError\<rparr>)
         else if u = ascii ''WARN'' then Ok (lg\<lparr>lg_level := LevelWarn\<rparr>)
         else if u = ascii ''INFO'' then Ok (lg\<lparr>lg_level := LevelInfo\<rparr>)
         else if u = ascii ''DEBUG'' then Ok (lg\<lparr>lg_level := LevelDebug\<rparr>)
         else Err (ascii ''invalid log level '' @ [39] @ s @ [39]))"

text \<open>\<open>write\<close>, and \<open>print\<close>, whose records have no tag; \<open>emit\<close> is the sink's.\<close>

definition log_emit :: "string option \<Rightarrow> bytes \<Rightarrow> log_state \<Rightarrow> log_state" where
  "log_emit tag msg lg = lg\<lparr>lg_sink := map_option (\<lambda>rs. rs @ [(tag, msg)]) (lg_sink lg)\<rparr>"

definition log_install :: "log_state \<Rightarrow> log_state" where
  "log_install lg = (if lg_sink lg = None then lg\<lparr>lg_sink := Some []\<rparr> else lg)"

definition set_unsafe_logging :: "bool \<Rightarrow> log_state \<Rightarrow> log_state" where "set_unsafe_logging on lg = lg\<lparr>lg_unsafe := on\<rparr>"

definition log_at :: "level \<Rightarrow> log_state \<Rightarrow> bool" where "log_at l lg \<longleftrightarrow> level_rank l \<le> level_rank (lg_level lg)"

definition level_tag :: "level \<Rightarrow> string" where
  "level_tag l = (case l of LevelError \<Rightarrow> ''ERROR'' | LevelWarn \<Rightarrow> ''WARN'' | LevelInfo \<Rightarrow> ''INFO'' | LevelDebug \<Rightarrow> ''DEBUG'')"

definition log_level :: "level \<Rightarrow> bytes \<Rightarrow> log_state \<Rightarrow> log_state" where
  "log_level l msg lg = (if log_at l lg then log_emit (Some (level_tag l)) msg lg else lg)"

definition log_notice :: "bytes \<Rightarrow> log_state \<Rightarrow> log_state" where "log_notice msg lg = log_emit (Some ''NOTICE'') msg lg"

definition log_scrubbed :: "log_state \<Rightarrow> bytes \<Rightarrow> bytes" where
  "log_scrubbed lg msg = (if lg_unsafe lg then msg else scrub msg)"

definition log_print :: "bytes \<Rightarrow> log_state \<Rightarrow> log_state" where
  "log_print msg lg = log_emit None (log_scrubbed lg msg) lg"

definition elide_addr :: "log_state \<Rightarrow> bytes \<Rightarrow> bytes" where
  "elide_addr lg addr =
     (if lg_unsafe lg then addr
      else case split_host_port addr of Ok (_, port) \<Rightarrow> ELIDED_ADDR @ [58] @ port | _ \<Rightarrow> ELIDED_ADDR)"

text \<open>Errors: those of input and output have a kind and may come from the operating system; the others are texts.\<close>

datatype io_kind_name = KAddrNotAvailable | KTimedOut | KNetworkUnreachable | KHostUnreachable | KConnectionRefused
  | KConnectionReset | KOther bytes

record io_failure =
  if_os :: bool
  if_kind :: io_kind_name
  if_text :: bytes

datatype any_error = IoFailure io_failure | TextError bytes

definition elide_error :: "(io_kind_name \<Rightarrow> bytes) \<Rightarrow> log_state \<Rightarrow> any_error \<Rightarrow> bytes" where
  "elide_error kind_text lg e =
     (case e of
        TextError t \<Rightarrow> t
      | IoFailure f \<Rightarrow> if \<not> lg_unsafe lg \<and> if_os f then kind_text (if_kind f) else if_text f)"

section \<open>The registry\<close>

text \<open>A transport: its name, whether it has a client side, and its server side, which for its options gives the
  arguments to publish or an error's text.\<close>

record transport =
  tr_name :: bytes
  tr_client :: bool
  tr_server :: "args \<Rightarrow> (args option, bytes) res"

definition registry_get :: "transport list \<Rightarrow> bytes \<Rightarrow> transport option" where
  "registry_get reg name = List.find (\<lambda>t. tr_name t = name) reg"

text \<open>The transports of \<open>main\<close>; snowflake and webtunnel have no server side.\<close>

definition lyrebird_transports :: "(args \<Rightarrow> (args option, bytes) res) \<Rightarrow> transport list" where
  "lyrebird_transports obfs4_server =
     [\<lparr>tr_name = ascii ''obfs4'', tr_client = True, tr_server = obfs4_server\<rparr>,
      \<lparr>tr_name = ascii ''snowflake'', tr_client = True,
       tr_server = (\<lambda>_. Err (ascii ''ServerFactory not implemented for the snowflake transport''))\<rparr>,
      \<lparr>tr_name = ascii ''webtunnel'', tr_client = True, tr_server = (\<lambda>_. Err (ascii ''unimplemented''))\<rparr>]"

section \<open>Setup\<close>

text \<open>The network's listeners: the address bound, or an error's text; the state is the network's.\<close>

type_synonym 's listen = "socket_addr \<Rightarrow> 's \<Rightarrow> (socket_addr, bytes) res \<times> 's"

type_synonym listener = "bytes \<times> socket_addr"

text \<open>A line whose result is dropped; a panic stays one.\<close>

definition report :: "unit ctl \<Rightarrow> 'b \<Rightarrow> 'b ctl" where
  "report c b = (case c of (Panic, ls) \<Rightarrow> (Panic, ls) | (_, ls) \<Rightarrow> (Ok b, ls))"

definition SOCKS_ADDR :: socket_addr where "SOCKS_ADDR = (IpV4 [127, 0, 0, 1], 0)"
definition SOCKS_VERSION :: bytes where "SOCKS_VERSION = ascii ''socks5''"

text \<open>One method: a listener and its line, or an error line.\<close>

definition client_method :: "'s listen \<Rightarrow> transport list \<Rightarrow> bytes \<Rightarrow> 's \<Rightarrow> listener list ctl \<times> 's" where
  "client_method listen reg name s =
     (case registry_get reg name of
        None \<Rightarrow> (report (cmethod_error name (ascii ''no such transport is supported'')) [], s)
      | Some t \<Rightarrow>
          if \<not> tr_client t then (report (cmethod_error name (ascii ''failed to get ClientFactory'')) [], s)
          else (case listen SOCKS_ADDR s of
                  (Err e, s) \<Rightarrow> (report (cmethod_error name e) [], s)
                | (Panic, s) \<Rightarrow> ((Panic, []), s)
                | (Ok addr, s) \<Rightarrow> (report (cmethod name SOCKS_VERSION addr) [(name, addr)], s)))"

text \<open>\<open>0.0.0.0\<close> is all addresses.\<close>

definition any_address :: "socket_addr \<Rightarrow> socket_addr" where
  "any_address a = (if fst a = IpV4 [0, 0, 0, 0] then (IpV6 (replicate 16 0), snd a) else a)"

definition server_method :: "'s listen \<Rightarrow> transport list \<Rightarrow> bindaddr \<Rightarrow> 's \<Rightarrow> listener list ctl \<times> 's" where
  "server_method listen reg b s =
     (case registry_get reg (ba_method b) of
        None \<Rightarrow> (report (smethod_error (ba_method b) (ascii ''no such transport is supported'')) [], s)
      | Some t \<Rightarrow>
          (case tr_server t (ba_options b) of
             Err e \<Rightarrow> (report (smethod_error (ba_method b) e) [], s)
           | Panic \<Rightarrow> ((Panic, []), s)
           | Ok published \<Rightarrow>
               (case listen (any_address (ba_addr b)) s of
                  (Err e, s) \<Rightarrow> (report (smethod_error (ba_method b) e) [], s)
                | (Panic, s) \<Rightarrow> ((Panic, []), s)
                | (Ok addr, s) \<Rightarrow> (report (smethod_args (ba_method b) addr published) [(ba_method b, addr)], s))))"

fun each_method :: "('i \<Rightarrow> 's \<Rightarrow> listener list ctl \<times> 's) \<Rightarrow> 'i list \<Rightarrow> 's \<Rightarrow> listener list ctl \<times> 's" where
  "each_method f [] s = (ctl_ok [], s)"
| "each_method f (i # is) s =
     (case f i s of
        ((Ok l, ls), s) \<Rightarrow> (case each_method f is s of (c, s) \<Rightarrow> (ctl_bind (Ok l, ls) (\<lambda>l. ctl_bind c (\<lambda>ls. ctl_ok (l @ ls))), s))
      | ((Err e, ls), s) \<Rightarrow> ((Err e, ls), s)
      | ((Panic, ls), s) \<Rightarrow> ((Panic, ls), s))"

definition dialer_setup :: "text_env \<Rightarrow> (bytes \<Rightarrow> bytes) \<Rightarrow> env \<Rightarrow> proxy_config option ctl" where
  "dialer_setup te pct env =
     ctl_bind (proxy_from_env te pct env) (\<lambda>p.
       case p of None \<Rightarrow> ctl_ok None | Some config \<Rightarrow> ctl_bind proxy_done (\<lambda>_. ctl_ok (Some config)))"

text \<open>What comes before the methods, then the methods, then the line that ends them.\<close>

definition then_methods :: "'a ctl \<Rightarrow> ('a \<Rightarrow> 's \<Rightarrow> listener list ctl \<times> 's) \<Rightarrow> unit ctl \<Rightarrow> 's \<Rightarrow> ('a \<times> listener list) ctl \<times> 's" where
  "then_methods pre methods fin s =
     (case pre of
        (Ok a, ls) \<Rightarrow>
          (case methods a s of
             (c, s) \<Rightarrow> (ctl_bind (Ok a, ls) (\<lambda>a. ctl_bind c (\<lambda>l. ctl_bind fin (\<lambda>_. ctl_ok (a, l)))), s))
      | (Err e, ls) \<Rightarrow> ((Err e, ls), s)
      | (Panic, ls) \<Rightarrow> ((Panic, ls), s))"

definition app_client :: "text_env \<Rightarrow> (bytes \<Rightarrow> bytes) \<Rightarrow> env \<Rightarrow> bytes \<Rightarrow> 's listen \<Rightarrow> transport list \<Rightarrow> 's \<Rightarrow>
    ((bytes list \<times> proxy_config option) \<times> listener list) ctl \<times> 's" where
  "app_client te pct env version listen reg =
     then_methods
       (ctl_bind (client_setup env) (\<lambda>names.
        ctl_bind (report_version (ascii ''lyrebird-rs'') version) (\<lambda>_.
        ctl_bind (dialer_setup te pct env) (\<lambda>p. ctl_ok (names, p)))))
       (\<lambda>(names, _). each_method (client_method listen reg) names) cmethods_done"

definition app_server :: "text_env \<Rightarrow> env \<Rightarrow> bytes \<Rightarrow> 's listen \<Rightarrow> transport list \<Rightarrow> 's \<Rightarrow> (server_info \<times> listener list) ctl \<times> 's" where
  "app_server te env version listen reg =
     then_methods
       (ctl_bind (server_setup te env) (\<lambda>info. ctl_bind (report_version (ascii ''lyrebird-rs'') version) (\<lambda>_. ctl_ok info)))
       (\<lambda>info. each_method (server_method listen reg) (si_bindaddrs info)) smethods_done"

section \<open>A connection from tor\<close>

definition error_to_reply_code :: "io_failure \<Rightarrow> reply_code" where
  "error_to_reply_code f =
     (if \<not> if_os f then GeneralFailure
      else case if_kind f of
        KAddrNotAvailable \<Rightarrow> AddressNotSupported
      | KTimedOut \<Rightarrow> TtlExpired
      | KNetworkUnreachable \<Rightarrow> NetworkUnreachable
      | KHostUnreachable \<Rightarrow> HostUnreachable
      | KConnectionRefused \<Rightarrow> ConnectionRefused
      | KConnectionReset \<Rightarrow> ConnectionRefused
      | KOther _ \<Rightarrow> GeneralFailure)"

text \<open>The client side of a transport; \<open>DialError\<close> is \<open>any_error\<close>, and a dial may still be waiting.\<close>

record ('p, 'r, 'w) client_factory =
  cf_parse :: "args \<Rightarrow> ('p, bytes) res"
  cf_dial :: "bytes \<Rightarrow> 'p \<Rightarrow> ('r \<times> 'w, any_error) res option"

definition failure_code :: "any_error \<Rightarrow> reply_code" where
  "failure_code e = (case e of IoFailure f \<Rightarrow> error_to_reply_code f | TextError _ \<Rightarrow> GeneralFailure)"

text \<open>How a connection ended, with the halves of both ends if it came to the relay.\<close>

datatype ('r, 'w) served = Refused tcp_writer | Dialing tcp_writer | Crashed | Endless
  | Relayed "unit io" "source \<times> tcp_writer" "'r \<times> 'w"

text \<open>\<open>handle\<close>: the handshake's writes count against those that succeed; a reply's failure only matters when it
  says that the dial succeeded.\<close>

definition client_handle :: "('r, 'w) stream_ops \<Rightarrow> ('p, 'r, 'w) client_factory \<Rightarrow> source \<Rightarrow> nat option \<Rightarrow> ('r, 'w) served" where
  "client_handle B f src wfail =
     (case handshake src wfail of
        (r, out) \<Rightarrow>
          let tor = \<lparr>tw_out = out, tw_fail = map_option (\<lambda>k. k - length out) wfail, tw_shut = False\<rparr>
          in case r of
               Err _ \<Rightarrow> Refused tor
             | Panic \<Rightarrow> Crashed
             | Ok (a, target, src) \<Rightarrow>
                 (case cf_parse f a of
                    Err _ \<Rightarrow> Refused (snd (tw_write (reply_bytes GeneralFailure) tor))
                  | Panic \<Rightarrow> Crashed
                  | Ok args \<Rightarrow>
                      (case cf_dial f target args of
                         None \<Rightarrow> Dialing tor
                       | Some Panic \<Rightarrow> Crashed
                       | Some (Err e) \<Rightarrow> Refused (snd (tw_write (reply_bytes (failure_code e)) tor))
                       | Some (Ok remote) \<Rightarrow>
                           (case tw_write (reply_bytes Succeeded) tor of
                              (Done _, tor) \<Rightarrow>
                                (case copy_loop tcp_ops B (src, tor) remote of
                                   None \<Rightarrow> Endless | Some (res, t, b) \<Rightarrow> Relayed res t b)
                            | (_, tor) \<Rightarrow> Refused tor))))"

text \<open>The bridge's side: \<open>wrap\<close> is the transport's handshake; \<open>connect\<close> reaches the ORPort, whose connection is
  its halves.\<close>

datatype ('r, 'w) bridged = HandshakeFailed | HandshakeWaits | NoOrConnection or_error | BridgeCrashed | BridgeEndless
  | Bridged "unit io" "source \<times> tcp_writer" "'r \<times> 'w"

definition tcp_halves :: "tcp \<Rightarrow> source \<times> tcp_writer" where
  "tcp_halves s = (tc_src s, \<lparr>tw_out = tc_out s, tw_fail = tc_wfail s, tw_shut = False\<rparr>)"

definition server_handle :: "('r, 'w) stream_ops \<Rightarrow> ('r \<times> 'w) option option \<Rightarrow> (tcp, or_error) res \<Rightarrow> ('r, 'w) bridged" where
  "server_handle B wrap connect =
     (case wrap of
        None \<Rightarrow> HandshakeWaits
      | Some None \<Rightarrow> HandshakeFailed
      | Some (Some remote) \<Rightarrow>
          (case connect of
             Err e \<Rightarrow> NoOrConnection e
           | Panic \<Rightarrow> BridgeCrashed
           | Ok s \<Rightarrow>
               (case copy_loop tcp_ops B (tcp_halves s) remote of None \<Rightarrow> BridgeEndless | Some (res, t, b) \<Rightarrow> Bridged res t b)))"

section \<open>Shutdown\<close>

text \<open>The monitor: how many handlers hold a guard, how many connections are accepted but their task has not run
  yet, and what \<open>run\<close> is doing.  After the first signal the listeners are aborted, but an accept under way may still come
  through.\<close>

datatype phase = Serving | Draining | Exited

record monitor =
  mo_phase :: phase
  mo_handlers :: nat
  mo_spawned :: nat

definition monitor_start :: monitor where "monitor_start = \<lparr>mo_phase = Serving, mo_handlers = 0, mo_spawned = 0\<rparr>"

datatype signal = SigInt | SigTerm

text \<open>A signal of \<open>None\<close> is the closed channel.\<close>

datatype monitor_event = EvAccept | EvBegin | EvEnd | EvSignal "signal option" | EvDrained

definition on_signal :: "signal option \<Rightarrow> monitor \<Rightarrow> monitor" where
  "on_signal s m = m\<lparr>mo_phase := if mo_phase m = Serving \<and> s = Some SigInt then Draining else Exited\<rparr>"

inductive monitor_step :: "monitor \<Rightarrow> monitor_event \<Rightarrow> monitor \<Rightarrow> bool" where
  accept: "mo_phase m \<noteq> Exited \<Longrightarrow> monitor_step m EvAccept (m\<lparr>mo_spawned := mo_spawned m + 1\<rparr>)"
| begin_handler: "mo_phase m \<noteq> Exited \<Longrightarrow> 0 < mo_spawned m \<Longrightarrow>
    monitor_step m EvBegin (m\<lparr>mo_spawned := mo_spawned m - 1, mo_handlers := mo_handlers m + 1\<rparr>)"
| end_handler: "mo_phase m \<noteq> Exited \<Longrightarrow> 0 < mo_handlers m \<Longrightarrow> monitor_step m EvEnd (m\<lparr>mo_handlers := mo_handlers m - 1\<rparr>)"
| signal: "mo_phase m \<noteq> Exited \<Longrightarrow> monitor_step m (EvSignal s) (on_signal s m)"
| drained: "mo_phase m = Draining \<Longrightarrow> mo_handlers m = 0 \<Longrightarrow> monitor_step m EvDrained (m\<lparr>mo_phase := Exited\<rparr>)"

inductive monitor_run :: "monitor \<Rightarrow> monitor_event list \<Rightarrow> monitor \<Rightarrow> bool" where
  stop: "monitor_run m [] m"
| go: "monitor_run m evs m' \<Longrightarrow> monitor_step m' ev m'' \<Longrightarrow> monitor_run m (evs @ [ev]) m''"

section \<open>From start to end\<close>

text \<open>\<open>run\<close> up to the point where it serves: an exit code, the listeners, or a fatal error's text, and the lines written.\<close>

datatype 'l started = ExitWith nat | Listening 'l

definition LOG_FILE :: bytes where "LOG_FILE = ascii ''lyrebird.log''"

definition fatal_text :: "bytes \<Rightarrow> bytes \<Rightarrow> bytes" where
  "fatal_text exec msg = ascii ''[ERROR]: '' @ exec @ ascii '' - '' @ msg"

definition app_run :: "bytes \<Rightarrow> bool \<Rightarrow> env \<Rightarrow> (bytes \<Rightarrow> bytes option) \<Rightarrow> (bytes \<Rightarrow> bytes \<Rightarrow> bool) \<Rightarrow>
    (bytes \<Rightarrow> bool \<Rightarrow> listener list ctl) \<Rightarrow> listener list started ctl" where
  "app_run exec logging env create open_log setup =
     (case is_client env of
        (Err _, ls) \<Rightarrow> (Err (fatal_text exec (ascii ''must be run as a managed transport'')), ls)
      | (Panic, ls) \<Rightarrow> (Panic, ls)
      | (Ok client, ls) \<Rightarrow>
          ctl_bind (Ok (), ls) (\<lambda>_.
            case make_state_dir env create of
              (Err e, ls) \<Rightarrow> (Err (fatal_text exec (ascii ''No state directory: '' @ e)), ls)
            | (Panic, ls) \<Rightarrow> (Panic, ls)
            | (Ok dir, ls) \<Rightarrow>
                ctl_bind (Ok (), ls) (\<lambda>_.
                  if logging \<and> \<not> open_log dir LOG_FILE then (Err (fatal_text exec (ascii ''failed to initialize logging'')), [])
                  else ctl_bind (setup dir client) (\<lambda>listeners.
                    ctl_ok (if listeners = [] then ExitWith 255 else Listening listeners)))))"

text \<open>\<open>main\<close> before it runs the application: the exit code, or the settings to run with.\<close>

definition main_start :: "text_env \<Rightarrow> bytes list \<Rightarrow> log_state \<Rightarrow> nat + flags \<times> log_state" where
  "main_start te as lg =
     (case parse_flags te as of
        Err e \<Rightarrow> Inl (if e = [] then 0 else 2)
      | Panic \<Rightarrow> Inl 101
      | Ok f \<Rightarrow>
          if fl_show_version f then Inl 0
          else case set_log_level (fl_log_level f) lg of
            Ok lg \<Rightarrow> Inr (f, lg)
          | Err _ \<Rightarrow> Inl 1
          | Panic \<Rightarrow> Inl 101)"

section \<open>Every method is answered\<close>

datatype outcome = MethodUp socket_addr | MethodDown bytes

definition client_line :: "bytes \<Rightarrow> outcome \<Rightarrow> bytes" where
  "client_line name o' =
     (case o' of MethodUp a \<Rightarrow> ascii ''CMETHOD '' @ name @ ascii '' socks5 '' @ show_socket_addr a
      | MethodDown why \<Rightarrow> ascii ''CMETHOD-ERROR '' @ name @ [32] @ why)"

definition server_line :: "args option \<Rightarrow> bytes \<Rightarrow> outcome \<Rightarrow> bytes" where
  "server_line published name o' =
     (case o' of MethodUp a \<Rightarrow> ascii ''SMETHOD '' @ name @ [32] @ show_socket_addr a @ ascii '' ARGS:'' @ encode_smethod_args published
      | MethodDown why \<Rightarrow> ascii ''SMETHOD-ERROR '' @ name @ [32] @ why)"

definition listeners_of :: "bytes \<Rightarrow> outcome \<Rightarrow> listener list" where
  "listeners_of name o' = (case o' of MethodUp a \<Rightarrow> [(name, a)] | MethodDown _ \<Rightarrow> [])"

lemma report_ok: "report c b = (Ok b', ls) \<longleftrightarrow> b' = b \<and> fst c \<noteq> Panic \<and> ls = snd c"
  by (cases c; cases "fst c") (auto simp: report_def)

lemma line_lines:
  "fst (tor_error k as :: unit ctl) \<noteq> Panic \<Longrightarrow> snd (tor_error k as :: unit ctl) = [ascii k @ concat (map (\<lambda>a. 32 # a) as)]"
  "fst (tor_line k as) \<noteq> Panic \<Longrightarrow> snd (tor_line k as) = [ascii k @ concat (map (\<lambda>a. 32 # a) as)]"
  by (auto simp: tor_error_def tor_line_def format_line_def split: if_splits)

lemmas method_lines = cmethod_error_def smethod_error_def cmethod_def smethod_args_def

lemma client_method_outcome:
  assumes "client_method listen reg name s = ((Ok l, ls), s')"
  shows "\<exists>o'. (\<forall>a. o' = MethodUp a \<longrightarrow> (\<exists>t. registry_get reg name = Some t \<and> tr_client t) \<and> fst (listen SOCKS_ADDR s) = Ok a) \<and>
    l = listeners_of name o' \<and> ls = [client_line name o']"
proof (cases "\<exists>t a. registry_get reg name = Some t \<and> tr_client t \<and> fst (listen SOCKS_ADDR s) = Ok a")
  case True
  then obtain t a s1 where "registry_get reg name = Some t" "tr_client t" "listen SOCKS_ADDR s = (Ok a, s1)"
    by (cases "listen SOCKS_ADDR s") auto
  with assms show ?thesis
    by (intro exI [of _ "MethodUp a"])
      (auto simp: client_method_def report_ok method_lines line_lines listeners_of_def client_line_def SOCKS_VERSION_def ascii_def)
next
  case False
  then obtain why where "l = []" "ls = [client_line name (MethodDown why)]"
    using assms by (auto simp: client_method_def report_ok method_lines line_lines client_line_def ascii_def
      split: option.splits if_splits prod.splits res.splits)
  then show ?thesis by (intro exI [of _ "MethodDown why"]) (simp add: listeners_of_def)
qed

lemma each_method_outcomes:
  assumes "\<And>i s l ls s'. f i s = ((Ok l, ls), s') \<Longrightarrow> \<exists>o'. P i o' \<and> l = listeners_of (nm i) o' \<and> ls = [line i o']"
  shows "each_method f is s = ((Ok l, ls), s') \<Longrightarrow>
    \<exists>os. list_all2 P is os \<and> l = concat (map2 (\<lambda>i. listeners_of (nm i)) is os) \<and> ls = map2 line is os"
proof (induction "is" arbitrary: s l ls s')
  case (Cons i "is")
  obtain c s1 where c: "f i s = (c, s1)" by (cases "f i s")
  obtain l1 ls1 l2 ls2 where 1: "c = (Ok l1, ls1)" "each_method f is s1 = ((Ok l2, ls2), s')" "l = l1 @ l2" "ls = ls1 @ ls2"
    using Cons.prems c by (auto simp: ctl_bind_ok split: prod.splits res.splits)
  from assms [of i s l1 ls1 s1] c 1(1) obtain o' where "P i o'" "l1 = listeners_of (nm i) o'" "ls1 = [line i o']" by auto
  moreover from Cons.IH [OF 1(2)] obtain os where
    "list_all2 P is os" "l2 = concat (map2 (\<lambda>i. listeners_of (nm i)) is os)" "ls2 = map2 line is os" by blast
  ultimately show ?case using 1(3,4) by (intro exI [of _ "o' # os"]) simp
qed simp

lemma then_methods_ok:
  "then_methods pre methods fin s = ((Ok (a, l), ls), s') \<longleftrightarrow>
     (\<exists>l1 l2 l3. pre = (Ok a, l1) \<and> methods a s = ((Ok l, l2), s') \<and> fin = (Ok (), l3) \<and> ls = l1 @ l2 @ l3)"
  by (auto simp: then_methods_def ctl_bind_ok split: prod.splits res.splits)

definition status_line :: "bytes \<Rightarrow> bytes" where
  "status_line version = ascii ''STATUS TYPE=version IMPLEMENTATION=\"lyrebird-rs\" VERSION='' @ encode_cstring version"

lemma report_version_line: "report_version (ascii ''lyrebird-rs'') version = (Ok (), [status_line version])"
proof -
  have name: "encode_cstring (ascii ''lyrebird-rs'') = [34] @ ascii ''lyrebird-rs'' @ [34]"
    by (simp add: encode_cstring_def cstring_char_def ascii_def)
  have "arg_is_safe (ascii ''VERSION='' @ encode_cstring version)"
    unfolding arg_is_safe_append by (simp add: encode_cstring_safe) (simp add: arg_is_safe_def ascii_def)
  moreover have "arg_is_safe (ascii ''TYPE=version'')" "arg_is_safe (ascii ''IMPLEMENTATION='' @ encode_cstring (ascii ''lyrebird-rs''))"
    unfolding name by (simp_all add: arg_is_safe_def ascii_def)
  moreover have "keyword_is_safe (ascii ''STATUS'')" by (simp add: keyword_is_safe_def ascii_def is_alpha_def)
  ultimately show ?thesis
    by (simp add: report_version_def tor_line_def format_line_def status_line_def) (use name in \<open>simp add: ascii_def\<close>)
qed

lemma reports_quiet: "reports {[]} c \<Longrightarrow> c = (Ok a, ls) \<Longrightarrow> ls = []"
  by (auto simp: reports_def)

text \<open>Setups that were accepted have written the version line alone.\<close>

lemma client_setup_ok: "client_setup env = (Ok names, ls) \<Longrightarrow> ls = [VERSION_LINE] \<and> names = split_on 44 (env (ascii ''TOR_PT_CLIENT_TRANSPORTS''))"
  by (auto simp: client_setup_def ctl_bind_ok getenv_ok version_line dest!: version_ok)

lemma server_setup_ok: "server_setup te env = (Ok info, ls) \<Longrightarrow> ls = [VERSION_LINE]"
  by (auto simp: server_setup_def ctl_bind_ok version_line dest!: version_ok
      dest: reports_quiet [OF reports_rest(1)] reports_quiet [OF reports_rest(2)] reports_quiet [OF reports_rest(3)] split: if_splits)

lemma proxy_quiet: "proxy_from_env te pct env = (Ok p, ls) \<Longrightarrow> ls = []"
proof (rule reports_quiet)
  have "reports {[]} (socks5_auth u q)" for u q by (simp add: socks5_auth_def split: option.split)
  then have "reports {[]} (proxy_of_spec sp)" for sp by (simp add: proxy_of_spec_def reports_bind)
  then show "reports {[]} (proxy_from_env te pct env)"
    by (auto simp: proxy_from_env_def Let_def split: res.split intro!: reports_bind)
qed

lemma fixed_lines:
  "cmethods_done = (Ok (), [ascii ''CMETHODS DONE''])" "smethods_done = (Ok (), [ascii ''SMETHODS DONE''])"
  "proxy_done = (Ok (), [ascii ''PROXY DONE''])"
  by (simp_all add: cmethods_done_def smethods_done_def proxy_done_def tor_line_def format_line_def keyword_is_safe_def arg_is_safe_def
      ascii_def is_alpha_def)

lemma dialer_setup_ok:
  "dialer_setup te pct env = (Ok p, ls) \<Longrightarrow> ls = (if p = None then [] else [ascii ''PROXY DONE''])"
  by (auto simp: dialer_setup_def ctl_bind_ok fixed_lines split: option.splits dest!: proxy_quiet)

definition client_side :: "transport list \<Rightarrow> bytes \<Rightarrow> outcome \<Rightarrow> bool" where
  "client_side reg name o' \<longleftrightarrow> (\<forall>a. o' = MethodUp a \<longrightarrow> (\<exists>t. registry_get reg name = Some t \<and> tr_client t))"

text \<open>C40: A client that is set up has told tor its version, the proxy if there is one, and then of every requested method
  in order exactly one line, of its listener or of its failure, and the line that ends the list; the listeners that run are
  those announced, each of a registered transport.\<close>

theorem client_methods_answered:
  assumes "app_client te pct env version listen reg s = ((Ok ((names, proxy), ls), out), s')"
  shows "\<exists>os. names = split_on 44 (env (ascii ''TOR_PT_CLIENT_TRANSPORTS'')) \<and> list_all2 (client_side reg) names os \<and>
    out = [VERSION_LINE, status_line version] @ (if proxy = None then [] else [ascii ''PROXY DONE'']) @
      map2 client_line names os @ [ascii ''CMETHODS DONE''] \<and>
    ls = concat (map2 listeners_of names os)"
proof -
  from assms obtain l1 l2 where
    pre: "ctl_bind (client_setup env) (\<lambda>names. ctl_bind (report_version (ascii ''lyrebird-rs'') version) (\<lambda>_.
        ctl_bind (dialer_setup te pct env) (\<lambda>p. ctl_ok (names, p)))) = (Ok (names, proxy), l1)"
    and each: "each_method (client_method listen reg) names s = ((Ok ls, l2), s')"
    and out: "out = l1 @ l2 @ [ascii ''CMETHODS DONE'']"
    by (auto simp: app_client_def then_methods_ok fixed_lines)
  have l1: "l1 = [VERSION_LINE, status_line version] @ (if proxy = None then [] else [ascii ''PROXY DONE''])"
    and names: "names = split_on 44 (env (ascii ''TOR_PT_CLIENT_TRANSPORTS''))"
    using pre by (auto simp: ctl_bind_ok report_version_line simp del: ctl_bind.simps dest!: client_setup_ok dialer_setup_ok)
  have one: "\<exists>o'. client_side reg name o' \<and> l = listeners_of name o' \<and> ls = [client_line name o']"
    if "client_method listen reg name s = ((Ok l, ls), s')" for name s l ls s'
    using client_method_outcome [OF that] unfolding client_side_def by blast
  have "\<exists>os. list_all2 (client_side reg) names os \<and> ls = concat (map2 listeners_of names os) \<and> l2 = map2 client_line names os"
    by (rule each_method_outcomes [where nm = "\<lambda>i. i", OF _ each]) (erule one)
  with out l1 names show ?thesis by auto
qed

text \<open>A bridge's listener is where tor said, or at all addresses for \<open>0.0.0.0\<close>, with the options of its method.\<close>

definition published :: "transport list \<Rightarrow> bindaddr \<Rightarrow> args option" where
  "published reg b =
     (case registry_get reg (ba_method b) of
        Some t \<Rightarrow> (case tr_server t (ba_options b) of Ok p \<Rightarrow> p | _ \<Rightarrow> None) | None \<Rightarrow> None)"

definition server_side :: "transport list \<Rightarrow> bindaddr \<Rightarrow> outcome \<Rightarrow> bool" where
  "server_side reg b o' \<longleftrightarrow>
     (\<forall>a. o' = MethodUp a \<longrightarrow> (\<exists>t. registry_get reg (ba_method b) = Some t \<and> tr_server t (ba_options b) = Ok (published reg b)))"

lemma server_method_outcome:
  assumes "server_method listen reg b s = ((Ok l, ls), s')"
  shows "\<exists>o'. server_side reg b o' \<and> l = listeners_of (ba_method b) o' \<and> ls = [server_line (published reg b) (ba_method b) o']"
proof (cases "\<exists>t p a. registry_get reg (ba_method b) = Some t \<and> tr_server t (ba_options b) = Ok p \<and> fst (listen (any_address (ba_addr b)) s) = Ok a")
  case True
  then obtain t p a s1 where *: "registry_get reg (ba_method b) = Some t" "tr_server t (ba_options b) = Ok p"
    "listen (any_address (ba_addr b)) s = (Ok a, s1)" by (cases "listen (any_address (ba_addr b)) s") auto
  then have "published reg b = p" by (simp add: published_def)
  with * assms show ?thesis
    by (intro exI [of _ "MethodUp a"])
      (auto simp: server_method_def server_side_def report_ok method_lines line_lines listeners_of_def server_line_def ascii_def)
next
  case False
  then obtain why where "l = []" "ls = [server_line (published reg b) (ba_method b) (MethodDown why)]"
    using assms by (auto simp: server_method_def report_ok method_lines line_lines server_line_def ascii_def
      split: option.splits if_splits prod.splits res.splits)
  then show ?thesis by (intro exI [of _ "MethodDown why"]) (simp add: listeners_of_def server_side_def)
qed

text \<open>A bridge that is set up has told tor its version and then of every method to run in order exactly one line, of its
  listener with the arguments to publish or of its failure, and the line that ends the list; the listeners that
  run are those announced.\<close>

theorem server_methods_answered:
  assumes "app_server te env version listen reg s = ((Ok (info, ls), out), s')"
  shows "\<exists>os. list_all2 (server_side reg) (si_bindaddrs info) os \<and>
    out = [VERSION_LINE, status_line version] @
      map2 (\<lambda>b. server_line (published reg b) (ba_method b)) (si_bindaddrs info) os @ [ascii ''SMETHODS DONE''] \<and>
    ls = concat (map2 (\<lambda>b. listeners_of (ba_method b)) (si_bindaddrs info) os)"
proof -
  from assms obtain l1 l2 where
    pre: "ctl_bind (server_setup te env) (\<lambda>info. ctl_bind (report_version (ascii ''lyrebird-rs'') version) (\<lambda>_. ctl_ok info)) = (Ok info, l1)"
    and each: "each_method (server_method listen reg) (si_bindaddrs info) s = ((Ok ls, l2), s')"
    and out: "out = l1 @ l2 @ [ascii ''SMETHODS DONE'']"
    by (auto simp: app_server_def then_methods_ok fixed_lines)
  have "l1 = [VERSION_LINE, status_line version]"
    using pre by (auto simp: ctl_bind_ok report_version_line simp del: ctl_bind.simps dest!: server_setup_ok)
  moreover have "\<exists>os. list_all2 (server_side reg) (si_bindaddrs info) os \<and>
      ls = concat (map2 (\<lambda>b. listeners_of (ba_method b)) (si_bindaddrs info) os) \<and>
      l2 = map2 (\<lambda>b. server_line (published reg b) (ba_method b)) (si_bindaddrs info) os"
    by (rule each_method_outcomes [OF _ each]) (rule server_method_outcome)
  ultimately show ?thesis using out by auto
qed

section \<open>A connection from end to end\<close>

text \<open>C7: When a connection from tor comes to the relay, tor asked for it in the SOCKS protocol, the transport was dialed with the
  target and the arguments tor sent, tor was told so by exactly one reply, and the bytes after the request go to the
  tunnel and those of the tunnel to tor, in order and from the first on; on success all of them.\<close>

theorem connection_served:
  assumes "client_handle tunnel_ops f src wfail = Relayed res (src', tor') (p', bridge')" and "src_flat src = (all, eu)"
  shows "\<exists>greeting auth req rest a target replies args p bridge down ed n m.
    all = greeting @ auth @ req @ rest \<and> socks_dialogue greeting auth req a target replies \<and>
    cf_parse f a = Ok args \<and> cf_dial f target args = Some (Ok (p, bridge)) \<and> px_flat p = (down, ed) \<and>
    tw_sent tor' = concat replies @ reply_bytes Succeeded @ take m down \<and> tw_sent bridge' = tw_sent bridge @ take n rest \<and>
    (res = Done () \<longrightarrow> length rest \<le> n \<and> length down \<le> m) \<and> (res \<noteq> Pending \<longrightarrow> tw_shut tor' \<and> tw_shut bridge')"
proof -
  obtain r replies where h: "handshake src wfail = (r, replies)" by force
  let ?tor = "\<lparr>tw_out = replies, tw_fail = map_option (\<lambda>k. k - length replies) wfail, tw_shut = False\<rparr>"
  from assms(1) h obtain a target src1 where r: "r = Ok (a, target, src1)" by (auto simp: client_handle_def Let_def split: res.splits)
  from assms(1) h r obtain args where args: "cf_parse f a = Ok args" by (auto simp: client_handle_def Let_def split: res.splits)
  from assms(1) h r args obtain p bridge where dial: "cf_dial f target args = Some (Ok (p, bridge))"
    by (auto simp: client_handle_def Let_def split: option.splits res.splits)
  note step = assms(1) [unfolded client_handle_def h r args dial prod.case Let_def res.case option.case]
  obtain x tor1 where x: "tw_write (reply_bytes Succeeded) ?tor = (x, tor1)" by force
  with step have "x = Done ()" by (cases x) simp_all
  with x have w: "tw_write (reply_bytes Succeeded) ?tor = (Done (), tor1)" by simp
  with step have loop: "copy_loop tcp_ops tunnel_ops (src1, tor1) (p, bridge) = Some (res, (src', tor'), (p', bridge'))"
    by (auto split: option.splits prod.splits)
  obtain down ed where down: "px_flat p = (down, ed)" by force
  from handshake_sound_flat [OF h [unfolded r] assms(2)] obtain greeting auth req rest where
    d: "all = greeting @ auth @ req @ rest" "socks_dialogue greeting auth req a target replies" "src_flat src1 = (rest, eu)" by blast
  from relay_forwards [OF d(3) down, of tor1 bridge] obtain res2 src2 p2 tor2 bridge2 n m where
    q: "copy_loop tcp_ops tunnel_ops (src1, tor1) (p, bridge) = Some (res2, (src2, tor2), (p2, bridge2))"
      "tw_sent bridge2 = tw_sent bridge @ take n rest" "tw_sent tor2 = tw_sent tor1 @ take m down"
      "res2 = Done () \<longrightarrow> length rest \<le> n \<and> length down \<le> m \<and> eu = AtEof \<and> ed = AtEof"
      "res2 \<noteq> Pending \<longrightarrow> tw_shut tor2 \<and> tw_shut bridge2" by blast
  from q(1) loop have "res2 = res" "tor2 = tor'" "bridge2 = bridge'" by simp_all
  note q = q(2-5) [unfolded this]
  have "tw_sent tor1 = concat replies @ reply_bytes Succeeded" using tw.wr_done [OF w] by (simp add: tw_sent_def)
  with q(2) have told: "tw_sent tor' = concat replies @ reply_bytes Succeeded @ take m down" by simp
  have whole: "res = Done () \<longrightarrow> length rest \<le> n \<and> length down \<le> m" using q(3) by blast
  show ?thesis by (intro exI conjI) (rule d(1) d(2) args dial down told q(1) whole q(4))+
qed

section \<open>Shutdown waits for the handlers\<close>

definition signals :: "monitor_event list \<Rightarrow> signal option list" where
  "signals evs = concat (map (\<lambda>ev. case ev of EvSignal s \<Rightarrow> [s] | _ \<Rightarrow> []) evs)"

lemma monitor_invariant:
  assumes "monitor_run m0 evs m" and "m0 = monitor_start"
  shows "mo_handlers m + count_list evs EvEnd = count_list evs EvBegin \<and>
    mo_spawned m + count_list evs EvBegin = count_list evs EvAccept \<and>
    (case mo_phase m of
       Serving \<Rightarrow> signals evs = []
     | Draining \<Rightarrow> signals evs = [Some SigInt]
     | Exited \<Rightarrow> signals evs = [Some SigInt] \<and> mo_handlers m = 0 \<or> (\<exists>s. signals evs = [Some SigInt, s]) \<or>
         (\<exists>s. s \<noteq> Some SigInt \<and> signals evs = [s]))"
  using assms
proof (induction rule: monitor_run.induct)
  case (stop m)
  then show ?case by (simp add: monitor_start_def signals_def)
next
  case (go m evs m' ev m'')
  from go.hyps(2) go.IH [OF go.prems] show ?case
    by cases (auto simp: signals_def on_signal_def split: phase.splits)
qed

text \<open>The process ends on SIGTERM, on the close of its signals, on a second signal, or after one SIGINT once every handler
  that had begun has ended.\<close>

theorem shutdown_drains:
  assumes "monitor_run monitor_start evs m" and "mo_phase m = Exited"
  shows "signals evs \<in> {[Some SigTerm], [None]} \<or> (\<exists>s. signals evs = [Some SigInt, s]) \<or>
    signals evs = [Some SigInt] \<and> count_list evs EvEnd = count_list evs EvBegin"
proof -
  have "s = Some SigTerm \<or> s = None" if "s \<noteq> Some SigInt" for s using that by (cases s) (auto intro: signal.exhaust)
  with monitor_invariant [OF assms(1) refl] assms(2) show ?thesis by auto
qed

section \<open>Samples\<close>

text \<open>A client asked for a transport that exists and one that does not.\<close>

definition client_env :: env where
  "client_env key =
     (if key = ascii ''TOR_PT_MANAGED_TRANSPORT_VER'' then ascii ''1''
      else if key = ascii ''TOR_PT_CLIENT_TRANSPORTS'' then ascii ''obfs4,x'' else [])"

abbreviation sample_reg :: "transport list" where "sample_reg \<equiv> lyrebird_transports (\<lambda>_. Err [])"
abbreviation sample_listen :: "nat listen" where "sample_listen \<equiv> \<lambda>_ n. (Ok (IpV4 [127, 0, 0, 1], 9), Suc n)"

lemma client_env_setup: "client_setup client_env = (Ok [ascii ''obfs4'', ascii ''x''], [VERSION_LINE])"
proof -
  have env: "client_env (ascii ''TOR_PT_MANAGED_TRANSPORT_VER'') = ascii ''1''" "client_env (ascii ''TOR_PT_CLIENT_TRANSPORTS'') = ascii ''obfs4,x''"
    by (simp_all add: client_env_def)
  have "split_on 44 (ascii ''1'') = [ascii ''1'']" "split_on 44 (ascii ''obfs4,x'') = [ascii ''obfs4'', ascii ''x'']" "ascii ''1'' \<noteq> []"
    "ascii ''obfs4,x'' \<noteq> []" by (simp_all add: ascii_def)
  then show ?thesis
    by (simp add: client_setup_def get_managed_transport_ver_def getenv_required_def env Let_def version_line TRANSPORT_VERSION_def [symmetric])
qed

lemma client_env_proxy: "dialer_setup te pct client_env = (Ok None, [])"
  by (simp add: dialer_setup_def proxy_from_env_def client_env_def Let_def)

lemma sample_methods:
  "client_method sample_listen sample_reg (ascii ''obfs4'') n =
     ((Ok [(ascii ''obfs4'', IpV4 [127, 0, 0, 1], 9)], [ascii ''CMETHOD obfs4 socks5 127.0.0.1:9'']), Suc n)"
  "client_method sample_listen sample_reg (ascii ''x'') n = ((Ok [], [ascii ''CMETHOD-ERROR x no such transport is supported'']), n)"
  by (simp_all add: client_method_def registry_get_def lyrebird_transports_def report_def cmethod_def cmethod_error_def tor_line_def
      tor_error_def format_line_def keyword_is_safe_def arg_is_safe_def SOCKS_VERSION_def show_socket_addr_def show_ipv4_def dec_byte_def
      dec_nat.simps ascii_def is_alpha_def)

lemma client_methods_answered_witness:
  "\<exists>os. list_all2 (client_side sample_reg) [ascii ''obfs4'', ascii ''x''] os \<and>
    [ascii ''CMETHOD obfs4 socks5 127.0.0.1:9'', ascii ''CMETHOD-ERROR x no such transport is supported''] =
      map2 client_line [ascii ''obfs4'', ascii ''x''] os"
proof -
  have run: "app_client \<lparr>te_char = (\<lambda>c. c), te_utf8 = (\<lambda>c. c)\<rparr> (\<lambda>b. b) client_env (ascii ''0.1'') sample_listen sample_reg 0 =
    ((Ok (([ascii ''obfs4'', ascii ''x''], None), [(ascii ''obfs4'', IpV4 [127, 0, 0, 1], 9)]),
      [VERSION_LINE, status_line (ascii ''0.1''), ascii ''CMETHOD obfs4 socks5 127.0.0.1:9'',
       ascii ''CMETHOD-ERROR x no such transport is supported'', ascii ''CMETHODS DONE'']), Suc 0)"
    by (simp add: app_client_def then_methods_def client_env_setup client_env_proxy report_version_line sample_methods fixed_lines)
  from client_methods_answered [OF run] show ?thesis by auto
qed

text \<open>A connection over a tunnel whose first bytes came with the bridge's reply.\<close>

definition sample_factory :: "(args, prefixed, tcp_writer) client_factory" where
  "sample_factory = \<lparr>cf_parse = Ok,
     cf_dial = (\<lambda>_ _. Some (Ok (\<lparr>px_prefix = [7], px_pos = 0, px_inner = [SrcEof]\<rparr>, idle_writer)))\<rparr>"

lemma connection_served_witness:
  "\<exists>greeting auth req rest a target replies. [5, 1, 0, 5, 1, 0, 1, 1, 2, 3, 4, 0, 80, 9] = greeting @ auth @ req @ rest \<and>
    socks_dialogue greeting auth req a target replies \<and> cf_parse sample_factory a = Ok a"
proof -
  let ?src = "[SrcData [5, 1], SrcData [0], SrcData [5, 1, 0, 1, 1, 2, 3, 4, 0, 80], SrcData [9], SrcEof]"
  let ?p = "\<lparr>px_prefix = [7], px_pos = 0, px_inner = [SrcEof]\<rparr>"
  have h: "handshake ?src None = (Ok (args_new, ascii ''1.2.3.4:80'', [SrcData [9], SrcEof]), [[5, 0]])" by code_simp
  have flats: "src_flat [SrcData [9], SrcEof] = ([9], AtEof)" "px_flat ?p = ([7], AtEof)" by (simp_all add: px_flat_def)
  let ?tor = "\<lparr>tw_out = [[5, 0], reply_bytes Succeeded], tw_fail = None, tw_shut = False\<rparr>"
  from relay_forwards [OF flats, of ?tor idle_writer] obtain res src' tor' p' bridge' where
    "copy_loop tcp_ops tunnel_ops ([SrcData [9], SrcEof], ?tor) (?p, idle_writer) = Some (res, (src', tor'), (p', bridge'))" by blast
  then have run: "client_handle tunnel_ops sample_factory ?src None = Relayed res (src', tor') (p', bridge')"
    by (simp add: client_handle_def h sample_factory_def tw_write_def)
  have all: "src_flat ?src = ([5, 1, 0, 5, 1, 0, 1, 1, 2, 3, 4, 0, 80, 9], AtEof)" by simp
  from connection_served [OF run all] show ?thesis
    by (elim exE conjE) (intro exI conjI, assumption, assumption, simp add: sample_factory_def)
qed

text \<open>Two connections; one ends, SIGINT, the other ends, and the process exits.\<close>

lemma shutdown_drains_witness:
  "signals [EvAccept, EvBegin, EvSignal (Some SigInt), EvEnd, EvDrained] = [Some SigInt] \<and>
   count_list [EvAccept, EvBegin, EvSignal (Some SigInt), EvEnd, EvDrained] EvEnd = 1"
proof -
  let ?m = "\<lambda>p h s. \<lparr>mo_phase = p, mo_handlers = h, mo_spawned = s\<rparr>"
  have steps: "monitor_step (?m Serving 0 0) EvAccept (?m Serving 0 1)" "monitor_step (?m Serving 0 1) EvBegin (?m Serving 1 0)"
    "monitor_step (?m Serving 1 0) (EvSignal (Some SigInt)) (?m Draining 1 0)"
    "monitor_step (?m Draining 1 0) EvEnd (?m Draining 0 0)" "monitor_step (?m Draining 0 0) EvDrained (?m Exited 0 0)"
    using accept [of "?m Serving 0 0"] begin_handler [of "?m Serving 0 1"] signal [of "?m Serving 1 0" "Some SigInt"]
      end_handler [of "?m Draining 1 0"] drained [of "?m Draining 0 0"] by (simp_all add: on_signal_def)
  have start: "monitor_run monitor_start [] (?m Serving 0 0)" by (simp add: monitor_start_def stop)
  have run: "monitor_run monitor_start [EvAccept, EvBegin, EvSignal (Some SigInt), EvEnd, EvDrained] (?m Exited 0 0)"
    using go [OF go [OF go [OF go [OF go [OF start steps(1)] steps(2)] steps(3)] steps(4)] steps(5)] by simp
  from shutdown_drains [OF run] show ?thesis by (auto simp: signals_def)
qed

end
