(* ===== verification/FsState.thy ===== *)
theory FsState
  imports Obfs4State
begin

text \<open>
  The files of a bridge's identity, from \<open>src/transports/obfs4/adapters/fs_state_store.rs\<close>: how the store
  that \<open>Obfs4State\<close> works with is kept in the state directory.  A directory maps file names to
  contents; JSON, of the crate \<open>serde_json\<close>, is an argument.
\<close>

section \<open>Files\<close>

type_synonym state_dir = "bytes \<rightharpoonup> bytes"

definition STATE_FILE :: bytes where "STATE_FILE = ascii ''obfs4_state.json''"
definition BRIDGE_FILE :: bytes where "BRIDGE_FILE = ascii ''obfs4_bridgeline.txt''"

text \<open>How a write may go wrong: the file cannot be opened, or only so many bytes can be written.\<close>

datatype write_fault = NoFault | OpenFails | WriteFails nat

datatype fs_error = FsIo | BadStateFile bytes

text \<open>Opening creates the file or truncates it, so a write that fails leaves what it wrote.\<close>

definition write_private_file :: "write_fault \<Rightarrow> bytes \<Rightarrow> bytes \<Rightarrow> state_dir \<Rightarrow> fs_error option \<times> state_dir" where
  "write_private_file fault path data d =
     (case fault of
        OpenFails \<Rightarrow> (Some FsIo, d)
      | WriteFails n \<Rightarrow> (Some FsIo, d(path \<mapsto> take n data))
      | NoFault \<Rightarrow> (None, d(path \<mapsto> data)))"

record state_json =
  sj_write :: "stored_state \<Rightarrow> bytes"
  sj_read :: "bytes \<Rightarrow> (stored_state, bytes) res"

definition fs_load :: "state_json \<Rightarrow> bool \<Rightarrow> state_dir \<Rightarrow> (stored_state option, fs_error) res" where
  "fs_load J fails d =
     (if fails then Err FsIo
      else case d STATE_FILE of
        None \<Rightarrow> Ok None
      | Some data \<Rightarrow> (case sj_read J data of Ok js \<Rightarrow> Ok (Some js) | Err e \<Rightarrow> Err (BadStateFile e) | Panic \<Rightarrow> Panic))"

definition fs_save :: "state_json \<Rightarrow> write_fault \<Rightarrow> stored_state \<Rightarrow> state_dir \<Rightarrow> fs_error option \<times> state_dir" where
  "fs_save J fault js d = write_private_file fault STATE_FILE (sj_write J js) d"

definition fs_save_line :: "write_fault \<Rightarrow> bytes \<Rightarrow> state_dir \<Rightarrow> fs_error option \<times> state_dir" where
  "fs_save_line fault line d = write_private_file fault BRIDGE_FILE line d"

section \<open>The files are a store\<close>

definition STATE_JSON_OK :: "state_json \<Rightarrow> bool" where "STATE_JSON_OK J \<longleftrightarrow> (\<forall>js. sj_read J (sj_write J js) = Ok js)"

text \<open>A directory holds a store: the state is what its file reads as, the bridge line the text of its file.\<close>

definition holds_store :: "state_json \<Rightarrow> state_dir \<Rightarrow> store \<Rightarrow> bool" where
  "holds_store J d s \<longleftrightarrow>
     (case d STATE_FILE of None \<Rightarrow> sto_state s = None | Some data \<Rightarrow> \<exists>js. sj_read J data = Ok js \<and> sto_state s = Some js) \<and>
     sto_line s = d BRIDGE_FILE"

text \<open>A fault of the files is a failure of the store's operation, as long as it happens on opening.\<close>

definition same_fault :: "write_fault \<Rightarrow> (nat \<Rightarrow> bool) \<Rightarrow> store \<Rightarrow> bool" where
  "same_fault fault fails s \<longleftrightarrow> (if fails (sto_ops s) then fault = OpenFails else fault = NoFault)"

lemma files_differ: "STATE_FILE \<noteq> BRIDGE_FILE" by (simp add: STATE_FILE_def BRIDGE_FILE_def ascii_def)

text \<open>The files refine the store that the identity of a bridge is kept in: as long as no write fails half way, loading
  and both saves do on a directory what the store's operations do on the store it holds, errors included.\<close>

theorem files_refine_store:
  assumes "STATE_JSON_OK J" and "holds_store J d s" and "same_fault fault fails s"
  shows "fs_load J (fails (sto_ops s)) d = (if fails (sto_ops s) then Err FsIo else Ok (sto_state s)) \<and>
    (case (fs_save J fault js d, store_save fails js s) of
       ((e, d'), (e', s')) \<Rightarrow> (e = None \<longleftrightarrow> e' = None) \<and> holds_store J d' s') \<and>
    (case (fs_save_line fault line d, store_save_line fails line s) of
       ((e, d'), (e', s')) \<Rightarrow> (e = None \<longleftrightarrow> e' = None) \<and> holds_store J d' s')"
proof (intro conjI)
  show "fs_load J (fails (sto_ops s)) d = (if fails (sto_ops s) then Err FsIo else Ok (sto_state s))"
    using assms(2) by (auto simp: fs_load_def holds_store_def split: option.splits)
next
  show "case (fs_save J fault js d, store_save fails js s) of
      ((e, d'), (e', s')) \<Rightarrow> (e = None \<longleftrightarrow> e' = None) \<and> holds_store J d' s'"
    using assms files_differ
    by (cases "fails (sto_ops s)")
      (auto simp: same_fault_def fs_save_def write_private_file_def store_save_def store_op_def Let_def holds_store_def STATE_JSON_OK_def
        split: option.splits)
next
  show "case (fs_save_line fault line d, store_save_line fails line s) of
      ((e, d'), (e', s')) \<Rightarrow> (e = None \<longleftrightarrow> e' = None) \<and> holds_store J d' s'"
    using assms files_differ
    by (cases "fails (sto_ops s)")
      (auto simp: same_fault_def fs_save_line_def write_private_file_def store_save_line_def store_op_def Let_def holds_store_def
        split: option.splits)
qed

section \<open>A save that fails half way\<close>

text \<open>Every start of a bridge saves its identity again, over the file it loaded; the text of an object that is cut off does not
  parse.\<close>

definition cut_is_refused :: "state_json \<Rightarrow> bool" where
  "cut_is_refused J \<longleftrightarrow> (\<forall>js n. n < length (sj_write J js) \<longrightarrow> (\<exists>e. sj_read J (take n (sj_write J js)) = Err e))"

theorem torn_save_loses_identity:
  assumes "cut_is_refused J" and "n < length (sj_write J js)" and "fs_save J (WriteFails n) js d = (e, d')"
  shows "e = Some FsIo \<and> (\<exists>t. fs_load J False d' = Err (BadStateFile t))"
  using assms by (fastforce simp: fs_save_def write_private_file_def fs_load_def cut_is_refused_def)

section \<open>A format that keeps to this\<close>

text \<open>Fields of bytes, each byte after a one and the field closed by a zero.\<close>

fun enc_field :: "bytes \<Rightarrow> bytes" where
  "enc_field [] = [0]"
| "enc_field (b # bs) = 1 # b # enc_field bs"

fun dec_field :: "bytes \<Rightarrow> (bytes \<times> bytes) option" where
  "dec_field [] = None"
| "dec_field (c # s) =
     (if c = 0 then Some ([], s)
      else case s of [] \<Rightarrow> None | b # r \<Rightarrow> map_option (\<lambda>(bs, r). (b # bs, r)) (dec_field r))"

fun dec_fields :: "nat \<Rightarrow> bytes \<Rightarrow> bytes list option" where
  "dec_fields 0 s = (if s = [] then Some [] else None)"
| "dec_fields (Suc k) s =
     (case dec_field s of None \<Rightarrow> None | Some (f, r) \<Rightarrow> map_option (\<lambda>fs. f # fs) (dec_fields k r))"

lemma dec_enc_field: "dec_field (enc_field f @ r) = Some (f, r)"
  by (induction f) simp_all

lemma dec_cut_field: "n < length (enc_field f) \<Longrightarrow> dec_field (take n (enc_field f)) = None"
proof (induction f arbitrary: n)
  case (Cons b f)
  consider "n = 0" | "n = 1" | k where "n = Suc (Suc k)" using not0_implies_Suc by (metis One_nat_def)
  then show ?case using Cons by cases simp_all
qed simp

lemma dec_enc_fields: "dec_fields (length fs) (concat (map enc_field fs)) = Some fs"
  by (induction fs) (simp_all add: dec_enc_field)

lemma dec_cut_fields: "n < length (concat (map enc_field fs)) \<Longrightarrow> dec_fields (length fs) (take n (concat (map enc_field fs))) = None"
proof (induction fs arbitrary: n)
  case (Cons f fs)
  show ?case
  proof (cases "n < length (enc_field f)")
    case True
    then show ?thesis by (simp add: dec_cut_field)
  next
    case False
    then have "take n (concat (map enc_field (f # fs))) = enc_field f @ take (n - length (enc_field f)) (concat (map enc_field fs))" by simp
    moreover have "n - length (enc_field f) < length (concat (map enc_field fs))" using False Cons.prems by simp
    ultimately show ?thesis using Cons.IH by (simp add: dec_enc_field)
  qed
qed simp

definition text_bytes :: "string \<Rightarrow> bytes" where "text_bytes s = map (\<lambda>c. word_of_nat (of_char c)) s"
definition bytes_text :: "bytes \<Rightarrow> string" where "bytes_text bs = map (\<lambda>b. char_of (unat b)) bs"

lemma bytes_text_bytes [simp]: "bytes_text (text_bytes s) = s"
proof -
  have "char_of (unat (word_of_nat (of_char c) :: u8)) = c" for c by (simp add: char_of_eq_iff)
  then show ?thesis by (induction s) (simp_all add: text_bytes_def bytes_text_def)
qed

definition state_fields :: "stored_state \<Rightarrow> bytes list" where
  "state_fields js =
     [text_bytes (js_node_id js), text_bytes (js_private_key js), text_bytes (js_public_key js), text_bytes (js_drbg_seed js),
      (if js_iat_mode js < 0 then [1] else [0]) @ replicate (nat \<bar>js_iat_mode js\<bar>) 0]"

definition field_json :: state_json where
  "field_json = \<lparr>
     sj_write = (\<lambda>js. concat (map enc_field (state_fields js))),
     sj_read = (\<lambda>d. case dec_fields 5 d of
        Some [a, b, c, e, i] \<Rightarrow> Ok \<lparr>js_node_id = bytes_text a, js_private_key = bytes_text b, js_public_key = bytes_text c,
          js_drbg_seed = bytes_text e, js_iat_mode = (if hd i = 1 then - int (length i - 1) else int (length i - 1))\<rparr>
      | _ \<Rightarrow> Err [])\<rparr>"

lemma field_json_ok: "STATE_JSON_OK field_json" "cut_is_refused field_json"
proof -
  have five: "length (state_fields js) = 5" for js by (simp add: state_fields_def)
  show "STATE_JSON_OK field_json"
    unfolding STATE_JSON_OK_def
  proof
    fix js :: stored_state
    have "dec_fields 5 (sj_write field_json js) = Some (state_fields js)"
      using dec_enc_fields [of "state_fields js"] by (simp add: field_json_def five del: dec_fields.simps)
    then show "sj_read field_json (sj_write field_json js) = Ok js" by (simp add: field_json_def state_fields_def)
  qed
  show "cut_is_refused field_json"
    unfolding cut_is_refused_def
  proof (intro allI impI)
    fix js :: stored_state and n assume n: "n < length (sj_write field_json js)"
    have "dec_fields 5 (take n (sj_write field_json js)) = None"
      using dec_cut_fields [of n "state_fields js"] n by (simp add: field_json_def five del: dec_fields.simps)
    then have "sj_read field_json (take n (sj_write field_json js)) = Err []" by (simp add: field_json_def)
    then show "\<exists>e. sj_read field_json (take n (sj_write field_json js)) = Err e" by blast
  qed
qed

lemma files_refine_store_witness:
  "case (fs_save field_json NoFault stored_default Map.empty, store_save (\<lambda>_. False) stored_default no_store) of
     ((e, d'), (e', s')) \<Rightarrow> (e = None \<longleftrightarrow> e' = None) \<and> holds_store field_json d' s'"
proof -
  have a: "holds_store field_json Map.empty no_store" by (simp add: holds_store_def no_store_def)
  have b: "same_fault NoFault (\<lambda>_. False) no_store" by (simp add: same_fault_def)
  show ?thesis by (rule files_refine_store [OF field_json_ok(1) a b, THEN conjunct2, THEN conjunct1])
qed

lemma torn_save_loses_identity_witness:
  "fs_save field_json (WriteFails 3) stored_default (Map.empty(STATE_FILE \<mapsto> sj_write field_json stored_default)) =
     (Some FsIo, Map.empty(STATE_FILE \<mapsto> take 3 (sj_write field_json stored_default))) \<and>
   (\<exists>t. fs_load field_json False (Map.empty(STATE_FILE \<mapsto> take 3 (sj_write field_json stored_default))) = Err (BadStateFile t))"
proof -
  let ?d = "Map.empty(STATE_FILE \<mapsto> sj_write field_json stored_default)"
  have run: "fs_save field_json (WriteFails 3) stored_default ?d = (Some FsIo, Map.empty(STATE_FILE \<mapsto> take 3 (sj_write field_json stored_default)))"
    by (simp add: fs_save_def write_private_file_def)
  have "3 < length (sj_write field_json stored_default)" by (simp add: field_json_def state_fields_def stored_default_def text_bytes_def)
  from torn_save_loses_identity [OF field_json_ok(2) this run] run show ?thesis by blast
qed

end
