(* ===== verification/SfClient.thy ===== *)
theory SfClient
  imports Snowflakes SmuxInv KcpSession Broker
begin

text \<open>
  A snowflake connection put together and taken down, from
  \<open>src/transports/snowflake/domain/client.rs\<close> and \<open>transport.rs\<close>: the client made of its
  configuration, the session of a redialing packet connection, KCP and smux over it, the stream opened, and
  what is closed when the stream cannot be opened or both halves are dropped.
\<close>

section \<open>The client\<close>

record 'r sf_client =
  cl_ice :: "bytes list"
  cl_broker :: "'r broker_channel"
  cl_max :: nat

text \<open>\<open>None\<close> is a random number that never comes; an error is that of the broker channel.\<close>

definition sf_client_new :: "(channel_request \<Rightarrow> ('r, bytes) res) \<Rightarrow> sf_config \<Rightarrow> (nat \<Rightarrow> bytes) \<Rightarrow> ('r sf_client, channel_error) res option" where
  "sf_client_new factory config entropy =
     (case shuffle (parse_ice_servers (sc_ice config)) entropy of
        Ok None \<Rightarrow> None
      | Ok (Some (servers, _)) \<Rightarrow>
          Some (case broker_new factory (sc_broker config) of
                  Err e \<Rightarrow> Err e
                | Panic \<Rightarrow> Panic
                | Ok bk \<Rightarrow> Ok \<lparr>cl_ice = ice_subset servers, cl_broker = bk, cl_max = client_max (sc_max config)\<rparr>)
      | _ \<Rightarrow> Some Panic)"

text \<open>\<open>dial\<close> of the factory, up to the client: behind an outbound proxy it is refused.\<close>

datatype sf_dial_error = ProxyNotSupported | ClientFailed channel_error

definition sf_factory_dial :: "bool \<Rightarrow> (channel_request \<Rightarrow> ('r, bytes) res) \<Rightarrow> sf_config \<Rightarrow> (nat \<Rightarrow> bytes) \<Rightarrow> ('r sf_client, sf_dial_error) res option" where
  "sf_factory_dial direct factory config entropy =
     (if \<not> direct then Some (Err ProxyNotSupported)
      else map_option (\<lambda>r. case r of Ok c \<Rightarrow> Ok c | Err e \<Rightarrow> Err (ClientFailed e) | Panic \<Rightarrow> Panic) (sf_client_new factory config entropy))"

section \<open>The session\<close>

definition STREAM_SIZE :: nat where "STREAM_SIZE = 1024 * 1024"

definition sf_mux_config :: config where
  "sf_mux_config = config_default\<lparr>cf_version := 2, cf_keepalive_timeout := 600 * 10 ^ 9, cf_max_stream_buffer := STREAM_SIZE\<rparr>"

record sf_session =
  sn_redial :: redial
  sn_kcp :: session
  sn_mux :: mux_session

text \<open>\<open>src\<close> is what the KCP stream will give to smux; a configuration that is refused closes both connections.\<close>

definition new_session :: "(nat \<Rightarrow> bytes) \<Rightarrow> (nat \<Rightarrow> u32) \<Rightarrow> ByteSource.source \<Rightarrow> (sf_session, config_error \<times> redial \<times> session) res" where
  "new_session entropy clk src =
     (let kcp = session_configure tune (session_new entropy)
      in case mux_new src sf_mux_config True of
           Ok m \<Rightarrow> Ok \<lparr>sn_redial = redial_new, sn_kcp = kcp, sn_mux = m\<rparr>
         | Err e \<Rightarrow> Err (e, redial_close redial_new, snd (session_close clk kcp))
         | Panic \<Rightarrow> Panic)"

text \<open>\<open>close\<close> of the smux session closes the KCP session under it, the first time.\<close>

definition mux_close :: "(nat \<Rightarrow> u32) \<Rightarrow> sf_session \<Rightarrow> sf_session" where
  "mux_close clk s =
     s\<lparr>sn_mux := close_session (sn_mux s),
       sn_kcp := if se_die (sn_mux s) then sn_kcp s else snd (session_close clk (sn_kcp s))\<rparr>"

record sf_conn =
  cn_pool :: pool
  cn_session :: sf_session
  cn_stream :: nat

text \<open>\<open>dial\<close>: up to the frame that opens the stream, and what its result makes of it; the tasks of the pool and of the
  session run in between.\<close>

definition sf_dial_start :: "(nat \<Rightarrow> bytes) \<Rightarrow> (nat \<Rightarrow> u32) \<Rightarrow> ByteSource.source \<Rightarrow> 'r sf_client \<Rightarrow>
    pool \<times> (sf_session \<times> (u32 \<times> u32, smux_error) res, config_error) res" where
  "sf_dial_start entropy clk src c =
     (let peers = pool_new (cl_max c)
      in case new_session entropy clk src of
           Err (e, _) \<Rightarrow> (pool_end peers, Err e)
         | Panic \<Rightarrow> (peers, Panic)
         | Ok s \<Rightarrow> (case open_start (sn_mux s) of (r, m) \<Rightarrow> (peers, Ok (s\<lparr>sn_mux := m\<rparr>, r))))"

definition sf_give_up :: "(nat \<Rightarrow> u32) \<Rightarrow> pool \<Rightarrow> sf_session \<Rightarrow> pool \<times> sf_session" where
  "sf_give_up clk peers s = (pool_end peers, mux_close clk (s\<lparr>sn_redial := redial_close (sn_redial s)\<rparr>))"

definition sf_dial_end :: "(nat \<Rightarrow> u32) \<Rightarrow> u32 \<Rightarrow> (nat, smux_error) res \<Rightarrow> pool \<Rightarrow> sf_session \<Rightarrow>
    (sf_conn, smux_error \<times> pool \<times> sf_session) res" where
  "sf_dial_end clk sid r peers s =
     (case open_finish sid r (sn_mux s) of
        (Ok a, m) \<Rightarrow> Ok \<lparr>cn_pool = peers, cn_session = s\<lparr>sn_mux := m\<rparr>, cn_stream = a\<rparr>
      | (Err e, m) \<Rightarrow> Err (e, sf_give_up clk peers (s\<lparr>sn_mux := m\<rparr>))
      | (Panic, _) \<Rightarrow> Panic)"

section \<open>The end\<close>

text \<open>\<open>drop\<close>: the stream's FIN frame, and after its wait, whatever came of it, the rest; without a runtime only the rest.\<close>

definition sf_drop_start :: "sf_conn \<Rightarrow> (u32, smux_error) res \<times> sf_conn" where
  "sf_drop_start c =
     (case close_start (cn_stream c) (sn_mux (cn_session c)) of
        (r, m) \<Rightarrow> (r, c\<lparr>cn_session := (cn_session c)\<lparr>sn_mux := m\<rparr>\<rparr>))"

definition sf_stream_closed :: "sf_conn \<Rightarrow> sf_conn" where
  "sf_stream_closed c = c\<lparr>cn_session := (cn_session c)\<lparr>sn_mux := close_finish (cn_stream c) (sn_mux (cn_session c))\<rparr>\<rparr>"

definition sf_drop_end :: "(nat \<Rightarrow> u32) \<Rightarrow> sf_conn \<Rightarrow> sf_conn" where
  "sf_drop_end clk c =
     (let s = cn_session c
      in c\<lparr>cn_pool := pool_end (cn_pool c), cn_session := mux_close clk (s\<lparr>sn_redial := redial_close (sn_redial s)\<rparr>)\<rparr>)"

section \<open>A session starts, and its end leaves nothing open\<close>

lemma sf_mux_config_valid: "config_verify sf_mux_config = None"
  by (simp add: config_verify_def sf_mux_config_def config_default_def STREAM_SIZE_def)

lemma new_session_ok: "\<exists>m. new_session entropy clk src =
    Ok \<lparr>sn_redial = redial_new, sn_kcp = session_configure tune (session_new entropy), sn_mux = m\<rparr> \<and>
    mux_new src sf_mux_config True = Ok m \<and> fresh_session (session_configure tune (session_new entropy))"
proof -
  have "fresh_session (session_configure tune (session_new entropy))" unfolding session_new_def by (rule fresh_tuned)
  then show ?thesis by (simp add: new_session_def mux_new_def sf_mux_config_valid)
qed

text \<open>What a connection taken down looks like.\<close>

definition taken_down :: "pool \<Rightarrow> sf_session \<Rightarrow> bool" where
  "taken_down peers s \<longleftrightarrow> pl_melted peers \<and> rc_closed (sn_redial s) \<and> se_die (sn_mux s) \<and> ks_dead (sn_kcp s)"

text \<open>KCP dies with smux.\<close>

definition closed_together :: "sf_session \<Rightarrow> bool" where
  "closed_together s \<longleftrightarrow> (se_die (sn_mux s) \<longrightarrow> ks_dead (sn_kcp s))"

lemma closes:
  "pl_melted (pool_end peers)" "rc_closed (redial_close rc)" "se_die (close_session m)" "ks_dead (snd (session_close clk k))"
  by (simp_all add: pool_end_def redial_close_def close_with_error_def close_session_def session_close_def split: prod.splits)

lemma give_up_takes_down: "closed_together s \<Longrightarrow> sf_give_up clk peers s = (peers', s') \<Longrightarrow> taken_down peers' s'"
  by (auto simp: sf_give_up_def mux_close_def taken_down_def closed_together_def closes)

lemma melted_step: "pool_step pl ev pl' \<Longrightarrow> pl_melted pl \<Longrightarrow> pl_melted pl'"
  by (induction rule: pool_step.induct)
    (auto simp: collect_start_def pool_count_def collect_caught_def collect_push_def collect_send_def collect_melted_def pool_end_def
      split: if_splits collect_phase.splits)

lemma melted_run: "pool_run pl evs pl' \<Longrightarrow> pl_melted pl \<Longrightarrow> pl_melted pl'"
  by (induction rule: pool_run.induct) (auto dest: melted_step)

lemma pool_inv_run: "pool_run pl evs' pl' \<Longrightarrow> pool_inv evs pl \<Longrightarrow> pool_inv (evs @ evs') pl'"
proof (induction rule: pool_run.induct)
  case (run_more pl evs' pl' ev pl'')
  then show ?case using pool_inv_step [OF run_more.hyps(2), of "evs @ evs'"] by simp
qed simp

text \<open>A snowflake connection ends whole: when it is dropped the pool has melted, and the packet connection, KCP and
  smux are closed; from then on, whatever the tasks that are left do, no packet is accepted for sending and at most one
  snowflake is open.  KCP is closed whenever smux was.\<close>

theorem connection_taken_down:
  assumes "pool_run (pool_new mx) pevs (cn_pool conn)" and "0 < mx" and "closed_together (cn_session conn)"
    and "sf_drop_end clk conn = down" and "pool_run (cn_pool down) pevs' peers" and "redial_run (sn_redial (cn_session down)) revs rc"
  shows "taken_down (cn_pool down) (cn_session down) \<and> pl_melted peers \<and> card (open_peers peers) \<le> 1 \<and> sent revs = [] \<and> rc_closed rc"
proof -
  have down: "taken_down (cn_pool down) (cn_session down)"
    using assms(3,4) by (auto simp: sf_drop_end_def mux_close_def taken_down_def closed_together_def closes Let_def)
  then have "pl_melted peers" using melted_run [OF assms(5)] by (simp add: taken_down_def)
  moreover have "pool_inv pevs (cn_pool conn)" using pool_run_inv [OF assms(1)] pool_new_inv [OF assms(2)] by blast
  then have "pool_inv (pevs @ [PoolEnd]) (cn_pool down)"
    using pool_inv_step [OF pool_step.ended] assms(4) by (auto simp: sf_drop_end_def Let_def)
  from pool_inv_run [OF assms(5) this] have "pool_inv ((pevs @ [PoolEnd]) @ pevs') peers" .
  from pool_invD(2) [OF this] have "card (open_peers peers) \<le> (if pl_melted peers then 1 else pl_max peers)" by simp
  ultimately show ?thesis using down redial_stays_closed [OF assms(6)] by (simp add: taken_down_def)
qed

text \<open>A connection dropped at once.\<close>

lemma connection_taken_down_witness:
  "\<exists>m. taken_down (pool_end (pool_new 1)) (mux_close (\<lambda>_. 0)
     \<lparr>sn_redial = redial_close redial_new, sn_kcp = session_configure tune (with_conv 9), sn_mux = m\<rparr>)"
proof -
  obtain m where m: "mux_new [] sf_mux_config True = Ok m" "\<not> se_die m" by (simp add: mux_new_def sf_mux_config_valid)
  let ?conn = "\<lparr>cn_pool = pool_new 1, cn_session = \<lparr>sn_redial = redial_new, sn_kcp = session_configure tune (with_conv 9), sn_mux = m\<rparr>, cn_stream = 0\<rparr>"
  have "pool_run (pool_new 1) [] (cn_pool ?conn)" "closed_together (cn_session ?conn)"
    using m(2) by (auto simp: closed_together_def intro: pool_run.intros)
  from connection_taken_down [OF this(1) _ this(2) refl pool_run.run_start redial_run.start, of "\<lambda>_. 0"]
  show ?thesis by (auto simp: sf_drop_end_def Let_def)
qed

end
