(* ===== verification/WebRtc.thy ===== *)
theory WebRtc
  imports Peer NetAddr
begin

text \<open>
  The WebRTC adapter, \<open>src/transports/snowflake/adapters/webrtc.rs\<close>: which candidates an offer
  reveals, how it is prepared, and the task that drives one peer connection as a step relation.
  The WebRTC stack, of the crate \<open>str0m\<close>, and the sockets are arguments.
\<close>

section \<open>Candidates\<close>

text \<open>The predicates of the standard library on addresses.\<close>

definition is_private :: "bytes \<Rightarrow> bool" where
  "is_private b \<longleftrightarrow> b ! 0 = 10 \<or> b ! 0 = 172 \<and> b ! 1 AND 0xf0 = 16 \<or> b ! 0 = 192 \<and> b ! 1 = 168"

definition is_link_local :: "bytes \<Rightarrow> bool" where "is_link_local b \<longleftrightarrow> b ! 0 = 169 \<and> b ! 1 = 254"

definition is_loopback :: "ip_addr \<Rightarrow> bool" where
  "is_loopback ip = (case ip of IpV4 b \<Rightarrow> b ! 0 = 127 | IpV6 b \<Rightarrow> b = replicate 15 0 @ [1])"

definition is_unspecified :: "ip_addr \<Rightarrow> bool" where
  "is_unspecified ip = (case ip of IpV4 b \<Rightarrow> b = replicate 4 0 | IpV6 b \<Rightarrow> b = replicate 16 0)"

definition is_local :: "ip_addr \<Rightarrow> bool" where
  "is_local ip =
     (case ip of
        IpV4 b \<Rightarrow> is_private b \<or> is_link_local b \<or> b ! 0 = 100 \<and> b ! 1 AND 0xc0 = 64
      | IpV6 b \<Rightarrow> be_u16 [b ! 0, b ! 1] AND 0xfe00 = 0xfc00 \<or> be_u16 [b ! 0, b ! 1] AND 0xffc0 = 0xfe80)"

definition keep_host_candidate :: "ip_addr \<Rightarrow> bool \<Rightarrow> bool" where
  "keep_host_candidate ip keep_local \<longleftrightarrow> keep_local \<or> \<not> (is_local ip \<or> is_loopback ip \<or> is_unspecified ip)"

text \<open>\<open>split_inclusive("\r\n")\<close>.\<close>

fun crlf_lines :: "bytes \<Rightarrow> bytes list" where
  "crlf_lines (x # y # xs) =
     (if x = 13 \<and> y = 10 then [13, 10] # crlf_lines xs
      else case crlf_lines (y # xs) of [] \<Rightarrow> [[x]] | l # ls \<Rightarrow> (x # l) # ls)"
| "crlf_lines [x] = [[x]]"
| "crlf_lines [] = []"

definition CANDIDATE :: bytes where "CANDIDATE = ascii ''a=candidate:''"

text \<open>The lines that the loop of \<open>strip_host_candidates\<close> leaves out.\<close>

definition stripped_line :: "bool \<Rightarrow> bytes \<Rightarrow> bool" where
  "stripped_line keep_local line \<longleftrightarrow>
     (let t = trim_end line
      in starts_with CANDIDATE t \<and>
         (let fields = split_whitespace (drop (length CANDIDATE) t)
          in (ascii ''typ'', ascii ''host'') \<in> set (zip fields (tl fields)) \<and> 4 < length fields \<and>
             (case parse_ip (fields ! 4) of None \<Rightarrow> False | Some ip \<Rightarrow> \<not> keep_host_candidate ip keep_local)))"

definition strip_host_candidates :: "bytes \<Rightarrow> bool \<Rightarrow> bytes" where
  "strip_host_candidates sdp keep_local = concat (filter (\<lambda>l. \<not> stripped_line keep_local l) (crlf_lines sdp))"

section \<open>The offer shows no local address\<close>

lemma crlf_lines_not_Nil [simp]: "crlf_lines (x # xs) \<noteq> []"
  by (cases xs) (auto split: list.splits)

lemma concat_crlf_lines: "concat (crlf_lines s) = s"
proof (induction s rule: crlf_lines.induct)
  case (1 x y xs)
  show ?case
  proof (cases "x = 13 \<and> y = 10")
    case False
    then show ?thesis using "1.IH"(2) by (cases "crlf_lines (y # xs)") auto
  qed (use "1.IH"(1) in simp)
qed simp_all

text \<open>A line with its end is split off.\<close>

definition ended_line :: "bytes \<Rightarrow> bool" where "ended_line l \<longleftrightarrow> crlf_lines l = [l] \<and> (\<exists>b. l = b @ [13, 10])"

lemma crlf_lines_one: "crlf_lines (x # y # xs) = [x # y # xs] \<Longrightarrow> x \<noteq> 13 \<or> y \<noteq> 10 \<Longrightarrow> crlf_lines (y # xs) = [y # xs]"
  by (auto split: list.splits if_splits)

lemma ended_line_append: "ended_line l \<Longrightarrow> crlf_lines (l @ t) = l # crlf_lines t"
proof (induction l rule: crlf_lines.induct)
  case (1 x y xs)
  show ?case
  proof (cases "x = 13 \<and> y = 10")
    case True
    then have "crlf_lines xs = []" using "1.prems" by (simp add: ended_line_def)
    then have "xs = []" by (cases xs) auto
    with True show ?thesis by simp
  next
    case False
    from "1.prems" have one: "crlf_lines (x # y # xs) = [x # y # xs]" by (simp add: ended_line_def)
    have tail: "crlf_lines (y # xs) = [y # xs]" by (rule crlf_lines_one [OF one]) (use False in blast)
    from "1.prems" obtain b where b: "x # y # xs = b @ [13, 10]" unfolding ended_line_def by blast
    with False obtain b' where "b = x # b'" by (cases b) auto
    with b have "y # xs = b' @ [13, 10]" by simp
    with tail have "ended_line (y # xs)" unfolding ended_line_def by blast
    with "1.IH"(2) [OF False] have "crlf_lines ((y # xs) @ t) = (y # xs) # crlf_lines t" by blast
    with False show ?thesis by auto
  qed
qed (simp_all add: ended_line_def)

lemma crlf_lines_ended: "crlf_lines s = ls @ [l] \<Longrightarrow> list_all ended_line ls \<and> crlf_lines l = [l]"
proof (induction s arbitrary: ls l rule: crlf_lines.induct)
  case (1 x y xs)
  show ?case
  proof (cases "x = 13 \<and> y = 10")
    case True
    have nl: "ended_line [13, 10]" by (simp add: ended_line_def)
    show ?thesis
    proof (cases "xs = []")
      case True
      with \<open>x = 13 \<and> y = 10\<close> "1.prems" show ?thesis by (auto simp: append_eq_Cons_conv Cons_eq_append_conv)
    next
      case False
      then have "crlf_lines xs \<noteq> []" by (cases xs) auto
      then obtain ms where ms: "crlf_lines xs = ms @ [last (crlf_lines xs)]" using append_butlast_last_id by metis
      with True "1.prems" have "ls @ [l] = ([13, 10] # ms) @ [last (crlf_lines xs)]" by simp
      then have "ls = [13, 10] # ms" "l = last (crlf_lines xs)" by (simp_all only: append1_eq_conv)
      with "1.IH"(1) [OF True ms] nl show ?thesis by simp
    qed
  next
    case False
    obtain m ms where m: "crlf_lines (y # xs) = m # ms" by (cases "crlf_lines (y # xs)") auto
    then have eq: "crlf_lines (x # y # xs) = (x # m) # ms" using False by auto
    show ?thesis
    proof (cases "ms = []")
      case True
      then have "y # xs = m" using m concat_crlf_lines [of "y # xs"] by simp
      then show ?thesis using True eq "1.prems" False m by (auto simp: Cons_eq_append_conv)
    next
      case ne: False
      then obtain ns where ns: "ms = ns @ [last ms]" using append_butlast_last_id by metis
      with eq "1.prems" have "ls @ [l] = ((x # m) # ns) @ [last ms]" by simp
      then have ls: "ls = (x # m) # ns" "l = last ms" by (simp_all only: append1_eq_conv)
      have "crlf_lines (y # xs) = (m # ns) @ [last ms]" using m ns by simp
      from "1.IH"(2) [OF False this] have ih: "ended_line m" "list_all ended_line ns" "crlf_lines (last ms) = [last ms]" by auto
      obtain c m' where cm: "m = c # m'" using ih(1) by (cases m) (auto simp: ended_line_def)
      have cy: "c = y" using m concat_crlf_lines [of "y # xs"] cm by simp
      have "crlf_lines (x # m) = [x # m]" using ih(1) cm cy False by (auto simp: ended_line_def)
      then have "ended_line (x # m)" using ih(1) by (auto simp: ended_line_def intro: exI [of _ "x # _"])
      with ls ih show ?thesis by simp
    qed
  qed
qed (auto simp: Cons_eq_append_conv)

text \<open>Leaving lines out leaves the lines that are kept.\<close>

lemma crlf_lines_kept: "list_all ended_line ls \<Longrightarrow> crlf_lines (concat ls @ t) = ls @ crlf_lines t"
  by (induction ls) (simp_all add: ended_line_append)

lemma crlf_lines_filter: "crlf_lines (concat (filter P (crlf_lines s))) = filter P (crlf_lines s)"
proof (cases "crlf_lines s" rule: rev_cases)
  case (snoc ls l)
  from crlf_lines_ended [OF this] have e: "list_all ended_line (filter P ls)" "crlf_lines l = [l]" by (auto simp: list_all_iff)
  from snoc crlf_lines_kept [OF e(1), of l] crlf_lines_kept [OF e(1), of "[]"] e(2) show ?thesis by simp
qed simp

text \<open>A host candidate as it is printed: foundation, component, transport, priority, address, port, type, and
  what may follow.\<close>

definition show_ip :: "ip_addr \<Rightarrow> bytes" where
  "show_ip ip = (case ip of IpV4 b \<Rightarrow> show_ipv4 b | IpV6 b \<Rightarrow> show_ip6 b)"

text \<open>A candidate line of words with a space between them.\<close>

definition candidate_line :: "bytes list \<Rightarrow> bytes" where "candidate_line ws = CANDIDATE @ join 32 ws @ [13, 10]"

text \<open>The addresses nobody outside should see, by their ranges: private, link-local, shared, loopback, unspecified.\<close>

definition hidden_address :: "ip_addr \<Rightarrow> bool" where
  "hidden_address ip \<longleftrightarrow>
     (case ip of
        IpV4 b \<Rightarrow>
          let x = unat (b ! 0); y = unat (b ! 1)
          in x = 10 \<or> x = 127 \<or> x = 172 \<and> 16 \<le> y \<and> y < 32 \<or> x = 192 \<and> y = 168 \<or> x = 169 \<and> y = 254 \<or>
             x = 100 \<and> 64 \<le> y \<and> y < 128 \<or> b = replicate 4 0
      | IpV6 b \<Rightarrow>
          let x = unat (b ! 0); y = unat (b ! 1)
          in x = 252 \<or> x = 253 \<or> x = 254 \<and> 128 \<le> y \<and> y < 192 \<or> b = replicate 15 0 @ [1] \<or> b = replicate 16 0)"

text \<open>The words of a host candidate for such an address, which is the fifth of them.\<close>

definition announces_hidden :: "bytes list \<Rightarrow> bool" where
  "announces_hidden ws \<longleftrightarrow> (\<exists>us vs. ws = us @ [ascii ''typ'', ascii ''host''] @ vs) \<and> 4 < length ws \<and>
     (\<exists>ip. parse_ip (ws ! 4) = Some ip \<and> hidden_address ip)"

lemma byte_and_table:
  "(b :: 8 word) AND 0xf0 = 16 \<longleftrightarrow> 16 \<le> unat b \<and> unat b < 32" "b AND 0xc0 = 64 \<longleftrightarrow> 64 \<le> unat b \<and> unat b < 128"
proof -
  have "list_all (\<lambda>n. ((word_of_nat n :: 8 word) AND 0xf0 = 16) = (16 \<le> n \<and> n < 32)) [0..<256]"
    "list_all (\<lambda>n. ((word_of_nat n :: 8 word) AND 0xc0 = 64) = (64 \<le> n \<and> n < 128)) [0..<256]" by code_simp+
  then have "\<forall>n<256. ((word_of_nat n :: 8 word) AND 0xf0 = 16) = (16 \<le> n \<and> n < 32)"
    "\<forall>n<256. ((word_of_nat n :: 8 word) AND 0xc0 = 64) = (64 \<le> n \<and> n < 128)" by (simp_all add: list_all_iff)
  from this [rule_format, of "unat b"]
  show "b AND 0xf0 = 16 \<longleftrightarrow> 16 \<le> unat b \<and> unat b < 32" "b AND 0xc0 = 64 \<longleftrightarrow> 64 \<le> unat b \<and> unat b < 128"
    using unat_byte_less [of b] by simp_all
qed

lemma clear_low_bits: "(w :: u16) AND NOT (mask n) = push_bit n (drop_bit n w)"
  by (rule bit_eqI) (auto simp: bit_simps)

lemma high_bits:
  "(w :: u16) AND 0xfe00 = 0xfc00 \<longleftrightarrow> unat w div 512 = 126" "w AND 0xffc0 = 0xfe80 \<longleftrightarrow> unat w div 64 = 1018"
proof -
  have m: "(0xfe00 :: u16) = NOT (mask 9)" "(0xffc0 :: u16) = NOT (mask 6)" by (simp_all add: mask_eq_exp_minus_1)
  have "unat w < 65536" using unat_bound [of w] by simp
  then have lt: "unat w div 512 < 128" "unat w div 64 < 1024" by simp_all
  have "unat (w AND 0xfe00) = unat w div 512 * 512" "unat (w AND 0xffc0) = unat w div 64 * 64"
    unfolding m clear_low_bits using lt
    by (simp_all add: drop_bit_eq_div push_bit_eq_mult unat_word_ariths unat_div_distrib)
  moreover have "w AND 0xfe00 = 0xfc00 \<longleftrightarrow> unat (w AND 0xfe00) = unat (0xfc00 :: u16)"
    "w AND 0xffc0 = 0xfe80 \<longleftrightarrow> unat (w AND 0xffc0) = unat (0xfe80 :: u16)" by (simp_all only: word_unat_eq_iff)
  ultimately show "w AND 0xfe00 = 0xfc00 \<longleftrightarrow> unat w div 512 = 126" "w AND 0xffc0 = 0xfe80 \<longleftrightarrow> unat w div 64 = 1018"
    by simp_all
qed

lemma group_prefix:
  assumes "(y :: nat) < 256"
  shows "(x * 256 + y) div 512 = 126 \<longleftrightarrow> x = 252 \<or> x = 253"
    "(x * 256 + y) div 64 = 1018 \<longleftrightarrow> x = 254 \<and> 128 \<le> y \<and> y < 192"
proof -
  have "(x * 256 + y) div 512 = (x * 256 + y) div 256 div 2" by (simp only: div_mult2_eq [symmetric]) simp
  also have "(x * 256 + y) div 256 = x" using assms by simp
  finally show "(x * 256 + y) div 512 = 126 \<longleftrightarrow> x = 252 \<or> x = 253" by auto
  have "(x * 256 + y) div 64 = (y + 64 * (4 * x)) div 64" by (simp add: mult.commute add.commute)
  also have "\<dots> = 4 * x + y div 64" by simp
  finally have e: "(x * 256 + y) div 64 = 4 * x + y div 64" .
  have "y div 64 < 4" using assms by simp
  then consider "y div 64 = 0" | "y div 64 = 1" | "y div 64 = 2" | "y div 64 = 3" by linarith
  then have "4 * x + y div 64 = 1018 \<longleftrightarrow> x = 254 \<and> y div 64 = 2" by (cases; presburger)
  also have "y div 64 = 2 \<longleftrightarrow> 128 \<le> y \<and> y < 192" by auto
  finally show "(x * 256 + y) div 64 = 1018 \<longleftrightarrow> x = 254 \<and> 128 \<le> y \<and> y < 192" unfolding e .
qed

lemma hidden_address_iff: "hidden_address ip \<longleftrightarrow> is_local ip \<or> is_loopback ip \<or> is_unspecified ip"
proof (cases ip)
  case (IpV4 b)
  have byte: "b ! k = n \<longleftrightarrow> unat (b ! k) = unat n" for k n by (simp only: word_unat_eq_iff)
  show ?thesis
    by (auto simp: IpV4 hidden_address_def is_local_def is_private_def is_link_local_def is_loopback_def is_unspecified_def
        Let_def byte_and_table byte [of 0] byte [of "Suc 0"])
next
  case (IpV6 b)
  have lt: "unat (b ! 0) * 256 + unat (b ! 1) < 65536" using unat_byte_less [of "b ! 0"] unat_byte_less [of "b ! 1"] by simp
  have two: "nat_of_le (rev [b ! 0, b ! 1]) = unat (b ! 0) * 256 + unat (b ! 1)" by simp
  have u: "unat (be_u16 [b ! 0, b ! 1]) = unat (b ! 0) * 256 + unat (b ! 1)"
    unfolding be_u16_def two using lt by (rule unat_u16_of_nat)
  have "unat (be_u16 [b ! 0, b ! 1]) div 512 = 126 \<longleftrightarrow> unat (b ! 0) = 252 \<or> unat (b ! 0) = 253"
    "unat (be_u16 [b ! 0, b ! 1]) div 64 = 1018 \<longleftrightarrow> unat (b ! 0) = 254 \<and> 128 \<le> unat (b ! 1) \<and> unat (b ! 1) < 192"
    unfolding u using group_prefix [OF unat_byte_less] by blast+
  then show ?thesis
    by (auto simp: IpV6 hidden_address_def is_local_def is_loopback_def is_unspecified_def Let_def high_bits)
qed

lemma adjacent_iff: "(a, b) \<in> set (zip ws (tl ws)) \<longleftrightarrow> (\<exists>us vs. ws = us @ [a, b] @ vs)"
proof (induction ws)
  case (Cons w ws)
  show ?case
  proof
    assume "(a, b) \<in> set (zip (w # ws) (tl (w # ws)))"
    then consider "a = w" "\<exists>vs. ws = b # vs" | "(a, b) \<in> set (zip ws (tl ws))" by (cases ws) auto
    then show "\<exists>us vs. w # ws = us @ [a, b] @ vs"
    proof cases
      case 1
      then obtain vs where "w # ws = [] @ [a, b] @ vs" by auto
      then show ?thesis by blast
    next
      case 2
      then obtain us vs where "ws = us @ [a, b] @ vs" using Cons.IH by blast
      then have "w # ws = (w # us) @ [a, b] @ vs" by simp
      then show ?thesis by blast
    qed
  next
    assume "\<exists>us vs. w # ws = us @ [a, b] @ vs"
    then obtain us vs where e: "w # ws = us @ [a, b] @ vs" by blast
    show "(a, b) \<in> set (zip (w # ws) (tl (w # ws)))"
    proof (cases us)
      case (Cons u us')
      with e have "ws = us' @ [a, b] @ vs" by simp
      with Cons.IH have "(a, b) \<in> set (zip ws (tl ws))" by blast
      then show ?thesis by (cases ws) auto
    qed (use e in auto)
  qed
qed simp

lemma show_ipv4_plain: "c \<in> set (show_ipv4 b) \<Longrightarrow> 32 < c \<and> c < 128"
proof -
  have "32 < c \<and> c < 128" if "c \<in> set (ascii (dec_nat n))" for n :: nat
    using ascii_dec_digits [OF that] by (auto simp: word_le_nat_alt word_less_nat_alt)
  then show "c \<in> set (show_ipv4 b) \<Longrightarrow> 32 < c \<and> c < 128" by (auto simp: show_ipv4_def dec_byte_def)
qed

lemma show_ip_plain: "ip_ok ip \<Longrightarrow> plain_word (show_ip ip)"
proof -
  assume ip: "ip_ok ip"
  have "32 < c \<and> c < 128" if "c \<in> set (show_ip6 b)" for c b
  proof (rule ccontr)
    assume bad: "\<not> (32 < c \<and> c < 128)"
    then have "c \<notin> {58}" "\<forall>g. c \<notin> set (hex_nat g)" using hex_nat_plain by auto
    then have "c \<notin> set (show_ipv6 b)" by (rule show_ipv6_chars)
    with that bad show False using show_ipv4_plain [of c] by (auto simp: show_ip6_def ascii_def split: option.splits)
  qed
  with show_ip_not_Nil [OF ip] show ?thesis
    by (auto simp: plain_word_def show_ip_def list_all_iff show_ipv4_plain split: ip_addr.splits)
qed

lemma split_join_words: "list_all plain_word ws \<Longrightarrow> ws \<noteq> [] \<Longrightarrow> split_whitespace (join 32 ws) = ws"
proof (induction ws)
  case (Cons w ws)
  then show ?case by (cases ws) (simp_all add: split_whitespace_word split_whitespace_words)
qed simp

text \<open>Trimming takes the line's end and no more.\<close>

lemma strip_prefixes_suffix: "\<exists>t. s = t @ strip_prefixes k ws s"
proof (induction k arbitrary: s)
  case (Suc k)
  show ?case
  proof (cases "filter (\<lambda>w. starts_with w s) ws")
    case (Cons w r)
    from Suc.IH [of "drop (length w) s"] obtain t where t: "drop (length w) s = t @ strip_prefixes k ws (drop (length w) s)" ..
    have "s = take (length w) s @ drop (length w) s" by simp
    also have "\<dots> = (take (length w) s @ t) @ strip_prefixes k ws (drop (length w) s)" by (subst (1) t) simp
    finally have "s = (take (length w) s @ t) @ strip_prefixes k ws (drop (length w) s)" .
    moreover have "strip_prefixes (Suc k) ws s = strip_prefixes k ws (drop (length w) s)" using Cons by simp
    ultimately show ?thesis by (metis (no_types))
  qed simp
qed simp

lemma trim_end_prefix: "\<exists>t. s = trim_end s @ t"
proof -
  from strip_prefixes_suffix [of "rev s" "length s" "map rev white_space"] obtain t where
    "rev s = t @ strip_prefixes (length s) (map rev white_space) (rev s)" ..
  then have "s = rev (strip_prefixes (length s) (map rev white_space) (rev s)) @ rev t" by (metis rev_append rev_rev_ident)
  then show ?thesis unfolding trim_end_def ..
qed

lemma white_space_lasts: "list_all (\<lambda>w. w \<noteq> [] \<and> (last w \<le> 32 \<or> 128 \<le> last w)) white_space"
  by (simp add: white_space_def)

lemma trim_line_end: "b \<noteq> [] \<Longrightarrow> 32 < last b \<Longrightarrow> last b < 128 \<Longrightarrow> trim_end (b @ [13, 10]) = b"
proof -
  assume b: "b \<noteq> []" "32 < last b" "last b < 128"
  have none: "filter (\<lambda>w. starts_with w (rev b)) (map rev white_space) = []"
  proof -
    have "\<not> starts_with (rev w) (rev b)" if "w \<in> set white_space" for w
    proof
      assume "starts_with (rev w) (rev b)"
      moreover have w: "w \<noteq> []" "last w \<le> 32 \<or> 128 \<le> last w" using white_space_lasts that by (auto simp: list_all_iff)
      ultimately have "hd (rev w) = hd (rev b)" using b(1) by (cases "rev w"; cases "rev b") (auto simp: starts_with_def)
      then have "last w = last b" by (simp add: hd_rev)
      with w(2) b(2,3) show False by (auto simp: not_less [symmetric])
    qed
    then show ?thesis by (auto simp: filter_empty_conv)
  qed
  have stop: "strip_prefixes k (map rev white_space) (rev b) = rev b" for k by (cases k) (simp_all add: none)
  have "filter (\<lambda>w. starts_with w (10 # 13 # rev b)) (map rev white_space) = [[10]]"
    "filter (\<lambda>w. starts_with w (13 # rev b)) (map rev white_space) = [[13]]"
    by (simp_all add: white_space_def starts_with_def)
  then show ?thesis by (simp add: trim_end_def stop)
qed

lemma last_join: "list_all plain_word ws \<Longrightarrow> ws \<noteq> [] \<Longrightarrow> join 32 ws \<noteq> [] \<and> 32 < last (join 32 ws) \<and> last (join 32 ws) < 128"
proof (induction ws)
  case (Cons w ws)
  then show ?case by (cases ws) (auto simp: plain_word_def list_all_iff)
qed simp

lemma stripped_candidate_line:
  assumes ws: "list_all plain_word ws" "ws \<noteq> []"
  shows "stripped_line keep_local (candidate_line ws) \<longleftrightarrow> \<not> keep_local \<and> announces_hidden ws"
proof -
  have "last (CANDIDATE @ join 32 ws) = last (join 32 ws)" using last_join [OF ws] by (simp only: last_append if_False)
  then have t: "trim_end (candidate_line ws) = CANDIDATE @ join 32 ws"
    using trim_line_end [of "CANDIDATE @ join 32 ws"] last_join [OF ws] unfolding candidate_line_def append.assoc by auto
  have fields: "split_whitespace (drop (length CANDIDATE) (CANDIDATE @ join 32 ws)) = ws"
    by (simp only: append_eq_conv_conj [of CANDIDATE, THEN iffD1, OF refl, THEN conjunct2, symmetric] split_join_words [OF ws])
  show ?thesis unfolding stripped_line_def Let_def t fields adjacent_iff announces_hidden_def
    by (auto simp: starts_with_def keep_host_candidate_def hidden_address_iff split: option.splits)
qed

lemma filter_eq_filter: "filter ((=) x) (filter P xs) = (if P x then filter ((=) x) xs else [])"
  by (induction xs) auto

lemma strip_hides_local_hosts:
  "subseq (crlf_lines (strip_host_candidates sdp keep_local)) (crlf_lines sdp)"
  "list_all plain_word ws \<Longrightarrow> ws \<noteq> [] \<Longrightarrow>
     filter ((=) (candidate_line ws)) (crlf_lines (strip_host_candidates sdp keep_local)) =
       (if \<not> keep_local \<and> announces_hidden ws then [] else filter ((=) (candidate_line ws)) (crlf_lines sdp))"
  "filter (\<lambda>l. \<not> starts_with CANDIDATE l) (crlf_lines (strip_host_candidates sdp keep_local)) =
     filter (\<lambda>l. \<not> starts_with CANDIDATE l) (crlf_lines sdp)"
proof -
  have "starts_with CANDIDATE l" if "stripped_line keep_local l" for l
  proof -
    from that have "starts_with CANDIDATE (trim_end l)" by (simp add: stripped_line_def Let_def)
    moreover obtain t where "l = trim_end l @ t" using trim_end_prefix by blast
    ultimately show ?thesis using starts_with_append by metis
  qed
  then have "filter (\<lambda>l. \<not> starts_with CANDIDATE l) (filter (\<lambda>l. \<not> stripped_line keep_local l) ls) =
      filter (\<lambda>l. \<not> starts_with CANDIDATE l) ls" for ls
    by (auto simp: filter_filter intro!: filter_cong)
  then show "filter (\<lambda>l. \<not> starts_with CANDIDATE l) (crlf_lines (strip_host_candidates sdp keep_local)) =
     filter (\<lambda>l. \<not> starts_with CANDIDATE l) (crlf_lines sdp)"
    unfolding strip_host_candidates_def crlf_lines_filter .
  show "subseq (crlf_lines (strip_host_candidates sdp keep_local)) (crlf_lines sdp)"
    unfolding strip_host_candidates_def crlf_lines_filter by (rule subseq_filter_left)
  assume "list_all plain_word ws" "ws \<noteq> []"
  from stripped_candidate_line [OF this] show "filter ((=) (candidate_line ws)) (crlf_lines (strip_host_candidates sdp keep_local)) =
       (if \<not> keep_local \<and> announces_hidden ws then [] else filter ((=) (candidate_line ws)) (crlf_lines sdp))"
    unfolding strip_host_candidates_def crlf_lines_filter filter_eq_filter by simp
qed

section \<open>Preparing an offer\<close>

text \<open>The first IPv4 address of each server whose name resolves in time.\<close>

definition resolve_ice :: "(bytes \<Rightarrow> socket_addr list option) \<Rightarrow> bytes list \<Rightarrow> socket_addr list" where
  "resolve_ice lookup servers =
     concat (map (\<lambda>s. case lookup (strip_stun s) of
                        None \<Rightarrow> []
                      | Some addrs \<Rightarrow> (case List.find is_ipv4 addrs of Some a \<Rightarrow> [a] | None \<Rightarrow> [])) servers)"

text \<open>The sockets, and the stack: whether it takes a host candidate and a server-reflexive one, and the offer it makes of the
  candidates for a channel with a label.\<close>

record webrtc_env =
  wr_lookup :: "bytes \<Rightarrow> socket_addr list option"
  wr_bind :: "u16 option"
  wr_route :: "socket_addr \<Rightarrow> ip_addr option"
  wr_host_ok :: "socket_addr \<Rightarrow> bool"
  wr_reflexive_ok :: "socket_addr \<Rightarrow> socket_addr \<Rightarrow> bool"
  wr_offer :: "socket_addr \<Rightarrow> socket_addr list \<Rightarrow> bytes \<Rightarrow> bytes option"

datatype webrtc_error = SocketFailed | NoLocalAddress | BadCandidate | NoOffer

definition ICE_GATHER_TIMEOUT :: nat where "ICE_GATHER_TIMEOUT = 5000"

text \<open>The mapped addresses of the responses, each once.\<close>

fun mapped_once :: "socket_addr list \<Rightarrow> socket_addr option list \<Rightarrow> socket_addr list" where
  "mapped_once seen [] = []"
| "mapped_once seen (None # ms) = mapped_once seen ms"
| "mapped_once seen (Some m # ms) = (if is_ipv4 m \<and> m \<notin> set seen then m # mapped_once (seen @ [m]) ms else mapped_once seen ms)"

record webrtc_offer =
  of_host :: socket_addr
  of_reflexive :: "socket_addr list"
  of_sdp :: bytes

text \<open>\<open>txid\<close> are the random transaction ids; the result may still be waiting for the servers.\<close>

definition prepare :: "webrtc_env \<Rightarrow> bytes \<Rightarrow> bytes list \<Rightarrow> bool \<Rightarrow> (nat \<Rightarrow> bytes) \<Rightarrow> nat \<Rightarrow> (nat \<times> udp_event) list \<Rightarrow>
    (webrtc_offer, webrtc_error) res option" where
  "prepare env label ice_servers keep_local txid start evs =
     (let servers = resolve_ice (wr_lookup env) ice_servers
      in case wr_bind env of
           None \<Rightarrow> Some (Err SocketFailed)
         | Some port \<Rightarrow>
             let toward = (case servers of s # _ \<Rightarrow> s | [] \<Rightarrow> (IpV4 [192, 0, 2, 1], 3478))
             in (case wr_route env toward of
                   None \<Rightarrow> Some (Err NoLocalAddress)
                 | Some local_ip \<Rightarrow>
                     if is_unspecified local_ip then Some (Err NoLocalAddress)
                     else let host = (local_ip, port)
                          in if \<not> wr_host_ok env host then Some (Err BadCandidate)
                             else (case bind_all (zip (map txid [0..<length servers]) servers) start ICE_GATHER_TIMEOUT evs of
                                     None \<Rightarrow> None
                                   | Some b \<Rightarrow>
                                       let reflexive = filter (\<lambda>m. wr_reflexive_ok env m host) (mapped_once [] (map (mapped \<circ> snd) (bn_out b)))
                                       in Some (case wr_offer env host reflexive label of
                                                  None \<Rightarrow> Err NoOffer
                                                | Some sdp \<Rightarrow> Ok \<lparr>of_host = host, of_reflexive = reflexive,
                                                    of_sdp = strip_host_candidates sdp keep_local\<rparr>))))"

text \<open>C28: An offer shows no local address.  The lines of what goes to the broker are among those of the stack's offer, in
  order.  Unless local addresses are to be kept, no candidate line of words separated by a space is a host candidate for a
  private, link-local, shared, loopback or unspecified address; every other such line, of whatever type, and every line that
  is no candidate is there exactly as often as the stack made it.\<close>

theorem offer_hides_local_hosts:
  assumes "prepare env label ice_servers keep_local txid start evs = Some (Ok offer)"
  shows "\<exists>sdp. wr_offer env (of_host offer) (of_reflexive offer) label = Some sdp \<and>
    subseq (crlf_lines (of_sdp offer)) (crlf_lines sdp) \<and>
    (\<forall>ws. list_all plain_word ws \<and> ws \<noteq> [] \<longrightarrow>
       filter ((=) (candidate_line ws)) (crlf_lines (of_sdp offer)) =
         (if \<not> keep_local \<and> announces_hidden ws then [] else filter ((=) (candidate_line ws)) (crlf_lines sdp))) \<and>
    filter (\<lambda>l. \<not> starts_with CANDIDATE l) (crlf_lines (of_sdp offer)) = filter (\<lambda>l. \<not> starts_with CANDIDATE l) (crlf_lines sdp)"
proof -
  from assms obtain sdp where "wr_offer env (of_host offer) (of_reflexive offer) label = Some sdp"
    "of_sdp offer = strip_host_candidates sdp keep_local"
    by (auto simp: prepare_def Let_def split: option.splits if_splits)
  with strip_hides_local_hosts [where sdp = sdp and keep_local = keep_local] show ?thesis by auto
qed

section \<open>The task of a connection\<close>

text \<open>What the stack gives when polled, and takes; events of other channels carry their number.\<close>

datatype rtc_output = RtcTimeout nat | RtcTransmit bytes | ChannelOpen nat | ChannelData nat bytes | ChannelClose nat
  | IceDisconnected | OtherEvent

datatype rtc_input = RtcReceive bytes | RtcTimePassed nat

record 'r rtc_ops =
  rt_poll :: "'r \<Rightarrow> (rtc_output, unit) res \<times> 'r"
  rt_threshold :: "nat \<Rightarrow> nat \<Rightarrow> 'r \<Rightarrow> 'r"
  rt_write :: "nat \<Rightarrow> bytes \<Rightarrow> 'r \<Rightarrow> (bool, unit) res option \<times> 'r"
  rt_alive :: "'r \<Rightarrow> bool"
  rt_disconnect :: "'r \<Rightarrow> 'r"
  rt_packet :: "bytes \<Rightarrow> bool"
  rt_accepts :: "rtc_input \<Rightarrow> 'r \<Rightarrow> bool"
  rt_handle :: "rtc_input \<Rightarrow> 'r \<Rightarrow> 'r"

definition BUFFERED_LOW :: nat where "BUFFERED_LOW = 256 * 1024"

text \<open>Where \<open>drive\<close> is: polling the stack, in its \<open>select!\<close>, or returned.\<close>

datatype drive_phase = Polling | Selecting | Returned

record 'r driver =
  dv_rtc :: 'r
  dv_open_tx :: bool
  dv_open :: bool
  dv_blocked :: "bytes option"
  dv_peer :: peer
  dv_phase :: drive_phase

definition drive_begin :: "'r \<Rightarrow> peer \<Rightarrow> 'r driver" where
  "drive_begin r p = \<lparr>dv_rtc = r, dv_open_tx = True, dv_open = False, dv_blocked = None, dv_peer = p, dv_phase = Polling\<rparr>"

text \<open>What is seen from outside: the open signal, a message the channel took, one put into \<open>incoming\<close>; and of the
  snowflake's other tasks, a message written and one read.\<close>

datatype drive_event = DvQuiet | DvSignal | DvSent bytes | DvDelivered bytes | DvWritten bytes | DvTaken bytes

definition drive_close :: "'r driver \<Rightarrow> 'r driver" where "drive_close dv = dv\<lparr>dv_peer := peer_close (dv_peer dv)\<rparr>"

definition drive_output :: "'r rtc_ops \<Rightarrow> nat \<Rightarrow> nat \<Rightarrow> rtc_output \<Rightarrow> 'r driver \<Rightarrow> drive_event \<times> 'r driver" where
  "drive_output W cid now out dv =
     (case out of
        ChannelOpen c \<Rightarrow>
          if c = cid then
            (if dv_open_tx dv then DvSignal else DvQuiet,
             dv\<lparr>dv_peer := peer_opened (dv_peer dv), dv_open := True, dv_rtc := rt_threshold W cid BUFFERED_LOW (dv_rtc dv), dv_open_tx := False\<rparr>)
          else (DvQuiet, dv)
      | ChannelData c d \<Rightarrow>
          if c = cid then
            (DvDelivered d, let p = peer_received now (dv_peer dv) in dv\<lparr>dv_peer := p\<lparr>pr_rx := pr_rx p @ [d]\<rparr>\<rparr>)
          else (DvQuiet, dv)
      | ChannelClose c \<Rightarrow> (DvQuiet, if c = cid then drive_close dv else dv)
      | IceDisconnected \<Rightarrow> (DvQuiet, drive_close dv)
      | _ \<Rightarrow> (DvQuiet, dv))"

text \<open>What follows the polling: the check whether to go on, and the message the channel refused before.  When the task
  returns, its ends of the channels go away.\<close>

definition drive_turn :: "'r rtc_ops \<Rightarrow> nat \<Rightarrow> 'r driver \<Rightarrow> drive_event \<times> 'r driver" where
  "drive_turn W cid dv =
     (if pr_closed (dv_peer dv) \<or> \<not> rt_alive W (dv_rtc dv) then
        (DvQuiet, dv\<lparr>dv_peer := (peer_close (dv_peer dv))\<lparr>pr_out_open := False, pr_rx_open := False\<rparr>,
                     dv_rtc := rt_disconnect W (dv_rtc dv), dv_open_tx := False, dv_phase := Returned\<rparr>)
      else case (if dv_open dv then dv_blocked dv else None) of
        None \<Rightarrow> (DvQuiet, dv\<lparr>dv_phase := Selecting\<rparr>)
      | Some msg \<Rightarrow>
          (case rt_write W cid msg (dv_rtc dv) of
             (Some (Ok True), r) \<Rightarrow> (DvSent msg, dv\<lparr>dv_rtc := r, dv_blocked := None, dv_phase := Polling\<rparr>)
           | (Some (Ok False), r) \<Rightarrow> (DvQuiet, dv\<lparr>dv_rtc := r, dv_phase := Selecting\<rparr>)
           | (_, r) \<Rightarrow> (DvQuiet, drive_close (dv\<lparr>dv_rtc := r, dv_blocked := None, dv_phase := Polling\<rparr>))))"

definition drive_poll :: "'r rtc_ops \<Rightarrow> nat \<Rightarrow> nat \<Rightarrow> 'r driver \<Rightarrow> drive_event \<times> 'r driver" where
  "drive_poll W cid now dv =
     (case rt_poll W (dv_rtc dv) of
        (Ok (RtcTimeout _), r) \<Rightarrow> drive_turn W cid (dv\<lparr>dv_rtc := r\<rparr>)
      | (Ok out, r) \<Rightarrow> drive_output W cid now out (dv\<lparr>dv_rtc := r\<rparr>)
      | (_, r) \<Rightarrow> drive_turn W cid (drive_close (dv\<lparr>dv_rtc := r\<rparr>)))"

text \<open>The branches of the \<open>select!\<close>: a datagram into the buffer of 2048 bytes, a message to send, the timer.\<close>

definition drive_datagram :: "'r rtc_ops \<Rightarrow> bytes \<Rightarrow> 'r driver \<Rightarrow> 'r driver" where
  "drive_datagram W d dv =
     (let input = RtcReceive (take 2048 d); dv = dv\<lparr>dv_phase := Polling\<rparr>
      in if rt_packet W (take 2048 d) \<and> rt_accepts W input (dv_rtc dv) then dv\<lparr>dv_rtc := rt_handle W input (dv_rtc dv)\<rparr> else dv)"

definition drive_outgoing :: "'r rtc_ops \<Rightarrow> nat \<Rightarrow> 'r driver \<Rightarrow> (drive_event \<times> 'r driver) option" where
  "drive_outgoing W cid dv =
     (if \<not> dv_open dv \<or> dv_blocked dv \<noteq> None then None
      else case pr_out (dv_peer dv) of
        [] \<Rightarrow> None
      | msg # q \<Rightarrow>
          let dv = dv\<lparr>dv_peer := (dv_peer dv)\<lparr>pr_out := q\<rparr>, dv_phase := Polling\<rparr>
          in Some (case rt_write W cid msg (dv_rtc dv) of
                     (Some (Ok True), r) \<Rightarrow> (DvSent msg, dv\<lparr>dv_rtc := r\<rparr>)
                   | (Some (Ok False), r) \<Rightarrow> (DvQuiet, dv\<lparr>dv_rtc := r, dv_blocked := Some msg\<rparr>)
                   | (_, r) \<Rightarrow> (DvQuiet, drive_close (dv\<lparr>dv_rtc := r\<rparr>))))"

definition drive_timer :: "'r rtc_ops \<Rightarrow> nat \<Rightarrow> 'r driver \<Rightarrow> 'r driver" where
  "drive_timer W now dv = dv\<lparr>dv_rtc := rt_handle W (RtcTimePassed now) (dv_rtc dv), dv_phase := Polling\<rparr>"

text \<open>The task and, between its waits, the other tasks of the snowflake.  The sender of \<open>outgoing\<close> is held by the peer,
  which the task holds, so that channel never ends.\<close>

inductive drive_step :: "'r rtc_ops \<Rightarrow> nat \<Rightarrow> 'r driver \<Rightarrow> drive_event \<Rightarrow> 'r driver \<Rightarrow> bool" for W cid where
  poll: "dv_phase dv = Polling \<Longrightarrow> drive_poll W cid now dv = (ev, dv') \<Longrightarrow> drive_step W cid dv ev dv'"
| datagram: "dv_phase dv = Selecting \<Longrightarrow> drive_step W cid dv DvQuiet (drive_datagram W d dv)"
| recv_failed: "dv_phase dv = Selecting \<Longrightarrow> drive_step W cid dv DvQuiet (dv\<lparr>dv_phase := Polling\<rparr>)"
| outgoing: "dv_phase dv = Selecting \<Longrightarrow> drive_outgoing W cid dv = Some (ev, dv') \<Longrightarrow> drive_step W cid dv ev dv'"
| timer: "dv_phase dv = Selecting \<Longrightarrow> drive_step W cid dv DvQuiet (drive_timer W now dv)"
| woken: "dv_phase dv = Selecting \<Longrightarrow> pr_closed (dv_peer dv) \<Longrightarrow> drive_step W cid dv DvQuiet (dv\<lparr>dv_phase := Polling\<rparr>)"
| writes: "peer_write m (dv_peer dv) = (Some (Ok u), p) \<Longrightarrow> drive_step W cid dv (DvWritten m) (dv\<lparr>dv_peer := p\<rparr>)"
| takes: "peer_select closed_first (dv_peer dv) = (Some (Some m), p) \<Longrightarrow> drive_step W cid dv (DvTaken m) (dv\<lparr>dv_peer := p\<rparr>)"
| closes: "drive_step W cid dv DvQuiet (drive_close dv)"

inductive drive_run :: "'r rtc_ops \<Rightarrow> nat \<Rightarrow> 'r driver \<Rightarrow> drive_event list \<Rightarrow> 'r driver \<Rightarrow> bool" for W cid where
  drive_start: "drive_run W cid dv [] dv"
| drive_more: "drive_run W cid dv evs dv' \<Longrightarrow> drive_step W cid dv' ev dv'' \<Longrightarrow> drive_run W cid dv (evs @ [ev]) dv''"

inductive_cases drive_stepE: "drive_step W cid dv ev dv'"

section \<open>The channel keeps the order of messages\<close>

definition dv_written :: "drive_event list \<Rightarrow> bytes list" where
  "dv_written evs = concat (map (\<lambda>ev. case ev of DvWritten m \<Rightarrow> [m] | _ \<Rightarrow> []) evs)"

definition dv_sent :: "drive_event list \<Rightarrow> bytes list" where
  "dv_sent evs = concat (map (\<lambda>ev. case ev of DvSent m \<Rightarrow> [m] | _ \<Rightarrow> []) evs)"

definition dv_delivered :: "drive_event list \<Rightarrow> bytes list" where
  "dv_delivered evs = concat (map (\<lambda>ev. case ev of DvDelivered m \<Rightarrow> [m] | _ \<Rightarrow> []) evs)"

definition dv_taken :: "drive_event list \<Rightarrow> bytes list" where
  "dv_taken evs = concat (map (\<lambda>ev. case ev of DvTaken m \<Rightarrow> [m] | _ \<Rightarrow> []) evs)"

lemmas dv_seen_defs = dv_written_def dv_sent_def dv_delivered_def dv_taken_def

definition dv_waiting :: "'r driver \<Rightarrow> bytes list" where
  "dv_waiting dv = (case dv_blocked dv of Some m \<Rightarrow> [m] | None \<Rightarrow> []) @ pr_out (dv_peer dv)"

lemma dv_seen_append [simp]:
  "dv_written (evs @ [ev]) = dv_written evs @ dv_written [ev]" "dv_sent (evs @ [ev]) = dv_sent evs @ dv_sent [ev]"
  "dv_delivered (evs @ [ev]) = dv_delivered evs @ dv_delivered [ev]" "dv_taken (evs @ [ev]) = dv_taken evs @ dv_taken [ev]"
  by (simp_all add: dv_seen_defs)

lemma dv_seen_one [simp]:
  "dv_written [ev] = (case ev of DvWritten m \<Rightarrow> [m] | _ \<Rightarrow> [])" "dv_sent [ev] = (case ev of DvSent m \<Rightarrow> [m] | _ \<Rightarrow> [])"
  "dv_delivered [ev] = (case ev of DvDelivered m \<Rightarrow> [m] | _ \<Rightarrow> [])" "dv_taken [ev] = (case ev of DvTaken m \<Rightarrow> [m] | _ \<Rightarrow> [])"
  by (simp_all add: dv_seen_defs)

text \<open>Once a message was lost the peer is closed and the task is about to return, so nothing is sent after it.\<close>

definition sending_ok :: "drive_event list \<Rightarrow> 'r driver \<Rightarrow> bool" where
  "sending_ok evs dv \<longleftrightarrow> dv_sent evs @ dv_waiting dv = dv_written evs \<or>
     pr_closed (dv_peer dv) \<and> dv_phase dv \<noteq> Selecting \<and> prefix (dv_sent evs) (dv_written evs)"

definition signal_ok :: "drive_event list \<Rightarrow> 'r driver \<Rightarrow> bool" where
  "signal_ok evs dv \<longleftrightarrow> (if dv_open dv then \<not> dv_open_tx dv \<and> count_list evs DvSignal = Suc 0
     else dv_sent evs = [] \<and> dv_blocked dv = None \<and> count_list evs DvSignal = 0 \<and> (dv_open_tx dv \<or> dv_phase dv = Returned)) \<and>
     (dv_phase dv = Returned \<longrightarrow> pr_closed (dv_peer dv))"

definition receiving_ok :: "drive_event list \<Rightarrow> 'r driver \<Rightarrow> bool" where
  "receiving_ok evs dv \<longleftrightarrow> dv_taken evs @ pr_rx (dv_peer dv) = dv_delivered evs"

lemmas drive_defs = drive_close_def peer_close_def peer_opened_def peer_emit_def peer_received_def dv_waiting_def Let_def
  sending_ok_def signal_ok_def receiving_ok_def

definition drive_inv :: "drive_event list \<Rightarrow> 'r driver \<Rightarrow> bool" where
  "drive_inv evs dv \<longleftrightarrow> sending_ok evs dv \<and> signal_ok evs dv \<and> receiving_ok evs dv"

lemma drive_begin_inv: "pr_out p = [] \<Longrightarrow> pr_rx p = [] \<Longrightarrow> drive_inv [] (drive_begin r p)"
  by (simp add: drive_inv_def drive_begin_def dv_seen_defs drive_defs)

text \<open>A step of the task keeps the invariant: \<open>drive_keeps\<close> says so of what it gives.\<close>

definition drive_keeps :: "drive_event list \<Rightarrow> drive_event \<times> 'r driver \<Rightarrow> bool" where
  "drive_keeps evs x \<longleftrightarrow> drive_inv (evs @ [fst x]) (snd x)"

lemma drive_output_inv:
  assumes "drive_inv evs dv" and "dv_phase dv = Polling"
  shows "drive_keeps evs (drive_output W cid now out (dv\<lparr>dv_rtc := r\<rparr>))"
  using assms unfolding drive_keeps_def drive_inv_def
  by (cases out) (auto simp: drive_output_def drive_defs split: if_splits)

lemma drive_close_inv: "drive_inv evs dv \<Longrightarrow> drive_inv evs (drive_close dv)"
  by (auto simp: drive_inv_def drive_defs split: if_splits)

lemma drive_rtc_inv: "drive_inv evs dv \<Longrightarrow> drive_inv evs (dv\<lparr>dv_rtc := r\<rparr>)"
  by (simp add: drive_inv_def drive_defs)

lemma drive_turn_inv:
  assumes "drive_inv evs dv" and "dv_phase dv = Polling"
  shows "drive_keeps evs (drive_turn W cid dv)"
proof (cases "pr_closed (dv_peer dv) \<or> \<not> rt_alive W (dv_rtc dv)")
  case True
  then show ?thesis using assms
    by (auto simp: drive_keeps_def drive_turn_def drive_inv_def drive_defs split: if_splits)
next
  case False
  then have all: "dv_sent evs @ dv_waiting dv = dv_written evs" using assms(1) by (simp add: drive_inv_def sending_ok_def)
  show ?thesis
  proof (cases "if dv_open dv then dv_blocked dv else None")
    case None
    with False all assms show ?thesis by (auto simp: drive_keeps_def drive_turn_def drive_inv_def drive_defs split: if_splits)
  next
    case (Some msg)
    then have msg: "dv_open dv" "dv_blocked dv = Some msg" by (auto split: if_splits)
    obtain x r where w: "rt_write W cid msg (dv_rtc dv) = (x, r)" by force
    have "prefix (dv_sent evs) (dv_written evs)" using all [symmetric] by (simp add: prefix_def)
    with False msg w all assms show ?thesis
      by (cases "x = Some (Ok True)"; cases "x = Some (Ok False)")
        (auto simp: drive_keeps_def drive_turn_def drive_inv_def drive_defs split: option.splits res.splits bool.splits)
  qed
qed

lemma drive_poll_inv:
  assumes "drive_inv evs dv" and "dv_phase dv = Polling"
  shows "drive_keeps evs (drive_poll W cid now dv)"
proof -
  obtain x r where r: "rt_poll W (dv_rtc dv) = (x, r)" by force
  have turn: "drive_keeps evs (drive_turn W cid (dv\<lparr>dv_rtc := r\<rparr>))"
    and failed: "drive_keeps evs (drive_turn W cid (drive_close (dv\<lparr>dv_rtc := r\<rparr>)))"
    by (intro drive_turn_inv drive_close_inv drive_rtc_inv assms, simp add: assms(2) drive_close_def)+
  note out = drive_output_inv [OF assms, of W cid now _ r]
  show ?thesis using r turn failed out by (auto simp: drive_poll_def split: res.splits rtc_output.splits)
qed

lemma drive_outgoing_inv:
  assumes "drive_inv evs dv" and "dv_phase dv = Selecting" and "drive_outgoing W cid dv = Some x"
  shows "drive_keeps evs x"
proof -
  from assms(3) obtain msg q where q: "dv_open dv" "dv_blocked dv = None" "pr_out (dv_peer dv) = msg # q"
    by (auto simp: drive_outgoing_def split: if_splits list.splits)
  have all: "dv_sent evs @ msg # q = dv_written evs" using assms(1,2) q by (simp add: drive_inv_def sending_ok_def dv_waiting_def)
  then have pre: "prefix (dv_sent evs) (dv_written evs)" by (simp add: prefix_def flip: all)
  obtain w r where w: "rt_write W cid msg (dv_rtc dv) = (w, r)" by force
  show ?thesis using assms q w all pre
    by (cases "w = Some (Ok True)"; cases "w = Some (Ok False)")
      (auto simp: drive_outgoing_def drive_keeps_def drive_inv_def drive_defs split: option.splits res.splits bool.splits)
qed

lemma drive_others_inv:
  assumes "drive_inv evs dv" and "dv_phase dv = Selecting"
  shows "drive_inv evs (drive_datagram W d dv)" and "drive_inv evs (drive_timer W now dv)" and "drive_inv evs (dv\<lparr>dv_phase := Polling\<rparr>)"
  using assms by (auto simp: drive_datagram_def drive_timer_def drive_inv_def drive_defs split: if_splits)

lemma drive_peer_inv:
  assumes "drive_inv evs dv"
  shows "peer_write m (dv_peer dv) = (Some (Ok u), p) \<Longrightarrow> drive_inv (evs @ [DvWritten m]) (dv\<lparr>dv_peer := p\<rparr>)"
    and "peer_select closed_first (dv_peer dv) = (Some (Some m), p) \<Longrightarrow> drive_inv (evs @ [DvTaken m]) (dv\<lparr>dv_peer := p\<rparr>)"
  using assms by (auto simp: peer_write_def peer_select_def drive_inv_def drive_defs split: if_splits list.splits)

lemma drive_quiet_inv: "drive_inv evs dv \<Longrightarrow> drive_inv (evs @ [DvQuiet]) dv"
  by (simp add: drive_inv_def drive_defs split: if_splits)

lemma drive_step_inv: "drive_step W cid dv ev dv' \<Longrightarrow> drive_inv evs dv \<Longrightarrow> drive_inv (evs @ [ev]) dv'"
proof (induction rule: drive_step.induct)
  case (poll dv now ev dv')
  then show ?case using drive_poll_inv [of evs dv W cid now] by (simp add: drive_keeps_def)
next
  case (outgoing dv ev dv')
  then show ?case using drive_outgoing_inv [of evs dv W cid "(ev, dv')"] by (simp add: drive_keeps_def)
qed (blast intro: drive_quiet_inv drive_others_inv drive_peer_inv drive_close_inv)+

lemma drive_run_inv: "drive_run W cid dv evs dv' \<Longrightarrow> drive_inv [] dv \<Longrightarrow> drive_inv evs dv'"
  by (induction rule: drive_run.induct) (auto intro: drive_step_inv)

text \<open>C27: The data channel of a snowflake keeps what it is given: whatever the stack and the network do, the messages the
  channel took are a prefix of those written, in order, and as long as the snowflake is open the others are still waiting;
  none is sent before the channel has opened, which is signalled at most once; and every message that arrives can be
  read once and in order.\<close>

theorem channel_keeps_order:
  assumes "drive_run W cid (drive_begin r p) evs dv" and "pr_out p = []" and "pr_rx p = []"
  shows "prefix (dv_sent evs) (dv_written evs) \<and>
    (pr_closed (dv_peer dv) \<or> dv_sent evs @ dv_waiting dv = dv_written evs) \<and>
    (if DvSignal \<in> set evs then count_list evs DvSignal = 1 else dv_sent evs = []) \<and>
    dv_taken evs @ pr_rx (dv_peer dv) = dv_delivered evs"
proof -
  have inv: "drive_inv evs dv" using drive_run_inv [OF assms(1) drive_begin_inv [OF assms(2,3)]] .
  then have a: "dv_sent evs @ dv_waiting dv = dv_written evs \<or> pr_closed (dv_peer dv) \<and> prefix (dv_sent evs) (dv_written evs)"
    by (auto simp: drive_inv_def sending_ok_def)
  then have "prefix (dv_sent evs) (dv_written evs)" by (metis prefix_def)
  moreover from a have "pr_closed (dv_peer dv) \<or> dv_sent evs @ dv_waiting dv = dv_written evs" by blast
  moreover have "if DvSignal \<in> set evs then count_list evs DvSignal = 1 else dv_sent evs = []"
    using inv by (cases "dv_open dv") (auto simp: drive_inv_def signal_ok_def count_list_0_iff)
  ultimately show ?thesis using inv by (simp add: drive_inv_def receiving_ok_def)
qed

section \<open>Samples\<close>

text \<open>A host at \<open>10.0.0.1\<close> whose stack offers that address; a stack that opens the channel when polled first and then takes
  every message.\<close>

definition home :: ip_addr where "home = IpV4 [10, 0, 0, 1]"

definition home_words :: "bytes list" where
  "home_words = [[49], [49], [117], [57], show_ip home, [57], ascii ''typ'', ascii ''host'']"

definition sample_webrtc :: webrtc_env where
  "sample_webrtc = \<lparr>wr_lookup = (\<lambda>_. None), wr_bind = Some 9, wr_route = (\<lambda>_. Some home), wr_host_ok = (\<lambda>_. True),
     wr_reflexive_ok = (\<lambda>_ _. True), wr_offer = (\<lambda>_ _ _. Some (candidate_line home_words))\<rparr>"

lemma offer_hides_local_hosts_witness:
  "\<exists>offer. prepare sample_webrtc [] [] False (\<lambda>_. []) 0 [] = Some (Ok offer) \<and>
     candidate_line home_words \<notin> set (crlf_lines (of_sdp offer))"
proof -
  have "\<not> is_unspecified home" by (simp add: home_def is_unspecified_def eval_nat_numeral)
  then have "\<exists>offer. prepare sample_webrtc [] [] False (\<lambda>_. []) 0 [] = Some (Ok offer)"
    by (simp add: prepare_def sample_webrtc_def resolve_ice_def bind_all_def)
  then obtain offer where o': "prepare sample_webrtc [] [] False (\<lambda>_. []) 0 [] = Some (Ok offer)" ..
  have ok: "ip_ok home" by (simp add: ip_ok_def home_def)
  have words: "list_all plain_word home_words" "home_words \<noteq> []"
    using show_ip_plain [OF ok] by (simp_all add: home_words_def plain_word_def ascii_def)
  have "home_words = [[49], [49], [117], [57], show_ip home, [57]] @ [ascii ''typ'', ascii ''host''] @ []" by (simp add: home_words_def)
  then have "\<exists>us vs. home_words = us @ [ascii ''typ'', ascii ''host''] @ vs" by blast
  moreover have "parse_ip (home_words ! 4) = Some home" "hidden_address home"
    using parse_ip_show [OF ok] by (simp_all add: home_words_def show_ip_def home_def hidden_address_def)
  moreover have "4 < length home_words" by (simp add: home_words_def)
  ultimately have "announces_hidden home_words" unfolding announces_hidden_def by blast
  with offer_hides_local_hosts [OF o'] words
  have "filter ((=) (candidate_line home_words)) (crlf_lines (of_sdp offer)) = []" by auto
  with o' show ?thesis by (auto simp: filter_empty_conv)
qed

definition sample_rtc :: "rtc_output list rtc_ops" where
  "sample_rtc = \<lparr>rt_poll = (\<lambda>r. case r of o' # os \<Rightarrow> (Ok o', os) | [] \<Rightarrow> (Ok (RtcTimeout 0), [])), rt_threshold = (\<lambda>_ _ r. r),
     rt_write = (\<lambda>_ _ r. (Some (Ok True), r)), rt_alive = (\<lambda>_. True), rt_disconnect = (\<lambda>r. r), rt_packet = (\<lambda>_. True),
     rt_accepts = (\<lambda>_ _. True), rt_handle = (\<lambda>_ r. r)\<rparr>"

lemma channel_keeps_order_witness:
  "let evs = [DvWritten [7], DvSignal, DvDelivered [8], DvQuiet, DvSent [7]]
   in (\<exists>dv. drive_run sample_rtc 1 (drive_begin [ChannelOpen 1, ChannelData 1 [8]] (peer_new 0 [])) evs dv) \<and>
      prefix (dv_sent evs) (dv_written evs)"
proof -
  let ?evs = "[DvWritten [7], DvSignal, DvDelivered [8], DvQuiet, DvSent [7]]"
  let ?start = "drive_begin [ChannelOpen 1, ChannelData 1 [8]] (peer_new 0 [])"
  let ?d1 = "?start\<lparr>dv_peer := (peer_new 0 [])\<lparr>pr_out := [[7]]\<rparr>\<rparr>"
  let ?poll = "drive_poll sample_rtc 1 0"
  let ?d2 = "snd (?poll ?d1)"
  let ?d3 = "snd (?poll ?d2)"
  let ?d4 = "snd (?poll ?d3)"
  let ?d5 = "snd (the (drive_outgoing sample_rtc 1 ?d4))"
  note eval = drive_begin_def peer_new_def peer_write_def PEER_OUTGOING_def drive_poll_def drive_output_def drive_turn_def
    sample_rtc_def Let_def peer_opened_def peer_emit_def peer_received_def drive_outgoing_def
  have 1: "drive_step sample_rtc 1 ?start (DvWritten [7]) ?d1" by (rule drive_step.writes) (simp add: eval)
  have 2: "drive_step sample_rtc 1 ?d1 DvSignal ?d2" by (rule drive_step.poll [where now = 0]) (simp_all add: eval)
  have 3: "drive_step sample_rtc 1 ?d2 (DvDelivered [8]) ?d3" by (rule drive_step.poll [where now = 0]) (simp_all add: eval)
  have 4: "drive_step sample_rtc 1 ?d3 DvQuiet ?d4" by (rule drive_step.poll [where now = 0]) (simp_all add: eval)
  have 5: "drive_step sample_rtc 1 ?d4 (DvSent [7]) ?d5" by (rule drive_step.outgoing) (simp_all add: eval)
  have final: "drive_run sample_rtc 1 ?start ?evs ?d5"
    using drive_more [OF drive_more [OF drive_more [OF drive_more [OF drive_more [OF drive_start 1] 2] 3] 4] 5] by simp
  from channel_keeps_order [OF final] have "prefix (dv_sent ?evs) (dv_written ?evs)" by (simp add: peer_new_def)
  with final show ?thesis unfolding Let_def by blast
qed

end
