(* ===== verification/Spec2Isabelle.thy ===== *)
theory Spec2Isabelle
  imports Obfs4Session Elligator KcpProgress Encapsulation Turbotunnel SmuxInv Webtunnel Socks5Props Snowflakes Scrub Amp ExtOrPort Sqs
    TlsChain App FsState SfClient WebRtc
begin

text \<open>
  Verification of lyrebird-rs, a pluggable transport for Tor: tor talks to a client
  process over SOCKS5, the client's transport hides the stream from the network, and a
  bridge runs the other end.  The program has three transports (obfs4, snowflake,
  webtunnel), a layer shared by them (cryptography, the pluggable transport
  protocol, HTTP, SOCKS5), and the wiring of tasks and sockets.

  \<^bold>\<open>How the model reads the code.\<close>  Every definition follows one item of the source and
  keeps its name where it can: a \<open>struct\<close> is a \<open>record\<close>, an \<open>enum\<close> a \<open>datatype\<close>, a machine
  integer a word (or an int or nat where it cannot overflow), a byte string a list of
  bytes.  A function that may fail returns \<open>Ok\<close> or \<open>Err\<close>, a failed assertion or an index out
  of range is \<open>Panic\<close> or \<open>None\<close>.  An \<open>async\<close> function is cut at its waits: what happens between two
  waits is a definition, a \<open>select!\<close> the list of the branches that are ready, the tasks
  interleave in a step relation.  The network is a list of events, so a read may
  return any piece of what was sent.  Third-party code (hashes, ciphers, base64, floating
  point, the URL parser) is a parameter: a record of functions, with its documented contract
  as a named hypothesis where a proof needs one, and an instance of it in the witnesses.

  \<^bold>\<open>Shared foundations.\<close>  \<open>Prelude\<close> holds bytes, results, endian conversions and list
  lemmas; \<open>Text\<close> the string functions of the standard library, \<open>Await\<close> results that may be
  waiting.  \<open>StreamDecoder\<close> is the locale of decoders that take a stream in pieces (interpreted
  for frames and packets), \<open>ByteSource\<close> the locale of sources read exactly (interpreted for the
  streams of snowflake), \<open>Relay\<close> has the locales of readers, writers
  and the relay between them (interpreted for TCP streams and for the tunnel of webtunnel).

  \<^bold>\<open>obfs4\<close> (\<open>src/transports/obfs4\<close>, \<open>src/shared/domain/crypto\<close>).  \<open>ByteBuf\<close> is the byte
  buffer; \<open>Gorand\<close>, \<open>Drbg\<close> and \<open>Probdist\<close> the random numbers and the weighted tables of
  lengths and delays, with the alias method shown exact; \<open>Field\<close>, \<open>Elligator\<close> and \<open>Ntor\<close> the
  obfuscated keys and the key exchange; \<open>ReplayFilter\<close> and \<open>Handshake\<close> the handshake
  messages, shown to agree with each other and to be accepted at most once;
  \<open>Framing\<close> and \<open>Packet\<close> the codec, with nonces never reused and any segmentation decoded;
  \<open>Conn\<close> the established connection in all timing modes; \<open>Obfs4State\<close> where a bridge's
  identity comes from and how it is published, \<open>FsState\<close> the files that keep it
  (\<open>adapters/fs_state_store.rs\<close>), which refine its store; \<open>Obfs4Peers\<close> and \<open>Obfs4Session\<close> the
  two ends, run against each other and against a prober.

  \<^bold>\<open>snowflake\<close> (\<open>src/transports/snowflake\<close>).  \<open>Kcp\<close> is the ARQ state machine, \<open>KcpInv\<close> its
  invariants over a network that loses, repeats and reorders, \<open>KcpSession\<close> the session and
  its tasks with the stream theorem, \<open>KcpProgress\<close> what is bound to happen.  \<open>Encapsulation\<close>
  puts packets on a stream, \<open>Turbotunnel\<close> is the packet connection that outlives its carriers,
  \<open>Smux\<close> the multiplexer with \<open>SmuxFrame\<close> (frames) and \<open>SmuxInv\<close> (its step relation and
  invariants).  \<open>Peer\<close> is one snowflake, a byte stream made of a data channel's messages,
  and \<open>Snowflakes\<close> the pool of them as a step relation; \<open>SfClient\<close> puts a connection together and takes
  it down (\<open>domain/client.rs\<close>).  \<open>WebRtc\<close> is \<open>adapters/webrtc.rs\<close>: what an offer reveals, and the task that
  drives a data channel, shown to keep the order of messages.  How a snowflake is found:
  \<open>Stun\<close> the NAT type (\<open>adapters/stun.rs\<close>), \<open>Broker\<close> the configuration and the messages of the
  broker (\<open>domain/config.rs\<close>, \<open>domain/broker.rs\<close>), carried by \<open>Rendezvous\<close> over HTTP with domain
  fronting or an AMP cache (\<open>Amp\<close>), or by \<open>Sqs\<close> over a queue with signed requests.

  \<^bold>\<open>webtunnel\<close> (\<open>src/transports/webtunnel\<close>).  \<open>Webtunnel\<close> holds the arguments, the TLS
  settings, the rotation of server names, the upgrade and the dial; \<open>TlsChain\<close> is
  \<open>adapters/rustls.rs\<close>: how the certificate chain is checked, and that nothing turns that off.

  \<^bold>\<open>Shared protocols.\<close>  From \<open>src/shared/domain/pt\<close>: \<open>PtArgs\<close> the argument parsers and encoders,
  \<open>NetAddr\<close> addresses with the parsers of the standard library, \<open>PtSetup\<close> the control lines
  and the managed environment, and the proxy setting of \<open>src/shared/domain/proxy.rs\<close>.
  \<open>Scrub\<close> is the log scrubber with the events of snowflake; \<open>Http\<close> is
  \<open>src/shared/domain/http.rs\<close>, with \<open>HttpRead\<close> on what reading gives, and \<open>HttpClient\<close> the client
  with its kept connection (\<open>src/shared/adapters/httpc.rs\<close>); \<open>Socks5\<close> is the SOCKS5 server
  (\<open>src/shared/adapters/socks5.rs\<close>), with \<open>Socks5Props\<close> on soundness and completeness of the handshake;
  \<open>OutProxy\<close> the dialers through outbound proxies (\<open>src/shared/adapters/proxy.rs\<close>), whose SOCKS5 is shown to
  fit that server; \<open>ExtOrPort\<close> the authenticated connection of a bridge to its tor.

  \<^bold>\<open>Application\<close> (\<open>src/app\<close>, \<open>src/main.rs\<close>).  \<open>Relay\<close> copies between tor and a transport, shown
  transparent; \<open>App\<close> holds the flags, the logging policy, the setup that answers tor for every method,
  a connection from its SOCKS request to its relay, and the shutdown.

  \<^bold>\<open>Bounds.\<close>  Loops that may not end are partial functions into an option, so that a theorem
  that they return is stated as such; the only fuel is that of the witnesses.  Theorems on KCP
  speak of streams below 4 GiB, the range of its sequence numbers; those on smux of a receive
  buffer below 2 GiB, the range of its tokens.

  \<^bold>\<open>Not modelled.\<close>  The adapters of sockets, processes, standard output and signals, which only call
  the system, and module and trait declarations without logic; the texts of log lines; the libraries that the
  program calls, which are parameters (the WebRTC stack, TLS, cryptographic primitives, JSON, URLs).  Left out of
  error paths: after a frame that cannot be encoded \<open>write_frames\<close> gives back the encoder of before, and
  \<open>upgrade_client\<close> has no failing write of the request.
\<close>

end
